(* ===== verification/Prelude.thy ===== *)
theory Prelude
  imports Main "HOL-Library.Word" "HOL-Library.AList" "HOL-Library.Multiset"
begin

text \<open>
  Shared vocabulary of the development: Python exceptions as values and the monad-like
  sequencing of fallible calls, Python integer division and slicing, Python dictionaries as
  association lists (\<open>AList.update\<close> keeps the position of an existing key and appends a
  new one, \<open>AList.delete\<close> removes it: the insertion order of a Python \<open>dict\<close>), and the
  generic lemmas on lists and counts that the component theories share.
\<close>

subsection \<open>Exceptions as values\<close>

text \<open>
  The exceptions the modelled code raises. \<open>Diverges\<close> is not an exception: it is the value of a
  loop model that ran out of fuel, so that \<open>does not return\<close> is distinct from every result.
\<close>

datatype py_error =
    ValueError
  | RuntimeError
  | AssertionError
  | IndexError
  | KeyError
  | OverflowError
  | ZeroDivisionError
  | NotImplementedError
  | StopIteration
  | NameError
  | OSError
  | Diverges

type_synonym 'a result = "py_error + 'a"

definition bindR :: "'e + 'a \<Rightarrow> ('a \<Rightarrow> 'e + 'b) \<Rightarrow> 'e + 'b" where
  "bindR m f = (case m of Inl e \<Rightarrow> Inl e | Inr x \<Rightarrow> f x)"

definition assertR :: "bool \<Rightarrow> unit result" where
  "assertR b = (if b then Inr () else Inl AssertionError)"

named_theorems result_simps

declare bindR_def [code_unfold]

lemma bindR_simps [simp, result_simps]:
  "bindR (Inl e) f = Inl e"
  "bindR (Inr x) f = f x"
  by (simp_all add: bindR_def)

lemma bindR_eq_Inr [result_simps]:
  "bindR m f = Inr y \<longleftrightarrow> (\<exists>x. m = Inr x \<and> f x = Inr y)"
  by (cases m) (auto simp: bindR_def)

lemma bindR_eq_Inl [result_simps]:
  "bindR m f = Inl e \<longleftrightarrow> m = Inl e \<or> (\<exists>x. m = Inr x \<and> f x = Inl e)"
  by (cases m) (auto simp: bindR_def)

lemma bindR_cong [fundef_cong]:
  assumes "m = m'" and "\<And>x. m' = Inr x \<Longrightarrow> f x = g x"
  shows "bindR m f = bindR m' g"
  using assms by (cases m') auto

lemma assertR_simps [simp, result_simps]:
  "assertR True = Inr ()"
  "assertR False = Inl AssertionError"
  "assertR b = Inr u \<longleftrightarrow> b"
  "assertR b = Inl e \<longleftrightarrow> \<not> b \<and> e = AssertionError"
  by (auto simp: assertR_def)

text \<open>A loop body that may raise, run over a list from left to right.\<close>

fun foldR :: "('a \<Rightarrow> 's \<Rightarrow> 's result) \<Rightarrow> 'a list \<Rightarrow> 's \<Rightarrow> 's result" where
  "foldR f [] s = Inr s"
| "foldR f (x # xs) s = bindR (f x s) (foldR f xs)"

lemma foldR_append [simp]: "foldR f (xs @ ys) s = bindR (foldR f xs s) (foldR f ys)"
proof (induction xs arbitrary: s)
  case Nil
  then show ?case by simp
next
  case (Cons x xs)
  then show ?case by (cases "f x s") auto
qed

lemma foldR_invariant:
  assumes "foldR f xs s = Inr t" and "P s"
    and "\<And>x s t. x \<in> set xs \<Longrightarrow> P s \<Longrightarrow> f x s = Inr t \<Longrightarrow> P t"
  shows "P t"
  using assms
proof (induction xs arbitrary: s)
  case Nil
  then show ?case by simp
next
  case (Cons x xs)
  from Cons.prems(1) obtain u where u: "f x s = Inr u" "foldR f xs u = Inr t"
    by (auto simp: bindR_eq_Inr)
  have "P u"
    using Cons.prems(3) [of x s u] Cons.prems(2) u(1) by simp
  then show ?case
    using Cons.IH [OF u(2)] Cons.prems(3) by (meson list.set_intros(2))
qed

text \<open>A comprehension whose expression may raise.\<close>

fun mapR :: "('a \<Rightarrow> 'b result) \<Rightarrow> 'a list \<Rightarrow> 'b list result" where
  "mapR f [] = Inr []"
| "mapR f (x # xs) = bindR (f x) (\<lambda>y. bindR (mapR f xs) (\<lambda>ys. Inr (y # ys)))"

subsection \<open>Python integers: ceiling division\<close>

text \<open>\<open>cdiv\<close> of \<open>vllm/utils/math_utils.py\<close>: Python's \<open>//\<close> is Isabelle's \<open>div\<close>.\<close>

definition cdiv :: "int \<Rightarrow> int \<Rightarrow> int" where
  "cdiv a b = - (a div (- b))"

lemma cdiv_bounds:
  assumes "0 < b"
  shows "a \<le> cdiv a b * b" and "cdiv a b * b < a + b"
proof -
  have eq: "cdiv a b = - ((- a) div b)"
    unfolding cdiv_def by (metis div_minus_minus minus_minus)
  have m: "(- a) div b * b + (- a) mod b = - a" by simp
  have "0 \<le> (- a) mod b" "(- a) mod b < b"
    using assms by simp_all
  with m have "(- a) div b * b \<le> - a" and "- a < (- a) div b * b + b"
    by linarith+
  then show "a \<le> cdiv a b * b" and "cdiv a b * b < a + b"
    by (simp_all add: eq)
qed

lemma cdiv_le_iff:
  assumes "0 < b"
  shows "cdiv a b \<le> k \<longleftrightarrow> a \<le> k * b"
proof
  assume "cdiv a b \<le> k"
  then have "cdiv a b * b \<le> k * b"
    using assms by (simp add: mult_right_mono)
  with cdiv_bounds(1) [OF assms, of a] show "a \<le> k * b" by linarith
next
  assume "a \<le> k * b"
  with cdiv_bounds(2) [OF assms, of a] have "cdiv a b * b < (k + 1) * b"
    by (simp add: algebra_simps)
  then show "cdiv a b \<le> k"
    using assms mult_less_cancel_right_pos by fastforce
qed

lemma cdiv_mult [simp]: "0 < b \<Longrightarrow> cdiv (k * b) b = k"
  using cdiv_le_iff [of b "k * b" k] cdiv_bounds(1) [of b "k * b"]
  by (simp add: order.antisym)

lemma cdiv_mono: "0 < b \<Longrightarrow> x \<le> y \<Longrightarrow> cdiv x b \<le> cdiv y b"
  using cdiv_bounds(1) [of b y] by (simp add: cdiv_le_iff)

lemma le_cdiv: "0 < b \<Longrightarrow> k * b \<le> x \<Longrightarrow> k \<le> cdiv x b"
  using cdiv_mono [of b "k * b" x] by simp

lemma cdiv_nonneg: "0 < b \<Longrightarrow> 0 \<le> a \<Longrightarrow> 0 \<le> cdiv a b"
  using cdiv_mono [of b 0 a] by (simp add: cdiv_def)

lemma le_div_int_iff:
  fixes a b k :: int
  assumes "0 < b"
  shows "k \<le> a div b \<longleftrightarrow> k * b \<le> a"
proof
  assume "k \<le> a div b"
  then have "k * b \<le> a div b * b" using assms by (simp add: mult_right_mono)
  also have "\<dots> \<le> a"
    using pos_mod_sign [OF assms, of a] minus_mod_eq_div_mult [of a b] by linarith
  finally show "k * b \<le> a" .
next
  assume "k * b \<le> a"
  from zdiv_mono1 [OF this assms] show "k \<le> a div b" using assms by simp
qed

subsection \<open>Python slices\<close>

text \<open>Python's bound normalisation of a slice index: negative counts from the end, then clamps.\<close>

definition slice_bound :: "nat \<Rightarrow> int \<Rightarrow> nat" where
  "slice_bound n i = (if i < 0 then nat (max 0 (int n + i)) else min n (nat i))"

definition slice_from :: "'a list \<Rightarrow> int \<Rightarrow> 'a list" where
  "slice_from xs i = drop (slice_bound (length xs) i) xs"

definition slice_to :: "'a list \<Rightarrow> int \<Rightarrow> 'a list" where
  "slice_to xs j = take (slice_bound (length xs) j) xs"

definition slice_between :: "'a list \<Rightarrow> int \<Rightarrow> int \<Rightarrow> 'a list" where
  "slice_between xs i j =
     drop (slice_bound (length xs) i) (take (slice_bound (length xs) j) xs)"

lemma slice_nonneg [simp]:
  "0 \<le> i \<Longrightarrow> slice_from xs i = drop (nat i) xs"
  "0 \<le> i \<Longrightarrow> slice_to xs i = take (nat i) xs"
  "0 \<le> i \<Longrightarrow> 0 \<le> j \<Longrightarrow> slice_between xs i j = drop (nat i) (take (nat j) xs)"
  by (auto simp: slice_from_def slice_to_def slice_between_def slice_bound_def min_def)

text \<open>Python indexing \<open>xs[i]\<close>: negative indices count from the end, out of range raises.\<close>

definition py_nth :: "'a list \<Rightarrow> int \<Rightarrow> 'a result" where
  "py_nth xs i =
     (if 0 \<le> i \<and> nat i < length xs then Inr (xs ! nat i)
      else if i < 0 \<and> nat (- i) \<le> length xs then Inr (xs ! (length xs - nat (- i)))
      else Inl IndexError)"

lemma py_nth_nonneg [simp]:
  "0 \<le> i \<Longrightarrow> nat i < length xs \<Longrightarrow> py_nth xs i = Inr (xs ! nat i)"
  "py_nth xs (int k) = (if k < length xs then Inr (xs ! k) else Inl IndexError)"
  by (auto simp: py_nth_def)

lemma py_nth_last: "xs \<noteq> [] \<Longrightarrow> py_nth xs (- 1) = Inr (last xs)"
  by (auto simp: py_nth_def last_conv_nth Suc_le_eq)

subsection \<open>Python dictionaries\<close>

abbreviation dict_keys :: "('k \<times> 'v) list \<Rightarrow> 'k set" where
  "dict_keys d \<equiv> fst ` set d"

definition dict_get :: "('k \<times> 'v) list \<Rightarrow> 'k \<Rightarrow> 'v \<Rightarrow> 'v" where
  "dict_get d k v = (case map_of d k of None \<Rightarrow> v | Some w \<Rightarrow> w)"

lemma dict_get_update [simp]:
  "dict_get (AList.update k v d) k' w = (if k' = k then v else dict_get d k' w)"
  by (simp add: dict_get_def update_conv')

lemma dict_get_delete [simp]:
  "dict_get (AList.delete k d) k' w = (if k' = k then w else dict_get d k' w)"
  by (simp add: dict_get_def delete_conv')

lemma dict_get_nil [simp]: "dict_get [] k v = v"
  by (simp add: dict_get_def)

lemma distinct_keys_update [simp]:
  "distinct (map fst d) \<Longrightarrow> distinct (map fst (AList.update k v d))"
  by (rule distinct_update)

lemma distinct_keys_delete [simp]:
  "distinct (map fst d) \<Longrightarrow> distinct (map fst (AList.delete k d))"
  by (rule distinct_delete)

subsection \<open>Lists\<close>

lemma filter_distinct_remove1:
  "distinct xs \<Longrightarrow> remove1 x xs = filter (\<lambda>y. y \<noteq> x) xs"
  by (simp add: distinct_remove1_removeAll removeAll_filter_not_eq eq_commute)

lemma last_append_hd:
  "last (x # xs) \<in> set (x # xs)"
  by (rule last_in_set) simp

lemma hd_in_append_snoc: "hd (xs @ [y]) \<in> insert y (set xs)"
  by (cases xs) auto

lemma butlast_last_notin: "distinct xs \<Longrightarrow> xs \<noteq> [] \<Longrightarrow> last xs \<notin> set (butlast xs)"
  by (induction xs) (auto split: if_splits dest: in_set_butlastD)

lemma hd_notin_tl: "distinct xs \<Longrightarrow> xs \<noteq> [] \<Longrightarrow> hd xs \<notin> set (tl xs)"
  by (cases xs) auto

lemma in_set_tlD: "x \<in> set (tl xs) \<Longrightarrow> x \<in> set xs"
  by (cases xs) auto

lemma distinct_count_list: "distinct xs \<Longrightarrow> count_list xs x = (if x \<in> set xs then 1 else 0)"
  by (induction xs) auto

lemma distinct_filter_nth_eq:
  "distinct (filter P xs) \<Longrightarrow> i < length xs \<Longrightarrow> j < length xs \<Longrightarrow> P (xs ! i) \<Longrightarrow> xs ! i = xs ! j \<Longrightarrow> i = j"
proof (induction xs arbitrary: i j)
  case Nil
  then show ?case by simp
next
  case (Cons x xs)
  show ?case
  proof (cases i; cases j)
    fix i' j' assume "i = Suc i'" "j = Suc j'"
    with Cons.prems Cons.IH [of i' j'] show ?thesis by (simp split: if_splits)
  next
    fix j' assume "i = 0" "j = Suc j'"
    with Cons.prems nth_mem [of j' xs] show ?thesis by (auto split: if_splits)
  next
    fix i' assume "i = Suc i'" "j = 0"
    with Cons.prems nth_mem [of i' xs] show ?thesis by (auto split: if_splits)
  qed simp
qed

lemma distinct_filterI:
  "(\<And>i j. i < length xs \<Longrightarrow> j < length xs \<Longrightarrow> P (xs ! i) \<Longrightarrow> xs ! i = xs ! j \<Longrightarrow> i = j) \<Longrightarrow> distinct (filter P xs)"
proof (induction xs)
  case Nil
  then show ?case by simp
next
  case (Cons x xs)
  have "distinct (filter P xs)"
    using Cons.prems [of "Suc i" "Suc j" for i j] by (intro Cons.IH) simp
  moreover have "x \<notin> set xs" if px: "P x"
  proof
    assume "x \<in> set xs"
    then obtain j where "j < length xs" "xs ! j = x" by (auto simp: in_set_conv_nth)
    with Cons.prems [of 0 "Suc j"] px show False by simp
  qed
  ultimately show ?case by auto
qed

lemma distinct_filter_take_drop:
  assumes "distinct (filter P xs)"
  shows "distinct (filter P (take n xs))" "distinct (filter P (drop n xs))"
proof -
  have "filter P xs = filter P (take n xs) @ filter P (drop n xs)"
    by (metis append_take_drop_id filter_append)
  with assms show "distinct (filter P (take n xs))" "distinct (filter P (drop n xs))" by simp_all
qed

lemma length_filter_mono:
  "(\<And>x. x \<in> set xs \<Longrightarrow> P x \<Longrightarrow> Q x) \<Longrightarrow> length (filter P xs) \<le> length (filter Q xs)"
  by (induction xs) (auto simp: le_SucI)

end
