(* ===== verification/Free_Block_Queue.thy ===== *)
theory Free_Block_Queue
  imports Prelude
begin

text \<open>
  \<open>KVCacheBlock\<close> and \<open>FreeKVCacheBlockQueue\<close> of \<open>vllm/v1/core/kv_cache_utils.py\<close>: the block
  objects live in an object store indexed by references, the free queue is a doubly linked
  list threaded through the \<open>prev_free_block\<close>/\<open>next_free_block\<close> attributes of the objects
  between two sentinel objects. The abstraction relation \<open>dll\<close> ties the pointer structure to
  a list of references in eviction order, and every operation refines an operation on that list.
\<close>

subsection \<open>Block objects and the object store\<close>

text \<open>
  A reference is the identity of a \<open>KVCacheBlock\<close> object: a block of the pool by its
  \<open>block_id\<close>, or one of the two sentinels the queue allocates (with \<open>block_id = -1\<close>).
\<close>

datatype block_ref = Blk nat | FakeHead | FakeTail

fun block_id :: "block_ref \<Rightarrow> int" where
  "block_id (Blk n) = int n"
| "block_id FakeHead = - 1"
| "block_id FakeTail = - 1"

type_synonym bytes = "8 word list"

record kv_cache_block =
  ref_cnt :: int
  block_hash :: "bytes option"
  prev_free_block :: "block_ref option"
  next_free_block :: "block_ref option"
  is_null :: bool

definition new_block :: kv_cache_block where
  "new_block = \<lparr>ref_cnt = 0, block_hash = None, prev_free_block = None,
                next_free_block = None, is_null = False\<rparr>"

type_synonym store = "block_ref \<Rightarrow> kv_cache_block"

definition set_prev :: "block_ref \<Rightarrow> block_ref option \<Rightarrow> store \<Rightarrow> store" where
  "set_prev r v s = s(r := (s r)\<lparr>prev_free_block := v\<rparr>)"

definition set_next :: "block_ref \<Rightarrow> block_ref option \<Rightarrow> store \<Rightarrow> store" where
  "set_next r v s = s(r := (s r)\<lparr>next_free_block := v\<rparr>)"

text \<open>The setter of the \<open>block_hash\<close> property asserts that no hash is set.\<close>

definition set_block_hash :: "block_ref \<Rightarrow> bytes \<Rightarrow> store \<Rightarrow> store result" where
  "set_block_hash r h s =
     (if block_hash (s r) = None then Inr (s(r := (s r)\<lparr>block_hash := Some h\<rparr>))
      else Inl AssertionError)"

definition reset_hash :: "block_ref \<Rightarrow> store \<Rightarrow> store" where
  "reset_hash r s = s(r := (s r)\<lparr>block_hash := None\<rparr>)"

subsection \<open>The queue\<close>

record free_queue =
  store :: store
  num_free_blocks :: int

text \<open>One iteration of the linking loop of \<open>__init__\<close>.\<close>

definition init_link :: "block_ref list \<Rightarrow> nat \<Rightarrow> store \<Rightarrow> store" where
  "init_link blocks i s =
     (let s1 = (if i > 0 then set_prev (blocks ! i) (Some (blocks ! (i - 1))) s else s)
      in if i + 1 < length blocks then set_next (blocks ! i) (Some (blocks ! (i + 1))) s1
         else s1)"

definition free_queue_init :: "block_ref list \<Rightarrow> store \<Rightarrow> free_queue" where
  "free_queue_init blocks s0 =
     (let s1 = fold (init_link blocks) [0..<length blocks] s0;
          s2 = s1(FakeHead := new_block, FakeTail := new_block)
      in \<lparr>store =
           (if length blocks > 0 then
              set_next (last blocks) (Some FakeTail)
                (set_prev FakeTail (Some (last blocks))
                  (set_prev (hd blocks) (Some FakeHead)
                    (set_next FakeHead (Some (hd blocks)) s2)))
            else
              set_prev FakeTail (Some FakeHead) (set_next FakeHead (Some FakeTail) s2)),
          num_free_blocks = int (length blocks)\<rparr>)"

definition popleft :: "free_queue \<Rightarrow> (block_ref \<times> free_queue) result" where
  "popleft q =
     (case next_free_block (store q FakeHead) of
        None \<Rightarrow> bindR (assertR (num_free_blocks q = 0)) (\<lambda>_. Inl ValueError)
      | Some first \<Rightarrow>
          if first = FakeTail
          then bindR (assertR (num_free_blocks q = 0)) (\<lambda>_. Inl ValueError)
          else (case next_free_block (store q first) of
                  None \<Rightarrow> Inl RuntimeError
                | Some second \<Rightarrow>
                    let s1 = set_next FakeHead (Some second) (store q);
                        s2 = set_prev second (Some FakeHead) s1;
                        s3 = set_next first None (set_prev first None s2)
                    in Inr (first, q\<lparr>store := s3, num_free_blocks := num_free_blocks q - 1\<rparr>)))"

text \<open>The \<open>for _ in range(n)\<close> loop of \<open>popleft_n\<close>: the current block, the popped ones so far.\<close>

fun popleft_n_loop ::
  "nat \<Rightarrow> block_ref option \<Rightarrow> block_ref list \<Rightarrow> store
   \<Rightarrow> (block_ref list \<times> block_ref option \<times> store) result" where
  "popleft_n_loop 0 cur ret s = Inr (ret, cur, s)"
| "popleft_n_loop (Suc k) cur ret s =
     (case cur of
        None \<Rightarrow> Inl AssertionError
      | Some c \<Rightarrow> popleft_n_loop k (next_free_block (s c)) (ret @ [c])
                    (set_next c None (set_prev c None s)))"

definition popleft_n :: "int \<Rightarrow> free_queue \<Rightarrow> (block_ref list \<times> free_queue) result" where
  "popleft_n n q =
     (if n = 0 then Inr ([], q)
      else bindR (assertR (num_free_blocks q \<ge> n)) (\<lambda>_.
           bindR (popleft_n_loop (nat n) (next_free_block (store q FakeHead)) [] (store q))
             (\<lambda>(ret, cur, s).
                Inr (ret, q\<lparr>store :=
                       (case cur of
                          None \<Rightarrow> s
                        | Some c \<Rightarrow> set_prev c (Some FakeHead) (set_next FakeHead (Some c) s)),
                     num_free_blocks := num_free_blocks q - n\<rparr>))))"

definition remove :: "block_ref \<Rightarrow> free_queue \<Rightarrow> free_queue result" where
  "remove b q =
     (case (prev_free_block (store q b), next_free_block (store q b)) of
        (Some p, Some n) \<Rightarrow>
          let s1 = set_next p (Some n) (store q);
              s2 = set_prev n (Some p) s1;
              s3 = set_next b None (set_prev b None s2)
          in Inr (q\<lparr>store := s3, num_free_blocks := num_free_blocks q - 1\<rparr>)
      | _ \<Rightarrow> Inl RuntimeError)"

definition append_block :: "block_ref \<Rightarrow> free_queue \<Rightarrow> free_queue result" where
  "append_block b q =
     (case prev_free_block (store q FakeTail) of
        None \<Rightarrow> Inl RuntimeError
      | Some l \<Rightarrow>
          let s1 = set_prev b (Some l) (set_next l (Some b) (store q));
              s2 = set_prev FakeTail (Some b) (set_next b (Some FakeTail) s1)
          in Inr (q\<lparr>store := s2, num_free_blocks := num_free_blocks q + 1\<rparr>))"

fun append_n_loop :: "block_ref list \<Rightarrow> block_ref \<Rightarrow> store \<Rightarrow> block_ref \<times> store" where
  "append_n_loop [] l s = (l, s)"
| "append_n_loop (b # bs) l s =
     append_n_loop bs b (set_next l (Some b) (set_prev b (Some l) s))"

definition append_n :: "block_ref list \<Rightarrow> free_queue \<Rightarrow> free_queue result" where
  "append_n bs q =
     (if length bs = 0 then Inr q
      else (case prev_free_block (store q FakeTail) of
              None \<Rightarrow> Inl AssertionError
            | Some l0 \<Rightarrow>
                (case append_n_loop bs l0 (store q) of
                   (l, s) \<Rightarrow>
                     Inr (q\<lparr>store := set_prev FakeTail (Some l) (set_next l (Some FakeTail) s),
                            num_free_blocks := num_free_blocks q + int (length bs)\<rparr>))))"

text \<open>The traversal loop may not end on a cyclic store: \<open>None\<close> is divergence.\<close>

partial_function (option) collect_free ::
  "store \<Rightarrow> block_ref \<Rightarrow> block_ref list \<Rightarrow> block_ref list option" where
  "collect_free s cur ret =
     (case next_free_block (s cur) of
        None \<Rightarrow> Some ret
      | Some n \<Rightarrow> collect_free s n (ret @ [cur]))"

definition get_all_free_blocks :: "free_queue \<Rightarrow> block_ref list result option" where
  "get_all_free_blocks q =
     (case next_free_block (store q FakeHead) of
        None \<Rightarrow> Some (Inl RuntimeError)
      | Some c \<Rightarrow> map_option Inr (collect_free (store q) c []))"

subsection \<open>Attributes under updates\<close>

named_theorems attr_simps

lemma set_prev_attrs [simp, attr_simps]:
  "prev_free_block (set_prev r v s x) = (if x = r then v else prev_free_block (s x))"
  "next_free_block (set_prev r v s x) = next_free_block (s x)"
  "ref_cnt (set_prev r v s x) = ref_cnt (s x)"
  "block_hash (set_prev r v s x) = block_hash (s x)"
  "is_null (set_prev r v s x) = is_null (s x)"
  by (simp_all add: set_prev_def)

lemma set_next_attrs [simp, attr_simps]:
  "next_free_block (set_next r v s x) = (if x = r then v else next_free_block (s x))"
  "prev_free_block (set_next r v s x) = prev_free_block (s x)"
  "ref_cnt (set_next r v s x) = ref_cnt (s x)"
  "block_hash (set_next r v s x) = block_hash (s x)"
  "is_null (set_next r v s x) = is_null (s x)"
  by (simp_all add: set_next_def)

lemma reset_hash_attrs [simp, attr_simps]:
  "prev_free_block (reset_hash r s x) = prev_free_block (s x)"
  "next_free_block (reset_hash r s x) = next_free_block (s x)"
  "ref_cnt (reset_hash r s x) = ref_cnt (s x)"
  "block_hash (reset_hash r s x) = (if x = r then None else block_hash (s x))"
  "is_null (reset_hash r s x) = is_null (s x)"
  by (simp_all add: reset_hash_def)

text \<open>The data attributes of a block: everything but the two link attributes.\<close>

definition same_data :: "store \<Rightarrow> store \<Rightarrow> bool" where
  "same_data s t \<longleftrightarrow>
     (\<forall>x. ref_cnt (s x) = ref_cnt (t x) \<and> block_hash (s x) = block_hash (t x)
        \<and> is_null (s x) = is_null (t x))"

lemma same_data_refl [simp]: "same_data s s"
  by (simp add: same_data_def)

lemma same_data_set [simp]:
  "same_data s (set_prev r v t) = same_data s t"
  "same_data s (set_next r v t) = same_data s t"
  by (simp_all add: same_data_def)

subsection \<open>Linked segments\<close>

fun linked :: "store \<Rightarrow> block_ref list \<Rightarrow> bool" where
  "linked s [] = True"
| "linked s [r] = True"
| "linked s (r # r' # rs) =
     (next_free_block (s r) = Some r' \<and> prev_free_block (s r') = Some r \<and> linked s (r' # rs))"

lemma linked_Cons:
  "rs \<noteq> [] \<Longrightarrow> linked s (r # rs) \<longleftrightarrow>
     next_free_block (s r) = Some (hd rs) \<and> prev_free_block (s (hd rs)) = Some r \<and> linked s rs"
  by (cases rs) auto

lemma linked_append:
  assumes "xs \<noteq> []" and "ys \<noteq> []"
  shows "linked s (xs @ ys) \<longleftrightarrow>
     linked s xs \<and> next_free_block (s (last xs)) = Some (hd ys)
     \<and> prev_free_block (s (hd ys)) = Some (last xs) \<and> linked s ys"
  using assms(1)
proof (induction xs)
  case Nil
  then show ?case by simp
next
  case (Cons x xs)
  show ?case
  proof (cases "xs = []")
    case True
    with assms(2) show ?thesis by (simp add: linked_Cons)
  next
    case False
    with Cons.IH show ?thesis by (auto simp: linked_Cons)
  qed
qed

lemma linked_cong:
  assumes "\<And>r. r \<in> set (butlast rs) \<Longrightarrow> next_free_block (s r) = next_free_block (t r)"
    and "\<And>r. r \<in> set (tl rs) \<Longrightarrow> prev_free_block (s r) = prev_free_block (t r)"
  shows "linked s rs = linked t rs"
  using assms
proof (induction s rs rule: linked.induct)
  case (3 s r r' rs)
  have "linked s (r' # rs) = linked t (r' # rs)"
    using "3.prems" by (intro "3.IH") (auto split: if_splits)
  with "3.prems" show ?case by auto
qed auto

subsection \<open>The abstraction relation\<close>

definition sentinels :: "block_ref set" where
  "sentinels = {FakeHead, FakeTail}"

definition dll :: "free_queue \<Rightarrow> block_ref list \<Rightarrow> bool" where
  "dll q xs \<longleftrightarrow>
     distinct xs \<and> set xs \<inter> sentinels = {}
     \<and> linked (store q) (FakeHead # xs @ [FakeTail])
     \<and> prev_free_block (store q FakeHead) = None \<and> next_free_block (store q FakeTail) = None
     \<and> (\<forall>r. r \<notin> set xs \<union> sentinels \<longrightarrow>
           prev_free_block (store q r) = None \<and> next_free_block (store q r) = None)
     \<and> num_free_blocks q = int (length xs)"

lemma dllD:
  assumes "dll q xs"
  shows "distinct xs" and "FakeHead \<notin> set xs" and "FakeTail \<notin> set xs"
    and "linked (store q) (FakeHead # xs @ [FakeTail])"
    and "num_free_blocks q = int (length xs)"
    and "next_free_block (store q FakeHead) = Some (hd (xs @ [FakeTail]))"
    and "prev_free_block (store q FakeTail) = Some (last (FakeHead # xs))"
    and "next_free_block (store q FakeTail) = None"
    and "prev_free_block (store q FakeHead) = None"
proof -
  show "distinct xs" and "FakeHead \<notin> set xs" and "FakeTail \<notin> set xs"
    and l: "linked (store q) (FakeHead # xs @ [FakeTail])"
    and "num_free_blocks q = int (length xs)"
    and "next_free_block (store q FakeTail) = None"
    and "prev_free_block (store q FakeHead) = None"
    using assms by (auto simp: dll_def sentinels_def)
  from l show "next_free_block (store q FakeHead) = Some (hd (xs @ [FakeTail]))"
    by (simp add: linked_Cons)
  from l linked_append [of "FakeHead # xs" "[FakeTail]" "store q"]
  show "prev_free_block (store q FakeTail) = Some (last (FakeHead # xs))"
    by simp
qed

text \<open>Cutting a block (or a whole prefix) out of a linked segment and rejoining the ends.\<close>

lemma linked_rejoin:
  assumes l: "linked s (as @ ms @ bs)" and d: "distinct (as @ ms @ bs)"
    and ne: "as \<noteq> []" "bs \<noteq> []"
    and nx: "\<And>r. r \<noteq> last as \<Longrightarrow> r \<notin> set ms \<Longrightarrow> next_free_block (t r) = next_free_block (s r)"
    and pv: "\<And>r. r \<noteq> hd bs \<Longrightarrow> r \<notin> set ms \<Longrightarrow> prev_free_block (t r) = prev_free_block (s r)"
    and join: "next_free_block (t (last as)) = Some (hd bs)"
      "prev_free_block (t (hd bs)) = Some (last as)"
  shows "linked t (as @ bs)"
proof -
  have "linked s as" and "linked s bs"
    using l ne linked_append [of as "ms @ bs" s] linked_append [of ms bs s]
    by (cases "ms = []"; simp)+
  moreover have "linked t as = linked s as"
  proof (rule linked_cong)
    fix r assume "r \<in> set (butlast as)"
    then have "r \<in> set as" "r \<noteq> last as"
      using d ne(1) butlast_last_notin [of as] by (auto dest: in_set_butlastD)
    with d show "next_free_block (t r) = next_free_block (s r)"
      by (intro nx) auto
  next
    fix r assume "r \<in> set (tl as)"
    then have "r \<in> set as" by (rule in_set_tlD)
    moreover have "hd bs \<in> set bs" using ne(2) by simp
    ultimately show "prev_free_block (t r) = prev_free_block (s r)"
      using d by (intro pv) auto
  qed
  moreover have "linked t bs = linked s bs"
  proof (rule linked_cong)
    fix r assume "r \<in> set (butlast bs)"
    then have "r \<in> set bs" by (rule in_set_butlastD)
    moreover have "last as \<in> set as" using ne(1) by simp
    ultimately show "next_free_block (t r) = next_free_block (s r)"
      using d by (intro nx) auto
  next
    fix r assume "r \<in> set (tl bs)"
    then have "r \<in> set bs" "r \<noteq> hd bs"
      using d ne(2) hd_notin_tl [of bs] by (auto dest: in_set_tlD)
    with d show "prev_free_block (t r) = prev_free_block (s r)"
      by (intro pv) auto
  qed
  ultimately show ?thesis
    using join ne by (simp add: linked_append)
qed

lemma dll_cut:
  assumes q: "dll q (as @ ms @ bs)"
    and nx: "\<And>r. r \<noteq> last (FakeHead # as) \<Longrightarrow> r \<notin> set ms
               \<Longrightarrow> next_free_block (t r) = next_free_block (store q r)"
    and pv: "\<And>r. r \<noteq> hd (bs @ [FakeTail]) \<Longrightarrow> r \<notin> set ms
               \<Longrightarrow> prev_free_block (t r) = prev_free_block (store q r)"
    and join: "next_free_block (t (last (FakeHead # as))) = Some (hd (bs @ [FakeTail]))"
      "prev_free_block (t (hd (bs @ [FakeTail]))) = Some (last (FakeHead # as))"
    and cleared: "\<And>r. r \<in> set ms \<Longrightarrow> prev_free_block (t r) = None \<and> next_free_block (t r) = None"
  shows "dll (q\<lparr>store := t, num_free_blocks := num_free_blocks q - int (length ms)\<rparr>) (as @ bs)"
proof -
  note D = dllD [OF q]
  have d: "distinct ((FakeHead # as) @ ms @ (bs @ [FakeTail]))"
    using D by auto
  have "linked t ((FakeHead # as) @ (bs @ [FakeTail]))"
    by (rule linked_rejoin [of "store q" _ ms]) (use D d nx pv join in auto)
  moreover have "prev_free_block (t FakeHead) = None"
    using pv [of FakeHead] D hd_in_append_snoc [of bs FakeTail] d by fastforce
  moreover have "next_free_block (t FakeTail) = None"
    using nx [of FakeTail] D last_append_hd [of FakeHead as] d by fastforce
  moreover have "prev_free_block (t r) = None \<and> next_free_block (t r) = None"
    if r: "r \<notin> set (as @ bs) \<union> sentinels" for r
  proof (cases "r \<in> set ms")
    case True
    then show ?thesis by (rule cleared)
  next
    case False
    have "r \<noteq> hd (bs @ [FakeTail])" and "r \<noteq> last (FakeHead # as)"
      using r hd_in_append_snoc [of bs FakeTail] last_append_hd [of FakeHead as]
      by (auto simp: sentinels_def)
    moreover have "prev_free_block (store q r) = None \<and> next_free_block (store q r) = None"
      using q r False by (auto simp: dll_def)
    ultimately show ?thesis using nx pv False by simp
  qed
  ultimately show ?thesis
    using D d by (auto simp: dll_def sentinels_def)
qed

subsection \<open>Every operation refines the list operation\<close>

lemma popleft_refines:
  assumes q: "dll q (x # xs)"
  shows "\<exists>q'. popleft q = Inr (x, q') \<and> dll q' xs \<and> same_data (store q) (store q')"
proof -
  note D = dllD [OF q]
  define y where "y = hd (xs @ [FakeTail])"
  have nx: "next_free_block (store q x) = Some y"
    using D(4) by (simp add: linked_Cons y_def)
  have x: "x \<noteq> FakeHead" "x \<noteq> FakeTail" "x \<noteq> y" "y \<noteq> FakeHead"
    using D(1-3) hd_in_append_snoc [of xs FakeTail] by (auto simp: y_def)
  define t where "t = set_next x None (set_prev x None
     (set_prev y (Some FakeHead) (set_next FakeHead (Some y) (store q))))"
  have "popleft q = Inr (x, q\<lparr>store := t, num_free_blocks := num_free_blocks q - int (length [x])\<rparr>)"
    using D(6) nx x by (simp add: popleft_def Let_def t_def)
  moreover have "dll (q\<lparr>store := t, num_free_blocks := num_free_blocks q - int (length [x])\<rparr>) ([] @ xs)"
    by (rule dll_cut) (use q x in \<open>auto simp: t_def y_def\<close>)
  ultimately show ?thesis
    by (auto simp: t_def)
qed

lemma popleft_empty: "dll q [] \<Longrightarrow> popleft q = Inl ValueError"
  using dllD(5,6) [of q "[]"] by (simp add: popleft_def)

definition unlink_all :: "block_ref list \<Rightarrow> store \<Rightarrow> store" where
  "unlink_all bs s = fold (\<lambda>c s. set_next c None (set_prev c None s)) bs s"

lemma unlink_all_attrs [simp]:
  "prev_free_block (unlink_all bs s x) = (if x \<in> set bs then None else prev_free_block (s x))"
  "next_free_block (unlink_all bs s x) = (if x \<in> set bs then None else next_free_block (s x))"
  "same_data r (unlink_all bs s) = same_data r s"
  by (induction bs arbitrary: s) (auto simp: unlink_all_def)

lemma popleft_n_loop_chain:
  assumes "linked s (ms @ bs)" and "distinct (ms @ bs)" and "bs \<noteq> []"
  shows "popleft_n_loop (length ms) (Some (hd (ms @ bs))) ret s
           = Inr (ret @ ms, Some (hd bs), unlink_all ms s)"
  using assms
proof (induction ms arbitrary: ret s)
  case Nil
  then show ?case by (simp add: unlink_all_def)
next
  case (Cons m ms)
  let ?s = "set_next m None (set_prev m None s)"
  have nx: "next_free_block (s m) = Some (hd (ms @ bs))" and l: "linked s (ms @ bs)"
    using Cons.prems(1,3) by (auto simp: linked_Cons)
  have "linked ?s (ms @ bs) = linked s (ms @ bs)"
    using Cons.prems(2) by (intro linked_cong) (auto dest: in_set_butlastD in_set_tlD)
  with l Cons.prems have "popleft_n_loop (length ms) (Some (hd (ms @ bs))) (ret @ [m]) ?s
      = Inr ((ret @ [m]) @ ms, Some (hd bs), unlink_all ms ?s)"
    by (intro Cons.IH) auto
  with nx show ?case
    by (simp add: unlink_all_def)
qed

lemma popleft_n_refines:
  assumes q: "dll q xs" and n: "n \<le> length xs"
  shows "\<exists>q'. popleft_n (int n) q = Inr (take n xs, q') \<and> dll q' (drop n xs)
              \<and> same_data (store q) (store q')"
proof (cases "n = 0")
  case True
  with q show ?thesis by (auto simp: popleft_n_def)
next
  case False
  note D = dllD [OF q]
  define ms bs where "ms = take n xs" and "bs = drop n xs @ [FakeTail]"
  have split: "xs @ [FakeTail] = ms @ bs" and len: "length ms = n" and ne: "bs \<noteq> []"
    using n by (simp_all add: ms_def bs_def flip: append_assoc)
  have l: "linked (store q) (ms @ bs)" and d: "distinct (ms @ bs)" "FakeHead \<notin> set (ms @ bs)"
    using D by (auto simp: linked_Cons simp flip: split)
  define t where "t = set_prev (hd bs) (Some FakeHead)
     (set_next FakeHead (Some (hd bs)) (unlink_all ms (store q)))"
  define q' where "q' = q\<lparr>store := t, num_free_blocks := num_free_blocks q - int (length ms)\<rparr>"
  have "popleft_n_loop n (next_free_block (store q FakeHead)) [] (store q)
      = Inr (ms, Some (hd bs), unlink_all ms (store q))"
    using popleft_n_loop_chain [OF l d(1) ne, of "[]"] D(6) by (simp add: split len)
  then have "popleft_n (int n) q = Inr (ms, q')"
    using False D(5) n by (simp add: popleft_n_def q'_def t_def len)
  moreover have hb: "hd bs \<notin> set ms" "hd bs \<noteq> FakeHead"
    using d ne by (auto dest: hd_in_set)
  have "dll q' ([] @ drop n xs)"
    unfolding q'_def
    by (rule dll_cut) (use q d hb in \<open>auto simp: t_def ms_def bs_def\<close>)
  moreover have "same_data (store q) (store q')"
    by (simp add: q'_def t_def)
  ultimately show ?thesis by (auto simp: ms_def)
qed

lemma popleft_n_too_many:
  "dll q xs \<Longrightarrow> int (length xs) < n \<Longrightarrow> popleft_n n q = Inl AssertionError"
  by (auto simp: popleft_n_def dllD(5))

lemma remove_refines:
  assumes q: "dll q xs" and b: "b \<in> set xs"
  shows "\<exists>q'. remove b q = Inr q' \<and> dll q' (remove1 b xs) \<and> same_data (store q) (store q')"
proof -
  note D = dllD [OF q]
  obtain ys zs where xs: "xs = ys @ b # zs"
    using b by (auto dest: split_list)
  define p where "p = last (FakeHead # ys)"
  define n where "n = hd (zs @ [FakeTail])"
  have l: "linked (store q) ((FakeHead # ys) @ (b # zs @ [FakeTail]))"
    using D(4) by (simp add: xs)
  then have pv: "prev_free_block (store q b) = Some p" and nx: "next_free_block (store q b) = Some n"
    by (simp_all only: linked_append linked_Cons list.simps append_is_Nil_conv not_False_eq_True
        simp_thms p_def n_def list.sel)
  have ne: "b \<noteq> p" "b \<noteq> n" "p \<noteq> n"
    using D(1-3) last_append_hd [of FakeHead ys] hd_in_append_snoc [of zs FakeTail]
    by (auto simp: xs p_def n_def)
  define t where "t = set_next b None (set_prev b None
     (set_prev n (Some p) (set_next p (Some n) (store q))))"
  have "remove b q = Inr (q\<lparr>store := t, num_free_blocks := num_free_blocks q - int (length [b])\<rparr>)"
    by (simp add: remove_def pv nx t_def Let_def)
  moreover have "dll (q\<lparr>store := t, num_free_blocks := num_free_blocks q - int (length [b])\<rparr>) (ys @ zs)"
    by (rule dll_cut) (use q ne in \<open>auto simp: xs t_def p_def n_def\<close>)
  moreover have "remove1 b xs = ys @ zs"
    using D(1) by (simp add: xs remove1_append)
  ultimately show ?thesis
    by (auto simp: t_def)
qed

lemma remove_not_free:
  assumes "dll q xs" and "b \<notin> set xs"
  shows "remove b q = Inl RuntimeError"
proof -
  have "prev_free_block (store q b) = None \<or> next_free_block (store q b) = None"
    using assms by (cases "b \<in> sentinels") (auto simp: dll_def sentinels_def)
  then show ?thesis
    by (auto simp: remove_def split: option.splits)
qed

lemma append_n_loop_linked:
  assumes "linked s as" and "as \<noteq> []" and "distinct (as @ bs)"
  shows "\<exists>t. append_n_loop bs (last as) s = (last (as @ bs), t) \<and> linked t (as @ bs)
     \<and> same_data s t
     \<and> (\<forall>r. r \<notin> set bs \<longrightarrow> prev_free_block (t r) = prev_free_block (s r))
     \<and> (\<forall>r. r \<notin> set bs \<longrightarrow> r \<noteq> last as \<longrightarrow> next_free_block (t r) = next_free_block (s r))"
  using assms
proof (induction bs arbitrary: as s)
  case Nil
  then show ?case by auto
next
  case (Cons b bs)
  let ?s = "set_next (last as) (Some b) (set_prev b (Some (last as)) s)"
  have "linked ?s as = linked s as"
    using Cons.prems butlast_last_notin [of as]
    by (intro linked_cong) (auto dest: in_set_tlD)
  moreover have "last as \<noteq> b" using Cons.prems by (auto dest: last_in_set)
  ultimately have "linked ?s (as @ [b])"
    using Cons.prems by (simp add: linked_append)
  then obtain t where t: "append_n_loop bs (last (as @ [b])) ?s = (last ((as @ [b]) @ bs), t)"
      "linked t ((as @ [b]) @ bs)" "same_data ?s t"
      "\<forall>r. r \<notin> set bs \<longrightarrow> prev_free_block (t r) = prev_free_block (?s r)"
      "\<forall>r. r \<notin> set bs \<longrightarrow> r \<noteq> last (as @ [b]) \<longrightarrow> next_free_block (t r) = next_free_block (?s r)"
    using Cons.IH [of ?s "as @ [b]"] Cons.prems(3) by auto
  have "same_data s t" using t(3) by (simp add: same_data_def)
  with t show ?case by auto
qed

lemma append_n_refines:
  assumes q: "dll q xs" and d: "distinct bs" "set bs \<inter> set xs = {}" "set bs \<inter> sentinels = {}"
  shows "\<exists>q'. append_n bs q = Inr q' \<and> dll q' (xs @ bs) \<and> same_data (store q) (store q')"
proof (cases "bs = []")
  case True
  with q show ?thesis by (auto simp: append_n_def)
next
  case False
  note D = dllD [OF q]
  let ?as = "FakeHead # xs"
  have dist: "distinct (?as @ bs)" and T: "FakeTail \<notin> set (?as @ bs)"
    using D(1-3) d by (auto simp: sentinels_def)
  have "linked (store q) ?as"
    using D(4) linked_append [of ?as "[FakeTail]" "store q"] by simp
  then obtain t where t: "append_n_loop bs (last ?as) (store q) = (last (?as @ bs), t)"
      "linked t (?as @ bs)" "same_data (store q) t"
      "\<forall>r. r \<notin> set bs \<longrightarrow> prev_free_block (t r) = prev_free_block (store q r)"
      "\<forall>r. r \<notin> set bs \<longrightarrow> r \<noteq> last ?as \<longrightarrow> next_free_block (t r) = next_free_block (store q r)"
    using append_n_loop_linked [OF _ _ dist] by blast
  define l where "l = last (?as @ bs)"
  define t' where "t' = set_prev FakeTail (Some l) (set_next l (Some FakeTail) t)"
  define q' where "q' = q\<lparr>store := t', num_free_blocks := num_free_blocks q + int (length bs)\<rparr>"
  have app: "append_n bs q = Inr q'"
    using D(7) t(1) False by (simp add: append_n_def q'_def t'_def l_def)
  have l: "l \<in> set bs" using False by (simp add: l_def)
  have "linked t' (?as @ bs) = linked t (?as @ bs)"
    using T butlast_last_notin [OF dist]
    by (intro linked_cong) (auto simp: t'_def l_def dest: in_set_tlD)
  with t(2) l T have "linked t' ((?as @ bs) @ [FakeTail])"
    by (subst linked_append) (auto simp: t'_def l_def)
  moreover have "prev_free_block (t' r) = None \<and> next_free_block (t' r) = None"
    if "r \<notin> set (xs @ bs) \<union> sentinels" for r
    using that t(4,5) q l last_append_hd [of FakeHead xs]
    by (fastforce simp: t'_def dll_def sentinels_def)
  moreover have "prev_free_block (t' FakeHead) = None"
    using t(4) D(9) dist T by (auto simp: t'_def)
  moreover have "next_free_block (t' FakeTail) = None"
    using t(5) D(8) l T last_append_hd [of FakeHead xs] by (auto simp: t'_def)
  moreover have "same_data (store q) (store q')"
    using t(3) by (simp add: q'_def t'_def)
  ultimately show ?thesis
    using app D d dist T by (auto simp: dll_def q'_def sentinels_def)
qed

lemma set_next_set_prev_commute: "set_next a v (set_prev b w s) = set_prev b w (set_next a v s)"
  by (auto simp: set_next_def set_prev_def)

lemma append_block_eq:
  assumes "dll q xs"
  shows "append_block b q = append_n [b] q"
  using dllD(7) [OF assms]
  by (simp add: append_block_def append_n_def set_next_set_prev_commute Let_def)

lemma collect_free_chain:
  assumes "linked s (xs @ [FakeTail])" and "next_free_block (s FakeTail) = None"
  shows "collect_free s (hd (xs @ [FakeTail])) ret = Some (ret @ xs)"
  using assms
proof (induction xs arbitrary: ret)
  case Nil
  then show ?case by (simp add: collect_free.simps)
next
  case (Cons x xs)
  then have "next_free_block (s x) = Some (hd (xs @ [FakeTail]))" and "linked s (xs @ [FakeTail])"
    by (auto simp: linked_Cons)
  with Cons show ?case by (simp add: collect_free.simps [of s x])
qed

lemma get_all_free_blocks_refines:
  assumes "dll q xs"
  shows "get_all_free_blocks q = Some (Inr xs)"
proof -
  note D = dllD [OF assms]
  have "linked (store q) (xs @ [FakeTail])"
    using D(4) by (simp add: linked_Cons)
  from collect_free_chain [OF this D(8), of "[]"] D(6) show ?thesis
    by (simp add: get_all_free_blocks_def)
qed

text \<open>The abstraction is a function: a queue has at most one abstract list.\<close>

lemma dll_unique: "dll q xs \<Longrightarrow> dll q ys \<Longrightarrow> xs = ys"
  by (metis Inr_inject get_all_free_blocks_refines option.inject)

lemma init_links:
  fixes s :: store
  assumes "distinct bs" and "k \<le> length bs"
  defines "t \<equiv> fold (init_link bs) [0..<k] s"
  shows "linked t (take k bs)
     \<and> (\<forall>r. r \<notin> set (take k bs) \<longrightarrow> prev_free_block (t r) = prev_free_block (s r)
              \<and> next_free_block (t r) = next_free_block (s r))
     \<and> (0 < k \<longrightarrow> k < length bs \<longrightarrow> next_free_block (t (bs ! (k - 1))) = Some (bs ! k))
     \<and> same_data s t"
  using assms(2) unfolding t_def
proof (induction k)
  case 0
  then show ?case by simp
next
  case (Suc k)
  define u where "u = fold (init_link bs) [0..<k] s"
  define v where "v = init_link bs k u"
  have k: "k < length bs" using Suc.prems by simp
  have u: "linked u (take k bs)"
    "\<And>r. r \<notin> set (take k bs) \<Longrightarrow> prev_free_block (u r) = prev_free_block (s r)
          \<and> next_free_block (u r) = next_free_block (s r)"
    "0 < k \<Longrightarrow> next_free_block (u (bs ! (k - 1))) = Some (bs ! k)" "same_data s u"
    using Suc.IH k by (auto simp: u_def)
  have step: "fold (init_link bs) [0..<Suc k] s = v"
    by (simp add: u_def v_def)
  have notin: "bs ! k \<notin> set (take k bs)"
    using assms(1) k by (auto simp: in_set_conv_nth nth_eq_iff_index_eq)
  have take: "take (Suc k) bs = take k bs @ [bs ! k]"
    using k by (simp add: take_Suc_conv_app_nth)
  have "linked v (take k bs) = linked u (take k bs)"
    using notin by (intro linked_cong)
      (auto simp: v_def init_link_def Let_def dest: in_set_butlastD in_set_tlD)
  moreover have "0 < k \<Longrightarrow> last (take k bs) = bs ! (k - 1)"
    using k by (cases k) (simp_all add: take_Suc_conv_app_nth)
  moreover have "0 < k \<Longrightarrow> take k bs \<noteq> []"
    using k by (cases bs) auto
  moreover have "0 < k \<Longrightarrow> bs ! (k - 1) \<noteq> bs ! k"
    using assms(1) k by (simp add: nth_eq_iff_index_eq)
  ultimately have "linked v (take (Suc k) bs)"
    using u(1,3) k unfolding take
    by (cases "k = 0") (auto simp: linked_append v_def init_link_def Let_def)
  moreover have "same_data s v"
    using u(4) by (auto simp: v_def init_link_def Let_def)
  ultimately show ?case
    unfolding step using u(2) by (auto simp: take v_def init_link_def Let_def)
qed

lemma free_queue_init_refines:
  assumes d: "distinct bs" "set bs \<inter> sentinels = {}"
    and fresh: "\<And>r. prev_free_block (s r) = None \<and> next_free_block (s r) = None"
  shows "dll (free_queue_init bs s) bs"
    and "\<And>r. r \<notin> sentinels \<Longrightarrow>
           ref_cnt (store (free_queue_init bs s) r) = ref_cnt (s r)
         \<and> block_hash (store (free_queue_init bs s) r) = block_hash (s r)
         \<and> is_null (store (free_queue_init bs s) r) = is_null (s r)"
proof -
  define t where "t = fold (init_link bs) [0..<length bs] s"
  have t: "linked t bs" "\<And>r. r \<notin> set bs \<Longrightarrow> prev_free_block (t r) = None \<and> next_free_block (t r) = None"
      "same_data s t"
    using init_links [OF d(1), of "length bs" s] fresh by (auto simp: t_def)
  let ?q = "free_queue_init bs s"
  have eq: "linked (store ?q) bs = linked t bs" if "bs \<noteq> []"
  proof (rule linked_cong)
    fix r assume "r \<in> set (butlast bs)"
    moreover from this have "r \<noteq> last bs" "r \<in> set bs"
      using butlast_last_notin [OF d(1)] that by (auto dest: in_set_butlastD)
    ultimately show "next_free_block (store ?q r) = next_free_block (t r)"
      using d(2) by (auto simp: free_queue_init_def Let_def t_def sentinels_def)
  next
    fix r assume "r \<in> set (tl bs)"
    moreover from this have "r \<noteq> hd bs" "r \<in> set bs"
      using hd_notin_tl [OF d(1)] that by (auto dest: in_set_tlD)
    ultimately show "prev_free_block (store ?q r) = prev_free_block (t r)"
      using d(2) by (auto simp: free_queue_init_def Let_def t_def sentinels_def)
  qed
  have ends: "hd bs \<noteq> FakeHead \<and> hd bs \<noteq> FakeTail \<and> last bs \<noteq> FakeHead \<and> last bs \<noteq> FakeTail"
    if "bs \<noteq> []"
  proof -
    have "r \<noteq> FakeHead \<and> r \<noteq> FakeTail" if "r \<in> set bs" for r
      using that d(2) by (auto simp: sentinels_def)
    from this [of "hd bs"] this [of "last bs"] that show ?thesis by simp
  qed
  have "linked (store ?q) (FakeHead # bs @ [FakeTail])"
  proof (cases "bs = []")
    case True
    then show ?thesis by (simp add: free_queue_init_def)
  next
    case False
    from ends [OF this] False eq t(1) d show ?thesis
      by (auto simp: linked_Cons linked_append free_queue_init_def Let_def sentinels_def)
  qed
  moreover have "prev_free_block (store ?q r) = None \<and> next_free_block (store ?q r) = None"
    if "r \<notin> set bs \<union> sentinels" for r
    using that t(2) [of r]
    by (cases "bs = []") (auto simp: free_queue_init_def Let_def t_def sentinels_def)
  moreover have "prev_free_block (store ?q FakeHead) = None \<and> next_free_block (store ?q FakeTail) = None"
    using ends by (cases "bs = []") (auto simp: free_queue_init_def Let_def new_block_def)
  moreover have "num_free_blocks ?q = int (length bs)"
    by (simp add: free_queue_init_def Let_def)
  ultimately show "dll ?q bs"
    using d unfolding dll_def by blast
  show "ref_cnt (store ?q r) = ref_cnt (s r) \<and> block_hash (store ?q r) = block_hash (s r)
      \<and> is_null (store ?q r) = is_null (s r)" if "r \<notin> sentinels" for r
  proof -
    have "ref_cnt (t r) = ref_cnt (s r)" "block_hash (t r) = block_hash (s r)"
      "is_null (t r) = is_null (s r)"
      using t(3) by (auto simp: same_data_def)
    with that show ?thesis
      by (auto simp: free_queue_init_def Let_def sentinels_def simp flip: t_def)
  qed
qed

subsection \<open>The contract the block pool relies on\<close>

text \<open>
  What a client of the queue may assume: an abstract eviction order, taking from its front,
  putting at its back and rescuing one element, none of which touches the data attributes of
  the blocks (\<open>frame\<close>).
\<close>

locale eviction_queue =
  fixes order :: "'q \<Rightarrow> 'b list \<Rightarrow> bool"
    and take_n :: "int \<Rightarrow> 'q \<Rightarrow> ('b list \<times> 'q) result"
    and put_n :: "'b list \<Rightarrow> 'q \<Rightarrow> 'q result"
    and rescue :: "'b \<Rightarrow> 'q \<Rightarrow> 'q result"
    and frame :: "'q \<Rightarrow> 'q \<Rightarrow> bool"
    and special :: "'b set"
  assumes order_distinct: "order q xs \<Longrightarrow> distinct xs"
    and take_n_law: "order q xs \<Longrightarrow> n \<le> length xs \<Longrightarrow>
          \<exists>q'. take_n (int n) q = Inr (take n xs, q') \<and> order q' (drop n xs) \<and> frame q q'"
    and put_n_law: "order q xs \<Longrightarrow> distinct bs \<Longrightarrow> set bs \<inter> set xs = {} \<Longrightarrow> set bs \<inter> special = {} \<Longrightarrow>
          \<exists>q'. put_n bs q = Inr q' \<and> order q' (xs @ bs) \<and> frame q q'"
    and rescue_law: "order q xs \<Longrightarrow> b \<in> set xs \<Longrightarrow>
          \<exists>q'. rescue b q = Inr q' \<and> order q' (remove1 b xs) \<and> frame q q'"
begin

text \<open>Freed blocks are handed out again only after every block that was free before them.\<close>

lemma reuse_order:
  assumes "order q xs" "distinct bs" "set bs \<inter> set xs = {}" "set bs \<inter> special = {}"
    and "k \<le> length bs"
  shows "\<exists>q1 q2. put_n bs q = Inr q1
     \<and> take_n (int (length xs + k)) q1 = Inr (xs @ take k bs, q2) \<and> order q2 (drop k bs)"
proof -
  obtain q1 where q1: "put_n bs q = Inr q1" "order q1 (xs @ bs)"
    using put_n_law assms by blast
  obtain q2 where "take_n (int (length xs + k)) q1 = Inr (take (length xs + k) (xs @ bs), q2)"
      and "order q2 (drop (length xs + k) (xs @ bs))"
    using take_n_law [OF q1(2), of "length xs + k"] assms(5) by auto
  with q1(1) show ?thesis by simp
qed

text \<open>A rescued block is not handed out, however many blocks are taken afterwards.\<close>

lemma rescued_not_taken:
  assumes "order q xs" "b \<in> set xs" "n < length xs"
  shows "\<exists>q1 q2 ys. rescue b q = Inr q1 \<and> take_n (int n) q1 = Inr (ys, q2)
     \<and> b \<notin> set ys \<and> length ys = n"
proof -
  obtain q1 where q1: "rescue b q = Inr q1" "order q1 (remove1 b xs)"
    using rescue_law assms by blast
  have len: "n \<le> length (remove1 b xs)"
    using assms(2,3) by (simp add: length_remove1)
  obtain q2 where q2: "take_n (int n) q1 = Inr (take n (remove1 b xs), q2)"
    using take_n_law [OF q1(2) len] by blast
  have "b \<notin> set (remove1 b xs)"
    using order_distinct [OF assms(1)] by simp
  then have "b \<notin> set (take n (remove1 b xs))"
    by (meson in_set_takeD)
  with q1(1) q2 len show ?thesis by auto
qed

end

interpretation fbq: eviction_queue dll popleft_n append_n remove
  "\<lambda>q q'. same_data (store q) (store q')" sentinels
  by unfold_locales
    (auto intro: dllD(1) popleft_n_refines append_n_refines remove_refines)

subsection \<open>Whole histories of queue operations\<close>

text \<open>
  A history is a sequence of calls. \<open>spec_op\<close> is the specification on the eviction order:
  \<open>None\<close> where the caller breaks the contract (a block is put back while it is free, or a
  sentinel is put), \<open>Some (Inl e)\<close> where the call raises, \<open>Some (Inr (out, xs))\<close> otherwise.
\<close>

datatype queue_op =
    Popleft | Popleft_n nat | Remove block_ref | Append block_ref | Append_n "block_ref list"

fun exec_op :: "queue_op \<Rightarrow> free_queue \<Rightarrow> (block_ref list \<times> free_queue) result" where
  "exec_op Popleft q = bindR (popleft q) (\<lambda>(b, q'). Inr ([b], q'))"
| "exec_op (Popleft_n n) q = popleft_n (int n) q"
| "exec_op (Remove b) q = bindR (remove b q) (\<lambda>q'. Inr ([], q'))"
| "exec_op (Append b) q = bindR (append_block b q) (\<lambda>q'. Inr ([], q'))"
| "exec_op (Append_n bs) q = bindR (append_n bs q) (\<lambda>q'. Inr ([], q'))"

fun spec_put :: "block_ref list \<Rightarrow> block_ref list \<Rightarrow> (block_ref list \<times> block_ref list) result option"
  where
  "spec_put bs xs =
     (if distinct bs \<and> set bs \<inter> set xs = {} \<and> set bs \<inter> sentinels = {}
      then Some (Inr ([], xs @ bs)) else None)"

fun spec_op :: "queue_op \<Rightarrow> block_ref list \<Rightarrow> (block_ref list \<times> block_ref list) result option"
  where
  "spec_op Popleft xs =
     (case xs of [] \<Rightarrow> Some (Inl ValueError) | x # xs' \<Rightarrow> Some (Inr ([x], xs')))"
| "spec_op (Popleft_n n) xs =
     (if n \<le> length xs then Some (Inr (take n xs, drop n xs)) else Some (Inl AssertionError))"
| "spec_op (Remove b) xs =
     (if b \<in> set xs then Some (Inr ([], remove1 b xs)) else Some (Inl RuntimeError))"
| "spec_op (Append b) xs = spec_put [b] xs"
| "spec_op (Append_n bs) xs = spec_put bs xs"

fun exec_ops :: "queue_op list \<Rightarrow> free_queue \<Rightarrow> (block_ref list list \<times> free_queue) result" where
  "exec_ops [] q = Inr ([], q)"
| "exec_ops (x # ops) q =
     bindR (exec_op x q) (\<lambda>(out, q'). bindR (exec_ops ops q') (\<lambda>(outs, q''). Inr (out # outs, q'')))"

fun spec_ops :: "queue_op list \<Rightarrow> block_ref list
    \<Rightarrow> (block_ref list list \<times> block_ref list) result option" where
  "spec_ops [] xs = Some (Inr ([], xs))"
| "spec_ops (x # ops) xs =
     (case spec_op x xs of
        None \<Rightarrow> None
      | Some (Inl e) \<Rightarrow> Some (Inl e)
      | Some (Inr (out, xs')) \<Rightarrow>
          (case spec_ops ops xs' of
             None \<Rightarrow> None
           | Some (Inl e) \<Rightarrow> Some (Inl e)
           | Some (Inr (outs, xs'')) \<Rightarrow> Some (Inr (out # outs, xs''))))"

definition op_refines ::
  "('o \<times> free_queue) result \<Rightarrow> ('o \<times> block_ref list) result \<Rightarrow> bool" where
  "op_refines c a \<longleftrightarrow>
     (case a of Inl e \<Rightarrow> c = Inl e | Inr (out, xs) \<Rightarrow> (\<exists>q. c = Inr (out, q) \<and> dll q xs))"

lemma exec_op_refines:
  assumes q: "dll q xs" and s: "spec_op x xs = Some r"
  shows "op_refines (exec_op x q) r"
proof (cases x)
  case Popleft
  with q s show ?thesis
    using popleft_refines [of q] popleft_empty [of q]
    by (cases xs) (fastforce simp: op_refines_def)+
next
  case (Popleft_n n)
  then show ?thesis
    using q s popleft_n_refines [OF q, of n] popleft_n_too_many [OF q, of "int n"]
    by (cases "n \<le> length xs") (fastforce simp: op_refines_def)+
next
  case (Remove b)
  then show ?thesis
    using q s remove_refines [OF q, of b] remove_not_free [OF q, of b]
    by (cases "b \<in> set xs") (fastforce simp: op_refines_def)+
next
  case (Append b)
  then show ?thesis
    using s append_n_refines [OF q, of "[b]"] append_block_eq [OF q, of b]
    by (fastforce simp: op_refines_def split: if_splits)
next
  case (Append_n bs)
  then show ?thesis
    using s append_n_refines [OF q, of bs] by (fastforce simp: op_refines_def split: if_splits)
qed

lemma exec_ops_refines:
  "dll q xs \<Longrightarrow> spec_ops ops xs = Some r \<Longrightarrow> op_refines (exec_ops ops q) r"
proof (induction ops arbitrary: q xs r)
  case Nil
  then show ?case by (auto simp: op_refines_def)
next
  case (Cons x ops)
  from Cons.prems(2) obtain a where a: "spec_op x xs = Some a"
    by (auto split: option.splits)
  have ref: "op_refines (exec_op x q) a"
    by (rule exec_op_refines [OF Cons.prems(1) a])
  show ?case
  proof (cases a)
    case (Inl e)
    with ref a Cons.prems(2) show ?thesis by (auto simp: op_refines_def)
  next
    case (Inr p)
    obtain out xs' where p: "p = (out, xs')" by (cases p)
    obtain q' where q': "exec_op x q = Inr (out, q')" "dll q' xs'"
      using ref Inr p by (auto simp: op_refines_def)
    obtain b where b: "spec_ops ops xs' = Some b"
      using Cons.prems(2) a Inr p by (auto split: option.splits)
    have "op_refines (exec_ops ops q') b"
      by (rule Cons.IH [OF q'(2) b])
    then show ?thesis
      using Cons.prems(2) a Inr p q' b
      by (cases b) (auto simp: op_refines_def split: prod.splits)
  qed
qed

subsection \<open>Properties\<close>

text \<open>
  C11: Every history of calls on a freshly built free queue behaves like the same history on a
  plain list in eviction order: the calls return the blocks (or raise the errors) of the
  specification, and the doubly linked list left behind is exactly the specified order.
\<close>

theorem queue_history:
  assumes "distinct bs" and "set bs \<inter> sentinels = {}" and "spec_ops ops bs = Some r"
  shows "op_refines (exec_ops ops (free_queue_init bs (\<lambda>_. new_block))) r"
  by (rule exec_ops_refines [OF free_queue_init_refines(1) [OF assms(1,2)] assms(3)])
    (simp add: new_block_def)

theorem queue_history_witness:
  "op_refines
     (exec_ops [Popleft, Append (Blk 0), Remove (Blk 1), Popleft_n 1, Popleft_n 5]
        (free_queue_init [Blk 0, Blk 1, Blk 2] (\<lambda>_. new_block)))
     (Inl AssertionError)
   \<and> op_refines
     (exec_ops [Popleft, Append (Blk 0), Popleft_n 2]
        (free_queue_init [Blk 0, Blk 1, Blk 2] (\<lambda>_. new_block)))
     (Inr ([[Blk 0], [], [Blk 1, Blk 2]], [Blk 0]))"
proof
  show "op_refines
     (exec_ops [Popleft, Append (Blk 0), Remove (Blk 1), Popleft_n 1, Popleft_n 5]
        (free_queue_init [Blk 0, Blk 1, Blk 2] (\<lambda>_. new_block)))
     (Inl AssertionError)"
    by (rule queue_history) (simp_all add: sentinels_def)
  show "op_refines
     (exec_ops [Popleft, Append (Blk 0), Popleft_n 2]
        (free_queue_init [Blk 0, Blk 1, Blk 2] (\<lambda>_. new_block)))
     (Inr ([[Blk 0], [], [Blk 1, Blk 2]], [Blk 0]))"
    by (rule queue_history) (simp_all add: sentinels_def)
qed

text \<open>
  Blocks put back on the queue together are handed out again in that order, and only after
  every block that was free before them.
\<close>

theorem freed_blocks_reused_last:
  assumes "dll q xs" and "distinct bs" and "set bs \<inter> set xs = {}" and "set bs \<inter> sentinels = {}"
    and "k \<le> length bs"
  shows "\<exists>q1 q2. append_n bs q = Inr q1
     \<and> popleft_n (int (length xs + k)) q1 = Inr (xs @ take k bs, q2) \<and> dll q2 (drop k bs)"
  using fbq.reuse_order [OF assms] by blast


end
