(* ===== verification/Request_Model.thy ===== *)
theory Request_Model
  imports Prelude "HOL-Library.Sublist"
begin

text \<open>
  \<open>Request\<close>, \<open>RequestStatus\<close> (\<open>vllm/v1/request.py\<close>) and the stop checks of
  \<open>vllm/v1/core/sched/utils.py\<close>, with the token-appending loop
  \<open>Scheduler._update_request_with_output\<close> that uses them. A request object is a record; a
  method that mutates it returns the updated record. The \<open>block_hasher\<close> callable a request is
  built with is an argument of the operations that call it. Timestamps are integers (the
  code only compares them). Left out of the record: \<open>events\<close>, \<open>trace_headers\<close>,
  \<open>kv_transfer_params\<close> and \<open>num_nans_in_logits\<close>, which no modelled operation reads.
\<close>

subsection \<open>Status\<close>

datatype request_status =
    WAITING
  | WAITING_FOR_FSM
  | WAITING_FOR_REMOTE_KVS
  | WAITING_FOR_STREAMING_REQ
  | RUNNING
  | PREEMPTED
  | FINISHED_STOPPED
  | FINISHED_LENGTH_CAPPED
  | FINISHED_ABORTED
  | FINISHED_IGNORED
  | FINISHED_ERROR
  | FINISHED_REPETITION

text \<open>\<open>enum.auto()\<close> numbers the members from 1 in order; \<open>IntEnum\<close> compares the numbers.\<close>

fun status_value :: "request_status \<Rightarrow> nat" where
  "status_value WAITING = 1"
| "status_value WAITING_FOR_FSM = 2"
| "status_value WAITING_FOR_REMOTE_KVS = 3"
| "status_value WAITING_FOR_STREAMING_REQ = 4"
| "status_value RUNNING = 5"
| "status_value PREEMPTED = 6"
| "status_value FINISHED_STOPPED = 7"
| "status_value FINISHED_LENGTH_CAPPED = 8"
| "status_value FINISHED_ABORTED = 9"
| "status_value FINISHED_IGNORED = 10"
| "status_value FINISHED_ERROR = 11"
| "status_value FINISHED_REPETITION = 12"

lemma status_value_inject: "status_value a = status_value b \<longleftrightarrow> a = b"
  by (cases a; cases b) simp_all

instantiation request_status :: linorder
begin

definition less_eq_request_status :: "request_status \<Rightarrow> request_status \<Rightarrow> bool" where
  "less_eq_request_status a b = (status_value a \<le> status_value b)"

definition less_request_status :: "request_status \<Rightarrow> request_status \<Rightarrow> bool" where
  "less_request_status a b = (status_value a < status_value b)"

instance
  by standard
    (auto simp: less_eq_request_status_def less_request_status_def status_value_inject
      dest: order.antisym)

end

definition is_finished_status :: "request_status \<Rightarrow> bool" where
  "is_finished_status s = (s > PREEMPTED)"

datatype finish_reason =
  Reason_STOP | Reason_LENGTH | Reason_ABORT | Reason_ERROR | Reason_REPETITION

fun get_finished_reason :: "request_status \<Rightarrow> finish_reason option" where
  "get_finished_reason FINISHED_STOPPED = Some Reason_STOP"
| "get_finished_reason FINISHED_LENGTH_CAPPED = Some Reason_LENGTH"
| "get_finished_reason FINISHED_ABORTED = Some Reason_ABORT"
| "get_finished_reason FINISHED_IGNORED = Some Reason_LENGTH"
| "get_finished_reason FINISHED_ERROR = Some Reason_ERROR"
| "get_finished_reason WAITING_FOR_STREAMING_REQ = Some Reason_STOP"
| "get_finished_reason FINISHED_REPETITION = Some Reason_REPETITION"
| "get_finished_reason _ = None"

lemma is_finished_status_simps [simp]:
  "is_finished_status s \<longleftrightarrow>
     s \<in> {FINISHED_STOPPED, FINISHED_LENGTH_CAPPED, FINISHED_ABORTED, FINISHED_IGNORED,
          FINISHED_ERROR, FINISHED_REPETITION}"
  by (cases s) (simp_all add: is_finished_status_def less_request_status_def)

subsection \<open>The request object\<close>

record mm_feature =
  mm_identifier :: string
  mm_offset :: int
  mm_length :: int
  is_embed :: "bool list option"

text \<open>\<open>PlaceholderRange.get_num_embeds\<close>: the last entry of the cumulative sum of the mask.\<close>

definition get_num_embeds :: "mm_feature \<Rightarrow> int result" where
  "get_num_embeds f =
     (case is_embed f of
        None \<Rightarrow> Inr (mm_length f)
      | Some bs \<Rightarrow>
          if bs = [] then Inl IndexError else Inr (int (length (filter (\<lambda>b. b) bs))))"

record lora_request =
  lora_name :: string
  lora_int_id :: int

record repetition_params =
  max_pattern_size :: int
  min_pattern_size :: int
  min_count :: int

record sampling_params =
  sp_max_tokens :: "int option"
  min_tokens :: int
  eos_token_id :: "int option"
  stop_token_ids :: "int list option"
  repetition_detection :: "repetition_params option"
  sp_skip_reading_prefix_cache :: "bool option"
  structured_outputs :: bool

record pooling_params =
  pp_skip_reading_prefix_cache :: "bool option"

datatype stop_reason = Stop_Token int | Stop_Text string

type_synonym hash_bytes = "8 word list"

record streaming_update =
  su_mm_features :: "mm_feature list"
  su_prompt_token_ids :: "int list option"
  su_max_tokens :: int
  su_arrival_time :: int
  su_sampling_params :: "sampling_params option"

record request =
  request_id :: string
  client_index :: int
  priority :: int
  arrival_time :: int
  sampling_params_of :: "sampling_params option"
  pooling_params_of :: "pooling_params option"
  lora_request_of :: "lora_request option"
  use_structured_output :: bool
  status :: request_status
  stop_reason_of :: "stop_reason option"
  max_tokens :: int
  prompt_token_ids :: "int list option"
  prompt_embeds :: "hash_bytes list option"
  prompt_embeds_per_block_hashes :: "((int \<times> int) \<times> hash_bytes) list"
  num_prompt_tokens :: int
  output_token_ids :: "int list"
  all_token_ids :: "int list"
  num_output_placeholders :: int
  discard_latest_async_tokens :: bool
  spec_token_ids :: "int list"
  num_computed_tokens :: int
  cache_salt :: "string option"
  mm_features :: "mm_feature list"
  num_cached_tokens :: int
  is_prefill_chunk :: bool
  num_preemptions :: int
  num_external_computed_tokens :: int
  block_hashes :: "hash_bytes list"
  skip_reading_prefix_cache :: bool
  resumable :: bool
  streaming_queue :: "streaming_update option list option"

text \<open>The hasher of a request, if any: it returns the new hashes and the request whose
  per-block memo of prompt-embedding hashes it may have extended.\<close>

type_synonym block_hasher = "request \<Rightarrow> (hash_bytes list \<times> request) result"

definition update_block_hashes :: "block_hasher option \<Rightarrow> request \<Rightarrow> request result" where
  "update_block_hashes hasher r =
     (case hasher of
        None \<Rightarrow> Inr r
      | Some h \<Rightarrow> bindR (h r) (\<lambda>(new, r'). Inr (r'\<lparr>block_hashes := block_hashes r' @ new\<rparr>)))"

definition append_output_token_ids ::
  "block_hasher option \<Rightarrow> int list \<Rightarrow> request \<Rightarrow> request result" where
  "append_output_token_ids hasher ids r =
     update_block_hashes hasher
       (r\<lparr>output_token_ids := output_token_ids r @ ids, all_token_ids := all_token_ids r @ ids\<rparr>)"

definition num_tokens :: "request \<Rightarrow> int" where
  "num_tokens r = int (length (all_token_ids r))"

definition num_tokens_with_spec :: "request \<Rightarrow> int" where
  "num_tokens_with_spec r = int (length (all_token_ids r)) + int (length (spec_token_ids r))"

definition num_output_tokens :: "request \<Rightarrow> int" where
  "num_output_tokens r = int (length (output_token_ids r))"

definition has_encoder_inputs :: "request \<Rightarrow> bool" where
  "has_encoder_inputs r = (length (mm_features r) > 0)"

definition get_num_encoder_embeds :: "request \<Rightarrow> int \<Rightarrow> int result" where
  "get_num_encoder_embeds r i =
     bindR (assertR (i < int (length (mm_features r)))) (\<lambda>_.
     bindR (py_nth (mm_features r) i) get_num_embeds)"

definition get_skip_reading_prefix_cache ::
  "sampling_params option \<Rightarrow> pooling_params option \<Rightarrow> bool" where
  "get_skip_reading_prefix_cache sp pp =
     (case sp of
        Some s \<Rightarrow>
          (case sp_skip_reading_prefix_cache s of
             Some b \<Rightarrow> b
           | None \<Rightarrow> (case pp of
                        Some p \<Rightarrow> (case pp_skip_reading_prefix_cache p of Some b \<Rightarrow> b | None \<Rightarrow> False)
                      | None \<Rightarrow> False))
      | None \<Rightarrow>
          (case pp of
             Some p \<Rightarrow> (case pp_skip_reading_prefix_cache p of Some b \<Rightarrow> b | None \<Rightarrow> False)
           | None \<Rightarrow> False))"

definition prompt_length :: "int list option \<Rightarrow> hash_bytes list option \<Rightarrow> int result" where
  "prompt_length ids embeds =
     (case ids of
        None \<Rightarrow> (case embeds of None \<Rightarrow> Inl ValueError | Some e \<Rightarrow> Inr (int (length e)))
      | Some t \<Rightarrow>
          (case embeds of
             None \<Rightarrow> Inr (int (length t))
           | Some e \<Rightarrow> if length e \<noteq> length t then Inl ValueError else Inr (int (length t))))"

text \<open>
  \<open>Request.__init__\<close>. The keyword arguments with no influence on the modelled state are left
  out; \<open>arrival_time\<close> is the time the caller passes or reads from the clock.
\<close>

record request_args =
  ra_request_id :: string
  ra_prompt_token_ids :: "int list option"
  ra_sampling_params :: "sampling_params option"
  ra_pooling_params :: "pooling_params option"
  ra_client_index :: int
  ra_arrival_time :: int
  ra_prompt_embeds :: "hash_bytes list option"
  ra_mm_features :: "mm_feature list option"
  ra_lora_request :: "lora_request option"
  ra_cache_salt :: "string option"
  ra_priority :: int
  ra_resumable :: bool

definition init_max_tokens :: "request_args \<Rightarrow> int result" where
  "init_max_tokens a =
     (case ra_pooling_params a of
        Some _ \<Rightarrow> Inr 1
      | None \<Rightarrow>
          (case ra_sampling_params a of
             Some sp \<Rightarrow> (case sp_max_tokens sp of None \<Rightarrow> Inl AssertionError | Some m \<Rightarrow> Inr m)
           | None \<Rightarrow> Inl ValueError))"

definition request_init :: "block_hasher option \<Rightarrow> request_args \<Rightarrow> request result" where
  "request_init hasher a =
     (let structured = (case ra_sampling_params a of Some sp \<Rightarrow> structured_outputs sp | None \<Rightarrow> False)
      in bindR (init_max_tokens a) (\<lambda>mx.
         bindR (prompt_length (ra_prompt_token_ids a) (ra_prompt_embeds a)) (\<lambda>n.
         update_block_hashes hasher
          \<lparr>request_id = ra_request_id a, client_index = ra_client_index a,
           priority = ra_priority a, arrival_time = ra_arrival_time a,
           sampling_params_of = ra_sampling_params a, pooling_params_of = ra_pooling_params a,
           lora_request_of = ra_lora_request a, use_structured_output = structured,
           status = (if ra_pooling_params a = None \<and> structured then WAITING_FOR_FSM else WAITING),
           stop_reason_of = None, max_tokens = mx,
           prompt_token_ids = ra_prompt_token_ids a, prompt_embeds = ra_prompt_embeds a,
           prompt_embeds_per_block_hashes = [], num_prompt_tokens = n,
           output_token_ids = [],
           all_token_ids = (case ra_prompt_token_ids a of
                              Some t \<Rightarrow> t | None \<Rightarrow> replicate (nat n) 0),
           num_output_placeholders = 0, discard_latest_async_tokens = False,
           spec_token_ids = [], num_computed_tokens = 0, cache_salt = ra_cache_salt a,
           mm_features = (case ra_mm_features a of Some f \<Rightarrow> f | None \<Rightarrow> []),
           num_cached_tokens = - 1, is_prefill_chunk = False, num_preemptions = 0,
           num_external_computed_tokens = 0, block_hashes = [],
           skip_reading_prefix_cache =
             get_skip_reading_prefix_cache (ra_sampling_params a) (ra_pooling_params a),
           resumable = ra_resumable a, streaming_queue = None\<rparr>)))"

definition is_finished :: "request \<Rightarrow> bool" where
  "is_finished r = is_finished_status (status r)"

text \<open>\<open>StreamingUpdate.from_request\<close>.\<close>

definition from_request :: "request \<Rightarrow> streaming_update option" where
  "from_request r =
     (if \<not> resumable r then None
      else Some \<lparr>su_mm_features = mm_features r, su_prompt_token_ids = prompt_token_ids r,
                 su_max_tokens = max_tokens r, su_arrival_time = arrival_time r,
                 su_sampling_params = sampling_params_of r\<rparr>)"

subsection \<open>Repetition detection\<close>

text \<open>The inner loop of \<open>_has_repeating_pattern\<close> over the repetitions \<open>m\<close>.\<close>

fun pattern_inner :: "int list \<Rightarrow> int \<Rightarrow> int \<Rightarrow> int \<Rightarrow> int list \<Rightarrow> bool result" where
  "pattern_inner ids L n target [] = Inr True"
| "pattern_inner ids L n target (m # ms) =
     bindR (py_nth ids (- (L * m + n))) (\<lambda>t.
       if t \<noteq> target then Inr False else pattern_inner ids L n target ms)"

fun pattern_outer :: "int list \<Rightarrow> int \<Rightarrow> int \<Rightarrow> int list \<Rightarrow> bool result" where
  "pattern_outer ids L c [] = Inr True"
| "pattern_outer ids L c (n # ns) =
     bindR (py_nth ids (- n)) (\<lambda>target.
     bindR (pattern_inner ids L n target [1..c - 1]) (\<lambda>same.
       if same then pattern_outer ids L c ns else Inr False))"

definition has_repeating_pattern :: "int list \<Rightarrow> int \<Rightarrow> int \<Rightarrow> bool result" where
  "has_repeating_pattern ids pattern_len repetition_min_count =
     pattern_outer ids pattern_len repetition_min_count [1..pattern_len]"

text \<open>The loop of \<open>check_sequence_repetition\<close> over the pattern lengths.\<close>

fun repetition_loop :: "int list \<Rightarrow> int \<Rightarrow> int list \<Rightarrow> bool result" where
  "repetition_loop ids c [] = Inr False"
| "repetition_loop ids c (L # Ls) =
     (if L * c > int (length ids) then Inr False
      else bindR (has_repeating_pattern ids L c) (\<lambda>found.
             if found then Inr True else repetition_loop ids c Ls))"

definition check_sequence_repetition :: "int list \<Rightarrow> repetition_params \<Rightarrow> bool result" where
  "check_sequence_repetition ids params =
     (let mn = (if min_pattern_size params \<le> 0 then 1 else min_pattern_size params)
      in if max_pattern_size params \<le> 0 \<or> min_count params < 2 \<or> mn > max_pattern_size params
         then Inr False
         else repetition_loop ids (min_count params) [mn..max_pattern_size params])"

subsection \<open>Stopping\<close>

definition check_stop :: "int \<Rightarrow> request \<Rightarrow> (bool \<times> request) result" where
  "check_stop max_model_len r =
     bindR (assertR (pooling_params_of r = None)) (\<lambda>_.
     (case sampling_params_of r of
        None \<Rightarrow> Inl AssertionError
      | Some sp \<Rightarrow>
          if num_output_tokens r < min_tokens sp then Inr (False, r)
          else bindR (py_nth (output_token_ids r) (- 1)) (\<lambda>last_token_id.
            if Some last_token_id = eos_token_id sp
            then Inr (True, r\<lparr>status := FINISHED_STOPPED\<rparr>)
            else if last_token_id \<in> set (case stop_token_ids sp of None \<Rightarrow> [] | Some l \<Rightarrow> l)
            then Inr (True, r\<lparr>status := FINISHED_STOPPED,
                             stop_reason_of := Some (Stop_Token last_token_id)\<rparr>)
            else if num_tokens r \<ge> max_model_len \<or> num_output_tokens r \<ge> max_tokens r
            then Inr (True, r\<lparr>status := FINISHED_LENGTH_CAPPED\<rparr>)
            else (case repetition_detection sp of
                    None \<Rightarrow> Inr (False, r)
                  | Some rd \<Rightarrow>
                      bindR (check_sequence_repetition (output_token_ids r) rd) (\<lambda>rep.
                        if rep
                        then Inr (True, r\<lparr>status := FINISHED_REPETITION,
                               stop_reason_of := Some (Stop_Text ''repetition_detected'')\<rparr>)
                        else Inr (False, r))))))"

text \<open>
  \<open>Scheduler._update_request_with_output\<close>: the tokens kept, whether the request stopped, and
  the request. The list of new tokens is trimmed after the token that stopped it.
\<close>

fun update_request_loop ::
  "block_hasher option \<Rightarrow> int \<Rightarrow> int list \<Rightarrow> int list \<Rightarrow> request \<Rightarrow> (int list \<times> bool \<times> request) result"
  where
  "update_request_loop hasher max_model_len kept [] r = Inr (kept, False, r)"
| "update_request_loop hasher max_model_len kept (t # ts) r =
     bindR (append_output_token_ids hasher [t] r) (\<lambda>r1.
     bindR (check_stop max_model_len r1) (\<lambda>(stopped, r2).
       if stopped then Inr (kept @ [t], True, r2)
       else update_request_loop hasher max_model_len (kept @ [t]) ts r2))"

definition update_request_with_output ::
  "block_hasher option \<Rightarrow> int \<Rightarrow> request \<Rightarrow> int list \<Rightarrow> (int list \<times> bool \<times> request) result" where
  "update_request_with_output hasher max_model_len r new_token_ids =
     update_request_loop hasher max_model_len [] new_token_ids r"

text \<open>\<open>remove_all\<close> of \<open>sched/utils.py\<close>: one item is removed in place (its first occurrence),
  several by a comprehension.\<close>

definition remove_all :: "'a list \<Rightarrow> 'a list \<Rightarrow> 'a list" where
  "remove_all lst items =
     (case remdups items of
        [] \<Rightarrow> lst
      | [x] \<Rightarrow> remove1 x lst
      | _ \<Rightarrow> filter (\<lambda>y. y \<notin> set items) lst)"

subsection \<open>Repetition detection is suffix periodicity\<close>

lemma py_nth_neg:
  assumes "0 < k" and "k \<le> int (length xs)"
  shows "py_nth xs (- k) = Inr (rev xs ! nat (k - 1))"
proof -
  have "rev xs ! nat (k - 1) = xs ! (length xs - Suc (nat (k - 1)))"
    using assms by (intro rev_nth) simp
  moreover have "length xs - Suc (nat (k - 1)) = length xs - nat k" "nat k \<le> length xs"
    using assms by linarith+
  ultimately show ?thesis
    using assms by (simp add: py_nth_def)
qed

lemma nth_concat_replicate:
  "0 < length q \<Longrightarrow> j < c * length q \<Longrightarrow> concat (replicate c q) ! j = q ! (j mod length q)"
proof (induction c arbitrary: j)
  case 0
  then show ?case by simp
next
  case (Suc c)
  show ?case
  proof (cases "j < length q")
    case True
    then show ?thesis by (simp add: nth_append)
  next
    case False
    then have "concat (replicate c q) ! (j - length q) = q ! ((j - length q) mod length q)"
      using Suc.prems by (intro Suc.IH) auto
    with False show ?thesis by (simp add: nth_append le_mod_geq)
  qed
qed

lemma concat_replicate_snoc: "concat (replicate c q) @ q = q @ concat (replicate c q)"
  by (induction c) auto

lemma rev_concat_replicate: "rev (concat (replicate c q)) = concat (replicate c (rev q))"
  by (induction c) (simp_all add: concat_replicate_snoc)

lemma length_concat_replicate [simp]: "length (concat (replicate c q)) = c * length q"
  by (induction c) simp_all

text \<open>The last \<open>c * length p\<close> tokens are \<open>c\<close> copies of \<open>p\<close>, read backwards index by index.\<close>

lemma periodic_suffix:
  assumes "0 < L" and "c * L \<le> length xs"
  shows "(\<exists>p. length p = L \<and> suffix (concat (replicate c p)) xs) \<longleftrightarrow>
         (\<forall>j < c * L. rev xs ! j = rev xs ! (j mod L))"
proof
  assume "\<exists>p. length p = L \<and> suffix (concat (replicate c p)) xs"
  then obtain p ys where p: "length p = L" "xs = ys @ concat (replicate c p)"
    by (auto simp: suffix_def)
  then have r: "rev xs = concat (replicate c (rev p)) @ rev ys"
    by (simp add: rev_concat_replicate)
  show "\<forall>j < c * L. rev xs ! j = rev xs ! (j mod L)"
  proof (intro allI impI)
    fix j assume j: "j < c * L"
    then have "rev xs ! j = rev p ! (j mod L)"
      using p(1) assms(1) by (simp add: r nth_append nth_concat_replicate)
    moreover have "j mod L < c * L"
      using j assms(1) by (meson le_less_trans mod_less_eq_dividend)
    then have "rev xs ! (j mod L) = rev p ! (j mod L)"
      using p(1) assms(1) by (simp add: r nth_append nth_concat_replicate)
    ultimately show "rev xs ! j = rev xs ! (j mod L)" by simp
  qed
next
  assume per: "\<forall>j < c * L. rev xs ! j = rev xs ! (j mod L)"
  define q where "q = take L (rev xs)"
  show "\<exists>p. length p = L \<and> suffix (concat (replicate c p)) xs"
  proof (cases "c = 0")
    case True
    then show ?thesis using Ex_list_of_length by auto
  next
    case False
    then have L: "length q = L"
      using assms(2) by (cases c) (auto simp: q_def)
    have "take (c * L) (rev xs) = concat (replicate c q)"
    proof (rule nth_equalityI)
      show "length (take (c * L) (rev xs)) = length (concat (replicate c q))"
        using assms(2) L by simp
    next
      fix j assume "j < length (take (c * L) (rev xs))"
      then have j: "j < c * L" by simp
      then have "concat (replicate c q) ! j = q ! (j mod L)"
        using assms(1) L by (simp add: nth_concat_replicate)
      also have "\<dots> = rev xs ! (j mod L)"
        using assms(1) by (simp add: q_def)
      finally show "take (c * L) (rev xs) ! j = concat (replicate c q) ! j"
        using per j by simp
    qed
    then have "rev xs = concat (replicate c q) @ drop (c * L) (rev xs)"
      by (metis append_take_drop_id)
    then have "xs = rev (drop (c * L) (rev xs)) @ concat (replicate c (rev q))"
      by (metis rev_append rev_concat_replicate rev_rev_ident)
    with L show ?thesis
      by (metis length_rev suffixI)
  qed
qed

lemma pattern_inner_eq:
  assumes "0 \<le> n" and "\<And>m. m \<in> set ms \<Longrightarrow> 0 < L * m + n \<and> L * m + n \<le> int (length ids)"
  shows "pattern_inner ids L n target ms
           = Inr (\<forall>m \<in> set ms. rev ids ! nat (L * m + n - 1) = target)"
  using assms
proof (induction ms)
  case Nil
  then show ?case by simp
next
  case (Cons m ms)
  have "py_nth ids (- (L * m + n)) = Inr (rev ids ! nat (L * m + n - 1))"
    using Cons.prems by (intro py_nth_neg) auto
  with Cons show ?case by simp
qed

lemma pattern_outer_eq:
  assumes "0 < L" and "2 \<le> c" and "L * c \<le> int (length ids)"
    and "\<And>n. n \<in> set ns \<Longrightarrow> 1 \<le> n \<and> n \<le> L"
  shows "pattern_outer ids L c ns =
     Inr (\<forall>n \<in> set ns. \<forall>m \<in> {1..c - 1}. rev ids ! nat (L * m + n - 1) = rev ids ! nat (n - 1))"
  using assms(4)
proof (induction ns)
  case Nil
  then show ?case by simp
next
  case (Cons n ns)
  have n: "1 \<le> n" "n \<le> L" using Cons.prems by auto
  have "L * 1 \<le> L * c" using assms(1,2) by (intro mult_left_mono) auto
  then have "n \<le> int (length ids)" using n assms(3) by linarith
  then have nth: "py_nth ids (- n) = Inr (rev ids ! nat (n - 1))"
    using n by (intro py_nth_neg) auto
  have "0 < L * m + n \<and> L * m + n \<le> int (length ids)" if "m \<in> set [1..c - 1]" for m
  proof -
    have "L * m \<le> L * (c - 1)" "0 \<le> L * m"
      using that assms(1) by (auto intro: mult_left_mono)
    moreover have "L * (c - 1) + L = L * c" by (simp add: algebra_simps)
    ultimately show ?thesis using n assms(3) by linarith
  qed
  then have "pattern_inner ids L n (rev ids ! nat (n - 1)) [1..c - 1]
     = Inr (\<forall>m \<in> {1..c - 1}. rev ids ! nat (L * m + n - 1) = rev ids ! nat (n - 1))"
    using n by (subst pattern_inner_eq) auto
  with nth Cons show ?case by auto
qed

text \<open>Re-indexing the two nested loops by a single position \<open>j = L * m + n - 1\<close>.\<close>

lemma nested_index:
  assumes "0 < (L::nat)" and "1 \<le> (c::nat)"
  shows "(\<forall>n \<in> {1..int L}. \<forall>m \<in> {1..int c - 1}. P (nat (int L * m + n - 1)) (nat (n - 1)))
     \<longleftrightarrow> (\<forall>j < c * L. L \<le> j \<longrightarrow> P j (j mod L))" (is "?A \<longleftrightarrow> ?B")
proof
  assume A: ?A
  show ?B
  proof (intro allI impI)
    fix j assume j: "j < c * L" "L \<le> j"
    let ?m = "int (j div L)" and ?n = "int (j mod L) + 1"
    have "j div L < c" using j(1) assms(1) by (simp add: div_less_iff_less_mult)
    moreover have "1 \<le> j div L" using j(2) assms(1) by (simp add: Suc_le_eq div_greater_zero_iff)
    moreover have "j mod L < L" using assms(1) by simp
    ultimately have "?m \<in> {1..int c - 1}" and "?n \<in> {1..int L}" by auto
    with A have "P (nat (int L * ?m + ?n - 1)) (nat (?n - 1))" by blast
    moreover have "int L * ?m + ?n - 1 = int j"
      by (metis add.commute add_diff_cancel_right' mult_div_mod_eq of_nat_add of_nat_mult add.assoc)
    ultimately show "P j (j mod L)" by simp
  qed
next
  assume B: ?B
  show ?A
  proof (intro ballI)
    fix n m assume n: "n \<in> {1..int L}" and m: "m \<in> {1..int c - 1}"
    define j where "j = nat (int L * m + n - 1)"
    obtain k i where k: "m = int k" "n = int i + 1" "i < L" "1 \<le> k" "k < c"
      using n m that [of "nat m" "nat (n - 1)"] by force
    have j: "j = L * k + i"
      by (simp add: j_def k nat_int_add flip: of_nat_mult of_nat_add)
    have "L * k + i < L * Suc k" using k(3) by simp
    also have "\<dots> \<le> L * c" using k(5) by (intro mult_le_mono2) simp
    finally have "j < c * L" by (simp add: j mult.commute)
    moreover have "L \<le> j" using k(4) by (simp add: j trans_le_add1)
    moreover have "j mod L = i" using k(3) by (simp add: j)
    ultimately have "P j i" using B by blast
    moreover have "nat (n - 1) = i" by (simp add: k(2))
    ultimately show "P (nat (int L * m + n - 1)) (nat (n - 1))"
      unfolding j_def by (simp only:)
  qed
qed

lemma has_repeating_pattern_correct:
  assumes "0 < L" and "2 \<le> c" and "L * c \<le> int (length ids)"
  shows "has_repeating_pattern ids L c =
     Inr (\<exists>p. int (length p) = L \<and> suffix (concat (replicate (nat c) p)) ids)"
proof -
  obtain l k where l: "L = int l" "0 < l" and k: "c = int k" "2 \<le> k"
    using assms(1,2) that [of "nat L" "nat c"] by auto
  have len: "k * l \<le> length ids"
    using assms(3) by (simp add: l(1) k(1) mult.commute flip: of_nat_mult)
  have "has_repeating_pattern ids L c = Inr (\<forall>n \<in> {1..L}. \<forall>m \<in> {1..c - 1}.
      rev ids ! nat (L * m + n - 1) = rev ids ! nat (n - 1))"
    unfolding has_repeating_pattern_def
    using assms by (subst pattern_outer_eq) auto
  also have "(\<forall>n \<in> {1..L}. \<forall>m \<in> {1..c - 1}. rev ids ! nat (L * m + n - 1) = rev ids ! nat (n - 1))
      \<longleftrightarrow> (\<forall>j < k * l. l \<le> j \<longrightarrow> rev ids ! j = rev ids ! (j mod l))"
    unfolding l(1) k(1)
    using nested_index [of l k "\<lambda>a b. rev ids ! a = rev ids ! b"] l(2) k(2) by simp
  also have "\<dots> \<longleftrightarrow> (\<forall>j < k * l. rev ids ! j = rev ids ! (j mod l))"
    by (metis mod_less not_le)
  also have "\<dots> \<longleftrightarrow> (\<exists>p. length p = l \<and> suffix (concat (replicate k p)) ids)"
    using periodic_suffix [OF l(2) len] by simp
  finally show ?thesis
    by (simp add: l(1) k(1))
qed

definition repeats :: "int \<Rightarrow> int list \<Rightarrow> int \<Rightarrow> bool" where
  "repeats c ids L \<longleftrightarrow> (\<exists>p. int (length p) = L \<and> suffix (concat (replicate (nat c) p)) ids)"

lemma repeats_bound:
  assumes "repeats c ids L" and "0 \<le> c"
  shows "L * c \<le> int (length ids)"
proof -
  obtain p where p: "int (length p) = L" "suffix (concat (replicate (nat c) p)) ids"
    using assms(1) by (auto simp: repeats_def)
  then have "nat c * length p \<le> length ids"
    using suffix_length_le by fastforce
  then have "int (nat c * length p) \<le> int (length ids)" by (simp only: of_nat_le_iff)
  moreover have "L * c = int (nat c * length p)"
    using p(1) assms(2) by (simp add: mult.commute)
  ultimately show ?thesis by simp
qed

lemma repetition_loop_correct:
  assumes "2 \<le> c" and "sorted Ls" and "\<And>L. L \<in> set Ls \<Longrightarrow> 0 < L"
  shows "repetition_loop ids c Ls = Inr (\<exists>L \<in> set Ls. repeats c ids L)"
  using assms(2,3)
proof (induction Ls)
  case Nil
  then show ?case by simp
next
  case (Cons L Ls)
  show ?case
  proof (cases "L * c > int (length ids)")
    case True
    have "\<not> repeats c ids L'" if "L' \<in> set (L # Ls)" for L'
    proof
      assume "repeats c ids L'"
      then have "L' * c \<le> int (length ids)" using assms(1) by (intro repeats_bound) auto
      moreover have "L * c \<le> L' * c"
        using that Cons.prems(1) assms(1) by (intro mult_right_mono) auto
      ultimately show False using True by linarith
    qed
    with True show ?thesis by auto
  next
    case False
    then have "has_repeating_pattern ids L c = Inr (repeats c ids L)"
      using Cons.prems(2) assms(1) by (simp add: has_repeating_pattern_correct repeats_def)
    with False Cons show ?thesis by auto
  qed
qed

subsection \<open>Stopping behaviour\<close>

lemma check_stop_cases:
  assumes "check_stop mml r = Inr (b, r')"
  obtains (go) "\<not> b" "r' = r"
    | (stop) st where "b" "st \<in> {FINISHED_STOPPED, FINISHED_LENGTH_CAPPED}" "r' = r\<lparr>status := st\<rparr>"
    | (stop_reason) st sr where "b" "st \<in> {FINISHED_STOPPED, FINISHED_REPETITION}"
        "r' = r\<lparr>status := st, stop_reason_of := Some sr\<rparr>"
proof -
  obtain sp where sp: "sampling_params_of r = Some sp" "pooling_params_of r = None"
    using assms unfolding check_stop_def by (cases "sampling_params_of r") (auto simp: bindR_eq_Inr)
  show ?thesis
  proof (cases "num_output_tokens r < min_tokens sp")
    case True
    with assms sp show ?thesis by (intro go) (simp_all add: check_stop_def)
  next
    case False
    with assms sp obtain t where t: "py_nth (output_token_ids r) (- 1) = Inr t"
      by (auto simp: check_stop_def bindR_eq_Inr)
    define S where "S = set (case stop_token_ids sp of None \<Rightarrow> [] | Some l \<Rightarrow> l)"
    note eq = assms [unfolded check_stop_def sp option.case t bindR_simps, folded S_def]
    show ?thesis
    proof (cases "Some t = eos_token_id sp")
      case True
      with eq False have "b" "r' = r\<lparr>status := FINISHED_STOPPED\<rparr>" by simp_all
      then show ?thesis by (intro stop) simp_all
    next
      case neos: False
      show ?thesis
      proof (cases "t \<in> S")
        case True
        with eq False neos have "b" "r' = r\<lparr>status := FINISHED_STOPPED, stop_reason_of := Some (Stop_Token t)\<rparr>"
          by simp_all
        then show ?thesis by (intro stop_reason) simp_all
      next
        case nstop: False
        show ?thesis
        proof (cases "num_tokens r \<ge> mml \<or> num_output_tokens r \<ge> max_tokens r")
          case True
          with eq False neos nstop have "b" "r' = r\<lparr>status := FINISHED_LENGTH_CAPPED\<rparr>" by simp_all
          then show ?thesis by (intro stop) simp_all
        next
          case nlen: False
          show ?thesis
          proof (cases "repetition_detection sp")
            case None
            with eq False neos nstop nlen show ?thesis by (intro go) simp_all
          next
            case (Some rd)
            with eq False neos nstop nlen obtain rep where 
              "check_sequence_repetition (output_token_ids r) rd = Inr rep"
              by (auto simp: bindR_eq_Inr)
            with eq False neos nstop nlen Some show ?thesis
              by (cases rep) (auto intro: go stop_reason)
          qed
        qed
      qed
    qed
  qed
qed

lemma check_stop_keeps_tokens:
  assumes "check_stop mml r = Inr (b, r')"
  shows "output_token_ids r' = output_token_ids r" "all_token_ids r' = all_token_ids r"
    "max_tokens r' = max_tokens r" "sampling_params_of r' = sampling_params_of r"
    "b \<Longrightarrow> is_finished r'" "\<not> b \<Longrightarrow> r' = r"
  using assms by (auto elim!: check_stop_cases simp: is_finished_def)

lemma check_stop_caps:
  assumes "check_stop mml r = Inr (False, r')" and sp: "sampling_params_of r = Some sp"
    and "min_tokens sp \<le> num_output_tokens r"
  shows "num_tokens r < mml" and "num_output_tokens r < max_tokens r"
proof -
  obtain t where t: "py_nth (output_token_ids r) (- 1) = Inr t" and pp: "pooling_params_of r = None"
    using assms by (auto simp: check_stop_def bindR_eq_Inr)
  define S where "S = set (case stop_token_ids sp of None \<Rightarrow> [] | Some l \<Rightarrow> l)"
  note eq = assms(1) [unfolded check_stop_def sp option.case t bindR_simps, folded S_def]
  have "\<not> (num_tokens r \<ge> mml \<or> num_output_tokens r \<ge> max_tokens r)"
  proof
    assume "num_tokens r \<ge> mml \<or> num_output_tokens r \<ge> max_tokens r"
    with eq assms(3) pp show False by (simp split: if_splits)
  qed
  then show "num_tokens r < mml" and "num_output_tokens r < max_tokens r" by auto
qed

text \<open>The hashers the code uses extend \<open>block_hashes\<close> and the embedding memo only.\<close>

definition hasher_frame :: "block_hasher option \<Rightarrow> bool" where
  "hasher_frame hasher \<longleftrightarrow>
     (\<forall>h. hasher = Some h \<longrightarrow> (\<forall>r new r'. h r = Inr (new, r') \<longrightarrow>
        (\<exists>memo. r' = r\<lparr>prompt_embeds_per_block_hashes := memo\<rparr>)))"

lemma append_output_frame:
  assumes "hasher_frame hasher" and "append_output_token_ids hasher ts r = Inr r'"
  shows "\<exists>memo hs. r' = r\<lparr>output_token_ids := output_token_ids r @ ts,
            all_token_ids := all_token_ids r @ ts,
            prompt_embeds_per_block_hashes := memo, block_hashes := hs\<rparr>"
proof (cases hasher)
  case None
  with assms(2) have "r' = r\<lparr>output_token_ids := output_token_ids r @ ts,
            all_token_ids := all_token_ids r @ ts,
            prompt_embeds_per_block_hashes := prompt_embeds_per_block_hashes r,
            block_hashes := block_hashes r\<rparr>"
    by (cases r) (auto simp: append_output_token_ids_def update_block_hashes_def)
  then show ?thesis by blast
next
  case (Some h)
  then obtain new r1 where h: "h (r\<lparr>output_token_ids := output_token_ids r @ ts,
          all_token_ids := all_token_ids r @ ts\<rparr>) = Inr (new, r1)"
      "r' = r1\<lparr>block_hashes := block_hashes r1 @ new\<rparr>"
    using assms(2)
    by (auto simp: append_output_token_ids_def update_block_hashes_def bindR_eq_Inr)
  then obtain memo where "r1 = r\<lparr>output_token_ids := output_token_ids r @ ts,
          all_token_ids := all_token_ids r @ ts, prompt_embeds_per_block_hashes := memo\<rparr>"
    using assms(1) Some unfolding hasher_frame_def by blast
  with h(2) show ?thesis by auto
qed

lemma update_request_loop_spec:
  assumes "hasher_frame hasher"
    and "update_request_loop hasher mml kept ts r = Inr (kept', stopped, r')"
  shows "\<exists>ms. kept' = kept @ ms \<and> prefix ms ts
     \<and> output_token_ids r' = output_token_ids r @ ms \<and> all_token_ids r' = all_token_ids r @ ms
     \<and> (stopped \<longrightarrow> is_finished r' \<and> ms \<noteq> []) \<and> (\<not> stopped \<longrightarrow> ms = ts \<and> status r' = status r)"
  using assms(2)
proof (induction ts arbitrary: kept r)
  case Nil
  then show ?case by auto
next
  case (Cons t ts)
  from Cons.prems obtain r1 st r2 where
    r1: "append_output_token_ids hasher [t] r = Inr r1" and
    st: "check_stop mml r1 = Inr (st, r2)" and
    rest: "(if st then Inr (kept @ [t], True, r2)
            else update_request_loop hasher mml (kept @ [t]) ts r2) = Inr (kept', stopped, r')"
    by (auto simp: bindR_eq_Inr split: prod.splits)
  note app = append_output_frame [OF assms(1) r1]
  note keep = check_stop_keeps_tokens [OF st]
  show ?case
  proof (cases st)
    case True
    with rest app keep show ?thesis by (intro exI [of _ "[t]"]) auto
  next
    case False
    with rest obtain ms where ms: "kept' = (kept @ [t]) @ ms" "prefix ms ts"
        "output_token_ids r' = output_token_ids r2 @ ms" "all_token_ids r' = all_token_ids r2 @ ms"
        "stopped \<longrightarrow> is_finished r' \<and> ms \<noteq> []" "\<not> stopped \<longrightarrow> ms = ts \<and> status r' = status r2"
      using Cons.IH [of "kept @ [t]" r2] by auto
    with app keep False show ?thesis
      by (intro exI [of _ "t # ms"]) auto
  qed
qed

text \<open>As long as every token is checked, the length caps of a request are never passed.\<close>

lemma update_request_loop_bound:
  assumes frame: "hasher_frame hasher"
    and run: "update_request_loop hasher mml kept ts r = Inr (kept', stopped, r')"
    and sp: "sampling_params_of r = Some sp" "min_tokens sp \<le> num_output_tokens r + 1"
    and start: "num_tokens r < mml" "num_output_tokens r < max_tokens r"
  shows "num_tokens r' \<le> mml \<and> num_output_tokens r' \<le> max_tokens r"
  using run sp start
proof (induction ts arbitrary: kept r)
  case Nil
  then show ?case by auto
next
  case (Cons t ts)
  from Cons.prems(1) obtain r1 st r2 where
    r1: "append_output_token_ids hasher [t] r = Inr r1" and
    st: "check_stop mml r1 = Inr (st, r2)" and
    rest: "(if st then Inr (kept @ [t], True, r2)
            else update_request_loop hasher mml (kept @ [t]) ts r2) = Inr (kept', stopped, r')"
    by (auto simp: bindR_eq_Inr split: prod.splits)
  obtain memo hs where r1eq: "r1 = r\<lparr>output_token_ids := output_token_ids r @ [t],
       all_token_ids := all_token_ids r @ [t], prompt_embeds_per_block_hashes := memo,
       block_hashes := hs\<rparr>"
    using append_output_frame [OF frame r1] by blast
  note keep = check_stop_keeps_tokens [OF st]
  show ?case
  proof (cases st)
    case True
    with rest keep r1eq Cons.prems(4,5) show ?thesis
      by (auto simp: num_tokens_def num_output_tokens_def)
  next
    case False
    then have r2: "r2 = r1" using keep by simp
    have sp1: "sampling_params_of r1 = Some sp" "min_tokens sp \<le> num_output_tokens r1"
      using Cons.prems(2,3) r1eq by (auto simp: num_output_tokens_def)
    then have "num_tokens r1 < mml" and "num_output_tokens r1 < max_tokens r1"
      using check_stop_caps [of mml r1 r2 sp] st False by auto
    moreover have "min_tokens sp \<le> num_output_tokens r1 + 1" using sp1(2) by simp
    moreover note sp1(1)
    ultimately have "num_tokens r' \<le> mml \<and> num_output_tokens r' \<le> max_tokens r1"
      using Cons.IH [of "kept @ [t]" r1] rest False r2 by simp
    with r1eq show ?thesis by simp
  qed
qed

lemma remove_all_eq:
  assumes "distinct lst"
  shows "remove_all lst items = filter (\<lambda>y. y \<notin> set items) lst"
proof (cases "remdups items")
  case Nil
  then show ?thesis by (simp add: remove_all_def)
next
  case items: (Cons x xs)
  show ?thesis
  proof (cases xs)
    case Nil
    with items have "set items = {x}" by (metis empty_set list.simps(15) set_remdups)
    with items Nil assms show ?thesis
      by (simp add: remove_all_def filter_distinct_remove1)
  next
    case (Cons y ys)
    with items show ?thesis by (simp add: remove_all_def)
  qed
qed

subsection \<open>Properties\<close>

text \<open>
  C21: Repetition detection answers exactly whether, for some pattern length in the configured
  range, the output ends with that many consecutive copies of one pattern; it never raises,
  and it says no when the detection is configured off.
\<close>

theorem check_sequence_repetition_correct:
  "check_sequence_repetition ids params =
     Inr (0 < max_pattern_size params \<and> 2 \<le> min_count params
          \<and> (\<exists>L \<in> {max 1 (min_pattern_size params)..max_pattern_size params}.
                \<exists>p. int (length p) = L
                   \<and> suffix (concat (replicate (nat (min_count params)) p)) ids))"
proof -
  define mn where "mn = (if min_pattern_size params \<le> 0 then 1 else min_pattern_size params)"
  have mn: "mn = max 1 (min_pattern_size params)" "0 < mn" by (auto simp: mn_def)
  show ?thesis
  proof (cases "max_pattern_size params \<le> 0 \<or> min_count params < 2 \<or> mn > max_pattern_size params")
    case True
    then show ?thesis by (auto simp: check_sequence_repetition_def Let_def mn_def [symmetric] mn(1))
  next
    case False
    have "repetition_loop ids (min_count params) [mn..max_pattern_size params]
        = Inr (\<exists>L \<in> set [mn..max_pattern_size params]. repeats (min_count params) ids L)"
      using False mn(2) by (intro repetition_loop_correct) auto
    with False show ?thesis
      by (auto simp: check_sequence_repetition_def Let_def mn_def [symmetric] repeats_def mn(1))
  qed
qed

text \<open>A request with one prompt token and nothing else, to evaluate properties on.\<close>

definition bare_request :: "string \<Rightarrow> request" where
  "bare_request rid =
     \<lparr>request_id = rid, client_index = 0, priority = 0, arrival_time = 0, sampling_params_of = None,
      pooling_params_of = None, lora_request_of = None, use_structured_output = False, status = WAITING,
      stop_reason_of = None, max_tokens = 1, prompt_token_ids = Some [1], prompt_embeds = None,
      prompt_embeds_per_block_hashes = [], num_prompt_tokens = 1, output_token_ids = [], all_token_ids = [1],
      num_output_placeholders = 0, discard_latest_async_tokens = False, spec_token_ids = [],
      num_computed_tokens = 0, cache_salt = None, mm_features = [], num_cached_tokens = -1,
      is_prefill_chunk = False, num_preemptions = 0, num_external_computed_tokens = 0, block_hashes = [],
      skip_reading_prefix_cache = False, resumable = False, streaming_queue = None\<rparr>"

end
