(* ===== verification/Block_Hash.thy ===== *)
theory Block_Hash
  imports Request_Model
begin

text \<open>
  Block hashing for prefix caching, \<open>vllm/v1/core/kv_cache_utils.py\<close>: packing a block hash with
  its KV-cache group id, the extra keys of a block, the hash chain a request's hasher
  computes, and the regrouping of hashes for larger blocks. The hash function
  (\<open>caching_hash_fn\<close>), the seed \<open>NONE_HASH\<close> and \<open>hashlib.sha256\<close> are parameters, collected in
  the record \<open>hash_env\<close> with the block size the hasher was built for.
\<close>

subsection \<open>Keys: a block hash with its group id\<close>

text \<open>\<open>int.to_bytes(4, "big", signed=False)\<close> and \<open>int.from_bytes(_, "big")\<close>.\<close>

definition to_bytes4 :: "nat \<Rightarrow> hash_bytes result" where
  "to_bytes4 g =
     (if g < 2 ^ 32
      then Inr [word_of_nat (g div 2 ^ 24), word_of_nat (g div 2 ^ 16),
                word_of_nat (g div 2 ^ 8), word_of_nat g]
      else Inl OverflowError)"

definition from_bytes :: "hash_bytes \<Rightarrow> nat" where
  "from_bytes bs = foldl (\<lambda>a b. a * 256 + unat b) 0 bs"

definition make_block_hash_with_group_id :: "hash_bytes \<Rightarrow> nat \<Rightarrow> hash_bytes result" where
  "make_block_hash_with_group_id h g = bindR (to_bytes4 g) (\<lambda>b. Inr (h @ b))"

definition get_block_hash :: "hash_bytes \<Rightarrow> hash_bytes" where
  "get_block_hash key = slice_to key (- 4)"

definition get_group_id :: "hash_bytes \<Rightarrow> nat" where
  "get_group_id key = from_bytes (slice_from key (- 4))"

datatype external_block_hash = Ext_Bytes hash_bytes | Ext_Int nat

definition maybe_convert_block_hash :: "bool \<Rightarrow> hash_bytes \<Rightarrow> external_block_hash" where
  "maybe_convert_block_hash use_int_block_hashes h =
     (if \<not> use_int_block_hashes then Ext_Bytes h
      else Ext_Int (take_bit 64 (from_bytes h)))"

subsection \<open>Extra keys\<close>

datatype extra_key = Key_str string | Key_bytes hash_bytes

record hash_env =
  caching_hash_fn :: "hash_bytes \<times> int list \<times> extra_key list option \<Rightarrow> hash_bytes"
  NONE_HASH :: hash_bytes
  sha256 :: "hash_bytes \<Rightarrow> hash_bytes"
  he_block_size :: int

definition need_extra_keys :: "request \<Rightarrow> bool" where
  "need_extra_keys r =
     (mm_features r \<noteq> [] \<or> lora_request_of r \<noteq> None \<or> cache_salt r \<noteq> None)"

text \<open>The \<open>while\<close> loop of \<open>_gen_mm_extra_hash_keys\<close> from the index \<open>idx\<close>.\<close>

function mm_keys_loop ::
  "mm_feature list \<Rightarrow> int \<Rightarrow> int \<Rightarrow> nat \<Rightarrow> extra_key list \<Rightarrow> extra_key list \<times> int" where
  "mm_keys_loop feats s e idx keys =
     (if idx < length feats then
        let f = feats ! idx; off = mm_offset f; len = mm_length f
        in if e > off then
             if s > off + len then mm_keys_loop feats s e (idx + 1) keys
             else if e \<ge> off + len
             then mm_keys_loop feats s e (idx + 1) (keys @ [Key_str (mm_identifier f)])
             else (keys @ [Key_str (mm_identifier f)], int idx)
           else (keys, int idx)
      else (keys, int idx))"
  by pat_completeness auto
termination
  by (relation "measure (\<lambda>(feats, s, e, idx, keys). length feats - idx)") auto

declare mm_keys_loop.simps [simp del]

definition gen_mm_extra_hash_keys ::
  "request \<Rightarrow> int \<Rightarrow> int \<Rightarrow> int \<Rightarrow> (extra_key list \<times> int) result" where
  "gen_mm_extra_hash_keys r s e start_mm_idx =
     (let feats = mm_features r
      in if feats = [] then Inr ([], start_mm_idx)
         else if mm_offset (last feats) + mm_length (last feats) < s then Inr ([], start_mm_idx)
         else if start_mm_idx < 0
         then bindR (assertR (- start_mm_idx \<le> int (length feats))) (\<lambda>_.
                Inr (mm_keys_loop feats s e (nat (int (length feats) + start_mm_idx)) []))
         else Inr (mm_keys_loop feats s e (nat start_mm_idx) []))"

definition gen_lora_extra_hash_keys :: "request \<Rightarrow> extra_key list" where
  "gen_lora_extra_hash_keys r =
     (case lora_request_of r of None \<Rightarrow> [] | Some l \<Rightarrow> [Key_str (lora_name l)])"

text \<open>The hash of a block's prompt embeddings is memoised on the request.\<close>

definition gen_prompt_embeds_extra_hash_keys ::
  "hash_env \<Rightarrow> request \<Rightarrow> int \<Rightarrow> int \<Rightarrow> extra_key list \<times> request" where
  "gen_prompt_embeds_extra_hash_keys env r s e =
     (case prompt_embeds r of
        None \<Rightarrow> ([], r)
      | Some rows \<Rightarrow>
          (case map_of (prompt_embeds_per_block_hashes r) (s, e) of
             Some h \<Rightarrow> ([Key_bytes h], r)
           | None \<Rightarrow>
               let h = sha256 env (concat (slice_between rows s e))
               in ([Key_bytes h],
                   r\<lparr>prompt_embeds_per_block_hashes :=
                       AList.update (s, e) h (prompt_embeds_per_block_hashes r)\<rparr>)))"

definition salt_keys :: "request \<Rightarrow> int \<Rightarrow> extra_key list" where
  "salt_keys r s =
     (case cache_salt r of
        None \<Rightarrow> []
      | Some salt \<Rightarrow> if s = 0 \<and> salt \<noteq> [] then [Key_str salt] else [])"

definition generate_block_hash_extra_keys ::
  "hash_env \<Rightarrow> request \<Rightarrow> int \<Rightarrow> int \<Rightarrow> int
   \<Rightarrow> (extra_key list option \<times> int \<times> request) result" where
  "generate_block_hash_extra_keys env r s e start_mm_idx =
     bindR (gen_mm_extra_hash_keys r s e start_mm_idx) (\<lambda>(mm_keys, idx).
       case gen_prompt_embeds_extra_hash_keys env r s e of
         (embeds_keys, r') \<Rightarrow>
           let keys = gen_lora_extra_hash_keys r @ mm_keys @ salt_keys r s @ embeds_keys
           in Inr (if keys = [] then None else Some keys, idx, r'))"

subsection \<open>The hash chain\<close>

definition hash_block_tokens ::
  "hash_env \<Rightarrow> hash_bytes option \<Rightarrow> int list \<Rightarrow> extra_key list option \<Rightarrow> hash_bytes" where
  "hash_block_tokens env parent ids keys =
     (let p = (case parent of None \<Rightarrow> NONE_HASH env | Some h \<Rightarrow> if h = [] then NONE_HASH env else h)
      in caching_hash_fn env (p, ids, keys))"

fun hasher_loop ::
  "nat \<Rightarrow> hash_env \<Rightarrow> int \<Rightarrow> int \<Rightarrow> hash_bytes option \<Rightarrow> hash_bytes list \<Rightarrow> request
   \<Rightarrow> (hash_bytes list \<times> request) result" where
  "hasher_loop 0 env start mm_idx prev acc r = Inl Diverges"
| "hasher_loop (Suc fuel) env start mm_idx prev acc r =
     (let e = start + he_block_size env
      in if e > num_tokens r then Inr (acc, r)
         else bindR (generate_block_hash_extra_keys env r start e mm_idx) (\<lambda>(keys, mm_idx', r').
           let h = hash_block_tokens env prev (slice_between (all_token_ids r) start e) keys
           in hasher_loop fuel env (start + he_block_size env) mm_idx' (Some h) (acc @ [h]) r'))"

definition request_block_hasher :: "hash_env \<Rightarrow> request \<Rightarrow> (hash_bytes list \<times> request) result" where
  "request_block_hasher env r =
     (let start = int (length (block_hashes r)) * he_block_size env
      in if start + he_block_size env > num_tokens r then Inr ([], r)
         else hasher_loop (length (all_token_ids r) + 1) env start
                (if start > 0 then - 1 else 0)
                (if block_hashes r = [] then None else Some (last (block_hashes r))) [] r)"

subsection \<open>Regrouping hashes for larger blocks\<close>

text \<open>
  \<open>BlockHashListWithBlockSize\<close>: the regrouped list has one entry per \<open>scale_factor\<close> hashes,
  their concatenation. The code builds the entries lazily; the model lists them.
\<close>

definition merged_hash :: "hash_bytes list \<Rightarrow> nat \<Rightarrow> nat \<Rightarrow> hash_bytes" where
  "merged_hash hs scale idx = concat (map (\<lambda>i. hs ! i) [idx * scale..<idx * scale + scale])"

definition block_hash_list_with_block_size ::
  "hash_bytes list \<Rightarrow> int \<Rightarrow> int \<Rightarrow> hash_bytes list result" where
  "block_hash_list_with_block_size hs hash_block_size target_block_size =
     (if hash_block_size = 0 \<or> target_block_size = 0 then Inl ZeroDivisionError
      else if target_block_size mod hash_block_size \<noteq> 0 then Inl AssertionError
      else let scale = nat (target_block_size div hash_block_size)
           in Inr (map (merged_hash hs scale) [0..<length hs div scale]))"

subsection \<open>Keys can be taken apart\<close>

text \<open>For evaluation, the bytes are computed on integers.\<close>

lemma to_bytes4_code [code]:
  "to_bytes4 g =
     (let i = int g
      in if i < 2 ^ 32 then Inr [word_of_int (i div 2 ^ 24), word_of_int (i div 2 ^ 16), word_of_int (i div 2 ^ 8), word_of_int i]
         else Inl OverflowError)"
proof -
  have "word_of_nat (g div n) = (word_of_int (int g div int n) :: 8 word)" for n
    by (simp flip: zdiv_int)
  from this [of "2 ^ 24"] this [of "2 ^ 16"] this [of "2 ^ 8"] show ?thesis by (simp add: to_bytes4_def Let_def)
qed

lemma to_bytes4_roundtrip:
  assumes "to_bytes4 g = Inr bs"
  shows "length bs = 4" and "from_bytes bs = g"
proof -
  have g: "g < 2 ^ 32" and bs: "bs = [word_of_nat (g div 2 ^ 24), word_of_nat (g div 2 ^ 16),
        word_of_nat (g div 2 ^ 8), word_of_nat g]"
    using assms by (auto simp: to_bytes4_def split: if_splits)
  show len: "length bs = 4" by (simp add: bs)
  have u: "unat (word_of_nat n :: 8 word) = n mod 256" for n
    by (simp add: unat_of_nat)
  have "from_bytes bs = ((g div 2 ^ 24 mod 256 * 256 + g div 2 ^ 16 mod 256) * 256
      + g div 2 ^ 8 mod 256) * 256 + g mod 256"
    unfolding from_bytes_def bs by (simp only: foldl_Cons foldl_Nil u mult_0 add_0)
  also have "\<dots> = g"
  proof -
    have d: "g div 2 ^ 16 = g div 2 ^ 8 div 256" "g div 2 ^ 24 = g div 2 ^ 8 div 256 div 256"
      by (simp_all flip: div_mult2_eq)
    have "g div 2 ^ 8 div 256 div 256 < 256"
      using g by (simp flip: div_mult2_eq add: less_mult_imp_div_less)
    then show ?thesis
      unfolding d by (simp add: div_mult_mod_eq)
  qed
  finally show "from_bytes bs = g" .
qed

lemma slice_last4:
  assumes "length b = 4"
  shows "slice_to (h @ b) (- 4) = h" and "slice_from (h @ b) (- 4) = b"
  using assms by (auto simp: slice_to_def slice_from_def slice_bound_def nat_add_distrib)

lemma make_block_hash_roundtrip:
  assumes "make_block_hash_with_group_id h g = Inr k"
  shows "get_block_hash k = h" and "get_group_id k = g"
proof -
  obtain b where b: "to_bytes4 g = Inr b" "k = h @ b"
    using assms by (auto simp: make_block_hash_with_group_id_def bindR_eq_Inr)
  show "get_block_hash k = h" "get_group_id k = g"
    using slice_last4 [OF to_bytes4_roundtrip(1) [OF b(1)]] to_bytes4_roundtrip(2) [OF b(1)]
    by (simp_all add: b(2) get_block_hash_def get_group_id_def)
qed

lemma make_block_hash_inject:
  assumes "make_block_hash_with_group_id h g = Inr k" and "make_block_hash_with_group_id h' g' = Inr k"
  shows "h = h'" and "g = g'"
  using make_block_hash_roundtrip assms by blast+

lemma make_block_hash_total:
  "g < 2 ^ 32 \<Longrightarrow> \<exists>k. make_block_hash_with_group_id h g = Inr k"
  by (simp add: make_block_hash_with_group_id_def to_bytes4_def)

subsection \<open>Extra keys are always found, and only the memo changes\<close>

lemma gen_prompt_embeds_frame:
  "\<exists>emb memo. gen_prompt_embeds_extra_hash_keys env r s e
     = (emb, r\<lparr>prompt_embeds_per_block_hashes := memo\<rparr>)"
proof (cases "prompt_embeds r")
  case None
  then show ?thesis
    by (intro exI [of _ "[]"] exI [of _ "prompt_embeds_per_block_hashes r"])
      (simp add: gen_prompt_embeds_extra_hash_keys_def)
next
  case (Some rows)
  show ?thesis
  proof (cases "map_of (prompt_embeds_per_block_hashes r) (s, e)")
    case None
    with Some show ?thesis by (auto simp: gen_prompt_embeds_extra_hash_keys_def Let_def)
  next
    case hit: (Some h)
    with Some show ?thesis
      by (intro exI [of _ "[Key_bytes h]"] exI [of _ "prompt_embeds_per_block_hashes r"])
        (simp add: gen_prompt_embeds_extra_hash_keys_def)
  qed
qed

lemma mm_keys_loop_index: "0 \<le> snd (mm_keys_loop feats s e idx keys)"
  by (induction feats s e idx keys rule: mm_keys_loop.induct) (subst mm_keys_loop.simps, simp add: Let_def)

lemma extra_keys_total:
  assumes "0 \<le> idx"
  shows "\<exists>keys idx' memo. generate_block_hash_extra_keys env r s e idx
      = Inr (keys, idx', r\<lparr>prompt_embeds_per_block_hashes := memo\<rparr>) \<and> 0 \<le> idx'"
proof -
  obtain ks idx' where mm: "gen_mm_extra_hash_keys r s e idx = Inr (ks, idx')" "0 \<le> idx'"
  proof (cases "gen_mm_extra_hash_keys r s e idx")
    case (Inl err)
    then show ?thesis using assms by (simp add: gen_mm_extra_hash_keys_def Let_def split: if_splits)
  next
    case (Inr y)
    moreover from this have "0 \<le> snd y"
      using assms mm_keys_loop_index
      by (auto simp: gen_mm_extra_hash_keys_def Let_def split: if_splits)
    ultimately show ?thesis using that by (cases y) simp
  qed
  obtain emb memo where "gen_prompt_embeds_extra_hash_keys env r s e
      = (emb, r\<lparr>prompt_embeds_per_block_hashes := memo\<rparr>)"
    using gen_prompt_embeds_frame by blast
  with mm show ?thesis by (auto simp: generate_block_hash_extra_keys_def Let_def)
qed

lemma extra_keys_frame:
  assumes "generate_block_hash_extra_keys env r s e idx = Inr (keys, idx', r')"
  shows "\<exists>memo. r' = r\<lparr>prompt_embeds_per_block_hashes := memo\<rparr>"
proof -
  obtain emb memo where "gen_prompt_embeds_extra_hash_keys env r s e
      = (emb, r\<lparr>prompt_embeds_per_block_hashes := memo\<rparr>)"
    using gen_prompt_embeds_frame by blast
  with assms show ?thesis
    by (auto simp: generate_block_hash_extra_keys_def bindR_eq_Inr Let_def)
qed

lemma hasher_loop_frame:
  "hasher_loop fuel env start idx prev acc r = Inr (hs, r')
   \<Longrightarrow> \<exists>memo. r' = r\<lparr>prompt_embeds_per_block_hashes := memo\<rparr>"
proof (induction fuel arbitrary: start idx prev acc r)
  case 0
  then show ?case by simp
next
  case (Suc fuel)
  show ?case
  proof (cases "start + he_block_size env > num_tokens r")
    case True
    with Suc.prems have "r' = r\<lparr>prompt_embeds_per_block_hashes := prompt_embeds_per_block_hashes r\<rparr>"
      by simp
    then show ?thesis by blast
  next
    case False
    with Suc.prems obtain keys idx1 r1 h where
      g: "generate_block_hash_extra_keys env r start (start + he_block_size env) idx = Inr (keys, idx1, r1)"
      and rest: "hasher_loop fuel env (start + he_block_size env) idx1 (Some h) (acc @ [h]) r1 = Inr (hs, r')"
      by (auto simp: bindR_eq_Inr Let_def)
    obtain memo where memo: "r1 = r\<lparr>prompt_embeds_per_block_hashes := memo\<rparr>"
      using extra_keys_frame [OF g] by blast
    obtain memo' where "r' = r1\<lparr>prompt_embeds_per_block_hashes := memo'\<rparr>"
      using Suc.IH [OF rest] by blast
    then have "r' = r\<lparr>prompt_embeds_per_block_hashes := memo'\<rparr>" using memo by simp
    then show ?thesis by blast
  qed
qed

lemma request_block_hasher_frame: "hasher_frame (Some (request_block_hasher env))"
proof -
  have "\<exists>memo. r' = r\<lparr>prompt_embeds_per_block_hashes := memo\<rparr>"
    if "request_block_hasher env r = Inr (new, r')" for r new r'
  proof (cases "int (length (block_hashes r)) * he_block_size env + he_block_size env > num_tokens r")
    case True
    with that have "r' = r\<lparr>prompt_embeds_per_block_hashes := prompt_embeds_per_block_hashes r\<rparr>"
      by (simp add: request_block_hasher_def Let_def)
    then show ?thesis by blast
  next
    case False
    with that show ?thesis
      unfolding request_block_hasher_def Let_def by (simp only: if_False) (rule hasher_loop_frame)
  qed
  then show ?thesis by (simp add: hasher_frame_def)
qed

subsection \<open>The hasher computes the reference chain\<close>

text \<open>
  The reference: block \<open>i\<close> of a request without multi-modal inputs is hashed from its parent's
  hash, its tokens and its extra keys, all determined by the request's contents.
\<close>

definition block_tokens :: "hash_env \<Rightarrow> request \<Rightarrow> nat \<Rightarrow> int list" where
  "block_tokens env r i =
     slice_between (all_token_ids r) (int i * he_block_size env) (int i * he_block_size env + he_block_size env)"

definition embeds_key :: "hash_env \<Rightarrow> request \<Rightarrow> int \<Rightarrow> int \<Rightarrow> extra_key list" where
  "embeds_key env r s e =
     (case prompt_embeds r of
        None \<Rightarrow> [] | Some rows \<Rightarrow> [Key_bytes (sha256 env (concat (slice_between rows s e)))])"

definition block_keys :: "hash_env \<Rightarrow> request \<Rightarrow> nat \<Rightarrow> extra_key list option" where
  "block_keys env r i =
     (let s = int i * he_block_size env;
          keys = gen_lora_extra_hash_keys r @ salt_keys r s @ embeds_key env r s (s + he_block_size env)
      in if keys = [] then None else Some keys)"

fun chain :: "hash_env \<Rightarrow> request \<Rightarrow> nat \<Rightarrow> hash_bytes list" where
  "chain env r 0 = []"
| "chain env r (Suc n) =
     chain env r n @
       [hash_block_tokens env (if n = 0 then None else Some (last (chain env r n)))
          (block_tokens env r n) (block_keys env r n)]"

definition full_blocks :: "hash_env \<Rightarrow> request \<Rightarrow> nat" where
  "full_blocks env r = nat (num_tokens r div he_block_size env)"

definition memo_ok :: "hash_env \<Rightarrow> request \<Rightarrow> bool" where
  "memo_ok env r \<longleftrightarrow>
     (\<forall>s e h rows. prompt_embeds r = Some rows
        \<longrightarrow> map_of (prompt_embeds_per_block_hashes r) (s, e) = Some h
        \<longrightarrow> h = sha256 env (concat (slice_between rows s e)))"

lemma length_chain [simp]: "length (chain env r n) = n"
  by (induction n) auto

lemma chain_take: "k \<le> n \<Longrightarrow> take k (chain env r n) = chain env r k"
  by (induction n) (auto simp: le_Suc_eq)

lemma chain_cong:
  assumes "\<And>i. i < n \<Longrightarrow> block_tokens env r i = block_tokens env r' i"
    and "\<And>i. i < n \<Longrightarrow> block_keys env r i = block_keys env r' i"
  shows "chain env r n = chain env r' n"
  using assms by (induction n) auto

lemma gen_prompt_embeds_eq:
  assumes "memo_ok env r"
  shows "\<exists>memo. gen_prompt_embeds_extra_hash_keys env r s e
      = (embeds_key env r s e, r\<lparr>prompt_embeds_per_block_hashes := memo\<rparr>)
      \<and> memo_ok env (r\<lparr>prompt_embeds_per_block_hashes := memo\<rparr>)"
proof (cases "prompt_embeds r")
  case None
  then show ?thesis
    using assms by (intro exI [of _ "prompt_embeds_per_block_hashes r"])
      (simp add: gen_prompt_embeds_extra_hash_keys_def embeds_key_def)
next
  case (Some rows)
  show ?thesis
  proof (cases "map_of (prompt_embeds_per_block_hashes r) (s, e)")
    case None
    let ?memo = "AList.update (s, e) (sha256 env (concat (slice_between rows s e)))
                   (prompt_embeds_per_block_hashes r)"
    have "memo_ok env (r\<lparr>prompt_embeds_per_block_hashes := ?memo\<rparr>)"
      using assms Some by (simp add: memo_ok_def update_conv')
    with None Some show ?thesis
      by (intro exI [of _ ?memo])
        (simp add: gen_prompt_embeds_extra_hash_keys_def embeds_key_def Let_def)
  next
    case hit: (Some h)
    then have h: "h = sha256 env (concat (slice_between rows s e))"
      using assms Some by (auto simp: memo_ok_def)
    with hit Some assms show ?thesis
      by (intro exI [of _ "prompt_embeds_per_block_hashes r"])
        (simp add: gen_prompt_embeds_extra_hash_keys_def embeds_key_def)
  qed
qed

lemma extra_keys_eq:
  assumes "mm_features r = []" and "memo_ok env r"
  shows "\<exists>memo. generate_block_hash_extra_keys env r (int i * he_block_size env)
            (int i * he_block_size env + he_block_size env) idx
        = Inr (block_keys env r i, idx, r\<lparr>prompt_embeds_per_block_hashes := memo\<rparr>)
      \<and> memo_ok env (r\<lparr>prompt_embeds_per_block_hashes := memo\<rparr>)"
proof -
  obtain memo where memo: "gen_prompt_embeds_extra_hash_keys env r (int i * he_block_size env)
        (int i * he_block_size env + he_block_size env)
      = (embeds_key env r (int i * he_block_size env)
          (int i * he_block_size env + he_block_size env), r\<lparr>prompt_embeds_per_block_hashes := memo\<rparr>)"
    and "memo_ok env (r\<lparr>prompt_embeds_per_block_hashes := memo\<rparr>)"
    using gen_prompt_embeds_eq [OF assms(2)] by blast
  then show ?thesis
    by (intro exI [of _ memo])
      (simp add: generate_block_hash_extra_keys_def gen_mm_extra_hash_keys_def assms(1)
        block_keys_def Let_def)
qed

lemma memo_irrelevant [simp]:
  "chain env (r\<lparr>prompt_embeds_per_block_hashes := memo\<rparr>) n = chain env r n"
  "num_tokens (r\<lparr>prompt_embeds_per_block_hashes := memo\<rparr>) = num_tokens r"
  by (rule chain_cong)
    (simp_all add: block_tokens_def block_keys_def gen_lora_extra_hash_keys_def salt_keys_def
      embeds_key_def num_tokens_def)

lemma full_blocks_less_iff:
  assumes "0 < he_block_size env"
  shows "i < full_blocks env r \<longleftrightarrow> int i * he_block_size env + he_block_size env \<le> num_tokens r"
proof -
  have "i < full_blocks env r \<longleftrightarrow> int i + 1 \<le> num_tokens r div he_block_size env"
    by (auto simp: full_blocks_def)
  also have "\<dots> \<longleftrightarrow> (int i + 1) * he_block_size env \<le> num_tokens r"
    by (rule le_div_int_iff [OF assms])
  finally show ?thesis by (simp add: algebra_simps)
qed

lemma hasher_loop_eq:
  assumes bs: "0 < he_block_size env" and mm: "mm_features r = []"
    and "memo_ok env r" and "k \<le> full_blocks env r" and "full_blocks env r - k < fuel"
    and "prev = (if k = 0 then None else Some (last (chain env r k)))"
  shows "\<exists>memo. hasher_loop fuel env (int k * he_block_size env) idx prev acc r
        = Inr (acc @ drop k (chain env r (full_blocks env r)),
               r\<lparr>prompt_embeds_per_block_hashes := memo\<rparr>)
      \<and> memo_ok env (r\<lparr>prompt_embeds_per_block_hashes := memo\<rparr>)"
  using assms(2-)
proof (induction fuel arbitrary: k prev acc r idx)
  case 0
  then show ?case by simp
next
  case (Suc fuel)
  let ?b = "he_block_size env"
  show ?case
  proof (cases "k < full_blocks env r")
    case False
    then have "num_tokens r < int k * ?b + ?b" and "k = full_blocks env r"
      using full_blocks_less_iff [OF bs, of k r] Suc.prems(3) by auto
    then show ?thesis
      using Suc.prems(2) by (intro exI [of _ "prompt_embeds_per_block_hashes r"]) simp
  next
    case True
    then have fits: "int k * ?b + ?b \<le> num_tokens r"
      using full_blocks_less_iff [OF bs] by simp
    obtain memo where memo: "generate_block_hash_extra_keys env r (int k * ?b) (int k * ?b + ?b) idx
          = Inr (block_keys env r k, idx, r\<lparr>prompt_embeds_per_block_hashes := memo\<rparr>)"
      "memo_ok env (r\<lparr>prompt_embeds_per_block_hashes := memo\<rparr>)"
      using extra_keys_eq [OF Suc.prems(1,2)] by blast
    let ?r = "r\<lparr>prompt_embeds_per_block_hashes := memo\<rparr>"
    let ?h = "hash_block_tokens env prev (block_tokens env r k) (block_keys env r k)"
    have fb [simp]: "full_blocks env ?r = full_blocks env r" by (simp add: full_blocks_def)
    have chain_k: "chain env r (Suc k) = chain env r k @ [?h]" using Suc.prems(5) by simp
    have "\<exists>memo'. hasher_loop fuel env (int (Suc k) * ?b) idx (Some ?h) (acc @ [?h]) ?r
        = Inr ((acc @ [?h]) @ drop (Suc k) (chain env ?r (full_blocks env ?r)),
               ?r\<lparr>prompt_embeds_per_block_hashes := memo'\<rparr>)
        \<and> memo_ok env (?r\<lparr>prompt_embeds_per_block_hashes := memo'\<rparr>)"
    proof (rule Suc.IH)
      show "mm_features ?r = []" using Suc.prems(1) by simp
      show "memo_ok env ?r" by (rule memo(2))
      show "Suc k \<le> full_blocks env ?r" using True by simp
      show "full_blocks env ?r - Suc k < fuel" using Suc.prems(4) True by simp
      show "Some ?h = (if Suc k = 0 then None else Some (last (chain env ?r (Suc k))))"
        by (simp only: memo_irrelevant chain_k) simp
    qed
    moreover have "drop k (chain env r (full_blocks env r))
        = ?h # drop (Suc k) (chain env r (full_blocks env r))"
    proof -
      have "chain env r (full_blocks env r) ! k = chain env r (Suc k) ! k"
        using True chain_take [of "Suc k" "full_blocks env r" env r]
        by (metis Suc_le_eq lessI nth_take)
      also have "\<dots> = ?h" by (simp only: chain_k) (simp add: nth_append)
      finally show ?thesis using True by (metis Cons_nth_drop_Suc length_chain)
    qed
    moreover have "int (Suc k) * ?b = int k * ?b + ?b" by (simp add: algebra_simps)
    ultimately show ?thesis
      using fits by (simp add: memo(1) Let_def block_tokens_def [symmetric] del: chain.simps of_nat_Suc)
  qed
qed

definition hashes_current :: "hash_env \<Rightarrow> request \<Rightarrow> bool" where
  "hashes_current env r \<longleftrightarrow> block_hashes r = chain env r (full_blocks env r)"

text \<open>What the hasher needs to know of the request: it holds a prefix of the chain.\<close>

lemma request_block_hasher_eq:
  assumes bs: "0 < he_block_size env" and mm: "mm_features r = []" and memo: "memo_ok env r"
    and k: "block_hashes r = chain env r k" "k \<le> full_blocks env r"
  shows "\<exists>memo. request_block_hasher env r
        = Inr (drop k (chain env r (full_blocks env r)),
               r\<lparr>prompt_embeds_per_block_hashes := memo\<rparr>)
      \<and> memo_ok env (r\<lparr>prompt_embeds_per_block_hashes := memo\<rparr>)"
proof (cases "k < full_blocks env r")
  case False
  then have "num_tokens r < int k * he_block_size env + he_block_size env"
    using full_blocks_less_iff [OF bs, of k r] by simp
  with False k memo show ?thesis
    by (intro exI [of _ "prompt_embeds_per_block_hashes r"])
      (simp add: request_block_hasher_def Let_def)
next
  case True
  have "int (full_blocks env r) \<le> num_tokens r"
  proof -
    have "num_tokens r div he_block_size env \<le> num_tokens r"
      using bs zdiv_mono2 [of "num_tokens r" 1 "he_block_size env"] by (simp add: num_tokens_def)
    then show ?thesis by (simp add: full_blocks_def num_tokens_def)
  qed
  then have fuel: "full_blocks env r - k < length (all_token_ids r) + 1"
    by (simp add: num_tokens_def)
  have prev: "(if block_hashes r = [] then None else Some (last (block_hashes r)))
      = (if k = 0 then None else Some (last (chain env r k)))"
    using k(1) by (metis length_0_conv length_chain)
  have "int k * he_block_size env + he_block_size env \<le> num_tokens r"
    using full_blocks_less_iff [OF bs] True by simp
  then show ?thesis
    using hasher_loop_eq [OF bs mm memo k(2) fuel prev,
        of "if int k * he_block_size env > 0 then - 1 else 0" "[]"] k(1)
    by (simp add: request_block_hasher_def Let_def)
qed

lemma update_block_hashes_current:
  assumes "0 < he_block_size env" and "mm_features r = []" and "memo_ok env r"
    and k: "block_hashes r = chain env r k" "k \<le> full_blocks env r"
  shows "\<exists>memo. update_block_hashes (Some (request_block_hasher env)) r
        = Inr (r\<lparr>prompt_embeds_per_block_hashes := memo,
                block_hashes := chain env r (full_blocks env r)\<rparr>)
      \<and> memo_ok env (r\<lparr>prompt_embeds_per_block_hashes := memo\<rparr>)"
proof -
  have "chain env r k @ drop k (chain env r (full_blocks env r)) = chain env r (full_blocks env r)"
    by (metis append_take_drop_id chain_take k(2))
  then show ?thesis
    using request_block_hasher_eq [OF assms] by (auto simp: update_block_hashes_def k(1))
qed

text \<open>The contents a hash depends on, and their growth when tokens are appended.\<close>

definition extends_request :: "request \<Rightarrow> request \<Rightarrow> bool" where
  "extends_request r r' \<longleftrightarrow>
     prefix (all_token_ids r) (all_token_ids r') \<and> lora_request_of r' = lora_request_of r
     \<and> cache_salt r' = cache_salt r \<and> prompt_embeds r' = prompt_embeds r"

lemma block_tokens_nat:
  assumes "0 < he_block_size env"
  shows "block_tokens env r i =
    drop (i * nat (he_block_size env)) (take (Suc i * nat (he_block_size env)) (all_token_ids r))"
  using assms by (simp add: block_tokens_def nat_mult_distrib nat_add_distrib algebra_simps)

lemma full_blocks_fit:
  assumes "0 < he_block_size env"
  shows "i \<le> full_blocks env r \<longleftrightarrow> i * nat (he_block_size env) \<le> length (all_token_ids r)"
proof -
  have "i \<le> full_blocks env r \<longleftrightarrow> int i \<le> num_tokens r div he_block_size env"
    using pos_imp_zdiv_nonneg_iff [OF assms, of "num_tokens r"]
    by (simp add: full_blocks_def num_tokens_def le_nat_iff)
  also have "\<dots> \<longleftrightarrow> int i * he_block_size env \<le> num_tokens r"
    by (rule le_div_int_iff [OF assms])
  also have "\<dots> \<longleftrightarrow> i * nat (he_block_size env) \<le> length (all_token_ids r)"
    using assms by (simp add: num_tokens_def) (metis of_nat_le_iff of_nat_mult int_nat_eq order_less_imp_le)
  finally show ?thesis .
qed

lemma chain_extends:
  assumes bs: "0 < he_block_size env" and "extends_request r r'" and n: "n \<le> full_blocks env r"
  shows "chain env r' n = chain env r n"
proof (rule chain_cong)
  fix i assume "i < n"
  obtain ys where ys: "all_token_ids r' = all_token_ids r @ ys"
    using assms(2) by (auto simp: extends_request_def prefix_def)
  have "Suc i * nat (he_block_size env) \<le> length (all_token_ids r)"
    using full_blocks_fit [OF bs, of "Suc i" r] \<open>i < n\<close> n by linarith
  then show "block_tokens env r' i = block_tokens env r i"
    unfolding block_tokens_nat [OF bs] ys by (simp del: mult_Suc)
  show "block_keys env r' i = block_keys env r i"
    using assms(2) by (simp add: extends_request_def block_keys_def gen_lora_extra_hash_keys_def
        salt_keys_def embeds_key_def)
qed

lemma full_blocks_mono:
  assumes "0 < he_block_size env" and "extends_request r r'"
  shows "full_blocks env r \<le> full_blocks env r'"
proof -
  have "length (all_token_ids r) \<le> length (all_token_ids r')"
    using assms(2) by (simp add: extends_request_def prefix_length_le)
  then show ?thesis
    using full_blocks_fit [OF assms(1), of "full_blocks env r"] by (metis order.trans order.refl)
qed

text \<open>
  The state the hasher keeps a request in: its hashes are the chain of all its full blocks and
  its memo of prompt-embedding hashes is right.
\<close>

definition hash_state :: "hash_env \<Rightarrow> request \<Rightarrow> bool" where
  "hash_state env r \<longleftrightarrow> hashes_current env r \<and> memo_ok env r \<and> mm_features r = []"

lemma hash_state_after_update:
  assumes bs: "0 < he_block_size env" and "mm_features r = []" and "memo_ok env r"
    and "block_hashes r = chain env r k" "k \<le> full_blocks env r"
  shows "\<exists>memo. update_block_hashes (Some (request_block_hasher env)) r
      = Inr (r\<lparr>prompt_embeds_per_block_hashes := memo,
              block_hashes := chain env r (full_blocks env r)\<rparr>)
    \<and> hash_state env (r\<lparr>prompt_embeds_per_block_hashes := memo,
              block_hashes := chain env r (full_blocks env r)\<rparr>)"
proof -
  obtain memo where memo: "update_block_hashes (Some (request_block_hasher env)) r
      = Inr (r\<lparr>prompt_embeds_per_block_hashes := memo,
              block_hashes := chain env r (full_blocks env r)\<rparr>)"
    "memo_ok env (r\<lparr>prompt_embeds_per_block_hashes := memo\<rparr>)"
    using update_block_hashes_current [OF assms] by blast
  let ?r' = "r\<lparr>prompt_embeds_per_block_hashes := memo,
              block_hashes := chain env r (full_blocks env r)\<rparr>"
  have fb: "full_blocks env ?r' = full_blocks env r" by (simp add: full_blocks_def num_tokens_def)
  have "extends_request r ?r'" by (simp add: extends_request_def)
  from chain_extends [OF bs this] fb have "hashes_current env ?r'"
    by (simp add: hashes_current_def)
  moreover have "memo_ok env ?r'" using memo(2) by (simp add: memo_ok_def)
  ultimately show ?thesis
    using memo(1) assms(2) by (intro exI [of _ memo]) (simp add: hash_state_def)
qed

lemma append_output_hash_state:
  assumes bs: "0 < he_block_size env" and st: "hash_state env r"
  shows "\<exists>r'. append_output_token_ids (Some (request_block_hasher env)) ids r = Inr r'
     \<and> hash_state env r' \<and> all_token_ids r' = all_token_ids r @ ids
     \<and> prefix (block_hashes r) (block_hashes r')"
proof -
  let ?r = "r\<lparr>output_token_ids := output_token_ids r @ ids, all_token_ids := all_token_ids r @ ids\<rparr>"
  have ext: "extends_request r ?r" by (simp add: extends_request_def)
  have mono: "full_blocks env r \<le> full_blocks env ?r" by (rule full_blocks_mono [OF bs ext])
  have chain: "block_hashes ?r = chain env ?r (full_blocks env r)"
    using st chain_extends [OF bs ext order.refl] by (simp add: hash_state_def hashes_current_def)
  have memo: "memo_ok env ?r" using st by (simp add: hash_state_def memo_ok_def)
  have mm: "mm_features ?r = []" using st by (simp add: hash_state_def)
  obtain memo' where res: "update_block_hashes (Some (request_block_hasher env)) ?r
      = Inr (?r\<lparr>prompt_embeds_per_block_hashes := memo',
              block_hashes := chain env ?r (full_blocks env ?r)\<rparr>)"
    "hash_state env (?r\<lparr>prompt_embeds_per_block_hashes := memo',
              block_hashes := chain env ?r (full_blocks env ?r)\<rparr>)"
    using hash_state_after_update [OF bs mm memo chain mono] by blast
  have "prefix (block_hashes r) (chain env ?r (full_blocks env ?r))"
    using chain take_is_prefix [of "full_blocks env r" "chain env ?r (full_blocks env ?r)"]
    unfolding chain_take [OF mono] by simp
  then show ?thesis
    using res by (intro exI conjI) (auto simp: append_output_token_ids_def)
qed

lemma request_init_hash_state:
  assumes bs: "0 < he_block_size env" and mm: "ra_mm_features a \<in> {None, Some []}"
    and init: "request_init None a = Inr r0"
  shows "\<exists>r. request_init (Some (request_block_hasher env)) a = Inr r \<and> hash_state env r
    \<and> all_token_ids r = all_token_ids r0"
proof -
  have r0: "request_init hasher a = update_block_hashes hasher r0" for hasher
    using init by (auto simp: request_init_def update_block_hashes_def bindR_eq_Inr Let_def)
  have mm0: "mm_features r0 = []" and memo0: "prompt_embeds_per_block_hashes r0 = []"
    and bh0: "block_hashes r0 = []"
    using init mm by (auto simp: request_init_def update_block_hashes_def bindR_eq_Inr Let_def)
  have "memo_ok env r0" by (simp add: memo_ok_def memo0)
  moreover have "block_hashes r0 = chain env r0 0" by (simp add: bh0)
  ultimately show ?thesis
    using hash_state_after_update [OF bs mm0] r0 [of "Some (request_block_hasher env)"] by force
qed

subsection \<open>Equal hashes mean equal prefixes\<close>

text \<open>
  What the code relies on: the hash function does not collide on the data the blocks present
  to it, and never returns the empty string or the seed.
\<close>

definition collision_free :: "hash_env \<Rightarrow> bool" where
  "collision_free env \<longleftrightarrow>
     inj (caching_hash_fn env)
     \<and> (\<forall>x. caching_hash_fn env x \<noteq> [] \<and> caching_hash_fn env x \<noteq> NONE_HASH env)"

lemma chain_nth: "i < n \<Longrightarrow> chain env r n ! i =
    hash_block_tokens env (if i = 0 then None else Some (chain env r n ! (i - 1)))
      (block_tokens env r i) (block_keys env r i)"
proof (induction n)
  case 0
  then show ?case by simp
next
  case (Suc n)
  then show ?case
    by (cases "i < n") (auto simp: nth_append last_conv_nth less_Suc_eq simp flip: length_0_conv)
qed

lemma hash_block_tokens_inject:
  assumes cf: "collision_free env"
    and eq: "hash_block_tokens env p ids keys = hash_block_tokens env p' ids' keys'"
    and p: "\<And>h. p = Some h \<Longrightarrow> h \<in> range (caching_hash_fn env)"
    and p': "\<And>h. p' = Some h \<Longrightarrow> h \<in> range (caching_hash_fn env)"
  shows "p = p' \<and> ids = ids' \<and> keys = keys'"
proof -
  let ?f = "\<lambda>q. case q of None \<Rightarrow> NONE_HASH env | Some h \<Rightarrow> if h = [] then NONE_HASH env else h"
  have eq': "(?f p, ids, keys) = (?f p', ids', keys')"
    using cf eq by (auto simp: hash_block_tokens_def Let_def collision_free_def dest: injD)
  have nonempty: "h \<noteq> [] \<and> h \<noteq> NONE_HASH env" if "h \<in> range (caching_hash_fn env)" for h
    using cf that by (auto simp: collision_free_def)
  have "?f p = ?f p' \<Longrightarrow> p = p'"
    using p [THEN nonempty] p' [THEN nonempty] by (cases p; cases p') simp_all
  with eq' show ?thesis by blast
qed

lemma chain_in_range: "i < n \<Longrightarrow> chain env r n ! i \<in> range (caching_hash_fn env)"
  by (subst chain_nth) (simp_all add: hash_block_tokens_def Let_def)

lemma chain_inject:
  assumes cf: "collision_free env"
    and "i < n" "j < m" "chain env r n ! i = chain env r' m ! j"
  shows "i = j \<and> (\<forall>l\<le>i. block_tokens env r l = block_tokens env r' l
                     \<and> block_keys env r l = block_keys env r' l)"
  using assms(2-)
proof (induction i arbitrary: j)
  case 0
  then show ?case
    using hash_block_tokens_inject [OF cf, of None "block_tokens env r 0" "block_keys env r 0"
        "if j = 0 then None else Some (chain env r' m ! (j - 1))" "block_tokens env r' j"
        "block_keys env r' j"] chain_in_range [of "j - 1" m env r']
      chain_nth [of 0 n env r] chain_nth [of j m env r']
    by (auto split: if_splits)
next
  case (Suc i)
  have eq: "Some (chain env r n ! i) = (if j = 0 then None else Some (chain env r' m ! (j - 1)))
      \<and> block_tokens env r (Suc i) = block_tokens env r' j
      \<and> block_keys env r (Suc i) = block_keys env r' j"
    using hash_block_tokens_inject [OF cf, of "Some (chain env r n ! i)"
        "block_tokens env r (Suc i)" "block_keys env r (Suc i)"
        "if j = 0 then None else Some (chain env r' m ! (j - 1))" "block_tokens env r' j"
        "block_keys env r' j"] chain_in_range [of "j - 1" m env r'] chain_in_range [of i n env r]
      chain_nth [of "Suc i" n env r] chain_nth [of j m env r'] Suc.prems
    by (auto split: if_splits)
  then have "j \<noteq> 0" "chain env r n ! i = chain env r' m ! (j - 1)" by (auto split: if_splits)
  then have "i = j - 1 \<and> (\<forall>l\<le>i. block_tokens env r l = block_tokens env r' l
                     \<and> block_keys env r l = block_keys env r' l)"
    using Suc by (intro Suc.IH) auto
  moreover from this have "j = Suc i" using \<open>j \<noteq> 0\<close> by simp
  ultimately show ?case using eq by (simp add: le_Suc_eq)
qed

lemma block_tokens_prefix:
  assumes bs: "0 < he_block_size env"
    and "\<And>l. l \<le> i \<Longrightarrow> block_tokens env r l = block_tokens env r' l"
  shows "take (Suc i * nat (he_block_size env)) (all_token_ids r)
       = take (Suc i * nat (he_block_size env)) (all_token_ids r')"
  using assms(2)
proof (induction i)
  case 0
  then show ?case using block_tokens_nat [OF bs, of _ 0] by simp
next
  case (Suc i)
  let ?b = "nat (he_block_size env)"
  have split: "take (Suc (Suc i) * ?b) (all_token_ids q)
      = take (Suc i * ?b) (all_token_ids q) @ block_tokens env q (Suc i)" for q
    unfolding block_tokens_nat [OF bs]
    by (metis add.commute append_take_drop_id le_add2 min.absorb1 mult_Suc take_take)
  show ?case unfolding split using Suc by simp
qed

lemma equal_hash_equal_prefix:
  assumes "collision_free env" and "0 < he_block_size env"
    and "hash_state env r" "hash_state env r'"
    and "i < length (block_hashes r)" "j < length (block_hashes r')"
    and "block_hashes r ! i = block_hashes r' ! j"
  shows "i = j \<and> take (Suc i * nat (he_block_size env)) (all_token_ids r)
                  = take (Suc i * nat (he_block_size env)) (all_token_ids r')
     \<and> (\<forall>l\<le>i. block_keys env r l = block_keys env r' l)"
proof -
  have "i = j \<and> (\<forall>l\<le>i. block_tokens env r l = block_tokens env r' l
                     \<and> block_keys env r l = block_keys env r' l)"
    using assms by (intro chain_inject [OF assms(1), of i "full_blocks env r" j "full_blocks env r'"])
      (simp_all add: hash_state_def hashes_current_def)
  then show ?thesis using block_tokens_prefix [OF assms(2), of i r r'] by blast
qed

text \<open>
  The hypothesis can hold: a self-delimiting serialisation of the hashed triple does not
  collide. \<open>delimited f\<close> says that the code of a value ends where it ends.
\<close>

definition delimited :: "('a \<Rightarrow> hash_bytes) \<Rightarrow> bool" where
  "delimited f \<longleftrightarrow> (\<forall>x y s t. f x @ s = f y @ t \<longrightarrow> x = y \<and> s = t)"

fun code_list :: "('a \<Rightarrow> hash_bytes) \<Rightarrow> 'a list \<Rightarrow> hash_bytes" where
  "code_list f [] = [0]"
| "code_list f (x # xs) = 1 # f x @ code_list f xs"

definition code_byte :: "8 word \<Rightarrow> hash_bytes" where
  "code_byte b = [b]"

definition code_char :: "char \<Rightarrow> hash_bytes" where
  "code_char c = [word_of_nat (of_char c)]"

definition code_int :: "int \<Rightarrow> hash_bytes" where
  "code_int i = (if i < 0 then 1 else 0) # replicate (nat \<bar>i\<bar>) 1 @ [0]"

fun code_extra_key :: "extra_key \<Rightarrow> hash_bytes" where
  "code_extra_key (Key_str s) = 0 # code_list code_char s"
| "code_extra_key (Key_bytes b) = 1 # code_list code_byte b"

fun code_option :: "('a \<Rightarrow> hash_bytes) \<Rightarrow> 'a option \<Rightarrow> hash_bytes" where
  "code_option f None = [0]"
| "code_option f (Some x) = 1 # f x"

definition serialise :: "hash_bytes \<times> int list \<times> extra_key list option \<Rightarrow> hash_bytes" where
  "serialise = (\<lambda>(p, ids, keys).
     code_list code_byte p @ code_list code_int ids @ code_option (code_list code_extra_key) keys)"

lemma delimitedD: "delimited f \<Longrightarrow> f x @ s = f y @ t \<Longrightarrow> x = y \<and> s = t"
  unfolding delimited_def by blast

lemma delimited_list:
  assumes "delimited f"
  shows "delimited (code_list f)"
proof -
  have "code_list f xs @ s = code_list f ys @ t \<Longrightarrow> xs = ys \<and> s = t" for xs ys s t
  proof (induction xs arbitrary: ys)
    case Nil
    then show ?case by (cases ys) auto
  next
    case (Cons x xs)
    then show ?case by (cases ys) (auto dest: delimitedD [OF assms])
  qed
  then show ?thesis unfolding delimited_def by blast
qed

lemma delimited_option: "delimited f \<Longrightarrow> delimited (code_option f)"
  unfolding delimited_def
  by (intro allI impI) (rename_tac x y s t, case_tac x; case_tac y; auto)

lemma delimited_byte: "delimited code_byte"
  by (simp add: delimited_def code_byte_def)

lemma delimited_char: "delimited code_char"
proof -
  have "c = d" if "(word_of_nat (of_char c) :: 8 word) = word_of_nat (of_char d)" for c d :: char
  proof -
    have "unat (word_of_nat (of_char c) :: 8 word) = of_char c" for c
      by (simp add: unat_of_nat)
    with that show ?thesis by (metis of_char_eq_iff)
  qed
  then show ?thesis by (auto simp: delimited_def code_char_def)
qed

lemma replicate_one_zero:
  "replicate m (1 :: 8 word) @ 0 # s = replicate n 1 @ 0 # t \<Longrightarrow> m = n \<and> s = t"
proof (induction m arbitrary: n)
  case 0
  then show ?case by (cases n) auto
next
  case (Suc m)
  then show ?case by (cases n) auto
qed

lemma delimited_int: "delimited code_int"
  unfolding delimited_def code_int_def
  by (auto dest!: replicate_one_zero split: if_splits)

lemma delimited_extra_key: "delimited code_extra_key"
  unfolding delimited_def
  by (intro allI impI) (rename_tac x y s t, case_tac x; case_tac y;
      auto dest: delimitedD [OF delimited_list [OF delimited_char]]
        delimitedD [OF delimited_list [OF delimited_byte]])

lemma inj_serialise: "inj serialise"
proof (rule injI)
  fix x y assume eq: "serialise x = serialise y"
  obtain p i k p' i' k' where xy: "x = (p, i, k)" "y = (p', i', k')" by (cases x; cases y)
  note d = delimitedD [OF delimited_list [OF delimited_byte]]
    delimitedD [OF delimited_list [OF delimited_int]]
    delimitedD [OF delimited_option [OF delimited_list [OF delimited_extra_key]],
      of _ "[]" _ "[]", unfolded append_Nil2]
  show "x = y"
    using eq unfolding xy serialise_def prod.case by (auto dest!: d)
qed

definition serialising_env :: "int \<Rightarrow> hash_env" where
  "serialising_env b =
     \<lparr>caching_hash_fn = serialise, NONE_HASH = [], sha256 = (\<lambda>x. x), he_block_size = b\<rparr>"

lemma serialise_nonempty: "serialise x \<noteq> []"
proof -
  obtain p i k where "x = (p, i, k)" by (cases x)
  moreover have "code_list code_byte p \<noteq> []" by (cases p) auto
  ultimately show ?thesis by (simp add: serialise_def)
qed

lemma serialising_env_collision_free: "collision_free (serialising_env b)"
  using inj_serialise serialise_nonempty by (simp add: collision_free_def serialising_env_def)

subsection \<open>Regrouped hashes\<close>

lemma regroup_length:
  assumes "0 < scale" "0 < b"
  shows "\<exists>gs. block_hash_list_with_block_size hs b (int scale * b) = Inr gs
     \<and> length gs = length hs div scale \<and> concat gs = concat (take (length hs div scale * scale) hs)"
proof -
  have sc: "nat (int scale * b div b) = scale" using assms by simp
  let ?gs = "\<lambda>n. map (merged_hash hs scale) [0..<n]"
  have nths: "map (\<lambda>i. hs ! i) [a..<c] = take (c - a) (drop a hs)" if "c \<le> length hs" for a c
    using that by (intro nth_equalityI) auto
  have "concat (?gs n) = concat (take (n * scale) hs)" if "n * scale \<le> length hs" for n
    using that
  proof (induction n)
    case 0
    then show ?case by simp
  next
    case (Suc n)
    have "take (Suc n * scale) hs = take (n * scale) hs @ take scale (drop (n * scale) hs)"
      by (metis add.commute mult_Suc take_add)
    then show ?case
      using Suc nths [of "n * scale + scale" "n * scale"] by (simp add: merged_hash_def)
  qed
  then have "concat (?gs (length hs div scale)) = concat (take (length hs div scale * scale) hs)"
    by (metis div_mult_mod_eq le_add1)
  then show ?thesis
    using assms sc by (simp add: block_hash_list_with_block_size_def Let_def)
qed

subsection \<open>Properties\<close>

text \<open>A request to evaluate the properties on: a prompt, no multi-modal input, at most \<open>mx\<close> tokens.\<close>

definition example_args :: "int list \<Rightarrow> int \<Rightarrow> request_args" where
  "example_args prompt mx =
     \<lparr>ra_request_id = ''r'', ra_prompt_token_ids = Some prompt,
      ra_sampling_params = Some \<lparr>sp_max_tokens = Some mx, min_tokens = 0, eos_token_id = Some 2,
         stop_token_ids = None, repetition_detection = None, sp_skip_reading_prefix_cache = None,
         structured_outputs = False\<rparr>,
      ra_pooling_params = None, ra_client_index = 0, ra_arrival_time = 0, ra_prompt_embeds = None,
      ra_mm_features = None, ra_lora_request = None, ra_cache_salt = None, ra_priority = 0,
      ra_resumable = False\<rparr>"

definition example_request :: "int list \<Rightarrow> int \<Rightarrow> request" where
  "example_request prompt mx = projr (request_init None (example_args prompt mx))"

lemma example_request_init:
  "request_init None (example_args prompt mx) = Inr (example_request prompt mx)"
  by (simp add: example_request_def request_init_def example_args_def init_max_tokens_def
      prompt_length_def update_block_hashes_def Let_def)

lemmas example_request_simps =
  example_request_def request_init_def example_args_def init_max_tokens_def prompt_length_def
  update_block_hashes_def

lemma appends_hash_state:
  assumes bs: "0 < he_block_size env"
  shows "hash_state env r \<Longrightarrow> \<exists>r'. foldR (append_output_token_ids (Some (request_block_hasher env))) tss r
      = Inr r' \<and> hash_state env r' \<and> all_token_ids r' = all_token_ids r @ concat tss
      \<and> prefix (block_hashes r) (block_hashes r')"
proof (induction tss arbitrary: r)
  case Nil
  then show ?case by simp
next
  case (Cons ts tss)
  obtain r1 where r1: "append_output_token_ids (Some (request_block_hasher env)) ts r = Inr r1"
    "hash_state env r1" "all_token_ids r1 = all_token_ids r @ ts" "prefix (block_hashes r) (block_hashes r1)"
    using append_output_hash_state [OF bs Cons.prems] by blast
  obtain r' where "foldR (append_output_token_ids (Some (request_block_hasher env))) tss r1 = Inr r'"
    "hash_state env r'" "all_token_ids r' = all_token_ids r1 @ concat tss"
    "prefix (block_hashes r1) (block_hashes r')"
    using Cons.IH [OF r1(2)] by blast
  with r1 show ?case by (auto intro: prefix_order.trans)
qed

text \<open>
  C16: The block hashes of a text request, one without multi-modal features, are maintained
  incrementally and never go stale: after creating the request and appending any batches of output tokens, no call raises, the hashes
  are those of all full blocks computed from scratch (each from its parent's hash, its own
  tokens and its extra keys), and the hashes computed earlier are kept unchanged.
\<close>

theorem request_hashes_incremental:
  assumes "0 < he_block_size env" and "ra_mm_features a \<in> {None, Some []}"
    and "request_init None a = Inr r0"
  shows "\<exists>r r'. request_init (Some (request_block_hasher env)) a = Inr r
     \<and> foldR (append_output_token_ids (Some (request_block_hasher env))) tss r = Inr r'
     \<and> all_token_ids r' = all_token_ids r0 @ concat tss
     \<and> block_hashes r' = chain env r' (full_blocks env r')
     \<and> prefix (block_hashes r) (block_hashes r')"
proof -
  obtain r where r: "request_init (Some (request_block_hasher env)) a = Inr r" "hash_state env r"
    "all_token_ids r = all_token_ids r0"
    using request_init_hash_state [OF assms] by blast
  with appends_hash_state [OF assms(1) r(2), of tss] show ?thesis
    by (auto simp: hash_state_def hashes_current_def)
qed

theorem request_hashes_incremental_witness:
  "\<exists>r r'. request_init (Some (request_block_hasher (serialising_env 2))) (example_args [5, 6, 7] 9) = Inr r
     \<and> foldR (append_output_token_ids (Some (request_block_hasher (serialising_env 2)))) [[8], [], [9, 3]] r
         = Inr r'
     \<and> all_token_ids r' = [5, 6, 7, 8, 9, 3]
     \<and> block_hashes r' = chain (serialising_env 2) r' (full_blocks (serialising_env 2) r')
     \<and> prefix (block_hashes r) (block_hashes r')"
proof -
  have "all_token_ids (example_request [5, 6, 7] 9) = [5, 6, 7]"
    by (simp add: example_request_simps Let_def)
  with request_hashes_incremental [of "serialising_env 2" "example_args [5, 6, 7] 9"
      "example_request [5, 6, 7] 9" "[[8], [], [9, 3]]"]
  show ?thesis by (simp add: serialising_env_def example_request_init) (simp add: example_args_def)
qed

text \<open>The requests that the hasher keeps up to date from their creation on.\<close>

definition text_request :: "hash_env \<Rightarrow> request_args \<Rightarrow> int list list \<Rightarrow> request \<Rightarrow> bool" where
  "text_request env a tss r \<longleftrightarrow> ra_mm_features a \<in> {None, Some []}
     \<and> bindR (request_init (Some (request_block_hasher env)) a)
         (foldR (append_output_token_ids (Some (request_block_hasher env))) tss) = Inr r"

lemma request_init_errors: "request_init None a = Inl e \<Longrightarrow> request_init hasher a = Inl e"
  unfolding request_init_def update_block_hashes_def Let_def
  by (cases "init_max_tokens a"; cases "prompt_length (ra_prompt_token_ids a) (ra_prompt_embeds a)") simp_all

lemma text_request_state:
  assumes "0 < he_block_size env" "text_request env a tss r"
  shows "hash_state env r"
proof -
  obtain r1 where r1: "request_init (Some (request_block_hasher env)) a = Inr r1"
    "foldR (append_output_token_ids (Some (request_block_hasher env))) tss r1 = Inr r"
    using assms(2) by (auto simp: text_request_def bindR_eq_Inr)
  obtain r0 where r0: "request_init None a = Inr r0"
    using r1(1) request_init_errors [of a _ "Some (request_block_hasher env)"] by (cases "request_init None a") auto
  have "hash_state env r1"
    using request_init_hash_state [OF assms(1) _ r0] assms(2) r1(1) by (auto simp: text_request_def)
  from appends_hash_state [OF assms(1) this, of tss] r1(2) show ?thesis by auto
qed

text \<open>
  C10: Prefix caching never confuses two prefixes of text: if the hash function does not collide, then
  two requests without multi-modal features, each hashed by \<open>request_block_hasher\<close> when it is created
  and with every batch of tokens appended, share a block hash only at the same position, with the same
  tokens up to the end of that block and the same extra keys (LoRA, salt, embeddings) for every block
  up to it.
\<close>

theorem equal_hash_same_prefix:
  assumes "collision_free env" and "0 < he_block_size env"
    and "text_request env a tss r" and "text_request env a' tss' r'"
    and "i < length (block_hashes r)" and "j < length (block_hashes r')"
    and "block_hashes r ! i = block_hashes r' ! j"
  shows "i = j \<and> take (Suc i * nat (he_block_size env)) (all_token_ids r)
                  = take (Suc i * nat (he_block_size env)) (all_token_ids r')
     \<and> (\<forall>l\<le>i. block_keys env r l = block_keys env r' l)"
  using assms text_request_state [OF assms(2)] by (intro equal_hash_equal_prefix) blast+

definition example_run :: "request_args \<Rightarrow> int list list \<Rightarrow> request result" where
  "example_run a tss = bindR (request_init (Some (request_block_hasher (serialising_env 2))) a)
     (foldR (append_output_token_ids (Some (request_block_hasher (serialising_env 2)))) tss)"

lemma example_run_values:
  "\<not> isl (example_run (example_args [5, 6, 7] 9) [])" "\<not> isl (example_run (example_args [5] 9) [[6], [9, 9]])"
  "length (block_hashes (projr (example_run (example_args [5, 6, 7] 9) []))) = 1"
  "length (block_hashes (projr (example_run (example_args [5] 9) [[6], [9, 9]]))) = 2"
  "block_hashes (projr (example_run (example_args [5, 6, 7] 9) [])) ! 0
     = block_hashes (projr (example_run (example_args [5] 9) [[6], [9, 9]])) ! 0"
  by code_simp+

theorem equal_hash_same_prefix_witness:
  "\<exists>r r'. text_request (serialising_env 2) (example_args [5, 6, 7] 9) [] r
     \<and> text_request (serialising_env 2) (example_args [5] 9) [[6], [9, 9]] r'
     \<and> take 2 (all_token_ids r) = take 2 (all_token_ids r')
     \<and> block_keys (serialising_env 2) r 0 = block_keys (serialising_env 2) r' 0"
proof -
  let ?env = "serialising_env 2" and ?a = "example_args [5, 6, 7] 9" and ?a' = "example_args [5] 9"
  let ?r = "projr (example_run ?a [])" and ?r' = "projr (example_run ?a' [[6], [9, 9]])"
  have mm: "ra_mm_features (example_args p mx) = None" for p mx by (simp add: example_args_def)
  have run: "example_run ?a [] = Inr ?r" "example_run ?a' [[6], [9, 9]] = Inr ?r'"
    using example_run_values(1,2) by (simp_all add: sum.collapse(2))
  have t: "text_request ?env ?a [] ?r" "text_request ?env ?a' [[6], [9, 9]] ?r'"
    unfolding text_request_def mm example_run_def [symmetric] using run by simp_all
  have "(0::nat) = 0 \<and> take (Suc 0 * nat (he_block_size ?env)) (all_token_ids ?r)
                  = take (Suc 0 * nat (he_block_size ?env)) (all_token_ids ?r')
     \<and> (\<forall>l\<le>0. block_keys ?env ?r l = block_keys ?env ?r' l)"
    by (rule equal_hash_same_prefix [OF serialising_env_collision_free _ t])
      (simp_all add: example_run_values(3-5), simp add: serialising_env_def)
  then show ?thesis using t by (intro exI [of _ ?r] exI [of _ ?r']) (simp add: serialising_env_def)
qed

subsection \<open>Blocks completed later see the last image only\<close>

text \<open>
  The hasher starts a later call at the last multi-modal input. Two feature lists of the same length with the
  same last entry then give the same keys.
\<close>

lemma mm_keys_from_last:
  assumes "length fs' = length fs" "fs \<noteq> [] \<Longrightarrow> last fs' = last fs" "length fs \<le> Suc idx"
  shows "mm_keys_loop fs' s e idx keys = mm_keys_loop fs s e idx keys"
proof (cases "idx < length fs")
  case True
  then have "idx = length fs - 1" "fs \<noteq> []" "fs' \<noteq> []" using assms(1,3) by auto
  then have "fs' ! idx = fs ! idx" using assms(1,2) by (simp add: last_conv_nth)
  moreover have "mm_keys_loop fs' s e (Suc idx) ks = mm_keys_loop fs s e (Suc idx) ks" for ks
    using assms(1,3) by (simp add: mm_keys_loop.simps)
  ultimately show ?thesis using assms(1) by (simp add: mm_keys_loop.simps [of _ s e idx] Let_def)
next
  case False
  then show ?thesis using assms(1) by (simp add: mm_keys_loop.simps)
qed

lemma mm_keys_loop_idx: "mm_keys_loop fs s e idx keys = (ks, i) \<Longrightarrow> int idx \<le> i"
proof (induction fs s e idx keys rule: mm_keys_loop.induct)
  case (1 fs s e idx keys)
  note ih = "1.IH" [OF _ refl refl refl]
  show ?case
    using "1.prems" ih by (auto simp: mm_keys_loop.simps [of fs s e idx keys] Let_def split: if_split_asm)
qed

definition past_images :: "mm_feature list \<Rightarrow> int \<Rightarrow> bool" where
  "past_images fs i \<longleftrightarrow> i = - 1 \<or> int (length fs) \<le> i + 1"

lemma extra_keys_from_last:
  assumes "length fs = length (mm_features r)" "mm_features r \<noteq> [] \<Longrightarrow> last fs = last (mm_features r)"
    and "past_images fs i"
  shows "gen_mm_extra_hash_keys (r\<lparr>mm_features := fs\<rparr>) s e i = gen_mm_extra_hash_keys r s e i"
    and "gen_mm_extra_hash_keys r s e i = Inr (ks, i') \<Longrightarrow> past_images fs i'"
proof -
  let ?fs = "mm_features r"
  have "mm_keys_loop fs s e (nat (int (length ?fs) + i)) [] = mm_keys_loop ?fs s e (nat (int (length ?fs) + i)) []" if "i < 0"
    using assms that by (intro mm_keys_from_last) (auto simp: past_images_def)
  moreover have "mm_keys_loop fs s e (nat i) [] = mm_keys_loop ?fs s e (nat i) []" if "\<not> i < 0"
    using assms that by (intro mm_keys_from_last) (auto simp: past_images_def)
  moreover have "fs = [] \<longleftrightarrow> ?fs = []" using assms(1) by auto
  ultimately show "gen_mm_extra_hash_keys (r\<lparr>mm_features := fs\<rparr>) s e i = gen_mm_extra_hash_keys r s e i"
    using assms(1,2) by (simp add: gen_mm_extra_hash_keys_def Let_def)
  assume run: "gen_mm_extra_hash_keys r s e i = Inr (ks, i')"
  then have "i' = i \<or> (\<exists>idx. length ?fs \<le> Suc idx \<and> mm_keys_loop ?fs s e idx [] = (ks, i'))"
    using assms(1,3)
    by (auto simp: gen_mm_extra_hash_keys_def Let_def past_images_def bindR_eq_Inr split: if_split_asm)
  then show "past_images fs i'"
    using assms(1,3) mm_keys_loop_idx by (fastforce simp: past_images_def)
qed

lemma hasher_loop_from_last:
  assumes "length fs = length (mm_features r)" "mm_features r \<noteq> [] \<Longrightarrow> last fs = last (mm_features r)"
    and "past_images fs i"
  shows "map_sum id fst (hasher_loop fuel env start i prev acc (r\<lparr>mm_features := fs\<rparr>))
    = map_sum id fst (hasher_loop fuel env start i prev acc r)"
  using assms
proof (induction fuel arbitrary: start i prev acc r)
  case (Suc fuel)
  let ?e = "start + he_block_size env" and ?r = "r\<lparr>mm_features := fs\<rparr>"
  show ?case
  proof (cases "?e > num_tokens r")
    case True
    then show ?thesis by (simp add: num_tokens_def)
  next
    case False
    obtain es memo where em: "gen_prompt_embeds_extra_hash_keys env r start ?e = (es, r\<lparr>prompt_embeds_per_block_hashes := memo\<rparr>)"
      "gen_prompt_embeds_extra_hash_keys env ?r start ?e = (es, ?r\<lparr>prompt_embeds_per_block_hashes := memo\<rparr>)"
      by (cases "prompt_embeds r"; cases "map_of (prompt_embeds_per_block_hashes r) (start, ?e)")
        (auto simp: gen_prompt_embeds_extra_hash_keys_def Let_def intro: that [of _ "prompt_embeds_per_block_hashes r"])
    show ?thesis
    proof (cases "gen_mm_extra_hash_keys r start ?e i")
      case (Inl x)
      then show ?thesis
        using False extra_keys_from_last(1) [OF Suc.prems] by (simp add: generate_block_hash_extra_keys_def num_tokens_def)
    next
      case (Inr y)
      obtain ks i' where y: "y = (ks, i')" by force
      let ?r1 = "r\<lparr>prompt_embeds_per_block_hashes := memo\<rparr>"
      have past: "past_images fs i'" using extra_keys_from_last(2) [OF Suc.prems] Inr y by simp
      have IH: "map_sum id fst (hasher_loop fuel env st i' pv ac (?r1\<lparr>mm_features := fs\<rparr>))
          = map_sum id fst (hasher_loop fuel env st i' pv ac ?r1)" for st pv ac
        by (rule Suc.IH) (use Suc.prems(1,2) past in simp_all)
      have comm: "?r1\<lparr>mm_features := fs\<rparr> = ?r\<lparr>prompt_embeds_per_block_hashes := memo\<rparr>" by simp
      show ?thesis
        using False by (simp add: IH [unfolded comm id_def] generate_block_hash_extra_keys_def num_tokens_def
            extra_keys_from_last(1) [OF Suc.prems] Inr y em gen_lora_extra_hash_keys_def salt_keys_def Let_def)
    qed
  qed
qed simp

text \<open>
  C32: A block completed after the first call sees the last multi-modal input only. For a request that has
  block hashes already, exchanging every multi-modal input but the last for others does not change the
  hashes that \<open>request_block_hasher\<close> adds, whichever inputs lie inside the new blocks. So requests with
  different images in the block where the prompt ends can get the same hash for that block.
\<close>

theorem later_blocks_miss_images:
  assumes "block_hashes r \<noteq> []" "0 < he_block_size env"
    and "length fs = length (mm_features r)" "mm_features r \<noteq> [] \<Longrightarrow> last fs = last (mm_features r)"
  shows "map_sum id fst (request_block_hasher env (r\<lparr>mm_features := fs\<rparr>)) = map_sum id fst (request_block_hasher env r)"
proof -
  have "0 < int (length (block_hashes r)) * he_block_size env" using assms(1,2) by simp
  then show ?thesis
    using hasher_loop_from_last [OF assms(3,4), of "- 1"]
    by (simp add: request_block_hasher_def num_tokens_def past_images_def Let_def del: hasher_loop.simps)
qed

definition two_images :: "string \<Rightarrow> mm_feature list" where
  "two_images a = [\<lparr>mm_identifier = a, mm_offset = 4, mm_length = 1, is_embed = None\<rparr>,
                  \<lparr>mm_identifier = ''y'', mm_offset = 5, mm_length = 1, is_embed = None\<rparr>]"

definition two_image_request :: "string \<Rightarrow> int list \<Rightarrow> hash_bytes list \<Rightarrow> request" where
  "two_image_request a ids hs = (example_request ids 9)\<lparr>mm_features := two_images a, block_hashes := hs\<rparr>"

text \<open>
  The second of two blocks of four tokens holds both images. Hashed after the first block, the requests with the
  first images \<open>x\<close> and \<open>z\<close> get one hash for it; hashed from scratch, two.
\<close>

theorem later_blocks_miss_images_witness:
  "let env = serialising_env 4; ids = [1, 2, 3, 4, 7, 7, 8, 9];
       hs = [serialise ([], [1, 2, 3, 4], None)];
       later = (\<lambda>a. map_sum id fst (request_block_hasher env (two_image_request a ids hs)));
       fresh = (\<lambda>a. map_sum id fst (request_block_hasher env (two_image_request a ids [])))
   in later ''x'' = later ''z'' \<and> fresh ''x'' \<noteq> fresh ''z'' \<and> \<not> isl (later ''x'')"
proof -
  let ?env = "serialising_env 4" and ?ids = "[1, 2, 3, 4, 7, 7, 8, 9]" and ?hs = "[serialise ([], [1, 2, 3, 4], None)]"
  have "map_sum id fst (request_block_hasher ?env ((two_image_request ''z'' ?ids ?hs)\<lparr>mm_features := two_images ''x''\<rparr>))
      = map_sum id fst (request_block_hasher ?env (two_image_request ''z'' ?ids ?hs))"
    by (rule later_blocks_miss_images) (simp_all add: two_image_request_def two_images_def serialising_env_def)
  moreover have "(two_image_request ''z'' ?ids ?hs)\<lparr>mm_features := two_images ''x''\<rparr> = two_image_request ''x'' ?ids ?hs"
    by (simp add: two_image_request_def)
  moreover have "map_sum id fst (request_block_hasher ?env (two_image_request ''x'' ?ids []))
      \<noteq> map_sum id fst (request_block_hasher ?env (two_image_request ''z'' ?ids []))" by code_simp
  moreover have "\<not> isl (request_block_hasher ?env (two_image_request ''z'' ?ids ?hs))" by code_simp
  ultimately show ?thesis unfolding Let_def by (simp add: isl_map_sum)
qed


text \<open>
  A cache key determines the block hash and the KV-cache group it was made from; a group id
  of 32 bits or more is refused with an \<open>OverflowError\<close>.
\<close>

theorem cache_key_roundtrip:
  "if g < 2 ^ 32
   then \<exists>k. make_block_hash_with_group_id h g = Inr k \<and> get_block_hash k = h \<and> get_group_id k = g
     \<and> length k = length h + 4
   else make_block_hash_with_group_id h g = Inl OverflowError"
proof (cases "g < 2 ^ 32")
  case True
  then obtain k where k: "make_block_hash_with_group_id h g = Inr k"
    using make_block_hash_total by blast
  moreover have "length k = length h + 4"
    using k by (auto simp: make_block_hash_with_group_id_def bindR_eq_Inr dest: to_bytes4_roundtrip(1))
  ultimately show ?thesis using True make_block_hash_roundtrip [OF k] by auto
next
  case False
  then show ?thesis by (simp add: make_block_hash_with_group_id_def to_bytes4_def)
qed

text \<open>
  C18: Processing a batch of sampled tokens keeps a prefix of them, appends exactly that prefix to
  the request, stops only in a finished state, keeps everything when it does not stop, and never
  takes a request past \<open>max_model_len\<close> or \<open>max_tokens\<close> once it has its minimum of tokens.
\<close>

theorem output_within_limits:
  assumes "hasher \<in> {None, Some (request_block_hasher env)}"
    and run: "update_request_with_output hasher max_model_len r ts = Inr (kept, stopped, r')"
    and sp: "sampling_params_of r = Some sp" "min_tokens sp \<le> num_output_tokens r + 1"
    and start: "num_tokens r < max_model_len" "num_output_tokens r < max_tokens r"
  shows "prefix kept ts \<and> output_token_ids r' = output_token_ids r @ kept
     \<and> all_token_ids r' = all_token_ids r @ kept
     \<and> (stopped \<longrightarrow> is_finished r' \<and> kept \<noteq> []) \<and> (\<not> stopped \<longrightarrow> kept = ts)
     \<and> num_tokens r' \<le> max_model_len \<and> num_output_tokens r' \<le> max_tokens r"
proof -
  have frame: "hasher_frame hasher"
    using assms(1) request_block_hasher_frame by (auto simp: hasher_frame_def)
  have loop: "update_request_loop hasher max_model_len [] ts r = Inr (kept, stopped, r')"
    using run by (simp add: update_request_with_output_def)
  show ?thesis
    using update_request_loop_spec [OF frame loop] update_request_loop_bound [OF frame loop sp start]
    by auto
qed

theorem output_within_limits_witness:
  "\<exists>r'. update_request_with_output None 6 (example_request [5, 6, 7] 9) [8, 4, 3, 9]
      = Inr ([8, 4, 3], True, r') \<and> num_tokens r' \<le> 6 \<and> is_finished r'"
proof -
  let ?r = "example_request [5, 6, 7] 9"
  let ?r' = "?r\<lparr>output_token_ids := [8, 4, 3], all_token_ids := [5, 6, 7, 8, 4, 3],
      status := FINISHED_LENGTH_CAPPED\<rparr>"
  obtain sp where sp: "sampling_params_of ?r = Some sp" "min_tokens sp = 0"
    by (simp add: example_request_simps Let_def)
  have run: "update_request_with_output None 6 ?r [8, 4, 3, 9] = Inr ([8, 4, 3], True, ?r')"
    by (simp add: update_request_with_output_def append_output_token_ids_def update_block_hashes_def
        check_stop_def num_output_tokens_def num_tokens_def py_nth_def Let_def example_request_simps)
  have "num_tokens ?r = 3" "num_output_tokens ?r = 0" "max_tokens ?r = 9"
    by (simp_all add: num_tokens_def num_output_tokens_def example_request_simps Let_def)
  with output_within_limits [OF _ run sp(1)] sp(2) run show ?thesis by simp
qed

end
