(* ===== verification/KV_Cache_Metrics.thy ===== *)
theory KV_Cache_Metrics
  imports Free_Block_Queue
begin

text \<open>
  The block residency metrics of \<open>vllm/v1/core/kv_cache_metrics.py\<close>. The clock
  (\<open>time.monotonic_ns\<close>) and the sampler (\<open>random.random() < sample_rate\<close>) are parameters held in
  the collector: the answers of the successive calls, with the number of calls made so far.
  Durations stay in nanoseconds, the unit of the clock; the division by \<open>1e9\<close> is a change of
  unit.
\<close>

record block_metrics_state =
  birth_time_ns :: int
  last_access_ns :: int
  access_history :: "int list"

record eviction_event =
  lifetime_ns :: int
  idle_ns :: int
  reuse_gaps_ns :: "int list"

record metrics_collector =
  clock :: "nat \<Rightarrow> int"
  clock_calls :: nat
  sampler :: "nat \<Rightarrow> bool"
  sampler_calls :: nat
  block_metrics :: "(int \<times> block_metrics_state) list"
  eviction_events :: "eviction_event list"

definition monotonic_ns :: "metrics_collector \<Rightarrow> int \<times> metrics_collector" where
  "monotonic_ns c = (clock c (clock_calls c), c\<lparr>clock_calls := clock_calls c + 1\<rparr>)"

definition should_sample_block :: "metrics_collector \<Rightarrow> bool \<times> metrics_collector" where
  "should_sample_block c = (sampler c (sampler_calls c), c\<lparr>sampler_calls := sampler_calls c + 1\<rparr>)"

definition block_metrics_init :: "metrics_collector \<Rightarrow> block_metrics_state \<times> metrics_collector" where
  "block_metrics_init c =
     (case monotonic_ns c of
        (now, c') \<Rightarrow> (\<lparr>birth_time_ns = now, last_access_ns = now, access_history = []\<rparr>, c'))"

text \<open>\<open>deque(maxlen=4).append\<close>: the oldest entry is dropped when four are held.\<close>

definition bounded_append :: "nat \<Rightarrow> 'a list \<Rightarrow> 'a \<Rightarrow> 'a list" where
  "bounded_append n xs x = (let ys = xs @ [x] in drop (length ys - n) ys)"

definition record_access ::
  "block_metrics_state \<Rightarrow> metrics_collector \<Rightarrow> block_metrics_state \<times> metrics_collector" where
  "record_access m c =
     (case monotonic_ns c of
        (now, c') \<Rightarrow>
          (m\<lparr>last_access_ns := now, access_history := bounded_append 4 (access_history m) now\<rparr>, c'))"

definition get_lifetime :: "block_metrics_state \<Rightarrow> metrics_collector \<Rightarrow> int \<times> metrics_collector" where
  "get_lifetime m c = (case monotonic_ns c of (now, c') \<Rightarrow> (now - birth_time_ns m, c'))"

definition get_idle_time :: "block_metrics_state \<Rightarrow> metrics_collector \<Rightarrow> int \<times> metrics_collector" where
  "get_idle_time m c = (case monotonic_ns c of (now, c') \<Rightarrow> (now - last_access_ns m, c'))"

definition get_reuse_gaps :: "block_metrics_state \<Rightarrow> int list" where
  "get_reuse_gaps m =
     (let h = access_history m
      in if length h < 2 then [] else map (\<lambda>i. h ! i - h ! (i - 1)) [1..<length h])"

definition on_block_allocated :: "block_ref \<Rightarrow> metrics_collector \<Rightarrow> metrics_collector" where
  "on_block_allocated b c =
     (case should_sample_block c of
        (sampled, c1) \<Rightarrow>
          if sampled
          then (case block_metrics_init c1 of
                  (m, c2) \<Rightarrow> c2\<lparr>block_metrics := AList.update (block_id b) m (block_metrics c2)\<rparr>)
          else c1)"

definition on_block_accessed :: "block_ref \<Rightarrow> metrics_collector \<Rightarrow> metrics_collector" where
  "on_block_accessed b c =
     (case map_of (block_metrics c) (block_id b) of
        None \<Rightarrow> c
      | Some m \<Rightarrow>
          (case record_access m c of
             (m', c') \<Rightarrow> c'\<lparr>block_metrics := AList.update (block_id b) m' (block_metrics c')\<rparr>))"

definition on_block_evicted :: "block_ref \<Rightarrow> metrics_collector \<Rightarrow> metrics_collector" where
  "on_block_evicted b c =
     (case map_of (block_metrics c) (block_id b) of
        None \<Rightarrow> c
      | Some m \<Rightarrow>
          (case get_lifetime m (c\<lparr>block_metrics := AList.delete (block_id b) (block_metrics c)\<rparr>) of
             (life, c1) \<Rightarrow>
               (case get_idle_time m c1 of
                  (idle, c2) \<Rightarrow>
                    c2\<lparr>eviction_events := eviction_events c2 @
                        [\<lparr>lifetime_ns = life, idle_ns = idle, reuse_gaps_ns = get_reuse_gaps m\<rparr>]\<rparr>)))"

definition metrics_reset :: "metrics_collector \<Rightarrow> metrics_collector" where
  "metrics_reset c = c\<lparr>block_metrics := [], eviction_events := []\<rparr>"

definition drain_events :: "metrics_collector \<Rightarrow> eviction_event list \<times> metrics_collector" where
  "drain_events c = (eviction_events c, c\<lparr>eviction_events := []\<rparr>)"

subsection \<open>What the collector keeps\<close>

text \<open>
  With a clock that does not run backwards, every tracked block was born no later than its last
  access, its accesses are in order and no later than now, and at most four are remembered.
\<close>

definition clock_monotone :: "metrics_collector \<Rightarrow> bool" where
  "clock_monotone c \<longleftrightarrow> (\<forall>i j. i \<le> j \<longrightarrow> clock c i \<le> clock c j)"

definition metrics_state_ok :: "metrics_collector \<Rightarrow> block_metrics_state \<Rightarrow> bool" where
  "metrics_state_ok c m \<longleftrightarrow>
     birth_time_ns m \<le> last_access_ns m \<and> last_access_ns m \<le> clock c (clock_calls c)
     \<and> sorted (access_history m) \<and> (\<forall>t \<in> set (access_history m). t \<le> last_access_ns m)
     \<and> length (access_history m) \<le> 4"

definition event_ok :: "eviction_event \<Rightarrow> bool" where
  "event_ok e \<longleftrightarrow>
     0 \<le> idle_ns e \<and> 0 \<le> lifetime_ns e
     \<and> (\<forall>g \<in> set (reuse_gaps_ns e). 0 \<le> g) \<and> length (reuse_gaps_ns e) \<le> 3"

definition metrics_inv :: "metrics_collector \<Rightarrow> bool" where
  "metrics_inv c \<longleftrightarrow>
     clock_monotone c \<and> distinct (map fst (block_metrics c))
     \<and> (\<forall>(b, m) \<in> set (block_metrics c). metrics_state_ok c m)
     \<and> (\<forall>e \<in> set (eviction_events c). event_ok e)"

lemma bounded_append_length: "length (bounded_append n xs x) \<le> n"
  by (simp add: bounded_append_def Let_def)

lemma set_bounded_append: "set (bounded_append n xs x) \<subseteq> insert x (set xs)"
  unfolding bounded_append_def Let_def using set_drop_subset [of _ "xs @ [x]"] by fastforce

lemma sorted_bounded_append:
  "sorted xs \<Longrightarrow> \<forall>t \<in> set xs. t \<le> x \<Longrightarrow> sorted (bounded_append n xs x)"
  unfolding bounded_append_def Let_def by (intro sorted_wrt_drop) (auto simp: sorted_append)

lemma clock_step: "clock_monotone c \<Longrightarrow> clock c n \<le> clock c (Suc n)"
  by (simp add: clock_monotone_def)

text \<open>A reading of the clock keeps every tracked state well formed.\<close>

lemma metrics_state_ok_later:
  "clock_monotone c \<Longrightarrow> metrics_state_ok c m \<Longrightarrow> clock c' = clock c
   \<Longrightarrow> clock_calls c \<le> clock_calls c' \<Longrightarrow> metrics_state_ok c' m"
  by (force simp: metrics_state_ok_def clock_monotone_def)

lemma metrics_inv_later:
  assumes "metrics_inv c" and "clock c' = clock c" "clock_calls c \<le> clock_calls c'"
    and "distinct (map fst (block_metrics c'))"
    and "\<And>b m. (b, m) \<in> set (block_metrics c') \<Longrightarrow> (b, m) \<in> set (block_metrics c) \<or> metrics_state_ok c' m"
    and "\<And>e. e \<in> set (eviction_events c') \<Longrightarrow> e \<in> set (eviction_events c) \<or> event_ok e"
  shows "metrics_inv c'"
proof -
  have mono: "clock_monotone c" "clock_monotone c'"
    using assms(1,2) by (auto simp: metrics_inv_def clock_monotone_def)
  have "metrics_state_ok c' m" if "(b, m) \<in> set (block_metrics c')" for b m
    using assms(1) assms(5) [OF that] metrics_state_ok_later [OF mono(1) _ assms(2,3)]
    by (auto simp: metrics_inv_def)
  moreover have "event_ok e" if "e \<in> set (eviction_events c')" for e
    using assms(1) assms(6) [OF that] by (auto simp: metrics_inv_def)
  ultimately show ?thesis using mono(2) assms(4) by (auto simp: metrics_inv_def)
qed

lemma in_set_update: "(k, v) \<in> set (AList.update k' v' d) \<Longrightarrow> (k, v) \<in> set d \<or> (k = k' \<and> v = v')"
  by (induction d) (auto split: if_splits)

lemma in_set_delete: "(k, v) \<in> set (AList.delete k' d) \<Longrightarrow> (k, v) \<in> set d"
  by (auto simp: AList.delete_eq)

lemma on_block_allocated_inv: "metrics_inv c \<Longrightarrow> metrics_inv (on_block_allocated b c)"
proof -
  assume inv: "metrics_inv c"
  then have "clock_monotone c" by (simp add: metrics_inv_def)
  then have "clock c (clock_calls c) \<le> clock c (Suc (clock_calls c))" by (rule clock_step)
  then have ok: "metrics_state_ok (c\<lparr>sampler_calls := s, clock_calls := Suc (clock_calls c)\<rparr>)
      \<lparr>birth_time_ns = clock c (clock_calls c), last_access_ns = clock c (clock_calls c),
       access_history = []\<rparr>" for s
    by (simp add: metrics_state_ok_def)
  have eq: "on_block_allocated b c =
      (let c1 = c\<lparr>sampler_calls := Suc (sampler_calls c)\<rparr>
       in if sampler c (sampler_calls c)
          then c1\<lparr>clock_calls := Suc (clock_calls c), block_metrics := AList.update (block_id b)
             \<lparr>birth_time_ns = clock c (clock_calls c), last_access_ns = clock c (clock_calls c),
              access_history = []\<rparr> (block_metrics c)\<rparr>
          else c1)"
    by (simp add: on_block_allocated_def should_sample_block_def block_metrics_init_def
        monotonic_ns_def Let_def)
  have d: "distinct (map fst (block_metrics c))" using inv by (simp add: metrics_inv_def)
  show ?thesis
  proof (cases "sampler c (sampler_calls c)")
    case True
    show ?thesis
      unfolding eq Let_def if_P [OF True]
      using ok d by (intro metrics_inv_later [OF inv])
        (auto simp: distinct_update metrics_state_ok_def dest!: in_set_update)
  next
    case False
    then show ?thesis
      unfolding eq Let_def if_not_P [OF False] using d by (intro metrics_inv_later [OF inv]) simp_all
  qed
qed

lemma record_access_ok:
  assumes "clock_monotone c" and "metrics_state_ok c m" and "record_access m c = (m', c')"
  shows "metrics_state_ok c' m'"
proof -
  have step: "clock c (clock_calls c) \<le> clock c (Suc (clock_calls c))"
    using assms(1) by (rule clock_step)
  have "set (bounded_append 4 (access_history m) (clock c (clock_calls c)))
      \<subseteq> insert (clock c (clock_calls c)) (set (access_history m))" by (rule set_bounded_append)
  moreover have "\<forall>t \<in> set (access_history m). t \<le> clock c (clock_calls c)"
    using assms(2) by (auto simp: metrics_state_ok_def)
  ultimately show ?thesis
    using assms step bounded_append_length [of 4 "access_history m"]
      sorted_bounded_append [of "access_history m" "clock c (clock_calls c)" 4]
    by (auto simp: record_access_def monotonic_ns_def metrics_state_ok_def)
qed

lemma on_block_accessed_inv:
  assumes inv: "metrics_inv c"
  shows "metrics_inv (on_block_accessed b c)"
proof (cases "map_of (block_metrics c) (block_id b)")
  case None
  then show ?thesis using inv by (simp add: on_block_accessed_def)
next
  case (Some m)
  obtain m' c' where rec: "record_access m c = (m', c')" by (cases "record_access m c")
  have c': "c' = c\<lparr>clock_calls := clock_calls c + 1\<rparr>"
    using rec by (auto simp: record_access_def monotonic_ns_def)
  have "metrics_state_ok c m" using Some inv by (auto simp: metrics_inv_def dest: map_of_SomeD)
  then have "metrics_state_ok c' m'"
    using record_access_ok [OF _ _ rec] inv by (simp add: metrics_inv_def)
  then show ?thesis
    using inv Some rec
    by (intro metrics_inv_later [OF inv])
      (auto simp: on_block_accessed_def c' metrics_inv_def metrics_state_ok_def distinct_update
        dest: in_set_update)
qed

lemma reuse_gaps_ok:
  assumes "metrics_state_ok c m"
  shows "(\<forall>g \<in> set (get_reuse_gaps m). 0 \<le> g) \<and> length (get_reuse_gaps m) \<le> 3"
proof -
  have "access_history m ! (i - 1) \<le> access_history m ! i" if "1 \<le> i" "i < length (access_history m)" for i
    using assms that by (auto simp: metrics_state_ok_def sorted_iff_nth_mono)
  then show ?thesis
    using assms by (auto simp: get_reuse_gaps_def metrics_state_ok_def Let_def)
qed

lemma on_block_evicted_inv:
  assumes inv: "metrics_inv c"
  shows "metrics_inv (on_block_evicted b c)
    \<and> map_of (block_metrics (on_block_evicted b c)) (block_id b) = None"
proof (cases "map_of (block_metrics c) (block_id b)")
  case None
  then show ?thesis using inv by (simp add: on_block_evicted_def)
next
  case (Some m)
  have ok: "metrics_state_ok c m" using Some inv by (auto simp: metrics_inv_def dest: map_of_SomeD)
  have mono: "clock_monotone c" using inv by (simp add: metrics_inv_def)
  have step: "clock c (clock_calls c) \<le> clock c (Suc (clock_calls c))"
    using mono by (rule clock_step)
  let ?e = "\<lparr>lifetime_ns = clock c (clock_calls c) - birth_time_ns m,
             idle_ns = clock c (Suc (clock_calls c)) - last_access_ns m,
             reuse_gaps_ns = get_reuse_gaps m\<rparr>"
  let ?c = "on_block_evicted b c"
  have c: "?c = c\<lparr>block_metrics := AList.delete (block_id b) (block_metrics c),
      clock_calls := clock_calls c + 2, eviction_events := eviction_events c @ [?e]\<rparr>"
    using Some by (simp add: on_block_evicted_def get_lifetime_def get_idle_time_def monotonic_ns_def)
  have "event_ok ?e"
    using ok step reuse_gaps_ok [OF ok] by (auto simp: event_ok_def metrics_state_ok_def)
  then have "metrics_inv ?c"
    unfolding c using inv
    by (intro metrics_inv_later [OF inv]) (auto simp: metrics_inv_def distinct_delete dest: in_set_delete)
  moreover have "map_of (block_metrics ?c) (block_id b) = None"
    unfolding c by (simp add: delete_conv')
  ultimately show ?thesis ..
qed

end
