(* ===== verification/Block_Pool.thy ===== *)
theory Block_Pool
  imports Free_Block_Queue Block_Hash KV_Cache_Metrics
begin

text \<open>
  The block pool, \<open>vllm/v1/core/block_pool.py\<close>: the map from block hashes to cached blocks and
  the pool that allocates, shares, frees, caches and evicts blocks. The blocks live in the store
  of the free queue, addressed by \<open>Blk i\<close>.
\<close>

subsection \<open>BlockHashToBlockMap\<close>

text \<open>The value of a key is one block, or a dict from block ids to blocks.\<close>

datatype cached_blocks = One_Block block_ref | Block_Dict "(int \<times> block_ref) list"

type_synonym block_cache = "(bytes \<times> cached_blocks) list"

definition get_one_block :: "bytes \<Rightarrow> block_cache \<Rightarrow> block_ref option result" where
  "get_one_block key cache =
     (case map_of cache key of
        None \<Rightarrow> Inr None
      | Some (One_Block b) \<Rightarrow> Inr (Some b)
      | Some (Block_Dict []) \<Rightarrow> Inl StopIteration
      | Some (Block_Dict ((i, b) # _)) \<Rightarrow> Inr (Some b))"

definition cache_insert :: "bytes \<Rightarrow> block_ref \<Rightarrow> block_cache \<Rightarrow> block_cache" where
  "cache_insert key b cache =
     (case map_of cache key of
        None \<Rightarrow> AList.update key (One_Block b) cache
      | Some (One_Block a) \<Rightarrow>
          AList.update key (Block_Dict (AList.update (block_id b) b [(block_id a, a)])) cache
      | Some (Block_Dict d) \<Rightarrow> AList.update key (Block_Dict (AList.update (block_id b) b d)) cache)"

definition cache_pop :: "bytes \<Rightarrow> int \<Rightarrow> block_cache \<Rightarrow> block_ref option \<times> block_cache" where
  "cache_pop key i cache =
     (let cache' = AList.delete key cache
      in case map_of cache key of
           None \<Rightarrow> (None, cache')
         | Some (One_Block b) \<Rightarrow>
             if block_id b = i then (Some b, cache')
             else (None, AList.update key (One_Block b) cache')
         | Some (Block_Dict d) \<Rightarrow>
             let d' = AList.delete i d
             in (map_of d i,
                 if length d' > 0 then AList.update key (Block_Dict d') cache' else cache'))"

subsection \<open>The pool\<close>

datatype kv_cache_event =
    BlockStored "external_block_hash list" "external_block_hash option" "int list" int
      "int option" "string option" "extra_key list option list option"
  | BlockRemoved "external_block_hash list"
  | AllBlocksCleared

record block_pool =
  num_gpu_blocks :: int
  enable_caching :: bool
  hash_block_size :: int
  blocks :: "block_ref list"
  free_block_queue :: free_queue
  cached_block_hash_to_block :: block_cache
  null_block :: block_ref
  enable_kv_cache_events :: bool
  use_int_block_hashes :: bool
  kv_event_queue :: "kv_cache_event list"
  collector :: "metrics_collector option"

abbreviation pool_store :: "block_pool \<Rightarrow> store" where
  "pool_store p \<equiv> store (free_block_queue p)"

definition set_store :: "store \<Rightarrow> block_pool \<Rightarrow> block_pool" where
  "set_store s p = p\<lparr>free_block_queue := (free_block_queue p)\<lparr>store := s\<rparr>\<rparr>"

definition add_ref :: "block_ref \<Rightarrow> int \<Rightarrow> block_pool \<Rightarrow> block_pool" where
  "add_ref b k p =
     set_store ((pool_store p)(b := (pool_store p b)\<lparr>ref_cnt := ref_cnt (pool_store p b) + k\<rparr>)) p"

definition block_pool_init ::
  "int \<Rightarrow> bool \<Rightarrow> int \<Rightarrow> bool \<Rightarrow> bool \<Rightarrow> metrics_collector option \<Rightarrow> block_pool result" where
  "block_pool_init n caching hash_size events int_hashes mc =
     bindR (assertR (n > 0)) (\<lambda>_.
       let bs = map Blk [0..<nat n]
       in bindR (popleft (free_queue_init bs (\<lambda>_. new_block))) (\<lambda>(null, q).
            Inr \<lparr>num_gpu_blocks = n, enable_caching = caching, hash_block_size = hash_size,
                 blocks = bs,
                 free_block_queue =
                   q\<lparr>store := (store q)(null := (store q null)\<lparr>is_null := True\<rparr>)\<rparr>,
                 cached_block_hash_to_block = [], null_block = null,
                 enable_kv_cache_events = events, use_int_block_hashes = int_hashes,
                 kv_event_queue = [], collector = mc\<rparr>))"

definition get_num_free_blocks :: "block_pool \<Rightarrow> int" where
  "get_num_free_blocks p = num_free_blocks (free_block_queue p)"

fun get_cached_block_loop ::
  "block_cache \<Rightarrow> bytes \<Rightarrow> nat list \<Rightarrow> block_ref list \<Rightarrow> block_ref list option result" where
  "get_cached_block_loop cache h [] acc = Inr (Some acc)"
| "get_cached_block_loop cache h (g # gs) acc =
     bindR (make_block_hash_with_group_id h g) (\<lambda>key.
     bindR (get_one_block key cache) (\<lambda>found.
       case found of
         None \<Rightarrow> Inr None
       | Some b \<Rightarrow> get_cached_block_loop cache h gs (acc @ [b])))"

definition get_cached_block ::
  "block_pool \<Rightarrow> bytes \<Rightarrow> nat list \<Rightarrow> block_ref list option result" where
  "get_cached_block p h gs = get_cached_block_loop (cached_block_hash_to_block p) h gs []"

text \<open>The first loop of \<open>cache_full_blocks\<close>: hash, mark and insert each new full block.\<close>

fun cache_blocks_loop ::
  "nat \<Rightarrow> hash_bytes list \<Rightarrow> nat \<Rightarrow> block_ref list \<Rightarrow> external_block_hash list \<Rightarrow> block_pool
   \<Rightarrow> (external_block_hash list \<times> block_pool) result" where
  "cache_blocks_loop g hs i [] new_hashes p = Inr (new_hashes, p)"
| "cache_blocks_loop g hs i (b # bs) new_hashes p =
     (if is_null (pool_store p b) then cache_blocks_loop g hs (i + 1) bs new_hashes p
      else bindR (assertR (block_hash (pool_store p b) = None)) (\<lambda>_.
           bindR (py_nth hs (int i)) (\<lambda>h.
           bindR (make_block_hash_with_group_id h g) (\<lambda>key.
           bindR (set_block_hash b key (pool_store p)) (\<lambda>s.
             let p1 = set_store s p;
                 p2 = p1\<lparr>cached_block_hash_to_block :=
                           cache_insert key b (cached_block_hash_to_block p1)\<rparr>
             in cache_blocks_loop g hs (i + 1) bs
                  (if enable_kv_cache_events p
                   then new_hashes @ [maybe_convert_block_hash (use_int_block_hashes p) h]
                   else new_hashes) p2)))))"

text \<open>The loop that collects the extra keys of the new full blocks for the event.\<close>

fun event_keys_loop ::
  "hash_env \<Rightarrow> block_pool \<Rightarrow> block_ref list \<Rightarrow> int \<Rightarrow> int list \<Rightarrow> int
   \<Rightarrow> extra_key list option list \<Rightarrow> request
   \<Rightarrow> (extra_key list option list \<times> request) result" where
  "event_keys_loop env p bs bsz [] idx acc r = Inr (acc, r)"
| "event_keys_loop env p bs bsz (i # js) idx acc r =
     bindR (py_nth bs i) (\<lambda>b.
       if is_null (pool_store p b) then event_keys_loop env p bs bsz js idx acc r
       else bindR (generate_block_hash_extra_keys env r (i * bsz) (i * bsz + bsz) idx)
              (\<lambda>(keys, idx', r'). event_keys_loop env p bs bsz js idx' (acc @ [keys]) r'))"

definition group_block_hashes :: "block_pool \<Rightarrow> request \<Rightarrow> int \<Rightarrow> hash_bytes list result" where
  "group_block_hashes p r block_size =
     (if block_size = hash_block_size p then Inr (block_hashes r)
      else block_hash_list_with_block_size (block_hashes r) (hash_block_size p) block_size)"

definition cache_full_blocks ::
  "hash_env \<Rightarrow> request \<Rightarrow> block_ref list \<Rightarrow> int \<Rightarrow> int \<Rightarrow> int \<Rightarrow> nat \<Rightarrow> block_pool
   \<Rightarrow> (request \<times> block_pool) result" where
  "cache_full_blocks env r bs num_cached num_full block_size g p =
     (if num_cached \<ge> num_full then Inr (r, p)
      else
        bindR (assertR (int (length (block_hashes r)) \<ge> num_full)) (\<lambda>_.
        bindR (group_block_hashes p r block_size) (\<lambda>hs.
        bindR (cache_blocks_loop g (slice_from hs num_cached) 0
                 (slice_between bs num_cached num_full) [] p) (\<lambda>(new_hashes, p1).
          if \<not> enable_kv_cache_events p1 then Inr (r, p1)
          else
            bindR (if num_cached = 0 then Inr None
                   else bindR (py_nth hs (num_cached - 1)) (\<lambda>h.
                          Inr (Some (maybe_convert_block_hash (use_int_block_hashes p1) h))))
              (\<lambda>parent.
            bindR (event_keys_loop env p1 bs block_size [num_cached..num_full - 1] 0 [] r)
              (\<lambda>(keys, r').
                Inr (r', p1\<lparr>kv_event_queue := kv_event_queue p1 @
                  [BlockStored new_hashes parent
                     (slice_between (all_token_ids r') (num_cached * block_size)
                        (num_full * block_size))
                     block_size
                     (map_option lora_int_id (lora_request_of r'))
                     (map_option lora_name (lora_request_of r'))
                     (if keys = [] then None else Some keys)]\<rparr>)))))))"

definition with_collector ::
  "(metrics_collector \<Rightarrow> metrics_collector) \<Rightarrow> block_pool \<Rightarrow> block_pool" where
  "with_collector f p = p\<lparr>collector := map_option f (collector p)\<rparr>"

definition maybe_evict_cached_block :: "block_ref \<Rightarrow> block_pool \<Rightarrow> bool \<times> block_pool" where
  "maybe_evict_cached_block b p =
     (let p1 = with_collector (on_block_evicted b) p
      in case block_hash (pool_store p1 b) of
           None \<Rightarrow> (False, p1)
         | Some key \<Rightarrow>
             (case cache_pop key (block_id b) (cached_block_hash_to_block p1) of
                (None, cache) \<Rightarrow> (False, p1\<lparr>cached_block_hash_to_block := cache\<rparr>)
              | (Some _, cache) \<Rightarrow>
                  let p2 = set_store (reset_hash b (pool_store p1))
                             (p1\<lparr>cached_block_hash_to_block := cache\<rparr>)
                  in (True,
                      if enable_kv_cache_events p2
                      then p2\<lparr>kv_event_queue := kv_event_queue p2 @
                             [BlockRemoved [maybe_convert_block_hash (use_int_block_hashes p2)
                                              (get_block_hash key)]]\<rparr>
                      else p2)))"

definition take_new_block :: "block_ref \<Rightarrow> block_pool \<Rightarrow> block_pool result" where
  "take_new_block b p =
     (let p1 = (if enable_caching p then snd (maybe_evict_cached_block b p) else p)
      in bindR (assertR (ref_cnt (pool_store p1 b) = 0)) (\<lambda>_.
           Inr (with_collector (on_block_allocated b) (add_ref b 1 p1))))"

definition get_new_blocks :: "int \<Rightarrow> block_pool \<Rightarrow> (block_ref list \<times> block_pool) result" where
  "get_new_blocks n p =
     (if n > get_num_free_blocks p then Inl ValueError
      else bindR (popleft_n n (free_block_queue p)) (\<lambda>(ret, q).
           bindR (foldR take_new_block ret (p\<lparr>free_block_queue := q\<rparr>)) (\<lambda>p'.
             Inr (ret, p'))))"

definition touch_block :: "block_ref \<Rightarrow> block_pool \<Rightarrow> block_pool result" where
  "touch_block b p =
     bindR (if ref_cnt (pool_store p b) = 0 \<and> \<not> is_null (pool_store p b)
            then bindR (remove b (free_block_queue p)) (\<lambda>q. Inr (p\<lparr>free_block_queue := q\<rparr>))
            else Inr p)
       (\<lambda>p1. Inr (with_collector (on_block_accessed b) (add_ref b 1 p1)))"

definition touch :: "block_ref list \<Rightarrow> block_pool \<Rightarrow> block_pool result" where
  "touch bs p = foldR touch_block bs p"

definition free_blocks :: "block_ref list \<Rightarrow> block_pool \<Rightarrow> block_pool result" where
  "free_blocks bs p =
     (let p1 = fold (\<lambda>b. add_ref b (- 1)) bs p
      in bindR (append_n (filter (\<lambda>b. ref_cnt (pool_store p1 b) = 0 \<and> \<not> is_null (pool_store p1 b)) bs)
                  (free_block_queue p1))
           (\<lambda>q. Inr (p1\<lparr>free_block_queue := q\<rparr>)))"

text \<open>The ids come as a Python set: the model takes them in the order the set yields them.\<close>

definition evict_block :: "int \<Rightarrow> block_pool \<Rightarrow> block_pool result" where
  "evict_block i p =
     bindR (assertR (i < int (length (blocks p)))) (\<lambda>_.
     bindR (py_nth (blocks p) i) (\<lambda>b. Inr (snd (maybe_evict_cached_block b p))))"

definition evict_blocks :: "int list \<Rightarrow> block_pool \<Rightarrow> block_pool result" where
  "evict_blocks ids p = foldR evict_block ids p"

definition reset_prefix_cache :: "block_pool \<Rightarrow> bool \<times> block_pool" where
  "reset_prefix_cache p =
     (let num_used = num_gpu_blocks p - get_num_free_blocks p
      in if num_used \<noteq> 1 then (False, p)
         else
           let p1 = p\<lparr>cached_block_hash_to_block := []\<rparr>;
               p2 = set_store (fold reset_hash (blocks p1) (pool_store p1)) p1;
               p3 = with_collector metrics_reset p2
           in (True,
               if enable_kv_cache_events p3
               then p3\<lparr>kv_event_queue := kv_event_queue p3 @ [AllBlocksCleared]\<rparr> else p3))"

text \<open>
  \<open>get_usage\<close> as the fraction of used blocks, a pair of numerator and denominator
  (\<open>None\<close> for the early return 0).
\<close>

definition get_usage :: "block_pool \<Rightarrow> (int \<times> int) option" where
  "get_usage p =
     (let total = num_gpu_blocks p - 1
      in if total = 0 then None else Some (total - get_num_free_blocks p, total))"

definition take_events :: "block_pool \<Rightarrow> kv_cache_event list \<times> block_pool" where
  "take_events p =
     (if \<not> enable_kv_cache_events p then ([], p)
      else (kv_event_queue p, p\<lparr>kv_event_queue := []\<rparr>))"

subsection \<open>The hash index\<close>

text \<open>
  The contract of a hash index: \<open>holds\<close> says that a block is filed under a key, \<open>lookup\<close> finds
  some block of a key exactly when there is one.
\<close>

locale hash_index =
  fixes wf :: "'c \<Rightarrow> bool"
    and holds :: "'c \<Rightarrow> 'k \<Rightarrow> 'b \<Rightarrow> bool"
    and put :: "'k \<Rightarrow> 'b \<Rightarrow> 'c \<Rightarrow> 'c"
    and drop_one :: "'k \<Rightarrow> 'b \<Rightarrow> 'c \<Rightarrow> 'b option \<times> 'c"
    and lookup :: "'k \<Rightarrow> 'c \<Rightarrow> 'b option result"
    and valid :: "'b \<Rightarrow> bool"
  assumes put_wf: "wf c \<Longrightarrow> valid b \<Longrightarrow> wf (put k b c)"
    and put_holds: "wf c \<Longrightarrow> valid b \<Longrightarrow> holds (put k b c) k' b' \<longleftrightarrow> holds c k' b' \<or> (k' = k \<and> b' = b)"
    and drop_wf: "wf c \<Longrightarrow> valid b \<Longrightarrow> wf (snd (drop_one k b c))"
    and drop_holds: "wf c \<Longrightarrow> valid b \<Longrightarrow>
      holds (snd (drop_one k b c)) k' b' \<longleftrightarrow> holds c k' b' \<and> \<not> (k' = k \<and> b' = b)"
    and drop_result: "wf c \<Longrightarrow> valid b \<Longrightarrow> fst (drop_one k b c) = (if holds c k b then Some b else None)"
    and lookup_sound: "wf c \<Longrightarrow> lookup k c = Inr (Some b) \<Longrightarrow> holds c k b"
    and lookup_complete: "wf c \<Longrightarrow> lookup k c = Inr None \<Longrightarrow> \<not> holds c k b"
    and lookup_total: "wf c \<Longrightarrow> \<exists>r. lookup k c = Inr r"
begin

lemma lookup_iff: "wf c \<Longrightarrow> (\<exists>b. lookup k c = Inr (Some b)) \<longleftrightarrow> (\<exists>b. holds c k b)"
  using lookup_sound lookup_complete lookup_total by (metis option.exhaust)

lemma lookup_after_put: "wf c \<Longrightarrow> valid b \<Longrightarrow> \<exists>b'. lookup k (put k b c) = Inr (Some b')"
  using lookup_iff [OF put_wf] put_holds by blast

lemma lookup_after_last_drop:
  assumes "wf c" "valid b" "\<And>b'. holds c k b' \<Longrightarrow> b' = b"
  shows "lookup k (snd (drop_one k b c)) = Inr None"
  using assms lookup_iff [OF drop_wf [OF assms(1,2)], of k k]
    lookup_total [OF drop_wf [OF assms(1,2)], of k k] drop_holds
  by (metis option.exhaust)

end

fun entries :: "cached_blocks \<Rightarrow> block_ref list" where
  "entries (One_Block b) = [b]"
| "entries (Block_Dict d) = map snd d"

definition cache_holds :: "block_cache \<Rightarrow> bytes \<Rightarrow> block_ref \<Rightarrow> bool" where
  "cache_holds c k b \<longleftrightarrow> (\<exists>v. map_of c k = Some v \<and> b \<in> set (entries v))"

definition pool_block :: "block_ref \<Rightarrow> bool" where
  "pool_block b \<longleftrightarrow> b \<notin> sentinels"

lemma block_id_inject: "pool_block a \<Longrightarrow> pool_block b \<Longrightarrow> block_id a = block_id b \<longleftrightarrow> a = b"
  by (cases a; cases b) (auto simp: pool_block_def sentinels_def)

fun value_wf :: "cached_blocks \<Rightarrow> bool" where
  "value_wf (One_Block b) = pool_block b"
| "value_wf (Block_Dict d) =
     (d \<noteq> [] \<and> distinct (map fst d) \<and> (\<forall>(i, b) \<in> set d. i = block_id b \<and> pool_block b))"

definition cache_wf :: "block_cache \<Rightarrow> bool" where
  "cache_wf c \<longleftrightarrow> (\<forall>k v. map_of c k = Some v \<longrightarrow> value_wf v)"

lemma update_nonempty: "AList.update k v d \<noteq> []"
  by (cases d) auto

lemma value_wf_update:
  assumes "value_wf (Block_Dict d)" and "pool_block b"
  shows "value_wf (Block_Dict (AList.update (block_id b) b d))"
    and "set (map snd (AList.update (block_id b) b d)) = insert b (set (map snd d))"
proof -
  have d: "distinct (map fst d)" and ent: "\<And>i a. (i, a) \<in> set d \<Longrightarrow> i = block_id a \<and> pool_block a"
    using assms(1) by auto
  show wf: "value_wf (Block_Dict (AList.update (block_id b) b d))"
    using d ent assms(2) by (auto simp: update_nonempty distinct_update dest!: in_set_update)
  have mem: "x \<in> snd ` set e \<longleftrightarrow> map_of e (block_id x) = Some x"
    if "distinct (map fst e)" "\<And>i a. (i, a) \<in> set e \<Longrightarrow> i = block_id a \<and> pool_block a"
    for e :: "(int \<times> block_ref) list" and x
    using that by (force dest: map_of_SomeD simp: map_of_eq_Some_iff)
  have "x \<in> snd ` set (AList.update (block_id b) b d) \<longleftrightarrow> x = b \<or> x \<in> snd ` set d" for x
  proof (cases "pool_block x")
    case True
    then show ?thesis
      using wf d ent assms(2) block_id_inject [OF True assms(2)]
      by (subst (1 2) mem) (auto simp: update_conv')
  next
    case False
    then show ?thesis
      using ent assms(2) by (auto dest!: in_set_update)
  qed
  then show "set (map snd (AList.update (block_id b) b d)) = insert b (set (map snd d))"
    by auto
qed

lemma dict_delete_entries:
  assumes "value_wf (Block_Dict d)" and "pool_block b"
  shows "set (map snd (AList.delete (block_id b) d)) = set (map snd d) - {b}"
    and "map_of d (block_id b) = (if b \<in> set (map snd d) then Some b else None)"
proof -
  have ent: "\<And>i a. (i, a) \<in> set d \<Longrightarrow> i = block_id a \<and> pool_block a" using assms(1) by auto
  have "(i, a) \<in> set d \<Longrightarrow> i \<noteq> block_id b \<longleftrightarrow> a \<noteq> b" for i a
    using ent [of i a] block_id_inject assms(2) by auto
  then show "set (map snd (AList.delete (block_id b) d)) = set (map snd d) - {b}"
    by (force simp: AList.delete_eq)
  show "map_of d (block_id b) = (if b \<in> set (map snd d) then Some b else None)"
  proof (cases "map_of d (block_id b)")
    case None
    then show ?thesis using ent by (force simp: map_of_eq_None_iff)
  next
    case (Some a)
    from map_of_SomeD [OF Some] have mem: "(block_id b, a) \<in> set d" .
    then have "a = b" using ent [OF mem] block_id_inject [OF assms(2), of a] by simp
    with mem have "b \<in> set (map snd d)" by force
    with Some \<open>a = b\<close> show ?thesis by simp
  qed
qed

lemma cache_holds_update [simp]:
  "cache_holds (AList.update k v c) k' b \<longleftrightarrow> (if k' = k then b \<in> set (entries v) else cache_holds c k' b)"
  by (simp add: cache_holds_def update_conv')

lemma cache_holds_delete [simp]:
  "cache_holds (AList.delete k c) k' b \<longleftrightarrow> k' \<noteq> k \<and> cache_holds c k' b"
  by (simp add: cache_holds_def delete_conv')

lemma cache_wf_update: "cache_wf c \<Longrightarrow> value_wf v \<Longrightarrow> cache_wf (AList.update k v c)"
  by (simp add: cache_wf_def update_conv')

lemma cache_wf_delete: "cache_wf c \<Longrightarrow> cache_wf (AList.delete k c)"
  by (simp add: cache_wf_def delete_conv' restrict_map_def)

lemma cache_insert_spec:
  assumes wf: "cache_wf c" and b: "pool_block b"
  shows "cache_wf (cache_insert k b c)"
    and "cache_holds (cache_insert k b c) k' b' \<longleftrightarrow> cache_holds c k' b' \<or> (k' = k \<and> b' = b)"
proof -
  have "cache_wf (cache_insert k b c) \<and>
    (cache_holds (cache_insert k b c) k' b' \<longleftrightarrow> cache_holds c k' b' \<or> (k' = k \<and> b' = b))"
  proof (cases "map_of c k")
    case None
    then show ?thesis
      using wf b by (auto simp: cache_insert_def cache_wf_update cache_holds_def update_conv')
  next
    case (Some v)
    then have v: "value_wf v" using wf by (auto simp: cache_wf_def)
    define d where "d = (case v of One_Block a \<Rightarrow> [(block_id a, a)] | Block_Dict d \<Rightarrow> d)"
    have d: "value_wf (Block_Dict d)" "set (map snd d) = set (entries v)"
      using v by (cases v; simp add: d_def)+
    have ins: "cache_insert k b c = AList.update k (Block_Dict (AList.update (block_id b) b d)) c"
      using Some by (cases v) (simp_all add: cache_insert_def d_def)
    show ?thesis
      using value_wf_update [OF d(1) b] d(2) Some wf
      by (auto simp: ins cache_wf_update cache_holds_def update_conv' simp del: value_wf.simps)
  qed
  then show "cache_wf (cache_insert k b c)"
    and "cache_holds (cache_insert k b c) k' b' \<longleftrightarrow> cache_holds c k' b' \<or> (k' = k \<and> b' = b)"
    by blast+
qed

lemma value_wf_dict_delete:
  "value_wf (Block_Dict d) \<Longrightarrow> AList.delete i d \<noteq> [] \<Longrightarrow> value_wf (Block_Dict (AList.delete i d))"
  by (auto simp: distinct_delete dest: in_set_delete)

lemma cache_pop_spec:
  assumes wf: "cache_wf c" and b: "pool_block b"
  shows "cache_wf (snd (cache_pop k (block_id b) c))
    \<and> (cache_holds (snd (cache_pop k (block_id b) c)) k' b'
         \<longleftrightarrow> cache_holds c k' b' \<and> \<not> (k' = k \<and> b' = b))
    \<and> fst (cache_pop k (block_id b) c) = (if cache_holds c k b then Some b else None)"
proof (cases "map_of c k")
  case None
  then show ?thesis
    using wf by (auto simp: cache_pop_def Let_def cache_wf_delete cache_holds_def delete_conv')
next
  case (Some v)
  then have v: "value_wf v" using wf by (auto simp: cache_wf_def)
  show ?thesis
  proof (cases v)
    case (One_Block a)
    then show ?thesis
      using Some wf v block_id_inject [OF _ b, of a]
      by (auto simp: cache_pop_def Let_def cache_wf_delete cache_wf_update cache_holds_def
          delete_conv' update_conv')
  next
    case (Block_Dict d)
    let ?d = "AList.delete (block_id b) d"
    have pop: "cache_pop k (block_id b) c = (map_of d (block_id b),
        if ?d = [] then AList.delete k c else AList.update k (Block_Dict ?d) (AList.delete k c))"
      using Some Block_Dict by (simp add: cache_pop_def Let_def)
    have ents: "set (map snd ?d) = set (map snd d) - {b}"
      "map_of d (block_id b) = (if b \<in> set (map snd d) then Some b else None)"
      using dict_delete_entries [OF _ b] v Block_Dict by auto
    have holds: "cache_holds c k x \<longleftrightarrow> x \<in> set (map snd d)" for x
      using Some Block_Dict by (simp add: cache_holds_def)
    have wf': "cache_wf (snd (cache_pop k (block_id b) c))"
      using wf v Block_Dict value_wf_dict_delete [of d "block_id b"]
      by (simp add: pop cache_wf_delete cache_wf_update del: value_wf.simps)
    have "cache_holds (snd (cache_pop k (block_id b) c)) k' b'
         \<longleftrightarrow> cache_holds c k' b' \<and> \<not> (k' = k \<and> b' = b)"
    proof (cases "k' = k")
      case True
      have "?d = [] \<Longrightarrow> set (map snd d) - {b} = {}" using ents(1) by simp
      with True holds [of b'] ents(1) show ?thesis by (auto simp: pop)
    next
      case False
      then show ?thesis by (simp add: pop)
    qed
    with wf' holds [of b] ents(2) show ?thesis by (simp add: pop)
  qed
qed

lemma get_one_block_spec:
  assumes "cache_wf c"
  shows "\<exists>r. get_one_block k c = Inr r
    \<and> (case r of None \<Rightarrow> \<forall>b. \<not> cache_holds c k b | Some b \<Rightarrow> cache_holds c k b)"
proof (cases "map_of c k")
  case None
  then show ?thesis by (simp add: get_one_block_def cache_holds_def)
next
  case (Some v)
  then have "value_wf v" using assms by (auto simp: cache_wf_def)
  with Some show ?thesis
    by (cases v) (auto simp: get_one_block_def cache_holds_def neq_Nil_conv)
qed

interpretation bhm: hash_index cache_wf cache_holds cache_insert
  "\<lambda>k b. cache_pop k (block_id b)" get_one_block pool_block
proof unfold_locales
  fix c k b
  show "\<exists>r. get_one_block k c = Inr r" if "cache_wf c"
    using get_one_block_spec [OF that] by blast
  show "cache_holds c k b" if "cache_wf c" "get_one_block k c = Inr (Some b)"
    using get_one_block_spec [OF that(1), of k] that(2) by auto
  show "\<not> cache_holds c k b" if "cache_wf c" "get_one_block k c = Inr None"
    using get_one_block_spec [OF that(1), of k] that(2) by auto
qed (use cache_insert_spec cache_pop_spec in blast)+

subsection \<open>The pool invariant\<close>

abbreviation refs :: "block_pool \<Rightarrow> block_ref \<Rightarrow> int" where
  "refs p b \<equiv> ref_cnt (pool_store p b)"

abbreviation hash_of :: "block_pool \<Rightarrow> block_ref \<Rightarrow> bytes option" where
  "hash_of p b \<equiv> block_hash (pool_store p b)"

text \<open>
  \<open>pool_part p xs ys\<close>: \<open>xs\<close> is the free list in eviction order and \<open>ys\<close> are blocks that have been
  taken off it but not yet handed out. The free and pending blocks are exactly the unreferenced
  blocks other than the null block; the cache files a block under a key exactly when the block
  carries that key; only real, non-null blocks carry keys.
\<close>

definition pool_part :: "block_pool \<Rightarrow> block_ref list \<Rightarrow> block_ref list \<Rightarrow> bool" where
  "pool_part p xs ys \<longleftrightarrow>
     dll (free_block_queue p) xs \<and> distinct (xs @ ys)
     \<and> 0 < num_gpu_blocks p \<and> blocks p = map Blk [0..<nat (num_gpu_blocks p)] \<and> null_block p = Blk 0
     \<and> (\<forall>b. is_null (pool_store p b) \<longleftrightarrow> b = Blk 0)
     \<and> (\<forall>b. b \<in> set xs \<union> set ys \<longleftrightarrow> b \<in> set (blocks p) \<and> b \<noteq> Blk 0 \<and> refs p b = 0)
     \<and> (\<forall>b. b \<noteq> Blk 0 \<longrightarrow> 0 \<le> refs p b)
     \<and> cache_wf (cached_block_hash_to_block p)
     \<and> (\<forall>k b. cache_holds (cached_block_hash_to_block p) k b \<longleftrightarrow> hash_of p b = Some k)
     \<and> (\<forall>b. hash_of p b \<noteq> None \<longrightarrow> b \<in> set (blocks p) \<and> b \<noteq> Blk 0)"

abbreviation pool_ok :: "block_pool \<Rightarrow> block_ref list \<Rightarrow> bool" where
  "pool_ok p xs \<equiv> pool_part p xs []"

definition same_config :: "block_pool \<Rightarrow> block_pool \<Rightarrow> bool" where
  "same_config p p' \<longleftrightarrow>
     num_gpu_blocks p' = num_gpu_blocks p \<and> enable_caching p' = enable_caching p
     \<and> hash_block_size p' = hash_block_size p \<and> blocks p' = blocks p \<and> null_block p' = null_block p
     \<and> enable_kv_cache_events p' = enable_kv_cache_events p
     \<and> use_int_block_hashes p' = use_int_block_hashes p"

lemma same_config_refl [simp]: "same_config p p"
  by (simp add: same_config_def)

lemma same_config_trans: "same_config p q \<Longrightarrow> same_config q r \<Longrightarrow> same_config p r"
  by (simp add: same_config_def)

lemma dll_same_links:
  assumes "\<And>r. prev_free_block (store q' r) = prev_free_block (store q r)
                \<and> next_free_block (store q' r) = next_free_block (store q r)"
    and "num_free_blocks q' = num_free_blocks q"
  shows "dll q' xs = dll q xs"
proof -
  have "linked (store q') rs = linked (store q) rs" for rs
    by (rule linked_cong) (simp_all add: assms)
  then show ?thesis by (simp add: dll_def assms)
qed

lemma set_store_simps [simp]:
  "pool_store (set_store s p) = s"
  "num_free_blocks (free_block_queue (set_store s p)) = num_free_blocks (free_block_queue p)"
  "cached_block_hash_to_block (set_store s p) = cached_block_hash_to_block p"
  "enable_caching (set_store s p) = enable_caching p"
  "enable_kv_cache_events (set_store s p) = enable_kv_cache_events p"
  "same_config q (set_store s p) = same_config q p"
  "num_gpu_blocks (set_store s p) = num_gpu_blocks p" "blocks (set_store s p) = blocks p"
  "null_block (set_store s p) = null_block p"
  by (simp_all add: set_store_def same_config_def)

lemma add_ref_simps [simp]:
  "refs (add_ref b k p) x = refs p x + (if x = b then k else 0)"
  "hash_of (add_ref b k p) x = hash_of p x"
  "is_null (pool_store (add_ref b k p) x) = is_null (pool_store p x)"
  "dll (free_block_queue (add_ref b k p)) xs = dll (free_block_queue p) xs"
  "cached_block_hash_to_block (add_ref b k p) = cached_block_hash_to_block p"
  "same_config q (add_ref b k p) = same_config q p"
  "num_gpu_blocks (add_ref b k p) = num_gpu_blocks p" "blocks (add_ref b k p) = blocks p"
  "null_block (add_ref b k p) = null_block p"
  by (simp_all add: add_ref_def) (rule dll_same_links, simp_all)

lemma with_collector_simps [simp]:
  "free_block_queue (with_collector f p) = free_block_queue p"
  "cached_block_hash_to_block (with_collector f p) = cached_block_hash_to_block p"
  "same_config q (with_collector f p) = same_config q p"
  "enable_kv_cache_events (with_collector f p) = enable_kv_cache_events p"
  "pool_part (with_collector f p) xs ys = pool_part p xs ys"
  by (simp_all add: with_collector_def same_config_def pool_part_def)

lemma same_config_updates [simp]:
  "same_config p (q\<lparr>free_block_queue := x\<rparr>) = same_config p q"
  "same_config p (q\<lparr>cached_block_hash_to_block := c\<rparr>) = same_config p q"
  "same_config p (q\<lparr>kv_event_queue := e\<rparr>) = same_config p q"
  "pool_part (q\<lparr>kv_event_queue := e\<rparr>) xs ys = pool_part q xs ys"
  by (simp_all add: same_config_def pool_part_def)

lemma same_config_left [simp]:
  "same_config (q\<lparr>free_block_queue := x\<rparr>) p = same_config q p"
  by (simp add: same_config_def)

lemma pool_partD:
  assumes "pool_part p xs ys"
  shows "dll (free_block_queue p) xs" and "distinct (xs @ ys)"
    and "is_null (pool_store p b) \<longleftrightarrow> b = Blk 0"
    and "b \<in> set xs \<union> set ys \<longleftrightarrow> b \<in> set (blocks p) \<and> b \<noteq> Blk 0 \<and> refs p b = 0"
    and "b \<noteq> Blk 0 \<Longrightarrow> 0 \<le> refs p b"
    and "cache_wf (cached_block_hash_to_block p)"
    and "cache_holds (cached_block_hash_to_block p) k b \<longleftrightarrow> hash_of p b = Some k"
    and "hash_of p b = Some k \<Longrightarrow> b \<in> set (blocks p) \<and> b \<noteq> Blk 0"
    and "b \<in> set (blocks p) \<Longrightarrow> b \<notin> sentinels"
    and "get_num_free_blocks p = int (length xs)"
  using assms by (auto simp: pool_part_def sentinels_def get_num_free_blocks_def dllD(5))

text \<open>What a pool operation leaves alone, apart from the fields it is about.\<close>

lemma pool_part_cong:
  assumes "pool_part p xs ys" and "same_config p p'"
    and "dll (free_block_queue p') xs'" and "distinct (xs' @ ys')"
    and "\<And>b. is_null (pool_store p' b) = is_null (pool_store p b)"
    and "\<And>b. b \<in> set xs' \<union> set ys' \<longleftrightarrow> b \<in> set (blocks p) \<and> b \<noteq> Blk 0 \<and> refs p' b = 0"
    and "\<And>b. b \<noteq> Blk 0 \<Longrightarrow> 0 \<le> refs p' b"
    and "\<And>b. hash_of p' b = hash_of p b"
    and "cached_block_hash_to_block p' = cached_block_hash_to_block p"
  shows "pool_part p' xs' ys'"
proof -
  have same: "blocks p' = blocks p" "num_gpu_blocks p' = num_gpu_blocks p" "null_block p' = null_block p"
    using assms(2) by (simp_all add: same_config_def)
  show ?thesis
    using assms(1) unfolding pool_part_def same assms(5,8,9) using assms(3,4,6,7) by blast
qed

lemma evict_spec:
  assumes ok: "pool_part p xs ys" and ev: "maybe_evict_cached_block b p = (r, p')"
  shows "pool_part p' xs ys \<and> same_config p p' \<and> (r \<longleftrightarrow> hash_of p b \<noteq> None)
    \<and> (\<forall>x. refs p' x = refs p x) \<and> (\<forall>x. hash_of p' x = (if x = b then None else hash_of p x))"
proof (cases "hash_of p b")
  case None
  then have p': "p' = with_collector (on_block_evicted b) p" and "\<not> r"
    using ev by (auto simp: maybe_evict_cached_block_def Let_def)
  then show ?thesis using ok None by (auto simp: same_config_def with_collector_def pool_part_def)
next
  case (Some key)
  define p1 where "p1 = with_collector (on_block_evicted b) p"
  have ok1: "pool_part p1 xs ys" and st: "pool_store p1 = pool_store p" using ok by (simp_all add: p1_def)
  let ?c = "cached_block_hash_to_block p1"
  have b: "b \<in> set (blocks p)" "b \<noteq> Blk 0" "pool_block b"
    using pool_partD(8,9) [OF ok] Some by (auto simp: pool_block_def)
  note wf = pool_partD(6) [OF ok1]
  have held: "cache_holds ?c key b" using pool_partD(7) [OF ok1] Some st by simp
  obtain cache where pop: "cache_pop key (block_id b) ?c = (Some b, cache)"
    using bhm.drop_result [OF wf b(3), of key] held by (cases "cache_pop key (block_id b) ?c") auto
  have wf': "cache_wf cache" using bhm.drop_wf [OF wf b(3), of key] pop by simp
  have holds': "cache_holds cache k x \<longleftrightarrow> cache_holds ?c k x \<and> \<not> (k = key \<and> x = b)" for k x
    using bhm.drop_holds [OF wf b(3), of key] pop by simp
  define p2 where "p2 = set_store (reset_hash b (pool_store p1)) (p1\<lparr>cached_block_hash_to_block := cache\<rparr>)"
  have res: "r" "\<exists>ev. p' = p2\<lparr>kv_event_queue := ev\<rparr>"
  proof -
    have "(r, p') = (True, if enable_kv_cache_events p2
        then p2\<lparr>kv_event_queue := kv_event_queue p2 @
               [BlockRemoved [maybe_convert_block_hash (use_int_block_hashes p2) (get_block_hash key)]]\<rparr>
        else p2)"
      using ev Some pop st unfolding maybe_evict_cached_block_def Let_def p1_def [symmetric] p2_def
      by (auto split: if_splits)
    moreover have "p2 = p2\<lparr>kv_event_queue := kv_event_queue p2\<rparr>" by simp
    ultimately show "r" "\<exists>ev. p' = p2\<lparr>kv_event_queue := ev\<rparr>" by (metis prod.inject)+
  qed
  have links: "dll (free_block_queue p2) zs = dll (free_block_queue p) zs" for zs
    by (rule dll_same_links) (simp_all add: p2_def p1_def set_store_def reset_hash_def)
  have data: "refs p2 x = refs p x" "hash_of p2 x = (if x = b then None else hash_of p x)"
    "is_null (pool_store p2 x) = is_null (pool_store p x)" for x
    by (simp_all add: p2_def reset_hash_def st)
  have cache2: "cached_block_hash_to_block p2 = cache" by (simp add: p2_def)
  have conf: "same_config p p2"
    by (simp add: p2_def p1_def)
  have same: "blocks p2 = blocks p" "num_gpu_blocks p2 = num_gpu_blocks p" "null_block p2 = null_block p"
    using conf by (simp_all add: same_config_def)
  have "cache_holds cache k x \<longleftrightarrow> hash_of p2 x = Some k" for k x
    using holds' [of k x] pool_partD(7) [OF ok1, of k x] st Some data(2) [of x] by auto
  then have "pool_part p2 xs ys"
    using ok wf' unfolding pool_part_def links data same cache2 by auto
  moreover obtain ev where "p' = p2\<lparr>kv_event_queue := ev\<rparr>" using res(2) by blast
  ultimately show ?thesis using res(1) conf data Some by simp
qed

lemma take_new_block_spec:
  assumes ok: "pool_part p xs (b # ys)"
  shows "\<exists>p'. take_new_block b p = Inr p' \<and> pool_part p' xs ys \<and> same_config p p'
    \<and> (\<forall>x. refs p' x = (if x = b then 1 else refs p x))
    \<and> (\<forall>x. hash_of p' x = (if x = b \<and> enable_caching p then None else hash_of p x))"
proof -
  define p1 where "p1 = (if enable_caching p then snd (maybe_evict_cached_block b p) else p)"
  have p1: "pool_part p1 xs (b # ys)" "same_config p p1" "\<And>x. refs p1 x = refs p x"
    "\<And>x. hash_of p1 x = (if x = b \<and> enable_caching p then None else hash_of p x)"
    using ok evict_spec [OF ok, of b "fst (maybe_evict_cached_block b p)"
        "snd (maybe_evict_cached_block b p)"] by (auto simp: p1_def)
  have b: "refs p1 b = 0" "b \<noteq> Blk 0" using pool_partD(4) [OF p1(1), of b] by auto
  let ?p' = "with_collector (on_block_allocated b) (add_ref b 1 p1)"
  have "pool_part (add_ref b 1 p1) xs ys"
  proof (rule pool_part_cong [OF p1(1)])
    show "x \<in> set xs \<union> set ys \<longleftrightarrow> x \<in> set (blocks p1) \<and> x \<noteq> Blk 0 \<and> refs (add_ref b 1 p1) x = 0" for x
      using pool_partD(4) [OF p1(1), of x] pool_partD(2) [OF p1(1)] b by auto
    show "0 \<le> refs (add_ref b 1 p1) x" if "x \<noteq> Blk 0" for x
      using pool_partD(5) [OF p1(1) that] by auto
  qed (use pool_partD(1,2) [OF p1(1)] in \<open>simp_all\<close>)
  moreover have "take_new_block b p = Inr ?p'"
    using b(1) by (simp add: take_new_block_def p1_def [symmetric] Let_def)
  ultimately show ?thesis
    using p1 b by (intro exI [of _ ?p']) simp
qed

lemma take_new_blocks_spec:
  "pool_part p xs ys \<Longrightarrow> \<exists>p'. foldR take_new_block ys p = Inr p' \<and> pool_ok p' xs \<and> same_config p p'
    \<and> (\<forall>x. refs p' x = (if x \<in> set ys then 1 else refs p x))
    \<and> (\<forall>x. hash_of p' x = (if x \<in> set ys \<and> enable_caching p then None else hash_of p x))"
proof (induction ys arbitrary: p)
  case Nil
  then show ?case by simp
next
  case (Cons b ys)
  obtain p1 where p1: "take_new_block b p = Inr p1" "pool_part p1 xs ys" "same_config p p1"
    "\<And>x. refs p1 x = (if x = b then 1 else refs p x)"
    "\<And>x. hash_of p1 x = (if x = b \<and> enable_caching p then None else hash_of p x)"
    using take_new_block_spec [OF Cons.prems] by blast
  have caching: "enable_caching p1 = enable_caching p" using p1(3) by (simp add: same_config_def)
  obtain p' where p': "foldR take_new_block ys p1 = Inr p'" "pool_ok p' xs" "same_config p1 p'"
    "\<forall>x. refs p' x = (if x \<in> set ys then 1 else refs p1 x)"
    "\<forall>x. hash_of p' x = (if x \<in> set ys \<and> enable_caching p1 then None else hash_of p1 x)"
    using Cons.IH [OF p1(2)] by blast
  show ?case
    using p1(1) p'(1,2) same_config_trans [OF p1(3) p'(3)] p'(4,5) p1(4,5) caching
    by (intro exI [of _ p']) auto
qed

lemma get_new_blocks_spec:
  assumes ok: "pool_ok p xs" and n: "n \<le> length xs"
  shows "\<exists>p'. get_new_blocks (int n) p = Inr (take n xs, p') \<and> pool_ok p' (drop n xs)
    \<and> same_config p p'
    \<and> (\<forall>x. refs p' x = (if x \<in> set (take n xs) then 1 else refs p x))
    \<and> (\<forall>x. hash_of p' x = (if x \<in> set (take n xs) \<and> enable_caching p then None else hash_of p x))"
proof -
  obtain q where q: "popleft_n (int n) (free_block_queue p) = Inr (take n xs, q)" "dll q (drop n xs)"
    "same_data (pool_store p) (store q)"
    using popleft_n_refines [OF pool_partD(1) [OF ok] n] by blast
  let ?p = "p\<lparr>free_block_queue := q\<rparr>"
  have data: "refs ?p x = refs p x" "hash_of ?p x = hash_of p x"
    "is_null (pool_store ?p x) = is_null (pool_store p x)" for x
    using q(3) by (simp_all add: same_data_def)
  have dx: "distinct xs" using pool_partD(2) [OF ok] by simp
  have part: "pool_part ?p (drop n xs) (take n xs)"
  proof (rule pool_part_cong [OF ok])
    show "distinct (drop n xs @ take n xs)"
      using dx by (metis append_take_drop_id distinct_append inf_commute)
    show "b \<in> set (drop n xs) \<union> set (take n xs) \<longleftrightarrow> b \<in> set (blocks p) \<and> b \<noteq> Blk 0 \<and> refs ?p b = 0" for b
    proof -
      have "set (drop n xs) \<union> set (take n xs) = set xs"
        by (metis Un_commute append_take_drop_id set_append)
      then show ?thesis using pool_partD(4) [OF ok, of b] data by simp
    qed
  qed (use q(2) data pool_partD(5) [OF ok] in \<open>simp_all\<close>)
  obtain p' where "foldR take_new_block (take n xs) ?p = Inr p'" "pool_ok p' (drop n xs)"
    "same_config ?p p'" "\<forall>x. refs p' x = (if x \<in> set (take n xs) then 1 else refs ?p x)"
    "\<forall>x. hash_of p' x = (if x \<in> set (take n xs) \<and> enable_caching ?p then None else hash_of ?p x)"
    using take_new_blocks_spec [OF part] by blast
  moreover have "int n \<le> get_num_free_blocks p" using n pool_partD(10) [OF ok] by simp
  ultimately show ?thesis
    using q(1) data unfolding get_new_blocks_def by simp
qed

lemma get_new_blocks_too_many:
  "pool_ok p xs \<Longrightarrow> int (length xs) < n \<Longrightarrow> get_new_blocks n p = Inl ValueError"
  using pool_partD(10) by (simp add: get_new_blocks_def)

lemma touch_block_spec:
  assumes ok: "pool_ok p xs" and b: "b \<in> set (blocks p)"
  shows "\<exists>p'. touch_block b p = Inr p' \<and> pool_ok p' (remove1 b xs) \<and> same_config p p'
    \<and> (\<forall>x. refs p' x = refs p x + (if x = b then 1 else 0)) \<and> (\<forall>x. hash_of p' x = hash_of p x)"
proof -
  have dx: "distinct xs" using pool_partD(2) [OF ok] by simp
  have mem: "b \<in> set xs \<longleftrightarrow> refs p b = 0 \<and> \<not> is_null (pool_store p b)"
    using pool_partD(3,4) [OF ok, of b] b by auto
  have "\<exists>q. (if b \<in> set xs then remove b (free_block_queue p) else Inr (free_block_queue p)) = Inr q
      \<and> dll q (remove1 b xs) \<and> same_data (pool_store p) (store q)"
    using remove_refines [OF pool_partD(1) [OF ok], of b] pool_partD(1) [OF ok]
    by (cases "b \<in> set xs") (auto simp: remove1_idem)
  then obtain q where q: "(if b \<in> set xs then remove b (free_block_queue p)
        else Inr (free_block_queue p)) = Inr q" "dll q (remove1 b xs)"
      "same_data (pool_store p) (store q)" by blast
  let ?p = "p\<lparr>free_block_queue := q\<rparr>"
  let ?p' = "with_collector (on_block_accessed b) (add_ref b 1 ?p)"
  have data: "refs ?p x = refs p x" "hash_of ?p x = hash_of p x"
    "is_null (pool_store ?p x) = is_null (pool_store p x)" for x
    using q(3) by (simp_all add: same_data_def)
  have "pool_ok (add_ref b 1 ?p) (remove1 b xs)"
  proof (rule pool_part_cong [OF ok])
    show "x \<in> set (remove1 b xs) \<union> set [] \<longleftrightarrow>
        x \<in> set (blocks p) \<and> x \<noteq> Blk 0 \<and> refs (add_ref b 1 ?p) x = 0" for x
      using pool_partD(4) [OF ok, of x] pool_partD(5) [OF ok, of x] dx data by (auto simp: set_remove1_eq)
    show "0 \<le> refs (add_ref b 1 ?p) x" if "x \<noteq> Blk 0" for x
      using pool_partD(5) [OF ok that] data by auto
  qed (use q(2) data dx in \<open>simp_all\<close>)
  moreover have "touch_block b p = Inr ?p'"
  proof (cases "b \<in> set xs")
    case True
    then show ?thesis using q(1) mem by (simp add: touch_block_def)
  next
    case False
    then have "q = free_block_queue p" using q(1) by simp
    with False show ?thesis using mem by (auto simp: touch_block_def)
  qed
  ultimately show ?thesis
    using data by (intro exI [of _ ?p']) simp
qed

text \<open>Touching may meet the same block twice, and the null block.\<close>

lemma touch_spec:
  "pool_ok p xs \<Longrightarrow> set bs \<subseteq> set (blocks p) \<Longrightarrow>
   \<exists>p'. touch bs p = Inr p' \<and> pool_ok p' (filter (\<lambda>x. x \<notin> set bs) xs) \<and> same_config p p'
    \<and> (\<forall>x. refs p' x = refs p x + int (count_list bs x)) \<and> (\<forall>x. hash_of p' x = hash_of p x)"
proof (induction bs arbitrary: p xs)
  case Nil
  then show ?case by (simp add: touch_def)
next
  case (Cons b bs)
  have dx: "distinct xs" using pool_partD(2) [OF Cons.prems(1)] by simp
  obtain p1 where p1: "touch_block b p = Inr p1" "pool_ok p1 (remove1 b xs)" "same_config p p1"
    "\<And>x. refs p1 x = refs p x + (if x = b then 1 else 0)" "\<And>x. hash_of p1 x = hash_of p x"
    using touch_block_spec [OF Cons.prems(1), of b] Cons.prems(2) by auto
  have "set bs \<subseteq> set (blocks p1)" using Cons.prems(2) p1(3) by (simp add: same_config_def)
  then obtain p' where p': "touch bs p1 = Inr p'" "pool_ok p' (filter (\<lambda>x. x \<notin> set bs) (remove1 b xs))"
    "same_config p1 p'" "\<forall>x. refs p' x = refs p1 x + int (count_list bs x)"
    "\<forall>x. hash_of p' x = hash_of p1 x"
    using Cons.IH [OF p1(2)] by blast
  have "filter (\<lambda>x. x \<notin> set bs) (remove1 b xs) = filter (\<lambda>x. x \<notin> set (b # bs)) xs"
    using dx by (simp add: filter_distinct_remove1 conj_commute)
  then show ?case
    using p1 p' same_config_trans [OF p1(3) p'(3)] by (intro exI [of _ p']) (simp add: touch_def)
qed

lemma fold_add_ref:
  "refs (fold (\<lambda>b. add_ref b (- 1)) bs p) x = refs p x - int (count_list bs x)"
  "hash_of (fold (\<lambda>b. add_ref b (- 1)) bs p) x = hash_of p x"
  "is_null (pool_store (fold (\<lambda>b. add_ref b (- 1)) bs p) x) = is_null (pool_store p x)"
  "dll (free_block_queue (fold (\<lambda>b. add_ref b (- 1)) bs p)) xs = dll (free_block_queue p) xs"
  "cached_block_hash_to_block (fold (\<lambda>b. add_ref b (- 1)) bs p) = cached_block_hash_to_block p"
  "same_config q (fold (\<lambda>b. add_ref b (- 1)) bs p) = same_config q p"
  by (induction bs arbitrary: p) auto

lemma free_blocks_spec:
  assumes ok: "pool_ok p xs" and bs: "set bs \<subseteq> set (blocks p)"
    and held: "\<And>b. b \<in> set bs \<Longrightarrow> b \<noteq> Blk 0 \<Longrightarrow> 1 \<le> refs p b"
    and d: "distinct (filter (\<lambda>b. b \<noteq> Blk 0) bs)"
  shows "\<exists>p'. free_blocks bs p = Inr p'
    \<and> pool_ok p' (xs @ filter (\<lambda>b. b \<noteq> Blk 0 \<and> refs p b = 1) bs) \<and> same_config p p'
    \<and> (\<forall>x. refs p' x = refs p x - int (count_list bs x)) \<and> (\<forall>x. hash_of p' x = hash_of p x)"
proof -
  define p1 where "p1 = fold (\<lambda>b. add_ref b (- 1)) bs p"
  have once: "count_list bs x = (if x \<in> set bs then 1 else 0)" if "x \<noteq> Blk 0" for x
    using d that by (induction bs) (auto split: if_splits)
  note p1 = fold_add_ref [where bs = bs and p = p, folded p1_def]
  let ?ys = "filter (\<lambda>b. b \<noteq> Blk 0 \<and> refs p b = 1) bs"
  have null: "is_null (pool_store p1 b) \<longleftrightarrow> b = Blk 0" for b
    using pool_partD(3) [OF ok] by (simp add: p1)
  have ys: "filter (\<lambda>b. refs p1 b = 0 \<and> \<not> is_null (pool_store p1 b)) bs = ?ys"
  proof (rule filter_cong [OF refl])
    fix b assume "b \<in> set bs"
    then show "refs p1 b = 0 \<and> \<not> is_null (pool_store p1 b) \<longleftrightarrow> b \<noteq> Blk 0 \<and> refs p b = 1"
      using once [of b] null [of b] by (auto simp: p1(1))
  qed
  have "b \<notin> set xs" if "refs p b = 1" for b
    using pool_partD(4) [OF ok, of b] that by simp
  then have disj: "set ?ys \<inter> set xs = {}" by auto
  have dys: "distinct ?ys"
    using distinct_filter [OF d, of "\<lambda>b. refs p b = 1"] by (simp add: conj_commute)
  have "set ?ys \<inter> sentinels = {}" using pool_partD(9) [OF ok] bs by auto
  with disj dys obtain q where q: "append_n ?ys (free_block_queue p1) = Inr q" "dll q (xs @ ?ys)"
    "same_data (pool_store p1) (store q)"
    using append_n_refines [of "free_block_queue p1" xs ?ys] pool_partD(1) [OF ok] p1(4) by blast
  let ?p' = "p1\<lparr>free_block_queue := q\<rparr>"
  have data: "refs ?p' x = refs p x - int (count_list bs x)" "hash_of ?p' x = hash_of p x"
    "is_null (pool_store ?p' x) = is_null (pool_store p x)" for x
    using q(3) p1 by (simp_all add: same_data_def)
  have "pool_ok ?p' (xs @ ?ys)"
  proof (rule pool_part_cong [OF ok])
    show "x \<in> set (xs @ ?ys) \<union> set [] \<longleftrightarrow> x \<in> set (blocks p) \<and> x \<noteq> Blk 0 \<and> refs ?p' x = 0" for x
      using pool_partD(4) [OF ok, of x] once [of x] bs held [of x] unfolding data
      by (cases "x = Blk 0"; cases "x \<in> set bs") auto
    show "0 \<le> refs ?p' x" if "x \<noteq> Blk 0" for x
      using pool_partD(5) [OF ok that] once [OF that] held [of x] that unfolding data by auto
    show "distinct ((xs @ ?ys) @ [])" using pool_partD(2) [OF ok] dys disj by auto
  qed (use q(2) p1 data in \<open>simp_all\<close>)
  moreover have "free_blocks bs p = Inr ?p'"
    using q(1) ys by (simp add: free_blocks_def Let_def p1_def [symmetric])
  ultimately show ?thesis using data p1 by (intro exI [of _ ?p']) simp
qed

lemma evict_blocks_spec:
  "pool_ok p xs \<Longrightarrow> \<forall>i \<in> set ids. 0 \<le> i \<and> i < num_gpu_blocks p \<Longrightarrow>
   \<exists>p'. evict_blocks ids p = Inr p' \<and> pool_ok p' xs \<and> same_config p p' \<and> (\<forall>x. refs p' x = refs p x)
    \<and> (\<forall>x. hash_of p' x = (if block_id x \<in> set ids \<and> pool_block x then None else hash_of p x))"
proof (induction ids arbitrary: p)
  case Nil
  then show ?case by (simp add: evict_blocks_def)
next
  case (Cons i ids)
  have i: "0 \<le> i" "i < num_gpu_blocks p" using Cons.prems(2) by auto
  let ?b = "Blk (nat i)"
  have bl: "blocks p = map Blk [0..<nat (num_gpu_blocks p)]" using Cons.prems(1) by (simp add: pool_part_def)
  obtain r p1 where ev: "maybe_evict_cached_block ?b p = (r, p1)" by (cases "maybe_evict_cached_block ?b p")
  note p1 = evict_spec [OF Cons.prems(1) ev]
  have step: "evict_block i p = Inr p1"
    using i bl ev by (simp add: evict_block_def)
  have same: "num_gpu_blocks p1 = num_gpu_blocks p" using p1 by (simp add: same_config_def)
  have prem: "\<forall>i \<in> set ids. 0 \<le> i \<and> i < num_gpu_blocks p1" using Cons.prems(2) same by simp
  obtain p' where p': "evict_blocks ids p1 = Inr p'" "pool_ok p' xs" "same_config p1 p'"
    "\<forall>x. refs p' x = refs p1 x"
    "\<forall>x. hash_of p' x = (if block_id x \<in> set ids \<and> pool_block x then None else hash_of p1 x)"
    using Cons.IH [OF p1 [THEN conjunct1] prem] by blast
  have "x = ?b \<longleftrightarrow> block_id x = i \<and> pool_block x" for x
    using i by (cases x) (auto simp: pool_block_def sentinels_def)
  then show ?case
    using step p' p1 same_config_trans [of p p1 p'] by (intro exI [of _ p']) (auto simp: evict_blocks_def)
qed

lemma fold_reset_hash:
  "fold reset_hash bs s x = (if x \<in> set bs then (s x)\<lparr>block_hash := None\<rparr> else s x)"
  by (induction bs arbitrary: s) (auto simp: reset_hash_def)

lemma reset_prefix_cache_spec:
  assumes ok: "pool_ok p xs"
  shows "fst (reset_prefix_cache p) \<longleftrightarrow> (\<forall>b \<in> set (blocks p). b \<noteq> Blk 0 \<longrightarrow> refs p b = 0)"
    and "pool_ok (snd (reset_prefix_cache p)) xs" and "same_config p (snd (reset_prefix_cache p))"
    and "refs (snd (reset_prefix_cache p)) b = refs p b"
    and "fst (reset_prefix_cache p) \<Longrightarrow> hash_of (snd (reset_prefix_cache p)) b = None"
proof -
  have bl: "blocks p = map Blk [0..<nat (num_gpu_blocks p)]" and n: "0 < num_gpu_blocks p"
    using ok by (auto simp: pool_part_def)
  have "card (set (blocks p) - {Blk 0}) = nat (num_gpu_blocks p) - 1"
    using n by (simp add: bl card_image inj_on_def card_Diff_singleton)
  moreover have sub: "set xs \<subseteq> set (blocks p) - {Blk 0}" using pool_partD(4) [OF ok] by auto
  moreover have "length xs = card (set xs)" using pool_partD(2) [OF ok] by (simp add: distinct_card)
  ultimately have eq: "length xs = nat (num_gpu_blocks p) - 1 \<longleftrightarrow> set xs = set (blocks p) - {Blk 0}"
    by (metis List.finite_set card_subset_eq finite_Diff)
  have all_free: "num_gpu_blocks p - get_num_free_blocks p = 1 \<longleftrightarrow>
      (\<forall>b \<in> set (blocks p). b \<noteq> Blk 0 \<longrightarrow> refs p b = 0)"
  proof -
    have "num_gpu_blocks p - get_num_free_blocks p = 1 \<longleftrightarrow> length xs = nat (num_gpu_blocks p) - 1"
      using pool_partD(10) [OF ok] n by linarith
    also have "\<dots> \<longleftrightarrow> set (blocks p) - {Blk 0} \<subseteq> set xs" using eq sub by blast
    also have "\<dots> \<longleftrightarrow> (\<forall>b \<in> set (blocks p). b \<noteq> Blk 0 \<longrightarrow> refs p b = 0)"
      using pool_partD(4) [OF ok] by auto
    finally show ?thesis .
  qed
  then show "fst (reset_prefix_cache p) \<longleftrightarrow> (\<forall>b \<in> set (blocks p). b \<noteq> Blk 0 \<longrightarrow> refs p b = 0)"
    unfolding reset_prefix_cache_def Let_def by auto
  define p2 where "p2 = set_store (fold reset_hash (blocks p) (pool_store p)) (p\<lparr>cached_block_hash_to_block := []\<rparr>)"
  have st: "pool_store p2 x = (pool_store p x)\<lparr>block_hash := None\<rparr>" for x
    using pool_partD(8) [OF ok, of x] by (cases "hash_of p x") (auto simp: p2_def fold_reset_hash)
  have links: "dll (free_block_queue p2) zs = dll (free_block_queue p) zs" for zs
    by (rule dll_same_links) (simp_all add: st, simp add: p2_def)
  have conf: "same_config p p2" by (simp add: p2_def)
  have same: "blocks p2 = blocks p" "num_gpu_blocks p2 = num_gpu_blocks p" "null_block p2 = null_block p"
    using conf by (simp_all add: same_config_def)
  have "cached_block_hash_to_block p2 = []" by (simp add: p2_def)
  then have ok2: "pool_ok p2 xs"
    using ok unfolding pool_part_def links same st by (simp add: cache_wf_def cache_holds_def)
  let ?p3 = "with_collector metrics_reset p2"
  have res: "reset_prefix_cache p = (if num_gpu_blocks p - get_num_free_blocks p \<noteq> 1 then (False, p)
      else (True, if enable_kv_cache_events ?p3
        then ?p3\<lparr>kv_event_queue := kv_event_queue ?p3 @ [AllBlocksCleared]\<rparr> else ?p3))"
    by (simp add: reset_prefix_cache_def Let_def p2_def)
  show "pool_ok (snd (reset_prefix_cache p)) xs" "same_config p (snd (reset_prefix_cache p))"
    "refs (snd (reset_prefix_cache p)) b = refs p b"
    using ok ok2 conf by (simp_all add: res st)
  show "hash_of (snd (reset_prefix_cache p)) b = None" if "fst (reset_prefix_cache p)"
    using that by (simp add: res st split: if_splits)
qed

text \<open>Caching: each new full block that is not the null block gets its key and is filed under it.\<close>

lemma cache_one_block:
  assumes ok: "pool_ok p xs" and b: "b \<in> set (blocks p)" "b \<noteq> Blk 0" "hash_of p b = None"
    and s: "set_block_hash b key (pool_store p) = Inr s"
  defines "p1 \<equiv> set_store s p"
  defines "p2 \<equiv> p1\<lparr>cached_block_hash_to_block := cache_insert key b (cached_block_hash_to_block p1)\<rparr>"
  shows "pool_ok p2 xs" and "same_config p p2" and "refs p2 x = refs p x"
    and "hash_of p2 x = (if x = b then Some key else hash_of p x)"
proof -
  have s': "s = (pool_store p)(b := (pool_store p b)\<lparr>block_hash := Some key\<rparr>)"
    using s b(3) by (simp add: set_block_hash_def)
  show conf: "same_config p p2" by (simp add: p2_def p1_def)
  have same: "blocks p2 = blocks p" "num_gpu_blocks p2 = num_gpu_blocks p" "null_block p2 = null_block p"
    using conf by (simp_all add: same_config_def)
  have data: "refs p2 x = refs p x" "hash_of p2 x = (if x = b then Some key else hash_of p x)"
    "is_null (pool_store p2 x) = is_null (pool_store p x)" for x
    by (simp_all add: p2_def p1_def s')
  show "refs p2 x = refs p x" "hash_of p2 x = (if x = b then Some key else hash_of p x)" by (rule data)+
  have links: "dll (free_block_queue p2) zs = dll (free_block_queue p) zs" for zs
    by (rule dll_same_links) (simp_all add: p2_def p1_def s')
  have pb: "pool_block b" using pool_partD(9) [OF ok b(1)] by (simp add: pool_block_def)
  have cache: "cached_block_hash_to_block p2 = cache_insert key b (cached_block_hash_to_block p)"
    by (simp add: p2_def p1_def)
  note wf = pool_partD(6) [OF ok]
  have "cache_holds (cached_block_hash_to_block p2) k x \<longleftrightarrow> hash_of p2 x = Some k" for k x
    using bhm.put_holds [OF wf pb] pool_partD(7) [OF ok] b(3) unfolding cache data(2) by auto
  moreover have "cache_wf (cached_block_hash_to_block p2)"
    unfolding cache by (rule bhm.put_wf [OF wf pb])
  ultimately show "pool_ok p2 xs"
    using ok b unfolding pool_part_def links same data by auto
qed

lemma cache_blocks_loop_spec:
  assumes "g < 2 ^ 32"
  shows "pool_ok p xs \<Longrightarrow> set bs \<subseteq> set (blocks p) \<Longrightarrow> distinct (filter (\<lambda>b. b \<noteq> Blk 0) bs) \<Longrightarrow>
    (\<forall>b \<in> set bs. hash_of p b = None) \<Longrightarrow> i + length bs \<le> length hs \<Longrightarrow>
    \<exists>nh p'. cache_blocks_loop g hs i bs acc p = Inr (nh, p') \<and> pool_ok p' xs \<and> same_config p p'
      \<and> (\<forall>x. refs p' x = refs p x) \<and> (\<forall>x. x \<notin> set bs \<or> x = Blk 0 \<longrightarrow> hash_of p' x = hash_of p x)
      \<and> (\<forall>j<length bs. bs ! j \<noteq> Blk 0 \<longrightarrow> (\<exists>k. hash_of p' (bs ! j) = Some k
            \<and> make_block_hash_with_group_id (hs ! (i + j)) g = Inr k))"
proof (induction bs arbitrary: i acc p)
  case Nil
  then show ?case by simp
next
  case (Cons b bs)
  show ?case
  proof (cases "b = Blk 0")
    case True
    then have null: "is_null (pool_store p b)" using pool_partD(3) [OF Cons.prems(1)] by simp
    have "set bs \<subseteq> set (blocks p)" "distinct (filter (\<lambda>b. b \<noteq> Blk 0) bs)" "\<forall>b \<in> set bs. hash_of p b = None"
      "i + 1 + length bs \<le> length hs"
      using Cons.prems True by simp_all
    then obtain nh p' where IH: "cache_blocks_loop g hs (i + 1) bs acc p = Inr (nh, p')" "pool_ok p' xs"
      "same_config p p'" "\<forall>x. refs p' x = refs p x"
      "\<forall>x. x \<notin> set bs \<or> x = Blk 0 \<longrightarrow> hash_of p' x = hash_of p x"
      "\<forall>j<length bs. bs ! j \<noteq> Blk 0 \<longrightarrow> (\<exists>k. hash_of p' (bs ! j) = Some k
            \<and> make_block_hash_with_group_id (hs ! (i + 1 + j)) g = Inr k)"
      using Cons.IH [OF Cons.prems(1), of "i + 1" acc] by blast
    show ?thesis
      using IH null True by (intro exI [of _ nh] exI [of _ p']) (auto simp: nth_Cons split: nat.splits)
  next
    case False
    then have null: "\<not> is_null (pool_store p b)" using pool_partD(3) [OF Cons.prems(1)] by simp
    have i: "i < length hs" and none: "hash_of p b = None" using Cons.prems by auto
    obtain key where key: "make_block_hash_with_group_id (hs ! i) g = Inr key"
      using make_block_hash_total [OF assms] by blast
    obtain s where s: "set_block_hash b key (pool_store p) = Inr s"
      using none by (simp add: set_block_hash_def)
    define p2 where "p2 = (set_store s p)\<lparr>cached_block_hash_to_block :=
        cache_insert key b (cached_block_hash_to_block (set_store s p))\<rparr>"
    have b: "b \<in> set (blocks p)" using Cons.prems(2) by simp
    note p2 = cache_one_block [OF Cons.prems(1) b False none s, folded p2_def]
    define acc' where "acc' = (if enable_kv_cache_events p
                   then acc @ [maybe_convert_block_hash (use_int_block_hashes p) (hs ! i)] else acc)"
    have "b \<notin> set bs" using Cons.prems(3) False by simp
    then have "set bs \<subseteq> set (blocks p2)" "distinct (filter (\<lambda>b. b \<noteq> Blk 0) bs)"
      "\<forall>b \<in> set bs. hash_of p2 b = None" "i + 1 + length bs \<le> length hs"
      using Cons.prems False p2 by (auto simp: same_config_def split: if_splits)
    then obtain nh p' where IH: "cache_blocks_loop g hs (i + 1) bs acc' p2 = Inr (nh, p')" "pool_ok p' xs"
      "same_config p2 p'" "\<forall>x. refs p' x = refs p2 x"
      "\<forall>x. x \<notin> set bs \<or> x = Blk 0 \<longrightarrow> hash_of p' x = hash_of p2 x"
      "\<forall>j<length bs. bs ! j \<noteq> Blk 0 \<longrightarrow> (\<exists>k. hash_of p' (bs ! j) = Some k
            \<and> make_block_hash_with_group_id (hs ! (i + 1 + j)) g = Inr k)"
      using Cons.IH [OF p2(1), of "i + 1" acc'] by blast
    have "cache_blocks_loop g hs i (b # bs) acc p = Inr (nh, p')"
      using IH(1) null none i key s by (simp add: Let_def p2_def acc'_def)
    moreover have "hash_of p' b = Some key" using IH(5) \<open>b \<notin> set bs\<close> p2(4) [of b] by simp
    ultimately show ?thesis
      using IH(2,4,5,6) same_config_trans [OF p2(2) IH(3)] p2(3,4) key False
      by (intro exI [of _ nh] exI [of _ p']) (auto simp: nth_Cons split: nat.splits)
  qed
qed

lemma event_keys_loop_total:
  assumes "0 \<le> idx" and "\<forall>j \<in> set js. 0 \<le> j \<and> j < int (length bs)"
  shows "\<exists>keys memo. event_keys_loop env p bs bsz js idx acc r
      = Inr (keys, r\<lparr>prompt_embeds_per_block_hashes := memo\<rparr>)"
  using assms
proof (induction js arbitrary: idx acc r)
  case Nil
  then show ?case by (intro exI [of _ acc] exI [of _ "prompt_embeds_per_block_hashes r"]) simp
next
  case (Cons j js)
  then have j: "0 \<le> j" "nat j < length bs" by auto
  show ?case
  proof (cases "is_null (pool_store p (bs ! nat j))")
    case True
    then show ?thesis using j Cons by simp
  next
    case False
    obtain keys idx' memo where k: "generate_block_hash_extra_keys env r (j * bsz) (j * bsz + bsz) idx
        = Inr (keys, idx', r\<lparr>prompt_embeds_per_block_hashes := memo\<rparr>)" "0 \<le> idx'"
      using extra_keys_total [OF Cons.prems(1)] by blast
    have "\<exists>keys' memo'. event_keys_loop env p bs bsz js idx' (acc @ [keys])
        (r\<lparr>prompt_embeds_per_block_hashes := memo\<rparr>)
      = Inr (keys', r\<lparr>prompt_embeds_per_block_hashes := memo, prompt_embeds_per_block_hashes := memo'\<rparr>)"
      using Cons.prems(2) by (intro Cons.IH [OF k(2)]) simp
    then show ?thesis using False j k(1) by auto
  qed
qed

lemma cache_full_blocks_spec:
  assumes ok: "pool_ok p xs" and g: "g < 2 ^ 32"
    and range: "0 \<le> num_cached" "num_cached \<le> num_full" "num_full \<le> int (length bs)"
      "num_full \<le> int (length (block_hashes r))"
    and hs: "group_block_hashes p r block_size = Inr hs" "num_full \<le> int (length hs)"
  defines "new \<equiv> drop (nat num_cached) (take (nat num_full) bs)"
  assumes new: "set new \<subseteq> set (blocks p)" "distinct (filter (\<lambda>b. b \<noteq> Blk 0) new)"
    "\<And>b. b \<in> set new \<Longrightarrow> hash_of p b = None"
  shows "\<exists>memo p'. cache_full_blocks env r bs num_cached num_full block_size g p
      = Inr (r\<lparr>prompt_embeds_per_block_hashes := memo\<rparr>, p') \<and> pool_ok p' xs \<and> same_config p p'
      \<and> (\<forall>x. refs p' x = refs p x) \<and> (\<forall>x. x \<notin> set new \<or> x = Blk 0 \<longrightarrow> hash_of p' x = hash_of p x)
      \<and> (\<forall>j<nat num_full. nat num_cached \<le> j \<longrightarrow> bs ! j \<noteq> Blk 0 \<longrightarrow>
            (\<exists>k. hash_of p' (bs ! j) = Some k \<and> make_block_hash_with_group_id (hs ! j) g = Inr k))"
proof (cases "num_cached \<ge> num_full")
  case True
  then show ?thesis
    using ok range by (intro exI [of _ "prompt_embeds_per_block_hashes r"] exI [of _ p])
      (simp add: cache_full_blocks_def)
next
  case False
  let ?c = "nat num_cached" and ?f = "nat num_full"
  have sl: "slice_from hs num_cached = drop ?c hs" "slice_between bs num_cached num_full = new"
    using range False by (simp_all add: new_def)
  have len: "length new = ?f - ?c" using range by (simp add: new_def)
  have "0 + length new \<le> length (drop ?c hs)" using hs(2) range len by simp
  moreover have "\<forall>b \<in> set new. hash_of p b = None" using new(3) by blast
  ultimately obtain nh p1 where p1: "cache_blocks_loop g (drop ?c hs) 0 new [] p = Inr (nh, p1)"
    "pool_ok p1 xs" "same_config p p1" "\<forall>x. refs p1 x = refs p x"
    "\<forall>x. x \<notin> set new \<or> x = Blk 0 \<longrightarrow> hash_of p1 x = hash_of p x"
    "\<forall>j<length new. new ! j \<noteq> Blk 0 \<longrightarrow> (\<exists>k. hash_of p1 (new ! j) = Some k
            \<and> make_block_hash_with_group_id (drop ?c hs ! (0 + j)) g = Inr k)"
    using cache_blocks_loop_spec [OF g ok new(1,2), of 0 "drop ?c hs" "[]"] by blast
  have keys: "\<exists>k. hash_of p1 (bs ! j) = Some k \<and> make_block_hash_with_group_id (hs ! j) g = Inr k"
    if "j < ?f" "?c \<le> j" "bs ! j \<noteq> Blk 0" for j
  proof -
    have "j - ?c < length new" "new ! (j - ?c) = bs ! j" "drop ?c hs ! (0 + (j - ?c)) = hs ! j"
      using that range hs(2) len by (simp_all add: new_def)
    with p1(6) that(3) show ?thesis by metis
  qed
  have "\<forall>j \<in> set [num_cached..num_full - 1]. 0 \<le> j \<and> j < int (length bs)" using range by auto
  then obtain ks memo where ks: "event_keys_loop env p1 bs block_size [num_cached..num_full - 1] 0 [] r
      = Inr (ks, r\<lparr>prompt_embeds_per_block_hashes := memo\<rparr>)"
    using event_keys_loop_total [of 0] by (metis order.refl)
  have "\<exists>parent. (if num_cached = 0 then Inr None else bindR (py_nth hs (num_cached - 1)) (\<lambda>h.
      Inr (Some (maybe_convert_block_hash (use_int_block_hashes p1) h)))) = Inr parent"
    using range hs(2) False by auto
  then obtain parent where parent: "(if num_cached = 0 then Inr None else
      bindR (py_nth hs (num_cached - 1)) (\<lambda>h.
      Inr (Some (maybe_convert_block_hash (use_int_block_hashes p1) h)))) = Inr parent" ..
  have "\<exists>memo ev. cache_full_blocks env r bs num_cached num_full block_size g p
      = Inr (r\<lparr>prompt_embeds_per_block_hashes := memo\<rparr>, p1\<lparr>kv_event_queue := ev\<rparr>)"
  proof (cases "enable_kv_cache_events p1")
    case True
    then show ?thesis
      using False range(4) hs(1) p1(1) ks
      by (auto simp: cache_full_blocks_def sl parent simp del: py_nth_nonneg)
  next
    case no: False
    then show ?thesis
      using False range(4) hs(1) p1(1)
      by (intro exI [of _ "prompt_embeds_per_block_hashes r"] exI [of _ "kv_event_queue p1"])
        (simp add: cache_full_blocks_def sl)
  qed
  then obtain memo' ev where "cache_full_blocks env r bs num_cached num_full block_size g p
      = Inr (r\<lparr>prompt_embeds_per_block_hashes := memo'\<rparr>, p1\<lparr>kv_event_queue := ev\<rparr>)" by blast
  then show ?thesis
    using p1(2-5) keys
    by (intro exI [of _ memo'] exI [of _ "p1\<lparr>kv_event_queue := ev\<rparr>"]) simp
qed

text \<open>A hit returns, group by group, blocks that carry the group's key; a miss means that some
  group has no block with its key.\<close>

lemma get_cached_block_loop_spec:
  assumes wf: "cache_wf c" and "\<forall>g \<in> set gs. g < 2 ^ 32"
  shows "\<exists>res. get_cached_block_loop c h gs acc = Inr res \<and>
     (case res of
        Some bs \<Rightarrow> \<exists>new. bs = acc @ new \<and> length new = length gs
          \<and> (\<forall>i<length gs. \<exists>k. make_block_hash_with_group_id h (gs ! i) = Inr k \<and> cache_holds c k (new ! i))
      | None \<Rightarrow> \<exists>g \<in> set gs. \<exists>k. make_block_hash_with_group_id h g = Inr k \<and> (\<forall>b. \<not> cache_holds c k b))"
  using assms(2)
proof (induction gs arbitrary: acc)
  case Nil
  then show ?case by simp
next
  case (Cons g gs)
  obtain k where k: "make_block_hash_with_group_id h g = Inr k"
    using make_block_hash_total [of g] Cons.prems by auto
  obtain found where found: "get_one_block k c = Inr found" using bhm.lookup_total [OF wf] by blast
  show ?case
  proof (cases found)
    case None
    with k found bhm.lookup_complete [OF wf, of k] show ?thesis by auto
  next
    case (Some b)
    with found have hb: "cache_holds c k b" using bhm.lookup_sound [OF wf] by blast
    obtain res where res: "get_cached_block_loop c h gs (acc @ [b]) = Inr res"
      "case res of
        Some bs \<Rightarrow> \<exists>new. bs = (acc @ [b]) @ new \<and> length new = length gs
          \<and> (\<forall>i<length gs. \<exists>k. make_block_hash_with_group_id h (gs ! i) = Inr k \<and> cache_holds c k (new ! i))
      | None \<Rightarrow> \<exists>g \<in> set gs. \<exists>k. make_block_hash_with_group_id h g = Inr k \<and> (\<forall>b. \<not> cache_holds c k b)"
      using Cons.IH [of "acc @ [b]"] Cons.prems by auto
    show ?thesis
    proof (cases res)
      case None
      with res k found Some show ?thesis by auto
    next
      case hit: (Some bs)
      with res obtain new where new: "bs = (acc @ [b]) @ new" "length new = length gs"
        "\<forall>i<length gs. \<exists>k. make_block_hash_with_group_id h (gs ! i) = Inr k \<and> cache_holds c k (new ! i)"
        by auto
      have "\<exists>ka. make_block_hash_with_group_id h ((g # gs) ! i) = Inr ka \<and> cache_holds c ka ((b # new) ! i)"
        if "i < length (g # gs)" for i
        using that new(3) k hb by (cases i) auto
      with new(1,2) hit res(1) k found Some show ?thesis
        by (intro exI [of _ res]) (auto intro!: exI [of _ "b # new"])
    qed
  qed
qed

lemma get_cached_block_spec:
  assumes ok: "pool_ok p xs" and gs: "\<forall>g \<in> set gs. g < 2 ^ 32"
  shows "\<exists>res. get_cached_block p h gs = Inr res \<and>
     (case res of
        Some bs \<Rightarrow> length bs = length gs
          \<and> (\<forall>i<length gs. \<exists>k. make_block_hash_with_group_id h (gs ! i) = Inr k
                 \<and> hash_of p (bs ! i) = Some k \<and> bs ! i \<in> set (blocks p) \<and> bs ! i \<noteq> Blk 0)
      | None \<Rightarrow> \<exists>g \<in> set gs. \<exists>k. make_block_hash_with_group_id h g = Inr k
                 \<and> (\<forall>b. hash_of p b \<noteq> Some k))"
proof -
  obtain res where res: "get_cached_block p h gs = Inr res" and
    "case res of
        Some bs \<Rightarrow> \<exists>new. bs = [] @ new \<and> length new = length gs
          \<and> (\<forall>i<length gs. \<exists>k. make_block_hash_with_group_id h (gs ! i) = Inr k
                 \<and> hash_of p (new ! i) = Some k)
      | None \<Rightarrow> \<exists>g \<in> set gs. \<exists>k. make_block_hash_with_group_id h g = Inr k \<and> (\<forall>b. hash_of p b \<noteq> Some k)"
    using get_cached_block_loop_spec [OF pool_partD(6) [OF ok] gs, of h "[]"]
    unfolding get_cached_block_def pool_partD(7) [OF ok] by blast
  then show ?thesis
    using pool_partD(8) [OF ok] by (intro exI [of _ res]) (auto split: option.splits)
qed

lemma block_pool_init_spec:
  assumes "0 < n"
  shows "\<exists>p. block_pool_init n caching hs ev ih mc = Inr p \<and> pool_ok p (map Blk [1..<nat n])
    \<and> (\<forall>b. refs p b = 0 \<and> hash_of p b = None) \<and> cached_block_hash_to_block p = []
    \<and> num_gpu_blocks p = n \<and> enable_caching p = caching \<and> hash_block_size p = hs"
proof -
  let ?bs = "map Blk [0..<nat n]" and ?s = "\<lambda>_. new_block"
  have cons: "?bs = Blk 0 # map Blk [1..<nat n]" using assms by (simp add: upt_conv_Cons)
  have "dll (free_queue_init ?bs ?s) ?bs"
    by (rule free_queue_init_refines) (auto simp: distinct_map inj_on_def sentinels_def new_block_def)
  then obtain q where q: "popleft (free_queue_init ?bs ?s) = Inr (Blk 0, q)" "dll q (map Blk [1..<nat n])"
    "same_data (store (free_queue_init ?bs ?s)) (store q)"
    using popleft_refines [of "free_queue_init ?bs ?s" "Blk 0"] unfolding cons by blast
  have "same_data (\<lambda>_. new_block) (store (free_queue_init ?bs ?s))"
  proof -
    have "same_data s (fold (init_link ?bs) js t) = same_data s t" for s t js
      by (induction js arbitrary: t) (simp_all add: init_link_def Let_def)
    then have "same_data ?s (fold (init_link ?bs) [0..<length ?bs] ?s)" by simp
    then have "same_data ?s ((fold (init_link ?bs) [0..<length ?bs] ?s)(FakeHead := new_block, FakeTail := new_block))"
      by (simp add: same_data_def)
    then show ?thesis using assms by (simp add: free_queue_init_def Let_def)
  qed
  with q(3) have new: "ref_cnt (store q b) = 0" "block_hash (store q b) = None" "\<not> is_null (store q b)" for b
    by (simp_all add: same_data_def new_block_def)
  let ?q = "q\<lparr>store := (store q)(Blk 0 := (store q (Blk 0))\<lparr>is_null := True\<rparr>)\<rparr>"
  have "dll ?q xs = dll q xs" for xs by (rule dll_same_links) simp_all
  with q(1,2) new assms show ?thesis
    by (auto simp: block_pool_init_def Let_def pool_part_def cache_wf_def cache_holds_def
        distinct_map inj_on_def Suc_le_eq image_iff)
qed

subsection \<open>The supply of reference-counted blocks\<close>

text \<open>
  The contract the cache managers rely on: \<open>ok p xs\<close> says that \<open>xs\<close> are the free blocks of \<open>p\<close> in
  eviction order; blocks are acquired from the front with count one, shared by counting up
  (and taken off the free list), released by counting down (and put at its end at zero).
\<close>

locale block_supply =
  fixes ok :: "'p \<Rightarrow> 'b list \<Rightarrow> bool"
    and cnt :: "'p \<Rightarrow> 'b \<Rightarrow> int"
    and owned :: "'p \<Rightarrow> 'b set"
    and null :: 'b
    and acquire :: "int \<Rightarrow> 'p \<Rightarrow> ('b list \<times> 'p) result"
    and share :: "'b list \<Rightarrow> 'p \<Rightarrow> 'p result"
    and release :: "'b list \<Rightarrow> 'p \<Rightarrow> 'p result"
  assumes free_owned: "ok p xs \<Longrightarrow> b \<in> set xs \<longleftrightarrow> b \<in> owned p \<and> b \<noteq> null \<and> cnt p b = 0"
    and free_distinct: "ok p xs \<Longrightarrow> distinct xs"
    and cnt_nonneg: "ok p xs \<Longrightarrow> b \<noteq> null \<Longrightarrow> 0 \<le> cnt p b"
    and acquire_law: "ok p xs \<Longrightarrow> n \<le> length xs \<Longrightarrow>
      \<exists>p'. acquire (int n) p = Inr (take n xs, p') \<and> ok p' (drop n xs) \<and> owned p' = owned p
        \<and> (\<forall>x. cnt p' x = (if x \<in> set (take n xs) then 1 else cnt p x))"
    and share_law: "ok p xs \<Longrightarrow> set bs \<subseteq> owned p \<Longrightarrow>
      \<exists>p'. share bs p = Inr p' \<and> ok p' (filter (\<lambda>x. x \<notin> set bs) xs) \<and> owned p' = owned p
        \<and> (\<forall>x. cnt p' x = cnt p x + int (count_list bs x))"
    and release_law: "ok p xs \<Longrightarrow> set bs \<subseteq> owned p \<Longrightarrow>
      (\<And>b. b \<in> set bs \<Longrightarrow> b \<noteq> null \<Longrightarrow> 1 \<le> cnt p b) \<Longrightarrow> distinct (filter (\<lambda>b. b \<noteq> null) bs) \<Longrightarrow>
      \<exists>p'. release bs p = Inr p' \<and> ok p' (xs @ filter (\<lambda>b. b \<noteq> null \<and> cnt p b = 1) bs)
        \<and> owned p' = owned p \<and> (\<forall>x. cnt p' x = cnt p x - int (count_list bs x))"
begin

lemma acquire_release:
  assumes p: "ok p xs" and n: "n \<le> length xs"
  shows "\<exists>p1 p2. acquire (int n) p = Inr (take n xs, p1) \<and> release (take n xs) p1 = Inr p2
    \<and> ok p2 (drop n xs @ take n xs) \<and> (\<forall>x. cnt p2 x = cnt p x)"
proof -
  let ?bs = "take n xs"
  obtain p1 where p1: "acquire (int n) p = Inr (?bs, p1)" "ok p1 (drop n xs)" "owned p1 = owned p"
    "\<forall>x. cnt p1 x = (if x \<in> set ?bs then 1 else cnt p x)"
    using acquire_law [OF p n] by blast
  have free: "b \<in> owned p \<and> b \<noteq> null \<and> cnt p b = 0" if "b \<in> set ?bs" for b
    using free_owned [OF p, of b] in_set_takeD [OF that] by simp
  have d: "distinct ?bs" using free_distinct [OF p] by simp
  have all: "filter (\<lambda>b. b \<noteq> null \<and> cnt p1 b = 1) ?bs = ?bs"
    by (rule filter_True) (use free p1(4) in \<open>auto\<close>)
  obtain p2 where p2: "release ?bs p1 = Inr p2"
    "ok p2 (drop n xs @ filter (\<lambda>b. b \<noteq> null \<and> cnt p1 b = 1) ?bs)"
    "\<forall>x. cnt p2 x = cnt p1 x - int (count_list ?bs x)"
    using release_law [OF p1(2), of ?bs] free p1(3,4) d by fastforce
  have "cnt p2 x = cnt p x" for x
  proof (cases "x \<in> set ?bs")
    case True
    then have "count_list ?bs x = 1" using d by (simp add: distinct_count_list)
    with True p2(3) p1(4) free show ?thesis by simp
  next
    case False
    then show ?thesis using p2(3) p1(4) by simp
  qed
  with p1(1) p2(1,2) all show ?thesis by auto
qed

lemma share_release:
  assumes p: "ok p xs" and bs: "set bs \<subseteq> owned p" "distinct bs" "null \<notin> set bs"
  shows "\<exists>p1 p2. share bs p = Inr p1 \<and> release bs p1 = Inr p2
    \<and> ok p2 (filter (\<lambda>x. x \<notin> set bs) xs @ filter (\<lambda>b. b \<in> set xs) bs) \<and> (\<forall>x. cnt p2 x = cnt p x)"
proof -
  have once: "count_list bs x = (if x \<in> set bs then 1 else 0)" for x
    using bs(2) by (simp add: distinct_count_list)
  obtain p1 where p1: "share bs p = Inr p1" "ok p1 (filter (\<lambda>x. x \<notin> set bs) xs)"
    "owned p1 = owned p" "\<forall>x. cnt p1 x = cnt p x + int (count_list bs x)"
    using share_law [OF p bs(1)] by blast
  have ge: "1 \<le> cnt p1 b" if "b \<in> set bs" "b \<noteq> null" for b
    using cnt_nonneg [OF p that(2)] p1(4) once that by simp
  have d: "distinct (filter (\<lambda>b. b \<noteq> null) bs)" using bs(2) by simp
  obtain p2 where p2: "release bs p1 = Inr p2"
    "ok p2 (filter (\<lambda>x. x \<notin> set bs) xs @ filter (\<lambda>b. b \<noteq> null \<and> cnt p1 b = 1) bs)"
    "\<forall>x. cnt p2 x = cnt p1 x - int (count_list bs x)"
    using release_law [OF p1(2) _ ge d] bs(1) p1(3) by auto
  have "filter (\<lambda>b. b \<noteq> null \<and> cnt p1 b = 1) bs = filter (\<lambda>b. b \<in> set xs) bs"
    by (rule filter_cong [OF refl]) (use free_owned [OF p] bs(1) p1(4) once in \<open>auto\<close>)
  with p1(1,4) p2 show ?thesis by simp
qed

end

interpretation bps: block_supply pool_ok refs "\<lambda>p. set (blocks p)" "Blk 0"
  get_new_blocks touch free_blocks
proof unfold_locales
  fix p xs n b and bs :: "block_ref list"
  assume ok: "pool_ok p xs"
  show "b \<in> set xs \<longleftrightarrow> b \<in> set (blocks p) \<and> b \<noteq> Blk 0 \<and> refs p b = 0"
    using pool_partD(4) [OF ok, of b] by simp
  show "distinct xs" using pool_partD(2) [OF ok] by simp
  show "b \<noteq> Blk 0 \<Longrightarrow> 0 \<le> refs p b" by (rule pool_partD(5) [OF ok])
  show "n \<le> length xs \<Longrightarrow> \<exists>p'. get_new_blocks (int n) p = Inr (take n xs, p') \<and> pool_ok p' (drop n xs)
    \<and> set (blocks p') = set (blocks p) \<and> (\<forall>x. refs p' x = (if x \<in> set (take n xs) then 1 else refs p x))"
    using get_new_blocks_spec [OF ok, of n] by (auto simp: same_config_def)
  show "set bs \<subseteq> set (blocks p) \<Longrightarrow> \<exists>p'. touch bs p = Inr p' \<and> pool_ok p' (filter (\<lambda>x. x \<notin> set bs) xs)
    \<and> set (blocks p') = set (blocks p) \<and> (\<forall>x. refs p' x = refs p x + int (count_list bs x))"
    using touch_spec [OF ok, of bs] by (auto simp: same_config_def)
  assume "set bs \<subseteq> set (blocks p)" "\<And>b. b \<in> set bs \<Longrightarrow> b \<noteq> Blk 0 \<Longrightarrow> 1 \<le> refs p b"
    "distinct (filter (\<lambda>b. b \<noteq> Blk 0) bs)"
  from free_blocks_spec [OF ok this]
  show "\<exists>p'. free_blocks bs p = Inr p' \<and> pool_ok p' (xs @ filter (\<lambda>b. b \<noteq> Blk 0 \<and> refs p b = 1) bs)
    \<and> set (blocks p') = set (blocks p) \<and> (\<forall>x. refs p' x = refs p x - int (count_list bs x))"
    by (auto simp: same_config_def)
qed

subsection \<open>Life of a pool\<close>

text \<open>
  The calls a pool receives, with what their callers guarantee: blocks that are touched belong to
  the pool, blocks that are freed are held and named once, blocks that are cached carry no hash
  yet, evicted ids are block ids.
\<close>

inductive pool_step :: "block_pool \<Rightarrow> block_pool \<Rightarrow> bool" where
  step_get: "get_new_blocks (int n) p = Inr (bs, p') \<Longrightarrow> pool_step p p'"
| step_touch: "set bs \<subseteq> set (blocks p) \<Longrightarrow> touch bs p = Inr p' \<Longrightarrow> pool_step p p'"
| step_free: "set bs \<subseteq> set (blocks p) \<Longrightarrow> \<forall>b \<in> set bs. b \<noteq> Blk 0 \<longrightarrow> 1 \<le> refs p b \<Longrightarrow>
    distinct (filter (\<lambda>b. b \<noteq> Blk 0) bs) \<Longrightarrow> free_blocks bs p = Inr p' \<Longrightarrow> pool_step p p'"
| step_cache: "g < 2 ^ 32 \<Longrightarrow> 0 \<le> c \<Longrightarrow> c \<le> f \<Longrightarrow> f \<le> int (length bs) \<Longrightarrow>
    f \<le> int (length (block_hashes r)) \<Longrightarrow> group_block_hashes p r bsz = Inr hs \<Longrightarrow> f \<le> int (length hs) \<Longrightarrow>
    set (drop (nat c) (take (nat f) bs)) \<subseteq> set (blocks p) \<Longrightarrow>
    distinct (filter (\<lambda>b. b \<noteq> Blk 0) (drop (nat c) (take (nat f) bs))) \<Longrightarrow>
    \<forall>b \<in> set (drop (nat c) (take (nat f) bs)). hash_of p b = None \<Longrightarrow>
    cache_full_blocks env r bs c f bsz g p = Inr (r', p') \<Longrightarrow> pool_step p p'"
| step_evict: "\<forall>i \<in> set ids. 0 \<le> i \<and> i < num_gpu_blocks p \<Longrightarrow> evict_blocks ids p = Inr p' \<Longrightarrow> pool_step p p'"
| step_reset: "reset_prefix_cache p = (b, p') \<Longrightarrow> pool_step p p'"
| step_events: "take_events p = (ev, p') \<Longrightarrow> pool_step p p'"

lemma pool_step_ok:
  assumes "pool_step p p'" and ok: "pool_ok p xs"
  shows "(\<exists>xs'. pool_ok p' xs') \<and> same_config p p'"
  using assms(1)
proof cases
  case (step_get n bs)
  then have "n \<le> length xs" using get_new_blocks_too_many [OF ok, of "int n"] by (cases "n \<le> length xs") auto
  with step_get get_new_blocks_spec [OF ok] show ?thesis by fastforce
next
  case (step_touch bs)
  with touch_spec [OF ok step_touch(1)] show ?thesis by auto
next
  case (step_free bs)
  with free_blocks_spec [OF ok step_free(1) _ step_free(3)] show ?thesis by fastforce
next
  case (step_cache g c f bs r bsz hs env r')
  with cache_full_blocks_spec [OF ok step_cache(1-9), of env] show ?thesis by fastforce
next
  case (step_evict ids)
  with evict_blocks_spec [OF ok step_evict(1)] show ?thesis by fastforce
next
  case (step_reset b)
  then have "p' = snd (reset_prefix_cache p)" by simp
  with reset_prefix_cache_spec(2,3) [OF ok] show ?thesis by blast
next
  case (step_events ev)
  then have "p' = p \<or> p' = p\<lparr>kv_event_queue := []\<rparr>" by (auto simp: take_events_def split: if_splits)
  with ok show ?thesis by auto
qed

lemma pool_steps_ok:
  assumes "pool_step\<^sup>*\<^sup>* p p'" and ok: "pool_ok p xs"
  shows "(\<exists>xs'. pool_ok p' xs') \<and> same_config p p'"
  using assms(1)
proof induction
  case base
  then show ?case using ok by auto
next
  case (step q q')
  then obtain ys where "pool_ok q ys" "same_config p q" by blast
  with pool_step_ok [OF step.hyps(2)] show ?case by (metis same_config_trans)
qed

subsection \<open>Properties\<close>

text \<open>
  C9: Whatever calls a pool has received since it was created, its free queue holds exactly the
  unreferenced blocks other than the null block, once each; free and referenced blocks add up to
  the pool's size; the reported usage is the referenced share; and the hash index agrees with the
  hashes the blocks carry.
\<close>

theorem pool_reachable_invariant:
  assumes "block_pool_init n caching hs ev ih mc = Inr p0" and "pool_step\<^sup>*\<^sup>* p0 p"
  shows "\<exists>xs. get_all_free_blocks (free_block_queue p) = Some (Inr xs) \<and> distinct xs
     \<and> set xs = {b. b \<in> set (blocks p) \<and> b \<noteq> Blk 0 \<and> refs p b = 0}
     \<and> get_num_free_blocks p = int (length xs)
     \<and> int (length xs) + int (card {b \<in> set (blocks p). b \<noteq> Blk 0 \<and> 0 < refs p b}) = n - 1
     \<and> (1 < n \<longrightarrow> get_usage p = Some (int (card {b \<in> set (blocks p). b \<noteq> Blk 0 \<and> 0 < refs p b}), n - 1))
     \<and> (\<forall>k b. cache_holds (cached_block_hash_to_block p) k b \<longleftrightarrow> hash_of p b = Some k)"
proof -
  have n: "0 < n" using assms(1) by (auto simp: block_pool_init_def bindR_eq_Inr)
  obtain p1 where "block_pool_init n caching hs ev ih mc = Inr p1" "pool_ok p1 (map Blk [1..<nat n])"
    "num_gpu_blocks p1 = n"
    using block_pool_init_spec [OF n] by blast
  with assms(1) have ok0: "pool_ok p0 (map Blk [1..<nat n])" and n0: "num_gpu_blocks p0 = n" by simp_all
  obtain xs where ok: "pool_ok p xs" and conf: "same_config p0 p"
    using pool_steps_ok [OF assms(2) ok0] by blast
  have np: "num_gpu_blocks p = n" using conf n0 by (simp add: same_config_def)
  have bl: "blocks p = map Blk [0..<nat n]" using ok np by (simp add: pool_part_def)
  have dx: "distinct xs" using pool_partD(2) [OF ok] by simp
  have sx: "set xs = {b. b \<in> set (blocks p) \<and> b \<noteq> Blk 0 \<and> refs p b = 0}"
    using pool_partD(4) [OF ok] by auto
  let ?used = "{b \<in> set (blocks p). b \<noteq> Blk 0 \<and> 0 < refs p b}"
  have part: "set xs \<union> ?used = set (blocks p) - {Blk 0}" "set xs \<inter> ?used = {}"
    using sx pool_partD(5) [OF ok] by (auto simp: order_less_le)
  have "card (set xs) + card ?used = card (set (blocks p) - {Blk 0})"
    using card_Un_disjoint [of "set xs" ?used] part by simp
  also have "\<dots> = nat n - 1" using n by (simp add: bl card_image inj_on_def card_Diff_singleton)
  finally have sum: "int (length xs) + int (card ?used) = n - 1"
    using n dx by (simp add: distinct_card)
  have free: "get_num_free_blocks p = int (length xs)" by (rule pool_partD(10) [OF ok])
  have "get_usage p = Some (int (card ?used), n - 1)" if "1 < n"
    using that sum free np by (simp add: get_usage_def Let_def)
  with sum free dx sx pool_partD(7) [OF ok] get_all_free_blocks_refines [OF pool_partD(1) [OF ok]]
  show ?thesis by blast
qed

theorem pool_reachable_invariant_witness:
  "\<exists>p0 p. block_pool_init 3 True 16 False False None = Inr p0 \<and> pool_step\<^sup>*\<^sup>* p0 p
     \<and> get_all_free_blocks (free_block_queue p) = Some (Inr [Blk 2]) \<and> get_usage p = Some (1, 2)"
proof -
  obtain p0 where p0: "block_pool_init 3 True 16 False False None = Inr p0" "pool_ok p0 [Blk 1, Blk 2]"
    using block_pool_init_spec [of 3 True 16 False False None] by (auto simp: upt_rec eval_nat_numeral)
  obtain p where p: "get_new_blocks (int 1) p0 = Inr ([Blk 1], p)" "pool_ok p [Blk 2]"
    using get_new_blocks_spec [OF p0(2), of 1] by auto
  have steps: "pool_step\<^sup>*\<^sup>* p0 p" using step_get [OF p(1)] by blast
  have free: "get_all_free_blocks (free_block_queue p) = Some (Inr [Blk 2])"
    by (rule get_all_free_blocks_refines [OF pool_partD(1) [OF p(2)]])
  with pool_reachable_invariant [OF p0(1) steps] have "get_usage p = Some (1, 2)" by auto
  with p0(1) steps free show ?thesis by blast
qed

text \<open>
  C17: Allocation takes blocks from the front of the eviction order, gives each exactly one
  reference, drops its cached hash when caching is on, and changes nothing else; asking for more
  blocks than are free raises \<open>ValueError\<close>.
\<close>

theorem get_new_blocks_correct:
  assumes "pool_ok p xs"
  shows "if n \<le> length xs
    then \<exists>p'. get_new_blocks (int n) p = Inr (take n xs, p') \<and> pool_ok p' (drop n xs)
      \<and> (\<forall>b. refs p' b = (if b \<in> set (take n xs) then 1 else refs p b))
      \<and> (\<forall>b. hash_of p' b = (if b \<in> set (take n xs) \<and> enable_caching p then None else hash_of p b))
    else get_new_blocks (int n) p = Inl ValueError"
  using get_new_blocks_spec [OF assms, of n] get_new_blocks_too_many [OF assms, of "int n"]
  by (cases "n \<le> length xs") auto

theorem get_new_blocks_correct_witness:
  "\<exists>p p'. block_pool_init 4 True 16 False False None = Inr p
     \<and> get_new_blocks 2 p = Inr ([Blk 1, Blk 2], p') \<and> refs p' (Blk 2) = 1 \<and> pool_ok p' [Blk 3]
     \<and> get_new_blocks 4 p = Inl ValueError"
proof -
  obtain p where p: "block_pool_init 4 True 16 False False None = Inr p" "pool_ok p [Blk 1, Blk 2, Blk 3]"
    using block_pool_init_spec [of 4 True 16 False False None] by (auto simp: upt_rec eval_nat_numeral)
  show ?thesis
    using p(1) get_new_blocks_correct [OF p(2), of 2] get_new_blocks_correct [OF p(2), of 4] by auto
qed

text \<open>
  A prefix-cache hit on blocks that are waiting for eviction rescues them: they leave the free
  queue with their hashes intact, and when the request releases them again they go to the back of
  the eviction order, with every reference count as before.
\<close>

theorem hit_moves_blocks_to_back:
  assumes "pool_ok p xs" and "set bs \<subseteq> set (blocks p)" and "distinct bs" and "Blk 0 \<notin> set bs"
  shows "\<exists>p1 p2. touch bs p = Inr p1 \<and> free_blocks bs p1 = Inr p2
     \<and> pool_ok p2 (filter (\<lambda>b. b \<notin> set bs) xs @ filter (\<lambda>b. b \<in> set xs) bs)
     \<and> (\<forall>b. refs p2 b = refs p b)"
  by (rule bps.share_release [OF assms])

text \<open>
  C15: Caching full blocks files each of them (the null block apart) under its own hash: a later
  lookup of that hash in that group hits, with a block that carries the key of exactly that hash
  and group, while reference counts and the free queue are left alone.
\<close>

theorem cached_blocks_are_found:
  assumes ok: "pool_ok p xs" and g: "g < 2 ^ 32"
    and range: "0 \<le> num_cached" "num_cached \<le> num_full" "num_full \<le> int (length bs)"
      "num_full \<le> int (length (block_hashes r))"
    and hs: "group_block_hashes p r block_size = Inr hs" "num_full \<le> int (length hs)"
    and new: "set (drop (nat num_cached) (take (nat num_full) bs)) \<subseteq> set (blocks p)"
      "distinct (filter (\<lambda>b. b \<noteq> Blk 0) (drop (nat num_cached) (take (nat num_full) bs)))"
      "\<And>b. b \<in> set (drop (nat num_cached) (take (nat num_full) bs)) \<Longrightarrow> hash_of p b = None"
  shows "\<exists>r' p'. cache_full_blocks env r bs num_cached num_full block_size g p = Inr (r', p')
    \<and> pool_ok p' xs \<and> (\<forall>b. refs p' b = refs p b)
    \<and> (\<forall>j. nat num_cached \<le> j \<and> j < nat num_full \<and> bs ! j \<noteq> Blk 0 \<longrightarrow>
          (\<exists>b k. get_cached_block p' (hs ! j) [g] = Inr (Some [b])
             \<and> make_block_hash_with_group_id (hs ! j) g = Inr k
             \<and> hash_of p' b = Some k \<and> hash_of p' (bs ! j) = Some k))"
proof -
  obtain memo p' where p': "cache_full_blocks env r bs num_cached num_full block_size g p
      = Inr (r\<lparr>prompt_embeds_per_block_hashes := memo\<rparr>, p')" "pool_ok p' xs" "\<forall>b. refs p' b = refs p b"
    "\<forall>j<nat num_full. nat num_cached \<le> j \<longrightarrow> bs ! j \<noteq> Blk 0 \<longrightarrow>
            (\<exists>k. hash_of p' (bs ! j) = Some k \<and> make_block_hash_with_group_id (hs ! j) g = Inr k)"
    using cache_full_blocks_spec [OF ok g range hs new] by blast
  have "\<exists>b k. get_cached_block p' (hs ! j) [g] = Inr (Some [b])
      \<and> make_block_hash_with_group_id (hs ! j) g = Inr k
      \<and> hash_of p' b = Some k \<and> hash_of p' (bs ! j) = Some k"
    if j: "nat num_cached \<le> j \<and> j < nat num_full \<and> bs ! j \<noteq> Blk 0" for j
  proof -
    obtain k where k: "hash_of p' (bs ! j) = Some k" "make_block_hash_with_group_id (hs ! j) g = Inr k"
      using p'(4) j by blast
    obtain res where res: "get_cached_block p' (hs ! j) [g] = Inr res" and
      "case res of
        Some bs \<Rightarrow> length bs = length [g] \<and> (\<forall>i<length [g]. \<exists>k.
            make_block_hash_with_group_id (hs ! j) ([g] ! i) = Inr k
            \<and> hash_of p' (bs ! i) = Some k \<and> bs ! i \<in> set (blocks p') \<and> bs ! i \<noteq> Blk 0)
      | None \<Rightarrow> \<exists>g \<in> set [g]. \<exists>k. make_block_hash_with_group_id (hs ! j) g = Inr k
                 \<and> (\<forall>b. hash_of p' b \<noteq> Some k)"
      using get_cached_block_spec [OF p'(2), of "[g]" "hs ! j"] g by auto
    with k show ?thesis by (cases res) (auto simp: length_Suc_conv)
  qed
  with p' show ?thesis by blast
qed

theorem cached_blocks_are_found_witness:
  "\<exists>p r' p'. pool_ok p [Blk 3] \<and>
     cache_full_blocks (serialising_env 16) ((example_request [] 1)\<lparr>block_hashes := [[1], [2]]\<rparr>)
        [Blk 1, Blk 2] 0 2 16 0 p = Inr (r', p')
     \<and> (\<exists>b k. get_cached_block p' [2] [0] = Inr (Some [b]) \<and> hash_of p' b = Some k
           \<and> hash_of p' (Blk 2) = Some k)"
proof -
  let ?r = "(example_request [] 1)\<lparr>block_hashes := [[1], [2]]\<rparr>"
  obtain p0 where p0: "block_pool_init 4 True 16 False False None = Inr p0" "pool_ok p0 [Blk 1, Blk 2, Blk 3]"
    "hash_block_size p0 = 16" "\<forall>b. refs p0 b = 0 \<and> hash_of p0 b = None" "num_gpu_blocks p0 = 4"
    using block_pool_init_spec [of 4 True 16 False False None] by (auto simp: upt_rec eval_nat_numeral)
  obtain p where p: "pool_ok p [Blk 3]" "same_config p0 p" "\<forall>b. hash_of p b = None"
    using get_new_blocks_spec [OF p0(2), of 2] p0(4) by auto
  have bl: "set (blocks p) = {Blk 0, Blk 1, Blk 2, Blk 3}"
    using p(1,2) p0(5) by (auto simp: pool_part_def same_config_def upt_rec eval_nat_numeral)
  have hs: "group_block_hashes p ?r 16 = Inr [[1], [2]]"
    using p(2) p0(3) by (simp add: group_block_hashes_def same_config_def)
  have found: "\<exists>r' p'. cache_full_blocks (serialising_env 16) ?r [Blk 1, Blk 2] 0 2 16 0 p = Inr (r', p')
    \<and> pool_ok p' [Blk 3] \<and> (\<forall>b. refs p' b = refs p b)
    \<and> (\<forall>j. nat 0 \<le> j \<and> j < nat 2 \<and> [Blk 1, Blk 2] ! j \<noteq> Blk 0 \<longrightarrow>
          (\<exists>b k. get_cached_block p' ([[1], [2]] ! j) [0] = Inr (Some [b])
             \<and> make_block_hash_with_group_id ([[1], [2]] ! j) 0 = Inr k
             \<and> hash_of p' b = Some k \<and> hash_of p' ([Blk 1, Blk 2] ! j) = Some k))"
    by (rule cached_blocks_are_found [OF p(1) _ _ _ _ _ hs]) (use p(3) bl in simp_all)
  then obtain r' p' where "cache_full_blocks (serialising_env 16) ?r [Blk 1, Blk 2] 0 2 16 0 p = Inr (r', p')"
    and "\<exists>b k. get_cached_block p' [2] [0] = Inr (Some [b]) \<and> hash_of p' b = Some k
           \<and> hash_of p' (Blk 2) = Some k"
    by (auto dest!: spec [of _ 1])
  with p(1) show ?thesis by blast
qed

end
