(* ===== verification/Single_Type_Manager.thy ===== *)
theory Single_Type_Manager
  imports Block_Pool
begin

text \<open>
  The per-group cache managers of \<open>vllm/v1/core/single_type_kv_cache_manager.py\<close>: the blocks each
  request holds in one KV-cache group, for full, sliding-window, chunked-local, Mamba and
  cross attention. The subclass methods are functions that dispatch on the group's spec. Block
  sizes, alignments and chunk sizes are divisors in this file: the theorems about them assume
  that they are positive, as every configuration has them.
\<close>

subsection \<open>Specs and managers\<close>

text \<open>
  \<open>KVCacheSpec\<close>: its class with the fields the managers read; \<open>spec_layout\<close> stands for the
  remaining fields (heads, sizes, dtypes), which only matter when specs are compared.
\<close>

datatype spec_class =
    FullAttentionSpec
  | MLAAttentionSpec
  | SlidingWindowSpec int
  | ChunkedLocalAttentionSpec int
  | MambaSpec string int
  | CrossAttentionSpec
  | SinkFullAttentionSpec "int option"

record kv_cache_spec =
  spec_class_of :: spec_class
  spec_block_size :: int
  spec_layout :: "int list"

datatype manager_class =
    FullAttentionManager | SlidingWindowManager | ChunkedLocalAttentionManager
  | MambaManager | CrossAttentionManager | SinkFullAttentionManager

fun spec_manager_map :: "spec_class \<Rightarrow> manager_class" where
  "spec_manager_map FullAttentionSpec = FullAttentionManager"
| "spec_manager_map MLAAttentionSpec = FullAttentionManager"
| "spec_manager_map (SlidingWindowSpec _) = SlidingWindowManager"
| "spec_manager_map (ChunkedLocalAttentionSpec _) = ChunkedLocalAttentionManager"
| "spec_manager_map (MambaSpec _ _) = MambaManager"
| "spec_manager_map CrossAttentionSpec = CrossAttentionManager"
| "spec_manager_map (SinkFullAttentionSpec _) = SinkFullAttentionManager"

text \<open>\<open>isinstance(spec, FullAttentionSpec)\<close>: MLA and sink specs are subclasses.\<close>

fun is_full_spec :: "spec_class \<Rightarrow> bool" where
  "is_full_spec FullAttentionSpec = True"
| "is_full_spec MLAAttentionSpec = True"
| "is_full_spec (SinkFullAttentionSpec _) = True"
| "is_full_spec _ = False"

record manager =
  m_block_size :: int
  m_spec :: kv_cache_spec
  m_enable_caching :: bool
  new_block_ids :: "int list"
  req_to_blocks :: "(string \<times> block_ref list) list"
  num_cached_block :: "(string \<times> int) list"
  kv_cache_group_id :: nat
  m_null_block :: block_ref
  cached_blocks_this_step :: "bytes list"
  last_state_block_idx :: "(string \<times> int) list"
  allocated_block_reqs :: "string list"
  sink_blocks :: "block_ref list"

definition scaled_block_size :: "kv_cache_spec \<Rightarrow> int \<Rightarrow> int \<Rightarrow> int" where
  "scaled_block_size spec dcp pcp =
     (if dcp * pcp > 1 then spec_block_size spec * (dcp * pcp) else spec_block_size spec)"

definition manager_init ::
  "kv_cache_spec \<Rightarrow> bool \<Rightarrow> nat \<Rightarrow> int \<Rightarrow> int \<Rightarrow> block_pool \<Rightarrow> (manager \<times> block_pool) result" where
  "manager_init spec caching gid dcp pcp p =
     (let m = \<lparr>m_block_size = scaled_block_size spec dcp pcp, m_spec = spec,
               m_enable_caching = caching, new_block_ids = [], req_to_blocks = [],
               num_cached_block = [], kv_cache_group_id = gid, m_null_block = null_block p,
               cached_blocks_this_step = [], last_state_block_idx = [], allocated_block_reqs = [],
               sink_blocks = []\<rparr>
      in case spec_class_of spec of
           SinkFullAttentionSpec sink_len \<Rightarrow>
             (case sink_len of
                None \<Rightarrow> Inl AssertionError
              | Some n \<Rightarrow>
                  bindR (assertR (n > 0 \<and> n mod m_block_size m = 0)) (\<lambda>_.
                  bindR (popleft_n (n div m_block_size m) (free_block_queue p)) (\<lambda>(bs, q).
                    Inr (m\<lparr>sink_blocks := bs\<rparr>, p\<lparr>free_block_queue := q\<rparr>))))
         | _ \<Rightarrow> Inr (m, p))"

text \<open>\<open>self.req_to_blocks[request_id]\<close> of a \<open>defaultdict(list)\<close> inserts an empty list.\<close>

definition blocks_of :: "string \<Rightarrow> manager \<Rightarrow> block_ref list" where
  "blocks_of rid m = dict_get (req_to_blocks m) rid []"

definition set_blocks :: "string \<Rightarrow> block_ref list \<Rightarrow> manager \<Rightarrow> manager" where
  "set_blocks rid bs m = m\<lparr>req_to_blocks := AList.update rid bs (req_to_blocks m)\<rparr>"

definition ensure_blocks :: "string \<Rightarrow> manager \<Rightarrow> manager" where
  "ensure_blocks rid m = set_blocks rid (blocks_of rid m) m"

definition num_cached :: "string \<Rightarrow> manager \<Rightarrow> int" where
  "num_cached rid m = dict_get (num_cached_block m) rid 0"

definition is_running :: "string \<Rightarrow> manager \<Rightarrow> bool" where
  "is_running rid m = (map_of (num_cached_block m) rid \<noteq> None)"

subsection \<open>Skipped tokens\<close>

definition get_num_skipped_tokens :: "manager \<Rightarrow> int \<Rightarrow> int" where
  "get_num_skipped_tokens m n =
     (case spec_class_of (m_spec m) of
        SlidingWindowSpec w \<Rightarrow> max 0 (n - w + 1)
      | ChunkedLocalAttentionSpec c \<Rightarrow> n div c * c
      | MambaSpec _ _ \<Rightarrow> n - 1
      | _ \<Rightarrow> 0)"

subsection \<open>How many blocks a request needs\<close>

definition get_num_evictable_blocks :: "block_pool \<Rightarrow> block_ref list \<Rightarrow> int" where
  "get_num_evictable_blocks p bs =
     int (length (filter (\<lambda>b. ref_cnt (pool_store p b) = 0 \<and> \<not> is_null (pool_store p b)) bs))"

definition base_get_num_blocks_to_allocate ::
  "manager \<Rightarrow> block_pool \<Rightarrow> string \<Rightarrow> int \<Rightarrow> block_ref list \<Rightarrow> int \<Rightarrow> int result" where
  "base_get_num_blocks_to_allocate m p rid num_toks new_computed total_computed =
     (let num_required = cdiv num_toks (m_block_size m);
          num_req = int (length (blocks_of rid m))
      in if is_running rid m
         then bindR (assertR (length new_computed = 0)) (\<lambda>_. Inr (max (num_required - num_req) 0))
         else
           let skipped_tokens = get_num_skipped_tokens m total_computed;
               num_local = int (length new_computed) + num_req;
               num_skipped = skipped_tokens div m_block_size m;
               num_new = max (num_required - max num_skipped num_local) 0;
               num_skipped_new = max 0 (num_skipped - num_req)
           in Inr (num_new + get_num_evictable_blocks p (slice_from new_computed num_skipped_new)))"

text \<open>The align mode of Mamba reads \<open>self.req_to_blocks[request_id]\<close>, which may insert the key.\<close>

definition get_num_blocks_to_allocate ::
  "manager \<Rightarrow> block_pool \<Rightarrow> string \<Rightarrow> int \<Rightarrow> block_ref list \<Rightarrow> int \<Rightarrow> int \<Rightarrow> (int \<times> manager) result" where
  "get_num_blocks_to_allocate m p rid num_toks new_computed total_computed main_toks =
     (case spec_class_of (m_spec m) of
        MambaSpec mode spec_blocks \<Rightarrow>
          if new_computed \<noteq> []
             \<and> (case block_hash (pool_store p (last new_computed)) of
                  None \<Rightarrow> False | Some h \<Rightarrow> h \<in> set (cached_blocks_this_step m))
          then Inr (num_gpu_blocks p + 1, m)
          else if mode \<noteq> ''align''
          then bindR (base_get_num_blocks_to_allocate m p rid
                        (if spec_blocks > 0 then num_toks + spec_block_size (m_spec m) * spec_blocks
                         else num_toks) new_computed total_computed) (\<lambda>k. Inr (k, m))
          else
            let num_required = cdiv main_toks (m_block_size m) + spec_blocks;
                num_new = num_required - int (length new_computed) - int (length (blocks_of rid m));
                num_new' = (if num_new > 0
                            then (if rid \<in> set (allocated_block_reqs m) then 1 else 1 + spec_blocks)
                            else num_new)
            in Inr (num_new' + get_num_evictable_blocks p new_computed, ensure_blocks rid m)
      | _ \<Rightarrow> bindR (base_get_num_blocks_to_allocate m p rid num_toks new_computed total_computed)
               (\<lambda>k. Inr (k, m)))"

subsection \<open>Allocation\<close>

definition note_new_blocks :: "block_ref list \<Rightarrow> manager \<Rightarrow> manager" where
  "note_new_blocks bs m =
     (if spec_class_of (m_spec m) = FullAttentionSpec
      then m\<lparr>new_block_ids := new_block_ids m @ map block_id bs\<rparr> else m)"

definition base_allocate_new_computed_blocks ::
  "string \<Rightarrow> block_ref list \<Rightarrow> int \<Rightarrow> int \<Rightarrow> manager \<Rightarrow> block_pool \<Rightarrow> (manager \<times> block_pool) result" where
  "base_allocate_new_computed_blocks rid new_computed num_local num_external m p =
     (if is_running rid m
      then bindR (assertR (length new_computed = 0)) (\<lambda>_. Inr (m, p))
      else
        bindR (assertR (length (blocks_of rid m) = 0)) (\<lambda>_.
          let total = num_local + num_external;
              skipped_tokens = get_num_skipped_tokens m total;
              num_skipped = skipped_tokens div m_block_size m;
              new_computed' = (if num_skipped > 0 then slice_from new_computed num_skipped
                               else new_computed);
              num_external' = (if num_skipped > 0 then min (total - skipped_tokens) num_external
                               else num_external)
          in bindR (if m_enable_caching m then touch new_computed' p
                    else bindR (assertR (new_computed' = [])) (\<lambda>_. Inr p)) (\<lambda>p1.
               let bs = replicate (nat num_skipped) (m_null_block m) @ new_computed';
                   m1 = set_blocks rid bs m;
                   m2 = m1\<lparr>num_cached_block :=
                            AList.update rid (int (length bs)) (num_cached_block m1)\<rparr>
               in if num_external' > 0
                  then bindR (get_new_blocks (cdiv total (m_block_size m) - int (length bs)) p1)
                         (\<lambda>(new, p2). Inr (note_new_blocks new (set_blocks rid (bs @ new) m2), p2))
                  else Inr (m2, p1))))"

definition allocate_new_computed_blocks ::
  "string \<Rightarrow> block_ref list \<Rightarrow> int \<Rightarrow> int \<Rightarrow> manager \<Rightarrow> block_pool \<Rightarrow> (manager \<times> block_pool) result" where
  "allocate_new_computed_blocks rid new_computed num_local num_external m p =
     (case spec_class_of (m_spec m) of
        CrossAttentionSpec \<Rightarrow> bindR (assertR (length new_computed = 0)) (\<lambda>_. Inr (m, p))
      | _ \<Rightarrow> base_allocate_new_computed_blocks rid new_computed num_local num_external m p)"

definition base_allocate_new_blocks ::
  "string \<Rightarrow> int \<Rightarrow> manager \<Rightarrow> block_pool \<Rightarrow> (block_ref list \<times> manager \<times> block_pool) result" where
  "base_allocate_new_blocks rid num_toks m p =
     (let bs = blocks_of rid m;
          m1 = ensure_blocks rid m;
          num_new = cdiv num_toks (m_block_size m) - int (length bs)
      in if num_new \<le> 0 then Inr ([], m1, p)
         else bindR (get_new_blocks num_new p) (\<lambda>(new, p').
                Inr (new, note_new_blocks new (set_blocks rid (bs @ new) m1), p')))"

text \<open>The reuse of the previous speculative blocks in the align mode of Mamba.\<close>

fun reuse_speculative ::
  "block_ref \<Rightarrow> int \<Rightarrow> int list \<Rightarrow> block_ref list \<Rightarrow> block_ref list result" where
  "reuse_speculative null num_skipped [] bs = Inr bs"
| "reuse_speculative null num_skipped (i # js) bs =
     (if i < num_skipped
      then bindR (py_nth bs i) (\<lambda>b.
             reuse_speculative null num_skipped js
               ((bs @ [b])[(if i < 0 then nat (int (length bs) + 1 + i) else nat i) := null]))
      else Inr bs)"

definition align_allocate_new_blocks ::
  "int \<Rightarrow> string \<Rightarrow> int \<Rightarrow> manager \<Rightarrow> block_pool \<Rightarrow> (block_ref list \<times> manager \<times> block_pool) result" where
  "align_allocate_new_blocks spec_blocks rid main_toks m p =
     (let bs = blocks_of rid m;
          m0 = ensure_blocks rid m;
          num_required = cdiv main_toks (m_block_size m) + spec_blocks;
          prev_len = int (length bs)
      in if num_required = prev_len then Inr ([], m0, p)
         else
           bindR (assertR (num_required > prev_len)) (\<lambda>_.
             let allocated = rid \<in> set (allocated_block_reqs m0);
                 m1 = (if allocated
                       then m0\<lparr>last_state_block_idx :=
                                AList.update rid (prev_len - 1 - spec_blocks) (last_state_block_idx m0)\<rparr>
                       else if prev_len > 0
                       then m0\<lparr>last_state_block_idx :=
                                AList.update rid (prev_len - 1) (last_state_block_idx m0)\<rparr>
                       else m0);
                 num_skipped = num_required - spec_blocks - 1;
                 bs1 = (if prev_len < num_skipped
                        then bs @ replicate (nat (num_skipped - prev_len)) (m_null_block m1) else bs)
             in bindR (if allocated
                       then reuse_speculative (m_null_block m1) num_skipped
                              [prev_len - spec_blocks..prev_len - 1] bs1
                       else Inr bs1) (\<lambda>bs2.
                  let num_new = num_required - int (length bs2)
                  in bindR (assertR (if allocated then num_new \<le> 1 else num_new \<le> spec_blocks + 1)) (\<lambda>_.
                     bindR (get_new_blocks num_new p) (\<lambda>(new, p').
                       Inr (slice_from (bs2 @ new) prev_len,
                            (set_blocks rid (bs2 @ new) m1)\<lparr>allocated_block_reqs :=
                               List.insert rid (allocated_block_reqs m1)\<rparr>, p'))))))"

definition allocate_new_blocks ::
  "string \<Rightarrow> int \<Rightarrow> int \<Rightarrow> manager \<Rightarrow> block_pool \<Rightarrow> (block_ref list \<times> manager \<times> block_pool) result" where
  "allocate_new_blocks rid num_toks main_toks m p =
     (case spec_class_of (m_spec m) of
        MambaSpec mode spec_blocks \<Rightarrow>
          if mode \<noteq> ''align''
          then base_allocate_new_blocks rid
                 (if spec_blocks > 0 then num_toks + m_block_size m * spec_blocks else num_toks) m p
          else align_allocate_new_blocks spec_blocks rid main_toks m p
      | _ \<Rightarrow> base_allocate_new_blocks rid num_toks m p)"

definition take_new_block_ids :: "manager \<Rightarrow> int list \<times> manager" where
  "take_new_block_ids m = (new_block_ids m, m\<lparr>new_block_ids := []\<rparr>)"

subsection \<open>Caching, freeing\<close>

definition base_cache_blocks ::
  "hash_env \<Rightarrow> request \<Rightarrow> int \<Rightarrow> manager \<Rightarrow> block_pool \<Rightarrow> (request \<times> manager \<times> block_pool) result" where
  "base_cache_blocks env r num_toks m p =
     (let rid = request_id r;
          cached = num_cached rid m;
          num_full = num_toks div m_block_size m
      in if cached \<ge> num_full then Inr (r, m, p)
         else
           bindR (cache_full_blocks env r (blocks_of rid m) cached num_full (m_block_size m)
                    (kv_cache_group_id m) p) (\<lambda>(r', p').
             Inr (r', (ensure_blocks rid m)\<lparr>num_cached_block :=
                         AList.update rid num_full (num_cached_block m)\<rparr>, p')))"

text \<open>Mamba remembers the hashes cached in this step.\<close>

fun note_cached_hashes :: "store \<Rightarrow> block_ref list \<Rightarrow> bytes list \<Rightarrow> bytes list result" where
  "note_cached_hashes s [] hs = Inr hs"
| "note_cached_hashes s (b # bs) hs =
     (if is_null (s b) then note_cached_hashes s bs hs
      else (case block_hash (s b) of
              None \<Rightarrow> Inl AssertionError
            | Some h \<Rightarrow> note_cached_hashes s bs (List.insert h hs)))"

definition cache_blocks ::
  "hash_env \<Rightarrow> request \<Rightarrow> int \<Rightarrow> manager \<Rightarrow> block_pool \<Rightarrow> (request \<times> manager \<times> block_pool) result" where
  "cache_blocks env r num_toks m p =
     (case spec_class_of (m_spec m) of
        CrossAttentionSpec \<Rightarrow> Inl ValueError
      | MambaSpec _ _ \<Rightarrow>
          bindR (base_cache_blocks env r num_toks m p) (\<lambda>(r', m', p').
            let cached_before = num_cached (request_id r) m;
                cached_after = num_cached (request_id r) m'
            in if cached_after > cached_before
               then bindR (note_cached_hashes (pool_store p')
                             (slice_between (blocks_of (request_id r) m') cached_before cached_after)
                             (cached_blocks_this_step m'))
                      (\<lambda>hs. Inr (r', m'\<lparr>cached_blocks_this_step := hs\<rparr>, p'))
               else Inr (r', m', p'))
      | _ \<Rightarrow> base_cache_blocks env r num_toks m p)"

definition base_free :: "string \<Rightarrow> manager \<Rightarrow> block_pool \<Rightarrow> (manager \<times> block_pool) result" where
  "base_free rid m p =
     bindR (free_blocks (rev (blocks_of rid m)) p) (\<lambda>p'.
       Inr (m\<lparr>req_to_blocks := AList.delete rid (req_to_blocks m),
              num_cached_block := AList.delete rid (num_cached_block m)\<rparr>, p'))"

definition free :: "string \<Rightarrow> manager \<Rightarrow> block_pool \<Rightarrow> (manager \<times> block_pool) result" where
  "free rid m p =
     (case spec_class_of (m_spec m) of
        MambaSpec mode _ \<Rightarrow>
          base_free rid
            (if mode = ''align''
             then m\<lparr>allocated_block_reqs := removeAll rid (allocated_block_reqs m),
                    last_state_block_idx := AList.delete rid (last_state_block_idx m)\<rparr>
             else m) p
      | _ \<Rightarrow> base_free rid m p)"

text \<open>
  The loop of \<open>remove_skipped_blocks\<close> from index \<open>n - 1\<close> down to 0: the blocks removed so far and
  the block list, with removed entries replaced by the null block.
\<close>

fun remove_skipped_loop ::
  "block_ref \<Rightarrow> nat \<Rightarrow> block_ref list \<Rightarrow> block_ref list \<Rightarrow> block_ref list \<times> block_ref list" where
  "remove_skipped_loop null 0 removed bs = (removed, bs)"
| "remove_skipped_loop null (Suc i) removed bs =
     (if bs ! i = null then (removed, bs)
      else remove_skipped_loop null i (removed @ [bs ! i]) (bs[i := null]))"

definition base_remove_skipped_blocks ::
  "string \<Rightarrow> int \<Rightarrow> manager \<Rightarrow> block_pool \<Rightarrow> (manager \<times> block_pool) result" where
  "base_remove_skipped_blocks rid total_computed m p =
     (let skipped_tokens = get_num_skipped_tokens m total_computed
      in if skipped_tokens \<le> 0 then Inr (m, p)
         else
           let bs = blocks_of rid m;
               n = min (skipped_tokens div m_block_size m) (int (length bs))
           in case remove_skipped_loop (m_null_block m) (nat n) [] bs of
                (removed, bs') \<Rightarrow>
                  bindR (free_blocks removed p) (\<lambda>p'. Inr (set_blocks rid bs' m, p')))"

definition remove_skipped_blocks ::
  "string \<Rightarrow> int \<Rightarrow> manager \<Rightarrow> block_pool \<Rightarrow> (manager \<times> block_pool) result" where
  "remove_skipped_blocks rid computed m p =
     (case spec_class_of (m_spec m) of
        MambaSpec mode spec_blocks \<Rightarrow>
          let computed' = max 0 (computed - spec_blocks)
          in bindR (base_remove_skipped_blocks rid computed' m p) (\<lambda>(m1, p1).
               if mode = ''align'' then
                 (case map_of (last_state_block_idx m1) rid of
                    None \<Rightarrow> Inr (m1, p1)
                  | Some i \<Rightarrow>
                      if i < cdiv computed' (m_block_size m1) - 1
                      then
                        let bs = blocks_of rid m1
                        in bindR (py_nth bs i) (\<lambda>b.
                             if b \<noteq> m_null_block m1
                             then bindR (free_blocks [b] p1) (\<lambda>p2.
                                    Inr (set_blocks rid
                                      (bs[(if i < 0 then nat (int (length bs) + i) else nat i)
                                          := m_null_block m1]) m1, p2))
                             else Inr (ensure_blocks rid m1, p1))
                      else Inr (m1, p1))
               else Inr (m1, p1))
      | _ \<Rightarrow> base_remove_skipped_blocks rid computed m p)"

fun common_prefix_loop :: "store \<Rightarrow> int \<Rightarrow> block_ref list \<Rightarrow> int" where
  "common_prefix_loop s n [] = 0"
| "common_prefix_loop s n (b # bs) = (if ref_cnt (s b) = n then 1 + common_prefix_loop s n bs else 0)"

definition get_num_common_prefix_blocks :: "string \<Rightarrow> manager \<Rightarrow> block_pool \<Rightarrow> int \<times> manager" where
  "get_num_common_prefix_blocks rid m p =
     (case spec_manager_map (spec_class_of (m_spec m)) of
        FullAttentionManager \<Rightarrow>
          let m' = ensure_blocks rid m
          in (common_prefix_loop (pool_store p) (int (length (req_to_blocks m'))) (blocks_of rid m'), m')
      | SinkFullAttentionManager \<Rightarrow>
          let m' = ensure_blocks rid m
          in (common_prefix_loop (pool_store p) (int (length (req_to_blocks m'))) (blocks_of rid m'), m')
      | _ \<Rightarrow> (0, m))"

definition new_step_starts :: "manager \<Rightarrow> manager" where
  "new_step_starts m =
     (case spec_class_of (m_spec m) of
        MambaSpec _ _ \<Rightarrow> m\<lparr>cached_blocks_this_step := []\<rparr>
      | _ \<Rightarrow> m)"

subsection \<open>The longest cache hit\<close>

text \<open>
  A hit is a list of blocks per group. \<open>cached_block\<close> is truthy when it is a non-empty list: with
  no group ids every lookup counts as a miss.
\<close>

definition lookup_hit :: "block_pool \<Rightarrow> nat list \<Rightarrow> bytes \<Rightarrow> block_ref list option result" where
  "lookup_hit p gids h =
     bindR (get_cached_block p h gids) (\<lambda>found.
       Inr (case found of Some (b # bs) \<Rightarrow> Some (b # bs) | _ \<Rightarrow> None))"

definition append_hit :: "block_ref list list \<Rightarrow> block_ref list \<Rightarrow> block_ref list list" where
  "append_hit computed cached = map2 (\<lambda>c b. c @ [b]) computed cached"

fun hit_loop ::
  "block_pool \<Rightarrow> nat list \<Rightarrow> bytes list \<Rightarrow> block_ref list list \<Rightarrow> block_ref list list result" where
  "hit_loop p gids [] computed = Inr computed"
| "hit_loop p gids (h # hs) computed =
     bindR (lookup_hit p gids h) (\<lambda>found.
       case found of
         Some bs \<Rightarrow> hit_loop p gids hs (append_hit computed bs)
       | None \<Rightarrow> Inr computed)"

text \<open>The trimming loop to a multiple of the alignment, for the current number of blocks.\<close>

fun align_loop :: "int \<Rightarrow> int \<Rightarrow> nat \<Rightarrow> block_ref list list \<Rightarrow> block_ref list list" where
  "align_loop bsz al 0 computed = computed"
| "align_loop bsz al (Suc n) computed =
     (if bsz \<noteq> al \<and> int (Suc n) * bsz mod al \<noteq> 0
      then align_loop bsz al n (map butlast computed) else computed)"

definition full_find_longest_cache_hit ::
  "bytes list \<Rightarrow> int \<Rightarrow> nat list \<Rightarrow> block_pool \<Rightarrow> kv_cache_spec \<Rightarrow> bool \<Rightarrow> int \<Rightarrow> int \<Rightarrow> int
   \<Rightarrow> block_ref list list result" where
  "full_find_longest_cache_hit hs max_length gids p spec use_eagle al dcp pcp =
     bindR (assertR (is_full_spec (spec_class_of spec)
              \<or> spec_manager_map (spec_class_of spec) = ChunkedLocalAttentionManager)) (\<lambda>_.
       let bsz = scaled_block_size spec dcp pcp;
           max_num = max_length div bsz
       in if max_num < 0 then Inl ValueError
          else bindR (hit_loop p gids (take (nat max_num) hs) (replicate (length gids) [])) (\<lambda>computed.
            case computed of
              [] \<Rightarrow> if use_eagle \<or> bsz \<noteq> al then Inl IndexError else Inr computed
            | c # _ \<Rightarrow>
                let computed' = (if use_eagle \<and> c \<noteq> [] then map butlast computed else computed)
                in Inr (align_loop bsz al (length (hd computed')) computed')))"

text \<open>The right-to-left search of the sliding window, below index \<open>n\<close>.\<close>

fun window_loop ::
  "block_pool \<Rightarrow> nat list \<Rightarrow> bytes list \<Rightarrow> int \<Rightarrow> int \<Rightarrow> int \<Rightarrow> nat \<Rightarrow> block_ref list list \<Rightarrow> nat
   \<Rightarrow> (block_ref list list \<times> nat \<times> bool) result" where
  "window_loop p gids hs bsz al need 0 computed contiguous = Inr (computed, contiguous, False)"
| "window_loop p gids hs bsz al need (Suc i) computed contiguous =
     bindR (py_nth hs (int i)) (\<lambda>h.
     bindR (lookup_hit p gids h) (\<lambda>found.
       case found of
         Some bs \<Rightarrow>
           if contiguous = 0 \<and> bsz \<noteq> al \<and> (int i + 1) * bsz mod al \<noteq> 0
           then window_loop p gids hs bsz al need i computed contiguous
           else
             let computed' = map2 (\<lambda>c b. c[i := b]) computed bs
             in if int (contiguous + 1) \<ge> need
                then Inr (map (take (i + (contiguous + 1))) computed', contiguous + 1, True)
                else window_loop p gids hs bsz al need i computed' (contiguous + 1)
       | None \<Rightarrow> window_loop p gids hs bsz al need i computed 0))"

definition window_find_longest_cache_hit ::
  "bytes list \<Rightarrow> int \<Rightarrow> nat list \<Rightarrow> block_pool \<Rightarrow> kv_cache_spec \<Rightarrow> bool \<Rightarrow> int \<Rightarrow> int \<Rightarrow> int
   \<Rightarrow> block_ref list list result" where
  "window_find_longest_cache_hit hs max_length gids p spec use_eagle al dcp pcp =
     (case spec_class_of spec of
        SlidingWindowSpec window \<Rightarrow>
          bindR (assertR (dcp = 1)) (\<lambda>_.
          bindR (assertR (pcp = 1)) (\<lambda>_.
            let bsz = spec_block_size spec;
                need = cdiv (window - 1) bsz + (if use_eagle then 1 else 0);
                max_num = nat (max_length div bsz)
            in bindR (window_loop p gids hs bsz al need max_num
                        (replicate (length gids) (replicate max_num (null_block p))) 0)
                 (\<lambda>(computed, contiguous, match_found).
                   case computed of
                     [] \<Rightarrow> if (\<not> match_found \<and> bsz \<noteq> al) \<or> use_eagle then Inl IndexError else Inr []
                   | _ # _ \<Rightarrow>
                       let c1 = (if match_found then computed
                                 else let c = map (take contiguous) computed
                                      in align_loop bsz al (length (hd c)) c)
                       in if use_eagle \<and> hd c1 \<noteq> []
                          then bindR (assertR (bsz = al)) (\<lambda>_. Inr (map butlast c1))
                          else Inr c1)))
      | _ \<Rightarrow> Inl AssertionError)"

text \<open>The scan of chunked local attention indexes the hashes.\<close>

fun index_hit_loop ::
  "block_pool \<Rightarrow> nat list \<Rightarrow> bytes list \<Rightarrow> int list \<Rightarrow> block_ref list list \<Rightarrow> block_ref list list result" where
  "index_hit_loop p gids hs [] computed = Inr computed"
| "index_hit_loop p gids hs (i # js) computed =
     bindR (py_nth hs i) (\<lambda>h.
     bindR (lookup_hit p gids h) (\<lambda>found.
       case found of
         Some bs \<Rightarrow> index_hit_loop p gids hs js (append_hit computed bs)
       | None \<Rightarrow> Inr computed))"

definition chunked_find_longest_cache_hit ::
  "bytes list \<Rightarrow> int \<Rightarrow> nat list \<Rightarrow> block_pool \<Rightarrow> kv_cache_spec \<Rightarrow> bool \<Rightarrow> int \<Rightarrow> int \<Rightarrow> int
   \<Rightarrow> block_ref list list result" where
  "chunked_find_longest_cache_hit hs max_length gids p spec use_eagle al dcp pcp =
     (case spec_class_of spec of
        ChunkedLocalAttentionSpec chunk \<Rightarrow>
          bindR (assertR (\<not> use_eagle)) (\<lambda>_.
          bindR (assertR (dcp = 1)) (\<lambda>_.
          bindR (assertR (pcp = 1)) (\<lambda>_.
          bindR (assertR (spec_block_size spec = al)) (\<lambda>_.
            let bsz = spec_block_size spec;
                max_num = max_length div bsz;
                start_idx = (if max_length > 0 then max_length div chunk * chunk else 0);
                start = start_idx div bsz
            in index_hit_loop p gids hs [start..max_num - 1]
                 (replicate (length gids) (replicate (nat start) (null_block p)))))))
      | _ \<Rightarrow> Inl AssertionError)"

fun mamba_loop ::
  "block_pool \<Rightarrow> nat list \<Rightarrow> bytes list \<Rightarrow> int \<Rightarrow> int \<Rightarrow> nat \<Rightarrow> block_ref list list result" where
  "mamba_loop p gids hs bsz al 0 = Inr (replicate (length gids) [])"
| "mamba_loop p gids hs bsz al (Suc i) =
     bindR (py_nth hs (int i)) (\<lambda>h.
     bindR (lookup_hit p gids h) (\<lambda>found.
       case found of
         Some bs \<Rightarrow>
           if bsz \<noteq> al \<and> (int i + 1) * bsz mod al \<noteq> 0 then mamba_loop p gids hs bsz al i
           else Inr (map (\<lambda>b. replicate i (null_block p) @ [b]) bs)
       | None \<Rightarrow> mamba_loop p gids hs bsz al i))"

definition mamba_find_longest_cache_hit ::
  "bytes list \<Rightarrow> int \<Rightarrow> nat list \<Rightarrow> block_pool \<Rightarrow> kv_cache_spec \<Rightarrow> bool \<Rightarrow> int \<Rightarrow> int \<Rightarrow> int
   \<Rightarrow> block_ref list list result" where
  "mamba_find_longest_cache_hit hs max_length gids p spec use_eagle al dcp pcp =
     (case spec_class_of spec of
        MambaSpec _ _ \<Rightarrow>
          bindR (assertR (dcp = 1)) (\<lambda>_.
          bindR (assertR (pcp = 1)) (\<lambda>_.
            mamba_loop p gids hs (spec_block_size spec) al
              (nat (max_length div spec_block_size spec))))
      | _ \<Rightarrow> Inl AssertionError)"

definition find_longest_cache_hit ::
  "manager_class \<Rightarrow> bytes list \<Rightarrow> int \<Rightarrow> nat list \<Rightarrow> block_pool \<Rightarrow> kv_cache_spec \<Rightarrow> bool \<Rightarrow> int \<Rightarrow> int \<Rightarrow> int
   \<Rightarrow> block_ref list list result" where
  "find_longest_cache_hit cls hs max_length gids p spec use_eagle al dcp pcp =
     (case cls of
        FullAttentionManager \<Rightarrow> full_find_longest_cache_hit hs max_length gids p spec use_eagle al dcp pcp
      | SinkFullAttentionManager \<Rightarrow>
          full_find_longest_cache_hit hs max_length gids p spec use_eagle al dcp pcp
      | SlidingWindowManager \<Rightarrow> window_find_longest_cache_hit hs max_length gids p spec use_eagle al dcp pcp
      | ChunkedLocalAttentionManager \<Rightarrow>
          chunked_find_longest_cache_hit hs max_length gids p spec use_eagle al dcp pcp
      | MambaManager \<Rightarrow> mamba_find_longest_cache_hit hs max_length gids p spec use_eagle al dcp pcp
      | CrossAttentionManager \<Rightarrow>
          bindR (assertR (spec_class_of spec = CrossAttentionSpec)) (\<lambda>_. Inl NotImplementedError))"

subsection \<open>The blocks a manager holds\<close>

definition held :: "manager \<Rightarrow> block_ref \<Rightarrow> nat" where
  "held m b = (\<Sum>(rid, bs) \<leftarrow> req_to_blocks m. count_list bs b)"

lemma sum_update:
  fixes f :: "'v \<Rightarrow> nat"
  assumes "distinct (map fst d)"
  shows "(\<Sum>(k, v) \<leftarrow> AList.update k w d. f v) + (case map_of d k of None \<Rightarrow> 0 | Some v \<Rightarrow> f v)
       = (\<Sum>(k, v) \<leftarrow> d. f v) + f w"
  using assms
proof (induction d)
  case Nil
  then show ?case by simp
next
  case (Cons a d)
  obtain k' v' where a: "a = (k', v')" by (cases a)
  show ?case
  proof (cases "k' = k")
    case True
    then show ?thesis by (simp add: a)
  next
    case False
    with Cons show ?thesis by (simp add: a)
  qed
qed

lemma sum_delete:
  fixes f :: "'v \<Rightarrow> nat"
  assumes "distinct (map fst d)"
  shows "(\<Sum>(k, v) \<leftarrow> AList.delete k d. f v) + (case map_of d k of None \<Rightarrow> 0 | Some v \<Rightarrow> f v)
       = (\<Sum>(k, v) \<leftarrow> d. f v)"
  using assms
proof (induction d)
  case Nil
  then show ?case by simp
next
  case (Cons a d)
  obtain k' v' where a: "a = (k', v')" by (cases a)
  show ?case
  proof (cases "k' = k")
    case True
    with Cons.prems have "k \<notin> fst ` set d" by (simp add: a)
    then have "AList.delete k d = d" by (simp add: delete_idem)
    with True show ?thesis by (simp add: a)
  next
    case False
    with Cons show ?thesis by (simp add: a)
  qed
qed

lemma count_blocks_of:
  "count_list (blocks_of rid m) b
     = (case map_of (req_to_blocks m) rid of None \<Rightarrow> 0 | Some bs \<Rightarrow> count_list bs b)"
  by (simp add: blocks_of_def dict_get_def split: option.splits)

lemma held_set_blocks:
  "distinct (map fst (req_to_blocks m)) \<Longrightarrow>
   held (set_blocks rid bs m) b + count_list (blocks_of rid m) b = held m b + count_list bs b"
  unfolding held_def set_blocks_def count_blocks_of
  using sum_update [where d = "req_to_blocks m" and k = rid and w = bs and f = "\<lambda>bs. count_list bs b"] by simp

lemma held_delete:
  "distinct (map fst (req_to_blocks m)) \<Longrightarrow>
   held (m\<lparr>req_to_blocks := AList.delete rid (req_to_blocks m), num_cached_block := c\<rparr>) b
     + count_list (blocks_of rid m) b = held m b"
  unfolding held_def count_blocks_of
  using sum_delete [where d = "req_to_blocks m" and k = rid and f = "\<lambda>bs. count_list bs b"] by simp

lemma held_ge: "distinct (map fst (req_to_blocks m)) \<Longrightarrow> count_list (blocks_of rid m) b \<le> held m b"
  using held_delete [where m = m and rid = rid and c = "[]" and b = b] by simp

lemma held_ge2:
  assumes "distinct (map fst (req_to_blocks m))" "rid \<noteq> rid'"
  shows "count_list (blocks_of rid m) b + count_list (blocks_of rid' m) b \<le> held m b"
proof -
  let ?m = "m\<lparr>req_to_blocks := AList.delete rid (req_to_blocks m), num_cached_block := []\<rparr>"
  have "blocks_of rid' ?m = blocks_of rid' m" using assms(2) by (simp add: blocks_of_def)
  moreover have "count_list (blocks_of rid' ?m) b \<le> held ?m b"
    using assms(1) by (intro held_ge) (simp add: distinct_delete)
  ultimately show ?thesis using held_delete [OF assms(1), where rid = rid and c = "[]" and b = b] by simp
qed

lemma blocks_of_set [simp]:
  "blocks_of rid' (set_blocks rid bs m) = (if rid' = rid then bs else blocks_of rid' m)"
  by (simp add: blocks_of_def set_blocks_def)

lemma set_blocks_fields [simp]:
  "m_block_size (set_blocks rid bs m) = m_block_size m" "m_spec (set_blocks rid bs m) = m_spec m"
  "m_enable_caching (set_blocks rid bs m) = m_enable_caching m"
  "num_cached_block (set_blocks rid bs m) = num_cached_block m"
  "kv_cache_group_id (set_blocks rid bs m) = kv_cache_group_id m"
  "m_null_block (set_blocks rid bs m) = m_null_block m"
  "num_cached rid' (set_blocks rid bs m) = num_cached rid' m"
  "is_running rid' (set_blocks rid bs m) = is_running rid' m"
  "distinct (map fst (req_to_blocks m)) \<Longrightarrow> distinct (map fst (req_to_blocks (set_blocks rid bs m)))"
  by (simp_all add: set_blocks_def num_cached_def is_running_def distinct_update)

subsection \<open>The manager invariant\<close>

text \<open>
  \<open>mgr_inv m p xs ext\<close>: the pool is in order with free list \<open>xs\<close>; no request holds a block twice;
  every block's reference count is the number of requests of this manager that hold it plus the
  number \<open>ext\<close> of holders elsewhere (other groups); and, with caching on, the blocks of a request
  behind its cached prefix carry no hash and are held by nobody else.
\<close>

definition req_ok :: "block_pool \<Rightarrow> block_ref list \<Rightarrow> int \<Rightarrow> bool" where
  "req_ok p bs c \<longleftrightarrow>
     set bs \<subseteq> set (blocks p) \<and> distinct (filter (\<lambda>b. b \<noteq> Blk 0) bs) \<and> 0 \<le> c
     \<and> (enable_caching p \<longrightarrow>
          (\<forall>i < length bs. c \<le> int i \<longrightarrow> bs ! i \<noteq> Blk 0 \<longrightarrow> hash_of p (bs ! i) = None \<and> refs p (bs ! i) = 1))"

definition mgr_inv ::
  "manager \<Rightarrow> block_pool \<Rightarrow> block_ref list \<Rightarrow> (block_ref \<Rightarrow> nat) \<Rightarrow> bool" where
  "mgr_inv m p xs ext \<longleftrightarrow>
     pool_ok p xs \<and> distinct (map fst (req_to_blocks m)) \<and> m_null_block m = Blk 0
     \<and> 0 < m_block_size m \<and> m_enable_caching m = enable_caching p
     \<and> (\<forall>b. b \<noteq> Blk 0 \<longrightarrow> refs p b = int (held m b + ext b))
     \<and> (\<forall>rid. req_ok p (blocks_of rid m) (num_cached rid m))"

lemma mgr_invD:
  assumes "mgr_inv m p xs ext"
  shows "pool_ok p xs" "distinct (map fst (req_to_blocks m))" "m_null_block m = Blk 0"
    "0 < m_block_size m" "m_enable_caching m = enable_caching p"
    "b \<noteq> Blk 0 \<Longrightarrow> refs p b = int (held m b + ext b)"
    "req_ok p (blocks_of rid m) (num_cached rid m)"
    "set (blocks_of rid m) \<subseteq> set (blocks p)" "distinct (filter (\<lambda>b. b \<noteq> Blk 0) (blocks_of rid m))"
  using assms by (auto simp: mgr_inv_def req_ok_def)

text \<open>A free block is held by nobody, and a block held once is in one place only.\<close>

lemma free_not_held:
  assumes "mgr_inv m p xs ext" and "b \<in> set xs"
  shows "held m b = 0 \<and> ext b = 0 \<and> b \<noteq> Blk 0 \<and> b \<notin> set (blocks_of rid m)"
proof -
  have b: "b \<noteq> Blk 0" "refs p b = 0"
    using pool_partD(4) [OF mgr_invD(1) [OF assms(1)], of b] assms(2) by auto
  then have "held m b = 0 \<and> ext b = 0" using mgr_invD(6) [OF assms(1)] by simp
  moreover have "count_list (blocks_of rid m) b \<le> held m b" by (rule held_ge [OF mgr_invD(2) [OF assms(1)]])
  ultimately show ?thesis using b(1) by (simp add: count_list_0_iff)
qed

lemma count_pos_iff: "0 < count_list bs b \<longleftrightarrow> b \<in> set bs"
  by (metis count_list_0_iff gr0I less_irrefl)

lemma held_once_exclusive:
  assumes "mgr_inv m p xs ext" and "b \<in> set (blocks_of rid' m)" "b \<noteq> Blk 0" "refs p b = 1" "rid \<noteq> rid'"
  shows "b \<notin> set (blocks_of rid m)"
proof -
  have "count_list (blocks_of rid m) b + count_list (blocks_of rid' m) b \<le> 1"
    using held_ge2 [OF mgr_invD(2) [OF assms(1)] assms(5), of b] mgr_invD(6) [OF assms(1,3)] assms(4)
    by simp
  moreover have "0 < count_list (blocks_of rid' m) b" using assms(2) by (simp add: count_pos_iff)
  ultimately have "count_list (blocks_of rid m) b = 0" by linarith
  then show ?thesis by (simp add: count_list_0_iff)
qed

lemma mgr_inv_cong:
  assumes "mgr_inv m p xs ext" "req_to_blocks m' = req_to_blocks m" "num_cached_block m' = num_cached_block m"
    "m_null_block m' = m_null_block m" "m_block_size m' = m_block_size m"
    "m_enable_caching m' = m_enable_caching m"
  shows "mgr_inv m' p xs ext"
  using assms by (simp add: mgr_inv_def held_def blocks_of_def num_cached_def)

subsection \<open>Operations keep the invariant\<close>

text \<open>
  What an operation of one manager leaves alone: the configuration of manager and pool, and every
  block that somebody else holds and that carries no hash.
\<close>

definition mgr_config :: "manager \<Rightarrow> manager \<Rightarrow> bool" where
  "mgr_config m m' \<longleftrightarrow> m_spec m' = m_spec m \<and> m_block_size m' = m_block_size m
     \<and> kv_cache_group_id m' = kv_cache_group_id m \<and> m_enable_caching m' = m_enable_caching m"

definition untouched :: "manager \<Rightarrow> block_pool \<Rightarrow> block_ref list \<Rightarrow> block_pool \<Rightarrow> bool" where
  "untouched m p xs p' \<longleftrightarrow>
     (\<forall>b. b \<noteq> Blk 0 \<and> held m b = 0 \<and> b \<notin> set xs \<and> hash_of p b = None
        \<longrightarrow> refs p' b = refs p b \<and> hash_of p' b = None)"

definition op_frame ::
  "manager \<Rightarrow> block_pool \<Rightarrow> block_ref list \<Rightarrow> manager \<Rightarrow> block_pool \<Rightarrow> bool" where
  "op_frame m p xs m' p' \<longleftrightarrow> same_config p p' \<and> mgr_config m m' \<and> untouched m p xs p'"

lemma mgr_config_refl [simp]: "mgr_config m m"
  by (simp add: mgr_config_def)

lemma mgr_config_trans: "mgr_config m m' \<Longrightarrow> mgr_config m' m'' \<Longrightarrow> mgr_config m m''"
  by (simp add: mgr_config_def)

lemma mgr_config_set_blocks [simp]:
  "mgr_config m (set_blocks rid bs m') = mgr_config m m'" "mgr_config m (ensure_blocks rid m') = mgr_config m m'"
  "mgr_config m (m'\<lparr>num_cached_block := c\<rparr>) = mgr_config m m'"
  "mgr_config m (m'\<lparr>req_to_blocks := d\<rparr>) = mgr_config m m'"
  "mgr_config m (note_new_blocks bs m') = mgr_config m m'"
  by (simp_all add: mgr_config_def ensure_blocks_def set_blocks_def note_new_blocks_def)

lemma op_frame_refl [simp]: "op_frame m p xs m p"
  by (simp add: op_frame_def untouched_def)

lemma op_frame_self: "mgr_config m m' \<Longrightarrow> op_frame m p xs m' p"
  by (simp add: op_frame_def untouched_def)

text \<open>A request's view of the pool is kept when its own blocks are.\<close>

lemma req_ok_frame:
  assumes "req_ok p bs c" and "blocks p' = blocks p" "enable_caching p' = enable_caching p"
    and "\<And>b. b \<in> set bs \<Longrightarrow> b \<noteq> Blk 0 \<Longrightarrow> refs p b = 1 \<Longrightarrow> hash_of p b = None \<Longrightarrow>
           refs p' b = 1 \<and> hash_of p' b = None"
  shows "req_ok p' bs c"
  using assms by (auto simp: req_ok_def)

text \<open>Fresh blocks appended to a request.\<close>

lemma mgr_extend:
  assumes inv: "mgr_inv m p xs ext" and n: "n \<le> length xs"
    and m': "m' = set_blocks rid (blocks_of rid m @ take n xs) m"
  shows "\<exists>p'. get_new_blocks (int n) p = Inr (take n xs, p') \<and> mgr_inv m' p' (drop n xs) ext
    \<and> same_config p p' \<and> (\<forall>b. b \<notin> set (take n xs) \<longrightarrow> hash_of p' b = hash_of p b \<and> refs p' b = refs p b)"
proof -
  note ok = mgr_invD(1) [OF inv]
  let ?new = "take n xs"
  obtain p' where p': "get_new_blocks (int n) p = Inr (?new, p')" "pool_ok p' (drop n xs)"
    "same_config p p'" "\<forall>x. refs p' x = (if x \<in> set ?new then 1 else refs p x)"
    "\<forall>x. hash_of p' x = (if x \<in> set ?new \<and> enable_caching p then None else hash_of p x)"
    using get_new_blocks_spec [OF ok n] by blast
  have conf: "blocks p' = blocks p" "enable_caching p' = enable_caching p"
    using p'(3) by (simp_all add: same_config_def)
  have fresh: "held m b = 0" "ext b = 0" "b \<noteq> Blk 0" "b \<notin> set (blocks_of r m)" "b \<in> set (blocks p)"
    "refs p b = 0" if "b \<in> set ?new" for b r
    using free_not_held [OF inv in_set_takeD [OF that], of r] pool_partD(4) [OF ok, of b]
      in_set_takeD [OF that] by auto
  have dx: "distinct ?new" using pool_partD(2) [OF ok] by simp
  have held: "held m' b = held m b + count_list ?new b" for b
    using held_set_blocks [OF mgr_invD(2) [OF inv], where rid = rid and bs = "blocks_of rid m @ ?new" and b = b]
    by (simp add: m')
  have counts: "refs p' b = int (held m' b + ext b)" if "b \<noteq> Blk 0" for b
    using mgr_invD(6) [OF inv that] p'(4) fresh [of b] dx
    by (cases "b \<in> set ?new") (simp_all add: held distinct_count_list)
  have other: "req_ok p' (blocks_of r m) (num_cached r m)" for r
    by (rule req_ok_frame [OF mgr_invD(7) [OF inv] conf]) (use p'(4,5) fresh(4) in \<open>auto\<close>)
  have "req_ok p' (blocks_of rid m @ ?new) (num_cached rid m)"
    unfolding req_ok_def
  proof (intro conjI impI allI)
    show "set (blocks_of rid m @ ?new) \<subseteq> set (blocks p')"
      using mgr_invD(8) [OF inv] fresh(5) conf by auto
    show "distinct (filter (\<lambda>b. b \<noteq> Blk 0) (blocks_of rid m @ ?new))"
      using mgr_invD(9) [OF inv, of rid] dx fresh(4) by auto
    show "0 \<le> num_cached rid m" using mgr_invD(7) [OF inv, of rid] by (simp add: req_ok_def)
    fix i assume i: "enable_caching p'" "i < length (blocks_of rid m @ ?new)" "num_cached rid m \<le> int i"
      "(blocks_of rid m @ ?new) ! i \<noteq> Blk 0"
    have "hash_of p' ((blocks_of rid m @ ?new) ! i) = None \<and> refs p' ((blocks_of rid m @ ?new) ! i) = 1"
    proof (cases "i < length (blocks_of rid m)")
      case True
      then show ?thesis using other [of rid] i by (simp add: req_ok_def nth_append)
    next
      case False
      then have "(blocks_of rid m @ ?new) ! i \<in> set ?new"
        using i(2) by (metis add_diff_inverse_nat length_append nat_add_left_cancel_less nth_append nth_mem)
      with p'(4,5) i(1) conf show ?thesis by simp
    qed
    then show "hash_of p' ((blocks_of rid m @ ?new) ! i) = None"
      and "refs p' ((blocks_of rid m @ ?new) ! i) = 1" by blast+
  qed
  with other have "mgr_inv m' p' (drop n xs) ext"
    using inv p'(2) counts conf by (auto simp: mgr_inv_def m')
  moreover have "\<forall>b. b \<notin> set ?new \<longrightarrow> hash_of p' b = hash_of p b \<and> refs p' b = refs p b"
    using p'(4,5) by simp
  ultimately show ?thesis using p'(1,3) by blast
qed

lemma ensure_blocks_inv: "mgr_inv m p xs ext \<Longrightarrow> mgr_inv (ensure_blocks rid m) p xs ext"
proof -
  assume inv: "mgr_inv m p xs ext"
  have "held (ensure_blocks rid m) b = held m b" for b
    using held_set_blocks [OF mgr_invD(2) [OF inv], where rid = rid and bs = "blocks_of rid m" and b = b]
    by (simp add: ensure_blocks_def)
  with inv show ?thesis by (auto simp: mgr_inv_def ensure_blocks_def)
qed

lemma note_new_blocks_inv:
  "mgr_inv m p xs ext \<Longrightarrow> mgr_inv (note_new_blocks bs m) p xs ext"
  by (erule mgr_inv_cong) (simp_all add: note_new_blocks_def)

lemma note_new_blocks_fields [simp]:
  "blocks_of rid (note_new_blocks bs m) = blocks_of rid m"
  "num_cached rid (note_new_blocks bs m) = num_cached rid m"
  "is_running rid (note_new_blocks bs m) = is_running rid m"
  by (simp_all add: note_new_blocks_def blocks_of_def num_cached_def is_running_def)

text \<open>Allocation for new tokens: the blocks that are missing, from the front of the free list.\<close>

lemma base_allocate_new_blocks_spec:
  fixes n :: int and rid :: string
  assumes inv: "mgr_inv m p xs ext"
  defines "need \<equiv> cdiv n (m_block_size m) - int (length (blocks_of rid m))"
  shows "need \<le> int (length xs) \<Longrightarrow>
      \<exists>m' p'. base_allocate_new_blocks rid n m p = Inr (take (nat need) xs, m', p')
        \<and> mgr_inv m' p' (drop (nat need) xs) ext \<and> op_frame m p xs m' p'
        \<and> blocks_of rid m' = blocks_of rid m @ take (nat need) xs
        \<and> (\<forall>r. r \<noteq> rid \<longrightarrow> blocks_of r m' = blocks_of r m)
        \<and> n \<le> int (length (blocks_of rid m')) * m_block_size m"
    and "int (length xs) < need \<Longrightarrow> base_allocate_new_blocks rid n m p = Inl ValueError"
proof -
  assume le: "need \<le> int (length xs)"
  have enough: "n \<le> int (length (blocks_of rid m @ take (nat need) xs)) * m_block_size m"
    using le mgr_invD(4) [OF inv] unfolding need_def
    by (simp flip: cdiv_le_iff)
  show "\<exists>m' p'. base_allocate_new_blocks rid n m p = Inr (take (nat need) xs, m', p')
        \<and> mgr_inv m' p' (drop (nat need) xs) ext \<and> op_frame m p xs m' p'
        \<and> blocks_of rid m' = blocks_of rid m @ take (nat need) xs
        \<and> (\<forall>r. r \<noteq> rid \<longrightarrow> blocks_of r m' = blocks_of r m)
        \<and> n \<le> int (length (blocks_of rid m')) * m_block_size m"
  proof (cases "need \<le> 0")
    case True
    then show ?thesis
      using ensure_blocks_inv [OF inv, of rid] enough
      by (intro exI [of _ "ensure_blocks rid m"] exI [of _ p])
        (simp add: base_allocate_new_blocks_def Let_def need_def ensure_blocks_def op_frame_self)
  next
    case False
    let ?m = "set_blocks rid (blocks_of rid m @ take (nat need) xs) (ensure_blocks rid m)"
    obtain p' where p': "get_new_blocks (int (nat need)) p = Inr (take (nat need) xs, p')"
      "mgr_inv ?m p' (drop (nat need) xs) ext" "same_config p p'"
      "\<forall>b. b \<notin> set (take (nat need) xs) \<longrightarrow> hash_of p' b = hash_of p b \<and> refs p' b = refs p b"
      using mgr_extend [OF ensure_blocks_inv [OF inv, of rid], of "nat need" ?m rid] le False
      by (force simp: ensure_blocks_def)
    have "untouched m p xs p'" using p'(4) by (auto simp: untouched_def dest: in_set_takeD)
    then have fr: "op_frame m p xs (note_new_blocks (take (nat need) xs) ?m) p'"
      using p'(3) by (simp add: op_frame_def)
    show ?thesis
      using False p' note_new_blocks_inv [OF p'(2)] enough fr
      by (intro exI [of _ "note_new_blocks (take (nat need) xs) ?m"] exI [of _ p'])
        (simp add: base_allocate_new_blocks_def Let_def need_def ensure_blocks_def)
  qed
next
  assume "int (length xs) < need"
  then show "base_allocate_new_blocks rid n m p = Inl ValueError"
    using get_new_blocks_too_many [OF mgr_invD(1) [OF inv]]
    by (simp add: base_allocate_new_blocks_def Let_def need_def)
qed

text \<open>
  Releasing blocks: \<open>gone\<close> are blocks of the request \<open>rid\<close>, whose list becomes \<open>bs'\<close>; the invariant
  follows whenever the new list is the old one with exactly those blocks taken out.
\<close>

lemma mgr_release:
  assumes inv: "mgr_inv m p xs ext" and gone: "set gone \<subseteq> set (blocks_of rid m)"
    "distinct (filter (\<lambda>b. b \<noteq> Blk 0) gone)"
    and m': "m_null_block m' = m_null_block m" "m_block_size m' = m_block_size m"
      "m_enable_caching m' = m_enable_caching m" "distinct (map fst (req_to_blocks m'))"
    and held': "\<And>b. b \<noteq> Blk 0 \<Longrightarrow> held m' b + count_list gone b = held m b"
    and others: "\<And>r. r \<noteq> rid \<Longrightarrow> blocks_of r m' = blocks_of r m \<and> num_cached r m' = num_cached r m"
    and own: "\<And>p'. same_config p p' \<Longrightarrow> (\<And>b. hash_of p' b = hash_of p b) \<Longrightarrow>
        (\<And>b. b \<notin> set gone \<Longrightarrow> refs p' b = refs p b) \<Longrightarrow> req_ok p' (blocks_of rid m') (num_cached rid m')"
  shows "\<exists>p'. free_blocks gone p = Inr p'
    \<and> mgr_inv m' p' (xs @ filter (\<lambda>b. b \<noteq> Blk 0 \<and> refs p b = 1) gone) ext \<and> same_config p p'
    \<and> (\<forall>b. hash_of p' b = hash_of p b) \<and> untouched m p xs p'"
proof -
  note ok = mgr_invD(1) [OF inv]
  have sub: "set gone \<subseteq> set (blocks p)" using gone(1) mgr_invD(8) [OF inv, of rid] by blast
  have pos: "1 \<le> refs p b" if "b \<in> set gone" "b \<noteq> Blk 0" for b
  proof -
    have "0 < count_list (blocks_of rid m) b" using that(1) gone(1) by (auto simp: count_pos_iff)
    then have "1 \<le> held m b" using held_ge [OF mgr_invD(2) [OF inv], of rid b] by linarith
    then show ?thesis using mgr_invD(6) [OF inv that(2)] by simp
  qed
  obtain p' where p': "free_blocks gone p = Inr p'"
    "pool_ok p' (xs @ filter (\<lambda>b. b \<noteq> Blk 0 \<and> refs p b = 1) gone)" "same_config p p'"
    "\<forall>x. refs p' x = refs p x - int (count_list gone x)" "\<forall>x. hash_of p' x = hash_of p x"
    using free_blocks_spec [OF ok sub pos gone(2)] by blast
  have conf: "blocks p' = blocks p" "enable_caching p' = enable_caching p"
    using p'(3) by (simp_all add: same_config_def)
  have keep: "refs p' b = refs p b" if "b \<notin> set gone" for b
    using p'(4) that by simp
  have counts: "refs p' b = int (held m' b + ext b)" if "b \<noteq> Blk 0" for b
    using mgr_invD(6) [OF inv that] held' [OF that] p'(4) by simp
  have "req_ok p' (blocks_of r m') (num_cached r m')" for r
  proof (cases "r = rid")
    case True
    have "\<And>b. hash_of p' b = hash_of p b" using p'(5) by simp
    with own [OF p'(3) _ keep] True show ?thesis by simp
  next
    case False
    have "req_ok p' (blocks_of r m) (num_cached r m)"
    proof (rule req_ok_frame [OF mgr_invD(7) [OF inv] conf])
      fix b assume b: "b \<in> set (blocks_of r m)" "b \<noteq> Blk 0" "refs p b = 1" "hash_of p b = None"
      have "b \<notin> set (blocks_of rid m)"
        by (rule held_once_exclusive [OF inv b(1-3)]) (use False in \<open>simp\<close>)
      then have "b \<notin> set gone" using gone(1) by blast
      with keep p'(5) b show "refs p' b = 1 \<and> hash_of p' b = None" by simp
    qed
    with others [OF False] show ?thesis by simp
  qed
  moreover have "m_null_block m' = Blk 0" "0 < m_block_size m'" "m_enable_caching m' = enable_caching p'"
    using m' conf mgr_invD(3-5) [OF inv] by simp_all
  ultimately have "mgr_inv m' p' (xs @ filter (\<lambda>b. b \<noteq> Blk 0 \<and> refs p b = 1) gone) ext"
    using p'(2) m'(4) counts unfolding mgr_inv_def by blast
  moreover have "untouched m p xs p'"
  proof -
    have "count_list gone b = 0" if "b \<noteq> Blk 0" "held m b = 0" for b
      using held' [OF that(1)] that(2) by simp
    then show ?thesis using p'(4,5) by (simp add: untouched_def)
  qed
  ultimately show ?thesis using p' by blast
qed

lemma base_free_spec:
  assumes inv: "mgr_inv m p xs ext"
  shows "\<exists>m' p'. base_free rid m p = Inr (m', p')
    \<and> mgr_inv m' p' (xs @ filter (\<lambda>b. b \<noteq> Blk 0 \<and> refs p b = 1) (rev (blocks_of rid m))) ext
    \<and> op_frame m p xs m' p' \<and> blocks_of rid m' = [] \<and> \<not> is_running rid m'
    \<and> (\<forall>r. r \<noteq> rid \<longrightarrow> blocks_of r m' = blocks_of r m)
    \<and> (\<forall>b. hash_of p' b = hash_of p b)"
proof -
  let ?gone = "rev (blocks_of rid m)"
  let ?m = "m\<lparr>req_to_blocks := AList.delete rid (req_to_blocks m),
              num_cached_block := AList.delete rid (num_cached_block m)\<rparr>"
  have bl: "blocks_of r ?m = (if r = rid then [] else blocks_of r m)" for r
    by (simp add: blocks_of_def)
  have nc: "num_cached r ?m = (if r = rid then 0 else num_cached r m)" for r
    by (simp add: num_cached_def)
  have "\<exists>p'. free_blocks ?gone p = Inr p'
    \<and> mgr_inv ?m p' (xs @ filter (\<lambda>b. b \<noteq> Blk 0 \<and> refs p b = 1) ?gone) ext \<and> same_config p p'
    \<and> (\<forall>b. hash_of p' b = hash_of p b) \<and> untouched m p xs p'"
  proof (rule mgr_release [OF inv])
    show "distinct (filter (\<lambda>b. b \<noteq> Blk 0) ?gone)"
      using mgr_invD(9) [OF inv, of rid] by (simp flip: rev_filter)
    show "distinct (map fst (req_to_blocks ?m))"
      using mgr_invD(2) [OF inv] by (simp add: distinct_delete)
    show "held ?m b + count_list ?gone b = held m b" for b
      using held_delete [OF mgr_invD(2) [OF inv], where rid = rid and b = b] by simp
    show "req_ok p' (blocks_of rid ?m) (num_cached rid ?m)" for p'
      by (simp add: bl nc req_ok_def)
  qed (simp_all add: bl nc)
  then show ?thesis
    unfolding base_free_def using bl
    by (auto simp: is_running_def delete_conv' op_frame_def)
qed

text \<open>What the loop of \<open>remove_skipped_blocks\<close> does to the list.\<close>

lemma remove_skipped_loop_spec:
  "n \<le> length bs \<Longrightarrow> remove_skipped_loop null n removed bs = (removed', bs') \<Longrightarrow>
   \<exists>k \<le> n. bs' = take k bs @ replicate (n - k) null @ drop n bs
     \<and> removed' = removed @ rev (drop k (take n bs)) \<and> null \<notin> set (drop k (take n bs))"
proof (induction n arbitrary: removed bs)
  case 0
  then show ?case by simp
next
  case (Suc i)
  show ?case
  proof (cases "bs ! i = null")
    case True
    with Suc.prems show ?thesis by (intro exI [of _ "Suc i"]) simp
  next
    case False
    let ?bs = "bs[i := null]"
    have rec: "remove_skipped_loop null i (removed @ [bs ! i]) ?bs = (removed', bs')"
      using Suc.prems(2) False by simp
    obtain k where k: "k \<le> i" "bs' = take k ?bs @ replicate (i - k) null @ drop i ?bs"
      "removed' = (removed @ [bs ! i]) @ rev (drop k (take i ?bs))" "null \<notin> set (drop k (take i ?bs))"
      using Suc.IH [OF _ rec] Suc.prems(1) by auto
    have len: "i < length bs" using Suc.prems(1) by simp
    have a: "take i ?bs = take i bs" "drop i ?bs = null # drop (Suc i) bs"
      using len by (simp_all add: drop_update_swap Cons_nth_drop_Suc [symmetric])
    have b: "drop k (take (Suc i) bs) = drop k (take i bs) @ [bs ! i]"
      using len k(1) by (simp add: take_Suc_conv_app_nth)
    have c: "replicate (Suc i - k) null = replicate (i - k) null @ [null]"
      using k(1) by (simp add: Suc_diff_le replicate_append_same)
    have "take k ?bs = take k bs" using k(1) by simp
    then show ?thesis
      using k a b c False by (intro exI [of _ k]) simp
  qed
qed

lemma base_remove_skipped_blocks_spec:
  assumes inv: "mgr_inv m p xs ext"
  shows "\<exists>m' p' ys. base_remove_skipped_blocks rid tot m p = Inr (m', p')
    \<and> mgr_inv m' p' (xs @ ys) ext \<and> op_frame m p xs m' p' \<and> (\<forall>b. hash_of p' b = hash_of p b)
    \<and> length (blocks_of rid m') = length (blocks_of rid m)
    \<and> (\<forall>i < length (blocks_of rid m). blocks_of rid m' ! i \<noteq> blocks_of rid m ! i
          \<longrightarrow> blocks_of rid m' ! i = Blk 0 \<and> (int i + 1) * m_block_size m \<le> get_num_skipped_tokens m tot)
    \<and> (\<forall>r. r \<noteq> rid \<longrightarrow> blocks_of r m' = blocks_of r m)
    \<and> (\<forall>r. num_cached r m' = num_cached r m \<and> is_running r m' = is_running r m)"
proof (cases "get_num_skipped_tokens m tot \<le> 0")
  case True
  then show ?thesis
    using inv by (intro exI [of _ m] exI [of _ p] exI [of _ "[]"])
      (simp add: base_remove_skipped_blocks_def Let_def)
next
  case False
  let ?bs = "blocks_of rid m" and ?sk = "get_num_skipped_tokens m tot"
  define n where "n = nat (min (?sk div m_block_size m) (int (length ?bs)))"
  have bs: "0 < m_block_size m" by (rule mgr_invD(4) [OF inv])
  have n_le: "n \<le> length ?bs" by (simp add: n_def)
  obtain removed bs' where loop: "remove_skipped_loop (Blk 0) n [] ?bs = (removed, bs')"
    by (cases "remove_skipped_loop (Blk 0) n [] ?bs")
  obtain k where k: "k \<le> n" "bs' = take k ?bs @ replicate (n - k) (Blk 0) @ drop n ?bs"
    "removed = rev (drop k (take n ?bs))" "Blk 0 \<notin> set removed"
    using remove_skipped_loop_spec [OF n_le loop] by auto
  let ?m = "set_blocks rid bs' m"
  have gap: "bs' ! i = (if k \<le> i \<and> i < n then Blk 0 else ?bs ! i)" if "i < length ?bs" for i
    using that k(1) n_le unfolding k(2) by (auto simp: nth_append min_def not_less)
  have len: "length bs' = length ?bs" using k(1,2) n_le by simp
  have split: "?bs = take k ?bs @ drop k (take n ?bs) @ drop n ?bs"
    using k(1) by (metis append_assoc append_take_drop_id min.absorb1 take_take)
  have sub: "set removed \<subseteq> set ?bs" using k(3) by (auto dest: in_set_dropD in_set_takeD)
  have own: "req_ok p' bs' (num_cached rid m)"
    if "same_config p p'" "\<And>b. hash_of p' b = hash_of p b" "\<And>b. b \<notin> set removed \<Longrightarrow> refs p' b = refs p b" for p'
  proof -
    have rk: "req_ok p ?bs (num_cached rid m)" by (rule mgr_invD(7) [OF inv])
    have nth': "bs' ! i = Blk 0 \<or> (bs' ! i = ?bs ! i \<and> ?bs ! i \<notin> set removed)" if i: "i < length bs'" "bs' ! i \<noteq> Blk 0" for i
    proof -
      have eq: "bs' ! i = ?bs ! i" and side: "i < k \<or> n \<le> i"
        using i gap [of i] len by (auto split: if_splits)
      have "?bs ! i \<notin> set removed"
      proof
        assume "?bs ! i \<in> set removed"
        then obtain l where l: "l < n - k" "?bs ! (k + l) = ?bs ! i"
          using k(3) n_le by (auto simp: in_set_conv_nth)
        define j where "j = k + l"
        have j: "k \<le> j" "j < n" "?bs ! j = ?bs ! i" using l by (simp_all add: j_def)
        have d: "distinct (filter (\<lambda>b. b \<noteq> Blk 0) ?bs)" by (rule mgr_invD(9) [OF inv])
        have nz: "?bs ! i \<noteq> Blk 0" using i(2) eq by simp
        have il: "i < length ?bs" using i(1) len by simp
        have jl: "j < length ?bs" using j(2) n_le by linarith
        have "i = j" by (rule distinct_filter_nth_eq [OF d il jl nz j(3) [symmetric]])
        with j(1,2) side show False by linarith
      qed
      with eq show ?thesis by simp
    qed
    have "Blk 0 \<in> set (blocks p)" using mgr_invD(1) [OF inv] by (auto simp: pool_part_def)
    moreover have "set bs' \<subseteq> insert (Blk 0) (set ?bs)"
      using k(2) by (auto dest: in_set_dropD in_set_takeD)
    moreover have "distinct (filter (\<lambda>b. b \<noteq> Blk 0) bs')"
    proof -
      have "distinct (filter (\<lambda>b. b \<noteq> Blk 0) (take k ?bs @ drop k (take n ?bs) @ drop n ?bs))"
        using rk split by (simp add: req_ok_def)
      then show ?thesis unfolding k(2) by auto
    qed
    moreover have "hash_of p' (bs' ! i) = None \<and> refs p' (bs' ! i) = 1"
      if i: "enable_caching p'" "i < length bs'" "num_cached rid m \<le> int i" "bs' ! i \<noteq> Blk 0" for i
    proof -
      have eq: "bs' ! i = ?bs ! i" "?bs ! i \<notin> set removed" using nth' [OF i(2,4)] i(4) by auto
      have "i < length ?bs" using i(2) len by simp
      then show ?thesis
        using rk i eq that(1) \<open>same_config p p'\<close> \<open>\<And>b. hash_of p' b = hash_of p b\<close>
          \<open>\<And>b. b \<notin> set removed \<Longrightarrow> refs p' b = refs p b\<close>
        by (simp add: req_ok_def same_config_def)
    qed
    ultimately show ?thesis
      using rk \<open>same_config p p'\<close> unfolding req_ok_def same_config_def by auto
  qed
  have cnt: "held ?m b + count_list removed b = held m b" if "b \<noteq> Blk 0" for b
  proof -
    have "count_list ?bs b = count_list (take k ?bs @ drop k (take n ?bs) @ drop n ?bs) b"
      using split by simp
    also have "\<dots> = count_list bs' b + count_list removed b"
      using that by (simp add: k(2,3))
    finally show ?thesis
      using held_set_blocks [OF mgr_invD(2) [OF inv], where rid = rid and bs = bs' and b = b] by simp
  qed
  have drem: "distinct (filter (\<lambda>b. b \<noteq> Blk 0) removed)"
  proof -
    have "distinct (filter (\<lambda>b. b \<noteq> Blk 0) (take k ?bs @ drop k (take n ?bs) @ drop n ?bs))"
      using mgr_invD(9) [OF inv, of rid] split by simp
    then show ?thesis unfolding k(3) by (simp flip: rev_filter)
  qed
  have "\<exists>p'. free_blocks removed p = Inr p'
    \<and> mgr_inv ?m p' (xs @ filter (\<lambda>b. b \<noteq> Blk 0 \<and> refs p b = 1) removed) ext \<and> same_config p p'
    \<and> (\<forall>b. hash_of p' b = hash_of p b) \<and> untouched m p xs p'"
    by (rule mgr_release [OF inv sub drem]) (use mgr_invD(2) [OF inv] cnt own in \<open>simp_all\<close>)
  then obtain p' where p': "free_blocks removed p = Inr p'"
    "mgr_inv ?m p' (xs @ filter (\<lambda>b. b \<noteq> Blk 0 \<and> refs p b = 1) removed) ext" "op_frame m p xs ?m p'"
    "\<forall>b. hash_of p' b = hash_of p b" by (auto simp: op_frame_def)
  have res: "base_remove_skipped_blocks rid tot m p = Inr (?m, p')"
    using False loop p'(1) mgr_invD(3) [OF inv]
    by (simp add: base_remove_skipped_blocks_def Let_def n_def)
  have "bs' ! i = Blk 0 \<and> (int i + 1) * m_block_size m \<le> ?sk" if "i < length ?bs" "bs' ! i \<noteq> ?bs ! i" for i
  proof -
    have i: "k \<le> i" "i < n" using that gap [of i] by (auto split: if_splits)
    then have "int i + 1 \<le> ?sk div m_block_size m" by (simp add: n_def)
    then have "(int i + 1) * m_block_size m \<le> ?sk" using le_div_int_iff [OF bs] by blast
    moreover have "bs' ! i = Blk 0" using i gap [OF that(1)] by simp
    ultimately show ?thesis by simp
  qed
  with res p' len show ?thesis
    by (intro exI [of _ ?m] exI [of _ p'] exI) auto
qed

text \<open>What a prefix-cache hit may hand to a request: cached blocks, each once, and null blocks.\<close>

definition hit_blocks_ok :: "block_pool \<Rightarrow> block_ref list \<Rightarrow> bool" where
  "hit_blocks_ok p new \<longleftrightarrow>
     set new \<subseteq> set (blocks p) \<and> distinct (filter (\<lambda>b. b \<noteq> Blk 0) new)
     \<and> (\<forall>b \<in> set new. b \<noteq> Blk 0 \<longrightarrow> hash_of p b \<noteq> None)"

lemma hit_blocks_ok_drop: "hit_blocks_ok p new \<Longrightarrow> hit_blocks_ok p (drop n new)"
  by (auto simp: hit_blocks_ok_def distinct_filter_take_drop(2) dest: in_set_dropD)

lemma mgr_share:
  assumes inv: "mgr_inv m p xs ext" and none: "blocks_of rid m = []" and hit: "hit_blocks_ok p new"
    and m': "m' = (set_blocks rid (replicate k (Blk 0) @ new) m)
                   \<lparr>num_cached_block := AList.update rid (int (k + length new)) (num_cached_block m)\<rparr>"
  shows "\<exists>p'. touch new p = Inr p' \<and> mgr_inv m' p' (filter (\<lambda>b. b \<notin> set new) xs) ext
    \<and> same_config p p' \<and> untouched m p xs p'
    \<and> (\<forall>b. hash_of p' b = hash_of p b) \<and> (\<forall>b. refs p' b = refs p b + int (count_list new b))"
proof -
  note ok = mgr_invD(1) [OF inv]
  have sub: "set new \<subseteq> set (blocks p)" using hit by (simp add: hit_blocks_ok_def)
  obtain p' where p': "touch new p = Inr p'" "pool_ok p' (filter (\<lambda>x. x \<notin> set new) xs)" "same_config p p'"
    "\<forall>x. refs p' x = refs p x + int (count_list new x)" "\<forall>x. hash_of p' x = hash_of p x"
    using touch_spec [OF ok sub] by blast
  have conf: "blocks p' = blocks p" "enable_caching p' = enable_caching p"
    using p'(3) by (simp_all add: same_config_def)
  have fields: "m_null_block m' = Blk 0" "0 < m_block_size m'" "m_enable_caching m' = enable_caching p'"
    "distinct (map fst (req_to_blocks m'))"
    using mgr_invD(2-5) [OF inv] conf by (simp_all add: m')
  have held: "held m' b = held m b + count_list new b" if "b \<noteq> Blk 0" for b
  proof -
    have "held m' b = held (set_blocks rid (replicate k (Blk 0) @ new) m) b" by (simp add: m' held_def)
    moreover have "count_list (replicate k (Blk 0)) b = 0" using that by (simp add: count_list_0_iff)
    ultimately show ?thesis
      using held_set_blocks [OF mgr_invD(2) [OF inv], where rid = rid and b = b
          and bs = "replicate k (Blk 0) @ new"] none by simp
  qed
  have bl: "blocks_of r m' = (if r = rid then replicate k (Blk 0) @ new else blocks_of r m)" for r
    by (simp add: m' blocks_of_def set_blocks_def)
  have nc: "num_cached r m' = (if r = rid then int (k + length new) else num_cached r m)" for r
    by (simp add: m' num_cached_def)
  have "req_ok p' (blocks_of r m') (num_cached r m')" for r
  proof (cases "r = rid")
    case True
    have "Blk 0 \<in> set (blocks p)" using ok by (auto simp: pool_part_def)
    with True hit conf show ?thesis by (auto simp: bl nc req_ok_def hit_blocks_ok_def)
  next
    case False
    have "req_ok p' (blocks_of r m) (num_cached r m)"
    proof (rule req_ok_frame [OF mgr_invD(7) [OF inv] conf])
      fix b assume b: "b \<noteq> Blk 0" "refs p b = 1" "hash_of p b = None"
      then have "b \<notin> set new" using hit by (auto simp: hit_blocks_ok_def)
      then show "refs p' b = 1 \<and> hash_of p' b = None" using p'(4,5) b by simp
    qed
    with False show ?thesis by (simp add: bl nc)
  qed
  moreover have "refs p' b = int (held m' b + ext b)" if "b \<noteq> Blk 0" for b
    using mgr_invD(6) [OF inv that] p'(4) held [OF that] by simp
  ultimately have "mgr_inv m' p' (filter (\<lambda>b. b \<notin> set new) xs) ext"
    using p'(2) fields unfolding mgr_inv_def by blast
  moreover have "untouched m p xs p'"
    using p'(4,5) hit by (auto simp: untouched_def hit_blocks_ok_def count_list_0_iff)
  ultimately show ?thesis using p' by blast
qed

text \<open>
  Adding the computed blocks of a new request: the skipped ones become null blocks, the others
  are shared, and blocks for externally computed tokens are allocated behind them.
\<close>

definition computed_prefix :: "manager \<Rightarrow> block_ref list \<Rightarrow> int \<Rightarrow> block_ref list" where
  "computed_prefix m new tot =
     (let k = nat (get_num_skipped_tokens m tot div m_block_size m)
      in replicate k (Blk 0) @ drop k new)"

lemma base_allocate_new_computed_blocks_spec:
  fixes num_local num_external :: int and rid :: string
  assumes inv: "mgr_inv m p xs ext" and new: "\<not> is_running rid m" "blocks_of rid m = []"
    and hit: "hit_blocks_ok p hits" and caching: "\<not> m_enable_caching m \<Longrightarrow> hits = []"
  defines "tot \<equiv> num_local + num_external"
  defines "bs \<equiv> computed_prefix m hits tot"
  defines "ys \<equiv> filter (\<lambda>b. b \<notin> set bs) xs"
  defines "need \<equiv> cdiv tot (m_block_size m) - int (length bs)"
  assumes room: "0 \<le> need" "need \<le> int (length ys)"
  shows "\<exists>m' p' n. base_allocate_new_computed_blocks rid hits num_local num_external m p = Inr (m', p')
    \<and> mgr_inv m' p' (drop n ys) ext \<and> op_frame m p xs m' p' \<and> n \<le> nat need
    \<and> blocks_of rid m' = bs @ take n ys \<and> num_cached rid m' = int (length bs) \<and> is_running rid m'
    \<and> (\<forall>r. r \<noteq> rid \<longrightarrow> blocks_of r m' = blocks_of r m)"
proof -
  define sk where "sk = get_num_skipped_tokens m tot div m_block_size m"
  define hits' where "hits' = drop (nat sk) hits"
  have cond: "(if sk > 0 then slice_from hits sk else hits) = hits'" by (simp add: hits'_def)
  have bs: "bs = replicate (nat sk) (Blk 0) @ hits'"
    by (simp add: bs_def computed_prefix_def sk_def hits'_def Let_def)
  let ?m1 = "(set_blocks rid bs m)\<lparr>num_cached_block := AList.update rid (int (length bs)) (num_cached_block m)\<rparr>"
  have hit': "hit_blocks_ok p hits'" unfolding hits'_def by (rule hit_blocks_ok_drop [OF hit])
  have ys: "ys = filter (\<lambda>b. b \<notin> set hits') xs"
    using pool_partD(4) [OF mgr_invD(1) [OF inv], of "Blk 0"] unfolding ys_def bs
    by (intro filter_cong) auto
  obtain p1 where p1: "touch hits' p = Inr p1" "mgr_inv ?m1 p1 ys ext" "same_config p p1" "untouched m p xs p1"
    using mgr_share [OF inv new(2) hit', of ?m1 "nat sk"] unfolding ys by (auto simp: bs)
  have step1: "(if m_enable_caching m then touch hits' p
       else bindR (assertR (hits' = [])) (\<lambda>_. Inr p)) = Inr p1"
  proof (cases "m_enable_caching m")
    case False
    then have "hits' = []" using caching by (simp add: hits'_def)
    with False p1(1) show ?thesis by (simp add: touch_def)
  qed (use p1(1) in simp)
  define e where "e = (if sk > 0 then min (tot - get_num_skipped_tokens m tot) num_external else num_external)"
  have run: "base_allocate_new_computed_blocks rid hits num_local num_external m p
      = (if e > 0
         then bindR (get_new_blocks need p1)
                (\<lambda>(nw, p2). Inr (note_new_blocks nw (set_blocks rid (bs @ nw) ?m1), p2))
         else Inr (?m1, p1))"
    using new mgr_invD(3) [OF inv] step1
    unfolding base_allocate_new_computed_blocks_def Let_def tot_def [symmetric] sk_def [symmetric]
      cond e_def [symmetric] need_def
    by (simp add: bs [symmetric])
  have fields: "blocks_of r ?m1 = (if r = rid then bs else blocks_of r m)" "num_cached rid ?m1 = int (length bs)"
    "is_running rid ?m1" for r
    by (simp_all add: blocks_of_def set_blocks_def num_cached_def is_running_def update_conv')
  show ?thesis
  proof (cases "e > 0")
    case False
    with run p1 fields show ?thesis
      by (intro exI [of _ ?m1] exI [of _ p1] exI [of _ 0]) (simp add: op_frame_def)
  next
    case True
    have le: "nat need \<le> length ys" using room by simp
    let ?m2 = "set_blocks rid (blocks_of rid ?m1 @ take (nat need) ys) ?m1"
    obtain p2 where p2: "get_new_blocks (int (nat need)) p1 = Inr (take (nat need) ys, p2)"
      "mgr_inv ?m2 p2 (drop (nat need) ys) ext" "same_config p1 p2"
      "\<forall>b. b \<notin> set (take (nat need) ys) \<longrightarrow> hash_of p2 b = hash_of p1 b \<and> refs p2 b = refs p1 b"
      using mgr_extend [OF p1(2) le refl] by blast
    have "b \<notin> set (take (nat need) ys)" if "b \<notin> set xs" for b
      using that by (auto simp: ys dest: in_set_takeD)
    then have "untouched m p xs p2" using p1(4) p2(4) by (auto simp: untouched_def)
    then have fr: "op_frame m p xs (note_new_blocks (take (nat need) ys) ?m2) p2"
      using same_config_trans [OF p1(3) p2(3)] by (simp add: op_frame_def)
    have "?m2 = set_blocks rid (bs @ take (nat need) ys) ?m1" using fields by simp
    then show ?thesis
      using run True p2 room(1) fields fr note_new_blocks_inv [OF p2(2)]
      by (intro exI [of _ "note_new_blocks (take (nat need) ys) ?m2"] exI [of _ p2] exI [of _ "nat need"]) simp
  qed
qed

text \<open>Without external tokens the hit is taken over and nothing else: no block is evicted.\<close>

lemma base_allocate_new_computed_blocks_local:
  fixes tot :: int and rid :: string
  assumes inv: "mgr_inv m p xs ext" and new: "\<not> is_running rid m" "blocks_of rid m = []"
    and hit: "hit_blocks_ok p hits" and caching: "\<not> m_enable_caching m \<Longrightarrow> hits = []"
  defines "bs \<equiv> computed_prefix m hits tot"
  shows "\<exists>m' p'. base_allocate_new_computed_blocks rid hits tot 0 m p = Inr (m', p')
    \<and> mgr_inv m' p' (filter (\<lambda>b. b \<notin> set bs) xs) ext \<and> op_frame m p xs m' p'
    \<and> (\<forall>b. hash_of p' b = hash_of p b \<and> refs p b \<le> refs p' b)
    \<and> blocks_of rid m' = bs \<and> num_cached rid m' = int (length bs) \<and> is_running rid m'
    \<and> (\<forall>r. r \<noteq> rid \<longrightarrow> blocks_of r m' = blocks_of r m)"
proof -
  define sk where "sk = get_num_skipped_tokens m tot div m_block_size m"
  define hits' where "hits' = drop (nat sk) hits"
  have bs: "bs = replicate (nat sk) (Blk 0) @ hits'"
    by (simp add: bs_def computed_prefix_def sk_def hits'_def Let_def)
  let ?m1 = "(set_blocks rid bs m)\<lparr>num_cached_block := AList.update rid (int (length bs)) (num_cached_block m)\<rparr>"
  have hit': "hit_blocks_ok p hits'" unfolding hits'_def by (rule hit_blocks_ok_drop [OF hit])
  have ys: "filter (\<lambda>b. b \<notin> set bs) xs = filter (\<lambda>b. b \<notin> set hits') xs"
    using pool_partD(4) [OF mgr_invD(1) [OF inv], of "Blk 0"] unfolding bs
    by (intro filter_cong) auto
  obtain p1 where p1: "touch hits' p = Inr p1" "mgr_inv ?m1 p1 (filter (\<lambda>b. b \<notin> set bs) xs) ext"
    "same_config p p1" "untouched m p xs p1" "\<forall>b. hash_of p1 b = hash_of p b" "\<forall>b. refs p b \<le> refs p1 b"
    using mgr_share [OF inv new(2) hit', of ?m1 "nat sk"] unfolding ys by (auto simp: bs)
  have step1: "(if m_enable_caching m then touch hits' p
       else bindR (assertR (hits' = [])) (\<lambda>_. Inr p)) = Inr p1"
  proof (cases "m_enable_caching m")
    case False
    then have "hits' = []" using caching by (simp add: hits'_def)
    with False p1(1) show ?thesis by (simp add: touch_def)
  qed (use p1(1) in simp)
  have cond: "(if sk > 0 then slice_from hits sk else hits) = hits'"
    "\<not> (if sk > 0 then min (tot - get_num_skipped_tokens m tot) 0 else 0) > 0" by (simp_all add: hits'_def)
  have "base_allocate_new_computed_blocks rid hits tot 0 m p = Inr (?m1, p1)"
    using new mgr_invD(3) [OF inv] step1 cond(2)
    unfolding base_allocate_new_computed_blocks_def Let_def add_0_right sk_def [symmetric] cond(1)
    by (simp add: bs [symmetric])
  moreover have "blocks_of r ?m1 = (if r = rid then bs else blocks_of r m)" "num_cached rid ?m1 = int (length bs)"
    "is_running rid ?m1" for r
    by (simp_all add: blocks_of_def set_blocks_def num_cached_def is_running_def update_conv')
  ultimately show ?thesis
    using p1 by (intro exI [of _ ?m1] exI [of _ p1]) (simp add: op_frame_def)
qed

text \<open>Caching the full blocks of a request.\<close>

lemma base_cache_blocks_spec:
  fixes n :: int and r :: request
  assumes inv: "mgr_inv m p xs ext" and caching: "enable_caching p"
    and g: "kv_cache_group_id m < 2 ^ 32"
  defines "rid \<equiv> request_id r"
  defines "full \<equiv> n div m_block_size m"
  assumes room: "full \<le> int (length (blocks_of rid m))" "full \<le> int (length (block_hashes r))"
    and hs: "group_block_hashes p r (m_block_size m) = Inr hs" "full \<le> int (length hs)"
  shows "\<exists>memo m' p'. base_cache_blocks env r n m p
      = Inr (r\<lparr>prompt_embeds_per_block_hashes := memo\<rparr>, m', p')
    \<and> mgr_inv m' p' xs ext \<and> op_frame m p xs m' p'
    \<and> (\<forall>r. blocks_of r m' = blocks_of r m) \<and> num_cached rid m' = max (num_cached rid m) full
    \<and> (\<forall>i < nat full. num_cached rid m \<le> int i \<longrightarrow> blocks_of rid m ! i \<noteq> Blk 0 \<longrightarrow>
          (\<exists>k. hash_of p' (blocks_of rid m ! i) = Some k
             \<and> make_block_hash_with_group_id (hs ! i) (kv_cache_group_id m) = Inr k))"
proof (cases "num_cached rid m \<ge> full")
  case True
  then show ?thesis
    using inv by (intro exI [of _ "prompt_embeds_per_block_hashes r"] exI [of _ m] exI [of _ p])
      (auto simp: base_cache_blocks_def Let_def rid_def full_def)
next
  case False
  let ?bs = "blocks_of rid m" and ?c = "num_cached rid m"
  let ?new = "drop (nat ?c) (take (nat full) ?bs)"
  have rk: "req_ok p ?bs ?c" by (rule mgr_invD(7) [OF inv])
  have c0: "0 \<le> ?c" using rk by (simp add: req_ok_def)
  have c_le: "?c \<le> full" using False by linarith
  have new_nth: "\<exists>i < length ?bs. ?c \<le> int i \<and> int i < full \<and> b = ?bs ! i" if "b \<in> set ?new" for b
  proof -
    obtain l where l: "l < length ?new" "b = ?new ! l" using \<open>b \<in> set ?new\<close> by (auto simp: in_set_conv_nth)
    have "?new ! l = ?bs ! (nat ?c + l)" using l(1) by (subst nth_drop) auto
    then show ?thesis using l c0 by (intro exI [of _ "nat ?c + l"]) auto
  qed
  have sub: "set ?new \<subseteq> set (blocks p)"
    using mgr_invD(8) [OF inv, of rid] by (auto dest: in_set_dropD in_set_takeD)
  have dist: "distinct (filter (\<lambda>b. b \<noteq> Blk 0) ?new)"
    using mgr_invD(9) [OF inv, of rid] by (intro distinct_filter_take_drop)
  have null_hash: "hash_of p (Blk 0) = None"
    using pool_partD(8) [OF mgr_invD(1) [OF inv], of "Blk 0"] by (cases "hash_of p (Blk 0)") auto
  have unhashed: "hash_of p b = None" if "b \<in> set ?new" for b
    using new_nth [OF that] rk caching null_hash by (cases "b = Blk 0") (auto simp: req_ok_def)
  obtain memo p' where p': "cache_full_blocks env r ?bs ?c full (m_block_size m) (kv_cache_group_id m) p
      = Inr (r\<lparr>prompt_embeds_per_block_hashes := memo\<rparr>, p')" "pool_ok p' xs" "same_config p p'"
    "\<forall>x. refs p' x = refs p x" "\<forall>x. x \<notin> set ?new \<or> x = Blk 0 \<longrightarrow> hash_of p' x = hash_of p x"
    "\<forall>j<nat full. nat ?c \<le> j \<longrightarrow> ?bs ! j \<noteq> Blk 0 \<longrightarrow> (\<exists>k. hash_of p' (?bs ! j) = Some k
            \<and> make_block_hash_with_group_id (hs ! j) (kv_cache_group_id m) = Inr k)"
    using cache_full_blocks_spec [OF mgr_invD(1) [OF inv] g c0 c_le room hs sub dist unhashed, of env]
    by blast
  let ?m = "(ensure_blocks rid m)\<lparr>num_cached_block := AList.update rid full (num_cached_block m)\<rparr>"
  have bl: "blocks_of q ?m = blocks_of q m" for q
    by (simp add: ensure_blocks_def blocks_of_def set_blocks_def)
  have nc: "num_cached q ?m = (if q = rid then full else num_cached q m)" for q
    by (simp add: num_cached_def)
  have conf: "blocks p' = blocks p" "enable_caching p' = enable_caching p"
    using p'(3) by (simp_all add: same_config_def)
  have "req_ok p' (blocks_of q ?m) (num_cached q ?m)" for q
  proof (cases "q = rid")
    case True
    have "hash_of p' (?bs ! i) = None \<and> refs p' (?bs ! i) = 1"
      if i: "i < length ?bs" "full \<le> int i" "?bs ! i \<noteq> Blk 0" for i
    proof -
      have "?bs ! i \<notin> set ?new"
      proof
        assume "?bs ! i \<in> set ?new"
        then obtain j where j: "j < length ?bs" "int j < full" "?bs ! i = ?bs ! j" using new_nth by blast
        have "i = j" by (rule distinct_filter_nth_eq [OF mgr_invD(9) [OF inv] i(1) j(1) i(3) j(3)])
        with i(2) j(2) show False by linarith
      qed
      moreover have "?c \<le> int i" using i(2) False by linarith
      ultimately show ?thesis using rk i caching p'(4,5) by (simp add: req_ok_def)
    qed
    then show ?thesis using rk c0 False conf True by (auto simp: bl nc req_ok_def)
  next
    case False
    have "req_ok p' (blocks_of q m) (num_cached q m)"
    proof (rule req_ok_frame [OF mgr_invD(7) [OF inv] conf])
      fix b assume b: "b \<in> set (blocks_of q m)" "b \<noteq> Blk 0" "refs p b = 1" "hash_of p b = None"
      have "b \<notin> set ?bs" by (rule held_once_exclusive [OF inv b(1-3)]) (use False in \<open>simp\<close>)
      then have "b \<notin> set ?new" by (auto dest: in_set_dropD in_set_takeD)
      then show "refs p' b = 1 \<and> hash_of p' b = None" using p'(4,5) b by simp
    qed
    with False show ?thesis by (simp add: bl nc)
  qed
  moreover have "held ?m b = held m b" for b
    using held_set_blocks [OF mgr_invD(2) [OF inv], where rid = rid and bs = "?bs" and b = b]
    by (simp add: ensure_blocks_def held_def)
  moreover have "distinct (map fst (req_to_blocks ?m))" "m_null_block ?m = Blk 0" "0 < m_block_size ?m"
    "m_enable_caching ?m = enable_caching p'"
    using mgr_invD(2-5) [OF inv] conf by (simp_all add: ensure_blocks_def)
  ultimately have "mgr_inv ?m p' xs ext"
    using p'(2,4) mgr_invD(6) [OF inv] unfolding mgr_inv_def by auto
  moreover have "base_cache_blocks env r n m p = Inr (r\<lparr>prompt_embeds_per_block_hashes := memo\<rparr>, ?m, p')"
    using False p'(1) by (simp add: base_cache_blocks_def Let_def rid_def full_def)
  moreover have "op_frame m p xs ?m p'"
  proof -
    have "b \<notin> set ?new" if "held m b = 0" for b
    proof -
      have "b \<notin> set ?bs"
        using that held_ge [OF mgr_invD(2) [OF inv], of rid b] by (simp add: count_list_0_iff)
      then show ?thesis by (auto dest: in_set_dropD in_set_takeD)
    qed
    then have "untouched m p xs p'" using p'(4,5) by (auto simp: untouched_def)
    then show ?thesis using p'(3) by (simp add: op_frame_def)
  qed
  ultimately show ?thesis
    using p'(6) False bl nc c0
    by (intro exI [of _ memo] exI [of _ ?m] exI [of _ p']) (auto simp: nat_le_iff)
qed

subsection \<open>What a cache hit guarantees\<close>

definition key_ok :: "block_pool \<Rightarrow> bytes \<Rightarrow> nat \<Rightarrow> block_ref \<Rightarrow> bool" where
  "key_ok p h g b \<longleftrightarrow> (\<exists>k. make_block_hash_with_group_id h g = Inr k \<and> hash_of p b = Some k)"

definition all_cached :: "block_pool \<Rightarrow> nat list \<Rightarrow> bytes \<Rightarrow> bool" where
  "all_cached p gids h \<longleftrightarrow> gids \<noteq> [] \<and> (\<forall>g \<in> set gids. \<exists>b. key_ok p h g b)"

text \<open>
  \<open>hit_upto p gids hs n nn computed\<close>: per group, \<open>n\<close> blocks; block \<open>i\<close> is cached under hash \<open>i\<close> of its
  group, or, where \<open>nn i\<close> does not demand a block, it may be the null block.
\<close>

definition hit_upto ::
  "block_pool \<Rightarrow> nat list \<Rightarrow> bytes list \<Rightarrow> nat \<Rightarrow> (nat \<Rightarrow> bool) \<Rightarrow> block_ref list list \<Rightarrow> bool" where
  "hit_upto p gids hs n nn computed \<longleftrightarrow>
     length computed = length gids \<and> n \<le> length hs \<and>
     (\<forall>j < length gids. length (computed ! j) = n \<and>
        (\<forall>i < n. key_ok p (hs ! i) (gids ! j) (computed ! j ! i) \<or> (\<not> nn i \<and> computed ! j ! i = Blk 0)))"

lemma lookup_hit_spec:
  assumes ok: "pool_ok p xs" and gids: "\<forall>g \<in> set gids. g < 2 ^ 32"
  shows "\<exists>res. lookup_hit p gids h = Inr res \<and> (res \<noteq> None \<longleftrightarrow> all_cached p gids h)
    \<and> (\<forall>bs. res = Some bs \<longrightarrow> length bs = length gids \<and> (\<forall>j < length gids. key_ok p h (gids ! j) (bs ! j)))"
proof -
  obtain res where res: "get_cached_block p h gids = Inr res" and
    spec: "case res of
        Some bs \<Rightarrow> length bs = length gids
          \<and> (\<forall>i<length gids. \<exists>k. make_block_hash_with_group_id h (gids ! i) = Inr k
                 \<and> hash_of p (bs ! i) = Some k \<and> bs ! i \<in> set (blocks p) \<and> bs ! i \<noteq> Blk 0)
      | None \<Rightarrow> \<exists>g \<in> set gids. \<exists>k. make_block_hash_with_group_id h g = Inr k
                 \<and> (\<forall>b. hash_of p b \<noteq> Some k)"
    using get_cached_block_spec [OF ok gids, of h] by blast
  show ?thesis
  proof (cases res)
    case None
    with spec have "\<not> all_cached p gids h" by (fastforce simp: all_cached_def key_ok_def)
    with res None show ?thesis by (simp add: lookup_hit_def)
  next
    case (Some bs)
    with spec have bs: "length bs = length gids" "\<And>j. j < length gids \<Longrightarrow> key_ok p h (gids ! j) (bs ! j)"
      by (auto simp: key_ok_def)
    show ?thesis
    proof (cases bs)
      case Nil
      with res Some bs show ?thesis by (simp add: lookup_hit_def all_cached_def)
    next
      case (Cons b bs')
      have "\<exists>b. key_ok p h g b" if "g \<in> set gids" for g
        using that bs(2) by (auto simp: in_set_conv_nth)
      moreover have "gids \<noteq> []" using bs(1) Cons by auto
      ultimately have "all_cached p gids h" by (simp add: all_cached_def)
      with res Some Cons bs show ?thesis by (simp add: lookup_hit_def)
    qed
  qed
qed

lemma hit_upto_append:
  assumes "hit_upto p gids hs n nn computed" "n < length hs" "length bs = length gids"
    "\<forall>j < length gids. key_ok p (hs ! n) (gids ! j) (bs ! j)"
  shows "hit_upto p gids hs (Suc n) nn (append_hit computed bs)"
  using assms by (auto simp: hit_upto_def append_hit_def nth_append less_Suc_eq)

lemma hit_upto_take:
  assumes "hit_upto p gids hs n nn computed" "m \<le> n" "\<And>i. i < m \<Longrightarrow> nn' i \<Longrightarrow> nn i"
  shows "hit_upto p gids hs m nn' (map (take m) computed)"
  unfolding hit_upto_def
proof (intro conjI allI impI)
  fix j i assume ji: "j < length gids" "i < m"
  then have "key_ok p (hs ! i) (gids ! j) (computed ! j ! i) \<or> (\<not> nn i \<and> computed ! j ! i = Blk 0)"
    using assms(1,2) by (simp add: hit_upto_def)
  then show "key_ok p (hs ! i) (gids ! j) (map (take m) computed ! j ! i)
      \<or> (\<not> nn' i \<and> map (take m) computed ! j ! i = Blk 0)"
    using assms(1,3) ji by (auto simp: hit_upto_def)
qed (use assms in \<open>auto simp: hit_upto_def\<close>)

lemma hit_upto_butlast:
  assumes "hit_upto p gids hs (Suc n) nn computed"
  shows "hit_upto p gids hs n nn (map butlast computed)"
proof -
  have "map butlast computed = map (take n) computed"
    using assms by (auto simp: hit_upto_def butlast_conv_take in_set_conv_nth intro!: map_cong)
  moreover have "hit_upto p gids hs n nn (map (take n) computed)"
    by (rule hit_upto_take [OF assms]) auto
  ultimately show ?thesis by (simp only:)
qed

lemma hit_upto_hd: "hit_upto p gids hs n nn computed \<Longrightarrow> gids \<noteq> [] \<Longrightarrow> length (hd computed) = n"
  by (cases computed) (auto simp: hit_upto_def hd_conv_nth)

lemma hit_loop_spec:
  assumes ok: "pool_ok p xs" and gids: "\<forall>g \<in> set gids. g < 2 ^ 32"
  shows "hit_upto p gids hs n nn computed \<Longrightarrow> n \<le> N \<Longrightarrow> N \<le> length hs \<Longrightarrow>
    \<exists>computed' k. hit_loop p gids (drop n (take N hs)) computed = Inr computed'
      \<and> k = n + length (takeWhile (all_cached p gids) (drop n (take N hs)))
      \<and> hit_upto p gids hs k nn computed' \<and> k \<le> N"
proof (induction "N - n" arbitrary: n computed)
  case 0
  then show ?case by simp
next
  case (Suc d)
  then have lt: "n < N" "n < length hs" and diff: "d = N - Suc n" by auto
  have split: "drop n (take N hs) = hs ! n # drop (Suc n) (take N hs)"
    using lt by (metis Cons_nth_drop_Suc Suc.prems(3) length_take min.absorb2 nth_take)
  obtain res where res: "lookup_hit p gids (hs ! n) = Inr res" "res \<noteq> None \<longleftrightarrow> all_cached p gids (hs ! n)"
    "\<forall>bs. res = Some bs \<longrightarrow> length bs = length gids \<and> (\<forall>j < length gids. key_ok p (hs ! n) (gids ! j) (bs ! j))"
    using lookup_hit_spec [OF ok gids, of "hs ! n"] by blast
  show ?case
  proof (cases res)
    case None
    with res Suc.prems split show ?thesis by simp
  next
    case (Some bs)
    have "hit_upto p gids hs (Suc n) nn (append_hit computed bs)"
      using hit_upto_append [OF Suc.prems(1) lt(2)] res(3) Some by blast
    then obtain computed' where "hit_loop p gids (drop (Suc n) (take N hs)) (append_hit computed bs) = Inr computed'"
      "hit_upto p gids hs (Suc n + length (takeWhile (all_cached p gids) (drop (Suc n) (take N hs)))) nn computed'"
      "Suc n + length (takeWhile (all_cached p gids) (drop (Suc n) (take N hs))) \<le> N"
      using Suc.hyps(1) [of "Suc n" "append_hit computed bs"] diff Suc.prems(3) lt by force
    with res Some split show ?thesis by simp
  qed
qed

lemma align_loop_spec:
  assumes "hit_upto p gids hs n nn computed"
  shows "\<exists>k \<le> n. hit_upto p gids hs k nn (align_loop bsz al n computed)
    \<and> (bsz \<noteq> al \<longrightarrow> int k * bsz mod al = 0) \<and> (bsz = al \<longrightarrow> k = n)
    \<and> (\<forall>l. k < l \<and> l \<le> n \<longrightarrow> int l * bsz mod al \<noteq> 0)"
  using assms
proof (induction n arbitrary: computed)
  case 0
  then show ?case by (intro exI [of _ 0]) auto
next
  case (Suc n)
  show ?case
  proof (cases "bsz \<noteq> al \<and> int (Suc n) * bsz mod al \<noteq> 0")
    case True
    obtain k where "k \<le> n" "hit_upto p gids hs k nn (align_loop bsz al n (map butlast computed))"
      "bsz \<noteq> al \<longrightarrow> int k * bsz mod al = 0" "\<forall>l. k < l \<and> l \<le> n \<longrightarrow> int l * bsz mod al \<noteq> 0"
      using Suc.IH [OF hit_upto_butlast [OF Suc.prems]] by (elim exE conjE) (rule that)
    moreover from this(4) have "int l * bsz mod al \<noteq> 0" if "k < l \<and> l \<le> Suc n" for l
      using True that by (cases "l = Suc n") auto
    ultimately show ?thesis
      using True by (intro exI [of _ k]) auto
  next
    case False
    with Suc.prems show ?thesis
      by (intro exI [of _ "Suc n"]) (simp del: of_nat_Suc, blast)
  qed
qed

lemma hit_upto_nil: "hit_upto p gids hs 0 nn (replicate (length gids) [])"
  by (simp add: hit_upto_def)

lemma max_blocks:
  assumes "0 < b" "0 \<le> max_length" "max_length div b \<le> int L"
  shows "int (nat (max_length div b)) * b \<le> max_length" "nat (max_length div b) \<le> L"
    "int (nat (max_length div b)) = max_length div b"
proof -
  show eq: "int (nat (max_length div b)) = max_length div b"
    using assms(1,2) by (simp add: pos_imp_zdiv_nonneg_iff)
  show "int (nat (max_length div b)) * b \<le> max_length"
    using le_div_int_iff [OF assms(1), of "max_length div b" max_length] unfolding eq by blast
  show "nat (max_length div b) \<le> L" using assms(3) by simp
qed

text \<open>Full attention: the longest cached prefix, shortened by EAGLE and by the alignment only.\<close>

lemma full_hit_spec:
  assumes ok: "pool_ok p xs" and gids: "\<forall>g \<in> set gids. g < 2 ^ 32" "gids \<noteq> []"
    and cls: "is_full_spec (spec_class_of spec)" and bsz: "0 < scaled_block_size spec dcp pcp"
    and len: "0 \<le> max_length" "max_length div scaled_block_size spec dcp pcp \<le> int (length hs)"
  defines "b \<equiv> scaled_block_size spec dcp pcp"
  defines "longest \<equiv> length (takeWhile (all_cached p gids) (take (nat (max_length div b)) hs))"
  shows "\<exists>n computed. full_find_longest_cache_hit hs max_length gids p spec use_eagle al dcp pcp = Inr computed
    \<and> hit_upto p gids hs n (\<lambda>_. True) computed \<and> int n * b \<le> max_length
    \<and> (b \<noteq> al \<longrightarrow> int n * b mod al = 0)
    \<and> n \<le> longest - (if use_eagle then 1 else 0)
    \<and> (\<forall>l. n < l \<and> l \<le> longest - (if use_eagle then 1 else 0) \<longrightarrow> b \<noteq> al \<and> int l * b mod al \<noteq> 0)"
proof -
  define N where "N = nat (max_length div b)"
  have b: "0 < b" using bsz by (simp add: b_def)
  have N: "int N * b \<le> max_length" "N \<le> length hs"
    using max_blocks [OF b len(1)] len(2) unfolding N_def b_def by blast+
  obtain computed where run: "hit_loop p gids (take N hs) (replicate (length gids) []) = Inr computed"
    and hit: "hit_upto p gids hs longest (\<lambda>_. True) computed" "longest \<le> N"
    using hit_loop_spec [OF ok gids(1) hit_upto_nil, where N = N and hs = hs and nn = "\<lambda>_. True"] N(2)
    by (auto simp: longest_def N_def)
  have hd: "computed \<noteq> []" "length (hd computed) = longest"
    using hit_upto_hd [OF hit(1) gids(2)] hit(1) gids(2) by (auto simp: hit_upto_def)
  define c1 where "c1 = (if use_eagle \<and> hd computed \<noteq> [] then map butlast computed else computed)"
  define n1 where "n1 = longest - (if use_eagle then 1 else 0)"
  have h1: "hit_upto p gids hs n1 (\<lambda>_. True) c1"
  proof (cases "use_eagle \<and> hd computed \<noteq> []")
    case True
    then obtain n' where "longest = Suc n'" using hd(2) by (cases longest) auto
    then show ?thesis using hit_upto_butlast [of p gids hs n'] hit(1) True by (simp add: c1_def n1_def)
  next
    case False
    then have "n1 = longest" using hd(2) by (auto simp: n1_def)
    with False hit(1) show ?thesis by (auto simp: c1_def)
  qed
  obtain n where n: "n \<le> n1" "hit_upto p gids hs n (\<lambda>_. True) (align_loop b al n1 c1)"
    "b \<noteq> al \<longrightarrow> int n * b mod al = 0" "b = al \<longrightarrow> n = n1"
    "\<forall>l. n < l \<and> l \<le> n1 \<longrightarrow> int l * b mod al \<noteq> 0"
    using align_loop_spec [OF h1, where bsz = b and al = al] by (elim exE conjE) (rule that)
  have "full_find_longest_cache_hit hs max_length gids p spec use_eagle al dcp pcp
      = Inr (align_loop b al n1 c1)"
  proof -
    obtain c cs where "computed = c # cs" using hd(1) by (cases computed) auto
    moreover have "length (hd c1) = n1" by (rule hit_upto_hd [OF h1 gids(2)])
    moreover have "\<not> max_length div b < 0" using len(1) b by (simp add: pos_imp_zdiv_neg_iff)
    ultimately show ?thesis
      using cls run by (cases "use_eagle \<and> c \<noteq> []")
        (auto simp: full_find_longest_cache_hit_def Let_def b_def [symmetric] N_def [symmetric] c1_def)
  qed
  moreover have "int n * b \<le> max_length"
  proof -
    have "int n \<le> int N" using n(1) hit(2) by (simp add: n1_def)
    then have "int n * b \<le> int N * b" using b by (simp add: mult_right_mono)
    then show ?thesis using N(1) by linarith
  qed
  moreover have "b \<noteq> al \<and> int l * b mod al \<noteq> 0" if "n < l \<and> l \<le> n1" for l
    using n(4,5) that by auto
  ultimately show ?thesis
    using n unfolding n1_def by (intro exI [of _ n] exI [of _ "align_loop b al n1 c1"]) (auto simp: n1_def)
qed

text \<open>The sliding window: invariant of the right-to-left search.\<close>

definition window_state ::
  "block_pool \<Rightarrow> nat list \<Rightarrow> bytes list \<Rightarrow> int \<Rightarrow> int \<Rightarrow> nat \<Rightarrow> nat \<Rightarrow> nat \<Rightarrow> block_ref list list \<Rightarrow> bool" where
  "window_state p gids hs bsz al N i c computed \<longleftrightarrow>
     i + c \<le> N \<and> hit_upto p gids hs N (\<lambda>l. i \<le> l \<and> l < i + c) computed
     \<and> (0 < c \<longrightarrow> bsz = al \<or> int (i + c) * bsz mod al = 0)"

lemma window_state_write:
  assumes st: "window_state p gids hs bsz al N (Suc i) c computed"
    and bs: "length bs = length gids" "\<forall>j < length gids. key_ok p (hs ! i) (gids ! j) (bs ! j)"
    and al: "c = 0 \<longrightarrow> bsz = al \<or> (int i + 1) * bsz mod al = 0"
  shows "window_state p gids hs bsz al N i (Suc c) (map2 (\<lambda>c b. c[i := b]) computed bs)"
proof -
  have iN: "i < N" using st by (simp add: window_state_def)
  have hit: "hit_upto p gids hs N (\<lambda>l. Suc i \<le> l \<and> l < Suc i + c) computed"
    using st by (simp add: window_state_def)
  have "hit_upto p gids hs N (\<lambda>l. i \<le> l \<and> l < i + Suc c) (map2 (\<lambda>c b. c[i := b]) computed bs)"
    unfolding hit_upto_def
  proof (intro conjI allI impI)
    fix j l assume jl: "j < length gids" "l < N"
    have len: "length computed = length gids" "length (computed ! j) = N"
      using hit jl(1) by (auto simp: hit_upto_def)
    have eq: "map2 (\<lambda>c b. c[i := b]) computed bs ! j ! l = (if l = i then bs ! j else computed ! j ! l)"
      using jl len bs(1) iN by (simp add: nth_list_update)
    have "key_ok p (hs ! l) (gids ! j) (computed ! j ! l)
        \<or> (\<not> (Suc i \<le> l \<and> l < Suc i + c) \<and> computed ! j ! l = Blk 0)"
      using hit jl by (simp add: hit_upto_def)
    then show "key_ok p (hs ! l) (gids ! j) (map2 (\<lambda>c b. c[i := b]) computed bs ! j ! l)
        \<or> (\<not> (i \<le> l \<and> l < i + Suc c) \<and> map2 (\<lambda>c b. c[i := b]) computed bs ! j ! l = Blk 0)"
      unfolding eq using bs(2) jl(1) by (cases "l = i") auto
  qed (use hit bs(1) in \<open>auto simp: hit_upto_def\<close>)
  moreover have "bsz = al \<or> int (i + Suc c) * bsz mod al = 0"
  proof (cases "c = 0")
    case True
    then show ?thesis using al by (simp add: add.commute)
  next
    case False
    then show ?thesis using st by (simp add: window_state_def)
  qed
  ultimately show ?thesis using st by (simp add: window_state_def)
qed

lemma window_loop_spec:
  assumes ok: "pool_ok p xs" and gids: "\<forall>g \<in> set gids. g < 2 ^ 32" and N: "N \<le> length hs"
  shows "window_state p gids hs bsz al N i c computed \<Longrightarrow>
    \<exists>computed' c' found. window_loop p gids hs bsz al need i computed c = Inr (computed', c', found)
      \<and> (if found
         then \<exists>n \<le> N. hit_upto p gids hs n (\<lambda>l. int n - int l \<le> need) computed'
                \<and> (bsz = al \<or> int n * bsz mod al = 0)
         else c' \<le> N \<and> hit_upto p gids hs N (\<lambda>l. l < c') computed')"
proof (induction i arbitrary: computed c)
  case 0
  then show ?case
    by (intro exI [of _ computed] exI [of _ c] exI [of _ False]) (simp add: window_state_def)
next
  case (Suc i)
  have iN: "i < N" "i < length hs" using Suc.prems N by (auto simp: window_state_def)
  obtain res where res: "lookup_hit p gids (hs ! i) = Inr res"
    "\<forall>bs. res = Some bs \<longrightarrow> length bs = length gids \<and> (\<forall>j < length gids. key_ok p (hs ! i) (gids ! j) (bs ! j))"
    using lookup_hit_spec [OF ok gids, of "hs ! i"] by blast
  have skip: "window_state p gids hs bsz al N i 0 computed"
    using Suc.prems by (auto simp: window_state_def hit_upto_def)
  show ?case
  proof (cases res)
    case None
    then show ?thesis using res(1) iN Suc.IH [OF skip] by simp
  next
    case (Some bs)
    let ?c = "map2 (\<lambda>c b. c[i := b]) computed bs"
    show ?thesis
    proof (cases "c = 0 \<and> bsz \<noteq> al \<and> (int i + 1) * bsz mod al \<noteq> 0")
      case True
      then show ?thesis using res(1) iN Some Suc.IH [OF skip] by simp
    next
      case False
      have st: "window_state p gids hs bsz al N i (Suc c) ?c"
        using window_state_write [OF Suc.prems, of bs] res(2) Some False by blast
      show ?thesis
      proof (cases "int (c + 1) \<ge> need")
        case True
        have "hit_upto p gids hs (i + Suc c) (\<lambda>l. int (i + Suc c) - int l \<le> need) (map (take (i + Suc c)) ?c)"
          using st True by (intro hit_upto_take [where n = N and nn = "\<lambda>l. i \<le> l \<and> l < i + Suc c"])
            (auto simp: window_state_def)
        moreover have "i + Suc c \<le> N" "bsz = al \<or> int (i + Suc c) * bsz mod al = 0"
          using st by (simp_all add: window_state_def del: of_nat_Suc of_nat_add)
        ultimately have found: "\<exists>n \<le> N. hit_upto p gids hs n (\<lambda>l. int n - int l \<le> need) (map (take (i + Suc c)) ?c)
            \<and> (bsz = al \<or> int n * bsz mod al = 0)"
          by (intro exI [of _ "i + Suc c"] conjI)
        have run: "window_loop p gids hs bsz al need (Suc i) computed c
            = Inr (map (take (i + Suc c)) ?c, Suc c, True)"
          using res(1) iN Some False True by auto
        show ?thesis
          by (rule exI, rule exI, rule exI [of _ True], rule conjI [OF run]) (simp only: if_True found)
      next
        case less: False
        then show ?thesis using res(1) iN Some False Suc.IH [OF st] by auto
      qed
    qed
  qed
qed

lemma hit_upto_mono:
  "hit_upto p gids hs n nn computed \<Longrightarrow> (\<And>i. i < n \<Longrightarrow> nn' i \<Longrightarrow> nn i) \<Longrightarrow> hit_upto p gids hs n nn' computed"
  unfolding hit_upto_def by blast

lemma scaled_one [simp]: "scaled_block_size spec 1 1 = spec_block_size spec"
  by (simp add: scaled_block_size_def)

text \<open>A block the window still reaches is one of the last \<open>cdiv (w - 1) b\<close>.\<close>

lemma window_needs:
  assumes "0 < b" and "(int l + 1) * b > max 0 (int n * b - w + 1)"
  shows "int n - int l \<le> cdiv (w - 1) b"
proof -
  have "(int n - int l - 1) * b < w - 1" using assms(2) by (simp add: algebra_simps)
  also have "w - 1 \<le> cdiv (w - 1) b * b" by (rule cdiv_bounds(1) [OF assms(1)])
  finally have "int n - int l - 1 < cdiv (w - 1) b" using assms(1) by (simp add: mult_less_cancel_right)
  then show ?thesis by simp
qed

lemma window_hit_spec:
  assumes ok: "pool_ok p xs" and gids: "\<forall>g \<in> set gids. g < 2 ^ 32" "gids \<noteq> []"
    and cls: "spec_class_of spec = SlidingWindowSpec w" and b: "0 < spec_block_size spec"
    and len: "0 \<le> max_length" "max_length div spec_block_size spec \<le> int (length hs)"
    and eagle: "use_eagle \<Longrightarrow> spec_block_size spec = al"
  shows "\<exists>n computed. window_find_longest_cache_hit hs max_length gids p spec use_eagle al 1 1 = Inr computed
    \<and> hit_upto p gids hs n (\<lambda>l. (int l + 1) * spec_block_size spec > max 0 (int n * spec_block_size spec - w + 1)) computed
    \<and> int n * spec_block_size spec \<le> max_length
    \<and> (spec_block_size spec = al \<or> int n * spec_block_size spec mod al = 0)"
proof -
  let ?b = "spec_block_size spec"
  define N where "N = nat (max_length div ?b)"
  define cd where "cd = cdiv (w - 1) ?b"
  define need where "need = cd + (if use_eagle then 1 else 0)"
  have N: "int N * ?b \<le> max_length" "N \<le> length hs"
    unfolding N_def by (rule max_blocks [OF b len])+
  have null: "null_block p = Blk 0" using ok by (simp add: pool_part_def)
  have "window_state p gids hs ?b al N N 0 (replicate (length gids) (replicate N (Blk 0)))"
    using N(2) by (simp add: window_state_def hit_upto_def)
  then obtain c k found where run: "window_loop p gids hs ?b al need N
        (replicate (length gids) (replicate N (Blk 0))) 0 = Inr (c, k, found)"
    and res: "if found
         then \<exists>n \<le> N. hit_upto p gids hs n (\<lambda>l. int n - int l \<le> need) c \<and> (?b = al \<or> int n * ?b mod al = 0)
         else k \<le> N \<and> hit_upto p gids hs N (\<lambda>l. l < k) c"
    using window_loop_spec [OF ok gids(1) N(2)] by blast
  have ne: "c \<noteq> []" using res gids(2) by (auto simp: hit_upto_def split: if_splits)
  define c1 where "c1 = (if found then c else align_loop ?b al (length (hd (map (take k) c))) (map (take k) c))"
  have "\<exists>n \<le> N. hit_upto p gids hs n (\<lambda>l. int n - int l \<le> need) c1 \<and> (?b = al \<or> int n * ?b mod al = 0)"
  proof (cases found)
    case True
    with res show ?thesis by (simp add: c1_def)
  next
    case False
    with res have k: "k \<le> N" "hit_upto p gids hs N (\<lambda>l. l < k) c" by auto
    have h: "hit_upto p gids hs k (\<lambda>_. True) (map (take k) c)" by (rule hit_upto_take [OF k(2,1)])
    then have "length (hd (map (take k) c)) = k" by (rule hit_upto_hd [OF _ gids(2)])
    with False have c1: "c1 = align_loop ?b al k (map (take k) c)" by (simp add: c1_def)
    obtain n where n: "n \<le> k" "hit_upto p gids hs n (\<lambda>_. True) c1" "?b \<noteq> al \<longrightarrow> int n * ?b mod al = 0"
      using align_loop_spec [OF h, where bsz = ?b and al = al, folded c1] by (elim exE conjE) (rule that)
    have "hit_upto p gids hs n (\<lambda>l. int n - int l \<le> need) c1" by (rule hit_upto_mono [OF n(2)]) simp
    moreover have "n \<le> N" using n(1) k(1) by linarith
    moreover have "?b = al \<or> int n * ?b mod al = 0" using n(3) by (cases "?b = al") simp_all
    ultimately show ?thesis by (intro exI [of _ n] conjI)
  qed
  then obtain n where n: "n \<le> N" "hit_upto p gids hs n (\<lambda>l. int n - int l \<le> need) c1"
    "?b = al \<or> int n * ?b mod al = 0" by (elim exE conjE) (rule that)
  have hd1: "length (hd c1) = n" by (rule hit_upto_hd [OF n(2) gids(2)])
  define out where "out = (if use_eagle \<and> hd c1 \<noteq> [] then map butlast c1 else c1)"
  define n' where "n' = (if use_eagle then n - 1 else n)"
  have out: "hit_upto p gids hs n' (\<lambda>l. int n' - int l \<le> cd) out"
  proof (cases "use_eagle \<and> hd c1 \<noteq> []")
    case True
    then obtain m where m: "n = Suc m" using hd1 by (cases n) auto
    have "hit_upto p gids hs m (\<lambda>l. int n - int l \<le> need) (map butlast c1)"
      using hit_upto_butlast n(2) unfolding m by blast
    then have "hit_upto p gids hs m (\<lambda>l. int m - int l \<le> cd) (map butlast c1)"
      by (rule hit_upto_mono) (use m True in \<open>simp add: need_def\<close>)
    with True m show ?thesis by (simp add: out_def n'_def)
  next
    case False
    then have "n' = n \<or> (n' = 0 \<and> n = 0)" using hd1 by (auto simp: n'_def)
    then have n': "n' = n" by auto
    have "hit_upto p gids hs n (\<lambda>l. int n - int l \<le> cd) c1"
      by (rule hit_upto_mono [OF n(2)]) (simp add: need_def)
    with False n' show ?thesis by (auto simp: out_def)
  qed
  have out': "hit_upto p gids hs n' (\<lambda>l. (int l + 1) * ?b > max 0 (int n' * ?b - w + 1)) out"
    by (rule hit_upto_mono [OF out]) (use window_needs [OF b] cd_def in \<open>blast\<close>)
  have "window_find_longest_cache_hit hs max_length gids p spec use_eagle al 1 1 = Inr out"
  proof -
    have pick: "(case c of [] \<Rightarrow> A | _ # _ \<Rightarrow> B) = B" for A B :: "block_ref list list result"
      using ne by (cases c) auto
    show ?thesis
      using eagle run unfolding window_find_longest_cache_hit_def cls null
      by (auto simp: Let_def N_def need_def cd_def pick c1_def out_def)
  qed
  moreover have "int n' * ?b \<le> max_length"
  proof -
    have "int n' \<le> int N" using n(1) by (auto simp: n'_def)
    then have "int n' * ?b \<le> int N * ?b" using b by (simp add: mult_right_mono)
    then show ?thesis using N(1) by linarith
  qed
  moreover have "?b = al \<or> int n' * ?b mod al = 0" using n(3) eagle by (auto simp: n'_def)
  ultimately show ?thesis using out' by (intro exI [of _ n'] exI [of _ out] conjI)
qed

lemma index_hit_loop_eq:
  assumes "s \<le> N" "N \<le> length hs"
  shows "index_hit_loop p gids hs [int s..int N - 1] computed = hit_loop p gids (drop s (take N hs)) computed"
  using assms
proof (induction "N - s" arbitrary: s computed)
  case 0
  then show ?case by simp
next
  case (Suc d)
  then have lt: "s < N" "s < length hs" by auto
  have split: "drop s (take N hs) = hs ! s # drop (Suc s) (take N hs)"
    using lt by (metis Cons_nth_drop_Suc Suc.prems(2) length_take min.absorb2 nth_take)
  have ints: "[int s..int N - 1] = int s # [int (Suc s)..int N - 1]"
    using lt by (subst upto.simps) (simp add: add.commute)
  have IH: "index_hit_loop p gids hs [int (Suc s)..int N - 1] c = hit_loop p gids (drop (Suc s) (take N hs)) c" for c
    using Suc.hyps Suc.prems lt by (intro Suc.hyps(1)) auto
  show ?case
    unfolding split ints using lt by (simp add: IH del: of_nat_Suc cong: option.case_cong)
qed

lemma chunked_hit_spec:
  assumes ok: "pool_ok p xs" and gids: "\<forall>g \<in> set gids. g < 2 ^ 32"
    and cls: "spec_class_of spec = ChunkedLocalAttentionSpec chunk" and b: "0 < spec_block_size spec"
    and chunk: "0 < chunk" "spec_block_size spec dvd chunk"
    and len: "0 \<le> max_length" "max_length div spec_block_size spec \<le> int (length hs)"
  shows "\<exists>n computed. chunked_find_longest_cache_hit hs max_length gids p spec False (spec_block_size spec) 1 1
      = Inr computed
    \<and> hit_upto p gids hs n (\<lambda>l. (int l + 1) * spec_block_size spec > int n * spec_block_size spec div chunk * chunk) computed
    \<and> int n * spec_block_size spec \<le> max_length"
proof -
  let ?b = "spec_block_size spec"
  define N where "N = nat (max_length div ?b)"
  define start_idx where "start_idx = max_length div chunk * chunk"
  define s where "s = nat (start_idx div ?b)"
  have div0: "0 \<le> max_length div chunk"
    using len(1) chunk(1) by (simp_all add: pos_imp_zdiv_nonneg_iff)
  have N: "int N = max_length div ?b" "int N * ?b \<le> max_length" "N \<le> length hs"
    unfolding N_def by (rule max_blocks [OF b len])+
  have si: "0 \<le> start_idx" "start_idx \<le> max_length"
    using div0 chunk(1) le_div_int_iff [OF chunk(1), of "max_length div chunk" max_length]
    by (simp_all add: start_idx_def)
  have "?b dvd start_idx" using chunk(2) by (simp add: start_idx_def)
  then have s: "int s * ?b = start_idx" "int s = start_idx div ?b"
    using si(1) b by (simp_all add: s_def pos_imp_zdiv_nonneg_iff)
  have sN: "s \<le> N" using zdiv_mono1 [OF si(2) b] N(1) s(2) by simp
  have null: "null_block p = Blk 0" using ok by (simp add: pool_part_def)
  have init: "hit_upto p gids hs s (\<lambda>l. s \<le> l) (replicate (length gids) (replicate s (Blk 0)))"
    using sN N(3) by (simp add: hit_upto_def)
  obtain c n where run: "hit_loop p gids (drop s (take N hs)) (replicate (length gids) (replicate s (Blk 0))) = Inr c"
    and n: "s \<le> n" "hit_upto p gids hs n (\<lambda>l. s \<le> l) c" "n \<le> N"
    using hit_loop_spec [OF ok gids init sN N(3)] le_add1 by blast
  have "chunked_find_longest_cache_hit hs max_length gids p spec False ?b 1 1 = Inr c"
  proof -
    have "(if max_length > 0 then max_length div chunk * chunk else 0) = start_idx"
      using len(1) by (cases "max_length = 0") (simp_all add: start_idx_def)
    then show ?thesis
      using run index_hit_loop_eq [OF sN N(3), of p gids "replicate (length gids) (replicate s (Blk 0))"]
      by (simp add: chunked_find_longest_cache_hit_def cls null Let_def N(1) s(2) [symmetric])
  qed
  moreover have nb: "int n * ?b \<le> max_length"
  proof -
    have "int n * ?b \<le> int N * ?b" using n(3) b by (simp add: mult_right_mono)
    then show ?thesis using N(2) by linarith
  qed
  moreover have "hit_upto p gids hs n (\<lambda>l. (int l + 1) * ?b > int n * ?b div chunk * chunk) c"
  proof (rule hit_upto_mono [OF n(2)])
    fix l assume l: "(int l + 1) * ?b > int n * ?b div chunk * chunk"
    have "start_idx \<le> int n * ?b" using n(1) b s(1) by (metis mult_right_mono of_nat_le_iff order_less_imp_le)
    then have "max_length div chunk \<le> int n * ?b div chunk"
      using le_div_int_iff [OF chunk(1)] by (simp add: start_idx_def)
    moreover have "int n * ?b div chunk \<le> max_length div chunk" using zdiv_mono1 [OF nb chunk(1)] .
    ultimately have "(int l + 1) * ?b > int s * ?b" using l s(1) by (simp add: start_idx_def)
    then have "int l + 1 > int s" using b by (simp add: mult_less_cancel_right)
    then show "s \<le> l" by simp
  qed
  ultimately show ?thesis by blast
qed

lemma mamba_loop_spec:
  assumes ok: "pool_ok p xs" and gids: "\<forall>g \<in> set gids. g < 2 ^ 32"
  shows "i \<le> length hs \<Longrightarrow> \<exists>n computed. mamba_loop p gids hs bsz al i = Inr computed \<and> n \<le> i
    \<and> hit_upto p gids hs n (\<lambda>l. n \<le> Suc l) computed \<and> (n = 0 \<or> bsz = al \<or> int n * bsz mod al = 0)"
proof (induction i)
  case 0
  then show ?case by (intro exI [of _ 0]) (simp add: hit_upto_def)
next
  case (Suc i)
  obtain n0 c0 where IH: "mamba_loop p gids hs bsz al i = Inr c0" "n0 \<le> i"
    "hit_upto p gids hs n0 (\<lambda>l. n0 \<le> Suc l) c0" "n0 = 0 \<or> bsz = al \<or> int n0 * bsz mod al = 0"
    using Suc.IH [OF Suc_leD [OF Suc.prems]] by (elim exE conjE) (rule that)
  obtain res where res: "lookup_hit p gids (hs ! i) = Inr res"
    "\<forall>bs. res = Some bs \<longrightarrow> length bs = length gids \<and> (\<forall>j < length gids. key_ok p (hs ! i) (gids ! j) (bs ! j))"
    using lookup_hit_spec [OF ok gids, of "hs ! i"] by blast
  have null: "null_block p = Blk 0" using ok by (simp add: pool_part_def)
  have len: "i < length hs" using Suc.prems by simp
  show ?case
  proof (cases "\<exists>bs. res = Some bs \<and> (bsz = al \<or> (int i + 1) * bsz mod al = 0)")
    case True
    then obtain bs where bs: "res = Some bs" "bsz = al \<or> (int i + 1) * bsz mod al = 0"
      by (elim exE conjE) (rule that)
    have "hit_upto p gids hs (Suc i) (\<lambda>l. Suc i \<le> Suc l) (map (\<lambda>b. replicate i (Blk 0) @ [b]) bs)"
      using res(2) bs(1) len by (auto simp: hit_upto_def nth_append less_Suc_eq)
    moreover have "mamba_loop p gids hs bsz al (Suc i) = Inr (map (\<lambda>b. replicate i (Blk 0) @ [b]) bs)"
      using res(1) bs len null by auto
    ultimately show ?thesis
      using bs(2) by (intro exI [of _ "Suc i"] exI [of _ "map (\<lambda>b. replicate i (Blk 0) @ [b]) bs"])
        (simp add: add.commute)
  next
    case False
    then have "mamba_loop p gids hs bsz al (Suc i) = mamba_loop p gids hs bsz al i"
      using res(1) len by (cases res) auto
    with IH show ?thesis by (intro exI [of _ n0] exI [of _ c0]) simp
  qed
qed

text \<open>How many tokens a spec skips, and the configurations in which a hit is looked up.\<close>

fun skipped_by :: "spec_class \<Rightarrow> int \<Rightarrow> int" where
  "skipped_by (SlidingWindowSpec w) n = max 0 (n - w + 1)"
| "skipped_by (ChunkedLocalAttentionSpec c) n = n div c * c"
| "skipped_by (MambaSpec _ _) n = n - 1"
| "skipped_by _ n = 0"

lemma get_num_skipped_tokens_eq: "get_num_skipped_tokens m n = skipped_by (spec_class_of (m_spec m)) n"
  by (simp add: get_num_skipped_tokens_def split: spec_class.split)

fun hit_config :: "spec_class \<Rightarrow> int \<Rightarrow> bool \<Rightarrow> int \<Rightarrow> int \<Rightarrow> int \<Rightarrow> bool" where
  "hit_config (SlidingWindowSpec w) b use_eagle al dcp pcp = (dcp = 1 \<and> pcp = 1 \<and> (use_eagle \<longrightarrow> b = al))"
| "hit_config (ChunkedLocalAttentionSpec c) b use_eagle al dcp pcp =
     (dcp = 1 \<and> pcp = 1 \<and> \<not> use_eagle \<and> b = al \<and> 0 < c \<and> b dvd c)"
| "hit_config (MambaSpec _ _) b use_eagle al dcp pcp = (dcp = 1 \<and> pcp = 1)"
| "hit_config CrossAttentionSpec b use_eagle al dcp pcp = False"
| "hit_config _ b use_eagle al dcp pcp = True"

definition aligned :: "int \<Rightarrow> int \<Rightarrow> nat \<Rightarrow> bool" where
  "aligned b al n \<longleftrightarrow> b = al \<or> int n * b mod al = 0"

lemma hit_usable:
  assumes ok: "pool_ok p xs" and gids: "\<forall>g \<in> set gids. g < 2 ^ 32" "gids \<noteq> []"
    and conf: "hit_config (spec_class_of spec) (spec_block_size spec) use_eagle al dcp pcp"
    and b: "0 < scaled_block_size spec dcp pcp"
    and len: "0 \<le> max_length" "max_length div scaled_block_size spec dcp pcp \<le> int (length hs)"
  shows "\<exists>n computed. find_longest_cache_hit (spec_manager_map (spec_class_of spec)) hs max_length gids p spec
        use_eagle al dcp pcp = Inr computed
    \<and> hit_upto p gids hs n (\<lambda>l. (int l + 1) * scaled_block_size spec dcp pcp
          > skipped_by (spec_class_of spec) (int n * scaled_block_size spec dcp pcp)) computed
    \<and> int n * scaled_block_size spec dcp pcp \<le> max_length \<and> aligned (scaled_block_size spec dcp pcp) al n"
proof -
  have full: "\<exists>n computed. full_find_longest_cache_hit hs max_length gids p spec use_eagle al dcp pcp = Inr computed
      \<and> hit_upto p gids hs n (\<lambda>l. (int l + 1) * scaled_block_size spec dcp pcp > 0) computed
      \<and> int n * scaled_block_size spec dcp pcp \<le> max_length
      \<and> aligned (scaled_block_size spec dcp pcp) al n" if "is_full_spec (spec_class_of spec)"
  proof -
    obtain n computed where r: "full_find_longest_cache_hit hs max_length gids p spec use_eagle al dcp pcp = Inr computed"
      "hit_upto p gids hs n (\<lambda>_. True) computed" "int n * scaled_block_size spec dcp pcp \<le> max_length"
      "scaled_block_size spec dcp pcp \<noteq> al \<longrightarrow> int n * scaled_block_size spec dcp pcp mod al = 0"
      using full_hit_spec [OF ok gids \<open>is_full_spec (spec_class_of spec)\<close> b len, of use_eagle al]
      by (elim exE conjE) (rule that)
    have "hit_upto p gids hs n (\<lambda>l. (int l + 1) * scaled_block_size spec dcp pcp > 0) computed"
      by (rule hit_upto_mono [OF r(2)]) simp
    moreover have "aligned (scaled_block_size spec dcp pcp) al n"
      using r(4) unfolding aligned_def by (cases "scaled_block_size spec dcp pcp = al") simp_all
    ultimately show ?thesis using r(1,3) by blast
  qed
  show ?thesis
  proof (cases "spec_class_of spec")
    case (SlidingWindowSpec w)
    then have one: "dcp = 1" "pcp = 1" "use_eagle \<Longrightarrow> spec_block_size spec = al" using conf by auto
    show ?thesis
      using window_hit_spec [OF ok gids SlidingWindowSpec _ len(1) _ one(3), of hs, folded aligned_def] b len(2)
      by (force simp: one(1,2) SlidingWindowSpec find_longest_cache_hit_def)
  next
    case (ChunkedLocalAttentionSpec c)
    then have one: "dcp = 1" "pcp = 1" "\<not> use_eagle" "al = spec_block_size spec" "0 < c" "spec_block_size spec dvd c"
      using conf by auto
    show ?thesis
      using chunked_hit_spec [OF ok gids(1) ChunkedLocalAttentionSpec _ one(5,6) len(1), of hs] b len(2)
      by (auto simp: one(1-4) ChunkedLocalAttentionSpec find_longest_cache_hit_def aligned_def)
  next
    case (MambaSpec mode k)
    then have one: "dcp = 1" "pcp = 1" using conf by auto
    let ?b = "spec_block_size spec"
    have b': "0 < ?b" using b by (simp add: one)
    define N where "N = nat (max_length div ?b)"
    have N: "int N * ?b \<le> max_length" "N \<le> length hs"
      using max_blocks [OF b' len(1)] len(2) unfolding N_def one by auto
    obtain n computed where n: "mamba_loop p gids hs ?b al N = Inr computed" "n \<le> N"
      "hit_upto p gids hs n (\<lambda>l. n \<le> Suc l) computed" "n = 0 \<or> aligned ?b al n"
      using mamba_loop_spec [OF ok gids(1) N(2), folded aligned_def] by blast
    have "hit_upto p gids hs n (\<lambda>l. (int l + 1) * ?b > int n * ?b - 1) computed"
    proof (rule hit_upto_mono [OF n(3)])
      fix l assume "(int l + 1) * ?b > int n * ?b - 1"
      then have "int n * ?b \<le> (int l + 1) * ?b" by linarith
      then have "int n \<le> int l + 1" using b' by (simp add: mult_le_cancel_right)
      then show "n \<le> Suc l" by simp
    qed
    moreover have "int n * ?b \<le> max_length"
    proof -
      have "int n * ?b \<le> int N * ?b" using n(2) b' by (simp add: mult_right_mono)
      then show ?thesis using N(1) by linarith
    qed
    moreover have "aligned ?b al n" using n(4) by (cases "n = 0") (simp_all add: aligned_def)
    ultimately show ?thesis
      using n(1) by (auto simp: MambaSpec find_longest_cache_hit_def mamba_find_longest_cache_hit_def one N_def)
  next
    case CrossAttentionSpec
    then show ?thesis using conf by simp
  qed (use full in \<open>simp_all add: find_longest_cache_hit_def\<close>)
qed

subsection \<open>The block count is what the allocation takes\<close>

text \<open>
  The align mode of Mamba aside, and where a Mamba group is not split over context-parallel ranks,
  \<open>allocate_new_blocks\<close> is the base method on the tokens that \<open>asked_tokens\<close> counts.
\<close>

definition plain_mode :: "manager \<Rightarrow> bool" where
  "plain_mode m = (case spec_class_of (m_spec m) of
     MambaSpec mode _ \<Rightarrow> mode \<noteq> ''align'' \<and> m_block_size m = spec_block_size (m_spec m) | _ \<Rightarrow> True)"

definition asked_tokens :: "manager \<Rightarrow> int \<Rightarrow> int" where
  "asked_tokens m n = (case spec_class_of (m_spec m) of
     MambaSpec _ k \<Rightarrow> (if k > 0 then n + m_block_size m * k else n) | _ \<Rightarrow> n)"

lemma asked_tokens_ge: "0 < m_block_size m \<Longrightarrow> n \<le> asked_tokens m n"
  by (simp add: asked_tokens_def split: spec_class.split)

lemma asked_tokens_config: "mgr_config m m' \<Longrightarrow> asked_tokens m' = asked_tokens m"
  by (simp add: asked_tokens_def mgr_config_def fun_eq_iff split: spec_class.split)

lemma plain_mode_config: "mgr_config m m' \<Longrightarrow> plain_mode m' = plain_mode m"
  by (simp add: plain_mode_def mgr_config_def split: spec_class.split)

lemma plain_allocate:
  "plain_mode m \<Longrightarrow> allocate_new_blocks rid n main m p = base_allocate_new_blocks rid (asked_tokens m n) m p"
  by (auto simp: plain_mode_def allocate_new_blocks_def asked_tokens_def split: spec_class.splits)

lemma plain_count:
  assumes "plain_mode m" "get_num_blocks_to_allocate m p rid n hits tot main = Inr (k, m')" "k \<le> num_gpu_blocks p"
  shows "m' = m \<and> base_get_num_blocks_to_allocate m p rid (asked_tokens m n) hits tot = Inr k"
  using assms
  by (cases "base_get_num_blocks_to_allocate m p rid (asked_tokens m n) hits tot")
    (auto simp: plain_mode_def get_num_blocks_to_allocate_def asked_tokens_def
        split: spec_class.splits if_splits)

text \<open>The blocks of a hit that nobody uses are still in the free queue, and leave it when touched.\<close>

lemma evictable_count:
  assumes ok: "pool_ok p xs" and hit: "hit_blocks_ok p hits"
  shows "int (length (filter (\<lambda>b. b \<notin> set hits) xs)) + get_num_evictable_blocks p hits = int (length xs)"
proof -
  let ?ev = "filter (\<lambda>b. ref_cnt (pool_store p b) = 0 \<and> \<not> is_null (pool_store p b)) hits"
  have null: "is_null (pool_store p b) \<longleftrightarrow> b = Blk 0" for b using ok by (simp add: pool_part_def)
  have "distinct (filter (\<lambda>b. refs p b = 0) (filter (\<lambda>b. b \<noteq> Blk 0) hits))"
    using hit by (subst distinct_filter) (simp_all add: hit_blocks_ok_def)
  then have d: "distinct ?ev" by (simp add: null conj_commute)
  have mem: "b \<in> set xs \<longleftrightarrow> b \<in> set (blocks p) \<and> b \<noteq> Blk 0 \<and> refs p b = 0" for b
    using pool_partD(4) [OF ok, of b] by simp
  have "set ?ev = set (filter (\<lambda>b. b \<in> set hits) xs)"
    using hit by (auto simp: mem null hit_blocks_ok_def)
  moreover have "distinct (filter (\<lambda>b. b \<in> set hits) xs)" using pool_partD(2) [OF ok] by simp
  ultimately have "length ?ev = length (filter (\<lambda>b. b \<in> set hits) xs)"
    using d by (metis distinct_card)
  then show ?thesis
    using sum_length_filter_compl [of "\<lambda>b. b \<in> set hits" xs] by (simp add: get_num_evictable_blocks_def)
qed

text \<open>The tokens a group skips are tokens already computed, when window and chunk are positive.\<close>

fun spec_params_ok :: "spec_class \<Rightarrow> bool" where
  "spec_params_ok (SlidingWindowSpec w) = (1 \<le> w)"
| "spec_params_ok (ChunkedLocalAttentionSpec c) = (0 < c)"
| "spec_params_ok _ = True"

lemma skipped_le: "spec_params_ok cls \<Longrightarrow> 0 \<le> n \<Longrightarrow> skipped_by cls n \<le> n"
  using le_div_int_iff by (cases cls) auto

text \<open>
  A new request: the count is the number of blocks that leave the free queue when the hit is taken
  over, plus the number that \<open>allocate_new_blocks\<close> then needs.
\<close>

lemma computed_count:
  fixes num_local num_external n :: int and rid :: string
  assumes inv: "mgr_inv m p xs ext" and new: "\<not> is_running rid m" "blocks_of rid m = []"
    and hit: "hit_blocks_ok p hits" and caching: "\<not> m_enable_caching m \<Longrightarrow> hits = []"
    and cls: "spec_params_ok (spec_class_of (m_spec m))" "spec_class_of (m_spec m) \<noteq> CrossAttentionSpec"
    and toks: "0 \<le> num_local + num_external" "num_local + num_external \<le> n"
      "int (length hits) * m_block_size m \<le> num_local + num_external"
    and count: "base_get_num_blocks_to_allocate m p rid n hits (num_local + num_external) = Inr k"
    and room: "k \<le> int (length xs)"
  shows "\<exists>m' p' ys. allocate_new_computed_blocks rid hits num_local num_external m p = Inr (m', p')
    \<and> mgr_inv m' p' ys ext \<and> op_frame m p xs m' p' \<and> is_running rid m'
    \<and> (\<forall>r. r \<noteq> rid \<longrightarrow> blocks_of r m' = blocks_of r m)
    \<and> (\<exists>new. blocks_of rid m' = computed_prefix m hits (num_local + num_external) @ new)
    \<and> k = int (length xs) - int (length ys) + max 0 (cdiv n (m_block_size m) - int (length (blocks_of rid m')))"
proof -
  let ?b = "m_block_size m" and ?tot = "num_local + num_external"
  define sk where "sk = get_num_skipped_tokens m ?tot div ?b"
  define bs where "bs = computed_prefix m hits ?tot"
  define ys where "ys = filter (\<lambda>b. b \<notin> set bs) xs"
  define ev where "ev = get_num_evictable_blocks p (drop (nat sk) hits)"
  have b: "0 < ?b" by (rule mgr_invD(4) [OF inv])
  have bs: "bs = replicate (nat sk) (Blk 0) @ drop (nat sk) hits"
    by (simp add: bs_def computed_prefix_def sk_def Let_def)
  then have len: "int (length bs) = max (max 0 sk) (int (length hits))" by auto
  have "get_num_skipped_tokens m ?tot \<le> ?tot"
    unfolding get_num_skipped_tokens_eq by (rule skipped_le [OF cls(1) toks(1)])
  then have "sk * ?b \<le> ?tot" using le_div_int_iff [OF b, of sk] sk_def by (metis order_refl order_trans)
  then have fits: "int (length bs) \<le> cdiv ?tot ?b"
    using toks(3) cdiv_nonneg [OF b toks(1)] le_cdiv [OF b] by (simp add: len)
  have ys: "ys = filter (\<lambda>b. b \<notin> set (drop (nat sk) hits)) xs"
    using pool_partD(4) [OF mgr_invD(1) [OF inv], of "Blk 0"] unfolding ys_def bs
    by (intro filter_cong) auto
  have ev: "int (length ys) + ev = int (length xs)"
    unfolding ys ev_def by (rule evictable_count [OF mgr_invD(1) [OF inv] hit_blocks_ok_drop [OF hit]])
  have "slice_from hits (max 0 sk) = drop (nat sk) hits" by (simp add: max_def)
  then have k: "k = max 0 (cdiv n ?b - int (length bs)) + ev"
    using count new len
    by (simp add: base_get_num_blocks_to_allocate_def Let_def sk_def [symmetric] ev_def max_def split: if_splits)
  have "cdiv ?tot ?b \<le> cdiv n ?b" by (rule cdiv_mono [OF b toks(2)])
  with fits k room ev have need: "0 \<le> cdiv ?tot ?b - int (length bs)" "cdiv ?tot ?b - int (length bs) \<le> int (length ys)"
    by linarith+
  note spec = base_allocate_new_computed_blocks_spec [where hits = hits and num_local = num_local
      and num_external = num_external, OF inv new hit, folded bs_def, folded ys_def]
  obtain m' p' j where run: "base_allocate_new_computed_blocks rid hits num_local num_external m p = Inr (m', p')"
    "mgr_inv m' p' (drop j ys) ext" "op_frame m p xs m' p'" "j \<le> nat (cdiv ?tot ?b - int (length bs))"
    "blocks_of rid m' = bs @ take j ys" "is_running rid m'" "\<forall>r. r \<noteq> rid \<longrightarrow> blocks_of r m' = blocks_of r m"
    using spec caching need by blast
  have j: "j \<le> length ys" "int (length (blocks_of rid m')) \<le> cdiv n ?b"
    using run(4,5) fits \<open>cdiv ?tot ?b \<le> cdiv n ?b\<close> need by auto
  then have "k = int (length xs) - int (length (drop j ys)) + max 0 (cdiv n ?b - int (length (blocks_of rid m')))"
    using k ev run(5) by simp
  moreover have "allocate_new_computed_blocks rid hits num_local num_external m p = Inr (m', p')"
    using run(1) cls(2) by (simp add: allocate_new_computed_blocks_def split: spec_class.split)
  ultimately show ?thesis using run unfolding bs_def by blast
qed

subsection \<open>The methods of every class\<close>

lemma op_frame_cong:
  assumes "op_frame m p xs m' p'" "req_to_blocks m1 = req_to_blocks m" "mgr_config m1 m"
  shows "op_frame m1 p xs m' p'"
  using assms by (auto simp: op_frame_def untouched_def held_def mgr_config_def)

lemma free_spec:
  assumes inv: "mgr_inv m p xs ext"
  shows "\<exists>m' p'. free rid m p = Inr (m', p')
    \<and> mgr_inv m' p' (xs @ filter (\<lambda>b. b \<noteq> Blk 0 \<and> refs p b = 1) (rev (blocks_of rid m))) ext
    \<and> op_frame m p xs m' p' \<and> blocks_of rid m' = [] \<and> \<not> is_running rid m'
    \<and> (\<forall>r. r \<noteq> rid \<longrightarrow> blocks_of r m' = blocks_of r m)
    \<and> (\<forall>b. hash_of p' b = hash_of p b)"
proof -
  define m1 where "m1 = (case spec_class_of (m_spec m) of
      MambaSpec mode _ \<Rightarrow>
        if mode = ''align''
        then m\<lparr>allocated_block_reqs := removeAll rid (allocated_block_reqs m),
               last_state_block_idx := AList.delete rid (last_state_block_idx m)\<rparr>
        else m
    | _ \<Rightarrow> m)"
  have m1: "free rid m p = base_free rid m1 p" "req_to_blocks m1 = req_to_blocks m"
    "num_cached_block m1 = num_cached_block m" "mgr_config m m1" "m_null_block m1 = m_null_block m"
    by (simp_all add: free_def m1_def mgr_config_def split: spec_class.split)
  have inv1: "mgr_inv m1 p xs ext"
    using inv by (rule mgr_inv_cong) (use m1 in \<open>simp_all add: mgr_config_def\<close>)
  have bl: "blocks_of r m1 = blocks_of r m" for r by (simp add: blocks_of_def m1(2))
  have fr: "op_frame m p xs m' p'" if "op_frame m1 p xs m' p'" for m' p'
    using that m1(2,4) by (auto intro!: op_frame_cong [OF that])
  show ?thesis
    using base_free_spec [OF inv1, of rid] fr unfolding m1(1) bl by blast
qed

text \<open>A request is told apart from its speculative suffix before its skipped blocks are removed.\<close>

definition settled_tokens :: "manager \<Rightarrow> int \<Rightarrow> int" where
  "settled_tokens m n = (case spec_class_of (m_spec m) of MambaSpec _ k \<Rightarrow> max 0 (n - k) | _ \<Rightarrow> n)"

lemma plain_remove_skipped:
  "plain_mode m \<Longrightarrow>
   remove_skipped_blocks rid n m p = base_remove_skipped_blocks rid (settled_tokens m n) m p"
  by (cases "base_remove_skipped_blocks rid (settled_tokens m n) m p")
    (auto simp: plain_mode_def remove_skipped_blocks_def settled_tokens_def split: spec_class.splits)

lemma note_cached_hashes_total:
  "(\<And>b. b \<in> set bs \<Longrightarrow> \<not> is_null (s b) \<Longrightarrow> block_hash (s b) \<noteq> None) \<Longrightarrow>
   \<exists>hs'. note_cached_hashes s bs hs = Inr hs'"
proof (induction bs arbitrary: hs)
  case (Cons b bs)
  have "is_null (s b) \<or> (\<exists>h. block_hash (s b) = Some h)" using Cons.prems [of b] by auto
  with Cons show ?case by auto
qed simp

lemma cache_blocks_spec:
  fixes n :: int and r :: request
  assumes inv: "mgr_inv m p xs ext" and caching: "enable_caching p"
    and cls: "spec_class_of (m_spec m) \<noteq> CrossAttentionSpec" and g: "kv_cache_group_id m < 2 ^ 32"
  defines "rid \<equiv> request_id r"
  defines "full \<equiv> n div m_block_size m"
  assumes room: "full \<le> int (length (blocks_of rid m))" "full \<le> int (length (block_hashes r))"
    and hs: "group_block_hashes p r (m_block_size m) = Inr hs" "full \<le> int (length hs)"
  shows "\<exists>memo m' p'. cache_blocks env r n m p
      = Inr (r\<lparr>prompt_embeds_per_block_hashes := memo\<rparr>, m', p')
    \<and> mgr_inv m' p' xs ext \<and> op_frame m p xs m' p'
    \<and> (\<forall>r. blocks_of r m' = blocks_of r m) \<and> num_cached rid m' = max (num_cached rid m) full
    \<and> (\<forall>i < nat full. num_cached rid m \<le> int i \<longrightarrow> blocks_of rid m ! i \<noteq> Blk 0 \<longrightarrow>
          (\<exists>k. hash_of p' (blocks_of rid m ! i) = Some k
             \<and> make_block_hash_with_group_id (hs ! i) (kv_cache_group_id m) = Inr k))"
proof -
  obtain memo m1 p' where base: "base_cache_blocks env r n m p
      = Inr (r\<lparr>prompt_embeds_per_block_hashes := memo\<rparr>, m1, p')"
    "mgr_inv m1 p' xs ext" "op_frame m p xs m1 p'" "\<forall>r. blocks_of r m1 = blocks_of r m"
    "num_cached rid m1 = max (num_cached rid m) full"
    "\<forall>i < nat full. num_cached rid m \<le> int i \<longrightarrow> blocks_of rid m ! i \<noteq> Blk 0 \<longrightarrow>
          (\<exists>k. hash_of p' (blocks_of rid m ! i) = Some k
             \<and> make_block_hash_with_group_id (hs ! i) (kv_cache_group_id m) = Inr k)"
    using base_cache_blocks_spec [where r = r and n = n and env = env, OF inv caching g] room hs
    unfolding rid_def full_def by blast
  let ?new = "drop (nat (num_cached rid m)) (take (nat full) (blocks_of rid m))"
  have c0: "0 \<le> num_cached rid m" using mgr_invD(7) [OF inv, of rid] by (simp add: req_ok_def)
  have hashed: "hash_of p' b \<noteq> None" if b: "b \<in> set ?new" "\<not> is_null (pool_store p' b)" for b
  proof -
    obtain l where l: "l < length ?new" "b = ?new ! l" using b(1) by (auto simp: in_set_conv_nth)
    define i where "i = nat (num_cached rid m) + l"
    have i: "i < nat full" "b = blocks_of rid m ! i" using l by (simp_all add: i_def) (subst nth_drop, auto)
    have "b \<noteq> Blk 0" using b(2) mgr_invD(1) [OF base(2)] by (auto simp: pool_part_def)
    moreover have "num_cached rid m \<le> int i" using c0 by (simp add: i_def)
    ultimately show ?thesis using base(6) i by force
  qed
  then obtain hs' where hs': "note_cached_hashes (pool_store p') ?new (cached_blocks_this_step m1) = Inr hs'"
    using note_cached_hashes_total by blast
  define m' where "m' = (case spec_class_of (m_spec m) of
      MambaSpec _ _ \<Rightarrow> if full > num_cached rid m then m1\<lparr>cached_blocks_this_step := hs'\<rparr> else m1
    | _ \<Rightarrow> m1)"
  have same: "req_to_blocks m' = req_to_blocks m1" "num_cached_block m' = num_cached_block m1"
    "m_null_block m' = m_null_block m1" "mgr_config m m' = mgr_config m m1"
    "m_block_size m' = m_block_size m1" "m_enable_caching m' = m_enable_caching m1"
    by (simp_all add: m'_def mgr_config_def split: spec_class.split)
  have "cache_blocks env r n m p = Inr (r\<lparr>prompt_embeds_per_block_hashes := memo\<rparr>, m', p')"
  proof -
    have "slice_between (blocks_of rid m1) (num_cached rid m) (num_cached rid m1) = ?new"
      if "full > num_cached rid m"
      using c0 that base(4,5) by simp
    then show ?thesis
      using base(1,5) cls hs'
      by (auto simp: cache_blocks_def m'_def rid_def [symmetric] Let_def split: spec_class.splits)
  qed
  moreover have "mgr_inv m' p' xs ext" using base(2) by (rule mgr_inv_cong) (simp_all add: same)
  moreover have "op_frame m p xs m' p'" using base(3) by (simp add: op_frame_def same)
  moreover have "\<forall>r. blocks_of r m' = blocks_of r m" using base(4) by (simp add: blocks_of_def same)
  moreover have "num_cached rid m' = max (num_cached rid m) full" using base(5) by (simp add: num_cached_def same)
  ultimately show ?thesis using base(6) by blast
qed

subsection \<open>Properties\<close>

text \<open>A pool of four blocks in which blocks 1 and 2 are cached and held, for the witnesses.\<close>

lemma example_cached_pool:
  "\<exists>p. pool_ok p [Blk 3] \<and> set (blocks p) = {Blk 0, Blk 1, Blk 2, Blk 3} \<and> enable_caching p
     \<and> hash_block_size p = 16
     \<and> (\<forall>k. make_block_hash_with_group_id [1] 0 = Inr k \<longrightarrow> hash_of p (Blk 1) = Some k)
     \<and> (\<forall>k. make_block_hash_with_group_id [2] 0 = Inr k \<longrightarrow> hash_of p (Blk 2) = Some k)"
proof -
  let ?r = "(example_request [] 1)\<lparr>block_hashes := [[1], [2]]\<rparr>"
  obtain p0 where p0: "pool_ok p0 [Blk 1, Blk 2, Blk 3]" "enable_caching p0"
    "hash_block_size p0 = 16" "\<forall>b. refs p0 b = 0 \<and> hash_of p0 b = None" "num_gpu_blocks p0 = 4"
    using block_pool_init_spec [of 4 True 16 False False None] by (auto simp: upt_rec eval_nat_numeral)
  obtain p1 where p1: "pool_ok p1 [Blk 3]" "same_config p0 p1" "\<forall>b. hash_of p1 b = None"
    using get_new_blocks_spec [OF p0(1), of 2] p0(4) by auto
  have bl: "set (blocks p1) = {Blk 0, Blk 1, Blk 2, Blk 3}"
    using p1(1,2) p0(5) by (auto simp: pool_part_def same_config_def upt_rec eval_nat_numeral)
  have hs: "group_block_hashes p1 ?r 16 = Inr [[1], [2]]"
    using p1(2) p0(3) by (simp add: group_block_hashes_def same_config_def)
  have "\<exists>memo p. cache_full_blocks (serialising_env 16) ?r [Blk 1, Blk 2] 0 2 16 0 p1
      = Inr (?r\<lparr>prompt_embeds_per_block_hashes := memo\<rparr>, p) \<and> pool_ok p [Blk 3] \<and> same_config p1 p
      \<and> (\<forall>x. refs p x = refs p1 x)
      \<and> (\<forall>x. x \<notin> set (drop (nat 0) (take (nat 2) [Blk 1, Blk 2])) \<or> x = Blk 0 \<longrightarrow> hash_of p x = hash_of p1 x)
      \<and> (\<forall>j<nat 2. nat 0 \<le> j \<longrightarrow> [Blk 1, Blk 2] ! j \<noteq> Blk 0 \<longrightarrow>
            (\<exists>k. hash_of p ([Blk 1, Blk 2] ! j) = Some k
               \<and> make_block_hash_with_group_id ([[1], [2]] ! j) 0 = Inr k))"
    by (rule cache_full_blocks_spec [OF p1(1) _ _ _ _ _ hs]) (use p1(3) bl in simp_all)
  then obtain p where p: "pool_ok p [Blk 3]" "same_config p1 p"
    and k: "\<forall>j<nat 2. nat 0 \<le> j \<longrightarrow> [Blk 1, Blk 2] ! j \<noteq> Blk 0 \<longrightarrow>
            (\<exists>k. hash_of p ([Blk 1, Blk 2] ! j) = Some k
               \<and> make_block_hash_with_group_id ([[1], [2]] ! j) 0 = Inr k)"
    by blast
  obtain k1 where k1: "hash_of p (Blk 1) = Some k1" "make_block_hash_with_group_id [1] 0 = Inr k1"
    using k [rule_format, of 0] by auto
  obtain k2 where k2: "hash_of p (Blk 2) = Some k2" "make_block_hash_with_group_id [2] 0 = Inr k2"
    using k [rule_format, of 1] by auto
  have "same_config p0 p" by (rule same_config_trans [OF p1(2) p(2)])
  then have "enable_caching p" "hash_block_size p = 16" using p0(2,3) by (simp_all add: same_config_def)
  moreover have "set (blocks p) = {Blk 0, Blk 1, Blk 2, Blk 3}" using p(2) bl by (simp add: same_config_def)
  ultimately show ?thesis
    using p(1) k1(1) k2(1) by (intro exI [of _ p]) (simp add: k1(2) k2(2))
qed

text \<open>
  C23: A prefix-cache hit is usable, for every attention type: the search succeeds, covers at most
  \<open>max_length\<close> tokens, and each group gets the same number of blocks, where every block is cached
  under the hash of its position in its group, except that a block all of whose tokens the
  attention type skips once the hit is computed may be the null block.
\<close>

theorem cache_hit_usable:
  assumes ok: "pool_ok p xs" and gids: "\<forall>g \<in> set gids. g < 2 ^ 32" "gids \<noteq> []"
    and conf: "hit_config (spec_class_of (m_spec m)) (spec_block_size (m_spec m)) use_eagle al dcp pcp"
    and b: "0 < scaled_block_size (m_spec m) dcp pcp"
    and len: "0 \<le> max_length" "max_length div scaled_block_size (m_spec m) dcp pcp \<le> int (length hs)"
  shows "\<exists>n computed. find_longest_cache_hit (spec_manager_map (spec_class_of (m_spec m))) hs max_length gids p
        (m_spec m) use_eagle al dcp pcp = Inr computed
    \<and> length computed = length gids \<and> int n * scaled_block_size (m_spec m) dcp pcp \<le> max_length
    \<and> (\<forall>j < length gids. length (computed ! j) = n \<and> (\<forall>l < n.
          (\<exists>k. make_block_hash_with_group_id (hs ! l) (gids ! j) = Inr k \<and> hash_of p (computed ! j ! l) = Some k)
          \<or> ((int l + 1) * scaled_block_size (m_spec m) dcp pcp
                 \<le> get_num_skipped_tokens m (int n * scaled_block_size (m_spec m) dcp pcp)
             \<and> computed ! j ! l = null_block p)))"
proof -
  have null: "null_block p = Blk 0" using ok by (simp add: pool_part_def)
  obtain n computed where "find_longest_cache_hit (spec_manager_map (spec_class_of (m_spec m))) hs max_length gids p
        (m_spec m) use_eagle al dcp pcp = Inr computed"
    "hit_upto p gids hs n (\<lambda>l. (int l + 1) * scaled_block_size (m_spec m) dcp pcp
          > skipped_by (spec_class_of (m_spec m)) (int n * scaled_block_size (m_spec m) dcp pcp)) computed"
    "int n * scaled_block_size (m_spec m) dcp pcp \<le> max_length"
    using hit_usable [OF ok gids conf b len] by blast
  then show ?thesis
    unfolding hit_upto_def key_ok_def get_num_skipped_tokens_eq null not_less
    by (intro exI [of _ n] exI [of _ computed]) simp
qed

definition example_manager :: "spec_class \<Rightarrow> manager" where
  "example_manager cls =
     \<lparr>m_block_size = 16, m_spec = \<lparr>spec_class_of = cls, spec_block_size = 16, spec_layout = []\<rparr>,
      m_enable_caching = True, new_block_ids = [], req_to_blocks = [], num_cached_block = [],
      kv_cache_group_id = 0, m_null_block = Blk 0, cached_blocks_this_step = [],
      last_state_block_idx = [], allocated_block_reqs = [], sink_blocks = []\<rparr>"

theorem cache_hit_usable_witness:
  "\<exists>p n computed. find_longest_cache_hit SlidingWindowManager [[1], [2]] 32 [0] p
        (m_spec (example_manager (SlidingWindowSpec 17))) False 16 1 1 = Inr computed
     \<and> length computed = 1 \<and> n \<le> 2 \<and> length (computed ! 0) = n
     \<and> (\<forall>l < n. (\<exists>k. make_block_hash_with_group_id ([[1], [2]] ! l) 0 = Inr k
                \<and> hash_of p (computed ! 0 ! l) = Some k)
           \<or> (computed ! 0 ! l = null_block p \<and> (int l + 1) * 16 \<le> max 0 (int n * 16 - 16)))"
proof -
  let ?m = "example_manager (SlidingWindowSpec 17)"
  obtain p where p: "pool_ok p [Blk 3]" using example_cached_pool by blast
  show ?thesis
    using cache_hit_usable [OF p, where gids = "[0]" and m = ?m and use_eagle = False and al = 16
        and dcp = 1 and pcp = 1 and max_length = 32 and hs = "[[1], [2]]"]
    by (auto simp: example_manager_def get_num_skipped_tokens_def)
qed

text \<open>
  C28: Full attention finds the longest hit: the blocks found are the longest prefix of cached
  hashes whose length is aligned, one block shorter when a draft model needs the last one
  recomputed; no longer aligned hit within \<open>max_length\<close> exists.
\<close>


theorem full_attention_hit_longest:
  fixes spec :: kv_cache_spec and dcp pcp max_length al :: int and use_eagle :: bool
  assumes ok: "pool_ok p xs" and gids: "\<forall>g \<in> set gids. g < 2 ^ 32" "gids \<noteq> []"
    and cls: "is_full_spec (spec_class_of spec)" and bsz: "0 < scaled_block_size spec dcp pcp"
    and len: "0 \<le> max_length" "max_length div scaled_block_size spec dcp pcp \<le> int (length hs)"
  defines "b \<equiv> scaled_block_size spec dcp pcp"
  defines "longest \<equiv> length (takeWhile (all_cached p gids) (take (nat (max_length div b)) hs))
                       - (if use_eagle then 1 else 0)"
  shows "\<exists>n computed. full_find_longest_cache_hit hs max_length gids p spec use_eagle al dcp pcp = Inr computed
    \<and> length computed = length gids
    \<and> (\<forall>j < length gids. length (computed ! j) = n \<and> (\<forall>l < n. key_ok p (hs ! l) (gids ! j) (computed ! j ! l)))
    \<and> n \<le> longest \<and> (b = al \<or> int n * b mod al = 0)
    \<and> (\<forall>l. n < l \<and> l \<le> longest \<longrightarrow> b \<noteq> al \<and> int l * b mod al \<noteq> 0)"
proof -
  obtain n computed where "full_find_longest_cache_hit hs max_length gids p spec use_eagle al dcp pcp = Inr computed"
    and hit: "hit_upto p gids hs n (\<lambda>_. True) computed" and al: "b \<noteq> al \<longrightarrow> int n * b mod al = 0"
    and "n \<le> longest" and max: "\<forall>l. n < l \<and> l \<le> longest \<longrightarrow> b \<noteq> al \<and> int l * b mod al \<noteq> 0"
    using full_hit_spec [OF ok gids cls bsz len, of use_eagle al, folded b_def, folded longest_def]
    by (elim exE conjE) (rule that)
  moreover have "b = al \<or> int n * b mod al = 0" using al by (cases "b = al") simp_all
  moreover have "length computed = length gids" using hit by (simp add: hit_upto_def)
  moreover have "\<forall>j < length gids. length (computed ! j) = n \<and> (\<forall>l < n. key_ok p (hs ! l) (gids ! j) (computed ! j ! l))"
    using hit by (simp add: hit_upto_def)
  ultimately show ?thesis using max by (intro exI [of _ n] exI [of _ computed] conjI)
qed

theorem full_attention_hit_longest_witness:
  "\<exists>p computed. pool_ok p [Blk 3]
     \<and> full_find_longest_cache_hit [[1], [2]] 32 [0] p (m_spec (example_manager FullAttentionSpec)) False 16 1 1
         = Inr computed
     \<and> length computed = 1 \<and> length (computed ! 0) = 2"
proof -
  let ?spec = "m_spec (example_manager FullAttentionSpec)"
  obtain p k1 k2 where p: "pool_ok p [Blk 3]"
    and k: "make_block_hash_with_group_id [1] 0 = Inr k1" "hash_of p (Blk 1) = Some k1"
      "make_block_hash_with_group_id [2] 0 = Inr k2" "hash_of p (Blk 2) = Some k2"
    using example_cached_pool by (auto simp: make_block_hash_with_group_id_def to_bytes4_def)
  have cached: "all_cached p [0] [1]" "all_cached p [0] [2]"
    using k by (auto simp: all_cached_def key_ok_def)
  have b: "spec_block_size ?spec = 16" "is_full_spec (spec_class_of ?spec)"
    by (simp_all add: example_manager_def)
  obtain n computed where run: "full_find_longest_cache_hit [[1], [2]] 32 [0] p ?spec False 16 1 1 = Inr computed"
    "length computed = 1" "length (computed ! 0) = n" "n \<le> 2" "\<forall>l. n < l \<longrightarrow> \<not> l \<le> 2"
    using full_attention_hit_longest [OF p _ _ b(2), where gids = "[0]" and use_eagle = False and al = 16
        and dcp = 1 and pcp = 1 and max_length = 32 and hs = "[[1], [2]]"] cached b(1)
    by (auto simp: numeral_2_eq_2)
  have "n = 2" using run(4) run(5) [rule_format, of 2] by linarith
  with run p show ?thesis by blast
qed

text \<open>
  The align mode of Mamba gives back one more block: the state block of the previous step, once a later
  state block covers the computed tokens.
\<close>

lemma align_remove_skipped_blocks:
  assumes inv: "mgr_inv m p xs ext" and spec: "spec_class_of (m_spec m) = MambaSpec ''align'' sb"
    and run: "remove_skipped_blocks rid n m p = Inr (m', p')"
  shows "length (blocks_of rid m') = length (blocks_of rid m)" "\<forall>r. r \<noteq> rid \<longrightarrow> blocks_of r m' = blocks_of r m"
    "\<forall>i < length (blocks_of rid m). blocks_of rid m' ! i = blocks_of rid m ! i
       \<or> (blocks_of rid m' ! i = Blk 0
          \<and> ((int i + 1) * m_block_size m \<le> get_num_skipped_tokens m (max 0 (n - sb))
             \<or> (\<exists>l. map_of (last_state_block_idx m) rid = Some l \<and> l < cdiv (max 0 (n - sb)) (m_block_size m) - 1
                  \<and> int i = (if l < 0 then int (length (blocks_of rid m)) + l else l))))"
proof -
  let ?c = "max 0 (n - sb)"
  obtain m1 p1 ys where b: "base_remove_skipped_blocks rid ?c m p = Inr (m1, p1)" "mgr_inv m1 p1 (xs @ ys) ext"
    "length (blocks_of rid m1) = length (blocks_of rid m)"
    "\<forall>i < length (blocks_of rid m). blocks_of rid m1 ! i = blocks_of rid m ! i
        \<or> (blocks_of rid m1 ! i = Blk 0 \<and> (int i + 1) * m_block_size m \<le> get_num_skipped_tokens m ?c)"
    "\<forall>r. r \<noteq> rid \<longrightarrow> blocks_of r m1 = blocks_of r m"
    using base_remove_skipped_blocks_spec [OF inv, of rid ?c] by blast
  have cfg: "m_block_size m1 = m_block_size m" "last_state_block_idx m1 = last_state_block_idx m"
    using b(1) by (auto simp: base_remove_skipped_blocks_def Let_def set_blocks_def bindR_eq_Inr split: if_split_asm prod.splits)
  have null: "m_null_block m1 = Blk 0" using b(2) by (simp add: mgr_inv_def)
  have cases: "(\<forall>r. blocks_of r m' = blocks_of r m1)
      \<or> (\<exists>l. map_of (last_state_block_idx m) rid = Some l \<and> l < cdiv ?c (m_block_size m) - 1
           \<and> m' = set_blocks rid ((blocks_of rid m1)[(if l < 0 then nat (int (length (blocks_of rid m1)) + l) else nat l) := Blk 0]) m1
           \<and> - int (length (blocks_of rid m1)) \<le> l)"
  proof (cases "map_of (last_state_block_idx m) rid")
    case None
    then show ?thesis using run b(1) by (simp add: remove_skipped_blocks_def spec Let_def cfg)
  next
    case (Some l)
    show ?thesis
    proof (cases "l < cdiv ?c (m_block_size m) - 1")
      case True
      have "bindR (py_nth (blocks_of rid m1) l) (\<lambda>b. if b \<noteq> Blk 0 then bindR (free_blocks [b] p1) (\<lambda>p2.
              Inr (set_blocks rid ((blocks_of rid m1)[(if l < 0 then nat (int (length (blocks_of rid m1)) + l) else nat l)
                := Blk 0]) m1, p2)) else Inr (ensure_blocks rid m1, p1)) = Inr (m', p')"
        using run b(1) Some True by (simp add: remove_skipped_blocks_def spec Let_def cfg null cong: if_cong)
      then obtain b where b': "py_nth (blocks_of rid m1) l = Inr b"
        "m' = ensure_blocks rid m1 \<or> m' = set_blocks rid ((blocks_of rid m1)[(if l < 0 then nat (int (length (blocks_of rid m1)) + l) else nat l) := Blk 0]) m1"
        by (auto simp: bindR_eq_Inr split: if_split_asm)
      have "- int (length (blocks_of rid m1)) \<le> l" using b'(1) by (auto simp: py_nth_def split: if_split_asm)
      moreover have "blocks_of r (ensure_blocks rid m1) = blocks_of r m1" for r
        by (simp add: ensure_blocks_def set_blocks_def blocks_of_def dict_get_def update_conv')
      ultimately show ?thesis using Some True b'(2) by auto
    next
      case False
      then show ?thesis using run b(1) Some by (simp add: remove_skipped_blocks_def spec Let_def cfg)
    qed
  qed
  show "length (blocks_of rid m') = length (blocks_of rid m)" using cases b(3) by auto
  show "\<forall>r. r \<noteq> rid \<longrightarrow> blocks_of r m' = blocks_of r m" using cases b(5) by auto
  show "\<forall>i < length (blocks_of rid m). blocks_of rid m' ! i = blocks_of rid m ! i
       \<or> (blocks_of rid m' ! i = Blk 0
          \<and> ((int i + 1) * m_block_size m \<le> get_num_skipped_tokens m ?c
             \<or> (\<exists>l. map_of (last_state_block_idx m) rid = Some l \<and> l < cdiv ?c (m_block_size m) - 1
                  \<and> int i = (if l < 0 then int (length (blocks_of rid m)) + l else l))))"
  proof (intro allI impI)
    fix i
    assume i: "i < length (blocks_of rid m)"
    from cases consider "blocks_of rid m' = blocks_of rid m1"
      | l i0 where "map_of (last_state_block_idx m) rid = Some l" "l < cdiv ?c (m_block_size m) - 1"
          "blocks_of rid m' = (blocks_of rid m1)[i0 := Blk 0]"
          "int i0 = (if l < 0 then int (length (blocks_of rid m)) + l else l)"
    proof (elim disjE exE conjE)
      fix l
      let ?i = "if l < 0 then nat (int (length (blocks_of rid m1)) + l) else nat l"
      assume l: "map_of (last_state_block_idx m) rid = Some l" "l < cdiv ?c (m_block_size m) - 1"
        "m' = set_blocks rid ((blocks_of rid m1)[?i := Blk 0]) m1" "- int (length (blocks_of rid m1)) \<le> l"
      have "int ?i = (if l < 0 then int (length (blocks_of rid m)) + l else l)" using l(4) b(3) by simp
      moreover have "blocks_of rid m' = (blocks_of rid m1)[?i := Blk 0]" using l(3) by simp
      ultimately show ?thesis using that(2) [OF l(1,2)] by blast
    qed blast
    then show "blocks_of rid m' ! i = blocks_of rid m ! i
       \<or> (blocks_of rid m' ! i = Blk 0
          \<and> ((int i + 1) * m_block_size m \<le> get_num_skipped_tokens m ?c
             \<or> (\<exists>l. map_of (last_state_block_idx m) rid = Some l \<and> l < cdiv ?c (m_block_size m) - 1
                  \<and> int i = (if l < 0 then int (length (blocks_of rid m)) + l else l))))"
    proof cases
      case 1
      then show ?thesis using b(4) i by auto
    next
      case (2 l i0)
      then show ?thesis using b(3,4) i by (cases "i = i0") (simp, simp)
    qed
  qed
qed

text \<open>
  C29: Blocks that the attention type no longer reads are given back, and no others: after
  \<open>remove_skipped_blocks\<close> every entry of the request's table is what it was, or it is the null block
  in place of a block whose tokens all lie before the first token still needed; the tables of other
  requests and the cached hashes are untouched, and reference counts still count the holders.
\<close>

theorem remove_skipped_blocks_safe:
  assumes inv: "mgr_inv m p xs ext" and plain: "plain_mode m"
  shows "\<exists>m' p' ys. remove_skipped_blocks rid n m p = Inr (m', p') \<and> mgr_inv m' p' (xs @ ys) ext
    \<and> length (blocks_of rid m') = length (blocks_of rid m)
    \<and> (\<forall>i < length (blocks_of rid m). blocks_of rid m' ! i = blocks_of rid m ! i
          \<or> (blocks_of rid m' ! i = Blk 0
             \<and> (int i + 1) * m_block_size m \<le> get_num_skipped_tokens m (settled_tokens m n)))
    \<and> (\<forall>r. r \<noteq> rid \<longrightarrow> blocks_of r m' = blocks_of r m) \<and> (\<forall>b. hash_of p' b = hash_of p b)"
  using base_remove_skipped_blocks_spec [OF inv, of rid "settled_tokens m n"]
  unfolding plain_remove_skipped [OF plain] by blast

text \<open>A manager with one request that holds three fresh blocks of the pool.\<close>

lemma example_managed:
  "\<exists>m p. mgr_inv m p [] (\<lambda>_. 0) \<and> m_spec m = m_spec (example_manager cls) \<and> m_block_size m = 16
     \<and> blocks_of ''a'' m = [Blk 1, Blk 2, Blk 3]"
proof -
  obtain p0 where p0: "pool_ok p0 [Blk 1, Blk 2, Blk 3]" "enable_caching p0" "\<forall>b. refs p0 b = 0"
    using block_pool_init_spec [of 4 True 16 False False None] by (auto simp: upt_rec eval_nat_numeral)
  let ?m = "example_manager cls"
  have "mgr_inv ?m p0 [Blk 1, Blk 2, Blk 3] (\<lambda>_. 0)"
    using p0 by (simp add: mgr_inv_def example_manager_def held_def blocks_of_def dict_get_def req_ok_def num_cached_def)
  then have "\<exists>m' p'. base_allocate_new_blocks ''a'' 40 ?m p0
        = Inr (take (nat (cdiv 40 (m_block_size ?m) - int (length (blocks_of ''a'' ?m)))) [Blk 1, Blk 2, Blk 3], m', p')
        \<and> mgr_inv m' p' (drop (nat (cdiv 40 (m_block_size ?m) - int (length (blocks_of ''a'' ?m)))) [Blk 1, Blk 2, Blk 3]) (\<lambda>_. 0)
        \<and> op_frame ?m p0 [Blk 1, Blk 2, Blk 3] m' p'
        \<and> blocks_of ''a'' m' = blocks_of ''a'' ?m
             @ take (nat (cdiv 40 (m_block_size ?m) - int (length (blocks_of ''a'' ?m)))) [Blk 1, Blk 2, Blk 3]
        \<and> (\<forall>r. r \<noteq> ''a'' \<longrightarrow> blocks_of r m' = blocks_of r ?m)
        \<and> 40 \<le> int (length (blocks_of ''a'' m')) * m_block_size ?m"
    by (rule base_allocate_new_blocks_spec) (simp add: example_manager_def cdiv_def)
  then show ?thesis
    by (auto simp: example_manager_def cdiv_def blocks_of_def dict_get_def op_frame_def mgr_config_def)
qed

theorem remove_skipped_blocks_safe_witness:
  "\<exists>m p m' p'. blocks_of ''a'' m = [Blk 1, Blk 2, Blk 3] \<and> m_spec m = m_spec (example_manager (SlidingWindowSpec 17))
     \<and> remove_skipped_blocks ''a'' 40 m p = Inr (m', p')
     \<and> blocks_of ''a'' m' ! 2 = Blk 3
     \<and> (blocks_of ''a'' m' ! 0 = Blk 1 \<or> blocks_of ''a'' m' ! 0 = Blk 0)"
proof -
  obtain m p where m: "mgr_inv m p [] (\<lambda>_. 0)" "m_spec m = m_spec (example_manager (SlidingWindowSpec 17))"
    "m_block_size m = 16" "blocks_of ''a'' m = [Blk 1, Blk 2, Blk 3]"
    using example_managed [of "SlidingWindowSpec 17"] by blast
  have cls: "spec_class_of (m_spec m) = SlidingWindowSpec 17" using m(2) by (simp add: example_manager_def)
  then have plain: "plain_mode m" by (simp add: plain_mode_def)
  obtain m' p' where run: "remove_skipped_blocks ''a'' 40 m p = Inr (m', p')"
    and tab: "\<forall>i < 3. blocks_of ''a'' m' ! i = [Blk 1, Blk 2, Blk 3] ! i
          \<or> (blocks_of ''a'' m' ! i = Blk 0 \<and> (int i + 1) * 16 \<le> 24)"
    using remove_skipped_blocks_safe [OF m(1) plain, of "''a''" 40] m(3,4) cls
    by (auto simp: settled_tokens_def get_num_skipped_tokens_def numeral_3_eq_3)
  have "blocks_of ''a'' m' ! 2 = Blk 3" using tab [rule_format, of 2] by simp
  moreover have "blocks_of ''a'' m' ! 0 = Blk 1 \<or> blocks_of ''a'' m' ! 0 = Blk 0" using tab [rule_format, of 0] by simp
  ultimately show ?thesis using m run by blast
qed

end
