(* ===== verification/Coordinator.thy ===== *)
theory Coordinator
  imports Single_Type_Manager
begin

text \<open>
  The coordinators of \<open>vllm/v1/core/kv_cache_coordinator.py\<close>: one block pool shared by one cache
  manager per KV-cache group, the operations that loop over the managers, and the search for a
  prefix-cache hit that all groups agree on (none, a single group, or the fixed point of the
  hybrid coordinator).
\<close>

subsection \<open>State\<close>

record kv_cache_config =
  num_blocks :: int
  kv_cache_groups :: "kv_cache_spec list"

datatype coordinator_class =
    KVCacheCoordinatorNoPrefixCache | UnitaryKVCacheCoordinator | HybridKVCacheCoordinator

type_synonym attention_group = "kv_cache_spec \<times> nat list \<times> manager_class"

text \<open>
  The fields of all three classes; the block size, the context-parallel sizes and the attention
  groups with the common multiple of their block sizes are set by the classes that have them.
\<close>

record coordinator =
  c_class :: coordinator_class
  c_config :: kv_cache_config
  c_max_model_len :: int
  c_enable_caching :: bool
  c_pool :: block_pool
  c_use_eagle :: bool
  single_type_managers :: "manager list"
  c_block_size :: int
  dcp_world_size :: int
  pcp_world_size :: int
  c_hash_block_size :: int
  attention_groups :: "attention_group list"
  lcm_block_size :: int

fun init_managers ::
  "bool \<Rightarrow> int \<Rightarrow> int \<Rightarrow> nat \<Rightarrow> kv_cache_spec list \<Rightarrow> block_pool \<Rightarrow> (manager list \<times> block_pool) result" where
  "init_managers caching dcp pcp i [] p = Inr ([], p)"
| "init_managers caching dcp pcp i (spec # specs) p =
     bindR (manager_init spec caching i dcp pcp p) (\<lambda>(m, p1).
     bindR (init_managers caching dcp pcp (Suc i) specs p1) (\<lambda>(ms, p2). Inr (m # ms, p2)))"

text \<open>\<open>int_hashes\<close> is the environment setting the block pool reads.\<close>

definition coordinator_init ::
  "coordinator_class \<Rightarrow> kv_cache_config \<Rightarrow> int \<Rightarrow> bool \<Rightarrow> bool \<Rightarrow> bool \<Rightarrow> int \<Rightarrow> int \<Rightarrow> int \<Rightarrow> bool
   \<Rightarrow> metrics_collector option \<Rightarrow> coordinator result" where
  "coordinator_init cls cfg max_len eagle caching events dcp pcp hash_size int_hashes mc =
     bindR (block_pool_init (num_blocks cfg) caching hash_size events int_hashes mc) (\<lambda>p0.
     bindR (init_managers caching dcp pcp 0 (kv_cache_groups cfg) p0) (\<lambda>(ms, p).
       Inr \<lparr>c_class = cls, c_config = cfg, c_max_model_len = max_len, c_enable_caching = caching,
            c_pool = p, c_use_eagle = eagle, single_type_managers = ms, c_block_size = 0,
            dcp_world_size = dcp, pcp_world_size = pcp, c_hash_block_size = hash_size,
            attention_groups = [], lcm_block_size = 1\<rparr>))"

definition unitary_init :: "coordinator \<Rightarrow> coordinator result" where
  "unitary_init c =
     bindR (py_nth (kv_cache_groups (c_config c)) 0) (\<lambda>spec.
       let b0 = spec_block_size spec;
           b1 = (if dcp_world_size c > 1 then b0 * dcp_world_size c else b0);
           b2 = (if pcp_world_size c > 1 then b1 * pcp_world_size c else b1)
       in bindR (assertR (\<not> c_enable_caching c \<or> c_hash_block_size c = b2)) (\<lambda>_.
          bindR (assertR (length (kv_cache_groups (c_config c)) = 1)) (\<lambda>_.
            Inr (c\<lparr>c_block_size := b2\<rparr>))))"

text \<open>Groups with the same spec are searched together.\<close>

fun add_to_attention_groups ::
  "kv_cache_spec \<Rightarrow> nat \<Rightarrow> manager_class \<Rightarrow> attention_group list \<Rightarrow> attention_group list result" where
  "add_to_attention_groups spec i cls [] = Inr [(spec, [i], cls)]"
| "add_to_attention_groups spec i cls ((spec', ids, cls') # gs) =
     (if spec' = spec
      then bindR (assertR (cls = cls')) (\<lambda>_. Inr ((spec', ids @ [i], cls') # gs))
      else bindR (add_to_attention_groups spec i cls gs) (\<lambda>gs'. Inr ((spec', ids, cls') # gs')))"

definition verify_and_split_kv_cache_groups :: "coordinator \<Rightarrow> coordinator result" where
  "verify_and_split_kv_cache_groups c =
     bindR (foldR (\<lambda>(i, spec) gs.
              bindR (py_nth (single_type_managers c) (int i)) (\<lambda>m.
                add_to_attention_groups spec i (spec_manager_map (spec_class_of (m_spec m))) gs))
            (enumerate 0 (kv_cache_groups (c_config c))) []) (\<lambda>gs.
     bindR (assertR (length gs > 1)) (\<lambda>_.
       Inr (c\<lparr>attention_groups := sort_key (\<lambda>(spec, _, _). \<not> is_full_spec (spec_class_of spec)) gs,
              lcm_block_size := fold lcm (map (\<lambda>(spec, _, _). spec_block_size spec) gs) 1\<rparr>)))"

definition hybrid_init :: "coordinator \<Rightarrow> coordinator result" where
  "hybrid_init c =
     bindR (assertR (\<forall>spec \<in> set (kv_cache_groups (c_config c)).
              spec_block_size spec mod c_hash_block_size c = 0)) (\<lambda>_.
     bindR (assertR (dcp_world_size c = 1)) (\<lambda>_.
     bindR (assertR (pcp_world_size c = 1)) (\<lambda>_.
       verify_and_split_kv_cache_groups c)))"

definition get_kv_cache_coordinator ::
  "kv_cache_config \<Rightarrow> int \<Rightarrow> bool \<Rightarrow> bool \<Rightarrow> bool \<Rightarrow> int \<Rightarrow> int \<Rightarrow> int \<Rightarrow> bool
   \<Rightarrow> metrics_collector option \<Rightarrow> coordinator result" where
  "get_kv_cache_coordinator cfg max_len eagle caching events dcp pcp hash_size int_hashes mc =
     (if \<not> caching
      then coordinator_init KVCacheCoordinatorNoPrefixCache cfg max_len eagle False events dcp pcp
             hash_size int_hashes mc
      else if length (kv_cache_groups cfg) = 1
      then bindR (coordinator_init UnitaryKVCacheCoordinator cfg max_len eagle caching events dcp pcp
                    hash_size int_hashes mc) unitary_init
      else bindR (coordinator_init HybridKVCacheCoordinator cfg max_len eagle caching events dcp pcp
                    hash_size int_hashes mc) hybrid_init)"

subsection \<open>Operations on every group\<close>

text \<open>
  \<open>for i, manager in enumerate(self.single_type_managers)\<close>: the loop threads the state \<open>'s\<close> (the
  pool, for some operations with the request) and collects the results.
\<close>

fun each_manager ::
  "(nat \<Rightarrow> manager \<Rightarrow> 's \<Rightarrow> ('a \<times> manager \<times> 's) result) \<Rightarrow> nat \<Rightarrow> manager list \<Rightarrow> 's
   \<Rightarrow> ('a list \<times> manager list \<times> 's) result" where
  "each_manager op i [] s = Inr ([], [], s)"
| "each_manager op i (m # ms) s =
     bindR (op i m s) (\<lambda>(a, m', s1).
     bindR (each_manager op (Suc i) ms s1) (\<lambda>(as, ms', s2). Inr (a # as, m' # ms', s2)))"

definition on_managers ::
  "(nat \<Rightarrow> manager \<Rightarrow> block_pool \<Rightarrow> ('a \<times> manager \<times> block_pool) result) \<Rightarrow> coordinator
   \<Rightarrow> ('a list \<times> coordinator) result" where
  "on_managers op c =
     bindR (each_manager op 0 (single_type_managers c) (c_pool c)) (\<lambda>(as, ms, p).
       Inr (as, c\<lparr>single_type_managers := ms, c_pool := p\<rparr>))"

definition is_cross :: "manager \<Rightarrow> bool" where
  "is_cross m = (spec_class_of (m_spec m) = CrossAttentionSpec)"

definition count_op ::
  "string \<Rightarrow> int \<Rightarrow> block_ref list list \<Rightarrow> int \<Rightarrow> int \<Rightarrow> int \<Rightarrow> nat \<Rightarrow> manager \<Rightarrow> block_pool
   \<Rightarrow> (int \<times> manager \<times> block_pool) result" where
  "count_op rid num_toks new_computed num_encoder total_computed main_toks i m p =
     (if is_cross m
      then bindR (get_num_blocks_to_allocate m p rid num_encoder [] 0 num_encoder) (\<lambda>(k, m'). Inr (k, m', p))
      else bindR (py_nth new_computed (int i)) (\<lambda>hits.
           bindR (get_num_blocks_to_allocate m p rid num_toks hits total_computed main_toks)
             (\<lambda>(k, m'). Inr (k, m', p))))"

definition coord_get_num_blocks_to_allocate ::
  "string \<Rightarrow> int \<Rightarrow> block_ref list list \<Rightarrow> int \<Rightarrow> int \<Rightarrow> int \<Rightarrow> coordinator \<Rightarrow> (int \<times> coordinator) result" where
  "coord_get_num_blocks_to_allocate rid num_toks new_computed num_encoder total_computed main_toks c =
     bindR (on_managers (count_op rid num_toks new_computed num_encoder total_computed main_toks) c)
       (\<lambda>(ks, c'). Inr (sum_list ks, c'))"

definition computed_op ::
  "string \<Rightarrow> block_ref list list \<Rightarrow> int \<Rightarrow> int \<Rightarrow> nat \<Rightarrow> manager \<Rightarrow> block_pool
   \<Rightarrow> (unit \<times> manager \<times> block_pool) result" where
  "computed_op rid new_computed num_local num_external i m p =
     bindR (py_nth new_computed (int i)) (\<lambda>hits.
     bindR (allocate_new_computed_blocks rid hits num_local num_external m p) (\<lambda>(m', p'). Inr ((), m', p')))"

definition coord_allocate_new_computed_blocks ::
  "string \<Rightarrow> block_ref list list \<Rightarrow> int \<Rightarrow> int \<Rightarrow> coordinator \<Rightarrow> coordinator result" where
  "coord_allocate_new_computed_blocks rid new_computed num_local num_external c =
     bindR (on_managers (computed_op rid new_computed num_local num_external) c) (\<lambda>(_, c'). Inr c')"

definition allocate_op ::
  "string \<Rightarrow> int \<Rightarrow> int \<Rightarrow> int \<Rightarrow> nat \<Rightarrow> manager \<Rightarrow> block_pool
   \<Rightarrow> (block_ref list \<times> manager \<times> block_pool) result" where
  "allocate_op rid num_toks main_toks num_encoder i m p =
     allocate_new_blocks rid (if is_cross m then num_encoder else num_toks) main_toks m p"

definition coord_allocate_new_blocks ::
  "string \<Rightarrow> int \<Rightarrow> int \<Rightarrow> int \<Rightarrow> coordinator \<Rightarrow> (block_ref list list \<times> coordinator) result" where
  "coord_allocate_new_blocks rid num_toks main_toks num_encoder c =
     on_managers (allocate_op rid num_toks main_toks num_encoder) c"

text \<open>Caching may extend the hashes the request has memoised for its prompt embeddings.\<close>

definition cache_op ::
  "hash_env \<Rightarrow> int \<Rightarrow> nat \<Rightarrow> manager \<Rightarrow> request \<times> block_pool
   \<Rightarrow> (unit \<times> manager \<times> request \<times> block_pool) result" where
  "cache_op env n i m s =
     bindR (cache_blocks env (fst s) n m (snd s)) (\<lambda>(r', m', p'). Inr ((), m', (r', p')))"

definition coord_cache_blocks ::
  "hash_env \<Rightarrow> request \<Rightarrow> int \<Rightarrow> coordinator \<Rightarrow> (request \<times> coordinator) result" where
  "coord_cache_blocks env r n c =
     bindR (each_manager (cache_op env n) 0 (single_type_managers c) (r, c_pool c)) (\<lambda>(_, ms, r', p).
       Inr (r', c\<lparr>single_type_managers := ms, c_pool := p\<rparr>))"

definition free_op :: "string \<Rightarrow> nat \<Rightarrow> manager \<Rightarrow> block_pool \<Rightarrow> (unit \<times> manager \<times> block_pool) result" where
  "free_op rid i m p = bindR (free rid m p) (\<lambda>(m', p'). Inr ((), m', p'))"

definition coord_free :: "string \<Rightarrow> coordinator \<Rightarrow> coordinator result" where
  "coord_free rid c = bindR (on_managers (free_op rid) c) (\<lambda>(_, c'). Inr c')"

definition common_prefix_op ::
  "string \<Rightarrow> nat \<Rightarrow> manager \<Rightarrow> block_pool \<Rightarrow> (int \<times> manager \<times> block_pool) result" where
  "common_prefix_op rid i m p = (case get_num_common_prefix_blocks rid m p of (k, m') \<Rightarrow> Inr (k, m', p))"

definition coord_get_num_common_prefix_blocks :: "string \<Rightarrow> coordinator \<Rightarrow> (int list \<times> coordinator) result" where
  "coord_get_num_common_prefix_blocks rid c =
     (if c_class c = KVCacheCoordinatorNoPrefixCache
      then Inr (replicate (length (single_type_managers c)) 0, c)
      else on_managers (common_prefix_op rid) c)"

definition remove_op :: "string \<Rightarrow> int \<Rightarrow> nat \<Rightarrow> manager \<Rightarrow> block_pool \<Rightarrow> (unit \<times> manager \<times> block_pool) result" where
  "remove_op rid n i m p = bindR (remove_skipped_blocks rid n m p) (\<lambda>(m', p'). Inr ((), m', p'))"

definition coord_remove_skipped_blocks :: "string \<Rightarrow> int \<Rightarrow> coordinator \<Rightarrow> coordinator result" where
  "coord_remove_skipped_blocks rid n c = bindR (on_managers (remove_op rid n) c) (\<lambda>(_, c'). Inr c')"

definition coord_get_blocks :: "string \<Rightarrow> coordinator \<Rightarrow> block_ref list list" where
  "coord_get_blocks rid c = map (blocks_of rid) (single_type_managers c)"

definition coord_new_step_starts :: "coordinator \<Rightarrow> coordinator" where
  "coord_new_step_starts c = c\<lparr>single_type_managers := map new_step_starts (single_type_managers c)\<rparr>"

subsection \<open>The longest cache hit of all groups\<close>

definition unitary_find_longest_cache_hit ::
  "bytes list \<Rightarrow> int \<Rightarrow> coordinator \<Rightarrow> (block_ref list list \<times> int) result" where
  "unitary_find_longest_cache_hit hs max_len c =
     bindR (py_nth (kv_cache_groups (c_config c)) 0) (\<lambda>spec.
     bindR (py_nth (single_type_managers c) 0) (\<lambda>m.
     bindR (find_longest_cache_hit (spec_manager_map (spec_class_of (m_spec m))) hs max_len [0] (c_pool c) spec
              (c_use_eagle c) (c_block_size c) (dcp_world_size c) (pcp_world_size c)) (\<lambda>hits.
     bindR (py_nth hits 0) (\<lambda>h0. Inr (hits, int (length h0) * c_block_size c)))))"

text \<open>\<open>_get_block_hashes\<close> of the hybrid search.\<close>

definition spec_block_hashes :: "bytes list \<Rightarrow> kv_cache_spec \<Rightarrow> coordinator \<Rightarrow> bytes list result" where
  "spec_block_hashes hs spec c =
     (if spec_block_size spec = c_hash_block_size c then Inr hs
      else block_hash_list_with_block_size hs (c_hash_block_size c) (spec_block_size spec))"

type_synonym hit_table = "block_ref list option list"

definition store_hits :: "nat list \<Rightarrow> block_ref list list \<Rightarrow> hit_table \<Rightarrow> hit_table" where
  "store_hits gids hits table = fold (\<lambda>(g, bs) t. t[g := Some bs]) (zip gids hits) table"

definition attention_group_step ::
  "coordinator \<Rightarrow> bytes list \<Rightarrow> attention_group \<Rightarrow> int \<times> hit_table \<Rightarrow> (int \<times> hit_table) result" where
  "attention_group_step c hs = (\<lambda>(spec, gids, cls) (curr, table).
     bindR (py_nth gids 0) (\<lambda>g0.
     bindR (py_nth table (int g0)) (\<lambda>cached.
       if is_full_spec (spec_class_of spec) \<and> cached \<noteq> None
       then Inr (curr div spec_block_size spec * spec_block_size spec, table)
       else
         bindR (spec_block_hashes hs spec c) (\<lambda>hs'.
         bindR (find_longest_cache_hit cls hs' curr gids (c_pool c) spec (c_use_eagle c) (lcm_block_size c) 1 1)
           (\<lambda>hits.
         bindR (py_nth hits 0) (\<lambda>h0.
           Inr (int (length h0) * spec_block_size spec, store_hits gids hits table)))))))"

definition is_simple_hybrid :: "attention_group list \<Rightarrow> bool" where
  "is_simple_hybrid gs =
     (case gs of [(spec, _, _), _] \<Rightarrow> is_full_spec (spec_class_of spec) | _ \<Rightarrow> False)"

fun hybrid_loop ::
  "nat \<Rightarrow> coordinator \<Rightarrow> bytes list \<Rightarrow> int \<Rightarrow> hit_table \<Rightarrow> (int \<times> hit_table) result" where
  "hybrid_loop 0 c hs hit_length table = Inl Diverges"
| "hybrid_loop (Suc fuel) c hs hit_length table =
     bindR (foldR (attention_group_step c hs) (attention_groups c) (hit_length, table)) (\<lambda>(curr, table').
       if curr \<ge> hit_length then Inr (hit_length, table')
       else if is_simple_hybrid (attention_groups c) then Inr (curr, table')
       else hybrid_loop fuel c hs curr table')"

definition truncate_first_group :: "attention_group \<Rightarrow> int \<Rightarrow> hit_table \<Rightarrow> hit_table" where
  "truncate_first_group = (\<lambda>(spec, gids, _) hit_length table.
     if is_full_spec (spec_class_of spec)
     then fold (\<lambda>g t. t[g := map_option (\<lambda>bs. slice_to bs (hit_length div spec_block_size spec)) (t ! g)])
            gids table
     else table)"

text \<open>
  The length falls in every round but the last, and it is a number of tokens: \<open>max_len + 2\<close> rounds
  are enough.
\<close>

definition hybrid_find_longest_cache_hit ::
  "bytes list \<Rightarrow> int \<Rightarrow> coordinator \<Rightarrow> (block_ref list list \<times> int) result" where
  "hybrid_find_longest_cache_hit hs max_len c =
     bindR (hybrid_loop (nat max_len + 2) c hs max_len
              (replicate (length (kv_cache_groups (c_config c))) None)) (\<lambda>(hit_length, table).
     bindR (py_nth (attention_groups c) 0) (\<lambda>g0.
       Inr (map (\<lambda>bs. case bs of None \<Rightarrow> [] | Some bs \<Rightarrow> bs) (truncate_first_group g0 hit_length table), hit_length)))"

definition coord_find_longest_cache_hit ::
  "bytes list \<Rightarrow> int \<Rightarrow> coordinator \<Rightarrow> (block_ref list list \<times> int) result" where
  "coord_find_longest_cache_hit hs max_len c =
     (case c_class c of
        KVCacheCoordinatorNoPrefixCache \<Rightarrow> Inr (replicate (length (single_type_managers c)) [], 0)
      | UnitaryKVCacheCoordinator \<Rightarrow> unitary_find_longest_cache_hit hs max_len c
      | HybridKVCacheCoordinator \<Rightarrow> hybrid_find_longest_cache_hit hs max_len c)"

subsection \<open>The invariant of all groups\<close>

text \<open>
  Every block's reference count is the number of requests, over all groups, that hold it; for each
  manager the other groups are the outside holders of its own invariant.
\<close>

definition all_held :: "manager list \<Rightarrow> block_ref \<Rightarrow> nat" where
  "all_held ms b = (\<Sum>m \<leftarrow> ms. held m b)"

definition others_hold :: "manager list \<Rightarrow> manager \<Rightarrow> block_ref \<Rightarrow> nat" where
  "others_hold ms m b = all_held ms b - held m b"

definition coord_inv :: "manager list \<Rightarrow> block_pool \<Rightarrow> block_ref list \<Rightarrow> bool" where
  "coord_inv ms p xs \<longleftrightarrow>
     pool_ok p xs \<and> (\<forall>b. b \<noteq> Blk 0 \<longrightarrow> refs p b = int (all_held ms b))
     \<and> (\<forall>i < length ms. kv_cache_group_id (ms ! i) = i \<and> mgr_inv (ms ! i) p xs (others_hold ms (ms ! i)))"

lemma coord_inv_pool: "coord_inv ms p xs \<Longrightarrow> pool_ok p xs"
  by (simp add: coord_inv_def)

lemma coord_inv_manager:
  "coord_inv ms p xs \<Longrightarrow> i < length ms \<Longrightarrow> mgr_inv (ms ! i) p xs (others_hold ms (ms ! i))"
  by (simp add: coord_inv_def)

lemma all_held_ge: "i < length ms \<Longrightarrow> held (ms ! i) b \<le> all_held ms b"
  using elem_le_sum_list [of i "map (\<lambda>m. held m b) ms"] by (simp add: all_held_def)

lemma all_held_ge2:
  assumes "i < length ms" "j < length ms" "i \<noteq> j"
  shows "held (ms ! i) b + held (ms ! j) b \<le> all_held ms b"
proof -
  have "(\<Sum>k \<in> {i, j}. held (ms ! k) b) \<le> (\<Sum>k = 0..<length ms. held (ms ! k) b)"
    using assms by (intro sum_mono2) auto
  then show ?thesis using assms(3) by (simp add: all_held_def sum_list_sum_nth)
qed

lemma all_held_update:
  "i < length ms \<Longrightarrow> all_held (ms[i := m]) b = all_held ms b - held (ms ! i) b + held m b"
  using all_held_ge [of i ms b] by (simp add: all_held_def map_update sum_list_update)

text \<open>
  One manager's operation keeps the invariant of all: its own, by hypothesis, and that of the other
  groups because it leaves alone what they hold.
\<close>

lemma coord_step:
  assumes inv: "coord_inv ms p xs" and i: "i < length ms"
    and own: "mgr_inv m' p' xs' (others_hold ms (ms ! i))" and frame: "op_frame (ms ! i) p xs m' p'"
  shows "coord_inv (ms[i := m']) p' xs'"
proof -
  let ?ms = "ms[i := m']"
  have ge: "held (ms ! i) b \<le> all_held ms b" for b by (rule all_held_ge [OF i])
  have upd: "all_held ?ms b = others_hold ms (ms ! i) b + held m' b" for b
    using ge [of b] by (simp add: all_held_update [OF i] others_hold_def)
  have conf: "blocks p' = blocks p" "enable_caching p' = enable_caching p"
    using frame by (simp_all add: op_frame_def same_config_def)
  have refs': "refs p' b = int (all_held ?ms b)" if "b \<noteq> Blk 0" for b
    using mgr_invD(6) [OF own that] by (simp add: upd)
  have "kv_cache_group_id (?ms ! j) = j \<and> mgr_inv (?ms ! j) p' xs' (others_hold ?ms (?ms ! j))"
    if j: "j < length ms" for j
  proof (cases "j = i")
    case True
    have "others_hold ?ms m' = others_hold ms (ms ! i)" by (simp add: fun_eq_iff others_hold_def [of ?ms] upd)
    then show ?thesis
      using True i own frame inv by (simp add: op_frame_def mgr_config_def coord_inv_def)
  next
    case False
    let ?n = "ms ! j"
    have n: "?ms ! j = ?n" using False by simp
    note ninv = coord_inv_manager [OF inv j]
    have "req_ok p' (blocks_of rid ?n) (num_cached rid ?n)" for rid
    proof (rule req_ok_frame [OF mgr_invD(7) [OF ninv] conf])
      fix b assume b: "b \<in> set (blocks_of rid ?n)" "b \<noteq> Blk 0" "refs p b = 1" "hash_of p b = None"
      have "0 < count_list (blocks_of rid ?n) b" using b(1) by (simp add: count_pos_iff)
      then have "0 < held ?n b" using held_ge [OF mgr_invD(2) [OF ninv], of rid b] by linarith
      moreover have "all_held ms b = 1" using inv b(2,3) by (simp add: coord_inv_def)
      ultimately have "held (ms ! i) b = 0" using all_held_ge2 [OF i j, of b] False by linarith
      moreover have "b \<notin> set xs" using pool_partD(4) [OF mgr_invD(1) [OF ninv], of b] b(2,3) by auto
      ultimately show "refs p' b = 1 \<and> hash_of p' b = None"
        using frame b by (simp add: op_frame_def untouched_def)
    qed
    moreover have "refs p' b = int (held ?n b + others_hold ?ms ?n b)" if "b \<noteq> Blk 0" for b
      using refs' [OF that] all_held_ge [of j ?ms b] j n by (simp add: others_hold_def)
    ultimately have "mgr_inv ?n p' xs' (others_hold ?ms ?n)"
      using mgr_invD(1) [OF own] mgr_invD(2-5) [OF ninv] conf unfolding mgr_inv_def by simp
    then show ?thesis using n inv j by (simp add: coord_inv_def)
  qed
  with mgr_invD(1) [OF own] refs' show ?thesis by (simp add: coord_inv_def)
qed

text \<open>
  An operation on one group, as the coordinator relies on it: under a condition on the manager and
  a condition \<open>ok\<close> on the state that the operation keeps, it keeps the manager's invariant, leaves
  the rest alone and ends with \<open>post\<close>.
\<close>

locale group_operation =
  fixes op :: "nat \<Rightarrow> manager \<Rightarrow> 's \<Rightarrow> ('a \<times> manager \<times> 's) result"
    and pool_in :: "'s \<Rightarrow> block_pool"
    and ok :: "'s \<Rightarrow> bool"
    and pre :: "nat \<Rightarrow> manager \<Rightarrow> bool"
    and post :: "nat \<Rightarrow> manager \<Rightarrow> 'a \<Rightarrow> manager \<Rightarrow> bool"
  assumes op_keeps: "ok s \<Longrightarrow> pre i m \<Longrightarrow> kv_cache_group_id m = i \<Longrightarrow> mgr_inv m (pool_in s) xs ext
      \<Longrightarrow> op i m s = Inr (a, m', s')
      \<Longrightarrow> ok s' \<and> post i m a m' \<and> op_frame m (pool_in s) xs m' (pool_in s')
          \<and> (\<exists>xs'. mgr_inv m' (pool_in s') xs' ext)"
begin

lemma each_from:
  assumes "coord_inv ms (pool_in s) xs" "ok s" "\<And>j. i \<le> j \<Longrightarrow> j < length ms \<Longrightarrow> pre j (ms ! j)"
    "i \<le> length ms" "each_manager op i (drop i ms) s = Inr (as, new, s')"
  shows "\<exists>xs'. coord_inv (take i ms @ new) (pool_in s') xs' \<and> ok s' \<and> length new = length ms - i
    \<and> length as = length new
    \<and> (\<forall>j < length new. post (i + j) (ms ! (i + j)) (as ! j) (new ! j) \<and> mgr_config (ms ! (i + j)) (new ! j))"
  using assms
proof (induction "length ms - i" arbitrary: i ms s xs as new)
  case 0
  then show ?case by auto
next
  case (Suc d)
  have i: "i < length ms" using Suc.hyps(2) by linarith
  then have dr: "drop i ms = ms ! i # drop (Suc i) ms" by (simp add: Cons_nth_drop_Suc)
  obtain a m' s1 as' new' where run: "op i (ms ! i) s = Inr (a, m', s1)"
    "each_manager op (Suc i) (drop (Suc i) ms) s1 = Inr (as', new', s')" "as = a # as'" "new = m' # new'"
    using Suc.prems(5) unfolding dr by (auto simp: bindR_eq_Inr)
  have gid: "kv_cache_group_id (ms ! i) = i" using Suc.prems(1) i by (simp add: coord_inv_def)
  obtain xs1 where one: "ok s1" "post i (ms ! i) a m'" "op_frame (ms ! i) (pool_in s) xs m' (pool_in s1)"
    "mgr_inv m' (pool_in s1) xs1 (others_hold ms (ms ! i))"
    using op_keeps [OF Suc.prems(2) Suc.prems(3) [OF order_refl i] gid coord_inv_manager [OF Suc.prems(1) i] run(1)]
    by blast
  let ?ms = "ms[i := m']"
  have inv1: "coord_inv ?ms (pool_in s1) xs1" by (rule coord_step [OF Suc.prems(1) i one(4,3)])
  have dr1: "drop (Suc i) ?ms = drop (Suc i) ms" by simp
  have "\<exists>xs'. coord_inv (take (Suc i) ?ms @ new') (pool_in s') xs' \<and> ok s'
    \<and> length new' = length ?ms - Suc i \<and> length as' = length new'
    \<and> (\<forall>j < length new'. post (Suc i + j) (?ms ! (Suc i + j)) (as' ! j) (new' ! j)
        \<and> mgr_config (?ms ! (Suc i + j)) (new' ! j))"
  proof (rule Suc.hyps(1) [OF _ inv1 one(1)])
    show "each_manager op (Suc i) (drop (Suc i) ?ms) s1 = Inr (as', new', s')" unfolding dr1 by (rule run(2))
    show "d = length ?ms - Suc i" using Suc.hyps(2) by simp
    show "pre j (?ms ! j)" if "Suc i \<le> j" "j < length ?ms" for j
      using Suc.prems(3) [of j] that by simp
  qed (use i in simp)
  then obtain xs' where xs': "coord_inv (take (Suc i) ?ms @ new') (pool_in s') xs'" "ok s'"
    "length new' = length ?ms - Suc i" "length as' = length new'"
    "\<forall>j < length new'. post (Suc i + j) (?ms ! (Suc i + j)) (as' ! j) (new' ! j)
        \<and> mgr_config (?ms ! (Suc i + j)) (new' ! j)"
    by blast
  have tk: "take (Suc i) ?ms @ new' = take i ms @ new" using i run(4) by (simp add: take_Suc_conv_app_nth)
  have "post (i + j) (ms ! (i + j)) (as ! j) (new ! j) \<and> mgr_config (ms ! (i + j)) (new ! j)"
    if "j < length new" for j
  proof (cases j)
    case 0
    then show ?thesis using run(3,4) one(2,3) by (simp add: op_frame_def)
  next
    case (Suc k)
    then show ?thesis using xs'(5) [rule_format, of k] that run(3,4) by simp
  qed
  then show ?case using xs' tk run(3,4) i by auto
qed

lemma each_keeps:
  assumes "coord_inv ms (pool_in s) xs" "ok s" "\<And>j. j < length ms \<Longrightarrow> pre j (ms ! j)"
    "each_manager op 0 ms s = Inr (as, new, s')"
  shows "\<exists>xs'. coord_inv new (pool_in s') xs' \<and> ok s' \<and> length new = length ms \<and> length as = length ms
    \<and> (\<forall>j < length ms. post j (ms ! j) (as ! j) (new ! j) \<and> mgr_config (ms ! j) (new ! j))"
  using each_from [of ms s xs 0 as new s'] assms by auto

end

text \<open>
  An operation that runs whenever the free queue has \<open>cost i m\<close> blocks, and takes at most that many
  from it. It runs on all groups when the queue has the sum of the costs.
\<close>

locale counted_operation = group_operation +
  fixes cost :: "nat \<Rightarrow> manager \<Rightarrow> int"
  assumes cost_nonneg: "0 \<le> cost i m"
    and op_runs: "ok s \<Longrightarrow> pre i m \<Longrightarrow> kv_cache_group_id m = i \<Longrightarrow> mgr_inv m (pool_in s) xs ext
      \<Longrightarrow> cost i m \<le> get_num_free_blocks (pool_in s)
      \<Longrightarrow> \<exists>a m' s'. op i m s = Inr (a, m', s')
            \<and> get_num_free_blocks (pool_in s) - cost i m \<le> get_num_free_blocks (pool_in s')"
begin

lemma each_runs_from:
  assumes "coord_inv ms (pool_in s) xs" "ok s" "\<And>j. i \<le> j \<Longrightarrow> j < length ms \<Longrightarrow> pre j (ms ! j)"
    "i \<le> length ms" "(\<Sum>j = i..<length ms. cost j (ms ! j)) \<le> get_num_free_blocks (pool_in s)"
  shows "\<exists>as new s'. each_manager op i (drop i ms) s = Inr (as, new, s')
    \<and> get_num_free_blocks (pool_in s) - (\<Sum>j = i..<length ms. cost j (ms ! j))
        \<le> get_num_free_blocks (pool_in s')"
  using assms
proof (induction "length ms - i" arbitrary: i ms s xs)
  case 0
  then show ?case by auto
next
  case (Suc d)
  have i: "i < length ms" using Suc.hyps(2) by linarith
  have dr: "drop i ms = ms ! i # drop (Suc i) ms" using i by (simp add: Cons_nth_drop_Suc)
  have gid: "kv_cache_group_id (ms ! i) = i" using Suc.prems(1) i by (simp add: coord_inv_def)
  note minv = coord_inv_manager [OF Suc.prems(1) i] and pre = Suc.prems(3) [OF order_refl i]
  let ?rest = "\<Sum>j = Suc i..<length ms. cost j (ms ! j)"
  have split: "(\<Sum>j = i..<length ms. cost j (ms ! j)) = cost i (ms ! i) + ?rest"
    using i by (simp add: sum.atLeast_Suc_lessThan)
  have rest: "0 \<le> ?rest" by (intro sum_nonneg cost_nonneg)
  obtain a m' s1 where one: "op i (ms ! i) s = Inr (a, m', s1)"
    "get_num_free_blocks (pool_in s) - cost i (ms ! i) \<le> get_num_free_blocks (pool_in s1)"
    using op_runs [OF Suc.prems(2) pre gid minv] Suc.prems(5) split rest by auto
  obtain xs1 where keeps: "ok s1" "op_frame (ms ! i) (pool_in s) xs m' (pool_in s1)"
    "mgr_inv m' (pool_in s1) xs1 (others_hold ms (ms ! i))"
    using op_keeps [OF Suc.prems(2) pre gid minv one(1)] by blast
  let ?ms = "ms[i := m']"
  have inv1: "coord_inv ?ms (pool_in s1) xs1" by (rule coord_step [OF Suc.prems(1) i keeps(3,2)])
  have rest1: "(\<Sum>j = Suc i..<length ?ms. cost j (?ms ! j)) = ?rest" by (intro sum.cong) auto
  have "\<exists>as new s'. each_manager op (Suc i) (drop (Suc i) ?ms) s1 = Inr (as, new, s')
    \<and> get_num_free_blocks (pool_in s1) - (\<Sum>j = Suc i..<length ?ms. cost j (?ms ! j))
        \<le> get_num_free_blocks (pool_in s')"
  proof (rule Suc.hyps(1) [OF _ inv1 keeps(1)])
    show "d = length ?ms - Suc i" using Suc.hyps(2) by simp
    show "pre j (?ms ! j)" if "Suc i \<le> j" "j < length ?ms" for j
      using Suc.prems(3) [of j] that by simp
    show "(\<Sum>j = Suc i..<length ?ms. cost j (?ms ! j)) \<le> get_num_free_blocks (pool_in s1)"
      unfolding rest1 using one(2) Suc.prems(5) split by linarith
  qed (use i in simp)
  then obtain as new s' where "each_manager op (Suc i) (drop (Suc i) ms) s1 = Inr (as, new, s')"
    "get_num_free_blocks (pool_in s1) - ?rest \<le> get_num_free_blocks (pool_in s')"
    unfolding rest1 by auto
  then show ?case using one split unfolding dr by force
qed

lemma each_runs:
  assumes "coord_inv ms (pool_in s) xs" "ok s" "\<And>j. j < length ms \<Longrightarrow> pre j (ms ! j)"
    "(\<Sum>j = 0..<length ms. cost j (ms ! j)) \<le> get_num_free_blocks (pool_in s)"
  shows "\<exists>as new s' xs'. each_manager op 0 ms s = Inr (as, new, s')
    \<and> get_num_free_blocks (pool_in s) - (\<Sum>j = 0..<length ms. cost j (ms ! j)) \<le> get_num_free_blocks (pool_in s')
    \<and> coord_inv new (pool_in s') xs' \<and> ok s' \<and> length new = length ms \<and> length as = length ms
    \<and> (\<forall>j < length ms. post j (ms ! j) (as ! j) (new ! j) \<and> mgr_config (ms ! j) (new ! j))"
proof -
  obtain as new s' where run: "each_manager op 0 ms s = Inr (as, new, s')"
    "get_num_free_blocks (pool_in s) - (\<Sum>j = 0..<length ms. cost j (ms ! j)) \<le> get_num_free_blocks (pool_in s')"
    using each_runs_from [of ms s xs 0] assms by auto
  with each_keeps [OF assms(1-3) run(1)] show ?thesis by blast
qed

end

subsection \<open>The operations on all groups\<close>

text \<open>What a pool operation may have to keep for the next group: its configuration and its hashes.\<close>

definition pool_view :: "block_pool \<Rightarrow> block_ref list \<times> bool \<times> int \<times> (block_ref \<Rightarrow> bytes option)" where
  "pool_view p = (blocks p, enable_caching p, hash_block_size p, \<lambda>b. hash_of p b)"

lemma pool_view_same:
  "same_config p p' \<Longrightarrow> (\<forall>b. hash_of p' b = hash_of p b) \<Longrightarrow> pool_view p' = pool_view p"
  by (auto simp: pool_view_def same_config_def)

lemma hit_blocks_ok_view: "pool_view p' = pool_view p \<Longrightarrow> hit_blocks_ok p' hits = hit_blocks_ok p hits"
  by (auto simp: pool_view_def hit_blocks_ok_def fun_eq_iff)

text \<open>An operation that always runs, takes no block and keeps the hashes.\<close>

lemma releasing_operation:
  assumes spec: "\<And>i m p xs ext. mgr_inv m p xs ext \<Longrightarrow> pre i m \<Longrightarrow>
    \<exists>a m' p' xs'. op i m p = Inr (a, m', p') \<and> post i m a m' \<and> op_frame m p xs m' p' \<and> mgr_inv m' p' xs' ext
      \<and> pool_view p' = pool_view p \<and> get_num_free_blocks p \<le> get_num_free_blocks p'"
  shows "counted_operation op (\<lambda>p. p) (\<lambda>p. pool_view p = v) pre post (\<lambda>_ _. 0)"
proof unfold_locales
  fix s i m xs ext a m' s'
  assume "pool_view s = v" "pre i m" "mgr_inv m s xs ext" "op i m s = Inr (a, m', s')"
  then show "pool_view s' = v \<and> post i m a m' \<and> op_frame m s xs m' s' \<and> (\<exists>xs'. mgr_inv m' s' xs' ext)"
    using spec [of m s xs ext i] by auto
next
  fix s i m xs ext
  assume "pre i m" "mgr_inv m s xs ext"
  then show "\<exists>a m' s'. op i m s = Inr (a, m', s') \<and> get_num_free_blocks s - 0 \<le> get_num_free_blocks s'"
    using spec [of m s xs ext i] by auto
qed simp

text \<open>Freeing a request.\<close>

definition freed :: "string \<Rightarrow> nat \<Rightarrow> manager \<Rightarrow> unit \<Rightarrow> manager \<Rightarrow> bool" where
  "freed rid i m a m' \<longleftrightarrow> blocks_of rid m' = [] \<and> \<not> is_running rid m'
     \<and> (\<forall>r. r \<noteq> rid \<longrightarrow> blocks_of r m' = blocks_of r m)"

lemma free_op_spec:
  assumes "mgr_inv m p xs ext"
  shows "\<exists>m' p' xs'. free_op rid i m p = Inr ((), m', p') \<and> freed rid i m () m' \<and> op_frame m p xs m' p'
    \<and> mgr_inv m' p' xs' ext \<and> pool_view p' = pool_view p \<and> get_num_free_blocks p \<le> get_num_free_blocks p'"
proof -
  obtain m' p' where r: "free rid m p = Inr (m', p')"
    "mgr_inv m' p' (xs @ filter (\<lambda>b. b \<noteq> Blk 0 \<and> refs p b = 1) (rev (blocks_of rid m))) ext"
    "op_frame m p xs m' p'" "blocks_of rid m' = []" "\<not> is_running rid m'"
    "\<forall>r. r \<noteq> rid \<longrightarrow> blocks_of r m' = blocks_of r m" "\<forall>b. hash_of p' b = hash_of p b"
    using free_spec [OF assms, of rid] by blast
  have "get_num_free_blocks p \<le> get_num_free_blocks p'"
    using pool_partD(10) [OF mgr_invD(1) [OF assms]] pool_partD(10) [OF mgr_invD(1) [OF r(2)]] by simp
  moreover have "pool_view p' = pool_view p" using r(3,7) by (intro pool_view_same) (auto simp: op_frame_def)
  ultimately show ?thesis using r by (auto simp: free_op_def freed_def)
qed

interpretation co_free: counted_operation "free_op rid" "\<lambda>p. p" "\<lambda>p. pool_view p = v" "\<lambda>_ _. True" "freed rid"
    "\<lambda>_ _. 0" for rid v
  by (rule releasing_operation) (use free_op_spec in blast)

text \<open>Removing skipped blocks.\<close>

definition skipped_removed :: "string \<Rightarrow> int \<Rightarrow> nat \<Rightarrow> manager \<Rightarrow> unit \<Rightarrow> manager \<Rightarrow> bool" where
  "skipped_removed rid n i m a m' \<longleftrightarrow>
     length (blocks_of rid m') = length (blocks_of rid m)
     \<and> (\<forall>i < length (blocks_of rid m). blocks_of rid m' ! i \<noteq> blocks_of rid m ! i
          \<longrightarrow> blocks_of rid m' ! i = Blk 0
            \<and> (int i + 1) * m_block_size m \<le> get_num_skipped_tokens m (settled_tokens m n))
     \<and> (\<forall>r. r \<noteq> rid \<longrightarrow> blocks_of r m' = blocks_of r m)
     \<and> (\<forall>r. num_cached r m' = num_cached r m \<and> is_running r m' = is_running r m)"

lemma remove_op_spec:
  assumes inv: "mgr_inv m p xs ext" and plain: "plain_mode m"
  shows "\<exists>m' p' xs'. remove_op rid n i m p = Inr ((), m', p') \<and> skipped_removed rid n i m () m'
    \<and> op_frame m p xs m' p' \<and> mgr_inv m' p' xs' ext \<and> pool_view p' = pool_view p
    \<and> get_num_free_blocks p \<le> get_num_free_blocks p'"
proof -
  obtain m' p' ys where r: "base_remove_skipped_blocks rid (settled_tokens m n) m p = Inr (m', p')"
    "mgr_inv m' p' (xs @ ys) ext" "op_frame m p xs m' p'" "\<forall>b. hash_of p' b = hash_of p b"
    "skipped_removed rid n i m () m'"
    using base_remove_skipped_blocks_spec [OF inv, of rid "settled_tokens m n"]
    unfolding skipped_removed_def by blast
  have "get_num_free_blocks p \<le> get_num_free_blocks p'"
    using pool_partD(10) [OF mgr_invD(1) [OF inv]] pool_partD(10) [OF mgr_invD(1) [OF r(2)]] by simp
  moreover have "pool_view p' = pool_view p" using r(3,4) by (intro pool_view_same) (auto simp: op_frame_def)
  ultimately show ?thesis using r by (auto simp: remove_op_def plain_remove_skipped [OF plain])
qed

interpretation co_remove: counted_operation "remove_op rid n" "\<lambda>p. p" "\<lambda>p. pool_view p = v" "\<lambda>_. plain_mode"
    "skipped_removed rid n" "\<lambda>_ _. 0" for rid n v
  by (rule releasing_operation) (use remove_op_spec in blast)

text \<open>Allocating new blocks.\<close>

definition slots_for :: "int \<Rightarrow> int \<Rightarrow> manager \<Rightarrow> int" where
  "slots_for n enc m = asked_tokens m (if is_cross m then enc else n)"

definition extended :: "string \<Rightarrow> int \<Rightarrow> int \<Rightarrow> nat \<Rightarrow> manager \<Rightarrow> block_ref list \<Rightarrow> manager \<Rightarrow> bool" where
  "extended rid n enc i m a m' \<longleftrightarrow>
     blocks_of rid m' = blocks_of rid m @ a \<and> slots_for n enc m \<le> int (length (blocks_of rid m')) * m_block_size m
     \<and> (\<forall>r. r \<noteq> rid \<longrightarrow> blocks_of r m' = blocks_of r m) \<and> Blk 0 \<notin> set a"

definition blocks_missing :: "string \<Rightarrow> int \<Rightarrow> int \<Rightarrow> nat \<Rightarrow> manager \<Rightarrow> int" where
  "blocks_missing rid n enc i m = max 0 (cdiv (slots_for n enc m) (m_block_size m) - int (length (blocks_of rid m)))"

lemma allocate_op_spec:
  assumes inv: "mgr_inv m p xs ext" and plain: "plain_mode m"
    and room: "blocks_missing rid n enc i m \<le> get_num_free_blocks p"
  shows "\<exists>a m' p' xs'. allocate_op rid n main enc i m p = Inr (a, m', p') \<and> extended rid n enc i m a m'
    \<and> op_frame m p xs m' p' \<and> mgr_inv m' p' xs' ext
    \<and> get_num_free_blocks p' = get_num_free_blocks p - blocks_missing rid n enc i m"
proof -
  let ?need = "cdiv (slots_for n enc m) (m_block_size m) - int (length (blocks_of rid m))"
  have free: "get_num_free_blocks p = int (length xs)" by (rule pool_partD(10) [OF mgr_invD(1) [OF inv]])
  have le: "?need \<le> int (length xs)" using room by (simp add: free blocks_missing_def)
  obtain m' p' where r: "base_allocate_new_blocks rid (slots_for n enc m) m p = Inr (take (nat ?need) xs, m', p')"
    "mgr_inv m' p' (drop (nat ?need) xs) ext" "op_frame m p xs m' p'"
    "blocks_of rid m' = blocks_of rid m @ take (nat ?need) xs"
    "\<forall>r. r \<noteq> rid \<longrightarrow> blocks_of r m' = blocks_of r m"
    "slots_for n enc m \<le> int (length (blocks_of rid m')) * m_block_size m"
    using base_allocate_new_blocks_spec(1) [OF inv le] by blast
  have "allocate_op rid n main enc i m p = Inr (take (nat ?need) xs, m', p')"
    using r(1) by (simp add: allocate_op_def plain_allocate [OF plain] slots_for_def)
  moreover have "get_num_free_blocks p' = get_num_free_blocks p - blocks_missing rid n enc i m"
    using pool_partD(10) [OF mgr_invD(1) [OF r(2)]] le by (simp add: free blocks_missing_def max_def)
  moreover have "Blk 0 \<notin> set (take (nat ?need) xs)"
    using pool_partD(4) [OF mgr_invD(1) [OF inv], of "Blk 0"] by (auto dest: in_set_takeD)
  ultimately show ?thesis using r by (auto simp: extended_def)
qed

lemma allocate_op_raises:
  assumes inv: "mgr_inv m p xs ext" and plain: "plain_mode m"
    and short: "get_num_free_blocks p < blocks_missing rid n enc i m"
  shows "allocate_op rid n main enc i m p = Inl ValueError"
proof -
  have free: "get_num_free_blocks p = int (length xs)" by (rule pool_partD(10) [OF mgr_invD(1) [OF inv]])
  have "int (length xs) < cdiv (slots_for n enc m) (m_block_size m) - int (length (blocks_of rid m))"
    using short by (simp add: free blocks_missing_def max_def split: if_splits)
  from base_allocate_new_blocks_spec(2) [OF inv this] show ?thesis
    by (simp add: allocate_op_def plain_allocate [OF plain] slots_for_def)
qed

interpretation co_alloc: counted_operation "allocate_op rid n main enc" "\<lambda>p. p"
    "\<lambda>p. enable_caching p = c \<and> hash_block_size p = h" "\<lambda>_. plain_mode" "extended rid n enc"
    "blocks_missing rid n enc" for rid n main enc c h
proof unfold_locales
  fix s i m xs ext a m' s'
  assume ok: "enable_caching s = c \<and> hash_block_size s = h" and plain: "plain_mode m"
    and inv: "mgr_inv m s xs ext" and run: "allocate_op rid n main enc i m s = Inr (a, m', s')"
  have room: "blocks_missing rid n enc i m \<le> get_num_free_blocks s"
    using allocate_op_raises [OF inv plain, of rid n enc i main] run by force
  show "(enable_caching s' = c \<and> hash_block_size s' = h) \<and> extended rid n enc i m a m'
      \<and> op_frame m s xs m' s' \<and> (\<exists>xs'. mgr_inv m' s' xs' ext)"
    using allocate_op_spec [OF inv plain room, of main] run ok by (auto simp: op_frame_def same_config_def)
next
  fix s i m xs ext
  assume "plain_mode m" "mgr_inv m s xs ext" "blocks_missing rid n enc i m \<le> get_num_free_blocks s"
  from allocate_op_spec [OF this(2,1,3), of main]
  show "\<exists>a m' s'. allocate_op rid n main enc i m s = Inr (a, m', s')
      \<and> get_num_free_blocks s - blocks_missing rid n enc i m \<le> get_num_free_blocks s'" by auto
qed (simp add: blocks_missing_def)

text \<open>
  Taking over a hit without external tokens. \<open>p0\<close> is the pool before the first group: reference counts
  only grow from there, so no group takes more blocks off the queue than were unused in \<open>p0\<close>.
\<close>

definition takes_hit :: "string \<Rightarrow> block_ref list list \<Rightarrow> block_pool \<Rightarrow> nat \<Rightarrow> manager \<Rightarrow> bool" where
  "takes_hit rid hits p0 i m \<longleftrightarrow> i < length hits \<and>
     (if is_cross m then hits ! i = []
      else \<not> is_running rid m \<and> blocks_of rid m = [] \<and> hit_blocks_ok p0 (hits ! i)
           \<and> (m_enable_caching m \<or> hits ! i = []))"

definition hit_taken ::
  "string \<Rightarrow> block_ref list list \<Rightarrow> int \<Rightarrow> nat \<Rightarrow> manager \<Rightarrow> unit \<Rightarrow> manager \<Rightarrow> bool" where
  "hit_taken rid hits tot i m a m' \<longleftrightarrow>
     (if is_cross m then m' = m
      else blocks_of rid m' = computed_prefix m (hits ! i) tot \<and> is_running rid m'
           \<and> num_cached rid m' = int (length (blocks_of rid m'))
           \<and> (\<forall>r. r \<noteq> rid \<longrightarrow> blocks_of r m' = blocks_of r m))"

definition hit_cost :: "block_ref list list \<Rightarrow> int \<Rightarrow> block_pool \<Rightarrow> nat \<Rightarrow> manager \<Rightarrow> int" where
  "hit_cost hits tot p0 i m =
     (if is_cross m then 0
      else get_num_evictable_blocks p0 (drop (nat (get_num_skipped_tokens m tot div m_block_size m)) (hits ! i)))"

definition grown_from :: "block_pool \<Rightarrow> block_pool \<Rightarrow> bool" where
  "grown_from p0 p \<longleftrightarrow> (\<exists>xs. pool_ok p0 xs) \<and> pool_view p = pool_view p0 \<and> (\<forall>b. refs p0 b \<le> refs p b)"

lemma evictable_mono:
  assumes "grown_from p0 p" "pool_ok p xs"
  shows "get_num_evictable_blocks p bs \<le> get_num_evictable_blocks p0 bs"
proof -
  obtain ys where ys: "pool_ok p0 ys" using assms(1) by (auto simp: grown_from_def)
  have "ref_cnt (pool_store p0 b) = 0 \<and> \<not> is_null (pool_store p0 b)"
    if "ref_cnt (pool_store p b) = 0 \<and> \<not> is_null (pool_store p b)" for b
  proof -
    have b: "b \<noteq> Blk 0" using that pool_partD(3) [OF assms(2), of b] by simp
    have "refs p0 b \<le> refs p b" using assms(1) by (simp add: grown_from_def)
    then show ?thesis using that b pool_partD(3) [OF ys, of b] pool_partD(5) [OF ys b] by simp
  qed
  then show ?thesis
    unfolding get_num_evictable_blocks_def by (simp add: length_filter_mono)
qed

lemma computed_op_spec:
  assumes inv: "mgr_inv m p xs ext" and ok: "grown_from p0 p" and pre: "takes_hit rid hits p0 i m"
  shows "\<exists>m' p' xs'. computed_op rid hits tot 0 i m p = Inr ((), m', p') \<and> hit_taken rid hits tot i m () m'
    \<and> op_frame m p xs m' p' \<and> mgr_inv m' p' xs' ext \<and> grown_from p0 p'
    \<and> get_num_free_blocks p - hit_cost hits tot p0 i m \<le> get_num_free_blocks p'"
proof (cases "is_cross m")
  case True
  then have cls: "spec_class_of (m_spec m) = CrossAttentionSpec" and no_hit: "i < length hits" "hits ! i = []"
    using pre by (simp_all add: takes_hit_def is_cross_def)
  have "computed_op rid hits tot 0 i m p = Inr ((), m, p)"
    using no_hit by (simp add: computed_op_def allocate_new_computed_blocks_def cls)
  moreover have "hit_taken rid hits tot i m () m" "hit_cost hits tot p0 i m = 0"
    using True by (simp_all add: hit_taken_def hit_cost_def)
  ultimately show ?thesis
    using inv ok by (intro exI [of _ m] exI [of _ p] exI [of _ xs]) simp
next
  case False
  let ?sk = "nat (get_num_skipped_tokens m tot div m_block_size m)" and ?bs = "computed_prefix m (hits ! i) tot"
  have hit: "hit_blocks_ok p (hits ! i)"
    using pre False ok hit_blocks_ok_view [of p p0 "hits ! i"] by (simp add: takes_hit_def grown_from_def)
  have new: "\<not> is_running rid m" "blocks_of rid m = []" "\<not> m_enable_caching m \<Longrightarrow> hits ! i = []" "i < length hits"
    using pre False by (auto simp: takes_hit_def)
  obtain m' p' where r: "base_allocate_new_computed_blocks rid (hits ! i) tot 0 m p = Inr (m', p')"
    "mgr_inv m' p' (filter (\<lambda>b. b \<notin> set ?bs) xs) ext" "op_frame m p xs m' p'"
    "\<forall>b. hash_of p' b = hash_of p b \<and> refs p b \<le> refs p' b" "blocks_of rid m' = ?bs"
    "num_cached rid m' = int (length ?bs)" "is_running rid m'" "\<forall>r. r \<noteq> rid \<longrightarrow> blocks_of r m' = blocks_of r m"
    using base_allocate_new_computed_blocks_local [OF inv new(1,2) hit new(3)] by blast
  have "computed_op rid hits tot 0 i m p = Inr ((), m', p')"
    using r(1) new(4) False
    by (simp add: computed_op_def allocate_new_computed_blocks_def is_cross_def split: spec_class.split)
  moreover have "grown_from p0 p'"
    using ok r(3,4) pool_view_same [of p p'] by (fastforce simp: grown_from_def op_frame_def intro: order_trans)
  moreover have "get_num_free_blocks p - hit_cost hits tot p0 i m \<le> get_num_free_blocks p'"
  proof -
    have ys: "filter (\<lambda>b. b \<notin> set ?bs) xs = filter (\<lambda>b. b \<notin> set (drop ?sk (hits ! i))) xs"
      using pool_partD(4) [OF mgr_invD(1) [OF inv], of "Blk 0"]
      by (intro filter_cong) (auto simp: computed_prefix_def Let_def)
    have "int (length (filter (\<lambda>b. b \<notin> set ?bs) xs)) + get_num_evictable_blocks p (drop ?sk (hits ! i))
        = int (length xs)"
      unfolding ys by (rule evictable_count [OF mgr_invD(1) [OF inv] hit_blocks_ok_drop [OF hit]])
    moreover have "get_num_evictable_blocks p (drop ?sk (hits ! i)) \<le> hit_cost hits tot p0 i m"
      using evictable_mono [OF ok mgr_invD(1) [OF inv]] False by (simp add: hit_cost_def)
    ultimately show ?thesis
      using pool_partD(10) [OF mgr_invD(1) [OF inv]] pool_partD(10) [OF mgr_invD(1) [OF r(2)]] by simp
  qed
  ultimately show ?thesis using r False by (auto simp: hit_taken_def)
qed

interpretation co_hit: counted_operation "computed_op rid hits tot 0" "\<lambda>p. p" "grown_from p0"
    "takes_hit rid hits p0" "hit_taken rid hits tot" "hit_cost hits tot p0" for rid hits tot p0
proof unfold_locales
  fix s i m xs ext a m' s'
  assume "grown_from p0 s" "takes_hit rid hits p0 i m" "mgr_inv m s xs ext"
    "computed_op rid hits tot 0 i m s = Inr (a, m', s')"
  then show "grown_from p0 s' \<and> hit_taken rid hits tot i m a m' \<and> op_frame m s xs m' s'
      \<and> (\<exists>xs'. mgr_inv m' s' xs' ext)"
    using computed_op_spec [of m s xs ext p0 rid hits i tot] by auto
next
  fix s i m xs ext
  assume "grown_from p0 s" "takes_hit rid hits p0 i m" "mgr_inv m s xs ext"
  then show "\<exists>a m' s'. computed_op rid hits tot 0 i m s = Inr (a, m', s')
      \<and> get_num_free_blocks s - hit_cost hits tot p0 i m \<le> get_num_free_blocks s'"
    using computed_op_spec [of m s xs ext p0 rid hits i tot] by auto
qed (simp add: hit_cost_def get_num_evictable_blocks_def)

text \<open>Caching the full blocks of a request in every group.\<close>

definition cacheable :: "request \<Rightarrow> int \<Rightarrow> int \<Rightarrow> nat \<Rightarrow> manager \<Rightarrow> bool" where
  "cacheable r h n i m \<longleftrightarrow>
     \<not> is_cross m \<and> i < 2 ^ 32 \<and> n div m_block_size m \<le> int (length (blocks_of (request_id r) m))
     \<and> n div m_block_size m \<le> int (length (block_hashes r))
     \<and> (\<exists>hs. (if m_block_size m = h then Inr (block_hashes r)
              else block_hash_list_with_block_size (block_hashes r) h (m_block_size m)) = Inr hs
          \<and> n div m_block_size m \<le> int (length hs))"

definition all_cached_upto :: "request \<Rightarrow> int \<Rightarrow> nat \<Rightarrow> manager \<Rightarrow> unit \<Rightarrow> manager \<Rightarrow> bool" where
  "all_cached_upto r n i m a m' \<longleftrightarrow>
     (\<forall>rid. blocks_of rid m' = blocks_of rid m)
     \<and> num_cached (request_id r) m' = max (num_cached (request_id r) m) (n div m_block_size m)"

definition caching_state :: "request \<Rightarrow> int \<Rightarrow> request \<times> block_pool \<Rightarrow> bool" where
  "caching_state r h s \<longleftrightarrow> (\<exists>memo. fst s = r\<lparr>prompt_embeds_per_block_hashes := memo\<rparr>)
     \<and> enable_caching (snd s) \<and> hash_block_size (snd s) = h"

lemma cache_op_spec:
  assumes inv: "mgr_inv m (snd s) xs ext" and ok: "caching_state r h s" and pre: "cacheable r h n i m"
    and gid: "kv_cache_group_id m = i"
  shows "\<exists>m' s'. cache_op env n i m s = Inr ((), m', s') \<and> all_cached_upto r n i m () m'
    \<and> op_frame m (snd s) xs m' (snd s') \<and> mgr_inv m' (snd s') xs ext \<and> caching_state r h s'"
proof -
  obtain memo where r: "fst s = r\<lparr>prompt_embeds_per_block_hashes := memo\<rparr>" "enable_caching (snd s)"
    "hash_block_size (snd s) = h" using ok by (auto simp: caching_state_def)
  have "group_block_hashes (snd s) (fst s) (m_block_size m)
      = (if m_block_size m = h then Inr (block_hashes r)
         else block_hash_list_with_block_size (block_hashes r) h (m_block_size m))"
    by (simp add: r group_block_hashes_def)
  then obtain hs where hs: "group_block_hashes (snd s) (fst s) (m_block_size m) = Inr hs"
    "n div m_block_size m \<le> int (length hs)"
    using pre unfolding cacheable_def by metis
  have side: "spec_class_of (m_spec m) \<noteq> CrossAttentionSpec" "kv_cache_group_id m < 2 ^ 32"
    "n div m_block_size m \<le> int (length (blocks_of (request_id (fst s)) m))"
    "n div m_block_size m \<le> int (length (block_hashes (fst s)))"
    using pre r gid by (auto simp: cacheable_def is_cross_def)
  obtain memo' m' p' where c: "cache_blocks env (fst s) n m (snd s)
      = Inr ((fst s)\<lparr>prompt_embeds_per_block_hashes := memo'\<rparr>, m', p')" "mgr_inv m' p' xs ext"
    "op_frame m (snd s) xs m' p'" "\<forall>r. blocks_of r m' = blocks_of r m"
    "num_cached (request_id (fst s)) m' = max (num_cached (request_id (fst s)) m) (n div m_block_size m)"
    using cache_blocks_spec [OF inv r(2) side hs, of env] by blast
  then show ?thesis
    using r by (auto simp: cache_op_def all_cached_upto_def caching_state_def op_frame_def same_config_def)
qed

interpretation co_cache: counted_operation "cache_op env n" snd "caching_state r h" "cacheable r h n"
    "all_cached_upto r n" "\<lambda>_ _. 0" for env n r h
proof unfold_locales
  fix s i m xs ext a m' s'
  assume "caching_state r h s" "cacheable r h n i m" "kv_cache_group_id m = i" "mgr_inv m (snd s) xs ext"
    "cache_op env n i m s = Inr (a, m', s')"
  then show "caching_state r h s' \<and> all_cached_upto r n i m a m' \<and> op_frame m (snd s) xs m' (snd s')
      \<and> (\<exists>xs'. mgr_inv m' (snd s') xs' ext)"
    using cache_op_spec [of m s xs ext r h n i env] by auto
next
  fix s i m xs ext
  assume "caching_state r h s" "cacheable r h n i m" "kv_cache_group_id m = i" and inv: "mgr_inv m (snd s) xs ext"
  from cache_op_spec [OF inv this(1-3), of env] obtain m' s' where
    "cache_op env n i m s = Inr ((), m', s')" "mgr_inv m' (snd s') xs ext" by blast
  then show "\<exists>a m' s'. cache_op env n i m s = Inr (a, m', s')
      \<and> get_num_free_blocks (snd s) - 0 \<le> get_num_free_blocks (snd s')"
    using pool_partD(10) [OF mgr_invD(1)] inv by (metis diff_zero order_refl)
qed simp

subsection \<open>The coordinator's operations\<close>

abbreviation coord_ok :: "coordinator \<Rightarrow> block_ref list \<Rightarrow> bool" where
  "coord_ok c xs \<equiv> coord_inv (single_type_managers c) (c_pool c) xs"

text \<open>What no operation changes: the class, the configuration and each manager's own configuration.\<close>

definition same_setup :: "coordinator \<Rightarrow> coordinator \<Rightarrow> bool" where
  "same_setup c c' \<longleftrightarrow> (\<exists>ms p. c' = c\<lparr>single_type_managers := ms, c_pool := p\<rparr>
     \<and> length ms = length (single_type_managers c)
     \<and> (\<forall>i < length (single_type_managers c). mgr_config (single_type_managers c ! i) (ms ! i)))"

lemma same_setup_trans: "same_setup c c' \<Longrightarrow> same_setup c' c'' \<Longrightarrow> same_setup c c''"
proof -
  assume "same_setup c c'" "same_setup c' c''"
  then obtain ms p ms' p' where "c' = c\<lparr>single_type_managers := ms, c_pool := p\<rparr>"
    "c'' = c\<lparr>single_type_managers := ms', c_pool := p'\<rparr>" "length ms' = length (single_type_managers c)"
    "\<forall>i < length (single_type_managers c). mgr_config (single_type_managers c ! i) (ms ! i) \<and> mgr_config (ms ! i) (ms' ! i)"
    by (auto simp: same_setup_def)
  then show "same_setup c c''"
    unfolding same_setup_def by (intro exI [of _ ms'] exI [of _ p']) (auto intro: mgr_config_trans)
qed

lemma same_setup_refl [simp]: "same_setup c c"
  unfolding same_setup_def by (intro exI [of _ "single_type_managers c"] exI [of _ "c_pool c"]) simp

lemma same_setup_intro:
  "length ms = length (single_type_managers c)
   \<Longrightarrow> (\<And>i. i < length (single_type_managers c) \<Longrightarrow> mgr_config (single_type_managers c ! i) (ms ! i))
   \<Longrightarrow> same_setup c (c\<lparr>single_type_managers := ms, c_pool := p\<rparr>)"
  unfolding same_setup_def by blast

lemma same_setupD:
  assumes "same_setup c c'"
  shows "length (single_type_managers c') = length (single_type_managers c)"
    "i < length (single_type_managers c) \<Longrightarrow> mgr_config (single_type_managers c ! i) (single_type_managers c' ! i)"
    "c_class c' = c_class c" "c_config c' = c_config c" "c_enable_caching c' = c_enable_caching c"
    "c_max_model_len c' = c_max_model_len c"
  using assms by (auto simp: same_setup_def)

text \<open>The managers' modes are part of the configuration.\<close>

lemma same_setup_plain:
  assumes "same_setup c c'" "\<forall>m \<in> set (single_type_managers c). plain_mode m"
  shows "\<forall>m \<in> set (single_type_managers c'). plain_mode m"
  using assms(2) same_setupD(1,2) [OF assms(1)] by (metis in_set_conv_nth plain_mode_config)

lemma coord_free_spec:
  assumes "coord_ok c xs"
  shows "\<exists>c' xs'. coord_free rid c = Inr c' \<and> coord_ok c' xs' \<and> same_setup c c'
    \<and> pool_view (c_pool c') = pool_view (c_pool c)
    \<and> get_num_free_blocks (c_pool c) \<le> get_num_free_blocks (c_pool c')
    \<and> (\<forall>i < length (single_type_managers c). freed rid i (single_type_managers c ! i) () (single_type_managers c' ! i))"
proof -
  have "(\<Sum>j = 0..<length (single_type_managers c). 0) \<le> get_num_free_blocks (c_pool c)"
    using pool_partD(10) [OF coord_inv_pool [OF assms]] by simp
  from co_free.each_runs [OF assms refl TrueI this, of rid]
  obtain as ms p xs' where "each_manager (free_op rid) 0 (single_type_managers c) (c_pool c) = Inr (as, ms, p)"
    "get_num_free_blocks (c_pool c) \<le> get_num_free_blocks p" "coord_inv ms p xs'"
    "pool_view p = pool_view (c_pool c)" "length ms = length (single_type_managers c)"
    "\<forall>j < length (single_type_managers c). freed rid j (single_type_managers c ! j) (as ! j) (ms ! j)
        \<and> mgr_config (single_type_managers c ! j) (ms ! j)"
    by auto
  then show ?thesis
    by (intro exI [of _ "c\<lparr>single_type_managers := ms, c_pool := p\<rparr>"] exI [of _ xs'])
      (simp add: coord_free_def on_managers_def same_setup_intro)
qed

lemma coord_remove_spec:
  assumes "coord_ok c xs" and plain: "\<forall>m \<in> set (single_type_managers c). plain_mode m"
  shows "\<exists>c' xs'. coord_remove_skipped_blocks rid n c = Inr c' \<and> coord_ok c' xs' \<and> same_setup c c'
    \<and> pool_view (c_pool c') = pool_view (c_pool c)
    \<and> get_num_free_blocks (c_pool c) \<le> get_num_free_blocks (c_pool c')
    \<and> (\<forall>i < length (single_type_managers c).
          skipped_removed rid n i (single_type_managers c ! i) () (single_type_managers c' ! i))"
proof -
  have "(\<Sum>j = 0..<length (single_type_managers c). 0) \<le> get_num_free_blocks (c_pool c)"
    using pool_partD(10) [OF coord_inv_pool [OF assms(1)]] by simp
  from co_remove.each_runs [OF assms(1) refl _ this, of rid n] plain
  obtain as ms p xs' where "each_manager (remove_op rid n) 0 (single_type_managers c) (c_pool c) = Inr (as, ms, p)"
    "get_num_free_blocks (c_pool c) \<le> get_num_free_blocks p" "coord_inv ms p xs'"
    "pool_view p = pool_view (c_pool c)" "length ms = length (single_type_managers c)"
    "\<forall>j < length (single_type_managers c). skipped_removed rid n j (single_type_managers c ! j) (as ! j) (ms ! j)
        \<and> mgr_config (single_type_managers c ! j) (ms ! j)"
    by auto
  then show ?thesis
    by (intro exI [of _ "c\<lparr>single_type_managers := ms, c_pool := p\<rparr>"] exI [of _ xs'])
      (simp add: coord_remove_skipped_blocks_def on_managers_def same_setup_intro)
qed

lemma coord_allocate_spec:
  assumes "coord_ok c xs" and plain: "\<forall>m \<in> set (single_type_managers c). plain_mode m"
    and room: "(\<Sum>j = 0..<length (single_type_managers c). blocks_missing rid n enc j (single_type_managers c ! j))
        \<le> get_num_free_blocks (c_pool c)"
  shows "\<exists>as c' xs'. coord_allocate_new_blocks rid n main enc c = Inr (as, c') \<and> coord_ok c' xs' \<and> same_setup c c'
    \<and> enable_caching (c_pool c') = enable_caching (c_pool c)
    \<and> hash_block_size (c_pool c') = hash_block_size (c_pool c)
    \<and> length as = length (single_type_managers c)
    \<and> (\<forall>i < length (single_type_managers c).
          extended rid n enc i (single_type_managers c ! i) (as ! i) (single_type_managers c' ! i))"
proof -
  have ok: "enable_caching (c_pool c) = enable_caching (c_pool c) \<and> hash_block_size (c_pool c) = hash_block_size (c_pool c)"
    by simp
  from co_alloc.each_runs [OF assms(1) ok _ room, of main] plain
  obtain as ms p xs' where "each_manager (allocate_op rid n main enc) 0 (single_type_managers c) (c_pool c) = Inr (as, ms, p)"
    "coord_inv ms p xs'" "enable_caching p = enable_caching (c_pool c)" "hash_block_size p = hash_block_size (c_pool c)"
    "length ms = length (single_type_managers c)" "length as = length (single_type_managers c)"
    "\<forall>j < length (single_type_managers c). extended rid n enc j (single_type_managers c ! j) (as ! j) (ms ! j)
        \<and> mgr_config (single_type_managers c ! j) (ms ! j)"
    by auto
  then show ?thesis
    by (intro exI [of _ as] exI [of _ "c\<lparr>single_type_managers := ms, c_pool := p\<rparr>"] exI [of _ xs'])
      (simp add: coord_allocate_new_blocks_def on_managers_def same_setup_intro)
qed

lemma coord_hit_spec:
  assumes "coord_ok c xs"
    and hits: "\<And>j. j < length (single_type_managers c) \<Longrightarrow> takes_hit rid hits (c_pool c) j (single_type_managers c ! j)"
    and room: "(\<Sum>j = 0..<length (single_type_managers c). hit_cost hits tot (c_pool c) j (single_type_managers c ! j))
        \<le> get_num_free_blocks (c_pool c)"
  shows "\<exists>c' xs'. coord_allocate_new_computed_blocks rid hits tot 0 c = Inr c' \<and> coord_ok c' xs' \<and> same_setup c c'
    \<and> pool_view (c_pool c') = pool_view (c_pool c)
    \<and> get_num_free_blocks (c_pool c)
        - (\<Sum>j = 0..<length (single_type_managers c). hit_cost hits tot (c_pool c) j (single_type_managers c ! j))
        \<le> get_num_free_blocks (c_pool c')
    \<and> (\<forall>i < length (single_type_managers c).
          hit_taken rid hits tot i (single_type_managers c ! i) () (single_type_managers c' ! i))"
proof -
  have ok: "grown_from (c_pool c) (c_pool c)"
    using coord_inv_pool [OF assms(1)] by (auto simp: grown_from_def)
  from co_hit.each_runs [OF assms(1) ok hits room]
  obtain as ms p xs' where "each_manager (computed_op rid hits tot 0) 0 (single_type_managers c) (c_pool c) = Inr (as, ms, p)"
    "get_num_free_blocks (c_pool c)
        - (\<Sum>j = 0..<length (single_type_managers c). hit_cost hits tot (c_pool c) j (single_type_managers c ! j))
        \<le> get_num_free_blocks p"
    "coord_inv ms p xs'" "grown_from (c_pool c) p" "length ms = length (single_type_managers c)"
    "\<forall>j < length (single_type_managers c). hit_taken rid hits tot j (single_type_managers c ! j) (as ! j) (ms ! j)
        \<and> mgr_config (single_type_managers c ! j) (ms ! j)"
    by auto
  then show ?thesis
    by (intro exI [of _ "c\<lparr>single_type_managers := ms, c_pool := p\<rparr>"] exI [of _ xs'])
      (simp add: coord_allocate_new_computed_blocks_def on_managers_def same_setup_intro grown_from_def)
qed

lemma coord_cache_spec:
  assumes "coord_ok c xs" and caching: "enable_caching (c_pool c)"
    and pre: "\<And>j. j < length (single_type_managers c) \<Longrightarrow>
      cacheable r (hash_block_size (c_pool c)) n j (single_type_managers c ! j)"
  shows "\<exists>memo c' xs'. coord_cache_blocks env r n c = Inr (r\<lparr>prompt_embeds_per_block_hashes := memo\<rparr>, c')
    \<and> coord_ok c' xs' \<and> same_setup c c'
    \<and> enable_caching (c_pool c') \<and> hash_block_size (c_pool c') = hash_block_size (c_pool c)
    \<and> (\<forall>i < length (single_type_managers c).
          all_cached_upto r n i (single_type_managers c ! i) () (single_type_managers c' ! i))"
proof -
  have ok: "caching_state r (hash_block_size (c_pool c)) (r, c_pool c)"
    using caching by (auto simp: caching_state_def intro!: exI [of _ "prompt_embeds_per_block_hashes r"])
  have "(\<Sum>j = 0..<length (single_type_managers c). 0) \<le> get_num_free_blocks (snd (r, c_pool c))"
    using pool_partD(10) [OF coord_inv_pool [OF assms(1)]] by simp
  from co_cache.each_runs [OF _ ok pre this, of xs env] assms(1)
  obtain as ms s xs' where run: "each_manager (cache_op env n) 0 (single_type_managers c) (r, c_pool c) = Inr (as, ms, s)"
    "coord_inv ms (snd s) xs'" "caching_state r (hash_block_size (c_pool c)) s" "length ms = length (single_type_managers c)"
    "\<forall>j < length (single_type_managers c). all_cached_upto r n j (single_type_managers c ! j) (as ! j) (ms ! j)
        \<and> mgr_config (single_type_managers c ! j) (ms ! j)"
    by auto
  then obtain memo p where s: "s = (r\<lparr>prompt_embeds_per_block_hashes := memo\<rparr>, p)"
    "enable_caching p" "hash_block_size p = hash_block_size (c_pool c)"
    by (cases s) (auto simp: caching_state_def)
  with run show ?thesis
    by (intro exI [of _ memo] exI [of _ "c\<lparr>single_type_managers := ms, c_pool := p\<rparr>"] exI [of _ xs'])
      (simp add: coord_cache_blocks_def same_setup_intro)
qed

text \<open>The cascade hints and the start of a step change bookkeeping only.\<close>

lemma coord_inv_cong:
  assumes inv: "coord_inv ms p xs" and len: "length ms' = length ms"
    and same: "\<And>i. i < length ms \<Longrightarrow> (\<forall>b. held (ms' ! i) b = held (ms ! i) b)
      \<and> (\<forall>rid. blocks_of rid (ms' ! i) = blocks_of rid (ms ! i) \<and> num_cached rid (ms' ! i) = num_cached rid (ms ! i))
      \<and> mgr_config (ms ! i) (ms' ! i) \<and> m_null_block (ms' ! i) = m_null_block (ms ! i)
      \<and> distinct (map fst (req_to_blocks (ms' ! i)))"
  shows "coord_inv ms' p xs"
proof -
  have held: "all_held ms' b = all_held ms b" for b
    using len same by (simp add: all_held_def sum_list_sum_nth)
  have "kv_cache_group_id (ms' ! i) = i \<and> mgr_inv (ms' ! i) p xs (others_hold ms' (ms' ! i))"
    if i: "i < length ms" for i
  proof -
    have "others_hold ms' (ms' ! i) = others_hold ms (ms ! i)"
      using same [OF i] by (simp add: fun_eq_iff others_hold_def held)
    moreover have "mgr_inv (ms' ! i) p xs (others_hold ms (ms ! i))"
      using coord_inv_manager [OF inv i] same [OF i] unfolding mgr_inv_def mgr_config_def by simp
    ultimately show ?thesis using inv i same [OF i] by (simp add: coord_inv_def mgr_config_def)
  qed
  with inv len show ?thesis by (simp add: coord_inv_def held)
qed

lemma each_manager_pure:
  assumes "\<And>i m s. op i m s = Inr (f m s, g m, s)"
  shows "each_manager op i ms s = Inr (map (\<lambda>m. f m s) ms, map g ms, s)"
  using assms by (induction ms arbitrary: i) auto

lemma coord_common_prefix_spec:
  assumes "coord_ok c xs"
  shows "\<exists>ks c'. coord_get_num_common_prefix_blocks rid c = Inr (ks, c') \<and> coord_ok c' xs \<and> same_setup c c'"
proof (cases "c_class c = KVCacheCoordinatorNoPrefixCache")
  case True
  with assms show ?thesis by (simp add: coord_get_num_common_prefix_blocks_def)
next
  case False
  let ?g = "\<lambda>m p. snd (get_num_common_prefix_blocks rid m p)"
  have g: "?g m p = (if spec_manager_map (spec_class_of (m_spec m)) \<in> {FullAttentionManager, SinkFullAttentionManager}
      then ensure_blocks rid m else m)" for m p
    by (simp add: get_num_common_prefix_blocks_def Let_def split: manager_class.split)
  define g' where "g' = (\<lambda>m. if spec_manager_map (spec_class_of (m_spec m)) \<in> {FullAttentionManager, SinkFullAttentionManager}
      then ensure_blocks rid m else m)"
  have op: "common_prefix_op rid i m p = Inr (fst (get_num_common_prefix_blocks rid m p), g' m, p)" for i m p
    using g [of m p] by (cases "get_num_common_prefix_blocks rid m p") (simp add: common_prefix_op_def g'_def)
  let ?ms = "single_type_managers c"
  have "coord_inv (map g' ?ms) (c_pool c) xs"
  proof (rule coord_inv_cong [OF assms])
    fix i assume i: "i < length ?ms"
    note inv = mgr_invD(2) [OF coord_inv_manager [OF assms i]]
    have "held (g' (?ms ! i)) b = held (?ms ! i) b" for b
      using held_set_blocks [OF inv, where rid = rid and bs = "blocks_of rid (?ms ! i)" and b = b]
      by (simp add: g'_def ensure_blocks_def)
    then show "(\<forall>b. held (map g' ?ms ! i) b = held (?ms ! i) b)
      \<and> (\<forall>rid. blocks_of rid (map g' ?ms ! i) = blocks_of rid (?ms ! i)
           \<and> num_cached rid (map g' ?ms ! i) = num_cached rid (?ms ! i))
      \<and> mgr_config (?ms ! i) (map g' ?ms ! i) \<and> m_null_block (map g' ?ms ! i) = m_null_block (?ms ! i)
      \<and> distinct (map fst (req_to_blocks (map g' ?ms ! i)))"
      using i inv by (simp add: g'_def ensure_blocks_def)
  qed simp
  moreover have "same_setup c (c\<lparr>single_type_managers := map g' ?ms, c_pool := c_pool c\<rparr>)"
    by (rule same_setup_intro) (simp_all add: g'_def ensure_blocks_def)
  ultimately show ?thesis
    using False by (simp add: coord_get_num_common_prefix_blocks_def on_managers_def each_manager_pure [OF op])
qed

lemma coord_new_step_spec: "coord_ok c xs \<Longrightarrow> coord_ok (coord_new_step_starts c) xs \<and> same_setup c (coord_new_step_starts c)"
proof -
  assume inv: "coord_ok c xs"
  let ?ms = "single_type_managers c"
  have f: "req_to_blocks (new_step_starts m) = req_to_blocks m" "num_cached_block (new_step_starts m) = num_cached_block m"
    "mgr_config m (new_step_starts m)" "m_null_block (new_step_starts m) = m_null_block m" for m
    by (simp_all add: new_step_starts_def mgr_config_def split: spec_class.split)
  have "coord_inv (map new_step_starts ?ms) (c_pool c) xs"
    by (rule coord_inv_cong [OF inv])
      (use mgr_invD(2) [OF coord_inv_manager [OF inv]] in \<open>simp_all add: f held_def blocks_of_def num_cached_def\<close>)
  moreover have "same_setup c (c\<lparr>single_type_managers := map new_step_starts ?ms, c_pool := c_pool c\<rparr>)"
    by (rule same_setup_intro) (simp_all add: f)
  ultimately show ?thesis by (simp add: coord_new_step_starts_def)
qed

subsection \<open>A fresh coordinator\<close>

lemma init_managers_spec:
  assumes "pool_ok p xs" "\<forall>b. refs p b = 0" "enable_caching p = caching"
    and "\<forall>spec \<in> set specs. 0 < scaled_block_size spec dcp pcp
          \<and> (\<forall>n. spec_class_of spec \<noteq> SinkFullAttentionSpec n)"
  shows "\<exists>ms. init_managers caching dcp pcp i specs p = Inr (ms, p) \<and> length ms = length specs
    \<and> (\<forall>j < length specs. kv_cache_group_id (ms ! j) = i + j \<and> req_to_blocks (ms ! j) = []
          \<and> num_cached_block (ms ! j) = [] \<and> m_spec (ms ! j) = specs ! j
          \<and> m_block_size (ms ! j) = scaled_block_size (specs ! j) dcp pcp
          \<and> mgr_inv (ms ! j) p xs (\<lambda>_. 0))"
  using assms(4)
proof (induction specs arbitrary: i)
  case Nil
  then show ?case by simp
next
  case (Cons spec specs)
  obtain ms where ms: "init_managers caching dcp pcp (Suc i) specs p = Inr (ms, p)" "length ms = length specs"
    "\<forall>j < length specs. kv_cache_group_id (ms ! j) = Suc i + j \<and> req_to_blocks (ms ! j) = []
          \<and> num_cached_block (ms ! j) = [] \<and> m_spec (ms ! j) = specs ! j
          \<and> m_block_size (ms ! j) = scaled_block_size (specs ! j) dcp pcp
          \<and> mgr_inv (ms ! j) p xs (\<lambda>_. 0)"
    using Cons.IH [of "Suc i"] Cons.prems by auto
  let ?m = "\<lparr>m_block_size = scaled_block_size spec dcp pcp, m_spec = spec,
               m_enable_caching = caching, new_block_ids = [], req_to_blocks = [],
               num_cached_block = [], kv_cache_group_id = i, m_null_block = null_block p,
               cached_blocks_this_step = [], last_state_block_idx = [], allocated_block_reqs = [],
               sink_blocks = []\<rparr>"
  have "manager_init spec caching i dcp pcp p = Inr (?m, p)"
    using Cons.prems by (auto simp: manager_init_def Let_def split: spec_class.split)
  moreover have "mgr_inv ?m p xs (\<lambda>_. 0)"
    using assms(1-3) Cons.prems
    by (auto simp: mgr_inv_def held_def blocks_of_def num_cached_def dict_get_def req_ok_def pool_part_def)
  ultimately show ?case
    using ms by (auto simp: nth_Cons split: nat.split intro!: exI [of _ "?m # ms"])
qed

definition plain_specs :: "kv_cache_config \<Rightarrow> int \<Rightarrow> int \<Rightarrow> bool" where
  "plain_specs cfg dcp pcp \<longleftrightarrow> 0 < num_blocks cfg \<and>
     (\<forall>spec \<in> set (kv_cache_groups cfg). 0 < scaled_block_size spec dcp pcp
        \<and> (case spec_class_of spec of
             SinkFullAttentionSpec _ \<Rightarrow> False
           | MambaSpec mode _ \<Rightarrow> mode \<noteq> ''align'' \<and> scaled_block_size spec dcp pcp = spec_block_size spec
           | _ \<Rightarrow> True))"

lemma coordinator_init_spec:
  assumes "plain_specs cfg dcp pcp"
  shows "\<exists>c xs. coordinator_init cls cfg max_len eagle caching events dcp pcp hash_size ih mc = Inr c
    \<and> coord_ok c xs \<and> (\<forall>m \<in> set (single_type_managers c). plain_mode m)
    \<and> (\<forall>b. all_held (single_type_managers c) b = 0) \<and> int (length xs) = num_blocks cfg - 1
    \<and> length (single_type_managers c) = length (kv_cache_groups cfg)
    \<and> (\<forall>j < length (kv_cache_groups cfg). \<forall>m. m = single_type_managers c ! j \<longrightarrow>
          m_spec m = kv_cache_groups cfg ! j \<and> m_block_size m = scaled_block_size (kv_cache_groups cfg ! j) dcp pcp
          \<and> (\<forall>rid. blocks_of rid m = [] \<and> num_cached rid m = 0 \<and> \<not> is_running rid m))"
proof -
  obtain p where p: "block_pool_init (num_blocks cfg) caching hash_size events ih mc = Inr p"
    "pool_ok p (map Blk [1..<nat (num_blocks cfg)])" "\<forall>b. refs p b = 0" "enable_caching p = caching"
    using block_pool_init_spec [of "num_blocks cfg" caching hash_size events ih mc] assms
    by (auto simp: plain_specs_def)
  let ?xs = "map Blk [1..<nat (num_blocks cfg)]"
  have "\<forall>spec \<in> set (kv_cache_groups cfg). 0 < scaled_block_size spec dcp pcp
          \<and> (\<forall>n. spec_class_of spec \<noteq> SinkFullAttentionSpec n)"
    using assms by (auto simp: plain_specs_def)
  from init_managers_spec [OF p(2-4) this, of 0] obtain ms where
    ms: "init_managers caching dcp pcp 0 (kv_cache_groups cfg) p = Inr (ms, p)"
    "length ms = length (kv_cache_groups cfg)"
    "\<forall>j < length (kv_cache_groups cfg). kv_cache_group_id (ms ! j) = j \<and> req_to_blocks (ms ! j) = []
          \<and> num_cached_block (ms ! j) = [] \<and> m_spec (ms ! j) = kv_cache_groups cfg ! j
          \<and> m_block_size (ms ! j) = scaled_block_size (kv_cache_groups cfg ! j) dcp pcp
          \<and> mgr_inv (ms ! j) p ?xs (\<lambda>_. 0)" by auto
  have none: "all_held ms b = 0" for b
    using ms(2,3) by (auto simp: all_held_def sum_list_sum_nth held_def)
  have "others_hold ms m = (\<lambda>_. 0)" for m by (simp add: fun_eq_iff others_hold_def none)
  then have "coord_inv ms p ?xs" using ms(2,3) p(2,3) by (simp add: coord_inv_def none)
  moreover have "\<forall>m \<in> set ms. plain_mode m"
  proof
    fix m assume "m \<in> set ms"
    then obtain j where j: "j < length ms" "m = ms ! j" by (auto simp: in_set_conv_nth)
    have s: "m_spec m \<in> set (kv_cache_groups cfg)" "m_block_size m = scaled_block_size (m_spec m) dcp pcp"
      using j ms(2,3) by simp_all
    have "case spec_class_of (m_spec m) of
             SinkFullAttentionSpec _ \<Rightarrow> False
           | MambaSpec mode _ \<Rightarrow> mode \<noteq> ''align'' \<and> scaled_block_size (m_spec m) dcp pcp = spec_block_size (m_spec m)
           | _ \<Rightarrow> True"
      using assms s(1) unfolding plain_specs_def by blast
    then show "plain_mode m" using s(2) by (simp add: plain_mode_def split: spec_class.splits)
  qed
  moreover have "int (length ?xs) = num_blocks cfg - 1" using assms by (auto simp: plain_specs_def)
  moreover have "\<forall>j < length (kv_cache_groups cfg). \<forall>m. m = ms ! j \<longrightarrow>
          m_spec m = kv_cache_groups cfg ! j \<and> m_block_size m = scaled_block_size (kv_cache_groups cfg ! j) dcp pcp
          \<and> (\<forall>rid. blocks_of rid m = [] \<and> num_cached rid m = 0 \<and> \<not> is_running rid m)"
    using ms(3) by (simp add: blocks_of_def num_cached_def is_running_def dict_get_def)
  moreover have "\<exists>c. coordinator_init cls cfg max_len eagle caching events dcp pcp hash_size ih mc = Inr c
      \<and> single_type_managers c = ms \<and> c_pool c = p"
    using p(1) ms(1) by (simp add: coordinator_init_def)
  ultimately show ?thesis using none ms(2) by metis
qed

lemma coordinator_init_fields:
  assumes "plain_specs cfg dcp pcp"
    and "coordinator_init cls cfg max_len eagle caching events dcp pcp hash_size ih mc = Inr c"
  shows "c_class c = cls" "c_config c = cfg" "dcp_world_size c = dcp" "pcp_world_size c = pcp"
    "enable_caching (c_pool c) = caching" "hash_block_size (c_pool c) = hash_size"
proof -
  obtain p0 where p0: "block_pool_init (num_blocks cfg) caching hash_size events ih mc = Inr p0"
    "pool_ok p0 (map Blk [1..<nat (num_blocks cfg)])" "\<forall>b. refs p0 b = 0"
    "enable_caching p0 = caching" "hash_block_size p0 = hash_size"
    using block_pool_init_spec [of "num_blocks cfg" caching hash_size events ih mc] assms(1)
    by (auto simp: plain_specs_def)
  have "\<forall>spec \<in> set (kv_cache_groups cfg). 0 < scaled_block_size spec dcp pcp
          \<and> (\<forall>n. spec_class_of spec \<noteq> SinkFullAttentionSpec n)"
    using assms(1) by (auto simp: plain_specs_def)
  from init_managers_spec [OF p0(2-4) this, of 0] obtain ms where
    "init_managers caching dcp pcp 0 (kv_cache_groups cfg) p0 = Inr (ms, p0)" by auto
  with assms(2) p0 show "c_class c = cls" "c_config c = cfg" "dcp_world_size c = dcp" "pcp_world_size c = pcp"
    "enable_caching (c_pool c) = caching" "hash_block_size (c_pool c) = hash_size"
    by (auto simp: coordinator_init_def)
qed

subsection \<open>Histories of calls\<close>

text \<open>
  The calls the cache manager makes, in any order and for any requests. A hit is taken over for a
  request that holds nothing yet; hits come from the search, so their blocks carry hashes. Caching
  is asked for tokens that have both slots and hashes. External tokens are left out here: see
  \<open>external_allocation_takes_hit\<close> below for what they break with several groups.
\<close>

inductive coord_call :: "coordinator \<Rightarrow> coordinator \<Rightarrow> bool" where
  call_free: "coord_free rid c = Inr c' \<Longrightarrow> coord_call c c'"
| call_remove_skipped: "coord_remove_skipped_blocks rid n c = Inr c' \<Longrightarrow> coord_call c c'"
| call_allocate: "coord_allocate_new_blocks rid n main enc c = Inr (new, c') \<Longrightarrow> coord_call c c'"
| call_hit: "coord_allocate_new_computed_blocks rid hits tot 0 c = Inr c' \<Longrightarrow>
    \<forall>j < length (single_type_managers c). takes_hit rid hits (c_pool c) j (single_type_managers c ! j) \<Longrightarrow>
    coord_call c c'"
| call_cache: "coord_cache_blocks env r n c = Inr (r', c') \<Longrightarrow> enable_caching (c_pool c) \<Longrightarrow>
    \<forall>j < length (single_type_managers c).
      cacheable r (hash_block_size (c_pool c)) n j (single_type_managers c ! j) \<Longrightarrow>
    coord_call c c'"
| call_common_prefix: "coord_get_num_common_prefix_blocks rid c = Inr (ks, c') \<Longrightarrow> coord_call c c'"
| call_new_step: "coord_call c (coord_new_step_starts c)"

lemma on_managers_keeps:
  assumes "on_managers op c = Inr (as, c')"
    and each: "\<And>ms p. each_manager op 0 (single_type_managers c) (c_pool c) = Inr (as, ms, p) \<Longrightarrow>
      \<exists>xs. coord_inv ms p xs \<and> length ms = length (single_type_managers c)
        \<and> (\<forall>i < length (single_type_managers c). mgr_config (single_type_managers c ! i) (ms ! i))"
  shows "\<exists>xs. coord_ok c' xs \<and> same_setup c c'"
proof -
  obtain ms p where r: "each_manager op 0 (single_type_managers c) (c_pool c) = Inr (as, ms, p)"
    "c' = c\<lparr>single_type_managers := ms, c_pool := p\<rparr>"
    using assms(1) by (auto simp: on_managers_def bindR_eq_Inr)
  from each [OF r(1)] show ?thesis unfolding r(2) by (auto intro: same_setup_intro)
qed

lemma coord_call_keeps:
  assumes "coord_call c c'" "coord_ok c xs" "\<forall>m \<in> set (single_type_managers c). plain_mode m"
  shows "\<exists>xs'. coord_ok c' xs' \<and> same_setup c c'"
  using assms
proof (cases rule: coord_call.cases)
  case (call_allocate rid n main enc new)
  have ok: "enable_caching (c_pool c) = enable_caching (c_pool c) \<and> hash_block_size (c_pool c) = hash_block_size (c_pool c)"
    by simp
  show ?thesis
  proof (rule on_managers_keeps)
    show "on_managers (allocate_op rid n main enc) c = Inr (new, c')"
      using call_allocate by (simp add: coord_allocate_new_blocks_def)
  qed (use co_alloc.each_keeps [OF assms(2) ok] assms(3) in force)
next
  case (call_hit rid hits tot)
  then obtain as where run: "on_managers (computed_op rid hits tot 0) c = Inr (as, c')"
    by (auto simp: coord_allocate_new_computed_blocks_def bindR_eq_Inr)
  have ok: "grown_from (c_pool c) (c_pool c)"
    using coord_inv_pool [OF assms(2)] by (auto simp: grown_from_def)
  show ?thesis
    by (rule on_managers_keeps [OF run]) (use co_hit.each_keeps [OF assms(2) ok] call_hit(2) in force)
next
  case (call_cache env r n r')
  then show ?thesis using coord_cache_spec [OF assms(2), of r n env] by force
next
  case (call_free rid)
  then show ?thesis using coord_free_spec [OF assms(2), of rid] by force
next
  case (call_remove_skipped rid n)
  then show ?thesis using coord_remove_spec [OF assms(2,3), of rid n] by force
next
  case (call_common_prefix rid ks)
  then show ?thesis using coord_common_prefix_spec [OF assms(2), of rid] by force
next
  case call_new_step
  then show ?thesis using coord_new_step_spec [OF assms(2)] by force
qed

lemma coord_calls_keep:
  assumes "coord_call\<^sup>*\<^sup>* c c'" "coord_ok c xs" "\<forall>m \<in> set (single_type_managers c). plain_mode m"
  shows "\<exists>xs'. coord_ok c' xs' \<and> same_setup c c'"
  using assms(1)
proof (induction rule: rtranclp_induct)
  case base
  with assms(2) show ?case by auto
next
  case (step d e)
  then obtain ys where ys: "coord_ok d ys" "same_setup c d" by blast
  from coord_call_keeps [OF step.hyps(2) ys(1) same_setup_plain [OF ys(2) assms(3)]] ys(2)
  show ?case using same_setup_trans by blast
qed

lemma get_kv_cache_coordinator_parts:
  assumes "get_kv_cache_coordinator cfg max_len eagle caching events dcp pcp hash_size ih mc = Inr c"
  shows "\<exists>cls c0. coordinator_init cls cfg max_len eagle caching events dcp pcp hash_size ih mc = Inr c0
    \<and> single_type_managers c = single_type_managers c0 \<and> c_pool c = c_pool c0"
proof (cases caching)
  case False
  with assms show ?thesis by (auto simp: get_kv_cache_coordinator_def)
next
  case True
  have "single_type_managers c' = single_type_managers c0 \<and> c_pool c' = c_pool c0"
    if "unitary_init c0 = Inr c' \<or> hybrid_init c0 = Inr c'" for c0 c'
    using that by (auto simp: unitary_init_def hybrid_init_def verify_and_split_kv_cache_groups_def bindR_eq_Inr Let_def)
  moreover have "\<exists>cls c0. coordinator_init cls cfg max_len eagle caching events dcp pcp hash_size ih mc = Inr c0
      \<and> (unitary_init c0 = Inr c \<or> hybrid_init c0 = Inr c)"
    using assms True unfolding get_kv_cache_coordinator_def by (simp only: if_False not_True_eq_False)
      (auto simp: bindR_eq_Inr split: if_splits)
  ultimately show ?thesis by blast
qed

subsection \<open>Properties\<close>

text \<open>
  C6: The groups share the pool safely. From a fresh coordinator over any number of groups without the
  align mode of Mamba and without attention sinks, and after any history of calls without external
  tokens, in which a hit goes to a request that holds nothing and only held and hashed blocks are
  cached, every block's reference count is the number of places where requests hold it; the free queue
  holds exactly the real blocks that nobody holds, each once; and within one group no request holds a
  real block twice.
\<close>

theorem groups_share_pool_safely:
  assumes "plain_specs cfg dcp pcp"
    and "get_kv_cache_coordinator cfg max_len eagle caching events dcp pcp hash_size ih mc = Inr c0"
    and "coord_call\<^sup>*\<^sup>* c0 c"
  shows "\<exists>xs. dll (free_block_queue (c_pool c)) xs \<and> distinct xs
    \<and> (\<forall>b. b \<in> set xs \<longleftrightarrow> b \<in> set (blocks (c_pool c)) \<and> b \<noteq> null_block (c_pool c)
          \<and> all_held (single_type_managers c) b = 0)
    \<and> (\<forall>b. b \<noteq> null_block (c_pool c) \<longrightarrow> refs (c_pool c) b = int (all_held (single_type_managers c) b))
    \<and> (\<forall>m \<in> set (single_type_managers c). \<forall>rid. distinct (filter (\<lambda>b. b \<noteq> null_block (c_pool c)) (blocks_of rid m)))"
proof -
  obtain cls c1 where c1: "coordinator_init cls cfg max_len eagle caching events dcp pcp hash_size ih mc = Inr c1"
    "single_type_managers c0 = single_type_managers c1" "c_pool c0 = c_pool c1"
    using get_kv_cache_coordinator_parts [OF assms(2)] by blast
  obtain xs0 where "coord_ok c0 xs0" "\<forall>m \<in> set (single_type_managers c0). plain_mode m"
    using coordinator_init_spec [OF assms(1), of cls max_len eagle caching events hash_size ih mc] c1 by auto
  from coord_calls_keep [OF assms(3) this] obtain xs where inv: "coord_ok c xs" by blast
  have null: "null_block (c_pool c) = Blk 0" using coord_inv_pool [OF inv] by (simp add: pool_part_def)
  have refs: "refs (c_pool c) b = int (all_held (single_type_managers c) b)" if "b \<noteq> Blk 0" for b
    using inv that by (simp add: coord_inv_def)
  have "b \<in> set xs \<longleftrightarrow> b \<in> set (blocks (c_pool c)) \<and> b \<noteq> Blk 0 \<and> all_held (single_type_managers c) b = 0" for b
    using pool_partD(4) [OF coord_inv_pool [OF inv], of b] refs by auto
  moreover have "distinct (filter (\<lambda>b. b \<noteq> Blk 0) (blocks_of rid m))" if "m \<in> set (single_type_managers c)" for m rid
    using that mgr_invD(9) [OF coord_inv_manager [OF inv]] by (auto simp: in_set_conv_nth)
  ultimately show ?thesis
    using refs pool_partD(1,2) [OF coord_inv_pool [OF inv]] unfolding null by auto
qed

definition example_config :: "spec_class list \<Rightarrow> kv_cache_config" where
  "example_config cs = \<lparr>num_blocks = 10,
     kv_cache_groups = map (\<lambda>c. \<lparr>spec_class_of = c, spec_block_size = 16, spec_layout = []\<rparr>) cs\<rparr>"

theorem groups_share_pool_safely_witness:
  "\<exists>c0 c new. get_kv_cache_coordinator (example_config [FullAttentionSpec, SlidingWindowSpec 17]) 64 False False False
       1 1 16 False None = Inr c0
     \<and> coord_allocate_new_blocks ''a'' 40 40 0 c0 = Inr (new, c)
     \<and> (\<forall>b. b \<noteq> null_block (c_pool c) \<longrightarrow> refs (c_pool c) b = int (all_held (single_type_managers c) b))"
proof -
  let ?cfg = "example_config [FullAttentionSpec, SlidingWindowSpec 17]"
  have cfg: "plain_specs ?cfg 1 1" by (simp add: plain_specs_def example_config_def)
  obtain c0 xs where c0: "get_kv_cache_coordinator ?cfg 64 False False False 1 1 16 False None = Inr c0"
    "coord_ok c0 xs" "\<forall>m \<in> set (single_type_managers c0). plain_mode m" "int (length xs) = 9"
    "length (single_type_managers c0) = 2"
    "\<forall>j < 2. \<forall>m. m = single_type_managers c0 ! j \<longrightarrow> m_spec m = kv_cache_groups ?cfg ! j
       \<and> m_block_size m = scaled_block_size (kv_cache_groups ?cfg ! j) 1 1 \<and> (\<forall>rid. blocks_of rid m = [])"
  proof -
    obtain c0 xs where c: "coordinator_init KVCacheCoordinatorNoPrefixCache ?cfg 64 False False False 1 1 16 False None = Inr c0"
      "coord_ok c0 xs" "\<forall>m \<in> set (single_type_managers c0). plain_mode m" "int (length xs) = num_blocks ?cfg - 1"
      "length (single_type_managers c0) = length (kv_cache_groups ?cfg)"
      and each: "\<forall>j < length (kv_cache_groups ?cfg). \<forall>m. m = single_type_managers c0 ! j \<longrightarrow>
        m_spec m = kv_cache_groups ?cfg ! j \<and> m_block_size m = scaled_block_size (kv_cache_groups ?cfg ! j) 1 1
        \<and> (\<forall>rid. blocks_of rid m = [] \<and> num_cached rid m = 0 \<and> \<not> is_running rid m)"
      using coordinator_init_spec [OF cfg, of KVCacheCoordinatorNoPrefixCache 64 False False False 16 False None]
      by (elim exE conjE) (rule that)
    have num: "num_blocks ?cfg - 1 = 9" "length (kv_cache_groups ?cfg) = 2" by (simp_all add: example_config_def)
    show ?thesis
      by (intro that [of c0 xs]) (simp_all add: get_kv_cache_coordinator_def c num each [unfolded num])
  qed
  have miss: "blocks_missing ''a'' 40 0 j m = 3"
    if "m_spec m = \<lparr>spec_class_of = cl, spec_block_size = 16, spec_layout = []\<rparr>" "m_block_size m = 16"
      "blocks_of ''a'' m = []" "cl = FullAttentionSpec \<or> cl = SlidingWindowSpec 17" for j m cl
    using that by (auto simp: blocks_missing_def slots_for_def asked_tokens_def is_cross_def cdiv_def)
  have "blocks_missing ''a'' 40 0 j (single_type_managers c0 ! j) = 3" if "j < 2" for j
    using c0(6) [rule_format, OF that refl] that
    by (intro miss [of _ "[FullAttentionSpec, SlidingWindowSpec 17] ! j"])
      (auto simp: example_config_def less_2_cases_iff)
  then have "(\<Sum>j = 0..<length (single_type_managers c0). blocks_missing ''a'' 40 0 j (single_type_managers c0 ! j))
      \<le> get_num_free_blocks (c_pool c0)"
    using c0(4,5) pool_partD(10) [OF coord_inv_pool [OF c0(2)]] by simp
  from coord_allocate_spec [OF c0(2,3) this, of 40] obtain new c where
    c: "coord_allocate_new_blocks ''a'' 40 40 0 c0 = Inr (new, c)" by blast
  have "coord_call\<^sup>*\<^sup>* c0 c" using c by (blast intro: coord_call.call_allocate)
  from groups_share_pool_safely [OF cfg c0(1) this] c0(1) c show ?thesis by blast
qed

text \<open>Caching one block under one hash in a pool of the examples.\<close>

lemma example_store:
  assumes p: "pool_ok p ys" "hash_block_size p = 16" "b \<in> set (blocks p)" "hash_of p b = None" "b \<noteq> Blk 0"
    and g: "g < 2 ^ 32"
  shows "\<exists>q. pool_ok q ys \<and> same_config p q \<and> (\<forall>b. refs q b = refs p b) \<and> key_ok q h g b
      \<and> (\<forall>b'. b' \<noteq> b \<longrightarrow> hash_of q b' = hash_of p b')"
proof -
  let ?r = "(example_request [] 1)\<lparr>block_hashes := [h]\<rparr>"
  have hs: "group_block_hashes p ?r 16 = Inr [h]" using p(2) by (simp add: group_block_hashes_def)
  have "\<exists>memo q. cache_full_blocks (serialising_env 16) ?r [b] 0 1 16 g p
        = Inr (?r\<lparr>prompt_embeds_per_block_hashes := memo\<rparr>, q) \<and> pool_ok q ys \<and> same_config p q
        \<and> (\<forall>x. refs q x = refs p x)
        \<and> (\<forall>x. x \<notin> set (drop (nat 0) (take (nat 1) [b])) \<or> x = Blk 0 \<longrightarrow> hash_of q x = hash_of p x)
        \<and> (\<forall>j<nat 1. nat 0 \<le> j \<longrightarrow> [b] ! j \<noteq> Blk 0 \<longrightarrow>
            (\<exists>k. hash_of q ([b] ! j) = Some k \<and> make_block_hash_with_group_id ([h] ! j) g = Inr k))"
    by (rule cache_full_blocks_spec [OF p(1) g _ _ _ _ hs]) (use p in simp_all)
  then show ?thesis using p(5) by (auto simp: key_ok_def)
qed

text \<open>A pool in which a block is cached for each of two groups; nothing is in use.\<close>

lemma example_two_group_pool:
  "\<exists>p. pool_ok p (map Blk [1..<9]) \<and> enable_caching p \<and> (\<forall>b. refs p b = 0)
     \<and> key_ok p [1] 0 (Blk 1) \<and> key_ok p [1] 1 (Blk 2)"
proof -
  have nine: "[1..<nat 9] = [1, 2, 3, 4, 5, 6, 7, 8]" "[1..<9] = [1::nat, 2, 3, 4, 5, 6, 7, 8]"
    by (simp_all add: upt_rec)
  obtain p0 where p0: "pool_ok p0 (map Blk [1, 2, 3, 4, 5, 6, 7, 8])" "enable_caching p0" "hash_block_size p0 = 16"
    "\<forall>b. refs p0 b = 0 \<and> hash_of p0 b = None" "num_gpu_blocks p0 = 9"
    using block_pool_init_spec [of 9 True 16 False False None] unfolding nine by auto
  obtain p1 where p1: "pool_ok p1 (map Blk [3, 4, 5, 6, 7, 8])" "same_config p0 p1"
    "\<forall>b. refs p1 b = (if b = Blk 1 \<or> b = Blk 2 then 1 else 0)" "\<forall>b. hash_of p1 b = None"
    using get_new_blocks_spec [OF p0(1), of 2] p0(4) by (auto simp: numeral_2_eq_2)
  have bl: "blocks p1 = map Blk [0..<9]" "hash_block_size p1 = 16" "enable_caching p1"
    using p0(1-3,5) p1(2) by (auto simp: same_config_def pool_part_def)
  obtain p2 where p2: "pool_ok p2 (map Blk [3, 4, 5, 6, 7, 8])" "same_config p1 p2" "\<forall>b. refs p2 b = refs p1 b"
    "key_ok p2 [1] 0 (Blk 1)" "\<forall>b'. b' \<noteq> Blk 1 \<longrightarrow> hash_of p2 b' = hash_of p1 b'"
    using example_store [OF p1(1) bl(2), of "Blk 1" 0 "[1]"] p1(4) bl(1) by auto
  obtain p3 where p3: "pool_ok p3 (map Blk [3, 4, 5, 6, 7, 8])" "same_config p2 p3" "\<forall>b. refs p3 b = refs p2 b"
    "key_ok p3 [1] 1 (Blk 2)" "\<forall>b'. b' \<noteq> Blk 2 \<longrightarrow> hash_of p3 b' = hash_of p2 b'"
    using example_store [OF p2(1), of "Blk 2" 1 "[1]"] p1(4) p2(2,5) bl(1,2) by (auto simp: same_config_def)
  have bl3: "blocks p3 = map Blk [0..<9]" using bl(1) p2(2) p3(2) by (simp add: same_config_def)
  obtain p4 where p4: "pool_ok p4 (map Blk [3, 4, 5, 6, 7, 8, 1, 2])" "same_config p3 p4" "\<forall>b. refs p4 b = 0"
    "\<forall>b. hash_of p4 b = hash_of p3 b"
    using free_blocks_spec [OF p3(1), of "[Blk 1, Blk 2]"] bl3 p1(3) p2(3) p3(3) by auto
  obtain p5 where p5: "pool_ok p5 (map Blk [1, 2])" "same_config p4 p5"
    "\<forall>x. refs p5 x = (if x \<in> set (map Blk [3, 4, 5, 6, 7, 8]) then 1 else 0)"
    "\<forall>x. x \<notin> set (map Blk [3, 4, 5, 6, 7, 8]) \<longrightarrow> hash_of p5 x = hash_of p4 x"
    using get_new_blocks_spec [OF p4(1), of 6] p4(3) by (auto simp: numeral_eq_Suc)
  have bl5: "blocks p5 = map Blk [0..<9]" using bl3 p4(2) p5(2) by (simp add: same_config_def)
  obtain p6 where p6: "pool_ok p6 (map Blk [1, 2, 3, 4, 5, 6, 7, 8])" "same_config p5 p6" "\<forall>b. refs p6 b = 0"
    "\<forall>b. hash_of p6 b = hash_of p5 b"
    using free_blocks_spec [OF p5(1), of "map Blk [3, 4, 5, 6, 7, 8]"] bl5 p5(3) by auto
  have "hash_of p6 (Blk 1) = hash_of p2 (Blk 1)" "hash_of p6 (Blk 2) = hash_of p3 (Blk 2)"
    using p3(5) p4(4) p5(4) p6(4) by simp_all
  then have "key_ok p6 [1] 0 (Blk 1)" "key_ok p6 [1] 1 (Blk 2)" using p2(4) p3(4) by (simp_all add: key_ok_def)
  moreover have "enable_caching p6" using bl(3) p2(2) p3(2) p4(2) p5(2) p6(2) by (simp add: same_config_def)
  ultimately show ?thesis using p6(1,3) unfolding nine by auto
qed

text \<open>Two groups with that pool.\<close>

definition two_managers :: "manager list" where
  "two_managers = [example_manager FullAttentionSpec, (example_manager MLAAttentionSpec)\<lparr>kv_cache_group_id := 1\<rparr>]"

definition two_groups :: "block_pool \<Rightarrow> coordinator" where
  "two_groups p = \<lparr>c_class = HybridKVCacheCoordinator, c_config = example_config [FullAttentionSpec, MLAAttentionSpec],
     c_max_model_len = 64, c_enable_caching = True, c_pool = p, c_use_eagle = False,
     single_type_managers = two_managers, c_block_size = 0, dcp_world_size = 1, pcp_world_size = 1,
     c_hash_block_size = 16, attention_groups = [], lcm_block_size = 16\<rparr>"

lemma two_groups_ready:
  assumes p: "pool_ok p (map Blk [1..<9])" "enable_caching p" "\<forall>b. refs p b = 0"
    "key_ok p [1] 0 (Blk 1)" "key_ok p [1] 1 (Blk 2)"
  shows "coord_ok (two_groups p) (map Blk [1..<9])"
    and "takes_hit ''a'' [[Blk 1], [Blk 2]] p 0 (two_managers ! 0)"
    and "takes_hit ''a'' [[Blk 1], [Blk 2]] p 1 (two_managers ! 1)"
    and "coord_get_num_blocks_to_allocate ''a'' 33 [[Blk 1], [Blk 2]] 0 32 33 (two_groups p) = Inr (6, two_groups p)"
    and "Blk 1 \<in> set (blocks p)" "Blk 2 \<in> set (blocks p)"
proof -
  show sub: "Blk 1 \<in> set (blocks p)" "Blk 2 \<in> set (blocks p)"
    using pool_partD(4) [OF p(1), of "Blk 1"] pool_partD(4) [OF p(1), of "Blk 2"] by auto
  have null: "is_null (pool_store p b) \<longleftrightarrow> b = Blk 0" for b by (rule pool_partD(3) [OF p(1)])
  note defs = two_managers_def example_manager_def blocks_of_def num_cached_def is_running_def dict_get_def
  have hits: "hit_blocks_ok p [Blk 1]" "hit_blocks_ok p [Blk 2]"
    using sub p(4,5) by (auto simp: hit_blocks_ok_def key_ok_def)
  then show "takes_hit ''a'' [[Blk 1], [Blk 2]] p 0 (two_managers ! 0)"
    "takes_hit ''a'' [[Blk 1], [Blk 2]] p 1 (two_managers ! 1)"
    by (simp_all add: takes_hit_def is_cross_def defs)
  have none: "all_held two_managers b = 0" for b by (simp add: all_held_def held_def defs)
  have mgr: "mgr_inv m p (map Blk [1..<9]) (\<lambda>_. 0)" if "m \<in> set two_managers" for m
    using that p(1-3) by (auto simp: mgr_inv_def req_ok_def held_def defs)
  have "others_hold two_managers m = (\<lambda>_. 0)" for m by (simp add: fun_eq_iff others_hold_def none)
  moreover have "kv_cache_group_id (two_managers ! j) = j \<and> two_managers ! j \<in> set two_managers"
    if "j < length two_managers" for j
    using that by (auto simp: two_managers_def example_manager_def less_Suc_eq)
  ultimately have "coord_inv two_managers p (map Blk [1..<9])"
    using mgr p(1,3) by (simp add: coord_inv_def none)
  then show "coord_ok (two_groups p) (map Blk [1..<9])" by (simp add: two_groups_def)
  show "coord_get_num_blocks_to_allocate ''a'' 33 [[Blk 1], [Blk 2]] 0 32 33 (two_groups p) = Inr (6, two_groups p)"
    using p(3) null
    by (simp add: coord_get_num_blocks_to_allocate_def on_managers_def two_groups_def count_op_def is_cross_def
        get_num_blocks_to_allocate_def base_get_num_blocks_to_allocate_def get_num_skipped_tokens_def
        get_num_evictable_blocks_def Let_def cdiv_def defs)
qed

text \<open>
  C27: With external tokens the groups are not served safely: the first group allocates blocks for the
  external tokens before the next group has taken a reference to its own hit. There is a state in
  order, with a valid hit for two groups and a passing admission check, in which the call hands the
  block that the second group hits to the first group as a fresh block, so that both groups of the
  request hold it.
\<close>

theorem external_allocation_takes_hit:
  "\<exists>p xs c'. coord_ok (two_groups p) xs
     \<and> takes_hit ''a'' [[Blk 1], [Blk 2]] p 0 (two_managers ! 0) \<and> takes_hit ''a'' [[Blk 1], [Blk 2]] p 1 (two_managers ! 1)
     \<and> key_ok p [1] 0 (Blk 1) \<and> key_ok p [1] 1 (Blk 2)
     \<and> coord_get_num_blocks_to_allocate ''a'' 33 [[Blk 1], [Blk 2]] 0 32 33 (two_groups p) = Inr (6, two_groups p)
     \<and> 6 \<le> get_num_free_blocks p
     \<and> coord_allocate_new_computed_blocks ''a'' [[Blk 1], [Blk 2]] 16 16 (two_groups p) = Inr c'
     \<and> coord_get_blocks ''a'' c' = [[Blk 1, Blk 2], [Blk 2, Blk 3]]
     \<and> hash_of (c_pool c') (Blk 2) = None"
proof -
  obtain p where p: "pool_ok p (map Blk [1..<9])" "enable_caching p" "\<forall>b. refs p b = 0"
    "key_ok p [1] 0 (Blk 1)" "key_ok p [1] 1 (Blk 2)"
    using example_two_group_pool by blast
  have nine: "map Blk [1..<9] = [Blk 1, Blk 2, Blk 3, Blk 4, Blk 5, Blk 6, Blk 7, Blk 8]"
    by (simp add: upt_rec)
  note ok = p(1) [unfolded nine] and ready = two_groups_ready [OF p]
  note sub = ready(5,6)
  have free: "get_num_free_blocks p = 8" using pool_partD(10) [OF ok] by simp
  note defs = two_managers_def example_manager_def blocks_of_def num_cached_def is_running_def dict_get_def
  obtain p1 where p1: "touch [Blk 1] p = Inr p1" "pool_ok p1 [Blk 2, Blk 3, Blk 4, Blk 5, Blk 6, Blk 7, Blk 8]"
    "same_config p p1" "\<forall>x. refs p1 x = refs p x + int (count_list [Blk 1] x)"
    using touch_spec [OF ok, of "[Blk 1]"] sub by auto
  obtain p2 where p2: "get_new_blocks 1 p1 = Inr ([Blk 2], p2)" "pool_ok p2 [Blk 3, Blk 4, Blk 5, Blk 6, Blk 7, Blk 8]"
    "same_config p1 p2" "hash_of p2 (Blk 2) = None"
    using get_new_blocks_spec [OF p1(2), of 1] p(2) p1(3) by (auto simp: same_config_def)
  have "Blk 2 \<in> set (blocks p2)" using sub p1(3) p2(3) by (simp add: same_config_def)
  then obtain p3 where p3: "touch [Blk 2] p2 = Inr p3" "pool_ok p3 [Blk 3, Blk 4, Blk 5, Blk 6, Blk 7, Blk 8]"
    "hash_of p3 (Blk 2) = None"
    using touch_spec [OF p2(2), of "[Blk 2]"] p2(4) by auto
  obtain p4 where p4: "get_new_blocks 1 p3 = Inr ([Blk 3], p4)" "hash_of p4 (Blk 2) = None"
    using get_new_blocks_spec [OF p3(2), of 1] p3(3) by auto
  have "\<exists>c'. coord_allocate_new_computed_blocks ''a'' [[Blk 1], [Blk 2]] 16 16 (two_groups p) = Inr c'
     \<and> coord_get_blocks ''a'' c' = [[Blk 1, Blk 2], [Blk 2, Blk 3]] \<and> c_pool c' = p4"
    using p1(1) p2(1) p3(1) p4(1)
    by (simp add: coord_allocate_new_computed_blocks_def on_managers_def two_groups_def computed_op_def
        allocate_new_computed_blocks_def base_allocate_new_computed_blocks_def get_num_skipped_tokens_def
        note_new_blocks_def coord_get_blocks_def set_blocks_def Let_def cdiv_def defs)
  with ready(1-4) show ?thesis using p(4,5) free p4(2) by fastforce
qed

end
