(* ===== verification/Hybrid_Search.thy ===== *)
theory Hybrid_Search
  imports Coordinator
begin

text \<open>
  The hybrid coordinator's search for a prefix-cache hit: how the KV-cache groups are gathered into
  attention groups, that the fixed-point loop ends, and that all groups agree on the hit it returns.
\<close>

subsection \<open>Attention groups\<close>

text \<open>
  The attention groups built from the first \<open>k\<close> KV-cache groups: specs are distinct, and the group
  ids of a spec are exactly the groups that have it.
\<close>

definition groups_upto :: "kv_cache_spec list \<Rightarrow> nat \<Rightarrow> attention_group list \<Rightarrow> bool" where
  "groups_upto specs k gs \<longleftrightarrow>
     distinct (map fst gs)
     \<and> (\<forall>(spec, ids, cls) \<in> set gs. ids \<noteq> [] \<and> distinct ids \<and> cls = spec_manager_map (spec_class_of spec)
          \<and> (\<forall>i. i \<in> set ids \<longleftrightarrow> i < k \<and> specs ! i = spec))
     \<and> (\<forall>i < k. specs ! i \<in> fst ` set gs)"

lemma add_to_attention_groups_spec:
  assumes cls: "\<forall>(spec', ids, cls') \<in> set gs. cls' = spec_manager_map (spec_class_of spec')"
    and d: "distinct (map fst gs)"
  shows "\<exists>gs'. add_to_attention_groups spec i (spec_manager_map (spec_class_of spec)) gs = Inr gs'
    \<and> map fst gs' = (if spec \<in> fst ` set gs then map fst gs else map fst gs @ [spec])
    \<and> (\<forall>spec' ids' cls'. (spec', ids', cls') \<in> set gs' \<longleftrightarrow>
          (if spec' = spec
           then cls' = spec_manager_map (spec_class_of spec) \<and>
                (if spec \<in> fst ` set gs then \<exists>ids. (spec, ids, cls') \<in> set gs \<and> ids' = ids @ [i] else ids' = [i])
           else (spec', ids', cls') \<in> set gs))"
  using assms
proof (induction gs)
  case Nil
  then show ?case by auto
next
  case (Cons g gs)
  obtain spec1 ids1 cls1 where g: "g = (spec1, ids1, cls1)" by (cases g)
  show ?case
  proof (cases "spec1 = spec")
    case True
    have "spec \<notin> fst ` set gs" using Cons.prems(2) True g by simp
    then have "(spec, ids', cls') \<notin> set gs" for ids' cls' by force
    moreover have "cls1 = spec_manager_map (spec_class_of spec)" using Cons.prems(1) True g by simp
    ultimately show ?thesis using True g by auto
  next
    case False
    have "\<forall>(spec', ids, cls') \<in> set gs. cls' = spec_manager_map (spec_class_of spec')"
      "distinct (map fst gs)" using Cons.prems by auto
    from Cons.IH [OF this] obtain gs' where gs': "add_to_attention_groups spec i (spec_manager_map (spec_class_of spec)) gs = Inr gs'"
      "map fst gs' = (if spec \<in> fst ` set gs then map fst gs else map fst gs @ [spec])"
      "\<forall>spec' ids' cls'. (spec', ids', cls') \<in> set gs' \<longleftrightarrow>
          (if spec' = spec
           then cls' = spec_manager_map (spec_class_of spec) \<and>
                (if spec \<in> fst ` set gs then \<exists>ids. (spec, ids, cls') \<in> set gs \<and> ids' = ids @ [i] else ids' = [i])
           else (spec', ids', cls') \<in> set gs)" by blast
    show ?thesis
      using False gs' g by (intro exI [of _ "g # gs'"]) auto
  qed
qed

lemma groups_upto_step:
  assumes gs: "groups_upto specs k gs" and spec: "specs ! k = spec"
  shows "\<exists>gs'. add_to_attention_groups spec k (spec_manager_map (spec_class_of spec)) gs = Inr gs'
    \<and> groups_upto specs (Suc k) gs'"
proof -
  have cls: "\<forall>(spec', ids, cls') \<in> set gs. cls' = spec_manager_map (spec_class_of spec')"
    and d: "distinct (map fst gs)" using gs by (auto simp: groups_upto_def)
  from add_to_attention_groups_spec [OF cls d, of spec k] obtain gs' where
    gs': "add_to_attention_groups spec k (spec_manager_map (spec_class_of spec)) gs = Inr gs'"
    and fst: "map fst gs' = (if spec \<in> fst ` set gs then map fst gs else map fst gs @ [spec])"
    and mem: "\<And>spec' ids' cls'. (spec', ids', cls') \<in> set gs' \<longleftrightarrow>
          (if spec' = spec
           then cls' = spec_manager_map (spec_class_of spec) \<and>
                (if spec \<in> fst ` set gs then \<exists>ids. (spec, ids, cls') \<in> set gs \<and> ids' = ids @ [k] else ids' = [k])
           else (spec', ids', cls') \<in> set gs)" by blast
  have old: "ids \<noteq> [] \<and> distinct ids \<and> cls = spec_manager_map (spec_class_of spec') \<and> (\<forall>i. i \<in> set ids \<longleftrightarrow> i < k \<and> specs ! i = spec')"
    if "(spec', ids, cls) \<in> set gs" for spec' ids cls
    using gs that unfolding groups_upto_def by blast
  have covered: "specs ! i \<in> fst ` set gs" if "i < k" for i using gs that by (simp add: groups_upto_def)
  have set: "fst ` set gs' = insert spec (fst ` set gs)"
    using arg_cong [OF fst, of set] by (auto split: if_splits)
  have "distinct (map fst gs')" using fst d by (auto split: if_splits)
  moreover have "ids \<noteq> [] \<and> distinct ids \<and> cls = spec_manager_map (spec_class_of spec')
      \<and> (\<forall>i. i \<in> set ids \<longleftrightarrow> i < Suc k \<and> specs ! i = spec')"
    if m: "(spec', ids, cls) \<in> set gs'" for spec' ids cls
  proof (cases "spec' = spec")
    case False
    then have "(spec', ids, cls) \<in> set gs" using m mem by simp
    from old [OF this] False spec show ?thesis by (auto simp: less_Suc_eq)
  next
    case True
    show ?thesis
    proof (cases "spec \<in> fst ` set gs")
      case in_gs: True
      then obtain ids0 where ids0: "(spec, ids0, cls) \<in> set gs" "ids = ids0 @ [k]"
        "cls = spec_manager_map (spec_class_of spec)" using m True mem by auto
      from old [OF ids0(1)] ids0 True spec show ?thesis by (auto simp: less_Suc_eq)
    next
      case False
      then have ids: "ids = [k]" "cls = spec_manager_map (spec_class_of spec)" using m True mem by auto
      have "specs ! i \<noteq> spec" if "i < k" for i using covered [OF that] False by auto
      then show ?thesis using ids True spec by (auto simp: less_Suc_eq)
    qed
  qed
  moreover have "\<forall>i < Suc k. specs ! i \<in> fst ` set gs'"
    using covered spec by (auto simp: set less_Suc_eq)
  ultimately show ?thesis using gs' unfolding groups_upto_def by blast
qed

lemma split_loop_spec:
  assumes "length ms = length specs" "\<forall>j < length specs. m_spec (ms ! j) = specs ! j"
  shows "groups_upto specs k gs \<Longrightarrow> k \<le> length specs \<Longrightarrow>
    \<exists>gs'. foldR (\<lambda>(i, spec) gs. bindR (py_nth ms (int i)) (\<lambda>m.
              add_to_attention_groups spec i (spec_manager_map (spec_class_of (m_spec m))) gs))
            (enumerate k (drop k specs)) gs = Inr gs' \<and> groups_upto specs (length specs) gs'"
proof (induction "length specs - k" arbitrary: k gs)
  case 0
  then show ?case by simp
next
  case (Suc d)
  have k: "k < length specs" using Suc.hyps(2) by linarith
  have d: "d = length specs - Suc k" using Suc.hyps(2) by linarith
  have dr: "drop k specs = specs ! k # drop (Suc k) specs" using k by (simp add: Cons_nth_drop_Suc)
  obtain gs1 where gs1: "add_to_attention_groups (specs ! k) k (spec_manager_map (spec_class_of (specs ! k))) gs = Inr gs1"
    "groups_upto specs (Suc k) gs1"
    using groups_upto_step [OF Suc.prems(1) refl] by blast
  have "py_nth ms (int k) = Inr (ms ! k)" using k assms(1) by simp
  moreover obtain gs' where "foldR (\<lambda>(i, spec) gs. bindR (py_nth ms (int i)) (\<lambda>m.
              add_to_attention_groups spec i (spec_manager_map (spec_class_of (m_spec m))) gs))
            (enumerate (Suc k) (drop (Suc k) specs)) gs1 = Inr gs'" "groups_upto specs (length specs) gs'"
    using Suc.hyps(1) [OF d gs1(2) Suc_leI [OF k]] by blast
  ultimately show ?case using gs1(1) assms(2) k by (simp add: dr)
qed

lemma fold_lcm_dvd:
  fixes a :: int
  shows "a dvd fold lcm xs a" and "x \<in> set xs \<Longrightarrow> x dvd fold lcm xs a" and "0 < a \<Longrightarrow> 0 \<notin> set xs \<Longrightarrow> 0 < fold lcm xs a"
proof (induction xs arbitrary: a)
  case (Cons y xs)
  { case 1
    show ?case using Cons.IH(1) [of "lcm y a"] by (auto intro: dvd_trans dvd_lcm2) }
  { case 2
    then show ?case using Cons.IH(1,2) [of "lcm y a"] by (auto intro: dvd_trans dvd_lcm1) }
  { case 3
    then show ?case using Cons.IH(3) [of "lcm y a"] by (simp add: lcm_pos_int) }
qed simp_all

text \<open>
  The groups as the search uses them: the sizes and hashes of every spec fit, every KV-cache group
  is in exactly one attention group, and full attention comes first.
\<close>

abbreviation group_size :: "attention_group \<Rightarrow> int" where
  "group_size G \<equiv> spec_block_size (fst G)"

abbreviation group_ids :: "attention_group \<Rightarrow> nat list" where
  "group_ids G \<equiv> fst (snd G)"

abbreviation group_cls :: "attention_group \<Rightarrow> manager_class" where
  "group_cls G \<equiv> snd (snd G)"

abbreviation full_group :: "attention_group \<Rightarrow> bool" where
  "full_group G \<equiv> is_full_spec (spec_class_of (fst G))"

definition group_hashes :: "coordinator \<Rightarrow> bytes list \<Rightarrow> attention_group \<Rightarrow> bytes list" where
  "group_hashes c hs G = (case spec_block_hashes hs (fst G) c of Inr hs' \<Rightarrow> hs' | Inl _ \<Rightarrow> [])"

definition group_wf :: "coordinator \<Rightarrow> bytes list \<Rightarrow> int \<Rightarrow> nat \<Rightarrow> attention_group \<Rightarrow> bool" where
  "group_wf c hs max_len n G \<longleftrightarrow>
     group_ids G \<noteq> [] \<and> distinct (group_ids G) \<and> (\<forall>g \<in> set (group_ids G). g < n \<and> g < 2 ^ 32)
     \<and> group_cls G = spec_manager_map (spec_class_of (fst G))
     \<and> 0 < group_size G \<and> group_size G dvd lcm_block_size c
     \<and> hit_config (spec_class_of (fst G)) (group_size G) (c_use_eagle c) (lcm_block_size c) 1 1
     \<and> (\<exists>hs'. spec_block_hashes hs (fst G) c = Inr hs' \<and> max_len div group_size G \<le> int (length hs'))"

text \<open>The table holds a usable hit of \<open>n\<close> blocks for every KV-cache group of \<open>G\<close>.\<close>

definition found :: "coordinator \<Rightarrow> bytes list \<Rightarrow> attention_group \<Rightarrow> hit_table \<Rightarrow> nat \<Rightarrow> bool" where
  "found c hs G table n \<longleftrightarrow> (\<forall>g \<in> set (group_ids G). table ! g \<noteq> None)
     \<and> hit_upto (c_pool c) (group_ids G) (group_hashes c hs G) n
          (\<lambda>l. (int l + 1) * group_size G > skipped_by (spec_class_of (fst G)) (int n * group_size G))
          (map (\<lambda>g. the (table ! g)) (group_ids G))"

lemma found_frame:
  "(\<And>g. g \<in> set (group_ids G) \<Longrightarrow> table' ! g = table ! g) \<Longrightarrow> found c hs G table' n = found c hs G table n"
  by (simp add: found_def cong: map_cong)

lemma store_hits_length [simp]: "length (store_hits gids hits table) = length table"
proof -
  have "length (fold (\<lambda>(g, bs) t. t[g := Some bs]) ps t) = length t" for ps and t :: hit_table
    by (induction ps arbitrary: t) auto
  then show ?thesis by (simp add: store_hits_def)
qed

lemma store_hits_nth:
  assumes "distinct gids" "length hits = length gids" "\<forall>g \<in> set gids. g < length table"
  shows "g \<notin> set gids \<Longrightarrow> store_hits gids hits table ! g = table ! g"
    and "j < length gids \<Longrightarrow> store_hits gids hits table ! (gids ! j) = Some (hits ! j)"
proof -
  have "(\<forall>g. g \<notin> set gids \<longrightarrow> store_hits gids hits table ! g = table ! g)
    \<and> (\<forall>j < length gids. store_hits gids hits table ! (gids ! j) = Some (hits ! j))"
    using assms
  proof (induction gids arbitrary: hits table)
    case Nil
    then show ?case by (simp add: store_hits_def)
  next
    case (Cons g0 gids)
    obtain h0 hits' where h: "hits = h0 # hits'" using Cons.prems(2) by (cases hits) auto
    let ?t = "table[g0 := Some h0]"
    have eq: "store_hits (g0 # gids) hits table = store_hits gids hits' ?t" by (simp add: store_hits_def h)
    have IH: "(\<forall>g. g \<notin> set gids \<longrightarrow> store_hits gids hits' ?t ! g = ?t ! g)
      \<and> (\<forall>j < length gids. store_hits gids hits' ?t ! (gids ! j) = Some (hits' ! j))"
      using Cons.IH [of hits' ?t] Cons.prems h by simp
    show ?case
      unfolding eq using IH Cons.prems by (auto simp: h nth_Cons less_Suc_eq_0_disj split: nat.split)
  qed
  then show "g \<notin> set gids \<Longrightarrow> store_hits gids hits table ! g = table ! g"
    and "j < length gids \<Longrightarrow> store_hits gids hits table ! (gids ! j) = Some (hits ! j)" by auto
qed

lemma aligned_dvd: "aligned b al n \<Longrightarrow> b dvd al \<Longrightarrow> al dvd int n * b"
  by (auto simp: aligned_def dvd_eq_mod_eq_0)

text \<open>One attention group that is searched, and one whose earlier result is reused.\<close>

lemma group_step_search:
  assumes ok: "pool_ok (c_pool c) xs" and wf: "group_wf c hs max_len (length table) G"
    and cur: "0 \<le> cur" "cur \<le> max_len" and search: "\<not> full_group G \<or> table ! hd (group_ids G) = None"
  shows "\<exists>n table'. attention_group_step c hs G (cur, table) = Inr (int n * group_size G, table')
    \<and> length table' = length table \<and> found c hs G table' n
    \<and> (\<forall>g. g \<notin> set (group_ids G) \<longrightarrow> table' ! g = table ! g)
    \<and> int n * group_size G \<le> cur \<and> lcm_block_size c dvd int n * group_size G"
proof -
  obtain spec gids cls where G: "G = (spec, gids, cls)" by (cases G)
  have wf': "gids \<noteq> []" "distinct gids" "\<forall>g \<in> set gids. g < length table" "\<forall>g \<in> set gids. g < 2 ^ 32"
    "cls = spec_manager_map (spec_class_of spec)" "0 < spec_block_size spec" "spec_block_size spec dvd lcm_block_size c"
    "hit_config (spec_class_of spec) (spec_block_size spec) (c_use_eagle c) (lcm_block_size c) 1 1"
    using wf by (simp_all add: group_wf_def G)
  obtain hs' where hs': "spec_block_hashes hs spec c = Inr hs'" "max_len div spec_block_size spec \<le> int (length hs')"
    using wf by (auto simp: group_wf_def G)
  have "cur div spec_block_size spec \<le> int (length hs')"
    using zdiv_mono1 [OF cur(2) wf'(6)] hs'(2) by linarith
  then obtain n hits where hit: "find_longest_cache_hit cls hs' cur gids (c_pool c) spec (c_use_eagle c) (lcm_block_size c) 1 1
        = Inr hits"
    "hit_upto (c_pool c) gids hs' n
       (\<lambda>l. (int l + 1) * spec_block_size spec > skipped_by (spec_class_of spec) (int n * spec_block_size spec)) hits"
    "int n * spec_block_size spec \<le> cur" "aligned (spec_block_size spec) (lcm_block_size c) n"
    using hit_usable [OF ok wf'(4,1,8) _ cur(1), of hs'] wf'(6) unfolding wf'(5) scaled_one by blast
  have len: "length hits = length gids" and h0: "length (hd hits) = n" "hits \<noteq> []"
    using hit(2) hit_upto_hd [OF hit(2) wf'(1)] wf'(1) by (auto simp: hit_upto_def)
  let ?t = "store_hits gids hits table"
  have "map (\<lambda>g. the (?t ! g)) gids = hits"
    using store_hits_nth(2) [OF wf'(2) len wf'(3)] len by (intro nth_equalityI) simp_all
  then have "found c hs G ?t n"
    using hit(2) hs'(1) store_hits_nth(2) [OF wf'(2) len wf'(3)]
    by (auto simp: found_def G group_hashes_def in_set_conv_nth)
  moreover have "attention_group_step c hs G (cur, table) = Inr (int n * spec_block_size spec, ?t)"
    using wf'(1,3) search hs'(1) hit(1) h0 unfolding G
    by (cases gids; cases hits) (auto simp: attention_group_step_def)
  ultimately show ?thesis
    using store_hits_nth(1) [OF wf'(2) len wf'(3)] hit(3) aligned_dvd [OF hit(4) wf'(7)]
    by (intro exI [of _ n] exI [of _ ?t]) (simp add: G)
qed

lemma group_step_reuse:
  assumes wf: "group_wf c hs max_len (length table) G" and full: "full_group G" "table ! hd (group_ids G) \<noteq> None"
    and al: "lcm_block_size c dvd cur"
  shows "attention_group_step c hs G (cur, table) = Inr (cur, table)"
proof -
  obtain spec gids cls where G: "G = (spec, gids, cls)" by (cases G)
  have "spec_block_size spec dvd cur" using wf al by (auto simp: group_wf_def G intro: dvd_trans)
  moreover obtain g gs where "gids = g # gs" "g < length table" using wf by (cases gids) (auto simp: group_wf_def G)
  ultimately show ?thesis using full by (auto simp: attention_group_step_def G)
qed

subsection \<open>A round over the attention groups\<close>

text \<open>
  Before a round with candidate length \<open>cur\<close>, a full-attention group has not been searched, or its
  stored hit covers \<open>cur\<close> and \<open>cur\<close> is aligned.
\<close>

definition reusable :: "coordinator \<Rightarrow> bytes list \<Rightarrow> hit_table \<Rightarrow> int \<Rightarrow> attention_group \<Rightarrow> bool" where
  "reusable c hs table cur G \<longleftrightarrow> full_group G \<longrightarrow> table ! hd (group_ids G) \<noteq> None \<longrightarrow>
     lcm_block_size c dvd cur \<and> (\<exists>n. found c hs G table n \<and> cur \<le> int n * group_size G)"

definition disjoint_groups :: "attention_group list \<Rightarrow> bool" where
  "disjoint_groups gs \<longleftrightarrow> distinct (concat (map group_ids gs))"

lemma round_spec:
  assumes ok: "pool_ok (c_pool c) xs"
  shows "\<forall>G \<in> set gs. group_wf c hs max_len (length table) G \<Longrightarrow> disjoint_groups gs \<Longrightarrow> 0 \<le> cur \<Longrightarrow> cur \<le> max_len \<Longrightarrow>
    \<forall>G \<in> set (tl gs). \<not> full_group G \<Longrightarrow> (gs \<noteq> [] \<Longrightarrow> reusable c hs table cur (hd gs)) \<Longrightarrow>
    \<exists>cur' table'. foldR (attention_group_step c hs) gs (cur, table) = Inr (cur', table')
      \<and> 0 \<le> cur' \<and> cur' \<le> cur \<and> length table' = length table \<and> (gs \<noteq> [] \<longrightarrow> lcm_block_size c dvd cur')
      \<and> (\<forall>g. g \<notin> set (concat (map group_ids gs)) \<longrightarrow> table' ! g = table ! g)
      \<and> (\<forall>G \<in> set gs. \<exists>n. found c hs G table' n \<and> cur' \<le> int n * group_size G
            \<and> (full_group G \<or> int n * group_size G \<le> cur))
      \<and> (gs \<noteq> [] \<longrightarrow> \<not> full_group (last gs) \<longrightarrow> (\<exists>n. found c hs (last gs) table' n \<and> int n * group_size (last gs) = cur'))"
proof (induction gs arbitrary: cur table)
  case Nil
  then show ?case by simp
next
  case (Cons G gs)
  have wf: "group_wf c hs max_len (length table) G" using Cons.prems(1) by simp
  have size: "0 < group_size G" using wf by (simp add: group_wf_def)
  obtain n cur1 t1 where one: "attention_group_step c hs G (cur, table) = Inr (cur1, t1)" "length t1 = length table"
    "found c hs G t1 n" "0 \<le> cur1" "cur1 \<le> cur" "lcm_block_size c dvd cur1" "cur1 \<le> int n * group_size G"
    "\<not> full_group G \<Longrightarrow> cur1 = int n * group_size G" "\<forall>g. g \<notin> set (group_ids G) \<longrightarrow> t1 ! g = table ! g"
  proof (cases "full_group G \<and> table ! hd (group_ids G) \<noteq> None")
    case True
    have "reusable c hs table cur G" using Cons.prems(6) by simp
    with True obtain n where n: "lcm_block_size c dvd cur" "found c hs G table n" "cur \<le> int n * group_size G"
      unfolding reusable_def by blast
    from that [OF group_step_reuse [OF wf _ _ n(1)] refl n(2) Cons.prems(3) order_refl n(1,3)] True
    show ?thesis by blast
  next
    case False
    then have "\<not> full_group G \<or> table ! hd (group_ids G) = None" by blast
    from group_step_search [OF ok wf Cons.prems(3,4) this] obtain n t1 where
      "attention_group_step c hs G (cur, table) = Inr (int n * group_size G, t1)" "length t1 = length table"
      "found c hs G t1 n" "\<forall>g. g \<notin> set (group_ids G) \<longrightarrow> t1 ! g = table ! g" "int n * group_size G \<le> cur"
      "lcm_block_size c dvd int n * group_size G" by blast
    with size show ?thesis by (intro that) auto
  qed
  have tl: "\<forall>G \<in> set gs. \<not> full_group G" using Cons.prems(5) by simp
  have "\<exists>cur' table'. foldR (attention_group_step c hs) gs (cur1, t1) = Inr (cur', table')
      \<and> 0 \<le> cur' \<and> cur' \<le> cur1 \<and> length table' = length t1 \<and> (gs \<noteq> [] \<longrightarrow> lcm_block_size c dvd cur')
      \<and> (\<forall>g. g \<notin> set (concat (map group_ids gs)) \<longrightarrow> table' ! g = t1 ! g)
      \<and> (\<forall>G \<in> set gs. \<exists>n. found c hs G table' n \<and> cur' \<le> int n * group_size G
            \<and> (full_group G \<or> int n * group_size G \<le> cur1))
      \<and> (gs \<noteq> [] \<longrightarrow> \<not> full_group (last gs) \<longrightarrow> (\<exists>n. found c hs (last gs) table' n \<and> int n * group_size (last gs) = cur'))"
  proof (rule Cons.IH)
    show "\<forall>G \<in> set gs. group_wf c hs max_len (length t1) G" using Cons.prems(1) one(2) by simp
    show "disjoint_groups gs" using Cons.prems(2) by (simp add: disjoint_groups_def)
    show "cur1 \<le> max_len" using one(5) Cons.prems(4) by linarith
    show "\<forall>G \<in> set (tl gs). \<not> full_group G" using tl by (cases gs) auto
    show "reusable c hs t1 cur1 (hd gs)" if "gs \<noteq> []" using tl that by (simp add: reusable_def)
  qed (rule one(4))
  then obtain cur' t' where rest: "foldR (attention_group_step c hs) gs (cur1, t1) = Inr (cur', t')"
    "0 \<le> cur'" "cur' \<le> cur1" "length t' = length t1" "gs \<noteq> [] \<longrightarrow> lcm_block_size c dvd cur'"
    "\<forall>g. g \<notin> set (concat (map group_ids gs)) \<longrightarrow> t' ! g = t1 ! g"
    "\<forall>G \<in> set gs. \<exists>n. found c hs G t' n \<and> cur' \<le> int n * group_size G \<and> (full_group G \<or> int n * group_size G \<le> cur1)"
    "gs \<noteq> [] \<longrightarrow> \<not> full_group (last gs) \<longrightarrow> (\<exists>n. found c hs (last gs) t' n \<and> int n * group_size (last gs) = cur')"
    by (elim exE conjE) (rule that)
  have "set (group_ids G) \<inter> set (concat (map group_ids gs)) = {}"
    using Cons.prems(2) by (simp add: disjoint_groups_def)
  then have "t' ! g = t1 ! g" if "g \<in> set (group_ids G)" for g
    using that rest(6) by blast
  then have keepG: "found c hs G t' n" using one(3) found_frame by blast
  have foldr: "foldR (attention_group_step c hs) (G # gs) (cur, table) = Inr (cur', t')"
    using one(1) rest(1) by simp
  have al: "lcm_block_size c dvd cur'"
  proof (cases "gs = []")
    case True
    with rest(1) one(6) show ?thesis by simp
  qed (use rest(5) in blast)
  have all: "\<exists>n. found c hs H t' n \<and> cur' \<le> int n * group_size H \<and> (full_group H \<or> int n * group_size H \<le> cur)"
    if "H \<in> set (G # gs)" for H
  proof (cases "H = G")
    case True
    have "cur' \<le> int n * group_size G" using one(7) rest(3) by linarith
    moreover have "full_group G \<or> int n * group_size G \<le> cur" using one(5,8) by (cases "full_group G") simp_all
    ultimately show ?thesis using keepG True by blast
  next
    case False
    then have "H \<in> set gs" using that by simp
    then obtain k where k: "found c hs H t' k" "cur' \<le> int k * group_size H" "full_group H \<or> int k * group_size H \<le> cur1"
      using rest(7) by blast
    then show ?thesis using one(5) by force
  qed
  have lst: "\<exists>n. found c hs (last (G # gs)) t' n \<and> int n * group_size (last (G # gs)) = cur'"
    if "\<not> full_group (last (G # gs))"
  proof (cases "gs = []")
    case True
    with that rest(1) one(8) keepG show ?thesis by auto
  next
    case False
    with that rest(8) show ?thesis by simp
  qed
  show ?case
    using foldr rest(2-4,6) one(2,5,9) al all lst
    by (intro exI [of _ cur'] exI [of _ t'] conjI) auto
qed

subsection \<open>The loop\<close>

text \<open>The table agrees with the final length: exactly, except for full attention, which may cover more.\<close>

definition agreed :: "coordinator \<Rightarrow> bytes list \<Rightarrow> hit_table \<Rightarrow> int \<Rightarrow> attention_group \<Rightarrow> bool" where
  "agreed c hs table len G \<longleftrightarrow> (\<exists>n. found c hs G table n \<and> len \<le> int n * group_size G
     \<and> (full_group G \<or> int n * group_size G = len))"

lemma hybrid_loop_spec:
  assumes ok: "pool_ok (c_pool c) xs" and ne: "attention_groups c \<noteq> []"
    and dis: "disjoint_groups (attention_groups c)" and full: "\<forall>G \<in> set (tl (attention_groups c)). \<not> full_group G"
  shows "\<forall>G \<in> set (attention_groups c). group_wf c hs max_len (length table) G \<Longrightarrow> 0 \<le> len \<Longrightarrow> len \<le> max_len \<Longrightarrow>
    reusable c hs table len (hd (attention_groups c)) \<Longrightarrow> nat len < fuel \<Longrightarrow>
    \<exists>len' table'. hybrid_loop fuel c hs len table = Inr (len', table') \<and> 0 \<le> len' \<and> len' \<le> len
      \<and> length table' = length table \<and> lcm_block_size c dvd len'
      \<and> (\<forall>G \<in> set (attention_groups c). agreed c hs table' len' G)"
proof (induction fuel arbitrary: len table)
  case 0
  then show ?case by simp
next
  case (Suc fuel)
  let ?gs = "attention_groups c"
  have "\<exists>cur table'. foldR (attention_group_step c hs) ?gs (len, table) = Inr (cur, table')
      \<and> 0 \<le> cur \<and> cur \<le> len \<and> length table' = length table \<and> (?gs \<noteq> [] \<longrightarrow> lcm_block_size c dvd cur)
      \<and> (\<forall>g. g \<notin> set (concat (map group_ids ?gs)) \<longrightarrow> table' ! g = table ! g)
      \<and> (\<forall>G \<in> set ?gs. \<exists>n. found c hs G table' n \<and> cur \<le> int n * group_size G
            \<and> (full_group G \<or> int n * group_size G \<le> len))
      \<and> (?gs \<noteq> [] \<longrightarrow> \<not> full_group (last ?gs) \<longrightarrow> (\<exists>n. found c hs (last ?gs) table' n \<and> int n * group_size (last ?gs) = cur))"
    by (rule round_spec [OF ok Suc.prems(1) dis Suc.prems(2,3) full Suc.prems(4)])
  then obtain cur t where rd: "foldR (attention_group_step c hs) ?gs (len, table) = Inr (cur, t)"
    "0 \<le> cur" "cur \<le> len" "length t = length table" "lcm_block_size c dvd cur"
    "\<forall>G \<in> set ?gs. \<exists>n. found c hs G t n \<and> cur \<le> int n * group_size G \<and> (full_group G \<or> int n * group_size G \<le> len)"
    "\<not> full_group (last ?gs) \<longrightarrow> (\<exists>n. found c hs (last ?gs) t n \<and> int n * group_size (last ?gs) = cur)"
    using ne by blast
  consider (same) "len \<le> cur" | (simple) "cur < len" "is_simple_hybrid ?gs" | (again) "cur < len" "\<not> is_simple_hybrid ?gs"
    by linarith
  then show ?case
  proof cases
    case same
    then have eq: "cur = len" using rd(3) by simp
    have "agreed c hs t len G" if "G \<in> set ?gs" for G
      using rd(6) that unfolding agreed_def eq by force
    with rd eq show ?thesis by simp
  next
    case simple
    then obtain A B where gs: "?gs = [A, B]" by (auto simp: is_simple_hybrid_def split: list.splits)
    have "\<not> full_group B" using full gs by simp
    then have "agreed c hs t cur B" using rd(7) gs by (auto simp: agreed_def)
    moreover have "agreed c hs t cur A"
    proof -
      have "full_group A" using simple(2) by (auto simp: gs is_simple_hybrid_def split: prod.splits)
      with rd(6) gs show ?thesis unfolding agreed_def by force
    qed
    ultimately show ?thesis using rd simple gs by simp
  next
    case again
    have "reusable c hs t cur (hd ?gs)"
      using rd(5,6) ne unfolding reusable_def by (meson list.set_sel(1))
    moreover have "nat cur < fuel" using again(1) Suc.prems(2,5) rd(2) by linarith
    moreover have "cur \<le> max_len" using rd(3) Suc.prems(3) by linarith
    ultimately obtain len' t' where "hybrid_loop fuel c hs cur t = Inr (len', t')" "0 \<le> len'" "len' \<le> cur"
      "length t' = length t" "lcm_block_size c dvd len'" "\<forall>G \<in> set ?gs. agreed c hs t' len' G"
      using Suc.IH [of t cur] Suc.prems(1) rd(2,4) by auto
    then show ?thesis using rd again by simp
  qed
qed

lemma truncate_nth:
  fixes gids :: "nat list" and k :: int
  assumes "distinct gids" "\<forall>g \<in> set gids. g < length table"
  shows "length (fold (\<lambda>g t. t[g := map_option (\<lambda>bs. slice_to bs k) (t ! g)]) gids table) = length table"
    and "fold (\<lambda>g t. t[g := map_option (\<lambda>bs. slice_to bs k) (t ! g)]) gids table ! g
      = (if g \<in> set gids then map_option (\<lambda>bs. slice_to bs k) (table ! g) else table ! g)"
proof -
  show "length (fold (\<lambda>g t. t[g := map_option (\<lambda>bs. slice_to bs k) (t ! g)]) gids table) = length table" for gids
    by (induction gids arbitrary: table) auto
  show "fold (\<lambda>g t. t[g := map_option (\<lambda>bs. slice_to bs k) (t ! g)]) gids table ! g
      = (if g \<in> set gids then map_option (\<lambda>bs. slice_to bs k) (table ! g) else table ! g)"
    using assms by (induction gids arbitrary: table) (auto simp: nth_list_update)
qed

text \<open>Cutting a full-attention hit down to the agreed length leaves a full-attention hit.\<close>

lemma found_truncated:
  assumes f: "found c hs G table n" and full: "full_group G" and b: "0 < group_size G"
    and len: "int k * group_size G \<le> int n * group_size G"
    and t: "\<And>g. g \<in> set (group_ids G) \<Longrightarrow> t ! g = map_option (\<lambda>bs. slice_to bs (int k)) (table ! g)"
  shows "found c hs G t k"
proof -
  have k: "k \<le> n" using len b by simp
  have sk: "skipped_by (spec_class_of (fst G)) x = 0" for x using full by (cases "spec_class_of (fst G)") auto
  have "hit_upto (c_pool c) (group_ids G) (group_hashes c hs G) n (\<lambda>l. (int l + 1) * group_size G > 0)
      (map (\<lambda>g. the (table ! g)) (group_ids G))"
    using f by (simp add: found_def sk)
  then have cut: "hit_upto (c_pool c) (group_ids G) (group_hashes c hs G) k (\<lambda>l. (int l + 1) * group_size G > 0)
      (map (take k) (map (\<lambda>g. the (table ! g)) (group_ids G)))"
    by (rule hit_upto_take [OF _ k])
  have eq: "map (take k) (map (\<lambda>g. the (table ! g)) (group_ids G)) = map (\<lambda>g. the (t ! g)) (group_ids G)"
    using f t by (auto simp: found_def)
  show ?thesis using f t cut unfolding eq by (auto simp: found_def sk)
qed

subsection \<open>The groups of an initialised coordinator\<close>

lemma groups_disjoint:
  assumes "distinct (map fst gs)" "\<forall>G \<in> set gs. distinct (group_ids G) \<and> (\<forall>i \<in> set (group_ids G). specs ! i = fst G)"
  shows "disjoint_groups gs"
  using assms
proof (induction gs)
  case Nil
  then show ?case by (simp add: disjoint_groups_def)
next
  case (Cons G gs)
  have "set (group_ids G) \<inter> set (group_ids H) = {}" if "H \<in> set gs" for H
    using Cons.prems that by force
  with Cons show ?case by (auto simp: disjoint_groups_def)
qed

text \<open>What the configuration has to offer: positive sizes, hashes for every size, one kind of full attention.\<close>

definition search_config :: "coordinator \<Rightarrow> bytes list \<Rightarrow> int \<Rightarrow> bool" where
  "search_config c hs max_len \<longleftrightarrow>
     length (kv_cache_groups (c_config c)) \<le> 2 ^ 32
     \<and> (\<forall>spec \<in> set (kv_cache_groups (c_config c)). 0 < spec_block_size spec
          \<and> hit_config (spec_class_of spec) (spec_block_size spec) (c_use_eagle c) (lcm_block_size c) 1 1
          \<and> (\<exists>hs'. spec_block_hashes hs spec c = Inr hs' \<and> max_len div spec_block_size spec \<le> int (length hs')))
     \<and> (\<forall>spec \<in> set (kv_cache_groups (c_config c)). \<forall>spec' \<in> set (kv_cache_groups (c_config c)).
          is_full_spec (spec_class_of spec) \<and> is_full_spec (spec_class_of spec') \<longrightarrow> spec = spec')"

lemma in_set_tl: "x \<in> set (tl xs) \<Longrightarrow> \<exists>y ys. xs = y # ys \<and> x \<in> set ys"
  by (cases xs) auto

lemma hybrid_groups:
  assumes init: "hybrid_init c0 = Inr c"
    and ms: "length (single_type_managers c0) = length (kv_cache_groups (c_config c0))"
      "\<forall>j < length (kv_cache_groups (c_config c0)). m_spec (single_type_managers c0 ! j) = kv_cache_groups (c_config c0) ! j"
    and conf: "search_config c hs max_len"
  shows "c_pool c = c_pool c0 \<and> c_config c = c_config c0 \<and> attention_groups c \<noteq> []
    \<and> disjoint_groups (attention_groups c) \<and> (\<forall>G \<in> set (tl (attention_groups c)). \<not> full_group G)
    \<and> (\<forall>G \<in> set (attention_groups c). group_wf c hs max_len (length (kv_cache_groups (c_config c))) G)
    \<and> (\<forall>g < length (kv_cache_groups (c_config c)).
          \<exists>G \<in> set (attention_groups c). g \<in> set (group_ids G) \<and> fst G = kv_cache_groups (c_config c) ! g)"
proof -
  let ?specs = "kv_cache_groups (c_config c0)" and ?key = "\<lambda>(spec, _, _). \<not> is_full_spec (spec_class_of spec)"
  have "groups_upto ?specs 0 []" by (simp add: groups_upto_def)
  from split_loop_spec [OF ms this] obtain gs where
    gs: "foldR (\<lambda>(i, spec) gs. bindR (py_nth (single_type_managers c0) (int i)) (\<lambda>m.
              add_to_attention_groups spec i (spec_manager_map (spec_class_of (m_spec m))) gs))
            (enumerate 0 ?specs) [] = Inr gs" "groups_upto ?specs (length ?specs) gs" by auto
  have c: "c = c0\<lparr>attention_groups := sort_key ?key gs,
                 lcm_block_size := fold lcm (map (\<lambda>(spec, _, _). spec_block_size spec) gs) 1\<rparr>" and two: "1 < length gs"
    using init gs(1) by (auto simp: hybrid_init_def verify_and_split_kv_cache_groups_def bindR_eq_Inr)
  let ?ag = "sort_key ?key gs"
  have ag: "attention_groups c = ?ag" "c_config c = c_config c0" by (simp_all add: c)
  have props: "group_ids G \<noteq> []" "distinct (group_ids G)" "group_cls G = spec_manager_map (spec_class_of (fst G))"
    "i \<in> set (group_ids G) \<longleftrightarrow> i < length ?specs \<and> ?specs ! i = fst G" if "G \<in> set gs" for G i
    using gs(2) that by (auto simp: groups_upto_def)
  have d: "distinct (map fst gs)" using gs(2) by (simp add: groups_upto_def)
  have dag: "distinct (map fst ?ag)"
    using d mset_eq_imp_distinct_iff [of "map fst ?ag" "map fst gs"] by simp
  have dis: "disjoint_groups ?ag" by (rule groups_disjoint [OF dag, of ?specs]) (use props in auto)
  have in_specs: "fst G \<in> set ?specs" if "G \<in> set gs" for G
    using props(1,4) [OF that] by (metis nth_mem list.set_intros(1) neq_Nil_conv)
  have "group_wf c hs max_len (length ?specs) G" if G: "G \<in> set gs" for G
  proof -
    have "(\<lambda>(spec, _, _). spec_block_size spec) G \<in> set (map (\<lambda>(spec, _, _). spec_block_size spec) gs)"
      using G by auto
    from fold_lcm_dvd(2) [OF this, of 1] have "group_size G dvd lcm_block_size c"
      by (cases G) (simp add: c)
    moreover have "\<forall>g \<in> set (group_ids G). g < length ?specs \<and> g < 2 ^ 32"
      using props(4) [OF G] conf ag(2) by (auto simp: search_config_def)
    ultimately show ?thesis
      using conf in_specs [OF G] props(1-3) [OF G] ag(2) unfolding group_wf_def search_config_def by auto
  qed
  moreover have "\<not> full_group G" if tlG: "G \<in> set (tl ?ag)" for G
  proof
    assume full: "full_group G"
    obtain H T where HT: "?ag = H # T" and GT: "G \<in> set T" using in_set_tl [OF tlG] by blast
    have "sorted (map ?key (H # T))" using sorted_sort_key [of ?key gs] unfolding HT .
    then have "?key H \<le> ?key G" using GT by auto
    then have "full_group H" using full by (cases H; cases G) auto
    moreover have mem: "H \<in> set gs" "G \<in> set gs"
    proof -
      have "set (H # T) = set gs" using set_sort [of ?key gs] unfolding HT .
      then show "H \<in> set gs" "G \<in> set gs" using GT by auto
    qed
    moreover have "\<forall>spec \<in> set ?specs. \<forall>spec' \<in> set ?specs.
          is_full_spec (spec_class_of spec) \<and> is_full_spec (spec_class_of spec') \<longrightarrow> spec = spec'"
      using conf unfolding search_config_def ag(2) by (elim conjE)
    ultimately have "fst H = fst G" using full in_specs [OF mem(1)] in_specs [OF mem(2)] by simp
    moreover have "fst G \<in> fst ` set T" using GT by (rule imageI)
    ultimately show False using dag unfolding HT by simp
  qed
  moreover have "\<exists>G \<in> set gs. g \<in> set (group_ids G) \<and> fst G = ?specs ! g" if g: "g < length ?specs" for g
  proof -
    have "?specs ! g \<in> fst ` set gs" using gs(2) g by (simp add: groups_upto_def)
    then obtain G where "G \<in> set gs" "fst G = ?specs ! g" by force
    then show ?thesis using props(4) [of G g] g by auto
  qed
  moreover have "length ?ag = length gs" "c_pool c = c_pool c0" by (simp_all add: c)
  then have "?ag \<noteq> []" using two by (metis length_0_conv not_less_zero)
  ultimately show ?thesis using dis \<open>c_pool c = c_pool c0\<close> unfolding ag set_sort by blast
qed

lemma hybrid_find_spec:
  assumes init: "hybrid_init c0 = Inr c"
    and ms: "length (single_type_managers c0) = length (kv_cache_groups (c_config c0))"
      "\<forall>j < length (kv_cache_groups (c_config c0)). m_spec (single_type_managers c0 ! j) = kv_cache_groups (c_config c0) ! j"
    and conf: "search_config c hs max_len" and ok: "pool_ok (c_pool c) xs" and len: "0 \<le> max_len"
  shows "\<exists>table len. hybrid_find_longest_cache_hit hs max_len c
        = Inr (map (\<lambda>bs. case bs of None \<Rightarrow> [] | Some bs \<Rightarrow> bs) table, len)
    \<and> 0 \<le> len \<and> len \<le> max_len \<and> lcm_block_size c dvd len
    \<and> length table = length (kv_cache_groups (c_config c))
    \<and> (\<forall>G \<in> set (attention_groups c). \<exists>n. found c hs G table n \<and> int n * group_size G = len)"
proof -
  let ?specs = "kv_cache_groups (c_config c)" and ?gs = "attention_groups c"
  have gs: "?gs \<noteq> []" "disjoint_groups ?gs" "\<forall>G \<in> set (tl ?gs). \<not> full_group G"
    "\<forall>G \<in> set ?gs. group_wf c hs max_len (length ?specs) G"
    using hybrid_groups [OF init ms conf] by blast+
  let ?t0 = "replicate (length ?specs) None :: hit_table"
  obtain g0 rest where g0: "?gs = g0 # rest" using gs(1) by (cases ?gs) auto
  have wf0: "group_wf c hs max_len (length ?specs) g0" using gs(4) g0 by simp
  have "hd (group_ids g0) < length ?specs" using wf0 by (auto simp: group_wf_def)
  then have "reusable c hs ?t0 max_len (hd ?gs)" by (simp add: reusable_def g0)
  moreover have "\<forall>G \<in> set ?gs. group_wf c hs max_len (length ?t0) G" using gs(4) by simp
  ultimately obtain len t where loop: "hybrid_loop (nat max_len + 2) c hs max_len ?t0 = Inr (len, t)" "0 \<le> len"
    "len \<le> max_len" "length t = length ?t0" "lcm_block_size c dvd len" "\<forall>G \<in> set ?gs. agreed c hs t len G"
    using hybrid_loop_spec [OF ok gs(1-3), of hs max_len ?t0 max_len "nat max_len + 2"] len by auto
  have size: "0 < group_size G" "group_size G dvd len" if "G \<in> set ?gs" for G
    using gs(4) that loop(5) by (auto simp: group_wf_def intro: dvd_trans)
  define table where "table = truncate_first_group g0 len t"
  have d: "distinct (group_ids g0)" "\<forall>g \<in> set (group_ids g0). g < length t"
    using wf0 loop(4) by (simp_all add: group_wf_def)
  have tlen: "length table = length ?specs"
    using truncate_nth(1) [OF d] loop(4) by (cases g0) (simp add: table_def truncate_first_group_def)
  have tg0: "table ! g = (if full_group g0 \<and> g \<in> set (group_ids g0)
      then map_option (\<lambda>bs. slice_to bs (len div group_size g0)) (t ! g) else t ! g)" for g
    using truncate_nth(2) [OF d] by (cases g0) (simp add: table_def truncate_first_group_def)
  have "\<exists>n. found c hs G table n \<and> int n * group_size G = len" if G: "G \<in> set ?gs" for G
  proof (cases "full_group G")
    case False
    have "table ! g = t ! g" if "g \<in> set (group_ids G)" for g
    proof -
      have "g \<notin> set (group_ids g0)" if "full_group g0"
        using \<open>g \<in> set (group_ids G)\<close> G gs(2) False that g0 by (auto simp: disjoint_groups_def)
      then show ?thesis by (auto simp: tg0)
    qed
    moreover obtain n where "found c hs G t n" "int n * group_size G = len"
      using loop(6) G False unfolding agreed_def by blast
    ultimately show ?thesis using found_frame by blast
  next
    case True
    then have "G = g0" using G gs(3) g0 by auto
    obtain n where n: "found c hs G t n" "len \<le> int n * group_size G"
      using loop(6) G unfolding agreed_def by blast
    define k where "k = nat (len div group_size G)"
    have k: "int k * group_size G = len" "int k = len div group_size G"
      using size [OF G] loop(2) by (simp_all add: k_def pos_imp_zdiv_nonneg_iff)
    have "found c hs G table k"
      using n(1) True size(1) [OF G] by (rule found_truncated) (use n(2) k True \<open>G = g0\<close> tg0 in simp_all)
    with k show ?thesis by blast
  qed
  moreover have "hybrid_find_longest_cache_hit hs max_len c
      = Inr (map (\<lambda>bs. case bs of None \<Rightarrow> [] | Some bs \<Rightarrow> bs) table, len)"
    using loop(1) by (simp add: hybrid_find_longest_cache_hit_def g0 table_def)
  ultimately show ?thesis using loop(2,3,5) tlen by blast
qed

subsection \<open>Properties\<close>

lemma hybrid_agreed:
  assumes init: "hybrid_init c0 = Inr c"
    and ms: "length (single_type_managers c0) = length (kv_cache_groups (c_config c0))"
      "\<forall>j < length (kv_cache_groups (c_config c0)). m_spec (single_type_managers c0 ! j) = kv_cache_groups (c_config c0) ! j"
    and conf: "search_config c hs max_len" and ok: "pool_ok (c_pool c) xs" and len: "0 \<le> max_len"
  shows "\<exists>blks len. hybrid_find_longest_cache_hit hs max_len c = Inr (blks, len)
    \<and> 0 \<le> len \<and> len \<le> max_len \<and> length blks = length (kv_cache_groups (c_config c))
    \<and> (\<forall>g < length (kv_cache_groups (c_config c)). \<forall>spec. spec = kv_cache_groups (c_config c) ! g \<longrightarrow>
          int (length (blks ! g)) * spec_block_size spec = len
          \<and> (\<forall>l < length (blks ! g). \<exists>hs'. spec_block_hashes hs spec c = Inr hs'
              \<and> (key_ok (c_pool c) (hs' ! l) g (blks ! g ! l)
                 \<or> ((int l + 1) * spec_block_size spec \<le> skipped_by (spec_class_of spec) len
                    \<and> blks ! g ! l = null_block (c_pool c)))))"
proof -
  obtain table len where t: "hybrid_find_longest_cache_hit hs max_len c
        = Inr (map (\<lambda>bs. case bs of None \<Rightarrow> [] | Some bs \<Rightarrow> bs) table, len)"
    "0 \<le> len" "len \<le> max_len" "length table = length (kv_cache_groups (c_config c))"
    "\<forall>G \<in> set (attention_groups c). \<exists>n. found c hs G table n \<and> int n * group_size G = len"
    using hybrid_find_spec [OF init ms conf ok len] by blast
  let ?blks = "map (\<lambda>bs. case bs of None \<Rightarrow> [] | Some bs \<Rightarrow> bs) table"
  have null: "null_block (c_pool c) = Blk 0" using ok by (simp add: pool_part_def)
  have "int (length (?blks ! g)) * spec_block_size spec = len
      \<and> (\<forall>l < length (?blks ! g). \<exists>hs'. spec_block_hashes hs spec c = Inr hs'
           \<and> (key_ok (c_pool c) (hs' ! l) g (?blks ! g ! l)
              \<or> ((int l + 1) * spec_block_size spec \<le> skipped_by (spec_class_of spec) len \<and> ?blks ! g ! l = Blk 0)))"
    if g: "g < length (kv_cache_groups (c_config c))" and spec: "spec = kv_cache_groups (c_config c) ! g" for g spec
  proof -
    obtain G where G: "G \<in> set (attention_groups c)" "g \<in> set (group_ids G)" "fst G = spec"
      using hybrid_groups [OF init ms conf] g spec by blast
    obtain n where n: "found c hs G table n" "int n * group_size G = len" using t(5) G(1) by blast
    obtain hs' where hs': "spec_block_hashes hs spec c = Inr hs'"
      using conf nth_mem [OF g] spec unfolding search_config_def by blast
    obtain j where j: "j < length (group_ids G)" "group_ids G ! j = g" using G(2) by (auto simp: in_set_conv_nth)
    have some: "the (table ! g) = ?blks ! g" using n(1) G(2) g t(4) by (force simp: found_def)
    have each: "length (the (table ! (group_ids G ! j))) = n
        \<and> (\<forall>l < n. key_ok (c_pool c) (hs' ! l) (group_ids G ! j) (the (table ! (group_ids G ! j)) ! l)
            \<or> (\<not> (int l + 1) * spec_block_size spec > skipped_by (spec_class_of spec) (int n * spec_block_size spec)
               \<and> the (table ! (group_ids G ! j)) ! l = Blk 0))"
      using n(1) j(1) hs' G(3) by (simp add: found_def hit_upto_def group_hashes_def)
    have "length (?blks ! g) = n \<and> (\<forall>l < n. key_ok (c_pool c) (hs' ! l) g (?blks ! g ! l)
        \<or> (\<not> (int l + 1) * spec_block_size spec > skipped_by (spec_class_of spec) len \<and> ?blks ! g ! l = Blk 0))"
      using each n(2) G(3) unfolding j(2) some by simp
    then show ?thesis using n(2) G(3) hs' by (auto simp: not_less)
  qed
  then show ?thesis
    using t(1-4) unfolding null by (intro exI [of _ ?blks] exI [of _ len]) simp
qed

text \<open>
  C22: The hybrid search ends and all groups agree. Whatever the cached contents, for specs of at most
  one kind of full attention the fixed-point loop returns a length within the limit that is a
  multiple of every group's block size, and for each group exactly that many tokens' worth of
  blocks, each cached under the hash of its position in its group, or the null block where the
  group's attention has already skipped the block.
\<close>

theorem hybrid_hit_agreed:
  assumes init: "hybrid_init c0 = Inr c"
    and ms: "length (single_type_managers c0) = length (kv_cache_groups (c_config c0))"
      "\<forall>j < length (kv_cache_groups (c_config c0)). m_spec (single_type_managers c0 ! j) = kv_cache_groups (c_config c0) ! j"
    and conf: "search_config c hs max_len" and ok: "pool_ok (c_pool c) xs" and len: "0 \<le> max_len"
  shows "\<exists>blks len. hybrid_find_longest_cache_hit hs max_len c = Inr (blks, len)
    \<and> 0 \<le> len \<and> len \<le> max_len \<and> length blks = length (kv_cache_groups (c_config c))
    \<and> (\<forall>g < length (kv_cache_groups (c_config c)). \<forall>spec. spec = kv_cache_groups (c_config c) ! g \<longrightarrow>
          int (length (blks ! g)) * spec_block_size spec = len
          \<and> (\<forall>l < length (blks ! g). \<exists>hs'. spec_block_hashes hs spec c = Inr hs'
              \<and> (key_ok (c_pool c) (hs' ! l) g (blks ! g ! l)
                 \<or> ((int l + 1) * spec_block_size spec \<le> skipped_by (spec_class_of spec) len
                    \<and> blks ! g ! l = null_block (c_pool c)))))"
  by (rule hybrid_agreed [OF assms])

text \<open>Lookups in a pool where a key has one holder, or none.\<close>

lemma lookup_unique:
  assumes ok: "pool_ok p xs" and g: "g < 2 ^ 32"
  shows "(\<And>b'. key_ok p h g b' \<longleftrightarrow> b' = b) \<Longrightarrow> lookup_hit p [g] h = Inr (Some [b])"
    and "(\<And>b'. \<not> key_ok p h g b') \<Longrightarrow> lookup_hit p [g] h = Inr None"
proof -
  have g': "\<forall>g \<in> set [g]. g < 2 ^ 32" using g by simp
  obtain res where res: "lookup_hit p [g] h = Inr res" "res \<noteq> None \<longleftrightarrow> all_cached p [g] h"
    "\<forall>bs. res = Some bs \<longrightarrow> length bs = length [g] \<and> (\<forall>j < length [g]. key_ok p h ([g] ! j) (bs ! j))"
    using lookup_hit_spec [OF ok g', of h] by blast
  show "lookup_hit p [g] h = Inr (Some [b])" if "\<And>b'. key_ok p h g b' \<longleftrightarrow> b' = b"
    using res that by (auto simp: all_cached_def length_Suc_conv)
  show "lookup_hit p [g] h = Inr None" if "\<And>b'. \<not> key_ok p h g b'"
    using res that by (auto simp: all_cached_def)
qed

lemma key_ok_inj: "key_ok p h g b \<Longrightarrow> key_ok p h' g' b \<Longrightarrow> h = h' \<and> g = g'"
  using make_block_hash_inject by (auto simp: key_ok_def)

text \<open>A pool whose blocks 1, 2, ... are in use and cached under the given hashes and groups.\<close>

lemma example_pool_with:
  assumes "\<forall>(h, g) \<in> set es. g < 2 ^ 32" "length es \<le> n"
  shows "\<exists>p. pool_ok p [] \<and> enable_caching p \<and> hash_block_size p = 16 \<and> blocks p = map Blk [0..<Suc n]
    \<and> (\<forall>b. hash_of p b \<noteq> None \<longrightarrow> (\<exists>i < length es. b = Blk (Suc i)))
    \<and> (\<forall>h g b. key_ok p h g b \<longleftrightarrow> (\<exists>i < length es. b = Blk (Suc i) \<and> es ! i = (h, g)))"
  using assms
proof (induction es rule: rev_induct)
  case Nil
  obtain p0 where p0: "pool_ok p0 (map Blk [1..<nat (int n + 1)])" "enable_caching p0" "hash_block_size p0 = 16"
    "\<forall>b. hash_of p0 b = None" "num_gpu_blocks p0 = int n + 1"
    using block_pool_init_spec [of "int n + 1" True 16 False False None] by auto
  have "length (map Blk [1..<nat (int n + 1)]) = n" by simp
  then obtain p where "pool_ok p []" "same_config p0 p" "\<forall>b. hash_of p b = None"
    using get_new_blocks_spec [OF p0(1), of n] p0(4) by auto
  moreover have "blocks p0 = map Blk [0..<Suc n]" using p0(1,5) by (simp add: pool_part_def nat_add_distrib)
  ultimately show ?case using p0(2,3) by (intro exI [of _ p]) (auto simp: same_config_def key_ok_def)
next
  case (snoc e es)
  obtain h g where e: "e = (h, g)" by (cases e)
  have g: "g < 2 ^ 32" using snoc.prems(1) e by auto
  obtain p where p: "pool_ok p []" "enable_caching p" "hash_block_size p = 16" "blocks p = map Blk [0..<Suc n]"
    "\<forall>b. hash_of p b \<noteq> None \<longrightarrow> (\<exists>i < length es. b = Blk (Suc i))"
    "\<forall>h g b. key_ok p h g b \<longleftrightarrow> (\<exists>i < length es. b = Blk (Suc i) \<and> es ! i = (h, g))"
    using snoc by auto
  let ?b = "Blk (Suc (length es))"
  have "?b \<in> set (blocks p)" using snoc.prems(2) p(4) by (auto simp del: upt_Suc)
  moreover have "hash_of p ?b = None" using p(5) by force
  ultimately obtain q where q: "pool_ok q []" "same_config p q" "key_ok q h g ?b" "\<forall>b'. b' \<noteq> ?b \<longrightarrow> hash_of q b' = hash_of p b'"
    using example_store [OF p(1,3) _ _ _ g, of ?b h] by auto
  have "key_ok q h' g' b \<longleftrightarrow> (\<exists>i < length (es @ [e]). b = Blk (Suc i) \<and> (es @ [e]) ! i = (h', g'))" for h' g' b
  proof (cases "b = ?b")
    case True
    then show ?thesis using q(3) key_ok_inj [OF q(3), of h' g'] by (auto simp: nth_append e less_Suc_eq)
  next
    case False
    then have "key_ok q h' g' b \<longleftrightarrow> key_ok p h' g' b" using q(4) by (simp add: key_ok_def)
    with False p(6) show ?thesis by (auto simp: nth_append less_Suc_eq)
  qed
  moreover have "\<forall>b. hash_of q b \<noteq> None \<longrightarrow> (\<exists>i < length (es @ [e]). b = Blk (Suc i))"
    using p(5) q(4) by (metis length_append_singleton lessI less_SucI)
  ultimately show ?case
    using q(1,2) p(2-4) by (intro exI [of _ q]) (auto simp: same_config_def)
qed

definition example_hybrid :: "spec_class list \<Rightarrow> block_pool \<Rightarrow> coordinator" where
  "example_hybrid cs p = (two_groups p)
     \<lparr>c_config := example_config cs,
      single_type_managers := map (\<lambda>(i, cls). (example_manager cls)\<lparr>kv_cache_group_id := i\<rparr>) (enumerate 0 cs)\<rparr>"

lemma hybrid_init_FS:
  "hybrid_init (example_hybrid [FullAttentionSpec, SlidingWindowSpec 17] p)
   = Inr ((example_hybrid [FullAttentionSpec, SlidingWindowSpec 17] p)
       \<lparr>attention_groups := [(m_spec (example_manager FullAttentionSpec), [0], FullAttentionManager),
                            (m_spec (example_manager (SlidingWindowSpec 17)), [1], SlidingWindowManager)],
        lcm_block_size := 16\<rparr>)"
  by (simp add: hybrid_init_def verify_and_split_kv_cache_groups_def example_hybrid_def two_groups_def
      example_config_def example_manager_def)

theorem hybrid_hit_agreed_witness:
  "\<exists>p c blks len. key_ok p [1] 0 (Blk 1) \<and> key_ok p [1] 1 (Blk 2) \<and> key_ok p [2] 0 (Blk 3)
     \<and> hybrid_init (example_hybrid [FullAttentionSpec, SlidingWindowSpec 17] p) = Inr c
     \<and> hybrid_find_longest_cache_hit [[1], [2]] 32 c = Inr (blks, len)
     \<and> int (length (blks ! 0)) * 16 = len \<and> int (length (blks ! 1)) * 16 = len \<and> len \<le> 32"
proof -
  obtain p where p: "pool_ok p []"
    "\<forall>h g b. key_ok p h g b \<longleftrightarrow> (\<exists>i < 3. b = Blk (Suc i) \<and> [([1], 0), ([1], 1), ([2], 0)] ! i = (h, g))"
    using example_pool_with [of "[([1], 0), ([1], 1), ([2], 0)]" 3] by (auto simp: numeral_3_eq_3)
  let ?c0 = "example_hybrid [FullAttentionSpec, SlidingWindowSpec 17] p"
  obtain c where c: "hybrid_init ?c0 = Inr c" "c_pool c = p" "c_config c = c_config ?c0" "lcm_block_size c = 16"
    "c_use_eagle c = False" "c_hash_block_size c = 16"
    using hybrid_init_FS [of p] by (simp add: example_hybrid_def two_groups_def)
  have specs: "kv_cache_groups (c_config ?c0)
      = [m_spec (example_manager FullAttentionSpec), m_spec (example_manager (SlidingWindowSpec 17))]"
    by (simp add: example_hybrid_def example_config_def example_manager_def)
  have sc: "search_config c [[1], [2]] 32"
    by (simp add: search_config_def c specs spec_block_hashes_def example_manager_def)
  have ms: "length (single_type_managers ?c0) = length (kv_cache_groups (c_config ?c0))"
    "\<forall>j < length (kv_cache_groups (c_config ?c0)). m_spec (single_type_managers ?c0 ! j) = kv_cache_groups (c_config ?c0) ! j"
    by (simp_all add: specs) (simp_all add: example_hybrid_def example_manager_def less_Suc_eq)
  obtain blks len where r: "hybrid_find_longest_cache_hit [[1], [2]] 32 c = Inr (blks, len)" "len \<le> 32"
    and g: "\<forall>g < length (kv_cache_groups (c_config c)). \<forall>spec. spec = kv_cache_groups (c_config c) ! g \<longrightarrow>
          int (length (blks ! g)) * spec_block_size spec = len"
    using hybrid_hit_agreed [OF c(1) ms sc, of "[]"] p(1) c(2) by auto
  have "int (length (blks ! 0)) * 16 = len" "int (length (blks ! 1)) * 16 = len"
    using g unfolding c(3) specs by (simp_all add: example_manager_def less_Suc_eq all_conj_distrib)
  moreover have "key_ok p [1] 0 (Blk 1)" "key_ok p [1] 1 (Blk 2)" "key_ok p [2] 0 (Blk 3)"
    using p(2) by (auto intro!: exI [of _ 0] exI [of _ "Suc 0"] exI [of _ "2::nat"])
  ultimately show ?thesis using c(1) r by blast
qed

text \<open>
  With two kinds of full attention next to another kind, the groups need not agree. Only the
  first attention group is cut down to the final length, so the second full-attention group keeps
  the blocks of an earlier, longer candidate: here it is handed two blocks, 32 tokens, for a hit of
  16 tokens.
\<close>

theorem second_full_group_not_truncated:
  "\<exists>p c. pool_ok p []
     \<and> hybrid_init (example_hybrid [FullAttentionSpec, MLAAttentionSpec, SlidingWindowSpec 17] p) = Inr c
     \<and> hybrid_find_longest_cache_hit [[1], [2]] 32 c = Inr ([[Blk 1], [Blk 3, Blk 4], [Blk 5]], 16)"
proof -
  let ?es = "[([1], 0), ([2], 0), ([1], 1), ([2], 1), ([1], 2)]"
  let ?spec = "\<lambda>cls. m_spec (example_manager cls)"
  have len: "length ?es = 5" by simp
  obtain p where p: "pool_ok p []"
    "\<forall>h g b. key_ok p h g b \<longleftrightarrow> (\<exists>i < 5. b = Blk (Suc i) \<and> ?es ! i = (h, g))"
    using example_pool_with [of ?es 5, unfolded len] by auto
  have five: "(\<exists>i < 5. P i) \<longleftrightarrow> P 0 \<or> P 1 \<or> P 2 \<or> P 3 \<or> P (4::nat)" for P
    by (auto simp: numeral_eq_Suc less_Suc_eq)
  have key: "key_ok p h g b \<longleftrightarrow> (b = Blk 1 \<and> h = [1] \<and> g = 0) \<or> (b = Blk 2 \<and> h = [2] \<and> g = 0)
      \<or> (b = Blk 3 \<and> h = [1] \<and> g = 1) \<or> (b = Blk 4 \<and> h = [2] \<and> g = 1) \<or> (b = Blk 5 \<and> h = [1] \<and> g = 2)" for h g b
    unfolding p(2) [rule_format] five by auto
  have look: "lookup_hit p [0] [1] = Inr (Some [Blk 1])" "lookup_hit p [0] [2] = Inr (Some [Blk 2])"
    "lookup_hit p [1] [1] = Inr (Some [Blk 3])" "lookup_hit p [1] [2] = Inr (Some [Blk 4])"
    "lookup_hit p [2] [1] = Inr (Some [Blk 5])"
    by (rule lookup_unique(1) [OF p(1)], simp, simp add: key)+
  have miss: "lookup_hit p [2] [2] = Inr None"
    by (rule lookup_unique(2) [OF p(1)]) (simp_all add: key)
  define c where "c = (example_hybrid [FullAttentionSpec, MLAAttentionSpec, SlidingWindowSpec 17] p)
       \<lparr>attention_groups := [(?spec FullAttentionSpec, [0], FullAttentionManager),
           (?spec MLAAttentionSpec, [1], FullAttentionManager),
           (?spec (SlidingWindowSpec 17), [2], SlidingWindowManager)], lcm_block_size := 16\<rparr>"
  have init: "hybrid_init (example_hybrid [FullAttentionSpec, MLAAttentionSpec, SlidingWindowSpec 17] p) = Inr c"
    by (simp add: hybrid_init_def verify_and_split_kv_cache_groups_def example_hybrid_def two_groups_def
      example_config_def example_manager_def c_def)
  have null: "null_block p = Blk 0" using p(1) by (simp add: pool_part_def)
  have conf: "c_pool c = p" "c_use_eagle c = False" "lcm_block_size c = 16" "c_hash_block_size c = 16"
    "length (kv_cache_groups (c_config c)) = 3" "attention_groups c = [(?spec FullAttentionSpec, [0], FullAttentionManager),
           (?spec MLAAttentionSpec, [1], FullAttentionManager),
           (?spec (SlidingWindowSpec 17), [2], SlidingWindowManager)]"
    by (simp_all add: c_def example_hybrid_def two_groups_def example_config_def)
  have sp: "spec_block_size (?spec cls) = 16" "spec_class_of (?spec cls) = cls" for cls
    by (simp_all add: example_manager_def)
  note search = attention_group_step_def conf sp spec_block_hashes_def find_longest_cache_hit_def
    full_find_longest_cache_hit_def window_find_longest_cache_hit_def look [unfolded numeral_2_eq_2 One_nat_def]
    miss [unfolded numeral_2_eq_2] Let_def append_hit_def store_hits_def null
    cdiv_def numeral_2_eq_2
  have one: "foldR (attention_group_step c [[1], [2]]) (attention_groups c) (32, [None, None, None])
      = Inr (16, [Some [Blk 1, Blk 2], Some [Blk 3, Blk 4], Some [Blk 5]])"
    by (simp add: search)
  have two: "foldR (attention_group_step c [[1], [2]]) (attention_groups c)
      (16, [Some [Blk 1, Blk 2], Some [Blk 3, Blk 4], Some [Blk 5]])
      = Inr (16, [Some [Blk 1, Blk 2], Some [Blk 3, Blk 4], Some [Blk 5]])"
    by (simp add: search)
  have loop: "hybrid_loop (Suc (Suc n)) c [[1], [2]] 32 [None, None, None]
      = Inr (16, [Some [Blk 1, Blk 2], Some [Blk 3, Blk 4], Some [Blk 5]])" for n
    using one two by (simp add: is_simple_hybrid_def conf)
  have "hybrid_find_longest_cache_hit [[1], [2]] 32 c = Inr ([[Blk 1], [Blk 3, Blk 4], [Blk 5]], 16)"
    using loop [of 32] by (simp add: hybrid_find_longest_cache_hit_def truncate_first_group_def conf sp numeral_3_eq_3)
  with p(1) init show ?thesis by blast
qed

text \<open>The groups depend on the managers' specs only, so a coordinator in use is as good as a fresh one.\<close>

lemma bind_nth_spec: "bindR (py_nth ms i) (\<lambda>m. f (m_spec m)) = bindR (py_nth (map m_spec ms) i) f"
  by (auto simp: py_nth_def)

lemma hybrid_init_frame:
  assumes "hybrid_init c0 = Inr c" "map m_spec ms = map m_spec (single_type_managers c0)"
  shows "hybrid_init (c0\<lparr>single_type_managers := ms, c_pool := p\<rparr>) = Inr (c\<lparr>single_type_managers := ms, c_pool := p\<rparr>)"
  using assms
  unfolding hybrid_init_def verify_and_split_kv_cache_groups_def bind_nth_spec [where f = "\<lambda>s. add_to_attention_groups _ _ (spec_manager_map (spec_class_of s)) _"]
  by (auto simp: bindR_eq_Inr)

end
