(* ===== verification/Cache_Stats.thy ===== *)
theory Cache_Stats
  imports Prelude
begin

text \<open>
  The cache statistics of \<open>vllm/v1/metrics/stats.py\<close>: what the cache manager records per step, the
  sliding window of the most recent requests from which the hit rate is computed, and the breakdown
  of prompt tokens by source.
\<close>

subsection \<open>Recorded statistics\<close>

record cache_stats =
  stats_reset :: bool
  requests :: int
  queries :: int
  hits :: int

record prefix_cache_stats = cache_stats +
  preempted_requests :: int
  preempted_queries :: int
  preempted_hits :: int

definition new_prefix_cache_stats :: prefix_cache_stats where
  "new_prefix_cache_stats =
     \<lparr>stats_reset = False, requests = 0, queries = 0, hits = 0,
      preempted_requests = 0, preempted_queries = 0, preempted_hits = 0\<rparr>"

definition record_stats :: "int \<Rightarrow> int \<Rightarrow> bool \<Rightarrow> prefix_cache_stats \<Rightarrow> prefix_cache_stats" where
  "record_stats num_toks num_hits preempted s =
     (if preempted
      then s\<lparr>preempted_requests := preempted_requests s + 1,
             preempted_queries := preempted_queries s + num_toks,
             preempted_hits := preempted_hits s + num_hits\<rparr>
      else s\<lparr>requests := requests s + 1, queries := queries s + num_toks, hits := hits s + num_hits\<rparr>)"

definition mm_record_stats :: "int \<Rightarrow> int \<Rightarrow> cache_stats \<Rightarrow> cache_stats" where
  "mm_record_stats num_queries num_hits s =
     s\<lparr>requests := requests s + 1, queries := queries s + num_queries, hits := hits s + num_hits\<rparr>"

subsection \<open>The hit rate of the most recent requests\<close>

record caching_metrics =
  max_recent_requests :: int
  aggregated_requests :: int
  aggregated_query_total :: int
  aggregated_query_hit :: int
  query_queue :: "(int \<times> int \<times> int) list"

definition caching_metrics_init :: "int \<Rightarrow> caching_metrics" where
  "caching_metrics_init limit =
     \<lparr>max_recent_requests = limit, aggregated_requests = 0, aggregated_query_total = 0,
      aggregated_query_hit = 0, query_queue = []\<rparr>"

definition caching_metrics_reset :: "caching_metrics \<Rightarrow> caching_metrics" where
  "caching_metrics_reset m = m\<lparr>aggregated_requests := 0, aggregated_query_total := 0, aggregated_query_hit := 0,
                       query_queue := []\<rparr>"

text \<open>The loop that drops the oldest entries; every round takes one entry off the queue.\<close>

function drop_oldest :: "caching_metrics \<Rightarrow> caching_metrics" where
  "drop_oldest m =
     (if length (query_queue m) > 1 \<and> aggregated_requests m > max_recent_requests m
      then (case query_queue m of
              [] \<Rightarrow> m
            | (r, q, h) # rest \<Rightarrow>
                drop_oldest (m\<lparr>query_queue := rest, aggregated_requests := aggregated_requests m - r,
                               aggregated_query_total := aggregated_query_total m - q,
                               aggregated_query_hit := aggregated_query_hit m - h\<rparr>))
      else m)"
  by auto
termination by (relation "measure (\<lambda>m. length (query_queue m))") auto

declare drop_oldest.simps [simp del]

definition observe :: "cache_stats \<Rightarrow> caching_metrics \<Rightarrow> caching_metrics" where
  "observe s m0 =
     (let m = (if stats_reset s then caching_metrics_reset m0 else m0)
      in if requests s = 0 then m
         else drop_oldest
                (m\<lparr>query_queue := query_queue m @ [(requests s, queries s, hits s)],
                   aggregated_requests := aggregated_requests m + requests s,
                   aggregated_query_total := aggregated_query_total m + queries s,
                   aggregated_query_hit := aggregated_query_hit m + hits s\<rparr>))"

definition metrics_empty :: "caching_metrics \<Rightarrow> bool" where
  "metrics_empty m = (aggregated_requests m = 0)"

text \<open>\<open>hit_rate\<close> as a fraction; \<open>None\<close> is the early return of 0.\<close>

definition hit_rate :: "caching_metrics \<Rightarrow> (int \<times> int) option" where
  "hit_rate m = (if aggregated_query_total m = 0 then None
                 else Some (aggregated_query_hit m, aggregated_query_total m))"

subsection \<open>Prompt tokens by source\<close>

record prompt_token_stats =
  computed :: int
  local_cache_hit :: int
  external_kv_transfer :: int
  cached_tokens :: int
  recomputed_tokens :: int
  total_tokens :: int

definition update_prompt_stats :: "int \<Rightarrow> int \<Rightarrow> int \<Rightarrow> prompt_token_stats \<Rightarrow> prompt_token_stats" where
  "update_prompt_stats num_cached num_external prompt_len s =
     (let recomputed = (if num_cached + 1 = prompt_len then 1 else 0)
      in s\<lparr>computed := computed s + (prompt_len - num_cached),
           external_kv_transfer := external_kv_transfer s + num_external,
           local_cache_hit := local_cache_hit s + (num_cached + recomputed - num_external),
           cached_tokens := cached_tokens s + num_cached,
           recomputed_tokens := recomputed_tokens s + recomputed,
           total_tokens := total_tokens s + prompt_len\<rparr>)"

definition get_by_source :: "string \<Rightarrow> prompt_token_stats \<Rightarrow> int result" where
  "get_by_source source s =
     (if source = ''local_compute'' then Inr (computed s)
      else if source = ''local_cache_hit'' then Inr (local_cache_hit s)
      else if source = ''external_kv_transfer'' then Inr (external_kv_transfer s)
      else Inl ValueError)"

subsection \<open>The window\<close>

definition sums_of :: "caching_metrics \<Rightarrow> bool" where
  "sums_of m \<longleftrightarrow> aggregated_requests m = (\<Sum>(r, _, _) \<leftarrow> query_queue m. r)
     \<and> aggregated_query_total m = (\<Sum>(_, q, _) \<leftarrow> query_queue m. q)
     \<and> aggregated_query_hit m = (\<Sum>(_, _, h) \<leftarrow> query_queue m. h)"

lemma drop_oldest_spec:
  "sums_of m \<Longrightarrow> \<exists>k. query_queue (drop_oldest m) = drop k (query_queue m) \<and> sums_of (drop_oldest m)
     \<and> max_recent_requests (drop_oldest m) = max_recent_requests m
     \<and> (length (query_queue (drop_oldest m)) \<le> 1 \<or> aggregated_requests (drop_oldest m) \<le> max_recent_requests m)
     \<and> (query_queue m \<noteq> [] \<longrightarrow> k < length (query_queue m))"
proof (induction m rule: drop_oldest.induct)
  case (1 m)
  show ?case
  proof (cases "length (query_queue m) > 1 \<and> aggregated_requests m > max_recent_requests m")
    case False
    then show ?thesis using "1.prems" by (intro exI [of _ 0]) (auto simp: drop_oldest.simps [of m])
  next
    case True
    then obtain r q h rest where qq: "query_queue m = (r, q, h) # rest" "rest \<noteq> []"
      by (cases "query_queue m") auto
    let ?n = "m\<lparr>query_queue := rest, aggregated_requests := aggregated_requests m - r,
                aggregated_query_total := aggregated_query_total m - q,
                aggregated_query_hit := aggregated_query_hit m - h\<rparr>"
    have "sums_of ?n" using "1.prems" qq by (simp add: sums_of_def)
    from "1.IH" [OF True qq(1) refl refl this] obtain k where
      k: "query_queue (drop_oldest ?n) = drop k rest" "sums_of (drop_oldest ?n)"
      "max_recent_requests (drop_oldest ?n) = max_recent_requests m"
      "length (query_queue (drop_oldest ?n)) \<le> 1 \<or> aggregated_requests (drop_oldest ?n) \<le> max_recent_requests m"
      "k < length rest"
      using qq(2) by auto
    have step: "drop_oldest m = drop_oldest ?n" using True qq by (simp add: drop_oldest.simps [of m])
    show ?thesis unfolding step using k qq by (intro exI [of _ "Suc k"]) auto
  qed
qed

definition stats_ok :: "cache_stats \<Rightarrow> bool" where
  "stats_ok s \<longleftrightarrow> 0 \<le> requests s \<and> 0 \<le> hits s \<and> hits s \<le> queries s"

definition window_ok :: "caching_metrics \<Rightarrow> bool" where
  "window_ok m \<longleftrightarrow> sums_of m
     \<and> (length (query_queue m) \<le> 1 \<or> aggregated_requests m \<le> max_recent_requests m)
     \<and> (\<forall>(r, q, h) \<in> set (query_queue m). 0 < r \<and> 0 \<le> h \<and> h \<le> q)"

lemma observe_window:
  assumes m: "window_ok m" and s: "stats_ok s"
  shows "window_ok (observe s m) \<and> max_recent_requests (observe s m) = max_recent_requests m
    \<and> (requests s \<noteq> 0 \<longrightarrow> (\<exists>k. query_queue (observe s m)
          = drop k (if stats_reset s then [] else query_queue m) @ [(requests s, queries s, hits s)]))"
proof -
  let ?m = "if stats_reset s then caching_metrics_reset m else m"
  have m': "window_ok ?m" "max_recent_requests ?m = max_recent_requests m"
    "query_queue ?m = (if stats_reset s then [] else query_queue m)"
    using m by (auto simp: window_ok_def sums_of_def caching_metrics_reset_def)
  show ?thesis
  proof (cases "requests s = 0")
    case True
    with m' show ?thesis by (simp add: observe_def)
  next
    case False
    let ?n = "?m\<lparr>query_queue := query_queue ?m @ [(requests s, queries s, hits s)],
                 aggregated_requests := aggregated_requests ?m + requests s,
                 aggregated_query_total := aggregated_query_total ?m + queries s,
                 aggregated_query_hit := aggregated_query_hit ?m + hits s\<rparr>"
    have "sums_of ?n" using m'(1) by (simp add: window_ok_def sums_of_def)
    from drop_oldest_spec [OF this] obtain k where
      k: "query_queue (drop_oldest ?n) = drop k (query_queue ?n)" "sums_of (drop_oldest ?n)"
      "max_recent_requests (drop_oldest ?n) = max_recent_requests m"
      "length (query_queue (drop_oldest ?n)) \<le> 1 \<or> aggregated_requests (drop_oldest ?n) \<le> max_recent_requests m"
      "k < length (query_queue ?n)" using m'(2) by auto
    have each: "\<forall>(r, q, h) \<in> set (query_queue ?n). 0 < r \<and> 0 \<le> h \<and> h \<le> q"
      using m'(1) s False by (auto simp: window_ok_def stats_ok_def)
    have "window_ok (drop_oldest ?n)"
      unfolding window_ok_def k(3) using k(2,4) each unfolding k(1) by (blast dest: in_set_dropD)
    moreover have "drop k (query_queue ?n) = drop k (query_queue ?m) @ [(requests s, queries s, hits s)]"
      using k(5) by (simp add: le_diff_conv)
    ultimately show ?thesis using False k(1,3) m'(3) by (auto simp: observe_def Let_def)
  qed
qed

lemma observe_all_window:
  assumes "window_ok m" "\<forall>s \<in> set ss. stats_ok s"
  shows "window_ok (fold observe ss m) \<and> max_recent_requests (fold observe ss m) = max_recent_requests m"
  using assms
proof (induction ss arbitrary: m)
  case (Cons s ss)
  from observe_window [OF Cons.prems(1), of s] Cons.prems(2) Cons.IH [of "observe s m"] show ?case by simp
qed simp

subsection \<open>Properties\<close>

text \<open>
  The reported hit rate is that of a window of the most recent requests. After any sequence of
  observed statistics the running totals are the sums over the retained entries, the retained entries
  exceed the limit only when the latest entry alone does, and the hit rate is a fraction between 0
  and 1 of those totals.
\<close>

lemma hit_rate_window:
  assumes "\<forall>s \<in> set ss. stats_ok s"
  shows "let m = fold observe ss (caching_metrics_init limit)
    in aggregated_requests m = (\<Sum>(r, _, _) \<leftarrow> query_queue m. r)
     \<and> aggregated_query_total m = (\<Sum>(_, q, _) \<leftarrow> query_queue m. q)
     \<and> aggregated_query_hit m = (\<Sum>(_, _, h) \<leftarrow> query_queue m. h)
     \<and> (length (query_queue m) \<le> 1 \<or> aggregated_requests m \<le> limit)
     \<and> (metrics_empty m \<longleftrightarrow> query_queue m = [])
     \<and> (\<forall>h q. hit_rate m = Some (h, q) \<longrightarrow> 0 \<le> h \<and> h \<le> q \<and> 0 < q)"
proof -
  let ?m = "fold observe ss (caching_metrics_init limit)"
  have "window_ok (caching_metrics_init limit)" by (simp add: window_ok_def sums_of_def caching_metrics_init_def)
  from observe_all_window [OF this assms] have w: "window_ok ?m" "max_recent_requests ?m = limit"
    by (simp_all add: caching_metrics_init_def)
  have sums: "0 \<le> (\<Sum>(_, _, h) \<leftarrow> es. h) \<and> (\<Sum>(_, _, h) \<leftarrow> es. h) \<le> (\<Sum>(_, q, _) \<leftarrow> es. q)
      \<and> 0 \<le> (\<Sum>(r, _, _) \<leftarrow> es. r) \<and> ((\<Sum>(r, _, _) \<leftarrow> es. r) = 0 \<longleftrightarrow> es = [])"
    if "\<forall>(r, q, h) \<in> set es. 0 < r \<and> 0 \<le> h \<and> h \<le> q" for es :: "(int \<times> int \<times> int) list"
    using that by (induction es) auto
  have e: "\<forall>(r, q, h) \<in> set (query_queue ?m). 0 < r \<and> 0 \<le> h \<and> h \<le> q" using w(1) by (simp add: window_ok_def)
  show ?thesis
    using w sums [OF e] by (auto simp: Let_def window_ok_def sums_of_def metrics_empty_def hit_rate_def split: if_splits)
qed

text \<open>
  The breakdown of prompt tokens adds up as its documentation says, after any sequence of updates:
  what was computed, hit locally and transferred, less what was recomputed, is the total, and hits less
  what was recomputed are the cached tokens.
\<close>

theorem prompt_stats_invariants:
  "let s = fold (\<lambda>(c, e, n). update_prompt_stats c e n) us
             \<lparr>computed = 0, local_cache_hit = 0, external_kv_transfer = 0, cached_tokens = 0,
              recomputed_tokens = 0, total_tokens = 0\<rparr>
   in computed s + local_cache_hit s + external_kv_transfer s - recomputed_tokens s = total_tokens s
     \<and> local_cache_hit s + external_kv_transfer s - recomputed_tokens s = cached_tokens s
     \<and> total_tokens s = (\<Sum>(_, _, n) \<leftarrow> us. n)"
proof -
  have "computed (fold (\<lambda>(c, e, n). update_prompt_stats c e n) us s)
        + local_cache_hit (fold (\<lambda>(c, e, n). update_prompt_stats c e n) us s)
        + external_kv_transfer (fold (\<lambda>(c, e, n). update_prompt_stats c e n) us s)
        - recomputed_tokens (fold (\<lambda>(c, e, n). update_prompt_stats c e n) us s)
        = total_tokens (fold (\<lambda>(c, e, n). update_prompt_stats c e n) us s)
      \<and> local_cache_hit (fold (\<lambda>(c, e, n). update_prompt_stats c e n) us s)
        + external_kv_transfer (fold (\<lambda>(c, e, n). update_prompt_stats c e n) us s)
        - recomputed_tokens (fold (\<lambda>(c, e, n). update_prompt_stats c e n) us s)
        = cached_tokens (fold (\<lambda>(c, e, n). update_prompt_stats c e n) us s)
      \<and> total_tokens (fold (\<lambda>(c, e, n). update_prompt_stats c e n) us s) = total_tokens s + (\<Sum>(_, _, n) \<leftarrow> us. n)"
    if "computed s + local_cache_hit s + external_kv_transfer s - recomputed_tokens s = total_tokens s"
      "local_cache_hit s + external_kv_transfer s - recomputed_tokens s = cached_tokens s" for s
    using that
  proof (induction us arbitrary: s)
    case (Cons u us)
    obtain c e n where u: "u = (c, e, n)" by (cases u)
    let ?s = "update_prompt_stats c e n s"
    have "computed ?s + local_cache_hit ?s + external_kv_transfer ?s - recomputed_tokens ?s = total_tokens ?s"
      "local_cache_hit ?s + external_kv_transfer ?s - recomputed_tokens ?s = cached_tokens ?s"
      "total_tokens ?s = total_tokens s + n"
      using Cons.prems by (simp_all add: update_prompt_stats_def Let_def)
    with Cons.IH [of ?s] u show ?case by simp
  qed simp
  then show ?thesis by (simp add: Let_def)
qed

end
