(* ===== verification/KV_Cache_Manager.thy ===== *)
theory KV_Cache_Manager
  imports Hybrid_Search Cache_Stats
begin

text \<open>
  The cache manager of \<open>vllm/v1/core/kv_cache_manager.py\<close>, through which the scheduler uses the KV
  cache: the allocation results it hands out (\<open>KVCacheBlocks\<close>), the lookup of computed blocks, the
  allocation of slots in its three stages and the remaining calls.
\<close>

subsection \<open>Allocation results\<close>

text \<open>
  The manager shares one empty result, and \<open>allocate_slots\<close> recognises it by its identity:
  \<open>is_shared_empty\<close> marks that object.
\<close>

record kv_cache_blocks =
  group_blocks :: "block_ref list list"
  is_shared_empty :: bool

definition kvb_add :: "kv_cache_blocks \<Rightarrow> kv_cache_blocks \<Rightarrow> kv_cache_blocks" where
  "kvb_add a b = \<lparr>group_blocks = map (\<lambda>(x, y). x @ y) (zip (group_blocks a) (group_blocks b)),
                  is_shared_empty = False\<rparr>"

definition kvb_get_block_ids :: "bool \<Rightarrow> kv_cache_blocks \<Rightarrow> int list list option" where
  "kvb_get_block_ids allow_none a =
     (if allow_none \<and> (\<forall>g \<in> set (group_blocks a). length g = 0) then None
      else Some (map (map block_id) (group_blocks a)))"

definition get_unhashed_block_ids :: "block_pool \<Rightarrow> kv_cache_blocks \<Rightarrow> int list result" where
  "get_unhashed_block_ids p a =
     bindR (assertR (length (group_blocks a) = 1)) (\<lambda>_.
     bindR (py_nth (group_blocks a) 0) (\<lambda>g.
       Inr (map block_id (filter (\<lambda>b. block_hash (pool_store p b) = None) g))))"

definition get_unhashed_block_ids_all_groups :: "block_pool \<Rightarrow> kv_cache_blocks \<Rightarrow> int list list" where
  "get_unhashed_block_ids_all_groups p a =
     map (\<lambda>g. map block_id (filter (\<lambda>b. block_hash (pool_store p b) = None \<and> \<not> is_null (pool_store p b)) g))
       (group_blocks a)"

definition new_empty :: "kv_cache_blocks \<Rightarrow> kv_cache_blocks" where
  "new_empty a = \<lparr>group_blocks = replicate (length (group_blocks a)) [], is_shared_empty = False\<rparr>"

subsection \<open>The manager\<close>

text \<open>\<open>block_pool\<close> of the source is the coordinator's pool, the same object.\<close>

record kv_cache_manager =
  k_max_model_len :: int
  k_enable_caching :: bool
  k_use_eagle :: bool
  k_log_stats :: bool
  k_prefix_cache_stats :: "prefix_cache_stats option"
  k_coordinator :: coordinator
  num_kv_cache_groups :: nat
  empty_kv_cache_blocks :: kv_cache_blocks

abbreviation k_pool :: "kv_cache_manager \<Rightarrow> block_pool" where
  "k_pool k \<equiv> c_pool (k_coordinator k)"

abbreviation k_managers :: "kv_cache_manager \<Rightarrow> manager list" where
  "k_managers k \<equiv> single_type_managers (k_coordinator k)"

definition kv_cache_manager_init ::
  "kv_cache_config \<Rightarrow> int \<Rightarrow> int \<Rightarrow> bool \<Rightarrow> bool \<Rightarrow> bool \<Rightarrow> bool \<Rightarrow> int \<Rightarrow> int \<Rightarrow> bool
   \<Rightarrow> metrics_collector option \<Rightarrow> kv_cache_manager result" where
  "kv_cache_manager_init cfg max_len hash_size caching eagle log_stats events dcp pcp int_hashes mc =
     bindR (get_kv_cache_coordinator cfg max_len eagle caching events dcp pcp hash_size int_hashes mc) (\<lambda>c.
       Inr \<lparr>k_max_model_len = max_len, k_enable_caching = caching, k_use_eagle = eagle, k_log_stats = log_stats,
            k_prefix_cache_stats = (if log_stats then Some new_prefix_cache_stats else None),
            k_coordinator = c, num_kv_cache_groups = length (kv_cache_groups cfg),
            empty_kv_cache_blocks = \<lparr>group_blocks = replicate (length (kv_cache_groups cfg)) [],
                                     is_shared_empty = True\<rparr>\<rparr>)"

definition usage :: "kv_cache_manager \<Rightarrow> (int \<times> int) option" where
  "usage k = get_usage (k_pool k)"

definition make_prefix_cache_stats :: "kv_cache_manager \<Rightarrow> prefix_cache_stats option \<times> kv_cache_manager" where
  "make_prefix_cache_stats k =
     (if \<not> k_log_stats k then (None, k)
      else (k_prefix_cache_stats k, k\<lparr>k_prefix_cache_stats := Some new_prefix_cache_stats\<rparr>))"

definition create_kv_cache_blocks :: "block_ref list list \<Rightarrow> kv_cache_manager \<Rightarrow> kv_cache_blocks" where
  "create_kv_cache_blocks bs k =
     (if \<exists>g \<in> set bs. g \<noteq> [] then \<lparr>group_blocks = bs, is_shared_empty = False\<rparr> else empty_kv_cache_blocks k)"

definition get_computed_blocks ::
  "request \<Rightarrow> kv_cache_manager \<Rightarrow> ((kv_cache_blocks \<times> int) \<times> kv_cache_manager) result" where
  "get_computed_blocks r k =
     (if \<not> k_enable_caching k \<or> skip_reading_prefix_cache r then Inr ((empty_kv_cache_blocks k, 0), k)
      else
        bindR (coord_find_longest_cache_hit (block_hashes r) (num_tokens r - 1) (k_coordinator k)) (\<lambda>(computed, n).
        bindR (if k_log_stats k
               then (case k_prefix_cache_stats k of
                       None \<Rightarrow> Inl AssertionError
                     | Some s \<Rightarrow> Inr (k\<lparr>k_prefix_cache_stats :=
                                   Some (record_stats (num_tokens r) n (num_preemptions r > 0) s)\<rparr>))
               else Inr k) (\<lambda>k'.
          Inr ((create_kv_cache_blocks computed k', n), k'))))"

text \<open>The three token counts that \<open>allocate_slots\<close> derives from its arguments.\<close>

definition total_computed_tokens :: "kv_cache_manager \<Rightarrow> request \<Rightarrow> int \<Rightarrow> int \<Rightarrow> int" where
  "total_computed_tokens k r num_new_computed num_external =
     min (num_computed_tokens r + num_new_computed + num_external) (k_max_model_len k)"

definition num_tokens_need_slot :: "kv_cache_manager \<Rightarrow> request \<Rightarrow> int \<Rightarrow> int \<Rightarrow> int \<Rightarrow> int \<Rightarrow> int" where
  "num_tokens_need_slot k r num_new num_new_computed num_lookahead num_external =
     min (total_computed_tokens k r num_new_computed num_external + num_new + num_lookahead) (k_max_model_len k)"

definition num_tokens_to_cache :: "kv_cache_manager \<Rightarrow> request \<Rightarrow> int \<Rightarrow> int \<Rightarrow> int \<Rightarrow> int" where
  "num_tokens_to_cache k r num_new num_new_computed num_external =
     min (total_computed_tokens k r num_new_computed num_external + num_new) (num_tokens r)"

definition given_blocks :: "kv_cache_blocks option \<Rightarrow> kv_cache_manager \<Rightarrow> kv_cache_blocks" where
  "given_blocks new_computed k = (case new_computed of Some a \<Rightarrow> a | None \<Rightarrow> empty_kv_cache_blocks k)"

definition allocate_slots ::
  "hash_env \<Rightarrow> request \<Rightarrow> int \<Rightarrow> int \<Rightarrow> kv_cache_blocks option \<Rightarrow> int \<Rightarrow> int \<Rightarrow> bool \<Rightarrow> int
   \<Rightarrow> kv_cache_manager \<Rightarrow> (kv_cache_blocks option \<times> request \<times> kv_cache_manager) result" where
  "allocate_slots env r num_new num_new_computed new_computed num_lookahead num_external delay_cache num_encoder k =
     (if num_new = 0 \<and> num_external = 0 then Inl ValueError
      else
        let computed = given_blocks new_computed k;
            num_local = num_computed_tokens r + num_new_computed;
            tot = total_computed_tokens k r num_new_computed num_external;
            main_toks = tot + num_new;
            need = num_tokens_need_slot k r num_new num_new_computed num_lookahead num_external
        in bindR (coord_remove_skipped_blocks (request_id r) tot (k_coordinator k)) (\<lambda>c1.
           bindR (coord_get_num_blocks_to_allocate (request_id r) need (group_blocks computed) num_encoder
                    (num_local + num_external) main_toks c1) (\<lambda>(n, c2).
             if n > get_num_free_blocks (c_pool c2) then Inr (None, r, k\<lparr>k_coordinator := c2\<rparr>)
             else
               bindR (if \<not> is_shared_empty computed \<or> num_external > 0
                      then coord_allocate_new_computed_blocks (request_id r) (group_blocks computed) num_local
                             num_external c2
                      else Inr c2) (\<lambda>c3.
               bindR (coord_allocate_new_blocks (request_id r) need main_toks num_encoder c3) (\<lambda>(new, c4).
                 if \<not> k_enable_caching k \<or> delay_cache
                 then Inr (Some (create_kv_cache_blocks new k), r, k\<lparr>k_coordinator := c4\<rparr>)
                 else
                   bindR (coord_cache_blocks env r (num_tokens_to_cache k r num_new num_new_computed num_external) c4)
                     (\<lambda>(r', c5). Inr (Some (create_kv_cache_blocks new k), r', k\<lparr>k_coordinator := c5\<rparr>)))))))"

definition kv_free :: "request \<Rightarrow> kv_cache_manager \<Rightarrow> kv_cache_manager result" where
  "kv_free r k = bindR (coord_free (request_id r) (k_coordinator k)) (\<lambda>c. Inr (k\<lparr>k_coordinator := c\<rparr>))"

definition kv_remove_skipped_blocks :: "string \<Rightarrow> int \<Rightarrow> kv_cache_manager \<Rightarrow> kv_cache_manager result" where
  "kv_remove_skipped_blocks rid n k =
     bindR (coord_remove_skipped_blocks rid n (k_coordinator k)) (\<lambda>c. Inr (k\<lparr>k_coordinator := c\<rparr>))"

definition with_pool :: "block_pool \<Rightarrow> kv_cache_manager \<Rightarrow> kv_cache_manager" where
  "with_pool p k = k\<lparr>k_coordinator := (k_coordinator k)\<lparr>c_pool := p\<rparr>\<rparr>"

definition kv_evict_blocks :: "int list \<Rightarrow> kv_cache_manager \<Rightarrow> kv_cache_manager result" where
  "kv_evict_blocks ids k = bindR (evict_blocks ids (k_pool k)) (\<lambda>p. Inr (with_pool p k))"

definition kv_reset_prefix_cache :: "kv_cache_manager \<Rightarrow> (bool \<times> kv_cache_manager) result" where
  "kv_reset_prefix_cache k =
     (case reset_prefix_cache (k_pool k) of
        (False, p) \<Rightarrow> Inr (False, with_pool p k)
      | (True, p) \<Rightarrow>
          if k_log_stats k
          then (case k_prefix_cache_stats k of
                  None \<Rightarrow> Inl AssertionError
                | Some s \<Rightarrow> Inr (True, (with_pool p k)\<lparr>k_prefix_cache_stats := Some (s\<lparr>stats_reset := True\<rparr>)\<rparr>))
          else Inr (True, with_pool p k))"

definition kv_get_num_common_prefix_blocks :: "string \<Rightarrow> kv_cache_manager \<Rightarrow> (int list \<times> kv_cache_manager) result" where
  "kv_get_num_common_prefix_blocks rid k =
     bindR (coord_get_num_common_prefix_blocks rid (k_coordinator k)) (\<lambda>(ns, c). Inr (ns, k\<lparr>k_coordinator := c\<rparr>))"

definition kv_take_events :: "kv_cache_manager \<Rightarrow> kv_cache_event list \<times> kv_cache_manager" where
  "kv_take_events k = (case take_events (k_pool k) of (es, p) \<Rightarrow> (es, with_pool p k))"

definition kv_get_blocks :: "string \<Rightarrow> kv_cache_manager \<Rightarrow> kv_cache_blocks" where
  "kv_get_blocks rid k = create_kv_cache_blocks (coord_get_blocks rid (k_coordinator k)) k"

definition kv_get_block_ids :: "string \<Rightarrow> kv_cache_manager \<Rightarrow> int list list option" where
  "kv_get_block_ids rid k = kvb_get_block_ids False (kv_get_blocks rid k)"

definition kv_cache_blocks_of :: "hash_env \<Rightarrow> request \<Rightarrow> int \<Rightarrow> kv_cache_manager \<Rightarrow> (request \<times> kv_cache_manager) result" where
  "kv_cache_blocks_of env r n k =
     (if k_enable_caching k
      then bindR (coord_cache_blocks env r n (k_coordinator k)) (\<lambda>(r', c). Inr (r', k\<lparr>k_coordinator := c\<rparr>))
      else Inr (r, k))"

definition kv_take_new_block_ids :: "kv_cache_manager \<Rightarrow> int list \<times> kv_cache_manager" where
  "kv_take_new_block_ids k =
     (concat (map (fst \<circ> take_new_block_ids) (k_managers k)),
      k\<lparr>k_coordinator := (k_coordinator k)\<lparr>single_type_managers := map (snd \<circ> take_new_block_ids) (k_managers k)\<rparr>\<rparr>)"

definition kv_new_step_starts :: "kv_cache_manager \<Rightarrow> kv_cache_manager" where
  "kv_new_step_starts k = k\<lparr>k_coordinator := coord_new_step_starts (k_coordinator k)\<rparr>"

subsection \<open>The block count\<close>

text \<open>
  What one group takes from the free queue for a request: the unused blocks of its hit and the
  blocks that are missing once the hit is taken over.
\<close>

definition blocks_after_hit :: "string \<Rightarrow> block_ref list list \<Rightarrow> int \<Rightarrow> nat \<Rightarrow> manager \<Rightarrow> int" where
  "blocks_after_hit rid hs tot i m =
     (if is_cross m \<or> is_running rid m \<or> blocks_of rid m \<noteq> [] then int (length (blocks_of rid m))
      else int (length (computed_prefix m (hs ! i) tot)))"

definition group_need :: "string \<Rightarrow> int \<Rightarrow> int \<Rightarrow> block_ref list list \<Rightarrow> int \<Rightarrow> block_pool \<Rightarrow> nat \<Rightarrow> manager \<Rightarrow> int" where
  "group_need rid n enc hs tot p i m =
     hit_cost hs tot p i m
     + max 0 (cdiv (slots_for n enc m) (m_block_size m) - blocks_after_hit rid hs tot i m)"

text \<open>
  The requests the count is right for. A request that holds blocks, or is known to the group, comes
  without a hit and holds a block for every position whose block is skipped; a request the group does
  not know comes with a hit, possibly empty.
\<close>

definition countable :: "string \<Rightarrow> block_ref list list \<Rightarrow> int \<Rightarrow> nat \<Rightarrow> manager \<Rightarrow> bool" where
  "countable rid hs tot i m \<longleftrightarrow> i < length hs \<and> plain_mode m \<and>
     (if is_cross m then \<not> is_running rid m
      else if is_running rid m then hs ! i = []
      else blocks_of rid m = []
        \<or> (hs ! i = [] \<and> get_num_skipped_tokens m tot div m_block_size m \<le> int (length (blocks_of rid m))))"

text \<open>A hit cached earlier in the same step is refused by Mamba groups, by a count nothing can satisfy.\<close>

definition deferred :: "block_ref list list \<Rightarrow> block_pool \<Rightarrow> nat \<Rightarrow> manager \<Rightarrow> bool" where
  "deferred hs p i m \<longleftrightarrow> (\<exists>mode n. spec_class_of (m_spec m) = MambaSpec mode n) \<and> hs ! i \<noteq> []
     \<and> (\<exists>h. block_hash (pool_store p (last (hs ! i))) = Some h \<and> h \<in> set (cached_blocks_this_step m))"

definition group_count :: "string \<Rightarrow> int \<Rightarrow> int \<Rightarrow> block_ref list list \<Rightarrow> int \<Rightarrow> block_pool \<Rightarrow> nat \<Rightarrow> manager \<Rightarrow> int" where
  "group_count rid n enc hs tot p i m =
     (if deferred hs p i m then num_gpu_blocks p + 1 else group_need rid n enc hs tot p i m)"

lemma length_computed_prefix:
  "int (length (computed_prefix m bs tot)) = max (int (length bs)) (max 0 (get_num_skipped_tokens m tot div m_block_size m))"
  by (simp add: computed_prefix_def Let_def max_def) linarith

lemma base_count:
  assumes "countable rid hs tot i m" "\<not> is_cross m" "0 < m_block_size m"
  shows "base_get_num_blocks_to_allocate m p rid (asked_tokens m n) (hs ! i) tot
    = Inr (group_need rid n enc hs tot p i m)"
proof -
  define k where "k = get_num_skipped_tokens m tot div m_block_size m"
  define r where "r = cdiv (asked_tokens m n) (m_block_size m)"
  have ev: "get_num_evictable_blocks p [] = 0" by (simp add: get_num_evictable_blocks_def)
  consider (run) "is_running rid m" "hs ! i = []"
    | (fresh) "\<not> is_running rid m" "blocks_of rid m = []"
    | (held) "\<not> is_running rid m" "blocks_of rid m \<noteq> []" "hs ! i = []" "k \<le> int (length (blocks_of rid m))"
    using assms(1,2) by (auto simp: countable_def k_def split: if_splits)
  then show ?thesis
  proof cases
    case run
    then show ?thesis
      using assms(2) ev by (simp add: base_get_num_blocks_to_allocate_def group_need_def hit_cost_def blocks_after_hit_def
          slots_for_def Let_def max.commute)
  next
    case fresh
    then show ?thesis
      using assms(2) length_computed_prefix [of m "hs ! i" tot]
      by (simp add: base_get_num_blocks_to_allocate_def group_need_def hit_cost_def blocks_after_hit_def
          slots_for_def Let_def max_def flip: k_def r_def)
  next
    case held
    then show ?thesis
      using assms(2) ev by (simp add: base_get_num_blocks_to_allocate_def group_need_def hit_cost_def blocks_after_hit_def
          slots_for_def Let_def flip: k_def r_def)
  qed
qed

lemma count_op_eq:
  assumes c: "countable rid hs tot i m" and b: "0 < m_block_size m"
  shows "count_op rid n hs enc tot main i m p = Inr (group_count rid n enc hs tot p i m, m, p)"
proof (cases "is_cross m")
  case True
  then have cls: "spec_class_of (m_spec m) = CrossAttentionSpec" and new: "\<not> is_running rid m"
    using c by (simp_all add: is_cross_def countable_def)
  have "get_num_evictable_blocks p [] = 0" by (simp add: get_num_evictable_blocks_def)
  then show ?thesis
    using True new
    by (simp add: count_op_def get_num_blocks_to_allocate_def base_get_num_blocks_to_allocate_def cls Let_def
        get_num_skipped_tokens_def group_count_def deferred_def group_need_def hit_cost_def blocks_after_hit_def
        slots_for_def asked_tokens_def max.commute)
next
  case False
  note base = base_count [OF c False b, of p n enc]
  have i: "i < length hs" and plain: "plain_mode m" using c by (simp_all add: countable_def)
  show ?thesis
  proof (cases "\<exists>mode k. spec_class_of (m_spec m) = MambaSpec mode k")
    case True
    then obtain mode k where cls: "spec_class_of (m_spec m) = MambaSpec mode k" by blast
    have md: "mode \<noteq> ''align''" "m_block_size m = spec_block_size (m_spec m)" using plain by (simp_all add: plain_mode_def cls)
    have asked: "asked_tokens m n = (if 0 < k then n + spec_block_size (m_spec m) * k else n)"
      by (simp add: asked_tokens_def cls md(2))
    show ?thesis
      using False i base md(1) unfolding asked
      by (auto simp: count_op_def get_num_blocks_to_allocate_def cls group_count_def deferred_def split: option.split)
  next
    case other: False
    then have "asked_tokens m n = n" "\<not> deferred hs p i m"
      by (simp_all add: asked_tokens_def deferred_def split: spec_class.split)
    then show ?thesis
      using False i base other
      by (simp add: count_op_def get_num_blocks_to_allocate_def group_count_def split: spec_class.split)
  qed
qed

lemma each_manager_reads:
  assumes "\<And>j. j < length ms \<Longrightarrow> op (i + j) (ms ! j) s = Inr (f (i + j) (ms ! j), ms ! j, s)"
  shows "each_manager op i ms s = Inr (map (\<lambda>j. f (i + j) (ms ! j)) [0..<length ms], ms, s)"
  using assms
proof (induction ms arbitrary: i)
  case Nil
  then show ?case by simp
next
  case (Cons m ms)
  have "each_manager op (Suc i) ms s = Inr (map (\<lambda>j. f (Suc i + j) (ms ! j)) [0..<length ms], ms, s)"
    using Cons.prems [of "Suc j" for j] by (intro Cons.IH) simp
  then show ?case using Cons.prems [of 0] by (simp add: map_upt_Suc del: upt_Suc)
qed

lemma coord_count_eq:
  assumes "\<And>j. j < length (single_type_managers c) \<Longrightarrow>
      countable rid hs tot j (single_type_managers c ! j) \<and> 0 < m_block_size (single_type_managers c ! j)"
  shows "coord_get_num_blocks_to_allocate rid n hs enc tot main c
    = Inr (\<Sum>j = 0..<length (single_type_managers c). group_count rid n enc hs tot (c_pool c) j (single_type_managers c ! j), c)"
proof -
  have "each_manager (count_op rid n hs enc tot main) 0 (single_type_managers c) (c_pool c)
    = Inr (map (\<lambda>j. group_count rid n enc hs tot (c_pool c) (0 + j) (single_type_managers c ! j)) [0..<length (single_type_managers c)],
        single_type_managers c, c_pool c)"
    using assms by (intro each_manager_reads) (simp add: count_op_eq)
  then show ?thesis
    by (simp add: coord_get_num_blocks_to_allocate_def on_managers_def interv_sum_list_conv_sum_set_nat)
qed

lemma group_need_nonneg: "0 \<le> group_need rid n enc hs tot p i m"
  by (simp add: group_need_def hit_cost_def get_num_evictable_blocks_def)

lemma free_le_total:
  assumes "pool_ok p xs"
  shows "0 \<le> get_num_free_blocks p" "get_num_free_blocks p \<le> num_gpu_blocks p"
proof -
  have "set xs \<subseteq> set (blocks p)" using pool_partD(4) [OF assms] by auto
  then have "length xs \<le> length (blocks p)"
    using pool_partD(2) [OF assms] card_mono [of "set (blocks p)" "set xs"] card_length [of "blocks p"]
    by (simp add: distinct_card)
  moreover have "int (length (blocks p)) = num_gpu_blocks p" using assms by (simp add: pool_part_def)
  ultimately show "0 \<le> get_num_free_blocks p" "get_num_free_blocks p \<le> num_gpu_blocks p"
    using pool_partD(10) [OF assms] by linarith+
qed

text \<open>When the count fits into the free queue no group has deferred its hit.\<close>

lemma count_fits:
  assumes ok: "pool_ok p xs" and fits: "(\<Sum>j = 0..<k. group_count rid n enc hs tot p j (ms ! j)) \<le> get_num_free_blocks p"
  shows "(\<Sum>j = 0..<k. group_count rid n enc hs tot p j (ms ! j)) = (\<Sum>j = 0..<k. group_need rid n enc hs tot p j (ms ! j))"
proof (rule sum.cong [OF refl])
  fix j assume j: "j \<in> {0..<k}"
  have gpu: "get_num_free_blocks p < num_gpu_blocks p + 1"
    using free_le_total [OF ok] by linarith
  have nn: "0 \<le> group_count rid n enc hs tot p j (ms ! j)" for j
    using group_need_nonneg free_le_total [OF ok] by (simp add: group_count_def)
  have "group_count rid n enc hs tot p j (ms ! j) \<le> (\<Sum>j = 0..<k. group_count rid n enc hs tot p j (ms ! j))"
    by (rule member_le_sum [OF j]) (simp_all add: nn)
  then have "\<not> deferred hs p j (ms ! j)" using fits gpu by (auto simp: group_count_def)
  then show "group_count rid n enc hs tot p j (ms ! j) = group_need rid n enc hs tot p j (ms ! j)"
    by (simp add: group_count_def)
qed

subsection \<open>The stages of an allocation\<close>

text \<open>
  The requests the scheduler asks slots for, without external tokens: one that goes on with what it
  holds (the shared empty result; it is known to the group, or holds a block for every skipped
  position), or one that holds nothing and comes with a hit.
\<close>

definition admits :: "string \<Rightarrow> kv_cache_blocks \<Rightarrow> int \<Rightarrow> block_pool \<Rightarrow> nat \<Rightarrow> manager \<Rightarrow> bool" where
  "admits rid a tot p i m \<longleftrightarrow> i < length (group_blocks a) \<and> plain_mode m \<and> (is_cross m \<longrightarrow> \<not> is_running rid m) \<and>
     (if is_shared_empty a
      then group_blocks a ! i = [] \<and> (is_cross m \<or> is_running rid m
             \<or> get_num_skipped_tokens m tot div m_block_size m \<le> int (length (blocks_of rid m)))
      else takes_hit rid (group_blocks a) p i m)"

lemma admits_countable: "admits rid a tot p i m \<Longrightarrow> countable rid (group_blocks a) tot i m"
  by (auto simp: admits_def countable_def takes_hit_def split: if_splits)

lemma skipped_config: "mgr_config m m' \<Longrightarrow> get_num_skipped_tokens m' = get_num_skipped_tokens m"
  by (simp add: fun_eq_iff get_num_skipped_tokens_eq mgr_config_def)

lemma cross_config: "mgr_config m m' \<Longrightarrow> is_cross m' = is_cross m"
  by (simp add: is_cross_def mgr_config_def)

lemma slots_config: "mgr_config m m' \<Longrightarrow> slots_for n enc m' = slots_for n enc m"
  by (simp add: slots_for_def cross_config asked_tokens_config)

lemma prefix_config: "mgr_config m m' \<Longrightarrow> computed_prefix m' = computed_prefix m"
  by (simp add: fun_eq_iff computed_prefix_def skipped_config) (simp add: mgr_config_def)

text \<open>Removing skipped blocks first does not change whether a request is admitted.\<close>

lemma admits_after_removal:
  assumes "admits rid a tot p i m" "skipped_removed rid n i m () m'" "mgr_config m m'" "pool_view p' = pool_view p"
  shows "admits rid a tot p' i m'"
proof -
  have len: "length (blocks_of rid m') = length (blocks_of rid m)" "is_running rid m' = is_running rid m"
    using assms(2) by (simp_all add: skipped_removed_def)
  then have nil: "blocks_of rid m' = [] \<longleftrightarrow> blocks_of rid m = []" by auto
  have bs: "m_block_size m' = m_block_size m" "m_enable_caching m' = m_enable_caching m"
    using assms(3) by (simp_all add: mgr_config_def)
  show ?thesis
    using assms(1)
    unfolding admits_def takes_hit_def cross_config [OF assms(3)] skipped_config [OF assms(3)] len nil bs
      plain_mode_config [OF assms(3)] hit_blocks_ok_view [OF assms(4)] .
qed

text \<open>One group before and after its part of the hit is taken over.\<close>

definition hit_stage :: "string \<Rightarrow> kv_cache_blocks \<Rightarrow> int \<Rightarrow> nat \<Rightarrow> manager \<Rightarrow> manager \<Rightarrow> bool" where
  "hit_stage rid a tot i m m' \<longleftrightarrow>
     (if is_shared_empty a \<or> is_cross m then m' = m
      else blocks_of rid m' = computed_prefix m (group_blocks a ! i) tot
           \<and> (\<forall>r. r \<noteq> rid \<longrightarrow> blocks_of r m' = blocks_of r m))"

lemma need_after_hit:
  assumes adm: "admits rid a tot p i m" and st: "hit_stage rid a tot i m m'" and cfg: "mgr_config m m'"
  shows "group_need rid n enc (group_blocks a) tot p i m
    = hit_cost (group_blocks a) tot p i m + blocks_missing rid n enc i m'"
proof -
  have bs: "m_block_size m' = m_block_size m" using cfg by (simp add: mgr_config_def)
  have "blocks_after_hit rid (group_blocks a) tot i m = int (length (blocks_of rid m'))"
  proof (cases "is_shared_empty a")
    case True
    with st have m': "m' = m" by (simp add: hit_stage_def)
    show ?thesis
      using adm True length_computed_prefix [of m "[]" tot]
      by (auto simp: m' blocks_after_hit_def admits_def)
  next
    case False
    then show ?thesis
      using adm st by (auto simp: blocks_after_hit_def hit_stage_def admits_def takes_hit_def split: if_splits)
  qed
  then show ?thesis by (simp add: group_need_def blocks_missing_def slots_config [OF cfg] bs)
qed

lemma take_hit_stage:
  assumes ok: "coord_ok c xs"
    and adm: "\<And>j. j < length (single_type_managers c) \<Longrightarrow>
      admits rid a tot (c_pool c) j (single_type_managers c ! j)"
    and fits: "(\<Sum>j = 0..<length (single_type_managers c).
        group_need rid n enc (group_blocks a) tot (c_pool c) j (single_type_managers c ! j)) \<le> get_num_free_blocks (c_pool c)"
  shows "\<exists>c' xs'. (if \<not> is_shared_empty a \<or> (0::int) > 0
        then coord_allocate_new_computed_blocks rid (group_blocks a) tot 0 c else Inr c) = Inr c'
    \<and> coord_ok c' xs' \<and> same_setup c c' \<and> pool_view (c_pool c') = pool_view (c_pool c)
    \<and> (\<forall>j < length (single_type_managers c). hit_stage rid a tot j (single_type_managers c ! j) (single_type_managers c' ! j))
    \<and> (\<Sum>j = 0..<length (single_type_managers c'). blocks_missing rid n enc j (single_type_managers c' ! j))
        \<le> get_num_free_blocks (c_pool c')"
proof -
  let ?ms = "single_type_managers c" and ?hs = "group_blocks a"
  let ?hit = "\<Sum>j = 0..<length ?ms. hit_cost ?hs tot (c_pool c) j (?ms ! j)"
  have split: "(\<Sum>j = 0..<length ?ms. group_need rid n enc ?hs tot (c_pool c) j (?ms ! j))
      = ?hit + (\<Sum>j = 0..<length (single_type_managers c'). blocks_missing rid n enc j (single_type_managers c' ! j))"
    if "same_setup c c'" "\<forall>j < length ?ms. hit_stage rid a tot j (?ms ! j) (single_type_managers c' ! j)" for c'
    unfolding same_setupD(1) [OF that(1)] sum.distrib [symmetric]
    using that(2) same_setupD(2) [OF that(1)] adm by (intro sum.cong) (auto intro: need_after_hit)
  have hit_nonneg: "0 \<le> ?hit" by (intro sum_nonneg) (simp add: hit_cost_def get_num_evictable_blocks_def)
  show ?thesis
  proof (cases "is_shared_empty a")
    case True
    then have "\<forall>j < length ?ms. hit_stage rid a tot j (?ms ! j) (?ms ! j)" by (simp add: hit_stage_def)
    with True ok fits split [OF same_setup_refl] hit_nonneg show ?thesis by auto
  next
    case False
    have takes: "takes_hit rid ?hs (c_pool c) j (?ms ! j)" if "j < length ?ms" for j
      using adm [OF that] False by (simp add: admits_def)
    have "0 \<le> (\<Sum>j = 0..<length ?ms. group_need rid n enc ?hs tot (c_pool c) j (?ms ! j) - hit_cost ?hs tot (c_pool c) j (?ms ! j))"
      by (intro sum_nonneg) (simp add: group_need_def)
    then have room: "?hit \<le> get_num_free_blocks (c_pool c)" using fits by (simp add: sum_subtractf)
    obtain c' xs' where c': "coord_allocate_new_computed_blocks rid ?hs tot 0 c = Inr c'" "coord_ok c' xs'" "same_setup c c'"
      "pool_view (c_pool c') = pool_view (c_pool c)"
      "get_num_free_blocks (c_pool c) - ?hit \<le> get_num_free_blocks (c_pool c')"
      "\<forall>j < length ?ms. hit_taken rid ?hs tot j (?ms ! j) () (single_type_managers c' ! j)"
      using coord_hit_spec [OF ok takes room] by blast
    have st: "\<forall>j < length ?ms. hit_stage rid a tot j (?ms ! j) (single_type_managers c' ! j)"
      using c'(6) by (simp add: hit_stage_def hit_taken_def False)
    show ?thesis using False c' st split [OF c'(3) st] fits by auto
  qed
qed

text \<open>What caching needs of a request: a hash for every full hash block of its tokens.\<close>

definition hashed_upto :: "request \<Rightarrow> int \<Rightarrow> bool" where
  "hashed_upto r h \<longleftrightarrow> 0 < h \<and> num_tokens r div h \<le> int (length (block_hashes r))"

lemma cacheable_full_blocks:
  assumes hashed: "hashed_upto r h" and b: "0 < m_block_size m" "h dvd m_block_size m" and i: "i < 2 ^ 32"
    and cls: "\<not> is_cross m" and n: "n \<le> num_tokens r" "n \<le> int (length (blocks_of (request_id r) m)) * m_block_size m"
  shows "cacheable r h n i m"
proof -
  let ?b = "m_block_size m"
  have h: "0 < h" and hl: "num_tokens r div h \<le> int (length (block_hashes r))" using hashed by (simp_all add: hashed_upto_def)
  obtain s where s: "?b = int s * h" "0 < s"
  proof -
    obtain t where t: "?b = h * t" using b(2) by blast
    then have "0 < t" using b(1) h by (simp add: zero_less_mult_iff)
    with t that [of "nat t"] show ?thesis by (simp add: mult.commute)
  qed
  have nh: "n div h \<le> int (length (block_hashes r))"
    using zdiv_mono1 [OF n(1) h] hl by linarith
  have q: "n div ?b = n div h div int s" 
    using zdiv_zmult2_eq [of "int s" n h] by (simp add: s(1) mult.commute)
  have merged: "n div ?b \<le> int (length (block_hashes r) div s)"
    unfolding q zdiv_int by (intro zdiv_mono1 nh) (use s(2) in simp)
  have held: "n div ?b \<le> int (length (blocks_of (request_id r) m))"
    using zdiv_mono1 [OF n(2) b(1)] b(1) by simp
  have "int (length (block_hashes r) div s) \<le> int (length (block_hashes r))" by simp
  then have raw: "n div ?b \<le> int (length (block_hashes r))" using merged by linarith
  have "\<exists>hs. (if ?b = h then Inr (block_hashes r) else block_hash_list_with_block_size (block_hashes r) h ?b) = Inr hs
      \<and> n div ?b \<le> int (length hs)"
    using regroup_length [OF s(2) h, of "block_hashes r"] merged raw s(1) by auto
  then show ?thesis using cls i held raw by (simp add: cacheable_def)
qed

subsection \<open>Allocating slots\<close>

text \<open>The manager in order, and the setup that caching needs of its groups.\<close>

definition kv_ok :: "kv_cache_manager \<Rightarrow> block_ref list \<Rightarrow> bool" where
  "kv_ok k xs \<longleftrightarrow> coord_ok (k_coordinator k) xs \<and> (\<forall>m \<in> set (k_managers k). plain_mode m)
     \<and> enable_caching (k_pool k) = k_enable_caching k
     \<and> empty_kv_cache_blocks k = \<lparr>group_blocks = replicate (length (k_managers k)) [], is_shared_empty = True\<rparr>"

definition can_cache :: "kv_cache_manager \<Rightarrow> bool" where
  "can_cache k \<longleftrightarrow> length (k_managers k) \<le> 2 ^ 32
     \<and> (\<forall>m \<in> set (k_managers k). \<not> is_cross m \<and> hash_block_size (k_pool k) dvd m_block_size m)"

text \<open>One group before and after the allocation; \<open>new\<close> are the blocks handed out.\<close>

definition slots_allocated ::
  "string \<Rightarrow> kv_cache_blocks \<Rightarrow> int \<Rightarrow> int \<Rightarrow> int \<Rightarrow> int \<Rightarrow> nat \<Rightarrow> manager \<Rightarrow> block_ref list \<Rightarrow> manager \<Rightarrow> bool" where
  "slots_allocated rid a tot kept need enc i m new m' \<longleftrightarrow>
     slots_for need enc m \<le> int (length (blocks_of rid m')) * m_block_size m
     \<and> (\<forall>r. r \<noteq> rid \<longrightarrow> blocks_of r m' = blocks_of r m) \<and> Blk 0 \<notin> set new
     \<and> (\<exists>old. blocks_of rid m' = old @ new
          \<and> (if is_shared_empty a \<or> is_cross m
             then length old = length (blocks_of rid m)
               \<and> (\<forall>l < length old. old ! l \<noteq> blocks_of rid m ! l \<longrightarrow> old ! l = Blk 0
                    \<and> (int l + 1) * m_block_size m \<le> get_num_skipped_tokens m (settled_tokens m kept))
             else old = computed_prefix m (group_blocks a ! i) tot))"

lemma slots_allocated_steps:
  assumes rem: "skipped_removed rid kept i m () m1" and cfg: "mgr_config m m1" and hit: "hit_stage rid a tot i m1 m2"
    and cfg2: "mgr_config m1 m2" and ext: "extended rid need enc i m2 new m3"
    and same: "\<And>r. blocks_of r m4 = blocks_of r m3"
  shows "slots_allocated rid a tot kept need enc i m new m4"
proof -
  note c2 = mgr_config_trans [OF cfg cfg2]
  have bs: "m_block_size m2 = m_block_size m" using c2 by (simp add: mgr_config_def)
  have "slots_for need enc m \<le> int (length (blocks_of rid m4)) * m_block_size m"
    using ext unfolding extended_def same bs slots_config [OF c2] by blast
  moreover have "blocks_of r m4 = blocks_of r m" if "r \<noteq> rid" for r
    using that rem hit ext by (auto simp: skipped_removed_def hit_stage_def extended_def same split: if_splits)
  moreover have "blocks_of rid m4 = blocks_of rid m2 @ new" "Blk 0 \<notin> set new" using ext by (simp_all add: extended_def same)
  ultimately show ?thesis
    using rem hit unfolding slots_allocated_def
    by (auto simp: skipped_removed_def hit_stage_def cross_config [OF cfg] prefix_config [OF cfg] split: if_splits)
qed

lemma kv_ok_setup:
  assumes "kv_ok k xs" "coord_ok c ys" "same_setup (k_coordinator k) c" "enable_caching (c_pool c) = enable_caching (k_pool k)"
  shows "kv_ok (k\<lparr>k_coordinator := c\<rparr>) ys"
  using assms same_setup_plain [OF assms(3)] same_setupD(1) [OF assms(3)] by (simp add: kv_ok_def)

lemma view_config: "pool_view p' = pool_view p \<Longrightarrow> enable_caching p' = enable_caching p \<and> hash_block_size p' = hash_block_size p"
  by (simp add: pool_view_def)

text \<open>The first stage removes skipped blocks and counts.\<close>

lemma count_stage:
  assumes ok: "coord_ok c xs" "\<forall>m \<in> set (single_type_managers c). plain_mode m"
    and adm: "\<And>j. j < length (single_type_managers c) \<Longrightarrow> admits rid a tot (c_pool c) j (single_type_managers c ! j)"
  shows "\<exists>c1 xs1. coord_remove_skipped_blocks rid kept c = Inr c1 \<and> coord_ok c1 xs1 \<and> same_setup c c1
    \<and> pool_view (c_pool c1) = pool_view (c_pool c)
    \<and> (\<forall>j < length (single_type_managers c).
          skipped_removed rid kept j (single_type_managers c ! j) () (single_type_managers c1 ! j))
    \<and> (\<forall>j < length (single_type_managers c1). admits rid a tot (c_pool c1) j (single_type_managers c1 ! j))
    \<and> coord_get_num_blocks_to_allocate rid n (group_blocks a) enc tot main c1
        = Inr (\<Sum>j = 0..<length (single_type_managers c1).
            group_count rid n enc (group_blocks a) tot (c_pool c1) j (single_type_managers c1 ! j), c1)"
proof -
  obtain c1 xs1 where c1: "coord_remove_skipped_blocks rid kept c = Inr c1" "coord_ok c1 xs1" "same_setup c c1"
    "pool_view (c_pool c1) = pool_view (c_pool c)"
    "\<forall>j < length (single_type_managers c). skipped_removed rid kept j (single_type_managers c ! j) () (single_type_managers c1 ! j)"
    using coord_remove_spec [OF ok] by blast
  have adm1: "admits rid a tot (c_pool c1) j (single_type_managers c1 ! j)" if "j < length (single_type_managers c1)" for j
    using that c1(5) same_setupD(1,2) [OF c1(3)] adm by (metis admits_after_removal [OF _ _ _ c1(4)])
  then have "countable rid (group_blocks a) tot j (single_type_managers c1 ! j) \<and> 0 < m_block_size (single_type_managers c1 ! j)"
    if "j < length (single_type_managers c1)" for j
    using that admits_countable mgr_invD(4) [OF coord_inv_manager [OF c1(2) that]] by blast
  from coord_count_eq [OF this] c1 adm1 show ?thesis by blast
qed

text \<open>The second and third stage run whenever the count fits into the free queue.\<close>

lemma allocation_stages:
  assumes ok: "coord_ok c xs" "\<forall>m \<in> set (single_type_managers c). plain_mode m"
    and adm: "\<And>j. j < length (single_type_managers c) \<Longrightarrow> admits rid a tot (c_pool c) j (single_type_managers c ! j)"
    and fits: "(\<Sum>j = 0..<length (single_type_managers c).
        group_count rid n enc (group_blocks a) tot (c_pool c) j (single_type_managers c ! j)) \<le> get_num_free_blocks (c_pool c)"
  shows "\<exists>c2 new c3 xs3. (if \<not> is_shared_empty a \<or> (0::int) > 0
        then coord_allocate_new_computed_blocks rid (group_blocks a) tot 0 c else Inr c) = Inr c2
    \<and> coord_allocate_new_blocks rid n main enc c2 = Inr (new, c3) \<and> coord_ok c3 xs3 \<and> same_setup c c3
    \<and> enable_caching (c_pool c3) = enable_caching (c_pool c) \<and> hash_block_size (c_pool c3) = hash_block_size (c_pool c)
    \<and> length new = length (single_type_managers c)
    \<and> (\<forall>j < length (single_type_managers c). \<exists>m. hit_stage rid a tot j (single_type_managers c ! j) m
          \<and> mgr_config (single_type_managers c ! j) m \<and> extended rid n enc j m (new ! j) (single_type_managers c3 ! j))"
proof -
  note need = fits [unfolded count_fits [OF coord_inv_pool [OF ok(1)] fits]]
  obtain c2 xs2 where c2: "(if \<not> is_shared_empty a \<or> (0::int) > 0
        then coord_allocate_new_computed_blocks rid (group_blocks a) tot 0 c else Inr c) = Inr c2"
    "coord_ok c2 xs2" "same_setup c c2" "pool_view (c_pool c2) = pool_view (c_pool c)"
    "\<forall>j < length (single_type_managers c). hit_stage rid a tot j (single_type_managers c ! j) (single_type_managers c2 ! j)"
    "(\<Sum>j = 0..<length (single_type_managers c2). blocks_missing rid n enc j (single_type_managers c2 ! j))
        \<le> get_num_free_blocks (c_pool c2)"
    using take_hit_stage [OF ok(1) adm need] by blast
  obtain new c3 xs3 where c3: "coord_allocate_new_blocks rid n main enc c2 = Inr (new, c3)" "coord_ok c3 xs3"
    "same_setup c2 c3" "enable_caching (c_pool c3) = enable_caching (c_pool c2)"
    "hash_block_size (c_pool c3) = hash_block_size (c_pool c2)" "length new = length (single_type_managers c2)"
    "\<forall>i < length (single_type_managers c2). extended rid n enc i (single_type_managers c2 ! i) (new ! i) (single_type_managers c3 ! i)"
    using coord_allocate_spec [OF c2(2) same_setup_plain [OF c2(3) ok(2)] c2(6), of main] by blast
  have each: "\<exists>m. hit_stage rid a tot j (single_type_managers c ! j) m \<and> mgr_config (single_type_managers c ! j) m
      \<and> extended rid n enc j m (new ! j) (single_type_managers c3 ! j)" if "j < length (single_type_managers c)" for j
    using that c2(5) c3(7) same_setupD(1,2) [OF c2(3)] by auto
  show ?thesis
    by (rule exI [of _ c2], rule exI [of _ new], rule exI [of _ c3], rule exI [of _ xs3])
      (use c2 c3 each same_setup_trans [OF c2(3) c3(3)] view_config [OF c2(4)] same_setupD(1) [OF c2(3)] in simp)
qed

text \<open>The full blocks of what is to be cached have slots and hashes.\<close>

lemma cache_stage:
  assumes ok: "coord_ok c xs" "enable_caching (c_pool c)" "length (single_type_managers c) \<le> 2 ^ 32"
    and hashed: "hashed_upto r (hash_block_size (c_pool c))" and n: "n \<le> num_tokens r"
    and each: "\<And>m. m \<in> set (single_type_managers c) \<Longrightarrow> \<not> is_cross m \<and> hash_block_size (c_pool c) dvd m_block_size m
      \<and> n \<le> int (length (blocks_of (request_id r) m)) * m_block_size m"
  shows "\<exists>memo c' xs'. coord_cache_blocks env r n c = Inr (r\<lparr>prompt_embeds_per_block_hashes := memo\<rparr>, c')
    \<and> coord_ok c' xs' \<and> same_setup c c' \<and> enable_caching (c_pool c')
    \<and> (\<forall>i < length (single_type_managers c).
          all_cached_upto r n i (single_type_managers c ! i) () (single_type_managers c' ! i))"
proof -
  let ?ms = "single_type_managers c"
  have pre: "cacheable r (hash_block_size (c_pool c)) n j (?ms ! j)" if "j < length ?ms" for j
    using that ok(3) each [of "?ms ! j"] mgr_invD(4) [OF coord_inv_manager [OF ok(1) that]]
    by (intro cacheable_full_blocks [OF hashed _ _ _ _ n]) auto
  from coord_cache_spec [OF ok(1,2) pre, of env] obtain memo c' xs' where
    c': "coord_cache_blocks env r n c = Inr (r\<lparr>prompt_embeds_per_block_hashes := memo\<rparr>, c')" "coord_ok c' xs'" "same_setup c c'"
    "\<forall>i < length ?ms. all_cached_upto r n i (?ms ! i) () (single_type_managers c' ! i)" "enable_caching (c_pool c')" by blast
  then show ?thesis by blast
qed

lemma created_blocks_nth:
  assumes "length new = length (k_managers k)" "kv_ok k xs" "j < length (k_managers k)"
  shows "group_blocks (create_kv_cache_blocks new k) ! j = new ! j"
proof (cases "\<exists>g \<in> set new. g \<noteq> []")
  case False
  then have "new ! j = []" using assms(1,3) nth_mem by fastforce
  with False assms(2,3) show ?thesis by (auto simp: create_kv_cache_blocks_def kv_ok_def)
qed (simp add: create_kv_cache_blocks_def)

text \<open>What \<open>allocate_slots\<close> returns, with the state it leaves.\<close>

definition slots_outcome ::
  "kv_cache_manager \<Rightarrow> request \<Rightarrow> kv_cache_blocks \<Rightarrow> int \<Rightarrow> int \<Rightarrow> int \<Rightarrow> int \<Rightarrow> bool \<Rightarrow> int
   \<Rightarrow> kv_cache_blocks option \<Rightarrow> kv_cache_manager \<Rightarrow> bool" where
  "slots_outcome k r a tot kept need enc cached n out k' \<longleftrightarrow> length (k_managers k') = length (k_managers k)
     \<and> (\<forall>j < length (k_managers k). mgr_config (k_managers k ! j) (k_managers k' ! j)) \<and>
     (case out of
        None \<Rightarrow>
          (\<forall>j < length (k_managers k). skipped_removed (request_id r) kept j (k_managers k ! j) () (k_managers k' ! j))
          \<and> get_num_free_blocks (k_pool k')
              < (\<Sum>j = 0..<length (k_managers k').
                   group_count (request_id r) need enc (group_blocks a) tot (k_pool k') j (k_managers k' ! j))
      | Some new \<Rightarrow>
          (\<forall>j < length (k_managers k).
             slots_allocated (request_id r) a tot kept need enc j (k_managers k ! j) (group_blocks new ! j) (k_managers k' ! j)
             \<and> (cached \<longrightarrow> n div m_block_size (k_managers k ! j) \<le> num_cached (request_id r) (k_managers k' ! j))))"

lemma slots_without_caching:
  assumes ok: "kv_ok k xs" and c1: "same_setup (k_coordinator k) c1"
    "\<forall>j < length (k_managers k). skipped_removed rid kept j (k_managers k ! j) () (single_type_managers c1 ! j)"
    and new: "length new = length (k_managers k)"
    "\<forall>j < length (k_managers k). \<exists>m. hit_stage rid a tot j (single_type_managers c1 ! j) m
        \<and> mgr_config (single_type_managers c1 ! j) m \<and> extended rid need enc j m (new ! j) (ms ! j)"
    and same: "\<And>j r. j < length (k_managers k) \<Longrightarrow> blocks_of r (ms' ! j) = blocks_of r (ms ! j)"
    and j: "j < length (k_managers k)"
  shows "slots_allocated rid a tot kept need enc j (k_managers k ! j) (group_blocks (create_kv_cache_blocks new k) ! j) (ms' ! j)"
proof -
  obtain m where m: "hit_stage rid a tot j (single_type_managers c1 ! j) m" "mgr_config (single_type_managers c1 ! j) m"
    "extended rid need enc j m (new ! j) (ms ! j)" using new(2) j by blast
  show ?thesis
    unfolding created_blocks_nth [OF new(1) ok j]
    using c1(2) j same_setupD(2) [OF c1(1) j] m same [OF j] by (blast intro: slots_allocated_steps)
qed

lemma finish_stage:
  assumes ok: "kv_ok k xs" and c: "coord_ok c xs3" "same_setup (k_coordinator k) c"
      "enable_caching (c_pool c) = enable_caching (k_pool k)" "hash_block_size (c_pool c) = hash_block_size (k_pool k)"
    and alloc: "\<And>ms' j. (\<And>j rid. j < length (k_managers k) \<Longrightarrow>
          blocks_of rid (ms' ! j) = blocks_of rid (single_type_managers c ! j)) \<Longrightarrow> j < length (k_managers k) \<Longrightarrow>
        slots_allocated (request_id r) a tot kept need enc j (k_managers k ! j) (group_blocks new ! j) (ms' ! j)"
    and cache: "cached \<Longrightarrow> k_enable_caching k \<and> can_cache k \<and> hashed_upto r (hash_block_size (k_pool k))
        \<and> n \<le> num_tokens r \<and> n \<le> need"
  shows "\<exists>r' c' ys. (if cached then coord_cache_blocks env r n c else Inr (r, c)) = Inr (r', c')
    \<and> kv_ok (k\<lparr>k_coordinator := c'\<rparr>) ys
    \<and> slots_outcome k r a tot kept need enc cached n (Some new) (k\<lparr>k_coordinator := c'\<rparr>)"
proof (cases cached)
  case False
  then show ?thesis
    using kv_ok_setup [OF ok c(1,2,3)] alloc [of "single_type_managers c"] same_setupD(1,2) [OF c(2)]
    by (auto simp: slots_outcome_def)
next
  case True
  note cache = cache [OF True]
  let ?len = "length (k_managers k)" and ?rid = "request_id r"
  have caching: "enable_caching (c_pool c)" using c(3) cache ok by (simp add: kv_ok_def)
  have room: "\<not> is_cross m \<and> hash_block_size (c_pool c) dvd m_block_size m
      \<and> n \<le> int (length (blocks_of ?rid m)) * m_block_size m" if m: "m \<in> set (single_type_managers c)" for m
  proof -
    obtain j where j: "m = single_type_managers c ! j" "j < ?len"
      using m same_setupD(1) [OF c(2)] by (metis in_set_conv_nth)
    let ?m = "k_managers k ! j"
    have cfg: "mgr_config ?m m" unfolding j(1) by (rule same_setupD(2) [OF c(2) j(2)])
    have "slots_for need enc ?m \<le> int (length (blocks_of ?rid m)) * m_block_size ?m"
      using alloc [of "single_type_managers c", OF refl j(2)] unfolding slots_allocated_def j(1) by blast
    moreover have "\<not> is_cross ?m" "hash_block_size (k_pool k) dvd m_block_size ?m"
      using cache j(2) by (simp_all add: can_cache_def)
    moreover have "need \<le> asked_tokens ?m need"
      using ok mgr_invD(4) [OF coord_inv_manager [OF _ j(2)]] by (auto simp: kv_ok_def intro: asked_tokens_ge)
    ultimately show ?thesis
      using cache cfg unfolding c(4) slots_for_def mgr_config_def is_cross_def by simp
  qed
  have side: "length (single_type_managers c) \<le> 2 ^ 32" "hashed_upto r (hash_block_size (c_pool c))" "n \<le> num_tokens r"
    using cache same_setupD(1) [OF c(2)] c(4) by (simp_all add: can_cache_def)
  obtain memo c' ys where c': "coord_cache_blocks env r n c = Inr (r\<lparr>prompt_embeds_per_block_hashes := memo\<rparr>, c')"
    "coord_ok c' ys" "same_setup c c'" "enable_caching (c_pool c')"
    "\<forall>i < length (single_type_managers c).
        all_cached_upto r n i (single_type_managers c ! i) () (single_type_managers c' ! i)"
    using cache_stage [OF c(1) caching side room, of env] by blast
  note cfg' = same_setup_trans [OF c(2) c'(3)]
  have each: "(\<forall>rid. blocks_of rid (single_type_managers c' ! j) = blocks_of rid (single_type_managers c ! j))
      \<and> n div m_block_size (k_managers k ! j) \<le> num_cached ?rid (single_type_managers c' ! j)" if "j < ?len" for j
    using c'(5) that same_setupD(1,2) [OF c(2)] by (auto simp: all_cached_upto_def mgr_config_def)
  have "kv_ok (k\<lparr>k_coordinator := c'\<rparr>) ys"
    using kv_ok_setup [OF ok c'(2) cfg'] c'(4) cache ok by (simp add: kv_ok_def)
  moreover have "slots_outcome k r a tot kept need enc cached n (Some new) (k\<lparr>k_coordinator := c'\<rparr>)"
    using alloc [of "single_type_managers c'"] each same_setupD(1,2) [OF cfg'] by (simp add: slots_outcome_def)
  ultimately show ?thesis using True c'(1) by auto
qed

lemma granted_stages:
  assumes ok: "kv_ok k xs"
    and c1: "coord_ok c1 xs1" "same_setup (k_coordinator k) c1" "pool_view (c_pool c1) = pool_view (k_pool k)"
      "\<forall>j < length (k_managers k). skipped_removed (request_id r) kept j (k_managers k ! j) () (single_type_managers c1 ! j)"
    and adm: "\<forall>j < length (single_type_managers c1). admits (request_id r) a tot (c_pool c1) j (single_type_managers c1 ! j)"
    and fits: "(\<Sum>j = 0..<length (single_type_managers c1).
        group_count (request_id r) need enc (group_blocks a) tot (c_pool c1) j (single_type_managers c1 ! j))
          \<le> get_num_free_blocks (c_pool c1)"
    and cache: "cached \<Longrightarrow> k_enable_caching k \<and> can_cache k \<and> hashed_upto r (hash_block_size (k_pool k))
        \<and> n \<le> num_tokens r \<and> n \<le> need"
  shows "\<exists>c2 new c3 r' c4 ys. (if \<not> is_shared_empty a \<or> (0::int) > 0
        then coord_allocate_new_computed_blocks (request_id r) (group_blocks a) tot 0 c1 else Inr c1) = Inr c2
    \<and> coord_allocate_new_blocks (request_id r) need main enc c2 = Inr (new, c3)
    \<and> (if cached then coord_cache_blocks env r n c3 else Inr (r, c3)) = Inr (r', c4)
    \<and> kv_ok (k\<lparr>k_coordinator := c4\<rparr>) ys
    \<and> slots_outcome k r a tot kept need enc cached n (Some (create_kv_cache_blocks new k)) (k\<lparr>k_coordinator := c4\<rparr>)"
proof -
  let ?rid = "request_id r" and ?len = "length (k_managers k)"
  have len: "length (single_type_managers c1) = ?len" by (rule same_setupD(1) [OF c1(2)])
  have plain: "\<forall>m \<in> set (single_type_managers c1). plain_mode m"
    using same_setup_plain [OF c1(2)] ok by (simp add: kv_ok_def)
  have "admits ?rid a tot (c_pool c1) j (single_type_managers c1 ! j)" if "j < length (single_type_managers c1)" for j
    using adm that by blast
  from allocation_stages [OF c1(1) plain this fits, of main] obtain c2 new c3 xs3 where
    s: "(if \<not> is_shared_empty a \<or> (0::int) > 0
        then coord_allocate_new_computed_blocks ?rid (group_blocks a) tot 0 c1 else Inr c1) = Inr c2"
    "coord_allocate_new_blocks ?rid need main enc c2 = Inr (new, c3)" "coord_ok c3 xs3" "same_setup c1 c3"
    "enable_caching (c_pool c3) = enable_caching (c_pool c1)" "hash_block_size (c_pool c3) = hash_block_size (c_pool c1)"
    "length new = ?len"
    and each: "\<forall>j < ?len. \<exists>m. hit_stage ?rid a tot j (single_type_managers c1 ! j) m
          \<and> mgr_config (single_type_managers c1 ! j) m \<and> extended ?rid need enc j m (new ! j) (single_type_managers c3 ! j)"
    unfolding len by blast
  have pool: "enable_caching (c_pool c3) = enable_caching (k_pool k)" "hash_block_size (c_pool c3) = hash_block_size (k_pool k)"
    using s(5,6) view_config [OF c1(3)] by simp_all
  from finish_stage [OF ok s(3) same_setup_trans [OF c1(2) s(4)] pool
      slots_without_caching [OF ok c1(2,4) s(7) each] cache, where env = env] s(1,2)
  show ?thesis by blast
qed

lemma allocate_slots_cases:
  assumes ok: "kv_ok k xs" and new: "0 < num_new" "0 \<le> num_lookahead"
    and adm: "\<forall>j < length (k_managers k). admits (request_id r) (given_blocks new_computed k)
        (num_computed_tokens r + num_new_computed) (k_pool k) j (k_managers k ! j)"
    and cache: "k_enable_caching k \<and> \<not> delay_cache \<Longrightarrow>
        can_cache k \<and> hashed_upto r (hash_block_size (k_pool k)) \<and> num_tokens r \<le> k_max_model_len k"
  shows "\<exists>out r' k' ys.
    allocate_slots env r num_new num_new_computed new_computed num_lookahead 0 delay_cache enc k = Inr (out, r', k')
    \<and> kv_ok k' ys
    \<and> slots_outcome k r (given_blocks new_computed k) (num_computed_tokens r + num_new_computed)
        (total_computed_tokens k r num_new_computed 0)
        (num_tokens_need_slot k r num_new num_new_computed num_lookahead 0) enc
        (k_enable_caching k \<and> \<not> delay_cache) (num_tokens_to_cache k r num_new num_new_computed 0) out k'"
proof -
  let ?rid = "request_id r" and ?a = "given_blocks new_computed k" and ?tot = "num_computed_tokens r + num_new_computed"
    and ?kept = "total_computed_tokens k r num_new_computed 0" and ?cached = "k_enable_caching k \<and> \<not> delay_cache"
    and ?need = "num_tokens_need_slot k r num_new num_new_computed num_lookahead 0"
    and ?n = "num_tokens_to_cache k r num_new num_new_computed 0" and ?c = "k_coordinator k"
  have ok': "coord_ok ?c xs" "\<forall>m \<in> set (k_managers k). plain_mode m" using ok by (simp_all add: kv_ok_def)
  obtain c1 xs1 where c1: "coord_remove_skipped_blocks ?rid ?kept ?c = Inr c1" "coord_ok c1 xs1" "same_setup ?c c1"
    "pool_view (c_pool c1) = pool_view (k_pool k)"
    "\<forall>j < length (k_managers k). skipped_removed ?rid ?kept j (k_managers k ! j) () (single_type_managers c1 ! j)"
    and adm1: "\<forall>j < length (single_type_managers c1). admits ?rid ?a ?tot (c_pool c1) j (single_type_managers c1 ! j)"
    and count: "coord_get_num_blocks_to_allocate ?rid ?need (group_blocks ?a) enc ?tot (?kept + num_new) c1
        = Inr (\<Sum>j = 0..<length (single_type_managers c1).
            group_count ?rid ?need enc (group_blocks ?a) ?tot (c_pool c1) j (single_type_managers c1 ! j), c1)"
    (is "_ = Inr (?sum, _)")
    using count_stage [OF ok', of ?rid ?a ?tot ?kept ?need enc "?kept + num_new"] adm by blast
  note run = allocate_slots_def Let_def c1(1) count
  show ?thesis
  proof (cases "?sum \<le> get_num_free_blocks (c_pool c1)")
    case False
    then have "slots_outcome k r ?a ?tot ?kept ?need enc ?cached ?n None (k\<lparr>k_coordinator := c1\<rparr>)"
      using c1(5) same_setupD(1,2) [OF c1(3)] by (simp add: slots_outcome_def)
    moreover have "allocate_slots env r num_new num_new_computed new_computed num_lookahead 0 delay_cache enc k
        = Inr (None, r, k\<lparr>k_coordinator := c1\<rparr>)" using False new(1) by (simp add: run)
    ultimately show ?thesis using kv_ok_setup [OF ok c1(2,3)] view_config [OF c1(4)] by blast
  next
    case True
    have "?n \<le> num_tokens r \<and> (num_tokens r \<le> k_max_model_len k \<longrightarrow> ?n \<le> ?need)"
      using new(2) by (auto simp: num_tokens_to_cache_def num_tokens_need_slot_def)
    with granted_stages [OF ok c1(2-5) adm1 True, of ?cached ?n "?kept + num_new" env] cache
    obtain c2 blks c3 r' c4 ys where s: "(if \<not> is_shared_empty ?a \<or> (0::int) > 0
        then coord_allocate_new_computed_blocks ?rid (group_blocks ?a) ?tot 0 c1 else Inr c1) = Inr c2"
      "coord_allocate_new_blocks ?rid ?need (?kept + num_new) enc c2 = Inr (blks, c3)"
      "(if ?cached then coord_cache_blocks env r ?n c3 else Inr (r, c3)) = Inr (r', c4)"
      "kv_ok (k\<lparr>k_coordinator := c4\<rparr>) ys"
      "slots_outcome k r ?a ?tot ?kept ?need enc ?cached ?n (Some (create_kv_cache_blocks blks k)) (k\<lparr>k_coordinator := c4\<rparr>)"
      by blast
    have "allocate_slots env r num_new num_new_computed new_computed num_lookahead 0 delay_cache enc k
        = Inr (Some (create_kv_cache_blocks blks k), r', k\<lparr>k_coordinator := c4\<rparr>)"
      using new(1) True s(1-3) by (auto simp: run split: if_splits)
    with s(4,5) show ?thesis by blast
  qed
qed

subsection \<open>From the lookup to the allocation\<close>

lemma found_blocks_ok:
  assumes ok: "pool_ok p xs" and d: "distinct hs" "length bs \<le> length hs"
    and each: "\<And>l. l < length bs \<Longrightarrow> key_ok p (hs ! l) g (bs ! l) \<or> bs ! l = Blk 0"
  shows "hit_blocks_ok p bs"
proof -
  have null: "Blk 0 \<in> set (blocks p)" using ok by (auto simp: pool_part_def)
  have key: "b \<in> set (blocks p) \<and> hash_of p b \<noteq> None" if "key_ok p h g b" for h b
    using that pool_partD(8) [OF ok] by (auto simp: key_ok_def)
  have "set bs \<subseteq> set (blocks p) \<and> (\<forall>b \<in> set bs. b \<noteq> Blk 0 \<longrightarrow> hash_of p b \<noteq> None)"
    using each key null by (auto simp: in_set_conv_nth) metis+
  moreover have "i = j" if ij: "i < length bs" "j < length bs" "bs ! i = bs ! j" "bs ! i \<noteq> Blk 0" for i j
  proof -
    have "key_ok p (hs ! i) g (bs ! i)" "key_ok p (hs ! j) g (bs ! i)" using each [OF ij(1)] each [OF ij(2)] ij(3,4) by auto
    from key_ok_inj [OF this] show ?thesis using d ij(1,2) by (simp add: nth_eq_iff_index_eq)
  qed
  then have "distinct (filter (\<lambda>b. b \<noteq> Blk 0) bs)" by (intro distinct_filterI) simp
  ultimately show ?thesis by (simp add: hit_blocks_ok_def)
qed

text \<open>
  A coordinator in use whose managers are those of its configuration, and what a search for a request
  needs of the configuration: a layout the search supports, and a distinct hash for every block of the
  searched length, in every block size.
\<close>

definition groups_match :: "coordinator \<Rightarrow> bool" where
  "groups_match c \<longleftrightarrow> map m_spec (single_type_managers c) = kv_cache_groups (c_config c)
     \<and> (\<forall>m \<in> set (single_type_managers c).
          m_block_size m = scaled_block_size (m_spec m) (dcp_world_size c) (pcp_world_size c))
     \<and> (case c_class c of
          KVCacheCoordinatorNoPrefixCache \<Rightarrow> True
        | UnitaryKVCacheCoordinator \<Rightarrow> \<exists>c0. unitary_init c0 = Inr c
        | HybridKVCacheCoordinator \<Rightarrow> \<exists>c0. hybrid_init c0 = Inr c \<and> single_type_managers c0 = single_type_managers c)"

definition searchable :: "coordinator \<Rightarrow> bytes list \<Rightarrow> int \<Rightarrow> bool" where
  "searchable c hs max_len \<longleftrightarrow>
     (case c_class c of
        KVCacheCoordinatorNoPrefixCache \<Rightarrow> True
      | UnitaryKVCacheCoordinator \<Rightarrow>
          distinct hs \<and> 1 \<le> dcp_world_size c \<and> 1 \<le> pcp_world_size c \<and> (\<forall>spec \<in> set (kv_cache_groups (c_config c)).
            hit_config (spec_class_of spec) (spec_block_size spec) (c_use_eagle c) (c_block_size c)
              (dcp_world_size c) (pcp_world_size c) \<and> max_len div c_block_size c \<le> int (length hs))
      | HybridKVCacheCoordinator \<Rightarrow>
          search_config c hs max_len
          \<and> (\<forall>spec \<in> set (kv_cache_groups (c_config c)). \<forall>hs'. spec_block_hashes hs spec c = Inr hs' \<longrightarrow> distinct hs'))"

text \<open>What the allocation needs of a hit.\<close>

definition hit_for :: "coordinator \<Rightarrow> block_ref list list \<Rightarrow> int \<Rightarrow> bool" where
  "hit_for c blks len \<longleftrightarrow> length blks = length (single_type_managers c)
     \<and> (\<forall>j < length blks. hit_blocks_ok (c_pool c) (blks ! j)
          \<and> int (length (blks ! j)) * m_block_size (single_type_managers c ! j) = len)"

lemma unitary_init_size:
  assumes "unitary_init c0 = Inr c" "1 \<le> dcp_world_size c" "1 \<le> pcp_world_size c"
  shows "\<exists>spec. kv_cache_groups (c_config c) = [spec]
    \<and> c_block_size c = scaled_block_size spec (dcp_world_size c) (pcp_world_size c)"
proof -
  have size: "(if 1 < q then (if 1 < d then b * d else b) * q else if 1 < d then b * d else b) = b * d * q"
    if "1 \<le> d" "1 \<le> q" for b d q :: int using that by auto
  have scaled: "scaled_block_size spec d q = spec_block_size spec * d * q" if "1 \<le> d" "1 \<le> q" for spec d q
  proof (cases "d * q > 1")
    case False
    moreover have "1 \<le> d * q" using that by (metis mult_mono' mult.right_neutral zero_le_one)
    ultimately have "d * q = 1" by linarith
    then show ?thesis by (simp add: scaled_block_size_def mult.assoc)
  qed (simp add: scaled_block_size_def)
  obtain spec where c: "kv_cache_groups (c_config c0) = [spec]" "c = c0\<lparr>c_block_size := c_block_size c\<rparr>"
    "c_block_size c = (if 1 < pcp_world_size c0 then (if 1 < dcp_world_size c0 then spec_block_size spec * dcp_world_size c0
       else spec_block_size spec) * pcp_world_size c0
      else if 1 < dcp_world_size c0 then spec_block_size spec * dcp_world_size c0 else spec_block_size spec)"
    using assms(1) by (auto simp: unitary_init_def bindR_eq_Inr Let_def length_Suc_conv)
  have "dcp_world_size c0 = dcp_world_size c" "pcp_world_size c0 = pcp_world_size c" "c_config c0 = c_config c"
    by (subst c(2), simp)+
  with c(1,3) size [OF assms(2,3)] scaled [OF assms(2,3)] show ?thesis by auto
qed

lemma unitary_search:
  assumes ok: "coord_ok c xs" and cls: "c_class c = UnitaryKVCacheCoordinator" and gm: "groups_match c"
    and s: "searchable c hs max_len" and len: "0 \<le> max_len"
  shows "\<exists>blks n. coord_find_longest_cache_hit hs max_len c = Inr (blks, n) \<and> 0 \<le> n \<and> n \<le> max_len
    \<and> hit_for c blks n \<and> blks \<noteq> []"
proof -
  obtain c0 where "unitary_init c0 = Inr c" using gm cls by (auto simp: groups_match_def)
  then obtain spec where spec: "kv_cache_groups (c_config c) = [spec]"
    "c_block_size c = scaled_block_size spec (dcp_world_size c) (pcp_world_size c)"
    using unitary_init_size s by (fastforce simp: searchable_def cls)
  then obtain m where m: "single_type_managers c = [m]" "m_spec m = spec" "m_block_size m = c_block_size c"
    using gm by (auto simp: groups_match_def)
  have b: "0 < scaled_block_size spec (dcp_world_size c) (pcp_world_size c)"
    using mgr_invD(4) [OF coord_inv_manager [OF ok, of 0]] by (simp add: m spec(2) [symmetric])
  have conf: "hit_config (spec_class_of spec) (spec_block_size spec) (c_use_eagle c) (c_block_size c) (dcp_world_size c) (pcp_world_size c)"
    and hs: "distinct hs" and lim: "max_len div scaled_block_size spec (dcp_world_size c) (pcp_world_size c) \<le> int (length hs)"
    using s by (simp_all add: searchable_def cls spec)
  have g: "\<forall>g \<in> set [0]. g < (2 :: nat) ^ 32" "[0] \<noteq> ([] :: nat list)" by simp_all
  obtain n computed where f: "find_longest_cache_hit (spec_manager_map (spec_class_of spec)) hs max_len [0] (c_pool c) spec
        (c_use_eagle c) (c_block_size c) (dcp_world_size c) (pcp_world_size c) = Inr computed"
    "hit_upto (c_pool c) [0] hs n (\<lambda>l. (int l + 1) * scaled_block_size spec (dcp_world_size c) (pcp_world_size c)
          > skipped_by (spec_class_of spec) (int n * scaled_block_size spec (dcp_world_size c) (pcp_world_size c))) computed"
    "int n * scaled_block_size spec (dcp_world_size c) (pcp_world_size c) \<le> max_len"
    using hit_usable [OF coord_inv_pool [OF ok] g conf b len lim] by blast
  then obtain bs where bs: "computed = [bs]" by (auto simp: hit_upto_def length_Suc_conv)
  have "hit_blocks_ok (c_pool c) bs" "length bs = n"
    using f(2) by (auto simp: bs hit_upto_def intro!: found_blocks_ok [OF coord_inv_pool [OF ok] hs, of _ 0])
  moreover have "coord_find_longest_cache_hit hs max_len c = Inr ([bs], int (length bs) * c_block_size c)"
    using f(1) by (simp add: coord_find_longest_cache_hit_def cls unitary_find_longest_cache_hit_def spec(1) m bs)
  ultimately show ?thesis using f(3) b by (simp add: spec(2) [symmetric] hit_for_def m)
qed

lemma hybrid_search:
  assumes ok: "coord_ok c xs" and cls: "c_class c = HybridKVCacheCoordinator" and gm: "groups_match c"
    and s: "searchable c hs max_len" and len: "0 \<le> max_len"
  shows "\<exists>blks n. coord_find_longest_cache_hit hs max_len c = Inr (blks, n) \<and> 0 \<le> n \<and> n \<le> max_len
    \<and> hit_for c blks n \<and> blks \<noteq> []"
proof -
  obtain c0 where c0: "hybrid_init c0 = Inr c" "single_type_managers c0 = single_type_managers c"
    using gm cls by (auto simp: groups_match_def)
  have cfg: "c_config c0 = c_config c" and one: "dcp_world_size c = 1" "pcp_world_size c = 1"
    using c0(1) by (auto simp: hybrid_init_def verify_and_split_kv_cache_groups_def bindR_eq_Inr)
  have specs: "map m_spec (single_type_managers c) = kv_cache_groups (c_config c)" using gm by (simp add: groups_match_def)
  then have ms: "length (single_type_managers c0) = length (kv_cache_groups (c_config c0))"
    "\<forall>j < length (kv_cache_groups (c_config c0)). m_spec (single_type_managers c0 ! j) = kv_cache_groups (c_config c0) ! j"
    unfolding cfg c0(2) by (metis length_map, metis length_map nth_map)
  have sc: "search_config c hs max_len"
    and d: "\<And>spec hs'. spec \<in> set (kv_cache_groups (c_config c)) \<Longrightarrow> spec_block_hashes hs spec c = Inr hs' \<Longrightarrow> distinct hs'"
    using s by (auto simp: searchable_def cls)
  have null: "null_block (c_pool c) = Blk 0" using coord_inv_pool [OF ok] by (simp add: pool_part_def)
  have "kv_cache_groups (c_config c) \<noteq> []"
    using c0(1) by (auto simp: hybrid_init_def verify_and_split_kv_cache_groups_def bindR_eq_Inr)
  moreover
  obtain blks n where r: "hybrid_find_longest_cache_hit hs max_len c = Inr (blks, n)" "0 \<le> n \<and> n \<le> max_len"
    "length blks = length (kv_cache_groups (c_config c))"
    and each: "\<forall>g < length (kv_cache_groups (c_config c)). \<forall>spec. spec = kv_cache_groups (c_config c) ! g \<longrightarrow>
          int (length (blks ! g)) * spec_block_size spec = n
          \<and> (\<forall>l < length (blks ! g). \<exists>hs'. spec_block_hashes hs spec c = Inr hs'
              \<and> (key_ok (c_pool c) (hs' ! l) g (blks ! g ! l)
                 \<or> ((int l + 1) * spec_block_size spec \<le> skipped_by (spec_class_of spec) n
                    \<and> blks ! g ! l = null_block (c_pool c))))"
    using hybrid_agreed [OF c0(1) ms sc coord_inv_pool [OF ok] len] by blast
  moreover have "hit_blocks_ok (c_pool c) (blks ! j) \<and> int (length (blks ! j)) * m_block_size (single_type_managers c ! j) = n"
    if j: "j < length (kv_cache_groups (c_config c))" for j
  proof -
    let ?spec = "kv_cache_groups (c_config c) ! j"
    note e = each [rule_format, OF j refl]
    have mem: "?spec \<in> set (kv_cache_groups (c_config c))" using j by simp
    obtain hs' where hs': "spec_block_hashes hs ?spec c = Inr hs'" "max_len div spec_block_size ?spec \<le> int (length hs')"
      "0 < spec_block_size ?spec" using sc mem unfolding search_config_def by blast
    have "length (blks ! j) \<le> length hs'"
    proof -
      have "int (length (blks ! j)) \<le> max_len div spec_block_size ?spec"
        using e r(2) hs'(3) by (simp add: le_div_int_iff)
      then show ?thesis using hs'(2) by linarith
    qed
    moreover have "key_ok (c_pool c) (hs' ! l) j (blks ! j ! l) \<or> blks ! j ! l = Blk 0" if "l < length (blks ! j)" for l
      using e that hs'(1) null by auto
    ultimately have "hit_blocks_ok (c_pool c) (blks ! j)"
      by (intro found_blocks_ok [OF coord_inv_pool [OF ok] d [OF mem hs'(1)]])
    moreover have "single_type_managers c ! j \<in> set (single_type_managers c)" "m_spec (single_type_managers c ! j) = ?spec"
      using j ms unfolding c0(2) cfg by auto
    then have "m_block_size (single_type_managers c ! j) = spec_block_size ?spec"
      using gm by (simp add: groups_match_def one scaled_block_size_def)
    ultimately show ?thesis using e by simp
  qed
  ultimately have "hit_for c blks n" "blks \<noteq> []" using r(3) ms(1) unfolding hit_for_def c0(2) cfg by auto
  then show ?thesis using r(1,2) by (simp add: coord_find_longest_cache_hit_def cls)
qed

lemma search_finds:
  assumes "coord_ok c xs" "groups_match c" "searchable c hs max_len" "0 \<le> max_len"
  shows "\<exists>blks n. coord_find_longest_cache_hit hs max_len c = Inr (blks, n) \<and> 0 \<le> n \<and> n \<le> max_len
    \<and> hit_for c blks n \<and> (blks = [] \<longrightarrow> n = 0)"
proof (cases "c_class c")
  case KVCacheCoordinatorNoPrefixCache
  then show ?thesis
    using assms(4) by (simp add: coord_find_longest_cache_hit_def hit_for_def hit_blocks_ok_def)
next
  case UnitaryKVCacheCoordinator
  from unitary_search [OF assms(1) this assms(2-4)] show ?thesis by blast
next
  case HybridKVCacheCoordinator
  from hybrid_search [OF assms(1) this assms(2-4)] show ?thesis by blast
qed

lemma hit_admitted:
  assumes ok: "kv_ok k xs" and hit: "hit_for (k_coordinator k) blks n" "blks \<noteq> []" and caching: "k_enable_caching k"
    and j: "j < length (k_managers k)" and m: "m = k_managers k ! j" "spec_params_ok (spec_class_of (m_spec m))"
      "\<not> is_running rid m" "blocks_of rid m = []" "\<not> is_cross m"
  shows "admits rid (create_kv_cache_blocks blks k) n (k_pool k) j m"
proof -
  have cok: "coord_ok (k_coordinator k) xs" and plain: "plain_mode m" using ok j m(1) by (auto simp: kv_ok_def)
  have inv: "mgr_inv m (k_pool k) xs (others_hold (k_managers k) m)" unfolding m(1) by (rule coord_inv_manager [OF cok j])
  show ?thesis
  proof (cases "\<exists>g \<in> set blks. g \<noteq> []")
    case True
    then show ?thesis
      using hit(1) j m(3-5) plain caching mgr_invD(5) [OF inv] ok
      by (auto simp: create_kv_cache_blocks_def admits_def takes_hit_def hit_for_def m(1) kv_ok_def)
  next
    case False
    then have "blks ! 0 = []" using hit(2) by simp
    then have n: "n = 0" using hit by (auto simp: hit_for_def)
    have "get_num_skipped_tokens m 0 div m_block_size m \<le> 0"
      using skipped_le [OF m(2), of 0] mgr_invD(4) [OF inv] by (simp add: get_num_skipped_tokens_eq div_nonpos_pos_le0)
    then show ?thesis
      using False ok j m(3-5) plain unfolding n by (auto simp: create_kv_cache_blocks_def admits_def kv_ok_def)
  qed
qed

lemma computed_blocks_admitted:
  assumes ok: "kv_ok k xs" "groups_match (k_coordinator k)" and s: "searchable (k_coordinator k) (block_hashes r) (num_tokens r - 1)"
    and r: "0 < num_tokens r" and stats: "k_log_stats k \<Longrightarrow> k_prefix_cache_stats k \<noteq> None"
    and fresh: "\<forall>m \<in> set (k_managers k). spec_params_ok (spec_class_of (m_spec m)) \<and> \<not> is_cross m
      \<and> \<not> is_running (request_id r) m \<and> blocks_of (request_id r) m = []"
  shows "\<exists>a n st. get_computed_blocks r k = Inr ((a, n), k\<lparr>k_prefix_cache_stats := st\<rparr>) \<and> 0 \<le> n \<and> n < num_tokens r
    \<and> (\<forall>j < length (k_managers k). admits (request_id r) a n (k_pool k) j (k_managers k ! j))"
proof (cases "\<not> k_enable_caching k \<or> skip_reading_prefix_cache r")
  case True
  let ?E = "empty_kv_cache_blocks k"
  have "admits (request_id r) ?E 0 (k_pool k) j (k_managers k ! j)" if j: "j < length (k_managers k)" for j
  proof -
    let ?m = "k_managers k ! j"
    have m: "spec_params_ok (spec_class_of (m_spec ?m))" "\<not> is_running (request_id r) ?m" "plain_mode ?m"
      using fresh ok(1) j by (auto simp: kv_ok_def)
    have "get_num_skipped_tokens ?m 0 div m_block_size ?m \<le> 0"
      using skipped_le [OF m(1), of 0] mgr_invD(4) [OF coord_inv_manager [OF _ j]] ok(1)
      by (auto simp: get_num_skipped_tokens_eq div_nonpos_pos_le0 kv_ok_def)
    then show ?thesis using j m(2,3) ok(1) by (simp add: admits_def kv_ok_def)
  qed
  moreover have "get_computed_blocks r k = Inr ((?E, 0), k\<lparr>k_prefix_cache_stats := k_prefix_cache_stats k\<rparr>)"
    using True by (simp add: get_computed_blocks_def)
  ultimately show ?thesis using r by blast
next
  case False
  have cok: "coord_ok (k_coordinator k) xs" and len: "0 \<le> num_tokens r - 1" using ok(1) r by (simp_all add: kv_ok_def)
  obtain blks n where f: "coord_find_longest_cache_hit (block_hashes r) (num_tokens r - 1) (k_coordinator k) = Inr (blks, n)"
    "0 \<le> n" "n \<le> num_tokens r - 1" "hit_for (k_coordinator k) blks n"
    using search_finds [OF cok ok(2) s len] by blast
  have "\<exists>st. get_computed_blocks r k = Inr ((create_kv_cache_blocks blks k, n), k\<lparr>k_prefix_cache_stats := st\<rparr>)"
    using False f(1) stats
    by (cases "k_log_stats k")
      (auto simp: get_computed_blocks_def create_kv_cache_blocks_def intro: exI [of _ "k_prefix_cache_stats k"])
  moreover have "admits (request_id r) (create_kv_cache_blocks blks k) n (k_pool k) j (k_managers k ! j)"
    if j: "j < length (k_managers k)" for j
  proof (rule hit_admitted [OF ok(1) f(4) _ _ j refl])
    show "blks \<noteq> []" using f(4) j by (auto simp: hit_for_def)
  qed (use False fresh j in auto)
  ultimately show ?thesis using f(2,3) by auto
qed

lemma coordinator_kinds:
  assumes "get_kv_cache_coordinator cfg max_len eagle caching events dcp pcp hash_size ih mc = Inr c"
  shows "\<exists>cls c0. coordinator_init cls cfg max_len eagle caching events dcp pcp hash_size ih mc = Inr c0
    \<and> (case cls of KVCacheCoordinatorNoPrefixCache \<Rightarrow> c = c0 | UnitaryKVCacheCoordinator \<Rightarrow> unitary_init c0 = Inr c
        | HybridKVCacheCoordinator \<Rightarrow> hybrid_init c0 = Inr c)"
proof (cases "caching")
  case False
  with assms show ?thesis
    by (intro exI [of _ KVCacheCoordinatorNoPrefixCache] exI [of _ c]) (simp add: get_kv_cache_coordinator_def)
next
  case True
  show ?thesis
  proof (cases "length (kv_cache_groups cfg) = 1")
    case one: True
    with assms True show ?thesis
      by (intro exI [of _ UnitaryKVCacheCoordinator]) (simp add: get_kv_cache_coordinator_def bindR_eq_Inr)
  next
    case False
    with assms True show ?thesis
      by (intro exI [of _ HybridKVCacheCoordinator]) (simp add: get_kv_cache_coordinator_def bindR_eq_Inr)
  qed
qed

lemma get_kv_cache_coordinator_spec:
  assumes specs: "plain_specs cfg dcp pcp"
    and get: "get_kv_cache_coordinator cfg max_len eagle caching events dcp pcp hash_size ih mc = Inr c"
  shows "groups_match c \<and> c_config c = cfg \<and> dcp_world_size c = dcp \<and> pcp_world_size c = pcp
    \<and> enable_caching (c_pool c) = caching \<and> hash_block_size (c_pool c) = hash_size
    \<and> (\<exists>xs. coord_ok c xs \<and> int (length xs) = num_blocks cfg - 1)
    \<and> (\<forall>m \<in> set (single_type_managers c). plain_mode m \<and> (\<forall>rid. \<not> is_running rid m \<and> blocks_of rid m = []))"
proof -
  obtain cls c0 where c0: "coordinator_init cls cfg max_len eagle caching events dcp pcp hash_size ih mc = Inr c0"
    "case cls of KVCacheCoordinatorNoPrefixCache \<Rightarrow> c = c0 | UnitaryKVCacheCoordinator \<Rightarrow> unitary_init c0 = Inr c
        | HybridKVCacheCoordinator \<Rightarrow> hybrid_init c0 = Inr c"
    using coordinator_kinds [OF get] by blast
  obtain c1 xs where c1: "coordinator_init cls cfg max_len eagle caching events dcp pcp hash_size ih mc = Inr c1"
    "coord_ok c1 xs" "\<forall>m \<in> set (single_type_managers c1). plain_mode m" "int (length xs) = num_blocks cfg - 1"
    "length (single_type_managers c1) = length (kv_cache_groups cfg)"
    "\<forall>j < length (kv_cache_groups cfg). \<forall>m. m = single_type_managers c1 ! j \<longrightarrow>
          m_spec m = kv_cache_groups cfg ! j \<and> m_block_size m = scaled_block_size (kv_cache_groups cfg ! j) dcp pcp
          \<and> (\<forall>rid. blocks_of rid m = [] \<and> num_cached rid m = 0 \<and> \<not> is_running rid m)"
    using coordinator_init_spec [OF specs] by blast
  then have eq: "c1 = c0" using c0(1) by simp
  note fields = coordinator_init_fields [OF specs c0(1)]
  have same: "c_class c = c_class c0" "single_type_managers c = single_type_managers c0" "c_pool c = c_pool c0"
    "c_config c = c_config c0" "dcp_world_size c = dcp_world_size c0" "pcp_world_size c = pcp_world_size c0"
    using c0(2) unfolding unitary_init_def hybrid_init_def verify_and_split_kv_cache_groups_def
    by (cases cls; force simp: bindR_eq_Inr Let_def)+
  have each: "m_spec m = kv_cache_groups cfg ! j \<and> m_block_size m = scaled_block_size (m_spec m) dcp pcp
      \<and> (\<forall>rid. \<not> is_running rid m \<and> blocks_of rid m = [])" if "j < length (kv_cache_groups cfg)" "m = single_type_managers c ! j" for j m
    unfolding that(2) same(2) using c1(6) [rule_format, OF that(1) refl, unfolded eq] by simp
  have specs': "map m_spec (single_type_managers c) = kv_cache_groups cfg"
    using c1(5) each [OF _ refl] unfolding eq same(2) by (intro nth_equalityI) simp_all
  have "\<exists>j < length (kv_cache_groups cfg). m = single_type_managers c ! j" if "m \<in> set (single_type_managers c)" for m
    using that c1(5) unfolding eq same(2) by (auto simp: in_set_conv_nth)
  then have ms: "m_block_size m = scaled_block_size (m_spec m) dcp pcp \<and> (\<forall>rid. \<not> is_running rid m \<and> blocks_of rid m = [])"
    if "m \<in> set (single_type_managers c)" for m
    using that each by blast
  have "case c_class c of
          KVCacheCoordinatorNoPrefixCache \<Rightarrow> True
        | UnitaryKVCacheCoordinator \<Rightarrow> \<exists>c0. unitary_init c0 = Inr c
        | HybridKVCacheCoordinator \<Rightarrow> \<exists>c0. hybrid_init c0 = Inr c \<and> single_type_managers c0 = single_type_managers c"
    unfolding same(1) fields(1) using c0(2) same(2) by (auto split: coordinator_class.splits)
  with specs' ms have "groups_match c" unfolding groups_match_def by (simp add: same(4-6) fields(2-4))
  then show ?thesis using c1(2-4) ms fields same unfolding eq by auto
qed

lemma kv_cache_manager_init_spec:
  assumes specs: "plain_specs cfg dcp pcp"
    and init: "kv_cache_manager_init cfg max_len hash_size caching eagle log_stats events dcp pcp ih mc = Inr k"
  shows "\<exists>xs. kv_ok k xs \<and> int (length xs) = num_blocks cfg - 1" "groups_match (k_coordinator k)"
    "k_enable_caching k = caching" "k_max_model_len k = max_len" "k_log_stats k = log_stats"
    "k_log_stats k \<Longrightarrow> k_prefix_cache_stats k \<noteq> None" "map m_spec (k_managers k) = kv_cache_groups cfg"
    "m \<in> set (k_managers k) \<Longrightarrow> m_block_size m = scaled_block_size (m_spec m) dcp pcp
      \<and> \<not> is_running rid m \<and> blocks_of rid m = []"
    "hash_block_size (k_pool k) = hash_size"
proof -
  obtain c where c: "get_kv_cache_coordinator cfg max_len eagle caching events dcp pcp hash_size ih mc = Inr c"
    "k = \<lparr>k_max_model_len = max_len, k_enable_caching = caching, k_use_eagle = eagle, k_log_stats = log_stats,
          k_prefix_cache_stats = (if log_stats then Some new_prefix_cache_stats else None),
          k_coordinator = c, num_kv_cache_groups = length (kv_cache_groups cfg),
          empty_kv_cache_blocks = \<lparr>group_blocks = replicate (length (kv_cache_groups cfg)) [], is_shared_empty = True\<rparr>\<rparr>"
    using init by (auto simp: kv_cache_manager_init_def bindR_eq_Inr)
  note s = get_kv_cache_coordinator_spec [OF specs c(1)]
  have "length (single_type_managers c) = length (kv_cache_groups cfg)"
    using s by (metis groups_match_def length_map)
  then show "\<exists>xs. kv_ok k xs \<and> int (length xs) = num_blocks cfg - 1" using s by (simp add: kv_ok_def c(2))
  show "groups_match (k_coordinator k)" "k_enable_caching k = caching" "k_max_model_len k = max_len"
    "k_log_stats k = log_stats" "k_log_stats k \<Longrightarrow> k_prefix_cache_stats k \<noteq> None"
    "hash_block_size (k_pool k) = hash_size" "map m_spec (k_managers k) = kv_cache_groups cfg"
    using s by (auto simp: c(2) groups_match_def)
  show "m \<in> set (k_managers k) \<Longrightarrow> m_block_size m = scaled_block_size (m_spec m) dcp pcp
      \<and> \<not> is_running rid m \<and> blocks_of rid m = []"
    using s by (auto simp: c(2) groups_match_def)
qed

definition example_kv :: "spec_class \<Rightarrow> kv_cache_manager result" where
  "example_kv cls = kv_cache_manager_init (example_config [cls]) 64 16 True False True False 1 1 False None"

definition example_hashed :: request where
  "example_hashed = (example_request (replicate 20 5) 9)\<lparr>block_hashes := [[1]]\<rparr>"

lemma example_kv_init:
  assumes "plain_specs (example_config [cls]) 1 1"
  shows "\<exists>k. example_kv cls = Inr k"
proof -
  let ?cfg = "example_config [cls]"
  obtain c where c: "coordinator_init UnitaryKVCacheCoordinator ?cfg 64 False True False 1 1 16 False None = Inr c"
    using coordinator_init_spec [OF assms, of UnitaryKVCacheCoordinator 64 False True False 16 False None] by blast
  note f = coordinator_init_fields [OF assms c]
  have "c_hash_block_size c = 16" using c by (auto simp: coordinator_init_def bindR_eq_Inr)
  then have "\<exists>c'. unitary_init c = Inr c'" by (simp add: unitary_init_def f example_config_def)
  then show ?thesis
    using c by (auto simp: example_kv_def kv_cache_manager_init_def get_kv_cache_coordinator_def example_config_def)
qed

lemma example_kv_ready:
  assumes k: "example_kv (SlidingWindowSpec 17) = Inr k"
  shows "\<exists>xs. kv_ok k xs" "groups_match (k_coordinator k)" "length (k_managers k) = 1"
    "k_enable_caching k" "k_max_model_len k = 64" "k_log_stats k \<Longrightarrow> k_prefix_cache_stats k \<noteq> None"
    "can_cache k" "hash_block_size (k_pool k) = 16"
    "m \<in> set (k_managers k) \<Longrightarrow> spec_class_of (m_spec m) = SlidingWindowSpec 17 \<and> m_block_size m = 16
      \<and> \<not> is_running rid m \<and> blocks_of rid m = []"
    "searchable (k_coordinator k) [[1]] 19"
proof -
  let ?cfg = "example_config [SlidingWindowSpec 17]"
  have cfg: "plain_specs ?cfg 1 1" by (simp add: plain_specs_def example_config_def scaled_block_size_def)
  note s = kv_cache_manager_init_spec [OF cfg k [unfolded example_kv_def]]
  have specs: "map m_spec (k_managers k) = [\<lparr>spec_class_of = SlidingWindowSpec 17, spec_block_size = 16, spec_layout = []\<rparr>]"
    using s(7) by (simp add: example_config_def)
  show "\<exists>xs. kv_ok k xs" "groups_match (k_coordinator k)" "k_enable_caching k" "k_max_model_len k = 64"
    "k_log_stats k \<Longrightarrow> k_prefix_cache_stats k \<noteq> None" "hash_block_size (k_pool k) = 16"
    using s(1-6,9) by auto
  show len: "length (k_managers k) = 1" using specs by (metis length_map list.size(3,4) One_nat_def add_0)
  show m: "spec_class_of (m_spec m) = SlidingWindowSpec 17 \<and> m_block_size m = 16 \<and> \<not> is_running rid m \<and> blocks_of rid m = []"
    if "m \<in> set (k_managers k)" for m rid
  proof -
    have "m_spec m \<in> set (map m_spec (k_managers k))" using that by simp
    then show ?thesis using s(8) [OF that, of rid] unfolding specs by (simp add: scaled_block_size_def)
  qed
  then show "can_cache k" using len s(9) by (simp add: can_cache_def is_cross_def)
  obtain c c0 where c: "coordinator_init UnitaryKVCacheCoordinator ?cfg 64 False True False 1 1 16 False None = Inr c0"
    "unitary_init c0 = Inr c" "k_coordinator k = c"
    using k by (auto simp: example_kv_def kv_cache_manager_init_def get_kv_cache_coordinator_def example_config_def bindR_eq_Inr)
  note f = coordinator_init_fields [OF cfg c(1)]
  have "c_use_eagle c0 = False" using c(1) by (auto simp: coordinator_init_def bindR_eq_Inr)
  moreover have "c = c0\<lparr>c_block_size := 16\<rparr>"
    using c(2) by (auto simp: unitary_init_def f example_config_def bindR_eq_Inr)
  ultimately show "searchable (k_coordinator k) [[1]] 19"
    by (simp add: searchable_def c(3) f example_config_def)
qed

lemma example_hashed_simps:
  "num_tokens example_hashed = 20" "num_computed_tokens example_hashed = 0" "request_id example_hashed = ''r''"
  "block_hashes example_hashed = [[1]]" "hashed_upto example_hashed 16"
  by (simp_all add: example_hashed_def example_request_simps num_tokens_def hashed_upto_def Let_def)

text \<open>
  C2: A lookup is followed by an allocation that cannot fail. For a request that holds nothing yet,
  \<open>get_computed_blocks\<close> returns a hit of fewer tokens than the request has, so that at least one token
  is computed; handing that hit to \<open>allocate_slots\<close> never raises, whatever other requests hold, for a
  single group and for hybrid groups alike; when slots are granted, every group has room for all of
  them and the cache is in order.
\<close>

theorem lookup_then_slots:
  assumes ok: "kv_ok k xs" "groups_match (k_coordinator k)" and s: "searchable (k_coordinator k) (block_hashes r) (num_tokens r - 1)"
    and r: "0 < num_tokens r" "num_computed_tokens r = 0" and stats: "k_log_stats k \<Longrightarrow> k_prefix_cache_stats k \<noteq> None"
    and fresh: "\<forall>m \<in> set (k_managers k). spec_params_ok (spec_class_of (m_spec m)) \<and> \<not> is_cross m
      \<and> \<not> is_running (request_id r) m \<and> blocks_of (request_id r) m = []"
    and new: "0 < num_new" "0 \<le> num_lookahead"
    and cache: "k_enable_caching k \<and> \<not> delay_cache \<Longrightarrow>
        can_cache k \<and> hashed_upto r (hash_block_size (k_pool k)) \<and> num_tokens r \<le> k_max_model_len k"
  shows "\<exists>a n k1 out r' k' ys. get_computed_blocks r k = Inr ((a, n), k1) \<and> 0 \<le> n \<and> n < num_tokens r
    \<and> allocate_slots env r num_new n (Some a) num_lookahead 0 delay_cache 0 k1 = Inr (out, r', k') \<and> kv_ok k' ys
    \<and> (out \<noteq> None \<longrightarrow> (\<forall>m \<in> set (k_managers k').
          min (min n (k_max_model_len k) + num_new + num_lookahead) (k_max_model_len k)
            \<le> int (length (blocks_of (request_id r) m)) * m_block_size m))"
proof -
  obtain a n st where g: "get_computed_blocks r k = Inr ((a, n), k\<lparr>k_prefix_cache_stats := st\<rparr>)" "0 \<le> n" "n < num_tokens r"
    "\<forall>j < length (k_managers k). admits (request_id r) a n (k_pool k) j (k_managers k ! j)"
    using computed_blocks_admitted [OF ok s r(1) stats fresh] by blast
  let ?k1 = "k\<lparr>k_prefix_cache_stats := st\<rparr>"
  have ok1: "kv_ok ?k1 xs" using ok(1) by (simp add: kv_ok_def)
  have adm: "\<forall>j < length (k_managers ?k1). admits (request_id r) (given_blocks (Some a) ?k1)
      (num_computed_tokens r + n) (k_pool ?k1) j (k_managers ?k1 ! j)"
    using g(4) r(2) by (simp add: given_blocks_def)
  have c1: "can_cache ?k1 \<and> hashed_upto r (hash_block_size (k_pool ?k1)) \<and> num_tokens r \<le> k_max_model_len ?k1"
    if "k_enable_caching ?k1 \<and> \<not> delay_cache" using cache that by (simp add: can_cache_def)
  obtain out r' k' ys where run: "allocate_slots env r num_new n (Some a) num_lookahead 0 delay_cache 0 ?k1 = Inr (out, r', k')"
    "kv_ok k' ys" "slots_outcome ?k1 r a n (min n (k_max_model_len k))
      (min (min n (k_max_model_len k) + num_new + num_lookahead) (k_max_model_len k)) 0
      (k_enable_caching k \<and> \<not> delay_cache) (num_tokens_to_cache ?k1 r num_new n 0) out k'"
    using allocate_slots_cases [OF ok1 new adm c1, where env = env and enc = 0 and delay_cache = delay_cache] r(2)
    by (simp add: given_blocks_def num_tokens_need_slot_def total_computed_tokens_def) blast
  let ?need = "min (min n (k_max_model_len k) + num_new + num_lookahead) (k_max_model_len k)"
  have "?need \<le> int (length (blocks_of (request_id r) m)) * m_block_size m" if m: "m \<in> set (k_managers k')" and out: "out \<noteq> None" for m
  proof -
    obtain j where j: "m = k_managers k' ! j" "j < length (k_managers k)"
      using m run(3) by (auto simp: slots_outcome_def in_set_conv_nth)
    have cfg: "mgr_config (k_managers k ! j) m" using run(3) j by (simp add: slots_outcome_def)
    have "\<not> is_cross (k_managers k ! j)" "0 < m_block_size (k_managers k ! j)"
      using fresh j(2) ok(1) mgr_invD(4) [OF coord_inv_manager [OF _ j(2)]] by (auto simp: kv_ok_def)
    moreover obtain blks where "out = Some blks" using out by blast
    then have "slots_for ?need 0 (k_managers k ! j) \<le> int (length (blocks_of (request_id r) m)) * m_block_size (k_managers k ! j)"
      using run(3) j by (simp add: slots_outcome_def slots_allocated_def)
    ultimately show ?thesis
      using asked_tokens_ge [of "k_managers k ! j" ?need] cfg by (simp add: slots_for_def mgr_config_def)
  qed
  with g(1-3) run(1,2) show ?thesis by blast
qed

theorem lookup_then_slots_witness:
  "\<exists>k a n k1 out r' k'. example_kv (SlidingWindowSpec 17) = Inr k
     \<and> get_computed_blocks example_hashed k = Inr ((a, n), k1) \<and> n < 20
     \<and> allocate_slots (serialising_env 16) example_hashed 4 n (Some a) 0 0 False 0 k1 = Inr (out, r', k')"
proof -
  have cfg: "plain_specs (example_config [SlidingWindowSpec 17]) 1 1"
    by (simp add: plain_specs_def example_config_def scaled_block_size_def)
  obtain k where k: "example_kv (SlidingWindowSpec 17) = Inr k" using example_kv_init [OF cfg] by blast
  note r = example_kv_ready [OF k]
  obtain xs where ok: "kv_ok k xs" using r(1) by blast
  have s: "searchable (k_coordinator k) (block_hashes example_hashed) (num_tokens example_hashed - 1)"
    using r(10) by (simp add: example_hashed_simps)
  have fresh: "\<forall>m \<in> set (k_managers k). spec_params_ok (spec_class_of (m_spec m)) \<and> \<not> is_cross m
      \<and> \<not> is_running (request_id example_hashed) m \<and> blocks_of (request_id example_hashed) m = []"
    using r(9) by (auto simp: is_cross_def)
  have "\<exists>a n k1 out r' k' ys. get_computed_blocks example_hashed k = Inr ((a, n), k1) \<and> 0 \<le> n \<and> n < num_tokens example_hashed
    \<and> allocate_slots (serialising_env 16) example_hashed 4 n (Some a) 0 0 False 0 k1 = Inr (out, r', k') \<and> kv_ok k' ys
    \<and> (out \<noteq> None \<longrightarrow> (\<forall>m \<in> set (k_managers k').
          min (min n (k_max_model_len k) + 4 + 0) (k_max_model_len k)
            \<le> int (length (blocks_of (request_id example_hashed) m)) * m_block_size m))"
    using r(5,7,8) by (intro lookup_then_slots [OF ok r(2) s _ _ r(6) fresh]) (simp_all add: example_hashed_simps)
  then show ?thesis using k example_hashed_simps(1) by auto
qed

end
