(* ===== verification/Request_Queue.thy ===== *)
theory Request_Queue
  imports Request_Model "HOL-Library.Char_ord" "HOL-Library.List_Lexorder"
begin

text \<open>
  The request queues of \<open>vllm/v1/core/sched/request_queue.py\<close>: first come first served, a deque, and
  by priority, a binary heap in an array kept by Python's \<open>heapq\<close>. A queue holds references to
  requests; a reference is modelled by the request's id and read in a store of requests, since the
  order of the heap is that of the requests' current fields.
\<close>

subsection \<open>Python's heapq\<close>

text \<open>
  The library's array algorithms, with the comparison as a parameter: \<open>siftdown\<close> moves the item towards
  the root, \<open>siftup\<close> moves the smaller children up until the hole is at a leaf and then calls \<open>siftdown\<close>.
\<close>

definition heap_parent :: "nat \<Rightarrow> nat" where
  "heap_parent i = (i - 1) div 2"

function siftdown :: "('a \<Rightarrow> 'a \<Rightarrow> bool) \<Rightarrow> nat \<Rightarrow> 'a \<Rightarrow> nat \<Rightarrow> 'a list \<Rightarrow> 'a list" where
  "siftdown lt start item pos xs =
     (if start < pos \<and> lt item (xs ! heap_parent pos)
      then siftdown lt start item (heap_parent pos) (xs[pos := xs ! heap_parent pos])
      else xs[pos := item])"
  by auto
termination by (relation "measure (\<lambda>(_, _, _, pos, _). pos)") (auto simp: heap_parent_def)

declare siftdown.simps [simp del]

lemma siftdown_cases:
  "start < pos \<and> lt item (xs ! heap_parent pos) \<Longrightarrow>
     siftdown lt start item pos xs = siftdown lt start item (heap_parent pos) (xs[pos := xs ! heap_parent pos])"
  "\<not> (start < pos \<and> lt item (xs ! heap_parent pos)) \<Longrightarrow> siftdown lt start item pos xs = xs[pos := item]"
  by (auto simp: siftdown.simps [of lt start item pos xs])

definition smaller_child :: "('a \<Rightarrow> 'a \<Rightarrow> bool) \<Rightarrow> nat \<Rightarrow> 'a list \<Rightarrow> nat" where
  "smaller_child lt pos xs =
     (let child = 2 * pos + 1; right = child + 1
      in if right < length xs \<and> \<not> lt (xs ! child) (xs ! right) then right else child)"

function siftup_loop :: "('a \<Rightarrow> 'a \<Rightarrow> bool) \<Rightarrow> nat \<Rightarrow> 'a list \<Rightarrow> nat \<times> 'a list" where
  "siftup_loop lt pos xs =
     (if 2 * pos + 1 < length xs
      then let c = smaller_child lt pos xs in siftup_loop lt c (xs[pos := xs ! c])
      else (pos, xs))"
  by auto
termination
  by (relation "measure (\<lambda>(_, pos, xs). length xs - pos)") (auto simp: smaller_child_def Let_def)

declare siftup_loop.simps [simp del]

definition siftup :: "('a \<Rightarrow> 'a \<Rightarrow> bool) \<Rightarrow> nat \<Rightarrow> 'a list \<Rightarrow> 'a list" where
  "siftup lt pos xs = (case siftup_loop lt pos xs of (p, ys) \<Rightarrow> siftdown lt pos (xs ! pos) p ys)"

definition heappush :: "('a \<Rightarrow> 'a \<Rightarrow> bool) \<Rightarrow> 'a \<Rightarrow> 'a list \<Rightarrow> 'a list" where
  "heappush lt item xs = siftdown lt 0 item (length xs) (xs @ [item])"

definition heappop :: "('a \<Rightarrow> 'a \<Rightarrow> bool) \<Rightarrow> 'a list \<Rightarrow> ('a \<times> 'a list) result" where
  "heappop lt xs =
     (if xs = [] then Inl IndexError
      else
        let lastelt = last xs; heap = butlast xs
        in if heap \<noteq> [] then Inr (heap ! 0, siftup lt 0 (heap[0 := lastelt])) else Inr (lastelt, heap))"

definition heapify :: "('a \<Rightarrow> 'a \<Rightarrow> bool) \<Rightarrow> 'a list \<Rightarrow> 'a list" where
  "heapify lt xs = fold (siftup lt) (rev [0..<length xs div 2]) xs"

subsection \<open>The heap property\<close>

definition heap_from :: "('a \<Rightarrow> 'a \<Rightarrow> bool) \<Rightarrow> nat \<Rightarrow> 'a list \<Rightarrow> bool" where
  "heap_from lt s xs \<longleftrightarrow>
     (\<forall>i. 0 < i \<longrightarrow> i < length xs \<longrightarrow> s \<le> heap_parent i \<longrightarrow> \<not> lt (xs ! i) (xs ! heap_parent i))"

text \<open>The positions below \<open>s\<close> in the tree.\<close>

inductive below :: "nat \<Rightarrow> nat \<Rightarrow> bool" where
  below_self: "below s s"
| below_child: "below s (heap_parent i) \<Longrightarrow> 0 < i \<Longrightarrow> below s i"

lemma heap_parent_less: "0 < i \<Longrightarrow> heap_parent i < i"
  by (simp add: heap_parent_def)

lemma below_le: "below s i \<Longrightarrow> s \<le> i"
  by (induction rule: below.induct) (auto dest: heap_parent_less)

lemma below_parent: "below s i \<Longrightarrow> s < i \<Longrightarrow> below s (heap_parent i) \<and> s \<le> heap_parent i"
  by (erule below.cases) (auto dest: below_le)

lemma below_zero: "below 0 i"
proof (induction i rule: less_induct)
  case (less i)
  show ?case
  proof (cases "i = 0")
    case False
    then have "below 0 (heap_parent i)" by (intro less heap_parent_less) simp
    with False show ?thesis by (simp add: below_child)
  qed (simp add: below_self)
qed

lemma parent_child: "0 < j \<Longrightarrow> heap_parent j = i \<longleftrightarrow> j = 2 * i + 1 \<or> j = 2 * i + 2"
  by (auto simp: heap_parent_def)

text \<open>Order of the elements except at the hole \<open>pos\<close>.\<close>

definition heap_but :: "('a \<Rightarrow> 'a \<Rightarrow> bool) \<Rightarrow> nat \<Rightarrow> nat \<Rightarrow> 'a list \<Rightarrow> bool" where
  "heap_but lt s pos xs \<longleftrightarrow>
     (\<forall>i. 0 < i \<longrightarrow> i < length xs \<longrightarrow> s \<le> heap_parent i \<longrightarrow> i \<noteq> pos \<longrightarrow> heap_parent i \<noteq> pos
        \<longrightarrow> \<not> lt (xs ! i) (xs ! heap_parent i))
     \<and> (\<forall>i. 0 < i \<longrightarrow> i < length xs \<longrightarrow> heap_parent i = pos \<longrightarrow> s < pos \<longrightarrow> \<not> lt (xs ! i) (xs ! heap_parent pos))"

locale strict_order =
  fixes lt :: "'a \<Rightarrow> 'a \<Rightarrow> bool"
  assumes irrefl: "\<not> lt x x" and trans: "lt x y \<Longrightarrow> lt y z \<Longrightarrow> lt x z" and total_lt: "x \<noteq> y \<Longrightarrow> lt x y \<or> lt y x"
begin

lemma nle_trans: "\<not> lt y x \<Longrightarrow> \<not> lt z y \<Longrightarrow> \<not> lt z x"
  using trans total_lt by metis

lemma siftdown_length [simp]: "length (siftdown lt s item pos xs) = length xs"
  by (induction lt s item pos xs rule: siftdown.induct) (subst siftdown.simps, simp)

lemma siftdown_mset:
  "pos < length xs \<Longrightarrow> mset (siftdown lt s item pos xs) = mset (xs[pos := item])"
proof (induction lt s item pos xs rule: siftdown.induct)
  case (1 lt s item pos xs)
  show ?case
  proof (cases "s < pos \<and> lt item (xs ! heap_parent pos)")
    case True
    let ?p = "heap_parent pos"
    have p: "?p < pos" using True by (intro heap_parent_less) simp
    have "mset (siftdown lt s item pos xs) = mset (xs[pos := xs ! ?p, ?p := item])"
      using 1(1) [OF True] 1(2) p True by (simp add: siftdown_cases)
    also have "\<dots> = mset (xs[pos := item])"
    proof -
      have "xs[pos := xs ! ?p, ?p := item] = (xs[pos := item])[pos := xs[pos := item] ! ?p, ?p := xs[pos := item] ! pos]"
        using 1(2) p by simp
      also have "mset \<dots> = mset (xs[pos := item])" using 1(2) p by (intro mset_swap) simp_all
      finally show ?thesis .
    qed
    finally show ?thesis .
  qed (simp add: siftdown_cases(2))
qed

text \<open>One step of \<open>siftdown\<close> moves the hole to the parent.\<close>

lemma siftdown_step:
  assumes but: "heap_but lt s pos xs" and pos: "below s pos" "pos < length xs" "s < pos"
    and smaller: "lt item (xs ! heap_parent pos)"
  defines "ys \<equiv> xs[pos := xs ! heap_parent pos]"
  shows "heap_but lt s (heap_parent pos) ys"
    and "0 < i \<Longrightarrow> i < length ys \<Longrightarrow> heap_parent i = heap_parent pos \<Longrightarrow> \<not> lt (ys ! i) item"
proof -
  let ?p = "heap_parent pos"
  have p: "?p < pos" "s \<le> ?p" "below s ?p" using below_parent [OF pos(1,3)] heap_parent_less pos(3) by auto
  have one: "\<not> lt (xs ! i) (xs ! heap_parent i)"
    if "0 < i" "i < length xs" "s \<le> heap_parent i" "i \<noteq> pos" "heap_parent i \<noteq> pos" for i
    using but that by (simp add: heap_but_def)
  have two: "\<not> lt (xs ! i) (xs ! ?p)" if "0 < i" "i < length xs" "heap_parent i = pos" for i
    using but that pos(3) by (simp add: heap_but_def)
  show "\<not> lt (ys ! i) item" if i: "0 < i" "i < length ys" "heap_parent i = ?p" for i
  proof (cases "i = pos")
    case True
    then show ?thesis using smaller trans irrefl pos(2) by (auto simp: ys_def)
  next
    case False
    then have "\<not> lt (xs ! i) (xs ! ?p)" using one [of i] i p by (simp add: ys_def)
    then show ?thesis using False smaller trans by (auto simp: ys_def)
  qed
  have "\<not> lt (ys ! i) (ys ! heap_parent i)"
    if i: "0 < i" "i < length ys" "s \<le> heap_parent i" "i \<noteq> ?p" "heap_parent i \<noteq> ?p" for i
  proof -
    have "i \<noteq> pos" using i(5) by auto
    then show ?thesis using one [of i] two [of i] i pos(2) by (cases "heap_parent i = pos") (simp_all add: ys_def)
  qed
  moreover have "\<not> lt (ys ! i) (ys ! heap_parent ?p)" if i: "0 < i" "i < length ys" "heap_parent i = ?p" "s < ?p" for i
  proof -
    have pp: "heap_parent ?p < ?p" "s \<le> heap_parent ?p" using below_parent [OF p(3) i(4)] heap_parent_less i(4) by auto
    have up: "\<not> lt (xs ! ?p) (xs ! heap_parent ?p)" using one [of ?p] pp p pos(2) i(4) by simp
    have eq: "ys ! heap_parent ?p = xs ! heap_parent ?p" using pp p(1) by (simp add: ys_def)
    show ?thesis
    proof (cases "i = pos")
      case True
      then show ?thesis using up eq pos(2) by (simp add: ys_def)
    next
      case False
      then have "\<not> lt (xs ! i) (xs ! ?p)" using one [of i] i p by (simp add: ys_def)
      from nle_trans [OF up this] show ?thesis unfolding eq using False by (simp add: ys_def)
    qed
  qed
  ultimately show "heap_but lt s ?p ys" by (simp add: heap_but_def)
qed

lemma siftdown_heap:
  assumes "below s pos" "pos < length xs" "heap_but lt s pos xs"
    "\<And>i. 0 < i \<Longrightarrow> i < length xs \<Longrightarrow> heap_parent i = pos \<Longrightarrow> \<not> lt (xs ! i) item"
  shows "heap_from lt s (siftdown lt s item pos xs)"
  using assms
proof (induction pos arbitrary: xs rule: less_induct)
  case (less pos)
  let ?p = "heap_parent pos"
  show ?case
  proof (cases "s < pos \<and> lt item (xs ! ?p)")
    case True
    then have p: "?p < pos" "below s ?p" using below_parent [OF less.prems(1)] heap_parent_less by auto
    let ?ys = "xs[pos := xs ! ?p]"
    have "heap_from lt s (siftdown lt s item ?p ?ys)"
      using siftdown_step [OF less.prems(3,1,2)] True p less.prems(2) by (intro less.IH) auto
    then show ?thesis using True by (simp add: siftdown_cases)
  next
    case False
    have "\<not> lt (xs[pos := item] ! i) (xs[pos := item] ! heap_parent i)"
      if i: "0 < i" "i < length xs" "s \<le> heap_parent i" for i
    proof -
      have lt_i: "heap_parent i < i" by (rule heap_parent_less [OF i(1)])
      consider "i = pos" | "i \<noteq> pos" "heap_parent i = pos" | "i \<noteq> pos" "heap_parent i \<noteq> pos" by blast
      then show ?thesis
        using less.prems(2-4) i lt_i False by cases (auto simp: heap_but_def)
    qed
    then show ?thesis unfolding siftdown_cases(2) [of s pos lt item xs, OF False] by (simp add: heap_from_def)
  qed
qed


lemma siftup_loop_spec:
  assumes "below s pos" "pos < length xs" "heap_but lt s pos xs" "siftup_loop lt pos xs = (p, ys)"
  shows "below s p \<and> p < length ys \<and> length ys = length xs \<and> heap_but lt s p ys
    \<and> (\<forall>i. 0 < i \<longrightarrow> i < length ys \<longrightarrow> heap_parent i \<noteq> p) \<and> mset (ys[p := item]) = mset (xs[pos := item])"
  using assms
proof (induction "length xs - pos" arbitrary: pos xs rule: less_induct)
  case less
  show ?case
  proof (cases "2 * pos + 1 < length xs")
    case False
    then have "p = pos" "ys = xs" using less.prems(4) by (simp_all add: siftup_loop.simps [of lt pos xs])
    then show ?thesis using False less.prems(1-3) by (auto simp: parent_child)
  next
    case True
    define c where "c = smaller_child lt pos xs"
    have c: "c < length xs" "pos < c" "heap_parent c = pos" "0 < c"
      using True by (auto simp: c_def smaller_child_def Let_def heap_parent_def)
    have sib: "\<not> lt (xs ! i) (xs ! c)" if i: "0 < i" "i < length xs" "heap_parent i = pos" for i
    proof -
      have "i = 2 * pos + 1 \<or> i = 2 * pos + 2" using i parent_child by blast
      then show ?thesis using i(2) irrefl trans by (auto simp: c_def smaller_child_def Let_def)
    qed
    let ?zs = "xs[pos := xs ! c]"
    have run: "siftup_loop lt c ?zs = (p, ys)" using less.prems(4) True by (simp add: siftup_loop.simps [of lt pos xs] c_def Let_def)
    have bc: "below s c" using below_child [of s c] less.prems(1) c(3,4) by simp
    have one: "\<not> lt (xs ! i) (xs ! heap_parent i)"
      if "0 < i" "i < length xs" "s \<le> heap_parent i" "i \<noteq> pos" "heap_parent i \<noteq> pos" for i
      using less.prems(3) that by (simp add: heap_but_def)
    have "\<not> lt (?zs ! i) (?zs ! heap_parent i)"
      if i: "0 < i" "i < length xs" "s \<le> heap_parent i" "i \<noteq> c" "heap_parent i \<noteq> c" for i
    proof -
      have li: "heap_parent i < i" by (rule heap_parent_less [OF i(1)])
      consider (hole) "i = pos" | (sibling) "i \<noteq> pos" "heap_parent i = pos" | (other) "i \<noteq> pos" "heap_parent i \<noteq> pos" by blast
      then show ?thesis
      proof cases
        case hole
        then have "s < pos" using li i(3) by simp
        then have "\<not> lt (xs ! c) (xs ! heap_parent pos)" using less.prems(3) c by (simp add: heap_but_def)
        then show ?thesis using hole li less.prems(2) by simp
      next
        case sibling
        then show ?thesis using sib [of i] i less.prems(2) by simp
      next
        case other
        then show ?thesis using one [of i] i by simp
      qed
    qed
    moreover have "\<not> lt (?zs ! i) (?zs ! heap_parent c)" if i: "0 < i" "i < length xs" "heap_parent i = c" for i
    proof -
      have "i \<noteq> pos" "s \<le> heap_parent i" using i(3) c below_le [OF bc] heap_parent_less [OF i(1)] by auto
      then show ?thesis using one [of i] i c less.prems(2) by simp
    qed
    ultimately have but: "heap_but lt s c ?zs" by (simp add: heap_but_def)
    have "below s p \<and> p < length ys \<and> length ys = length ?zs \<and> heap_but lt s p ys
      \<and> (\<forall>i. 0 < i \<longrightarrow> i < length ys \<longrightarrow> heap_parent i \<noteq> p) \<and> mset (ys[p := item]) = mset (?zs[c := item])"
      by (rule less.hyps [OF _ bc _ but run]) (use c in simp_all)
    moreover have "mset (?zs[c := item]) = mset (xs[pos := item])"
    proof -
      have "?zs[c := item] = (xs[pos := item])[pos := xs[pos := item] ! c, c := xs[pos := item] ! pos]"
        using c less.prems(2) by simp
      also have "mset \<dots> = mset (xs[pos := item])" using c less.prems(2) by (intro mset_swap) simp_all
      finally show ?thesis .
    qed
    ultimately show ?thesis by simp
  qed
qed

lemma siftup_spec:
  assumes "pos < length xs" "heap_from lt (Suc pos) xs"
  shows "heap_from lt pos (siftup lt pos xs)" "mset (siftup lt pos xs) = mset xs" "length (siftup lt pos xs) = length xs"
proof -
  obtain p ys where r: "siftup_loop lt pos xs = (p, ys)" by fastforce
  have but: "heap_but lt pos pos xs" using assms(2) by (auto simp: heap_but_def heap_from_def)
  note l = siftup_loop_spec [OF below_self assms(1) but r, of "xs ! pos"]
  show "heap_from lt pos (siftup lt pos xs)" using l siftdown_heap [of pos p ys "xs ! pos"] by (simp add: siftup_def r)
  show "mset (siftup lt pos xs) = mset xs" using l siftdown_mset by (simp add: siftup_def r)
  show "length (siftup lt pos xs) = length xs" using l by (simp add: siftup_def r)
qed

lemma heapify_spec: "heap_from lt 0 (heapify lt xs) \<and> mset (heapify lt xs) = mset xs"
proof -
  have "heap_from lt 0 (fold (siftup lt) (rev [0..<n]) ys) \<and> mset (fold (siftup lt) (rev [0..<n]) ys) = mset ys"
    if "n \<le> length ys" "heap_from lt n ys" for n ys
    using that
  proof (induction n arbitrary: ys)
    case (Suc n)
    have "heap_from lt n (siftup lt n ys)" "mset (siftup lt n ys) = mset ys" "length (siftup lt n ys) = length ys"
      using siftup_spec [of n ys] Suc.prems by simp_all
    then show ?case using Suc.IH [of "siftup lt n ys"] Suc.prems by simp
  qed simp
  moreover have "heap_from lt (length xs div 2) xs" by (auto simp: heap_from_def heap_parent_def)
  ultimately show ?thesis by (simp add: heapify_def)
qed

lemma heappush_spec: "heap_from lt 0 xs \<Longrightarrow> heap_from lt 0 (heappush lt x xs)" "mset (heappush lt x xs) = add_mset x (mset xs)"
proof -
  have small: "heap_parent i \<noteq> length xs" if "0 < i" "i < Suc (length xs)" for i
    using heap_parent_less [OF that(1)] that by simp
  show "heap_from lt 0 (heappush lt x xs)" if h: "heap_from lt 0 xs"
    unfolding heappush_def
  proof (rule siftdown_heap [OF below_zero])
    show "heap_but lt 0 (length xs) (xs @ [x])"
      unfolding heap_but_def
    proof (intro conjI allI impI)
      fix i assume i: "0 < i" "i < length (xs @ [x])" "i \<noteq> length xs"
      then have "i < length xs" "heap_parent i < length xs" using heap_parent_less [OF i(1)] by simp_all
      then show "\<not> lt ((xs @ [x]) ! i) ((xs @ [x]) ! heap_parent i)"
        using h i(1) by (simp add: heap_from_def nth_append)
    qed (use small in auto)
  qed (use small in auto)
  show "mset (heappush lt x xs) = add_mset x (mset xs)" by (simp add: heappush_def siftdown_mset)
qed

lemma heap_root:
  assumes "heap_from lt 0 xs" "i < length xs"
  shows "\<not> lt (xs ! i) (xs ! 0)"
  using assms(2)
proof (induction i rule: less_induct)
  case (less i)
  show ?case
  proof (cases "i = 0")
    case False
    then have p: "heap_parent i < i" by (simp add: heap_parent_less)
    have "\<not> lt (xs ! heap_parent i) (xs ! 0)" using less.IH [OF p] p less.prems by simp
    moreover have "\<not> lt (xs ! i) (xs ! heap_parent i)" using assms(1) less.prems False by (simp add: heap_from_def)
    ultimately show ?thesis by (rule nle_trans)
  qed (simp add: irrefl)
qed

lemma heappop_spec:
  assumes h: "heap_from lt 0 xs" and ne: "xs \<noteq> []"
  shows "\<exists>ys. heappop lt xs = Inr (xs ! 0, ys) \<and> heap_from lt 0 ys \<and> mset xs = add_mset (xs ! 0) (mset ys)
    \<and> (\<forall>y \<in> set xs. \<not> lt y (xs ! 0))"
proof -
  have min: "\<forall>y \<in> set xs. \<not> lt y (xs ! 0)" using heap_root [OF h] by (auto simp: in_set_conv_nth)
  let ?l = "last xs" and ?heap = "butlast xs"
  have xs: "xs = ?heap @ [?l]" using ne by simp
  show ?thesis
  proof (cases "?heap = []")
    case True
    then obtain a where "xs = [a]" using ne by (cases xs rule: rev_cases) auto
    with min show ?thesis by (simp add: heappop_def heap_from_def)
  next
    case False
    let ?ys = "?heap[0 := ?l]"
    have len: "0 < length ?heap" using False length_greater_0_conv by blast
    have "heap_from lt (Suc 0) ?ys"
    proof -
      have "\<not> lt (?ys ! i) (?ys ! heap_parent i)" if i: "0 < i" "i < length ?heap" "Suc 0 \<le> heap_parent i" for i
        using h i heap_parent_less [OF i(1)] by (simp add: heap_from_def nth_butlast)
      then show ?thesis by (simp add: heap_from_def)
    qed
    then have s: "heap_from lt 0 (siftup lt 0 ?ys)" "mset (siftup lt 0 ?ys) = mset ?ys"
      using siftup_spec [of 0 ?ys] len by simp_all
    have zero: "?heap ! 0 = xs ! 0" using len by (simp add: nth_butlast)
    have "mset xs = add_mset (xs ! 0) (mset ?ys)"
    proof -
      have "mset ?ys = add_mset ?l (mset ?heap - {#?heap ! 0#})" using len by (simp add: mset_update)
      moreover have "?heap ! 0 \<in># mset ?heap" using len by simp
      ultimately have "add_mset (?heap ! 0) (mset ?ys) = add_mset ?l (mset ?heap)" by (simp add: add_mset_commute)
      then show ?thesis unfolding zero by (subst xs) simp
    qed
    then show ?thesis using s min False ne zero by (simp add: heappop_def Let_def)
  qed
qed

end

subsection \<open>The queues\<close>

type_synonym request_store = "string \<Rightarrow> request"

text \<open>
  \<open>Request.__lt__\<close>, on references. Two objects with the same id are told apart by their addresses,
  here by the references themselves.
\<close>

definition request_lt :: "request_store \<Rightarrow> string \<Rightarrow> string \<Rightarrow> bool" where
  "request_lt st a b =
     (if priority (st a) \<noteq> priority (st b) then priority (st a) < priority (st b)
      else if arrival_time (st a) \<noteq> arrival_time (st b) then arrival_time (st a) < arrival_time (st b)
      else if request_id (st a) \<noteq> request_id (st b) then request_id (st a) < request_id (st b)
      else a < b)"

datatype scheduling_policy = FCFS | PRIORITY

datatype request_queue = FCFSRequestQueue "string list" | PriorityRequestQueue "string list"

definition create_request_queue :: "scheduling_policy \<Rightarrow> request_queue" where
  "create_request_queue policy =
     (if policy = PRIORITY then PriorityRequestQueue [] else FCFSRequestQueue [])"

fun add_request :: "request_store \<Rightarrow> string \<Rightarrow> request_queue \<Rightarrow> request_queue" where
  "add_request st r (FCFSRequestQueue q) = FCFSRequestQueue (q @ [r])"
| "add_request st r (PriorityRequestQueue h) = PriorityRequestQueue (heappush (request_lt st) r h)"

fun pop_request :: "request_store \<Rightarrow> request_queue \<Rightarrow> (string \<times> request_queue) result" where
  "pop_request st (FCFSRequestQueue q) =
     (case q of [] \<Rightarrow> Inl IndexError | r # q' \<Rightarrow> Inr (r, FCFSRequestQueue q'))"
| "pop_request st (PriorityRequestQueue h) =
     (if h = [] then Inl IndexError
      else bindR (heappop (request_lt st) h) (\<lambda>(r, h'). Inr (r, PriorityRequestQueue h')))"

fun peek_request :: "request_queue \<Rightarrow> string result" where
  "peek_request (FCFSRequestQueue q) = (if q = [] then Inl IndexError else Inr (q ! 0))"
| "peek_request (PriorityRequestQueue h) = (if h = [] then Inl IndexError else Inr (h ! 0))"

fun prepend_request :: "request_store \<Rightarrow> string \<Rightarrow> request_queue \<Rightarrow> request_queue" where
  "prepend_request st r (FCFSRequestQueue q) = FCFSRequestQueue (r # q)"
| "prepend_request st r (PriorityRequestQueue h) = add_request st r (PriorityRequestQueue h)"

text \<open>Iterating a priority queue pops a copy of the heap until it is empty, once per element.\<close>

primrec heap_drain :: "('a \<Rightarrow> 'a \<Rightarrow> bool) \<Rightarrow> nat \<Rightarrow> 'a list \<Rightarrow> 'a list" where
  "heap_drain lt 0 xs = []"
| "heap_drain lt (Suc n) xs = (case heappop lt xs of Inl _ \<Rightarrow> [] | Inr (x, ys) \<Rightarrow> x # heap_drain lt n ys)"

fun queue_iter :: "request_store \<Rightarrow> request_queue \<Rightarrow> string list" where
  "queue_iter st (FCFSRequestQueue q) = q"
| "queue_iter st (PriorityRequestQueue h) = heap_drain (request_lt st) (length h) h"

fun prepend_requests :: "request_store \<Rightarrow> request_queue \<Rightarrow> request_queue \<Rightarrow> request_queue" where
  "prepend_requests st other (FCFSRequestQueue q) = FCFSRequestQueue (rev (queue_iter st other) @ q)"
| "prepend_requests st other (PriorityRequestQueue h) =
     fold (add_request st) (queue_iter st other) (PriorityRequestQueue h)"

fun remove_request :: "request_store \<Rightarrow> string \<Rightarrow> request_queue \<Rightarrow> request_queue result" where
  "remove_request st r (FCFSRequestQueue q) =
     (if r \<in> set q then Inr (FCFSRequestQueue (remove1 r q)) else Inl ValueError)"
| "remove_request st r (PriorityRequestQueue h) =
     (if r \<in> set h then Inr (PriorityRequestQueue (heapify (request_lt st) (remove1 r h))) else Inl ValueError)"

fun remove_requests :: "request_store \<Rightarrow> string set \<Rightarrow> request_queue \<Rightarrow> request_queue" where
  "remove_requests st rs (FCFSRequestQueue q) = FCFSRequestQueue (filter (\<lambda>r. r \<notin> rs) q)"
| "remove_requests st rs (PriorityRequestQueue h) =
     PriorityRequestQueue (heapify (request_lt st) (filter (\<lambda>r. r \<notin> rs) h))"

fun queue_items :: "request_queue \<Rightarrow> string list" where
  "queue_items (FCFSRequestQueue q) = q"
| "queue_items (PriorityRequestQueue h) = h"

definition queue_len :: "request_queue \<Rightarrow> int" where
  "queue_len q = int (length (queue_items q))"

definition queue_bool :: "request_queue \<Rightarrow> bool" where
  "queue_bool q = (queue_len q > 0)"

subsection \<open>The contract of a queue\<close>

interpretation request_order: strict_order "request_lt st" for st
  by unfold_locales (auto simp: request_lt_def split: if_splits)

definition queue_ok :: "request_store \<Rightarrow> request_queue \<Rightarrow> bool" where
  "queue_ok st q = (case q of FCFSRequestQueue _ \<Rightarrow> True | PriorityRequestQueue h \<Rightarrow> heap_from (request_lt st) 0 h)"

abbreviation queue_bag :: "request_queue \<Rightarrow> string multiset" where
  "queue_bag q \<equiv> mset (queue_items q)"

primrec pops :: "('q \<Rightarrow> ('a \<times> 'q) result) \<Rightarrow> nat \<Rightarrow> 'q \<Rightarrow> ('a list \<times> 'q) result" where
  "pops pop 0 q = Inr ([], q)"
| "pops pop (Suc n) q = bindR (pop q) (\<lambda>(r, q1). bindR (pops pop n q1) (\<lambda>(rs, q2). Inr (r # rs, q2)))"

text \<open>
  What the scheduler relies on, whatever the policy: adding adds one entry, popping and removing take
  one entry away, and an empty queue raises. \<open>front\<close> says which entry the policy serves next.
\<close>

locale request_queue_contract =
  fixes inv :: "'q \<Rightarrow> bool" and bag :: "'q \<Rightarrow> 'a multiset" and front :: "'q \<Rightarrow> 'a \<Rightarrow> bool"
    and add :: "'a \<Rightarrow> 'q \<Rightarrow> 'q" and pop :: "'q \<Rightarrow> ('a \<times> 'q) result" and peek :: "'q \<Rightarrow> 'a result"
    and remove :: "'a \<Rightarrow> 'q \<Rightarrow> 'q result"
  assumes add_law: "inv q \<Longrightarrow> inv (add r q) \<and> bag (add r q) = add_mset r (bag q)"
    and pop_empty: "inv q \<Longrightarrow> bag q = {#} \<Longrightarrow> pop q = Inl IndexError \<and> peek q = Inl IndexError"
    and pop_law: "inv q \<Longrightarrow> bag q \<noteq> {#} \<Longrightarrow>
        \<exists>r q'. pop q = Inr (r, q') \<and> peek q = Inr r \<and> inv q' \<and> bag q = add_mset r (bag q') \<and> front q r"
    and remove_law: "inv q \<Longrightarrow>
        (if r \<in># bag q then \<exists>q'. remove r q = Inr q' \<and> inv q' \<and> bag q' = bag q - {#r#}
         else remove r q = Inl ValueError)"
begin

text \<open>Popping as often as there are entries returns every entry exactly once and empties the queue.\<close>

lemma pops_all: "inv q \<Longrightarrow> size (bag q) = n \<Longrightarrow> \<exists>rs q'. pops pop n q = Inr (rs, q') \<and> mset rs = bag q \<and> bag q' = {#} \<and> inv q'"
proof (induction n arbitrary: q)
  case 0
  then show ?case by auto
next
  case (Suc n)
  then have "bag q \<noteq> {#}" by auto
  then obtain r q1 where q1: "pop q = Inr (r, q1)" "inv q1" "bag q = add_mset r (bag q1)"
    using pop_law [OF Suc.prems(1)] by blast
  then obtain rs q2 where "pops pop n q1 = Inr (rs, q2)" "mset rs = bag q1" "bag q2 = {#}" "inv q2"
    using Suc.IH [OF q1(2)] Suc.prems(2) by auto
  with q1 show ?case by auto
qed

end

interpretation fcfs: request_queue_contract
    "\<lambda>q. \<exists>xs. q = FCFSRequestQueue xs" queue_bag "\<lambda>q r. \<exists>rest. queue_items q = r # rest"
    "add_request st" "pop_request st" peek_request "remove_request st" for st
proof unfold_locales
  fix q assume "\<exists>xs. q = FCFSRequestQueue xs"
  then obtain xs where q: "q = FCFSRequestQueue xs" by blast
  fix r
  show "if r \<in># queue_bag q then \<exists>q'. remove_request st r q = Inr q' \<and> (\<exists>xs. q' = FCFSRequestQueue xs)
      \<and> queue_bag q' = queue_bag q - {#r#} else remove_request st r q = Inl ValueError" by (simp add: q)
  show "(\<exists>xs. add_request st r q = FCFSRequestQueue xs) \<and> queue_bag (add_request st r q) = add_mset r (queue_bag q)"
    by (simp add: q)
next
  fix q assume "\<exists>xs. q = FCFSRequestQueue xs" "queue_bag q \<noteq> {#}"
  then obtain r xs where "q = FCFSRequestQueue (r # xs)" by (auto simp: neq_Nil_conv)
  then show "\<exists>r q'. pop_request st q = Inr (r, q') \<and> peek_request q = Inr r \<and> (\<exists>xs. q' = FCFSRequestQueue xs)
      \<and> queue_bag q = add_mset r (queue_bag q') \<and> (\<exists>rest. queue_items q = r # rest)" by simp
qed auto

interpretation prio: request_queue_contract
    "\<lambda>q. \<exists>h. q = PriorityRequestQueue h \<and> heap_from (request_lt st) 0 h" queue_bag
    "\<lambda>q r. \<forall>y \<in> set (queue_items q). \<not> request_lt st y r"
    "add_request st" "pop_request st" peek_request "remove_request st" for st
proof unfold_locales
  fix q assume "\<exists>h. q = PriorityRequestQueue h \<and> heap_from (request_lt st) 0 h"
  then obtain h where q: "q = PriorityRequestQueue h" "heap_from (request_lt st) 0 h" by blast
  fix r
  show "if r \<in># queue_bag q then \<exists>q'. remove_request st r q = Inr q'
      \<and> (\<exists>h. q' = PriorityRequestQueue h \<and> heap_from (request_lt st) 0 h) \<and> queue_bag q' = queue_bag q - {#r#}
      else remove_request st r q = Inl ValueError"
    using request_order.heapify_spec by (simp add: q(1))
  show "(\<exists>h. add_request st r q = PriorityRequestQueue h \<and> heap_from (request_lt st) 0 h)
      \<and> queue_bag (add_request st r q) = add_mset r (queue_bag q)"
    using q request_order.heappush_spec by simp
next
  fix q assume "\<exists>h. q = PriorityRequestQueue h \<and> heap_from (request_lt st) 0 h" and ne: "queue_bag q \<noteq> {#}"
  then obtain h where q: "q = PriorityRequestQueue h" "heap_from (request_lt st) 0 h" by blast
  have q3: "h \<noteq> []" using ne q(1) by simp
  obtain h' where "heappop (request_lt st) h = Inr (h ! 0, h')" "heap_from (request_lt st) 0 h'"
    "mset h = add_mset (h ! 0) (mset h')" "\<forall>y \<in> set h. \<not> request_lt st y (h ! 0)"
    using request_order.heappop_spec [OF q(2) q3] by blast
  with q(1) q3 show "\<exists>r q'. pop_request st q = Inr (r, q') \<and> peek_request q = Inr r
      \<and> (\<exists>h. q' = PriorityRequestQueue h \<and> heap_from (request_lt st) 0 h)
      \<and> queue_bag q = add_mset r (queue_bag q') \<and> (\<forall>y \<in> set (queue_items q). \<not> request_lt st y r)"
    by (intro exI [of _ "h ! 0"] exI [of _ "PriorityRequestQueue h'"]) simp
qed auto

subsection \<open>Histories of a queue\<close>

text \<open>
  The queue holds references to requests that the scheduler goes on changing. Between the calls on the queue
  the store may change in any way that keeps the fields \<open>__lt__\<close> reads of the requests queued at that moment;
  requests that are not queued change freely.
\<close>

definition same_precedence :: "request \<Rightarrow> request \<Rightarrow> bool" where
  "same_precedence a b \<longleftrightarrow> priority b = priority a \<and> arrival_time b = arrival_time a \<and> request_id b = request_id a"

inductive queue_step :: "request_store \<times> request_queue \<Rightarrow> request_store \<times> request_queue \<Rightarrow> bool" where
  qs_add: "queue_step (st, q) (st, add_request st r q)"
| qs_prepend: "queue_step (st, q) (st, prepend_request st r q)"
| qs_prepend_all: "queue_step (st, q) (st, prepend_requests st other q)"
| qs_pop: "pop_request st q = Inr (r, q') \<Longrightarrow> queue_step (st, q) (st, q')"
| qs_remove: "remove_request st r q = Inr q' \<Longrightarrow> queue_step (st, q) (st, q')"
| qs_remove_all: "queue_step (st, q) (st, remove_requests st rs q)"
| qs_update: "\<forall>r \<in> set (queue_items q). same_precedence (st r) (st' r) \<Longrightarrow> queue_step (st, q) (st', q)"

abbreviation is_priority_queue :: "request_store \<Rightarrow> request_queue \<Rightarrow> bool" where
  "is_priority_queue st q \<equiv> \<exists>h. q = PriorityRequestQueue h \<and> heap_from (request_lt st) 0 h"

lemma add_all:
  "is_priority_queue st q \<Longrightarrow> is_priority_queue st (fold (add_request st) rs q)
     \<and> queue_bag (fold (add_request st) rs q) = mset rs + queue_bag q"
proof (induction rs arbitrary: q)
  case (Cons r rs)
  from prio.add_law [OF Cons.prems, of r] have "is_priority_queue st (add_request st r q)"
    "queue_bag (add_request st r q) = add_mset r (queue_bag q)" by blast+
  with Cons.IH [OF this(1)] show ?case by simp
qed simp

lemma request_lt_same:
  "same_precedence (st a) (st' a) \<Longrightarrow> same_precedence (st b) (st' b) \<Longrightarrow> request_lt st' a b = request_lt st a b"
  by (simp add: request_lt_def same_precedence_def)

lemma heap_from_same:
  assumes "heap_from (request_lt st) 0 h" "\<forall>r \<in> set h. same_precedence (st r) (st' r)"
  shows "heap_from (request_lt st') 0 h"
proof -
  have "request_lt st' (h ! i) (h ! j) = request_lt st (h ! i) (h ! j)" if "i < length h" "j < length h" for i j
    using that assms(2) by (intro request_lt_same) simp_all
  moreover have "heap_parent i < length h" if "i < length h" for i using that by (simp add: heap_parent_def)
  ultimately show ?thesis using assms(1) unfolding heap_from_def by simp
qed

lemma queue_step_priority:
  assumes "queue_step (st, q) (st', q')" and q: "is_priority_queue st q"
  shows "is_priority_queue st' q'"
  using assms(1)
proof (cases rule: queue_step.cases)
  case (qs_add r)
  then show ?thesis using prio.add_law [OF q] by simp
next
  case (qs_prepend r)
  then show ?thesis using prio.add_law [OF q, of r] q by auto
next
  case (qs_prepend_all other)
  then show ?thesis using add_all [OF q, of "queue_iter st other"] q by auto
next
  case (qs_pop r)
  then show ?thesis using prio.pop_law [OF q] prio.pop_empty [OF q] by fastforce
next
  case (qs_remove r)
  then show ?thesis using prio.remove_law [OF q, of r] by (auto split: if_splits)
next
  case (qs_remove_all rs)
  then show ?thesis using q request_order.heapify_spec by auto
next
  case qs_update
  then show ?thesis using q heap_from_same by auto
qed

lemma queue_step_fcfs: "queue_step (st, q) (st', q') \<Longrightarrow> \<exists>xs. q = FCFSRequestQueue xs \<Longrightarrow> \<exists>xs. q' = FCFSRequestQueue xs"
  by (erule queue_step.cases) (auto split: list.splits if_splits)

lemma request_queue_history:
  assumes "queue_step\<^sup>*\<^sup>* (st0, create_request_queue policy) (st, q)"
  shows "if policy = PRIORITY then is_priority_queue st q else \<exists>xs. q = FCFSRequestQueue xs"
  using assms
proof (induction "(st, q)" arbitrary: st q rule: rtranclp_induct)
  case base
  then show ?case by (simp add: create_request_queue_def heap_from_def)
next
  case (step y)
  obtain st1 q1 where y: "y = (st1, q1)" by force
  then show ?case
    using step.hyps(3) [OF y] queue_step_priority [OF step.hyps(2) [unfolded y]] queue_step_fcfs [OF step.hyps(2) [unfolded y]]
    by (simp split: if_splits)
qed

lemma heap_drain_spec:
  assumes "heap_from (request_lt st) 0 xs"
  shows "mset (heap_drain (request_lt st) (length xs) xs) = mset xs
    \<and> sorted_wrt (\<lambda>a b. \<not> request_lt st b a) (heap_drain (request_lt st) (length xs) xs)"
  using assms
proof (induction "length xs" arbitrary: xs)
  case 0
  then show ?case by simp
next
  case (Suc n)
  then obtain ys where ys: "heappop (request_lt st) xs = Inr (xs ! 0, ys)" "heap_from (request_lt st) 0 ys"
    "mset xs = add_mset (xs ! 0) (mset ys)" "\<forall>y \<in> set xs. \<not> request_lt st y (xs ! 0)"
    using request_order.heappop_spec [OF Suc.prems] by (metis length_0_conv nat.distinct(1))
  have n: "n = length ys" using Suc.hyps(2) arg_cong [OF ys(3), of size] by simp
  have sub: "set ys \<subseteq> set xs" using arg_cong [OF ys(3), of set_mset] by auto
  note ih = Suc.hyps(1) [OF n ys(2)]
  have "set (heap_drain (request_lt st) (length ys) ys) = set ys" using ih mset_eq_setD by blast
  then show ?case using ih ys sub by (auto simp: Suc.hyps(2) [symmetric] n)
qed

text \<open>
  C24: The priority queue serves in order, as long as a queued request keeps its priority, arrival time
  and id. After any history of calls on a new priority queue, interleaved with such changes of the
  requests and any change of requests not queued, the array is a heap: popping and peeking give an entry that no other entry precedes by priority,
  arrival time and id, popping takes exactly that entry away, iterating lists every entry once in
  order of precedence, and popping until empty returns every entry exactly once.
\<close>

theorem priority_queue_order:
  assumes "queue_step\<^sup>*\<^sup>* (st0, create_request_queue PRIORITY) (st, q)"
  shows "(queue_bag q = {#} \<longrightarrow> pop_request st q = Inl IndexError \<and> peek_request q = Inl IndexError)
    \<and> (queue_bag q \<noteq> {#} \<longrightarrow> (\<exists>r q'. pop_request st q = Inr (r, q') \<and> peek_request q = Inr r
          \<and> queue_bag q = add_mset r (queue_bag q') \<and> (\<forall>y \<in> set (queue_items q). \<not> request_lt st y r)))
    \<and> mset (queue_iter st q) = queue_bag q \<and> sorted_wrt (\<lambda>a b. \<not> request_lt st b a) (queue_iter st q)
    \<and> (\<exists>rs q'. pops (pop_request st) (nat (queue_len q)) q = Inr (rs, q') \<and> mset rs = queue_bag q \<and> queue_bag q' = {#})"
proof -
  have q: "is_priority_queue st q" using request_queue_history [OF assms] by simp
  have "mset (queue_iter st q) = queue_bag q \<and> sorted_wrt (\<lambda>a b. \<not> request_lt st b a) (queue_iter st q)"
    using q heap_drain_spec by auto
  moreover have "nat (queue_len q) = size (queue_bag q)" by (simp add: queue_len_def)
  then have "\<exists>rs q'. pops (pop_request st) (nat (queue_len q)) q = Inr (rs, q') \<and> mset rs = queue_bag q \<and> queue_bag q' = {#}"
    using prio.pops_all [OF q refl] by auto
  ultimately show ?thesis using prio.pop_law [OF q] prio.pop_empty [OF q] by blast
qed

definition prio_store :: "int \<Rightarrow> int \<Rightarrow> int \<Rightarrow> request_store" where
  "prio_store a b c = (\<lambda>rid. (bare_request rid)\<lparr>priority := (if rid = ''a'' then a else if rid = ''b'' then b else c)\<rparr>)"

theorem priority_queue_order_witness:
  "\<exists>r q'. pop_request (prio_store 3 1 2)
       (fold (add_request (prio_store 3 1 2)) [''a'', ''b'', ''c''] (create_request_queue PRIORITY)) = Inr (r, q')
     \<and> r = ''b'' \<and> mset [''a'', ''b'', ''c''] = add_mset ''b'' (queue_bag q')"
proof -
  let ?st = "prio_store 3 1 2" and ?empty = "create_request_queue PRIORITY"
  let ?q = "fold (add_request ?st) [''a'', ''b'', ''c''] ?empty"
  have "queue_step\<^sup>*\<^sup>* (?st, q) (?st, fold (add_request ?st) rs q)" for q rs
  proof (induction rs arbitrary: q)
    case (Cons r rs)
    from converse_rtranclp_into_rtranclp [OF queue_step.qs_add Cons.IH] show ?case by simp
  qed simp
  note ord = priority_queue_order [OF this, of "[''a'', ''b'', ''c'']"]
  have q0: "is_priority_queue ?st ?empty" "queue_bag ?empty = {#}" by (simp_all add: create_request_queue_def heap_from_def)
  have items: "queue_bag ?q = mset [''a'', ''b'', ''c'']"
    using add_all [OF q0(1), of "[''a'', ''b'', ''c'']"] unfolding q0(2) by simp
  then obtain r q' where r: "pop_request ?st ?q = Inr (r, q')" "queue_bag ?q = add_mset r (queue_bag q')"
    "\<forall>y \<in> set (queue_items ?q). \<not> request_lt ?st y r" using ord by auto
  have set: "set (queue_items ?q) = {''a'', ''b'', ''c''}" using arg_cong [OF items, of set_mset] by simp
  have "r \<in> {''a'', ''b'', ''c''}" using arg_cong [OF r(2), of set_mset] set by auto
  then have "r = ''b''" using r(3) unfolding set by (auto simp: request_lt_def prio_store_def bare_request_def)
  with r(1,2) items show ?thesis by auto
qed

text \<open>
  Changing a queued request breaks the order. The heap compares requests by their current fields;
  there is a queue in order in which, once the arrival time of a queued request is moved back, as
  \<open>_update_request_as_session\<close> does for a request that waits, popping returns that request although
  another one now precedes it.
\<close>

lemma heap_order_goes_stale:
  "\<exists>st' q st. st' = st(''a'' := (st ''a'')\<lparr>arrival_time := 9\<rparr>) \<and> queue_ok st q
     \<and> queue_items q = [''a'', ''b''] \<and> request_lt st' ''b'' ''a'' \<and> peek_request q = Inr ''a''"
proof -
  let ?st = "(prio_store 0 0 0)(''b'' := (prio_store 0 0 0 ''b'')\<lparr>arrival_time := 5\<rparr>)"
  let ?q = "PriorityRequestQueue [''a'', ''b'']"
  have "queue_ok ?st ?q"
    by (auto simp: queue_ok_def heap_from_def request_lt_def prio_store_def bare_request_def less_Suc_eq heap_parent_def)
  moreover have "request_lt (?st(''a'' := (?st ''a'')\<lparr>arrival_time := 9\<rparr>)) ''b'' ''a''"
    by (simp add: request_lt_def prio_store_def bare_request_def)
  ultimately show ?thesis
    by (intro exI [of _ "?st(''a'' := (?st ''a'')\<lparr>arrival_time := 9\<rparr>)"] exI [of _ ?q] exI [of _ ?st]) simp
qed

subsection \<open>Contents, whatever the order\<close>

text \<open>
  The scheduler changes requests while they are queued, so the array of a priority queue need not be a
  heap for the present store. Which entries a queue holds does not depend on that.
\<close>

lemma siftup_loop_mset:
  "pos < length xs \<Longrightarrow> siftup_loop lt pos xs = (p, ys) \<Longrightarrow>
   p < length ys \<and> length ys = length xs \<and> mset (ys[p := item]) = mset (xs[pos := item])"
proof (induction lt pos xs arbitrary: p ys rule: siftup_loop.induct)
  case (1 lt pos xs)
  show ?case
  proof (cases "2 * pos + 1 < length xs")
    case False
    then show ?thesis using "1.prems" by (auto simp: siftup_loop.simps [of lt pos xs])
  next
    case True
    define c where "c = smaller_child lt pos xs"
    have c: "c < length xs" "c \<noteq> pos" using True by (auto simp: c_def smaller_child_def Let_def)
    have run: "siftup_loop lt c (xs[pos := xs ! c]) = (p, ys)"
      using "1.prems"(2) True by (simp add: siftup_loop.simps [of lt pos xs] c_def Let_def)
    have "mset ((xs[pos := xs ! c])[c := item]) = mset (xs[pos := item])"
    proof -
      have "(xs[pos := xs ! c])[c := item] = (xs[pos := item])[pos := xs[pos := item] ! c, c := xs[pos := item] ! pos]"
        using "1.prems"(1) c by simp
      also have "mset \<dots> = mset (xs[pos := item])" using "1.prems"(1) c(1) by (intro mset_swap) simp_all
      finally show ?thesis .
    qed
    with "1.IH" [OF True c_def _ run] c(1) show ?thesis by simp
  qed
qed

lemma siftup_mset:
  assumes "pos < length xs"
  shows "mset (siftup (request_lt st) pos xs) = mset xs"
proof -
  obtain p ys where r: "siftup_loop (request_lt st) pos xs = (p, ys)" by fastforce
  from siftup_loop_mset [OF assms r, of "xs ! pos"] show ?thesis
    by (simp add: siftup_def r request_order.siftdown_mset)
qed

lemma heappop_bag:
  assumes "xs \<noteq> []"
  shows "\<exists>ys. heappop (request_lt st) xs = Inr (xs ! 0, ys) \<and> mset xs = add_mset (xs ! 0) (mset ys)"
proof (cases "butlast xs = []")
  case True
  then obtain a where "xs = [a]" using assms by (cases xs rule: rev_cases) auto
  then show ?thesis by (simp add: heappop_def)
next
  case False
  obtain a zs where z: "butlast xs = a # zs" using False by (cases "butlast xs") auto
  have xs: "xs = a # zs @ [last xs]" using assms z by (metis append_Cons append_butlast_last_id)
  have "heappop (request_lt st) xs = Inr (a, siftup (request_lt st) 0 (last xs # zs))"
    using assms z by (simp add: heappop_def Let_def)
  moreover have "mset (siftup (request_lt st) 0 (last xs # zs)) = mset (last xs # zs)" by (rule siftup_mset) simp
  moreover have "xs ! 0 = a" "mset xs = add_mset a (mset (last xs # zs))" by (subst xs, simp)+
  ultimately show ?thesis by simp
qed

lemma pop_request_bag:
  assumes "pop_request st q = Inr (r, q')"
  shows "peek_request q = Inr r" "queue_bag q = add_mset r (queue_bag q')"
proof -
  have "peek_request q = Inr r \<and> queue_bag q = add_mset r (queue_bag q')"
  proof (cases q)
    case (FCFSRequestQueue xs)
    then show ?thesis using assms by (cases xs) auto
  next
    case (PriorityRequestQueue h)
    then have "h \<noteq> []" using assms by auto
    with heappop_bag [OF this, of st] show ?thesis using assms PriorityRequestQueue by auto
  qed
  then show "peek_request q = Inr r" "queue_bag q = add_mset r (queue_bag q')" by simp_all
qed

lemma pop_request_total: "queue_items q \<noteq> [] \<Longrightarrow> \<exists>r q'. pop_request st q = Inr (r, q')"
proof (cases q)
  case (PriorityRequestQueue h)
  assume "queue_items q \<noteq> []"
  with PriorityRequestQueue heappop_bag [of h st] show ?thesis by auto
qed (auto split: list.splits)

lemma add_request_bag [simp]: "queue_bag (add_request st r q) = add_mset r (queue_bag q)"
  by (cases q) (simp_all add: request_order.heappush_spec(2))

lemma prepend_request_bag [simp]: "queue_bag (prepend_request st r q) = add_mset r (queue_bag q)"
  by (cases q) (simp_all add: request_order.heappush_spec(2))

lemma remove_requests_bag [simp]: "queue_bag (remove_requests st rs q) = filter_mset (\<lambda>r. r \<notin> rs) (queue_bag q)"
  by (cases q) (simp_all add: request_order.heapify_spec)

lemma heap_drain_bag: "mset (heap_drain (request_lt st) (length xs) xs) = mset xs"
proof (induction "length xs" arbitrary: xs)
  case (Suc n)
  then obtain ys where ys: "heappop (request_lt st) xs = Inr (xs ! 0, ys)" "mset xs = add_mset (xs ! 0) (mset ys)"
    using heappop_bag [of xs st] by (metis length_0_conv nat.distinct(1))
  have "n = length ys" using Suc.hyps(2) arg_cong [OF ys(2), of size] by simp
  with Suc.hyps(1) [OF this] ys show ?case by (simp add: Suc.hyps(2) [symmetric])
qed simp

lemma queue_iter_bag [simp]: "mset (queue_iter st q) = queue_bag q"
  by (cases q) (simp_all add: heap_drain_bag)

lemma prepend_requests_bag [simp]: "queue_bag (prepend_requests st other q) = queue_bag other + queue_bag q"
proof (cases q)
  case (PriorityRequestQueue h)
  have "queue_bag (fold (add_request st) rs q) = mset rs + queue_bag q" for rs q
    by (induction rs arbitrary: q) simp_all
  with PriorityRequestQueue show ?thesis by simp
qed simp

lemma queue_bool_iff [simp]: "queue_bool q \<longleftrightarrow> queue_items q \<noteq> []"
  by (simp add: queue_bool_def queue_len_def)

end
