(* ===== verification/Encoder_Cache.thy ===== *)
theory Encoder_Cache
  imports Request_Model
begin

text \<open>
  The caches of encoder outputs of \<open>vllm/v1/core/encoder_cache_manager.py\<close>: entries shared between
  requests by the identifier of their data, reference sets, an ordered dictionary of reclaimable
  entries evicted oldest first when space is needed, and the variant for encoder-decoder models.
\<close>

subsection \<open>State and operations\<close>

record encoder_cache =
  ec_cache_size :: int
  num_free_slots :: int
  num_freeable_slots :: int
  ec_cached :: "(string \<times> string set) list"
  ec_freeable :: "(string \<times> int) list"
  ec_freed :: "string list"

definition encoder_cache_init :: "int \<Rightarrow> encoder_cache" where
  "encoder_cache_init n =
     \<lparr>ec_cache_size = n, num_free_slots = n, num_freeable_slots = n, ec_cached = [], ec_freeable = [], ec_freed = []\<rparr>"

definition ec_reset :: "encoder_cache \<Rightarrow> encoder_cache" where
  "ec_reset s = s\<lparr>ec_cached := [], ec_freeable := [], ec_freed := [],
                  num_free_slots := ec_cache_size s, num_freeable_slots := ec_cache_size s\<rparr>"

definition feature_hash :: "request \<Rightarrow> int \<Rightarrow> string result" where
  "feature_hash r i = bindR (py_nth (mm_features r) i) (\<lambda>f. Inr (mm_identifier f))"

definition check_and_update_cache :: "request \<Rightarrow> int \<Rightarrow> encoder_cache \<Rightarrow> (bool \<times> encoder_cache) result" where
  "check_and_update_cache r i s =
     bindR (feature_hash r i) (\<lambda>h.
       case map_of (ec_cached s) h of
         None \<Rightarrow> Inr (False, s)
       | Some refs \<Rightarrow>
           bindR (if refs = {}
                  then (case map_of (ec_freeable s) h of
                          None \<Rightarrow> Inl KeyError
                        | Some n \<Rightarrow> Inr (s\<lparr>ec_freeable := AList.delete h (ec_freeable s),
                                          num_freeable_slots := num_freeable_slots s - n\<rparr>))
                  else Inr s) (\<lambda>s'.
             Inr (True, s'\<lparr>ec_cached := AList.update h (insert (request_id r) refs) (ec_cached s')\<rparr>)))"

function evict_loop :: "int \<Rightarrow> encoder_cache \<Rightarrow> encoder_cache result" where
  "evict_loop n s =
     (if n > num_free_slots s
      then (case ec_freeable s of
              [] \<Rightarrow> Inl KeyError
            | (h, k) # rest \<Rightarrow>
                if map_of (ec_cached s) h = None then Inl KeyError
                else evict_loop n (s\<lparr>ec_freeable := rest, ec_cached := AList.delete h (ec_cached s),
                                     ec_freed := ec_freed s @ [h], num_free_slots := num_free_slots s + k\<rparr>))
      else Inr s)"
  by auto
termination by (relation "measure (\<lambda>(_, s). length (ec_freeable s))") auto

declare evict_loop.simps [simp del]

definition can_allocate :: "request \<Rightarrow> int \<Rightarrow> int \<Rightarrow> int \<Rightarrow> encoder_cache \<Rightarrow> (bool \<times> encoder_cache) result" where
  "can_allocate r i compute_budget num_to_schedule s =
     bindR (get_num_encoder_embeds r i) (\<lambda>k.
       if k > compute_budget then Inr (False, s)
       else
         let n = k + num_to_schedule
         in if n \<le> num_free_slots s then Inr (True, s)
            else if n > num_freeable_slots s then Inr (False, s)
            else bindR (evict_loop n s) (\<lambda>s'. Inr (True, s')))"

definition ec_allocate :: "request \<Rightarrow> int \<Rightarrow> encoder_cache \<Rightarrow> encoder_cache result" where
  "ec_allocate r i s =
     bindR (feature_hash r i) (\<lambda>h.
     let refs = (case map_of (ec_cached s) h of None \<Rightarrow> {} | Some refs \<Rightarrow> refs)
     in bindR (get_num_encoder_embeds r i) (\<lambda>n.
        bindR (assertR (num_free_slots s \<ge> n)) (\<lambda>_.
        bindR (assertR (num_freeable_slots s \<ge> n)) (\<lambda>_.
          Inr (s\<lparr>ec_cached := AList.update h (insert (request_id r) refs) (ec_cached s),
                 num_free_slots := num_free_slots s - n,
                 num_freeable_slots := num_freeable_slots s - n\<rparr>)))))"

text \<open>The set of small integers of the source, in increasing order.\<close>

definition get_cached_input_ids :: "request \<Rightarrow> encoder_cache \<Rightarrow> int list" where
  "get_cached_input_ids r s =
     map int (filter (\<lambda>i. map_of (ec_cached s) (mm_identifier (mm_features r ! i)) \<noteq> None) [0..<length (mm_features r)])"

definition free_encoder_input :: "request \<Rightarrow> int \<Rightarrow> encoder_cache \<Rightarrow> encoder_cache result" where
  "free_encoder_input r i s =
     bindR (feature_hash r i) (\<lambda>h.
       case map_of (ec_cached s) h of
         None \<Rightarrow> Inr s
       | Some refs \<Rightarrow>
           if refs = {} then Inr s
           else
             let refs' = refs - {request_id r};
                 s' = s\<lparr>ec_cached := AList.update h refs' (ec_cached s)\<rparr>
             in if refs' = {}
                then bindR (get_num_encoder_embeds r i) (\<lambda>n.
                       Inr (s'\<lparr>ec_freeable := AList.update h n (ec_freeable s'),
                               num_freeable_slots := num_freeable_slots s' + n\<rparr>))
                else Inr s')"

definition ec_free :: "request \<Rightarrow> encoder_cache \<Rightarrow> encoder_cache result" where
  "ec_free r s = foldR (free_encoder_input r) (get_cached_input_ids r s) s"

definition get_freed_mm_hashes :: "encoder_cache \<Rightarrow> string list \<times> encoder_cache" where
  "get_freed_mm_hashes s = (ec_freed s, s\<lparr>ec_freed := []\<rparr>)"

text \<open>\<open>compute_mm_encoder_budget\<close>; \<open>limits\<close> are the values of the mapping of the largest items.\<close>

definition compute_mm_encoder_budget :: "bool \<Rightarrow> int \<Rightarrow> int \<Rightarrow> int \<Rightarrow> int list \<Rightarrow> (int \<times> int) result" where
  "compute_mm_encoder_budget disable_chunked max_batched max_encoder_input cache_size limits =
     (if limits = [] then Inr (0, 0)
      else
        let largest = Max (set limits)
        in if disable_chunked \<and> largest > max_batched then Inl ValueError
           else Inr (max max_encoder_input largest, max cache_size largest))"

subsection \<open>The variant for encoder-decoder models\<close>

record encdec_cache =
  ed_cache_size :: int
  ed_num_free_slots :: int
  ed_allocated :: "string list"
  ed_to_free :: "string list"

definition encdec_init :: "int \<Rightarrow> encdec_cache" where
  "encdec_init n = \<lparr>ed_cache_size = n, ed_num_free_slots = n, ed_allocated = [], ed_to_free = []\<rparr>"

definition ed_reset :: "encdec_cache \<Rightarrow> encdec_cache" where
  "ed_reset s = s\<lparr>ed_num_free_slots := ed_cache_size s, ed_allocated := [], ed_to_free := []\<rparr>"

definition ed_check_and_update_cache :: "request \<Rightarrow> int \<Rightarrow> encdec_cache \<Rightarrow> bool \<times> encdec_cache" where
  "ed_check_and_update_cache r i s = (False, s)"

definition ed_can_allocate :: "request \<Rightarrow> int \<Rightarrow> int \<Rightarrow> int \<Rightarrow> encdec_cache \<Rightarrow> (bool \<times> encdec_cache) result" where
  "ed_can_allocate r i compute_budget num_to_schedule s =
     bindR (get_num_encoder_embeds r i) (\<lambda>k.
       if k > compute_budget then Inr (False, s) else Inr (k + num_to_schedule \<le> ed_num_free_slots s, s))"

definition ed_allocate :: "request \<Rightarrow> int \<Rightarrow> encdec_cache \<Rightarrow> encdec_cache result" where
  "ed_allocate r i s =
     bindR (get_num_encoder_embeds r i) (\<lambda>n.
     bindR (feature_hash r i) (\<lambda>h.
       Inr (s\<lparr>ed_num_free_slots := ed_num_free_slots s - n, ed_allocated := ed_allocated s @ [h]\<rparr>)))"

definition ed_free_encoder_input :: "request \<Rightarrow> int \<Rightarrow> encdec_cache \<Rightarrow> encdec_cache result" where
  "ed_free_encoder_input r i s =
     bindR (get_num_encoder_embeds r i) (\<lambda>n. Inr (s\<lparr>ed_num_free_slots := ed_num_free_slots s + n\<rparr>))"

definition ed_get_cached_input_ids :: "request \<Rightarrow> int list" where
  "ed_get_cached_input_ids r = map int [0..<length (mm_features r)]"

definition ed_free :: "request \<Rightarrow> encdec_cache \<Rightarrow> encdec_cache result" where
  "ed_free r s = foldR (ed_free_encoder_input r) (map int [0..<length (mm_features r)]) s"

definition ed_get_freed_mm_hashes :: "encdec_cache \<Rightarrow> string list \<times> encdec_cache" where
  "ed_get_freed_mm_hashes s = (ed_to_free s, s\<lparr>ed_to_free := ed_allocated s, ed_allocated := []\<rparr>)"

subsection \<open>The accounting invariant\<close>

text \<open>
  \<open>size_of\<close> gives the number of embeddings of each item of data: the identifier determines the data, so
  every feature with that identifier has that many.
\<close>

definition sized :: "(string \<Rightarrow> int) \<Rightarrow> request \<Rightarrow> bool" where
  "sized size_of r \<longleftrightarrow> (\<forall>f \<in> set (mm_features r). get_num_embeds f = Inr (size_of (mm_identifier f)))"

definition pinned :: "encoder_cache \<Rightarrow> string set" where
  "pinned s = {h. \<exists>refs. map_of (ec_cached s) h = Some refs \<and> refs \<noteq> {}}"

definition enc_ok :: "(string \<Rightarrow> int) \<Rightarrow> encoder_cache \<Rightarrow> bool" where
  "enc_ok size_of s \<longleftrightarrow> (\<forall>h. 0 \<le> size_of h) \<and> distinct (map fst (ec_freeable s))
     \<and> (\<forall>h n. map_of (ec_freeable s) h = Some n \<longleftrightarrow> map_of (ec_cached s) h = Some {} \<and> n = size_of h)
     \<and> num_free_slots s = ec_cache_size s - sum size_of (dom (map_of (ec_cached s)))
     \<and> num_freeable_slots s = ec_cache_size s - sum size_of (pinned s)
     \<and> 0 \<le> num_free_slots s"

lemma enc_okD:
  assumes "enc_ok size_of s"
  shows "0 \<le> size_of h" "distinct (map fst (ec_freeable s))"
    "map_of (ec_freeable s) h = Some n \<longleftrightarrow> map_of (ec_cached s) h = Some {} \<and> n = size_of h"
    "num_free_slots s = ec_cache_size s - sum size_of (dom (map_of (ec_cached s)))"
    "num_freeable_slots s = ec_cache_size s - sum size_of (pinned s)" "0 \<le> num_free_slots s"
  using assms by (auto simp: enc_ok_def)

lemma finite_cached [simp]: "finite (dom (map_of (ec_cached s)))" "finite (pinned s)"
  by (rule finite_dom_map_of) (rule finite_subset [OF _ finite_dom_map_of [of "ec_cached s"]], auto simp: pinned_def)

lemma pinned_sub: "pinned s \<subseteq> dom (map_of (ec_cached s))"
  by (auto simp: pinned_def)

text \<open>Reclaimable space is free space plus the space of the reclaimable entries.\<close>

lemma freeable_space:
  assumes "enc_ok size_of s"
  shows "num_freeable_slots s = num_free_slots s + (\<Sum>(h, n) \<leftarrow> ec_freeable s. n)" "num_free_slots s \<le> num_freeable_slots s"
proof -
  have keys: "dom (map_of (ec_freeable s)) = dom (map_of (ec_cached s)) - pinned s"
    using enc_okD(3) [OF assms] by (auto simp: pinned_def dom_def)
  have each: "(h, n) \<in> set (ec_freeable s) \<Longrightarrow> n = size_of h" for h n
    using enc_okD(2,3) [OF assms] map_of_is_SomeI by metis
  have "(\<Sum>(h, n) \<leftarrow> ec_freeable s. n) = (\<Sum>h \<leftarrow> map fst (ec_freeable s). size_of h)"
    using each by (simp add: comp_def case_prod_unfold cong: map_cong) (metis (mono_tags, lifting) map_eq_conv prod.collapse)
  also have "\<dots> = sum size_of (fst ` set (ec_freeable s))"
    by (subst sum_list_distinct_conv_sum_set [OF enc_okD(2) [OF assms]]) simp
  also have "\<dots> = sum size_of (dom (map_of (ec_cached s)) - pinned s)"
    using keys by (simp add: dom_map_of_conv_image_fst)
  also have "\<dots> = sum size_of (dom (map_of (ec_cached s))) - sum size_of (pinned s)"
    by (rule sum_diff) (simp_all add: pinned_sub)
  finally show "num_freeable_slots s = num_free_slots s + (\<Sum>(h, n) \<leftarrow> ec_freeable s. n)"
    using enc_okD(4,5) [OF assms] by linarith
  have "sum size_of (pinned s) \<le> sum size_of (dom (map_of (ec_cached s)))"
    by (intro sum_mono2 pinned_sub enc_okD(1) [OF assms]) simp
  then show "num_free_slots s \<le> num_freeable_slots s" using enc_okD(4,5) [OF assms] by linarith
qed

subsection \<open>Each operation\<close>

lemma sized_input:
  assumes "sized size_of r" "0 \<le> i" "i < int (length (mm_features r))"
  shows "\<exists>h. feature_hash r i = Inr h \<and> get_num_encoder_embeds r i = Inr (size_of h)"
  using assms nth_mem [of "nat i" "mm_features r"]
  by (simp add: feature_hash_def get_num_encoder_embeds_def sized_def py_nth_def nat_less_iff)

lemma pinned_update: "pinned (s\<lparr>ec_cached := AList.update h refs (ec_cached s)\<rparr>)
    = (if refs = {} then pinned s - {h} else insert h (pinned s))"
  by (auto simp: pinned_def update_conv')

lemma check_and_update_spec:
  assumes ok: "enc_ok size_of s" and h: "feature_hash r i = Inr h"
  shows "\<exists>s'. check_and_update_cache r i s = Inr (map_of (ec_cached s) h \<noteq> None, s') \<and> enc_ok size_of s'
    \<and> (map_of (ec_cached s) h = None \<longrightarrow> s' = s)
    \<and> map_of (ec_cached s') = (case map_of (ec_cached s) h of None \<Rightarrow> map_of (ec_cached s)
         | Some refs \<Rightarrow> (map_of (ec_cached s))(h \<mapsto> insert (request_id r) refs))
    \<and> ec_cache_size s' = ec_cache_size s"
proof (cases "map_of (ec_cached s) h")
  case None
  with ok h show ?thesis by (simp add: check_and_update_cache_def)
next
  case (Some refs)
  let ?C = "AList.update h (insert (request_id r) refs) (ec_cached s)"
  have dom: "dom (map_of ?C) = dom (map_of (ec_cached s))" using Some by (auto simp: update_conv')
  show ?thesis
  proof (cases "refs = {}")
    case True
    let ?s = "s\<lparr>ec_freeable := AList.delete h (ec_freeable s), num_freeable_slots := num_freeable_slots s - size_of h, ec_cached := ?C\<rparr>"
    have f: "map_of (ec_freeable s) h = Some (size_of h)" using enc_okD(3) [OF ok] Some True by simp
    have pin: "pinned ?s = insert h (pinned s)" "h \<notin> pinned s"
      using Some True by (auto simp: pinned_def update_conv')
    have "enc_ok size_of ?s"
      unfolding enc_ok_def pin(1) using enc_okD [OF ok] dom pin(2)
      by (auto simp: delete_conv' update_conv' distinct_delete restrict_map_def)
    then show ?thesis using Some True h f by (auto simp: check_and_update_cache_def update_conv')
  next
    case False
    let ?s = "s\<lparr>ec_cached := ?C\<rparr>"
    have pin: "pinned ?s = pinned s" using Some False by (auto simp: pinned_def update_conv')
    have "enc_ok size_of ?s"
      unfolding enc_ok_def pin using enc_okD [OF ok] dom Some False by (auto simp: update_conv')
    then show ?thesis using Some False h by (auto simp: check_and_update_cache_def update_conv')
  qed
qed

lemma evict_loop_spec:
  "enc_ok size_of s \<Longrightarrow> n \<le> num_freeable_slots s \<Longrightarrow>
   \<exists>s' k. evict_loop n s = Inr s' \<and> enc_ok size_of s' \<and> n \<le> num_free_slots s'
     \<and> ec_freeable s' = drop k (ec_freeable s) \<and> ec_freed s' = ec_freed s @ map fst (take k (ec_freeable s))
     \<and> num_freeable_slots s' = num_freeable_slots s \<and> ec_cache_size s' = ec_cache_size s
     \<and> (\<forall>h. h \<in> pinned s \<longrightarrow> map_of (ec_cached s') h = map_of (ec_cached s) h)
     \<and> dom (map_of (ec_cached s')) = dom (map_of (ec_cached s)) - fst ` set (take k (ec_freeable s))"
proof (induction n s rule: evict_loop.induct)
  case (1 n s)
  show ?case
  proof (cases "n > num_free_slots s")
    case False
    then show ?thesis using "1.prems" by (intro exI [of _ s] exI [of _ 0]) (simp add: evict_loop.simps [of n s])
  next
    case True
    note ok = "1.prems"(1)
    obtain h k rest where fr: "ec_freeable s = (h, k) # rest"
    proof (cases "ec_freeable s")
      case Nil
      with freeable_space(1) [OF ok] "1.prems"(2) True show ?thesis by simp
    qed auto
    have h: "map_of (ec_cached s) h = Some {}" "k = size_of h" using enc_okD(3) [OF ok, of h k] fr by auto
    let ?s = "s\<lparr>ec_freeable := rest, ec_cached := AList.delete h (ec_cached s), ec_freed := ec_freed s @ [h],
                num_free_slots := num_free_slots s + k\<rparr>"
    have pin: "pinned ?s = pinned s" using h(1) by (auto simp: pinned_def delete_conv' restrict_map_def)
    have dom: "dom (map_of (AList.delete h (ec_cached s))) = dom (map_of (ec_cached s)) - {h}"
      by (auto simp: delete_conv' restrict_map_def split: if_splits)
    have hd: "h \<in> dom (map_of (ec_cached s))" using h(1) by blast
    have rest: "h \<notin> fst ` set rest" "distinct (map fst rest)" using enc_okD(2) [OF ok] fr by auto
    have "map_of rest g = Some n \<longleftrightarrow> map_of (AList.delete h (ec_cached s)) g = Some {} \<and> n = size_of g" for g n
    proof (cases "g = h")
      case True
      then have "map_of rest g = None" using rest(1) by (simp add: map_of_eq_None_iff)
      with True show ?thesis by (simp add: delete_conv')
    next
      case False
      then show ?thesis using enc_okD(3) [OF ok, of g n] fr by (simp add: delete_conv')
    qed
    then have "enc_ok size_of ?s"
      using enc_okD [OF ok] rest(2) hd unfolding enc_ok_def pin by (simp add: dom h(2) sum_diff1)
    moreover have "n \<le> num_freeable_slots ?s" using "1.prems"(2) by simp
    ultimately obtain s' j where s': "evict_loop n ?s = Inr s'" "enc_ok size_of s'" "n \<le> num_free_slots s'"
      "ec_freeable s' = drop j rest" "ec_freed s' = (ec_freed s @ [h]) @ map fst (take j rest)"
      "num_freeable_slots s' = num_freeable_slots s" "ec_cache_size s' = ec_cache_size s"
      "\<forall>g. g \<in> pinned ?s \<longrightarrow> map_of (ec_cached s') g = map_of (AList.delete h (ec_cached s)) g"
      "dom (map_of (ec_cached s')) = dom (map_of (AList.delete h (ec_cached s))) - fst ` set (take j rest)"
      using "1.IH" [OF True fr refl, of] h(1) by auto
    have "evict_loop n s = Inr s'" using s'(1) True fr h(1) by (simp add: evict_loop.simps [of n s])
    moreover have "map_of (ec_cached s') g = map_of (ec_cached s) g" if "g \<in> pinned s" for g
      using s'(8) that h(1) unfolding pin by (auto simp: delete_conv' pinned_def)
    moreover have "dom (map_of (ec_cached s')) = dom (map_of (ec_cached s)) - fst ` set (take (Suc j) (ec_freeable s))"
      using s'(9) dom fr by auto
    ultimately show ?thesis using s'(2-7) fr by (intro exI [of _ s'] exI [of _ "Suc j"]) auto
  qed
qed

lemma can_allocate_spec:
  assumes ok: "enc_ok size_of s" and n: "get_num_encoder_embeds r i = Inr n"
  shows "\<exists>s' k. can_allocate r i budget sched s = Inr (n \<le> budget \<and> n + sched \<le> num_freeable_slots s, s') \<and> enc_ok size_of s'
    \<and> (n \<le> budget \<and> n + sched \<le> num_freeable_slots s \<longrightarrow> n + sched \<le> num_free_slots s')
    \<and> ec_freeable s' = drop k (ec_freeable s) \<and> ec_freed s' = ec_freed s @ map fst (take k (ec_freeable s))
    \<and> num_freeable_slots s' = num_freeable_slots s \<and> ec_cache_size s' = ec_cache_size s
    \<and> (\<forall>h. h \<in> pinned s \<longrightarrow> map_of (ec_cached s') h = map_of (ec_cached s) h)
    \<and> dom (map_of (ec_cached s')) = dom (map_of (ec_cached s)) - fst ` set (take k (ec_freeable s))"
proof (cases "n \<le> budget \<and> num_free_slots s < n + sched \<and> n + sched \<le> num_freeable_slots s")
  case True
  from evict_loop_spec [OF ok, of "n + sched"] True obtain s' k where s': "evict_loop (n + sched) s = Inr s'" "enc_ok size_of s'"
    "n + sched \<le> num_free_slots s'" "ec_freeable s' = drop k (ec_freeable s)"
    "ec_freed s' = ec_freed s @ map fst (take k (ec_freeable s))"
    "num_freeable_slots s' = num_freeable_slots s" "ec_cache_size s' = ec_cache_size s"
    "\<forall>h. h \<in> pinned s \<longrightarrow> map_of (ec_cached s') h = map_of (ec_cached s) h"
    "dom (map_of (ec_cached s')) = dom (map_of (ec_cached s)) - fst ` set (take k (ec_freeable s))"
    by blast
  with True n show ?thesis by (intro exI [of _ s'] exI [of _ k]) (simp add: can_allocate_def Let_def)
next
  case False
  then show ?thesis
    using ok n freeable_space(2) [OF ok]
    by (intro exI [of _ s] exI [of _ 0]) (auto simp: can_allocate_def Let_def)
qed

lemma allocate_spec:
  assumes ok: "enc_ok size_of s" and h: "feature_hash r i = Inr h" "get_num_encoder_embeds r i = Inr (size_of h)"
    and new: "map_of (ec_cached s) h = None" and room: "size_of h \<le> num_free_slots s"
  shows "\<exists>s'. ec_allocate r i s = Inr s' \<and> enc_ok size_of s' \<and> num_free_slots s' = num_free_slots s - size_of h
    \<and> map_of (ec_cached s') = (map_of (ec_cached s))(h \<mapsto> {request_id r}) \<and> ec_cache_size s' = ec_cache_size s"
proof -
  let ?s = "s\<lparr>ec_cached := AList.update h {request_id r} (ec_cached s), num_free_slots := num_free_slots s - size_of h,
             num_freeable_slots := num_freeable_slots s - size_of h\<rparr>"
  have "h \<notin> dom (map_of (ec_cached s))" using new by blast
  moreover have pin: "pinned ?s = insert h (pinned s)" "h \<notin> pinned s" using new by (auto simp: pinned_def update_conv')
  ultimately have "enc_ok size_of ?s"
    using enc_okD [OF ok] room new unfolding enc_ok_def pin(1) by (auto simp: update_conv')
  then show ?thesis
    using h new room freeable_space(2) [OF ok] by (auto simp: ec_allocate_def update_conv')
qed

lemma free_input_spec:
  assumes ok: "enc_ok size_of s" and h: "feature_hash r i = Inr h" "get_num_encoder_embeds r i = Inr (size_of h)"
  shows "\<exists>s'. free_encoder_input r i s = Inr s' \<and> enc_ok size_of s' \<and> num_free_slots s' = num_free_slots s
    \<and> ec_cache_size s' = ec_cache_size s
    \<and> map_of (ec_cached s') = (map_of (ec_cached s))(h := map_option (\<lambda>refs. refs - {request_id r}) (map_of (ec_cached s) h))"
proof (cases "map_of (ec_cached s) h = None \<or> map_of (ec_cached s) h = Some {}")
  case True
  then have "(map_of (ec_cached s))(h := map_option (\<lambda>refs. refs - {request_id r}) (map_of (ec_cached s) h)) = map_of (ec_cached s)"
    by auto
  with True ok h show ?thesis by (auto simp: free_encoder_input_def)
next
  case False
  then obtain refs where refs: "map_of (ec_cached s) h = Some refs" "refs \<noteq> {}" by auto
  let ?C = "AList.update h (refs - {request_id r}) (ec_cached s)"
  have dom: "dom (map_of ?C) = dom (map_of (ec_cached s))" using refs by (auto simp: update_conv')
  have nf: "map_of (ec_freeable s) h = None" using enc_okD(3) [OF ok, of h] refs by (cases "map_of (ec_freeable s) h") auto
  show ?thesis
  proof (cases "refs - {request_id r} = {}")
    case True
    let ?s = "s\<lparr>ec_cached := ?C, ec_freeable := AList.update h (size_of h) (ec_freeable s),
                num_freeable_slots := num_freeable_slots s + size_of h\<rparr>"
    have pin: "pinned ?s = pinned s - {h}" "h \<in> pinned s" using refs True by (auto simp: pinned_def update_conv')
    have "enc_ok size_of ?s"
      using enc_okD [OF ok] dom pin(2) True unfolding enc_ok_def pin(1)
      by (auto simp: update_conv' sum_diff1 distinct_update)
    moreover have "free_encoder_input r i s = Inr ?s" using refs h True by (simp add: free_encoder_input_def Let_def)
    moreover have "map_of ?C = (map_of (ec_cached s))(h := map_option (\<lambda>refs. refs - {request_id r}) (map_of (ec_cached s) h))"
      using refs by (simp add: update_conv')
    ultimately show ?thesis by (intro exI [of _ ?s]) simp
  next
    case False
    let ?s = "s\<lparr>ec_cached := ?C\<rparr>"
    have pin: "pinned ?s = pinned s" using refs False by (auto simp: pinned_def update_conv')
    have "enc_ok size_of ?s"
      using enc_okD [OF ok] dom refs False nf unfolding enc_ok_def pin by (auto simp: update_conv')
    then show ?thesis using refs h False by (auto simp: free_encoder_input_def Let_def update_conv' fun_eq_iff)
  qed
qed

lemma free_inputs_spec:
  assumes "enc_ok size_of s" "\<forall>i \<in> set is. \<exists>h. feature_hash r i = Inr h \<and> get_num_encoder_embeds r i = Inr (size_of h)"
  shows "\<exists>s'. foldR (free_encoder_input r) is s = Inr s' \<and> enc_ok size_of s' \<and> num_free_slots s' = num_free_slots s
    \<and> ec_cache_size s' = ec_cache_size s
    \<and> (\<forall>g. map_of (ec_cached s') g = (if \<exists>i \<in> set is. feature_hash r i = Inr g
         then map_option (\<lambda>refs. refs - {request_id r}) (map_of (ec_cached s) g) else map_of (ec_cached s) g))"
  using assms
proof (induction "is" arbitrary: s)
  case (Cons i "is")
  obtain h where h: "feature_hash r i = Inr h" "get_num_encoder_embeds r i = Inr (size_of h)" using Cons.prems(2) by auto
  obtain s1 where s1: "free_encoder_input r i s = Inr s1" "enc_ok size_of s1" "num_free_slots s1 = num_free_slots s"
    "ec_cache_size s1 = ec_cache_size s"
    "map_of (ec_cached s1) = (map_of (ec_cached s))(h := map_option (\<lambda>refs. refs - {request_id r}) (map_of (ec_cached s) h))"
    using free_input_spec [OF Cons.prems(1) h] by blast
  from Cons.IH [OF s1(2)] Cons.prems(2) obtain s2 where s2: "foldR (free_encoder_input r) is s1 = Inr s2" "enc_ok size_of s2"
    "num_free_slots s2 = num_free_slots s1" "ec_cache_size s2 = ec_cache_size s1"
    "\<forall>g. map_of (ec_cached s2) g = (if \<exists>i \<in> set is. feature_hash r i = Inr g
         then map_option (\<lambda>refs. refs - {request_id r}) (map_of (ec_cached s1) g) else map_of (ec_cached s1) g)"
    by auto
  have idem: "map_option (\<lambda>refs. refs - {x}) (map_option (\<lambda>refs. refs - {x}) m) = map_option (\<lambda>refs. refs - {x}) m" for x m
    by (cases m) auto
  show ?case using s1 s2 h(1) idem by auto
qed simp

lemma ec_free_spec:
  assumes ok: "enc_ok size_of s" and r: "sized size_of r"
  shows "\<exists>s'. ec_free r s = Inr s' \<and> enc_ok size_of s' \<and> num_free_slots s' = num_free_slots s \<and> ec_cache_size s' = ec_cache_size s
    \<and> (\<forall>g. map_of (ec_cached s') g = (if g \<in> mm_identifier ` set (mm_features r)
         then map_option (\<lambda>refs. refs - {request_id r}) (map_of (ec_cached s) g) else map_of (ec_cached s) g))"
proof -
  let ?is = "get_cached_input_ids r s"
  have "\<forall>i \<in> set ?is. \<exists>h. feature_hash r i = Inr h \<and> get_num_encoder_embeds r i = Inr (size_of h)"
    using sized_input [OF r] by (auto simp: get_cached_input_ids_def)
  from free_inputs_spec [OF ok this] obtain s' where s': "ec_free r s = Inr s'" "enc_ok size_of s'"
    "num_free_slots s' = num_free_slots s" "ec_cache_size s' = ec_cache_size s"
    "\<forall>g. map_of (ec_cached s') g = (if \<exists>i \<in> set ?is. feature_hash r i = Inr g
         then map_option (\<lambda>refs. refs - {request_id r}) (map_of (ec_cached s) g) else map_of (ec_cached s) g)"
    unfolding ec_free_def by blast
  have "(\<exists>i \<in> set ?is. feature_hash r i = Inr g) \<longleftrightarrow> g \<in> mm_identifier ` set (mm_features r) \<and> map_of (ec_cached s) g \<noteq> None" for g
    by (force simp: get_cached_input_ids_def feature_hash_def in_set_conv_nth)
  with s' show ?thesis by auto
qed

subsection \<open>Histories\<close>

text \<open>
  The calls of the scheduler, for requests whose features have the sizes of their data; space is
  allocated for inputs that the check found not to be cached.
\<close>

inductive enc_step :: "(string \<Rightarrow> int) \<Rightarrow> encoder_cache \<Rightarrow> encoder_cache \<Rightarrow> bool" for size_of where
  enc_check: "sized size_of r \<Longrightarrow> check_and_update_cache r i s = Inr (b, s') \<Longrightarrow> enc_step size_of s s'"
| enc_can: "sized size_of r \<Longrightarrow> can_allocate r i budget sched s = Inr (b, s') \<Longrightarrow> enc_step size_of s s'"
| enc_allocate: "sized size_of r \<Longrightarrow> 0 \<le> i \<Longrightarrow> feature_hash r i = Inr h \<Longrightarrow> map_of (ec_cached s) h = None
    \<Longrightarrow> ec_allocate r i s = Inr s' \<Longrightarrow> enc_step size_of s s'"
| enc_free_input: "sized size_of r \<Longrightarrow> 0 \<le> i \<Longrightarrow> free_encoder_input r i s = Inr s' \<Longrightarrow> enc_step size_of s s'"
| enc_free: "sized size_of r \<Longrightarrow> ec_free r s = Inr s' \<Longrightarrow> enc_step size_of s s'"
| enc_take: "enc_step size_of s (snd (get_freed_mm_hashes s))"
| enc_reset: "enc_step size_of s (ec_reset s)"

lemma feature_index: "feature_hash r i = Inr h \<Longrightarrow> 0 \<le> i \<Longrightarrow> i < int (length (mm_features r))"
  by (auto simp: feature_hash_def py_nth_def bindR_eq_Inr split: if_splits)

lemma enc_step_keeps:
  assumes "enc_step size_of s s'" "enc_ok size_of s" "0 \<le> ec_cache_size s"
  shows "enc_ok size_of s' \<and> ec_cache_size s' = ec_cache_size s"
  using assms
proof (cases rule: enc_step.cases)
  case (enc_check r i b)
  then obtain h where "feature_hash r i = Inr h" by (auto simp: check_and_update_cache_def bindR_eq_Inr)
  then show ?thesis using check_and_update_spec [OF assms(2)] enc_check(2) by fastforce
next
  case (enc_can r i budget sched b)
  then obtain n where "get_num_encoder_embeds r i = Inr n" by (auto simp: can_allocate_def bindR_eq_Inr)
  from can_allocate_spec [OF assms(2) this, of budget sched] enc_can(2) show ?thesis by auto
next
  case (enc_allocate r i h)
  obtain h' where h': "feature_hash r i = Inr h'" "get_num_encoder_embeds r i = Inr (size_of h')"
    using sized_input [OF enc_allocate(1,2) feature_index [OF enc_allocate(3,2)]] by blast
  have "size_of h \<le> num_free_slots s"
    using enc_allocate(3,5) h' by (auto simp: ec_allocate_def bindR_eq_Inr)
  then show ?thesis using allocate_spec [OF assms(2) enc_allocate(3)] h' enc_allocate(3-5) by auto
next
  case (enc_free_input r i)
  then obtain h where h: "feature_hash r i = Inr h" by (auto simp: free_encoder_input_def bindR_eq_Inr)
  obtain h' where "feature_hash r i = Inr h'" "get_num_encoder_embeds r i = Inr (size_of h')"
    using sized_input [OF enc_free_input(1,2) feature_index [OF h enc_free_input(2)]] by blast
  then show ?thesis using free_input_spec [OF assms(2)] enc_free_input(3) by fastforce
next
  case (enc_free r)
  then show ?thesis using ec_free_spec [OF assms(2) enc_free(1)] by auto
next
  case enc_take
  then show ?thesis using assms(2) by (simp add: get_freed_mm_hashes_def enc_ok_def pinned_def)
next
  case enc_reset
  then show ?thesis using assms(2,3) by (simp add: ec_reset_def enc_ok_def pinned_def)
qed

lemma enc_reachable:
  assumes "(enc_step size_of)\<^sup>*\<^sup>* (encoder_cache_init n) s" "0 \<le> n" "\<forall>h. 0 \<le> size_of h"
  shows "enc_ok size_of s \<and> ec_cache_size s = n"
  using assms(1)
proof (induction rule: rtranclp_induct)
  case base
  with assms(2,3) show ?case by (simp add: encoder_cache_init_def enc_ok_def pinned_def)
next
  case (step s s')
  then show ?case using enc_step_keeps [OF step.hyps(2)] assms(2) by auto
qed

subsection \<open>Properties\<close>

text \<open>
  C25: The encoder cache accounts for its space. After any calls, the free slots are the capacity less
  the sizes of all entries and are never negative, the reclaimable slots are the capacity less the
  sizes of the entries that requests still use, and the entries waiting for reclamation are exactly
  the unused ones, with their sizes.
\<close>

theorem encoder_cache_accounting:
  assumes "(enc_step size_of)\<^sup>*\<^sup>* (encoder_cache_init n) s" "0 \<le> n" "\<forall>h. 0 \<le> size_of h"
  shows "0 \<le> num_free_slots s \<and> num_free_slots s \<le> num_freeable_slots s \<and> num_freeable_slots s \<le> n
    \<and> num_free_slots s = n - sum size_of (dom (map_of (ec_cached s)))
    \<and> num_freeable_slots s = n - sum size_of {h. \<exists>refs. map_of (ec_cached s) h = Some refs \<and> refs \<noteq> {}}
    \<and> (\<forall>h k. map_of (ec_freeable s) h = Some k \<longleftrightarrow> map_of (ec_cached s) h = Some {} \<and> k = size_of h)"
proof -
  have ok: "enc_ok size_of s" "ec_cache_size s = n" using enc_reachable [OF assms] by simp_all
  have "0 \<le> sum size_of (pinned s)" using assms(3) by (simp add: sum_nonneg)
  then show ?thesis using enc_okD [OF ok(1)] freeable_space(2) [OF ok(1)] ok(2) by (auto simp: pinned_def)
qed

definition image_request :: "string \<Rightarrow> string \<Rightarrow> request" where
  "image_request rid img =
     (bare_request rid)\<lparr>mm_features := [\<lparr>mm_identifier = img, mm_offset = 0, mm_length = 6, is_embed = None\<rparr>]\<rparr>"

lemma image_request_simps [simp]:
  "sized (\<lambda>_. 6) (image_request rid img)" "feature_hash (image_request rid img) 0 = Inr img"
  "get_num_encoder_embeds (image_request rid img) 0 = Inr 6" "request_id (image_request rid img) = rid"
  "length (mm_features (image_request rid img)) = 1"
  by (simp_all add: image_request_def bare_request_def sized_def get_num_embeds_def feature_hash_def
      get_num_encoder_embeds_def py_nth_def)

text \<open>A cache of ten slots in which the output of six embeddings for one image is no longer used.\<close>

definition idle_cache :: encoder_cache where
  "idle_cache = \<lparr>ec_cache_size = 10, num_free_slots = 4, num_freeable_slots = 10, ec_cached = [(''x'', {})],
                 ec_freeable = [(''x'', 6)], ec_freed = []\<rparr>"

lemma idle_cache_reachable: "(enc_step (\<lambda>_. 6))\<^sup>*\<^sup>* (encoder_cache_init 10) idle_cache"
proof -
  let ?r = "image_request ''a'' ''x''"
  let ?s = "\<lparr>ec_cache_size = 10, num_free_slots = 4, num_freeable_slots = 4, ec_cached = [(''x'', {''a''})],
             ec_freeable = [], ec_freed = []\<rparr>"
  have "ec_allocate ?r 0 (encoder_cache_init 10) = Inr ?s" by (simp add: ec_allocate_def encoder_cache_init_def)
  then have "enc_step (\<lambda>_. 6) (encoder_cache_init 10) ?s"
    by (intro enc_allocate [of _ ?r 0 "''x''"]) (simp_all add: encoder_cache_init_def)
  moreover have "free_encoder_input ?r 0 ?s = Inr idle_cache" by (simp add: free_encoder_input_def idle_cache_def)
  then have "enc_step (\<lambda>_. 6) ?s idle_cache" by (intro enc_free_input [of _ ?r 0]) simp_all
  ultimately show ?thesis by (meson converse_rtranclp_into_rtranclp rtranclp.rtrancl_refl)
qed

theorem encoder_cache_accounting_witness:
  "(enc_step (\<lambda>_. 6))\<^sup>*\<^sup>* (encoder_cache_init 10) idle_cache \<and> num_free_slots idle_cache = 10 - sum (\<lambda>_. 6) {''x''}"
  using encoder_cache_accounting [OF idle_cache_reachable] idle_cache_reachable by (simp add: idle_cache_def)

text \<open>
  Admission of an encoder input is exact and evicts no more than it may. After any calls,
  \<open>can_allocate\<close> never raises: it answers yes exactly when the input fits the compute budget and the
  reclaimable space, evicts only entries that no request uses, oldest first, reporting each of them,
  and leaves enough free slots for \<open>allocate\<close> to succeed.
\<close>

lemma can_allocate_exact:
  assumes "(enc_step size_of)\<^sup>*\<^sup>* (encoder_cache_init n) s" "0 \<le> n" "\<forall>h. 0 \<le> size_of h"
    and r: "sized size_of r" "0 \<le> i" "i < int (length (mm_features r))" and sched: "0 \<le> sched"
  shows "\<exists>h s' k. feature_hash r i = Inr h
    \<and> can_allocate r i budget sched s = Inr (size_of h \<le> budget \<and> size_of h + sched \<le> num_freeable_slots s, s')
    \<and> ec_freed s' = ec_freed s @ map fst (take k (ec_freeable s)) \<and> ec_freeable s' = drop k (ec_freeable s)
    \<and> (\<forall>g refs. map_of (ec_cached s) g = Some refs \<and> refs \<noteq> {} \<longrightarrow> map_of (ec_cached s') g = Some refs)
    \<and> (size_of h \<le> budget \<and> size_of h + sched \<le> num_freeable_slots s \<and> map_of (ec_cached s) h = None
         \<longrightarrow> (\<exists>s''. ec_allocate r i s' = Inr s'' \<and> map_of (ec_cached s'') h = Some {request_id r}))"
proof -
  have ok: "enc_ok size_of s" using enc_reachable [OF assms(1-3)] by simp
  obtain h where h: "feature_hash r i = Inr h" "get_num_encoder_embeds r i = Inr (size_of h)" using sized_input [OF r] by blast
  obtain s' k where s': "can_allocate r i budget sched s = Inr (size_of h \<le> budget \<and> size_of h + sched \<le> num_freeable_slots s, s')"
    "enc_ok size_of s'"
    "size_of h \<le> budget \<and> size_of h + sched \<le> num_freeable_slots s \<longrightarrow> size_of h + sched \<le> num_free_slots s'"
    "ec_freeable s' = drop k (ec_freeable s)" "ec_freed s' = ec_freed s @ map fst (take k (ec_freeable s))"
    "\<forall>g. g \<in> pinned s \<longrightarrow> map_of (ec_cached s') g = map_of (ec_cached s) g"
    "dom (map_of (ec_cached s')) = dom (map_of (ec_cached s)) - fst ` set (take k (ec_freeable s))"
    using can_allocate_spec [OF ok h(2), of budget sched] by blast
  have "\<exists>s''. ec_allocate r i s' = Inr s'' \<and> map_of (ec_cached s'') h = Some {request_id r}"
    if "size_of h \<le> budget \<and> size_of h + sched \<le> num_freeable_slots s" "map_of (ec_cached s) h = None"
  proof -
    have "map_of (ec_cached s') h = None" using s'(7) that(2) by blast
    with allocate_spec [OF s'(2) h this] s'(3) that(1) sched show ?thesis by auto
  qed
  moreover have "\<forall>g refs. map_of (ec_cached s) g = Some refs \<and> refs \<noteq> {} \<longrightarrow> map_of (ec_cached s') g = Some refs"
    using s'(6) by (auto simp: pinned_def)
  ultimately show ?thesis
    by (intro exI [of _ h] exI [of _ s'] exI [of _ k]) (simp add: h(1) s'(1,4,5))
qed

text \<open>
  C26: The encoder-decoder variant loses track of its space. The scheduler releases the encoder inputs of
  a request in every step after its first computed token; each release gives the slots back once more,
  so after \<open>k\<close> releases of an input of \<open>n\<close> embeddings the free slots are \<open>(k - 1) * n\<close> above the capacity,
  and inputs that do not fit are admitted.
\<close>

theorem encdec_release_repeats:
  assumes n: "get_num_encoder_embeds r 0 = Inr n" "0 < n" and f: "length (mm_features r) = 1" "2 \<le> k"
  shows "\<exists>s s' s''. bindR (ed_allocate r 0 (encdec_init n)) (foldR (\<lambda>_ s. ed_free r s) (replicate k ())) = Inr s
    \<and> ed_cache_size s = n \<and> ed_num_free_slots s = n + (int k - 1) * n
    \<and> ed_allocate r 0 s = Inr s' \<and> ed_can_allocate r 0 n 0 s' = Inr (True, s'')"
proof -
  have free: "ed_free r s = Inr (s\<lparr>ed_num_free_slots := ed_num_free_slots s + n\<rparr>)" for s
    using n(1) f(1) by (simp add: ed_free_def ed_free_encoder_input_def)
  have frees: "foldR (\<lambda>_ s. ed_free r s) (replicate j ()) s = Inr (s\<lparr>ed_num_free_slots := ed_num_free_slots s + int j * n\<rparr>)" for j s
    by (induction j arbitrary: s) (simp_all add: free algebra_simps)
  obtain h where h: "feature_hash r 0 = Inr h"
    using f(1) by (auto simp: feature_hash_def py_nth_def)
  let ?s = "\<lparr>ed_cache_size = n, ed_num_free_slots = n - n + int k * n, ed_allocated = [h], ed_to_free = []\<rparr>"
  have "bindR (ed_allocate r 0 (encdec_init n)) (foldR (\<lambda>_ s. ed_free r s) (replicate k ())) = Inr ?s"
    by (simp add: ed_allocate_def n(1) h encdec_init_def frees)
  moreover have "2 * n \<le> int k * n" using n(2) f(2) by (intro mult_right_mono) simp_all
  then have "\<exists>s' s''. ed_allocate r 0 ?s = Inr s' \<and> ed_can_allocate r 0 n 0 s' = Inr (True, s'')"
    by (simp add: ed_allocate_def ed_can_allocate_def n(1) h)
  moreover have "n - n + int k * n = n + (int k - 1) * n" by (simp add: algebra_simps)
  ultimately show ?thesis by (elim exE, intro exI conjI) auto
qed

theorem encdec_release_repeats_witness:
  "\<exists>s s' s''. bindR (ed_allocate (image_request ''a'' ''x'') 0 (encdec_init 6))
       (foldR (\<lambda>_ s. ed_free (image_request ''a'' ''x'') s) (replicate 3 ())) = Inr s
     \<and> ed_num_free_slots s = 18 \<and> ed_allocate (image_request ''a'' ''x'') 0 s = Inr s'
     \<and> ed_can_allocate (image_request ''a'' ''x'') 0 6 0 s' = Inr (True, s'')"
  using encdec_release_repeats [of "image_request ''a'' ''x''" 6 3] by auto

end
