(* ===== verification/Scheduler_State.thy ===== *)
theory Scheduler_State
  imports KV_Cache_Manager Request_Queue Encoder_Cache
begin

text \<open>
  The state of the scheduler (\<open>vllm/v1/core/sched/scheduler.py\<close>), the data it exchanges with the
  workers (\<open>vllm/v1/core/sched/output.py\<close>), the components outside the core that it calls, and the
  operations that move requests between its queues: adding, updating a streaming session, preempting,
  promoting blocked requests, finishing, and the encoder inputs of a step.

  Requests are objects that the queues, the list of running requests and the dictionary of requests
  share. The model keeps them in a store from request ids to request records; the queues hold ids. The
  KV connector, the encoder-cache connector and the grammars of structured outputs are parameters: records
  of functions on one state type that stands for everything outside the core. Timestamps of log
  events, trace headers and logging are left out.
\<close>

subsection \<open>Data for the workers\<close>

record new_request_data =
  nr_req_id :: string
  nr_prompt_token_ids :: "int list option"
  nr_mm_features :: "mm_feature list"
  nr_sampling_params :: "sampling_params option"
  nr_pooling_params :: "pooling_params option"
  nr_block_ids :: "int list list"
  nr_num_computed_tokens :: int
  nr_lora_request :: "lora_request option"
  nr_prompt_embeds :: "hash_bytes list option"
  nr_prefill_token_ids :: "int list option"

definition new_request_data_from :: "request \<Rightarrow> int list list \<Rightarrow> int list option \<Rightarrow> new_request_data" where
  "new_request_data_from r ids prefill =
     \<lparr>nr_req_id = request_id r, nr_prompt_token_ids = prompt_token_ids r, nr_mm_features = mm_features r,
      nr_sampling_params = sampling_params_of r, nr_pooling_params = pooling_params_of r, nr_block_ids = ids,
      nr_num_computed_tokens = num_computed_tokens r, nr_lora_request = lora_request_of r,
      nr_prompt_embeds = prompt_embeds r, nr_prefill_token_ids = prefill\<rparr>"

record cached_request_data =
  cr_req_ids :: "string list"
  cr_resumed_req_ids :: "string set"
  cr_new_token_ids :: "int list list"
  cr_all_token_ids :: "(string \<times> int list) list"
  cr_new_block_ids :: "int list list option list"
  cr_num_computed_tokens :: "int list"
  cr_num_output_tokens :: "int list"

definition cached_make_empty :: cached_request_data where
  "cached_make_empty = \<lparr>cr_req_ids = [], cr_resumed_req_ids = {}, cr_new_token_ids = [], cr_all_token_ids = [],
     cr_new_block_ids = [], cr_num_computed_tokens = [], cr_num_output_tokens = []\<rparr>"

definition is_context_phase :: "cached_request_data \<Rightarrow> string \<Rightarrow> bool" where
  "is_context_phase d rid = (map_of (rev (zip (cr_req_ids d) (cr_num_output_tokens d))) rid = Some 0)"

record scheduler_output =
  so_scheduled_new_reqs :: "new_request_data list"
  so_scheduled_cached_reqs :: cached_request_data
  so_num_scheduled_tokens :: "(string \<times> int) list"
  so_total_num_scheduled_tokens :: int
  so_scheduled_spec_decode_tokens :: "(string \<times> int list) list"
  so_scheduled_encoder_inputs :: "(string \<times> int list) list"
  so_num_common_prefix_blocks :: "int list"
  so_finished_req_ids :: "string set"
  so_free_encoder_mm_hashes :: "string list"
  so_preempted_req_ids :: "string set option"
  so_has_structured_output_requests :: bool
  so_pending_structured_output_tokens :: bool
  so_num_invalid_spec_tokens :: "(string \<times> int) list option"
  so_new_block_ids_to_zero :: "int list option"

definition output_make_empty :: scheduler_output where
  "output_make_empty = \<lparr>so_scheduled_new_reqs = [], so_scheduled_cached_reqs = cached_make_empty,
     so_num_scheduled_tokens = [], so_total_num_scheduled_tokens = 0, so_scheduled_spec_decode_tokens = [],
     so_scheduled_encoder_inputs = [], so_num_common_prefix_blocks = [], so_finished_req_ids = {},
     so_free_encoder_mm_hashes = [], so_preempted_req_ids = None, so_has_structured_output_requests = False,
     so_pending_structured_output_tokens = False, so_num_invalid_spec_tokens = None, so_new_block_ids_to_zero = None\<rparr>"

text \<open>The connector's part of a model output.\<close>

record kv_connector_output =
  ko_finished_sending :: "string list"
  ko_finished_recving :: "string list"
  ko_invalid_block_ids :: "int list"

subsection \<open>Components outside the core\<close>

type_synonym xfer_params = "(string \<times> string) list"

record 'x kv_connector =
  conn_supports_hma :: bool
  conn_get_num_new_matched_tokens :: "request \<Rightarrow> int \<Rightarrow> 'x \<Rightarrow> (int option \<times> bool) \<times> 'x"
  conn_update_state_after_alloc :: "request \<Rightarrow> kv_cache_blocks \<Rightarrow> int \<Rightarrow> 'x \<Rightarrow> 'x"
  conn_build_connector_meta :: "scheduler_output \<Rightarrow> 'x \<Rightarrow> 'x"
  conn_request_finished :: "request \<Rightarrow> int list \<Rightarrow> 'x \<Rightarrow> (bool \<times> xfer_params option) \<times> 'x"
  conn_request_finished_all_groups :: "request \<Rightarrow> int list list \<Rightarrow> 'x \<Rightarrow> (bool \<times> xfer_params option) \<times> 'x"
  conn_update_connector_output :: "kv_connector_output \<Rightarrow> 'x \<Rightarrow> 'x"
  conn_take_events :: "'x \<Rightarrow> kv_cache_event list \<times> 'x"
  conn_reset_cache :: "'x \<Rightarrow> bool option \<times> 'x"

record 'x ec_connector =
  ecc_has_cache_item :: "string \<Rightarrow> 'x \<Rightarrow> bool"
  ecc_update_state_after_alloc :: "request \<Rightarrow> int \<Rightarrow> 'x \<Rightarrow> 'x"
  ecc_build_connector_meta :: "scheduler_output \<Rightarrow> 'x \<Rightarrow> 'x"

record 'x grammars =
  gr_ready :: "request \<Rightarrow> 'x \<Rightarrow> bool"
  gr_should_advance :: "request \<Rightarrow> 'x \<Rightarrow> bool"
  gr_accept_tokens :: "string \<Rightarrow> int list \<Rightarrow> 'x \<Rightarrow> 'x"
  gr_validate_tokens :: "request \<Rightarrow> int list \<Rightarrow> 'x \<Rightarrow> int list"

record 'x sched_env =
  env_hash :: hash_env
  env_hasher :: "block_hasher option"
  env_connector :: "'x kv_connector option"
  env_ec_connector :: "'x ec_connector option"
  env_grammars :: "'x grammars"

subsection \<open>Configuration and state\<close>

datatype pause_state = UNPAUSED | PAUSED_NEW | PAUSED_ALL

record sched_config =
  cfg_policy :: scheduling_policy
  cfg_max_num_running_reqs :: int
  cfg_max_num_scheduled_tokens :: int
  cfg_max_model_len :: int
  cfg_long_prefill_token_threshold :: int
  cfg_enable_chunked_prefill :: bool
  cfg_disable_chunked_mm_input :: bool
  cfg_max_num_encoder_input_tokens :: int
  cfg_is_encoder_decoder :: bool
  cfg_use_eagle :: bool
  cfg_num_spec_tokens :: int
  cfg_num_lookahead_tokens :: int
  cfg_max_loras :: "int option"
  cfg_block_size :: int
  cfg_cache_block_size :: int
  cfg_need_mamba_block_aligned_split :: bool
  cfg_needs_kv_cache_zeroing :: bool
  cfg_use_pp :: bool
  cfg_use_v2_model_runner :: bool
  cfg_async_scheduling :: bool
  cfg_is_async_scheduler :: bool
  cfg_log_stats :: bool
  cfg_recompute_kv_load_failures :: bool

datatype encoder_manager = EncoderCacheManager encoder_cache | EncoderDecoderCacheManager encdec_cache

record 'x scheduler =
  s_config :: sched_config
  s_ext :: 'x
  s_kv :: kv_cache_manager
  s_enc :: encoder_manager
  s_store :: request_store
  s_requests :: "string list"
  s_waiting :: request_queue
  s_skipped :: request_queue
  s_running :: "string list"
  s_finished_req_ids :: "string set"
  s_finished_req_ids_dict :: "(int \<times> string set) list option"
  s_prev_step_scheduled :: "string set"
  s_num_waiting_for_streaming_input :: int
  s_finished_recving :: "string set"
  s_failed_recving :: "string set"
  s_connector_prefix_cache_stats :: "prefix_cache_stats option"
  s_pause_state :: pause_state

text \<open>
  \<open>Scheduler.__init__\<close>. The configuration carries what the constructor reads from the engine
  configuration; the KV cache manager is built here. The store has no request yet: its values for ids that
  were never added are not read.
\<close>

definition scheduler_init ::
  "'x sched_env \<Rightarrow> sched_config \<Rightarrow> kv_cache_config \<Rightarrow> int option \<Rightarrow> bool \<Rightarrow> bool \<Rightarrow> int \<Rightarrow> int \<Rightarrow> bool \<Rightarrow> metrics_collector option
   \<Rightarrow> bool \<Rightarrow> int \<Rightarrow> 'x \<Rightarrow> 'x scheduler result" where
  "scheduler_init env cfg kv_cfg gpu_blocks caching events dcp pcp int_hashes mc include_finished_set encoder_cache_size x =
     bindR (assertR (env_connector env = None \<or> \<not> cfg_is_encoder_decoder cfg)) (\<lambda>_.
     bindR (assertR (case gpu_blocks of None \<Rightarrow> False | Some n \<Rightarrow> n > 0)) (\<lambda>_.
     bindR (kv_cache_manager_init kv_cfg (cfg_max_model_len cfg) (cfg_block_size cfg) caching (cfg_use_eagle cfg)
              (cfg_log_stats cfg) events dcp pcp int_hashes mc) (\<lambda>k.
       Inr \<lparr>s_config = cfg, s_ext = x, s_kv = k,
            s_enc = (if cfg_is_encoder_decoder cfg then EncoderDecoderCacheManager (encdec_init encoder_cache_size)
                     else EncoderCacheManager (encoder_cache_init encoder_cache_size)),
            s_store = bare_request, s_requests = [],
            s_waiting = create_request_queue (cfg_policy cfg), s_skipped = create_request_queue (cfg_policy cfg),
            s_running = [], s_finished_req_ids = {},
            s_finished_req_ids_dict = (if include_finished_set then Some [] else None),
            s_prev_step_scheduled = {}, s_num_waiting_for_streaming_input = 0,
            s_finished_recving = {}, s_failed_recving = {},
            s_connector_prefix_cache_stats =
              (if env_connector env \<noteq> None \<and> cfg_log_stats cfg then Some new_prefix_cache_stats else None),
            s_pause_state = UNPAUSED\<rparr>)))"

text \<open>Writing to a request object.\<close>

definition upd :: "string \<Rightarrow> (request \<Rightarrow> request) \<Rightarrow> 'x scheduler \<Rightarrow> 'x scheduler" where
  "upd rid f s = s\<lparr>s_store := (s_store s)(rid := f (s_store s rid))\<rparr>"

text \<open>The calls on whichever encoder cache manager the scheduler has.\<close>

fun on_encoder ::
  "(encoder_cache \<Rightarrow> ('a \<times> encoder_cache) result) \<Rightarrow> (encdec_cache \<Rightarrow> ('a \<times> encdec_cache) result)
   \<Rightarrow> encoder_manager \<Rightarrow> ('a \<times> encoder_manager) result" where
  "on_encoder f g (EncoderCacheManager c) = bindR (f c) (\<lambda>(a, c'). Inr (a, EncoderCacheManager c'))"
| "on_encoder f g (EncoderDecoderCacheManager c) = bindR (g c) (\<lambda>(a, c'). Inr (a, EncoderDecoderCacheManager c'))"

definition unitR :: "'s result \<Rightarrow> (unit \<times> 's) result" where
  "unitR m = bindR m (\<lambda>s. Inr ((), s))"

definition enc_check_and_update_cache :: "request \<Rightarrow> int \<Rightarrow> encoder_manager \<Rightarrow> (bool \<times> encoder_manager) result" where
  "enc_check_and_update_cache r i =
     on_encoder (check_and_update_cache r i) (\<lambda>c. Inr (ed_check_and_update_cache r i c))"

definition enc_can_allocate :: "request \<Rightarrow> int \<Rightarrow> int \<Rightarrow> int \<Rightarrow> encoder_manager \<Rightarrow> (bool \<times> encoder_manager) result" where
  "enc_can_allocate r i budget num = on_encoder (can_allocate r i budget num) (ed_can_allocate r i budget num)"

definition enc_allocate :: "request \<Rightarrow> int \<Rightarrow> encoder_manager \<Rightarrow> encoder_manager result" where
  "enc_allocate r i e =
     bindR (on_encoder (\<lambda>c. unitR (ec_allocate r i c)) (\<lambda>c. unitR (ed_allocate r i c)) e) (\<lambda>(_, e'). Inr e')"

definition enc_free :: "request \<Rightarrow> encoder_manager \<Rightarrow> encoder_manager result" where
  "enc_free r e = bindR (on_encoder (\<lambda>c. unitR (ec_free r c)) (\<lambda>c. unitR (ed_free r c)) e) (\<lambda>(_, e'). Inr e')"

definition enc_free_encoder_input :: "request \<Rightarrow> int \<Rightarrow> encoder_manager \<Rightarrow> encoder_manager result" where
  "enc_free_encoder_input r i e =
     bindR (on_encoder (\<lambda>c. unitR (free_encoder_input r i c)) (\<lambda>c. unitR (ed_free_encoder_input r i c)) e)
       (\<lambda>(_, e'). Inr e')"

fun enc_get_cached_input_ids :: "request \<Rightarrow> encoder_manager \<Rightarrow> int list" where
  "enc_get_cached_input_ids r (EncoderCacheManager c) = get_cached_input_ids r c"
| "enc_get_cached_input_ids r (EncoderDecoderCacheManager c) = ed_get_cached_input_ids r"

fun enc_get_freed_mm_hashes :: "encoder_manager \<Rightarrow> string list \<times> encoder_manager" where
  "enc_get_freed_mm_hashes (EncoderCacheManager c) =
     (case get_freed_mm_hashes c of (hs, c') \<Rightarrow> (hs, EncoderCacheManager c'))"
| "enc_get_freed_mm_hashes (EncoderDecoderCacheManager c) =
     (case ed_get_freed_mm_hashes c of (hs, c') \<Rightarrow> (hs, EncoderDecoderCacheManager c'))"

fun enc_reset :: "encoder_manager \<Rightarrow> encoder_manager" where
  "enc_reset (EncoderCacheManager c) = EncoderCacheManager (ec_reset c)"
| "enc_reset (EncoderDecoderCacheManager c) = EncoderDecoderCacheManager (ed_reset c)"

subsection \<open>Queues\<close>

definition is_blocked_waiting_status :: "request_status \<Rightarrow> bool" where
  "is_blocked_waiting_status st =
     (st \<in> {WAITING_FOR_FSM, WAITING_FOR_REMOTE_KVS, WAITING_FOR_STREAMING_REQ})"

definition enqueue_waiting_request :: "string \<Rightarrow> 'x scheduler \<Rightarrow> 'x scheduler" where
  "enqueue_waiting_request rid s =
     (if is_blocked_waiting_status (status (s_store s rid))
      then s\<lparr>s_skipped := add_request (s_store s) rid (s_skipped s)\<rparr>
      else s\<lparr>s_waiting := add_request (s_store s) rid (s_waiting s)\<rparr>)"

datatype waiting_choice = Waiting_Queue | Skipped_Queue

definition queue_of :: "waiting_choice \<Rightarrow> 'x scheduler \<Rightarrow> request_queue" where
  "queue_of w s = (case w of Waiting_Queue \<Rightarrow> s_waiting s | Skipped_Queue \<Rightarrow> s_skipped s)"

definition set_queue :: "waiting_choice \<Rightarrow> request_queue \<Rightarrow> 'x scheduler \<Rightarrow> 'x scheduler" where
  "set_queue w q s = (case w of Waiting_Queue \<Rightarrow> s\<lparr>s_waiting := q\<rparr> | Skipped_Queue \<Rightarrow> s\<lparr>s_skipped := q\<rparr>)"

definition select_waiting_queue_for_scheduling :: "'x scheduler \<Rightarrow> waiting_choice option result" where
  "select_waiting_queue_for_scheduling s =
     (if cfg_policy (s_config s) = FCFS
      then Inr (if queue_bool (s_skipped s) then Some Skipped_Queue
                else if queue_bool (s_waiting s) then Some Waiting_Queue else None)
      else if queue_bool (s_waiting s) \<and> queue_bool (s_skipped s)
      then bindR (peek_request (s_waiting s)) (\<lambda>w.
           bindR (peek_request (s_skipped s)) (\<lambda>k.
             Inr (Some (if request_lt (s_store s) w k then Waiting_Queue else Skipped_Queue))))
      else Inr (if queue_bool (s_waiting s) then Some Waiting_Queue
                else if queue_bool (s_skipped s) then Some Skipped_Queue else None))"

definition get_request_counts :: "'x scheduler \<Rightarrow> int \<times> int" where
  "get_request_counts s = (int (length (s_running s)), queue_len (s_waiting s) + queue_len (s_skipped s))"

definition set_pause_state :: "pause_state \<Rightarrow> 'x scheduler \<Rightarrow> 'x scheduler" where
  "set_pause_state p s = s\<lparr>s_pause_state := p\<rparr>"

definition get_num_unfinished_requests :: "'x scheduler \<Rightarrow> int" where
  "get_num_unfinished_requests s =
     (case s_pause_state s of
        PAUSED_ALL \<Rightarrow> 0
      | PAUSED_NEW \<Rightarrow> int (length (s_running s))
      | UNPAUSED \<Rightarrow> queue_len (s_waiting s) + queue_len (s_skipped s) - s_num_waiting_for_streaming_input s
                     + int (length (s_running s)))"

definition has_finished_requests :: "'x scheduler \<Rightarrow> bool" where
  "has_finished_requests s = (card (s_finished_req_ids s) > 0)"

subsection \<open>Preemption and streaming sessions\<close>

definition preempt_request :: "string \<Rightarrow> 'x scheduler \<Rightarrow> 'x scheduler result" where
  "preempt_request rid s =
     (let r = s_store s rid
      in bindR (assertR (status r = RUNNING)) (\<lambda>_.
         bindR (kv_free r (s_kv s)) (\<lambda>k.
         bindR (enc_free r (s_enc s)) (\<lambda>e.
           let s1 = upd rid (\<lambda>r. r\<lparr>status := PREEMPTED, num_computed_tokens := 0, spec_token_ids := [],
                                   num_preemptions := num_preemptions r + 1\<rparr>) (s\<lparr>s_kv := k, s_enc := e\<rparr>)
           in Inr (s1\<lparr>s_waiting := prepend_request (s_store s1) rid (s_waiting s1)\<rparr>)))))"

definition shift_feature :: "int \<Rightarrow> mm_feature \<Rightarrow> mm_feature" where
  "shift_feature base f = f\<lparr>mm_offset := mm_offset f + base\<rparr>"

text \<open>The session's tokens after an update: the computed tokens are kept, the rest is dropped.\<close>

definition session_tokens :: "streaming_update \<Rightarrow> request \<Rightarrow> request result" where
  "session_tokens u r =
     (let c = num_computed_tokens r;
          kept = slice_between (all_token_ids r) (num_prompt_tokens r) c;
          new = (case su_prompt_token_ids u of None \<Rightarrow> [] | Some ts \<Rightarrow> ts);
          toks = slice_to (all_token_ids r) c
      in case prompt_token_ids r of
           None \<Rightarrow> Inl AssertionError
         | Some p \<Rightarrow>
             Inr (r\<lparr>all_token_ids := toks @ new, output_token_ids := [],
                    prompt_token_ids := Some ((p @ kept) @ new),
                    mm_features := mm_features r @ map (shift_feature (int (length toks))) (su_mm_features u)\<rparr>))"

definition update_request_as_session ::
  "'x sched_env \<Rightarrow> string \<Rightarrow> streaming_update \<Rightarrow> 'x scheduler \<Rightarrow> 'x scheduler result" where
  "update_request_as_session env rid u s =
     bindR (session_tokens u (s_store s rid)) (\<lambda>r1.
     bindR (update_block_hashes (env_hasher env) r1) (\<lambda>r2.
       let s1 = (if status r2 = WAITING_FOR_STREAMING_REQ
                 then s\<lparr>s_num_waiting_for_streaming_input := s_num_waiting_for_streaming_input s - 1\<rparr> else s)
       in Inr (upd rid (\<lambda>_. r2\<lparr>num_prompt_tokens := int (length (the (prompt_token_ids r2))),
                              arrival_time := su_arrival_time u, sampling_params_of := su_sampling_params u,
                              status := WAITING\<rparr>) s1)))"

text \<open>\<open>_handle_stopped_request\<close>: whether the stopped request is finished.\<close>

definition handle_stopped_request ::
  "'x sched_env \<Rightarrow> string \<Rightarrow> 'x scheduler \<Rightarrow> (bool \<times> 'x scheduler) result" where
  "handle_stopped_request env rid s =
     (let r = s_store s rid
      in if \<not> resumable r then Inr (True, s)
         else case streaming_queue r of
                Some (None # q) \<Rightarrow> Inr (True, upd rid (\<lambda>r. r\<lparr>streaming_queue := Some q\<rparr>) s)
              | Some (Some u # q) \<Rightarrow>
                  bindR (update_request_as_session env rid u (upd rid (\<lambda>r. r\<lparr>streaming_queue := Some q\<rparr>) s)) (\<lambda>s1.
                    Inr (False, enqueue_waiting_request rid s1))
              | _ \<Rightarrow>
                  let s1 = upd rid (\<lambda>r. r\<lparr>status := WAITING_FOR_STREAMING_REQ\<rparr>) s;
                      s2 = s1\<lparr>s_num_waiting_for_streaming_input := s_num_waiting_for_streaming_input s1 + 1\<rparr>
                  in Inr (False, enqueue_waiting_request rid s2))"

subsection \<open>Finishing\<close>

definition connector_finished ::
  "'x sched_env \<Rightarrow> string \<Rightarrow> 'x scheduler \<Rightarrow> ((bool \<times> xfer_params option) \<times> 'x scheduler) result" where
  "connector_finished env rid s =
     (case env_connector env of
        None \<Rightarrow> Inr ((False, None), s)
      | Some conn \<Rightarrow>
          let r = s_store s rid
          in bindR (kv_remove_skipped_blocks (request_id r) (num_tokens r) (s_kv s)) (\<lambda>k.
             case kv_get_block_ids (request_id r) k of
               None \<Rightarrow> Inl AssertionError
             | Some ids \<Rightarrow>
                 if \<not> conn_supports_hma conn
                 then bindR (assertR (length (kv_cache_groups (c_config (k_coordinator k))) = 1)) (\<lambda>_.
                      bindR (py_nth ids 0) (\<lambda>ids0.
                        case conn_request_finished conn r ids0 (s_ext s) of
                          (res, x) \<Rightarrow> Inr (res, s\<lparr>s_kv := k, s_ext := x\<rparr>)))
                 else (case conn_request_finished_all_groups conn r ids (s_ext s) of
                         (res, x) \<Rightarrow> Inr (res, s\<lparr>s_kv := k, s_ext := x\<rparr>))))"

definition scheduler_free_blocks :: "string \<Rightarrow> 'x scheduler \<Rightarrow> 'x scheduler result" where
  "scheduler_free_blocks rid s =
     bindR (assertR (is_finished (s_store s rid))) (\<lambda>_.
     bindR (kv_free (s_store s rid) (s_kv s)) (\<lambda>k.
     bindR (if rid \<in> set (s_requests s) then Inr () else Inl KeyError) (\<lambda>_.
       Inr (s\<lparr>s_kv := k, s_requests := remove1 rid (s_requests s)\<rparr>))))"

definition note_finished :: "string \<Rightarrow> 'x scheduler \<Rightarrow> 'x scheduler" where
  "note_finished rid s =
     s\<lparr>s_finished_req_ids := insert rid (s_finished_req_ids s),
       s_finished_req_ids_dict := map_option (\<lambda>d. AList.update (client_index (s_store s rid))
          (insert rid (dict_get d (client_index (s_store s rid)) {})) d) (s_finished_req_ids_dict s)\<rparr>"

definition free_request ::
  "'x sched_env \<Rightarrow> string \<Rightarrow> bool \<Rightarrow> 'x scheduler \<Rightarrow> (xfer_params option \<times> 'x scheduler) result" where
  "free_request env rid delay_free_blocks s =
     bindR (assertR (is_finished (s_store s rid))) (\<lambda>_.
     bindR (connector_finished env rid s) (\<lambda>((conn_delay, params), s1).
     bindR (enc_free (s_store s1 rid) (s_enc s1)) (\<lambda>e.
       let s2 = note_finished rid (s1\<lparr>s_enc := e\<rparr>)
       in if delay_free_blocks \<or> conn_delay then Inr (params, s2)
          else bindR (scheduler_free_blocks rid s2) (\<lambda>s3. Inr (params, s3)))))"

text \<open>
  \<open>finish_requests\<close>. The ids are \<open>None\<close> for all requests, or a list without repetitions: the source makes
  a set of them, which the model takes in the order the set yields them.
\<close>

definition live_ids :: "string list \<Rightarrow> 'x scheduler \<Rightarrow> string list" where
  "live_ids ids s = filter (\<lambda>rid. rid \<in> set (s_requests s) \<and> \<not> is_finished (s_store s rid)) ids"

definition unqueue_requests :: "string list \<Rightarrow> 'x scheduler \<Rightarrow> 'x scheduler" where
  "unqueue_requests valid s =
     (let run = filter (\<lambda>rid. status (s_store s rid) = RUNNING) valid;
          rest = filter (\<lambda>rid. status (s_store s rid) \<noteq> RUNNING) valid;
          n = length (filter (\<lambda>rid. status (s_store s rid) = WAITING_FOR_STREAMING_REQ) valid);
          s1 = s\<lparr>s_num_waiting_for_streaming_input := s_num_waiting_for_streaming_input s - int n\<rparr>;
          s2 = (if run \<noteq> [] then s1\<lparr>s_running := remove_all (s_running s1) run\<rparr> else s1)
      in if rest \<noteq> []
         then s2\<lparr>s_waiting := remove_requests (s_store s2) (set rest) (s_waiting s2),
                 s_skipped := remove_requests (s_store s2) (set rest) (s_skipped s2)\<rparr>
         else s2)"

definition finish_one ::
  "'x sched_env \<Rightarrow> request_status \<Rightarrow> string \<Rightarrow> 'x scheduler \<Rightarrow> 'x scheduler result" where
  "finish_one env finished_status rid s =
     (let remote = (status (s_store s rid) = WAITING_FOR_REMOTE_KVS);
          delay = (remote \<and> rid \<notin> s_finished_recving s);
          s1 = (if remote then s\<lparr>s_finished_recving := s_finished_recving s - {rid},
                                 s_failed_recving := s_failed_recving s - {rid}\<rparr> else s);
          s2 = upd rid (\<lambda>r. r\<lparr>status := finished_status\<rparr>) s1
      in bindR (free_request env rid delay s2) (\<lambda>(_, s3). Inr s3))"

definition finish_requests ::
  "'x sched_env \<Rightarrow> string list option \<Rightarrow> request_status \<Rightarrow> 'x scheduler
   \<Rightarrow> ((string \<times> int) list \<times> 'x scheduler) result" where
  "finish_requests env ids finished_status s =
     bindR (assertR (is_finished_status finished_status)) (\<lambda>_.
       let valid = live_ids (case ids of None \<Rightarrow> s_requests s | Some l \<Rightarrow> l) s
       in bindR (foldR (finish_one env finished_status) valid (unqueue_requests valid s)) (\<lambda>s'.
            Inr (map (\<lambda>rid. (request_id (s_store s' rid), client_index (s_store s' rid))) valid, s')))"

subsection \<open>New requests\<close>

definition scheduler_add_request :: "'x sched_env \<Rightarrow> request \<Rightarrow> 'x scheduler \<Rightarrow> 'x scheduler result" where
  "scheduler_add_request env r s =
     (let rid = request_id r
      in if rid \<in> set (s_requests s)
         then
           let existing = s_store s rid; update = from_request r
           in if status existing \<noteq> WAITING_FOR_STREAMING_REQ
              then (case streaming_queue existing of
                      None \<Rightarrow> Inl AssertionError
                    | Some q \<Rightarrow> Inr (upd rid (\<lambda>e. e\<lparr>streaming_queue := Some (q @ [update])\<rparr>) s))
              else (case update of
                      Some u \<Rightarrow> update_request_as_session env rid u s
                    | None \<Rightarrow> bindR (finish_requests env (Some [rid]) FINISHED_ABORTED s) (\<lambda>(_, s'). Inr s'))
         else
           let s1 = upd rid (\<lambda>_. if resumable r then r\<lparr>streaming_queue := Some []\<rparr> else r) s;
               s2 = enqueue_waiting_request rid s1
           in Inr (s2\<lparr>s_requests := s_requests s2 @ [rid]\<rparr>))"

subsection \<open>Requests whose cache is loaded from elsewhere\<close>

definition update_waiting_for_remote_kv :: "'x sched_env \<Rightarrow> string \<Rightarrow> 'x scheduler \<Rightarrow> 'x scheduler result" where
  "update_waiting_for_remote_kv env rid s =
     bindR (assertR (env_connector env \<noteq> None)) (\<lambda>_.
     let r = s_store s rid
     in bindR
          (if rid \<in> s_failed_recving s
           then bindR (if num_computed_tokens r \<noteq> 0
                       then bindR (kv_cache_blocks_of (env_hash env) r (num_computed_tokens r) (s_kv s)) (\<lambda>(r', k).
                              Inr (upd rid (\<lambda>_. r') (s\<lparr>s_kv := k\<rparr>)))
                       else bindR (kv_free r (s_kv s)) (\<lambda>k. Inr (s\<lparr>s_kv := k\<rparr>))) (\<lambda>s1.
                  Inr (s1\<lparr>s_failed_recving := s_failed_recving s1 - {rid}\<rparr>))
           else bindR (kv_cache_blocks_of (env_hash env) r (num_computed_tokens r) (s_kv s)) (\<lambda>(r', k).
                  let r1 = (if num_computed_tokens r' = num_tokens r'
                            then r'\<lparr>num_computed_tokens := num_tokens r' - 1\<rparr> else r');
                      r2 = (if num_cached_tokens r1 < 0 then r1\<lparr>num_cached_tokens := num_computed_tokens r1\<rparr> else r1)
                  in Inr (upd rid (\<lambda>_. r2) (s\<lparr>s_kv := k\<rparr>)))) (\<lambda>s2.
          if rid \<in> s_finished_recving s2
          then Inr (s2\<lparr>s_finished_recving := s_finished_recving s2 - {rid}\<rparr>) else Inl KeyError))"

definition try_promote_blocked_waiting_request ::
  "'x sched_env \<Rightarrow> string \<Rightarrow> 'x scheduler \<Rightarrow> (bool \<times> 'x scheduler) result" where
  "try_promote_blocked_waiting_request env rid s =
     (let r = s_store s rid
      in case status r of
           WAITING_FOR_REMOTE_KVS \<Rightarrow>
             if rid \<notin> s_finished_recving s then Inr (False, s)
             else bindR (update_waiting_for_remote_kv env rid s) (\<lambda>s1.
                    Inr (True, upd rid (\<lambda>r. r\<lparr>status := (if num_preemptions r \<noteq> 0 then PREEMPTED else WAITING)\<rparr>) s1))
         | WAITING_FOR_FSM \<Rightarrow>
             if \<not> (use_structured_output r \<and> gr_ready (env_grammars env) r (s_ext s)) then Inr (False, s)
             else Inr (True, upd rid (\<lambda>r. r\<lparr>status := WAITING\<rparr>) s)
         | WAITING_FOR_STREAMING_REQ \<Rightarrow>
             bindR (assertR (case streaming_queue r of None \<Rightarrow> True | Some q \<Rightarrow> q = [])) (\<lambda>_. Inr (False, s))
         | _ \<Rightarrow> Inl AssertionError)"

subsection \<open>Encoder inputs of a step\<close>

text \<open>\<open>PlaceholderRange.get_embeds_indices_in_range\<close>, over the cumulative sum of the mask.\<close>

definition embeds_cumsum :: "bool list \<Rightarrow> int list" where
  "embeds_cumsum bs = map (\<lambda>k. int (length (filter (\<lambda>b. b) (take (Suc k) bs)))) [0..<length bs]"

definition get_embeds_indices_in_range :: "mm_feature \<Rightarrow> int \<Rightarrow> int \<Rightarrow> (int \<times> int) result" where
  "get_embeds_indices_in_range f start_idx end_idx =
     (case is_embed f of
        None \<Rightarrow> Inr (start_idx, end_idx)
      | Some bs \<Rightarrow>
          bindR (if start_idx > 0 then py_nth (embeds_cumsum bs) (start_idx - 1) else Inr 0) (\<lambda>a.
          bindR (py_nth (embeds_cumsum bs) (end_idx - 1)) (\<lambda>b. Inr (a, b))))"

text \<open>
  The loop of \<open>_try_schedule_encoder_inputs\<close> over the inputs from index \<open>i\<close> on. The accumulator holds
  the inputs to compute, the inputs to load, their identifiers, the number of embeddings so far and the
  remaining compute budget; the number of tokens shrinks when an input cannot be scheduled.
\<close>

record encoder_plan =
  ep_inputs :: "int list"
  ep_external :: "int list"
  ep_hashes :: "string set"
  ep_num_embeds :: int
  ep_budget :: int

fun encoder_loop ::
  "'x sched_env \<Rightarrow> sched_config \<Rightarrow> 'x \<Rightarrow> request \<Rightarrow> int \<Rightarrow> int \<Rightarrow> int \<Rightarrow> nat \<Rightarrow> mm_feature list \<Rightarrow> encoder_plan
   \<Rightarrow> encoder_manager \<Rightarrow> ((encoder_plan \<times> int) \<times> encoder_manager) result" where
  "encoder_loop env cfg x r num_comp shift n i [] p e = Inr ((p, n), e)"
| "encoder_loop env cfg x r num_comp shift n i (f # fs) p e =
     bindR (get_num_embeds f) (\<lambda>num_embeds.
     let start_pos = mm_offset f; len = mm_length f; h = mm_identifier f;
         next_input = encoder_loop env cfg x r num_comp shift n (Suc i) fs
     in if start_pos \<ge> num_comp + n + shift then Inr ((p, n), e)
        else if cfg_is_encoder_decoder cfg \<and> num_comp > 0
        then bindR (assertR (start_pos = 0)) (\<lambda>_. next_input p e)
        else if start_pos + len \<le> num_comp then next_input p e
        else if \<not> cfg_is_encoder_decoder cfg \<and> h \<in> ep_hashes p then next_input p e
        else
          bindR (if cfg_is_encoder_decoder cfg then Inr (False, e)
                 else enc_check_and_update_cache r (int i) e) (\<lambda>(hit, e1).
          if hit then next_input p e1
          else if cfg_disable_chunked_mm_input cfg \<and> num_comp < start_pos \<and> num_comp + n < start_pos + len
          then Inr ((p, max 0 (start_pos - (num_comp + shift))), e1)
          else
            bindR (enc_can_allocate r (int i) (ep_budget p) (ep_num_embeds p) e1) (\<lambda>(fits, e2).
            if \<not> fits
            then Inr ((p, if num_comp + shift < start_pos then start_pos - (num_comp + shift) else 0), e2)
            else
              bindR (get_embeds_indices_in_range f (max 0 (num_comp - start_pos)) (min len (num_comp + n - start_pos)))
                (\<lambda>(a, b).
              if b - a = 0 then next_input p e2
              else if (case env_ec_connector env of None \<Rightarrow> False | Some c \<Rightarrow> ecc_has_cache_item c h x)
              then next_input (p\<lparr>ep_hashes := insert h (ep_hashes p), ep_external := ep_external p @ [int i],
                                ep_num_embeds := ep_num_embeds p + num_embeds\<rparr>) e2
              else next_input (p\<lparr>ep_num_embeds := ep_num_embeds p + num_embeds, ep_budget := ep_budget p - num_embeds,
                                ep_hashes := insert h (ep_hashes p), ep_inputs := ep_inputs p @ [int i]\<rparr>) e2))))"

definition try_schedule_encoder_inputs ::
  "'x sched_env \<Rightarrow> string \<Rightarrow> int \<Rightarrow> int \<Rightarrow> int \<Rightarrow> int \<Rightarrow> 'x scheduler
   \<Rightarrow> ((int list \<times> int \<times> int \<times> int list) \<times> 'x scheduler) result" where
  "try_schedule_encoder_inputs env rid num_comp n budget shift s =
     (let r = s_store s rid
      in if n = 0 \<or> \<not> has_encoder_inputs r then Inr (([], n, budget, []), s)
         else
           bindR (encoder_loop env (s_config s) (s_ext s) r num_comp shift n 0 (mm_features r)
                    \<lparr>ep_inputs = [], ep_external = [], ep_hashes = {}, ep_num_embeds = 0, ep_budget = budget\<rparr> (s_enc s))
             (\<lambda>((p, n'), e). Inr ((ep_inputs p, n', ep_budget p, ep_external p), s\<lparr>s_enc := e\<rparr>)))"

text \<open>The encoder cache and the connector after inputs were chosen.\<close>

definition allocate_encoder_input :: "'x sched_env \<Rightarrow> string \<Rightarrow> int \<Rightarrow> 'x scheduler \<Rightarrow> 'x scheduler result" where
  "allocate_encoder_input env rid i s =
     bindR (enc_allocate (s_store s rid) i (s_enc s)) (\<lambda>e.
       Inr (s\<lparr>s_enc := e,
              s_ext := (case env_ec_connector env of
                          None \<Rightarrow> s_ext s
                        | Some c \<Rightarrow> ecc_update_state_after_alloc c (s_store s rid) i (s_ext s))\<rparr>))"

definition free_encoder_input_if_done :: "string \<Rightarrow> int \<Rightarrow> 'x scheduler \<Rightarrow> 'x scheduler result" where
  "free_encoder_input_if_done rid i s =
     (let r = s_store s rid
      in bindR (py_nth (mm_features r) i) (\<lambda>f.
           if (cfg_is_encoder_decoder (s_config s) \<and> num_computed_tokens r > 0)
              \<or> mm_offset f + mm_length f \<le> num_computed_tokens r
           then bindR (enc_free_encoder_input r i (s_enc s)) (\<lambda>e. Inr (s\<lparr>s_enc := e\<rparr>))
           else Inr s))"

definition free_encoder_inputs :: "string \<Rightarrow> 'x scheduler \<Rightarrow> 'x scheduler result" where
  "free_encoder_inputs rid s =
     foldR (free_encoder_input_if_done rid) (enc_get_cached_input_ids (s_store s rid) (s_enc s)) s"

subsection \<open>Resetting the caches\<close>

fun preempt_all :: "string list \<Rightarrow> 'x scheduler \<Rightarrow> 'x scheduler result" where
  "preempt_all [] s = Inr s"
| "preempt_all (rid # rids) s =
     bindR (preempt_request rid (s\<lparr>s_running := rev rids\<rparr>)) (\<lambda>s1.
       preempt_all rids (upd rid (\<lambda>r. r\<lparr>num_output_placeholders := 0, discard_latest_async_tokens := True\<rparr>) s1))"

definition reset_connector_cache :: "'x sched_env \<Rightarrow> 'x scheduler \<Rightarrow> (bool \<times> 'x scheduler) result" where
  "reset_connector_cache env s =
     (case env_connector env of
        None \<Rightarrow> Inr (False, s)
      | Some conn \<Rightarrow>
          (case conn_reset_cache conn (s_ext s) of
             (Some False, x) \<Rightarrow> Inr (False, s\<lparr>s_ext := x\<rparr>)
           | (_, x) \<Rightarrow>
               if cfg_log_stats (s_config s)
               then (case s_connector_prefix_cache_stats s of
                       None \<Rightarrow> Inl AssertionError
                     | Some st \<Rightarrow> Inr (True, s\<lparr>s_ext := x,
                                    s_connector_prefix_cache_stats := Some (st\<lparr>stats_reset := True\<rparr>)\<rparr>))
               else Inr (True, s\<lparr>s_ext := x\<rparr>)))"

definition scheduler_reset_prefix_cache ::
  "'x sched_env \<Rightarrow> bool \<Rightarrow> bool \<Rightarrow> 'x scheduler \<Rightarrow> (bool \<times> 'x scheduler) result" where
  "scheduler_reset_prefix_cache env reset_running reset_connector s =
     bindR (if reset_running
            then bindR (preempt_all (rev (s_running s)) s) (\<lambda>s1. Inr (s1\<lparr>s_prev_step_scheduled := {}\<rparr>))
            else Inr s) (\<lambda>s1.
     bindR (kv_reset_prefix_cache (s_kv s1)) (\<lambda>(ok, k).
       let s2 = s1\<lparr>s_kv := k\<rparr>
       in if reset_running \<and> \<not> ok then Inl RuntimeError
          else if reset_connector
          then bindR (reset_connector_cache env s2) (\<lambda>(ok', s3). Inr (ok' \<and> ok, s3))
          else Inr (ok, s2)))"

definition reset_encoder_cache :: "'x scheduler \<Rightarrow> 'x scheduler" where
  "reset_encoder_cache s = s\<lparr>s_enc := enc_reset (s_enc s)\<rparr>"

end
