(* ===== verification/Scheduler_Step.thy ===== *)
theory Scheduler_Step
  imports Scheduler_State
begin

text \<open>
  One scheduling step (\<open>Scheduler.schedule\<close>): the pass over the running requests, with preemption when
  the cache is full, the pass over the waiting requests, the checks of the scheduling constraints and the
  output for the workers. The local variables of the method are a record beside the scheduler's state.
\<close>

subsection \<open>Local variables and helpers\<close>

record step_locals =
  l_new :: "string list"
  l_resumed :: "string list"
  l_running :: "string list"
  l_preempted :: "string list"
  l_blocks :: "(string \<times> kv_cache_blocks) list"
  l_num :: "(string \<times> int) list"
  l_budget :: int
  l_enc_inputs :: "(string \<times> int list) list"
  l_enc_budget :: int
  l_spec :: "(string \<times> int list) list"
  l_loras :: "int set"
  l_skipped :: request_queue

datatype 'a flow = Continue 'a | Break 'a

definition mamba_block_aligned_split :: "sched_config \<Rightarrow> request \<Rightarrow> int \<Rightarrow> int \<Rightarrow> int \<Rightarrow> int result" where
  "mamba_block_aligned_split cfg r n num_local num_ext =
     bindR (assertR (num_ext = 0)) (\<lambda>_.
       let c = num_computed_tokens r + num_local + num_ext
       in if c < max (num_prompt_tokens r) (num_tokens r - 1)
          then
            let b = cfg_cache_block_size cfg
            in if b = 0 then Inl ZeroDivisionError
               else
                 let pos = num_tokens r - num_tokens r mod b;
                     last_pos = (if cfg_use_eagle cfg then max (pos - b) 0 else pos);
                     after = c + n
                 in if after < last_pos then Inr (n div b * b)
                    else if c < last_pos \<and> last_pos < after then Inr (last_pos - c)
                    else Inr n
          else Inr n)"

text \<open>\<open>max(..., key=...)\<close>: the first of the greatest.\<close>

definition victim_key :: "request_store \<Rightarrow> string \<Rightarrow> int \<times> int" where
  "victim_key st rid = (priority (st rid), arrival_time (st rid))"

definition key_less :: "int \<times> int \<Rightarrow> int \<times> int \<Rightarrow> bool" where
  "key_less a b = (fst a < fst b \<or> fst a = fst b \<and> snd a < snd b)"

definition later_victim :: "request_store \<Rightarrow> string \<Rightarrow> string \<Rightarrow> string" where
  "later_victim st x best = (if key_less (victim_key st best) (victim_key st x) then x else best)"

definition lowest_priority :: "request_store \<Rightarrow> string list \<Rightarrow> string result" where
  "lowest_priority st rids =
     (case rids of
        [] \<Rightarrow> Inl ValueError
      | r # rs \<Rightarrow> Inr (fold (later_victim st) rs r))"

definition dict_pop :: "string \<Rightarrow> (string \<times> 'v) list \<Rightarrow> ('v \<times> (string \<times> 'v) list) result" where
  "dict_pop k d = (case map_of d k of None \<Rightarrow> Inl KeyError | Some v \<Rightarrow> Inr (v, AList.delete k d))"

definition sum_embeds :: "request \<Rightarrow> int list \<Rightarrow> int result" where
  "sum_embeds r is = foldR (\<lambda>i n. bindR (get_num_encoder_embeds r i) (\<lambda>k. Inr (n + k))) is 0"

text \<open>A preempted request that was already scheduled in this step is taken out of the step.\<close>

definition unschedule :: "string \<Rightarrow> request \<Rightarrow> step_locals \<Rightarrow> step_locals result" where
  "unschedule v r l =
     bindR (dict_pop v (l_num l)) (\<lambda>(n, nums).
     bindR (dict_pop v (l_blocks l)) (\<lambda>(_, blks).
     let encs = (case map_of (l_enc_inputs l) v of None \<Rightarrow> [] | Some is \<Rightarrow> is)
     in bindR (sum_embeds r encs) (\<lambda>restored.
       Inr (l\<lparr>l_running := remove1 v (l_running l), l_budget := l_budget l + n, l_num := nums, l_blocks := blks,
              l_spec := AList.delete v (l_spec l), l_enc_inputs := AList.delete v (l_enc_inputs l),
              l_enc_budget := l_enc_budget l + restored\<rparr>))))"

text \<open>The request to preempt, removed from the running list, and the index of the pass.\<close>

definition pick_victim :: "int \<Rightarrow> 'x scheduler \<Rightarrow> step_locals \<Rightarrow> (string \<times> int \<times> 'x scheduler \<times> step_locals) result" where
  "pick_victim i s l =
     (if cfg_policy (s_config s) = PRIORITY
      then bindR (lowest_priority (s_store s) (s_running s)) (\<lambda>v.
             let s1 = s\<lparr>s_running := remove1 v (s_running s)\<rparr>
             in if v \<in> set (l_running l)
                then bindR (unschedule v (s_store s v) l) (\<lambda>l1. Inr (v, i - 1, s1, l1))
                else Inr (v, i, s1, l))
      else if s_running s = [] then Inl IndexError
      else Inr (last (s_running s), i, s\<lparr>s_running := butlast (s_running s)\<rparr>, l))"

lemma lowest_priority_mem: "lowest_priority st rids = Inr v \<Longrightarrow> v \<in> set rids"
proof -
  have "fold (later_victim st) rs r \<in> insert r (set rs)"
    for r rs by (induction rs arbitrary: r) (auto simp: later_victim_def)
  then show "lowest_priority st rids = Inr v \<Longrightarrow> v \<in> set rids"
    by (auto simp: lowest_priority_def split: list.splits)
qed

lemma preempt_request_keeps:
  assumes "preempt_request rid s = Inr s'"
  shows "s_running s' = s_running s" "s_config s' = s_config s" "s_skipped s' = s_skipped s" "s_requests s' = s_requests s"
  using assms by (auto simp: preempt_request_def bindR_eq_Inr Let_def upd_def)

lemma pick_victim_running:
  assumes "pick_victim i s l = Inr (v, i', s', l')"
  shows "v \<in> set (s_running s)" "length (s_running s) = Suc (length (s_running s'))" "i' \<le> i" "i - i' \<le> 1"
    "s_config s' = s_config s"
proof -
  have len: "length xs = Suc (length (remove1 v xs))" if "v \<in> set xs" for xs :: "string list"
    using that length_pos_if_in_set [of v xs] by (simp add: length_remove1)
  show "v \<in> set (s_running s)" "length (s_running s) = Suc (length (s_running s'))" "i' \<le> i" "i - i' \<le> 1"
    "s_config s' = s_config s"
    using assms lowest_priority_mem [of "s_store s" "s_running s" v] len [of "s_running s"]
    by (auto simp: pick_victim_def bindR_eq_Inr Let_def split: if_splits)
qed

text \<open>The inner loop: allocate, or preempt a request and try again.\<close>

function preempt_loop ::
  "'x sched_env \<Rightarrow> string \<Rightarrow> int \<Rightarrow> int \<Rightarrow> 'x scheduler \<Rightarrow> step_locals
   \<Rightarrow> (kv_cache_blocks option \<times> int \<times> 'x scheduler \<times> step_locals) result" where
  "preempt_loop env rid n i s l =
     bindR (allocate_slots (env_hash env) (s_store s rid) n 0 None (cfg_num_lookahead_tokens (s_config s)) 0 False 0 (s_kv s))
       (\<lambda>(out, r', k).
     let s1 = upd rid (\<lambda>_. r') (s\<lparr>s_kv := k\<rparr>)
     in case out of
          Some b \<Rightarrow> Inr (Some b, i, s1, l)
        | None \<Rightarrow>
            bindR (pick_victim i s1 l) (\<lambda>(v, i', s2, l2).
            bindR (preempt_request v s2) (\<lambda>s3.
            let l3 = l2\<lparr>l_preempted := l_preempted l2 @ [v]\<rparr>
            in if v = rid then Inr (None, i', s3, l3) else preempt_loop env rid n i' s3 l3)))"
  by pat_completeness auto

termination
  by (relation "measure (\<lambda>(_, _, _, _, s, _). length (s_running s))")
    (auto dest!: pick_victim_running(2) preempt_request_keeps(1) simp: upd_def)

declare preempt_loop.simps [simp del]

lemma preempt_loop_progress:
  "preempt_loop env rid n i s l = Inr (out, i', s', l') \<Longrightarrow>
   int (length (s_running s')) - i' \<le> int (length (s_running s)) - i \<and> s_config s' = s_config s"
proof (induction env rid n i s l arbitrary: out i' s' l' rule: preempt_loop.induct)
  case (1 env rid n i s l)
  obtain o1 r' k where a: "allocate_slots (env_hash env) (s_store s rid) n 0 None (cfg_num_lookahead_tokens (s_config s))
      0 False 0 (s_kv s) = Inr (o1, r', k)"
    using "1.prems" by (auto simp: preempt_loop.simps [of env rid n i s l] bindR_eq_Inr)
  let ?s1 = "upd rid (\<lambda>_. r') (s\<lparr>s_kv := k\<rparr>)"
  show ?case
  proof (cases o1)
    case (Some b)
    then show ?thesis using "1.prems" a by (auto simp: preempt_loop.simps [of env rid n i s l] upd_def)
  next
    case None
    obtain v i2 s2 l2 s3 where b: "pick_victim i ?s1 l = Inr (v, i2, s2, l2)" "preempt_request v s2 = Inr s3"
      and c: "(if v = rid then Inr (None, i2, s3, l2\<lparr>l_preempted := l_preempted l2 @ [v]\<rparr>)
        else preempt_loop env rid n i2 s3 (l2\<lparr>l_preempted := l_preempted l2 @ [v]\<rparr>)) = Inr (out, i', s', l')"
      using "1.prems" None a by (auto simp: preempt_loop.simps [of env rid n i s l] bindR_eq_Inr Let_def)
    note pv = pick_victim_running [OF b(1)] and pr = preempt_request_keeps [OF b(2)]
    have s2: "int (length (s_running s3)) - i2 \<le> int (length (s_running s)) - i" "s_config s3 = s_config s"
      using pv pr by (auto simp: upd_def)
    show ?thesis
    proof (cases "v = rid")
      case True
      then show ?thesis using c s2 by simp
    next
      case False
      have "preempt_loop env rid n i2 s3 (l2\<lparr>l_preempted := l_preempted l2 @ [v]\<rparr>) = Inr (out, i', s', l')"
        using c False by simp
      note "1.IH" [OF a refl refl refl None b(1) refl refl refl b(2) refl False this]
      then show ?thesis using s2 by simp
    qed
  qed
qed

subsection \<open>The pass over the running requests\<close>

text \<open>With placeholders of asynchronous scheduling, a request whose last tokens are on their way is skipped.\<close>

definition surely_done :: "request \<Rightarrow> bool" where
  "surely_done r \<longleftrightarrow> num_output_placeholders r > 0
     \<and> num_computed_tokens r + 2 - num_output_placeholders r \<ge> num_prompt_tokens r + max_tokens r"

definition capped :: "int \<Rightarrow> int \<Rightarrow> int" where
  "capped threshold n = (if 0 < threshold \<and> threshold < n then threshold else n)"

definition running_tokens :: "sched_config \<Rightarrow> int \<Rightarrow> request \<Rightarrow> int" where
  "running_tokens cfg budget r =
     min (min (capped (cfg_long_prefill_token_threshold cfg)
                 (num_tokens_with_spec r + num_output_placeholders r - num_computed_tokens r)) budget)
         (cfg_max_model_len cfg - 1 - num_computed_tokens r)"

definition plan_running ::
  "'x sched_env \<Rightarrow> string \<Rightarrow> 'x scheduler \<Rightarrow> step_locals \<Rightarrow> ((int \<times> int list \<times> int list \<times> int) \<times> 'x scheduler) result" where
  "plan_running env rid s l =
     (let r = s_store s rid; cfg = s_config s; n = running_tokens cfg (l_budget l) r
      in bindR (if has_encoder_inputs r
                then try_schedule_encoder_inputs env rid (num_computed_tokens r) n (l_enc_budget l)
                       (if cfg_use_eagle cfg then 1 else 0) s
                else Inr (([], n, l_enc_budget l, []), s)) (\<lambda>((encs, n1, budget1, exts), s1).
         bindR (if cfg_need_mamba_block_aligned_split cfg then mamba_block_aligned_split cfg r n1 0 0 else Inr n1) (\<lambda>n2.
           Inr ((n2, encs, exts, budget1), s1))))"

text \<open>The draft tokens scheduled with the request.\<close>

definition scheduled_spec :: "int \<Rightarrow> request \<Rightarrow> int list option" where
  "scheduled_spec n r =
     (let k = n + num_computed_tokens r - num_tokens r - num_output_placeholders r
      in if spec_token_ids r \<noteq> [] \<and> k > 0
         then Some (if int (length (spec_token_ids r)) > k then slice_to (spec_token_ids r) k else spec_token_ids r)
         else None)"

definition commit_encoder_inputs ::
  "'x sched_env \<Rightarrow> string \<Rightarrow> int list \<Rightarrow> int list \<Rightarrow> int \<Rightarrow> 'x scheduler \<Rightarrow> step_locals
   \<Rightarrow> ('x scheduler \<times> step_locals) result" where
  "commit_encoder_inputs env rid encs exts budget s l =
     bindR (foldR (allocate_encoder_input env rid) encs s) (\<lambda>s1.
     let l1 = (if encs \<noteq> [] then l\<lparr>l_enc_inputs := AList.update rid encs (l_enc_inputs l), l_enc_budget := budget\<rparr> else l)
     in bindR (foldR (allocate_encoder_input env rid) exts s1) (\<lambda>s2. Inr (s2, l1)))"

definition commit_running ::
  "'x sched_env \<Rightarrow> string \<Rightarrow> int \<Rightarrow> kv_cache_blocks \<Rightarrow> int list \<Rightarrow> int list \<Rightarrow> int \<Rightarrow> 'x scheduler \<Rightarrow> step_locals
   \<Rightarrow> ('x scheduler \<times> step_locals) result" where
  "commit_running env rid n b encs exts budget s l =
     (let r = s_store s rid;
          l1 = l\<lparr>l_running := l_running l @ [rid], l_blocks := AList.update rid b (l_blocks l),
                 l_num := AList.update rid n (l_num l), l_budget := l_budget l - n,
                 l_spec := (case scheduled_spec n r of
                              None \<Rightarrow> l_spec l | Some ts \<Rightarrow> AList.update rid ts (l_spec l))\<rparr>;
          s1 = upd rid (\<lambda>r. r\<lparr>spec_token_ids := []\<rparr>) s
      in commit_encoder_inputs env rid encs exts budget s1 l1)"

definition running_step ::
  "'x sched_env \<Rightarrow> int \<Rightarrow> 'x scheduler \<Rightarrow> step_locals \<Rightarrow> (int \<times> 'x scheduler \<times> step_locals) flow result" where
  "running_step env i s l =
     bindR (py_nth (s_running s) i) (\<lambda>rid.
       if surely_done (s_store s rid) then Inr (Continue (i + 1, s, l))
       else
         bindR (plan_running env rid s l) (\<lambda>((n, encs, exts, budget), s1).
         if n = 0 then Inr (Continue (i + 1, s1, l))
         else
           bindR (preempt_loop env rid n i s1 l) (\<lambda>(out, i', s2, l2).
           case out of
             None \<Rightarrow> Inr (Break (i', s2, l2))
           | Some b \<Rightarrow>
               bindR (commit_running env rid n b encs exts budget s2 l2) (\<lambda>(s3, l3).
                 Inr (Continue (i' + 1, s3, l3))))))"

lemma foldR_keeps:
  assumes "foldR f xs s = Inr t" and "\<And>x s t. x \<in> set xs \<Longrightarrow> f x s = Inr t \<Longrightarrow> g t = g s"
  shows "g t = g s"
  using assms
proof (induction xs arbitrary: s)
  case (Cons x xs)
  then obtain u where "f x s = Inr u" "foldR f xs u = Inr t" by (auto simp: bindR_eq_Inr)
  with Cons show ?case by (metis list.set_intros)
qed simp

lemma allocate_encoder_input_keeps:
  assumes "allocate_encoder_input env rid i s = Inr t"
  shows "\<exists>e x. t = s\<lparr>s_enc := e, s_ext := x\<rparr>"
  using assms by (auto simp: allocate_encoder_input_def bindR_eq_Inr)

lemma allocate_encoder_inputs_keep:
  "foldR (allocate_encoder_input env rid) is s = Inr t \<Longrightarrow> \<exists>e x. t = s\<lparr>s_enc := e, s_ext := x\<rparr>"
proof (induction "is" arbitrary: s)
  case Nil
  have "s = s\<lparr>s_enc := s_enc s, s_ext := s_ext s\<rparr>" by simp
  with Nil show ?case by (metis foldR.simps(1) sum.inject(2))
next
  case (Cons i "is")
  then obtain u where u: "allocate_encoder_input env rid i s = Inr u" "foldR (allocate_encoder_input env rid) is u = Inr t"
    by (auto simp: bindR_eq_Inr)
  from allocate_encoder_input_keeps [OF u(1)] Cons.IH [OF u(2)]
  obtain e x where "t = s\<lparr>s_enc := e, s_ext := x\<rparr>" by auto
  then show ?case by blast
qed

lemma plan_running_keeps:
  assumes "plan_running env rid s l = Inr ((n, encs, exts, budget), s1)"
  shows "\<exists>e. s1 = s\<lparr>s_enc := e\<rparr>"
proof -
  have same: "\<exists>e. s = s\<lparr>s_enc := e\<rparr>" by (rule exI [of _ "s_enc s"]) simp
  obtain n1 where "(if has_encoder_inputs (s_store s rid)
      then try_schedule_encoder_inputs env rid (num_computed_tokens (s_store s rid))
        (running_tokens (s_config s) (l_budget l) (s_store s rid)) (l_enc_budget l) (if cfg_use_eagle (s_config s) then 1 else 0) s
      else Inr (([], running_tokens (s_config s) (l_budget l) (s_store s rid), l_enc_budget l, []), s)) = Inr ((encs, n1, budget, exts), s1)"
    using assms by (auto simp: plan_running_def bindR_eq_Inr Let_def)
  with same show ?thesis
    by (fastforce simp: try_schedule_encoder_inputs_def bindR_eq_Inr Let_def split: if_splits)
qed

lemma commit_encoder_inputs_keep:
  assumes "commit_encoder_inputs env rid encs exts budget s l = Inr (s', l')"
  shows "\<exists>e x. s' = s\<lparr>s_enc := e, s_ext := x\<rparr>"
    "\<exists>d b. l' = l\<lparr>l_enc_inputs := d, l_enc_budget := b\<rparr>"
proof -
  obtain s1 where s1: "foldR (allocate_encoder_input env rid) encs s = Inr s1" "foldR (allocate_encoder_input env rid) exts s1 = Inr s'"
    and l': "l' = (if encs \<noteq> [] then l\<lparr>l_enc_inputs := AList.update rid encs (l_enc_inputs l), l_enc_budget := budget\<rparr> else l)"
    using assms by (auto simp: commit_encoder_inputs_def bindR_eq_Inr Let_def)
  from allocate_encoder_inputs_keep [OF s1(1)] allocate_encoder_inputs_keep [OF s1(2)]
  obtain e x where "s' = s\<lparr>s_enc := e, s_ext := x\<rparr>" by auto
  then show "\<exists>e x. s' = s\<lparr>s_enc := e, s_ext := x\<rparr>" by blast
  have "l = l\<lparr>l_enc_inputs := l_enc_inputs l, l_enc_budget := l_enc_budget l\<rparr>" by simp
  then show "\<exists>d b. l' = l\<lparr>l_enc_inputs := d, l_enc_budget := b\<rparr>" unfolding l' by (metis (full_types))
qed

lemma running_step_progress:
  assumes "running_step env i s l = Inr (Continue (i', s', l'))"
  shows "int (length (s_running s')) - i' < int (length (s_running s)) - i"
proof -
  obtain rid where rid: "py_nth (s_running s) i = Inr rid" using assms by (auto simp: running_step_def bindR_eq_Inr)
  show ?thesis
  proof (cases "surely_done (s_store s rid)")
    case True
    then show ?thesis using assms rid by (simp add: running_step_def)
  next
    case False
    obtain n encs exts budget s1 where p: "plan_running env rid s l = Inr ((n, encs, exts, budget), s1)"
      using assms rid False by (auto simp: running_step_def bindR_eq_Inr)
    have s1: "s_running s1 = s_running s" using plan_running_keeps [OF p] by auto
    show ?thesis
    proof (cases "n = 0")
      case True
      then show ?thesis using assms rid False p s1 by (simp add: running_step_def)
    next
      case n: False
      obtain b i2 s2 l2 where q: "preempt_loop env rid n i s1 l = Inr (Some b, i2, s2, l2)"
        "commit_running env rid n b encs exts budget s2 l2 = Inr (s', l')" "i' = i2 + 1"
        using assms rid False p n by (auto simp: running_step_def bindR_eq_Inr split: option.splits)
      have "s_running s' = s_running s2"
        using commit_encoder_inputs_keep(1) [OF q(2) [unfolded commit_running_def Let_def]] by (auto simp: upd_def)
      with preempt_loop_progress [OF q(1)] q(3) s1 show ?thesis by simp
    qed
  qed
qed

function running_loop ::
  "'x sched_env \<Rightarrow> int \<Rightarrow> 'x scheduler \<Rightarrow> step_locals \<Rightarrow> ('x scheduler \<times> step_locals) result" where
  "running_loop env i s l =
     (if i < int (length (s_running s)) \<and> l_budget l > 0
      then bindR (running_step env i s l) (\<lambda>f.
             case f of Continue (i', s', l') \<Rightarrow> running_loop env i' s' l' | Break (_, s', l') \<Rightarrow> Inr (s', l'))
      else Inr (s, l))"
  by pat_completeness auto

termination
  by (relation "measure (\<lambda>(_, i, s, _). nat (int (length (s_running s)) - i))")
    (auto dest!: running_step_progress)

declare running_loop.simps [simp del]

text \<open>The adapters in use after the running pass.\<close>

definition running_loras :: "'x scheduler \<Rightarrow> step_locals \<Rightarrow> int set result" where
  "running_loras s l =
     (case cfg_max_loras (s_config s) of
        None \<Rightarrow> Inr {}
      | Some m \<Rightarrow>
          let ids = set (filter (\<lambda>i. i > 0)
                       (List.map_filter (\<lambda>rid. map_option lora_int_id (lora_request_of (s_store s rid))) (l_running l)))
          in bindR (assertR (int (card ids) \<le> m)) (\<lambda>_. Inr ids))"

subsection \<open>The pass over the waiting requests\<close>

definition exceeds_loras :: "'x scheduler \<Rightarrow> step_locals \<Rightarrow> request \<Rightarrow> bool" where
  "exceeds_loras s l r =
     (case (cfg_max_loras (s_config s), lora_request_of r) of
        (Some m, Some lr) \<Rightarrow> int (card (l_loras l)) = m \<and> lora_int_id lr \<notin> l_loras l
      | _ \<Rightarrow> False)"

text \<open>The request at the front of the chosen queue is left for a later step.\<close>

definition skip_waiting ::
  "waiting_choice \<Rightarrow> string \<Rightarrow> 'x scheduler \<Rightarrow> step_locals \<Rightarrow> ('x scheduler \<times> step_locals) result" where
  "skip_waiting w rid s l =
     bindR (pop_request (s_store s) (queue_of w s)) (\<lambda>(_, q).
       Inr (set_queue w q s, l\<lparr>l_skipped := prepend_request (s_store s) rid (l_skipped l)\<rparr>))"

record lookup =
  lk_blocks :: kv_cache_blocks
  lk_local :: int
  lk_external :: int
  lk_computed :: int
  lk_async :: bool
  lk_queries :: int
  lk_hits :: int

text \<open>The tokens already computed, here or elsewhere; \<open>None\<close> when the connector cannot say yet.\<close>

definition lookup_computed ::
  "'x sched_env \<Rightarrow> string \<Rightarrow> 'x scheduler \<Rightarrow> (lookup option \<times> 'x scheduler) result" where
  "lookup_computed env rid s =
     (let r = s_store s rid
      in if num_computed_tokens r = 0
         then bindR (get_computed_blocks r (s_kv s)) (\<lambda>((a, n), k).
              let s1 = s\<lparr>s_kv := k\<rparr>
              in case env_connector env of
                   None \<Rightarrow>
                     bindR (assertR (n \<le> num_tokens r)) (\<lambda>_.
                       Inr (Some \<lparr>lk_blocks = a, lk_local = n, lk_external = 0, lk_computed = n, lk_async = False,
                                  lk_queries = 0, lk_hits = 0\<rparr>, s1))
                 | Some conn \<Rightarrow>
                     (case conn_get_num_new_matched_tokens conn r n (s_ext s1) of
                        ((None, _), x) \<Rightarrow> Inr (None, s1\<lparr>s_ext := x\<rparr>)
                      | ((Some ext, load_async), x) \<Rightarrow>
                          bindR (assertR (n + ext \<le> num_tokens r)) (\<lambda>_.
                            Inr (Some \<lparr>lk_blocks = a, lk_local = n, lk_external = ext, lk_computed = n + ext,
                                       lk_async = load_async, lk_queries = num_tokens r - n, lk_hits = ext\<rparr>,
                                 upd rid (\<lambda>r. r\<lparr>num_external_computed_tokens := ext\<rparr>) (s1\<lparr>s_ext := x\<rparr>)))))
         else Inr (Some \<lparr>lk_blocks = empty_kv_cache_blocks (s_kv s), lk_local = 0, lk_external = 0,
                         lk_computed = num_computed_tokens r, lk_async = False, lk_queries = 0, lk_hits = 0\<rparr>, s))"

text \<open>How many tokens to schedule and which encoder inputs; \<open>None\<close> ends the pass.\<close>

definition plan_new_tokens ::
  "'x sched_env \<Rightarrow> string \<Rightarrow> lookup \<Rightarrow> 'x scheduler \<Rightarrow> step_locals
   \<Rightarrow> ((int \<times> int list \<times> int list \<times> int) option \<times> 'x scheduler) result" where
  "plan_new_tokens env rid lk s l =
     (let r = s_store s rid; cfg = s_config s
      in if lk_async lk
         then bindR (assertR (lk_external lk > 0)) (\<lambda>_. Inr (Some (0, [], [], l_enc_budget l), s))
         else
           let n = capped (cfg_long_prefill_token_threshold cfg) (num_tokens r - lk_computed lk)
           in if \<not> cfg_enable_chunked_prefill cfg \<and> n > l_budget l then Inr (None, s)
              else
                let n1 = min n (l_budget l)
                in bindR (assertR (n1 > 0)) (\<lambda>_.
                   if has_encoder_inputs r
                   then bindR (try_schedule_encoder_inputs env rid (lk_computed lk) n1 (l_enc_budget l)
                                 (if cfg_use_eagle cfg then 1 else 0) s) (\<lambda>((encs, n2, budget, exts), s1).
                          if n2 = 0 then Inr (None, s1) else Inr (Some (n2, encs, exts, budget), s1))
                   else Inr (Some (n1, [], [], l_enc_budget l), s)))"

definition plan_waiting ::
  "'x sched_env \<Rightarrow> string \<Rightarrow> lookup \<Rightarrow> 'x scheduler \<Rightarrow> step_locals
   \<Rightarrow> ((int \<times> int list \<times> int list \<times> int) option \<times> 'x scheduler) result" where
  "plan_waiting env rid lk s l =
     bindR (plan_new_tokens env rid lk s l) (\<lambda>(plan, s1).
       case plan of
         None \<Rightarrow> Inr (None, s1)
       | Some (n, encs, exts, budget) \<Rightarrow>
           if cfg_need_mamba_block_aligned_split (s_config s)
           then bindR (mamba_block_aligned_split (s_config s) (s_store s1 rid) n (lk_local lk) (lk_external lk)) (\<lambda>n'.
                  if n' = 0 then Inr (None, s1) else Inr (Some (n', encs, exts, budget), s1))
           else Inr (Some (n, encs, exts, budget), s1))"

text \<open>The tokens of the encoder inputs, for the cross-attention blocks of an encoder-decoder model.\<close>

definition cross_tokens :: "sched_config \<Rightarrow> request \<Rightarrow> int list \<Rightarrow> int result" where
  "cross_tokens cfg r encs =
     (if cfg_is_encoder_decoder cfg \<and> has_encoder_inputs r \<and> encs \<noteq> [] then sum_embeds r encs else Inr 0)"

definition allocate_waiting ::
  "'x sched_env \<Rightarrow> string \<Rightarrow> lookup \<Rightarrow> int \<Rightarrow> int list \<Rightarrow> 'x scheduler \<Rightarrow> (kv_cache_blocks option \<times> 'x scheduler) result" where
  "allocate_waiting env rid lk n encs s =
     (let r = s_store s rid; cfg = s_config s
      in bindR (cross_tokens cfg r encs) (\<lambda>num_enc.
         bindR (allocate_slots (env_hash env) r n (lk_local lk) (Some (lk_blocks lk))
                  (if num_computed_tokens r = 0 then 0 else cfg_num_lookahead_tokens cfg)
                  (lk_external lk) (lk_async lk) num_enc (s_kv s)) (\<lambda>(out, r', k).
           Inr (out, upd rid (\<lambda>_. r') (s\<lparr>s_kv := k\<rparr>)))))"

definition tell_connector :: "'x sched_env \<Rightarrow> string \<Rightarrow> lookup \<Rightarrow> 'x scheduler \<Rightarrow> 'x scheduler" where
  "tell_connector env rid lk s =
     (case env_connector env of
        None \<Rightarrow> s
      | Some conn \<Rightarrow>
          let r = s_store s rid
          in s\<lparr>s_ext := conn_update_state_after_alloc conn r (kv_get_blocks (request_id r) (s_kv s)) (lk_external lk) (s_ext s),
               s_connector_prefix_cache_stats :=
                 (case s_connector_prefix_cache_stats s of
                    Some st \<Rightarrow> if lk_queries lk \<noteq> 0
                               then Some (record_stats (lk_queries lk) (lk_hits lk) (num_preemptions r > 0) st) else Some st
                  | None \<Rightarrow> None)\<rparr>)"

text \<open>The request leaves the queue: to wait for its cache to be loaded, or to run.\<close>

definition await_load :: "string \<Rightarrow> lookup \<Rightarrow> 'x scheduler \<Rightarrow> step_locals \<Rightarrow> 'x scheduler \<times> step_locals" where
  "await_load rid lk s l =
     (let s1 = upd rid (\<lambda>r. r\<lparr>status := WAITING_FOR_REMOTE_KVS\<rparr>) s;
          l1 = l\<lparr>l_skipped := prepend_request (s_store s1) rid (l_skipped l)\<rparr>
      in (upd rid (\<lambda>r. r\<lparr>num_computed_tokens := lk_computed lk\<rparr>) s1, l1))"

definition start_running ::
  "'x sched_env \<Rightarrow> string \<Rightarrow> lookup \<Rightarrow> int \<Rightarrow> int list \<Rightarrow> int list \<Rightarrow> int \<Rightarrow> 'x scheduler \<Rightarrow> step_locals
   \<Rightarrow> ('x scheduler \<times> step_locals) result" where
  "start_running env rid lk n encs exts budget s l =
     (let r = s_store s rid
      in bindR (if status r = WAITING then Inr (l\<lparr>l_new := l_new l @ [rid]\<rparr>)
                else if status r = PREEMPTED then Inr (l\<lparr>l_resumed := l_resumed l @ [rid]\<rparr>)
                else Inl RuntimeError) (\<lambda>l1.
           let l2 = l1\<lparr>l_loras := (case (cfg_max_loras (s_config s), lora_request_of r) of
                                     (Some _, Some lr) \<Rightarrow> insert (lora_int_id lr) (l_loras l1) | _ \<Rightarrow> l_loras l1),
                       l_blocks := AList.update rid (kv_get_blocks rid (s_kv s)) (l_blocks l1),
                       l_num := AList.update rid n (l_num l1), l_budget := l_budget l1 - n\<rparr>;
               s1 = upd rid (\<lambda>r. r\<lparr>status := RUNNING, num_computed_tokens := lk_computed lk,
                                   num_cached_tokens := (if num_cached_tokens r < 0 then lk_computed lk
                                                         else num_cached_tokens r)\<rparr>)
                      (s\<lparr>s_running := s_running s @ [rid]\<rparr>)
           in commit_encoder_inputs env rid encs exts budget s1 l2))"

definition admit_waiting ::
  "'x sched_env \<Rightarrow> waiting_choice \<Rightarrow> string \<Rightarrow> lookup \<Rightarrow> 'x scheduler \<Rightarrow> step_locals
   \<Rightarrow> ('x scheduler \<times> step_locals) flow result" where
  "admit_waiting env w rid lk s l =
     bindR (plan_waiting env rid lk s l) (\<lambda>(plan, s1).
     case plan of
       None \<Rightarrow> Inr (Break (s1, l))
     | Some (n, encs, exts, budget) \<Rightarrow>
         bindR (allocate_waiting env rid lk n encs s1) (\<lambda>(out, s2).
         case out of
           None \<Rightarrow>
             if has_encoder_inputs (s_store s2 rid)
             then bindR (enc_free (s_store s2 rid) (s_enc s2)) (\<lambda>e. Inr (Break (s2\<lparr>s_enc := e\<rparr>, l)))
             else Inr (Break (s2, l))
         | Some _ \<Rightarrow>
             let s3 = tell_connector env rid lk s2
             in bindR (pop_request (s_store s3) (queue_of w s3)) (\<lambda>(rid', q).
                let s4 = set_queue w q s3
                in if lk_async lk then Inr (Continue (await_load rid' lk s4 l))
                   else bindR (start_running env rid' lk n encs exts budget s4 l) (\<lambda>sl. Inr (Continue sl)))))"

definition waiting_step ::
  "'x sched_env \<Rightarrow> 'x scheduler \<Rightarrow> step_locals \<Rightarrow> ('x scheduler \<times> step_locals) flow result" where
  "waiting_step env s l =
     (if int (length (s_running s)) = cfg_max_num_running_reqs (s_config s) then Inr (Break (s, l))
      else
        bindR (select_waiting_queue_for_scheduling s) (\<lambda>choice.
        case choice of
          None \<Rightarrow> Inl AssertionError
        | Some w \<Rightarrow>
            bindR (peek_request (queue_of w s)) (\<lambda>rid.
            bindR (if is_blocked_waiting_status (status (s_store s rid))
                   then try_promote_blocked_waiting_request env rid s else Inr (True, s)) (\<lambda>(ready, s1).
            if \<not> ready \<or> exceeds_loras s1 l (s_store s1 rid)
            then bindR (skip_waiting w rid s1 l) (\<lambda>sl. Inr (Continue sl))
            else
              bindR (lookup_computed env rid s1) (\<lambda>(fnd, s2).
              case fnd of
                None \<Rightarrow> bindR (skip_waiting w rid s2 l) (\<lambda>sl. Inr (Continue sl))
              | Some lk \<Rightarrow> admit_waiting env w rid lk s2 l)))))"

text \<open>Every call on the way keeps the queues, until the request leaves its queue.\<close>

definition queues_kept :: "'x scheduler \<Rightarrow> 'x scheduler \<Rightarrow> bool" where
  "queues_kept s s' \<longleftrightarrow> s_waiting s' = s_waiting s \<and> s_skipped s' = s_skipped s \<and> s_running s' = s_running s
     \<and> s_config s' = s_config s \<and> s_requests s' = s_requests s \<and> s_pause_state s' = s_pause_state s"

lemma queues_kept_refl [simp, intro]: "queues_kept s s"
  by (simp add: queues_kept_def)

lemma queues_kept_trans: "queues_kept s s' \<Longrightarrow> queues_kept s' s'' \<Longrightarrow> queues_kept s s''"
  by (simp add: queues_kept_def)

lemma queues_kept_update [simp]:
  "queues_kept s (upd rid f s)" "queues_kept s (s\<lparr>s_kv := k\<rparr>)" "queues_kept s (s\<lparr>s_enc := e\<rparr>)" "queues_kept s (s\<lparr>s_ext := x\<rparr>)"
  "queues_kept s (s\<lparr>s_failed_recving := ids\<rparr>)" "queues_kept s (s\<lparr>s_finished_recving := ids\<rparr>)"
  "queues_kept s (s\<lparr>s_connector_prefix_cache_stats := st\<rparr>)"
  by (simp_all add: queues_kept_def upd_def)

lemma update_waiting_for_remote_kv_queues:
  "update_waiting_for_remote_kv env rid s = Inr s' \<Longrightarrow> queues_kept s s'"
  by (auto simp: update_waiting_for_remote_kv_def bindR_eq_Inr Let_def queues_kept_def upd_def split: if_splits)

lemma try_promote_queues:
  assumes "try_promote_blocked_waiting_request env rid s = Inr (b, s')"
  shows "queues_kept s s'"
proof -
  have remote: "queues_kept s (upd rid f s1)" if "update_waiting_for_remote_kv env rid s = Inr s1" for f s1
    using update_waiting_for_remote_kv_queues [OF that] queues_kept_trans queues_kept_update(1) by blast
  show ?thesis
    using assms
    by (cases "status (s_store s rid)")
      (auto simp: try_promote_blocked_waiting_request_def Let_def bindR_eq_Inr remote split: if_split_asm)
qed

lemma try_schedule_encoder_inputs_keeps:
  "try_schedule_encoder_inputs env rid c n b sh s = Inr (res, s') \<Longrightarrow> \<exists>e. s' = s\<lparr>s_enc := e\<rparr>"
proof -
  assume run: "try_schedule_encoder_inputs env rid c n b sh s = Inr (res, s')"
  have same: "\<exists>e. s = s\<lparr>s_enc := e\<rparr>" by (rule exI [of _ "s_enc s"]) simp
  show ?thesis
  proof (cases "n = 0 \<or> \<not> has_encoder_inputs (s_store s rid)")
    case True
    with run same show ?thesis by (simp add: try_schedule_encoder_inputs_def)
  next
    case False
    with run show ?thesis by (auto simp: try_schedule_encoder_inputs_def bindR_eq_Inr Let_def)
  qed
qed

lemma lookup_computed_queues:
  assumes "lookup_computed env rid s = Inr (fnd, s')"
  shows "queues_kept s s'"
proof (cases "num_computed_tokens (s_store s rid) = 0")
  case False
  then show ?thesis using assms by (simp add: lookup_computed_def Let_def)
next
  case True
  obtain a n k where g: "get_computed_blocks (s_store s rid) (s_kv s) = Inr ((a, n), k)"
    using assms True by (auto simp: lookup_computed_def Let_def bindR_eq_Inr)
  show ?thesis
  proof (cases "env_connector env")
    case None
    then show ?thesis using assms True g by (auto simp: lookup_computed_def Let_def bindR_eq_Inr)
  next
    case (Some conn)
    obtain e b x where "conn_get_num_new_matched_tokens conn (s_store s rid) n (s_ext s) = ((e, b), x)"
      by (metis surj_pair)
    then show ?thesis using assms True g Some
      by (cases e) (auto simp: lookup_computed_def Let_def bindR_eq_Inr queues_kept_def upd_def)
  qed
qed

lemma plan_waiting_keeps:
  assumes "plan_waiting env rid lk s l = Inr (plan, s')"
  shows "\<exists>e. s' = s\<lparr>s_enc := e\<rparr>"
proof -
  have same: "\<exists>e. s = s\<lparr>s_enc := e\<rparr>" by (rule exI [of _ "s_enc s"]) simp
  have new: "\<exists>e. s1 = s\<lparr>s_enc := e\<rparr>" if "plan_new_tokens env rid lk s l = Inr (pl, s1)" for pl s1
  proof -
    from that have "s1 = s \<or> (\<exists>res c n b sh. try_schedule_encoder_inputs env rid c n b sh s = Inr (res, s1))"
      by (auto simp: plan_new_tokens_def bindR_eq_Inr Let_def split: if_splits)
    then show ?thesis using same try_schedule_encoder_inputs_keeps by blast
  qed
  obtain pl s1 where p: "plan_new_tokens env rid lk s l = Inr (pl, s1)"
    using assms by (auto simp: plan_waiting_def bindR_eq_Inr)
  have "s' = s1"
    using assms p by (cases pl) (auto simp: plan_waiting_def bindR_eq_Inr split: if_split_asm)
  with new [OF p] show ?thesis by simp
qed

lemma start_running_queues:
  assumes "start_running env rid lk n encs exts budget s l = Inr (s', l')"
  shows "s_waiting s' = s_waiting s" "s_skipped s' = s_skipped s" "s_running s' = s_running s @ [rid]"
    "s_config s' = s_config s" "s_requests s' = s_requests s"
proof -
  obtain l1 where "commit_encoder_inputs env rid encs exts budget
      (upd rid (\<lambda>r. r\<lparr>status := RUNNING, num_computed_tokens := lk_computed lk,
          num_cached_tokens := (if num_cached_tokens r < 0 then lk_computed lk else num_cached_tokens r)\<rparr>)
        (s\<lparr>s_running := s_running s @ [rid]\<rparr>)) l1 = Inr (s', l')"
    using assms unfolding start_running_def Let_def bindR_eq_Inr by blast
  from commit_encoder_inputs_keep(1) [OF this]
  show "s_waiting s' = s_waiting s" "s_skipped s' = s_skipped s" "s_running s' = s_running s @ [rid]"
    "s_config s' = s_config s" "s_requests s' = s_requests s" by (auto simp: upd_def)
qed

abbreviation num_queued :: "'x scheduler \<Rightarrow> nat" where
  "num_queued s \<equiv> length (queue_items (s_waiting s)) + length (queue_items (s_skipped s))"

lemma pop_shrinks:
  assumes "pop_request st (queue_of w s) = Inr (rid, q)"
  shows "num_queued s = Suc (num_queued (set_queue w q s))"
  using arg_cong [OF pop_request_bag(2) [OF assms], of size] by (cases w) (simp_all add: queue_of_def set_queue_def)

lemma queues_kept_queued: "queues_kept s s' \<Longrightarrow> num_queued s' = num_queued s"
  by (simp add: queues_kept_def)

lemma skip_waiting_shrinks:
  assumes "skip_waiting w rid s l = Inr (s', l')"
  shows "num_queued s = Suc (num_queued s')"
  using assms pop_shrinks by (fastforce simp: skip_waiting_def bindR_eq_Inr)

lemma tell_connector_queues: "queues_kept s (tell_connector env rid lk s)"
  by (simp add: tell_connector_def queues_kept_def Let_def split: option.split)

text \<open>An admitted request was at the front of its queue, and leaves it.\<close>

lemma admit_waiting_continues:
  assumes "admit_waiting env w rid lk s l = Inr (Continue (s', l'))"
  shows "\<exists>n encs exts budget s1 b s2 rid' q. plan_waiting env rid lk s l = Inr (Some (n, encs, exts, budget), s1)
    \<and> allocate_waiting env rid lk n encs s1 = Inr (Some b, s2) \<and> queues_kept s s2
    \<and> pop_request (s_store (tell_connector env rid lk s2)) (queue_of w (tell_connector env rid lk s2)) = Inr (rid', q)
    \<and> (if lk_async lk then (s', l') = await_load rid' lk (set_queue w q (tell_connector env rid lk s2)) l
       else start_running env rid' lk n encs exts budget (set_queue w q (tell_connector env rid lk s2)) l = Inr (s', l'))"
proof -
  obtain plan s1 where p: "plan_waiting env rid lk s l = Inr (plan, s1)"
    using assms by (auto simp: admit_waiting_def bindR_eq_Inr)
  obtain n encs exts budget where pl: "plan = Some (n, encs, exts, budget)"
    using assms p by (cases plan) (auto simp: admit_waiting_def)
  obtain out s2 where a: "allocate_waiting env rid lk n encs s1 = Inr (out, s2)"
    using assms p pl by (auto simp: admit_waiting_def bindR_eq_Inr)
  obtain b where out: "out = Some b"
    using assms p pl a by (cases out) (auto simp: admit_waiting_def bindR_eq_Inr split: if_splits)
  let ?s3 = "tell_connector env rid lk s2"
  obtain rid' q where q: "pop_request (s_store ?s3) (queue_of w ?s3) = Inr (rid', q)"
    "if lk_async lk then (s', l') = await_load rid' lk (set_queue w q ?s3) l
     else start_running env rid' lk n encs exts budget (set_queue w q ?s3) l = Inr (s', l')"
    using assms p pl a out by (auto simp: admit_waiting_def bindR_eq_Inr Let_def split: if_splits)
  have "queues_kept s s1" using plan_waiting_keeps [OF p] by auto
  moreover have "queues_kept s1 s2"
    using a by (auto simp: allocate_waiting_def bindR_eq_Inr Let_def queues_kept_def upd_def)
  ultimately have "queues_kept s s2" by (rule queues_kept_trans)
  with p pl a out q show ?thesis by blast
qed

lemma admit_waiting_shrinks:
  assumes "admit_waiting env w rid lk s l = Inr (Continue (s', l'))"
  shows "num_queued s = Suc (num_queued s')"
proof -
  obtain n encs exts budget s2 rid' q where k: "queues_kept s s2"
    and q: "pop_request (s_store (tell_connector env rid lk s2)) (queue_of w (tell_connector env rid lk s2)) = Inr (rid', q)"
    and e: "if lk_async lk then (s', l') = await_load rid' lk (set_queue w q (tell_connector env rid lk s2)) l
       else start_running env rid' lk n encs exts budget (set_queue w q (tell_connector env rid lk s2)) l = Inr (s', l')"
    using admit_waiting_continues [OF assms] by blast
  have "num_queued s' = num_queued (set_queue w q (tell_connector env rid lk s2))"
  proof (cases "lk_async lk")
    case True
    then show ?thesis using e by (simp add: await_load_def Let_def upd_def)
  next
    case False
    then have "start_running env rid' lk n encs exts budget (set_queue w q (tell_connector env rid lk s2)) l = Inr (s', l')"
      using e by simp
    from start_running_queues [OF this] show ?thesis by simp
  qed
  with pop_shrinks [OF q] queues_kept_queued [OF queues_kept_trans [OF k tell_connector_queues, of env rid lk]]
  show ?thesis by simp
qed

lemma waiting_step_cases:
  assumes "waiting_step env s l = Inr f"
  obtains (full) "int (length (s_running s)) = cfg_max_num_running_reqs (s_config s)" "f = Break (s, l)"
  | (skip) w rid s1 s' l' where "peek_request (queue_of w s) = Inr rid" "queues_kept s s1"
      "skip_waiting w rid s1 l = Inr (s', l')" "f = Continue (s', l')" "int (length (s_running s)) \<noteq> cfg_max_num_running_reqs (s_config s)"
  | (admit) w rid s1 lk s2 where "peek_request (queue_of w s) = Inr rid"
      "(if is_blocked_waiting_status (status (s_store s rid)) then try_promote_blocked_waiting_request env rid s
        else Inr (True, s)) = Inr (True, s1)"
      "lookup_computed env rid s1 = Inr (Some lk, s2)"
      "queues_kept s s2" "admit_waiting env w rid lk s2 l = Inr f" "int (length (s_running s)) \<noteq> cfg_max_num_running_reqs (s_config s)"
proof (cases "int (length (s_running s)) = cfg_max_num_running_reqs (s_config s)")
  case True
  then show ?thesis using full assms by (simp add: waiting_step_def)
next
  case False
  obtain w rid ready s1 where c: "select_waiting_queue_for_scheduling s = Inr (Some w)" "peek_request (queue_of w s) = Inr rid"
    and p: "(if is_blocked_waiting_status (status (s_store s rid)) then try_promote_blocked_waiting_request env rid s
        else Inr (True, s)) = Inr (ready, s1)"
    using assms False by (auto simp: waiting_step_def bindR_eq_Inr split: option.splits)
  have k1: "queues_kept s s1" using p try_promote_queues by (auto split: if_splits)
  show ?thesis
  proof (cases "\<not> ready \<or> exceeds_loras s1 l (s_store s1 rid)")
    case True
    then obtain s' l' where "skip_waiting w rid s1 l = Inr (s', l')" "f = Continue (s', l')"
      using assms False c p by (auto simp: waiting_step_def bindR_eq_Inr)
    then show ?thesis using skip c(2) k1 False by blast
  next
    case go: False
    obtain fnd s2 where lk: "lookup_computed env rid s1 = Inr (fnd, s2)"
      using assms False c p go by (auto simp: waiting_step_def bindR_eq_Inr)
    have k2: "queues_kept s s2" using queues_kept_trans [OF k1 lookup_computed_queues [OF lk]] .
    show ?thesis
    proof (cases fnd)
      case None
      then obtain s' l' where "skip_waiting w rid s2 l = Inr (s', l')" "f = Continue (s', l')"
        using assms False c p go lk by (auto simp: waiting_step_def bindR_eq_Inr)
      then show ?thesis using skip c(2) k2 False by blast
    next
      case (Some k)
      then have "admit_waiting env w rid k s2 l = Inr f"
        using assms False c p go lk by (auto simp: waiting_step_def bindR_eq_Inr)
      then show ?thesis using admit c(2) p lk Some k2 go False by simp
    qed
  qed
qed

lemma waiting_step_shrinks:
  assumes "waiting_step env s l = Inr (Continue (s', l'))"
  shows "num_queued s' < num_queued s"
  using assms
proof (cases rule: waiting_step_cases)
  case (skip w rid s1 t m)
  then show ?thesis using skip_waiting_shrinks [OF skip(3)] queues_kept_queued [OF skip(2)] by simp
next
  case (admit w rid s1 lk s2)
  then show ?thesis using admit_waiting_shrinks [OF admit(5)] queues_kept_queued [OF admit(4)] by simp
qed simp

function waiting_loop ::
  "'x sched_env \<Rightarrow> 'x scheduler \<Rightarrow> step_locals \<Rightarrow> ('x scheduler \<times> step_locals) result" where
  "waiting_loop env s l =
     (if (queue_bool (s_waiting s) \<or> queue_bool (s_skipped s)) \<and> l_budget l > 0
      then bindR (waiting_step env s l) (\<lambda>f.
             case f of Continue (s', l') \<Rightarrow> waiting_loop env s' l' | Break sl \<Rightarrow> Inr sl)
      else Inr (s, l))"
  by pat_completeness auto

termination
  by (relation "measure (\<lambda>(_, s, _). num_queued s)") (auto dest!: waiting_step_shrinks)

declare waiting_loop.simps [simp del]

subsection \<open>The whole step\<close>

definition initial_locals :: "'x scheduler \<Rightarrow> step_locals" where
  "initial_locals s =
     \<lparr>l_new = [], l_resumed = [], l_running = [], l_preempted = [], l_blocks = [], l_num = [],
      l_budget = (if s_pause_state s = PAUSED_ALL then 0 else cfg_max_num_scheduled_tokens (s_config s)),
      l_enc_inputs = [], l_enc_budget = cfg_max_num_encoder_input_tokens (s_config s), l_spec = [],
      l_loras = {}, l_skipped = create_request_queue (cfg_policy (s_config s))\<rparr>"

text \<open>Both passes; the requests skipped in the second one go back in front of those skipped before.\<close>

definition schedule_waiting ::
  "'x sched_env \<Rightarrow> 'x scheduler \<Rightarrow> step_locals \<Rightarrow> ('x scheduler \<times> step_locals) result" where
  "schedule_waiting env s l =
     (if l_preempted l = [] \<and> s_pause_state s = UNPAUSED
      then bindR (waiting_loop env s l) (\<lambda>(s1, l1).
             Inr (if queue_bool (l_skipped l1)
                  then s1\<lparr>s_skipped := prepend_requests (s_store s1) (l_skipped l1) (s_skipped s1)\<rparr> else s1, l1))
      else Inr (s, l))"

definition schedule_passes :: "'x sched_env \<Rightarrow> 'x scheduler \<Rightarrow> ('x scheduler \<times> step_locals) result" where
  "schedule_passes env s =
     (let s1 = s\<lparr>s_kv := kv_new_step_starts (s_kv s)\<rparr>
      in bindR (running_loop env 0 s1 (initial_locals s)) (\<lambda>(s2, l2).
         bindR (running_loras s2 l2) (\<lambda>loras.
           schedule_waiting env s2 (l2\<lparr>l_loras := loras\<rparr>))))"

text \<open>The constraints the source asserts before it builds the output.\<close>

definition check_constraints :: "'x scheduler \<Rightarrow> step_locals \<Rightarrow> unit result" where
  "check_constraints s l =
     bindR (assertR (sum_list (map snd (l_num l)) \<le> cfg_max_num_scheduled_tokens (s_config s))) (\<lambda>_.
     bindR (assertR (l_budget l \<ge> 0)) (\<lambda>_.
     bindR (assertR (int (length (s_running s)) \<le> cfg_max_num_running_reqs (s_config s))) (\<lambda>_.
       assertR (length (l_new l) + length (l_resumed l) + length (l_running l) \<le> length (s_running s)))))"

definition dict_at :: "(string \<times> 'v) list \<Rightarrow> string \<Rightarrow> 'v result" where
  "dict_at d k = (case map_of d k of None \<Rightarrow> Inl KeyError | Some v \<Rightarrow> Inr v)"

definition cached_one ::
  "'x scheduler \<Rightarrow> step_locals \<Rightarrow> bool \<Rightarrow> string \<Rightarrow> cached_request_data \<Rightarrow> cached_request_data result" where
  "cached_one s l is_resumed rid d =
     (let r = s_store s rid; cfg = s_config s; prev = (rid \<in> s_prev_step_scheduled s)
      in bindR (if cfg_use_pp cfg \<and> \<not> cfg_async_scheduling cfg
                then bindR (dict_at (l_num l) rid) (\<lambda>n.
                       let k = n - int (length (dict_get (l_spec l) rid []))
                       in Inr [slice_between (all_token_ids r) (num_computed_tokens r) (num_computed_tokens r + k)])
                else Inr []) (\<lambda>toks.
         bindR (assertR (\<not> (is_resumed \<and> prev))) (\<lambda>_.
         bindR (dict_at (l_blocks l) rid) (\<lambda>b.
           Inr (d\<lparr>cr_req_ids := cr_req_ids d @ [rid],
                  cr_resumed_req_ids := (if is_resumed then insert rid (cr_resumed_req_ids d) else cr_resumed_req_ids d),
                  cr_new_token_ids := cr_new_token_ids d @ toks,
                  cr_all_token_ids := (if prev then cr_all_token_ids d
                                       else AList.update rid (all_token_ids r) (cr_all_token_ids d)),
                  cr_new_block_ids := cr_new_block_ids d @ [kvb_get_block_ids True b],
                  cr_num_computed_tokens := cr_num_computed_tokens d @ [num_computed_tokens r],
                  cr_num_output_tokens := cr_num_output_tokens d @ [num_output_tokens r + num_output_placeholders r]\<rparr>)))))"

definition make_cached_request_data ::
  "'x scheduler \<Rightarrow> step_locals \<Rightarrow> string list \<Rightarrow> string list \<Rightarrow> cached_request_data result" where
  "make_cached_request_data s l running_reqs resumed_reqs =
     bindR (foldR (cached_one s l False) running_reqs cached_make_empty) (foldR (cached_one s l True) resumed_reqs)"

definition new_data :: "'x scheduler \<Rightarrow> step_locals \<Rightarrow> string \<Rightarrow> new_request_data list \<Rightarrow> new_request_data list result" where
  "new_data s l rid ds =
     bindR (dict_at (l_blocks l) rid) (\<lambda>b.
       Inr (ds @ [new_request_data_from (s_store s rid) (map (map block_id) (group_blocks b))
                    (if cfg_use_v2_model_runner (s_config s) then Some (all_token_ids (s_store s rid)) else None)]))"

definition update_one_after_schedule ::
  "string \<times> int \<Rightarrow> 'x scheduler \<times> scheduler_output \<Rightarrow> ('x scheduler \<times> scheduler_output) result" where
  "update_one_after_schedule x so =
     (let rid = fst x; n = snd x; s = fst so; out = snd so
      in if rid \<notin> set (s_requests s) then Inl KeyError
         else
           let s1 = upd rid (\<lambda>r. r\<lparr>num_computed_tokens := num_computed_tokens r + n,
                                   is_prefill_chunk := num_computed_tokens r + n < num_tokens r + num_output_placeholders r\<rparr>) s;
               r = s_store s1 rid;
               out1 = out\<lparr>so_has_structured_output_requests := so_has_structured_output_requests out
                            \<or> (use_structured_output r \<and> \<not> is_prefill_chunk r)\<rparr>
           in bindR (if has_encoder_inputs r then free_encoder_inputs rid s1 else Inr s1) (\<lambda>s2. Inr (s2, out1)))"

definition base_update_after_schedule ::
  "scheduler_output \<Rightarrow> 'x scheduler \<Rightarrow> ('x scheduler \<times> scheduler_output) result" where
  "base_update_after_schedule out s =
     bindR (foldR update_one_after_schedule (so_num_scheduled_tokens out) (s, out)) (\<lambda>(s1, out1).
       Inr (s1\<lparr>s_finished_req_ids := {}\<rparr>, out1))"

text \<open>\<open>AsyncScheduler._update_after_schedule\<close>.\<close>

definition async_update_one ::
  "string \<times> int \<Rightarrow> 'x scheduler \<times> scheduler_output \<Rightarrow> ('x scheduler \<times> scheduler_output) result" where
  "async_update_one x so =
     (let rid = fst x; s = fst so; out = snd so; r = s_store s rid
      in if rid \<notin> set (s_requests s) then Inl KeyError
         else if is_prefill_chunk r then Inr (s, out)
         else
           Inr (upd rid (\<lambda>r. r\<lparr>num_output_placeholders := num_output_placeholders r + 1
                                 + int (length (dict_get (so_scheduled_spec_decode_tokens out) rid [])),
                              spec_token_ids := replicate (nat (cfg_num_spec_tokens (s_config s))) (- 1)\<rparr>) s,
                out\<lparr>so_pending_structured_output_tokens := so_pending_structured_output_tokens out
                      \<or> (use_structured_output r \<and> num_output_placeholders r > 0)\<rparr>))"

definition update_after_schedule ::
  "scheduler_output \<Rightarrow> 'x scheduler \<Rightarrow> ('x scheduler \<times> scheduler_output) result" where
  "update_after_schedule out s =
     bindR (base_update_after_schedule out s) (\<lambda>(s1, out1).
       if cfg_is_async_scheduler (s_config s1)
       then foldR async_update_one (so_num_scheduled_tokens out1) (s1, out1)
       else Inr (s1, out1))"

definition build_meta :: "'x sched_env \<Rightarrow> scheduler_output \<Rightarrow> 'x scheduler \<Rightarrow> 'x scheduler" where
  "build_meta env out s =
     (let x1 = (case env_connector env of None \<Rightarrow> s_ext s | Some c \<Rightarrow> conn_build_connector_meta c out (s_ext s));
          x2 = (case env_ec_connector env of None \<Rightarrow> x1 | Some c \<Rightarrow> ecc_build_connector_meta c out x1)
      in s\<lparr>s_ext := x2\<rparr>)"

text \<open>The output of a step whose passes are done.\<close>

definition build_output ::
  "'x scheduler \<Rightarrow> step_locals \<Rightarrow> (scheduler_output \<times> 'x scheduler) result" where
  "build_output s l =
     (let cfg = s_config s
      in bindR (if s_running s \<noteq> []
                then kv_get_num_common_prefix_blocks (request_id (s_store s (s_running s ! 0))) (s_kv s)
                else Inr (replicate (length (kv_cache_groups (c_config (k_coordinator (s_kv s))))) 0, s_kv s)) (\<lambda>(common, k).
         let s1 = s\<lparr>s_kv := k\<rparr>;
             new_reqs = (if cfg_use_v2_model_runner cfg then l_new l @ l_resumed l else l_new l);
             resumed = (if cfg_use_v2_model_runner cfg then [] else l_resumed l)
         in bindR (foldR (new_data s1 l) new_reqs []) (\<lambda>new.
            bindR (make_cached_request_data s1 l (l_running l) resumed) (\<lambda>cached.
            let (zero, k2) = (if cfg_needs_kv_cache_zeroing cfg
                              then (case kv_take_new_block_ids k of (ids, k2) \<Rightarrow> (if ids = [] then None else Some ids, k2))
                              else (None, k));
                (freed, e) = enc_get_freed_mm_hashes (s_enc s1)
            in Inr (\<lparr>so_scheduled_new_reqs = new, so_scheduled_cached_reqs = cached,
                     so_num_scheduled_tokens = l_num l, so_total_num_scheduled_tokens = sum_list (map snd (l_num l)),
                     so_scheduled_spec_decode_tokens = l_spec l, so_scheduled_encoder_inputs = l_enc_inputs l,
                     so_num_common_prefix_blocks = common, so_finished_req_ids = s_finished_req_ids s1,
                     so_free_encoder_mm_hashes = freed, so_preempted_req_ids = Some (set (l_preempted l)),
                     so_has_structured_output_requests = False, so_pending_structured_output_tokens = False,
                     so_num_invalid_spec_tokens = None, so_new_block_ids_to_zero = zero\<rparr>,
                    s1\<lparr>s_kv := k2, s_enc := e, s_prev_step_scheduled := set (map fst (l_num l))\<rparr>)))))"

definition schedule :: "'x sched_env \<Rightarrow> 'x scheduler \<Rightarrow> (scheduler_output \<times> 'x scheduler) result" where
  "schedule env s =
     bindR (schedule_passes env s) (\<lambda>(s1, l1).
     bindR (check_constraints s1 l1) (\<lambda>_.
     bindR (build_output s1 l1) (\<lambda>(out, s2).
     bindR (update_after_schedule out (build_meta env out s2)) (\<lambda>(s3, out'). Inr (out', s3)))))"

end
