(* ===== verification/Scheduler_Output.thy ===== *)
theory Scheduler_Output
  imports Scheduler_Step
begin

text \<open>
  What the scheduler does with the output of a model step (\<open>Scheduler.update_from_output\<close>): sampled
  tokens are appended to their requests, rejected draft tokens are taken back, stopped requests are freed
  or wait for the next part of their session, failed and finished cache transfers are handled, and the
  outputs for the clients are collected. With it the draft tokens of the next step, the overrides of
  \<open>AsyncScheduler\<close> and the statistics. Log probabilities, routed experts, counts of invalid logits and
  performance counters are left out: they are passed through.
\<close>

subsection \<open>Data\<close>

record model_runner_output =
  mr_req_id_to_index :: "(string \<times> int) list"
  mr_sampled_token_ids :: "int list list"
  mr_prompt_logprobs :: "string set"
  mr_pooler_output :: "int list option list"
  mr_kv_connector_output :: "kv_connector_output option"

record engine_core_output =
  eo_request_id :: string
  eo_new_token_ids :: "int list"
  eo_finish_reason :: "finish_reason option"
  eo_pooling_output :: "int list option"
  eo_stop_reason :: "stop_reason option"
  eo_kv_transfer_params :: "xfer_params option"
  eo_num_cached_tokens :: int
  eo_num_external_computed_tokens :: int

record spec_decoding_stats =
  sd_num_spec_tokens :: int
  sd_num_drafts :: int
  sd_num_draft_tokens :: int
  sd_num_accepted_tokens :: int
  sd_num_accepted_tokens_per_pos :: "int list"

record scheduler_stats =
  ss_num_running_reqs :: int
  ss_num_waiting_reqs :: int
  ss_kv_cache_usage :: "(int \<times> int) option"
  ss_encoder_cache_usage :: "int \<times> int"
  ss_prefix_cache_stats :: prefix_cache_stats
  ss_connector_prefix_cache_stats :: "prefix_cache_stats option"
  ss_spec_decoding_stats :: "spec_decoding_stats option"

record engine_core_outputs =
  ec_outputs :: "engine_core_output list"
  ec_finished_requests :: "string set option"
  ec_scheduler_stats :: "scheduler_stats option"

definition new_spec_decoding_stats :: "int \<Rightarrow> spec_decoding_stats" where
  "new_spec_decoding_stats n = \<lparr>sd_num_spec_tokens = n, sd_num_drafts = 0, sd_num_draft_tokens = 0,
     sd_num_accepted_tokens = 0, sd_num_accepted_tokens_per_pos = replicate (nat n) 0\<rparr>"

definition observe_draft :: "int \<Rightarrow> int \<Rightarrow> spec_decoding_stats \<Rightarrow> spec_decoding_stats result" where
  "observe_draft num_draft num_accepted st =
     bindR (assertR (num_accepted \<le> sd_num_spec_tokens st)) (\<lambda>_.
       Inr (st\<lparr>sd_num_drafts := sd_num_drafts st + 1, sd_num_draft_tokens := sd_num_draft_tokens st + num_draft,
               sd_num_accepted_tokens := sd_num_accepted_tokens st + num_accepted,
               sd_num_accepted_tokens_per_pos :=
                 map (\<lambda>(i, n). if int i < num_accepted then n + 1 else n)
                   (enumerate 0 (sd_num_accepted_tokens_per_pos st))\<rparr>))"

definition make_spec_decoding_stats ::
  "sched_config \<Rightarrow> spec_decoding_stats option \<Rightarrow> int \<Rightarrow> int \<Rightarrow> (string \<times> int) list option \<Rightarrow> string
   \<Rightarrow> spec_decoding_stats option result" where
  "make_spec_decoding_stats cfg st num_draft num_accepted num_invalid rid =
     (if \<not> cfg_log_stats cfg \<or> num_draft = 0 then Inr None
      else
        let st1 = (case st of None \<Rightarrow> new_spec_decoding_stats (cfg_num_spec_tokens cfg) | Some x \<Rightarrow> x);
            n = num_draft - (case num_invalid of None \<Rightarrow> 0 | Some d \<Rightarrow> dict_get d rid 0)
        in bindR (observe_draft n num_accepted st1) (\<lambda>st2. Inr (Some st2)))"

record update_locals =
  u_outputs :: "(int \<times> engine_core_output list) list"
  u_stopped_running :: "string list"
  u_stopped_preempted :: "string list"
  u_spec_stats :: "spec_decoding_stats option"

definition add_output :: "int \<Rightarrow> engine_core_output \<Rightarrow> update_locals \<Rightarrow> update_locals" where
  "add_output client out u = u\<lparr>u_outputs := AList.update client (dict_get (u_outputs u) client [] @ [out]) (u_outputs u)\<rparr>"

subsection \<open>Sampled tokens\<close>

text \<open>\<open>AsyncScheduler._update_request_with_output\<close> and the method it overrides.\<close>

definition async_update_request_with_output ::
  "'x sched_env \<Rightarrow> string \<Rightarrow> int list \<Rightarrow> 'x scheduler \<Rightarrow> ((int list \<times> bool) \<times> 'x scheduler) result" where
  "async_update_request_with_output env rid toks s =
     (let r = s_store s rid
      in if discard_latest_async_tokens r
         then Inr (([], False), upd rid (\<lambda>r. r\<lparr>discard_latest_async_tokens := False\<rparr>) s)
         else
           bindR (update_request_with_output (env_hasher env) (cfg_max_model_len (s_config s)) r toks) (\<lambda>(kept, stopped, r1).
           let r2 = r1\<lparr>num_output_placeholders := num_output_placeholders r1 - int (length kept)\<rparr>
           in bindR (assertR (num_output_placeholders r2 \<ge> 0)) (\<lambda>_.
              if status r = RUNNING
              then bindR (kv_cache_blocks_of (env_hash env) r2 (num_computed_tokens r2 - num_output_placeholders r2) (s_kv s))
                     (\<lambda>(r3, k). Inr ((kept, stopped), upd rid (\<lambda>_. r3) (s\<lparr>s_kv := k\<rparr>)))
              else Inr ((kept, stopped), upd rid (\<lambda>_. r2) s))))"

definition update_output_tokens ::
  "'x sched_env \<Rightarrow> string \<Rightarrow> int list \<Rightarrow> 'x scheduler \<Rightarrow> ((int list \<times> bool) \<times> 'x scheduler) result" where
  "update_output_tokens env rid toks s =
     (if cfg_is_async_scheduler (s_config s) then async_update_request_with_output env rid toks s
      else
        bindR (update_request_with_output (env_hasher env) (cfg_max_model_len (s_config s)) (s_store s rid) toks)
          (\<lambda>(kept, stopped, r). Inr ((kept, stopped), upd rid (\<lambda>_. r) s)))"

text \<open>Draft tokens that were rejected were counted as computed.\<close>

definition take_back_rejected :: "int \<Rightarrow> request \<Rightarrow> request" where
  "take_back_rejected num_rejected r =
     r\<lparr>num_computed_tokens := (if num_computed_tokens r > 0 then num_computed_tokens r - num_rejected else num_computed_tokens r),
       num_output_placeholders :=
         (if num_output_placeholders r > 0 then num_output_placeholders r - num_rejected else num_output_placeholders r)\<rparr>"

definition settle_drafts ::
  "scheduler_output \<Rightarrow> string \<Rightarrow> int list \<Rightarrow> 'x scheduler \<Rightarrow> update_locals \<Rightarrow> ('x scheduler \<times> update_locals) result" where
  "settle_drafts so rid generated s u =
     (let spec = dict_get (so_scheduled_spec_decode_tokens so) rid []
      in if spec \<noteq> [] \<and> generated \<noteq> []
         then
           let num_draft = int (length spec); num_accepted = int (length generated) - 1
           in bindR (make_spec_decoding_stats (s_config s) (u_spec_stats u) num_draft num_accepted
                       (so_num_invalid_spec_tokens so) rid) (\<lambda>st.
                Inr (upd rid (take_back_rejected (num_draft - num_accepted)) s, u\<lparr>u_spec_stats := st\<rparr>))
         else Inr (s, u))"

text \<open>A stopped request: finished and freed, or waiting for the next part of its session.\<close>

definition stop_request ::
  "'x sched_env \<Rightarrow> string \<Rightarrow> request_status \<Rightarrow> 'x scheduler \<Rightarrow> update_locals
   \<Rightarrow> ((finish_reason option \<times> xfer_params option) \<times> 'x scheduler \<times> update_locals) result" where
  "stop_request env rid status_before s u =
     (let reason = get_finished_reason (status (s_store s rid))
      in bindR (handle_stopped_request env rid s) (\<lambda>(finished, s1).
         bindR (if finished then free_request env rid False s1 else Inr (None, s1)) (\<lambda>(params, s2).
           Inr ((reason, params), s2,
                if status_before = RUNNING then u\<lparr>u_stopped_running := u_stopped_running u @ [rid]\<rparr>
                else u\<lparr>u_stopped_preempted := u_stopped_preempted u @ [rid]\<rparr>))))"

definition has_params :: "xfer_params option \<Rightarrow> bool" where
  "has_params p = (case p of None \<Rightarrow> False | Some kvs \<Rightarrow> kvs \<noteq> [])"

definition generated_tokens :: "model_runner_output \<Rightarrow> int \<Rightarrow> int list result" where
  "generated_tokens mro idx = (if mr_sampled_token_ids mro \<noteq> [] then py_nth (mr_sampled_token_ids mro) idx else Inr [])"

definition pooled_output :: "model_runner_output \<Rightarrow> int \<Rightarrow> int list option result" where
  "pooled_output mro idx = (if mr_pooler_output mro \<noteq> [] then py_nth (mr_pooler_output mro) idx else Inr None)"

definition absorb_tokens ::
  "'x sched_env \<Rightarrow> string \<Rightarrow> int list \<Rightarrow> int list option \<Rightarrow> 'x scheduler \<Rightarrow> ((int list \<times> bool) \<times> 'x scheduler) result" where
  "absorb_tokens env rid generated pooled s =
     (if generated \<noteq> [] then update_output_tokens env rid generated s
      else if pooling_params_of (s_store s rid) \<noteq> None \<and> pooled \<noteq> None
      then Inr (([], True), upd rid (\<lambda>r. r\<lparr>status := FINISHED_STOPPED\<rparr>) s)
      else Inr (([], False), s))"

definition emit_output ::
  "'x sched_env \<Rightarrow> model_runner_output \<Rightarrow> string \<Rightarrow> int list \<Rightarrow> int list option \<Rightarrow> bool
   \<Rightarrow> finish_reason option \<times> xfer_params option \<Rightarrow> 'x scheduler \<Rightarrow> update_locals \<Rightarrow> ('x scheduler \<times> update_locals) result" where
  "emit_output env mro rid new pooled stopped info s u =
     (let r = s_store s rid;
          s1 = (if new \<noteq> [] \<and> gr_should_advance (env_grammars env) r (s_ext s)
                then s\<lparr>s_ext := gr_accept_tokens (env_grammars env) rid new (s_ext s)\<rparr> else s)
      in if new \<noteq> [] \<or> pooled \<noteq> None \<or> has_params (snd info) \<or> stopped
         then Inr (s1, add_output (client_index r)
                \<lparr>eo_request_id = rid, eo_new_token_ids = new, eo_finish_reason = fst info, eo_pooling_output = pooled,
                 eo_stop_reason = stop_reason_of r, eo_kv_transfer_params = snd info,
                 eo_num_cached_tokens = num_cached_tokens r,
                 eo_num_external_computed_tokens = num_external_computed_tokens r\<rparr> u)
         else bindR (assertR (rid \<notin> mr_prompt_logprobs mro)) (\<lambda>_. Inr (s1, u)))"

text \<open>One round of the loop over the scheduled requests.\<close>

definition update_one_request ::
  "'x sched_env \<Rightarrow> scheduler_output \<Rightarrow> model_runner_output \<Rightarrow> string list \<Rightarrow> string \<times> int
   \<Rightarrow> 'x scheduler \<times> update_locals \<Rightarrow> ('x scheduler \<times> update_locals) result" where
  "update_one_request env so mro failed x su =
     (let rid = fst x; s = fst su; u = snd su
      in bindR (assertR (snd x > 0)) (\<lambda>_.
         if rid \<in> set failed \<or> rid \<notin> set (s_requests s) \<or> is_finished (s_store s rid) then Inr (s, u)
         else
           bindR (dict_at (mr_req_id_to_index mro) rid) (\<lambda>idx.
           bindR (generated_tokens mro idx) (\<lambda>generated.
           bindR (settle_drafts so rid generated s u) (\<lambda>(s1, u1).
           bindR (pooled_output mro idx) (\<lambda>pooled.
           bindR (absorb_tokens env rid generated pooled s1) (\<lambda>((new, stopped), s2).
           bindR (if stopped then stop_request env rid (status (s_store s1 rid)) s2 u1
                  else Inr ((None, None), s2, u1)) (\<lambda>(info, s3, u3).
             emit_output env mro rid new pooled stopped info s3 u3))))))))"

subsection \<open>Failed and finished cache transfers\<close>

text \<open>
  \<open>_update_requests_with_invalid_blocks\<close>. The accumulator of the whole scan, and the inner loop over
  the blocks of one request; the sets of the source are lists without repetitions.
\<close>

record invalid_scan =
  is_affected_ids :: "string list"
  is_affected_tokens :: int
  is_to_evict :: "int list"
  is_marked :: "int set"

fun invalid_blocks_loop ::
  "int \<Rightarrow> int set \<Rightarrow> bool \<Rightarrow> int \<Rightarrow> int list \<Rightarrow> int \<Rightarrow> int list \<Rightarrow> bool \<times> bool \<times> request \<times> invalid_scan
   \<Rightarrow> bool \<times> bool \<times> request \<times> invalid_scan" where
  "invalid_blocks_loop bs invalid evict num_comp all_ids idx [] st = st"
| "invalid_blocks_loop bs invalid evict num_comp all_ids idx (b # ids) (affected, marked_one, r, sc) =
     invalid_blocks_loop bs invalid evict num_comp all_ids (idx + 1) ids
       (if b \<notin> invalid then (affected, marked_one, r, sc)
        else if b \<in> is_marked sc then (True, marked_one, r, sc)
        else
          let sc1 = sc\<lparr>is_marked := insert b (is_marked sc)\<rparr>
          in if marked_one then (True, True, r, sc1)
             else
               let lost = num_comp - idx * bs
               in (True, True,
                   r\<lparr>num_computed_tokens := idx * bs,
                     num_external_computed_tokens := num_external_computed_tokens r - lost\<rparr>,
                   sc1\<lparr>is_affected_tokens := is_affected_tokens sc1 + lost,
                       is_to_evict := (if evict then is_to_evict sc1
                           @ filter (\<lambda>i. i \<notin> set (is_to_evict sc1)) (remdups (slice_from all_ids idx)) else is_to_evict sc1)\<rparr>))"

definition scan_request ::
  "int set \<Rightarrow> bool \<Rightarrow> string \<Rightarrow> 'x scheduler \<times> invalid_scan \<Rightarrow> ('x scheduler \<times> invalid_scan) result" where
  "scan_request invalid evict rid st =
     (let s = fst st; r = s_store s rid; bs = cfg_block_size (s_config s)
      in case kv_get_block_ids (request_id r) (s_kv s) of
           Some [ids] \<Rightarrow>
             if bs = 0 then Inl ZeroDivisionError
             else
               let num_comp = (if status r = WAITING_FOR_REMOTE_KVS then num_computed_tokens r else num_cached_tokens r);
                   n = (num_comp + bs - 1) div bs
               in (case invalid_blocks_loop bs invalid evict num_comp ids 0 (take (nat n) ids) (False, False, r, snd st) of
                     (affected, marked_one, r1, sc) \<Rightarrow>
                       let (r2, sc1) =
                             (if affected \<and> \<not> marked_one
                              then (r1\<lparr>num_computed_tokens := num_cached_tokens r1\<rparr>,
                                    sc\<lparr>is_affected_tokens := is_affected_tokens sc
                                         + (num_computed_tokens r1 - num_cached_tokens r1)\<rparr>)
                              else (r1, sc));
                           sc2 = (if affected then sc1\<lparr>is_affected_ids := List.insert (request_id r) (is_affected_ids sc1)\<rparr>
                                  else sc1)
                       in Inr (upd rid (\<lambda>_. r2) s, sc2))
         | _ \<Rightarrow> Inl ValueError)"

definition empty_scan :: invalid_scan where
  "empty_scan = \<lparr>is_affected_ids = [], is_affected_tokens = 0, is_to_evict = [], is_marked = {}\<rparr>"

definition update_requests_with_invalid_blocks ::
  "string list \<Rightarrow> int list \<Rightarrow> bool \<Rightarrow> 'x scheduler \<Rightarrow> (invalid_scan \<times> 'x scheduler) result" where
  "update_requests_with_invalid_blocks rids invalid evict s =
     bindR (foldR (scan_request (set invalid) evict) rids (s, empty_scan)) (\<lambda>(s', sc). Inr (sc, s'))"

definition handle_invalid_blocks :: "int list \<Rightarrow> 'x scheduler \<Rightarrow> (string list \<times> 'x scheduler) result" where
  "handle_invalid_blocks invalid s =
     (let loading = filter (\<lambda>rid. status (s_store s rid) = WAITING_FOR_REMOTE_KVS) (queue_iter (s_store s) (s_skipped s));
          recompute = cfg_recompute_kv_load_failures (s_config s)
      in bindR (update_requests_with_invalid_blocks loading invalid False s) (\<lambda>(sc1, s1).
         bindR (update_requests_with_invalid_blocks (s_running s1) invalid True s1) (\<lambda>(sc2, s2).
           if is_affected_ids sc1 = [] \<and> is_affected_ids sc2 = [] then Inr ([], s2)
           else
             bindR (if is_to_evict sc2 \<noteq> [] \<and> \<not> recompute
                    then bindR (kv_evict_blocks (is_to_evict sc2) (s_kv s2)) (\<lambda>k. Inr (s2\<lparr>s_kv := k\<rparr>))
                    else Inr s2) (\<lambda>s3.
               if \<not> recompute
               then Inr (remdups (is_affected_ids sc1 @ is_affected_ids sc2), s3)
               else Inr (is_affected_ids sc2,
                         s3\<lparr>s_failed_recving := s_failed_recving s3 \<union> set (is_affected_ids sc1)\<rparr>)))))"

definition recving_finished :: "string \<Rightarrow> 'x scheduler \<Rightarrow> 'x scheduler result" where
  "recving_finished rid s =
     bindR (assertR (rid \<in> set (s_requests s))) (\<lambda>_.
       if status (s_store s rid) = WAITING_FOR_REMOTE_KVS
       then Inr (s\<lparr>s_finished_recving := insert rid (s_finished_recving s)\<rparr>)
       else bindR (assertR (is_finished (s_store s rid))) (\<lambda>_. scheduler_free_blocks rid s))"

definition sending_finished :: "string \<Rightarrow> 'x scheduler \<Rightarrow> 'x scheduler result" where
  "sending_finished rid s =
     bindR (assertR (rid \<in> set (s_requests s))) (\<lambda>_. scheduler_free_blocks rid s)"

definition update_from_kv_xfer_finished ::
  "'x sched_env \<Rightarrow> kv_connector_output \<Rightarrow> 'x scheduler \<Rightarrow> 'x scheduler result" where
  "update_from_kv_xfer_finished env ko s =
     (let s1 = (case env_connector env of
                  None \<Rightarrow> s | Some conn \<Rightarrow> s\<lparr>s_ext := conn_update_connector_output conn ko (s_ext s)\<rparr>)
      in bindR (foldR recving_finished (ko_finished_recving ko) s1) (foldR sending_finished (ko_finished_sending ko)))"

subsection \<open>Statistics\<close>

fun get_encoder_cache_usage :: "encoder_manager \<Rightarrow> int \<times> int" where
  "get_encoder_cache_usage (EncoderCacheManager c) =
     (if ec_cache_size c = 0 then (0, 1) else (ec_cache_size c - num_free_slots c, ec_cache_size c))"
| "get_encoder_cache_usage (EncoderDecoderCacheManager c) =
     (if ed_cache_size c = 0 then (0, 1) else (ed_cache_size c - ed_num_free_slots c, ed_cache_size c))"

text \<open>The pending events of the metrics collector are taken out with the statistics.\<close>

definition drain_collector :: "kv_cache_manager \<Rightarrow> kv_cache_manager" where
  "drain_collector k =
     with_pool ((k_pool k)\<lparr>collector := map_option (\<lambda>c. snd (drain_events c)) (collector (k_pool k))\<rparr>) k"

definition make_stats ::
  "spec_decoding_stats option \<Rightarrow> 'x scheduler \<Rightarrow> (scheduler_stats option \<times> 'x scheduler) result" where
  "make_stats spec_stats s =
     (if \<not> cfg_log_stats (s_config s) then Inr (None, s)
      else
        case make_prefix_cache_stats (s_kv s) of
          (None, _) \<Rightarrow> Inl AssertionError
        | (Some st, k) \<Rightarrow>
            Inr (Some \<lparr>ss_num_running_reqs = int (length (s_running s)),
                       ss_num_waiting_reqs = queue_len (s_waiting s) + queue_len (s_skipped s),
                       ss_kv_cache_usage = usage k, ss_encoder_cache_usage = get_encoder_cache_usage (s_enc s),
                       ss_prefix_cache_stats = st,
                       ss_connector_prefix_cache_stats = s_connector_prefix_cache_stats s,
                       ss_spec_decoding_stats = spec_stats\<rparr>,
                 s\<lparr>s_kv := drain_collector k,
                   s_connector_prefix_cache_stats :=
                     map_option (\<lambda>_. new_prefix_cache_stats) (s_connector_prefix_cache_stats s)\<rparr>))"

subsection \<open>The whole update\<close>

definition remove_stopped :: "'x scheduler \<Rightarrow> update_locals \<Rightarrow> 'x scheduler" where
  "remove_stopped s u =
     (let s1 = (if u_stopped_running u \<noteq> [] then s\<lparr>s_running := remove_all (s_running s) (u_stopped_running u)\<rparr> else s)
      in if u_stopped_preempted u \<noteq> []
         then s1\<lparr>s_waiting := remove_requests (s_store s1) (set (u_stopped_preempted u)) (s_waiting s1)\<rparr> else s1)"

definition fail_requests ::
  "'x sched_env \<Rightarrow> string list \<Rightarrow> 'x scheduler \<Rightarrow> update_locals \<Rightarrow> ('x scheduler \<times> update_locals) result" where
  "fail_requests env failed s u =
     (if failed \<noteq> [] \<and> \<not> cfg_recompute_kv_load_failures (s_config s)
      then bindR (if set failed \<subseteq> set (s_requests s) then Inr () else Inl KeyError) (\<lambda>_.
           bindR (finish_requests env (Some failed) FINISHED_ERROR s) (\<lambda>(_, s1).
             Inr (s1, fold (\<lambda>rid u. let r = s_store s1 rid in add_output (client_index r)
                    \<lparr>eo_request_id = request_id r, eo_new_token_ids = [], eo_finish_reason = get_finished_reason (status r),
                     eo_pooling_output = None, eo_stop_reason = None, eo_kv_transfer_params = None,
                     eo_num_cached_tokens = num_cached_tokens r, eo_num_external_computed_tokens = 0\<rparr> u) failed u)))
      else Inr (s, u))"

definition collect_events :: "'x sched_env \<Rightarrow> 'x scheduler \<Rightarrow> kv_cache_event list \<times> 'x scheduler" where
  "collect_events env s =
     (case kv_take_events (s_kv s) of
        (es, k) \<Rightarrow>
          let s1 = s\<lparr>s_kv := k\<rparr>
          in case env_connector env of
               None \<Rightarrow> (es, s1)
             | Some conn \<Rightarrow> (case conn_take_events conn (s_ext s1) of (es', x) \<Rightarrow> (es @ es', s1\<lparr>s_ext := x\<rparr>)))"

definition add_finished_sets ::
  "(int \<times> string set) list \<Rightarrow> (int \<times> engine_core_outputs) list \<Rightarrow> (int \<times> engine_core_outputs) list" where
  "add_finished_sets d outs =
     fold (\<lambda>(client, ids) outs.
        AList.update client ((dict_get outs client \<lparr>ec_outputs = [], ec_finished_requests = None, ec_scheduler_stats = None\<rparr>)
          \<lparr>ec_finished_requests := Some ids\<rparr>) outs) d outs"

definition add_stats :: "scheduler_stats option \<Rightarrow> (int \<times> engine_core_outputs) list \<Rightarrow> (int \<times> engine_core_outputs) list" where
  "add_stats st outs =
     (case (st, outs) of
        (None, _) \<Rightarrow> outs
      | (Some x, []) \<Rightarrow> [(0, \<lparr>ec_outputs = [], ec_finished_requests = None, ec_scheduler_stats = Some x\<rparr>)]
      | (Some x, (c, o1) # rest) \<Rightarrow> (c, o1\<lparr>ec_scheduler_stats := Some x\<rparr>) # rest)"

text \<open>The outputs per client and the events published.\<close>

definition update_from_output ::
  "'x sched_env \<Rightarrow> scheduler_output \<Rightarrow> model_runner_output \<Rightarrow> 'x scheduler
   \<Rightarrow> (((int \<times> engine_core_outputs) list \<times> kv_cache_event list) \<times> 'x scheduler) result" where
  "update_from_output env so mro s =
     bindR (case mr_kv_connector_output mro of
              Some ko \<Rightarrow> if ko_invalid_block_ids ko \<noteq> [] then handle_invalid_blocks (ko_invalid_block_ids ko) s else Inr ([], s)
            | None \<Rightarrow> Inr ([], s)) (\<lambda>(failed, s1).
     bindR (foldR (update_one_request env so mro failed) (so_num_scheduled_tokens so)
              (s1, \<lparr>u_outputs = [], u_stopped_running = [], u_stopped_preempted = [], u_spec_stats = None\<rparr>)) (\<lambda>(s2, u2).
     bindR (fail_requests env failed (remove_stopped s2 u2) u2) (\<lambda>(s3, u3).
     bindR (case mr_kv_connector_output mro of
              None \<Rightarrow> Inr s3 | Some ko \<Rightarrow> update_from_kv_xfer_finished env ko s3) (\<lambda>s4.
     let (events, s5) = collect_events env s4;
         outs = map (\<lambda>(c, os). (c, \<lparr>ec_outputs = os, ec_finished_requests = None, ec_scheduler_stats = None\<rparr>)) (u_outputs u3);
         outs1 = (case s_finished_req_ids_dict s5 of None \<Rightarrow> outs | Some d \<Rightarrow> add_finished_sets d outs);
         s6 = s5\<lparr>s_finished_req_ids_dict := map_option (\<lambda>_. []) (s_finished_req_ids_dict s5)\<rparr>
     in bindR (make_stats (u_spec_stats u3) s6) (\<lambda>(st, s7). Inr ((add_stats st outs1, events), s7))))))"

subsection \<open>Draft tokens for the next step\<close>

definition update_draft_one :: "'x sched_env \<Rightarrow> string \<times> int list \<Rightarrow> 'x scheduler \<Rightarrow> 'x scheduler" where
  "update_draft_one env x s =
     (let rid = fst x; r = s_store s rid
      in if rid \<notin> set (s_requests s) \<or> is_finished r then s
         else if is_prefill_chunk r then upd rid (\<lambda>r. r\<lparr>spec_token_ids := []\<rparr>) s
         else upd rid (\<lambda>r. r\<lparr>spec_token_ids :=
                (if gr_should_advance (env_grammars env) r (s_ext s)
                 then gr_validate_tokens (env_grammars env) r (snd x) (s_ext s) else snd x)\<rparr>) s)"

definition update_draft_token_ids :: "'x sched_env \<Rightarrow> string list \<Rightarrow> int list list \<Rightarrow> 'x scheduler \<Rightarrow> 'x scheduler" where
  "update_draft_token_ids env ids drafts s = fold (update_draft_one env) (zip ids drafts) s"

text \<open>Drafts are cut to the scheduled number, and padded where the grammar dropped some.\<close>

definition fit_draft :: "'x sched_env \<Rightarrow> 'x scheduler \<Rightarrow> nat \<Rightarrow> request \<Rightarrow> int list \<Rightarrow> int list" where
  "fit_draft env s n r ts =
     (let ts1 = take n ts
      in if gr_should_advance (env_grammars env) r (s_ext s) then gr_validate_tokens (env_grammars env) r ts1 (s_ext s) else ts1)"

definition update_draft_in_output_one ::
  "'x sched_env \<Rightarrow> 'x scheduler \<Rightarrow> string \<times> int list \<Rightarrow> (string \<times> int list) list \<times> (string \<times> int) list
   \<Rightarrow> (string \<times> int list) list \<times> (string \<times> int) list" where
  "update_draft_in_output_one env s x acc =
     (let rid = fst x; r = s_store s rid; placeholders = dict_get (fst acc) rid []
      in if rid \<notin> set (s_requests s) \<or> is_finished r \<or> placeholders = [] then acc
         else
           let n = length placeholders; ts = fit_draft env s n r (snd x); missing = n - length ts
           in (AList.update rid (ts @ replicate missing (- 1)) (fst acc),
               if n \<noteq> length ts then AList.update rid (int n - int (length ts)) (snd acc) else snd acc))"

definition update_draft_token_ids_in_output ::
  "'x sched_env \<Rightarrow> string list \<Rightarrow> int list list \<Rightarrow> 'x scheduler \<Rightarrow> scheduler_output \<Rightarrow> scheduler_output" where
  "update_draft_token_ids_in_output env ids drafts s so =
     (case fold (update_draft_in_output_one env s) (zip ids drafts) (so_scheduled_spec_decode_tokens so, []) of
        (specs, invalid) \<Rightarrow> so\<lparr>so_scheduled_spec_decode_tokens := specs, so_num_invalid_spec_tokens := Some invalid\<rparr>)"

text \<open>The rows of the grammar bitmask, in order; \<open>None\<close> when no grammar is involved.\<close>

definition get_grammar_rows :: "scheduler_output \<Rightarrow> 'x scheduler \<Rightarrow> string list option" where
  "get_grammar_rows so s =
     (if \<not> so_has_structured_output_requests so then None
      else
        let ids = filter (\<lambda>rid. rid \<in> set (s_requests s) \<and> use_structured_output (s_store s rid)
                     \<and> \<not> is_prefill_chunk (s_store s rid)) (map fst (so_num_scheduled_tokens so))
        in if ids = [] then None else Some ids)"

end
