(* ===== verification/Scheduler_Example.thy ===== *)
theory Scheduler_Example
  imports Scheduler_Output
begin

text \<open>
  Small schedulers to evaluate: no connectors, no structured outputs, one group of full attention over blocks of two
  tokens.
\<close>

definition no_grammars :: "unit grammars" where
  "no_grammars = \<lparr>gr_ready = (\<lambda>_ _. True), gr_should_advance = (\<lambda>_ _. False), gr_accept_tokens = (\<lambda>_ _ x. x),
     gr_validate_tokens = (\<lambda>_ ts _. ts)\<rparr>"

definition small_env :: "unit sched_env" where
  "small_env = \<lparr>env_hash = serialising_env 2, env_hasher = None, env_connector = None, env_ec_connector = None,
     env_grammars = no_grammars\<rparr>"

definition small_cfg :: "scheduling_policy \<Rightarrow> int \<Rightarrow> int \<Rightarrow> sched_config" where
  "small_cfg policy tokens len =
     \<lparr>cfg_policy = policy, cfg_max_num_running_reqs = 4, cfg_max_num_scheduled_tokens = tokens, cfg_max_model_len = len,
      cfg_long_prefill_token_threshold = 0, cfg_enable_chunked_prefill = True, cfg_disable_chunked_mm_input = False,
      cfg_max_num_encoder_input_tokens = 0, cfg_is_encoder_decoder = False, cfg_use_eagle = False, cfg_num_spec_tokens = 0,
      cfg_num_lookahead_tokens = 0, cfg_max_loras = None, cfg_block_size = 2, cfg_cache_block_size = 2,
      cfg_need_mamba_block_aligned_split = False, cfg_needs_kv_cache_zeroing = False, cfg_use_pp = False,
      cfg_use_v2_model_runner = False, cfg_async_scheduling = False, cfg_is_async_scheduler = False, cfg_log_stats = False,
      cfg_recompute_kv_load_failures = False\<rparr>"

definition small_kv_config :: "int \<Rightarrow> kv_cache_config" where
  "small_kv_config n = \<lparr>num_blocks = n, kv_cache_groups = [\<lparr>spec_class_of = FullAttentionSpec, spec_block_size = 2, spec_layout = []\<rparr>]\<rparr>"

definition small_scheduler :: "scheduling_policy \<Rightarrow> int \<Rightarrow> int \<Rightarrow> int \<Rightarrow> unit scheduler result" where
  "small_scheduler policy tokens len nb =
     scheduler_init small_env (small_cfg policy tokens len) (small_kv_config nb) (Some nb) False False 1 1 False None
       False 0 ()"

definition small_sampling :: sampling_params where
  "small_sampling = \<lparr>sp_max_tokens = Some 4, min_tokens = 0, eos_token_id = Some 2, stop_token_ids = None,
     repetition_detection = None, sp_skip_reading_prefix_cache = None, structured_outputs = False\<rparr>"

definition small_request :: "string \<Rightarrow> int list \<Rightarrow> request" where
  "small_request rid prompt = (bare_request rid)\<lparr>sampling_params_of := Some small_sampling, prompt_token_ids := Some prompt,
     num_prompt_tokens := int (length prompt), all_token_ids := prompt, max_tokens := 4\<rparr>"

text \<open>The model samples \<open>f rid\<close> for every scheduled request.\<close>

definition sampled :: "(string \<Rightarrow> int list) \<Rightarrow> scheduler_output \<Rightarrow> model_runner_output" where
  "sampled f out =
     (let ids = map fst (so_num_scheduled_tokens out)
      in \<lparr>mr_req_id_to_index = zip ids (map int [0..<length ids]), mr_sampled_token_ids = map f ids,
          mr_prompt_logprobs = {}, mr_pooler_output = [], mr_kv_connector_output = None\<rparr>)"

text \<open>A step of the scheduler and of the model.\<close>

definition small_round :: "(string \<Rightarrow> int list) \<Rightarrow> unit scheduler \<Rightarrow> unit scheduler result" where
  "small_round f s =
     bindR (schedule small_env s) (\<lambda>(out, s1).
     bindR (update_from_output small_env out (sampled f out) s1) (\<lambda>(_, s2). Inr s2))"

definition small_adds :: "request list \<Rightarrow> unit scheduler result \<Rightarrow> unit scheduler result" where
  "small_adds rs m = bindR m (foldR (scheduler_add_request small_env) rs)"

text \<open>
  Two requests with prompts of four tokens that fill the cache of four blocks, after the first step has
  computed them and sampled a token for each.
\<close>

definition small_full :: "unit scheduler" where
  "small_full = projr (bindR (small_adds [small_request ''a'' [1, 3, 4, 5], small_request ''b'' [6, 7, 8, 9]]
     (small_scheduler FCFS 8 16 5)) (small_round (\<lambda>_. [11])))"

lemma small_full_eval:
  "(s_running small_full, queue_items (s_waiting small_full), queue_items (s_skipped small_full), s_config small_full,
    map (\<lambda>rid. let r = s_store small_full rid
              in (num_computed_tokens r, num_tokens_with_spec r + num_output_placeholders r)) [''a'', ''b''])
   = ([''a'', ''b''], [], [], small_cfg FCFS 8 16, [(4, 5), (4, 5)])"
  by code_simp

lemmas small_full_queues = small_full_eval [unfolded prod.inject Let_def list.map list.inject]

text \<open>The next token of the first request needs a block: the second request is preempted.\<close>

lemma small_full_preempts:
  "map_sum id (\<lambda>(s, l). (l_num l, l_preempted l, s_running s, queue_items (s_waiting s))) (schedule_passes small_env small_full)
   = Inr ([(''a'', 1)], [''b''], [''a''], [''b''])"
  by code_simp

end
