(* ===== verification/Allocation_Frame.thy ===== *)
theory Allocation_Frame
  imports KV_Cache_Manager
begin

text \<open>
  What the calls of the KV cache manager leave alone, whatever their outcome: the request handed to an
  allocation changes in the memo of its prompt-embedding hashes at most, and the counts of cached blocks of all
  other requests stay.
\<close>

subsection \<open>The request\<close>

definition same_request :: "request \<Rightarrow> request \<Rightarrow> bool" where
  "same_request r r' \<longleftrightarrow> (\<exists>memo. r' = r\<lparr>prompt_embeds_per_block_hashes := memo\<rparr>)"

lemma same_request_refl [simp]: "same_request r r"
  unfolding same_request_def by (rule exI [of _ "prompt_embeds_per_block_hashes r"]) simp

lemma same_request_trans: "same_request r r' \<Longrightarrow> same_request r' r'' \<Longrightarrow> same_request r r''"
  by (auto simp: same_request_def)

lemma event_keys_loop_frame:
  "event_keys_loop env p bs bsz js idx acc r = Inr (keys, r') \<Longrightarrow> same_request r r'"
proof (induction env p bs bsz js idx acc r rule: event_keys_loop.induct)
  case (2 env p bs bsz i js idx acc r)
  obtain b where b: "py_nth bs i = Inr b" using "2.prems" by (auto simp: bindR_eq_Inr)
  show ?case
  proof (cases "is_null (pool_store p b)")
    case True
    then show ?thesis using "2.IH"(1) [OF b True] "2.prems" b by simp
  next
    case False
    obtain ks idx1 r1 where k: "generate_block_hash_extra_keys env r (i * bsz) (i * bsz + bsz) idx = Inr (ks, idx1, r1)"
      "event_keys_loop env p bs bsz js idx1 (acc @ [ks]) r1 = Inr (keys, r')"
      using "2.prems" b False by (auto simp: bindR_eq_Inr)
    have "same_request r r1" using extra_keys_frame [OF k(1)] by (simp add: same_request_def)
    moreover have "same_request r1 r'" by (rule "2.IH"(2) [OF b False k(1) refl refl k(2)])
    ultimately show ?thesis by (rule same_request_trans)
  qed
qed simp

lemma cache_full_blocks_frame:
  "cache_full_blocks env r bs nc nf bsz g p = Inr (r', p') \<Longrightarrow> same_request r r'"
  by (auto simp: cache_full_blocks_def bindR_eq_Inr split: if_split_asm intro: event_keys_loop_frame)

lemma cache_blocks_frame:
  assumes "cache_blocks env r n m p = Inr (r', m', p')"
  shows "same_request r r'"
proof -
  have base: "same_request r r1" if "base_cache_blocks env r n m p = Inr (r1, m1, p1)" for r1 m1 p1
    using that by (auto simp: base_cache_blocks_def Let_def bindR_eq_Inr split: if_split_asm intro: cache_full_blocks_frame)
  show ?thesis using assms
    by (cases "spec_class_of (m_spec m)")
      (auto simp: cache_blocks_def bindR_eq_Inr Let_def split: if_split_asm intro: base)
qed

text \<open>A relation that every manager's step has, and one on the state threaded through.\<close>

lemma each_manager_frame:
  assumes "each_manager op i ms s = Inr (as, ms', s')"
    and step: "\<And>i m s a m' s'. m \<in> set ms \<Longrightarrow> op i m s = Inr (a, m', s') \<Longrightarrow> R m m' \<and> S s s'"
    and rf: "\<And>s. S s s" and tr: "\<And>s t u. S s t \<Longrightarrow> S t u \<Longrightarrow> S s u"
  shows "list_all2 R ms ms' \<and> S s s'"
  using assms(1) step
proof (induction op i ms s arbitrary: as ms' s' rule: each_manager.induct)
  case (1 op i s)
  then show ?case by (simp add: rf)
next
  case (2 op i m ms s)
  obtain a m1 s1 as1 ms1 where o: "op i m s = Inr (a, m1, s1)" "each_manager op (Suc i) ms s1 = Inr (as1, ms1, s')"
    "ms' = m1 # ms1" using "2.prems"(1) by (auto simp: bindR_eq_Inr)
  have "list_all2 R ms ms1 \<and> S s1 s'"
    by (rule "2.IH" [OF o(1) refl refl o(2)]) (meson "2.prems"(2) list.set_intros(2))
  with "2.prems"(2) [OF _ o(1)] o(3) show ?case by (auto intro: tr)
qed

lemma coord_cache_blocks_frame:
  assumes "coord_cache_blocks env r n c = Inr (r', c')"
  shows "same_request r r'"
proof -
  obtain as ms p where e: "each_manager (cache_op env n) 0 (single_type_managers c) (r, c_pool c) = Inr (as, ms, r', p)"
    using assms by (auto simp: coord_cache_blocks_def bindR_eq_Inr)
  have "list_all2 (\<lambda>_ _. True) (single_type_managers c) ms \<and> same_request (fst (r, c_pool c)) (fst (r', p))"
    by (rule each_manager_frame [OF e, where S = "\<lambda>s t. same_request (fst s) (fst t)"])
      (auto simp: cache_op_def bindR_eq_Inr intro: cache_blocks_frame same_request_trans)
  then show ?thesis by simp
qed

lemma allocate_slots_same_request:
  assumes "allocate_slots env r n nc a la ext d enc k = Inr (out, r', k')"
  shows "same_request r r'"
  using assms by (auto simp: allocate_slots_def Let_def bindR_eq_Inr split: if_split_asm intro: coord_cache_blocks_frame)

lemma kv_cache_blocks_of_same_request:
  "kv_cache_blocks_of env r n k = Inr (r', k') \<Longrightarrow> same_request r r'"
  by (auto simp: kv_cache_blocks_of_def bindR_eq_Inr split: if_split_asm intro: coord_cache_blocks_frame)

end
