(* ===== verification/Scheduler_Limits.thy ===== *)
theory Scheduler_Limits
  imports Scheduler_Example Allocation_Frame
begin

text \<open>
  What holds of every scheduling step, whatever the components outside the core answer: no request is lost
  or duplicated, the tokens and requests scheduled stay within their limits, and so the assertions that
  \<open>schedule\<close> makes before it builds its output cannot fail.
\<close>

subsection \<open>Token counts of one request\<close>

text \<open>One round of the loop over the encoder inputs: it ends, or goes on with the next input and the same count.\<close>

lemma encoder_loop_cases:
  assumes "encoder_loop env cfg x r c sh n i (f # fs) p e = Inr ((p', n'), e')"
  shows "(n' \<le> max n 0 \<and> min n 0 \<le> n') \<or> (\<exists>q e1. encoder_loop env cfg x r c sh n (Suc i) fs q e1 = Inr ((p', n'), e'))"
proof -
  obtain k where k: "get_num_embeds f = Inr k" using assms by (auto simp: bindR_eq_Inr)
  consider (out) "mm_offset f \<ge> c + n + sh"
    | (ed) "mm_offset f < c + n + sh" "cfg_is_encoder_decoder cfg \<and> c > 0"
    | (past) "mm_offset f < c + n + sh" "\<not> (cfg_is_encoder_decoder cfg \<and> c > 0)" "mm_offset f + mm_length f \<le> c"
    | (dup) "mm_offset f < c + n + sh" "\<not> (cfg_is_encoder_decoder cfg \<and> c > 0)" "\<not> mm_offset f + mm_length f \<le> c"
        "\<not> cfg_is_encoder_decoder cfg \<and> mm_identifier f \<in> ep_hashes p"
    | (go) "mm_offset f < c + n + sh" "\<not> (cfg_is_encoder_decoder cfg \<and> c > 0)" "\<not> mm_offset f + mm_length f \<le> c"
        "\<not> (\<not> cfg_is_encoder_decoder cfg \<and> mm_identifier f \<in> ep_hashes p)" by linarith
  then show ?thesis
  proof cases
    case out
    then show ?thesis using assms k by simp
  next
    case ed
    then have "encoder_loop env cfg x r c sh n (Suc i) fs p e = Inr ((p', n'), e')"
      using assms k by (auto simp: bindR_eq_Inr not_le [symmetric])
    then show ?thesis by blast
  next
    case past
    then have "encoder_loop env cfg x r c sh n (Suc i) fs p e = Inr ((p', n'), e')"
      using assms k by (auto simp: not_le [symmetric])
    then show ?thesis by blast
  next
    case dup
    then have "encoder_loop env cfg x r c sh n (Suc i) fs p e = Inr ((p', n'), e')"
      using assms k by (auto simp: not_le [symmetric])
    then show ?thesis by blast
  next
    case go
    obtain hit e1 where h: "(if cfg_is_encoder_decoder cfg then Inr (False, e) else enc_check_and_update_cache r (int i) e) = Inr (hit, e1)"
      using assms k go by (auto simp: bindR_eq_Inr Let_def not_le [symmetric])
    let ?roll = "cfg_disable_chunked_mm_input cfg \<and> c < mm_offset f \<and> c + n < mm_offset f + mm_length f"
    show ?thesis
    proof (cases "hit \<or> ?roll")
      case True
      then show ?thesis using assms k go h by (cases hit) (auto simp: Let_def not_le [symmetric])
    next
      case False
      obtain fits e2 where f2: "enc_can_allocate r (int i) (ep_budget p) (ep_num_embeds p) e1 = Inr (fits, e2)"
        using assms k go h False by (auto simp: bindR_eq_Inr Let_def not_le [symmetric])
      show ?thesis
      proof (cases fits)
        case False
        then show ?thesis using assms k go h f2 \<open>\<not> (hit \<or> ?roll)\<close> by (auto simp: Let_def not_le [symmetric] split: if_splits)
      next
        case True
        obtain a b where ab: "get_embeds_indices_in_range f (max 0 (c - mm_offset f))
            (min (mm_length f) (c + n - mm_offset f)) = Inr (a, b)"
          using assms k go h f2 \<open>\<not> (hit \<or> ?roll)\<close> True by (auto simp: bindR_eq_Inr Let_def not_le [symmetric])
        show ?thesis using assms k go h f2 \<open>\<not> (hit \<or> ?roll)\<close> True ab
          by (auto simp: Let_def not_le [symmetric] split: if_split_asm)
      qed
    qed
  qed
qed

lemma encoder_loop_tokens:
  "encoder_loop env cfg x r c sh n i fs p e = Inr ((p', n'), e') \<Longrightarrow> n' \<le> max n 0 \<and> min n 0 \<le> n'"
proof (induction fs arbitrary: i p e)
  case (Cons f fs)
  from encoder_loop_cases [OF Cons.prems] Cons.IH show ?case by blast
qed simp

lemma try_schedule_tokens:
  assumes "try_schedule_encoder_inputs env rid c n b sh s = Inr ((encs, n', b', exts), s')"
  shows "n' \<le> max n 0 \<and> min n 0 \<le> n'"
  using assms encoder_loop_tokens by (fastforce simp: try_schedule_encoder_inputs_def bindR_eq_Inr Let_def split: if_split_asm)

lemma mamba_split_tokens:
  assumes "mamba_block_aligned_split cfg r n a b = Inr n'" "0 < cfg_cache_block_size cfg"
  shows "n' \<le> n \<and> (0 \<le> n \<longrightarrow> 0 \<le> n')"
proof -
  have "k div d * d \<le> k" if "0 < d" for k d :: int
    using that minus_mod_eq_div_mult [of k d] pos_mod_sign [of d k] by linarith
  moreover have "0 \<le> k div d * d" if "0 < d" "0 \<le> k" for k d :: int
    using that by (simp add: pos_imp_zdiv_nonneg_iff)
  ultimately show ?thesis using assms by (auto simp: mamba_block_aligned_split_def Let_def bindR_eq_Inr split: if_split_asm)
qed

text \<open>
  A running request is not ahead of its tokens, and below the maximal length: there is something to compute for
  it, or nothing.
\<close>

definition lag_ok :: "sched_config \<Rightarrow> request \<Rightarrow> bool" where
  "lag_ok cfg r \<longleftrightarrow> num_computed_tokens r \<le> num_tokens_with_spec r + num_output_placeholders r
     \<and> num_computed_tokens r < cfg_max_model_len cfg"

definition split_ok :: "sched_config \<Rightarrow> bool" where
  "split_ok cfg \<longleftrightarrow> (cfg_need_mamba_block_aligned_split cfg \<longrightarrow> 0 < cfg_cache_block_size cfg)"

lemma running_tokens_bounds:
  "lag_ok cfg r \<Longrightarrow> 0 \<le> b \<Longrightarrow> 0 \<le> running_tokens cfg b r \<and> running_tokens cfg b r \<le> b"
  by (auto simp: running_tokens_def lag_ok_def capped_def)

lemma plan_running_tokens:
  assumes "plan_running env rid s l = Inr ((n, encs, exts, b), s1)" and "0 \<le> l_budget l"
    and "split_ok (s_config s)" and "lag_ok (s_config s) (s_store s rid)"
  shows "0 \<le> n" "n \<le> l_budget l"
proof -
  let ?r = "s_store s rid" and ?cfg = "s_config s"
  define m where "m = running_tokens ?cfg (l_budget l) ?r"
  have m: "0 \<le> m" "m \<le> l_budget l" using running_tokens_bounds [OF assms(4,2)] by (simp_all add: m_def)
  obtain n1 where n1: "(if has_encoder_inputs ?r
      then try_schedule_encoder_inputs env rid (num_computed_tokens ?r) m (l_enc_budget l) (if cfg_use_eagle ?cfg then 1 else 0) s
      else Inr (([], m, l_enc_budget l, []), s)) = Inr ((encs, n1, b, exts), s1)"
    and n: "(if cfg_need_mamba_block_aligned_split ?cfg then mamba_block_aligned_split ?cfg ?r n1 0 0 else Inr n1) = Inr n"
    using assms(1) unfolding m_def by (auto simp: plan_running_def bindR_eq_Inr Let_def)
  have "n1 \<le> max m 0 \<and> min m 0 \<le> n1" using n1 try_schedule_tokens by (fastforce split: if_split_asm)
  moreover have "n \<le> n1 \<and> (0 \<le> n1 \<longrightarrow> 0 \<le> n)"
    using n assms(3) mamba_split_tokens by (auto simp: split_ok_def split: if_split_asm)
  ultimately show "0 \<le> n" "n \<le> l_budget l" using m by linarith+
qed

lemma plan_waiting_tokens:
  assumes "plan_waiting env rid lk s l = Inr (Some (n, encs, exts, b), s1)" and "0 \<le> l_budget l" and "split_ok (s_config s)"
  shows "0 \<le> n" "n \<le> l_budget l" "\<not> lk_async lk \<Longrightarrow> 0 < n"
proof -
  have new: "0 \<le> m \<and> m \<le> l_budget l \<and> (\<not> lk_async lk \<longrightarrow> 0 < m)"
    if "plan_new_tokens env rid lk s l = Inr (Some (m, encs, exts, b), s1)" for m
  proof -
    have t: "0 \<le> m \<and> m \<le> l_budget l" if "try_schedule_encoder_inputs env rid c k bd sh s = Inr ((encs, m, b, exts), s1)"
      "k \<le> l_budget l" "0 < k" for c k bd sh using try_schedule_tokens [OF that(1)] that(2,3) assms(2) by linarith
    show ?thesis
      using that assms(2) by (auto simp: plan_new_tokens_def Let_def bindR_eq_Inr split: if_split_asm dest: t)
  qed
  obtain pl s2 where p: "plan_new_tokens env rid lk s l = Inr (pl, s2)" using assms(1) by (auto simp: plan_waiting_def bindR_eq_Inr)
  then obtain m where m: "pl = Some (m, encs, exts, b)" "s2 = s1"
    and n: "(if cfg_need_mamba_block_aligned_split (s_config s)
      then mamba_block_aligned_split (s_config s) (s_store s1 rid) m (lk_local lk) (lk_external lk) else Inr m) = Inr n"
      "cfg_need_mamba_block_aligned_split (s_config s) \<Longrightarrow> n \<noteq> 0"
    using assms(1) by (cases pl) (auto simp: plan_waiting_def bindR_eq_Inr split: if_split_asm)
  have m1: "0 \<le> m \<and> m \<le> l_budget l \<and> (\<not> lk_async lk \<longrightarrow> 0 < m)" using new p m by simp
  have n1: "n \<le> m \<and> (0 \<le> m \<longrightarrow> 0 \<le> n)" using n(1) assms(3) mamba_split_tokens by (auto simp: split_ok_def split: if_split_asm)
  show "0 \<le> n" "n \<le> l_budget l" using m1 n1 by linarith+
  show "0 < n" if "\<not> lk_async lk"
    using m1 n1 n that by (cases "cfg_need_mamba_block_aligned_split (s_config s)") auto
qed

subsection \<open>The invariant of a step\<close>

text \<open>
  \<open>M\<close> is the bag of the requests in the running list and the queues, the queue of the requests skipped in
  this step included; \<open>B\<close> is the budget of the step.
\<close>

definition all_ids :: "'x scheduler \<Rightarrow> string multiset" where
  "all_ids s = mset (s_running s) + queue_bag (s_waiting s) + queue_bag (s_skipped s)"

definition tokens_of :: "(string \<times> int) list \<Rightarrow> int" where
  "tokens_of d = sum_list (map snd d)"

definition step_ok :: "int \<Rightarrow> string multiset \<Rightarrow> sched_config \<Rightarrow> 'x scheduler \<Rightarrow> step_locals \<Rightarrow> bool" where
  "step_ok B M cfg s l \<longleftrightarrow>
     all_ids s + queue_bag (l_skipped l) = M \<and> s_config s = cfg
     \<and> l_budget l + tokens_of (l_num l) = B \<and> 0 \<le> l_budget l \<and> distinct (map fst (l_num l))
     \<and> (\<forall>x \<in> set (l_num l). 0 < snd x)
     \<and> mset (map fst (l_num l)) = mset (l_new l) + mset (l_resumed l) + mset (l_running l)
     \<and> set (map fst (l_num l)) \<subseteq> set (s_running s)"

definition no_duplicates :: "string multiset \<Rightarrow> bool" where
  "no_duplicates M \<longleftrightarrow> (\<forall>x. count M x \<le> 1)"

lemma tokens_of_delete:
  assumes "distinct (map fst d)" "map_of d k = Some n"
  shows "tokens_of (AList.delete k d) = tokens_of d - n"
  using assms
proof (induction d)
  case (Cons a d)
  show ?case
  proof (cases "fst a = k")
    case True
    then have "k \<notin> fst ` set d" using Cons.prems(1) by auto
    then have "AList.delete k d = d" by (rule AList.delete_id)
    then show ?thesis using True Cons.prems(2) by (cases a) (simp add: tokens_of_def AList.delete_eq)
  next
    case False
    then show ?thesis using Cons by (cases a) (auto simp: tokens_of_def AList.delete_eq)
  qed
qed simp

lemma update_new: "k \<notin> fst ` set d \<Longrightarrow> AList.update k v d = d @ [(k, v)]"
  by (induction d) auto

lemma keys_delete_mset: "distinct (map fst d) \<Longrightarrow> k \<in> fst ` set d \<Longrightarrow> mset (map fst (AList.delete k d)) = mset (map fst d) - {#k#}"
  by (metis delete_keys distinct_remove1_removeAll list.set_map mset_remove1 filter_distinct_remove1 removeAll_filter_not_eq)

lemma running_distinct:
  assumes "step_ok B M cfg s l" "no_duplicates M"
  shows "distinct (s_running s)"
proof -
  have "count (mset (s_running s)) x \<le> 1" for x
  proof -
    have "count (mset (s_running s)) x \<le> count M x" using assms(1) by (auto simp: step_ok_def all_ids_def)
    with assms(2) show ?thesis by (metis le_trans no_duplicates_def)
  qed
  then show ?thesis by (simp add: distinct_count_atmost_1 le_Suc_eq count_mset_0_iff)
qed

subsection \<open>The running pass\<close>

text \<open>During the running pass everything scheduled lies before the cursor \<open>i\<close>.\<close>

definition run_ok :: "int \<Rightarrow> string multiset \<Rightarrow> sched_config \<Rightarrow> int \<Rightarrow> 'x scheduler \<Rightarrow> step_locals \<Rightarrow> bool" where
  "run_ok B M cfg i s l \<longleftrightarrow> step_ok B M cfg s l \<and> no_duplicates M \<and> l_new l = [] \<and> l_resumed l = [] \<and> 0 \<le> i
     \<and> set (l_running l) \<subseteq> set (take (nat i) (s_running s)) \<and> queue_items (l_skipped l) = []
     \<and> int (length (s_running s)) \<le> cfg_max_num_running_reqs cfg
     \<and> (\<forall>rid \<in> set (s_running s) - set (l_running l). lag_ok cfg (s_store s rid))"

text \<open>
  The request being scheduled is still running, not after the cursor; without priorities it is the one under
  the cursor.
\<close>

definition at_cursor :: "string \<Rightarrow> int \<Rightarrow> 'x scheduler \<Rightarrow> bool" where
  "at_cursor rid i s \<longleftrightarrow> rid \<in> set (take (Suc (nat i)) (s_running s))
     \<and> (cfg_policy (s_config s) \<noteq> PRIORITY \<longrightarrow> nat i < length (s_running s) \<and> s_running s ! nat i = rid)"

lemma take_remove1:
  "set (take n xs) - {v} \<subseteq> set (take n (remove1 v xs))"
  "v \<in> set (take n xs) \<Longrightarrow> set (take n xs) - {v} \<subseteq> set (take (n - 1) (remove1 v xs))"
proof -
  show early: "set (take n xs) - {v} \<subseteq> set (take (n - 1) (remove1 v xs))" if v: "v \<in> set (take n xs)"
  proof -
    have "remove1 v (take n xs @ drop n xs) = remove1 v (take n xs) @ drop n xs" using v by (simp only: remove1_append if_True)
    then have "remove1 v xs = remove1 v (take n xs) @ drop n xs" by simp
    moreover have "length (remove1 v (take n xs)) \<le> n - 1" using v by (simp add: length_remove1)
    ultimately have "set (remove1 v (take n xs)) \<subseteq> set (take (n - 1) (remove1 v xs))"
      by (simp add: take_append subset_iff)
    moreover have "set (take n xs) - {v} \<subseteq> set (remove1 v (take n xs))" using in_set_remove1 [of _ v "take n xs"] by blast
    ultimately show ?thesis by blast
  qed
  show "set (take n xs) - {v} \<subseteq> set (take n (remove1 v xs))"
  proof (cases "v \<in> set (take n xs)")
    case True
    have "set (take (n - 1) (remove1 v xs)) \<subseteq> set (take n (remove1 v xs))" by (rule set_take_subset_set_take) simp
    with early [OF True] show ?thesis by blast
  next
    case False
    then have "remove1 v (take n xs @ drop n xs) = take n xs @ remove1 v (drop n xs)" by (simp only: remove1_append if_False)
    then have "remove1 v xs = take n xs @ remove1 v (drop n xs)" by simp
    then have "set (take n xs) \<subseteq> set (take n (remove1 v xs))" by (simp add: take_append subset_iff)
    then show ?thesis by blast
  qed
qed

lemma preempt_request_ids:
  assumes "preempt_request v s = Inr s'"
  shows "all_ids s' = add_mset v (all_ids s)"
  using assms by (auto simp: preempt_request_def bindR_eq_Inr Let_def upd_def all_ids_def)

lemma unschedule_spec:
  assumes "unschedule v r l = Inr l'"
  shows "\<exists>n. map_of (l_num l) v = Some n \<and> l_num l' = AList.delete v (l_num l) \<and> l_budget l' = l_budget l + n"
    "l_running l' = remove1 v (l_running l)" "l_new l' = l_new l" "l_resumed l' = l_resumed l" "l_skipped l' = l_skipped l"
  using assms by (auto simp: unschedule_def dict_pop_def bindR_eq_Inr Let_def split: option.split_asm)

lemma butlast_remove1: "distinct xs \<Longrightarrow> xs \<noteq> [] \<Longrightarrow> butlast xs = remove1 (last xs) xs"
  by (induction xs rule: rev_induct) (simp_all add: remove1_append)

lemma pick_victim_cases:
  assumes "pick_victim i s l = Inr (v, i', s2, l2)" "distinct (s_running s)"
  shows "v \<in> set (s_running s)" "s2 = s\<lparr>s_running := remove1 v (s_running s)\<rparr>"
    "(cfg_policy (s_config s) = PRIORITY \<and> v \<in> set (l_running l) \<and> unschedule v (s_store s v) l = Inr l2 \<and> i' = i - 1)
     \<or> (cfg_policy (s_config s) = PRIORITY \<and> v \<notin> set (l_running l) \<and> l2 = l \<and> i' = i)
     \<or> (cfg_policy (s_config s) \<noteq> PRIORITY \<and> v = last (s_running s) \<and> l2 = l \<and> i' = i)"
proof -
  show "v \<in> set (s_running s)" by (rule pick_victim_running(1) [OF assms(1)])
  show "s2 = s\<lparr>s_running := remove1 v (s_running s)\<rparr>"
    using assms butlast_remove1 [OF assms(2)] by (auto simp: pick_victim_def bindR_eq_Inr Let_def split: if_split_asm)
  show "(cfg_policy (s_config s) = PRIORITY \<and> v \<in> set (l_running l) \<and> unschedule v (s_store s v) l = Inr l2 \<and> i' = i - 1)
     \<or> (cfg_policy (s_config s) = PRIORITY \<and> v \<notin> set (l_running l) \<and> l2 = l \<and> i' = i)
     \<or> (cfg_policy (s_config s) \<noteq> PRIORITY \<and> v = last (s_running s) \<and> l2 = l \<and> i' = i)"
    using assms(1) by (auto simp: pick_victim_def bindR_eq_Inr Let_def split: if_split_asm)
qed

text \<open>What the choice of a victim leaves scheduled: the same tokens, less those of the victim.\<close>

lemma unscheduled_ok:
  assumes st: "step_ok B M cfg s l" and l: "l_new l = []" "l_resumed l = []"
    and l2: "(v \<in> set (l_running l) \<and> unschedule v r l = Inr l2) \<or> (v \<notin> set (l_running l) \<and> l2 = l)"
  shows "l_budget l2 + tokens_of (l_num l2) = B" "0 \<le> l_budget l2" "distinct (map fst (l_num l2))"
    "\<forall>x \<in> set (l_num l2). 0 < snd x" "mset (map fst (l_num l2)) = mset (l_running l2)"
    "l_new l2 = []" "l_resumed l2 = []" "l_skipped l2 = l_skipped l" "set (l_running l2) = set (l_running l) - {v}"
proof -
  have keys: "mset (map fst (l_num l)) = mset (l_running l)" and dn: "distinct (map fst (l_num l))"
    and b: "l_budget l + tokens_of (l_num l) = B" "0 \<le> l_budget l" "\<forall>x \<in> set (l_num l). 0 < snd x"
    using st l by (simp_all add: step_ok_def)
  have dr: "distinct (l_running l)" using dn mset_eq_imp_distinct_iff [OF keys] by simp
  from l2 have "l_budget l2 + tokens_of (l_num l2) = B \<and> 0 \<le> l_budget l2 \<and> distinct (map fst (l_num l2))
    \<and> (\<forall>x \<in> set (l_num l2). 0 < snd x) \<and> mset (map fst (l_num l2)) = mset (l_running l2)
    \<and> l_new l2 = [] \<and> l_resumed l2 = [] \<and> l_skipped l2 = l_skipped l \<and> set (l_running l2) = set (l_running l) - {v}"
  proof
    assume a: "v \<in> set (l_running l) \<and> unschedule v r l = Inr l2"
    obtain n where n: "map_of (l_num l) v = Some n" "l_num l2 = AList.delete v (l_num l)" "l_budget l2 = l_budget l + n"
      using unschedule_spec(1) a by blast
    have "v \<in> fst ` set (l_num l)" using n(1) by (metis map_of_eq_None_iff option.distinct(1))
    then have "mset (map fst (l_num l2)) = mset (remove1 v (l_running l))" using n(2) keys_delete_mset [OF dn] keys by simp
    moreover have "0 < n" using b(3) map_of_SomeD [OF n(1)] by auto
    moreover have "\<forall>x \<in> set (l_num l2). 0 < snd x" using b(3) by (auto simp: n(2) AList.delete_eq)
    ultimately show ?thesis
      using n b tokens_of_delete [OF dn n(1)] dn dr unschedule_spec [of v r l l2] a l by simp
  qed (use b dn keys l in auto)
  then show "l_budget l2 + tokens_of (l_num l2) = B" "0 \<le> l_budget l2" "distinct (map fst (l_num l2))"
    "\<forall>x \<in> set (l_num l2). 0 < snd x" "mset (map fst (l_num l2)) = mset (l_running l2)"
    "l_new l2 = []" "l_resumed l2 = []" "l_skipped l2 = l_skipped l" "set (l_running l2) = set (l_running l) - {v}" by simp_all
qed

lemma preempt_request_store:
  "preempt_request v s = Inr s' \<Longrightarrow> rid \<noteq> v \<Longrightarrow> s_store s' rid = s_store s rid"
  by (auto simp: preempt_request_def bindR_eq_Inr Let_def upd_def)

lemma preempted_ok:
  assumes ok: "run_ok B M cfg i s l" and at: "at_cursor rid i s"
    and pick: "pick_victim i s l = Inr (v, i', s2, l2)" and pre: "preempt_request v s2 = Inr s3"
  shows "run_ok B M cfg i' s3 (l2\<lparr>l_preempted := ps\<rparr>)" "v \<noteq> rid \<Longrightarrow> at_cursor rid i' s3"
    "set (l_running l2) \<subseteq> set (l_running l)"
proof -
  note st = ok [unfolded run_ok_def] and k = preempt_request_keeps [OF pre]
  have so: "step_ok B M cfg s l" and ln: "l_new l = []" "l_resumed l = []" and nd: "no_duplicates M" and i0: "0 \<le> i"
    and before: "set (l_running l) \<subseteq> set (take (nat i) (s_running s))" and sk: "queue_items (l_skipped l) = []"
    and room: "int (length (s_running s)) \<le> cfg_max_num_running_reqs cfg"
    and lag: "\<forall>rid \<in> set (s_running s) - set (l_running l). lag_ok cfg (s_store s rid)"
    using st by simp_all
  have dist: "distinct (s_running s)" using running_distinct [OF so nd] .
  note pv = pick_victim_cases [OF pick dist]
  have l2: "(v \<in> set (l_running l) \<and> unschedule v (s_store s v) l = Inr l2) \<or> (v \<notin> set (l_running l) \<and> l2 = l)"
  proof (cases "cfg_policy (s_config s) = PRIORITY")
    case True
    then show ?thesis using pv(3) by blast
  next
    case False
    then have v: "v = last (s_running s)" "l2 = l" using pv(3) by blast+
    have i: "nat i < length (s_running s)" using at False by (simp add: at_cursor_def)
    have "last (s_running s) \<notin> set (take (nat i) (s_running s))"
    proof
      assume "last (s_running s) \<in> set (take (nat i) (s_running s))"
      then obtain j where "j < nat i" "s_running s ! j = s_running s ! (length (s_running s) - 1)"
        using i last_conv_nth [of "s_running s"] by (fastforce simp: in_set_conv_nth)
      with dist i show False by (auto simp: nth_eq_iff_index_eq)
    qed
    then show ?thesis using v before by blast
  qed
  note u = unscheduled_ok [OF so ln l2]
  have run3: "s_running s3 = remove1 v (s_running s)" using k(1) pv(2) by simp
  have ids: "all_ids s3 = all_ids s"
  proof -
    have "all_ids s = add_mset v (all_ids s2)" using pv(1,2) by (simp add: all_ids_def)
    with preempt_request_ids [OF pre] show ?thesis by simp
  qed
  have keyset: "set (map fst (l_num l2)) = set (l_running l2)" by (rule mset_eq_setD [OF u(5)])
  have sub: "set (l_running l2) \<subseteq> set (s_running s3)"
  proof -
    have "set (l_running l) \<subseteq> set (s_running s)" using before set_take_subset by (rule subset_trans)
    then have "set (l_running l2) \<subseteq> set (s_running s) - {v}" using u(9) by blast
    then show ?thesis using run3 dist by simp
  qed
  have i': "0 \<le> i'" "set (l_running l2) \<subseteq> set (take (nat i') (s_running s3))"
  proof -
    consider (dec) "v \<in> set (l_running l)" "i' = i - 1" | (same) "i' = i" using pv(3) by blast
    then have "0 \<le> i' \<and> set (l_running l2) \<subseteq> set (take (nat i') (s_running s3))"
    proof cases
      case dec
      then have v: "v \<in> set (take (nat i) (s_running s))" using before by blast
      then have "0 < i" by (cases "nat i") auto
      moreover have "nat i - 1 = nat i'" using dec \<open>0 < i\<close> by simp
      ultimately show ?thesis using take_remove1(2) [OF v] u(9) before run3 dec(2) by auto
    next
      case same
      then show ?thesis using take_remove1(1) [of "nat i" "s_running s" v] u(9) before run3 i0 by auto
    qed
    then show "0 \<le> i'" "set (l_running l2) \<subseteq> set (take (nat i') (s_running s3))" by simp_all
  qed
  have lag3: "\<forall>x \<in> set (s_running s3) - set (l_running l2). lag_ok cfg (s_store s3 x)"
  proof
    fix x assume x: "x \<in> set (s_running s3) - set (l_running l2)"
    then have "x \<noteq> v" "x \<in> set (s_running s)" "x \<notin> set (l_running l)" using run3 dist u(9) by auto
    then show "lag_ok cfg (s_store s3 x)" using lag preempt_request_store [OF pre \<open>x \<noteq> v\<close>] pv(2) by simp
  qed
  show "run_ok B M cfg i' s3 (l2\<lparr>l_preempted := ps\<rparr>)"
    using so nd sk u i' lag3 keyset sub ids k(2) pv(2) room pv(1) by (simp add: run_ok_def step_ok_def run3 length_remove1)
  show "set (l_running l2) \<subseteq> set (l_running l)" using u(9) by auto
  show "at_cursor rid i' s3" if ne: "v \<noteq> rid"
  proof -
    have here: "rid \<in> set (take (Suc (nat i)) (s_running s)) - {v}" using at ne by (simp add: at_cursor_def)
    have pos: "rid \<in> set (take (Suc (nat i')) (s_running s3))"
    proof -
      consider (dec) "v \<in> set (l_running l)" "i' = i - 1" | (same) "i' = i" using pv(3) by blast
      then show ?thesis
      proof cases
        case dec
        then have "v \<in> set (take (nat i) (s_running s))" using before by blast
        then have v: "v \<in> set (take (Suc (nat i)) (s_running s))" using set_take_subset_set_take [of "nat i" "Suc (nat i)" "s_running s"] by auto
        have "Suc (nat i) - 1 = Suc (nat i')" using dec i'(1) by simp
        with take_remove1(2) [OF v] here run3 show ?thesis by auto
      next
        case same
        then show ?thesis using take_remove1(1) [of "Suc (nat i)" "s_running s" v] here run3 by auto
      qed
    qed
    show ?thesis
    proof (cases "cfg_policy (s_config s) = PRIORITY")
      case True
      then show ?thesis using pos k(2) pv(2) by (simp add: at_cursor_def)
    next
      case False
      then have v: "v = last (s_running s)" "i' = i" using pv(3) by blast+
      have i: "nat i < length (s_running s)" "s_running s ! nat i = rid" using at False by (simp_all add: at_cursor_def)
      have bl: "remove1 v (s_running s) = butlast (s_running s)" using v(1) dist i butlast_remove1 by (metis list.size(3) not_less_zero)
      have "nat i \<noteq> length (s_running s) - 1" using i v ne by (metis last_conv_nth list.size(3) not_less_zero)
      then have "nat i < length (butlast (s_running s))" using i by simp
      then show ?thesis using i v run3 bl pos by (simp add: at_cursor_def nth_butlast)
    qed
  qed
qed

text \<open>Writing the request after an allocation keeps the invariant, and so do the calls on the caches.\<close>

lemma lag_ok_same [simp]: "same_request r r' \<Longrightarrow> lag_ok cfg r' = lag_ok cfg r"
  by (auto simp: same_request_def lag_ok_def num_tokens_with_spec_def)

lemma run_ok_frame:
  assumes "run_ok B M cfg i s l" "queues_kept s s'"
    and "\<And>rid. rid \<in> set (s_running s) \<Longrightarrow> rid \<notin> set (l_running l) \<Longrightarrow> lag_ok cfg (s_store s rid) \<Longrightarrow> lag_ok cfg (s_store s' rid)"
  shows "run_ok B M cfg i s' l"
  using assms by (auto simp: run_ok_def step_ok_def queues_kept_def all_ids_def)

lemma at_cursor_frame: "at_cursor rid i s \<Longrightarrow> queues_kept s s' \<Longrightarrow> at_cursor rid i s'"
  by (simp add: at_cursor_def queues_kept_def)

lemma run_ok_allocated:
  assumes "run_ok B M cfg i s l" "same_request (s_store s rid) r'"
  shows "run_ok B M cfg i (upd rid (\<lambda>_. r') (s\<lparr>s_kv := k\<rparr>)) l"
proof (rule run_ok_frame [OF assms(1)])
  show "queues_kept s (upd rid (\<lambda>_. r') (s\<lparr>s_kv := k\<rparr>))" by (simp add: queues_kept_def upd_def)
qed (use assms(2) in \<open>auto simp: upd_def\<close>)

lemma preempt_loop_ok:
  "preempt_loop env rid n i s l = Inr (out, i', s', l') \<Longrightarrow> run_ok B M cfg i s l \<Longrightarrow> at_cursor rid i s \<Longrightarrow>
   run_ok B M cfg i' s' l' \<and> set (l_running l') \<subseteq> set (l_running l) \<and> (out \<noteq> None \<longrightarrow> at_cursor rid i' s')
   \<and> l_budget l \<le> l_budget l'"
proof (induction env rid n i s l arbitrary: out i' s' l' rule: preempt_loop.induct)
  case (1 env rid n i s l)
  note run = "1.prems"(1) and ok = "1.prems"(2) and at = "1.prems"(3)
  obtain o1 r' k where a: "allocate_slots (env_hash env) (s_store s rid) n 0 None (cfg_num_lookahead_tokens (s_config s))
      0 False 0 (s_kv s) = Inr (o1, r', k)"
    using run by (auto simp: preempt_loop.simps [of env rid n i s l] bindR_eq_Inr)
  let ?s1 = "upd rid (\<lambda>_. r') (s\<lparr>s_kv := k\<rparr>)"
  have ok1: "run_ok B M cfg i ?s1 l" by (rule run_ok_allocated [OF ok allocate_slots_same_request [OF a]])
  have at1: "at_cursor rid i ?s1" by (rule at_cursor_frame [OF at]) (simp add: queues_kept_def upd_def)
  show ?case
  proof (cases o1)
    case (Some b)
    then show ?thesis using run a ok1 at1 by (simp add: preempt_loop.simps [of env rid n i s l] Let_def)
  next
    case None
    obtain v i2 s2 l2 s3 where b: "pick_victim i ?s1 l = Inr (v, i2, s2, l2)" "preempt_request v s2 = Inr s3"
      and c: "(if v = rid then Inr (None, i2, s3, l2\<lparr>l_preempted := l_preempted l2 @ [v]\<rparr>)
        else preempt_loop env rid n i2 s3 (l2\<lparr>l_preempted := l_preempted l2 @ [v]\<rparr>)) = Inr (out, i', s', l')"
      using run None a by (auto simp: preempt_loop.simps [of env rid n i s l] bindR_eq_Inr Let_def)
    note p = preempted_ok [OF ok1 at1 b]
    have bud: "l_budget l \<le> l_budget l2"
    proof -
      have so: "step_ok B M cfg ?s1 l" "no_duplicates M" using ok1 by (simp_all add: run_ok_def)
      have d: "distinct (s_running ?s1)" by (rule running_distinct [OF so])
      have pos: "\<forall>x \<in> set (l_num l). 0 < snd x" using so by (simp add: step_ok_def)
      from pick_victim_cases(3) [OF b(1) d] have "l2 = l \<or> unschedule v (s_store ?s1 v) l = Inr l2" by blast
      then show ?thesis using unschedule_spec(1) [of v _ l l2] pos map_of_SomeD by fastforce
    qed
    show ?thesis
    proof (cases "v = rid")
      case True
      then show ?thesis using c p(1,3) bud by auto
    next
      case False
      have rec: "preempt_loop env rid n i2 s3 (l2\<lparr>l_preempted := l_preempted l2 @ [v]\<rparr>) = Inr (out, i', s', l')"
        using c False by simp
      note "1.IH" [OF a refl refl refl None b(1) refl refl refl b(2) refl False rec p(1) p(2) [OF False]]
      then show ?thesis using p(3) bud by auto
    qed
  qed
qed

lemma commit_running_ok:
  assumes run: "commit_running env rid n b encs exts budget s l = Inr (s', l')" and ok: "run_ok B M cfg i s l"
    and at: "at_cursor rid i s" and new: "rid \<notin> set (l_running l)" and n: "0 < n" "n \<le> l_budget l"
  shows "run_ok B M cfg (i + 1) s' l'"
proof -
  obtain e x where s': "s' = (upd rid (\<lambda>r. r\<lparr>spec_token_ids := []\<rparr>) s)\<lparr>s_enc := e, s_ext := x\<rparr>"
    using commit_encoder_inputs_keep(1) [OF run [unfolded commit_running_def Let_def]] by blast
  obtain d bd where l': "l' = l\<lparr>l_running := l_running l @ [rid], l_blocks := AList.update rid b (l_blocks l),
      l_num := AList.update rid n (l_num l), l_budget := l_budget l - n,
      l_spec := (case scheduled_spec n (s_store s rid) of None \<Rightarrow> l_spec l | Some ts \<Rightarrow> AList.update rid ts (l_spec l)),
      l_enc_inputs := d, l_enc_budget := bd\<rparr>"
    using commit_encoder_inputs_keep(2) [OF run [unfolded commit_running_def Let_def]] by auto
  have so: "step_ok B M cfg s l" and ln: "l_new l = []" "l_resumed l = []" and i0: "0 \<le> i"
    and before: "set (l_running l) \<subseteq> set (take (nat i) (s_running s))"
    using ok by (simp_all add: run_ok_def)
  have keys: "mset (map fst (l_num l)) = mset (l_running l)" using so ln by (simp add: step_ok_def)
  have "rid \<notin> fst ` set (l_num l)" using new mset_eq_setD [OF keys] by simp
  then have num: "l_num l' = l_num l @ [(rid, n)]" "rid \<notin> set (map fst (l_num l))" by (simp_all add: l' update_new)
  have run': "s_running s' = s_running s" "all_ids s' = all_ids s" "s_config s' = s_config s" by (simp_all add: s' upd_def all_ids_def)
  have rid: "rid \<in> set (take (nat (i + 1)) (s_running s))" using at i0 by (simp add: at_cursor_def nat_add_distrib)
  have "step_ok B M cfg s' l'"
    using so num keys ln n rid run' by (auto simp: step_ok_def tokens_of_def l' dest: in_set_takeD)
  moreover have "set (l_running l') \<subseteq> set (take (nat (i + 1)) (s_running s'))"
  proof -
    have "set (take (nat i) (s_running s)) \<subseteq> set (take (nat (i + 1)) (s_running s))" by (rule set_take_subset_set_take) simp
    then show ?thesis using before rid by (auto simp: l' run'(1))
  qed
  moreover have "\<forall>x \<in> set (s_running s') - set (l_running l'). lag_ok cfg (s_store s' x)"
    using ok by (auto simp: run_ok_def l' s' upd_def)
  ultimately show ?thesis using ok i0 ln run'(1) unfolding run_ok_def by (simp add: l')
qed

lemma running_step_ok:
  assumes run: "running_step env i s l = Inr f" and ok: "run_ok B M cfg i s l" and i: "i < int (length (s_running s))"
    and split: "split_ok cfg"
  shows "case f of Continue (i', s', l') \<Rightarrow> run_ok B M cfg i' s' l' | Break (i', s', l') \<Rightarrow> run_ok B M cfg i' s' l'"
proof -
  have so: "step_ok B M cfg s l" and i0: "0 \<le> i" and nd: "no_duplicates M"
    and before: "set (l_running l) \<subseteq> set (take (nat i) (s_running s))"
    and lag: "\<forall>rid \<in> set (s_running s) - set (l_running l). lag_ok cfg (s_store s rid)"
    using ok by (simp_all add: run_ok_def)
  have cfg: "s_config s = cfg" and bud: "0 \<le> l_budget l" using so by (simp_all add: step_ok_def)
  let ?rid = "s_running s ! nat i"
  have len: "nat i < length (s_running s)" using i i0 by simp
  have p: "py_nth (s_running s) i = Inr ?rid" using i0 len by simp
  have at: "at_cursor ?rid i s" using len by (simp add: at_cursor_def take_Suc_conv_app_nth)
  have new: "?rid \<notin> set (l_running l)"
  proof
    assume "?rid \<in> set (l_running l)"
    then have "?rid \<in> set (take (nat i) (s_running s))" using before by blast
    then obtain j where "j < nat i" "s_running s ! j = ?rid" by (auto simp: in_set_conv_nth)
    then show False using running_distinct [OF so nd] len by (simp add: nth_eq_iff_index_eq)
  qed
  have next_ok: "run_ok B M cfg (i + 1) s l"
  proof -
    have "set (take (nat i) (s_running s)) \<subseteq> set (take (nat (i + 1)) (s_running s))" by (rule set_take_subset_set_take) simp
    then show ?thesis using ok i0 unfolding run_ok_def by auto
  qed
  show ?thesis
  proof (cases "surely_done (s_store s ?rid)")
    case True
    then show ?thesis using run p next_ok by (auto simp: running_step_def)
  next
    case False
    obtain n encs exts budget s1 where pl: "plan_running env ?rid s l = Inr ((n, encs, exts, budget), s1)"
      using run p False by (auto simp: running_step_def bindR_eq_Inr)
    have kept: "queues_kept s s1" "s_store s1 = s_store s" using plan_running_keeps [OF pl] by auto
    have tok: "0 \<le> n" "n \<le> l_budget l"
      using plan_running_tokens [OF pl bud] split lag new len by (simp_all add: cfg)
    show ?thesis
    proof (cases "n = 0")
      case True
      have "run_ok B M cfg (i + 1) s1 l" by (rule run_ok_frame [OF next_ok kept(1)]) (simp add: kept(2))
      then show ?thesis using run p False pl True by (auto simp: running_step_def)
    next
      case n: False
      obtain out i2 s2 l2 where q: "preempt_loop env ?rid n i s1 l = Inr (out, i2, s2, l2)"
        using run p False pl n by (auto simp: running_step_def bindR_eq_Inr)
      have ok1: "run_ok B M cfg i s1 l" by (rule run_ok_frame [OF ok kept(1)]) (simp add: kept(2))
      note po = preempt_loop_ok [OF q ok1 at_cursor_frame [OF at kept(1)]]
      show ?thesis
      proof (cases out)
        case None
        then show ?thesis using run p False pl n q po by (auto simp: running_step_def)
      next
        case (Some b)
        obtain s3 l3 where c: "commit_running env ?rid n b encs exts budget s2 l2 = Inr (s3, l3)" "f = Continue (i2 + 1, s3, l3)"
          using run p False pl n q Some by (auto simp: running_step_def bindR_eq_Inr)
        have "run_ok B M cfg (i2 + 1) s3 l3"
          by (rule commit_running_ok [OF c(1)]) (use po Some new tok n in auto)
        then show ?thesis using c(2) by simp
      qed
    qed
  qed
qed

lemma running_loop_ok:
  "running_loop env i s l = Inr (s', l') \<Longrightarrow> run_ok B M cfg i s l \<Longrightarrow> split_ok cfg \<Longrightarrow> \<exists>j. run_ok B M cfg j s' l'"
proof (induction env i s l arbitrary: s' l' rule: running_loop.induct)
  case (1 env i s l)
  show ?case
  proof (cases "i < int (length (s_running s)) \<and> l_budget l > 0")
    case False
    then show ?thesis using "1.prems" by (auto simp: running_loop.simps [of env i s l])
  next
    case True
    obtain f where f: "running_step env i s l = Inr f"
      "(case f of Continue (i', s', l') \<Rightarrow> running_loop env i' s' l' | Break (_, s', l') \<Rightarrow> Inr (s', l')) = Inr (s', l')"
      using "1.prems"(1) True unfolding running_loop.simps [of env i s l] if_P [OF True] bindR_eq_Inr by blast
    note ok = running_step_ok [OF f(1) "1.prems"(2) _ "1.prems"(3)]
    show ?thesis
    proof (cases f)
      case (Continue isl)
      obtain i1 s1 l1 where isl: "isl = (i1, s1, l1)" by (cases isl) auto
      show ?thesis
        by (rule "1.IH" [OF True f(1) Continue isl [symmetric] refl]) (use f(2) Continue isl ok True "1.prems"(3) in auto)
    next
      case (Break isl)
      then show ?thesis using f(2) ok True by (cases isl) auto
    qed
  qed
qed

subsection \<open>The waiting pass\<close>

definition wait_ok :: "int \<Rightarrow> string multiset \<Rightarrow> sched_config \<Rightarrow> 'x scheduler \<Rightarrow> step_locals \<Rightarrow> bool" where
  "wait_ok B M cfg s l \<longleftrightarrow> step_ok B M cfg s l \<and> no_duplicates M
     \<and> int (length (s_running s)) \<le> cfg_max_num_running_reqs cfg"

lemma wait_ok_frame: "wait_ok B M cfg s l \<Longrightarrow> queues_kept s s' \<Longrightarrow> wait_ok B M cfg s' l"
  by (simp add: wait_ok_def step_ok_def queues_kept_def all_ids_def)

lemma set_queue_fields [simp]:
  "s_running (set_queue w q s) = s_running s" "s_config (set_queue w q s) = s_config s" "s_store (set_queue w q s) = s_store s"
  by (cases w; simp add: set_queue_def)+

lemma popped_ids:
  assumes "pop_request st (queue_of w s) = Inr (rid, q)"
  shows "all_ids s = add_mset rid (all_ids (set_queue w q s))"
  using pop_request_bag(2) [OF assms] by (cases w) (simp_all add: queue_of_def set_queue_def all_ids_def)

text \<open>A request at the front of a queue is not running, since no request is listed twice.\<close>

lemma popped_not_running:
  assumes "wait_ok B M cfg s l" "pop_request st (queue_of w s) = Inr (rid, q)"
  shows "rid \<notin> set (s_running s)"
proof
  assume "rid \<in> set (s_running s)"
  then have "1 \<le> count (all_ids (set_queue w q s)) rid" by (simp add: all_ids_def Suc_le_eq count_greater_zero_iff)
  then have "2 \<le> count (all_ids s) rid" by (simp add: popped_ids [OF assms(2)])
  moreover have "count (all_ids s) rid \<le> count M rid" using assms(1) by (auto simp: wait_ok_def step_ok_def)
  ultimately show False using assms(1) by (metis (no_types) le_trans no_duplicates_def numeral_le_one_iff semiring_norm(69) wait_ok_def)
qed

lemma skip_waiting_ok:
  assumes "skip_waiting w rid s l = Inr (s', l')" "wait_ok B M cfg s l" "peek_request (queue_of w s) = Inr rid"
  shows "wait_ok B M cfg s' l'"
proof -
  obtain x q where q: "pop_request (s_store s) (queue_of w s) = Inr (x, q)" "s' = set_queue w q s"
    "l' = l\<lparr>l_skipped := prepend_request (s_store s) rid (l_skipped l)\<rparr>"
    using assms(1) by (auto simp: skip_waiting_def bindR_eq_Inr)
  have "x = rid" using pop_request_bag(1) [OF q(1)] assms(3) by simp
  with popped_ids [OF q(1)] assms(2) show ?thesis by (simp add: wait_ok_def step_ok_def q(2,3))
qed

lemma start_running_ok:
  assumes run: "start_running env rid lk n encs exts budget (set_queue w q s) l = Inr (s', l')"
    and ok: "wait_ok B M cfg s l" and pop: "pop_request st (queue_of w s) = Inr (rid, q)" and n: "0 < n" "n \<le> l_budget l"
    and room: "int (length (s_running s)) < cfg_max_num_running_reqs cfg"
  shows "wait_ok B M cfg s' l'"
proof -
  have so: "step_ok B M cfg s l" and nd: "no_duplicates M" using ok by (simp_all add: wait_ok_def)
  obtain l1 lo bl s1 where r: "(if status (s_store s rid) = WAITING then Inr (l\<lparr>l_new := l_new l @ [rid]\<rparr>)
      else if status (s_store s rid) = PREEMPTED then Inr (l\<lparr>l_resumed := l_resumed l @ [rid]\<rparr>)
      else Inl RuntimeError) = Inr l1"
    and c: "commit_encoder_inputs env rid encs exts budget s1
      (l1\<lparr>l_loras := lo, l_blocks := bl, l_num := AList.update rid n (l_num l1), l_budget := l_budget l1 - n\<rparr>) = Inr (s', l')"
    using run unfolding start_running_def Let_def bindR_eq_Inr set_queue_fields by blast
  have l1: "l1 = l\<lparr>l_new := l_new l @ [rid]\<rparr> \<or> l1 = l\<lparr>l_resumed := l_resumed l @ [rid]\<rparr>" using r by (auto split: if_split_asm)
  have keys: "rid \<notin> fst ` set (l_num l)" using popped_not_running [OF ok pop] so by (auto simp: step_ok_def)
  obtain d b where l': "l' = l1\<lparr>l_loras := l_loras l', l_blocks := l_blocks l', l_num := AList.update rid n (l_num l1),
      l_budget := l_budget l1 - n, l_enc_inputs := d, l_enc_budget := b\<rparr>"
    using commit_encoder_inputs_keep(2) [OF c] by auto
  note s' = start_running_queues [OF run]
  have ids: "all_ids s' = all_ids s" using popped_ids [OF pop] by (simp add: all_ids_def s')
  have num: "l_num l' = l_num l @ [(rid, n)]" "l_budget l' = l_budget l - n" "l_skipped l' = l_skipped l" "l_running l' = l_running l"
    "mset (l_new l') + mset (l_resumed l') = add_mset rid (mset (l_new l) + mset (l_resumed l))"
    using l1 by (subst l'; auto simp: update_new [OF keys])+
  have "step_ok B M cfg s' l'" using so keys n by (auto simp: step_ok_def num ids s' tokens_of_def)
  then show ?thesis using nd room by (simp add: wait_ok_def s')
qed

lemma await_load_ok:
  assumes "(s', l') = await_load rid lk (set_queue w q s) l" "wait_ok B M cfg s l" "pop_request st (queue_of w s) = Inr (rid, q)"
  shows "wait_ok B M cfg s' l'"
proof -
  have s': "all_ids s' = all_ids (set_queue w q s)" "s_running s' = s_running s" "s_config s' = s_config s"
    using assms(1) by (simp_all add: await_load_def Let_def upd_def all_ids_def)
  obtain st' where l': "l' = l\<lparr>l_skipped := prepend_request st' rid (l_skipped l)\<rparr>" using assms(1) by (auto simp: await_load_def Let_def)
  show ?thesis using assms(2) popped_ids [OF assms(3)] by (simp add: wait_ok_def step_ok_def s' l')
qed

lemma admit_waiting_ok:
  assumes run: "admit_waiting env w rid lk s l = Inr f" and ok: "wait_ok B M cfg s l" and split: "split_ok cfg"
    and room: "int (length (s_running s)) < cfg_max_num_running_reqs cfg"
  shows "case f of Continue (s', l') \<Rightarrow> wait_ok B M cfg s' l' | Break (s', l') \<Rightarrow> wait_ok B M cfg s' l'"
proof (cases f)
  case (Continue sl)
  obtain s' l' where sl: "sl = (s', l')" by (cases sl) auto
  obtain n encs exts budget s1 s2 rid' q where p: "plan_waiting env rid lk s l = Inr (Some (n, encs, exts, budget), s1)"
    and k: "queues_kept s s2"
    and q: "pop_request (s_store (tell_connector env rid lk s2)) (queue_of w (tell_connector env rid lk s2)) = Inr (rid', q)"
    and e: "if lk_async lk then (s', l') = await_load rid' lk (set_queue w q (tell_connector env rid lk s2)) l
       else start_running env rid' lk n encs exts budget (set_queue w q (tell_connector env rid lk s2)) l = Inr (s', l')"
    using admit_waiting_continues [OF run [unfolded Continue sl]] by blast
  let ?s3 = "tell_connector env rid lk s2"
  have k3: "queues_kept s ?s3" by (rule queues_kept_trans [OF k tell_connector_queues])
  have ok3: "wait_ok B M cfg ?s3 l" by (rule wait_ok_frame [OF ok k3])
  have cfg: "s_config s = cfg" "0 \<le> l_budget l" using ok by (simp_all add: wait_ok_def step_ok_def)
  have room3: "int (length (s_running ?s3)) < cfg_max_num_running_reqs cfg" using room k3 by (simp add: queues_kept_def)
  have "wait_ok B M cfg s' l'"
  proof (cases "lk_async lk")
    case True
    then show ?thesis using await_load_ok [OF _ ok3 q] e by simp
  next
    case False
    have n: "0 < n" "n \<le> l_budget l" using plan_waiting_tokens [OF p cfg(2)] split False by (simp_all add: cfg(1))
    show ?thesis using start_running_ok [OF _ ok3 q n room3] e False by simp
  qed
  then show ?thesis by (simp add: Continue sl)
next
  case (Break sl)
  obtain s' where "sl = (s', l)" "queues_kept s s'"
  proof -
    obtain plan s1 where p: "plan_waiting env rid lk s l = Inr (plan, s1)" using run by (auto simp: admit_waiting_def bindR_eq_Inr)
    have k1: "queues_kept s s1" using plan_waiting_keeps [OF p] by auto
    show ?thesis
    proof (cases plan)
      case None
      then show ?thesis using run p Break k1 that by (auto simp: admit_waiting_def)
    next
      case (Some x)
      obtain n encs exts budget where x: "x = (n, encs, exts, budget)" by (cases x) auto
      obtain out s2 where a: "allocate_waiting env rid lk n encs s1 = Inr (out, s2)"
        using run p Some x by (auto simp: admit_waiting_def bindR_eq_Inr)
      have k2: "queues_kept s1 s2" using a by (auto simp: allocate_waiting_def bindR_eq_Inr Let_def queues_kept_def upd_def)
      have k3: "queues_kept s s2" by (rule queues_kept_trans [OF k1 k2])
      then have k4: "queues_kept s (s2\<lparr>s_enc := e\<rparr>)" for e by (rule queues_kept_trans) simp
      show ?thesis
        using run p Some x a Break k3 k4 that
        by (cases out) (auto simp: admit_waiting_def bindR_eq_Inr Let_def split: if_split_asm)
    qed
  qed
  then show ?thesis using wait_ok_frame [OF ok] Break by simp
qed

lemma waiting_step_ok:
  assumes run: "waiting_step env s l = Inr f" and ok: "wait_ok B M cfg s l" and split: "split_ok cfg"
  shows "case f of Continue (s', l') \<Rightarrow> wait_ok B M cfg s' l' | Break (s', l') \<Rightarrow> wait_ok B M cfg s' l'"
  using run
proof (cases rule: waiting_step_cases)
  case full
  then show ?thesis using ok by simp
next
  case (skip w rid s1 s' l')
  have "peek_request (queue_of w s1) = Inr rid" using skip(1,2) by (cases w) (simp_all add: queue_of_def queues_kept_def)
  then show ?thesis using skip_waiting_ok [OF skip(3) wait_ok_frame [OF ok skip(2)]] skip(4) by simp
next
  case (admit w rid s1 lk s2)
  have "int (length (s_running s2)) < cfg_max_num_running_reqs cfg"
    using admit(4,6) ok by (auto simp: wait_ok_def step_ok_def queues_kept_def)
  from admit_waiting_ok [OF admit(5) wait_ok_frame [OF ok admit(4)] split this] show ?thesis .
qed

lemma waiting_loop_ok:
  "waiting_loop env s l = Inr (s', l') \<Longrightarrow> wait_ok B M cfg s l \<Longrightarrow> split_ok cfg \<Longrightarrow> wait_ok B M cfg s' l'"
proof (induction env s l arbitrary: s' l' rule: waiting_loop.induct)
  case (1 env s l)
  show ?case
  proof (cases "(queue_bool (s_waiting s) \<or> queue_bool (s_skipped s)) \<and> l_budget l > 0")
    case False
    then show ?thesis using "1.prems" unfolding waiting_loop.simps [of env s l] if_not_P [OF False] by simp
  next
    case True
    obtain f where f: "waiting_step env s l = Inr f"
      "(case f of Continue (s', l') \<Rightarrow> waiting_loop env s' l' | Break sl \<Rightarrow> Inr sl) = Inr (s', l')"
      using "1.prems"(1) True unfolding waiting_loop.simps [of env s l] if_P [OF True] bindR_eq_Inr by blast
    note ok = waiting_step_ok [OF f(1) "1.prems"(2,3)]
    show ?thesis
    proof (cases f)
      case (Continue sl)
      obtain s1 l1 where sl: "sl = (s1, l1)" by (cases sl) auto
      show ?thesis
        by (rule "1.IH" [OF True f(1) Continue sl [symmetric]]) (use f(2) Continue sl ok "1.prems"(3) in auto)
    next
      case (Break sl)
      then show ?thesis using f(2) ok by auto
    qed
  qed
qed

subsection \<open>The whole step\<close>

lemma no_duplicates_mset [simp]: "no_duplicates (mset xs) \<longleftrightarrow> distinct xs"
  by (auto simp: no_duplicates_def distinct_count_atmost_1 le_Suc_eq count_mset_0_iff)

text \<open>What a step starts from: every request is listed once, and the limits held before.\<close>

definition step_ready :: "'x scheduler \<Rightarrow> bool" where
  "step_ready s \<longleftrightarrow> no_duplicates (all_ids s) \<and> split_ok (s_config s) \<and> 0 \<le> cfg_max_num_scheduled_tokens (s_config s)
     \<and> int (length (s_running s)) \<le> cfg_max_num_running_reqs (s_config s)
     \<and> (\<forall>rid \<in> set (s_running s). lag_ok (s_config s) (s_store s rid))"

lemma create_request_queue_empty [simp]: "queue_items (create_request_queue p) = []"
  by (cases p) (simp_all add: create_request_queue_def)

text \<open>The running pass starts from an empty step, and hands over to the waiting pass.\<close>

lemma initial_locals_ok:
  assumes "step_ready s"
  shows "run_ok (l_budget (initial_locals s)) (all_ids s) (s_config s) 0 (s\<lparr>s_kv := k\<rparr>) (initial_locals s)"
  using assms by (auto simp: step_ready_def run_ok_def step_ok_def initial_locals_def all_ids_def tokens_of_def)

lemma run_ok_wait_ok: "run_ok B M cfg i s l \<Longrightarrow> wait_ok B M cfg s (l\<lparr>l_loras := x\<rparr>)"
  unfolding run_ok_def wait_ok_def step_ok_def by auto

lemma schedule_waiting_ok:
  assumes run: "schedule_waiting env s l = Inr (s', l')" and ok: "wait_ok B M cfg s l" and split: "split_ok cfg"
    and none: "queue_items (l_skipped l) = []"
  shows "all_ids s' = M" "wait_ok B M cfg s' (l'\<lparr>l_skipped := FCFSRequestQueue []\<rparr>)"
proof -
  have "all_ids s' = M \<and> wait_ok B M cfg s' (l'\<lparr>l_skipped := FCFSRequestQueue []\<rparr>)"
  proof (cases "l_preempted l = [] \<and> s_pause_state s = UNPAUSED")
    case False
    then show ?thesis using run ok none unfolding schedule_waiting_def if_not_P [OF False] wait_ok_def step_ok_def by simp
  next
    case True
    obtain s1 where w: "waiting_loop env s l = Inr (s1, l')"
      and s': "s' = (if queue_bool (l_skipped l') then s1\<lparr>s_skipped := prepend_requests (s_store s1) (l_skipped l') (s_skipped s1)\<rparr> else s1)"
      using run True by (auto simp: schedule_waiting_def bindR_eq_Inr)
    have ok1: "wait_ok B M cfg s1 l'" by (rule waiting_loop_ok [OF w ok split])
    have "all_ids s' = all_ids s1 + queue_bag (l_skipped l')" by (simp add: s' all_ids_def)
    then show ?thesis using ok1 s' by (simp add: wait_ok_def step_ok_def)
  qed
  then show "all_ids s' = M" "wait_ok B M cfg s' (l'\<lparr>l_skipped := FCFSRequestQueue []\<rparr>)" by simp_all
qed

lemma schedule_passes_ok:
  assumes run: "schedule_passes env s = Inr (s', l)" and ready: "step_ready s"
  shows "all_ids s' = all_ids s"
    "wait_ok (l_budget (initial_locals s)) (all_ids s) (s_config s) s' (l\<lparr>l_skipped := FCFSRequestQueue []\<rparr>)"
proof -
  let ?B = "l_budget (initial_locals s)"
  obtain s2 l2 x where r: "running_loop env 0 (s\<lparr>s_kv := kv_new_step_starts (s_kv s)\<rparr>) (initial_locals s) = Inr (s2, l2)"
    "schedule_waiting env s2 (l2\<lparr>l_loras := x\<rparr>) = Inr (s', l)"
    using run by (auto simp: schedule_passes_def Let_def bindR_eq_Inr)
  have split: "split_ok (s_config s)" using ready by (simp add: step_ready_def)
  obtain j where j: "run_ok ?B (all_ids s) (s_config s) j s2 l2"
    using running_loop_ok [OF r(1) initial_locals_ok [OF ready] split] by blast
  have none: "queue_items (l_skipped (l2\<lparr>l_loras := x\<rparr>)) = []" using j by (simp add: run_ok_def)
  show "all_ids s' = all_ids s" "wait_ok ?B (all_ids s) (s_config s) s' (l\<lparr>l_skipped := FCFSRequestQueue []\<rparr>)"
    using schedule_waiting_ok [OF r(2) run_ok_wait_ok [OF j] split none] by simp_all
qed

lemma wait_ok_constraints:
  assumes ok: "wait_ok B M cfg s l" and B: "B \<le> cfg_max_num_scheduled_tokens cfg"
  shows "check_constraints s l = Inr ()"
proof -
  have so: "step_ok B M cfg s l" and len: "int (length (s_running s)) \<le> cfg_max_num_running_reqs cfg"
    using ok by (simp_all add: wait_ok_def)
  have "length (l_new l) + length (l_resumed l) + length (l_running l) = length (map fst (l_num l))"
  proof -
    have "mset (map fst (l_num l)) = mset (l_new l) + mset (l_resumed l) + mset (l_running l)" using so by (simp add: step_ok_def)
    from arg_cong [OF this, of size] show ?thesis by simp
  qed
  moreover have "length (map fst (l_num l)) \<le> length (s_running s)"
  proof -
    have "length (map fst (l_num l)) = card (set (map fst (l_num l)))" using so by (metis distinct_card step_ok_def)
    also have "\<dots> \<le> card (set (s_running s))" using so by (intro card_mono) (simp_all add: step_ok_def)
    also have "\<dots> \<le> length (s_running s)" by (rule card_length)
    finally show ?thesis .
  qed
  moreover have "sum_list (map snd (l_num l)) \<le> cfg_max_num_scheduled_tokens cfg" "0 \<le> l_budget l" "s_config s = cfg"
    using so B by (auto simp: step_ok_def tokens_of_def)
  ultimately show ?thesis using len by (simp add: check_constraints_def assertR_def)
qed

text \<open>Building the output and the bookkeeping after it keep the queues.\<close>

lemma foldR_rel:
  assumes "foldR f xs a = Inr b" and "\<And>x a b. x \<in> set xs \<Longrightarrow> f x a = Inr b \<Longrightarrow> R a b"
    and rf: "\<And>a. R a a" and tr: "\<And>a b c. R a b \<Longrightarrow> R b c \<Longrightarrow> R a c"
  shows "R a b"
  using assms(1,2)
proof (induction xs arbitrary: a)
  case Nil
  then show ?case by (simp add: rf)
next
  case (Cons x xs)
  then obtain u where u: "f x a = Inr u" "foldR f xs u = Inr b" by (auto simp: bindR_eq_Inr)
  show ?case by (rule tr [OF Cons.prems(2) [OF _ u(1)] Cons.IH [OF u(2)]]) (use Cons.prems(2) in auto)
qed

lemma free_encoder_inputs_queues:
  assumes "free_encoder_inputs rid s = Inr s'"
  shows "queues_kept s s'"
proof -
  have one: "queues_kept s s'" if "free_encoder_input_if_done rid i s = Inr s'" for i and s s' :: "'x scheduler"
    using that by (auto simp: free_encoder_input_if_done_def bindR_eq_Inr Let_def split: if_split_asm)
  show ?thesis
    using assms by (auto simp: free_encoder_inputs_def Let_def split: if_split_asm
        elim!: foldR_rel [where R = queues_kept] intro: one queues_kept_trans)
qed

lemma update_after_schedule_queues:
  assumes "update_after_schedule out s = Inr (s', out')"
  shows "queues_kept s s'" "so_num_scheduled_tokens out' = so_num_scheduled_tokens out"
    "so_total_num_scheduled_tokens out' = so_total_num_scheduled_tokens out"
proof -
  let ?R = "\<lambda>so so'. queues_kept (fst so) (fst so') \<and> so_num_scheduled_tokens (snd so') = so_num_scheduled_tokens (snd so)
    \<and> so_total_num_scheduled_tokens (snd so') = so_total_num_scheduled_tokens (snd so)"
  have rf: "?R a a" for a :: "'x scheduler \<times> scheduler_output" by simp
  have tr: "?R a c" if "?R a b" "?R b c" for a b c :: "'x scheduler \<times> scheduler_output" using that by (auto dest: queues_kept_trans)
  have one: "?R a b" if "update_one_after_schedule x a = Inr b" for x and a b :: "'x scheduler \<times> scheduler_output"
    using that by (auto simp: update_one_after_schedule_def bindR_eq_Inr Let_def split: if_split_asm
        dest!: free_encoder_inputs_queues intro: queues_kept_trans [OF queues_kept_update(1)])
  have two: "?R a b" if "async_update_one x a = Inr b" for x and a b :: "'x scheduler \<times> scheduler_output"
    using that by (auto simp: async_update_one_def Let_def split: if_split_asm)
  obtain s1 out1 where b: "foldR update_one_after_schedule (so_num_scheduled_tokens out) (s, out) = Inr (s1, out1)"
    and c: "(if cfg_is_async_scheduler (s_config s1) then foldR async_update_one (so_num_scheduled_tokens out1) (s1\<lparr>s_finished_req_ids := {}\<rparr>, out1)
      else Inr (s1\<lparr>s_finished_req_ids := {}\<rparr>, out1)) = Inr (s', out')"
    using assms by (auto simp: update_after_schedule_def base_update_after_schedule_def bindR_eq_Inr)
  have r1: "?R (s, out) (s1, out1)" by (rule foldR_rel [where R = ?R, OF b]) (rule one rf, assumption | erule (1) tr | rule rf)+
  then have "?R (s, out) (s1\<lparr>s_finished_req_ids := {}\<rparr>, out1)" by (simp add: queues_kept_def)
  moreover have "?R (s1\<lparr>s_finished_req_ids := {}\<rparr>, out1) (s', out')"
  proof (cases "cfg_is_async_scheduler (s_config s1)")
    case True
    then have d: "foldR async_update_one (so_num_scheduled_tokens out1) (s1\<lparr>s_finished_req_ids := {}\<rparr>, out1) = Inr (s', out')" using c by simp
    show ?thesis by (rule foldR_rel [where R = ?R, OF d]) (rule two rf, assumption | erule (1) tr | rule rf)+
  qed (use c in simp)
  ultimately have "?R (s, out) (s', out')" by (auto dest: queues_kept_trans)
  then show "queues_kept s s'" "so_num_scheduled_tokens out' = so_num_scheduled_tokens out"
    "so_total_num_scheduled_tokens out' = so_total_num_scheduled_tokens out" by simp_all
qed

lemma build_output_queues:
  assumes "build_output s l = Inr (out, s')"
  shows "queues_kept s s'" "so_num_scheduled_tokens out = l_num l" "so_total_num_scheduled_tokens out = tokens_of (l_num l)"
  using assms by (auto simp: build_output_def bindR_eq_Inr Let_def queues_kept_def tokens_of_def case_prod_unfold)

lemma build_meta_queues: "queues_kept s (build_meta env out s)"
  by (simp add: build_meta_def Let_def)

text \<open>The step as a whole.\<close>

lemma schedule_ok:
  assumes run: "schedule env s = Inr (out, s')" and ready: "step_ready s"
  obtains l where "wait_ok (l_budget (initial_locals s)) (all_ids s) (s_config s) s' l" "l_num l = so_num_scheduled_tokens out"
    "all_ids s' = all_ids s" "so_total_num_scheduled_tokens out = tokens_of (so_num_scheduled_tokens out)"
proof -
  obtain s1 l out1 s2 s3 where p: "schedule_passes env s = Inr (s1, l)" and b: "build_output s1 l = Inr (out1, s2)"
    and u: "update_after_schedule out1 (build_meta env out1 s2) = Inr (s', out)"
    using run by (auto simp: schedule_def bindR_eq_Inr)
  have k: "queues_kept s1 s'"
    using queues_kept_trans [OF queues_kept_trans [OF build_output_queues(1) [OF b] build_meta_queues]
        update_after_schedule_queues(1) [OF u]] .
  note sp = schedule_passes_ok [OF p ready]
  show thesis
  proof (rule that)
    show "wait_ok (l_budget (initial_locals s)) (all_ids s) (s_config s) s' (l\<lparr>l_skipped := FCFSRequestQueue []\<rparr>)"
      by (rule wait_ok_frame [OF sp(2) k])
    show "l_num (l\<lparr>l_skipped := FCFSRequestQueue []\<rparr>) = so_num_scheduled_tokens out"
      by (simp add: update_after_schedule_queues(2) [OF u] build_output_queues(2) [OF b])
    show "all_ids s' = all_ids s" using sp(1) k by (simp add: queues_kept_def all_ids_def)
    show "so_total_num_scheduled_tokens out = tokens_of (so_num_scheduled_tokens out)"
      by (simp add: update_after_schedule_queues(2,3) [OF u] build_output_queues(2,3) [OF b])
  qed
qed

lemma small_full_ready: "step_ready small_full"
proof -
  have "all_ids small_full = mset [''a'', ''b'']" using small_full_queues by (simp add: all_ids_def)
  then have "no_duplicates (all_ids small_full)" by (simp only: no_duplicates_mset) simp
  then show ?thesis
    using small_full_queues by (simp add: step_ready_def split_ok_def lag_ok_def small_cfg_def)
qed

text \<open>
  C4: The assertions before the output cannot fail. Once both passes of \<open>schedule\<close> have returned, with priorities
  or without, with preemptions, speculative tokens, encoder inputs and whatever the connectors answered: the tokens
  scheduled are within the token limit, the budget is not negative, no more requests run than allowed, and no
  more are scheduled than run. The state before lists each request once, keeps the limit on running requests, and
  no running request is ahead of its tokens.
\<close>

theorem schedule_constraints_hold:
  assumes "step_ready s" and "schedule_passes env s = Inr (s1, l)"
  shows "check_constraints s1 l = Inr ()"
proof -
  let ?l = "l\<lparr>l_skipped := FCFSRequestQueue []\<rparr>"
  have B: "l_budget (initial_locals s) \<le> cfg_max_num_scheduled_tokens (s_config s)"
    using assms(1) by (simp add: step_ready_def initial_locals_def)
  from wait_ok_constraints [OF schedule_passes_ok(2) [OF assms(2,1)] B] have "check_constraints s1 ?l = Inr ()" .
  then show ?thesis by (simp add: check_constraints_def)
qed

theorem schedule_constraints_hold_witness:
  "\<exists>s1 l. schedule_passes small_env small_full = Inr (s1, l) \<and> l_preempted l = [''b''] \<and> check_constraints s1 l = Inr ()"
proof -
  obtain s1 l where "schedule_passes small_env small_full = Inr (s1, l)" "l_preempted l = [''b'']"
    using small_full_preempts by (cases "schedule_passes small_env small_full") auto
  with schedule_constraints_hold [OF small_full_ready] show ?thesis by blast
qed

text \<open>
  C3: A step neither loses nor duplicates a request: the requests in the running list and the two waiting queues
  after \<open>schedule\<close> are those before it, preempted and skipped ones included. Each request with tokens in the output
  runs, has a positive number of them and is listed once, and the total in the output is their sum, within the limit.
\<close>

theorem schedule_conserves_requests:
  assumes "step_ready s" and "schedule env s = Inr (out, s')"
  shows "all_ids s' = all_ids s \<and> distinct (map fst (so_num_scheduled_tokens out))
    \<and> (\<forall>x \<in> set (so_num_scheduled_tokens out). fst x \<in> set (s_running s') \<and> 0 < snd x)
    \<and> so_total_num_scheduled_tokens out = sum_list (map snd (so_num_scheduled_tokens out))
    \<and> so_total_num_scheduled_tokens out \<le> cfg_max_num_scheduled_tokens (s_config s)"
proof -
  obtain l where l: "wait_ok (l_budget (initial_locals s)) (all_ids s) (s_config s) s' l" "l_num l = so_num_scheduled_tokens out"
    "all_ids s' = all_ids s" "so_total_num_scheduled_tokens out = tokens_of (so_num_scheduled_tokens out)"
    using schedule_ok [OF assms(2,1)] .
  have B: "l_budget (initial_locals s) \<le> cfg_max_num_scheduled_tokens (s_config s)"
    using assms(1) by (simp add: step_ready_def initial_locals_def)
  have so: "step_ok (l_budget (initial_locals s)) (all_ids s) (s_config s) s' l" using l(1) by (simp add: wait_ok_def)
  have sub: "fst x \<in> set (s_running s') \<and> 0 < snd x" if "x \<in> set (so_num_scheduled_tokens out)" for x
    using so that l(2) by (auto simp: step_ok_def)
  have "distinct (map fst (so_num_scheduled_tokens out))" using so l(2) by (simp add: step_ok_def)
  moreover have "so_total_num_scheduled_tokens out \<le> cfg_max_num_scheduled_tokens (s_config s)"
    using so l B by (simp add: step_ok_def)
  ultimately show ?thesis using l(3,4) sub by (simp add: tokens_of_def)
qed

theorem schedule_conserves_requests_witness:
  "\<exists>out s'. schedule small_env small_full = Inr (out, s') \<and> s_running s' = [''a''] \<and> all_ids s' = all_ids small_full"
proof -
  have "map_sum id (\<lambda>(out, s). s_running s) (schedule small_env small_full) = Inr [''a'']" by code_simp
  then obtain out s' where "schedule small_env small_full = Inr (out, s')" "s_running s' = [''a'']"
    by (cases "schedule small_env small_full") auto
  with schedule_conserves_requests [OF small_full_ready] show ?thesis by blast
qed

end
