(* ===== verification/Scheduler_Progress.thy ===== *)
theory Scheduler_Progress
  imports Scheduler_Limits
begin

text \<open>
  Progress of the oldest running request with first-come-first-served scheduling: preemption takes requests from the end of the
  running list, so a request is only preempted for one that runs before it.
\<close>

lemma take_butlast_suffix:
  assumes "xs \<noteq> []" "k \<le> length xs - 1"
  shows "take k (butlast xs) = take k xs" "last xs # rev (drop k (butlast xs)) = rev (drop k xs)"
proof -
  show "take k (butlast xs) = take k xs" using assms by (simp add: butlast_conv_take min_def)
  have "xs = butlast xs @ [last xs]" using assms(1) by simp
  then have "drop k xs = drop k (butlast xs) @ [last xs]" using assms(2) by (metis drop_append length_butlast diff_is_0_eq drop0)
  then show "last xs # rev (drop k (butlast xs)) = rev (drop k xs)" by simp
qed

text \<open>What the inner loop takes away is a suffix of the running list behind the request, and the request itself only when all behind it is gone.\<close>

lemma preempt_loop_fcfs:
  "preempt_loop env rid n i s l = Inr (out, i', s', l') \<Longrightarrow> cfg_policy (s_config s) \<noteq> PRIORITY \<Longrightarrow> 0 \<le> i \<Longrightarrow>
   nat i < length (s_running s) \<Longrightarrow> s_running s ! nat i = rid \<Longrightarrow> distinct (s_running s) \<Longrightarrow>
   \<exists>k \<le> length (s_running s). s_running s' = take k (s_running s) \<and> (if out = None then k = nat i else nat i < k)
     \<and> i' = i \<and> l' = l\<lparr>l_preempted := l_preempted l @ rev (drop k (s_running s))\<rparr> \<and> s_config s' = s_config s"
proof (induction env rid n i s l arbitrary: out i' s' l' rule: preempt_loop.induct)
  case (1 env rid n i s l)
  note run = "1.prems"(1) and pos = "1.prems"(2-)
  obtain o1 r' k where a: "allocate_slots (env_hash env) (s_store s rid) n 0 None (cfg_num_lookahead_tokens (s_config s))
      0 False 0 (s_kv s) = Inr (o1, r', k)"
    using run by (auto simp: preempt_loop.simps [of env rid n i s l] bindR_eq_Inr)
  let ?s1 = "upd rid (\<lambda>_. r') (s\<lparr>s_kv := k\<rparr>)"
  have s1: "s_running ?s1 = s_running s" "s_config ?s1 = s_config s" by (simp_all add: upd_def)
  show ?case
  proof (cases o1)
    case (Some b)
    then have "out = Some b" "i' = i" "s' = ?s1" "l' = l"
      using run a by (auto simp: preempt_loop.simps [of env rid n i s l] Let_def)
    then show ?thesis using pos(3) s1 by (intro exI [of _ "length (s_running s)"]) simp
  next
    case None
    obtain v i2 s2 l2 s3 where b: "pick_victim i ?s1 l = Inr (v, i2, s2, l2)" "preempt_request v s2 = Inr s3"
      and c: "(if v = rid then Inr (None, i2, s3, l2\<lparr>l_preempted := l_preempted l2 @ [v]\<rparr>)
        else preempt_loop env rid n i2 s3 (l2\<lparr>l_preempted := l_preempted l2 @ [v]\<rparr>)) = Inr (out, i', s', l')"
      using run None a by (auto simp: preempt_loop.simps [of env rid n i s l] bindR_eq_Inr Let_def)
    have ne: "s_running s \<noteq> []" using pos(3) by auto
    have v: "v = last (s_running s)" "i2 = i" "l2 = l" "s_running s3 = butlast (s_running s)" "s_config s3 = s_config s"
      using b(1) pos(1) ne s1 preempt_request_keeps [OF b(2)] by (auto simp: pick_victim_def split: if_split_asm)
    have last: "last (s_running s) = s_running s ! (length (s_running s) - 1)" using ne by (simp add: last_conv_nth)
    show ?thesis
    proof (cases "v = rid")
      case True
      then have i: "nat i = length (s_running s) - 1"
        using v(1) last pos(3-5) by (metis diff_less length_greater_0_conv less_numeral_extra(1) ne nth_eq_iff_index_eq)
      then have "drop (nat i) (s_running s) = [v]" using ne v(1) by (metis append_butlast_last_id append_eq_conv_conj length_butlast)
      then show ?thesis using c True v i ne pos(3)
        by (intro exI [of _ "nat i"]) (auto simp: butlast_conv_take)
    next
      case False
      have i: "nat i < length (butlast (s_running s))"
        using pos(3,4) False v(1) last by (cases "nat i = length (s_running s) - 1") auto
      have rec: "preempt_loop env rid n i2 s3 (l2\<lparr>l_preempted := l_preempted l2 @ [v]\<rparr>) = Inr (out, i', s', l')"
        using c False by simp
      have pre: "cfg_policy (s_config s3) \<noteq> PRIORITY" "0 \<le> i2" "nat i2 < length (s_running s3)" "s_running s3 ! nat i2 = rid" "distinct (s_running s3)"
        using pos v i by (simp_all add: nth_butlast distinct_butlast)
      obtain m where m: "m \<le> length (s_running s3)" "s_running s' = take m (s_running s3)" "if out = None then m = nat i2 else nat i2 < m" "i' = i2"
        "l' = (l2\<lparr>l_preempted := l_preempted l2 @ [v]\<rparr>)\<lparr>l_preempted := l_preempted (l2\<lparr>l_preempted := l_preempted l2 @ [v]\<rparr>) @ rev (drop m (s_running s3))\<rparr>"
        "s_config s' = s_config s3"
        using "1.IH" [OF a refl refl refl None b(1) refl refl refl b(2) refl False rec pre] by (elim exE conjE)
      have mk: "m \<le> length (s_running s) - 1" using m(1) v(4) by simp
      note tb = take_butlast_suffix [OF ne mk]
      have "l' = l\<lparr>l_preempted := l_preempted l @ rev (drop m (s_running s))\<rparr>" using m(5) v tb(2) by simp
      moreover have "s_running s' = take m (s_running s)" "m \<le> length (s_running s)" using m(2) v(4) tb(1) mk by simp_all
      moreover have "if out = None then m = nat i else nat i < m" "i' = i" "s_config s' = s_config s" using m(3,4,6) v(2,5) by (simp_all only:)
      ultimately show ?thesis by blast
    qed
  qed
qed

subsection \<open>A refused allocation\<close>

text \<open>
  How room is made for a request: blocks it does not need any more are removed, its blocks are counted, and the
  blocks of the requests in \<open>Q\<close> are freed.
\<close>

inductive room_made :: "string \<Rightarrow> int \<Rightarrow> (coordinator \<Rightarrow> (int \<times> coordinator) result) \<Rightarrow> string set \<Rightarrow> coordinator \<Rightarrow> coordinator \<Rightarrow> bool"
  for rid tot count Q c0 where
  room_start: "room_made rid tot count Q c0 c0"
| room_skip: "room_made rid tot count Q c0 c \<Longrightarrow> coord_remove_skipped_blocks rid tot c = Inr c' \<Longrightarrow> room_made rid tot count Q c0 c'"
| room_count: "room_made rid tot count Q c0 c \<Longrightarrow> count c = Inr (b, c') \<Longrightarrow> room_made rid tot count Q c0 c'"
| room_free: "room_made rid tot count Q c0 c \<Longrightarrow> q \<in> Q \<Longrightarrow> coord_free q c = Inr c' \<Longrightarrow> room_made rid tot count Q c0 c'"

definition holds_nothing :: "coordinator \<Rightarrow> string \<Rightarrow> bool" where
  "holds_nothing c q \<longleftrightarrow> (\<forall>m \<in> set (single_type_managers c). blocks_of q m = [])"

lemma on_managers_blocks:
  assumes "on_managers op c = Inr (as, c')"
    and "\<And>i m p a m' p'. op i m p = Inr (a, m', p') \<Longrightarrow> blocks_of q m = [] \<or> q \<in> F \<Longrightarrow> blocks_of q m' = []"
    and "holds_nothing c q \<or> q \<in> F"
  shows "holds_nothing c' q"
proof -
  obtain ms p where e: "each_manager op 0 (single_type_managers c) (c_pool c) = Inr (as, ms, p)" "single_type_managers c' = ms"
    using assms(1) by (auto simp: on_managers_def bindR_eq_Inr)
  have "list_all2 (\<lambda>m m'. blocks_of q m' = []) (single_type_managers c) ms \<and> True"
    by (rule each_manager_frame [OF e(1), where S = "\<lambda>_ _. True"]) (use assms(2,3) in \<open>auto simp: holds_nothing_def\<close>)
  then show ?thesis by (auto simp: holds_nothing_def e(2) list_all2_conv_all_nth in_set_conv_nth)
qed

lemma remove_skipped_others:
  assumes "remove_skipped_blocks rid n m p = Inr (m', p')" "q \<noteq> rid"
  shows "blocks_of q m' = blocks_of q m"
proof -
  have base: "blocks_of q m1 = blocks_of q m" if "base_remove_skipped_blocks rid k m p = Inr (m1, p1)" for k m1 p1
    using that assms(2) by (auto simp: base_remove_skipped_blocks_def Let_def bindR_eq_Inr set_blocks_def blocks_of_def split: if_split_asm prod.split_asm)
  show ?thesis
  proof (cases "spec_class_of (m_spec m)")
    case (MambaSpec mode k)
    obtain m1 p1 where b: "base_remove_skipped_blocks rid (max 0 (n - k)) m p = Inr (m1, p1)"
      using assms(1) MambaSpec by (auto simp: remove_skipped_blocks_def Let_def bindR_eq_Inr)
    have "blocks_of q m' = blocks_of q m1" using assms MambaSpec b
      by (auto simp: remove_skipped_blocks_def Let_def bindR_eq_Inr set_blocks_def ensure_blocks_def blocks_of_def split: if_split_asm option.split_asm)
    with base [OF b] show ?thesis by simp
  qed (use assms(1) base in \<open>auto simp: remove_skipped_blocks_def\<close>)
qed

lemma count_keeps_blocks:
  "get_num_blocks_to_allocate m p rid n hs tot main_toks = Inr (k, m') \<Longrightarrow> blocks_of q m' = blocks_of q m"
  by (auto simp: get_num_blocks_to_allocate_def bindR_eq_Inr Let_def ensure_blocks_def set_blocks_def blocks_of_def
      split: spec_class.split_asm if_split_asm)

lemma coord_steps_keep_nothing:
  "coord_remove_skipped_blocks rid n c = Inr c' \<Longrightarrow> q \<noteq> rid \<Longrightarrow> holds_nothing c q \<Longrightarrow> holds_nothing c' q"
  "coord_get_num_blocks_to_allocate rid need hs enc tot main_toks c = Inr (b, c') \<Longrightarrow> holds_nothing c q \<Longrightarrow> holds_nothing c' q"
  "coord_free rid c = Inr c' \<Longrightarrow> holds_nothing c q \<or> q = rid \<Longrightarrow> holds_nothing c' q"
proof -
  show "holds_nothing c' q" if r: "coord_remove_skipped_blocks rid n c = Inr c'" "q \<noteq> rid" "holds_nothing c q"
  proof -
    obtain as where o: "on_managers (remove_op rid n) c = Inr (as, c')" using r(1) by (auto simp: coord_remove_skipped_blocks_def bindR_eq_Inr)
    show ?thesis by (rule on_managers_blocks [OF o, where F = "{}"])
        (use r in \<open>auto simp: remove_op_def bindR_eq_Inr remove_skipped_others\<close>)
  qed
  show "holds_nothing c' q" if r: "coord_get_num_blocks_to_allocate rid need hs enc tot main_toks c = Inr (b, c')" "holds_nothing c q"
  proof -
    obtain as where o: "on_managers (count_op rid need hs enc tot main_toks) c = Inr (as, c')"
      using r(1) by (auto simp: coord_get_num_blocks_to_allocate_def bindR_eq_Inr)
    show ?thesis by (rule on_managers_blocks [OF o, where F = "{}"])
        (use r(2) in \<open>auto simp: count_op_def bindR_eq_Inr count_keeps_blocks split: if_split_asm\<close>)
  qed
  show "holds_nothing c' q" if r: "coord_free rid c = Inr c'" "holds_nothing c q \<or> q = rid"
  proof -
    obtain as where o: "on_managers (free_op rid) c = Inr (as, c')" using r(1) by (auto simp: coord_free_def bindR_eq_Inr)
    show ?thesis by (rule on_managers_blocks [OF o, where F = "{rid}"])
        (use r(2) in \<open>auto simp: free_op_def free_def base_free_def bindR_eq_Inr blocks_of_def split: spec_class.split_asm if_split_asm\<close>)
  qed
qed

text \<open>The count that \<open>allocate_slots\<close> makes for a running request.\<close>

definition count_for :: "kv_cache_manager \<Rightarrow> request \<Rightarrow> int \<Rightarrow> int \<Rightarrow> coordinator \<Rightarrow> (int \<times> coordinator) result" where
  "count_for k r n lookahead =
     coord_get_num_blocks_to_allocate (request_id r) (num_tokens_need_slot k r n 0 lookahead 0) (group_blocks (given_blocks None k)) 0
       (num_computed_tokens r) (total_computed_tokens k r 0 0 + n)"

lemma allocate_slots_refused:
  assumes "allocate_slots env r n 0 None la 0 False 0 k = Inr (None, r', k')"
  shows "\<exists>c1 c2 b. coord_remove_skipped_blocks (request_id r) (total_computed_tokens k r 0 0) (k_coordinator k) = Inr c1
    \<and> count_for k r n la c1 = Inr (b, c2) \<and> get_num_free_blocks (c_pool c2) < b \<and> r' = r \<and> k' = k\<lparr>k_coordinator := c2\<rparr>"
  using assms by (auto simp: allocate_slots_def count_for_def Let_def bindR_eq_Inr split: if_split_asm)

text \<open>
  The cache is too small for a request: with every block given back that it does not need itself or that a
  request in \<open>Q\<close> held, the free blocks are fewer than those it needs for its next \<open>n\<close> tokens.
\<close>

definition cache_too_small :: "kv_cache_manager \<Rightarrow> request \<Rightarrow> int \<Rightarrow> int \<Rightarrow> string set \<Rightarrow> bool" where
  "cache_too_small k r n lookahead Q \<longleftrightarrow>
     (\<exists>c c' b. room_made (request_id r) (total_computed_tokens k r 0 0) (count_for k r n lookahead) Q (k_coordinator k) c
        \<and> (\<forall>q \<in> Q. holds_nothing c q) \<and> count_for k r n lookahead c = Inr (b, c') \<and> get_num_free_blocks (c_pool c') < b)"

lemma preempt_request_frees:
  assumes "preempt_request v s = Inr s'"
  shows "coord_free (request_id (s_store s v)) (k_coordinator (s_kv s)) = Inr (k_coordinator (s_kv s'))"
    "s_kv s' = (s_kv s)\<lparr>k_coordinator := k_coordinator (s_kv s')\<rparr>"
    "q \<noteq> v \<Longrightarrow> s_store s' q = s_store s q" "request_id (s_store s' q) = request_id (s_store s q)"
  using assms by (auto simp: preempt_request_def kv_free_def bindR_eq_Inr Let_def upd_def)

lemma pick_victim_fcfs:
  assumes "pick_victim i s l = Inr (v, i', s', l')" "cfg_policy (s_config s) \<noteq> PRIORITY"
  shows "s_running s \<noteq> []" "v = last (s_running s)" "i' = i" "l' = l" "s' = s\<lparr>s_running := butlast (s_running s)\<rparr>"
  using assms by (auto simp: pick_victim_def split: if_split_asm)

lemma preempt_loop_starved:
  assumes c0: "k_coordinator k = c0"
  shows "preempt_loop env rid n i s l = Inr (None, i', s', l') \<Longrightarrow> cfg_policy (s_config s) \<noteq> PRIORITY \<Longrightarrow> 0 \<le> i \<Longrightarrow>
   nat i < length (s_running s) \<Longrightarrow> s_running s ! nat i = rid \<Longrightarrow> distinct (s_running s) \<Longrightarrow>
   \<forall>q \<in> set (s_running s). request_id (s_store s q) = q \<Longrightarrow> s_store s rid = r \<Longrightarrow> cfg_num_lookahead_tokens (s_config s) = la \<Longrightarrow>
   s_kv s = k\<lparr>k_coordinator := c\<rparr> \<Longrightarrow> room_made rid (total_computed_tokens k r 0 0) (count_for k r n la) Q c0 c \<Longrightarrow>
   set (drop (Suc (nat i)) (s_running s)) \<subseteq> Q \<Longrightarrow> \<forall>q \<in> Q - set (drop (Suc (nat i)) (s_running s)). holds_nothing c q \<Longrightarrow> rid \<notin> Q \<Longrightarrow>
   cache_too_small k r n la Q"
proof (induction env rid n i s l arbitrary: i' s' l' c rule: preempt_loop.induct)
  case (1 env rid n i s l)
  note run = "1.prems"(1) and fc = "1.prems"(2) and pos = "1.prems"(3-6) and ids = "1.prems"(7) and st = "1.prems"(8-10)
    and room = "1.prems"(11) and Q = "1.prems"(12-14)
  have rid: "request_id r = rid" using ids pos(2,3) st(1) by auto
  obtain o1 r' k1 where a: "allocate_slots (env_hash env) (s_store s rid) n 0 None (cfg_num_lookahead_tokens (s_config s))
      0 False 0 (s_kv s) = Inr (o1, r', k1)"
    using run by (auto simp: preempt_loop.simps [of env rid n i s l] bindR_eq_Inr)
  have none: "o1 = None" using run a by (cases o1) (auto simp: preempt_loop.simps [of env rid n i s l] Let_def)
  have cst: "total_computed_tokens (s_kv s) r 0 0 = total_computed_tokens k r 0 0" "count_for (s_kv s) r n la = count_for k r n la"
    unfolding st(3) by (simp_all add: total_computed_tokens_def count_for_def num_tokens_need_slot_def given_blocks_def)
  obtain c1 c2 b where ref: "coord_remove_skipped_blocks rid (total_computed_tokens k r 0 0) c = Inr c1" "count_for k r n la c1 = Inr (b, c2)"
    "get_num_free_blocks (c_pool c2) < b" "r' = r" "k1 = k\<lparr>k_coordinator := c2\<rparr>"
    using allocate_slots_refused [OF a [unfolded none]] unfolding st(1,2) cst rid by (auto simp: st(3))
  have room1: "room_made rid (total_computed_tokens k r 0 0) (count_for k r n la) Q c0 c1" by (rule room_skip [OF room ref(1)])
  let ?s1 = "upd rid (\<lambda>_. r') (s\<lparr>s_kv := k1\<rparr>)"
  have s1: "s_running ?s1 = s_running s" "s_config ?s1 = s_config s" "s_store ?s1 = s_store s" "s_kv ?s1 = k1"
    using ref(4) st(1) by (auto simp: upd_def)
  obtain v i2 s2 l2 s3 where b: "pick_victim i ?s1 l = Inr (v, i2, s2, l2)" "preempt_request v s2 = Inr s3"
    and cc: "(if v = rid then Inr (None, i2, s3, l2\<lparr>l_preempted := l_preempted l2 @ [v]\<rparr>)
      else preempt_loop env rid n i2 s3 (l2\<lparr>l_preempted := l_preempted l2 @ [v]\<rparr>)) = Inr (None, i', s', l')"
    using run none a by (auto simp: preempt_loop.simps [of env rid n i s l] bindR_eq_Inr Let_def)
  have fc1: "cfg_policy (s_config ?s1) \<noteq> PRIORITY" using fc s1 by simp
  note pv = pick_victim_fcfs [OF b(1) fc1, unfolded s1] and pf = preempt_request_frees [OF b(2)]
  have kept: "s_running s2 = butlast (s_running s)" "s_config s2 = s_config s" "s_store s2 = s_store s" "s_kv s2 = k1" using pv(5) s1 by simp_all
  have last: "v = s_running s ! (length (s_running s) - 1)" using pv(1,2) by (simp add: last_conv_nth)
  have away: "holds_nothing c2 q" if "q \<in> Q - set (drop (Suc (nat i)) (s_running s))" for q
  proof -
    have "q \<noteq> rid" "holds_nothing c q" using that Q by auto
    then show ?thesis using coord_steps_keep_nothing(1,2) ref(1,2) unfolding count_for_def by blast
  qed
  show ?case
  proof (cases "v = rid")
    case True
    then have "nat i = length (s_running s) - 1" using last pos(2-4) pv(1) by (metis diff_less length_greater_0_conv less_numeral_extra(1) nth_eq_iff_index_eq)
    then have "drop (Suc (nat i)) (s_running s) = []" by simp
    then have "\<forall>q \<in> Q. holds_nothing c q \<and> q \<noteq> rid" using Q(2,3) by auto
    then have "\<forall>q \<in> Q. holds_nothing c1 q" using coord_steps_keep_nothing(1) [OF ref(1)] by blast
    then show ?thesis unfolding cache_too_small_def rid
      using room1 ref(2,3) c0 by blast
  next
    case False
    have i: "Suc (nat i) \<le> length (s_running s) - 1" "nat i < length (butlast (s_running s))"
      using pos(2,3) False last by (cases "nat i = length (s_running s) - 1"; auto)+
    have v: "v \<in> set (drop (Suc (nat i)) (s_running s))" "set (drop (Suc (nat i)) (s_running s)) = insert v (set (drop (Suc (nat i)) (butlast (s_running s))))"
      using take_butlast_suffix(2) [OF pv(1) i(1)] pv(2) by (metis list.set_intros(1) set_rev, metis list.set(2) set_rev)
    have fr: "coord_free v c2 = Inr (k_coordinator (s_kv s3))"
      using pf(1) ids pv(1,2) kept(3,4) ref(5) by simp
    have rec: "preempt_loop env rid n i2 s3 (l2\<lparr>l_preempted := l_preempted l2 @ [v]\<rparr>) = Inr (None, i', s', l')" using cc False by simp
    have s3: "s_running s3 = butlast (s_running s)" "s_config s3 = s_config s" using preempt_request_keeps [OF b(2)] kept by simp_all
    have kv3: "s_kv s3 = k\<lparr>k_coordinator := k_coordinator (s_kv s3)\<rparr>" using pf(2) kept(4) ref(5) by simp
    show ?thesis
    proof (rule "1.IH" [OF a refl refl refl none b(1) refl refl refl b(2) refl False rec _ _ _ _ _ _ _ _ kv3])
      show "room_made rid (total_computed_tokens k r 0 0) (count_for k r n la) Q c0 (k_coordinator (s_kv s3))"
        by (rule room_free [OF room_count [OF room1 ref(2)] _ fr]) (use v(1) Q(1) in blast)
      show "\<forall>q \<in> Q - set (drop (Suc (nat i2)) (s_running s3)). holds_nothing (k_coordinator (s_kv s3)) q"
        using away coord_steps_keep_nothing(3) [OF fr] v(2) unfolding s3(1) pv(3) by auto
      show "set (drop (Suc (nat i2)) (s_running s3)) \<subseteq> Q" using v(2) Q(1) unfolding s3(1) pv(3) by auto
      show "\<forall>q \<in> set (s_running s3). request_id (s_store s3 q) = q" using ids pf(4) kept(3) unfolding s3(1) by (metis in_set_butlastD)
      show "s_store s3 rid = r" using pf(3) [of rid] False kept(3) st(1) by auto
    qed (use fc pos i st Q pv(3) in \<open>simp_all add: s3 nth_butlast distinct_butlast\<close>)
  qed
qed

subsection \<open>The first request of the running list\<close>

text \<open>Once the first request has its tokens it keeps them and its place through the rest of the pass.\<close>

definition head_served :: "string \<Rightarrow> int \<Rightarrow> 'x scheduler \<Rightarrow> step_locals \<Rightarrow> bool" where
  "head_served rid i s l \<longleftrightarrow> 1 \<le> i \<and> rid \<in> dict_keys (l_num l) \<and> distinct (s_running s) \<and> cfg_policy (s_config s) \<noteq> PRIORITY"

lemma update_keys_insert: "fst ` set (AList.update k v d) = insert k (fst ` set d)"
  by (induction d) auto

lemma commit_running_keeps:
  assumes "commit_running env rid n b encs exts budget s l = Inr (s', l')"
  shows "s_running s' = s_running s" "s_config s' = s_config s" "dict_keys (l_num l') = insert rid (dict_keys (l_num l))"
    "l_preempted l' = l_preempted l"
proof -
  note c = commit_encoder_inputs_keep [OF assms [unfolded commit_running_def Let_def]]
  show "s_running s' = s_running s" "s_config s' = s_config s" using c(1) by (auto simp: upd_def)
  have "l_num l' = AList.update rid n (l_num l)" using c(2) by auto
  then show "dict_keys (l_num l') = insert rid (dict_keys (l_num l))" by (simp only: update_keys_insert)
  show "l_preempted l' = l_preempted l" using c(2) by auto
qed

lemma running_step_fcfs:
  assumes run: "running_step env i s l = Inr f" and pos: "0 \<le> i" "nat i < length (s_running s)"
    and fc: "cfg_policy (s_config s) \<noteq> PRIORITY" and dist: "distinct (s_running s)"
  shows "case f of
      Continue (i', s', l') \<Rightarrow> i' = i + 1 \<and> distinct (s_running s') \<and> s_config s' = s_config s \<and> dict_keys (l_num l) \<subseteq> dict_keys (l_num l')
    | Break (i', s', l') \<Rightarrow> i' = i \<and> s_running s' = take (nat i) (s_running s) \<and> l_num l' = l_num l
        \<and> l_preempted l' = l_preempted l @ rev (drop (nat i) (s_running s))"
proof -
  let ?rid = "s_running s ! nat i"
  have p: "py_nth (s_running s) i = Inr ?rid" using pos by simp
  show ?thesis
  proof (cases "surely_done (s_store s ?rid)")
    case True
    then show ?thesis using run p dist by (auto simp: running_step_def)
  next
    case False
    obtain n encs exts budget s1 where pl: "plan_running env ?rid s l = Inr ((n, encs, exts, budget), s1)"
      using run p False by (auto simp: running_step_def bindR_eq_Inr)
    have s1: "s_running s1 = s_running s" "s_config s1 = s_config s" using plan_running_keeps [OF pl] by auto
    show ?thesis
    proof (cases "n = 0")
      case True
      then show ?thesis using run p False pl dist s1 by (auto simp: running_step_def)
    next
      case n: False
      obtain out i2 s2 l2 where q: "preempt_loop env ?rid n i s1 l = Inr (out, i2, s2, l2)"
        using run p False pl n by (auto simp: running_step_def bindR_eq_Inr)
      obtain k where k: "s_running s2 = take k (s_running s)" "if out = None then k = nat i else nat i < k" "i2 = i"
        "l2 = l\<lparr>l_preempted := l_preempted l @ rev (drop k (s_running s))\<rparr>" "s_config s2 = s_config s"
        using preempt_loop_fcfs [OF q] pos fc dist unfolding s1 by auto
      show ?thesis
      proof (cases out)
        case None
        then show ?thesis using run p False pl n q k by (auto simp: running_step_def)
      next
        case (Some b)
        obtain s3 l3 where c: "commit_running env ?rid n b encs exts budget s2 l2 = Inr (s3, l3)" "f = Continue (i2 + 1, s3, l3)"
          using run p False pl n q Some by (auto simp: running_step_def bindR_eq_Inr)
        show ?thesis using commit_running_keeps [OF c(1)] c(2) k dist by (auto intro: distinct_take)
      qed
    qed
  qed
qed

lemma running_loop_keeps_served:
  "running_loop env i s l = Inr (s', l') \<Longrightarrow> head_served rid i s l \<Longrightarrow> rid \<in> dict_keys (l_num l')"
proof (induction env i s l arbitrary: s' l' rule: running_loop.induct)
  case (1 env i s l)
  note h = "1.prems"(2) [unfolded head_served_def]
  show ?case
  proof (cases "i < int (length (s_running s)) \<and> l_budget l > 0")
    case False
    then show ?thesis using "1.prems"(1) h by (auto simp: running_loop.simps [of env i s l])
  next
    case True
    obtain f where f: "running_step env i s l = Inr f"
      "(case f of Continue (i', s', l') \<Rightarrow> running_loop env i' s' l' | Break (_, s', l') \<Rightarrow> Inr (s', l')) = Inr (s', l')"
      using "1.prems"(1) True unfolding running_loop.simps [of env i s l] if_P [OF True] bindR_eq_Inr by blast
    have st: "case f of
      Continue (i', s', l') \<Rightarrow> i' = i + 1 \<and> distinct (s_running s') \<and> s_config s' = s_config s \<and> dict_keys (l_num l) \<subseteq> dict_keys (l_num l')
    | Break (i', s', l') \<Rightarrow> i' = i \<and> s_running s' = take (nat i) (s_running s) \<and> l_num l' = l_num l
        \<and> l_preempted l' = l_preempted l @ rev (drop (nat i) (s_running s))"
      by (rule running_step_fcfs [OF f(1)]) (use h True in auto)
    show ?thesis
    proof (cases f)
      case (Continue isl)
      obtain i1 s1 l1 where isl: "isl = (i1, s1, l1)" by (cases isl) auto
      have "head_served rid i1 s1 l1" using st Continue isl h by (auto simp: head_served_def)
      then show ?thesis by (rule "1.IH" [OF True f(1) Continue isl [symmetric] refl, rotated]) (use f(2) Continue isl in simp)
    next
      case (Break isl)
      then show ?thesis using f(2) st h by (cases isl) auto
    qed
  qed
qed


text \<open>
  The first request of the running list, a text request with something to compute: it is served, or the whole
  list has been preempted and nothing is scheduled.
\<close>

definition text_ready :: "string \<Rightarrow> 'x scheduler \<Rightarrow> bool" where
  "text_ready rid s \<longleftrightarrow> (let r = s_store s rid; cfg = s_config s
     in \<not> surely_done r \<and> \<not> has_encoder_inputs r \<and> \<not> cfg_need_mamba_block_aligned_split cfg
        \<and> num_computed_tokens r < num_tokens_with_spec r + num_output_placeholders r
        \<and> num_computed_tokens r + 1 < cfg_max_model_len cfg)"

lemma text_ready_plan:
  assumes "text_ready rid s" "0 < l_budget l" "plan_running env rid s l = Inr ((n, encs, exts, b), s1)"
  shows "0 < n" "n = running_tokens (s_config s) (l_budget l) (s_store s rid)" "s1 = s"
proof -
  let ?r = "s_store s rid" and ?cfg = "s_config s"
  show "n = running_tokens ?cfg (l_budget l) ?r" "s1 = s" using assms(1,3) by (auto simp: plan_running_def text_ready_def Let_def)
  moreover have "0 < running_tokens ?cfg (l_budget l) ?r" using assms(1,2) by (auto simp: running_tokens_def capped_def text_ready_def Let_def)
  ultimately show "0 < n" by simp
qed

lemma running_step_head:
  assumes run: "running_step env 0 s l = Inr f" and head: "s_running s = rid # rest"
    and fc: "cfg_policy (s_config s) \<noteq> PRIORITY" and dist: "distinct (s_running s)" and t: "text_ready rid s" "0 < l_budget l"
    and ids: "\<forall>q \<in> set (s_running s). request_id (s_store s q) = q"
  shows "case f of
      Continue (i', s', l') \<Rightarrow> head_served rid i' s' l'
    | Break (i', s', l') \<Rightarrow> s_running s' = [] \<and> l_num l' = l_num l \<and> l_preempted l' = l_preempted l @ rev (rid # rest)
        \<and> cache_too_small (s_kv s) (s_store s rid) (running_tokens (s_config s) (l_budget l) (s_store s rid))
            (cfg_num_lookahead_tokens (s_config s)) (set rest)"
proof -
  have p: "py_nth (s_running s) 0 = Inr rid" "\<not> surely_done (s_store s rid)" using head t(1) by (simp_all add: text_ready_def Let_def)
  obtain n encs exts budget s1 where pl: "plan_running env rid s l = Inr ((n, encs, exts, budget), s1)"
    using run p by (auto simp: running_step_def bindR_eq_Inr)
  note plan = text_ready_plan [OF t pl]
  have n: "n \<noteq> 0" using plan(1) by simp
  have s1: "s_running s1 = s_running s" "s_config s1 = s_config s" using plan(3) by simp_all
  obtain out i2 s2 l2 where q: "preempt_loop env rid n 0 s1 l = Inr (out, i2, s2, l2)"
    using run p pl n by (auto simp: running_step_def bindR_eq_Inr)
  obtain k where k: "s_running s2 = take k (s_running s)" "if out = None then k = 0 else 0 < k" "i2 = 0"
    "l2 = l\<lparr>l_preempted := l_preempted l @ rev (drop k (s_running s))\<rparr>" "s_config s2 = s_config s"
  proof -
    have "nat 0 < length (s_running s1)" "s_running s1 ! nat 0 = rid" "cfg_policy (s_config s1) \<noteq> PRIORITY" "distinct (s_running s1)"
      using fc dist head by (simp_all add: s1)
    from preempt_loop_fcfs [OF q this(3) order_refl this(1,2,4)] show ?thesis using that unfolding s1 nat_zero_as_int [symmetric] by blast
  qed
  show ?thesis
  proof (cases out)
    case None
    have "cache_too_small (s_kv s) (s_store s rid) n (cfg_num_lookahead_tokens (s_config s)) (set rest)"
      by (rule preempt_loop_starved [OF refl q [unfolded None plan(3)], where c = "k_coordinator (s_kv s)"])
        (use fc dist head ids in \<open>simp_all add: room_start\<close>)
    then show ?thesis using run p pl n q k head None by (auto simp: running_step_def plan(2))
  next
    case (Some b)
    obtain s3 l3 where c: "commit_running env rid n b encs exts budget s2 l2 = Inr (s3, l3)" "f = Continue (i2 + 1, s3, l3)"
      using run p pl n q Some by (auto simp: running_step_def bindR_eq_Inr)
    show ?thesis using commit_running_keeps [OF c(1)] c(2) k dist fc by (auto simp: head_served_def intro: distinct_take)
  qed
qed

lemma running_loop_head:
  assumes run: "running_loop env 0 s l = Inr (s', l')" and head: "s_running s = rid # rest"
    and fc: "cfg_policy (s_config s) \<noteq> PRIORITY" and dist: "distinct (s_running s)" and t: "text_ready rid s" "0 < l_budget l"
    and ids: "\<forall>q \<in> set (s_running s). request_id (s_store s q) = q"
  shows "rid \<in> dict_keys (l_num l') \<or> s_running s' = [] \<and> l_num l' = l_num l \<and> l_preempted l' = l_preempted l @ rev (rid # rest)
    \<and> cache_too_small (s_kv s) (s_store s rid) (running_tokens (s_config s) (l_budget l) (s_store s rid))
        (cfg_num_lookahead_tokens (s_config s)) (set rest)"
proof -
  have go: "0 < int (length (s_running s)) \<and> l_budget l > 0" using head t(2) by simp
  obtain f where f: "running_step env 0 s l = Inr f"
    "(case f of Continue (i', s', l') \<Rightarrow> running_loop env i' s' l' | Break (_, s', l') \<Rightarrow> Inr (s', l')) = Inr (s', l')"
    using run unfolding running_loop.simps [of env 0 s l] if_P [OF go] bindR_eq_Inr by blast
  note st = running_step_head [OF f(1) head fc dist t ids]
  show ?thesis
  proof (cases f)
    case (Continue isl)
    obtain i1 s1 l1 where isl: "isl = (i1, s1, l1)" by (cases isl) auto
    have "running_loop env i1 s1 l1 = Inr (s', l')" "head_served rid i1 s1 l1" using f(2) st Continue isl by simp_all
    then have "rid \<in> dict_keys (l_num l')" by (rule running_loop_keeps_served)
    then show ?thesis by blast
  next
    case (Break isl)
    then show ?thesis using f(2) st by (cases isl) auto
  qed
qed

subsection \<open>The waiting pass takes nothing back\<close>

lemma start_running_keys:
  assumes "start_running env rid lk n encs exts budget s l = Inr (s', l')"
  shows "dict_keys (l_num l) \<subseteq> dict_keys (l_num l')"
proof -
  obtain l1 lo bl s1 where r: "(if status (s_store s rid) = WAITING then Inr (l\<lparr>l_new := l_new l @ [rid]\<rparr>)
      else if status (s_store s rid) = PREEMPTED then Inr (l\<lparr>l_resumed := l_resumed l @ [rid]\<rparr>)
      else Inl RuntimeError) = Inr l1"
    and c: "commit_encoder_inputs env rid encs exts budget s1
      (l1\<lparr>l_loras := lo, l_blocks := bl, l_num := AList.update rid n (l_num l1), l_budget := l_budget l1 - n\<rparr>) = Inr (s', l')"
    using assms unfolding start_running_def Let_def bindR_eq_Inr by blast
  have "l_num l1 = l_num l" using r by (auto split: if_split_asm)
  moreover have "l_num l' = AList.update rid n (l_num l1)" using commit_encoder_inputs_keep(2) [OF c] by auto
  ultimately show ?thesis by (simp add: update_keys_insert subset_insertI)
qed

lemma admit_waiting_keys:
  assumes "admit_waiting env w rid lk s l = Inr (Continue (s', l'))"
  shows "dict_keys (l_num l) \<subseteq> dict_keys (l_num l')"
proof -
  obtain n encs exts budget s2 rid' q
    where e: "if lk_async lk then (s', l') = await_load rid' lk (set_queue w q (tell_connector env rid lk s2)) l
       else start_running env rid' lk n encs exts budget (set_queue w q (tell_connector env rid lk s2)) l = Inr (s', l')"
    using admit_waiting_continues [OF assms] by blast
  show ?thesis
  proof (cases "lk_async lk")
    case True
    then show ?thesis using e by (simp add: await_load_def Let_def)
  next
    case False
    then have "start_running env rid' lk n encs exts budget (set_queue w q (tell_connector env rid lk s2)) l = Inr (s', l')" using e by simp
    then show ?thesis by (rule start_running_keys)
  qed
qed

lemma admit_waiting_stops:
  assumes "admit_waiting env w rid lk s l = Inr (Break (s', l'))"
  shows "l' = l"
proof -
  obtain plan s1 where p: "plan_waiting env rid lk s l = Inr (plan, s1)" using assms by (auto simp: admit_waiting_def bindR_eq_Inr)
  show ?thesis
  proof (cases plan)
    case None
    then show ?thesis using assms p by (auto simp: admit_waiting_def)
  next
    case (Some x)
    obtain n encs exts budget where x: "x = (n, encs, exts, budget)" by (cases x) auto
    obtain out s2 where a: "allocate_waiting env rid lk n encs s1 = Inr (out, s2)"
      using assms p Some x by (auto simp: admit_waiting_def bindR_eq_Inr)
    show ?thesis using assms p Some x a by (cases out) (auto simp: admit_waiting_def bindR_eq_Inr Let_def split: if_split_asm)
  qed
qed

lemma waiting_step_keys:
  assumes "waiting_step env s l = Inr f"
  shows "case f of Continue (s', l') \<Rightarrow> dict_keys (l_num l) \<subseteq> dict_keys (l_num l') | Break (s', l') \<Rightarrow> l' = l"
  using assms
proof (cases rule: waiting_step_cases)
  case (skip w rid s1 s' l')
  have "l_num l' = l_num l" using skip(3) by (auto simp: skip_waiting_def bindR_eq_Inr)
  then show ?thesis by (simp add: skip(4))
next
  case (admit w rid s1 lk s2)
  show ?thesis
  proof (cases f)
    case (Continue sl)
    obtain s' l' where sl: "sl = (s', l')" by (cases sl)
    show ?thesis using admit_waiting_keys [OF admit(5) [unfolded Continue sl]] by (simp add: Continue sl)
  next
    case (Break sl)
    obtain s' l' where sl: "sl = (s', l')" by (cases sl)
    show ?thesis using admit_waiting_stops [OF admit(5) [unfolded Break sl]] by (simp add: Break sl)
  qed
qed simp

lemma waiting_loop_keys:
  "waiting_loop env s l = Inr (s', l') \<Longrightarrow> dict_keys (l_num l) \<subseteq> dict_keys (l_num l')"
proof (induction env s l arbitrary: s' l' rule: waiting_loop.induct)
  case (1 env s l)
  show ?case
  proof (cases "(queue_bool (s_waiting s) \<or> queue_bool (s_skipped s)) \<and> l_budget l > 0")
    case False
    then show ?thesis using "1.prems" unfolding waiting_loop.simps [of env s l] if_not_P [OF False] by simp
  next
    case True
    obtain f where f: "waiting_step env s l = Inr f"
      "(case f of Continue (s', l') \<Rightarrow> waiting_loop env s' l' | Break sl \<Rightarrow> Inr sl) = Inr (s', l')"
      using "1.prems" True unfolding waiting_loop.simps [of env s l] if_P [OF True] bindR_eq_Inr by blast
    note st = waiting_step_keys [OF f(1)]
    show ?thesis
    proof (cases f)
      case (Continue sl)
      obtain s1 l1 where sl: "sl = (s1, l1)" by (cases sl) auto
      have "dict_keys (l_num l1) \<subseteq> dict_keys (l_num l')"
        by (rule "1.IH" [OF True f(1) Continue sl [symmetric]]) (use f(2) Continue sl in simp)
      then show ?thesis using st Continue sl by auto
    next
      case (Break sl)
      then show ?thesis using f(2) st by (cases sl) auto
    qed
  qed
qed

lemma schedule_waiting_keys:
  assumes "schedule_waiting env s l = Inr (s', l')"
  shows "dict_keys (l_num l) \<subseteq> dict_keys (l_num l')" "l_preempted l \<noteq> [] \<Longrightarrow> s' = s \<and> l' = l"
proof -
  show "dict_keys (l_num l) \<subseteq> dict_keys (l_num l')"
  proof (cases "l_preempted l = [] \<and> s_pause_state s = UNPAUSED")
    case True
    then obtain s1 where "waiting_loop env s l = Inr (s1, l')" using assms by (auto simp: schedule_waiting_def bindR_eq_Inr)
    then show ?thesis by (rule waiting_loop_keys)
  next
    case False
    then show ?thesis using assms unfolding schedule_waiting_def if_not_P [OF False] by simp
  qed
  show "s' = s \<and> l' = l" if "l_preempted l \<noteq> []" using assms that by (simp add: schedule_waiting_def)
qed

subsection \<open>The whole step\<close>

text \<open>What the step of a scheduler asks for its oldest request, and that the cache is too small for it.\<close>

definition starved :: "'x scheduler \<Rightarrow> string \<Rightarrow> string list \<Rightarrow> bool" where
  "starved s rid rest \<longleftrightarrow>
     cache_too_small (kv_new_step_starts (s_kv s)) (s_store s rid)
       (running_tokens (s_config s) (cfg_max_num_scheduled_tokens (s_config s)) (s_store s rid))
       (cfg_num_lookahead_tokens (s_config s)) (set rest)"

lemma schedule_passes_head:
  assumes run: "schedule_passes env s = Inr (s', l)" and head: "s_running s = rid # rest" and ready: "step_ready s"
    and fc: "cfg_policy (s_config s) \<noteq> PRIORITY" and t: "text_ready rid s"
    and pause: "s_pause_state s \<noteq> PAUSED_ALL" and bud: "0 < cfg_max_num_scheduled_tokens (s_config s)"
    and ids: "\<forall>q \<in> set (s_running s). request_id (s_store s q) = q"
  shows "rid \<in> dict_keys (l_num l) \<or> s_running s' = [] \<and> l_num l = [] \<and> starved s rid rest"
proof -
  let ?s = "s\<lparr>s_kv := kv_new_step_starts (s_kv s)\<rparr>"
  obtain s2 l2 x where r: "running_loop env 0 ?s (initial_locals s) = Inr (s2, l2)" "schedule_waiting env s2 (l2\<lparr>l_loras := x\<rparr>) = Inr (s', l)"
    using run by (auto simp: schedule_passes_def Let_def bindR_eq_Inr)
  have d: "distinct (s_running ?s)"
    using running_distinct [of _ _ _ ?s "initial_locals s"] initial_locals_ok [OF ready, of "kv_new_step_starts (s_kv s)"] by (auto simp: run_ok_def)
  have "rid \<in> dict_keys (l_num l2) \<or> s_running s2 = [] \<and> l_num l2 = [] \<and> l_preempted l2 \<noteq> [] \<and> starved s rid rest"
    using running_loop_head [OF r(1) _ _ d, of rid rest] head fc t pause bud ids by (auto simp: initial_locals_def text_ready_def starved_def Let_def)
  then show ?thesis using schedule_waiting_keys [OF r(2)] by auto
qed

lemma schedule_head:
  assumes run: "schedule env s = Inr (out, s')" and head: "s_running s = rid # rest" and ready: "step_ready s"
    and fc: "cfg_policy (s_config s) \<noteq> PRIORITY" and t: "text_ready rid s"
    and pause: "s_pause_state s \<noteq> PAUSED_ALL" and bud: "0 < cfg_max_num_scheduled_tokens (s_config s)"
    and ids: "\<forall>q \<in> set (s_running s). request_id (s_store s q) = q"
  shows "rid \<in> dict_keys (so_num_scheduled_tokens out) \<or> s_running s' = [] \<and> so_num_scheduled_tokens out = [] \<and> starved s rid rest"
proof -
  obtain s1 l out1 s2 where p: "schedule_passes env s = Inr (s1, l)" and b: "build_output s1 l = Inr (out1, s2)"
    and u: "update_after_schedule out1 (build_meta env out1 s2) = Inr (s', out)"
    using run by (auto simp: schedule_def bindR_eq_Inr)
  have k: "queues_kept s1 s'"
    using queues_kept_trans [OF queues_kept_trans [OF build_output_queues(1) [OF b] build_meta_queues]
        update_after_schedule_queues(1) [OF u]] .
  have "so_num_scheduled_tokens out = l_num l" by (simp add: update_after_schedule_queues(2) [OF u] build_output_queues(2) [OF b])
  with schedule_passes_head [OF p head ready fc t pause bud ids] k show ?thesis by (simp add: queues_kept_def)
qed

text \<open>
  C5: The oldest request makes progress. With first-come-first-served scheduling, a token budget and no pause, a
  step of \<open>schedule\<close> gives the first request of the running list at least one token, if it is a text request that
  has tokens left to compute below the maximal length: requests that came later are preempted to make room
  for it. The only other outcome is that the cache is too small for it: every running request
  has been preempted, nothing is scheduled, and in the cache as it was with the blocks of all other running requests
  given back, so that they hold nothing, the free blocks are fewer than those counted for the tokens it asks for.
\<close>

theorem oldest_request_progresses:
  assumes "schedule env s = Inr (out, s')" and "s_running s = rid # rest" and "step_ready s"
    and "cfg_policy (s_config s) \<noteq> PRIORITY" and "text_ready rid s"
    and "s_pause_state s \<noteq> PAUSED_ALL" and "0 < cfg_max_num_scheduled_tokens (s_config s)"
    and "\<forall>q \<in> set (s_running s). request_id (s_store s q) = q"
  shows "(\<exists>n > 0. map_of (so_num_scheduled_tokens out) rid = Some n)
    \<or> so_num_scheduled_tokens out = [] \<and> s_running s' = []
      \<and> (let k = kv_new_step_starts (s_kv s); r = s_store s rid;
             n = running_tokens (s_config s) (cfg_max_num_scheduled_tokens (s_config s)) r;
             count = count_for k r n (cfg_num_lookahead_tokens (s_config s))
         in 0 < n \<and> (\<exists>c c' b. room_made rid (total_computed_tokens k r 0 0) count (set rest) (k_coordinator k) c
              \<and> (\<forall>q \<in> set rest. \<forall>m \<in> set (single_type_managers c). blocks_of q m = [])
              \<and> count c = Inr (b, c') \<and> get_num_free_blocks (c_pool c') < b))"
proof -
  obtain l where l: "wait_ok (l_budget (initial_locals s)) (all_ids s) (s_config s) s' l" "l_num l = so_num_scheduled_tokens out"
    by (rule schedule_ok [OF assms(1,3)])
  then have pos: "\<forall>x \<in> set (so_num_scheduled_tokens out). 0 < snd x" by (simp add: wait_ok_def step_ok_def)
  show ?thesis
  proof (cases "rid \<in> dict_keys (so_num_scheduled_tokens out)")
    case True
    then obtain n where "map_of (so_num_scheduled_tokens out) rid = Some n" by (metis map_of_eq_None_iff not_None_eq)
    with pos show ?thesis using map_of_SomeD by fastforce
  next
    case False
    let ?r = "s_store s rid"
    have "request_id ?r = rid" using assms(2,8) by simp
    moreover have "0 < running_tokens (s_config s) (cfg_max_num_scheduled_tokens (s_config s)) ?r"
      using assms(5,7) by (auto simp: running_tokens_def capped_def text_ready_def Let_def)
    ultimately show ?thesis using schedule_head [OF assms] False
      by (auto simp: starved_def cache_too_small_def holds_nothing_def Let_def)
  qed
qed

theorem oldest_request_progresses_witness:
  "\<exists>out s'. schedule small_env small_full = Inr (out, s') \<and> s_running s' = [''a'']
     \<and> (\<exists>n > 0. map_of (so_num_scheduled_tokens out) ''a'' = Some n)"
proof -
  have "map_sum id (\<lambda>(out, s). s_running s) (schedule small_env small_full) = Inr [''a'']" by code_simp
  then obtain out s' where o: "schedule small_env small_full = Inr (out, s')" "s_running s' = [''a'']"
    by (cases "schedule small_env small_full") auto
  have t: "text_ready ''a'' small_full" "s_pause_state small_full \<noteq> PAUSED_ALL" by code_simp+
  have c: "s_running small_full = ''a'' # [''b'']" "cfg_policy (s_config small_full) \<noteq> PRIORITY" "0 < cfg_max_num_scheduled_tokens (s_config small_full)"
    using small_full_queues by (simp_all add: small_cfg_def)
  have "\<forall>q \<in> set [''a'', ''b'']. request_id (s_store small_full q) = q" by code_simp
  then have "\<forall>q \<in> set (s_running small_full). request_id (s_store small_full q) = q" using c(1) by simp
  from oldest_request_progresses [OF o(1) c(1) small_full_ready c(2) t c(3) this] o show ?thesis by auto
qed

end
