(* ===== verification/Scheduler_Findings.thy ===== *)
theory Scheduler_Findings
  imports Scheduler_Limits
begin

text \<open>
  Histories in which the scheduler does not do what it means to. Each is a short run from a fresh scheduler, with the
  outputs of two steps in flight where the engine works with a queue of batches.
\<close>

subsection \<open>Runs\<close>

definition returned :: "'x sched_env \<Rightarrow> (string \<Rightarrow> int list) \<Rightarrow> scheduler_output \<Rightarrow> 'x scheduler \<Rightarrow> 'x scheduler result" where
  "returned env f out s = bindR (update_from_output env out (sampled f out) s) (\<lambda>(_, s2). Inr s2)"

subsection \<open>A hash that outlives its token\<close>

text \<open>Hashes that spell out the tokens before them, in blocks of two.\<close>

definition concat_env :: hash_env where
  "concat_env = \<lparr>caching_hash_fn = (\<lambda>(p, ids, _). p @ map word_of_int ids), NONE_HASH = [], sha256 = (\<lambda>x. x),
     he_block_size = 2\<rparr>"

definition session_env :: "unit sched_env" where
  "session_env = small_env\<lparr>env_hash := concat_env, env_hasher := Some (request_block_hasher concat_env)\<rparr>"

definition hashed_request :: "string \<Rightarrow> int list \<Rightarrow> bool \<Rightarrow> request" where
  "hashed_request rid ts again =
     projr (update_block_hashes (env_hasher session_env) ((small_request rid ts)\<lparr>resumable := again\<rparr>))"

definition session_round :: "int \<Rightarrow> request \<Rightarrow> unit scheduler \<Rightarrow> unit scheduler result" where
  "session_round token r s =
     bindR (scheduler_add_request session_env r s) (\<lambda>s1.
     bindR (schedule session_env s1) (\<lambda>(out, s2). returned session_env (\<lambda>_. [token]) out s2))"

text \<open>
  A session sends three tokens and stops at the end token 2; its next part is two more tokens. Then another
  request comes with the three tokens, the end token and a fifth one.
\<close>

definition session_continued :: "unit scheduler result" where
  "session_continued =
     bindR (scheduler_init session_env (small_cfg FCFS 8 16) (small_kv_config 5) (Some 5) True False 1 1 False None False 0 ()) (\<lambda>s0.
     bindR (session_round 2 (hashed_request ''a'' [1, 3, 4] True) s0)
       (session_round 2 (hashed_request ''a'' [9, 9] True)))"

definition other_scheduled :: "unit scheduler result" where
  "other_scheduled =
     bindR session_continued (\<lambda>s1.
     bindR (scheduler_add_request session_env (hashed_request ''b'' [1, 3, 4, 2, 5] False) s1) (\<lambda>s2.
     bindR (schedule session_env s2) (\<lambda>(_, s3). Inr s3)))"

text \<open>
  In this run the second block of the session holds the tokens 4 and 9;
  a request whose prompt has 4 and 2 there gets this block as a prefix-cache hit, with four of its five tokens
  taken as computed.
\<close>

lemma continued_session_poisons_cache:
  "map_sum id (\<lambda>s. (take 4 (all_token_ids (s_store s ''a'')), take 4 (all_token_ids (s_store s ''b'')),
       num_cached_tokens (s_store s ''b''), map_option (map (take 2)) (kv_get_block_ids ''a'' (s_kv s)),
       map_option (map (take 2)) (kv_get_block_ids ''b'' (s_kv s)))) other_scheduled
   = Inr ([1, 3, 4, 9], [1, 3, 4, 2], 4, Some [[1, 2]], Some [[1, 2]])"
  by code_simp

text \<open>The update of a session in general: the tokens beyond the computed ones are replaced, the hashes stay.\<close>

lemma session_tokens_frame:
  assumes "session_tokens u r = Inr r1"
  shows "block_hashes r1 = block_hashes r"
    "all_token_ids r1 = slice_to (all_token_ids r) (num_computed_tokens r) @ (case su_prompt_token_ids u of None \<Rightarrow> [] | Some ts \<Rightarrow> ts)"
    "lora_request_of r1 = lora_request_of r" "cache_salt r1 = cache_salt r" "prompt_embeds r1 = prompt_embeds r"
  using assms by (auto simp: session_tokens_def Let_def split: option.split_asm)

lemma update_as_session_frame:
  assumes run: "update_request_as_session env rid u s = Inr s'" and h: "env_hasher env = Some (request_block_hasher henv)"
  shows "prefix (block_hashes (s_store s rid)) (block_hashes (s_store s' rid))"
    "all_token_ids (s_store s' rid) = slice_to (all_token_ids (s_store s rid)) (num_computed_tokens (s_store s rid))
       @ (case su_prompt_token_ids u of None \<Rightarrow> [] | Some ts \<Rightarrow> ts)"
proof -
  obtain r1 r2 where r: "session_tokens u (s_store s rid) = Inr r1" "update_block_hashes (env_hasher env) r1 = Inr r2"
    "block_hashes (s_store s' rid) = block_hashes r2" "all_token_ids (s_store s' rid) = all_token_ids r2"
    using run by (auto simp: update_request_as_session_def bindR_eq_Inr Let_def upd_def)
  obtain new r3 where n: "request_block_hasher henv r1 = Inr (new, r3)" "r2 = r3\<lparr>block_hashes := block_hashes r3 @ new\<rparr>"
    using r(2) by (auto simp: h update_block_hashes_def bindR_eq_Inr)
  obtain memo where "r3 = r1\<lparr>prompt_embeds_per_block_hashes := memo\<rparr>"
    using request_block_hasher_frame n(1) unfolding hasher_frame_def by fastforce
  then show "prefix (block_hashes (s_store s rid)) (block_hashes (s_store s' rid))"
    "all_token_ids (s_store s' rid) = slice_to (all_token_ids (s_store s rid)) (num_computed_tokens (s_store s rid))
       @ (case su_prompt_token_ids u of None \<Rightarrow> [] | Some ts \<Rightarrow> ts)"
    using session_tokens_frame [OF r(1)] n(2) r(3,4) by simp_all
qed

text \<open>
  C31: A continued session keeps the hashes of tokens it no longer holds. When \<open>_update_request_as_session\<close>
  runs on a text session whose hashes are those of its tokens, the tokens become the computed ones followed by the
  next part, but every block hash stays. So if a block that was full before and is full after has other tokens now,
  its hash is not the one of its tokens, although the hash function does not collide; and every other text
  request that has the session's former tokens up to the end of this block, with the same extra keys, has that
  very hash there: once the block is cached, that request takes over a block with the wrong tokens.
\<close>

theorem continued_session_keeps_stale_hash:
  assumes env: "env_hasher env = Some (request_block_hasher henv)" "collision_free henv" "0 < he_block_size henv"
    and ok: "hash_state henv (s_store s rid)" and run: "update_request_as_session env rid u s = Inr s'"
    and full: "i < full_blocks henv (s_store s rid)" "i < full_blocks henv (s_store s' rid)"
    and other: "block_tokens henv (s_store s' rid) i \<noteq> block_tokens henv (s_store s rid) i"
  shows "all_token_ids (s_store s' rid) = slice_to (all_token_ids (s_store s rid)) (num_computed_tokens (s_store s rid))
       @ (case su_prompt_token_ids u of None \<Rightarrow> [] | Some ts \<Rightarrow> ts)
    \<and> block_hashes (s_store s' rid) ! i \<noteq> chain henv (s_store s' rid) (full_blocks henv (s_store s' rid)) ! i
    \<and> (\<forall>r. hash_state henv r \<and> i < full_blocks henv r
          \<and> (\<forall>l \<le> i. block_tokens henv r l = block_tokens henv (s_store s rid) l \<and> block_keys henv r l = block_keys henv (s_store s rid) l)
          \<longrightarrow> block_hashes r ! i = block_hashes (s_store s' rid) ! i)"
proof -
  let ?r = "s_store s rid" and ?r' = "s_store s' rid"
  note f = update_as_session_frame [OF run env(1)]
  have old: "block_hashes ?r = chain henv ?r (full_blocks henv ?r)" using ok by (simp add: hash_state_def hashes_current_def)
  have same: "block_hashes ?r' ! i = chain henv ?r (full_blocks henv ?r) ! i"
    using f(1) full(1) by (auto simp: old prefix_def nth_append)
  have "block_hashes ?r' ! i \<noteq> chain henv ?r' (full_blocks henv ?r') ! i"
    using chain_inject [OF env(2) full(2,1), of ?r' ?r] other unfolding same by auto
  moreover have "block_hashes r ! i = block_hashes ?r' ! i"
    if r: "hash_state henv r" "i < full_blocks henv r"
      "\<forall>l \<le> i. block_tokens henv r l = block_tokens henv ?r l \<and> block_keys henv r l = block_keys henv ?r l" for r
  proof -
    have "chain henv r (Suc i) = chain henv ?r (Suc i)" using r(3) by (intro chain_cong) (simp_all add: less_Suc_eq_le)
    moreover have "chain henv q n ! i = chain henv q (Suc i) ! i" if "i < n" for q n
      using chain_take [of "Suc i" n henv q] that by (metis Suc_leI lessI nth_take)
    ultimately have "chain henv r (full_blocks henv r) ! i = chain henv ?r (full_blocks henv ?r) ! i"
      using r(2) full(1) by metis
    then show ?thesis using r(1) same by (simp add: hash_state_def hashes_current_def)
  qed
  ultimately show ?thesis using f(2) by blast
qed

text \<open>A session of four tokens, the last one sampled and not computed, continued with a 9.\<close>

definition stopped_session :: request where
  "stopped_session = (small_request ''a'' [1, 3, 4])\<lparr>all_token_ids := [1, 3, 4, 2], num_computed_tokens := 3,
     block_hashes := [serialise ([], [1, 3], None), serialise (serialise ([], [1, 3], None), [4, 2], None)]\<rparr>"

definition next_part :: streaming_update where
  "next_part = \<lparr>su_mm_features = [], su_prompt_token_ids = Some [9], su_max_tokens = 4, su_arrival_time = 1,
     su_sampling_params = Some small_sampling\<rparr>"

theorem continued_session_keeps_stale_hash_witness:
  "\<exists>s s'. s_store s ''a'' = stopped_session
     \<and> update_request_as_session (small_env\<lparr>env_hasher := Some (request_block_hasher (serialising_env 2))\<rparr>) ''a'' next_part s = Inr s'
     \<and> all_token_ids (s_store s' ''a'') = [1, 3, 4, 9]
     \<and> block_hashes (s_store s' ''a'') ! 1 \<noteq> chain (serialising_env 2) (s_store s' ''a'') 2 ! 1"
proof -
  let ?henv = "serialising_env 2" and ?env = "small_env\<lparr>env_hasher := Some (request_block_hasher (serialising_env 2))\<rparr>"
  let ?s = "upd ''a'' (\<lambda>_. stopped_session) (projr (small_scheduler FCFS 8 16 5))"
  have st: "s_store ?s ''a'' = stopped_session" by (simp add: upd_def)
  have ok: "hash_state ?henv stopped_session"
    using serialise_nonempty
    by (simp add: hash_state_def hashes_current_def memo_ok_def full_blocks_def num_tokens_def stopped_session_def
        small_request_def bare_request_def hash_block_tokens_def block_tokens_def block_keys_def gen_lora_extra_hash_keys_def
        salt_keys_def embeds_key_def serialising_env_def Let_def numeral_2_eq_2)
  have "\<not> isl (bindR (session_tokens next_part stopped_session) (update_block_hashes (Some (request_block_hasher ?henv))))" by code_simp
  then obtain r2 where "bindR (session_tokens next_part stopped_session) (update_block_hashes (Some (request_block_hasher ?henv))) = Inr r2"
    by (metis sum.collapse(2))
  then obtain r1 where r: "session_tokens next_part stopped_session = Inr r1"
    "update_block_hashes (Some (request_block_hasher ?henv)) r1 = Inr r2" by (auto simp: bindR_eq_Inr)
  then obtain s' where run: "update_request_as_session ?env ''a'' next_part ?s = Inr s'"
    by (simp add: update_request_as_session_def st Let_def)
  have toks: "all_token_ids (s_store s' ''a'') = [1, 3, 4, 9]"
    using update_as_session_frame(2) [OF run, of ?henv] unfolding st by (simp add: stopped_session_def next_part_def small_request_def)
  have full: "full_blocks ?henv (s_store ?s ''a'') = 2" "full_blocks ?henv (s_store s' ''a'') = 2"
    unfolding st by (simp_all add: full_blocks_def num_tokens_def toks serialising_env_def stopped_session_def)
  have other: "block_tokens ?henv (s_store s' ''a'') 1 \<noteq> block_tokens ?henv (s_store ?s ''a'') 1"
    unfolding st by (simp add: block_tokens_def toks serialising_env_def stopped_session_def)
  have ok': "hash_state ?henv (s_store ?s ''a'')" using ok by (simp only: st)
  have "block_hashes (s_store s' ''a'') ! 1 \<noteq> chain ?henv (s_store s' ''a'') (full_blocks ?henv (s_store s' ''a'')) ! 1"
    using continued_session_keeps_stale_hash [OF _ serialising_env_collision_free _ ok' run _ _ other] full
    by (simp add: serialising_env_def)
  then show ?thesis using st run toks unfolding full by blast
qed

subsection \<open>A session that is lost\<close>

text \<open>
  A long prompt is computed two tokens at a time, and a session with two parts comes after it. Two steps are
  scheduled; the second one preempts the session, and then the output of the first step ends its first part.
\<close>

definition lost_session :: "unit scheduler result" where
  "lost_session =
     bindR (scheduler_init small_env ((small_cfg FCFS 8 16)\<lparr>cfg_long_prefill_token_threshold := 2\<rparr>) (small_kv_config 3) (Some 3)
       False False 1 1 False None False 0 ()) (\<lambda>s0.
     bindR (foldR (scheduler_add_request small_env)
              [small_request ''b'' [6, 7, 8, 9], (small_request ''a'' [1, 3])\<lparr>resumable := True\<rparr>,
               (small_request ''a'' [4, 5])\<lparr>resumable := True\<rparr>] s0) (\<lambda>s1.
     bindR (schedule small_env s1) (\<lambda>(out1, s2).
     bindR (schedule small_env s2) (\<lambda>(_, s3).
       returned small_env (\<lambda>rid. if rid = ''a'' then [2] else []) out1 s3))))"

text \<open>
  A session can be lost. A resumable request with its next part queued is preempted while a step of it is in
  flight; when the output of that step ends the part, the session is updated and put into the waiting queue again,
  and then \<open>update_from_output\<close> removes every request that stopped while preempted from the waiting queue.
  The request then waits, is among the scheduler's requests and is in no queue; and because it was preempted
  with no computed tokens, the update has dropped the tokens of its first part from the tokens but not from the prompt.
\<close>

lemma preempted_session_is_lost:
  "map_sum id (\<lambda>s. (s_requests s, s_running s, queue_items (s_waiting s), queue_items (s_skipped s),
       status (s_store s ''a''), all_token_ids (s_store s ''a''), prompt_token_ids (s_store s ''a''))) lost_session
   = Inr ([''b'', ''a''], [''b''], [], [], WAITING, [4, 5], Some [1, 3, 4, 5])"
  by code_simp

text \<open>
  In general: a session that stops while it is preempted and has a next part is put into the waiting queue and among the
  requests stopped while preempted; whatever else the update does, it then removes that session from the queue.
\<close>

lemma stopped_preempted_session:
  assumes run: "stop_request env rid before s u = Inr (x, s1, u1)" and before: "before \<noteq> RUNNING"
    and session: "resumable (s_store s rid)" "streaming_queue (s_store s rid) = Some (Some nxt # q)"
    and later: "set (u_stopped_preempted u1) \<subseteq> set (u_stopped_preempted u2)"
  shows "status (s_store s1 rid) = WAITING \<and> rid \<in> set (queue_items (s_waiting s1)) \<and> s_requests s1 = s_requests s
    \<and> rid \<notin> set (queue_items (s_waiting (remove_stopped s2 u2)))"
proof -
  let ?s = "upd rid (\<lambda>r. r\<lparr>streaming_queue := Some q\<rparr>) s"
  obtain s0 where s0: "update_request_as_session env rid nxt ?s = Inr s0" "s1 = enqueue_waiting_request rid s0"
    using run session by (auto simp: stop_request_def handle_stopped_request_def bindR_eq_Inr Let_def)
  have w: "status (s_store s0 rid) = WAITING" "s_requests s0 = s_requests s"
    using s0(1) by (auto simp: update_request_as_session_def bindR_eq_Inr Let_def upd_def)
  have "rid \<in> set (queue_items (add_request (s_store s0) rid (s_waiting s0)))"
    using add_request_bag [of "s_store s0" rid "s_waiting s0"] by (metis set_mset_mset union_single_eq_member)
  then have s1: "status (s_store s1 rid) = WAITING" "rid \<in> set (queue_items (s_waiting s1))" "s_requests s1 = s_requests s"
    using w by (simp_all add: s0(2) enqueue_waiting_request_def is_blocked_waiting_status_def)
  have "rid \<in> set (u_stopped_preempted u2)"
    using run before later by (auto simp: stop_request_def bindR_eq_Inr Let_def)
  moreover have gone: "set (queue_items (remove_requests st rs w)) \<inter> rs = {}" for rs st w
    unfolding set_mset_mset [symmetric] remove_requests_bag by auto
  have "s_waiting (remove_stopped s2 u2) = remove_requests (s_store s2) (set (u_stopped_preempted u2)) (s_waiting s2)"
    if "u_stopped_preempted u2 \<noteq> []" using that by (simp add: remove_stopped_def Let_def)
  ultimately have "rid \<notin> set (queue_items (s_waiting (remove_stopped s2 u2)))"
    using gone [of "s_store s2" "set (u_stopped_preempted u2)" "s_waiting s2"] by fastforce
  with s1 show ?thesis by blast
qed

subsection \<open>A request passed over\<close>

text \<open>
  With priorities, the victim of a preemption may stand before the cursor without being scheduled in this step: one
  whose tokens are all in flight. The cursor is moved back only for a victim that was scheduled; so the current
  request now stands before the cursor, the next one under it, and the step after the allocation goes on behind that
  next request, which gets nothing although it may have tokens, budget and blocks.
\<close>

lemma preemption_shifts_cursor:
  assumes v: "lowest_priority (s_store s) (s_running s) = Inr (s_running s ! j)" and j: "j < i"
    and i: "Suc i < length (s_running s)" and d: "distinct (s_running s)" and p: "cfg_policy (s_config s) = PRIORITY"
    and u: "s_running s ! j \<notin> set (l_running l)"
  shows "\<exists>s'. pick_victim (int i) s l = Inr (s_running s ! j, int i, s', l)
    \<and> s_running s' ! (i - 1) = s_running s ! i \<and> s_running s' ! i = s_running s ! Suc i"
proof -
  have r: "remove1 (s_running s ! j) (s_running s) = take j (s_running s) @ drop (Suc j) (s_running s)"
  proof -
    have "s_running s = take j (s_running s) @ s_running s ! j # drop (Suc j) (s_running s)"
      using i j by (intro id_take_nth_drop) simp
    moreover have "s_running s ! j \<notin> set (take j (s_running s))"
      using d i j by (auto simp: in_set_conv_nth nth_eq_iff_index_eq)
    ultimately show ?thesis by (metis remove1_append remove1.simps(2))
  qed
  have "(take j (s_running s) @ drop (Suc j) (s_running s)) ! k = s_running s ! Suc k" if "j \<le> k" "Suc k < length (s_running s)" for k
    using that by (simp add: nth_append min_def)
  from this [of "i - 1"] this [of i] show ?thesis using v u p i j by (simp add: pick_victim_def Let_def r)
qed

subsection \<open>A request that never ends\<close>

text \<open>
  A running request one token below the maximal length, with its last token sampled, gets no tokens: every pass
  steps over it. Before \<open>min_tokens\<close> are generated \<open>check_stop\<close> does not look at the length, so a request
  can come to stay there.
\<close>

lemma at_max_len_passed_over:
  assumes "py_nth (s_running s) i = Inr rid" "num_computed_tokens (s_store s rid) = cfg_max_model_len (s_config s) - 1"
    and "num_computed_tokens (s_store s rid) < num_tokens_with_spec (s_store s rid) + num_output_placeholders (s_store s rid)"
    and "0 < l_budget l" "mm_features (s_store s rid) = []" "\<not> cfg_need_mamba_block_aligned_split (s_config s)"
  shows "running_step env i s l = Inr (Continue (i + 1, s, l))"
proof -
  have "running_tokens (s_config s) (l_budget l) (s_store s rid) = 0"
    using assms(2-4) by (simp add: running_tokens_def capped_def)
  then have "plan_running env rid s l = Inr ((0, [], [], l_enc_budget l), s)"
    using assms(5,6) by (simp add: plan_running_def has_encoder_inputs_def Let_def)
  then show ?thesis using assms(1) by (simp add: running_step_def)
qed

definition short_model :: "nat \<Rightarrow> unit scheduler result" where
  "short_model n =
     bindR (small_adds [(small_request ''a'' [1, 3, 4])\<lparr>sampling_params_of := Some (small_sampling\<lparr>min_tokens := 3\<rparr>)\<rparr>]
              (small_scheduler FCFS 8 4 5)) (foldR small_round (replicate n (\<lambda>_. [7])))"

lemma min_tokens_stalls_at_max_len:
  "map_sum id (\<lambda>s. (s_running s, status (s_store s ''a''), num_computed_tokens (s_store s ''a''), num_tokens (s_store s ''a''),
       num_output_tokens (s_store s ''a''), mm_features (s_store s ''a''))) (short_model 2)
   = Inr ([''a''], RUNNING, 3, 4, 1, [])"
  by code_simp

end
