(* ===== verification/Cached_Slots.thy ===== *)
theory Cached_Slots
  imports Allocation_Frame
begin

text \<open>
  What an allocation of slots leaves in the prefix cache. The full blocks of the settled tokens that a request
  had not cached before carry the hash of their position and are found under it afterwards, in every group;
  with this the admission, the slots and the caching of \<open>allocate_slots\<close> are stated as one property.
\<close>

subsection \<open>The pool\<close>

text \<open>Caching only adds hashes to blocks.\<close>

definition marks_grow :: "block_pool \<Rightarrow> block_pool \<Rightarrow> bool" where
  "marks_grow p p' \<longleftrightarrow> hash_block_size p' = hash_block_size p
     \<and> (\<forall>b. is_null (pool_store p' b) = is_null (pool_store p b))
     \<and> (\<forall>b key. hash_of p b = Some key \<longrightarrow> hash_of p' b = Some key)"

lemma marks_grow_refl [simp]: "marks_grow p p"
  by (simp add: marks_grow_def)

lemma marks_grow_trans: "marks_grow p p1 \<Longrightarrow> marks_grow p1 p2 \<Longrightarrow> marks_grow p p2"
  by (simp add: marks_grow_def)

text \<open>A block is filed under the \<open>j\<close>-th hash of its group's block size.\<close>

definition filed_under :: "block_pool \<Rightarrow> hash_bytes list \<Rightarrow> nat \<Rightarrow> nat \<Rightarrow> block_ref \<Rightarrow> bool" where
  "filed_under p hs g j b \<longleftrightarrow> j < length hs
     \<and> (\<exists>key. make_block_hash_with_group_id (hs ! j) g = Inr key \<and> hash_of p b = Some key)"

lemma filed_under_mono: "filed_under p hs g j b \<Longrightarrow> marks_grow p p' \<Longrightarrow> filed_under p' hs g j b"
  by (auto simp: filed_under_def marks_grow_def)

lemma cache_blocks_loop_files:
  "cache_blocks_loop g hs i bs acc p = Inr (nh, p') \<Longrightarrow>
     marks_grow p p' \<and> (\<forall>j < length bs. \<not> is_null (pool_store p (bs ! j)) \<longrightarrow> filed_under p' hs g (i + j) (bs ! j))"
proof (induction g hs i bs acc p rule: cache_blocks_loop.induct)
  case (2 g hs i b bs acc p)
  show ?case
  proof (cases "is_null (pool_store p b)")
    case True
    have IH: "marks_grow p p' \<and> (\<forall>j < length bs. \<not> is_null (pool_store p (bs ! j)) \<longrightarrow> filed_under p' hs g (i + 1 + j) (bs ! j))"
      using "2.IH"(1) [OF True] "2.prems" True by simp
    then show ?thesis using True by (auto simp: nth_Cons split: nat.split)
  next
    case False
    obtain h key s where h: "block_hash (pool_store p b) = None" "py_nth hs (int i) = Inr h"
      "make_block_hash_with_group_id h g = Inr key" "set_block_hash b key (pool_store p) = Inr s"
      using "2.prems" False by (auto simp: bindR_eq_Inr assertR_def split: if_splits)
    define p2 where "p2 = (set_store s p)\<lparr>cached_block_hash_to_block :=
        cache_insert key b (cached_block_hash_to_block (set_store s p))\<rparr>"
    have s: "s = (pool_store p)(b := (pool_store p b)\<lparr>block_hash := Some key\<rparr>)"
      using h(4) by (simp add: set_block_hash_def split: if_splits)
    have st: "pool_store p2 = s" "hash_block_size p2 = hash_block_size p" by (simp_all add: p2_def set_store_def)
    have i: "i < length hs" "h = hs ! i" using h(2) by (auto simp: py_nth_def split: if_splits)
    have step: "marks_grow p p2" "filed_under p2 hs g i b"
      using h(1,3) i by (simp_all add: marks_grow_def filed_under_def st) (simp_all add: s)
    have IH: "marks_grow p2 p' \<and> (\<forall>j < length bs. \<not> is_null (pool_store p2 (bs ! j)) \<longrightarrow> filed_under p' hs g (i + 1 + j) (bs ! j))"
      unfolding p2_def using "2.IH"(2) [OF False _ h(2,3,4) refl refl] "2.prems" False h by (simp add: Let_def)
    have null: "is_null (pool_store p2 c) = is_null (pool_store p c)" for c using step(1) by (simp add: marks_grow_def)
    show ?thesis
      using IH marks_grow_trans [OF step(1)] filed_under_mono [OF step(2)] unfolding null
      by (auto simp: nth_Cons split: nat.split)
  qed
qed simp

lemma cache_full_blocks_files:
  assumes run: "cache_full_blocks env r bs nc nf bsz g p = Inr (r', p')" and nc: "0 \<le> nc"
  shows "marks_grow p p'
    \<and> (\<forall>j < length bs. nc \<le> int j \<longrightarrow> int j < nf \<longrightarrow> \<not> is_null (pool_store p (bs ! j)) \<longrightarrow>
         (\<exists>hs. group_block_hashes p r bsz = Inr hs \<and> filed_under p' hs g j (bs ! j)))"
proof (cases "nc \<ge> nf")
  case True
  then show ?thesis using run by (auto simp: cache_full_blocks_def)
next
  case False
  obtain hs nh p1 ev where hs: "group_block_hashes p r bsz = Inr hs"
    and loop: "cache_blocks_loop g (slice_from hs nc) 0 (slice_between bs nc nf) [] p = Inr (nh, p1)"
    and p': "p' = p1\<lparr>kv_event_queue := ev\<rparr>"
  proof -
    obtain hs nh p1 where o: "group_block_hashes p r bsz = Inr hs"
      "cache_blocks_loop g (slice_from hs nc) 0 (slice_between bs nc nf) [] p = Inr (nh, p1)"
      "(if \<not> enable_kv_cache_events p1 then Inr (r, p1) else
          bindR (if nc = 0 then Inr None else bindR (py_nth hs (nc - 1)) (\<lambda>h.
                          Inr (Some (maybe_convert_block_hash (use_int_block_hashes p1) h)))) (\<lambda>parent.
            bindR (event_keys_loop env p1 bs bsz [nc..nf - 1] 0 [] r) (\<lambda>(keys, r').
                Inr (r', p1\<lparr>kv_event_queue := kv_event_queue p1 @
                  [BlockStored nh parent (slice_between (all_token_ids r') (nc * bsz) (nf * bsz)) bsz
                     (map_option lora_int_id (lora_request_of r')) (map_option lora_name (lora_request_of r'))
                     (if keys = [] then None else Some keys)]\<rparr>)))) = Inr (r', p')"
      using run False unfolding cache_full_blocks_def by (auto simp: bindR_eq_Inr simp del: slice_nonneg)
    have "\<exists>ev. p' = p1\<lparr>kv_event_queue := ev\<rparr>"
    proof (cases "enable_kv_cache_events p1")
      case True
      then show ?thesis using o(3) by (auto simp: bindR_eq_Inr simp del: slice_nonneg)
    next
      case False
      then show ?thesis using o(3) by (auto intro: exI [of _ "kv_event_queue p1"])
    qed
    with o(1,2) that show ?thesis by blast
  qed
  have grow: "marks_grow p1 p'" by (simp add: p' marks_grow_def)
  have sl: "slice_from hs nc = drop (nat nc) hs" "slice_between bs nc nf = drop (nat nc) (take (nat nf) bs)"
    using nc False by simp_all
  note f = cache_blocks_loop_files [OF loop, unfolded sl]
  have "filed_under p' hs g j (bs ! j)"
    if j: "j < length bs" "nc \<le> int j" "int j < nf" "\<not> is_null (pool_store p (bs ! j))" for j
  proof -
    have jj: "j - nat nc < length (drop (nat nc) (take (nat nf) bs))" "drop (nat nc) (take (nat nf) bs) ! (j - nat nc) = bs ! j"
      using j nc by (auto simp: nth_append) (subst nth_drop; auto)+
    have "filed_under p1 (drop (nat nc) hs) g (j - nat nc) (bs ! j)" using f jj j(4) by (metis add_0)
    then have "filed_under p1 hs g j (bs ! j)" using j nc by (auto simp: filed_under_def)
    then show ?thesis using grow by (rule filed_under_mono)
  qed
  with hs f marks_grow_trans [OF _ grow] show ?thesis by blast
qed

subsection \<open>One group\<close>

text \<open>
  The blocks of a request from index \<open>c\<close> on that are full with \<open>n\<close> tokens are filed under the hashes of their
  positions.
\<close>

definition full_blocks_filed :: "request \<Rightarrow> int \<Rightarrow> int \<Rightarrow> block_pool \<Rightarrow> manager \<Rightarrow> block_pool \<Rightarrow> bool" where
  "full_blocks_filed r n c p m p' \<longleftrightarrow>
     (\<forall>j < length (blocks_of (request_id r) m). c \<le> int j \<longrightarrow> int j < n div m_block_size m \<longrightarrow>
        \<not> is_null (pool_store p (blocks_of (request_id r) m ! j)) \<longrightarrow>
        (\<exists>hs. group_block_hashes p r (m_block_size m) = Inr hs
           \<and> filed_under p' hs (kv_cache_group_id m) j (blocks_of (request_id r) m ! j)))"

lemma group_hashes_same:
  "same_request r r' \<Longrightarrow> marks_grow p p' \<Longrightarrow> group_block_hashes p' r' bsz = group_block_hashes p r bsz"
  by (auto simp: group_block_hashes_def same_request_def marks_grow_def)

lemma base_cache_blocks_files:
  assumes run: "base_cache_blocks env r n m p = Inr (r', m', p')" and c: "0 \<le> num_cached (request_id r) m"
  shows "marks_grow p p' \<and> blocks_of (request_id r) m' = blocks_of (request_id r) m \<and> mgr_config m m'
    \<and> full_blocks_filed r n (num_cached (request_id r) m) p m p'"
proof (cases "num_cached (request_id r) m \<ge> n div m_block_size m")
  case True
  then show ?thesis using run by (auto simp: base_cache_blocks_def Let_def full_blocks_filed_def)
next
  case False
  then obtain m1 where cf: "cache_full_blocks env r (blocks_of (request_id r) m) (num_cached (request_id r) m)
      (n div m_block_size m) (m_block_size m) (kv_cache_group_id m) p = Inr (r', p')"
    and m': "m' = (ensure_blocks (request_id r) m)\<lparr>num_cached_block := m1\<rparr>"
    using run by (auto simp: base_cache_blocks_def Let_def bindR_eq_Inr)
  have "blocks_of (request_id r) m' = blocks_of (request_id r) m" "mgr_config m m'"
    by (simp_all add: m' blocks_of_def ensure_blocks_def set_blocks_def dict_get_def update_conv' mgr_config_def)
  then show ?thesis using cache_full_blocks_files [OF cf c] by (simp add: full_blocks_filed_def)
qed

lemma cache_blocks_files:
  assumes run: "cache_blocks env r n m p = Inr (r', m', p')" and c: "0 \<le> num_cached (request_id r) m"
  shows "marks_grow p p' \<and> blocks_of (request_id r) m' = blocks_of (request_id r) m \<and> mgr_config m m'
    \<and> full_blocks_filed r n (num_cached (request_id r) m) p m p'"
proof -
  have "\<exists>m1 x. base_cache_blocks env r n m p = Inr (r', m1, p') \<and> (m' = m1 \<or> m' = m1\<lparr>cached_blocks_this_step := x\<rparr>)"
    using run unfolding cache_blocks_def
    by (cases "spec_class_of (m_spec m)") (auto simp: bindR_eq_Inr Let_def split: if_splits)
  then obtain m1 x where m1: "base_cache_blocks env r n m p = Inr (r', m1, p')"
    and "m' = m1 \<or> m' = m1\<lparr>cached_blocks_this_step := x\<rparr>" by blast
  then have "blocks_of (request_id r) m' = blocks_of (request_id r) m1" "mgr_config m m1 \<longrightarrow> mgr_config m m'"
    by (auto simp: blocks_of_def mgr_config_def)
  then show ?thesis using base_cache_blocks_files [OF m1 c] by simp
qed

subsection \<open>All groups\<close>

text \<open>What each manager's step establishes of the state it leaves, and later steps keep.\<close>

lemma each_manager_collect:
  assumes run: "each_manager op i ms s = Inr (as, ms', s')"
    and step: "\<And>j t a m' u. j < length ms \<Longrightarrow> S s t \<Longrightarrow> op (i + j) (ms ! j) t = Inr (a, m', u) \<Longrightarrow>
        S t u \<and> Q (i + j) (ms ! j) m' u"
    and keep: "\<And>j m m' t u. Q j m m' t \<Longrightarrow> S t u \<Longrightarrow> Q j m m' u"
    and rf: "\<And>t. S t t" and tr: "\<And>t u v. S t u \<Longrightarrow> S u v \<Longrightarrow> S t v"
  shows "length ms' = length ms \<and> S s s' \<and> (\<forall>j < length ms. Q (i + j) (ms ! j) (ms' ! j) s')"
  using run step
proof (induction op i ms s arbitrary: as ms' s' rule: each_manager.induct)
  case (1 op i s)
  then show ?case by (simp add: rf)
next
  case (2 op i m ms s)
  obtain a m1 s1 as1 ms1 where o: "op i m s = Inr (a, m1, s1)" "each_manager op (Suc i) ms s1 = Inr (as1, ms1, s')"
    "ms' = m1 # ms1" using "2.prems"(1) by (auto simp: bindR_eq_Inr)
  have first: "S s s1" "Q i m m1 s1" using "2.prems"(2) [of 0 s a m1 s1] o(1) rf by simp_all
  have rest: "length ms1 = length ms \<and> S s1 s' \<and> (\<forall>j < length ms. Q (Suc i + j) (ms ! j) (ms1 ! j) s')"
  proof (rule "2.IH" [OF o(1) refl refl o(2)])
    fix j t a m' u
    assume "j < length ms" "S s1 t" "op (Suc i + j) (ms ! j) t = Inr (a, m', u)"
    then show "S t u \<and> Q (Suc i + j) (ms ! j) m' u" using "2.prems"(2) [of "Suc j" t a m' u] tr [OF first(1)] by simp
  qed
  then show ?case using first keep tr unfolding o(3) by (auto simp: nth_Cons split: nat.split)
qed

lemma on_managers_collect:
  assumes run: "on_managers op c = Inr (as, c')"
    and step: "\<And>j m t a m' u. op j m t = Inr (a, m', u) \<Longrightarrow> Q j m m'"
  shows "length (single_type_managers c') = length (single_type_managers c)
    \<and> (\<forall>j < length (single_type_managers c). Q j (single_type_managers c ! j) (single_type_managers c' ! j))"
proof -
  obtain ms p where e: "each_manager op 0 (single_type_managers c) (c_pool c) = Inr (as, ms, p)"
    and c': "single_type_managers c' = ms" using run by (auto simp: on_managers_def bindR_eq_Inr)
  have "length ms = length (single_type_managers c) \<and> True
      \<and> (\<forall>j < length (single_type_managers c). Q (0 + j) (single_type_managers c ! j) (ms ! j))"
    by (rule each_manager_collect [OF e, where S = "\<lambda>_ _. True" and Q = "\<lambda>j m m' _. Q j m m'"]) (use step in auto)
  then show ?thesis by (simp add: c')
qed

lemma coord_cache_blocks_files:
  assumes run: "coord_cache_blocks env r n c = Inr (r', c')"
    and nn: "\<And>m. m \<in> set (single_type_managers c) \<Longrightarrow> 0 \<le> num_cached (request_id r) m"
  shows "marks_grow (c_pool c) (c_pool c') \<and> (\<forall>j < length (single_type_managers c).
      blocks_of (request_id r) (single_type_managers c' ! j) = blocks_of (request_id r) (single_type_managers c ! j)
      \<and> mgr_config (single_type_managers c ! j) (single_type_managers c' ! j)
      \<and> full_blocks_filed r n (num_cached (request_id r) (single_type_managers c ! j)) (c_pool c)
          (single_type_managers c ! j) (c_pool c'))"
proof -
  let ?ms = "single_type_managers c" and ?rid = "request_id r" and ?p = "c_pool c"
  obtain as ms p where e: "each_manager (cache_op env n) 0 ?ms (r, ?p) = Inr (as, ms, r', p)"
    and c': "single_type_managers c' = ms" "c_pool c' = p"
    using run by (auto simp: coord_cache_blocks_def bindR_eq_Inr)
  let ?S = "\<lambda>s t. same_request (fst s) (fst t) \<and> marks_grow (snd s) (snd t)"
  let ?Q = "\<lambda>(j::nat) m m' t. blocks_of ?rid m' = blocks_of ?rid m \<and> mgr_config m m' \<and> full_blocks_filed r n (num_cached ?rid m) ?p m (snd t)"
  have "length ms = length ?ms \<and> ?S (r, ?p) (r', p) \<and> (\<forall>j < length ?ms. ?Q (0 + j) (?ms ! j) (ms ! j) (r', p))"
  proof (rule each_manager_collect [OF e, where S = ?S and Q = ?Q])
    fix j t a m' u
    assume j: "j < length ?ms" and s: "?S (r, ?p) t" and op: "cache_op env n (0 + j) (?ms ! j) t = Inr (a, m', u)"
    have rid: "request_id (fst t) = ?rid" using s by (auto simp: same_request_def)
    have cb: "cache_blocks env (fst t) n (?ms ! j) (snd t) = Inr (fst u, m', snd u)"
      using op by (auto simp: cache_op_def bindR_eq_Inr)
    have f: "marks_grow (snd t) (snd u)" "blocks_of ?rid m' = blocks_of ?rid (?ms ! j)" "mgr_config (?ms ! j) m'"
      "full_blocks_filed (fst t) n (num_cached ?rid (?ms ! j)) (snd t) (?ms ! j) (snd u)"
      using cache_blocks_files [OF cb] nn [of "?ms ! j"] j by (simp_all add: rid)
    have null: "is_null (pool_store (snd t) b) = is_null (pool_store ?p b)" for b using s by (simp add: marks_grow_def)
    have hs: "group_block_hashes (snd t) (fst t) bs = group_block_hashes ?p r bs" for bs
      by (rule group_hashes_same) (use s in auto)
    have "full_blocks_filed r n (num_cached ?rid (?ms ! j)) ?p (?ms ! j) (snd u)"
      using f(4) by (simp add: full_blocks_filed_def rid null hs)
    then show "?S t u \<and> ?Q (0 + j) (?ms ! j) m' u" using f(1-3) cache_blocks_frame [OF cb] by blast
  next
    fix j m m' t u
    assume "?Q j m m' t" "?S t u"
    then show "?Q j m m' u" unfolding full_blocks_filed_def by (blast intro: filed_under_mono)
  qed (auto intro: same_request_trans marks_grow_trans)
  then show ?thesis by (simp add: c')
qed

text \<open>The stages before it leave the number of cached blocks alone, but for the blocks of a hit.\<close>

lemma counts_kept [simp]:
  "num_cached_block (set_blocks rid bs m) = num_cached_block m" "num_cached_block (ensure_blocks rid m) = num_cached_block m"
  "num_cached_block (note_new_blocks bs m) = num_cached_block m"
  by (simp_all add: set_blocks_def ensure_blocks_def note_new_blocks_def)

lemma base_allocate_counts: "base_allocate_new_blocks rid n m p = Inr (a, m', p') \<Longrightarrow> num_cached_block m' = num_cached_block m"
  unfolding base_allocate_new_blocks_def Let_def
  by (cases "cdiv n (m_block_size m) - int (length (blocks_of rid m)) \<le> 0") (auto simp: bindR_eq_Inr)

lemma align_allocate_counts:
  assumes "align_allocate_new_blocks sb rid mt m p = Inr (a, m', p')"
  shows "num_cached_block m' = num_cached_block m"
proof -
  let ?m0 = "ensure_blocks rid m"
  define m1 where "m1 = (if rid \<in> set (allocated_block_reqs ?m0)
      then ?m0\<lparr>last_state_block_idx := AList.update rid (int (length (blocks_of rid m)) - 1 - sb) (last_state_block_idx ?m0)\<rparr>
      else if int (length (blocks_of rid m)) > 0
      then ?m0\<lparr>last_state_block_idx := AList.update rid (int (length (blocks_of rid m)) - 1) (last_state_block_idx ?m0)\<rparr>
      else ?m0)"
  have "m' = ?m0 \<or> (\<exists>bs x. m' = (set_blocks rid bs m1)\<lparr>allocated_block_reqs := x\<rparr>)"
    using assms unfolding align_allocate_new_blocks_def Let_def m1_def [symmetric]
    by (cases "cdiv mt (m_block_size m) + sb = int (length (blocks_of rid m))") (simp_all add: bindR_eq_Inr, blast)
  moreover have "num_cached_block m1 = num_cached_block m" by (simp add: m1_def)
  ultimately show ?thesis by (elim disjE exE) (simp_all del: One_nat_def)
qed

lemma allocate_new_blocks_counts: "allocate_new_blocks rid n mt m p = Inr (a, m', p') \<Longrightarrow> num_cached_block m' = num_cached_block m"
  unfolding allocate_new_blocks_def
  by (auto dest: base_allocate_counts align_allocate_counts split: spec_class.splits if_split_asm)

lemma computed_blocks_counts:
  assumes run: "allocate_new_computed_blocks rid hs tot 0 m p = Inr (m', p')"
  shows "num_cached rid m' = (if is_cross m \<or> is_running rid m then num_cached rid m else int (length (computed_prefix m hs tot)))"
proof (cases "is_cross m \<or> is_running rid m")
  case True
  then have "m' = m"
    using run by (auto simp: allocate_new_computed_blocks_def is_cross_def base_allocate_new_computed_blocks_def bindR_eq_Inr
        split: spec_class.splits)
  with True show ?thesis by simp
next
  case False
  let ?k = "get_num_skipped_tokens m tot div m_block_size m"
  have base: "base_allocate_new_computed_blocks rid hs tot 0 m p = Inr (m', p')"
    using run False by (auto simp: allocate_new_computed_blocks_def is_cross_def split: spec_class.splits)
  define new where "new = (if ?k > 0 then slice_from hs ?k else hs)"
  define ext where "ext = (if ?k > 0 then min (tot - get_num_skipped_tokens m tot) 0 else 0)"
  define bs where "bs = replicate (nat ?k) (m_null_block m) @ new"
  define m2 where "m2 = (set_blocks rid bs m)\<lparr>num_cached_block :=
      AList.update rid (int (length bs)) (num_cached_block (set_blocks rid bs m))\<rparr>"
  have ext: "\<not> ext > 0" by (simp add: ext_def)
  have "bindR (assertR (length (blocks_of rid m) = 0)) (\<lambda>_.
      bindR (if m_enable_caching m then touch new p else bindR (assertR (new = [])) (\<lambda>_. Inr p)) (\<lambda>p1. Inr (m2, p1))) = Inr (m', p')"
    using base False ext
    unfolding base_allocate_new_computed_blocks_def Let_def add_0_right new_def [symmetric] ext_def [symmetric]
      bs_def [symmetric] m2_def [symmetric] by (simp only: if_False de_Morgan_disj)
  then have "m' = m2" by (auto simp: bindR_eq_Inr)
  then have "num_cached_block m' = AList.update rid (int (length bs)) (num_cached_block m)" by (simp add: m2_def)
  then have "num_cached rid m' = int (length bs)" by (simp add: num_cached_def dict_get_def update_conv')
  also have "length bs = length (computed_prefix m hs tot)" by (simp add: computed_prefix_def Let_def bs_def new_def)
  finally show ?thesis using False by simp
qed

lemma num_cached_field: "num_cached_block m' = num_cached_block m \<Longrightarrow> num_cached rid m' = num_cached rid m"
  by (simp add: num_cached_def)

lemma coord_allocate_counts:
  assumes "coord_allocate_new_blocks rid n mt enc c = Inr (new, c')"
  shows "length (single_type_managers c') = length (single_type_managers c)
    \<and> (\<forall>j < length (single_type_managers c). num_cached rid (single_type_managers c' ! j) = num_cached rid (single_type_managers c ! j))"
  by (rule on_managers_collect [OF assms [unfolded coord_allocate_new_blocks_def]])
    (simp add: allocate_op_def num_cached_field [OF allocate_new_blocks_counts])

lemma coord_computed_counts:
  assumes "coord_allocate_new_computed_blocks rid hs tot 0 c = Inr c'"
  shows "length (single_type_managers c') = length (single_type_managers c)
    \<and> (\<forall>j < length (single_type_managers c). num_cached rid (single_type_managers c' ! j)
      = (if is_cross (single_type_managers c ! j) \<or> is_running rid (single_type_managers c ! j)
         then num_cached rid (single_type_managers c ! j) else int (length (computed_prefix (single_type_managers c ! j) (hs ! j) tot))))"
proof -
  obtain as where o: "on_managers (computed_op rid hs tot 0) c = Inr (as, c')"
    using assms by (auto simp: coord_allocate_new_computed_blocks_def bindR_eq_Inr)
  show ?thesis
  proof (rule on_managers_collect [OF o])
    fix j m t a m' u
    assume "computed_op rid hs tot 0 j m t = Inr (a, m', u)"
    then obtain h where h: "py_nth hs (int j) = Inr h" "allocate_new_computed_blocks rid h tot 0 m t = Inr (m', u)"
      by (auto simp: computed_op_def bindR_eq_Inr)
    have "h = hs ! j" using h(1) by (auto simp: py_nth_def split: if_splits)
    then show "num_cached rid m' = (if is_cross m \<or> is_running rid m then num_cached rid m
        else int (length (computed_prefix m (hs ! j) tot)))"
      using computed_blocks_counts [OF h(2)] by simp
  qed
qed

subsection \<open>The allocation of slots\<close>

text \<open>From which block on an allocation has to cache: after the cached ones, or after a hit taken over.\<close>

definition cached_from :: "string \<Rightarrow> kv_cache_blocks \<Rightarrow> int \<Rightarrow> nat \<Rightarrow> manager \<Rightarrow> int" where
  "cached_from rid a tot j m =
     (if is_shared_empty a \<or> is_cross m then num_cached rid m else int (length (computed_prefix m (group_blocks a ! j) tot)))"

text \<open>The stages that a granted allocation has run.\<close>

lemma allocate_slots_granted:
  assumes "allocate_slots env r num_new num_new_computed new_computed num_lookahead 0 delay_cache enc k = Inr (Some new, r', k')"
    and "k_enable_caching k \<and> \<not> delay_cache"
  shows "\<exists>c1 cnt c2 c3 nw c4.
    coord_remove_skipped_blocks (request_id r) (total_computed_tokens k r num_new_computed 0) (k_coordinator k) = Inr c1
    \<and> coord_get_num_blocks_to_allocate (request_id r) (num_tokens_need_slot k r num_new num_new_computed num_lookahead 0)
        (group_blocks (given_blocks new_computed k)) enc (num_computed_tokens r + num_new_computed)
        (total_computed_tokens k r num_new_computed 0 + num_new) c1 = Inr (cnt, c2)
    \<and> (if \<not> is_shared_empty (given_blocks new_computed k)
       then coord_allocate_new_computed_blocks (request_id r) (group_blocks (given_blocks new_computed k))
              (num_computed_tokens r + num_new_computed) 0 c2 = Inr c3 else c3 = c2)
    \<and> coord_allocate_new_blocks (request_id r) (num_tokens_need_slot k r num_new num_new_computed num_lookahead 0)
        (total_computed_tokens k r num_new_computed 0 + num_new) enc c3 = Inr (nw, c4)
    \<and> coord_cache_blocks env r (num_tokens_to_cache k r num_new num_new_computed 0) c4 = Inr (r', k_coordinator k')"
  using assms unfolding allocate_slots_def Let_def
  by (cases "num_new = 0"; cases "is_shared_empty (given_blocks new_computed k)")
    (auto simp: bindR_eq_Inr split: if_split_asm)

text \<open>
  From block \<open>c\<close> on, every full block of \<open>n\<close> tokens is held and, unless it is the null block, carries the key of
  its position's hash in its group; a lookup of that hash hits with a block that carries the same key.
\<close>

definition full_blocks_found :: "request \<Rightarrow> int \<Rightarrow> int \<Rightarrow> manager \<Rightarrow> block_pool \<Rightarrow> bool" where
  "full_blocks_found r n c m p \<longleftrightarrow> n div m_block_size m \<le> int (length (blocks_of (request_id r) m))
     \<and> (\<forall>i. c \<le> int i \<and> int i < n div m_block_size m \<and> blocks_of (request_id r) m ! i \<noteq> Blk 0 \<longrightarrow>
          (\<exists>hs key b. group_block_hashes p r (m_block_size m) = Inr hs \<and> i < length hs
             \<and> make_block_hash_with_group_id (hs ! i) (kv_cache_group_id m) = Inr key
             \<and> hash_of p (blocks_of (request_id r) m ! i) = Some key
             \<and> get_cached_block p (hs ! i) [kv_cache_group_id m] = Inr (Some [b]) \<and> hash_of p b = Some key))"

lemma filed_is_found:
  assumes ok: "pool_ok p xs" and filed: "filed_under p hs g i b"
  shows "\<exists>key b'. make_block_hash_with_group_id (hs ! i) g = Inr key \<and> hash_of p b = Some key
    \<and> get_cached_block p (hs ! i) [g] = Inr (Some [b']) \<and> hash_of p b' = Some key"
proof -
  obtain key where key: "make_block_hash_with_group_id (hs ! i) g = Inr key" "hash_of p b = Some key"
    using filed by (auto simp: filed_under_def)
  have "g < 2 ^ 32" using key(1) by (auto simp: make_block_hash_with_group_id_def to_bytes4_def bindR_eq_Inr split: if_splits)
  then obtain res where "get_cached_block p (hs ! i) [g] = Inr res"
    "case res of
        Some bs \<Rightarrow> length bs = length [g] \<and> (\<forall>l < length [g]. \<exists>k. make_block_hash_with_group_id (hs ! i) ([g] ! l) = Inr k
            \<and> hash_of p (bs ! l) = Some k \<and> bs ! l \<in> set (blocks p) \<and> bs ! l \<noteq> Blk 0)
      | None \<Rightarrow> \<exists>g \<in> set [g]. \<exists>k. make_block_hash_with_group_id (hs ! i) g = Inr k \<and> (\<forall>b. hash_of p b \<noteq> Some k)"
    using get_cached_block_spec [OF ok, of "[g]" "hs ! i"] by auto
  with key show ?thesis by (cases res) (auto simp: length_Suc_conv)
qed

lemma filed_blocks_found:
  assumes ok: "pool_ok p' xs" and grow: "marks_grow p p'" and filed: "full_blocks_filed r n c p m p'"
    and room: "n div m_block_size m \<le> int (length (blocks_of (request_id r) m))"
    and same: "blocks_of (request_id r) m' = blocks_of (request_id r) m" "mgr_config m m'"
  shows "full_blocks_found r n c m' p'"
proof -
  let ?bs = "blocks_of (request_id r) m"
  have cfg: "m_block_size m' = m_block_size m" "kv_cache_group_id m' = kv_cache_group_id m"
    using same(2) by (simp_all add: mgr_config_def)
  have "\<exists>hs key b. group_block_hashes p' r (m_block_size m) = Inr hs \<and> i < length hs
      \<and> make_block_hash_with_group_id (hs ! i) (kv_cache_group_id m) = Inr key \<and> hash_of p' (?bs ! i) = Some key
      \<and> get_cached_block p' (hs ! i) [kv_cache_group_id m] = Inr (Some [b]) \<and> hash_of p' b = Some key"
    if i: "c \<le> int i" "int i < n div m_block_size m" "?bs ! i \<noteq> Blk 0" for i
  proof -
    have "i < length ?bs" using i(2) room by linarith
    moreover have "\<not> is_null (pool_store p (?bs ! i))"
      using grow i(3) pool_partD(3) [OF ok] by (simp add: marks_grow_def)
    ultimately obtain hs where hs: "group_block_hashes p r (m_block_size m) = Inr hs"
      "filed_under p' hs (kv_cache_group_id m) i (?bs ! i)"
      using filed i(1,2) unfolding full_blocks_filed_def by blast
    show ?thesis
      using filed_is_found [OF ok hs(2)] hs group_hashes_same [OF same_request_refl grow] by (auto simp: filed_under_def)
  qed
  then show ?thesis using room unfolding full_blocks_found_def same(1) cfg by blast
qed

text \<open>The number of cached blocks when the caching stage starts.\<close>

lemma counts_before_caching:
  assumes rem: "\<forall>j < length (single_type_managers c). skipped_removed rid kept j (single_type_managers c ! j) () (single_type_managers c1 ! j)"
    and cfg: "same_setup c c1"
    and adm: "\<forall>j < length (single_type_managers c1). admits rid a tot (c_pool c1) j (single_type_managers c1 ! j)"
    and hit: "if \<not> is_shared_empty a then coord_allocate_new_computed_blocks rid (group_blocks a) tot 0 c1 = Inr c3 else c3 = c1"
    and alloc: "coord_allocate_new_blocks rid n mt enc c3 = Inr (nw, c4)"
  shows "length (single_type_managers c4) = length (single_type_managers c)
    \<and> (\<forall>j < length (single_type_managers c). num_cached rid (single_type_managers c4 ! j) = cached_from rid a tot j (single_type_managers c ! j))"
proof -
  note len1 = same_setupD(1) [OF cfg] and cnf = same_setupD(2) [OF cfg]
  have c3: "length (single_type_managers c3) = length (single_type_managers c1)
      \<and> (\<forall>j < length (single_type_managers c1). num_cached rid (single_type_managers c3 ! j)
        = (if is_shared_empty a \<or> is_cross (single_type_managers c1 ! j) then num_cached rid (single_type_managers c1 ! j)
           else int (length (computed_prefix (single_type_managers c1 ! j) (group_blocks a ! j) tot))))"
  proof (cases "is_shared_empty a")
    case False
    have "\<not> is_running rid (single_type_managers c1 ! j)"
      if "j < length (single_type_managers c1)" "\<not> is_cross (single_type_managers c1 ! j)" for j
      using that adm False by (auto simp: admits_def takes_hit_def)
    then show ?thesis using coord_computed_counts [of rid "group_blocks a" tot c1 c3] hit False by auto
  qed (use hit in simp)
  have "cached_from rid a tot j (single_type_managers c ! j)
      = (if is_shared_empty a \<or> is_cross (single_type_managers c1 ! j) then num_cached rid (single_type_managers c1 ! j)
         else int (length (computed_prefix (single_type_managers c1 ! j) (group_blocks a ! j) tot)))"
    if j: "j < length (single_type_managers c)" for j
    using rem j cross_config [OF cnf [OF j]] prefix_config [OF cnf [OF j]] by (simp add: cached_from_def skipped_removed_def)
  then show ?thesis using c3 coord_allocate_counts [OF alloc] len1 by simp
qed

lemma admission_decides:
  assumes run: "allocate_slots env r num_new num_new_computed new_computed num_lookahead 0 delay_cache enc k = Inr (out, r', k')"
    and c1: "coord_remove_skipped_blocks (request_id r) (total_computed_tokens k r num_new_computed 0) (k_coordinator k) = Inr c1"
    and cnt: "coord_get_num_blocks_to_allocate (request_id r) (num_tokens_need_slot k r num_new num_new_computed num_lookahead 0)
        (group_blocks (given_blocks new_computed k)) enc (num_computed_tokens r + num_new_computed)
        (total_computed_tokens k r num_new_computed 0 + num_new) c1 = Inr (cnt, c2)"
  shows "(out = None \<longleftrightarrow> get_num_free_blocks (c_pool c2) < cnt) \<and> (out = None \<longrightarrow> r' = r \<and> k' = k\<lparr>k_coordinator := c2\<rparr>)"
proof (cases "cnt > get_num_free_blocks (c_pool c2)")
  case True
  then show ?thesis using run by (auto simp: allocate_slots_def Let_def c1 cnt split: if_split_asm)
next
  case False
  then have "out \<noteq> None"
    using run unfolding allocate_slots_def Let_def c1
    by (auto simp: cnt bindR_eq_Inr split: if_split_asm)
  with False show ?thesis by blast
qed

lemma granted_blocks_found:
  assumes ok: "kv_ok k xs" and "0 < num_new" and la: "0 \<le> num_lookahead"
    and adm: "\<forall>j < length (k_managers k). admits (request_id r) (given_blocks new_computed k)
        (num_computed_tokens r + num_new_computed) (k_pool k) j (k_managers k ! j)"
    and cache: "k_enable_caching k \<and> \<not> delay_cache" "can_cache k" "num_tokens r \<le> k_max_model_len k"
    and run: "allocate_slots env r num_new num_new_computed new_computed num_lookahead 0 delay_cache enc k = Inr (Some new, r', k')"
    and ok': "kv_ok k' ys" and same: "length (k_managers k') = length (k_managers k)"
      "\<forall>j < length (k_managers k). mgr_config (k_managers k ! j) (k_managers k' ! j)"
    and slots: "\<forall>j < length (k_managers k).
      slots_for (num_tokens_need_slot k r num_new num_new_computed num_lookahead 0) enc (k_managers k ! j)
        \<le> int (length (blocks_of (request_id r) (k_managers k' ! j))) * m_block_size (k_managers k ! j)"
    and j: "j < length (k_managers k)"
  shows "full_blocks_found r (num_tokens_to_cache k r num_new num_new_computed 0)
    (cached_from (request_id r) (given_blocks new_computed k) (num_computed_tokens r + num_new_computed) j (k_managers k ! j))
    (k_managers k' ! j) (k_pool k')"
proof -
  let ?rid = "request_id r" and ?a = "given_blocks new_computed k" and ?tot = "num_computed_tokens r + num_new_computed"
    and ?kept = "total_computed_tokens k r num_new_computed 0" and ?c = "k_coordinator k"
    and ?need = "num_tokens_need_slot k r num_new num_new_computed num_lookahead 0"
    and ?n = "num_tokens_to_cache k r num_new num_new_computed 0" and ?m = "k_managers k ! j"
  have cok: "coord_ok ?c xs" "\<forall>m \<in> set (k_managers k). plain_mode m" using ok by (simp_all add: kv_ok_def)
  obtain c1 cnt c2 c3 nw c4 where st: "coord_remove_skipped_blocks ?rid ?kept ?c = Inr c1"
    "coord_get_num_blocks_to_allocate ?rid ?need (group_blocks ?a) enc ?tot (?kept + num_new) c1 = Inr (cnt, c2)"
    "if \<not> is_shared_empty ?a then coord_allocate_new_computed_blocks ?rid (group_blocks ?a) ?tot 0 c2 = Inr c3 else c3 = c2"
    "coord_allocate_new_blocks ?rid ?need (?kept + num_new) enc c3 = Inr (nw, c4)"
    "coord_cache_blocks env r ?n c4 = Inr (r', k_coordinator k')"
    using allocate_slots_granted [OF run cache(1)] by blast
  obtain c1' where c1': "coord_remove_skipped_blocks ?rid ?kept ?c = Inr c1'" "same_setup ?c c1'"
    "\<forall>j < length (k_managers k). skipped_removed ?rid ?kept j (k_managers k ! j) () (single_type_managers c1' ! j)"
    "\<forall>j < length (single_type_managers c1'). admits ?rid ?a ?tot (c_pool c1') j (single_type_managers c1' ! j)"
    "coord_get_num_blocks_to_allocate ?rid ?need (group_blocks ?a) enc ?tot (?kept + num_new) c1'
        = Inr (\<Sum>j = 0..<length (single_type_managers c1').
            group_count ?rid ?need enc (group_blocks ?a) ?tot (c_pool c1') j (single_type_managers c1' ! j), c1')"
    using count_stage [OF cok, of ?rid ?a ?tot ?kept ?need enc "?kept + num_new"] adm by blast
  have eq: "c1' = c1" "c2 = c1" using st(1,2) c1'(1,5) by auto
  note c4 = counts_before_caching [OF c1'(3,2,4) [unfolded eq(1)] st(3) [unfolded eq(2)] st(4)]
  have "0 \<le> num_cached ?rid (k_managers k ! i)" if "i < length (k_managers k)" for i
    using mgr_invD(7) [OF coord_inv_manager [OF cok(1) that], of ?rid] by (simp add: req_ok_def)
  then have nn: "0 \<le> num_cached ?rid m" if "m \<in> set (single_type_managers c4)" for m
    using that c4 by (auto simp: in_set_conv_nth cached_from_def)
  have jc4: "j < length (single_type_managers c4)" using j c4 by simp
  note files = coord_cache_blocks_files [OF st(5) nn]
  have f: "marks_grow (c_pool c4) (k_pool k')" "blocks_of ?rid (k_managers k' ! j) = blocks_of ?rid (single_type_managers c4 ! j)"
    "mgr_config (single_type_managers c4 ! j) (k_managers k' ! j)"
    "full_blocks_filed r ?n (cached_from ?rid ?a ?tot j ?m) (c_pool c4) (single_type_managers c4 ! j) (k_pool k')"
    using files jc4 c4 j by auto
  have bs: "m_block_size (single_type_managers c4 ! j) = m_block_size ?m" "0 < m_block_size ?m"
    using same(2) j f(3) mgr_invD(4) [OF coord_inv_manager [OF cok(1) j]] by (simp_all add: mgr_config_def)
  have "?n \<le> ?need" using la cache(3) by (auto simp: num_tokens_to_cache_def num_tokens_need_slot_def)
  also have "?need \<le> asked_tokens ?m ?need" using bs(2) by (rule asked_tokens_ge)
  also have "\<dots> \<le> int (length (blocks_of ?rid (single_type_managers c4 ! j))) * m_block_size ?m"
    using slots j cache(2) by (simp add: slots_for_def can_cache_def flip: f(2))
  finally have "?n div m_block_size ?m \<le> int (length (blocks_of ?rid (single_type_managers c4 ! j)))"
    using zdiv_mono1 [OF _ bs(2)] bs(2) by fastforce
  then show ?thesis
    using filed_blocks_found [OF _ f(1,4) _ f(2,3)] ok' bs(1) coord_inv_pool unfolding kv_ok_def by metis
qed

text \<open>
  C1: Admission, allocation and caching agree. For a request the scheduler may ask slots for, without
  external tokens, \<open>allocate_slots\<close> never raises. It answers \<open>None\<close> exactly when, after removing the blocks
  outside the attention windows, fewer blocks are free than the groups count for the request, and then
  nothing else has changed; otherwise every group holds slots for all tokens to compute and to look ahead, the
  answer lists exactly the blocks appended, none of them the null block, and other requests keep their blocks.
  Unless caching is delayed or disabled, every full block of settled tokens that was not cached before and is not
  the null block then carries the key of its position's hash in its group, and a lookup of that hash finds
  a block with that key. The invariant of all groups and the pool is kept.
\<close>

theorem allocate_slots_admission:
  assumes ok: "kv_ok k xs" and new: "0 < num_new" "0 \<le> num_lookahead"
    and adm: "\<forall>j < length (k_managers k). admits (request_id r) (given_blocks new_computed k)
        (num_computed_tokens r + num_new_computed) (k_pool k) j (k_managers k ! j)"
    and cache: "k_enable_caching k \<and> \<not> delay_cache \<Longrightarrow>
        can_cache k \<and> hashed_upto r (hash_block_size (k_pool k)) \<and> num_tokens r \<le> k_max_model_len k"
  shows "\<exists>out r' k' ys k1.
    kv_remove_skipped_blocks (request_id r) (total_computed_tokens k r num_new_computed 0) k = Inr k1
    \<and> allocate_slots env r num_new num_new_computed new_computed num_lookahead 0 delay_cache enc k = Inr (out, r', k')
    \<and> kv_ok k' ys
    \<and> (out = None \<longleftrightarrow> get_num_free_blocks (k_pool k1)
          < (\<Sum>j = 0..<length (k_managers k1).
               group_count (request_id r) (num_tokens_need_slot k r num_new num_new_computed num_lookahead 0) enc
                 (group_blocks (given_blocks new_computed k)) (num_computed_tokens r + num_new_computed)
                 (k_pool k1) j (k_managers k1 ! j)))
    \<and> (out = None \<longrightarrow> r' = r \<and> k' = k1)
    \<and> slots_outcome k r (given_blocks new_computed k) (num_computed_tokens r + num_new_computed)
        (total_computed_tokens k r num_new_computed 0)
        (num_tokens_need_slot k r num_new num_new_computed num_lookahead 0) enc
        (k_enable_caching k \<and> \<not> delay_cache) (num_tokens_to_cache k r num_new num_new_computed 0) out k'
    \<and> (out \<noteq> None \<and> k_enable_caching k \<and> \<not> delay_cache \<longrightarrow>
        (\<forall>j < length (k_managers k). full_blocks_found r (num_tokens_to_cache k r num_new num_new_computed 0)
           (cached_from (request_id r) (given_blocks new_computed k) (num_computed_tokens r + num_new_computed) j (k_managers k ! j))
           (k_managers k' ! j) (k_pool k')))"
proof -
  let ?rid = "request_id r" and ?a = "given_blocks new_computed k" and ?tot = "num_computed_tokens r + num_new_computed"
    and ?kept = "total_computed_tokens k r num_new_computed 0" and ?c = "k_coordinator k"
    and ?need = "num_tokens_need_slot k r num_new num_new_computed num_lookahead 0"
    and ?n = "num_tokens_to_cache k r num_new num_new_computed 0" and ?cached = "k_enable_caching k \<and> \<not> delay_cache"
  obtain out r' k' ys where run: "allocate_slots env r num_new num_new_computed new_computed num_lookahead 0 delay_cache enc k
      = Inr (out, r', k')" "kv_ok k' ys" "slots_outcome k r ?a ?tot ?kept ?need enc ?cached ?n out k'"
    using allocate_slots_cases [OF assms] by blast
  have cok: "coord_ok ?c xs" "\<forall>m \<in> set (k_managers k). plain_mode m" using ok by (simp_all add: kv_ok_def)
  obtain c1 where c1: "coord_remove_skipped_blocks ?rid ?kept ?c = Inr c1"
    "coord_get_num_blocks_to_allocate ?rid ?need (group_blocks ?a) enc ?tot (?kept + num_new) c1
        = Inr (\<Sum>j = 0..<length (single_type_managers c1).
            group_count ?rid ?need enc (group_blocks ?a) ?tot (c_pool c1) j (single_type_managers c1 ! j), c1)"
    using count_stage [OF cok, of ?rid ?a ?tot ?kept ?need enc "?kept + num_new"] adm by blast
  have "full_blocks_found r ?n (cached_from ?rid ?a ?tot j (k_managers k ! j)) (k_managers k' ! j) (k_pool k')"
    if o: "out \<noteq> None \<and> k_enable_caching k \<and> \<not> delay_cache" and j: "j < length (k_managers k)" for j
  proof -
    obtain nw where nw: "out = Some nw" using o by blast
    show ?thesis
      by (rule granted_blocks_found [OF ok new adm _ _ _ run(1) [unfolded nw] run(2) _ _ _ j])
        (use o cache run(3) nw in \<open>simp_all add: slots_outcome_def slots_allocated_def\<close>)
  qed
  moreover have "kv_remove_skipped_blocks ?rid ?kept k = Inr (k\<lparr>k_coordinator := c1\<rparr>)"
    by (simp add: kv_remove_skipped_blocks_def c1(1))
  moreover note admission_decides [OF run(1) c1]
  ultimately show ?thesis
    using run by (intro exI [of _ out] exI [of _ r'] exI [of _ k'] exI [of _ ys] exI [of _ "k\<lparr>k_coordinator := c1\<rparr>"]) simp
qed

theorem allocate_slots_admission_witness:
  "\<exists>k out r' k'. example_kv (SlidingWindowSpec 17) = Inr k
     \<and> allocate_slots (serialising_env 16) example_hashed 20 0 None 4 0 False 0 k = Inr (out, r', k')
     \<and> (out = None \<or> 24 \<le> int (length (blocks_of ''r'' (k_managers k' ! 0))) * 16
          \<and> full_blocks_found example_hashed 20 (num_cached ''r'' (k_managers k ! 0)) (k_managers k' ! 0) (k_pool k'))"
proof -
  have cfg: "plain_specs (example_config [SlidingWindowSpec 17]) 1 1"
    by (simp add: plain_specs_def example_config_def scaled_block_size_def)
  obtain k where k: "example_kv (SlidingWindowSpec 17) = Inr k" using example_kv_init [OF cfg] by blast
  note r = example_kv_ready [OF k]
  obtain xs where ok: "kv_ok k xs" using r(1) by blast
  have m: "spec_class_of (m_spec (k_managers k ! 0)) = SlidingWindowSpec 17" "m_block_size (k_managers k ! 0) = 16"
    using r(9) [of "k_managers k ! 0"] r(3) by auto
  have adm: "\<forall>j < length (k_managers k). admits (request_id example_hashed) (given_blocks None k)
      (num_computed_tokens example_hashed + 0) (k_pool k) j (k_managers k ! j)"
    using ok m r(3) by (simp add: kv_ok_def given_blocks_def admits_def is_cross_def example_hashed_simps get_num_skipped_tokens_def)
  have cache: "can_cache k \<and> hashed_upto example_hashed (hash_block_size (k_pool k)) \<and> num_tokens example_hashed \<le> k_max_model_len k"
    if "k_enable_caching k \<and> \<not> False" using r(5,7,8) example_hashed_simps by simp
  obtain out r' k' where run: "allocate_slots (serialising_env 16) example_hashed 20 0 None 4 0 False 0 k = Inr (out, r', k')"
    "slots_outcome k example_hashed (given_blocks None k) 0 (total_computed_tokens k example_hashed 0 0) 24 0 True
       (num_tokens_to_cache k example_hashed 20 0 0) out k'"
    "out \<noteq> None \<longrightarrow> full_blocks_found example_hashed (num_tokens_to_cache k example_hashed 20 0 0)
       (cached_from ''r'' (given_blocks None k) 0 0 (k_managers k ! 0)) (k_managers k' ! 0) (k_pool k')"
    using allocate_slots_admission [OF ok _ _ adm cache, where num_new = 20 and num_lookahead = 4 and delay_cache = False
        and env = "serialising_env 16" and enc = 0] r(3,4,5)
    by (auto simp: example_hashed_simps num_tokens_need_slot_def total_computed_tokens_def)
  then have "out = None \<or> 24 \<le> int (length (blocks_of ''r'' (k_managers k' ! 0))) * 16"
    using r(3) m by (cases out) (auto simp: slots_outcome_def slots_allocated_def example_hashed_simps slots_for_def
        is_cross_def asked_tokens_def)
  moreover have "cached_from ''r'' (given_blocks None k) 0 0 (k_managers k ! 0) = num_cached ''r'' (k_managers k ! 0)"
    "num_tokens_to_cache k example_hashed 20 0 0 = 20"
    using ok by (simp_all add: cached_from_def given_blocks_def kv_ok_def num_tokens_to_cache_def total_computed_tokens_def
        example_hashed_simps r(5))
  ultimately show ?thesis using k run(1,3) by auto
qed

end
