(* ===== verification/Block_Table.thy ===== *)
theory Block_Table
  imports Prelude
begin

text \<open>
  The block tables of the workers (\<open>vllm/v1/worker/block_table.py\<close>): for every request of the batch a row of
  block ids in a buffer on the host, copied to the device before a step, and the slots in the cache of the tokens
  of a step. A table has a dirty flag that saves copies of unchanged tables. The numpy arrays and torch tensors are
  lists; the table holds 32-bit integers and the product of block ids and block sizes is taken in that width,
  slots are 64-bit and kept unbounded. Sizes and ranks of the process groups are fields.
\<close>

subsection \<open>Arrays\<close>

text \<open>The position an index of an axis of length \<open>n\<close> means.\<close>

definition np_index :: "nat \<Rightarrow> int \<Rightarrow> nat result" where
  "np_index n i =
     (if 0 \<le> i \<and> nat i < n then Inr (nat i)
      else if i < 0 \<and> nat (- i) \<le> n then Inr (n - nat (- i))
      else Inl IndexError)"

text \<open>
  \<open>row[start : start + len(ids)] = ids\<close>: the slice is cut at the end of the row, and then the lengths differ, unless
  a single value is broadcast to the empty slice.
\<close>

definition assign_slice :: "int list \<Rightarrow> nat \<Rightarrow> int list \<Rightarrow> int list result" where
  "assign_slice row start ids =
     (let room = length row - start
      in if length ids \<le> room then Inr (take start row @ ids @ drop (start + length ids) row)
         else if length ids = 1 then Inr row
         else Inl ValueError)"

definition int32 :: "int \<Rightarrow> int" where
  "int32 x = sint (word_of_int x :: 32 word)"

lemma int32_id: "- (2 ^ 31) \<le> x \<Longrightarrow> x < 2 ^ 31 \<Longrightarrow> int32 x = x"
  by (simp add: int32_def sint_sbintrunc' signed_take_bit_int_eq_self)

subsection \<open>One table\<close>

record block_table =
  bt_block_size :: int
  bt_blocks_per_kv_block :: int
  bt_use_hybrid_blocks :: bool
  bt_max_num_blocks_per_req :: int
  bt_cpu :: "int list list"
  bt_gpu :: "int list list"
  bt_num_blocks_per_row :: "int list"
  bt_dirty :: bool
  bt_slots_cpu :: "int list"
  bt_slots_gpu :: "int list"
  bt_pcp_world_size :: int
  bt_pcp_rank :: int
  bt_dcp_world_size :: int
  bt_dcp_rank :: int
  bt_interleave :: int

record cp_group =
  g_pcp_world_size :: int
  g_pcp_rank :: int
  g_dcp_world_size :: int
  g_dcp_rank :: int

definition no_cp :: cp_group where
  "no_cp = \<lparr>g_pcp_world_size = 1, g_pcp_rank = 0, g_dcp_world_size = 1, g_dcp_rank = 0\<rparr>"

definition zeros :: "int \<Rightarrow> int \<Rightarrow> int list list" where
  "zeros m n = replicate (nat m) (replicate (nat n) 0)"

definition block_table_init ::
  "int \<Rightarrow> int \<Rightarrow> int \<Rightarrow> int \<Rightarrow> int \<Rightarrow> int \<Rightarrow> cp_group \<Rightarrow> block_table result" where
  "block_table_init block_size max_num_reqs max_num_blocks max_num_batched_tokens kernel_block_size interleave g =
     bindR (if kernel_block_size = block_size then Inr (block_size, 1, False)
            else if kernel_block_size = 0 then Inl ZeroDivisionError
            else if block_size mod kernel_block_size \<noteq> 0 then Inl ValueError
            else Inr (kernel_block_size, block_size div kernel_block_size, True)) (\<lambda>(bs, per_kv, hybrid).
       let width = max_num_blocks * per_kv
       in Inr \<lparr>bt_block_size = bs, bt_blocks_per_kv_block = per_kv, bt_use_hybrid_blocks = hybrid,
               bt_max_num_blocks_per_req = width, bt_cpu = zeros max_num_reqs width, bt_gpu = zeros max_num_reqs width,
               bt_num_blocks_per_row = replicate (nat max_num_reqs) 0, bt_dirty = False,
               bt_slots_cpu = replicate (nat max_num_batched_tokens) 0, bt_slots_gpu = replicate (nat max_num_batched_tokens) 0,
               bt_pcp_world_size = g_pcp_world_size g, bt_pcp_rank = g_pcp_rank g,
               bt_dcp_world_size = g_dcp_world_size g, bt_dcp_rank = g_dcp_rank g, bt_interleave = interleave\<rparr>)"

definition map_to_kernel_blocks :: "int list \<Rightarrow> int \<Rightarrow> int list" where
  "map_to_kernel_blocks ids per_kv =
     (if per_kv = 1 then ids else concat (map (\<lambda>b. map (\<lambda>j. b * per_kv + j) [0..per_kv - 1]) ids))"

text \<open>
  What an array of 32-bit integers stores: Python integers that do not fit raise, the elements of an array of 64-bit integers,
  which the ids become on the way to kernel blocks, wrap around.
\<close>

definition in_bits :: "nat \<Rightarrow> int \<Rightarrow> bool" where
  "in_bits w x \<longleftrightarrow> - (2 ^ (w - 1)) \<le> x \<and> x < 2 ^ (w - 1)"

definition stored_ids :: "block_table \<Rightarrow> int list \<Rightarrow> int list result" where
  "stored_ids t ids =
     (if bt_use_hybrid_blocks t
      then if list_all (in_bits 64) ids then Inr (map int32 (map_to_kernel_blocks ids (bt_blocks_per_kv_block t))) else Inl OverflowError
      else if list_all (in_bits 32) ids then Inr ids else Inl OverflowError)"

definition append_row :: "int list \<Rightarrow> int \<Rightarrow> block_table \<Rightarrow> block_table result" where
  "append_row block_ids row_idx t =
     (if block_ids = [] then Inr t
      else
        bindR (np_index (length (bt_num_blocks_per_row t)) row_idx) (\<lambda>k.
        bindR (np_index (length (bt_cpu t)) row_idx) (\<lambda>i.
        bindR (stored_ids t block_ids) (\<lambda>ids.
        let start = bt_num_blocks_per_row t ! k
        in bindR (assign_slice (bt_cpu t ! i) (nat start) ids) (\<lambda>row.
             Inr (t\<lparr>bt_num_blocks_per_row := (bt_num_blocks_per_row t)[k := start + int (length ids)],
                    bt_cpu := (bt_cpu t)[i := row], bt_dirty := True\<rparr>))))))"

definition add_row :: "int list \<Rightarrow> int \<Rightarrow> block_table \<Rightarrow> block_table result" where
  "add_row block_ids row_idx t =
     bindR (np_index (length (bt_num_blocks_per_row t)) row_idx) (\<lambda>k.
       append_row block_ids row_idx (t\<lparr>bt_num_blocks_per_row := (bt_num_blocks_per_row t)[k := 0], bt_dirty := True\<rparr>))"

definition move_row :: "int \<Rightarrow> int \<Rightarrow> block_table \<Rightarrow> block_table result" where
  "move_row src tgt t =
     bindR (np_index (length (bt_num_blocks_per_row t)) src) (\<lambda>s.
     bindR (np_index (length (bt_num_blocks_per_row t)) tgt) (\<lambda>g.
       let n = nat (bt_num_blocks_per_row t ! s)
       in Inr (t\<lparr>bt_cpu := (bt_cpu t)[g := take n (bt_cpu t ! s) @ drop n (bt_cpu t ! g)],
                 bt_num_blocks_per_row := (bt_num_blocks_per_row t)[g := bt_num_blocks_per_row t ! s], bt_dirty := True\<rparr>)))"

definition swap_row :: "int \<Rightarrow> int \<Rightarrow> block_table \<Rightarrow> block_table result" where
  "swap_row src tgt t =
     bindR (np_index (length (bt_num_blocks_per_row t)) src) (\<lambda>s.
     bindR (np_index (length (bt_num_blocks_per_row t)) tgt) (\<lambda>g.
       Inr (t\<lparr>bt_num_blocks_per_row := (bt_num_blocks_per_row t)
                [s := bt_num_blocks_per_row t ! g, g := bt_num_blocks_per_row t ! s],
              bt_cpu := (bt_cpu t)[s := bt_cpu t ! g, g := bt_cpu t ! s], bt_dirty := True\<rparr>)))"

definition cp_world_size :: "block_table \<Rightarrow> int" where
  "cp_world_size t = bt_pcp_world_size t * bt_dcp_world_size t"

definition cp_rank :: "block_table \<Rightarrow> int" where
  "cp_rank t = bt_pcp_rank t * bt_dcp_world_size t + bt_dcp_rank t"

text \<open>One element of the slot mapping: request index and position to slot.\<close>

definition slot_of :: "block_table \<Rightarrow> int \<times> int \<Rightarrow> int result" where
  "slot_of t x =
     (let req = fst x; pos = snd x; bs = bt_block_size t; w = cp_world_size t
      in if w > 1
         then
           let vbs = bs * w
           in bindR (py_nth (concat (bt_cpu t)) (req * bt_max_num_blocks_per_req t + pos div vbs)) (\<lambda>number.
                let off = pos mod vbs; il = bt_interleave t
                in Inr (if off div il mod w = cp_rank t
                        then int32 (number * bs) + (off div (w * il) * il + off mod il)
                        else - 1))
         else
           bindR (py_nth (concat (bt_cpu t)) (req * bt_max_num_blocks_per_req t + pos div bs)) (\<lambda>number.
             Inr (int32 (number * bs) + pos mod bs)))"

fun slots_of :: "block_table \<Rightarrow> (int \<times> int) list \<Rightarrow> int list result" where
  "slots_of t [] = Inr []"
| "slots_of t (x # xs) = bindR (slot_of t x) (\<lambda>s. bindR (slots_of t xs) (\<lambda>ss. Inr (s # ss)))"

text \<open>
  The mapping is written to the front of the buffer; too many tokens do not fit, except that the context-parallel
  branch broadcasts one value to an empty slice.
\<close>

definition compute_slot_mapping :: "(int \<times> int) list \<Rightarrow> block_table \<Rightarrow> block_table result" where
  "compute_slot_mapping xs t =
     bindR (slots_of t xs) (\<lambda>ss.
       if length ss \<le> length (bt_slots_cpu t)
       then Inr (t\<lparr>bt_slots_cpu := ss @ drop (length ss) (bt_slots_cpu t)\<rparr>)
       else if cp_world_size t > 1 \<and> length ss = 1 then Inr t
       else Inl ValueError)"

text \<open>\<open>CpuGpuBuffer.copy_to_gpu\<close>.\<close>

definition copy_rows :: "int \<Rightarrow> 'a list \<Rightarrow> 'a list \<Rightarrow> 'a list" where
  "copy_rows n cpu gpu = (let k = slice_bound (length cpu) n in take k cpu @ drop k gpu)"

definition commit_block_table :: "int \<Rightarrow> block_table \<Rightarrow> block_table" where
  "commit_block_table num_reqs t =
     (if \<not> bt_dirty t then t
      else t\<lparr>bt_gpu := copy_rows num_reqs (bt_cpu t) (bt_gpu t), bt_dirty := False\<rparr>)"

definition commit_slot_mapping :: "int \<Rightarrow> block_table \<Rightarrow> block_table" where
  "commit_slot_mapping num_tokens t = t\<lparr>bt_slots_gpu := copy_rows num_tokens (bt_slots_cpu t) (bt_slots_gpu t)\<rparr>"

definition clear_table :: "block_table \<Rightarrow> block_table" where
  "clear_table t =
     t\<lparr>bt_gpu := map (map (\<lambda>_. 0)) (bt_gpu t), bt_cpu := map (map (\<lambda>_. 0)) (bt_cpu t), bt_dirty := False\<rparr>"

definition get_device_tensor :: "int \<Rightarrow> block_table \<Rightarrow> int list list" where
  "get_device_tensor num_reqs t = slice_to (bt_gpu t) num_reqs"

definition get_cpu_tensor :: "block_table \<Rightarrow> int list list \<times> block_table" where
  "get_cpu_tensor t = (bt_cpu t, t\<lparr>bt_dirty := True\<rparr>)"

definition get_numpy_array :: "block_table \<Rightarrow> int list list \<times> block_table" where
  "get_numpy_array t = (bt_cpu t, t\<lparr>bt_dirty := True\<rparr>)"

subsection \<open>The tables of all groups\<close>

type_synonym multi_table = "block_table list"

fun init_tables ::
  "int \<Rightarrow> int \<Rightarrow> int \<Rightarrow> cp_group \<Rightarrow> (int \<times> int \<times> int) list \<Rightarrow> multi_table result" where
  "init_tables max_num_reqs max_num_batched_tokens interleave g [] = Inr []"
| "init_tables max_num_reqs max_num_batched_tokens interleave g ((bs, kbs, mb) # xs) =
     bindR (block_table_init bs max_num_reqs mb max_num_batched_tokens kbs interleave g) (\<lambda>t.
     bindR (init_tables max_num_reqs max_num_batched_tokens interleave g xs) (\<lambda>ts. Inr (t # ts)))"

definition multi_group_init ::
  "int \<Rightarrow> int \<Rightarrow> int \<Rightarrow> int list \<Rightarrow> int list \<Rightarrow> int list option \<Rightarrow> int \<Rightarrow> cp_group \<Rightarrow> multi_table result" where
  "multi_group_init max_num_reqs max_model_len max_num_batched_tokens block_sizes kernel_block_sizes max_num_blocks interleave g =
     (if length kernel_block_sizes \<noteq> length block_sizes then Inl ValueError
      else
        let w = g_dcp_world_size g * g_pcp_world_size g
        in bindR (case max_num_blocks of
                    Some mb \<Rightarrow> Inr mb
                  | None \<Rightarrow> if block_sizes \<noteq> [] \<and> (w = 0 \<or> 0 \<in> set block_sizes) then Inl ZeroDivisionError
                            else Inr (map (\<lambda>bs. cdiv max_model_len (bs * w)) block_sizes)) (\<lambda>mb.
           if length mb \<noteq> length block_sizes then Inl ValueError
           else init_tables max_num_reqs max_num_batched_tokens interleave g (zip block_sizes (zip kernel_block_sizes mb))))"

text \<open>Each call goes to every group; a call with block ids reads the list of its group.\<close>

fun each_table :: "(block_table \<Rightarrow> block_table result) \<Rightarrow> multi_table \<Rightarrow> multi_table result" where
  "each_table f [] = Inr []"
| "each_table f (t # ts) = bindR (f t) (\<lambda>t'. bindR (each_table f ts) (\<lambda>ts'. Inr (t' # ts')))"

fun each_group :: "(int list \<Rightarrow> block_table \<Rightarrow> block_table result) \<Rightarrow> int list list \<Rightarrow> multi_table \<Rightarrow> multi_table result" where
  "each_group f idss [] = Inr []"
| "each_group f [] (t # ts) = Inl IndexError"
| "each_group f (ids # idss) (t # ts) =
     bindR (f ids t) (\<lambda>t'. bindR (each_group f idss ts) (\<lambda>ts'. Inr (t' # ts')))"

definition multi_append_row :: "int list list \<Rightarrow> int \<Rightarrow> multi_table \<Rightarrow> multi_table result" where
  "multi_append_row idss row_idx = each_group (\<lambda>ids. append_row ids row_idx) idss"

definition multi_add_row :: "int list list \<Rightarrow> int \<Rightarrow> multi_table \<Rightarrow> multi_table result" where
  "multi_add_row idss row_idx = each_group (\<lambda>ids. add_row ids row_idx) idss"

definition multi_move_row :: "int \<Rightarrow> int \<Rightarrow> multi_table \<Rightarrow> multi_table result" where
  "multi_move_row src tgt = each_table (move_row src tgt)"

definition multi_swap_row :: "int \<Rightarrow> int \<Rightarrow> multi_table \<Rightarrow> multi_table result" where
  "multi_swap_row src tgt = each_table (swap_row src tgt)"

definition multi_compute_slot_mapping :: "(int \<times> int) list \<Rightarrow> multi_table \<Rightarrow> multi_table result" where
  "multi_compute_slot_mapping xs = each_table (compute_slot_mapping xs)"

definition multi_commit_block_table :: "int \<Rightarrow> multi_table \<Rightarrow> multi_table" where
  "multi_commit_block_table num_reqs = map (commit_block_table num_reqs)"

definition multi_commit_slot_mapping :: "int \<Rightarrow> multi_table \<Rightarrow> multi_table" where
  "multi_commit_slot_mapping num_tokens = map (commit_slot_mapping num_tokens)"

definition multi_clear :: "multi_table \<Rightarrow> multi_table" where
  "multi_clear = map clear_table"

definition multi_getitem :: "int \<Rightarrow> multi_table \<Rightarrow> block_table result" where
  "multi_getitem idx ts = py_nth ts idx"

subsection \<open>Rows\<close>

text \<open>The shape the buffers keep, and the block ids of a row.\<close>

definition table_ok :: "block_table \<Rightarrow> bool" where
  "table_ok t \<longleftrightarrow> length (bt_num_blocks_per_row t) = length (bt_cpu t) \<and> length (bt_gpu t) = length (bt_cpu t)
     \<and> (\<forall>row \<in> set (bt_cpu t). length row = nat (bt_max_num_blocks_per_req t))
     \<and> (\<forall>n \<in> set (bt_num_blocks_per_row t). 0 \<le> n \<and> n \<le> bt_max_num_blocks_per_req t)
     \<and> (bt_use_hybrid_blocks t \<longrightarrow> 0 < bt_blocks_per_kv_block t)"

definition row_of :: "block_table \<Rightarrow> nat \<Rightarrow> int list" where
  "row_of t r = take (nat (bt_num_blocks_per_row t ! r)) (bt_cpu t ! r)"

definition kernel_ids :: "block_table \<Rightarrow> int list \<Rightarrow> int list" where
  "kernel_ids t ids = (if bt_use_hybrid_blocks t then map_to_kernel_blocks ids (bt_blocks_per_kv_block t) else ids)"

abbreviation num_rows :: "block_table \<Rightarrow> nat" where
  "num_rows t \<equiv> length (bt_cpu t)"

abbreviation row_width :: "block_table \<Rightarrow> nat" where
  "row_width t \<equiv> nat (bt_max_num_blocks_per_req t)"

lemma np_index_int [simp]: "np_index n (int i) = (if i < n then Inr i else Inl IndexError)"
  by (simp add: np_index_def)

lemma row_lengths:
  assumes "table_ok t" "r < num_rows t"
  shows "length (bt_cpu t ! r) = row_width t" "0 \<le> bt_num_blocks_per_row t ! r"
    "nat (bt_num_blocks_per_row t ! r) \<le> row_width t" "length (row_of t r) = nat (bt_num_blocks_per_row t ! r)"
    "r < length (bt_num_blocks_per_row t)" "bt_num_blocks_per_row t ! r \<le> bt_max_num_blocks_per_req t"
proof -
  have r: "r < length (bt_num_blocks_per_row t)" and c: "bt_cpu t ! r \<in> set (bt_cpu t)"
    and n: "bt_num_blocks_per_row t ! r \<in> set (bt_num_blocks_per_row t)" using assms by (simp_all add: table_ok_def)
  show a: "length (bt_cpu t ! r) = row_width t" "0 \<le> bt_num_blocks_per_row t ! r" using assms(1) c n by (simp_all add: table_ok_def)
  show b: "nat (bt_num_blocks_per_row t ! r) \<le> row_width t" using assms(1) n by (simp add: table_ok_def nat_mono)
  show "length (row_of t r) = nat (bt_num_blocks_per_row t ! r)" using a b by (simp add: row_of_def)
  show "r < length (bt_num_blocks_per_row t)" by (rule r)
  show "bt_num_blocks_per_row t ! r \<le> bt_max_num_blocks_per_req t" using assms(1) n by (simp add: table_ok_def)
qed

text \<open>A table as a map from rows to lists of ids: calls that fit, and what they do to the map.\<close>

datatype table_call = Append_Row "int list" nat | Add_Row "int list" nat | Move_Row nat nat | Swap_Row nat nat

fun run_call ::
  "(int list \<Rightarrow> nat \<Rightarrow> 't \<Rightarrow> 't result) \<Rightarrow> (int list \<Rightarrow> nat \<Rightarrow> 't \<Rightarrow> 't result) \<Rightarrow> (nat \<Rightarrow> nat \<Rightarrow> 't \<Rightarrow> 't result)
   \<Rightarrow> (nat \<Rightarrow> nat \<Rightarrow> 't \<Rightarrow> 't result) \<Rightarrow> table_call \<Rightarrow> 't \<Rightarrow> 't result" where
  "run_call app ad mv sw (Append_Row ids r) t = app ids r t"
| "run_call app ad mv sw (Add_Row ids r) t = ad ids r t"
| "run_call app ad mv sw (Move_Row r p) t = mv r p t"
| "run_call app ad mv sw (Swap_Row r p) t = sw r p t"

fun row_call :: "(int list \<Rightarrow> int list) \<Rightarrow> table_call \<Rightarrow> (nat \<Rightarrow> int list) \<Rightarrow> nat \<Rightarrow> int list" where
  "row_call conv (Append_Row ids r) m = m(r := m r @ conv ids)"
| "row_call conv (Add_Row ids r) m = m(r := conv ids)"
| "row_call conv (Move_Row r p) m = m(p := m r)"
| "row_call conv (Swap_Row r p) m = m(r := m p, p := m r)"

fun call_fits :: "(int list \<Rightarrow> int list) \<Rightarrow> nat \<Rightarrow> nat \<Rightarrow> table_call \<Rightarrow> (nat \<Rightarrow> int list) \<Rightarrow> bool" where
  "call_fits conv n w (Append_Row ids r) m \<longleftrightarrow> r < n \<and> length (m r) + length (conv ids) \<le> w \<and> list_all (in_bits 32) (conv ids)"
| "call_fits conv n w (Add_Row ids r) m \<longleftrightarrow> r < n \<and> length (conv ids) \<le> w \<and> list_all (in_bits 32) (conv ids)"
| "call_fits conv n w (Move_Row r p) m \<longleftrightarrow> r < n \<and> p < n"
| "call_fits conv n w (Swap_Row r p) m \<longleftrightarrow> r < n \<and> p < n"

fun calls_fit :: "(int list \<Rightarrow> int list) \<Rightarrow> nat \<Rightarrow> nat \<Rightarrow> table_call list \<Rightarrow> (nat \<Rightarrow> int list) \<Rightarrow> bool" where
  "calls_fit conv n w [] m \<longleftrightarrow> True"
| "calls_fit conv n w (c # cs) m \<longleftrightarrow> call_fits conv n w c m \<and> calls_fit conv n w cs (row_call conv c m)"

locale row_table =
  fixes row :: "'t \<Rightarrow> nat \<Rightarrow> int list" and ok :: "'t \<Rightarrow> bool" and rows width :: "'t \<Rightarrow> nat" and conv :: "'t \<Rightarrow> int list \<Rightarrow> int list"
    and app ad :: "int list \<Rightarrow> nat \<Rightarrow> 't \<Rightarrow> 't result" and mv sw :: "nat \<Rightarrow> nat \<Rightarrow> 't \<Rightarrow> 't result" and same :: "'t \<Rightarrow> 't \<Rightarrow> bool"
  assumes call: "ok t \<Longrightarrow> call_fits (conv t) (rows t) (width t) c (row t) \<Longrightarrow>
      \<exists>t'. run_call app ad mv sw c t = Inr t' \<and> ok t' \<and> same t t' \<and> (\<forall>q < rows t. row t' q = row_call (conv t) c (row t) q)"
    and sameD: "same t t' \<Longrightarrow> rows t' = rows t \<and> width t' = width t \<and> conv t' = conv t"
    and same_refl: "same t t" and same_trans: "same t t' \<Longrightarrow> same t' t'' \<Longrightarrow> same t t''"
begin

lemma row_call_cong:
  assumes "\<forall>q < n. m q = m' q" "call_fits cv n w c m'"
  shows "call_fits cv n w c m" "\<forall>q < n. row_call cv c m q = row_call cv c m' q"
  using assms by (cases c; simp)+

lemma calls_fit_cong: "\<forall>q < n. m q = m' q \<Longrightarrow> calls_fit cv n w cs m' \<Longrightarrow> calls_fit cv n w cs m"
proof (induction cs arbitrary: m m')
  case (Cons c cs)
  then show ?case using row_call_cong [of n m m' cv w c] by simp blast
qed simp

lemma calls_refine:
  assumes "ok t" "calls_fit (conv t) (rows t) (width t) cs m" "\<forall>q < rows t. m q = row t q"
  shows "\<exists>t'. foldR (run_call app ad mv sw) cs t = Inr t' \<and> ok t' \<and> same t t'
    \<and> (\<forall>q < rows t. row t' q = fold (row_call (conv t)) cs m q)"
  using assms
proof (induction cs arbitrary: t m)
  case Nil
  then show ?case by (simp add: same_refl)
next
  case (Cons c cs)
  have f: "call_fits (conv t) (rows t) (width t) c m" "calls_fit (conv t) (rows t) (width t) cs (row_call (conv t) c m)"
    using Cons.prems(2) by simp_all
  have m: "\<forall>q < rows t. row t q = m q" using Cons.prems(3) by simp
  obtain t1 where t1: "run_call app ad mv sw c t = Inr t1" "ok t1" "same t t1"
    "\<forall>q < rows t. row t1 q = row_call (conv t) c (row t) q"
    using call [OF Cons.prems(1) row_call_cong(1) [OF m f(1)]] by blast
  note s = sameD [OF t1(3)]
  have "\<forall>q < rows t1. row_call (conv t) c m q = row t1 q" using t1(4) row_call_cong(2) [OF m f(1)] s by simp
  with Cons.IH [OF t1(2), of "row_call (conv t) c m"] f(2) s
  obtain t' where "foldR (run_call app ad mv sw) cs t1 = Inr t'" "ok t'" "same t1 t'"
    "\<forall>q < rows t. row t' q = fold (row_call (conv t)) cs (row_call (conv t) c m) q" by auto
  then show ?case using t1(1) same_trans [OF t1(3)] by auto
qed

end

text \<open>The block table provides it.\<close>

definition table_same :: "block_table \<Rightarrow> block_table \<Rightarrow> bool" where
  "table_same t t' \<longleftrightarrow> (\<exists>cpu num d. t' = t\<lparr>bt_cpu := cpu, bt_num_blocks_per_row := num, bt_dirty := d\<rparr> \<and> length cpu = num_rows t)"

lemma row_of_update:
  assumes "table_ok t" "r < num_rows t" "length x = row_width t" "0 \<le> n" "nat n \<le> row_width t" "q < num_rows t"
  shows "row_of (t\<lparr>bt_cpu := (bt_cpu t)[r := x], bt_num_blocks_per_row := (bt_num_blocks_per_row t)[r := n], bt_dirty := d\<rparr>) q
    = (if q = r then take (nat n) x else row_of t q)"
  using row_lengths(5) [OF assms(1)] assms by (simp add: row_of_def nth_list_update)

lemma table_ok_update:
  assumes "table_ok t" "length x = row_width t" "0 \<le> n" "n \<le> bt_max_num_blocks_per_req t"
  shows "table_ok (t\<lparr>bt_cpu := (bt_cpu t)[r := x], bt_num_blocks_per_row := (bt_num_blocks_per_row t)[r := n], bt_dirty := d\<rparr>)"
  using assms by (auto simp: table_ok_def dest!: set_update_subset_insert [THEN subsetD])

lemma stored_ids_fit:
  assumes "table_ok t" "list_all (in_bits 32) (kernel_ids t ids)"
  shows "stored_ids t ids = Inr (kernel_ids t ids)"
proof (cases "bt_use_hybrid_blocks t")
  case True
  let ?q = "bt_blocks_per_kv_block t"
  have q: "0 < ?q" using assms(1) True by (simp add: table_ok_def)
  have k: "kernel_ids t ids = map_to_kernel_blocks ids ?q" using True by (simp add: kernel_ids_def)
  have "in_bits 64 b" if "b \<in> set ids" for b
  proof -
    have "b * ?q \<in> set (map_to_kernel_blocks ids ?q)" using that q by (auto simp: map_to_kernel_blocks_def intro!: bexI [of _ b] image_eqI [of _ _ 0])
    then have "- (2 ^ 31) \<le> b * ?q" "b * ?q < 2 ^ 31" using assms(2) unfolding k by (auto simp: list_all_iff in_bits_def)
    moreover have "\<bar>b\<bar> \<le> \<bar>b * ?q\<bar>" using q by (simp add: abs_mult mult_le_cancel_left1)
    ultimately show ?thesis by (simp add: in_bits_def abs_le_iff) linarith
  qed
  moreover have "map int32 (map_to_kernel_blocks ids ?q) = map_to_kernel_blocks ids ?q"
    using assms(2) unfolding k by (intro map_idI) (auto simp: list_all_iff in_bits_def intro!: int32_id)
  ultimately show ?thesis using True by (simp add: stored_ids_def k list_all_iff)
qed (use assms(2) in \<open>simp add: stored_ids_def kernel_ids_def\<close>)

lemma append_row_fits:
  assumes ok: "table_ok t" and r: "r < num_rows t" and fits: "length (row_of t r) + length (kernel_ids t ids) \<le> row_width t"
    and small: "list_all (in_bits 32) (kernel_ids t ids)"
  shows "\<exists>x n d. append_row ids (int r) t = Inr (t\<lparr>bt_cpu := (bt_cpu t)[r := x], bt_num_blocks_per_row := (bt_num_blocks_per_row t)[r := n],
      bt_dirty := d\<rparr>) \<and> length x = row_width t \<and> 0 \<le> n \<and> n \<le> bt_max_num_blocks_per_req t
      \<and> take (nat n) x = row_of t r @ kernel_ids t ids \<and> (ids \<noteq> [] \<longrightarrow> d)"
proof (cases "ids = []")
  case True
  have "kernel_ids t ids = []" by (simp add: True kernel_ids_def map_to_kernel_blocks_def)
  moreover have "t = t\<lparr>bt_cpu := (bt_cpu t)[r := bt_cpu t ! r],
      bt_num_blocks_per_row := (bt_num_blocks_per_row t)[r := bt_num_blocks_per_row t ! r], bt_dirty := bt_dirty t\<rparr>" by simp
  moreover have "take (nat (bt_num_blocks_per_row t ! r)) (bt_cpu t ! r) = row_of t r" by (simp add: row_of_def)
  ultimately show ?thesis using row_lengths [OF ok r] True
    by (intro exI [of _ "bt_cpu t ! r"] exI [of _ "bt_num_blocks_per_row t ! r"] exI [of _ "bt_dirty t"]) (simp add: append_row_def)
next
  case False
  let ?n = "bt_num_blocks_per_row t ! r" and ?x = "bt_cpu t ! r" and ?k = "kernel_ids t ids"
  note l = row_lengths [OF ok r]
  have room: "nat ?n + length ?k \<le> row_width t" using fits l(4) by simp
  have a: "assign_slice ?x (nat ?n) ?k = Inr (take (nat ?n) ?x @ ?k @ drop (nat ?n + length ?k) ?x)"
  proof -
    have "length ?k \<le> length ?x - nat ?n" using room l(1) by linarith
    then show ?thesis by (simp add: assign_slice_def Let_def)
  qed
  have "append_row ids (int r) t = Inr (t\<lparr>bt_cpu := (bt_cpu t)[r := take (nat ?n) ?x @ ?k @ drop (nat ?n + length ?k) ?x],
      bt_num_blocks_per_row := (bt_num_blocks_per_row t)[r := ?n + int (length ?k)], bt_dirty := True\<rparr>)"
    using False r l(5) a stored_ids_fit [OF ok small] unfolding append_row_def Let_def by simp
  moreover have "length (take (nat ?n) ?x @ ?k @ drop (nat ?n + length ?k) ?x) = row_width t" using room l(1,3) by simp
  moreover have "take (nat (?n + int (length ?k))) (take (nat ?n) ?x @ ?k @ drop (nat ?n + length ?k) ?x) = row_of t r @ ?k"
    using l(1,2,3) by (simp add: row_of_def nat_add_distrib)
  moreover have "0 \<le> ?n + int (length ?k)" "?n + int (length ?k) \<le> bt_max_num_blocks_per_req t" using room l(2,6) by linarith+
  ultimately show ?thesis by blast
qed

lemma add_row_fits:
  assumes ok: "table_ok t" and r: "r < num_rows t" and fits: "length (kernel_ids t ids) \<le> row_width t"
    and small: "list_all (in_bits 32) (kernel_ids t ids)"
  shows "\<exists>x n. add_row ids (int r) t = Inr (t\<lparr>bt_cpu := (bt_cpu t)[r := x], bt_num_blocks_per_row := (bt_num_blocks_per_row t)[r := n],
      bt_dirty := True\<rparr>) \<and> length x = row_width t \<and> 0 \<le> n \<and> n \<le> bt_max_num_blocks_per_req t \<and> take (nat n) x = kernel_ids t ids"
proof -
  let ?t = "t\<lparr>bt_num_blocks_per_row := (bt_num_blocks_per_row t)[r := 0], bt_dirty := True\<rparr>"
  note l = row_lengths [OF ok r]
  have w: "0 \<le> bt_max_num_blocks_per_req t" using l(2,6) by linarith
  have "table_ok (t\<lparr>bt_cpu := (bt_cpu t)[r := bt_cpu t ! r], bt_num_blocks_per_row := (bt_num_blocks_per_row t)[r := 0], bt_dirty := True\<rparr>)"
    by (rule table_ok_update [OF ok l(1) _ w]) simp
  then have ok': "table_ok ?t" by simp
  have k: "kernel_ids ?t ids = kernel_ids t ids" "row_of ?t r = []" using l(5) by (simp_all add: kernel_ids_def row_of_def)
  obtain x n d where "append_row ids (int r) ?t = Inr (?t\<lparr>bt_cpu := (bt_cpu t)[r := x],
      bt_num_blocks_per_row := (bt_num_blocks_per_row ?t)[r := n], bt_dirty := d\<rparr>)" "length x = row_width t" "0 \<le> n"
      "n \<le> bt_max_num_blocks_per_req t" "take (nat n) x = kernel_ids t ids" "ids \<noteq> [] \<longrightarrow> d"
    using append_row_fits [OF ok', of r ids] r fits small k by auto
  moreover have "add_row ids (int r) t = append_row ids (int r) ?t" using l(5) by (simp add: add_row_def)
  moreover have "d = True" if "ids = []"
    using calculation(1) that by (auto simp: append_row_def dest: arg_cong [where f = bt_dirty])
  ultimately show ?thesis by (intro exI [of _ x] exI [of _ n]) auto
qed

lemma move_row_spec:
  assumes ok: "table_ok t" and r: "r < num_rows t" "p < num_rows t"
  shows "\<exists>x n. move_row (int r) (int p) t = Inr (t\<lparr>bt_cpu := (bt_cpu t)[p := x], bt_num_blocks_per_row := (bt_num_blocks_per_row t)[p := n],
      bt_dirty := True\<rparr>) \<and> length x = row_width t \<and> 0 \<le> n \<and> n \<le> bt_max_num_blocks_per_req t \<and> take (nat n) x = row_of t r"
proof -
  let ?n = "bt_num_blocks_per_row t ! r"
  note l = row_lengths [OF ok r(1)] and m = row_lengths [OF ok r(2)]
  have "move_row (int r) (int p) t = Inr (t\<lparr>bt_cpu := (bt_cpu t)[p := take (nat ?n) (bt_cpu t ! r) @ drop (nat ?n) (bt_cpu t ! p)],
      bt_num_blocks_per_row := (bt_num_blocks_per_row t)[p := ?n], bt_dirty := True\<rparr>)"
    using l(5) m(5) by (simp add: move_row_def Let_def)
  moreover have "length (take (nat ?n) (bt_cpu t ! r) @ drop (nat ?n) (bt_cpu t ! p)) = row_width t" using l(1,3) m(1) by simp
  moreover have "take (nat ?n) (take (nat ?n) (bt_cpu t ! r) @ drop (nat ?n) (bt_cpu t ! p)) = row_of t r"
    using l(1,3) by (simp add: row_of_def)
  ultimately show ?thesis using l(2,6) by blast
qed

lemma swap_row_spec:
  assumes ok: "table_ok t" and r: "r < num_rows t" "p < num_rows t"
  shows "\<exists>t'. swap_row (int r) (int p) t = Inr t' \<and> table_ok t' \<and> table_same t t'
    \<and> (\<forall>q < num_rows t. row_of t' q = ((row_of t)(r := row_of t p, p := row_of t r)) q)"
proof -
  note l = row_lengths [OF ok r(1)] and m = row_lengths [OF ok r(2)]
  let ?t1 = "t\<lparr>bt_cpu := (bt_cpu t)[r := bt_cpu t ! p],
    bt_num_blocks_per_row := (bt_num_blocks_per_row t)[r := bt_num_blocks_per_row t ! p], bt_dirty := True\<rparr>"
  let ?t2 = "?t1\<lparr>bt_cpu := (bt_cpu ?t1)[p := bt_cpu t ! r],
    bt_num_blocks_per_row := (bt_num_blocks_per_row ?t1)[p := bt_num_blocks_per_row t ! r], bt_dirty := True\<rparr>"
  have ok1: "table_ok ?t1" by (rule table_ok_update [OF ok m(1,2,6)])
  have s: "swap_row (int r) (int p) t = Inr ?t2" using l(5) m(5) by (simp add: swap_row_def)
  have ok2: "table_ok ?t2" by (rule table_ok_update [OF ok1]) (use l in simp_all)
  have "row_of ?t2 q = ((row_of t)(r := row_of t p, p := row_of t r)) q" if q: "q < num_rows t" for q
    using l(5) m(5) r q row_lengths(5) [OF ok q] by (auto simp: row_of_def nth_list_update)
  moreover have "table_same t ?t2" unfolding table_same_def
    by (intro exI [of _ "bt_cpu ?t2"] exI [of _ "bt_num_blocks_per_row ?t2"] exI [of _ True]) simp
  ultimately show ?thesis using s ok2 by blast
qed

lemma updated_row:
  assumes ok: "table_ok t" and r: "r < num_rows t" and x: "length x = row_width t" "0 \<le> n" "n \<le> bt_max_num_blocks_per_req t"
  shows "table_ok (t\<lparr>bt_cpu := (bt_cpu t)[r := x], bt_num_blocks_per_row := (bt_num_blocks_per_row t)[r := n], bt_dirty := d\<rparr>)"
    "table_same t (t\<lparr>bt_cpu := (bt_cpu t)[r := x], bt_num_blocks_per_row := (bt_num_blocks_per_row t)[r := n], bt_dirty := d\<rparr>)"
    "\<forall>q < num_rows t. row_of (t\<lparr>bt_cpu := (bt_cpu t)[r := x], bt_num_blocks_per_row := (bt_num_blocks_per_row t)[r := n],
        bt_dirty := d\<rparr>) q = (if q = r then take (nat n) x else row_of t q)"
proof -
  show "table_ok (t\<lparr>bt_cpu := (bt_cpu t)[r := x], bt_num_blocks_per_row := (bt_num_blocks_per_row t)[r := n], bt_dirty := d\<rparr>)"
    by (rule table_ok_update [OF ok x])
  show "table_same t (t\<lparr>bt_cpu := (bt_cpu t)[r := x], bt_num_blocks_per_row := (bt_num_blocks_per_row t)[r := n], bt_dirty := d\<rparr>)"
    unfolding table_same_def by (metis length_list_update)
  show "\<forall>q < num_rows t. row_of (t\<lparr>bt_cpu := (bt_cpu t)[r := x], bt_num_blocks_per_row := (bt_num_blocks_per_row t)[r := n],
        bt_dirty := d\<rparr>) q = (if q = r then take (nat n) x else row_of t q)"
    using row_of_update [OF ok r x(1,2)] x(3) by (simp add: nat_mono)
qed

abbreviation run_table_call :: "table_call \<Rightarrow> block_table \<Rightarrow> block_table result" where
  "run_table_call \<equiv> run_call (\<lambda>ids r. append_row ids (int r)) (\<lambda>ids r. add_row ids (int r))
     (\<lambda>r p. move_row (int r) (int p)) (\<lambda>r p. swap_row (int r) (int p))"

interpretation block_rows: row_table row_of table_ok num_rows row_width kernel_ids "\<lambda>ids r. append_row ids (int r)"
  "\<lambda>ids r. add_row ids (int r)" "\<lambda>r p. move_row (int r) (int p)" "\<lambda>r p. swap_row (int r) (int p)" table_same
proof
  show "\<exists>t'. run_table_call c t = Inr t' \<and> table_ok t' \<and> table_same t t'
      \<and> (\<forall>q < num_rows t. row_of t' q = row_call (kernel_ids t) c (row_of t) q)"
    if ok: "table_ok t" and f: "call_fits (kernel_ids t) (num_rows t) (row_width t) c (row_of t)" for t c
  proof (cases c)
    case (Append_Row ids r)
    then have r: "r < num_rows t" "length (row_of t r) + length (kernel_ids t ids) \<le> row_width t" "list_all (in_bits 32) (kernel_ids t ids)"
      using f by simp_all
    from append_row_fits [OF ok r] obtain x n d where x: "append_row ids (int r) t = Inr (t\<lparr>bt_cpu := (bt_cpu t)[r := x],
        bt_num_blocks_per_row := (bt_num_blocks_per_row t)[r := n], bt_dirty := d\<rparr>)" "length x = row_width t" "0 \<le> n"
        "n \<le> bt_max_num_blocks_per_req t" "take (nat n) x = row_of t r @ kernel_ids t ids" by blast
    from updated_row [OF ok r(1) x(2-4), of d] x(1,5) Append_Row show ?thesis by simp
  next
    case (Add_Row ids r)
    then have r: "r < num_rows t" "length (kernel_ids t ids) \<le> row_width t" "list_all (in_bits 32) (kernel_ids t ids)" using f by simp_all
    from add_row_fits [OF ok r] obtain x n where x: "add_row ids (int r) t = Inr (t\<lparr>bt_cpu := (bt_cpu t)[r := x],
        bt_num_blocks_per_row := (bt_num_blocks_per_row t)[r := n], bt_dirty := True\<rparr>)" "length x = row_width t" "0 \<le> n"
        "n \<le> bt_max_num_blocks_per_req t" "take (nat n) x = kernel_ids t ids" by blast
    from updated_row [OF ok r(1) x(2-4), of True] x(1,5) Add_Row show ?thesis by simp
  next
    case (Move_Row r p)
    then have r: "r < num_rows t" "p < num_rows t" using f by simp_all
    from move_row_spec [OF ok r] obtain x n where x: "move_row (int r) (int p) t = Inr (t\<lparr>bt_cpu := (bt_cpu t)[p := x],
        bt_num_blocks_per_row := (bt_num_blocks_per_row t)[p := n], bt_dirty := True\<rparr>)" "length x = row_width t" "0 \<le> n"
        "n \<le> bt_max_num_blocks_per_req t" "take (nat n) x = row_of t r" by blast
    from updated_row [OF ok r(2) x(2-4), of True] x(1,5) Move_Row show ?thesis by simp
  next
    case (Swap_Row r p)
    with f swap_row_spec [OF ok, of r p] show ?thesis by simp
  qed
  show "num_rows t' = num_rows t \<and> row_width t' = row_width t \<and> kernel_ids t' = kernel_ids t" if "table_same t t'" for t t'
    using that by (auto simp: table_same_def kernel_ids_def)
  show "table_same t t" for t
    unfolding table_same_def by (rule exI [of _ "bt_cpu t"], rule exI [of _ "bt_num_blocks_per_row t"], rule exI [of _ "bt_dirty t"]) simp
  show "table_same t t''" if s: "table_same t t'" "table_same t' t''" for t t' t''
  proof -
    obtain c n d c' n' d' where "t' = t\<lparr>bt_cpu := c, bt_num_blocks_per_row := n, bt_dirty := d\<rparr>" "length c = num_rows t"
      "t'' = t'\<lparr>bt_cpu := c', bt_num_blocks_per_row := n', bt_dirty := d'\<rparr>" "length c' = num_rows t'"
      using s unfolding table_same_def by blast
    then have "t'' = t\<lparr>bt_cpu := c', bt_num_blocks_per_row := n', bt_dirty := d'\<rparr>" "length c' = num_rows t" by simp_all
    then show ?thesis unfolding table_same_def by blast
  qed
qed

subsection \<open>Copies to the device\<close>

text \<open>
  Everything that happens to a table; a caller that holds the array on the host may write to it. \<open>n\<close> counts the rows
  that are known to be the same on the device when the table is not dirty: those of the last copy.
\<close>

inductive table_reach :: "block_table \<Rightarrow> nat \<Rightarrow> bool" where
  reach_init: "block_table_init bs mr mb mt kbs il g = Inr t \<Longrightarrow> table_reach t (num_rows t)"
| reach_append: "table_reach t n \<Longrightarrow> append_row ids r t = Inr t' \<Longrightarrow> table_reach t' n"
| reach_add: "table_reach t n \<Longrightarrow> add_row ids r t = Inr t' \<Longrightarrow> table_reach t' n"
| reach_move: "table_reach t n \<Longrightarrow> move_row r p t = Inr t' \<Longrightarrow> table_reach t' n"
| reach_swap: "table_reach t n \<Longrightarrow> swap_row r p t = Inr t' \<Longrightarrow> table_reach t' n"
| reach_slots: "table_reach t n \<Longrightarrow> compute_slot_mapping xs t = Inr t' \<Longrightarrow> table_reach t' n"
| reach_commit: "table_reach t n \<Longrightarrow> 0 \<le> k \<Longrightarrow> table_reach (commit_block_table k t) (if bt_dirty t then nat k else n)"
| reach_commit_slots: "table_reach t n \<Longrightarrow> table_reach (commit_slot_mapping k t) n"
| reach_clear: "table_reach t n \<Longrightarrow> table_reach (clear_table t) (num_rows t)"
| reach_write: "table_reach t n \<Longrightarrow> get_numpy_array t = (a, t') \<Longrightarrow> map length a' = map length a \<Longrightarrow> table_reach (t'\<lparr>bt_cpu := a'\<rparr>) n"
| reach_write_tensor: "table_reach t n \<Longrightarrow> get_cpu_tensor t = (a, t') \<Longrightarrow> map length a' = map length a \<Longrightarrow> table_reach (t'\<lparr>bt_cpu := a'\<rparr>) n"

inductive_cases table_reach_cases: "table_reach t n"

definition rows_synced :: "block_table \<Rightarrow> nat \<Rightarrow> bool" where
  "rows_synced t n \<longleftrightarrow> map length (bt_gpu t) = map length (bt_cpu t) \<and> (\<exists>w. \<forall>row \<in> set (bt_cpu t). length row = w)
     \<and> (bt_dirty t \<or> take n (bt_gpu t) = take n (bt_cpu t))"

lemma same_lengths_zero: "map length xs = map length ys \<Longrightarrow> map (map (\<lambda>_. 0 :: int)) xs = map (map (\<lambda>_. 0)) ys"
  by (induction xs ys rule: list_induct2') (auto simp: map_replicate_const)

lemma assign_slice_length: "assign_slice row k ids = Inr row' \<Longrightarrow> length row' = length row"
  by (auto simp: assign_slice_def Let_def split: if_split_asm)

lemma all_rows_update: "\<forall>row \<in> set xs. P row \<Longrightarrow> P y \<Longrightarrow> \<forall>row \<in> set (xs[i := y]). P row"
  using set_update_subset_insert [of xs i y] by blast

lemma np_index_less: "np_index n i = Inr k \<Longrightarrow> k < n"
  by (auto simp: np_index_def split: if_split_asm)

text \<open>A write to the rows keeps their lengths and sets the flag.\<close>

lemma written_rows:
  assumes "append_row ids r t = Inr t' \<or> add_row ids r t = Inr t' \<or> move_row r p t = Inr t' \<or> swap_row r p t = Inr t'"
    and w: "\<forall>row \<in> set (bt_cpu t). length row = w" and n: "length (bt_num_blocks_per_row t) = num_rows t"
  shows "(bt_dirty t' \<or> t' = t) \<and> bt_gpu t' = bt_gpu t \<and> num_rows t' = num_rows t
    \<and> (\<forall>row \<in> set (bt_cpu t'). length row = w) \<and> length (bt_num_blocks_per_row t') = num_rows t'"
proof -
  have ap: "(bt_dirty t' \<or> t' = t) \<and> bt_gpu t' = bt_gpu t \<and> num_rows t' = num_rows t
    \<and> (\<forall>row \<in> set (bt_cpu t'). length row = w) \<and> length (bt_num_blocks_per_row t') = num_rows t'"
    if run: "append_row ids r t = Inr t'" and w: "\<forall>row \<in> set (bt_cpu t). length row = w"
      and n: "length (bt_num_blocks_per_row t) = num_rows t" for t t'
  proof (cases "ids = []")
    case False
    obtain i j k row ks v where i: "np_index (num_rows t) r = Inr i" and a: "assign_slice (bt_cpu t ! i) k ks = Inr row"
      and e: "t' = t\<lparr>bt_num_blocks_per_row := (bt_num_blocks_per_row t)[j := v], bt_cpu := (bt_cpu t)[i := row], bt_dirty := True\<rparr>"
      using run unfolding append_row_def Let_def if_not_P [OF False] bindR_eq_Inr sum.inject by blast
    have t': "bt_cpu t' = (bt_cpu t)[i := row]" "bt_dirty t'" "bt_gpu t' = bt_gpu t"
        "length (bt_num_blocks_per_row t') = length (bt_num_blocks_per_row t)" by (simp_all add: e)
    have "length row = w" using assign_slice_length [OF a] w nth_mem [OF np_index_less [OF i]] by simp
    from all_rows_update [of _ "\<lambda>row. length row = w", OF w this]
    have "\<forall>row \<in> set (bt_cpu t'). length row = w" unfolding t'(1) .
    then show ?thesis using t'(2-4) n arg_cong [OF t'(1), of length] by simp
  qed (use run w n in \<open>auto simp: append_row_def\<close>)
  from assms(1) consider (a) "append_row ids r t = Inr t'" | (b) "add_row ids r t = Inr t'" | (c) "move_row r p t = Inr t'"
    | (d) "swap_row r p t = Inr t'" by blast
  then show ?thesis
  proof cases
    case a
    then show ?thesis by (rule ap [OF _ w n])
  next
    case b
    then obtain k where k: "append_row ids r (t\<lparr>bt_num_blocks_per_row := (bt_num_blocks_per_row t)[k := 0], bt_dirty := True\<rparr>) = Inr t'"
      by (auto simp: add_row_def bindR_eq_Inr)
    define u where "u = t\<lparr>bt_num_blocks_per_row := (bt_num_blocks_per_row t)[k := 0], bt_dirty := True\<rparr>"
    have u: "bt_dirty u" "bt_gpu u = bt_gpu t" "bt_cpu u = bt_cpu t" "length (bt_num_blocks_per_row u) = num_rows u"
      using n by (simp_all add: u_def)
    have "append_row ids r u = Inr t'" using k by (simp add: u_def)
    from ap [OF this _ u(4)] w u(3) have "(bt_dirty t' \<or> t' = u) \<and> bt_gpu t' = bt_gpu u \<and> num_rows t' = num_rows u
      \<and> (\<forall>row \<in> set (bt_cpu t'). length row = w) \<and> length (bt_num_blocks_per_row t') = num_rows t'" by simp
    then show ?thesis using u(1-3) by metis
  next
    case c
    then obtain i j m v where ij: "np_index (num_rows t) r = Inr i" "np_index (num_rows t) p = Inr j"
      and e: "t' = t\<lparr>bt_cpu := (bt_cpu t)[j := take m (bt_cpu t ! i) @ drop m (bt_cpu t ! j)],
        bt_num_blocks_per_row := (bt_num_blocks_per_row t)[j := v], bt_dirty := True\<rparr>"
      unfolding move_row_def Let_def n bindR_eq_Inr sum.inject by blast
    have t': "bt_cpu t' = (bt_cpu t)[j := take m (bt_cpu t ! i) @ drop m (bt_cpu t ! j)]" "bt_dirty t'" "bt_gpu t' = bt_gpu t"
        "length (bt_num_blocks_per_row t') = length (bt_num_blocks_per_row t)" by (simp_all add: e)
    have "length (bt_cpu t ! i) = w" "length (bt_cpu t ! j) = w"
      using w nth_mem [OF np_index_less [OF ij(1)]] nth_mem [OF np_index_less [OF ij(2)]] by blast+
    then have "length (take m (bt_cpu t ! i) @ drop m (bt_cpu t ! j)) = w" by auto
    from all_rows_update [of _ "\<lambda>row. length row = w", OF w this]
    have "\<forall>row \<in> set (bt_cpu t'). length row = w" unfolding t'(1) .
    then show ?thesis using t'(2-4) n arg_cong [OF t'(1), of length] by simp
  next
    case d
    then obtain i j u v where ij: "np_index (num_rows t) r = Inr i" "np_index (num_rows t) p = Inr j"
      and e: "t' = t\<lparr>bt_num_blocks_per_row := (bt_num_blocks_per_row t)[i := u, j := v],
        bt_cpu := (bt_cpu t)[i := bt_cpu t ! j, j := bt_cpu t ! i], bt_dirty := True\<rparr>"
      unfolding swap_row_def n bindR_eq_Inr sum.inject by blast
    have t': "bt_cpu t' = (bt_cpu t)[i := bt_cpu t ! j, j := bt_cpu t ! i]" "bt_dirty t'" "bt_gpu t' = bt_gpu t"
        "length (bt_num_blocks_per_row t') = length (bt_num_blocks_per_row t)" by (simp_all add: e)
    have "length (bt_cpu t ! i) = w" "length (bt_cpu t ! j) = w"
      using w nth_mem [OF np_index_less [OF ij(1)]] nth_mem [OF np_index_less [OF ij(2)]] by blast+
    then have "\<forall>row \<in> set (bt_cpu t'). length row = w" unfolding t'(1)
      using all_rows_update [of _ "\<lambda>row. length row = w", OF all_rows_update [of _ "\<lambda>row. length row = w", OF w]] by blast
    then show ?thesis using t'(2-4) n arg_cong [OF t'(1), of length] by simp
  qed
qed

lemma written_step:
  assumes "append_row ids r t = Inr t' \<or> add_row ids r t = Inr t' \<or> move_row r p t = Inr t' \<or> swap_row r p t = Inr t'"
    and "rows_synced t n \<and> length (bt_num_blocks_per_row t) = num_rows t"
  shows "rows_synced t' n \<and> length (bt_num_blocks_per_row t') = num_rows t'"
proof -
  obtain w where w: "\<forall>row \<in> set (bt_cpu t). length row = w" using assms(2) unfolding rows_synced_def by blast
  note s = written_rows [OF assms(1) w] and shape = assms(2) [unfolded rows_synced_def]
  have "map length (bt_cpu t') = replicate (num_rows t') w" "map length (bt_cpu t) = replicate (num_rows t) w"
    using s assms(2) w by (simp_all add: map_idI list_eq_iff_nth_eq)
  then show ?thesis using s shape w by (auto simp: rows_synced_def)
qed

lemma viewed_step:
  assumes "rows_synced t n \<and> length (bt_num_blocks_per_row t) = num_rows t" and "map length a' = map length (bt_cpu t)"
  shows "rows_synced (t\<lparr>bt_dirty := True, bt_cpu := a'\<rparr>) n \<and> length (bt_num_blocks_per_row t) = length a'"
proof -
  obtain w where "\<forall>row \<in> set (bt_cpu t). length row = w" using assms(1) unfolding rows_synced_def by blast
  then have "\<forall>x \<in> set (map length (bt_cpu t)). x = w" by simp
  then have "\<forall>row \<in> set a'. length row = w" unfolding assms(2) [symmetric] by simp
  moreover have "length a' = num_rows t" using arg_cong [OF assms(2), of length] by simp
  ultimately show ?thesis using assms by (auto simp: rows_synced_def)
qed

lemma synced_reach: "table_reach t n \<Longrightarrow> rows_synced t n \<and> length (bt_num_blocks_per_row t) = num_rows t"
proof (induction rule: table_reach.induct)
  case (reach_init bs mr mb mt kbs il g t)
  then show ?case by (auto simp: block_table_init_def rows_synced_def zeros_def bindR_eq_Inr Let_def split: if_split_asm)
next
  case (reach_commit t n k)
  have shape: "map length (bt_gpu t) = map length (bt_cpu t)" using reach_commit.IH by (simp add: rows_synced_def)
  have len: "num_rows t = length (bt_gpu t)" using arg_cong [OF shape, of length] by simp
  show ?case
  proof (cases "bt_dirty t")
    case True
    let ?k = "min (num_rows t) (nat k)"
    have "copy_rows k (bt_cpu t) (bt_gpu t) = take ?k (bt_cpu t) @ drop ?k (bt_gpu t)"
      using reach_commit.hyps by (simp add: copy_rows_def slice_bound_def Let_def)
    moreover have "map length (take ?k (bt_cpu t) @ drop ?k (bt_gpu t)) = map length (bt_cpu t)"
      using shape by (metis append_take_drop_id drop_map map_append take_map)
    moreover have "take (nat k) (take ?k (bt_cpu t) @ drop ?k (bt_gpu t)) = take (nat k) (bt_cpu t)"
      using len by (cases "nat k \<le> num_rows t") (auto simp: min_def)
    ultimately show ?thesis using reach_commit.IH True by (simp add: commit_block_table_def rows_synced_def)
  qed (use reach_commit.IH in \<open>simp add: commit_block_table_def\<close>)
next
  case (reach_clear t n)
  have shape: "map length (bt_gpu t) = map length (bt_cpu t)" using reach_clear.IH by (simp add: rows_synced_def)
  have "map length (map (map (\<lambda>_. 0 :: int)) (bt_cpu t)) = map length (bt_cpu t)" by simp
  with reach_clear.IH same_lengths_zero [OF shape] show ?case by (auto simp: clear_table_def rows_synced_def)
next
  case (reach_write t n a t' a')
  have "a = bt_cpu t" "t' = t\<lparr>bt_dirty := True\<rparr>" using reach_write.hyps by (simp_all add: get_numpy_array_def)
  then show ?case using viewed_step [OF reach_write.IH, of a'] reach_write.hyps by simp
next
  case (reach_write_tensor t n a t' a')
  have "a = bt_cpu t" "t' = t\<lparr>bt_dirty := True\<rparr>" using reach_write_tensor.hyps by (simp_all add: get_cpu_tensor_def)
  then show ?case using viewed_step [OF reach_write_tensor.IH, of a'] reach_write_tensor.hyps by simp
next
  case (reach_slots t n xs t')
  then show ?case by (auto simp: compute_slot_mapping_def bindR_eq_Inr rows_synced_def split: if_split_asm)
next
  case (reach_commit_slots t n k)
  then show ?case by (auto simp: commit_slot_mapping_def rows_synced_def)
next
  case (reach_append t n ids r t')
  then show ?case using written_step [of ids r t t'] by blast
next
  case (reach_add t n ids r t')
  then show ?case using written_step [of ids r t t'] by blast
next
  case (reach_move t n r p t')
  then show ?case using written_step [of "[]" r t t' p] by blast
next
  case (reach_swap t n r p t')
  then show ?case using written_step [of "[]" r t t' p] by blast
qed

subsection \<open>Slots\<close>

lemma concat_rows_nth:
  "\<forall>x \<in> set xss. length x = w \<Longrightarrow> r < length xss \<Longrightarrow> i < w \<Longrightarrow>
   r * w + i < length (concat xss) \<and> concat xss ! (r * w + i) = xss ! r ! i"
proof (induction xss arbitrary: r)
  case (Cons x xss)
  show ?case
  proof (cases r)
    case 0
    then show ?thesis using Cons.prems by (simp add: nth_append)
  next
    case (Suc q)
    then show ?thesis using Cons.IH [of q] Cons.prems by (simp add: nth_append)
  qed
qed simp

text \<open>The entry of the flattened table is that of the row.\<close>

lemma ravel_entry:
  assumes ok: "table_ok t" and r: "r < num_rows t" and i: "i < length (row_of t r)"
  shows "py_nth (concat (bt_cpu t)) (int r * bt_max_num_blocks_per_req t + int i) = Inr (row_of t r ! i)"
proof -
  note l = row_lengths [OF ok r]
  have w: "\<forall>x \<in> set (bt_cpu t). length x = row_width t" using ok by (simp add: table_ok_def)
  have i': "i < row_width t" "i < nat (bt_num_blocks_per_row t ! r)" using i l(3,4) by simp_all
  have m: "0 \<le> bt_max_num_blocks_per_req t" using l(2,6) by linarith
  have "int r * bt_max_num_blocks_per_req t + int i = int (r * row_width t + i)" using m by simp
  then show ?thesis using concat_rows_nth [OF w r i'(1)] i'(2) by (simp only: py_nth_nonneg(2) if_True row_of_def nth_take)
qed

definition fits_int32 :: "block_table \<Rightarrow> bool" where
  "fits_int32 t \<longleftrightarrow> (\<forall>r < num_rows t. \<forall>b \<in> set (row_of t r). 0 \<le> b \<and> b * bt_block_size t < 2 ^ 31)"

lemma slot_of_row:
  assumes ok: "table_ok t" "fits_int32 t" and cp: "cp_world_size t = 1" and b: "0 < bt_block_size t"
    and r: "r < num_rows t" and p: "0 \<le> p" "p < int (length (row_of t r)) * bt_block_size t"
  shows "slot_of t (int r, p) = Inr (row_of t r ! nat (p div bt_block_size t) * bt_block_size t + p mod bt_block_size t)"
proof -
  let ?bs = "bt_block_size t" and ?i = "nat (p div bt_block_size t)"
  have d: "0 \<le> p div ?bs" using p(1) b by (simp add: pos_imp_zdiv_nonneg_iff)
  have "p div ?bs < int (length (row_of t r))" using p(2) le_div_int_iff [OF b, of "int (length (row_of t r))" p] by linarith
  then have i: "?i < length (row_of t r)" using d by linarith
  have "row_of t r ! ?i \<in> set (row_of t r)" using i by simp
  then have "0 \<le> row_of t r ! ?i" "row_of t r ! ?i * ?bs < 2 ^ 31" using ok(2) r by (auto simp: fits_int32_def)
  moreover from this have "- (2 ^ 31) \<le> row_of t r ! ?i * ?bs" using b mult_nonneg_nonneg [of "row_of t r ! ?i" ?bs] by linarith
  ultimately have "int32 (row_of t r ! ?i * ?bs) = row_of t r ! ?i * ?bs" by (intro int32_id)
  then show ?thesis using ravel_entry [OF ok(1) r i] d cp by (simp add: slot_of_def Let_def)
qed

lemma slots_of_eq: "(\<And>x. x \<in> set xs \<Longrightarrow> slot_of t x = Inr (f x)) \<Longrightarrow> slots_of t xs = Inr (map f xs)"
  by (induction xs) auto

definition row_slot :: "block_table \<Rightarrow> int \<times> int \<Rightarrow> int" where
  "row_slot t x = row_of t (nat (fst x)) ! nat (snd x div bt_block_size t) * bt_block_size t + snd x mod bt_block_size t"

definition positions_ok :: "block_table \<Rightarrow> (int \<times> int) list \<Rightarrow> bool" where
  "positions_ok t xs \<longleftrightarrow> (\<forall>x \<in> set xs. 0 \<le> fst x \<and> nat (fst x) < num_rows t \<and> 0 \<le> snd x
     \<and> snd x < int (length (row_of t (nat (fst x)))) * bt_block_size t)"

lemma compute_slots_row:
  assumes ok: "table_ok t" "fits_int32 t" and cp: "cp_world_size t = 1" and b: "0 < bt_block_size t"
    and xs: "positions_ok t xs" "length xs \<le> length (bt_slots_cpu t)"
  shows "\<exists>t'. compute_slot_mapping xs t = Inr t' \<and> take (length xs) (bt_slots_cpu t') = map (row_slot t) xs"
proof -
  have "slot_of t x = Inr (row_slot t x)" if "x \<in> set xs" for x
  proof -
    have "0 \<le> fst x" "nat (fst x) < num_rows t" "0 \<le> snd x" "snd x < int (length (row_of t (nat (fst x)))) * bt_block_size t"
      using xs(1) that by (simp_all add: positions_ok_def)
    then show ?thesis using slot_of_row [OF ok cp b, of "nat (fst x)" "snd x"] by (simp add: row_slot_def)
  qed
  from slots_of_eq [OF this] xs(2) show ?thesis by (simp add: compute_slot_mapping_def)
qed

text \<open>Blocks of different rows, and of different places in a row, are different.\<close>

definition rows_disjoint :: "block_table \<Rightarrow> bool" where
  "rows_disjoint t \<longleftrightarrow> (\<forall>r < num_rows t. distinct (row_of t r))
     \<and> (\<forall>r < num_rows t. \<forall>q < num_rows t. r \<noteq> q \<longrightarrow> set (row_of t r) \<inter> set (row_of t q) = {})"

lemma rows_disjointD:
  assumes "rows_disjoint t" "r < num_rows t" "q < num_rows t" "i < length (row_of t r)" "j < length (row_of t q)"
    "row_of t r ! i = row_of t q ! j"
  shows "r = q \<and> i = j"
proof -
  have "row_of t r ! i \<in> set (row_of t r)" "row_of t r ! i \<in> set (row_of t q)" using assms(4-6) by (metis nth_mem)+
  then have r: "r = q" using assms(1-3) by (auto simp: rows_disjoint_def)
  moreover have "distinct (row_of t r)" using assms(1,2) by (simp add: rows_disjoint_def)
  ultimately show ?thesis using assms(4-6) by (simp add: nth_eq_iff_index_eq)
qed

text \<open>A slot determines the block and the place in it.\<close>

lemma slot_split:
  fixes a b :: int
  assumes "a * s + x = b * s + y" "0 \<le> x" "x < s" "0 \<le> y" "y < s"
  shows "a = b \<and> x = y"
proof -
  have "(a * s + x) div s = a" "(b * s + y) div s = b" using assms(2-5) by simp_all
  then have "a = b" using assms(1) by simp
  then show ?thesis using assms(1) by simp
qed

lemma row_slot_inj:
  assumes "table_ok t" and b: "0 < bt_block_size t" and d: "rows_disjoint t" and xs: "positions_ok t xs"
    and x: "x \<in> set xs" "y \<in> set xs" "row_slot t x = row_slot t y"
  shows "x = y"
proof -
  let ?bs = "bt_block_size t"
  have in_row: "0 \<le> fst z" "nat (fst z) < num_rows t" "nat (snd z div ?bs) < length (row_of t (nat (fst z)))" "0 \<le> snd z div ?bs"
    if "z \<in> set xs" for z
  proof -
    have z: "0 \<le> fst z" "nat (fst z) < num_rows t" "0 \<le> snd z" "snd z < int (length (row_of t (nat (fst z)))) * ?bs"
      using xs that by (simp_all add: positions_ok_def)
    show d0: "0 \<le> snd z div ?bs" using z(3) b by (simp add: pos_imp_zdiv_nonneg_iff)
    have "snd z div ?bs < int (length (row_of t (nat (fst z))))"
      using z(4) le_div_int_iff [OF b, of "int (length (row_of t (nat (fst z))))" "snd z"] by linarith
    then show "nat (snd z div ?bs) < length (row_of t (nat (fst z)))" using d0 by linarith
    show "0 \<le> fst z" "nat (fst z) < num_rows t" by (rule z)+
  qed
  have "row_of t (nat (fst x)) ! nat (snd x div ?bs) = row_of t (nat (fst y)) ! nat (snd y div ?bs) \<and> snd x mod ?bs = snd y mod ?bs"
    using slot_split [OF x(3) [unfolded row_slot_def]] b by simp
  moreover from this rows_disjointD [OF d in_row(2) [OF x(1)] in_row(2) [OF x(2)] in_row(3) [OF x(1)] in_row(3) [OF x(2)]]
  have "nat (fst x) = nat (fst y)" "nat (snd x div ?bs) = nat (snd y div ?bs)" by simp_all
  ultimately have "fst x = fst y" "snd x div ?bs = snd y div ?bs" "snd x mod ?bs = snd y mod ?bs"
    using in_row [OF x(1)] in_row [OF x(2)] by simp_all
  then show ?thesis by (metis div_mult_mod_eq prod_eqI)
qed

subsection \<open>Kernel blocks and context parallelism\<close>

lemma kernel_blocks_length: "0 < q \<Longrightarrow> length (map_to_kernel_blocks ids q) = length ids * nat q"
  by (induction ids) (auto simp: map_to_kernel_blocks_def)

lemma kernel_blocks_nth:
  assumes "1 < q" "i < length ids" "j < nat q"
  shows "map_to_kernel_blocks ids q ! (i * nat q + j) = ids ! i * q + int j"
proof -
  let ?f = "\<lambda>b. map (\<lambda>j. b * q + j) [0..q - 1]"
  have w: "\<forall>x \<in> set (map ?f ids). length x = nat q" by simp
  have "[0..q - 1] ! j = int j" using assms(3) by (simp add: nth_upto)
  then show ?thesis using concat_rows_nth [OF w, of i j] assms by (simp add: map_to_kernel_blocks_def)
qed

text \<open>
  Splitting a block of \<open>s * q\<close> tokens into \<open>q\<close> kernel blocks of \<open>s\<close> tokens leaves every token in its slot.
\<close>

lemma kernel_block_slot:
  fixes s q p :: int
  assumes "0 < s" "1 < q" "0 \<le> p" "p < int (length ids) * (s * q)"
  shows "nat (p div s) < length (map_to_kernel_blocks ids q)"
    "map_to_kernel_blocks ids q ! nat (p div s) * s + p mod s = ids ! nat (p div (s * q)) * (s * q) + p mod (s * q)"
proof -
  define i where "i = nat (p div (s * q))"
  define j where "j = nat (p div s mod q)"
  have sq: "0 < s * q" using assms(1,2) by simp
  have d: "p div s div q = p div (s * q)" using assms(2) by (simp add: zdiv_zmult2_eq)
  have pos: "0 \<le> p div s" "0 \<le> p div (s * q)" using assms(1,3) sq by (simp_all add: pos_imp_zdiv_nonneg_iff)
  have "p div (s * q) < int (length ids)" using assms(4) le_div_int_iff [OF sq, of "int (length ids)" p] by linarith
  then have i: "i < length ids" "int i = p div (s * q)" using pos by (simp_all add: i_def)
  have j: "j < nat q" "int j = p div s mod q" using assms(2) by (simp_all add: j_def nat_less_iff)
  have "p div s = int (i * nat q + j)"
    using i(2) j(2) assms(2) div_mult_mod_eq [of "p div s" q] d by simp
  then have n: "nat (p div s) = i * nat q + j" by (simp only: nat_int)
  have "Suc i * nat q \<le> length ids * nat q" using i(1) by (intro mult_le_mono1) simp
  then show "nat (p div s) < length (map_to_kernel_blocks ids q)" using n j(1) kernel_blocks_length [of q ids] assms(2) by simp
  have "map_to_kernel_blocks ids q ! nat (p div s) * s + p mod s = (ids ! i * q + int j) * s + p mod s"
    using kernel_blocks_nth [OF assms(2) i(1) j(1)] n by simp
  also have "\<dots> = ids ! i * (s * q) + (s * (p div s mod q) + p mod s)" using j(2) by (simp add: algebra_simps)
  also have "s * (p div s mod q) + p mod s = p mod (s * q)" using assms(2) by (simp add: zmod_zmult2_eq)
  finally show "map_to_kernel_blocks ids q ! nat (p div s) * s + p mod s = ids ! nat (p div (s * q)) * (s * q) + p mod (s * q)"
    by (simp add: i_def)
qed

text \<open>
  With \<open>w\<close> ranks and an interleaving of \<open>k\<close> tokens: the rank a position belongs to and its place in the block of that
  rank, from its offset in the virtual block of \<open>s * w\<close> tokens.
\<close>

definition cp_owner :: "int \<Rightarrow> int \<Rightarrow> int \<Rightarrow> int \<Rightarrow> int" where
  "cp_owner s w k p = p mod (s * w) div k mod w"

definition cp_offset :: "int \<Rightarrow> int \<Rightarrow> int \<Rightarrow> int \<Rightarrow> int" where
  "cp_offset s w k p = p mod (s * w) div (w * k) * k + p mod (s * w) mod k"

lemma cp_offset_bounds:
  assumes "0 < s" "0 < w" "0 < k" "k dvd s"
  shows "0 \<le> cp_offset s w k p" "cp_offset s w k p < s" "0 \<le> cp_owner s w k p" "cp_owner s w k p < w"
proof -
  let ?o = "p mod (s * w)"
  obtain m where m: "s = k * m" using assms(4) by blast
  have o: "0 \<le> ?o" "?o < s * w" using assms(1,2) by simp_all
  have wk: "0 < w * k" using assms(2,3) by simp
  have "?o < m * (w * k)" using o(2) by (simp add: m ac_simps)
  then have "?o div (w * k) < m" using le_div_int_iff [OF wk, of m ?o] by linarith
  then have "(?o div (w * k) + 1) * k \<le> m * k" using assms(3) by (intro mult_right_mono) simp_all
  moreover have "?o mod k < k" "0 \<le> ?o mod k" using assms(3) by simp_all
  ultimately show "cp_offset s w k p < s" by (simp add: cp_offset_def m algebra_simps)
  show "0 \<le> cp_offset s w k p"
    using o(1) wk assms(3) by (simp add: cp_offset_def pos_imp_zdiv_nonneg_iff)
  show "0 \<le> cp_owner s w k p" "cp_owner s w k p < w" using assms(2) by (simp_all add: cp_owner_def)
qed

lemma cp_position_unique:
  assumes "0 < s" "0 < w" "0 < k" "cp_owner s w k p = cp_owner s w k p'" "cp_offset s w k p = cp_offset s w k p'"
    "p div (s * w) = p' div (s * w)"
  shows "p = p'"
proof -
  let ?o = "p mod (s * w)" and ?o' = "p' mod (s * w)"
  have "?o div (w * k) = ?o' div (w * k) \<and> ?o mod k = ?o' mod k"
    using slot_split [OF assms(5) [unfolded cp_offset_def]] assms(3) by simp
  moreover have dd: "x div k div w = x div (w * k)" for x using assms(2) by (simp add: zdiv_zmult2_eq mult.commute [of w])
  ultimately have "?o div k div w = ?o' div k div w" "?o div k mod w = ?o' div k mod w" "?o mod k = ?o' mod k"
    using assms(4) by (simp_all add: cp_owner_def)
  then have "?o = ?o'" by (metis div_mult_mod_eq)
  then show ?thesis using assms(6) by (metis div_mult_mod_eq)
qed

lemma slot_of_cp:
  assumes ok: "table_ok t" "fits_int32 t" and w: "1 < cp_world_size t" and b: "0 < bt_block_size t"
    and r: "r < num_rows t" and p: "0 \<le> p" "p < int (length (row_of t r)) * (bt_block_size t * cp_world_size t)"
  shows "slot_of t (int r, p) = Inr (if cp_owner (bt_block_size t) (cp_world_size t) (bt_interleave t) p = cp_rank t
      then row_of t r ! nat (p div (bt_block_size t * cp_world_size t)) * bt_block_size t
        + cp_offset (bt_block_size t) (cp_world_size t) (bt_interleave t) p else - 1)"
    "nat (p div (bt_block_size t * cp_world_size t)) < length (row_of t r)"
proof -
  let ?bs = "bt_block_size t" and ?w = "cp_world_size t"
  let ?i = "nat (p div (?bs * ?w))"
  have v: "0 < ?bs * ?w" using b w by simp
  have d: "0 \<le> p div (?bs * ?w)" using p(1) v by (simp add: pos_imp_zdiv_nonneg_iff)
  have "p div (?bs * ?w) < int (length (row_of t r))" using p(2) le_div_int_iff [OF v, of "int (length (row_of t r))" p] by linarith
  then show i: "?i < length (row_of t r)" using d by linarith
  have "row_of t r ! ?i \<in> set (row_of t r)" using i by simp
  then have "0 \<le> row_of t r ! ?i" "row_of t r ! ?i * ?bs < 2 ^ 31" using ok(2) r by (auto simp: fits_int32_def)
  moreover from this have "- (2 ^ 31) \<le> row_of t r ! ?i * ?bs" using b mult_nonneg_nonneg [of "row_of t r ! ?i" ?bs] by linarith
  ultimately have "int32 (row_of t r ! ?i * ?bs) = row_of t r ! ?i * ?bs" by (intro int32_id)
  then show "slot_of t (int r, p) = Inr (if cp_owner ?bs ?w (bt_interleave t) p = cp_rank t
      then row_of t r ! ?i * ?bs + cp_offset ?bs ?w (bt_interleave t) p else - 1)"
    using ravel_entry [OF ok(1) r i] d w by (simp add: slot_of_def Let_def cp_owner_def cp_offset_def)
qed

subsection \<open>Properties\<close>

text \<open>
  C34: The device sees the current table although unchanged tables are not copied. After any history of calls and of
  writes through the array, a commit for the first \<open>k\<close> requests leaves their rows on the device as they are on the
  host, as a copy at every step would, provided the table was written to since the last copy or that copy covered
  \<open>k\<close> rows.
\<close>

theorem commit_shows_current_rows:
  assumes "table_reach t n" "0 \<le> k" "bt_dirty t \<or> nat k \<le> n"
  shows "get_device_tensor k (commit_block_table k t) = slice_to (copy_rows k (bt_cpu t) (bt_gpu t)) k
    \<and> get_device_tensor k (commit_block_table k t) = slice_to (bt_cpu (commit_block_table k t)) k"
proof -
  have s: "rows_synced t n" and s': "rows_synced (commit_block_table k t) (if bt_dirty t then nat k else n)"
    using synced_reach [OF assms(1)] synced_reach [OF reach_commit [OF assms(1,2)]] by simp_all
  have clean: "\<not> bt_dirty (commit_block_table k t)" by (simp add: commit_block_table_def)
  have len: "length (bt_gpu t) = num_rows t" using arg_cong [of _ _ length] s unfolding rows_synced_def by (metis length_map)
  have cpu: "bt_cpu (commit_block_table k t) = bt_cpu t" by (simp add: commit_block_table_def)
  have "take (nat k) (bt_gpu (commit_block_table k t)) = take (nat k) (bt_cpu t)"
  proof (cases "bt_dirty t")
    case True
    then show ?thesis using s' clean cpu by (simp add: rows_synced_def)
  next
    case False
    then have "take n (bt_gpu t) = take n (bt_cpu t)" "nat k \<le> n" using s assms(3) by (simp_all add: rows_synced_def)
    then have "take (nat k) (bt_gpu t) = take (nat k) (bt_cpu t)" by (metis min.absorb1 take_take)
    then show ?thesis using False by (simp add: commit_block_table_def)
  qed
  moreover have "take (nat k) (copy_rows k (bt_cpu t) (bt_gpu t)) = take (nat k) (bt_cpu t)"
    using assms(2) len by (auto simp: copy_rows_def slice_bound_def Let_def min_def)
  ultimately show ?thesis using assms(2) cpu by (simp add: get_device_tensor_def)
qed

definition small_table :: "int \<Rightarrow> block_table" where
  "small_table ks = projr (block_table_init 4 2 3 8 ks 1 no_cp)"

theorem commit_shows_current_rows_witness:
  "\<exists>t. add_row [5, 6] 0 (small_table 4) = Inr t \<and> get_device_tensor 1 (commit_block_table 1 t) = [[5, 6, 0]]"
proof -
  have i: "block_table_init 4 2 3 8 4 1 no_cp = Inr (small_table 4)" by (simp add: small_table_def block_table_init_def Let_def)
  have "map_sum id bt_cpu (add_row [5, 6] 0 (small_table 4)) = Inr [[5, 6, 0], [0, 0, 0]]" by code_simp
  then obtain t where t: "add_row [5, 6] 0 (small_table 4) = Inr t" "bt_cpu t = [[5, 6, 0], [0, 0, 0]]"
    by (cases "add_row [5, 6] 0 (small_table 4)") auto
  have r: "table_reach t (num_rows (small_table 4))" by (rule reach_add [OF reach_init [OF i] t(1)])
  have "num_rows (small_table 4) = 2" by code_simp
  moreover have "bt_cpu (commit_block_table 1 t) = [[5, 6, 0], [0, 0, 0]]" using t(2) by (simp add: commit_block_table_def)
  ultimately have "get_device_tensor 1 (commit_block_table 1 t) = slice_to [[5, 6, 0], [0, 0, 0]] 1"
    using commit_shows_current_rows [OF r, of 1, THEN conjunct2] by simp
  with t(1) show ?thesis by simp
qed

text \<open>
  The bound on \<open>k\<close> is needed: a copy of fewer rows clears the flag for all of them, and a later commit for more
  rows copies nothing.
\<close>

lemma partial_commit_hides_rows:
  "map_sum id (\<lambda>t. (get_device_tensor 2 (commit_block_table 2 (commit_block_table 1 t)), bt_cpu t))
     (bindR (add_row [5] 0 (small_table 4)) (add_row [7] 1))
   = Inr ([[5, 0, 0], [0, 0, 0]], [[5, 0, 0], [7, 0, 0]])"
  by code_simp

text \<open>
  C35: Calls that fit never raise, and a history of them on the table is the same history on a map from requests to
  lists of block ids: appending extends a list, adding replaces it, moving and swapping copy and exchange lists, and
  other requests keep theirs. With kernel blocks the ids are the kernel's. A call fits when the row has room for the ids and each
  of them fits into the 32 bits of the array.
\<close>

theorem table_rows_refine:
  assumes "table_ok t" and "calls_fit (kernel_ids t) (num_rows t) (row_width t) cs (row_of t)"
  shows "\<exists>t'. foldR run_table_call cs t = Inr t' \<and> table_ok t'
    \<and> (\<forall>q < num_rows t. row_of t' q = fold (row_call (kernel_ids t)) cs (row_of t) q)"
  using block_rows.calls_refine [OF assms] by blast

theorem table_rows_refine_witness:
  "\<exists>t'. foldR run_table_call [Add_Row [3] 0, Append_Row [4] 0, Swap_Row 0 1] (small_table 2) = Inr t' \<and> row_of t' 1 = [6, 7, 8, 9]"
proof -
  let ?cs = "[Add_Row [3] 0, Append_Row [4] 0, Swap_Row 0 1]"
  have ok: "table_ok (small_table 2)" unfolding table_ok_def by code_simp
  have fit: "calls_fit (kernel_ids (small_table 2)) (num_rows (small_table 2)) (row_width (small_table 2)) ?cs (row_of (small_table 2))"
    by code_simp
  have n: "num_rows (small_table 2) = 2" "fold (row_call (kernel_ids (small_table 2))) ?cs (row_of (small_table 2)) 1 = [6, 7, 8, 9]"
    by code_simp+
  from table_rows_refine [OF ok fit] n show ?thesis by auto
qed

text \<open>
  C33: The slot mapping puts every token where its row says, and no two tokens into the same slot: for positions
  within the blocks of their requests, the slot is the block's number times the block size plus the offset, and when
  no block stands in two places of the table the slots of different tokens differ. Without context
  parallelism, for block numbers whose slots fit into 32 bits.
\<close>

theorem slot_mapping_injective:
  assumes "table_ok t" "fits_int32 t" "cp_world_size t = 1" "0 < bt_block_size t" "rows_disjoint t"
    and "positions_ok t xs" "length xs \<le> length (bt_slots_cpu t)" "distinct xs"
  shows "\<exists>t'. compute_slot_mapping xs t = Inr t' \<and> take (length xs) (bt_slots_cpu t') = map (row_slot t) xs
    \<and> distinct (take (length xs) (bt_slots_cpu t'))"
proof -
  have "inj_on (row_slot t) (set xs)" using row_slot_inj [OF assms(1,4,5,6)] by (rule inj_onI)
  then have "distinct (map (row_slot t) xs)" using assms(8) by (simp add: distinct_map)
  with compute_slots_row [OF assms(1-4,6,7)] show ?thesis by auto
qed

theorem slot_mapping_injective_witness:
  "\<exists>t t'. bindR (add_row [5, 6] 0 (small_table 4)) (add_row [7] 1) = Inr t
     \<and> compute_slot_mapping [(0, 5), (1, 2)] t = Inr t' \<and> take 2 (bt_slots_cpu t') = [25, 30]"
proof -
  let ?m = "bindR (add_row [5, 6] 0 (small_table 4)) (add_row [7] 1)"
  have e: "map_sum id (\<lambda>t. (row_of t 0, row_of t 1, num_rows t, bt_block_size t, length (bt_slots_cpu t), cp_world_size t,
      bt_cpu t, bt_gpu t, bt_num_blocks_per_row t, bt_max_num_blocks_per_req t, bt_use_hybrid_blocks t)) ?m
    = Inr ([5, 6], [7], 2, 4, 8, 1, [[5, 6, 0], [7, 0, 0]], [[0, 0, 0], [0, 0, 0]], [2, 1], 3, False)" by code_simp
  then obtain t where t: "?m = Inr t" "row_of t 0 = [5, 6]" "row_of t 1 = [7]" "num_rows t = 2" "bt_block_size t = 4"
    "length (bt_slots_cpu t) = 8" "cp_world_size t = 1" "bt_cpu t = [[5, 6, 0], [7, 0, 0]]" "bt_gpu t = [[0, 0, 0], [0, 0, 0]]"
    "bt_num_blocks_per_row t = [2, 1]" "bt_max_num_blocks_per_req t = 3" "\<not> bt_use_hybrid_blocks t"
    by (cases ?m) auto
  have two: "r < 2 \<longleftrightarrow> r = 0 \<or> r = 1" for r :: nat by auto
  have "table_ok t" using t by (simp add: table_ok_def)
  moreover have "fits_int32 t" "rows_disjoint t"
    unfolding fits_int32_def rows_disjoint_def t(4) two using t(2,3,5) by (auto simp: numeral_2_eq_2)
  moreover have "positions_ok t [(0, 5), (1, 2)]" using t by (simp add: positions_ok_def)
  ultimately have "\<exists>t'. compute_slot_mapping [(0, 5), (1, 2)] t = Inr t' \<and> take (length [(0 :: int, 5 :: int), (1, 2)]) (bt_slots_cpu t')
      = map (row_slot t) [(0, 5), (1, 2)] \<and> distinct (take (length [(0 :: int, 5 :: int), (1, 2)]) (bt_slots_cpu t'))"
    using t by (intro slot_mapping_injective) simp_all
  then show ?thesis using t by (auto simp: row_slot_def numeral_2_eq_2)
qed

text \<open>
  Kernel blocks of another size change no slot: a request whose blocks of \<open>s * q\<close> tokens are entered into a table
  with kernel blocks of \<open>s\<close> tokens has its token at position \<open>p\<close> in the slot that the blocks themselves give, block
  number times \<open>s * q\<close> plus offset, as a table without kernel blocks computes it.
\<close>

lemma hybrid_slots_agree:
  assumes ok: "table_ok t" "0 < bt_block_size t" "cp_world_size t = 1" "bt_use_hybrid_blocks t" "1 < bt_blocks_per_kv_block t"
    and r: "r < num_rows t" and ids: "length ids * nat (bt_blocks_per_kv_block t) \<le> row_width t"
      "\<forall>b \<in> set ids. 0 \<le> b \<and> (b + 1) * (bt_block_size t * bt_blocks_per_kv_block t) \<le> 2 ^ 31"
    and run: "add_row ids (int r) t = Inr t'"
    and p: "0 \<le> p" "p < int (length ids) * (bt_block_size t * bt_blocks_per_kv_block t)"
  shows "slot_of t' (int r, p)
    = Inr (ids ! nat (p div (bt_block_size t * bt_blocks_per_kv_block t)) * (bt_block_size t * bt_blocks_per_kv_block t)
        + p mod (bt_block_size t * bt_blocks_per_kv_block t))"
proof -
  let ?s = "bt_block_size t" and ?q = "bt_blocks_per_kv_block t"
  have k: "kernel_ids t ids = map_to_kernel_blocks ids ?q" using ok(4) by (simp add: kernel_ids_def)
  have fits: "length (kernel_ids t ids) \<le> row_width t" using ids(1) ok(5) by (simp add: k kernel_blocks_length)
  have small: "list_all (in_bits 32) (kernel_ids t ids)" unfolding list_all_iff
  proof
    fix x assume "x \<in> set (kernel_ids t ids)"
    then obtain b where x: "b \<in> set ids" "b * ?q \<le> x" "x < (b + 1) * ?q" using ok(5)
      by (auto simp: k map_to_kernel_blocks_def algebra_simps)
    have b: "0 \<le> b" "(b + 1) * (?s * ?q) \<le> 2 ^ 31" using ids(2) x(1) by auto
    have "(b + 1) * ?q \<le> (b + 1) * (?s * ?q)" using ok(2,5) b(1) by (intro mult_left_mono) (simp_all add: mult_le_cancel_right1)
    then have "x < 2 ^ 31" using x(3) b(2) by linarith
    moreover have "0 \<le> b * ?q" using b(1) ok(5) by simp
    then have "0 \<le> x" using x(2) by simp
    ultimately show "in_bits 32 x" by (simp add: in_bits_def)
  qed
  obtain x n where t': "t' = t\<lparr>bt_cpu := (bt_cpu t)[r := x], bt_num_blocks_per_row := (bt_num_blocks_per_row t)[r := n], bt_dirty := True\<rparr>"
    "length x = row_width t" "0 \<le> n" "n \<le> bt_max_num_blocks_per_req t" "take (nat n) x = kernel_ids t ids"
    using add_row_fits [OF ok(1) r fits small] run by auto
  note u = updated_row [OF ok(1) r t'(2-4), of True, folded t'(1)]
  have row: "row_of t' r = map_to_kernel_blocks ids ?q" using u(3) r t'(5) k by simp
  have same: "bt_block_size t' = ?s" "cp_world_size t' = 1" "num_rows t' = num_rows t" using ok(3) by (simp_all add: t'(1) cp_world_size_def)
  note e = kernel_block_slot [OF ok(2,5) p]
  have d: "0 \<le> p div ?s" using p(1) ok(2) by (simp add: pos_imp_zdiv_nonneg_iff)
  have rav: "py_nth (concat (bt_cpu t')) (int r * bt_max_num_blocks_per_req t' + p div ?s) = Inr (map_to_kernel_blocks ids ?q ! nat (p div ?s))"
    using ravel_entry [OF u(1), of r "nat (p div ?s)"] r e(1) d by (simp add: same row)
  let ?b = "ids ! nat (p div (?s * ?q))"
  have sq: "0 < ?s * ?q" using ok(2,5) by simp
  have "p div (?s * ?q) < int (length ids)" using p(2) le_div_int_iff [OF sq, of "int (length ids)" p] by linarith
  then have "?b \<in> set ids" using pos_imp_zdiv_nonneg_iff [OF sq, of p] p(1) by (intro nth_mem) linarith
  then have b: "0 \<le> ?b" "(?b + 1) * (?s * ?q) \<le> 2 ^ 31" using ids(2) by auto
  have m: "0 \<le> p mod (?s * ?q)" "p mod (?s * ?q) < ?s * ?q" "0 \<le> p mod ?s" "p mod ?s < ?s" using sq ok(2) by simp_all
  have nn: "0 \<le> ?b * (?s * ?q)" using b(1) sq by simp
  have "map_to_kernel_blocks ids ?q ! nat (p div ?s) * ?s = ?b * (?s * ?q) + p mod (?s * ?q) - p mod ?s" using e(2) by linarith
  moreover have "?b * (?s * ?q) + ?s * ?q \<le> 2 ^ 31" using b(2) by (simp add: algebra_simps)
  moreover have "p mod ?s \<le> p mod (?s * ?q)"
    using ok(2,5) zmod_zmult2_eq [of ?q p ?s] by simp
  ultimately have "int32 (map_to_kernel_blocks ids ?q ! nat (p div ?s) * ?s) = map_to_kernel_blocks ids ?q ! nat (p div ?s) * ?s"
    using m nn by (intro int32_id) linarith+
  then show ?thesis using rav e(2) by (simp add: slot_of_def Let_def same)
qed

text \<open>
  C36: Context parallelism stores every token on exactly one rank. For a position within the blocks of its request
  there is one rank whose table maps it to a slot, inside the block the row gives, and every other rank maps it
  to -1; two positions of a request that belong to the same rank and share a slot are the same.
\<close>

theorem context_parallel_slots:
  assumes ok: "table_ok t" "fits_int32 t" "rows_disjoint t" and w: "1 < cp_world_size t" "0 < bt_block_size t"
    and k: "0 < bt_interleave t" "bt_interleave t dvd bt_block_size t" and r: "r < num_rows t"
    and rank: "0 \<le> rank" "rank < cp_world_size t" "cp_rank t = rank"
    and p: "0 \<le> p" "p < int (length (row_of t r)) * (bt_block_size t * cp_world_size t)"
    and p': "0 \<le> p'" "p' < int (length (row_of t r)) * (bt_block_size t * cp_world_size t)"
  shows "\<exists>x x'. slot_of t (int r, p) = Inr x \<and> slot_of t (int r, p') = Inr x'
    \<and> (x \<noteq> - 1 \<longleftrightarrow> rank = cp_owner (bt_block_size t) (cp_world_size t) (bt_interleave t) p)
    \<and> (x \<noteq> - 1 \<longrightarrow> x div bt_block_size t = row_of t r ! nat (p div (bt_block_size t * cp_world_size t)))
    \<and> (x \<noteq> - 1 \<and> x = x' \<longrightarrow> p = p')"
proof -
  let ?s = "bt_block_size t" and ?w = "cp_world_size t" and ?k = "bt_interleave t"
  let ?i = "nat (p div (?s * ?w))" and ?i' = "nat (p' div (?s * ?w))"
  have w0: "0 < ?w" using w(1) by simp
  note a = slot_of_cp [OF ok(1,2) w r p] and a' = slot_of_cp [OF ok(1,2) w r p']
  note o = cp_offset_bounds [OF w(2) w0 k, of p] and o' = cp_offset_bounds [OF w(2) w0 k, of p']
  have nonneg: "0 \<le> row_of t r ! j" if "j < length (row_of t r)" for j
    using ok(2) r nth_mem [OF that] by (auto simp: fits_int32_def)
  have pos: "0 \<le> row_of t r ! ?i * ?s + cp_offset ?s ?w ?k p" "0 \<le> row_of t r ! ?i' * ?s + cp_offset ?s ?w ?k p'"
    using nonneg [OF a(2)] nonneg [OF a'(2)] o(1) o'(1) w(2) by simp_all
  have same: "p = p'" if "row_of t r ! ?i * ?s + cp_offset ?s ?w ?k p = row_of t r ! ?i' * ?s + cp_offset ?s ?w ?k p'"
    "cp_owner ?s ?w ?k p = cp_owner ?s ?w ?k p'"
  proof -
    have e: "row_of t r ! ?i = row_of t r ! ?i' \<and> cp_offset ?s ?w ?k p = cp_offset ?s ?w ?k p'"
      using slot_split [OF that(1)] o o' by blast
    have "?i = ?i'" using rows_disjointD [OF ok(3) r r a(2) a'(2)] e by blast
    moreover have "0 < ?s * ?w" using w(2) w0 by simp
    ultimately have "p div (?s * ?w) = p' div (?s * ?w)" using p(1) p'(1) by (simp add: pos_imp_zdiv_nonneg_iff nat_eq_iff)
    then show ?thesis using cp_position_unique [OF w(2) w0 k(1) that(2)] e by blast
  qed
  have blk: "(row_of t r ! ?i * ?s + cp_offset ?s ?w ?k p) div ?s = row_of t r ! ?i" using o(1,2) by simp
  show ?thesis unfolding a(1) a'(1) rank(3) using pos same blk by auto
qed

theorem context_parallel_slots_witness:
  "\<exists>t. bindR (block_table_init 4 1 2 8 4 2 \<lparr>g_pcp_world_size = 1, g_pcp_rank = 0, g_dcp_world_size = 2, g_dcp_rank = 1\<rparr>)
       (add_row [5, 6] 0) = Inr t \<and> slot_of t (int 0, 11) = Inr (6 * 4 + 1) \<and> slot_of t (int 0, 9) = Inr (- 1)"
proof -
  let ?m = "bindR (block_table_init 4 1 2 8 4 2 \<lparr>g_pcp_world_size = 1, g_pcp_rank = 0, g_dcp_world_size = 2, g_dcp_rank = 1\<rparr>) (add_row [5, 6] 0)"
  have "map_sum id (\<lambda>t. (row_of t 0, num_rows t, bt_block_size t, cp_world_size t, cp_rank t, bt_interleave t, bt_cpu t, bt_gpu t,
      bt_num_blocks_per_row t, bt_max_num_blocks_per_req t, bt_use_hybrid_blocks t, slot_of t (0, 11), slot_of t (0, 9))) ?m
    = Inr ([5, 6], 1, 4, 2, 1, 2, [[5, 6]], [[0, 0]], [2], 2, False, Inr 25, Inr (- 1))" by code_simp
  then obtain t where t: "?m = Inr t" "row_of t 0 = [5, 6]" "num_rows t = 1" "bt_block_size t = 4" "cp_world_size t = 2" "cp_rank t = 1"
    "bt_interleave t = 2" "bt_cpu t = [[5, 6]]" "bt_gpu t = [[0, 0]]" "bt_num_blocks_per_row t = [2]" "bt_max_num_blocks_per_req t = 2"
    "\<not> bt_use_hybrid_blocks t" "slot_of t (0, 11) = Inr 25" "slot_of t (0, 9) = Inr (- 1)"
    by (cases ?m) auto
  have ok: "table_ok t" "fits_int32 t" "rows_disjoint t"
    unfolding fits_int32_def rows_disjoint_def table_ok_def t(3) using t(2,4,8-12) by auto
  have "\<exists>x x'. slot_of t (int 0, 11) = Inr x \<and> slot_of t (int 0, 9) = Inr x'
    \<and> (x \<noteq> - 1 \<longleftrightarrow> 1 = cp_owner (bt_block_size t) (cp_world_size t) (bt_interleave t) 11)
    \<and> (x \<noteq> - 1 \<longrightarrow> x div bt_block_size t = row_of t 0 ! nat (11 div (bt_block_size t * cp_world_size t)))
    \<and> (x \<noteq> - 1 \<and> x = x' \<longrightarrow> (11 :: int) = 9)"
    using t by (intro context_parallel_slots [OF ok, where rank = 1]) simp_all
  then show ?thesis using t by auto
qed

end
