(* ===== verification/Cache_Config.thy ===== *)
theory Cache_Config
  imports Prelude
begin

text \<open>
  How the KV cache is laid out before serving (\<open>vllm/v1/kv_cache_interface.py\<close> and the second half of
  \<open>vllm/v1/core/kv_cache_utils.py\<close>): the specs of layers with their page sizes and needs, merging specs, grouping layers,
  sizing the tensors from the memory of each worker, the search for the longest context that fits, and one common
  number of blocks for all workers. \<open>ds\<close> is the size of a dtype in bytes (\<open>get_dtype_size\<close>). Log messages are left out,
  but not what is computed for them.
\<close>

subsection \<open>Specs of layers\<close>

record vllm_cfg =
  vc_max_model_len :: int
  vc_original_max_model_len :: int
  vc_dcp :: int
  vc_pcp :: int
  vc_max_num_batched_tokens :: int
  vc_max_num_encoder_input_tokens :: int
  vc_mamba_cache_mode :: string
  vc_num_gpu_blocks_override :: "int option"
  vc_disable_hybrid :: bool

record attn_spec =
  at_block_size :: int
  at_num_kv_heads :: int
  at_head_size :: int
  at_dtype :: string
  at_page_size_padded :: "int option"

record full_spec =
  fu_head_size_v :: int
  fu_sliding_window :: "int option"
  fu_attention_chunk_size :: "int option"

record mamba_spec =
  mb_block_size :: int
  mb_shapes :: "int list list"
  mb_dtypes :: "string list"
  mb_page_size_padded :: "int option"
  mb_mamba_type :: string
  mb_mamba_cache_mode :: string
  mb_num_speculative_blocks :: int

text \<open>One constructor per class; MLA and sink specs are subclasses of full attention.\<close>

datatype layer_spec =
    Full_Attention attn_spec full_spec
  | MLA_Attention attn_spec full_spec "string option"
  | Sink_Full_Attention attn_spec full_spec "int option"
  | Chunked_Local_Attention attn_spec int
  | Sliding_Window attn_spec int
  | Mamba mamba_spec
  | Encoder_Only_Attention attn_spec
  | Cross_Attention attn_spec

type_synonym spec_dict = "(string \<times> layer_spec) list"

fun full_of :: "layer_spec \<Rightarrow> (attn_spec \<times> full_spec) option" where
  "full_of (Full_Attention a f) = Some (a, f)"
| "full_of (MLA_Attention a f _) = Some (a, f)"
| "full_of (Sink_Full_Attention a f _) = Some (a, f)"
| "full_of _ = None"

definition is_full :: "layer_spec \<Rightarrow> bool" where
  "is_full s \<longleftrightarrow> full_of s \<noteq> None"

fun is_mla :: "layer_spec \<Rightarrow> bool" where
  "is_mla (MLA_Attention _ _ _) = True"
| "is_mla _ = False"

fun layer_block_size :: "layer_spec \<Rightarrow> int" where
  "layer_block_size (Full_Attention a _) = at_block_size a"
| "layer_block_size (MLA_Attention a _ _) = at_block_size a"
| "layer_block_size (Sink_Full_Attention a _ _) = at_block_size a"
| "layer_block_size (Chunked_Local_Attention a _) = at_block_size a"
| "layer_block_size (Sliding_Window a _) = at_block_size a"
| "layer_block_size (Mamba b) = mb_block_size b"
| "layer_block_size (Encoder_Only_Attention a) = at_block_size a"
| "layer_block_size (Cross_Attention a) = at_block_size a"

text \<open>\<open>replace(spec, block_size=n)\<close>.\<close>

fun with_block_size :: "int \<Rightarrow> layer_spec \<Rightarrow> layer_spec" where
  "with_block_size n (Full_Attention a f) = Full_Attention (a\<lparr>at_block_size := n\<rparr>) f"
| "with_block_size n (MLA_Attention a f c) = MLA_Attention (a\<lparr>at_block_size := n\<rparr>) f c"
| "with_block_size n (Sink_Full_Attention a f k) = Sink_Full_Attention (a\<lparr>at_block_size := n\<rparr>) f k"
| "with_block_size n (Chunked_Local_Attention a c) = Chunked_Local_Attention (a\<lparr>at_block_size := n\<rparr>) c"
| "with_block_size n (Sliding_Window a w) = Sliding_Window (a\<lparr>at_block_size := n\<rparr>) w"
| "with_block_size n (Mamba b) = Mamba (b\<lparr>mb_block_size := n\<rparr>)"
| "with_block_size n (Encoder_Only_Attention a) = Encoder_Only_Attention (a\<lparr>at_block_size := n\<rparr>)"
| "with_block_size n (Cross_Attention a) = Cross_Attention (a\<lparr>at_block_size := n\<rparr>)"

definition attn_real_page :: "(string \<Rightarrow> int) \<Rightarrow> attn_spec \<Rightarrow> int" where
  "attn_real_page ds a = 2 * at_block_size a * at_num_kv_heads a * at_head_size a * ds (at_dtype a)"

definition full_real_page :: "(string \<Rightarrow> int) \<Rightarrow> attn_spec \<Rightarrow> full_spec \<Rightarrow> int" where
  "full_real_page ds a f = at_block_size a * at_num_kv_heads a * (at_head_size a + fu_head_size_v f) * ds (at_dtype a)"

definition mla_real_page :: "(string \<Rightarrow> int) \<Rightarrow> attn_spec \<Rightarrow> string option \<Rightarrow> int" where
  "mla_real_page ds a c =
     (if c = Some ''fp8_ds_mla'' then at_block_size a * 656
      else at_block_size a * at_num_kv_heads a * at_head_size a * ds (at_dtype a))"

definition mamba_real_page :: "(string \<Rightarrow> int) \<Rightarrow> mamba_spec \<Rightarrow> int" where
  "mamba_real_page ds b = sum_list (map (\<lambda>(shape, dt). prod_list shape * ds dt) (zip (mb_shapes b) (mb_dtypes b)))"

definition padded_page :: "int option \<Rightarrow> int \<Rightarrow> int result" where
  "padded_page padded real = (case padded of None \<Rightarrow> Inr real | Some p \<Rightarrow> if p \<ge> real then Inr p else Inl AssertionError)"

fun page_size_bytes :: "(string \<Rightarrow> int) \<Rightarrow> layer_spec \<Rightarrow> int result" where
  "page_size_bytes ds (Full_Attention a f) = padded_page (at_page_size_padded a) (full_real_page ds a f)"
| "page_size_bytes ds (MLA_Attention a _ c) = padded_page (at_page_size_padded a) (mla_real_page ds a c)"
| "page_size_bytes ds (Sink_Full_Attention a f _) = padded_page (at_page_size_padded a) (full_real_page ds a f)"
| "page_size_bytes ds (Chunked_Local_Attention a _) = padded_page (at_page_size_padded a) (attn_real_page ds a)"
| "page_size_bytes ds (Sliding_Window a _) = padded_page (at_page_size_padded a) (attn_real_page ds a)"
| "page_size_bytes ds (Mamba b) = padded_page (mb_page_size_padded b) (mamba_real_page ds b)"
| "page_size_bytes ds (Encoder_Only_Attention a) = padded_page (at_page_size_padded a) (attn_real_page ds a)"
| "page_size_bytes ds (Cross_Attention a) = padded_page (at_page_size_padded a) (attn_real_page ds a)"

definition cdivR :: "int \<Rightarrow> int \<Rightarrow> int result" where
  "cdivR a b = (if b = 0 then Inl ZeroDivisionError else Inr (cdiv a b))"

definition floordivR :: "int \<Rightarrow> int \<Rightarrow> int result" where
  "floordivR a b = (if b = 0 then Inl ZeroDivisionError else Inr (a div b))"

definition pages_for :: "(string \<Rightarrow> int) \<Rightarrow> layer_spec \<Rightarrow> int \<Rightarrow> int \<Rightarrow> int result" where
  "pages_for ds spec n extra =
     bindR (cdivR n (layer_block_size spec)) (\<lambda>k. bindR (page_size_bytes ds spec) (\<lambda>p. Inr ((k + extra) * p)))"

definition full_local_len :: "vllm_cfg \<Rightarrow> int" where
  "full_local_len cfg =
     (if vc_dcp cfg * vc_pcp cfg > 1 then cdiv (vc_max_model_len cfg) (vc_dcp cfg * vc_pcp cfg) else vc_max_model_len cfg)"

fun max_memory_usage :: "(string \<Rightarrow> int) \<Rightarrow> vllm_cfg \<Rightarrow> layer_spec \<Rightarrow> int result" where
  "max_memory_usage ds cfg (Chunked_Local_Attention a c) =
     pages_for ds (Chunked_Local_Attention a c) (min (c + vc_max_num_batched_tokens cfg) (vc_max_model_len cfg)) 0"
| "max_memory_usage ds cfg (Sliding_Window a w) =
     bindR (assertR (vc_dcp cfg = 1)) (\<lambda>_.
       pages_for ds (Sliding_Window a w) (min (w - 1 + vc_max_num_batched_tokens cfg) (vc_max_model_len cfg)) 1)"
| "max_memory_usage ds cfg (Mamba b) =
     (if vc_mamba_cache_mode cfg = ''all'' then pages_for ds (Mamba b) (vc_max_model_len cfg) 0
      else bindR (page_size_bytes ds (Mamba b)) (\<lambda>p.
             Inr (p * ((if vc_mamba_cache_mode cfg = ''align'' then 2 else 1) + mb_num_speculative_blocks b))))"
| "max_memory_usage ds cfg (Encoder_Only_Attention a) = Inr 0"
| "max_memory_usage ds cfg (Cross_Attention a) = pages_for ds (Cross_Attention a) (vc_max_num_encoder_input_tokens cfg) 0"
| "max_memory_usage ds cfg spec = pages_for ds spec (full_local_len cfg) 0"

subsection \<open>Merging specs\<close>

definition merge_base :: "layer_spec list \<Rightarrow> layer_spec result" where
  "merge_base specs = bindR (assertR (list_all (\<lambda>s. s = hd specs) (tl specs))) (\<lambda>_. Inr (hd specs))"

text \<open>A set of window sizes as the list of its elements.\<close>

definition merge_window_sizes :: "int list \<Rightarrow> int option result" where
  "merge_window_sizes ws = (case ws of [] \<Rightarrow> Inr None | [w] \<Rightarrow> Inr (Some w) | _ \<Rightarrow> Inl ValueError)"

definition full_merge :: "layer_spec list \<Rightarrow> (attn_spec \<times> full_spec) result" where
  "full_merge specs =
     (case those (map full_of specs) of
        None \<Rightarrow> Inl AssertionError
      | Some fs \<Rightarrow>
          bindR (assertR (\<not> list_ex is_mla specs)) (\<lambda>_.
          bindR (merge_window_sizes (remdups (List.map_filter (\<lambda>x. fu_sliding_window (snd x)) fs))) (\<lambda>w.
          bindR (merge_window_sizes (remdups (List.map_filter (\<lambda>x. fu_attention_chunk_size (snd x)) fs))) (\<lambda>c.
          bindR (assertR (list_all (\<lambda>x. fst x = fst (hd fs)) fs)) (\<lambda>_.
          bindR (assertR (w = None \<or> c = None)) (\<lambda>_.
            Inr (fst (hd fs), \<lparr>fu_head_size_v = fu_head_size_v (snd (hd fs)), fu_sliding_window = w, fu_attention_chunk_size = c\<rparr>)))))))"

fun mla_format :: "layer_spec \<Rightarrow> string option option" where
  "mla_format (MLA_Attention _ _ c) = Some c"
| "mla_format _ = None"

definition mla_merge :: "attn_spec \<Rightarrow> layer_spec list \<Rightarrow> layer_spec result" where
  "mla_merge a specs =
     bindR (assertR (list_all is_mla specs)) (\<lambda>_.
       case remdups (map mla_format specs) of
         [Some c] \<Rightarrow> Inr (MLA_Attention a \<lparr>fu_head_size_v = at_head_size a, fu_sliding_window = None, fu_attention_chunk_size = None\<rparr> c)
       | _ \<Rightarrow> Inl AssertionError)"

text \<open>\<open>specs[0].merge(specs)\<close>.\<close>

definition merge_specs :: "layer_spec list \<Rightarrow> layer_spec result" where
  "merge_specs specs =
     (case specs of
        [] \<Rightarrow> Inl IndexError
      | Full_Attention _ _ # _ \<Rightarrow> bindR (full_merge specs) (\<lambda>(a, f). Inr (Full_Attention a f))
      | Sink_Full_Attention _ _ k # _ \<Rightarrow> bindR (full_merge specs) (\<lambda>(a, f). Inr (Sink_Full_Attention a f k))
      | MLA_Attention a _ _ # _ \<Rightarrow> mla_merge a specs
      | _ \<Rightarrow> merge_base specs)"

definition is_kv_cache_spec_uniform :: "spec_dict \<Rightarrow> bool result" where
  "is_kv_cache_spec_uniform specs =
     (if specs = [] then Inr True
      else case merge_specs (map snd specs) of
             Inl e \<Rightarrow> if e = AssertionError then Inr False else Inl e
           | Inr _ \<Rightarrow> Inr True)"

fun same_type_as :: "layer_spec \<Rightarrow> layer_spec \<Rightarrow> bool" where
  "same_type_as (Cross_Attention _) s = (case s of Cross_Attention _ \<Rightarrow> True | _ \<Rightarrow> False)"
| "same_type_as (Sliding_Window _ w) s = (case s of Sliding_Window _ v \<Rightarrow> v = w | _ \<Rightarrow> False)"
| "same_type_as (Chunked_Local_Attention _ c) s = (case s of Chunked_Local_Attention _ d \<Rightarrow> d = c | _ \<Rightarrow> False)"
| "same_type_as (Mamba b) s = (case s of Mamba c \<Rightarrow> mb_num_speculative_blocks c = mb_num_speculative_blocks b | _ \<Rightarrow> False)"
| "same_type_as _ s = is_full s"

definition is_uniform_type :: "spec_dict \<Rightarrow> bool result" where
  "is_uniform_type specs =
     (if length (remdups (map (\<lambda>x. layer_block_size (snd x)) specs)) > 1 then Inr False
      else case specs of
             [] \<Rightarrow> Inl StopIteration
           | (_, Encoder_Only_Attention _) # _ \<Rightarrow> Inl NotImplementedError
           | (_, one) # _ \<Rightarrow> Inr (list_all (\<lambda>x. same_type_as one (snd x)) specs))"

subsection \<open>Groups of layers\<close>

text \<open>The spec of a group: one spec, or \<open>UniformTypeKVCacheSpecs\<close>.\<close>

datatype group_spec = One layer_spec | Many int spec_dict

record kv_group =
  kg_layer_names :: "string list"
  kg_spec :: group_spec

fun is_many :: "group_spec \<Rightarrow> bool" where
  "is_many (Many _ _) = True"
| "is_many (One _) = False"

fun group_block_size :: "group_spec \<Rightarrow> int" where
  "group_block_size (One s) = layer_block_size s"
| "group_block_size (Many b _) = b"

fun group_page_size :: "(string \<Rightarrow> int) \<Rightarrow> group_spec \<Rightarrow> int result" where
  "group_page_size ds (One s) = page_size_bytes ds s"
| "group_page_size ds (Many _ d) = bindR (mapR (\<lambda>x. page_size_bytes ds (snd x)) d) (\<lambda>ps. Inr (sum_list ps))"

definition max_of :: "int list \<Rightarrow> int result" where
  "max_of xs = (if xs = [] then Inl ValueError else Inr (Max (set xs)))"

definition min_of :: "int list \<Rightarrow> int result" where
  "min_of xs = (if xs = [] then Inl ValueError else Inr (Min (set xs)))"

fun group_max_memory :: "(string \<Rightarrow> int) \<Rightarrow> vllm_cfg \<Rightarrow> group_spec \<Rightarrow> int result" where
  "group_max_memory ds cfg (One s) = max_memory_usage ds cfg s"
| "group_max_memory ds cfg (Many b d) =
     bindR (mapR (\<lambda>x. bindR (max_memory_usage ds cfg (snd x)) (\<lambda>u. bindR (page_size_bytes ds (snd x)) (cdivR u))) d) (\<lambda>ns.
     bindR (max_of ns) (\<lambda>n. bindR (group_page_size ds (Many b d)) (\<lambda>p. Inr (n * p))))"

definition from_specs :: "spec_dict \<Rightarrow> group_spec option result" where
  "from_specs specs =
     bindR (is_uniform_type specs) (\<lambda>u. Inr (if u then Some (Many (layer_block_size (snd (hd specs))) specs) else None))"

definition spec_lookup :: "spec_dict \<Rightarrow> string \<Rightarrow> layer_spec result" where
  "spec_lookup specs n = (case map_of specs n of Some s \<Rightarrow> Inr s | None \<Rightarrow> Inl KeyError)"

definition create_group :: "spec_dict \<Rightarrow> string list \<Rightarrow> kv_group result" where
  "create_group specs names =
     bindR (mapR (spec_lookup specs) names) (\<lambda>ls. bindR (merge_specs ls) (\<lambda>m. Inr \<lparr>kg_layer_names = names, kg_spec = One m\<rparr>))"

definition create_kv_cache_group_specs :: "spec_dict \<Rightarrow> string list list \<Rightarrow> kv_group list result" where
  "create_kv_cache_group_specs specs grouped = mapR (create_group specs) grouped"

definition get_kv_cache_groups_uniform_spec :: "spec_dict \<Rightarrow> kv_group list result" where
  "get_kv_cache_groups_uniform_spec specs = create_kv_cache_group_specs specs [map fst specs]"

definition get_kv_cache_groups_uniform_type :: "spec_dict \<Rightarrow> group_spec \<Rightarrow> kv_group list" where
  "get_kv_cache_groups_uniform_type specs spec = [\<lparr>kg_layer_names = map fst specs, kg_spec = spec\<rparr>]"

definition distinct_page_sizes :: "(string \<Rightarrow> int) \<Rightarrow> layer_spec list \<Rightarrow> int list result" where
  "distinct_page_sizes ds specs = bindR (mapR (page_size_bytes ds) specs) (\<lambda>ps. Inr (remdups ps))"

definition is_kv_cache_page_size_uniform :: "(string \<Rightarrow> int) \<Rightarrow> spec_dict \<Rightarrow> bool result" where
  "is_kv_cache_page_size_uniform ds specs = bindR (distinct_page_sizes ds (map snd specs)) (\<lambda>ps. Inr (length ps = 1))"

definition unify_layer :: "(string \<Rightarrow> int) \<Rightarrow> int \<Rightarrow> string \<times> layer_spec \<Rightarrow> (string \<times> layer_spec) result" where
  "unify_layer ds max_page x =
     bindR (page_size_bytes ds (snd x)) (\<lambda>p.
       if p = max_page then Inr x
       else if p = 0 then Inl ZeroDivisionError
       else if max_page mod p \<noteq> 0 then Inl NotImplementedError
       else let s = with_block_size (layer_block_size (snd x) * (max_page div p)) (snd x)
            in bindR (page_size_bytes ds s) (\<lambda>q. bindR (assertR (q = max_page)) (\<lambda>_. Inr (fst x, s))))"

definition unify_kv_cache_spec_page_size :: "(string \<Rightarrow> int) \<Rightarrow> spec_dict \<Rightarrow> spec_dict result" where
  "unify_kv_cache_spec_page_size ds specs =
     bindR (distinct_page_sizes ds (map snd specs)) (\<lambda>ps.
       if length ps \<le> 1 then Inr specs else mapR (unify_layer ds (Max (set ps))) specs)"

definition same_type_layers :: "spec_dict \<Rightarrow> (layer_spec \<times> string list) list" where
  "same_type_layers specs = fold (\<lambda>x d. AList.update (snd x) (dict_get d (snd x) [] @ [fst x]) d) specs []"

text \<open>\<open>xs[i::n]\<close>.\<close>

definition slice_step :: "'a list \<Rightarrow> nat \<Rightarrow> nat \<Rightarrow> 'a list" where
  "slice_step xs i n = map ((!) xs) (filter (\<lambda>j. i \<le> j \<and> (j - i) mod n = 0) [0..<length xs])"

definition group_size_of :: "int list \<Rightarrow> int" where
  "group_size_of lens = (let mn = Min (set lens); mx = Max (set lens) in if 2 * mx < 3 * mn then mx else mn)"

definition split_layers :: "int \<Rightarrow> string list \<Rightarrow> string list list" where
  "split_layers group_size layers =
     (let n = nat (cdiv (int (length layers)) group_size) in map (\<lambda>i. slice_step layers i n) [0..<n])"

definition get_kv_cache_groups_uniform_page_size :: "spec_dict \<Rightarrow> kv_group list result" where
  "get_kv_cache_groups_uniform_page_size specs =
     (if specs = [] then Inl ValueError
      else
        let layers = map snd (same_type_layers specs); g = group_size_of (map (\<lambda>l. int (length l)) layers)
        in create_kv_cache_group_specs specs (concat (map (split_layers g) layers)))"

text \<open>Without the hybrid manager, local attention is treated as full attention.\<close>

fun as_full :: "layer_spec \<Rightarrow> layer_spec" where
  "as_full (Sliding_Window a w) = Full_Attention a \<lparr>fu_head_size_v = at_head_size a, fu_sliding_window = Some w, fu_attention_chunk_size = None\<rparr>"
| "as_full (Chunked_Local_Attention a c) = Full_Attention a \<lparr>fu_head_size_v = at_head_size a, fu_sliding_window = None, fu_attention_chunk_size = Some c\<rparr>"
| "as_full s = s"

fun is_local :: "layer_spec \<Rightarrow> bool" where
  "is_local (Sliding_Window _ _) = True"
| "is_local (Chunked_Local_Attention _ _) = True"
| "is_local _ = False"

definition uniform_or_same_type :: "spec_dict \<Rightarrow> bool result" where
  "uniform_or_same_type specs = bindR (is_kv_cache_spec_uniform specs) (\<lambda>u. if u then Inr True else is_uniform_type specs)"

definition unify_hybrid_kv_cache_specs :: "spec_dict \<Rightarrow> spec_dict result" where
  "unify_hybrid_kv_cache_specs specs =
     bindR (uniform_or_same_type specs) (\<lambda>u.
       if u then Inr specs
       else
         let specs' = (if list_ex (\<lambda>x. is_full (snd x)) specs \<and> list_ex (\<lambda>x. is_local (snd x)) specs
                       then map (\<lambda>x. (fst x, as_full (snd x))) specs else specs)
         in bindR (uniform_or_same_type specs') (\<lambda>u'. if u' then Inr specs' else Inl ValueError))"

definition get_kv_cache_groups :: "(string \<Rightarrow> int) \<Rightarrow> vllm_cfg \<Rightarrow> spec_dict \<Rightarrow> kv_group list result" where
  "get_kv_cache_groups ds cfg specs0 =
     bindR (if vc_disable_hybrid cfg then unify_hybrid_kv_cache_specs specs0 else Inr specs0) (\<lambda>specs.
       if specs = [] then Inr []
       else bindR (is_kv_cache_spec_uniform specs) (\<lambda>u.
              if u then get_kv_cache_groups_uniform_spec specs
              else bindR (from_specs specs) (\<lambda>t.
                     case t of
                       Some spec \<Rightarrow> Inr (get_kv_cache_groups_uniform_type specs spec)
                     | None \<Rightarrow> bindR (unify_kv_cache_spec_page_size ds specs) get_kv_cache_groups_uniform_page_size)))"

subsection \<open>Sizes\<close>

record kv_tensor =
  kt_size :: int
  kt_shared_by :: "string list"

record cache_layout =
  cl_num_blocks :: int
  cl_tensors :: "kv_tensor list"
  cl_groups :: "kv_group list"

definition may_override_num_blocks :: "vllm_cfg \<Rightarrow> int \<Rightarrow> int" where
  "may_override_num_blocks cfg n = (case vc_num_gpu_blocks_override cfg of Some k \<Rightarrow> k | None \<Rightarrow> n)"

definition get_num_blocks :: "vllm_cfg \<Rightarrow> int \<Rightarrow> int \<Rightarrow> int \<Rightarrow> int result" where
  "get_num_blocks cfg num_layers available page_size =
     bindR (floordivR available page_size) (\<lambda>a. bindR (floordivR a num_layers) (\<lambda>n.
       Inr (may_override_num_blocks cfg (max n 0))))"

definition get_uniform_page_size :: "(string \<Rightarrow> int) \<Rightarrow> kv_group list \<Rightarrow> int result" where
  "get_uniform_page_size ds groups =
     bindR (mapR (\<lambda>g. group_page_size ds (kg_spec g)) groups) (\<lambda>ps.
       case remdups ps of [p] \<Rightarrow> Inr p | _ \<Rightarrow> Inl AssertionError)"

definition layers_per_group :: "kv_group list \<Rightarrow> int" where
  "layers_per_group groups = Max (set (map (\<lambda>g. int (length (kg_layer_names g))) groups))"

definition shared_by :: "kv_group list \<Rightarrow> nat \<Rightarrow> string list" where
  "shared_by groups i = concat (map (\<lambda>g. if i < length (kg_layer_names g) then [kg_layer_names g ! i] else []) groups)"

definition uniform_type_tensor :: "(string \<Rightarrow> int) \<Rightarrow> spec_dict \<Rightarrow> int \<Rightarrow> string \<Rightarrow> kv_tensor result" where
  "uniform_type_tensor ds d num_blocks n =
     bindR (spec_lookup d n) (\<lambda>s. bindR (page_size_bytes ds s) (\<lambda>p. Inr \<lparr>kt_size = p * num_blocks, kt_shared_by = [n]\<rparr>))"

definition get_kv_cache_config_from_groups :: "(string \<Rightarrow> int) \<Rightarrow> vllm_cfg \<Rightarrow> kv_group list \<Rightarrow> int \<Rightarrow> cache_layout result" where
  "get_kv_cache_config_from_groups ds cfg groups available =
     (case groups of
        [] \<Rightarrow> Inr \<lparr>cl_num_blocks = 1, cl_tensors = [], cl_groups = []\<rparr>
      | _ \<Rightarrow>
          (case map kg_spec groups of
             [Many b d] \<Rightarrow>
               bindR (group_page_size ds (Many b d)) (\<lambda>p.
               bindR (floordivR available p) (\<lambda>n0.
               let n = may_override_num_blocks cfg n0
               in bindR (mapR (uniform_type_tensor ds d n) (kg_layer_names (hd groups))) (\<lambda>ts.
                    Inr \<lparr>cl_num_blocks = n, cl_tensors = ts, cl_groups = groups\<rparr>)))
           | _ \<Rightarrow>
               let g = layers_per_group groups
               in bindR (get_uniform_page_size ds groups) (\<lambda>p.
                  bindR (assertR (g > 0)) (\<lambda>_.
                  bindR (get_num_blocks cfg g available p) (\<lambda>n.
                    Inr \<lparr>cl_num_blocks = n, cl_tensors = map (\<lambda>i. \<lparr>kt_size = p * n, kt_shared_by = shared_by groups i\<rparr>) [0..<nat g],
                         cl_groups = groups\<rparr>)))))"

definition sum_memory :: "(string \<Rightarrow> int) \<Rightarrow> vllm_cfg \<Rightarrow> layer_spec list \<Rightarrow> int result" where
  "sum_memory ds cfg specs = bindR (mapR (max_memory_usage ds cfg) specs) (\<lambda>us. Inr (sum_list us))"

definition max_memory_usage_from_groups :: "(string \<Rightarrow> int) \<Rightarrow> vllm_cfg \<Rightarrow> kv_group list \<Rightarrow> int result" where
  "max_memory_usage_from_groups ds cfg groups =
     (case groups of
        [] \<Rightarrow> Inr 0
      | _ \<Rightarrow>
          (case map kg_spec groups of
             [Many b d] \<Rightarrow> sum_memory ds cfg (map snd d)
           | _ \<Rightarrow>
               bindR (get_uniform_page_size ds groups) (\<lambda>p.
               bindR (group_max_memory ds cfg (kg_spec (hd groups))) (\<lambda>u.
               bindR (cdivR u p) (\<lambda>n. Inr (layers_per_group groups * p * n))))))"

subsection \<open>The longest context that fits\<close>

function len_search :: "(int \<Rightarrow> bool result) \<Rightarrow> int \<Rightarrow> int \<Rightarrow> int \<Rightarrow> int result" where
  "len_search fits left right result =
     (if left \<le> right then
        let mid = (left + right) div 2
        in bindR (fits mid) (\<lambda>b. if b then len_search fits (mid + 1) right mid else len_search fits left (mid - 1) result)
      else Inr result)"
  by pat_completeness auto
termination by (relation "measure (\<lambda>(f, l, r, x). nat (r + 1 - l))") auto

declare len_search.simps [simp del]

definition estimate_len :: "(int \<Rightarrow> bool result) \<Rightarrow> int \<Rightarrow> int result" where
  "estimate_len fits original_max = bindR (fits 1) (\<lambda>b. if b then len_search fits 1 original_max 1 else Inr 0)"

definition estimate_max_model_len :: "(string \<Rightarrow> int) \<Rightarrow> vllm_cfg \<Rightarrow> spec_dict \<Rightarrow> int \<Rightarrow> int result" where
  "estimate_max_model_len ds cfg specs available =
     estimate_len (\<lambda>n. bindR (sum_memory ds (cfg\<lparr>vc_max_model_len := n\<rparr>) (map snd specs)) (\<lambda>u. Inr (u \<le> available))) (vc_max_model_len cfg)"

definition groups_fit :: "(string \<Rightarrow> int) \<Rightarrow> vllm_cfg \<Rightarrow> kv_group list \<Rightarrow> int \<Rightarrow> int \<Rightarrow> bool result" where
  "groups_fit ds cfg groups available n =
     bindR (max_memory_usage_from_groups ds (cfg\<lparr>vc_max_model_len := n\<rparr>) groups) (\<lambda>u. Inr (u \<le> available))"

definition estimate_max_model_len_from_groups :: "(string \<Rightarrow> int) \<Rightarrow> vllm_cfg \<Rightarrow> kv_group list \<Rightarrow> int \<Rightarrow> int result" where
  "estimate_max_model_len_from_groups ds cfg groups available = estimate_len (groups_fit ds cfg groups available) (vc_max_model_len cfg)"

definition check_enough_memory :: "int \<Rightarrow> int result \<Rightarrow> int result \<Rightarrow> unit result" where
  "check_enough_memory available needed estimate =
     (if available \<le> 0 then Inl ValueError
      else bindR needed (\<lambda>n. if n > available then bindR estimate (\<lambda>_. Inl ValueError) else Inr ()))"

definition check_enough_kv_cache_memory :: "(string \<Rightarrow> int) \<Rightarrow> vllm_cfg \<Rightarrow> spec_dict \<Rightarrow> int \<Rightarrow> unit result" where
  "check_enough_kv_cache_memory ds cfg specs available =
     (if specs = [] then Inr ()
      else check_enough_memory available (sum_memory ds cfg (map snd specs)) (estimate_max_model_len ds cfg specs available))"

fun auto_fit_loop :: "(string \<Rightarrow> int) \<Rightarrow> vllm_cfg \<Rightarrow> (kv_group list \<times> int) list \<Rightarrow> int \<Rightarrow> int result" where
  "auto_fit_loop ds cfg [] best = Inr best"
| "auto_fit_loop ds cfg ((groups, mem) # ws) best =
     (if groups = [] then auto_fit_loop ds cfg ws best
      else bindR (estimate_max_model_len_from_groups ds cfg groups mem) (\<lambda>n. auto_fit_loop ds cfg ws (if n < best then n else best)))"

definition auto_fit_max_model_len :: "(string \<Rightarrow> int) \<Rightarrow> vllm_cfg \<Rightarrow> kv_group list list \<Rightarrow> int list \<Rightarrow> vllm_cfg result" where
  "auto_fit_max_model_len ds cfg groups mem =
     (if list_all (\<lambda>g. g = []) groups then Inr cfg
      else if mem = [] then Inl IndexError
      else bindR (auto_fit_loop ds cfg (zip groups mem) (vc_max_model_len cfg)) (\<lambda>best.
             if best \<le> 0 then Inl ValueError
             else if best \<ge> vc_max_model_len cfg then Inr cfg
             else Inr (cfg\<lparr>vc_max_model_len := best\<rparr>)))"

subsection \<open>All workers\<close>

definition project_group :: "spec_dict \<Rightarrow> kv_group \<Rightarrow> kv_group result" where
  "project_group worker g =
     (let names = filter (\<lambda>n. n \<in> fst ` set worker) (kg_layer_names g)
      in case kg_spec g of
           Many b d \<Rightarrow>
             if names = [] then Inr \<lparr>kg_layer_names = names, kg_spec = Many b d\<rparr>
             else bindR (mapR (\<lambda>n. bindR (spec_lookup d n) (\<lambda>s. Inr (n, s))) names) (\<lambda>d'.
                    Inr \<lparr>kg_layer_names = names, kg_spec = Many b d'\<rparr>)
         | One s \<Rightarrow> Inr \<lparr>kg_layer_names = names, kg_spec = One s\<rparr>)"

definition project_groups_to_worker :: "kv_group list \<Rightarrow> spec_dict \<Rightarrow> kv_group list result" where
  "project_groups_to_worker groups worker = mapR (project_group worker) groups"

definition merge_layer :: "string \<times> layer_spec \<Rightarrow> spec_dict \<Rightarrow> spec_dict result" where
  "merge_layer x merged =
     (case map_of merged (fst x) of
        None \<Rightarrow> Inr (merged @ [x])
      | Some s \<Rightarrow> bindR (assertR (s = snd x)) (\<lambda>_. Inr merged))"

definition merge_workers :: "spec_dict list \<Rightarrow> spec_dict result" where
  "merge_workers workers = foldR merge_layer (concat workers) []"

definition max_concurrency :: "(string \<Rightarrow> int) \<Rightarrow> vllm_cfg \<Rightarrow> cache_layout \<Rightarrow> (int \<times> int) result" where
  "max_concurrency ds cfg layout =
     (let groups = cl_groups layout; l = layers_per_group groups
      in bindR (mapR (\<lambda>g. group_max_memory ds cfg (kg_spec g)) groups) (\<lambda>us.
         bindR (group_page_size ds (kg_spec (hd groups))) (\<lambda>p.
         bindR (cdivR (l * sum_list us) (p * l)) (\<lambda>n.
           if n = 0 then Inl ZeroDivisionError else Inr (cl_num_blocks layout, n)))))"

text \<open>The numbers that are logged: tokens in the cache, and the concurrency as a fraction.\<close>

definition report_kv_cache_config :: "(string \<Rightarrow> int) \<Rightarrow> vllm_cfg \<Rightarrow> cache_layout \<Rightarrow> (int \<times> int \<times> int) result" where
  "report_kv_cache_config ds cfg layout =
     bindR (min_of (map (\<lambda>g. group_block_size (kg_spec g)) (cl_groups layout))) (\<lambda>b.
     let t = cl_num_blocks layout div int (length (cl_groups layout)) * b; cp = vc_pcp cfg * vc_dcp cfg
     in bindR (max_concurrency ds cfg layout) (\<lambda>(a, n). Inr (if cp > 1 then t * cp else t, a, n)))"

fun check_workers :: "(string \<Rightarrow> int) \<Rightarrow> vllm_cfg \<Rightarrow> (kv_group list \<times> int) list \<Rightarrow> unit result" where
  "check_workers ds cfg [] = Inr ()"
| "check_workers ds cfg ((groups, mem) # ws) =
     bindR (if groups = [] then Inr ()
            else check_enough_memory mem (max_memory_usage_from_groups ds cfg groups) (estimate_max_model_len_from_groups ds cfg groups mem))
       (\<lambda>_. check_workers ds cfg ws)"

definition worker_layout :: "(string \<Rightarrow> int) \<Rightarrow> vllm_cfg \<Rightarrow> kv_group list \<times> spec_dict \<times> int \<Rightarrow> cache_layout result" where
  "worker_layout ds cfg w =
     (case w of (groups, specs, mem) \<Rightarrow>
        bindR (assertR (sum_list (map (\<lambda>g. length (kg_layer_names g)) groups) = length specs)) (\<lambda>_.
          get_kv_cache_config_from_groups ds cfg groups mem))"

definition shrink_tensor :: "int \<Rightarrow> int \<Rightarrow> kv_tensor \<Rightarrow> kv_tensor result" where
  "shrink_tensor old new t =
     (if old = 0 then Inl ZeroDivisionError
      else bindR (assertR (kt_size t mod old = 0)) (\<lambda>_. Inr (t\<lparr>kt_size := kt_size t div old * new\<rparr>)))"

definition shrink_layout :: "(string \<Rightarrow> int) \<Rightarrow> vllm_cfg \<Rightarrow> int \<Rightarrow> cache_layout \<Rightarrow> cache_layout result" where
  "shrink_layout ds cfg n layout =
     bindR (mapR (shrink_tensor (cl_num_blocks layout) n) (cl_tensors layout)) (\<lambda>ts.
     let layout' = layout\<lparr>cl_num_blocks := n, cl_tensors := ts\<rparr>
     in bindR (if cl_groups layout' = [] then Inr (0, 0, 0) else report_kv_cache_config ds cfg layout') (\<lambda>_. Inr layout'))"

definition get_kv_cache_configs ::
  "(string \<Rightarrow> int) \<Rightarrow> vllm_cfg \<Rightarrow> spec_dict list \<Rightarrow> int list \<Rightarrow> (vllm_cfg \<times> cache_layout list) result" where
  "get_kv_cache_configs ds cfg0 workers mem =
     bindR (merge_workers workers) (\<lambda>merged.
     bindR (get_kv_cache_groups ds cfg0 merged) (\<lambda>groups.
     bindR (mapR (project_groups_to_worker groups) workers) (\<lambda>projected.
     bindR (if vc_original_max_model_len cfg0 = - 1 then auto_fit_max_model_len ds cfg0 projected mem else Inr cfg0) (\<lambda>cfg.
     bindR (check_workers ds cfg (zip projected mem)) (\<lambda>_.
     bindR (mapR (worker_layout ds cfg) (zip projected (zip workers mem))) (\<lambda>layouts.
     bindR (min_of (map cl_num_blocks layouts)) (\<lambda>n.
     bindR (mapR (shrink_layout ds cfg n) layouts) (\<lambda>layouts'. Inr (cfg, layouts')))))))))"

definition scheduler_group :: "kv_group \<Rightarrow> kv_group result" where
  "scheduler_group g =
     (case kg_spec g of
        One _ \<Rightarrow> Inr g
      | Many _ [] \<Rightarrow> Inl StopIteration
      | Many _ (x # _) \<Rightarrow> Inr (g\<lparr>kg_spec := One (snd x)\<rparr>))"

definition generate_scheduler_kv_cache_config :: "cache_layout list \<Rightarrow> cache_layout result" where
  "generate_scheduler_kv_cache_config layouts =
     (case layouts of
        [] \<Rightarrow> Inl IndexError
      | l # ls \<Rightarrow>
          bindR (assertR (list_all (\<lambda>c. cl_num_blocks c = cl_num_blocks l) layouts)) (\<lambda>_.
          bindR (mapR scheduler_group (cl_groups l)) (\<lambda>gs. Inr (l\<lparr>cl_groups := gs\<rparr>))))"

definition has_mamba_layers :: "cache_layout \<Rightarrow> bool" where
  "has_mamba_layers layout \<longleftrightarrow> list_ex (\<lambda>g. case kg_spec g of One (Mamba _) \<Rightarrow> True | _ \<Rightarrow> False) (cl_groups layout)"

subsection \<open>The search finds the longest context\<close>

lemma mapR_eq_Inr: "mapR f xs = Inr ys \<longleftrightarrow> list_all2 (\<lambda>x y. f x = Inr y) xs ys"
  by (induction xs arbitrary: ys) (auto simp: bindR_eq_Inr list_all2_Cons1)

lemma mapR_list_all:
  assumes "mapR f xs = Inr ys" "list_all P xs" "\<And>x y. P x \<Longrightarrow> f x = Inr y \<Longrightarrow> Q y"
  shows "list_all Q ys"
  using assms(1,2) unfolding mapR_eq_Inr by (induction rule: list_all2_induct) (auto simp: assms(3))

lemma len_search_finds:
  assumes "\<forall>n \<in> {1..lim}. fits n = Inr (n \<le> k)" "1 \<le> k"
  shows "1 \<le> left \<Longrightarrow> left \<le> k + 1 \<Longrightarrow> k \<le> right \<Longrightarrow> right \<le> lim \<Longrightarrow> res = left - 1 \<or> left = 1 \<Longrightarrow> len_search fits left right res = Inr k"
proof (induction "nat (right + 1 - left)" arbitrary: left right res rule: less_induct)
  case less
  show ?case
  proof (cases "left \<le> right")
    case True
    let ?m = "(left + right) div 2"
    have m: "left \<le> ?m" "?m \<le> right" using True by linarith+
    then have f: "fits ?m = Inr (?m \<le> k)" using assms(1) less.prems by auto
    show ?thesis
    proof (cases "?m \<le> k")
      case yes: True
      have "len_search fits (?m + 1) right ?m = Inr k" using less.hyps less.prems m yes by simp
      then show ?thesis using True f yes by (subst len_search.simps) (simp add: Let_def)
    next
      case False
      have "len_search fits left (?m - 1) res = Inr k" using less.hyps less.prems m False by simp
      then show ?thesis using True f False by (subst len_search.simps) (simp add: Let_def)
    qed
  next
    case False
    then show ?thesis using less.prems assms(2) by (subst len_search.simps) auto
  qed
qed

lemma downward_threshold:
  fixes lim :: int
  assumes "\<And>m n. 1 \<le> m \<Longrightarrow> m \<le> n \<Longrightarrow> P n \<Longrightarrow> P m" "0 \<le> lim"
  shows "\<exists>k. 0 \<le> k \<and> k \<le> lim \<and> (\<forall>n \<in> {1..lim}. P n \<longleftrightarrow> n \<le> k)"
  using assms(2)
proof (induction lim rule: int_ge_induct)
  case (step lim)
  then obtain k where k: "0 \<le> k" "k \<le> lim" "\<forall>n \<in> {1..lim}. P n \<longleftrightarrow> n \<le> k" by blast
  show ?case
  proof (cases "P (lim + 1)")
    case True
    then have "\<forall>n \<in> {1..lim + 1}. P n \<longleftrightarrow> n \<le> lim + 1" using assms(1) by auto
    then show ?thesis using step.hyps by (intro exI [of _ "lim + 1"]) auto
  next
    case False
    have "P n \<longleftrightarrow> n \<le> k" if "n \<in> {1..lim + 1}" for n
      using k False that by (cases "n = lim + 1") auto
    then show ?thesis using k by (intro exI [of _ k]) auto
  qed
qed (use assms in auto)

lemma estimate_len_finds:
  assumes "\<And>n. 1 \<le> n \<Longrightarrow> fits n = Inr (P n)" "\<And>m n. 1 \<le> m \<Longrightarrow> m \<le> n \<Longrightarrow> P n \<Longrightarrow> P m" "1 \<le> lim"
  shows "\<exists>k. estimate_len fits lim = Inr k \<and> 0 \<le> k \<and> k \<le> lim \<and> (\<forall>n \<in> {1..lim}. fits n = Inr (n \<le> k))"
proof -
  obtain k where k: "0 \<le> k" "k \<le> lim" "\<forall>n \<in> {1..lim}. P n \<longleftrightarrow> n \<le> k"
    using downward_threshold [of P lim] assms(2,3) by auto
  have f: "\<forall>n \<in> {1..lim}. fits n = Inr (n \<le> k)" using assms(1) k(3) by auto
  have "estimate_len fits lim = Inr k"
  proof (cases "1 \<le> k")
    case True
    then show ?thesis using f assms(3) len_search_finds [OF f True, of 1 lim 1] k by (simp add: estimate_len_def)
  next
    case False
    then show ?thesis using f assms(3) k(1) by (simp add: estimate_len_def)
  qed
  then show ?thesis using k f by blast
qed

text \<open>Specs whose sizes make sense; then a longer context never needs less memory.\<close>

definition spec_ok :: "(string \<Rightarrow> int) \<Rightarrow> layer_spec \<Rightarrow> bool" where
  "spec_ok ds s \<longleftrightarrow> 0 < layer_block_size s \<and> (case page_size_bytes ds s of Inr p \<Rightarrow> 0 < p | Inl _ \<Rightarrow> False)"

definition grows :: "(int \<Rightarrow> int result) \<Rightarrow> bool" where
  "grows f \<longleftrightarrow> (\<exists>e. \<forall>n. f n = Inl e) \<or> (\<exists>g. (\<forall>n. f n = Inr (g n)) \<and> (\<forall>m n. m \<le> n \<longrightarrow> g m \<le> g n))"

lemma growsI: "(\<And>n. f n = Inr (g n)) \<Longrightarrow> (\<And>m n. m \<le> n \<Longrightarrow> g m \<le> g n) \<Longrightarrow> grows f"
  unfolding grows_def by blast

lemma growsE:
  assumes "grows f"
  obtains (err) e where "\<forall>n. f n = Inl e" | (val) g where "\<forall>n. f n = Inr (g n)" "\<forall>m n. m \<le> n \<longrightarrow> g m \<le> g n"
  using assms unfolding grows_def by blast

lemma grows_const: "grows (\<lambda>_. r)"
  by (cases r) (auto simp: grows_def)

lemma pages_for_grows:
  assumes "spec_ok ds s" "\<And>m n. m \<le> n \<Longrightarrow> g m \<le> g n"
  shows "grows (\<lambda>n. pages_for ds s (g n) x)"
proof -
  obtain p where p: "page_size_bytes ds s = Inr p" "0 < p" "0 < layer_block_size s"
    using assms(1) by (auto simp: spec_ok_def split: sum.split_asm)
  show ?thesis
    by (rule growsI [where g = "\<lambda>n. (cdiv (g n) (layer_block_size s) + x) * p"])
      (use p assms(2) cdiv_mono in \<open>auto simp: pages_for_def cdivR_def intro!: mult_right_mono\<close>)
qed

lemma full_local_len_mono: "m \<le> n \<Longrightarrow> full_local_len (cfg\<lparr>vc_max_model_len := m\<rparr>) \<le> full_local_len (cfg\<lparr>vc_max_model_len := n\<rparr>)"
  by (auto simp: full_local_len_def intro: cdiv_mono)

lemma max_memory_usage_grows:
  assumes "spec_ok ds s"
  shows "grows (\<lambda>n. max_memory_usage ds (cfg\<lparr>vc_max_model_len := n\<rparr>) s)"
proof (cases s)
  case (Sliding_Window a w)
  show ?thesis
  proof (cases "vc_dcp cfg = 1")
    case True
    then show ?thesis using Sliding_Window pages_for_grows [OF assms, of "\<lambda>n. min (w - 1 + vc_max_num_batched_tokens cfg) n" 1] by simp
  qed (simp add: Sliding_Window grows_const)
next
  case (Mamba b)
  then show ?thesis using pages_for_grows [OF assms, of "\<lambda>n. n" 0] grows_const
    by (cases "vc_mamba_cache_mode cfg = ''all''") simp_all
next
  case (Chunked_Local_Attention a c)
  then show ?thesis using pages_for_grows [OF assms, of "\<lambda>n. min (c + vc_max_num_batched_tokens cfg) n" 0] by simp
qed (use pages_for_grows [OF assms, of "\<lambda>n. full_local_len (cfg\<lparr>vc_max_model_len := n\<rparr>)" 0, OF full_local_len_mono] grows_const in simp_all)

lemma grows_bind:
  assumes "grows f" "\<And>x m n. r = Inr x \<Longrightarrow> m \<le> n \<Longrightarrow> h x m \<le> h x n"
  shows "grows (\<lambda>n. bindR r (\<lambda>x. bindR (f n) (\<lambda>u. Inr (h x u))))"
proof (cases r)
  case (Inl e)
  then show ?thesis by (simp add: grows_const)
next
  case (Inr x)
  from assms(1) show ?thesis
  proof (cases rule: growsE)
    case (err e)
    then show ?thesis using Inr by (auto simp: grows_def)
  next
    case (val g)
    show ?thesis by (rule growsI [where g = "\<lambda>n. h x (g n)"]) (use val Inr assms(2) in simp_all)
  qed
qed

lemma sum_grows:
  assumes "\<And>x. x \<in> set xs \<Longrightarrow> grows (f x)"
  shows "grows (\<lambda>n. bindR (mapR (\<lambda>x. f x n) xs) (\<lambda>us. Inr (sum_list us)))"
  using assms
proof (induction xs)
  case (Cons x xs)
  define F where "F n = bindR (mapR (\<lambda>x. f x n) xs) (\<lambda>us. Inr (sum_list us))" for n
  have F: "grows F" unfolding F_def using Cons by simp
  have e: "bindR (mapR (\<lambda>x. f x n) (x # xs)) (\<lambda>us. Inr (sum_list us)) = bindR (f x n) (\<lambda>u. bindR (F n) (\<lambda>v. Inr (u + v)))" for n
    by (cases "f x n"; cases "mapR (\<lambda>x. f x n) xs") (simp_all add: F_def)
  have "grows (f x)" using Cons.prems by simp
  then show ?case
  proof (cases rule: growsE)
    case (err e)
    then show ?thesis by (auto simp: grows_def)
  next
    case (val g)
    from F show ?thesis
    proof (cases rule: growsE)
      case (val k)
      show ?thesis unfolding e by (rule growsI [where g = "\<lambda>n. g n + k n"]) (use \<open>\<forall>n. f x n = Inr (g n)\<close> \<open>\<forall>m n. m \<le> n \<longrightarrow> g m \<le> g n\<close> val in \<open>auto intro: add_mono\<close>)
    qed (unfold e, use val in \<open>auto simp: grows_def\<close>)
  qed
qed (simp add: grows_const)

fun group_ok :: "(string \<Rightarrow> int) \<Rightarrow> group_spec \<Rightarrow> bool" where
  "group_ok ds (One s) = spec_ok ds s"
| "group_ok ds (Many _ d) = list_all (\<lambda>x. spec_ok ds (snd x)) d"

text \<open>As \<open>get_kv_cache_groups\<close> makes them: a spec for several sizes only as the only group.\<close>

definition groups_ok :: "(string \<Rightarrow> int) \<Rightarrow> kv_group list \<Rightarrow> bool" where
  "groups_ok ds groups \<longleftrightarrow> list_all (\<lambda>g. group_ok ds (kg_spec g)) groups \<and> (length groups = 1 \<or> \<not> list_ex (\<lambda>g. is_many (kg_spec g)) groups)"

lemma uniform_page_size:
  assumes "get_uniform_page_size ds groups = Inr p" "g \<in> set groups"
  shows "group_page_size ds (kg_spec g) = Inr p"
proof -
  obtain ps where ps: "list_all2 (\<lambda>g q. group_page_size ds (kg_spec g) = Inr q) groups ps"
    and one: "(case remdups ps of [p] \<Rightarrow> Inr p | _ \<Rightarrow> Inl AssertionError) = Inr p"
    using assms(1) unfolding get_uniform_page_size_def bindR_eq_Inr mapR_eq_Inr by blast
  from one have "remdups ps = [p]" by (cases "remdups ps"; cases "tl (remdups ps)") simp_all
  then have "set ps = {p}" by (metis list.set(1,2) set_remdups)
  then have "ps ! i = p" if "i < length ps" for i using that nth_mem by blast
  then show ?thesis using ps assms(2) by (auto simp: list_all2_conv_all_nth in_set_conv_nth)
qed

lemma layers_per_group_ge: "g \<in> set groups \<Longrightarrow> int (length (kg_layer_names g)) \<le> layers_per_group groups"
  by (simp add: layers_per_group_def)

lemma groups_memory_grows:
  assumes "groups_ok ds groups"
  shows "grows (\<lambda>n. max_memory_usage_from_groups ds (cfg\<lparr>vc_max_model_len := n\<rparr>) groups)"
proof (cases "\<exists>g b d. groups = [g] \<and> kg_spec g = Many b d")
  case True
  then obtain g b d where "groups = [g]" "kg_spec g = Many b d" by blast
  then show ?thesis using assms sum_grows [of "map snd d" "\<lambda>s n. max_memory_usage ds (cfg\<lparr>vc_max_model_len := n\<rparr>) s"] max_memory_usage_grows
    by (auto simp: max_memory_usage_from_groups_def sum_memory_def groups_ok_def list_all_iff)
next
  case False
  show ?thesis
  proof (cases groups)
    case (Cons g gs)
    obtain s where s: "kg_spec g = One s" using False Cons assms by (cases "kg_spec g") (auto simp: groups_ok_def)
    have ok: "spec_ok ds s" using assms Cons s by (simp add: groups_ok_def)
    let ?r = "get_uniform_page_size ds groups"
    let ?L = "layers_per_group groups"
    have p: "0 < p" if "?r = Inr p" for p
      using uniform_page_size [OF that, of g] Cons s ok by (simp add: spec_ok_def)
    have "max_memory_usage_from_groups ds c groups = bindR ?r (\<lambda>p. bindR (max_memory_usage ds c s) (\<lambda>u. Inr (?L * p * cdiv u p)))" for c
      using Cons s p by (cases ?r; cases gs) (auto simp: max_memory_usage_from_groups_def cdivR_def)
    moreover have "0 \<le> ?L" using layers_per_group_ge [of g groups] Cons by simp
    then have "?L * p * cdiv m p \<le> ?L * p * cdiv n p" if "?r = Inr p" "m \<le> n" for p m n
      using p [OF that(1)] that(2) by (intro mult_left_mono cdiv_mono) simp_all
    ultimately show ?thesis
      using grows_bind [OF max_memory_usage_grows [OF ok], of ?r "\<lambda>p u. ?L * p * cdiv u p" cfg] by simp
  qed (simp add: max_memory_usage_from_groups_def grows_const)
qed

text \<open>
  C8: The search for the longest context finds it. For groups whose specs have positive sizes and whose memory needs
  can be computed, it returns, for the memory of a worker, the one bound up to which contexts fit: every length up to
  the configured maximum fits exactly when it is not above the result, and the result is 0 when nothing fits.
\<close>

theorem longest_context_found:
  assumes "groups_ok ds groups" "1 \<le> vc_max_model_len cfg" "groups_fit ds cfg groups available 1 = Inr b"
  shows "\<exists>k. estimate_max_model_len_from_groups ds cfg groups available = Inr k \<and> 0 \<le> k \<and> k \<le> vc_max_model_len cfg
    \<and> (\<forall>n \<in> {1..vc_max_model_len cfg}. groups_fit ds cfg groups available n = Inr (n \<le> k))"
proof -
  from groups_memory_grows [OF assms(1), of cfg] show ?thesis
  proof (cases rule: growsE)
    case (err e)
    then show ?thesis using assms(3) by (simp add: groups_fit_def)
  next
    case (val g)
    then have "groups_fit ds cfg groups available n = Inr (g n \<le> available)" for n by (simp add: groups_fit_def)
    moreover have "g m \<le> available" if "m \<le> n" "g n \<le> available" for m n using val(2) that order_trans by blast
    ultimately show ?thesis unfolding estimate_max_model_len_from_groups_def
      using estimate_len_finds [of "groups_fit ds cfg groups available" "\<lambda>n. g n \<le> available" "vc_max_model_len cfg"] assms(2) by blast
  qed
qed

definition sample_cfg :: vllm_cfg where
  "sample_cfg = \<lparr>vc_max_model_len = 64, vc_original_max_model_len = 64, vc_dcp = 1, vc_pcp = 1, vc_max_num_batched_tokens = 64,
     vc_max_num_encoder_input_tokens = 0, vc_mamba_cache_mode = ''none'', vc_num_gpu_blocks_override = None, vc_disable_hybrid = False\<rparr>"

definition sample_attn :: attn_spec where
  "sample_attn = \<lparr>at_block_size = 16, at_num_kv_heads = 1, at_head_size = 4, at_dtype = ''b'', at_page_size_padded = None\<rparr>"

definition sample_full :: layer_spec where
  "sample_full = Full_Attention sample_attn \<lparr>fu_head_size_v = 4, fu_sliding_window = None, fu_attention_chunk_size = None\<rparr>"

definition two_bytes :: "string \<Rightarrow> int" where
  "two_bytes _ = 2"

definition sample_groups :: "kv_group list" where
  "sample_groups = [\<lparr>kg_layer_names = [''a'', ''b''], kg_spec = One sample_full\<rparr>]"

lemma sample_groups_ok: "groups_ok two_bytes sample_groups \<and> groups_fit two_bytes sample_cfg sample_groups 1600 1 = Inr True"
  by code_simp

theorem longest_context_found_witness:
  "\<exists>k. estimate_max_model_len_from_groups two_bytes sample_cfg sample_groups 1600 = Inr k \<and> 0 \<le> k \<and> k \<le> 64"
proof -
  have m: "vc_max_model_len sample_cfg = 64" by (simp add: sample_cfg_def)
  have "groups_ok two_bytes sample_groups" "groups_fit two_bytes sample_cfg sample_groups 1600 1 = Inr True" using sample_groups_ok by simp_all
  from longest_context_found [OF this(1) _ this(2)] m show ?thesis by auto
qed

subsection \<open>Layers are grouped once\<close>

definition group_names :: "kv_group list \<Rightarrow> string list" where
  "group_names groups = concat (map kg_layer_names groups)"

lemma create_groups_names: "create_kv_cache_group_specs specs grouped = Inr groups \<Longrightarrow> map kg_layer_names groups = grouped"
  unfolding create_kv_cache_group_specs_def mapR_eq_Inr
  by (induction rule: list_all2_induct) (auto simp: create_group_def bindR_eq_Inr)

lemma residue_class: "i < n \<Longrightarrow> (i \<le> x \<and> (x - i) mod n = 0) \<longleftrightarrow> i = x mod n" for i x n :: nat
proof
  assume n: "i < n"
  { assume "i \<le> x \<and> (x - i) mod n = 0"
    then have "x mod n = i mod n" using mod_eq_dvd_iff_nat [of i x n] by (simp add: dvd_eq_mod_eq_0)
    then show "i = x mod n" using n by simp }
  assume "i = x mod n"
  then show "i \<le> x \<and> (x - i) mod n = 0" using dvd_minus_mod [of n x] by (simp add: dvd_eq_mod_eq_0)
qed

lemma mset_filter_classes:
  fixes n :: nat
  assumes "0 < n"
  shows "(\<Sum>i<n. mset (filter (\<lambda>j. i \<le> j \<and> (j - i) mod n = 0) xs)) = mset xs"
proof (induction xs)
  case (Cons x xs)
  have "(\<Sum>i<n. mset (filter (\<lambda>j. i \<le> j \<and> (j - i) mod n = 0) (x # xs)))
      = (\<Sum>i<n. (if i = x mod n then {#x#} else {#}) + mset (filter (\<lambda>j. i \<le> j \<and> (j - i) mod n = 0) xs))"
  proof (intro sum.cong refl)
    fix i assume "i \<in> {..<n}"
    then have "i < n" by simp
    then have "(i \<le> x \<and> (x - i) mod n = 0) \<longleftrightarrow> i = x mod n" by (rule residue_class)
    then show "mset (filter (\<lambda>j. i \<le> j \<and> (j - i) mod n = 0) (x # xs))
      = (if i = x mod n then {#x#} else {#}) + mset (filter (\<lambda>j. i \<le> j \<and> (j - i) mod n = 0) xs)" by (simp only: filter.simps) simp
  qed
  also have "\<dots> = add_mset x (mset xs)" using assms Cons by (simp add: sum.distrib)
  finally show ?case by simp
qed simp

lemma mset_concat_map: "mset (concat (map f [0..<n])) = (\<Sum>i<n. mset (f i))"
  by (induction n) (simp_all add: add.commute)

lemma image_mset_lessThan_sum: "image_mset h (\<Sum>i<n. f i) = (\<Sum>i<n. image_mset h (f i))" for n :: nat
  by (induction n) simp_all

lemma split_layers_mset:
  assumes "0 < g"
  shows "mset (concat (split_layers g layers)) = mset layers"
proof (cases "layers = []")
  case False
  define n where "n = nat (cdiv (int (length layers)) g)"
  have "0 < cdiv (int (length layers)) g" using cdiv_le_iff [OF assms, of "int (length layers)" 0] False by auto
  then have n: "0 < n" by (simp add: n_def)
  have "mset (concat (split_layers g layers)) = (\<Sum>i<n. image_mset ((!) layers) (mset (filter (\<lambda>j. i \<le> j \<and> (j - i) mod n = 0) [0..<length layers])))"
    by (simp add: split_layers_def Let_def mset_concat_map slice_step_def flip: n_def)
  also have "\<dots> = image_mset ((!) layers) (mset [0..<length layers])"
    using mset_filter_classes [OF n, of "[0..<length layers]"] by (simp flip: image_mset_lessThan_sum)
  also have "\<dots> = mset layers" by (metis map_nth mset_map)
  finally show ?thesis .
qed (simp add: split_layers_def cdiv_def)

lemma same_type_fold:
  "mset (concat (map snd (fold (\<lambda>x d. AList.update (snd x) (dict_get d (snd x) [] @ [fst x]) d) specs d))) = mset (concat (map snd d)) + mset (map fst specs)"
  if "distinct (map fst d)"
  using that
proof (induction specs arbitrary: d)
  case (Cons x specs)
  have "mset (concat (map snd (AList.update k (dict_get d k [] @ [v]) d))) = add_mset v (mset (concat (map snd d)))" if "distinct (map fst d)" for k v and d :: "('a \<times> 'b list) list"
    using that by (induction d) (auto simp: dict_get_def)
  then show ?case using Cons.IH [of "AList.update (snd x) (dict_get d (snd x) [] @ [fst x]) d"] Cons.prems by simp
qed simp

lemma same_type_layers_mset: "mset (concat (map snd (same_type_layers specs))) = mset (map fst specs)"
  using same_type_fold [of "[]" specs] by (simp add: same_type_layers_def)

lemma same_type_layers_nonempty:
  "list_all (\<lambda>x. snd x \<noteq> []) d \<Longrightarrow> list_all (\<lambda>x. snd x \<noteq> []) (fold (\<lambda>x d. AList.update (snd x) (dict_get d (snd x) [] @ [fst x]) d) specs d)"
proof (induction specs arbitrary: d)
  case (Cons x specs)
  have "list_all (\<lambda>x. snd x \<noteq> []) (AList.update k (v @ [w]) d)" if "list_all (\<lambda>x. snd x \<noteq> []) d" for k v w and d :: "('a \<times> 'b list) list"
    using that by (induction d) auto
  then show ?case using Cons by simp
qed simp

lemma group_size_pos:
  assumes "lens \<noteq> []" "list_all (\<lambda>n. 0 < n) lens"
  shows "0 < group_size_of lens"
proof -
  have "0 < Min (set lens)" "0 < Max (set lens)" using assms by (auto simp: list_all_iff Max_gr_iff neq_Nil_conv)
  then show ?thesis by (simp add: group_size_of_def Let_def)
qed

lemma page_size_groups_names:
  assumes "get_kv_cache_groups_uniform_page_size specs = Inr groups"
  shows "mset (group_names groups) = mset (map fst specs)"
proof -
  define ls where "ls = map snd (same_type_layers specs)"
  define g where "g = group_size_of (map (\<lambda>l. int (length l)) ls)"
  have ne: "specs \<noteq> []" and names: "map kg_layer_names groups = concat (map (split_layers g) ls)"
    using assms create_groups_names by (auto simp: get_kv_cache_groups_uniform_page_size_def Let_def ls_def g_def split: if_split_asm)
  have "ls \<noteq> []" using same_type_layers_mset [of specs] ne by (auto simp: ls_def)
  moreover have "list_all (\<lambda>l. l \<noteq> []) ls"
    using same_type_layers_nonempty [of "[]" specs] by (simp add: ls_def same_type_layers_def list_all_iff)
  ultimately have g: "0 < g" unfolding g_def by (intro group_size_pos) (auto simp: list_all_iff)
  have "mset (concat (concat (map (split_layers g) xs))) = mset (concat xs)" for xs
    by (induction xs) (simp_all add: split_layers_mset [OF g])
  then have "mset (group_names groups) = mset (concat ls)" using names by (simp add: group_names_def)
  then show ?thesis using same_type_layers_mset [of specs] by (simp add: ls_def)
qed

lemma mapR_fst:
  assumes "mapR f xs = Inr ys" "\<And>x y. f x = Inr y \<Longrightarrow> fst y = fst x"
  shows "map fst ys = map fst xs"
  using assms(1) unfolding mapR_eq_Inr by (induction rule: list_all2_induct) (simp_all add: assms(2))

lemma unify_page_size_names: "unify_kv_cache_spec_page_size ds specs = Inr specs' \<Longrightarrow> map fst specs' = map fst specs"
  by (auto simp: unify_kv_cache_spec_page_size_def bindR_eq_Inr split: if_split_asm)
    (erule mapR_fst, auto simp: unify_layer_def Let_def bindR_eq_Inr split: if_split_asm)

lemma unify_hybrid_names: "unify_hybrid_kv_cache_specs specs = Inr specs' \<Longrightarrow> map fst specs' = map fst specs"
  by (auto simp: unify_hybrid_kv_cache_specs_def Let_def bindR_eq_Inr comp_def split: if_split_asm)

text \<open>Every layer of the model is in exactly one group.\<close>

lemma kv_cache_groups_names:
  assumes "get_kv_cache_groups ds cfg specs = Inr groups"
  shows "mset (group_names groups) = mset (map fst specs)"
proof -
  obtain specs' where h: "(if vc_disable_hybrid cfg then unify_hybrid_kv_cache_specs specs else Inr specs) = Inr specs'"
    and g: "(if specs' = [] then Inr []
      else bindR (is_kv_cache_spec_uniform specs') (\<lambda>u.
              if u then get_kv_cache_groups_uniform_spec specs'
              else bindR (from_specs specs') (\<lambda>t.
                     case t of
                       Some spec \<Rightarrow> Inr (get_kv_cache_groups_uniform_type specs' spec)
                     | None \<Rightarrow> bindR (unify_kv_cache_spec_page_size ds specs') get_kv_cache_groups_uniform_page_size))) = Inr groups"
    using assms unfolding get_kv_cache_groups_def by (subst (asm) bindR_eq_Inr) blast
  have s: "map fst specs' = map fst specs" using h unify_hybrid_names by (auto split: if_split_asm)
  have "mset (group_names groups) = mset (map fst specs')"
  proof (cases "specs' = []")
    case True
    then show ?thesis using g by (simp add: group_names_def)
  next
    case ne: False
    then obtain u where u: "is_kv_cache_spec_uniform specs' = Inr u" using g by (cases "is_kv_cache_spec_uniform specs'") simp_all
    show ?thesis
    proof (cases u)
      case True
      then have "map kg_layer_names groups = [map fst specs']"
        using g ne u create_groups_names by (simp add: get_kv_cache_groups_uniform_spec_def)
      then show ?thesis by (simp add: group_names_def)
    next
      case False
      then obtain t where t: "from_specs specs' = Inr t" using g ne u by (cases "from_specs specs'") simp_all
      show ?thesis
      proof (cases t)
        case (Some spec)
        then show ?thesis using g ne u False t by (auto simp: group_names_def get_kv_cache_groups_uniform_type_def)
      next
        case None
        then obtain d where "unify_kv_cache_spec_page_size ds specs' = Inr d" "get_kv_cache_groups_uniform_page_size d = Inr groups"
          using g ne u False t by (cases "unify_kv_cache_spec_page_size ds specs'") simp_all
        then show ?thesis using page_size_groups_names unify_page_size_names by metis
      qed
    qed
  qed
  then show ?thesis using s by simp
qed

subsection \<open>The layout of a worker\<close>

lemma sum_shared:
  "(\<Sum>i<n. mset (if i < length xs then [xs ! i] else [])) = mset (take n xs)"
  by (induction n) (simp_all add: take_Suc_conv_app_nth)

lemma shared_by_mset:
  "\<forall>g \<in> set groups. length (kg_layer_names g) \<le> n \<Longrightarrow> mset (concat (map (shared_by groups) [0..<n])) = mset (group_names groups)"
proof (induction groups)
  case Nil
  then show ?case by (simp add: mset_concat_map shared_by_def group_names_def)
next
  case (Cons g groups)
  have "shared_by (g # groups) i = (if i < length (kg_layer_names g) then [kg_layer_names g ! i] else []) @ shared_by groups i" for i
    by (simp add: shared_by_def)
  then have "mset (concat (map (shared_by (g # groups)) [0..<n]))
      = (\<Sum>i<n. mset (if i < length (kg_layer_names g) then [kg_layer_names g ! i] else [])) + mset (concat (map (shared_by groups) [0..<n]))"
    by (simp add: mset_concat_map sum.distrib)
  then show ?case using Cons by (simp add: sum_shared group_names_def)
qed

text \<open>
  What a layout is: every layer has one tensor, each tensor holds the same number of whole pages, and together they take no
  more than the memory that is given.
\<close>

definition tensor_names :: "cache_layout \<Rightarrow> string list" where
  "tensor_names l = concat (map kt_shared_by (cl_tensors l))"

definition layout_pages :: "cache_layout \<Rightarrow> int list \<Rightarrow> bool" where
  "layout_pages l ps \<longleftrightarrow> map kt_size (cl_tensors l) = map (\<lambda>p. p * cl_num_blocks l) ps \<and> list_all (\<lambda>p. 0 < p) ps"

lemma page_div: "0 \<le> a \<Longrightarrow> 0 < p \<Longrightarrow> 0 < g \<Longrightarrow> g * (p * max (a div p div g) 0) \<le> a" for a p g :: int
proof -
  assume a: "0 \<le> a" "0 < p" "0 < g"
  then have "max (a div p div g) 0 = a div (p * g)" by (simp add: zdiv_zmult2_eq pos_imp_zdiv_nonneg_iff)
  moreover have "a div (p * g) * (p * g) \<le> a" using a by (metis div_mult_mod_eq le_add_same_cancel1 mult_pos_pos pos_mod_sign)
  ultimately show ?thesis by (simp add: mult.commute mult.left_commute)
qed

definition layout_of :: "vllm_cfg \<Rightarrow> kv_group list \<Rightarrow> int \<Rightarrow> cache_layout \<Rightarrow> bool" where
  "layout_of cfg groups available l \<longleftrightarrow> cl_groups l = groups \<and> mset (tensor_names l) = mset (group_names groups)
     \<and> (\<exists>ps. layout_pages l ps \<and> (vc_num_gpu_blocks_override cfg = None \<longrightarrow> 0 \<le> cl_num_blocks l \<and> sum_list ps * cl_num_blocks l \<le> max 0 available))"

lemma uniform_type_tensors:
  assumes "mapR (uniform_type_tensor ds d n) (map fst d) = Inr ts" "distinct (map fst d)"
    "mapR (\<lambda>x. page_size_bytes ds (snd x)) d = Inr ps"
  shows "map kt_size ts = map (\<lambda>q. q * n) ps" "map kt_shared_by ts = map (\<lambda>x. [fst x]) d"
proof -
  have ts: "list_all2 (\<lambda>x t. uniform_type_tensor ds d n (fst x) = Inr t) d ts" and ps: "list_all2 (\<lambda>x q. page_size_bytes ds (snd x) = Inr q) d ps"
    using assms(1,3) by (simp_all add: mapR_eq_Inr list_all2_map1)
  have len: "length ts = length d" "length ps = length d" using ts ps by (auto dest: list_all2_lengthD)
  have "ts ! i = \<lparr>kt_size = ps ! i * n, kt_shared_by = [fst (d ! i)]\<rparr>" if "i < length d" for i
  proof -
    have "map_of d (fst (d ! i)) = Some (snd (d ! i))" using assms(2) that by (metis map_of_is_SomeI nth_mem prod.collapse)
    then show ?thesis using list_all2_nthD [OF ts that] list_all2_nthD [OF ps that] by (auto simp: uniform_type_tensor_def spec_lookup_def)
  qed
  then show "map kt_size ts = map (\<lambda>q. q * n) ps" "map kt_shared_by ts = map (\<lambda>x. [fst x]) d"
    using len by (auto intro!: nth_equalityI)
qed

lemma uniform_type_layout:
  assumes "get_kv_cache_config_from_groups ds cfg [g] available = Inr l" "kg_spec g = Many b d" "list_all (\<lambda>x. spec_ok ds (snd x)) d" "0 \<le> available"
    "kg_layer_names g = [] \<or> kg_layer_names g = map fst d \<and> distinct (map fst d)"
  shows "layout_of cfg [g] available l"
proof -
  obtain ps n0 ts where p: "mapR (\<lambda>x. page_size_bytes ds (snd x)) d = Inr ps" "floordivR available (sum_list ps) = Inr n0"
    "mapR (uniform_type_tensor ds d (may_override_num_blocks cfg n0)) (kg_layer_names g) = Inr ts"
    "l = \<lparr>cl_num_blocks = may_override_num_blocks cfg n0, cl_tensors = ts, cl_groups = [g]\<rparr>"
    using assms(1,2) by (auto simp: get_kv_cache_config_from_groups_def bindR_eq_Inr Let_def)
  let ?n = "may_override_num_blocks cfg n0"
  have pos: "list_all (\<lambda>q. 0 < q) ps"
    using p(1) assms(3) by (auto simp: mapR_eq_Inr list_all2_conv_all_nth list_all_length spec_ok_def)
  have n: "0 \<le> ?n \<and> sum_list ps * ?n \<le> available" if "vc_num_gpu_blocks_override cfg = None"
  proof -
    have "sum_list ps \<noteq> 0" "?n = available div sum_list ps"
      using p(2) that by (auto simp: floordivR_def may_override_num_blocks_def split: if_split_asm)
    moreover have "0 \<le> sum_list ps" using pos by (intro sum_list_nonneg) (auto simp: list_all_iff)
    moreover have "0 \<le> available div sum_list ps" using assms(4) calculation by (simp add: pos_imp_zdiv_nonneg_iff)
    ultimately show ?thesis using assms(4) page_div [of available "sum_list ps" 1] by (simp add: max_absorb1)
  qed
  show ?thesis
  proof (cases "kg_layer_names g = []")
    case True
    then show ?thesis using p(3,4) n by (auto simp: layout_of_def tensor_names_def layout_pages_def group_names_def)
  next
    case False
    then have d: "kg_layer_names g = map fst d" "distinct (map fst d)" using assms(5) by auto
    note ts = uniform_type_tensors [OF p(3) [unfolded d(1)] d(2) p(1)]
    have "concat (map (\<lambda>x. [fst x]) d) = map fst d" by (induction d) simp_all
    then show ?thesis using p(4) ts pos d(1) n
      by (auto simp: layout_of_def tensor_names_def layout_pages_def group_names_def intro!: exI [of _ ps])
  qed
qed

lemma shared_layout:
  assumes "get_kv_cache_config_from_groups ds cfg groups available = Inr l" "list_all (\<lambda>g. group_ok ds (kg_spec g)) groups"
    "\<not> list_ex (\<lambda>g. is_many (kg_spec g)) groups" "groups \<noteq> [] \<Longrightarrow> 0 \<le> available"
  shows "layout_of cfg groups available l"
proof (cases groups)
  case Nil
  then show ?thesis using assms(1)
    by (auto simp: get_kv_cache_config_from_groups_def layout_of_def tensor_names_def group_names_def layout_pages_def)
next
  case (Cons g gs)
  obtain s where s: "kg_spec g = One s" using assms(3) Cons by (cases "kg_spec g") auto
  let ?g = "layers_per_group groups"
  obtain p n where p: "get_uniform_page_size ds groups = Inr p" "0 < ?g" "get_num_blocks cfg ?g available p = Inr n"
    "l = \<lparr>cl_num_blocks = n, cl_tensors = map (\<lambda>i. \<lparr>kt_size = p * n, kt_shared_by = shared_by groups i\<rparr>) [0..<nat ?g], cl_groups = groups\<rparr>"
    using assms(1) Cons s by (cases gs) (auto simp: get_kv_cache_config_from_groups_def bindR_eq_Inr Let_def assertR_def split: if_split_asm)
  have "0 < p" using uniform_page_size [OF p(1), of g] Cons s assms(2) by (simp add: spec_ok_def)
  have "0 \<le> n \<and> ?g * p * n \<le> available" if "vc_num_gpu_blocks_override cfg = None"
    using p(2,3) \<open>0 < p\<close> that assms(4) Cons page_div [of available p ?g]
    by (auto simp: get_num_blocks_def floordivR_def may_override_num_blocks_def mult.assoc)
  moreover have "\<forall>g \<in> set groups. length (kg_layer_names g) \<le> nat ?g" using layers_per_group_ge p(2) by (fastforce simp: nat_le_iff)
  moreover have "layout_pages l (replicate (nat ?g) p)"
    using p(4) \<open>0 < p\<close> by (auto simp: layout_pages_def list_all_iff intro!: nth_equalityI)
  ultimately show ?thesis using p(2,4) shared_by_mset [of groups "nat ?g"]
    by (auto simp: layout_of_def tensor_names_def comp_def sum_list_replicate intro!: exI [of _ "replicate (nat ?g) p"])
qed

subsection \<open>Good specs stay good\<close>

lemma full_merge_first:
  assumes "full_merge specs = Inr (a, f)" "specs \<noteq> []"
  shows "\<exists>f'. full_of (hd specs) = Some (a, f') \<and> fu_head_size_v f' = fu_head_size_v f"
proof -
  obtain fs where fs: "those (map full_of specs) = Some fs" using assms(1) by (auto simp: full_merge_def split: option.split_asm)
  obtain s ss where s: "specs = s # ss" using assms(2) by (cases specs) simp_all
  obtain x where x: "full_of s = Some x" "hd fs = x" using fs s by (auto split: option.split_asm)
  have "a = fst x" "fu_head_size_v f = fu_head_size_v (snd x)"
    using assms(1) fs x(2) by (auto simp: full_merge_def bindR_eq_Inr)
  then show ?thesis using x(1) s by (cases x) auto
qed

lemma spec_ok_cong: "layer_block_size s = layer_block_size t \<Longrightarrow> page_size_bytes ds s = page_size_bytes ds t \<Longrightarrow> spec_ok ds s = spec_ok ds t"
  by (simp add: spec_ok_def)

lemma merge_specs_ok:
  assumes "merge_specs specs = Inr m" "list_all (spec_ok ds) specs"
  shows "spec_ok ds m"
proof (cases specs)
  case (Cons s ss)
  have ok: "spec_ok ds s" using assms(2) Cons by simp
  have "spec_ok ds m \<longleftrightarrow> spec_ok ds s"
  proof (cases s)
    case (Full_Attention a f)
    then obtain a' f' where m: "m = Full_Attention a' f'" "full_merge specs = Inr (a', f')"
      using assms(1) Cons by (auto simp: merge_specs_def bindR_eq_Inr)
    then show ?thesis using full_merge_first [OF m(2)] Cons Full_Attention by (intro spec_ok_cong) (auto simp: full_real_page_def)
  next
    case (Sink_Full_Attention a f k)
    then obtain a' f' where m: "m = Sink_Full_Attention a' f' k" "full_merge specs = Inr (a', f')"
      using assms(1) Cons by (auto simp: merge_specs_def bindR_eq_Inr)
    then show ?thesis using full_merge_first [OF m(2)] Cons Sink_Full_Attention by (intro spec_ok_cong) (auto simp: full_real_page_def)
  next
    case (MLA_Attention a f c)
    then have "mla_merge a specs = Inr m" using assms(1) Cons by (simp add: merge_specs_def)
    then obtain c' f' where c': "remdups (map mla_format specs) = [Some c']" "m = MLA_Attention a f' c'"
      by (auto simp: mla_merge_def bindR_eq_Inr split: list.split_asm option.split_asm)
    have "Some c \<in> set (remdups (map mla_format specs))" using Cons MLA_Attention by simp
    then have "m = MLA_Attention a f' c" using c' by (simp del: set_remdups)
    then show ?thesis using MLA_Attention by (auto intro!: spec_ok_cong)
  qed (use assms(1) Cons in \<open>auto simp: merge_specs_def merge_base_def bindR_eq_Inr\<close>)
  then show ?thesis using ok by simp
qed (use assms(1) in \<open>simp add: merge_specs_def\<close>)

lemma as_full_ok: "spec_ok ds (as_full s) = spec_ok ds s"
  by (cases s) (auto intro!: spec_ok_cong simp: full_real_page_def attn_real_page_def algebra_simps)

lemma block_size_with [simp]: "layer_block_size (with_block_size n s) = n"
  by (cases s) simp_all

lemma unify_layer_ok:
  assumes "unify_layer ds mp x = Inr y" "spec_ok ds (snd x)" "0 < mp"
  shows "spec_ok ds (snd y)"
proof -
  obtain p where p: "page_size_bytes ds (snd x) = Inr p" "0 < p" "0 < layer_block_size (snd x)"
    using assms(2) by (auto simp: spec_ok_def split: sum.split_asm)
  show ?thesis
  proof (cases "p = mp")
    case True
    then show ?thesis using assms p by (simp add: unify_layer_def)
  next
    case False
    then have y: "mp mod p = 0" "snd y = with_block_size (layer_block_size (snd x) * (mp div p)) (snd x)"
      "page_size_bytes ds (snd y) = Inr mp"
      using assms(1) p by (auto simp: unify_layer_def Let_def bindR_eq_Inr split: if_split_asm)
    have "0 < mp div p" using y(1) p(2) assms(3) by (metis mod_0_imp_dvd dvd_imp_le pos_imp_zdiv_pos_iff zdvd_imp_le)
    then show ?thesis using y p assms(3) by (simp add: spec_ok_def)
  qed
qed

abbreviation specs_ok :: "(string \<Rightarrow> int) \<Rightarrow> spec_dict \<Rightarrow> bool" where
  "specs_ok ds d \<equiv> list_all (\<lambda>x. spec_ok ds (snd x)) d"

lemma create_groups_ok:
  assumes "create_kv_cache_group_specs specs grouped = Inr groups" "specs_ok ds specs"
  shows "list_all (\<lambda>g. group_ok ds (kg_spec g) \<and> \<not> is_many (kg_spec g)) groups"
proof -
  have "group_ok ds (kg_spec g) \<and> \<not> is_many (kg_spec g)" if g: "create_group specs names = Inr g" for names g
  proof -
    obtain ls m where ls: "mapR (spec_lookup specs) names = Inr ls" "merge_specs ls = Inr m" "kg_spec g = One m"
      using g by (auto simp: create_group_def bindR_eq_Inr)
    have "spec_ok ds s" if "spec_lookup specs n = Inr s" for n s
      using that assms(2) by (auto simp: spec_lookup_def list_all_iff split: option.split_asm dest!: map_of_SomeD)
    then have "list_all (spec_ok ds) ls" using ls(1) unfolding mapR_eq_Inr by (auto simp: list_all2_conv_all_nth list_all_length)
    then show ?thesis using merge_specs_ok ls by simp
  qed
  then show ?thesis using assms(1) unfolding create_kv_cache_group_specs_def mapR_eq_Inr
    by (auto simp: list_all2_conv_all_nth list_all_length)
qed

lemma unify_page_size_ok:
  assumes "unify_kv_cache_spec_page_size ds specs = Inr specs'" "specs_ok ds specs"
  shows "specs_ok ds specs'"
proof -
  obtain ps where ps: "mapR (page_size_bytes ds) (map snd specs) = Inr ps"
    "(if length (remdups ps) \<le> 1 then Inr specs else mapR (unify_layer ds (Max (set (remdups ps)))) specs) = Inr specs'"
    using assms(1) by (auto simp: unify_kv_cache_spec_page_size_def distinct_page_sizes_def bindR_eq_Inr)
  have pos: "list_all (\<lambda>q. 0 < q) ps"
    using ps(1) assms(2) by (auto simp: mapR_eq_Inr list_all2_conv_all_nth list_all_length spec_ok_def)
  show ?thesis
  proof (cases "length (remdups ps) \<le> 1")
    case False
    then have "ps \<noteq> []" by auto
    then have mx: "0 < Max (set ps)" using pos by (auto simp: list_all_iff)
    have "mapR (unify_layer ds (Max (set ps))) specs = Inr specs'" using ps(2) False by simp
    then show ?thesis by (rule mapR_list_all [OF _ assms(2)]) (rule unify_layer_ok [OF _ _ mx])
  qed (use ps(2) assms(2) in simp)
qed

lemma unify_hybrid_ok: "unify_hybrid_kv_cache_specs specs = Inr specs' \<Longrightarrow> specs_ok ds specs \<Longrightarrow> specs_ok ds specs'"
  by (auto simp: unify_hybrid_kv_cache_specs_def Let_def bindR_eq_Inr list.pred_map comp_def as_full_ok split: if_split_asm)

text \<open>The groups that \<open>get_kv_cache_groups\<close> makes are in order.\<close>

definition groups_named :: "kv_group list \<Rightarrow> bool" where
  "groups_named groups \<longleftrightarrow> (\<forall>g \<in> set groups. \<forall>b d. kg_spec g = Many b d \<longrightarrow> kg_layer_names g = [] \<or> kg_layer_names g = map fst d \<and> distinct (map fst d))"

lemma one_groups_ok:
  "list_all (\<lambda>g. group_ok ds (kg_spec g) \<and> \<not> is_many (kg_spec g)) groups \<Longrightarrow> groups_ok ds groups \<and> groups_named groups"
  by (auto simp: groups_ok_def groups_named_def list_all_iff list_ex_iff)

lemma kv_cache_groups_ok:
  assumes "get_kv_cache_groups ds cfg specs = Inr groups" "specs_ok ds specs" "distinct (map fst specs)"
  shows "groups_ok ds groups \<and> groups_named groups"
proof -
  obtain specs' where h: "(if vc_disable_hybrid cfg then unify_hybrid_kv_cache_specs specs else Inr specs) = Inr specs'"
    and g: "(if specs' = [] then Inr []
      else bindR (is_kv_cache_spec_uniform specs') (\<lambda>u.
              if u then get_kv_cache_groups_uniform_spec specs'
              else bindR (from_specs specs') (\<lambda>t.
                     case t of
                       Some spec \<Rightarrow> Inr (get_kv_cache_groups_uniform_type specs' spec)
                     | None \<Rightarrow> bindR (unify_kv_cache_spec_page_size ds specs') get_kv_cache_groups_uniform_page_size))) = Inr groups"
    using assms(1) unfolding get_kv_cache_groups_def by (subst (asm) bindR_eq_Inr) blast
  have s: "map fst specs' = map fst specs" "specs_ok ds specs'"
    using h unify_hybrid_names unify_hybrid_ok assms(2) by (auto split: if_split_asm)
  have page: "groups_ok ds groups \<and> groups_named groups" if d: "specs_ok ds d" "get_kv_cache_groups_uniform_page_size d = Inr groups" for d
  proof -
    obtain grouped where "create_kv_cache_group_specs d grouped = Inr groups"
      using d(2) by (auto simp: get_kv_cache_groups_uniform_page_size_def Let_def split: if_split_asm)
    then show ?thesis by (rule one_groups_ok [OF create_groups_ok [OF _ d(1)]])
  qed
  show ?thesis
  proof (cases "specs' = []")
    case True
    then show ?thesis using g by (simp add: groups_ok_def groups_named_def)
  next
    case ne: False
    then obtain u where u: "is_kv_cache_spec_uniform specs' = Inr u" using g by (cases "is_kv_cache_spec_uniform specs'") simp_all
    show ?thesis
    proof (cases u)
      case True
      then have "create_kv_cache_group_specs specs' [map fst specs'] = Inr groups"
        using g ne u by (simp add: get_kv_cache_groups_uniform_spec_def)
      then show ?thesis by (rule one_groups_ok [OF create_groups_ok [OF _ s(2)]])
    next
      case False
      then obtain t where t: "from_specs specs' = Inr t" using g ne u by (cases "from_specs specs'") simp_all
      show ?thesis
      proof (cases t)
        case (Some spec)
        have "groups = get_kv_cache_groups_uniform_type specs' spec" using g ne u False t Some by simp
        moreover have "\<exists>b. spec = Many b specs'" using t Some by (auto simp: from_specs_def bindR_eq_Inr split: if_split_asm)
        moreover have "distinct (map fst specs')" using s(1) assms(3) by simp
        ultimately show ?thesis using s by (auto simp: get_kv_cache_groups_uniform_type_def groups_ok_def groups_named_def)
      next
        case None
        then obtain d where "unify_kv_cache_spec_page_size ds specs' = Inr d" "get_kv_cache_groups_uniform_page_size d = Inr groups"
          using g ne u False t by (cases "unify_kv_cache_spec_page_size ds specs'") simp_all
        then show ?thesis using page unify_page_size_ok s(2) by metis
      qed
    qed
  qed
qed

subsection \<open>All workers agree\<close>

lemma merge_layers_spec:
  "foldR merge_layer xs d = Inr d' \<Longrightarrow> distinct (map fst d) \<Longrightarrow>
   distinct (map fst d') \<and> fst ` set d' = fst ` set d \<union> fst ` set xs \<and> (specs_ok ds d \<longrightarrow> specs_ok ds xs \<longrightarrow> specs_ok ds d')"
proof (induction xs arbitrary: d)
  case (Cons x xs)
  obtain d1 where d1: "merge_layer x d = Inr d1" "foldR merge_layer xs d1 = Inr d'" using Cons.prems(1) by (auto simp: bindR_eq_Inr)
  have "distinct (map fst d1) \<and> fst ` set d1 = insert (fst x) (fst ` set d) \<and> (specs_ok ds d \<longrightarrow> spec_ok ds (snd x) \<longrightarrow> specs_ok ds d1)"
  proof (cases "map_of d (fst x)")
    case None
    then have "d1 = d @ [x]" using d1(1) by (simp add: merge_layer_def)
    moreover have "fst x \<notin> fst ` set d" using None by (simp add: map_of_eq_None_iff)
    ultimately show ?thesis using Cons.prems(2) by simp
  next
    case (Some s)
    then have "d1 = d" "fst x \<in> fst ` set d" using d1(1) by (auto simp: merge_layer_def bindR_eq_Inr map_of_eq_Some_iff dest: map_of_SomeD)
    then show ?thesis using Cons.prems(2) by (simp add: insert_absorb)
  qed
  then show ?case using Cons.IH [OF d1(2)] by auto
qed simp

lemma merge_workers_spec:
  assumes "merge_workers workers = Inr merged" "list_all (specs_ok ds) workers"
  shows "distinct (map fst merged)" "specs_ok ds merged" "w \<in> set workers \<Longrightarrow> fst ` set w \<subseteq> fst ` set merged"
proof -
  have "specs_ok ds (concat workers)" using assms(2) by (auto simp: list_all_iff)
  then show "distinct (map fst merged)" "specs_ok ds merged" "w \<in> set workers \<Longrightarrow> fst ` set w \<subseteq> fst ` set merged"
    using merge_layers_spec [of "concat workers" "[]" merged ds] assms(1) by (auto simp: merge_workers_def)
qed

lemma project_group_spec:
  assumes "project_group w g = Inr g'" "group_ok ds (kg_spec g)" "distinct (kg_layer_names g)"
  shows "kg_layer_names g' = filter (\<lambda>n. n \<in> fst ` set w) (kg_layer_names g) \<and> group_ok ds (kg_spec g')
    \<and> is_many (kg_spec g') = is_many (kg_spec g) \<and> groups_named [g']"
proof (cases "kg_spec g")
  case (One s)
  then show ?thesis using assms by (auto simp: project_group_def Let_def groups_named_def)
next
  case (Many b d)
  let ?names = "filter (\<lambda>n. n \<in> fst ` set w) (kg_layer_names g)"
  show ?thesis
  proof (cases "?names = []")
    case True
    then have "g' = \<lparr>kg_layer_names = ?names, kg_spec = Many b d\<rparr>" using assms(1) Many by (simp add: project_group_def Let_def)
    then show ?thesis using True Many assms(2) by (simp add: groups_named_def)
  next
    case False
    then obtain d' where d': "mapR (\<lambda>n. bindR (spec_lookup d n) (\<lambda>s. Inr (n, s))) ?names = Inr d'" "g' = \<lparr>kg_layer_names = ?names, kg_spec = Many b d'\<rparr>"
      using assms(1) Many by (auto simp: project_group_def Let_def bindR_eq_Inr)
    have "list_all2 (\<lambda>n x. fst x = n \<and> map_of d n = Some (snd x)) ?names d'"
      using d'(1) unfolding mapR_eq_Inr by (rule list_all2_mono) (auto simp: bindR_eq_Inr spec_lookup_def split: option.split_asm)
    then have "map fst d' = ?names" "\<forall>x \<in> set d'. \<exists>n. map_of d n = Some (snd x)"
      by (induction rule: list_all2_induct) auto
    moreover have "specs_ok ds d'"
      using calculation(2) assms(2) Many unfolding list_all_iff by (metis group_ok.simps(2) list_all_iff map_of_SomeD snd_conv)
    ultimately show ?thesis using d'(2) Many assms(3) by (auto simp: groups_named_def)
  qed
qed

lemma project_groups_spec:
  assumes "project_groups_to_worker groups w = Inr pg" "groups_ok ds groups" "distinct (group_names groups)"
  shows "group_names pg = filter (\<lambda>n. n \<in> fst ` set w) (group_names groups) \<and> groups_ok ds pg \<and> groups_named pg"
proof -
  have "list_all2 (\<lambda>g g'. kg_layer_names g' = filter (\<lambda>n. n \<in> fst ` set w) (kg_layer_names g) \<and> group_ok ds (kg_spec g')
    \<and> is_many (kg_spec g') = is_many (kg_spec g) \<and> groups_named [g']) groups pg"
    using assms(1) unfolding project_groups_to_worker_def mapR_eq_Inr
  proof (rule list.rel_mono_strong)
    fix g g' assume "g \<in> set groups" "project_group w g = Inr g'"
    then show "kg_layer_names g' = filter (\<lambda>n. n \<in> fst ` set w) (kg_layer_names g) \<and> group_ok ds (kg_spec g')
      \<and> is_many (kg_spec g') = is_many (kg_spec g) \<and> groups_named [g']"
      using assms(2,3) by (intro project_group_spec) (auto simp: groups_ok_def list_all_iff group_names_def distinct_concat_iff)
  qed
  then have "group_names pg = filter (\<lambda>n. n \<in> fst ` set w) (group_names groups) \<and> length pg = length groups
    \<and> list_all (\<lambda>g. group_ok ds (kg_spec g)) pg \<and> list_ex (\<lambda>g. is_many (kg_spec g)) pg = list_ex (\<lambda>g. is_many (kg_spec g)) groups \<and> groups_named pg"
    by (induction rule: list_all2_induct) (auto simp: group_names_def groups_named_def)
  then show ?thesis using assms(2) by (auto simp: groups_ok_def)
qed

lemma layout_for_groups:
  assumes "get_kv_cache_config_from_groups ds cfg groups available = Inr l" "groups_ok ds groups" "groups_named groups"
    "groups \<noteq> [] \<Longrightarrow> 0 \<le> available"
  shows "layout_of cfg groups available l"
proof (cases "list_ex (\<lambda>g. is_many (kg_spec g)) groups")
  case True
  then obtain g where g: "groups = [g]" using assms(2) by (auto simp: groups_ok_def length_Suc_conv)
  then obtain b d where "kg_spec g = Many b d" using True by (cases "kg_spec g") auto
  then show ?thesis using assms g by (auto simp: groups_ok_def groups_named_def intro!: uniform_type_layout)
next
  case False
  then show ?thesis using assms by (intro shared_layout) (auto simp: groups_ok_def)
qed

subsection \<open>Tensors have the page size of their layers\<close>

text \<open>
  The page size of a layer is the one of the spec its group gives it, by which the worker views the tensor. A layout is
  sized for its layers when every tensor has that page, times the number of blocks, for each layer that shares it.
\<close>

definition layer_page :: "(string \<Rightarrow> int) \<Rightarrow> kv_group list \<Rightarrow> string \<Rightarrow> int \<Rightarrow> bool" where
  "layer_page ds groups n p \<longleftrightarrow> (\<exists>g \<in> set groups. n \<in> set (kg_layer_names g)
     \<and> (case kg_spec g of
          One s \<Rightarrow> page_size_bytes ds s = Inr p
        | Many _ d \<Rightarrow> \<exists>s. map_of d n = Some s \<and> page_size_bytes ds s = Inr p))"

definition sized_for_layers :: "(string \<Rightarrow> int) \<Rightarrow> cache_layout \<Rightarrow> bool" where
  "sized_for_layers ds l \<longleftrightarrow> (\<forall>t \<in> set (cl_tensors l). \<forall>n \<in> set (kt_shared_by t).
     \<exists>p. layer_page ds (cl_groups l) n p \<and> kt_size t = p * cl_num_blocks l)"

lemma mapR_source: "mapR f xs = Inr ys \<Longrightarrow> y \<in> set ys \<Longrightarrow> \<exists>x \<in> set xs. f x = Inr y"
  unfolding mapR_eq_Inr by (induction rule: list_all2_induct) auto

lemma uniform_type_sized:
  assumes "get_kv_cache_config_from_groups ds cfg [g] available = Inr l" "kg_spec g = Many b d"
  shows "sized_for_layers ds l"
proof -
  obtain n ts where l: "mapR (uniform_type_tensor ds d n) (kg_layer_names g) = Inr ts"
    "l = \<lparr>cl_num_blocks = n, cl_tensors = ts, cl_groups = [g]\<rparr>"
    using assms by (auto simp: get_kv_cache_config_from_groups_def bindR_eq_Inr Let_def)
  have "\<exists>p. layer_page ds [g] x p \<and> kt_size t = p * n" if "t \<in> set ts" "x \<in> set (kt_shared_by t)" for t x
  proof -
    obtain y where "y \<in> set (kg_layer_names g)" "uniform_type_tensor ds d n y = Inr t"
      using mapR_source [OF l(1)] \<open>t \<in> set ts\<close> by blast
    then show ?thesis
      using that(2) assms(2) by (auto simp: uniform_type_tensor_def bindR_eq_Inr layer_page_def spec_lookup_def split: option.split_asm)
  qed
  then show ?thesis by (simp add: l(2) sized_for_layers_def)
qed

lemma shared_sized:
  assumes "get_kv_cache_config_from_groups ds cfg groups available = Inr l" "\<not> list_ex (\<lambda>g. is_many (kg_spec g)) groups"
  shows "sized_for_layers ds l"
proof (cases groups)
  case Nil
  then show ?thesis using assms(1) by (auto simp: get_kv_cache_config_from_groups_def sized_for_layers_def)
next
  case (Cons g gs)
  obtain s where s: "kg_spec g = One s" using assms(2) Cons by (cases "kg_spec g") auto
  let ?g = "layers_per_group groups"
  obtain p n where p: "get_uniform_page_size ds groups = Inr p"
    "l = \<lparr>cl_num_blocks = n, cl_tensors = map (\<lambda>i. \<lparr>kt_size = p * n, kt_shared_by = shared_by groups i\<rparr>) [0..<nat ?g], cl_groups = groups\<rparr>"
    using assms(1) Cons s by (cases gs) (auto simp: get_kv_cache_config_from_groups_def bindR_eq_Inr Let_def assertR_def split: if_split_asm)
  have "layer_page ds groups x p" if x: "x \<in> set (shared_by groups i)" for x i
  proof -
    obtain h where h: "h \<in> set groups" "x \<in> set (kg_layer_names h)" using x by (auto simp: shared_by_def split: if_split_asm)
    obtain t where "kg_spec h = One t" using h(1) assms(2) by (cases "kg_spec h") (auto simp: list_ex_iff)
    then show ?thesis using uniform_page_size [OF p(1) h(1)] h by (auto simp: layer_page_def)
  qed
  then show ?thesis by (auto simp: p(2) sized_for_layers_def)
qed

lemma layout_sized:
  assumes "get_kv_cache_config_from_groups ds cfg groups available = Inr l" "groups_ok ds groups"
  shows "sized_for_layers ds l"
proof (cases "list_ex (\<lambda>g. is_many (kg_spec g)) groups")
  case True
  then obtain g where g: "groups = [g]" using assms(2) by (auto simp: groups_ok_def length_Suc_conv)
  then obtain b d where "kg_spec g = Many b d" using True by (cases "kg_spec g") auto
  then show ?thesis using assms(1) unfolding g by (rule uniform_type_sized [rotated])
next
  case False
  then show ?thesis using assms(1) by (intro shared_sized)
qed

lemma shrink_sized:
  assumes "shrink_layout ds' cfg n l = Inr l'" "sized_for_layers ds l"
  shows "sized_for_layers ds l'"
proof -
  obtain ts where ts: "mapR (shrink_tensor (cl_num_blocks l) n) (cl_tensors l) = Inr ts" "l' = l\<lparr>cl_num_blocks := n, cl_tensors := ts\<rparr>"
    using assms(1) by (auto simp: shrink_layout_def Let_def bindR_eq_Inr)
  have "\<exists>p. layer_page ds (cl_groups l) x p \<and> kt_size t' = p * n" if t': "t' \<in> set ts" "x \<in> set (kt_shared_by t')" for t' x
  proof -
    obtain t where t: "t \<in> set (cl_tensors l)" "shrink_tensor (cl_num_blocks l) n t = Inr t'"
      using mapR_source [OF ts(1)] t'(1) by blast
    have k: "cl_num_blocks l \<noteq> 0" "t' = t\<lparr>kt_size := kt_size t div cl_num_blocks l * n\<rparr>"
      using t(2) by (auto simp: shrink_tensor_def bindR_eq_Inr split: if_split_asm)
    obtain p where "layer_page ds (cl_groups l) x p" "kt_size t = p * cl_num_blocks l"
      using assms(2) t(1) t'(2) unfolding sized_for_layers_def k(2) by auto
    then show ?thesis using k by auto
  qed
  then show ?thesis by (simp add: ts(2) sized_for_layers_def)
qed

text \<open>
  Merging full attention specs compares the fields of \<open>AttentionSpec\<close> only: layers whose values have other head sizes
  than the first are merged into its spec and get its page size.
\<close>

lemma merge_ignores_value_heads:
  assumes "fu_sliding_window f = None" "fu_attention_chunk_size f = None" "at_page_size_padded a = None"
  shows "merge_specs [Full_Attention a f, Full_Attention a (f\<lparr>fu_head_size_v := v\<rparr>)] = Inr (Full_Attention a f)"
    "page_size_bytes ds (Full_Attention a (f\<lparr>fu_head_size_v := v\<rparr>))
       = Inr (full_real_page ds a f + at_block_size a * at_num_kv_heads a * (v - fu_head_size_v f) * ds (at_dtype a))"
  using assms
  by (simp_all add: merge_specs_def full_merge_def List.map_filter_def merge_window_sizes_def padded_page_def
      full_real_page_def algebra_simps)

lemma check_workers_pos: "check_workers ds cfg ws = Inr u \<Longrightarrow> (gs, m) \<in> set ws \<Longrightarrow> gs \<noteq> [] \<Longrightarrow> 0 < m"
  by (induction ds cfg ws rule: check_workers.induct) (auto simp: bindR_eq_Inr check_enough_memory_def split: if_split_asm)

lemma shrink_layout_spec:
  assumes "shrink_layout ds cfg n l = Inr l'" "layout_pages l ps"
  shows "cl_num_blocks l' = n \<and> layout_pages l' ps \<and> tensor_names l' = tensor_names l"
proof -
  obtain ts where ts: "mapR (shrink_tensor (cl_num_blocks l) n) (cl_tensors l) = Inr ts" "l' = l\<lparr>cl_num_blocks := n, cl_tensors := ts\<rparr>"
    using assms(1) by (auto simp: shrink_layout_def Let_def bindR_eq_Inr)
  have len: "length ps = length (cl_tensors l)" using assms(2) by (auto simp: layout_pages_def dest: map_eq_imp_length_eq)
  have all: "list_all2 (\<lambda>t t'. shrink_tensor (cl_num_blocks l) n t = Inr t') (cl_tensors l) ts" using ts(1) by (simp add: mapR_eq_Inr)
  have "ts ! i = (cl_tensors l ! i)\<lparr>kt_size := ps ! i * n\<rparr>" if i: "i < length ps" for i
  proof -
    have "kt_size (cl_tensors l ! i) = ps ! i * cl_num_blocks l" using assms(2) i len by (metis layout_pages_def nth_map)
    then show ?thesis using list_all2_nthD [OF all, of i] i len by (auto simp: shrink_tensor_def bindR_eq_Inr split: if_split_asm)
  qed
  moreover have "length ts = length ps" using all len by (auto dest: list_all2_lengthD)
  ultimately have "map kt_size ts = map (\<lambda>p. p * n) ps" "map kt_shared_by ts = map kt_shared_by (cl_tensors l)"
    using len by (auto intro!: nth_equalityI)
  then show ?thesis using ts(2) assms(2) by (simp add: layout_pages_def tensor_names_def)
qed

lemma project_names:
  assumes "project_groups_to_worker groups w = Inr pg" "groups_ok ds groups" "mset (group_names groups) = mset (map fst merged)"
    "distinct (map fst merged)" "distinct (map fst w)" "fst ` set w \<subseteq> fst ` set merged"
  shows "groups_ok ds pg \<and> groups_named pg \<and> mset (group_names pg) = mset (map fst w)"
proof -
  have dist: "distinct (group_names groups)" using assms(3,4) mset_eq_imp_distinct_iff by blast
  note p = project_groups_spec [OF assms(1,2) dist]
  have "mset (group_names pg) = mset (map fst w)"
    using p dist assms(5,6) mset_eq_setD [OF assms(3)] by (intro set_eq_iff_mset_eq_distinct [THEN iffD1]) auto
  then show ?thesis using p by simp
qed

lemma shrunk_layout:
  assumes "layout_of cfg groups available l" "shrink_layout ds cfg' n l = Inr l'" "n \<le> cl_num_blocks l"
  shows "cl_num_blocks l' = n \<and> mset (tensor_names l') = mset (group_names groups)
    \<and> (\<exists>ps. map kt_size (cl_tensors l') = map (\<lambda>p. p * n) ps \<and> list_all (\<lambda>p. 0 < p) ps)
    \<and> (vc_num_gpu_blocks_override cfg = None \<longrightarrow> sum_list (map kt_size (cl_tensors l')) \<le> max 0 available)"
proof -
  obtain ps where ps: "layout_pages l ps"
    and fits: "vc_num_gpu_blocks_override cfg = None \<longrightarrow> 0 \<le> cl_num_blocks l \<and> sum_list ps * cl_num_blocks l \<le> max 0 available"
    using assms(1) [unfolded layout_of_def] by (elim conjE exE)
  note sh = shrink_layout_spec [OF assms(2) ps]
  have "0 \<le> sum_list ps" using ps by (intro sum_list_nonneg) (auto simp: layout_pages_def list_all_iff)
  then have "sum_list ps * n \<le> sum_list ps * cl_num_blocks l" using assms(3) by (intro mult_left_mono)
  moreover have "map kt_size (cl_tensors l') = map (\<lambda>p. p * n) ps \<and> list_all (\<lambda>p. 0 < p) ps" "cl_num_blocks l' = n"
    using sh unfolding layout_pages_def by simp_all
  moreover have "sum_list (map kt_size (cl_tensors l')) = sum_list ps * n" using calculation(2) by (simp add: sum_list_mult_const)
  moreover have "mset (tensor_names l') = mset (group_names groups)" using sh assms(1) by (simp add: layout_of_def)
  ultimately show ?thesis using fits by (intro conjI impI exI [of _ ps]) simp_all
qed

text \<open>
  C7: The workers get layouts that fit and agree. When a configuration is computed from the specs of all workers, with
  positive sizes, every worker has the same number of blocks; each of its layers has its place in exactly one
  tensor; for every layer that shares a tensor, the tensor's size is the page size of the layer's spec in its group
  times the number of blocks; and unless the number of blocks is overridden by the configuration,
  the tensors of a worker together take no more than its memory.
\<close>

theorem worker_layouts_wellformed:
  assumes "get_kv_cache_configs ds cfg workers mem = Inr (cfg', ls)"
    "list_all (\<lambda>w. distinct (map fst w) \<and> specs_ok ds w) workers"
  shows "length ls = min (length workers) (length mem) \<and>
    (\<exists>n. \<forall>i<length ls. cl_num_blocks (ls ! i) = n
       \<and> mset (tensor_names (ls ! i)) = mset (map fst (workers ! i))
       \<and> (\<exists>ps. map kt_size (cl_tensors (ls ! i)) = map (\<lambda>p. p * n) ps \<and> list_all (\<lambda>p. 0 < p) ps)
       \<and> (\<forall>t \<in> set (cl_tensors (ls ! i)). \<forall>x \<in> set (kt_shared_by t).
            \<exists>p. layer_page ds (cl_groups (ls ! i)) x p \<and> kt_size t = p * n)
       \<and> (vc_num_gpu_blocks_override cfg = None \<longrightarrow> sum_list (map kt_size (cl_tensors (ls ! i))) \<le> max 0 (mem ! i)))"
proof -
  obtain merged groups projected u l0 n where r: "merge_workers workers = Inr merged" "get_kv_cache_groups ds cfg merged = Inr groups"
    "mapR (project_groups_to_worker groups) workers = Inr projected"
    "(if vc_original_max_model_len cfg = - 1 then auto_fit_max_model_len ds cfg projected mem else Inr cfg) = Inr cfg'"
    "check_workers ds cfg' (zip projected mem) = Inr u" "mapR (worker_layout ds cfg') (zip projected (zip workers mem)) = Inr l0"
    "min_of (map cl_num_blocks l0) = Inr n" "mapR (shrink_layout ds cfg' n) l0 = Inr ls"
    using assms(1) unfolding get_kv_cache_configs_def by (simp only: bindR_eq_Inr sum.inject prod.inject) blast
  have over: "vc_num_gpu_blocks_override cfg' = vc_num_gpu_blocks_override cfg"
    using r(4) by (auto simp: auto_fit_max_model_len_def bindR_eq_Inr split: if_split_asm)
  have w: "list_all (specs_ok ds) workers" using assms(2) by (simp add: list_all_iff)
  note m = merge_workers_spec [OF r(1) w]
  have names: "mset (group_names groups) = mset (map fst merged)" by (rule kv_cache_groups_names [OF r(2)])
  have ok: "groups_ok ds groups" using kv_cache_groups_ok [OF r(2) m(2,1)] by simp
  have lens: "length projected = length workers" "length l0 = min (length workers) (length mem)" "length ls = length l0"
    using r(3,6,8) by (auto simp: mapR_eq_Inr dest!: list_all2_lengthD)
  have each: "cl_num_blocks (ls ! i) = n \<and> mset (tensor_names (ls ! i)) = mset (map fst (workers ! i))
       \<and> (\<exists>ps. map kt_size (cl_tensors (ls ! i)) = map (\<lambda>p. p * n) ps \<and> list_all (\<lambda>p. 0 < p) ps)
       \<and> sized_for_layers ds (ls ! i)
       \<and> (vc_num_gpu_blocks_override cfg = None \<longrightarrow> sum_list (map kt_size (cl_tensors (ls ! i))) \<le> max 0 (mem ! i))"
    if i: "i < length ls" for i
  proof -
    have il: "i < length workers" "i < length mem" "i < length l0" using i lens by auto
    have pg: "project_groups_to_worker groups (workers ! i) = Inr (projected ! i)" "worker_layout ds cfg' (projected ! i, workers ! i, mem ! i) = Inr (l0 ! i)"
      "shrink_layout ds cfg' n (l0 ! i) = Inr (ls ! i)"
      using r(3,6,8) il lens by (auto simp: mapR_eq_Inr list_all2_conv_all_nth)
    have wi: "distinct (map fst (workers ! i))" "workers ! i \<in> set workers" using assms(2) il by (auto simp: list_all_length)
    note p = project_names [OF pg(1) ok names m(1) wi(1) m(3) [OF wi(2)]]
    have "(projected ! i, mem ! i) \<in> set (zip projected mem)" using il lens by (metis in_set_zip fst_conv snd_conv)
    then have "0 \<le> mem ! i" if "projected ! i \<noteq> []" using check_workers_pos [OF r(5) _ that] by fastforce
    then have l: "layout_of cfg' (projected ! i) (mem ! i) (l0 ! i)"
      using pg(2) p by (intro layout_for_groups) (auto simp: worker_layout_def bindR_eq_Inr)
    have "n \<le> cl_num_blocks (l0 ! i)" using r(7) il by (auto simp: min_of_def split: if_split_asm)
    moreover have "sized_for_layers ds (ls ! i)"
      using pg(2) p by (intro shrink_sized [OF pg(3)] layout_sized) (auto simp: worker_layout_def bindR_eq_Inr)
    ultimately show ?thesis using shrunk_layout [OF l pg(3)] p unfolding over by simp
  qed
  show ?thesis
    using lens each unfolding sized_for_layers_def by (intro conjI exI [of _ n]) auto
qed

definition sample_worker :: spec_dict where
  "sample_worker = [(''a'', sample_full), (''b'', Sliding_Window sample_attn 16)]"

definition layout_numbers :: "vllm_cfg \<times> cache_layout list \<Rightarrow> (int \<times> int list \<times> string list list) list" where
  "layout_numbers x = map (\<lambda>l. (cl_num_blocks l, map kt_size (cl_tensors l), map kg_layer_names (cl_groups l))) (snd x)"

lemma sample_layout:
  "map_sum id layout_numbers (get_kv_cache_configs two_bytes sample_cfg [sample_worker, sample_worker] [1280, 1024])
     = Inr [(4, [1024], [[''a''], [''b'']]), (4, [1024], [[''a''], [''b'']])]"
  by code_simp

lemma sample_worker_ok: "distinct (map fst sample_worker) \<and> specs_ok two_bytes sample_worker"
  by code_simp

theorem worker_layouts_wellformed_witness:
  "\<exists>cfg' ls. get_kv_cache_configs two_bytes sample_cfg [sample_worker, sample_worker] [1280, 1024] = Inr (cfg', ls)
     \<and> length ls = 2 \<and> sum_list (map kt_size (cl_tensors (ls ! 0))) \<le> 1280
     \<and> mset (tensor_names (ls ! 1)) = mset (map fst sample_worker)"
proof -
  obtain cfg' ls where c: "get_kv_cache_configs two_bytes sample_cfg [sample_worker, sample_worker] [1280, 1024] = Inr (cfg', ls)"
    using sample_layout by (cases "get_kv_cache_configs two_bytes sample_cfg [sample_worker, sample_worker] [1280, 1024]") auto
  have "vc_num_gpu_blocks_override sample_cfg = None" by (simp add: sample_cfg_def)
  then show ?thesis using worker_layouts_wellformed [OF c] sample_worker_ok c by auto
qed

end
