(* ===== verification/KV_Offload.thy ===== *)
theory KV_Offload
  imports Prelude Complex_Main
begin

text \<open>
  Offloading of KV blocks to host memory (\<open>vllm/v1/kv_offload\<close>): the backend that hands out host blocks, the managers
  that evict the least recently used block or by adaptive replacement, and the decorator that stores only blocks
  seen often enough. Block hashes are only compared.
\<close>

subsection \<open>Block status and backend\<close>

text \<open>\<open>BlockStatus.ref_cnt\<close> is a 32-bit field: an assignment wraps around. The value -1 means not ready.\<close>

definition c_int32 :: "int \<Rightarrow> int" where
  "c_int32 x = (x + 2 ^ 31) mod 2 ^ 32 - 2 ^ 31"

lemma c_int32_id [simp]: "- (2 ^ 31) \<le> x \<Longrightarrow> x < 2 ^ 31 \<Longrightarrow> c_int32 x = x"
  by (simp add: c_int32_def)

record block_status =
  bs_ref_cnt :: int
  bs_block_id :: int

definition cpu_block_status :: "int \<Rightarrow> block_status" where
  "cpu_block_status i = \<lparr>bs_ref_cnt = - 1, bs_block_id = i\<rparr>"

definition bs_is_ready :: "block_status \<Rightarrow> bool" where
  "bs_is_ready b \<longleftrightarrow> bs_ref_cnt b \<ge> 0"

record cpu_backend =
  cb_block_size :: int
  cb_medium :: string
  cb_num_blocks :: int
  cb_num_allocated_blocks :: int
  cb_free_list :: "int list"

definition cpu_backend_init :: "int \<Rightarrow> int \<Rightarrow> cpu_backend" where
  "cpu_backend_init block_size num_blocks =
     \<lparr>cb_block_size = block_size, cb_medium = ''CPU'', cb_num_blocks = num_blocks, cb_num_allocated_blocks = 0, cb_free_list = []\<rparr>"

definition cb_get_num_free_blocks :: "cpu_backend \<Rightarrow> int" where
  "cb_get_num_free_blocks b = int (length (cb_free_list b)) + cb_num_blocks b - cb_num_allocated_blocks b"

text \<open>Fresh blocks first, then blocks from the end of the free list.\<close>

definition cb_allocate_blocks :: "'h list \<Rightarrow> cpu_backend \<Rightarrow> (block_status list \<times> cpu_backend) result" where
  "cb_allocate_blocks hs b =
     (let fresh = min (int (length hs)) (cb_num_blocks b - cb_num_allocated_blocks b);
          reused = int (length hs) - fresh
      in bindR (assertR (int (length (cb_free_list b)) \<ge> reused)) (\<lambda>_.
           Inr (map (\<lambda>i. cpu_block_status (cb_num_allocated_blocks b + int i)) [0..<nat fresh]
                  @ map cpu_block_status (take (nat reused) (rev (cb_free_list b))),
                b\<lparr>cb_num_allocated_blocks := cb_num_allocated_blocks b + int (nat fresh),
                  cb_free_list := take (length (cb_free_list b) - nat reused) (cb_free_list b)\<rparr>)))"

definition cb_free :: "block_status \<Rightarrow> cpu_backend \<Rightarrow> cpu_backend" where
  "cb_free s b = b\<lparr>cb_free_list := cb_free_list b @ [bs_block_id s]\<rparr>"

definition cb_get_load_store_spec :: "block_status list \<Rightarrow> int list" where
  "cb_get_load_store_spec bs = map bs_block_id bs"

record 'h offloading_event =
  oe_block_hashes :: "'h list"
  oe_block_size :: int
  oe_medium :: string
  oe_removed :: bool

record 'h prepare_store_output =
  ps_block_hashes_to_store :: "'h list"
  ps_store_spec :: "int list"
  ps_block_hashes_evicted :: "'h list"

text \<open>An event is recorded when there are hashes and events are enabled.\<close>

definition add_event :: "'h list \<Rightarrow> cpu_backend \<Rightarrow> bool \<Rightarrow> 'h offloading_event list option \<Rightarrow> 'h offloading_event list option" where
  "add_event hs b removed evs =
     (case evs of None \<Rightarrow> None
      | Some es \<Rightarrow> Some (if hs = [] then es else es @ [\<lparr>oe_block_hashes = hs, oe_block_size = cb_block_size b, oe_medium = cb_medium b, oe_removed = removed\<rparr>]))"

text \<open>Dictionaries of blocks.\<close>

type_synonym 'h blocks = "('h \<times> block_status) list"

definition move_to_end :: "'h \<Rightarrow> ('h \<times> 'v) list \<Rightarrow> ('h \<times> 'v) list" where
  "move_to_end h d = (case map_of d h of None \<Rightarrow> d | Some v \<Rightarrow> AList.delete h d @ [(h, v)])"

definition blocks_at :: "'h blocks \<Rightarrow> 'h \<Rightarrow> block_status result" where
  "blocks_at d h = (case map_of d h of None \<Rightarrow> Inl KeyError | Some b \<Rightarrow> Inr b)"

subsection \<open>Least recently used\<close>

record 'h lru_manager =
  lm_backend :: cpu_backend
  lm_blocks :: "'h blocks"
  lm_events :: "'h offloading_event list option"

definition lru_init :: "cpu_backend \<Rightarrow> bool \<Rightarrow> 'h lru_manager" where
  "lru_init b enable_events = \<lparr>lm_backend = b, lm_blocks = [], lm_events = (if enable_events then Some [] else None)\<rparr>"

primrec lru_lookup :: "'h list \<Rightarrow> 'h lru_manager \<Rightarrow> int" where
  "lru_lookup [] m = 0"
| "lru_lookup (h # hs) m =
     (case map_of (lm_blocks m) h of None \<Rightarrow> 0
      | Some b \<Rightarrow> if bs_is_ready b then 1 + lru_lookup hs m else 0)"

definition lru_load_one :: "'h \<Rightarrow> block_status list \<times> 'h lru_manager \<Rightarrow> (block_status list \<times> 'h lru_manager) result" where
  "lru_load_one h bm =
     (let m = snd bm
      in bindR (blocks_at (lm_blocks m) h) (\<lambda>b. bindR (assertR (bs_is_ready b)) (\<lambda>_.
           let b' = b\<lparr>bs_ref_cnt := c_int32 (bs_ref_cnt b + 1)\<rparr>
           in Inr (fst bm @ [b'], m\<lparr>lm_blocks := AList.update h b' (lm_blocks m)\<rparr>))))"

definition lru_prepare_load :: "'h list \<Rightarrow> 'h lru_manager \<Rightarrow> (int list \<times> 'h lru_manager) result" where
  "lru_prepare_load hs m =
     bindR (foldR lru_load_one hs ([], m)) (\<lambda>(bs, m'). Inr (cb_get_load_store_spec bs, m'))"

definition lru_touch :: "'h list \<Rightarrow> 'h lru_manager \<Rightarrow> 'h lru_manager" where
  "lru_touch hs m = fold (\<lambda>h m. m\<lparr>lm_blocks := move_to_end h (lm_blocks m)\<rparr>) (rev hs) m"

definition lru_complete_load_one :: "'h \<Rightarrow> 'h lru_manager \<Rightarrow> 'h lru_manager result" where
  "lru_complete_load_one h m =
     bindR (blocks_at (lm_blocks m) h) (\<lambda>b. bindR (assertR (bs_ref_cnt b > 0)) (\<lambda>_.
       Inr (m\<lparr>lm_blocks := AList.update h (b\<lparr>bs_ref_cnt := c_int32 (bs_ref_cnt b - 1)\<rparr>) (lm_blocks m)\<rparr>)))"

definition lru_complete_load :: "'h list \<Rightarrow> 'h lru_manager \<Rightarrow> 'h lru_manager result" where
  "lru_complete_load hs m = foldR lru_complete_load_one hs m"

text \<open>Blocks to evict: the first \<open>n\<close> that are ready, not in use and not asked for.\<close>

definition evictable :: "'h set \<Rightarrow> 'h \<times> block_status \<Rightarrow> bool" where
  "evictable protected x \<longleftrightarrow> bs_ref_cnt (snd x) = 0 \<and> fst x \<notin> protected"

fun lru_victims :: "'h set \<Rightarrow> 'h blocks \<Rightarrow> int \<Rightarrow> 'h list option" where
  "lru_victims protected [] n = None"
| "lru_victims protected (x # xs) n =
     (if evictable protected x
      then if n - 1 = 0 then Some [fst x] else map_option (Cons (fst x)) (lru_victims protected xs (n - 1))
      else lru_victims protected xs n)"

definition lru_evict :: "'h \<Rightarrow> 'h lru_manager \<Rightarrow> 'h lru_manager result" where
  "lru_evict h m =
     bindR (blocks_at (lm_blocks m) h) (\<lambda>b.
       Inr (m\<lparr>lm_blocks := AList.delete h (lm_blocks m), lm_backend := cb_free b (lm_backend m)\<rparr>))"

definition lru_prepare_store :: "'h list \<Rightarrow> 'h lru_manager \<Rightarrow> ('h prepare_store_output option \<times> 'h lru_manager) result" where
  "lru_prepare_store hs m =
     (let to_store = filter (\<lambda>h. h \<notin> dict_keys (lm_blocks m)) hs;
          n = int (length to_store) - cb_get_num_free_blocks (lm_backend m)
      in case (if n > 0 then lru_victims (set hs) (lm_blocks m) n else Some []) of
           None \<Rightarrow> Inr (None, m)
         | Some to_evict \<Rightarrow>
             bindR (foldR lru_evict to_evict m) (\<lambda>m1.
             bindR (cb_allocate_blocks to_store (lm_backend m1)) (\<lambda>(bs, b).
             bindR (assertR (length bs = length to_store)) (\<lambda>_.
               Inr (Some \<lparr>ps_block_hashes_to_store = to_store, ps_store_spec = cb_get_load_store_spec bs,
                          ps_block_hashes_evicted = to_evict\<rparr>,
                    m1\<lparr>lm_events := add_event to_evict (lm_backend m1) True (lm_events m1), lm_backend := b,
                       lm_blocks := fold (\<lambda>(h, s). AList.update h s) (zip to_store bs) (lm_blocks m1)\<rparr>)))))"

definition lru_store_done :: "'h \<Rightarrow> 'h list \<times> 'h lru_manager \<Rightarrow> ('h list \<times> 'h lru_manager) result" where
  "lru_store_done h sm =
     (let m = snd sm
      in bindR (blocks_at (lm_blocks m) h) (\<lambda>b.
           if bs_is_ready b then Inr sm
           else Inr (fst sm @ [h], m\<lparr>lm_blocks := AList.update h (b\<lparr>bs_ref_cnt := 0\<rparr>) (lm_blocks m)\<rparr>)))"

definition lru_store_failed :: "'h \<Rightarrow> 'h lru_manager \<Rightarrow> 'h lru_manager result" where
  "lru_store_failed h m =
     bindR (blocks_at (lm_blocks m) h) (\<lambda>b.
       if bs_is_ready b then Inr m
       else Inr (m\<lparr>lm_backend := cb_free b (lm_backend m), lm_blocks := AList.delete h (lm_blocks m)\<rparr>))"

definition lru_complete_store :: "'h list \<Rightarrow> bool \<Rightarrow> 'h lru_manager \<Rightarrow> 'h lru_manager result" where
  "lru_complete_store hs success m =
     (if success
      then bindR (foldR lru_store_done hs ([], m)) (\<lambda>(stored, m1).
             Inr (m1\<lparr>lm_events := add_event stored (lm_backend m1) False (lm_events m1)\<rparr>))
      else foldR lru_store_failed hs m)"

definition lru_take_events :: "'h lru_manager \<Rightarrow> 'h offloading_event list \<times> 'h lru_manager" where
  "lru_take_events m = (case lm_events m of None \<Rightarrow> ([], m) | Some es \<Rightarrow> (es, m\<lparr>lm_events := Some []\<rparr>))"

subsection \<open>Adaptive replacement\<close>

text \<open>
  The target size is a float. The operations on it are arguments: conversion of an integer, quotient of two
  lengths, sum, difference, comparison and truncation.
\<close>

record 'f float_arith =
  fa_of_int :: "int \<Rightarrow> 'f"
  fa_quotient :: "int \<Rightarrow> int \<Rightarrow> 'f"
  fa_add :: "'f \<Rightarrow> 'f \<Rightarrow> 'f"
  fa_sub :: "'f \<Rightarrow> 'f \<Rightarrow> 'f"
  fa_less :: "'f \<Rightarrow> 'f \<Rightarrow> bool"
  fa_int :: "'f \<Rightarrow> int"

record ('h, 'f) arc_manager =
  am_backend :: cpu_backend
  am_target_t1_size :: 'f
  am_t1 :: "'h blocks"
  am_t2 :: "'h blocks"
  am_b1 :: "'h list"
  am_b2 :: "'h list"
  am_events :: "'h offloading_event list option"
  am_cache_capacity :: int

definition arc_init :: "'f float_arith \<Rightarrow> cpu_backend \<Rightarrow> bool \<Rightarrow> ('h, 'f) arc_manager" where
  "arc_init fa b enable_events =
     \<lparr>am_backend = b, am_target_t1_size = fa_of_int fa 0, am_t1 = [], am_t2 = [], am_b1 = [], am_b2 = [],
      am_events = (if enable_events then Some [] else None), am_cache_capacity = cb_get_num_free_blocks b\<rparr>"

definition arc_get :: "('h, 'f) arc_manager \<Rightarrow> 'h \<Rightarrow> block_status option" where
  "arc_get m h = (case map_of (am_t1 m) h of Some b \<Rightarrow> Some b | None \<Rightarrow> map_of (am_t2 m) h)"

primrec arc_lookup :: "'h list \<Rightarrow> ('h, 'f) arc_manager \<Rightarrow> int" where
  "arc_lookup [] m = 0"
| "arc_lookup (h # hs) m =
     (case arc_get m h of None \<Rightarrow> 0 | Some b \<Rightarrow> if bs_is_ready b then 1 + arc_lookup hs m else 0)"

text \<open>A change of a block is seen through the dictionary that holds it.\<close>

definition arc_put :: "'h \<Rightarrow> block_status \<Rightarrow> ('h, 'f) arc_manager \<Rightarrow> ('h, 'f) arc_manager" where
  "arc_put h b m = (if h \<in> dict_keys (am_t1 m) then m\<lparr>am_t1 := AList.update h b (am_t1 m)\<rparr>
                    else m\<lparr>am_t2 := AList.update h b (am_t2 m)\<rparr>)"

definition arc_load_one :: "'h \<Rightarrow> block_status list \<times> ('h, 'f) arc_manager \<Rightarrow> (block_status list \<times> ('h, 'f) arc_manager) result" where
  "arc_load_one h bm =
     (let m = snd bm
      in case arc_get m h of None \<Rightarrow> Inl AssertionError
         | Some b \<Rightarrow> bindR (assertR (bs_is_ready b)) (\<lambda>_.
             let b' = b\<lparr>bs_ref_cnt := c_int32 (bs_ref_cnt b + 1)\<rparr> in Inr (fst bm @ [b'], arc_put h b' m)))"

definition arc_prepare_load :: "'h list \<Rightarrow> ('h, 'f) arc_manager \<Rightarrow> (int list \<times> ('h, 'f) arc_manager) result" where
  "arc_prepare_load hs m =
     bindR (foldR arc_load_one hs ([], m)) (\<lambda>(bs, m'). Inr (cb_get_load_store_spec bs, m'))"

definition arc_touch_one :: "'f float_arith \<Rightarrow> 'h \<Rightarrow> ('h, 'f) arc_manager \<Rightarrow> ('h, 'f) arc_manager" where
  "arc_touch_one fa h m =
     (case map_of (am_t1 m) h of
        Some b \<Rightarrow>
          if \<not> bs_is_ready b then m\<lparr>am_t1 := AList.delete h (am_t1 m) @ [(h, b)]\<rparr>
          else m\<lparr>am_t1 := AList.delete h (am_t1 m), am_t2 := AList.update h b (am_t2 m)\<rparr>
      | None \<Rightarrow>
          if h \<in> dict_keys (am_t2 m) then m\<lparr>am_t2 := move_to_end h (am_t2 m)\<rparr>
          else if h \<in> set (am_b1 m) then
            let q = fa_quotient fa (int (length (am_b2 m))) (int (length (am_b1 m)));
                delta = (if fa_less fa (fa_of_int fa 1) q then q else fa_of_int fa 1);
                t = fa_add fa (am_target_t1_size m) delta; cap = fa_of_int fa (am_cache_capacity m)
            in m\<lparr>am_target_t1_size := (if fa_less fa cap t then cap else t), am_b1 := removeAll h (am_b1 m) @ [h]\<rparr>
          else if h \<in> set (am_b2 m) then
            let q = fa_quotient fa (int (length (am_b1 m))) (int (length (am_b2 m)));
                delta = (if fa_less fa (fa_of_int fa 1) q then q else fa_of_int fa 1);
                t = fa_sub fa (am_target_t1_size m) delta
            in m\<lparr>am_target_t1_size := (if fa_less fa t (fa_of_int fa 0) then fa_of_int fa 0 else t),
                 am_b2 := removeAll h (am_b2 m) @ [h]\<rparr>
          else m)"

definition arc_touch :: "'f float_arith \<Rightarrow> 'h list \<Rightarrow> ('h, 'f) arc_manager \<Rightarrow> ('h, 'f) arc_manager" where
  "arc_touch fa hs m = fold (arc_touch_one fa) (rev hs) m"

definition arc_complete_load_one :: "'h \<Rightarrow> ('h, 'f) arc_manager \<Rightarrow> ('h, 'f) arc_manager result" where
  "arc_complete_load_one h m =
     (case arc_get m h of None \<Rightarrow> Inl AssertionError
      | Some b \<Rightarrow> bindR (assertR (bs_ref_cnt b > 0)) (\<lambda>_.
          Inr (arc_put h (b\<lparr>bs_ref_cnt := c_int32 (bs_ref_cnt b - 1)\<rparr>) m)))"

definition arc_complete_load :: "'h list \<Rightarrow> ('h, 'f) arc_manager \<Rightarrow> ('h, 'f) arc_manager result" where
  "arc_complete_load hs m = foldR arc_complete_load_one hs m"

text \<open>The block to evict next, from T1 (\<open>True\<close>) or T2.\<close>

definition arc_victim :: "'f float_arith \<Rightarrow> 'h set \<Rightarrow> ('h, 'f) arc_manager \<Rightarrow> (bool \<times> 'h \<times> block_status) option" where
  "arc_victim fa protected m =
     (case (if int (length (am_t1 m)) \<ge> fa_int fa (am_target_t1_size m) then find (evictable protected) (am_t1 m) else None) of
        Some x \<Rightarrow> Some (True, x)
      | None \<Rightarrow> map_option (Pair False) (find (evictable protected) (am_t2 m)))"

definition add_ghost :: "'h \<Rightarrow> 'h list \<Rightarrow> 'h list" where
  "add_ghost h b = (if h \<in> set b then b else b @ [h])"

definition arc_evict :: "bool \<Rightarrow> 'h \<Rightarrow> block_status \<Rightarrow> ('h, 'f) arc_manager \<Rightarrow> ('h, 'f) arc_manager" where
  "arc_evict in_t1 h b m =
     (if in_t1 then m\<lparr>am_t1 := AList.delete h (am_t1 m), am_b1 := add_ghost h (am_b1 m), am_backend := cb_free b (am_backend m)\<rparr>
      else m\<lparr>am_t2 := AList.delete h (am_t2 m), am_b2 := add_ghost h (am_b2 m), am_backend := cb_free b (am_backend m)\<rparr>)"

text \<open>The eviction loop answers \<open>False\<close> when it ends early; what it evicted before stays evicted.\<close>

fun arc_evict_loop :: "'f float_arith \<Rightarrow> 'h set \<Rightarrow> nat \<Rightarrow> 'h list \<Rightarrow> ('h, 'f) arc_manager \<Rightarrow> bool \<times> 'h list \<times> ('h, 'f) arc_manager" where
  "arc_evict_loop fa protected 0 evicted m = (True, evicted, m)"
| "arc_evict_loop fa protected (Suc n) evicted m =
     (case arc_victim fa protected m of
        None \<Rightarrow> (False, evicted, m)
      | Some (in_t1, h, b) \<Rightarrow> arc_evict_loop fa protected n (evicted @ [h]) (arc_evict in_t1 h b m))"

definition arc_insert :: "'h \<times> block_status \<Rightarrow> ('h, 'f) arc_manager \<Rightarrow> ('h, 'f) arc_manager" where
  "arc_insert x m = m\<lparr>am_t1 := AList.update (fst x) (snd x) (am_t1 m), am_b1 := removeAll (fst x) (am_b1 m),
                      am_b2 := removeAll (fst x) (am_b2 m)\<rparr>"

definition arc_prepare_store ::
  "'f float_arith \<Rightarrow> 'h list \<Rightarrow> ('h, 'f) arc_manager \<Rightarrow> ('h prepare_store_output option \<times> ('h, 'f) arc_manager) result" where
  "arc_prepare_store fa hs m =
     (let to_store = filter (\<lambda>h. h \<notin> dict_keys (am_t1 m) \<and> h \<notin> dict_keys (am_t2 m)) hs
      in if to_store = [] then
           Inr (Some \<lparr>ps_block_hashes_to_store = [], ps_store_spec = cb_get_load_store_spec [], ps_block_hashes_evicted = []\<rparr>, m)
         else
           let n = int (length to_store) - cb_get_num_free_blocks (am_backend m)
           in case arc_evict_loop fa (set hs) (nat n) [] m of
                (False, _, m1) \<Rightarrow> Inr (None, m1)
              | (True, to_evict, m1) \<Rightarrow>
                  let cap = am_cache_capacity m1;
                      m2 = m1\<lparr>am_b1 := drop (nat (int (length (am_b1 m1)) - cap)) (am_b1 m1),
                              am_b2 := drop (nat (int (length (am_b2 m1)) - cap)) (am_b2 m1),
                              am_events := add_event to_evict (am_backend m1) True (am_events m1)\<rparr>
                  in bindR (cb_allocate_blocks to_store (am_backend m2)) (\<lambda>(bs, b).
                     bindR (assertR (length bs = length to_store)) (\<lambda>_.
                       Inr (Some \<lparr>ps_block_hashes_to_store = to_store, ps_store_spec = cb_get_load_store_spec bs,
                                  ps_block_hashes_evicted = to_evict\<rparr>,
                            fold arc_insert (zip to_store bs) (m2\<lparr>am_backend := b\<rparr>)))))"

definition arc_store_done :: "'h \<Rightarrow> 'h list \<times> ('h, 'f) arc_manager \<Rightarrow> 'h list \<times> ('h, 'f) arc_manager" where
  "arc_store_done h sm =
     (case arc_get (snd sm) h of
        Some b \<Rightarrow> if bs_is_ready b then sm else (fst sm @ [h], arc_put h (b\<lparr>bs_ref_cnt := 0\<rparr>) (snd sm))
      | None \<Rightarrow> sm)"

definition arc_store_failed :: "'h \<Rightarrow> ('h, 'f) arc_manager \<Rightarrow> ('h, 'f) arc_manager" where
  "arc_store_failed h m =
     (case map_of (am_t1 m) h of
        Some b \<Rightarrow> let m1 = m\<lparr>am_t1 := AList.delete h (am_t1 m)\<rparr>
                  in if bs_is_ready b then m1 else m1\<lparr>am_backend := cb_free b (am_backend m)\<rparr>
      | None \<Rightarrow>
          (case map_of (am_t2 m) h of
             Some b \<Rightarrow> let m1 = m\<lparr>am_t2 := AList.delete h (am_t2 m)\<rparr>
                       in if bs_is_ready b then m1 else m1\<lparr>am_backend := cb_free b (am_backend m)\<rparr>
           | None \<Rightarrow> m))"

definition arc_complete_store :: "'h list \<Rightarrow> bool \<Rightarrow> ('h, 'f) arc_manager \<Rightarrow> ('h, 'f) arc_manager" where
  "arc_complete_store hs success m =
     (if success
      then case fold arc_store_done hs ([], m) of
             (stored, m1) \<Rightarrow> m1\<lparr>am_events := add_event stored (am_backend m1) False (am_events m1)\<rparr>
      else fold arc_store_failed hs m)"

definition arc_take_events :: "('h, 'f) arc_manager \<Rightarrow> 'h offloading_event list \<times> ('h, 'f) arc_manager" where
  "arc_take_events m = (case am_events m of None \<Rightarrow> ([], m) | Some es \<Rightarrow> (es, m\<lparr>am_events := Some []\<rparr>))"

subsection \<open>Storing only what is reused\<close>

text \<open>The methods of the manager behind the decorator.\<close>

record ('h, 'm) offload_ops =
  op_lookup :: "'h list \<Rightarrow> 'm \<Rightarrow> int \<times> 'm"
  op_prepare_load :: "'h list \<Rightarrow> 'm \<Rightarrow> (int list \<times> 'm) result"
  op_touch :: "'h list \<Rightarrow> 'm \<Rightarrow> 'm"
  op_complete_load :: "'h list \<Rightarrow> 'm \<Rightarrow> 'm result"
  op_prepare_store :: "'h list \<Rightarrow> 'm \<Rightarrow> ('h prepare_store_output option \<times> 'm) result"
  op_complete_store :: "'h list \<Rightarrow> bool \<Rightarrow> 'm \<Rightarrow> 'm result"
  op_take_events :: "'m \<Rightarrow> 'h offloading_event list \<times> 'm"

definition lru_ops :: "('h, 'h lru_manager) offload_ops" where
  "lru_ops = \<lparr>op_lookup = (\<lambda>hs m. (lru_lookup hs m, m)), op_prepare_load = lru_prepare_load, op_touch = lru_touch,
     op_complete_load = lru_complete_load, op_prepare_store = lru_prepare_store,
     op_complete_store = lru_complete_store, op_take_events = lru_take_events\<rparr>"

definition arc_ops :: "'f float_arith \<Rightarrow> ('h, ('h, 'f) arc_manager) offload_ops" where
  "arc_ops fa = \<lparr>op_lookup = (\<lambda>hs m. (arc_lookup hs m, m)), op_prepare_load = arc_prepare_load, op_touch = arc_touch fa,
     op_complete_load = arc_complete_load, op_prepare_store = arc_prepare_store fa,
     op_complete_store = (\<lambda>hs success m. Inr (arc_complete_store hs success m)), op_take_events = arc_take_events\<rparr>"

record ('h, 'm) reuse_manager =
  rm_backing :: 'm
  rm_store_threshold :: int
  rm_max_tracker_size :: int
  rm_counts :: "('h \<times> int) list"

definition reuse_init :: "'m \<Rightarrow> int \<Rightarrow> int \<Rightarrow> ('h, 'm) reuse_manager result" where
  "reuse_init backing store_threshold max_tracker_size =
     (if store_threshold < 2 then Inl ValueError
      else if max_tracker_size < 1 then Inl ValueError
      else Inr \<lparr>rm_backing = backing, rm_store_threshold = store_threshold, rm_max_tracker_size = max_tracker_size, rm_counts = []\<rparr>)"

definition count_one :: "'h \<Rightarrow> ('h, 'm) reuse_manager \<Rightarrow> ('h, 'm) reuse_manager" where
  "count_one h r =
     (case map_of (rm_counts r) h of
        Some n \<Rightarrow> r\<lparr>rm_counts := AList.delete h (rm_counts r) @ [(h, n + 1)]\<rparr>
      | None \<Rightarrow> r\<lparr>rm_counts := (if int (length (rm_counts r)) \<ge> rm_max_tracker_size r then tl (rm_counts r) else rm_counts r) @ [(h, 1)]\<rparr>)"

definition reuse_lookup :: "('h, 'm) offload_ops \<Rightarrow> 'h list \<Rightarrow> ('h, 'm) reuse_manager \<Rightarrow> int \<times> ('h, 'm) reuse_manager" where
  "reuse_lookup ops hs r =
     (let r1 = fold count_one hs r; (n, m) = op_lookup ops hs (rm_backing r1) in (n, r1\<lparr>rm_backing := m\<rparr>))"

definition reuse_prepare_store ::
  "('h, 'm) offload_ops \<Rightarrow> 'h list \<Rightarrow> ('h, 'm) reuse_manager \<Rightarrow> ('h prepare_store_output option \<times> ('h, 'm) reuse_manager) result" where
  "reuse_prepare_store ops hs r =
     bindR (op_prepare_store ops (filter (\<lambda>h. dict_get (rm_counts r) h 0 \<ge> rm_store_threshold r) hs) (rm_backing r)) (\<lambda>(out, m).
       Inr (out, r\<lparr>rm_backing := m\<rparr>))"

definition reuse_prepare_load :: "('h, 'm) offload_ops \<Rightarrow> 'h list \<Rightarrow> ('h, 'm) reuse_manager \<Rightarrow> (int list \<times> ('h, 'm) reuse_manager) result" where
  "reuse_prepare_load ops hs r = bindR (op_prepare_load ops hs (rm_backing r)) (\<lambda>(x, m). Inr (x, r\<lparr>rm_backing := m\<rparr>))"

definition reuse_touch :: "('h, 'm) offload_ops \<Rightarrow> 'h list \<Rightarrow> ('h, 'm) reuse_manager \<Rightarrow> ('h, 'm) reuse_manager" where
  "reuse_touch ops hs r = r\<lparr>rm_backing := op_touch ops hs (rm_backing r)\<rparr>"

definition reuse_complete_load :: "('h, 'm) offload_ops \<Rightarrow> 'h list \<Rightarrow> ('h, 'm) reuse_manager \<Rightarrow> ('h, 'm) reuse_manager result" where
  "reuse_complete_load ops hs r = bindR (op_complete_load ops hs (rm_backing r)) (\<lambda>m. Inr (r\<lparr>rm_backing := m\<rparr>))"

definition reuse_complete_store :: "('h, 'm) offload_ops \<Rightarrow> 'h list \<Rightarrow> bool \<Rightarrow> ('h, 'm) reuse_manager \<Rightarrow> ('h, 'm) reuse_manager result" where
  "reuse_complete_store ops hs success r = bindR (op_complete_store ops hs success (rm_backing r)) (\<lambda>m. Inr (r\<lparr>rm_backing := m\<rparr>))"

definition reuse_take_events :: "('h, 'm) offload_ops \<Rightarrow> ('h, 'm) reuse_manager \<Rightarrow> 'h offloading_event list \<times> ('h, 'm) reuse_manager" where
  "reuse_take_events ops r = (case op_take_events ops (rm_backing r) of (es, m) \<Rightarrow> (es, r\<lparr>rm_backing := m\<rparr>))"

definition reuse_ops :: "('h, 'm) offload_ops \<Rightarrow> ('h, ('h, 'm) reuse_manager) offload_ops" where
  "reuse_ops ops = \<lparr>op_lookup = reuse_lookup ops, op_prepare_load = reuse_prepare_load ops, op_touch = reuse_touch ops,
     op_complete_load = reuse_complete_load ops, op_prepare_store = reuse_prepare_store ops,
     op_complete_store = reuse_complete_store ops, op_take_events = reuse_take_events ops\<rparr>"

subsection \<open>What a manager keeps\<close>

text \<open>
  The blocks a manager holds are a bag of hashes with their status. \<open>loads\<close> counts for each hash the loads begun and
  not completed. No hash is held twice; the block ids held and those in the free list are all the ids allocated so
  far, each once; and the count of a block that is ready is its number of loads.
\<close>

abbreviation held_keys :: "('h \<times> block_status) multiset \<Rightarrow> 'h set" where
  "held_keys M \<equiv> fst ` set_mset M"

definition status_ok :: "nat \<Rightarrow> block_status \<Rightarrow> bool" where
  "status_ok n s \<longleftrightarrow> bs_ref_cnt s = - 1 \<and> n = 0 \<or> bs_ref_cnt s = int n"

definition cache_inv :: "('h \<Rightarrow> nat) \<Rightarrow> ('h \<times> block_status) multiset \<Rightarrow> cpu_backend \<Rightarrow> bool" where
  "cache_inv loads M b \<longleftrightarrow>
     (\<forall>h. count (image_mset fst M) h \<le> 1)
     \<and> 0 \<le> cb_num_allocated_blocks b \<and> cb_num_allocated_blocks b \<le> cb_num_blocks b
     \<and> image_mset (\<lambda>x. bs_block_id (snd x)) M + mset (cb_free_list b) = mset [0..cb_num_allocated_blocks b - 1]
     \<and> (\<forall>x \<in># M. status_ok (loads (fst x)) (snd x)) \<and> (\<forall>h. h \<notin> held_keys M \<longrightarrow> loads h = 0)"

lemma cache_inv_unique:
  assumes "cache_inv loads (add_mset (h, s) M) b"
  shows "h \<notin> held_keys M"
proof
  assume "h \<in> held_keys M"
  then have "h \<in># image_mset fst M" by simp
  then have "2 \<le> count (image_mset fst (add_mset (h, s) M)) h" by (simp add: Suc_le_eq)
  with assms show False unfolding cache_inv_def by (metis (no_types) le_trans numeral_le_one_iff semiring_norm(69))
qed

text \<open>A held block changes its count, is given back, or blocks are added.\<close>

lemma cache_inv_status:
  assumes inv: "cache_inv loads (add_mset (h, s) M) b" and s: "bs_block_id s' = bs_block_id s" "status_ok (loads' h) s'"
    and same: "\<And>x. x \<noteq> h \<Longrightarrow> loads' x = loads x"
  shows "cache_inv loads' (add_mset (h, s') M) b"
proof -
  have "h \<notin> held_keys M" by (rule cache_inv_unique [OF inv])
  then have "status_ok (loads' (fst x)) (snd x)" if "x \<in># M" for x
  proof -
    have "fst x \<noteq> h" using \<open>h \<notin> held_keys M\<close> that by blast
    then show ?thesis using inv that same by (simp add: cache_inv_def)
  qed
  then show ?thesis using inv s same by (auto simp: cache_inv_def)
qed

lemma cache_inv_free:
  assumes inv: "cache_inv loads (add_mset (h, s) M) b" and none: "loads h = 0"
  shows "cache_inv loads M (cb_free s b)"
proof -
  have "count (image_mset fst M) x \<le> 1" for x
  proof -
    have "count (image_mset fst M) x \<le> count (image_mset fst (add_mset (h, s) M)) x" by simp
    also have "\<dots> \<le> 1" using inv unfolding cache_inv_def by blast
    finally show ?thesis .
  qed
  moreover have "loads x = 0" if "x \<notin> held_keys M" for x using inv none that by (cases "x = h") (auto simp: cache_inv_def)
  ultimately show ?thesis using inv by (auto simp: cache_inv_def cb_free_def)
qed

lemma allocate_blocks_ids:
  assumes inv: "cache_inv loads M b" and room: "int (length hs) \<le> cb_get_num_free_blocks b"
  obtains ids b' where "cb_allocate_blocks hs b = Inr (map cpu_block_status ids, b')" "length ids = length hs"
    "0 \<le> cb_num_allocated_blocks b'" "cb_num_allocated_blocks b' \<le> cb_num_blocks b'"
    "mset ids + mset (cb_free_list b') + mset [0..cb_num_allocated_blocks b - 1] = mset (cb_free_list b) + mset [0..cb_num_allocated_blocks b' - 1]"
    "cb_block_size b' = cb_block_size b" "cb_num_blocks b' = cb_num_blocks b"
proof -
  let ?na = "cb_num_allocated_blocks b" and ?fl = "cb_free_list b"
  define fresh where "fresh = nat (min (int (length hs)) (cb_num_blocks b - ?na))"
  define reused where "reused = length hs - fresh"
  have na: "0 \<le> ?na" "?na \<le> cb_num_blocks b" using inv by (simp_all add: cache_inv_def)
  have f: "min (int (length hs)) (cb_num_blocks b - ?na) = int fresh" "int (length hs) - int fresh = int reused" "reused \<le> length ?fl"
    using na room by (auto simp: fresh_def reused_def cb_get_num_free_blocks_def)
  let ?ids = "map (\<lambda>i. ?na + int i) [0..<fresh] @ take reused (rev ?fl)"
  let ?b = "b\<lparr>cb_num_allocated_blocks := ?na + int fresh, cb_free_list := take (length ?fl - reused) ?fl\<rparr>"
  have run: "cb_allocate_blocks hs b = Inr (map cpu_block_status ?ids, ?b)"
    using f by (simp add: cb_allocate_blocks_def Let_def o_def)
  have fresh_ids: "[0..?na + int fresh - 1] = [0..?na - 1] @ map (\<lambda>i. ?na + int i) [0..<fresh]"
  proof (induction fresh)
    case (Suc n)
    have "[0..?na + int (Suc n) - 1] = [0..?na + int n - 1] @ [?na + int n]" using na(1) upto_rec2 [of 0 "?na + int n"] by simp
    then show ?case using Suc by simp
  qed simp
  have returned_ids: "mset (take reused (rev ?fl)) + mset (take (length ?fl - reused) ?fl) = mset ?fl"
  proof -
    have "take reused (rev ?fl) = rev (drop (length ?fl - reused) ?fl)" by (simp add: take_rev)
    then have "mset (take reused (rev ?fl)) = mset (drop (length ?fl - reused) ?fl)" by simp
    then show ?thesis by (metis append_take_drop_id mset_append union_commute)
  qed
  show thesis
  proof (rule that [OF run])
    show "length ?ids = length hs" using f by (simp add: reused_def fresh_def)
    show "0 \<le> cb_num_allocated_blocks ?b" "cb_num_allocated_blocks ?b \<le> cb_num_blocks ?b" using na f(1) by (simp_all add: min_def split: if_split_asm)
    show "mset ?ids + mset (cb_free_list ?b) + mset [0..?na - 1] = mset ?fl + mset [0..cb_num_allocated_blocks ?b - 1]"
      using returned_ids fresh_ids by (simp add: ac_simps)
  qed simp_all
qed

lemma cache_inv_alloc:
  assumes inv: "cache_inv loads M b" and room: "int (length hs) \<le> cb_get_num_free_blocks b"
    and new: "distinct hs" "set hs \<inter> held_keys M = {}"
  obtains bs b' where "cb_allocate_blocks hs b = Inr (bs, b')" "length bs = length hs" "cache_inv loads (M + mset (zip hs bs)) b'"
    "\<forall>s \<in> set bs. bs_ref_cnt s = - 1"
proof -
  obtain ids b' where a: "cb_allocate_blocks hs b = Inr (map cpu_block_status ids, b')" "length ids = length hs"
    "0 \<le> cb_num_allocated_blocks b'" "cb_num_allocated_blocks b' \<le> cb_num_blocks b'"
    "mset ids + mset (cb_free_list b') + mset [0..cb_num_allocated_blocks b - 1] = mset (cb_free_list b) + mset [0..cb_num_allocated_blocks b' - 1]"
    by (rule allocate_blocks_ids [OF inv room])
  let ?bs = "map cpu_block_status ids" and ?N = "mset (zip hs (map cpu_block_status ids))"
  have keys: "image_mset fst ?N = mset hs" and vals: "image_mset (\<lambda>x. bs_block_id (snd x)) ?N = mset ids"
  proof -
    show "image_mset fst ?N = mset hs" using a(2) by (metis length_map map_fst_zip mset_map)
    have "image_mset (\<lambda>x. bs_block_id (snd x)) ?N = mset (map bs_block_id (map snd (zip hs ?bs)))" by (simp add: o_def)
    also have "\<dots> = mset ids" using a(2) by (simp add: map_snd_zip o_def cpu_block_status_def)
    finally show "image_mset (\<lambda>x. bs_block_id (snd x)) ?N = mset ids" .
  qed
  have one: "count (image_mset fst (M + ?N)) h \<le> 1" for h
  proof (cases "h \<in> set hs")
    case True
    then have "count (image_mset fst M) h = 0" using new(2) by (auto simp: count_eq_zero_iff)
    then show ?thesis using new(1) keys by (simp add: distinct_count_atmost_1)
  next
    case False
    then have "count (image_mset fst ?N) h = 0" by (simp add: keys)
    then show ?thesis using inv by (simp add: cache_inv_def)
  qed
  have part: "image_mset (\<lambda>x. bs_block_id (snd x)) (M + ?N) + mset (cb_free_list b') = mset [0..cb_num_allocated_blocks b' - 1]"
  proof -
    let ?A = "image_mset (\<lambda>x. bs_block_id (snd x)) M"
    have "mset [0..cb_num_allocated_blocks b - 1] = ?A + mset (cb_free_list b)" using inv by (simp add: cache_inv_def)
    then have "mset ids + mset (cb_free_list b') + (?A + mset (cb_free_list b)) = mset (cb_free_list b) + mset [0..cb_num_allocated_blocks b' - 1]"
      using a(5) by (simp only:)
    then have "?A + mset ids + mset (cb_free_list b') = mset [0..cb_num_allocated_blocks b' - 1]" by (simp add: ac_simps)
    then show ?thesis by (simp only: image_mset_union vals)
  qed
  have st: "status_ok (loads (fst x)) (snd x)" if "x \<in># M + ?N" for x
  proof (cases "x \<in># M")
    case True
    then show ?thesis using inv by (simp add: cache_inv_def)
  next
    case False
    then have "x \<in> set (zip hs ?bs)" using that by simp
    then have "fst x \<in> set hs" "snd x \<in> set ?bs" using set_zip_leftD set_zip_rightD by (metis prod.collapse)+
    moreover have "loads (fst x) = 0" using inv new(2) \<open>fst x \<in> set hs\<close> unfolding cache_inv_def by blast
    ultimately show ?thesis by (auto simp: status_ok_def cpu_block_status_def)
  qed
  have "cache_inv loads (M + ?N) b'" using one part st a(3,4) inv unfolding cache_inv_def by auto
  then show thesis using that [OF a(1)] a(2) by (simp add: cpu_block_status_def)
qed


text \<open>The changes of the count.\<close>

lemma cache_inv_loaded:
  assumes inv: "cache_inv loads (add_mset (h, s) M) b" and s: "bs_is_ready s" "loads h + 1 < 2 ^ 31"
  shows "cache_inv (loads(h := loads h + 1)) (add_mset (h, s\<lparr>bs_ref_cnt := c_int32 (bs_ref_cnt s + 1)\<rparr>) M) b"
proof (rule cache_inv_status [OF inv])
  have r: "bs_ref_cnt s = int (loads h)" using inv s(1) by (auto simp: cache_inv_def status_ok_def bs_is_ready_def)
  have "int (loads h + 1) < int (2 ^ 31)" using s(2) by (simp only: of_nat_less_iff)
  then have "c_int32 (bs_ref_cnt s + 1) = int (loads h) + 1" by (simp add: r)
  then show "status_ok ((loads(h := loads h + 1)) h) (s\<lparr>bs_ref_cnt := c_int32 (bs_ref_cnt s + 1)\<rparr>)" by (simp add: status_ok_def)
qed simp_all

lemma cache_inv_unloaded:
  assumes inv: "cache_inv loads (add_mset (h, s) M) b" and s: "0 < bs_ref_cnt s" "loads h < 2 ^ 31"
  shows "cache_inv (loads(h := loads h - 1)) (add_mset (h, s\<lparr>bs_ref_cnt := c_int32 (bs_ref_cnt s - 1)\<rparr>) M) b"
proof (rule cache_inv_status [OF inv])
  have r: "bs_ref_cnt s = int (loads h)" using inv s(1) by (auto simp: cache_inv_def status_ok_def)
  have "int (loads h) < int (2 ^ 31)" "0 < loads h" using s r by (simp_all only: of_nat_less_iff of_nat_0_less_iff)
  then have "c_int32 (bs_ref_cnt s - 1) = int (loads h - 1)" by (simp add: r of_nat_diff)
  then show "status_ok ((loads(h := loads h - 1)) h) (s\<lparr>bs_ref_cnt := c_int32 (bs_ref_cnt s - 1)\<rparr>)" by (simp add: status_ok_def)
qed simp_all

lemma cache_inv_pending:
  assumes "cache_inv loads (add_mset (h, s) M) b" "\<not> bs_is_ready s"
  shows "loads h = 0" "cache_inv loads (add_mset (h, s\<lparr>bs_ref_cnt := 0\<rparr>) M) b"
proof -
  have "status_ok (loads h) s" using assms(1) by (simp add: cache_inv_def)
  then show z: "loads h = 0" using assms(2) by (auto simp: status_ok_def bs_is_ready_def)
  show "cache_inv loads (add_mset (h, s\<lparr>bs_ref_cnt := 0\<rparr>) M) b"
    by (rule cache_inv_status [OF assms(1)]) (simp_all add: status_ok_def z)
qed

subsection \<open>The contract of a manager\<close>

text \<open>
  What \<open>prepare_store\<close> does to the blocks held: blocks not in use and not protected may be evicted; when it answers with
  a specification, exactly those it names are evicted and the blocks to store are added, not yet ready.
\<close>

definition store_effect ::
  "'h set \<Rightarrow> 'h list \<Rightarrow> ('h \<times> block_status) multiset \<Rightarrow> 'h prepare_store_output option \<Rightarrow> ('h \<times> block_status) multiset \<Rightarrow> bool" where
  "store_effect protected hs M out M' \<longleftrightarrow>
     (\<exists>E. (\<forall>x \<in># M. fst x \<in> E \<longrightarrow> evictable protected x) \<and>
       (case out of None \<Rightarrow> M' = filter_mset (\<lambda>x. fst x \<notin> E) M
        | Some ps \<Rightarrow> E = set (ps_block_hashes_evicted ps) \<and> E \<subseteq> held_keys M
            \<and> distinct (ps_block_hashes_to_store ps) \<and> set (ps_block_hashes_to_store ps) \<subseteq> set hs - held_keys M
            \<and> length (ps_store_spec ps) = length (ps_block_hashes_to_store ps)
            \<and> M' = filter_mset (\<lambda>x. fst x \<notin> E) M + mset (zip (ps_block_hashes_to_store ps) (map cpu_block_status (ps_store_spec ps)))))"

lemma store_effect_weaken:
  assumes "store_effect P hs M out M'" "Q \<subseteq> P" "set hs \<subseteq> set hs'"
  shows "store_effect Q hs' M out M'"
proof -
  obtain E where E: "\<forall>x \<in># M. fst x \<in> E \<longrightarrow> evictable P x"
    and c: "case out of None \<Rightarrow> M' = filter_mset (\<lambda>x. fst x \<notin> E) M
        | Some ps \<Rightarrow> E = set (ps_block_hashes_evicted ps) \<and> E \<subseteq> held_keys M
            \<and> distinct (ps_block_hashes_to_store ps) \<and> set (ps_block_hashes_to_store ps) \<subseteq> set hs - held_keys M
            \<and> length (ps_store_spec ps) = length (ps_block_hashes_to_store ps)
            \<and> M' = filter_mset (\<lambda>x. fst x \<notin> E) M + mset (zip (ps_block_hashes_to_store ps) (map cpu_block_status (ps_store_spec ps)))"
    using assms(1) unfolding store_effect_def by blast
  have "\<forall>x \<in># M. fst x \<in> E \<longrightarrow> evictable Q x" using E assms(2) by (auto simp: evictable_def)
  moreover have "case out of None \<Rightarrow> M' = filter_mset (\<lambda>x. fst x \<notin> E) M
        | Some ps \<Rightarrow> E = set (ps_block_hashes_evicted ps) \<and> E \<subseteq> held_keys M
            \<and> distinct (ps_block_hashes_to_store ps) \<and> set (ps_block_hashes_to_store ps) \<subseteq> set hs' - held_keys M
            \<and> length (ps_store_spec ps) = length (ps_block_hashes_to_store ps)
            \<and> M' = filter_mset (\<lambda>x. fst x \<notin> E) M + mset (zip (ps_block_hashes_to_store ps) (map cpu_block_status (ps_store_spec ps)))"
    using c assms(3) by (cases out) auto
  ultimately show ?thesis unfolding store_effect_def by blast
qed

text \<open>A manager behind its operations. A failed store is only reported for blocks that are not ready.\<close>

locale offloading =
  fixes ops :: "('h, 'm) offload_ops" and held :: "'m \<Rightarrow> ('h \<times> block_status) multiset" and backend :: "'m \<Rightarrow> cpu_backend"
  assumes lookup_counts: "cache_inv loads (held m) (backend m) \<Longrightarrow>
      fst (op_lookup ops hs m) = int (length (takeWhile (\<lambda>h. \<exists>s. (h, s) \<in># held m \<and> bs_is_ready s) hs))"
    and lookup_keeps: "held (snd (op_lookup ops hs m)) = held m" "backend (snd (op_lookup ops hs m)) = backend m"
    and load_inv: "cache_inv loads (held m) (backend m) \<Longrightarrow> op_prepare_load ops hs m = Inr (ids, m') \<Longrightarrow>
      (\<And>h. loads h + count_list hs h < 2 ^ 31) \<Longrightarrow> cache_inv (\<lambda>h. loads h + count_list hs h) (held m') (backend m')"
    and touch_keeps: "cache_inv loads (held m) (backend m) \<Longrightarrow> held (op_touch ops hs m) = held m \<and> backend (op_touch ops hs m) = backend m"
    and loaded_inv: "cache_inv loads (held m) (backend m) \<Longrightarrow> op_complete_load ops hs m = Inr m' \<Longrightarrow>
      (\<And>h. loads h < 2 ^ 31) \<Longrightarrow> cache_inv (\<lambda>h. loads h - count_list hs h) (held m') (backend m')"
    and store_inv: "cache_inv loads (held m) (backend m) \<Longrightarrow> distinct hs \<Longrightarrow>
      \<exists>out m'. op_prepare_store ops hs m = Inr (out, m') \<and> cache_inv loads (held m') (backend m') \<and> store_effect {} hs (held m) out (held m')"
    and stored_inv: "cache_inv loads (held m) (backend m) \<Longrightarrow> op_complete_store ops hs success m = Inr m' \<Longrightarrow>
      success \<or> (\<forall>x \<in># held m. fst x \<in> set hs \<longrightarrow> \<not> bs_is_ready (snd x)) \<Longrightarrow> cache_inv loads (held m') (backend m')"
    and events_keep: "held (snd (op_take_events ops m)) = held m" "backend (snd (op_take_events ops m)) = backend m"

text \<open>A manager that stores all that it does not hold, and evicts nothing it was asked to store.\<close>

locale storing = offloading +
  assumes store_all: "cache_inv loads (held m) (backend m) \<Longrightarrow> distinct hs \<Longrightarrow> op_prepare_store ops hs m = Inr (out, m') \<Longrightarrow>
      store_effect (set hs) hs (held m) out (held m')
      \<and> (\<forall>ps. out = Some ps \<longrightarrow> ps_block_hashes_to_store ps = filter (\<lambda>h. h \<notin> held_keys (held m)) hs)"

text \<open>Histories of calls, with the loads in progress and the number of lookups of each hash.\<close>

inductive offload_reach ::
  "('h, 'm) offload_ops \<Rightarrow> ('m \<Rightarrow> ('h \<times> block_status) multiset) \<Rightarrow> 'm \<Rightarrow> ('h \<Rightarrow> nat) \<Rightarrow> ('h \<Rightarrow> nat) \<Rightarrow> 'm \<Rightarrow> bool"
  for ops held m0 where
  off_start: "offload_reach ops held m0 (\<lambda>_. 0) (\<lambda>_. 0) m0"
| off_lookup: "offload_reach ops held m0 loads seen m \<Longrightarrow>
    offload_reach ops held m0 loads (\<lambda>h. seen h + count_list hs h) (snd (op_lookup ops hs m))"
| off_load: "offload_reach ops held m0 loads seen m \<Longrightarrow> op_prepare_load ops hs m = Inr (ids, m') \<Longrightarrow>
    (\<And>h. loads h + count_list hs h < 2 ^ 31) \<Longrightarrow> offload_reach ops held m0 (\<lambda>h. loads h + count_list hs h) seen m'"
| off_touch: "offload_reach ops held m0 loads seen m \<Longrightarrow> offload_reach ops held m0 loads seen (op_touch ops hs m)"
| off_loaded: "offload_reach ops held m0 loads seen m \<Longrightarrow> op_complete_load ops hs m = Inr m' \<Longrightarrow>
    offload_reach ops held m0 (\<lambda>h. loads h - count_list hs h) seen m'"
| off_store: "offload_reach ops held m0 loads seen m \<Longrightarrow> distinct hs \<Longrightarrow> op_prepare_store ops hs m = Inr (out, m') \<Longrightarrow>
    offload_reach ops held m0 loads seen m'"
| off_stored: "offload_reach ops held m0 loads seen m \<Longrightarrow> op_complete_store ops hs success m = Inr m' \<Longrightarrow>
    success \<or> (\<forall>x \<in># held m. fst x \<in> set hs \<longrightarrow> \<not> bs_is_ready (snd x)) \<Longrightarrow> offload_reach ops held m0 loads seen m'"
| off_events: "offload_reach ops held m0 loads seen m \<Longrightarrow> offload_reach ops held m0 loads seen (snd (op_take_events ops m))"

context offloading
begin

lemma reach_inv:
  assumes "offload_reach ops held m0 loads seen m" "cache_inv (\<lambda>_. 0) (held m0) (backend m0)"
  shows "cache_inv loads (held m) (backend m) \<and> (\<forall>h. loads h < 2 ^ 31)"
  using assms(1)
proof induction
  case off_start
  then show ?case using assms(2) by simp
next
  case (off_lookup loads seen m hs)
  then show ?case by (simp add: lookup_keeps)
next
  case (off_load loads seen m hs ids m')
  then show ?case using load_inv by blast
next
  case (off_touch loads seen m hs)
  then show ?case using touch_keeps [of loads m hs] by simp
next
  case (off_loaded loads seen m hs m')
  have "loads h - count_list hs h < 2 ^ 31" for h using off_loaded.IH by (meson diff_le_self le_less_trans)
  then show ?case using off_loaded loaded_inv by blast
next
  case (off_store loads seen m hs out m')
  then show ?case using store_inv [of loads m hs] by auto
next
  case (off_stored loads seen m hs success m')
  then show ?case using stored_inv by blast
next
  case (off_events loads seen m)
  then show ?case by (simp add: events_keep)
qed

text \<open>A block with a load in progress, or being stored, keeps its place through \<open>prepare_store\<close>.\<close>

lemma in_use_stays:
  assumes "cache_inv loads (held m) (backend m)" "distinct hs" "op_prepare_store ops hs m = Inr (out, m')"
    "(h, s) \<in># held m" "0 < loads h \<or> \<not> bs_is_ready s"
  shows "(h, s) \<in># held m'"
proof -
  have "store_effect {} hs (held m) out (held m')" using store_inv [OF assms(1,2)] assms(3) by auto
  then obtain E where E: "\<forall>x \<in># held m. fst x \<in> E \<longrightarrow> evictable {} x" "filter_mset (\<lambda>x. fst x \<notin> E) (held m) \<subseteq># held m'"
    unfolding store_effect_def by (cases out) auto
  have "status_ok (loads h) s" using assms(1,4) by (force simp: cache_inv_def)
  then have "bs_ref_cnt s \<noteq> 0" using assms(5) by (auto simp: status_ok_def bs_is_ready_def)
  then have "h \<notin> E" using E(1) assms(4) by (force simp: evictable_def)
  then have "(h, s) \<in># filter_mset (\<lambda>x. fst x \<notin> E) (held m)" using assms(4) by simp
  then show ?thesis using E(2) by (meson mset_subset_eqD)
qed

end

subsection \<open>Least recently used keeps the contract\<close>

abbreviation lru_held :: "'h lru_manager \<Rightarrow> ('h \<times> block_status) multiset" where
  "lru_held m \<equiv> mset (lm_blocks m)"

lemma alist_split:
  assumes "distinct (map fst d)" "map_of d h = Some s"
  shows "mset d = add_mset (h, s) (mset (AList.delete h d))"
    "mset (AList.update h s' d) = add_mset (h, s') (mset (AList.delete h d))"
proof -
  have "mset d = add_mset (h, s) (mset (AList.delete h d)) \<and> mset (AList.update h s' d) = add_mset (h, s') (mset (AList.delete h d))"
    using assms
  proof (induction d)
    case (Cons x d)
    obtain k v where x: "x = (k, v)" by (cases x)
    show ?case
    proof (cases "h = k")
      case True
      then have "h \<notin> fst ` set d" using Cons.prems(1) x by auto
      then have "AList.delete h d = d" by (simp add: AList.delete_id)
      then show ?thesis using True x Cons.prems(2) by (simp add: AList.delete_eq)
    next
      case False
      then show ?thesis using Cons x by (auto simp: AList.delete_eq add_mset_commute)
    qed
  qed simp
  then show "mset d = add_mset (h, s) (mset (AList.delete h d))"
    "mset (AList.update h s' d) = add_mset (h, s') (mset (AList.delete h d))" by simp_all
qed

lemma count_le_distinct: "(\<And>x. count (mset xs) x \<le> 1) \<Longrightarrow> distinct xs"
  by (simp add: distinct_count_atmost_1 le_Suc_eq count_mset_0_iff)

lemma cache_inv_distinct: "cache_inv loads (mset d) b \<Longrightarrow> distinct (map fst d)"
proof -
  assume inv: "cache_inv loads (mset d) b"
  have "count (mset (map fst d)) h \<le> 1" for h using inv unfolding cache_inv_def mset_map by blast
  then show ?thesis by (rule count_le_distinct)
qed

lemma held_lookup: "distinct (map fst d) \<Longrightarrow> (h, s) \<in># mset d \<longleftrightarrow> map_of d h = Some s"
  by auto

lemma lru_lookup_counts:
  assumes "distinct (map fst (lm_blocks m))"
  shows "lru_lookup hs m = int (length (takeWhile (\<lambda>h. \<exists>s. (h, s) \<in># lru_held m \<and> bs_is_ready s) hs))"
  by (induction hs) (auto simp: held_lookup [OF assms] simp del: set_mset_mset split: option.split)

lemma lru_load_inv:
  "foldR lru_load_one hs (bs, m) = Inr (bs', m') \<Longrightarrow> cache_inv loads (lru_held m) (lm_backend m) \<Longrightarrow>
   (\<And>h. loads h + count_list hs h < 2 ^ 31) \<Longrightarrow> cache_inv (\<lambda>h. loads h + count_list hs h) (lru_held m') (lm_backend m')"
proof (induction hs arbitrary: bs m loads)
  case (Cons h hs)
  obtain s where s: "map_of (lm_blocks m) h = Some s" "bs_is_ready s"
    and r: "foldR lru_load_one hs (bs @ [s\<lparr>bs_ref_cnt := c_int32 (bs_ref_cnt s + 1)\<rparr>],
      m\<lparr>lm_blocks := AList.update h (s\<lparr>bs_ref_cnt := c_int32 (bs_ref_cnt s + 1)\<rparr>) (lm_blocks m)\<rparr>) = Inr (bs', m')"
  proof -
    obtain u where "lru_load_one h (bs, m) = Inr u" "foldR lru_load_one hs u = Inr (bs', m')" using Cons.prems(1) by (auto simp: bindR_eq_Inr)
    then show ?thesis using that by (auto simp: lru_load_one_def [of h] blocks_at_def bindR_eq_Inr Let_def split: option.split_asm)
  qed
  note sp = alist_split [OF cache_inv_distinct [OF Cons.prems(2)] s(1)]
  have le: "loads h + 1 < 2 ^ 31" using Cons.prems(3) [of h] by simp
  have inv: "cache_inv (loads(h := loads h + 1)) (mset (AList.update h (s\<lparr>bs_ref_cnt := c_int32 (bs_ref_cnt s + 1)\<rparr>) (lm_blocks m))) (lm_backend m)"
    unfolding sp(2) by (rule cache_inv_loaded [OF Cons.prems(2) [unfolded sp(1)] s(2) le])
  have eq: "(loads(h := loads h + 1)) x + count_list hs x = loads x + count_list (h # hs) x" for x by auto
  have "cache_inv (\<lambda>x. (loads(h := loads h + 1)) x + count_list hs x) (lru_held m') (lm_backend m')"
  proof (rule Cons.IH [OF r, of "loads(h := loads h + 1)"])
    show "(loads(h := loads h + 1)) x + count_list hs x < 2 ^ 31" for x unfolding eq by (rule Cons.prems(3))
  qed (use inv in \<open>simp del: fun_upd_apply\<close>)
  then show ?case by (simp only: eq)
qed simp

lemma lru_loaded_inv:
  "foldR lru_complete_load_one hs m = Inr m' \<Longrightarrow> cache_inv loads (lru_held m) (lm_backend m) \<Longrightarrow>
   (\<And>h. loads h < 2 ^ 31) \<Longrightarrow> cache_inv (\<lambda>h. loads h - count_list hs h) (lru_held m') (lm_backend m')"
proof (induction hs arbitrary: m loads)
  case (Cons h hs)
  obtain s where s: "map_of (lm_blocks m) h = Some s" "0 < bs_ref_cnt s"
    and r: "foldR lru_complete_load_one hs
      (m\<lparr>lm_blocks := AList.update h (s\<lparr>bs_ref_cnt := c_int32 (bs_ref_cnt s - 1)\<rparr>) (lm_blocks m)\<rparr>) = Inr m'"
  proof -
    obtain u where "lru_complete_load_one h m = Inr u" "foldR lru_complete_load_one hs u = Inr m'" using Cons.prems(1) by (auto simp: bindR_eq_Inr)
    then show ?thesis using that by (auto simp: lru_complete_load_one_def [of h] blocks_at_def bindR_eq_Inr Let_def split: option.split_asm)
  qed
  note sp = alist_split [OF cache_inv_distinct [OF Cons.prems(2)] s(1)]
  have inv: "cache_inv (loads(h := loads h - 1)) (mset (AList.update h (s\<lparr>bs_ref_cnt := c_int32 (bs_ref_cnt s - 1)\<rparr>) (lm_blocks m))) (lm_backend m)"
    unfolding sp(2) by (rule cache_inv_unloaded [OF Cons.prems(2) [unfolded sp(1)] s(2) Cons.prems(3)])
  have lt: "(loads(h := loads h - 1)) x < 2 ^ 31" for x using Cons.prems(3) [of x] Cons.prems(3) [of h] by (auto intro: le_less_trans)
  have eq: "(loads(h := loads h - 1)) x - count_list hs x = loads x - count_list (h # hs) x" for x by auto
  have "cache_inv (\<lambda>x. (loads(h := loads h - 1)) x - count_list hs x) (lru_held m') (lm_backend m')"
  proof (rule Cons.IH [OF r, of "loads(h := loads h - 1)"])
    show "(loads(h := loads h - 1)) x < 2 ^ 31" for x by (rule lt)
  qed (use inv in \<open>simp del: fun_upd_apply\<close>)
  then show ?case by (simp only: eq)
qed simp

lemma move_to_end_mset:
  assumes "distinct (map fst d)"
  shows "mset (move_to_end h d) = mset d"
  using alist_split(1) [OF assms] by (simp add: move_to_end_def split: option.split)

lemma lru_touch_keeps:
  assumes "distinct (map fst (lm_blocks m))"
  shows "lru_held (lru_touch hs m) = lru_held m" "lm_backend (lru_touch hs m) = lm_backend m"
proof -
  have "lru_held (fold (\<lambda>h m. m\<lparr>lm_blocks := move_to_end h (lm_blocks m)\<rparr>) xs m) = lru_held m
    \<and> lm_backend (fold (\<lambda>h m. m\<lparr>lm_blocks := move_to_end h (lm_blocks m)\<rparr>) xs m) = lm_backend m"
    if "distinct (map fst (lm_blocks m))" for xs and m :: "'a lru_manager"
    using that
  proof (induction xs arbitrary: m)
    case (Cons h xs)
    let ?m = "m\<lparr>lm_blocks := move_to_end h (lm_blocks m)\<rparr>"
    have "mset (map fst (move_to_end h (lm_blocks m))) = mset (map fst (lm_blocks m))" by (simp add: move_to_end_mset [OF Cons.prems])
    then have "distinct (map fst (lm_blocks ?m))" using Cons.prems mset_eq_imp_distinct_iff by (simp del: mset_map) blast
    from Cons.IH [OF this] show ?case by (simp add: move_to_end_mset [OF Cons.prems])
  qed simp
  from this [OF assms] show "lru_held (lru_touch hs m) = lru_held m" "lm_backend (lru_touch hs m) = lm_backend m"
    by (simp_all add: lru_touch_def)
qed

text \<open>Storing: the victims are the first evictable blocks.\<close>

lemma lru_victims_take:
  "0 < n \<Longrightarrow> lru_victims P d n =
     (if int (length (filter (evictable P) d)) < n then None else Some (map fst (take (nat n) (filter (evictable P) d))))"
proof (induction d arbitrary: n)
  case (Cons x d)
  show ?case
  proof (cases "evictable P x \<and> n - 1 \<noteq> 0")
    case True
    then have "0 < n - 1" "nat n = Suc (nat (n - 1))" using Cons.prems by auto
    then show ?thesis using True Cons.IH [of "n - 1"] by auto
  next
    case False
    then show ?thesis using Cons.IH [OF Cons.prems] Cons.prems by (auto simp: nat_eq_iff2)
  qed
qed simp

lemma cb_free_count [simp]: "cb_get_num_free_blocks (cb_free s b) = cb_get_num_free_blocks b + 1"
  by (simp add: cb_get_num_free_blocks_def cb_free_def)

lemma evictable_idle:
  assumes "cache_inv loads M b" "x \<in># M" "evictable P x"
  shows "loads (fst x) = 0"
  using assms by (auto simp: cache_inv_def evictable_def status_ok_def)

lemma lru_evict_all:
  assumes "cache_inv loads (lru_held m) (lm_backend m)" "set xs \<subseteq> set (lm_blocks m)" "distinct (map fst xs)" "\<forall>x \<in> set xs. evictable P x"
  shows "\<exists>m1. foldR lru_evict (map fst xs) m = Inr m1 \<and> cache_inv loads (lru_held m1) (lm_backend m1)
    \<and> lm_blocks m1 = filter (\<lambda>x. fst x \<notin> fst ` set xs) (lm_blocks m) \<and> lm_events m1 = lm_events m
    \<and> cb_get_num_free_blocks (lm_backend m1) = cb_get_num_free_blocks (lm_backend m) + int (length xs)"
  using assms
proof (induction xs arbitrary: m)
  case (Cons x xs)
  let ?h = "fst x" and ?s = "snd x"
  let ?m = "m\<lparr>lm_blocks := AList.delete ?h (lm_blocks m), lm_backend := cb_free ?s (lm_backend m)\<rparr>"
  have d: "distinct (map fst (lm_blocks m))" by (rule cache_inv_distinct [OF Cons.prems(1)])
  have s: "map_of (lm_blocks m) ?h = Some ?s" using d Cons.prems(2) by simp
  have inv: "cache_inv loads (mset (AList.delete ?h (lm_blocks m))) (cb_free ?s (lm_backend m))"
  proof (rule cache_inv_free)
    show "cache_inv loads (add_mset (?h, ?s) (mset (AList.delete ?h (lm_blocks m)))) (lm_backend m)"
      using Cons.prems(1) unfolding alist_split(1) [OF d s] .
    show "loads ?h = 0" by (rule evictable_idle [OF Cons.prems(1)]) (use Cons.prems in auto)
  qed
  have sub: "set xs \<subseteq> set (lm_blocks ?m)"
  proof
    fix y assume y: "y \<in> set xs"
    have "?h \<notin> fst ` set xs" using Cons.prems(3) by simp
    then have "fst y \<noteq> ?h" using y by (metis imageI)
    then show "y \<in> set (lm_blocks ?m)" using y Cons.prems(2) by (auto simp: AList.delete_eq case_prod_beta)
  qed
  obtain m1 where m1: "foldR lru_evict (map fst xs) ?m = Inr m1" "cache_inv loads (lru_held m1) (lm_backend m1)"
    "lm_blocks m1 = filter (\<lambda>x. fst x \<notin> fst ` set xs) (lm_blocks ?m)" "lm_events m1 = lm_events m"
    "cb_get_num_free_blocks (lm_backend m1) = cb_get_num_free_blocks (lm_backend ?m) + int (length xs)"
    using Cons.IH [of ?m] inv sub Cons.prems(3,4) by auto
  have "lru_evict ?h m = Inr ?m" using s by (simp add: lru_evict_def blocks_at_def)
  then have "foldR lru_evict (map fst (x # xs)) m = Inr m1" using m1(1) by simp
  moreover have "lm_blocks m1 = filter (\<lambda>y. fst y \<notin> fst ` set (x # xs)) (lm_blocks m)"
    unfolding m1(3) by (auto simp: AList.delete_eq intro!: filter_cong)
  ultimately show ?case using m1 by (intro exI [of _ m1]) simp
qed simp

lemma update_fresh: "k \<notin> dict_keys d \<Longrightarrow> AList.update k v d = d @ [(k, v)]"
  by (induction d) auto

lemma updates_fresh:
  "length ks = length vs \<Longrightarrow> distinct ks \<Longrightarrow> set ks \<inter> dict_keys d = {} \<Longrightarrow> fold (\<lambda>(h, s). AList.update h s) (zip ks vs) d = d @ zip ks vs"
proof (induction ks vs arbitrary: d rule: list_induct2)
  case (Cons k ks v vs)
  have "AList.update k v d = d @ [(k, v)]" using Cons.prems by (simp add: update_fresh)
  moreover have "fold (\<lambda>(h, s). AList.update h s) (zip ks vs) (d @ [(k, v)]) = (d @ [(k, v)]) @ zip ks vs"
    by (rule Cons.IH) (use Cons.prems in auto)
  ultimately show ?case by simp
qed simp

lemma cpu_block_statuses: "\<forall>s \<in> set bs. bs_ref_cnt s = - 1 \<Longrightarrow> map cpu_block_status (map bs_block_id bs) = bs"
  by (induction bs) (auto simp: cpu_block_status_def)

lemma lru_prepare_store_spec:
  fixes hs :: "'h list"
  assumes inv: "cache_inv loads (lru_held m) (lm_backend m)" and dist: "distinct hs"
  defines "new \<equiv> filter (\<lambda>h. h \<notin> dict_keys (lm_blocks m)) hs"
    and "room \<equiv> cb_get_num_free_blocks (lm_backend m) + int (length (filter (evictable (set hs)) (lm_blocks m)))"
  shows "if int (length new) > room then lru_prepare_store hs m = Inr (None, m)
    else \<exists>ps m'. lru_prepare_store hs m = Inr (Some ps, m') \<and> cache_inv loads (lru_held m') (lm_backend m')
      \<and> store_effect (set hs) hs (lru_held m) (Some ps) (lru_held m') \<and> ps_block_hashes_to_store ps = new"
proof -
  let ?n = "int (length new) - cb_get_num_free_blocks (lm_backend m)" and ?ev = "filter (evictable (set hs)) (lm_blocks m)"
  show ?thesis
  proof (cases "int (length new) > room")
    case True
    then have "0 < ?n" "int (length ?ev) < ?n" by (auto simp: room_def)
    then have "(if ?n > 0 then lru_victims (set hs) (lm_blocks m) ?n else Some []) = None" by (simp add: lru_victims_take)
    then show ?thesis using True by (simp only: lru_prepare_store_def Let_def new_def [symmetric] option.case if_True)
  next
    case False
    let ?xs = "take (nat ?n) ?ev"
    have v: "(if ?n > 0 then lru_victims (set hs) (lm_blocks m) ?n else Some []) = Some (map fst ?xs)"
      using False by (simp add: lru_victims_take room_def)
    have len: "int (length ?xs) = max ?n 0" using False by (auto simp: room_def)
    have d: "distinct (map fst (lm_blocks m))" by (rule cache_inv_distinct [OF inv])
    have xs: "set ?xs \<subseteq> set (lm_blocks m)" "distinct (map fst ?xs)" "\<forall>x \<in> set ?xs. evictable (set hs) x"
    proof -
      show "set ?xs \<subseteq> set (lm_blocks m)" "\<forall>x \<in> set ?xs. evictable (set hs) x" by (auto dest: in_set_takeD)
      show "distinct (map fst ?xs)" using d by (simp add: take_map [symmetric] distinct_map_filter)
    qed
    obtain m1 where m1: "foldR lru_evict (map fst ?xs) m = Inr m1" "cache_inv loads (lru_held m1) (lm_backend m1)"
      "lm_blocks m1 = filter (\<lambda>x. fst x \<notin> fst ` set ?xs) (lm_blocks m)"
      "cb_get_num_free_blocks (lm_backend m1) = cb_get_num_free_blocks (lm_backend m) + int (length ?xs)"
      using lru_evict_all [OF inv xs] by blast
    have fresh: "distinct new" "set new \<inter> dict_keys (lm_blocks m1) = {}" "set new \<subseteq> set hs - dict_keys (lm_blocks m)"
      using dist m1(3) by (auto simp: new_def)
    have fit: "int (length new) \<le> cb_get_num_free_blocks (lm_backend m1)" using m1(4) len by linarith
    obtain bs b where a: "cb_allocate_blocks new (lm_backend m1) = Inr (bs, b)" "length bs = length new"
      "cache_inv loads (lru_held m1 + mset (zip new bs)) b" "\<forall>s \<in> set bs. bs_ref_cnt s = - 1"
      by (rule cache_inv_alloc [OF m1(2) fit fresh(1)]) (use fresh(2) in auto)
    define ps where "ps = \<lparr>ps_block_hashes_to_store = new, ps_store_spec = cb_get_load_store_spec bs, ps_block_hashes_evicted = map fst ?xs\<rparr>"
    define m2 where "m2 = m1\<lparr>lm_events := add_event (map fst ?xs) (lm_backend m1) True (lm_events m1), lm_backend := b,
      lm_blocks := fold (\<lambda>(h, s). AList.update h s) (zip new bs) (lm_blocks m1)\<rparr>"
    have run: "lru_prepare_store hs m = Inr (Some ps, m2)"
      unfolding lru_prepare_store_def Let_def new_def [symmetric] v using m1(1) a(1,2) by (simp add: ps_def m2_def)
    have blocks: "lm_blocks m2 = lm_blocks m1 @ zip new bs" "lm_backend m2 = b"
      using updates_fresh [OF a(2) [symmetric] fresh(1,2)] by (simp_all add: m2_def)
    have eff: "store_effect (set hs) hs (lru_held m) (Some ps) (lru_held m2)"
      unfolding store_effect_def option.case
    proof (intro exI [of _ "fst ` set ?xs"] conjI)
      show "\<forall>x \<in># lru_held m. fst x \<in> fst ` set ?xs \<longrightarrow> evictable (set hs) x"
      proof (intro ballI impI)
        fix x assume x: "x \<in># lru_held m" "fst x \<in> fst ` set ?xs"
        then obtain y where y: "y \<in> set ?xs" "fst y = fst x" by auto
        then have "y \<in> set (lm_blocks m)" using xs(1) by blast
        then have "y = x" using x(1) y(2) d by (metis eq_key_imp_eq_value prod.collapse set_mset_mset)
        then show "evictable (set hs) x" using xs(3) y(1) by blast
      qed
      show "fst ` set ?xs \<subseteq> held_keys (lru_held m)" using xs(1) by auto
      show "lru_held m2 = filter_mset (\<lambda>x. fst x \<notin> fst ` set ?xs) (lru_held m)
          + mset (zip (ps_block_hashes_to_store ps) (map cpu_block_status (ps_store_spec ps)))"
        using a(4) by (simp add: blocks m1(3) ps_def cb_get_load_store_spec_def cpu_block_statuses [unfolded map_map])
    qed (use fresh a(2) in \<open>simp_all add: ps_def cb_get_load_store_spec_def\<close>)
    have "cache_inv loads (lru_held m2) (lm_backend m2)" using a(3) by (simp add: blocks)
    then show ?thesis using False run eff by (auto simp: ps_def)
  qed
qed

lemma lru_stored_inv:
  "foldR lru_store_done hs (st, m) = Inr (st', m') \<Longrightarrow> cache_inv loads (lru_held m) (lm_backend m) \<Longrightarrow> cache_inv loads (lru_held m') (lm_backend m')"
proof (induction hs arbitrary: st m)
  case (Cons h hs)
  obtain u where u: "lru_store_done h (st, m) = Inr u" "foldR lru_store_done hs u = Inr (st', m')" using Cons.prems(1) by (auto simp: bindR_eq_Inr)
  obtain s where s: "map_of (lm_blocks m) h = Some s" using u(1) by (auto simp: lru_store_done_def blocks_at_def split: option.split_asm)
  note sp = alist_split [OF cache_inv_distinct [OF Cons.prems(2)] s]
  have "cache_inv loads (lru_held (snd u)) (lm_backend (snd u))"
  proof (cases "bs_is_ready s")
    case True
    then show ?thesis using u(1) s Cons.prems(2) by (auto simp: lru_store_done_def blocks_at_def)
  next
    case False
    then have u': "snd u = m\<lparr>lm_blocks := AList.update h (s\<lparr>bs_ref_cnt := 0\<rparr>) (lm_blocks m)\<rparr>" using u(1) s by (auto simp: lru_store_done_def blocks_at_def)
    from cache_inv_pending(2) [OF Cons.prems(2) [unfolded sp(1)] False] show ?thesis by (simp add: u' sp(2))
  qed
  then show ?case using Cons.IH [of "fst u" "snd u"] u(2) by simp
qed simp

lemma lru_failed_inv:
  "foldR lru_store_failed hs m = Inr m' \<Longrightarrow> cache_inv loads (lru_held m) (lm_backend m) \<Longrightarrow> cache_inv loads (lru_held m') (lm_backend m')"
proof (induction hs arbitrary: m)
  case (Cons h hs)
  obtain u where u: "lru_store_failed h m = Inr u" "foldR lru_store_failed hs u = Inr m'" using Cons.prems(1) by (auto simp: bindR_eq_Inr)
  obtain s where s: "map_of (lm_blocks m) h = Some s" using u(1) by (auto simp: lru_store_failed_def blocks_at_def split: option.split_asm)
  note sp = alist_split [OF cache_inv_distinct [OF Cons.prems(2)] s]
  have "cache_inv loads (lru_held u) (lm_backend u)"
  proof (cases "bs_is_ready s")
    case True
    then show ?thesis using u(1) s Cons.prems(2) by (auto simp: lru_store_failed_def blocks_at_def)
  next
    case False
    then have u': "u = m\<lparr>lm_backend := cb_free s (lm_backend m), lm_blocks := AList.delete h (lm_blocks m)\<rparr>"
      using u(1) s by (auto simp: lru_store_failed_def blocks_at_def)
    note held = Cons.prems(2) [unfolded sp(1)]
    from cache_inv_free [OF held cache_inv_pending(1) [OF held False]] show ?thesis by (simp add: u')
  qed
  then show ?case by (rule Cons.IH [OF u(2)])
qed simp

lemma lru_complete_store_inv:
  assumes "lru_complete_store hs success m = Inr m'" "cache_inv loads (lru_held m) (lm_backend m)"
  shows "cache_inv loads (lru_held m') (lm_backend m')"
proof (cases success)
  case True
  then obtain st m1 where "foldR lru_store_done hs ([], m) = Inr (st, m1)" "m' = m1\<lparr>lm_events := add_event st (lm_backend m1) False (lm_events m1)\<rparr>"
    using assms(1) by (auto simp: lru_complete_store_def bindR_eq_Inr)
  then show ?thesis using lru_stored_inv [of hs "[]" m st m1] assms(2) by simp
next
  case False
  then show ?thesis using assms lru_failed_inv by (auto simp: lru_complete_store_def)
qed

interpretation lru: storing lru_ops lru_held lm_backend
proof (unfold_locales, goal_cases)
  case (1 loads m hs)
  then show ?case using lru_lookup_counts [OF cache_inv_distinct] by (simp add: lru_ops_def)
next
  case (4 loads m hs ids m')
  then obtain bs where "foldR lru_load_one hs ([], m) = Inr (bs, m')" by (auto simp: lru_ops_def lru_prepare_load_def bindR_eq_Inr)
  then show ?case using lru_load_inv 4 by blast
next
  case (5 loads m hs)
  then show ?case using lru_touch_keeps [OF cache_inv_distinct [OF 5], of hs] by (simp add: lru_ops_def)
next
  case (6 loads m hs m')
  then show ?case using lru_loaded_inv [of hs m m' loads] by (simp add: lru_ops_def lru_complete_load_def)
next
  case (7 loads m hs)
  show ?case
  proof (cases "int (length (filter (\<lambda>h. h \<notin> dict_keys (lm_blocks m)) hs))
      > cb_get_num_free_blocks (lm_backend m) + int (length (filter (evictable (set hs)) (lm_blocks m)))")
    case True
    then have "lru_prepare_store hs m = Inr (None, m)" using lru_prepare_store_spec [OF 7] by simp
    moreover have "store_effect {} hs (lru_held m) None (lru_held m)" unfolding store_effect_def by (intro exI [of _ "{}"]) simp
    ultimately show ?thesis using 7(1) by (simp add: lru_ops_def)
  next
    case False
    then obtain ps m' where "lru_prepare_store hs m = Inr (Some ps, m')" "cache_inv loads (lru_held m') (lm_backend m')"
      "store_effect (set hs) hs (lru_held m) (Some ps) (lru_held m')" using lru_prepare_store_spec [OF 7] by auto
    then show ?thesis using store_effect_weaken [of "set hs" hs _ _ _ "{}" hs] by (auto simp: lru_ops_def)
  qed
next
  case (8 loads m hs success m')
  then show ?case using lru_complete_store_inv by (simp add: lru_ops_def)
next
  case (11 loads m hs out m')
  show ?case
  proof (cases "int (length (filter (\<lambda>h. h \<notin> dict_keys (lm_blocks m)) hs))
      > cb_get_num_free_blocks (lm_backend m) + int (length (filter (evictable (set hs)) (lm_blocks m)))")
    case True
    then have "lru_prepare_store hs m = Inr (None, m)" using lru_prepare_store_spec [OF 11(1,2)] by simp
    then have "out = None" "m' = m" using 11(3) by (simp_all add: lru_ops_def)
    moreover have "store_effect (set hs) hs (lru_held m) None (lru_held m)" unfolding store_effect_def by (intro exI [of _ "{}"]) simp
    ultimately show ?thesis by simp
  next
    case False
    then obtain ps m2 where "lru_prepare_store hs m = Inr (Some ps, m2)"
      "store_effect (set hs) hs (lru_held m) (Some ps) (lru_held m2)" "ps_block_hashes_to_store ps = filter (\<lambda>h. h \<notin> dict_keys (lm_blocks m)) hs"
      using lru_prepare_store_spec [OF 11(1,2)] by auto
    then show ?thesis using 11(3) by (auto simp: lru_ops_def)
  qed
qed (simp_all add: lru_ops_def lru_take_events_def split: option.split)

subsection \<open>Adaptive replacement keeps the contract\<close>

abbreviation arc_held :: "('h, 'f) arc_manager \<Rightarrow> ('h \<times> block_status) multiset" where
  "arc_held m \<equiv> mset (am_t1 m @ am_t2 m)"

lemma arc_get_map: "arc_get m h = map_of (am_t1 m @ am_t2 m) h"
  by (simp add: arc_get_def map_add_def split: option.split)

lemma arc_split:
  assumes "distinct (map fst (am_t1 m @ am_t2 m))" "arc_get m h = Some s"
  obtains M where "arc_held m = add_mset (h, s) M" "\<forall>s'. arc_held (arc_put h s' m) = add_mset (h, s') M"
    "\<forall>s'. am_backend (arc_put h s' m) = am_backend m"
proof (cases "map_of (am_t1 m) h")
  case (Some t)
  then have t: "map_of (am_t1 m) h = Some s" "h \<in> dict_keys (am_t1 m)" using assms(2) map_of_SomeD [OF Some] by (auto simp: arc_get_def intro: rev_image_eqI)
  have "distinct (map fst (am_t1 m))" using assms(1) by simp
  note sp = alist_split [OF this t(1)]
  show ?thesis using that [of "mset (AList.delete h (am_t1 m)) + mset (am_t2 m)"] sp t(2) by (simp add: arc_put_def)
next
  case None
  then have t: "map_of (am_t2 m) h = Some s" "h \<notin> dict_keys (am_t1 m)" using assms(2) None [unfolded map_of_eq_None_iff] by (simp_all add: arc_get_def)
  have "distinct (map fst (am_t2 m))" using assms(1) by simp
  note sp = alist_split [OF this t(1)]
  show ?thesis using that [of "mset (am_t1 m) + mset (AList.delete h (am_t2 m))"] sp t(2) by (simp add: arc_put_def)
qed

lemma arc_lookup_counts:
  assumes "distinct (map fst (am_t1 m @ am_t2 m))"
  shows "arc_lookup hs m = int (length (takeWhile (\<lambda>h. \<exists>s. (h, s) \<in># arc_held m \<and> bs_is_ready s) hs))"
  by (induction hs) (auto simp: held_lookup [OF assms] arc_get_map simp del: set_mset_mset mset_append map_of_append split: option.split)

lemma arc_load_inv:
  "foldR arc_load_one hs (bs, m) = Inr (bs', m') \<Longrightarrow> cache_inv loads (arc_held m) (am_backend m) \<Longrightarrow>
   (\<And>h. loads h + count_list hs h < 2 ^ 31) \<Longrightarrow> cache_inv (\<lambda>h. loads h + count_list hs h) (arc_held m') (am_backend m')"
proof (induction hs arbitrary: bs m loads)
  case (Cons h hs)
  obtain s where s: "arc_get m h = Some s" "bs_is_ready s"
    and r: "foldR arc_load_one hs (bs @ [s\<lparr>bs_ref_cnt := c_int32 (bs_ref_cnt s + 1)\<rparr>],
      arc_put h (s\<lparr>bs_ref_cnt := c_int32 (bs_ref_cnt s + 1)\<rparr>) m) = Inr (bs', m')"
  proof -
    obtain u where "arc_load_one h (bs, m) = Inr u" "foldR arc_load_one hs u = Inr (bs', m')" using Cons.prems(1) by (auto simp: bindR_eq_Inr)
    then show ?thesis using that by (auto simp: arc_load_one_def [of h] bindR_eq_Inr Let_def split: option.split_asm)
  qed
  obtain M where M: "arc_held m = add_mset (h, s) M" "\<forall>s'. arc_held (arc_put h s' m) = add_mset (h, s') M"
    "\<forall>s'. am_backend (arc_put h s' m) = am_backend m"
    by (rule arc_split [OF cache_inv_distinct [OF Cons.prems(2)] s(1)])
  have le: "loads h + 1 < 2 ^ 31" using Cons.prems(3) [of h] by simp
  have eq: "(loads(h := loads h + 1)) x + count_list hs x = loads x + count_list (h # hs) x" for x by auto
  have "cache_inv (\<lambda>x. (loads(h := loads h + 1)) x + count_list hs x) (arc_held m') (am_backend m')"
  proof (rule Cons.IH [OF r, of "loads(h := loads h + 1)"])
    show "(loads(h := loads h + 1)) x + count_list hs x < 2 ^ 31" for x unfolding eq by (rule Cons.prems(3))
  qed (unfold M(2,3) [rule_format], rule cache_inv_loaded [OF Cons.prems(2) [unfolded M(1)] s(2) le])
  then show ?case by (simp only: eq)
qed simp

lemma arc_loaded_inv:
  "foldR arc_complete_load_one hs m = Inr m' \<Longrightarrow> cache_inv loads (arc_held m) (am_backend m) \<Longrightarrow>
   (\<And>h. loads h < 2 ^ 31) \<Longrightarrow> cache_inv (\<lambda>h. loads h - count_list hs h) (arc_held m') (am_backend m')"
proof (induction hs arbitrary: m loads)
  case (Cons h hs)
  obtain s where s: "arc_get m h = Some s" "0 < bs_ref_cnt s"
    and r: "foldR arc_complete_load_one hs (arc_put h (s\<lparr>bs_ref_cnt := c_int32 (bs_ref_cnt s - 1)\<rparr>) m) = Inr m'"
  proof -
    obtain u where "arc_complete_load_one h m = Inr u" "foldR arc_complete_load_one hs u = Inr m'" using Cons.prems(1) by (auto simp: bindR_eq_Inr)
    then show ?thesis using that by (auto simp: arc_complete_load_one_def [of h] bindR_eq_Inr split: option.split_asm)
  qed
  obtain M where M: "arc_held m = add_mset (h, s) M" "\<forall>s'. arc_held (arc_put h s' m) = add_mset (h, s') M"
    "\<forall>s'. am_backend (arc_put h s' m) = am_backend m"
    by (rule arc_split [OF cache_inv_distinct [OF Cons.prems(2)] s(1)])
  have eq: "(loads(h := loads h - 1)) x - count_list hs x = loads x - count_list (h # hs) x" for x by auto
  have "cache_inv (\<lambda>x. (loads(h := loads h - 1)) x - count_list hs x) (arc_held m') (am_backend m')"
  proof (rule Cons.IH [OF r, of "loads(h := loads h - 1)"])
    show "(loads(h := loads h - 1)) x < 2 ^ 31" for x using Cons.prems(3) [of x] Cons.prems(3) [of h] by (auto intro: le_less_trans)
  qed (unfold M(2,3) [rule_format], rule cache_inv_unloaded [OF Cons.prems(2) [unfolded M(1)] s(2) Cons.prems(3)])
  then show ?case by (simp only: eq)
qed simp

lemma arc_touch_one_keeps:
  assumes d: "distinct (map fst (am_t1 m @ am_t2 m))"
  shows "arc_held (arc_touch_one fa h m) = arc_held m" "am_backend (arc_touch_one fa h m) = am_backend m"
proof -
  have d1: "distinct (map fst (am_t1 m))" and d2: "distinct (map fst (am_t2 m))" using d by simp_all
  show "am_backend (arc_touch_one fa h m) = am_backend m" by (simp add: arc_touch_one_def Let_def split: option.split)
  show "arc_held (arc_touch_one fa h m) = arc_held m"
  proof (cases "map_of (am_t1 m) h")
    case None
    then show ?thesis by (simp add: arc_touch_one_def Let_def move_to_end_mset [OF d2])
  next
    case (Some s)
    have "h \<in> dict_keys (am_t1 m)" using map_of_SomeD [OF Some] by (auto intro: rev_image_eqI)
    then have "h \<notin> dict_keys (am_t2 m)" using d by (auto simp: disjoint_iff)
    then show ?thesis using Some alist_split(1) [OF d1 Some] by (simp add: arc_touch_one_def update_fresh)
  qed
qed

lemma arc_touch_keeps:
  assumes "distinct (map fst (am_t1 m @ am_t2 m))"
  shows "arc_held (arc_touch fa hs m) = arc_held m \<and> am_backend (arc_touch fa hs m) = am_backend m"
proof -
  have "arc_held (fold (arc_touch_one fa) xs m) = arc_held m \<and> am_backend (fold (arc_touch_one fa) xs m) = am_backend m"
    if "distinct (map fst (am_t1 m @ am_t2 m))" for xs and m :: "('a, 'b) arc_manager"
    using that
  proof (induction xs arbitrary: m)
    case (Cons h xs)
    let ?m = "arc_touch_one fa h m"
    note k = arc_touch_one_keeps [OF Cons.prems, of fa h]
    have "mset (map fst (am_t1 ?m @ am_t2 ?m)) = mset (map fst (am_t1 m @ am_t2 m))" using arg_cong [OF k(1), of "image_mset fst"] by simp
    then have "distinct (map fst (am_t1 ?m @ am_t2 ?m))" using Cons.prems mset_eq_imp_distinct_iff by blast
    from Cons.IH [OF this] k show ?case by simp
  qed simp
  from this [OF assms] show ?thesis by (simp add: arc_touch_def)
qed

text \<open>An evicted block was in use by no load and was not asked for.\<close>

lemma arc_victim_spec:
  assumes "arc_victim fa P m = Some (t, h, s)"
  shows "evictable P (h, s)" "(h, s) \<in> set (if t then am_t1 m else am_t2 m)"
  using assms by (auto simp: arc_victim_def find_Some_iff split: option.split_asm if_split_asm)

lemma arc_evict_spec:
  assumes d: "distinct (map fst (am_t1 m @ am_t2 m))" and mem: "(h, s) \<in> set (if t then am_t1 m else am_t2 m)"
  shows "arc_held m = add_mset (h, s) (arc_held (arc_evict t h s m))" "am_backend (arc_evict t h s m) = cb_free s (am_backend m)"
    "am_events (arc_evict t h s m) = am_events m" "am_cache_capacity (arc_evict t h s m) = am_cache_capacity m"
proof -
  have d1: "distinct (map fst (am_t1 m))" and d2: "distinct (map fst (am_t2 m))" using d by simp_all
  show "am_backend (arc_evict t h s m) = cb_free s (am_backend m)" "am_events (arc_evict t h s m) = am_events m"
    "am_cache_capacity (arc_evict t h s m) = am_cache_capacity m" by (simp_all add: arc_evict_def)
  show "arc_held m = add_mset (h, s) (arc_held (arc_evict t h s m))"
  proof (cases t)
    case True
    then have "map_of (am_t1 m) h = Some s" using mem d1 by simp
    then show ?thesis using True alist_split(1) [OF d1] by (simp add: arc_evict_def)
  next
    case False
    then have "map_of (am_t2 m) h = Some s" using mem d2 by simp
    then show ?thesis using False alist_split(1) [OF d2] by (simp add: arc_evict_def)
  qed
qed

lemma filter_evicted:
  assumes "h \<notin> held_keys M"
  shows "filter_mset (\<lambda>x. fst x \<notin> insert h E) (add_mset (h, s) M) = filter_mset (\<lambda>x. fst x \<notin> E) M"
proof -
  have "fst x \<noteq> h" if "x \<in># M" for x using assms that by (metis imageI)
  then show ?thesis by (auto intro!: filter_mset_cong)
qed

lemma arc_evict_loop_spec:
  "arc_evict_loop fa P n ev m = (ok, ev', m1) \<Longrightarrow> cache_inv loads (arc_held m) (am_backend m) \<Longrightarrow>
   \<exists>vs. ev' = ev @ vs \<and> cache_inv loads (arc_held m1) (am_backend m1)
     \<and> arc_held m1 = filter_mset (\<lambda>x. fst x \<notin> set vs) (arc_held m) \<and> set vs \<subseteq> held_keys (arc_held m)
     \<and> (\<forall>x \<in># arc_held m. fst x \<in> set vs \<longrightarrow> evictable P x)
     \<and> (ok \<longrightarrow> cb_get_num_free_blocks (am_backend m1) = cb_get_num_free_blocks (am_backend m) + int n)"
proof (induction fa P n ev m rule: arc_evict_loop.induct)
  case (1 fa P ev m)
  then show ?case by (intro exI [of _ "[]"]) simp
next
  case (2 fa P n ev m)
  show ?case
  proof (cases "arc_victim fa P m")
    case None
    then show ?thesis using "2.prems" by (intro exI [of _ "[]"]) simp
  next
    case (Some v)
    obtain t h s where v: "v = (t, h, s)" by (cases v)
    let ?m = "arc_evict t h s m"
    note vic = arc_victim_spec [OF Some [unfolded v]]
    note e = arc_evict_spec [OF cache_inv_distinct [OF "2.prems"(2)] vic(2)]
    note held = "2.prems"(2) [unfolded e(1)]
    have idle: "loads h = 0" using evictable_idle [OF "2.prems"(2) _ vic(1)] vic(2) by (cases t) auto
    have inv: "cache_inv loads (arc_held ?m) (am_backend ?m)" unfolding e(2) by (rule cache_inv_free [OF held idle])
    have h: "h \<notin> held_keys (arc_held ?m)" by (rule cache_inv_unique [OF held])
    have run: "arc_evict_loop fa P n (ev @ [h]) ?m = (ok, ev', m1)" using "2.prems"(1) Some v by simp
    obtain vs where vs: "ev' = (ev @ [h]) @ vs" "cache_inv loads (arc_held m1) (am_backend m1)"
      "arc_held m1 = filter_mset (\<lambda>x. fst x \<notin> set vs) (arc_held ?m)" "set vs \<subseteq> held_keys (arc_held ?m)"
      "\<forall>x \<in># arc_held ?m. fst x \<in> set vs \<longrightarrow> evictable P x"
      "ok \<longrightarrow> cb_get_num_free_blocks (am_backend m1) = cb_get_num_free_blocks (am_backend ?m) + int n"
      using "2.IH" [OF Some v [symmetric] refl run inv] by (elim exE conjE)
    have "arc_held m1 = filter_mset (\<lambda>x. fst x \<notin> set (h # vs)) (arc_held m)"
      unfolding e(1) vs(3) using filter_evicted [OF h, of "set vs" s] by simp
    moreover have "set (h # vs) \<subseteq> held_keys (arc_held m)" unfolding e(1) using vs(4) by auto
    moreover have "\<forall>x \<in># arc_held m. fst x \<in> set (h # vs) \<longrightarrow> evictable P x"
    proof (intro ballI impI)
      fix x assume x: "x \<in># arc_held m" "fst x \<in> set (h # vs)"
      show "evictable P x"
      proof (cases "x = (h, s)")
        case False
        then have m: "x \<in># arc_held ?m" using x(1) unfolding e(1) by simp
        then have "fst x \<noteq> h" using h by (metis imageI)
        then show ?thesis using vs(5) m x(2) by simp
      qed (use vic(1) in simp)
    qed
    ultimately show ?thesis using vs(1,2,6) e(2) by (intro exI [of _ "h # vs"]) simp
  qed
qed

lemma arc_insert_all:
  "length ks = length bs \<Longrightarrow> distinct ks \<Longrightarrow> set ks \<inter> dict_keys (am_t1 m) = {} \<Longrightarrow>
   arc_held (fold arc_insert (zip ks bs) m) = arc_held m + mset (zip ks bs) \<and> am_backend (fold arc_insert (zip ks bs) m) = am_backend m"
proof (induction ks bs arbitrary: m rule: list_induct2)
  case (Cons k ks v vs)
  have k: "am_t1 (arc_insert (k, v) m) = am_t1 m @ [(k, v)]" "am_t2 (arc_insert (k, v) m) = am_t2 m" "am_backend (arc_insert (k, v) m) = am_backend m"
    using Cons.prems by (simp_all add: arc_insert_def update_fresh)
  have "set ks \<inter> dict_keys (am_t1 (arc_insert (k, v) m)) = {}" using Cons.prems k(1) by auto
  from Cons.IH [OF _ this] Cons.prems(1) k show ?case by simp
qed simp

lemma arc_prepare_store_spec:
  assumes inv: "cache_inv loads (arc_held m) (am_backend m)" and dist: "distinct hs"
  shows "\<exists>out m'. arc_prepare_store fa hs m = Inr (out, m') \<and> cache_inv loads (arc_held m') (am_backend m')
    \<and> store_effect (set hs) hs (arc_held m) out (arc_held m')
    \<and> (\<forall>ps. out = Some ps \<longrightarrow> ps_block_hashes_to_store ps = filter (\<lambda>h. h \<notin> held_keys (arc_held m)) hs)"
proof -
  define new where "new = filter (\<lambda>h. h \<notin> dict_keys (am_t1 m) \<and> h \<notin> dict_keys (am_t2 m)) hs"
  have new: "new = filter (\<lambda>h. h \<notin> held_keys (arc_held m)) hs" by (simp add: new_def image_Un)
  let ?n = "nat (int (length new) - cb_get_num_free_blocks (am_backend m))"
  obtain ok vs m1 where loop: "arc_evict_loop fa (set hs) ?n [] m = (ok, vs, m1)" by (metis surj_pair)
  have l: "cache_inv loads (arc_held m1) (am_backend m1)" "arc_held m1 = filter_mset (\<lambda>x. fst x \<notin> set vs) (arc_held m)"
    "set vs \<subseteq> held_keys (arc_held m)" "\<forall>x \<in># arc_held m. fst x \<in> set vs \<longrightarrow> evictable (set hs) x"
    "ok \<longrightarrow> cb_get_num_free_blocks (am_backend m1) = cb_get_num_free_blocks (am_backend m) + int ?n"
    using arc_evict_loop_spec [OF loop inv] by auto
  consider (none) "new = []" | (refused) "new \<noteq> []" "\<not> ok" | (go) "new \<noteq> []" ok by blast
  then show ?thesis
  proof cases
    case none
    let ?ps = "\<lparr>ps_block_hashes_to_store = [], ps_store_spec = cb_get_load_store_spec [], ps_block_hashes_evicted = []\<rparr>"
    have "arc_prepare_store fa hs m = Inr (Some ?ps, m)"
      unfolding arc_prepare_store_def Let_def new_def [symmetric] using none by simp
    moreover have "store_effect (set hs) hs (arc_held m) (Some ?ps) (arc_held m)"
      unfolding store_effect_def by (simp add: cb_get_load_store_spec_def)
    ultimately show ?thesis using inv none new by (intro exI [of _ "Some ?ps"] exI [of _ m]) simp
  next
    case refused
    have "arc_prepare_store fa hs m = Inr (None, m1)"
      unfolding arc_prepare_store_def Let_def new_def [symmetric] loop using refused by simp
    moreover have "store_effect (set hs) hs (arc_held m) None (arc_held m1)"
      unfolding store_effect_def option.case using l(2,4) by (intro exI [of _ "set vs"] conjI)
    ultimately show ?thesis using l(1) by (intro exI [of _ None] exI [of _ m1] conjI) simp_all
  next
    case go
    define m2 where "m2 = m1\<lparr>am_b1 := drop (nat (int (length (am_b1 m1)) - am_cache_capacity m1)) (am_b1 m1),
      am_b2 := drop (nat (int (length (am_b2 m1)) - am_cache_capacity m1)) (am_b2 m1),
      am_events := add_event vs (am_backend m1) True (am_events m1)\<rparr>"
    have m2: "am_t1 m2 = am_t1 m1" "am_t2 m2 = am_t2 m1" "am_backend m2 = am_backend m1" by (simp_all add: m2_def)
    have fresh: "distinct new" "set new \<inter> held_keys (arc_held m1) = {}" "set new \<subseteq> set hs - held_keys (arc_held m)"
      using dist unfolding l(2) new by auto
    have "int (length new) \<le> cb_get_num_free_blocks (am_backend m) + int ?n" by linarith
    then have fit: "int (length new) \<le> cb_get_num_free_blocks (am_backend m1)" using l(5) go(2) by simp
    obtain bs b where a: "cb_allocate_blocks new (am_backend m1) = Inr (bs, b)" "length bs = length new"
      "cache_inv loads (arc_held m1 + mset (zip new bs)) b" "\<forall>s \<in> set bs. bs_ref_cnt s = - 1"
      by (rule cache_inv_alloc [OF l(1) fit fresh(1,2)])
    define ps where "ps = \<lparr>ps_block_hashes_to_store = new, ps_store_spec = cb_get_load_store_spec bs, ps_block_hashes_evicted = vs\<rparr>"
    define m3 where "m3 = fold arc_insert (zip new bs) (m2\<lparr>am_backend := b\<rparr>)"
    have run: "arc_prepare_store fa hs m = Inr (Some ps, m3)"
      unfolding arc_prepare_store_def Let_def new_def [symmetric] loop
      using go a(1,2) m2(3) by (simp add: ps_def m3_def m2_def [symmetric])
    have m3: "arc_held m3 = arc_held m1 + mset (zip new bs)" "am_backend m3 = b"
      using arc_insert_all [of new bs "m2\<lparr>am_backend := b\<rparr>"] a(2) fresh(1,2) m2 by (auto simp: m3_def image_Un)
    have eff: "store_effect (set hs) hs (arc_held m) (Some ps) (arc_held m3)"
      unfolding store_effect_def option.case
    proof (intro exI [of _ "set vs"] conjI)
      show "arc_held m3 = filter_mset (\<lambda>x. fst x \<notin> set vs) (arc_held m)
          + mset (zip (ps_block_hashes_to_store ps) (map cpu_block_status (ps_store_spec ps)))"
        using a(4) unfolding m3(1) l(2) by (simp add: ps_def cb_get_load_store_spec_def cpu_block_statuses [unfolded map_map])
    qed (use l(3,4) fresh(1,3) a(2) in \<open>simp_all add: ps_def cb_get_load_store_spec_def\<close>)
    have "cache_inv loads (arc_held m3) (am_backend m3)" using a(3) by (simp only: m3)
    then show ?thesis using run eff new by (intro exI [of _ "Some ps"] exI [of _ m3]) (simp add: ps_def)
  qed
qed

lemma arc_stored_inv:
  "cache_inv loads (arc_held m) (am_backend m) \<Longrightarrow>
   cache_inv loads (arc_held (snd (fold arc_store_done hs (st, m)))) (am_backend (snd (fold arc_store_done hs (st, m))))"
proof (induction hs arbitrary: st m)
  case (Cons h hs)
  obtain st1 m1 where u: "arc_store_done h (st, m) = (st1, m1)" by (metis surj_pair)
  have "cache_inv loads (arc_held m1) (am_backend m1)"
  proof (cases "\<exists>s. arc_get m h = Some s \<and> \<not> bs_is_ready s")
    case False
    then have "m1 = m" using u by (auto simp: arc_store_done_def split: option.split_asm if_split_asm)
    then show ?thesis using Cons.prems by simp
  next
    case True
    then obtain s where s: "arc_get m h = Some s" "\<not> bs_is_ready s" by blast
    then have m1: "m1 = arc_put h (s\<lparr>bs_ref_cnt := 0\<rparr>) m" using u by (auto simp: arc_store_done_def)
    obtain M where M: "arc_held m = add_mset (h, s) M" "\<forall>s'. arc_held (arc_put h s' m) = add_mset (h, s') M"
      "\<forall>s'. am_backend (arc_put h s' m) = am_backend m"
      by (rule arc_split [OF cache_inv_distinct [OF Cons.prems] s(1)])
    show ?thesis unfolding m1 M(2,3) [rule_format] by (rule cache_inv_pending(2) [OF Cons.prems [unfolded M(1)] s(2)])
  qed
  from Cons.IH [OF this, of st1] u show ?case by simp
qed simp

lemma arc_failed_inv:
  "cache_inv loads (arc_held m) (am_backend m) \<Longrightarrow> \<forall>x \<in># arc_held m. fst x \<in> set hs \<longrightarrow> \<not> bs_is_ready (snd x) \<Longrightarrow>
   cache_inv loads (arc_held (fold arc_store_failed hs m)) (am_backend (fold arc_store_failed hs m))"
proof (induction hs arbitrary: m)
  case (Cons h hs)
  let ?m = "arc_store_failed h m"
  have "cache_inv loads (arc_held ?m) (am_backend ?m) \<and> arc_held ?m \<subseteq># arc_held m"
  proof (cases "arc_get m h")
    case None
    then have "?m = m" by (auto simp: arc_store_failed_def arc_get_def split: option.split_asm)
    then show ?thesis using Cons.prems(1) by simp
  next
    case (Some s)
    have "(h, s) \<in># arc_held m" using Some arc_get_map [of m h] map_of_SomeD by fastforce
    then have pend: "\<not> bs_is_ready s" using Cons.prems(2) by force
    have d: "distinct (map fst (am_t1 m @ am_t2 m))" by (rule cache_inv_distinct [OF Cons.prems(1)])
    then have d1: "distinct (map fst (am_t1 m))" and d2: "distinct (map fst (am_t2 m))" by simp_all
    have m: "arc_held m = add_mset (h, s) (arc_held ?m)" "am_backend ?m = cb_free s (am_backend m)"
      using Some pend alist_split(1) [OF d1] alist_split(1) [OF d2]
      by (auto simp: arc_store_failed_def arc_get_def Let_def split: option.split_asm)
    note held = Cons.prems(1) [unfolded m(1)]
    from cache_inv_free [OF held cache_inv_pending(1) [OF held pend]] m show ?thesis by simp
  qed
  then have inv: "cache_inv loads (arc_held ?m) (am_backend ?m)" and sub: "arc_held ?m \<subseteq># arc_held m" by simp_all
  have "\<forall>x \<in># arc_held ?m. fst x \<in> set hs \<longrightarrow> \<not> bs_is_ready (snd x)" using Cons.prems(2) mset_subset_eqD [OF sub] by (metis list.set_intros(2))
  from Cons.IH [OF inv this] show ?case by simp
qed simp

interpretation arc: storing "arc_ops fa" arc_held am_backend for fa
proof (unfold_locales, goal_cases)
  case (1 loads m hs)
  then show ?case using arc_lookup_counts [OF cache_inv_distinct] by (simp add: arc_ops_def del: mset_append)
next
  case (4 loads m hs ids m')
  then obtain bs where "foldR arc_load_one hs ([], m) = Inr (bs, m')" by (auto simp: arc_ops_def arc_prepare_load_def bindR_eq_Inr)
  then show ?case using arc_load_inv 4 by blast
next
  case (5 loads m hs)
  then show ?case using arc_touch_keeps [OF cache_inv_distinct [OF 5], of fa hs] by (simp add: arc_ops_def)
next
  case (6 loads m hs m')
  then show ?case using arc_loaded_inv [of hs m m' loads] by (simp add: arc_ops_def arc_complete_load_def del: mset_append)
next
  case (7 loads m hs)
  obtain out m' where "arc_prepare_store fa hs m = Inr (out, m')" "cache_inv loads (arc_held m') (am_backend m')"
    "store_effect (set hs) hs (arc_held m) out (arc_held m')" using arc_prepare_store_spec [OF 7] by blast
  then show ?case using store_effect_weaken [of "set hs" hs _ _ _ "{}" hs] by (auto simp: arc_ops_def simp del: mset_append)
next
  case (8 loads m hs success m')
  show ?case
  proof (cases success)
    case True
    then show ?thesis using 8(1,2) arc_stored_inv [OF 8(1), of hs "[]"] by (auto simp: arc_ops_def arc_complete_store_def case_prod_beta)
  next
    case False
    then show ?thesis using 8 arc_failed_inv [OF 8(1), of hs] by (auto simp: arc_ops_def arc_complete_store_def)
  qed
next
  case (11 loads m hs out m')
  then show ?case using arc_prepare_store_spec [OF 11(1,2), of fa] by (auto simp: arc_ops_def simp del: mset_append)
qed (simp_all add: arc_ops_def arc_take_events_def split: option.split)

subsection \<open>The decorator keeps the contract\<close>

locale reuse_filter = offloading

lemma count_one_backing [simp]:
  "rm_backing (count_one h r) = rm_backing r" "rm_store_threshold (count_one h r) = rm_store_threshold r"
  "rm_max_tracker_size (count_one h r) = rm_max_tracker_size r"
  by (simp_all add: count_one_def split: option.split)

lemma fold_count_backing [simp]:
  "rm_backing (fold count_one hs r) = rm_backing r" "rm_store_threshold (fold count_one hs r) = rm_store_threshold r"
  "rm_max_tracker_size (fold count_one hs r) = rm_max_tracker_size r"
  by (induction hs arbitrary: r) simp_all

sublocale reuse_filter \<subseteq> filtered: offloading "reuse_ops ops" "\<lambda>r. held (rm_backing r)" "\<lambda>r. backend (rm_backing r)"
proof (unfold_locales, goal_cases)
  case (1 loads r hs)
  then show ?case using lookup_counts [of loads "rm_backing r" hs] by (simp add: reuse_ops_def reuse_lookup_def Let_def case_prod_beta)
next
  case (4 loads r hs ids r')
  then obtain m where "op_prepare_load ops hs (rm_backing r) = Inr (ids, m)" "rm_backing r' = m"
    by (auto simp: reuse_ops_def reuse_prepare_load_def bindR_eq_Inr)
  then show ?case using load_inv 4 by blast
next
  case (5 loads r hs)
  then show ?case using touch_keeps [of loads "rm_backing r" hs] by (simp add: reuse_ops_def reuse_touch_def)
next
  case (6 loads r hs r')
  then have "op_complete_load ops hs (rm_backing r) = Inr (rm_backing r')" by (auto simp: reuse_ops_def reuse_complete_load_def bindR_eq_Inr)
  then show ?case using loaded_inv 6 by blast
next
  case (7 loads r hs)
  let ?hs = "filter (\<lambda>h. dict_get (rm_counts r) h 0 \<ge> rm_store_threshold r) hs"
  obtain out m where m: "op_prepare_store ops ?hs (rm_backing r) = Inr (out, m)" "cache_inv loads (held m) (backend m)"
    "store_effect {} ?hs (held (rm_backing r)) out (held m)"
    using store_inv [OF 7(1), of ?hs] 7(2) by auto
  have "store_effect {} hs (held (rm_backing r)) out (held m)" by (rule store_effect_weaken [OF m(3)]) auto
  then show ?case using m(1,2) by (simp add: reuse_ops_def reuse_prepare_store_def)
next
  case (8 loads r hs success r')
  then have "op_complete_store ops hs success (rm_backing r) = Inr (rm_backing r')" by (auto simp: reuse_ops_def reuse_complete_store_def bindR_eq_Inr)
  then show ?case using stored_inv 8 by blast
qed (simp_all add: reuse_ops_def reuse_lookup_def reuse_take_events_def Let_def case_prod_beta lookup_keeps events_keep)

text \<open>The tracker: bounded, and no count above the number of lookups.\<close>

definition tracker_ok :: "int \<Rightarrow> int \<Rightarrow> ('h \<Rightarrow> nat) \<Rightarrow> ('h, 'm) reuse_manager \<Rightarrow> bool" where
  "tracker_ok threshold limit seen r \<longleftrightarrow> rm_store_threshold r = threshold \<and> rm_max_tracker_size r = limit \<and> 2 \<le> threshold \<and> 1 \<le> limit
     \<and> distinct (map fst (rm_counts r)) \<and> int (length (rm_counts r)) \<le> limit \<and> (\<forall>x \<in> set (rm_counts r). snd x \<le> int (seen (fst x)))"

lemma length_delete_key: "map_of d h = Some v \<Longrightarrow> distinct (map fst d) \<Longrightarrow> length d = Suc (length (AList.delete h d))"
  using arg_cong [OF alist_split(1) [of d h v], of size] by simp

lemma count_one_tracker:
  assumes ok: "tracker_ok threshold limit seen r"
  shows "tracker_ok threshold limit (seen(h := seen h + 1)) (count_one h r)"
proof (cases "map_of (rm_counts r) h")
  case (Some n)
  have d: "distinct (map fst (rm_counts r))" using ok by (simp add: tracker_ok_def)
  have "n \<le> int (seen h)" using ok map_of_SomeD [OF Some] by (auto simp: tracker_ok_def)
  then show ?thesis using ok Some length_delete_key [OF Some d]
    by (auto simp: tracker_ok_def count_one_def AList.delete_eq distinct_map_filter)
next
  case None
  let ?c = "if int (length (rm_counts r)) \<ge> rm_max_tracker_size r then tl (rm_counts r) else rm_counts r"
  have sub: "set ?c \<subseteq> set (rm_counts r)" by (auto dest: in_set_tlD)
  have new: "h \<notin> dict_keys ?c" using None sub by (auto simp: map_of_eq_None_iff)
  have "distinct (map fst ?c)" using ok by (auto simp: tracker_ok_def map_tl distinct_tl)
  moreover have "int (length ?c) < limit" using ok by (auto simp: tracker_ok_def)
  ultimately show ?thesis using ok None new sub by (auto simp: tracker_ok_def count_one_def)
qed

lemma fold_count_tracker:
  "tracker_ok threshold limit seen r \<Longrightarrow> tracker_ok threshold limit (\<lambda>h. seen h + count_list hs h) (fold count_one hs r)"
proof (induction hs arbitrary: seen r)
  case (Cons h hs)
  have "(\<lambda>x. (seen(h := seen h + 1)) x + count_list hs x) = (\<lambda>x. seen x + count_list (h # hs) x)" by auto
  with Cons.IH [OF count_one_tracker [OF Cons.prems, of h]] show ?case by (simp only: fold_Cons o_apply)
qed simp

lemma tracker_backing: "tracker_ok threshold limit seen (r\<lparr>rm_backing := m\<rparr>) = tracker_ok threshold limit seen r"
  by (simp add: tracker_ok_def)

lemma tracker_reach:
  assumes "offload_reach (reuse_ops ops) held r0 loads seen r" "tracker_ok threshold limit (\<lambda>_. 0) r0"
  shows "tracker_ok threshold limit seen r"
  using assms(1)
proof induction
  case off_start
  then show ?case by (rule assms(2))
next
  case (off_lookup loads seen r hs)
  then show ?case using fold_count_tracker by (simp add: reuse_ops_def reuse_lookup_def Let_def case_prod_beta tracker_backing)
qed (auto simp: reuse_ops_def reuse_prepare_load_def reuse_touch_def reuse_complete_load_def reuse_prepare_store_def
    reuse_complete_store_def reuse_take_events_def bindR_eq_Inr tracker_backing case_prod_beta)

interpretation filtered_lru: reuse_filter lru_ops lru_held lm_backend
  by unfold_locales

interpretation filtered_arc: reuse_filter "arc_ops fa" arc_held am_backend for fa
  by unfold_locales

subsection \<open>Properties\<close>

lemma init_inv:
  "0 \<le> n \<Longrightarrow> cache_inv (\<lambda>_. 0) (lru_held (lru_init (cpu_backend_init bsz n) ev)) (lm_backend (lru_init (cpu_backend_init bsz n) ev))"
  "0 \<le> n \<Longrightarrow> cache_inv (\<lambda>_. 0) (arc_held (arc_init fa (cpu_backend_init bsz n) ev)) (am_backend (arc_init fa (cpu_backend_init bsz n) ev))"
  by (simp_all add: cache_inv_def lru_init_def arc_init_def cpu_backend_init_def)

text \<open>
  C12: Host blocks are neither lost nor shared, with least recently used eviction. After any history of lookups, loads,
  touches and stores, completed or failed, every host block allocated so far is held by one hash or free, once;
  a block's counter is its number of loads in progress, or -1 while it is being stored. The next
  \<open>prepare_store\<close> never raises. It refuses, and then changes nothing, exactly when the new blocks exceed the free ones and
  those that are ready, not in use and not asked for; otherwise it evicts only such blocks, adds exactly the new
  ones with host blocks of their own, and the blocks being loaded or stored stay where they are.
\<close>

theorem lru_offload_safe:
  fixes hs :: "'h list"
  assumes "0 \<le> n" and "offload_reach lru_ops lru_held (lru_init (cpu_backend_init bsz n) ev) loads seen m" and "distinct hs"
  shows "cache_inv loads (lru_held m) (lm_backend m) \<and>
    (let new = filter (\<lambda>h. h \<notin> dict_keys (lm_blocks m)) hs
     in if int (length new) > cb_get_num_free_blocks (lm_backend m) + int (length (filter (evictable (set hs)) (lm_blocks m)))
        then lru_prepare_store hs m = Inr (None, m)
        else \<exists>ps m'. lru_prepare_store hs m = Inr (Some ps, m') \<and> cache_inv loads (lru_held m') (lm_backend m')
          \<and> ps_block_hashes_to_store ps = new \<and> store_effect (set hs) hs (lru_held m) (Some ps) (lru_held m')
          \<and> (\<forall>h s. (h, s) \<in># lru_held m \<and> (0 < loads h \<or> \<not> bs_is_ready s) \<longrightarrow> (h, s) \<in># lru_held m'))"
proof -
  have inv: "cache_inv loads (lru_held m) (lm_backend m)" using lru.reach_inv [OF assms(2) init_inv(1) [OF assms(1)]] by simp
  have stays: "(h, s) \<in># lru_held m'" if "lru_prepare_store hs m = Inr (out, m')" "(h, s) \<in># lru_held m" "0 < loads h \<or> \<not> bs_is_ready s" for out m' h s
    by (rule lru.in_use_stays [OF inv assms(3) _ that(2,3)]) (simp add: lru_ops_def that(1))
  show ?thesis
  proof (cases "int (length (filter (\<lambda>h. h \<notin> dict_keys (lm_blocks m)) hs))
      > cb_get_num_free_blocks (lm_backend m) + int (length (filter (evictable (set hs)) (lm_blocks m)))")
    case True
    then have "lru_prepare_store hs m = Inr (None, m)" using lru_prepare_store_spec [OF inv assms(3)] by simp
    then show ?thesis using True inv by (simp add: Let_def)
  next
    case False
    obtain ps m' where r: "lru_prepare_store hs m = Inr (Some ps, m')" "cache_inv loads (lru_held m') (lm_backend m')"
      "store_effect (set hs) hs (lru_held m) (Some ps) (lru_held m')" "ps_block_hashes_to_store ps = filter (\<lambda>h. h \<notin> dict_keys (lm_blocks m)) hs"
      using lru_prepare_store_spec [OF inv assms(3)] False by auto
    have "\<forall>h s. (h, s) \<in># lru_held m \<and> (0 < loads h \<or> \<not> bs_is_ready s) \<longrightarrow> (h, s) \<in># lru_held m'" using stays [OF r(1)] by blast
    then show ?thesis unfolding Let_def if_not_P [OF False] using inv r by blast
  qed
qed

text \<open>A history for the witnesses: two blocks are stored, the first is being loaded.\<close>

definition two_stored :: "nat lru_manager" where
  "two_stored = \<lparr>lm_backend = \<lparr>cb_block_size = 16, cb_medium = ''CPU'', cb_num_blocks = 2, cb_num_allocated_blocks = 2, cb_free_list = []\<rparr>,
     lm_blocks = [(7, \<lparr>bs_ref_cnt = 1, bs_block_id = 0\<rparr>), (8, \<lparr>bs_ref_cnt = 0, bs_block_id = 1\<rparr>)], lm_events = None\<rparr>"

definition lru_run :: "nat lru_manager result" where
  "lru_run = bindR (lru_prepare_store [7, 8] (lru_init (cpu_backend_init 16 2) False)) (\<lambda>(_, m1).
     bindR (lru_complete_store [7, 8] True m1) (\<lambda>m2. bindR (lru_prepare_load [7] m2) (\<lambda>(_, m3). Inr m3)))"

lemma two_stored_reach:
  "offload_reach lru_ops lru_held (lru_init (cpu_backend_init 16 2) False) (\<lambda>h. 0 + count_list [7] h) (\<lambda>_. 0) two_stored"
proof -
  have "lru_run = Inr two_stored" by code_simp
  then obtain o1 m1 m2 ids where r: "lru_prepare_store [7, 8] (lru_init (cpu_backend_init 16 2) False) = Inr (o1, m1)"
    "lru_complete_store [7, 8] True m1 = Inr m2" "lru_prepare_load [7] m2 = Inr (ids, two_stored)"
    by (auto simp: lru_run_def bindR_eq_Inr)
  let ?R = "offload_reach lru_ops lru_held (lru_init (cpu_backend_init 16 2) False)"
  have "?R (\<lambda>_. 0) (\<lambda>_. 0) m1" by (rule off_store [OF off_start, of "[7, 8]"]) (use r(1) in \<open>simp_all add: lru_ops_def\<close>)
  then have "?R (\<lambda>_. 0) (\<lambda>_. 0) m2" by (rule off_stored [where success = True]) (use r(2) in \<open>simp_all add: lru_ops_def\<close>)
  then show ?thesis by (rule off_load) (use r(3) in \<open>simp_all add: lru_ops_def\<close>)
qed

theorem lru_offload_safe_witness:
  "\<exists>ps m'. lru_prepare_store [9] two_stored = Inr (Some ps, m') \<and> ps_block_hashes_to_store ps = [9]
     \<and> (7, \<lparr>bs_ref_cnt = 1, bs_block_id = 0\<rparr>) \<in># lru_held m'"
proof -
  have room: "\<not> int (length (filter (\<lambda>h. h \<notin> dict_keys (lm_blocks two_stored)) [9]))
      > cb_get_num_free_blocks (lm_backend two_stored) + int (length (filter (evictable (set [9])) (lm_blocks two_stored)))"
    by code_simp
  have new: "filter (\<lambda>h. h \<notin> dict_keys (lm_blocks two_stored)) [9] = [9]" by code_simp
  have mem: "(7, \<lparr>bs_ref_cnt = 1, bs_block_id = 0\<rparr>) \<in># lru_held two_stored" by (simp add: two_stored_def)
  have hyps: "0 \<le> (2 :: int)" "distinct [9 :: nat]" by simp_all
  obtain ps m' where "lru_prepare_store [9] two_stored = Inr (Some ps, m')" "ps_block_hashes_to_store ps = [9]"
    and stays: "\<forall>h s. (h, s) \<in># lru_held two_stored \<and> (0 < 0 + count_list [7] h \<or> \<not> bs_is_ready s) \<longrightarrow> (h, s) \<in># lru_held m'"
    using lru_offload_safe [OF hyps(1) two_stored_reach hyps(2)] unfolding Let_def if_not_P [OF room] unfolding new by blast
  moreover have "(7, \<lparr>bs_ref_cnt = 1, bs_block_id = 0\<rparr>) \<in># lru_held m'" using stays mem by simp
  ultimately show ?thesis by blast
qed

text \<open>
  C13: Adaptive replacement behind the reuse filter keeps the same accounting, as long as a store is reported as failed
  only for blocks that are not ready and each store names every hash once. After any such history host blocks are held once or free, counters are loads in progress and the tracker
  stays within its size. The next \<open>prepare_store\<close> never raises: blocks being loaded or stored stay where they are,
  whether it stores or refuses, and every hash it stores was looked up at least as often as the threshold says.
\<close>

theorem filtered_arc_safe:
  fixes hs :: "'h list"
  assumes "0 \<le> n" and "reuse_init (arc_init fa (cpu_backend_init bsz n) ev) threshold limit = Inr r0"
    and "offload_reach (reuse_ops (arc_ops fa)) (\<lambda>r. arc_held (rm_backing r)) r0 loads seen r" and "distinct hs"
  shows "cache_inv loads (arc_held (rm_backing r)) (am_backend (rm_backing r)) \<and> int (length (rm_counts r)) \<le> limit \<and>
    (\<exists>out r'. reuse_prepare_store (arc_ops fa) hs r = Inr (out, r')
      \<and> cache_inv loads (arc_held (rm_backing r')) (am_backend (rm_backing r'))
      \<and> (\<forall>h s. (h, s) \<in># arc_held (rm_backing r) \<and> (0 < loads h \<or> \<not> bs_is_ready s) \<longrightarrow> (h, s) \<in># arc_held (rm_backing r'))
      \<and> (\<forall>ps. out = Some ps \<longrightarrow> (\<forall>h \<in> set (ps_block_hashes_to_store ps). threshold \<le> int (seen h) \<and> h \<in> held_keys (arc_held (rm_backing r')))))"
proof -
  have r0: "rm_backing r0 = arc_init fa (cpu_backend_init bsz n) ev" "tracker_ok threshold limit (\<lambda>_. 0) r0"
    using assms(2) by (auto simp: reuse_init_def tracker_ok_def split: if_split_asm)
  have inv: "cache_inv loads (arc_held (rm_backing r)) (am_backend (rm_backing r))"
  proof -
    have "cache_inv (\<lambda>_. 0) (arc_held (rm_backing r0)) (am_backend (rm_backing r0))" unfolding r0(1) by (rule init_inv(2) [OF assms(1)])
    from filtered_arc.filtered.reach_inv [OF assms(3) this] show ?thesis by blast
  qed
  have tr: "tracker_ok threshold limit seen r" by (rule tracker_reach [OF assms(3) r0(2)])
  let ?hs = "filter (\<lambda>h. dict_get (rm_counts r) h 0 \<ge> rm_store_threshold r) hs"
  obtain out m where m: "arc_prepare_store fa ?hs (rm_backing r) = Inr (out, m)" "cache_inv loads (arc_held m) (am_backend m)"
    "store_effect (set ?hs) ?hs (arc_held (rm_backing r)) out (arc_held m)"
    using arc_prepare_store_spec [OF inv, of ?hs fa] assms(4) by auto
  have run: "reuse_prepare_store (arc_ops fa) hs r = Inr (out, r\<lparr>rm_backing := m\<rparr>)"
    using m(1) by (simp add: reuse_prepare_store_def arc_ops_def)
  have stays: "(h, s) \<in># arc_held m" if "(h, s) \<in># arc_held (rm_backing r)" "0 < loads h \<or> \<not> bs_is_ready s" for h s
    by (rule arc.in_use_stays [OF inv _ _ that, of ?hs fa out]) (use assms(4) m(1) in \<open>simp_all add: arc_ops_def\<close>)
  have often: "threshold \<le> int (seen h) \<and> h \<in> held_keys (arc_held m)" if ps: "out = Some ps" "h \<in> set (ps_block_hashes_to_store ps)" for ps h
  proof -
    have sub: "set (ps_block_hashes_to_store ps) \<subseteq> set ?hs" "length (ps_store_spec ps) = length (ps_block_hashes_to_store ps)"
      and zip: "mset (zip (ps_block_hashes_to_store ps) (map cpu_block_status (ps_store_spec ps))) \<subseteq># arc_held m"
      using m(3) ps(1) unfolding store_effect_def by auto
    have "h \<in> set ?hs" using sub(1) ps(2) by blast
    then have c: "threshold \<le> dict_get (rm_counts r) h 0" "2 \<le> threshold" using tr by (auto simp: tracker_ok_def)
    then obtain k where k: "map_of (rm_counts r) h = Some k" "threshold \<le> k" by (auto simp: dict_get_def split: option.split_asm)
    have "k \<le> int (seen h)" using tr map_of_SomeD [OF k(1)] by (auto simp: tracker_ok_def)
    moreover have "h \<in> held_keys (mset (zip (ps_block_hashes_to_store ps) (map cpu_block_status (ps_store_spec ps))))"
      using ps(2) sub(2) by (metis length_map list.set_map map_fst_zip set_mset_mset)
    ultimately show ?thesis using k(2) set_mset_mono [OF zip] by auto
  qed
  have "int (length (rm_counts r)) \<le> limit" using tr by (simp add: tracker_ok_def)
  then show ?thesis using inv run m(2) stays often by (intro conjI exI [of _ out] exI [of _ "r\<lparr>rm_backing := m\<rparr>"]) auto
qed

text \<open>Exact arithmetic for the target size.\<close>

definition exact_arith :: "rat float_arith" where
  "exact_arith = \<lparr>fa_of_int = of_int, fa_quotient = (\<lambda>a b. of_int a / of_int b), fa_add = (+), fa_sub = (-), fa_less = (<), fa_int = floor\<rparr>"

definition looked_up_twice :: "(nat, (nat, rat) arc_manager) reuse_manager" where
  "looked_up_twice = (case reuse_init (arc_init exact_arith (cpu_backend_init 16 2) True) 2 3 of
     Inl _ \<Rightarrow> undefined | Inr r \<Rightarrow> snd (reuse_lookup (arc_ops exact_arith) [7, 7, 8] r))"

theorem filtered_arc_safe_witness:
  "\<exists>ps r'. reuse_prepare_store (arc_ops exact_arith) [7, 8] looked_up_twice = Inr (Some ps, r')
     \<and> ps_block_hashes_to_store ps = [7] \<and> cache_inv (\<lambda>_. 0) (arc_held (rm_backing r')) (am_backend (rm_backing r'))"
proof -
  obtain r0 where r0: "reuse_init (arc_init exact_arith (cpu_backend_init 16 2) True) 2 3 = Inr r0" "looked_up_twice = snd (reuse_lookup (arc_ops exact_arith) [7, 7, 8] r0)"
    by (simp add: looked_up_twice_def reuse_init_def)
  let ?R = "offload_reach (reuse_ops (arc_ops exact_arith)) (\<lambda>r. arc_held (rm_backing r)) r0"
  have "?R (\<lambda>_. 0) (\<lambda>h. 0 + count_list [7, 7, 8] h) looked_up_twice"
    using off_lookup [OF off_start, of "reuse_ops (arc_ops exact_arith)" _ r0 "[7, 7, 8]"] r0(2) by (simp add: reuse_ops_def)
  from filtered_arc_safe [OF _ r0(1) this, of "[7, 8]"]
  obtain out r' where o: "reuse_prepare_store (arc_ops exact_arith) [7, 8] looked_up_twice = Inr (out, r')"
    "cache_inv (\<lambda>_. 0) (arc_held (rm_backing r')) (am_backend (rm_backing r'))" by auto
  have "map_sum id (\<lambda>(out, _). map_option ps_block_hashes_to_store out) (reuse_prepare_store (arc_ops exact_arith) [7, 8] looked_up_twice) = Inr (Some [7])"
    by code_simp
  then show ?thesis using o by auto
qed

subsection \<open>Where adaptive replacement departs from the contract\<close>

text \<open>Three runs with two host blocks: prepare, complete, observe.\<close>

definition store_and_complete :: "nat list \<Rightarrow> (nat, rat) arc_manager \<Rightarrow> (nat, rat) arc_manager result" where
  "store_and_complete hs m = bindR (arc_prepare_store exact_arith hs m) (\<lambda>(_, m1). Inr (arc_complete_store hs True m1))"

definition two_blocks :: "(nat, rat) arc_manager" where
  "two_blocks = arc_init exact_arith (cpu_backend_init 16 2) True"

definition refused_run :: "(int \<times> bool \<times> int \<times> (nat list \<times> bool) list) result" where
  "refused_run =
     bindR (store_and_complete [1] two_blocks) (\<lambda>m1.
     bindR (arc_prepare_store exact_arith [2] m1) (\<lambda>(_, m2).
     bindR (arc_prepare_store exact_arith [3, 4] m2) (\<lambda>(out, m3).
       Inr (arc_lookup [1] m2, out = None, arc_lookup [1] m3,
            map (\<lambda>e. (oe_block_hashes e, oe_removed e)) (fst (arc_take_events m3))))))"

definition failed_run :: "(int \<times> int \<times> nat) result" where
  "failed_run =
     bindR (store_and_complete [1] two_blocks) (\<lambda>m1.
       let m2 = arc_complete_store [1] False m1
       in Inr (arc_lookup [1] m1, cb_get_num_free_blocks (am_backend m2), length (am_t1 m2) + length (am_t2 m2)))"

definition stuck_run :: "(nat list \<times> int list \<times> bool) result" where
  "stuck_run =
     bindR (store_and_complete [1, 2] two_blocks) (\<lambda>m1.
     bindR (store_and_complete [3] m1) (\<lambda>m2.
     let m3 = arc_touch exact_arith [2] (arc_touch exact_arith [1] (arc_touch exact_arith [1] m2))
     in bindR (arc_prepare_load [2] m3) (\<lambda>(_, m4).
        bindR (arc_prepare_store exact_arith [4] m4) (\<lambda>(out, m5).
          Inr (map fst (am_t1 m4), map (\<lambda>x. bs_ref_cnt (snd x)) (am_t1 m4), out = None)))))"

text \<open>
  Two more gaps, on runs: a store that is refused has already evicted a block, which is gone from the cache and no
  event reports its removal; and with a high target for T1 a store is refused although T1 holds a block
  that is ready and not in use. The middle run is the failed store of the theorem that follows.
\<close>

lemma arc_store_gaps:
  "refused_run = Inr (1, True, 0, [([1], False)]) \<and> failed_run = Inr (1, 1, 0) \<and> stuck_run = Inr ([3], [0], True)"
  by code_simp

lemma arc_store_failed_ready:
  assumes d: "distinct (map fst (am_t1 m @ am_t2 m))" and s: "arc_get m h = Some s" "bs_is_ready s"
  shows "arc_held m = add_mset (h, s) (arc_held (arc_store_failed h m))" "am_backend (arc_store_failed h m) = am_backend m"
proof -
  have d1: "distinct (map fst (am_t1 m))" and d2: "distinct (map fst (am_t2 m))" using d by simp_all
  show "arc_held m = add_mset (h, s) (arc_held (arc_store_failed h m))" "am_backend (arc_store_failed h m) = am_backend m"
    using s alist_split(1) [OF d1] alist_split(1) [OF d2]
    by (auto simp: arc_store_failed_def arc_get_def Let_def split: option.split_asm)
qed

text \<open>
  C30: With adaptive replacement, a failed store that names a block stored before loses its host block. In any state
  in order, for any hash held and ready, \<open>complete_store\<close> with \<open>success=False\<close> takes exactly that entry out and leaves
  the backend as it was: the host block stays allocated, no hash holds it and it is not in the free list,
  so no accounting of loads makes the state one in order again. A load of it that is in progress can no longer be completed.
\<close>

theorem failed_store_loses_block:
  fixes m :: "('h, 'f) arc_manager"
  assumes inv: "cache_inv loads (arc_held m) (am_backend m)" and held: "(h, s) \<in># arc_held m" and ready: "bs_is_ready s"
  shows "let m' = arc_complete_store [h] False m; i = bs_block_id s
    in arc_held m = add_mset (h, s) (arc_held m') \<and> am_backend m' = am_backend m
       \<and> 0 \<le> i \<and> i < cb_num_allocated_blocks (am_backend m') \<and> i \<notin> set (cb_free_list (am_backend m'))
       \<and> (\<forall>x \<in># arc_held m'. fst x \<noteq> h \<and> bs_block_id (snd x) \<noteq> i)
       \<and> (\<forall>loads'. \<not> cache_inv loads' (arc_held m') (am_backend m'))
       \<and> arc_complete_load [h] m' = Inl AssertionError"
proof -
  let ?m = "arc_complete_store [h] False m" and ?i = "bs_block_id s" and ?b = "am_backend m"
  have d: "distinct (map fst (am_t1 m @ am_t2 m))" by (rule cache_inv_distinct [OF inv])
  have get: "arc_get m h = Some s" using held held_lookup [OF d] by (simp only: arc_get_map)
  have m: "arc_held m = add_mset (h, s) (arc_held ?m)" "am_backend ?m = ?b"
    using arc_store_failed_ready [OF d get ready] by (simp_all add: arc_complete_store_def)
  have ids: "add_mset ?i (image_mset (\<lambda>x. bs_block_id (snd x)) (arc_held ?m)) + mset (cb_free_list ?b)
      = mset [0..cb_num_allocated_blocks ?b - 1]" using inv unfolding m(1) by (simp add: cache_inv_def)
  have "?i \<in># mset [0..cb_num_allocated_blocks ?b - 1]" by (simp flip: ids)
  then have range: "0 \<le> ?i" "?i < cb_num_allocated_blocks ?b" by auto
  have "count (mset [0..cb_num_allocated_blocks ?b - 1]) ?i \<le> 1"
    using distinct_count_atmost_1 [of "[0..cb_num_allocated_blocks ?b - 1]"] by (simp add: count_mset_0_iff)
  then have "count (image_mset (\<lambda>x. bs_block_id (snd x)) (arc_held ?m) + mset (cb_free_list ?b)) ?i = 0"
    unfolding ids [symmetric] by simp
  then have "?i \<notin># image_mset (\<lambda>x. bs_block_id (snd x)) (arc_held ?m) + mset (cb_free_list ?b)"
    by (simp only: not_in_iff)
  then have out: "?i \<notin> set (cb_free_list ?b)" "\<forall>x \<in># arc_held ?m. bs_block_id (snd x) \<noteq> ?i" by (auto simp: image_iff)
  have key: "h \<notin> held_keys (arc_held ?m)" by (rule cache_inv_unique [OF inv [unfolded m(1)]])
  have bad: "\<not> cache_inv loads' (arc_held ?m) ?b" for loads'
  proof
    assume "cache_inv loads' (arc_held ?m) ?b"
    then have "image_mset (\<lambda>x. bs_block_id (snd x)) (arc_held ?m) + mset (cb_free_list ?b) = mset [0..cb_num_allocated_blocks ?b - 1]"
      unfolding cache_inv_def by blast
    then have "image_mset (\<lambda>x. bs_block_id (snd x)) (arc_held ?m) + mset (cb_free_list ?b)
        = add_mset ?i (image_mset (\<lambda>x. bs_block_id (snd x)) (arc_held ?m) + mset (cb_free_list ?b))" using ids by simp
    then show False by (metis multi_self_add_other_not_self)
  qed
  have "arc_get ?m h = None" using key by (auto simp: arc_get_map map_of_eq_None_iff)
  then have "arc_complete_load [h] ?m = Inl AssertionError" by (simp add: arc_complete_load_def arc_complete_load_one_def)
  then show ?thesis using m range out key bad unfolding Let_def by auto
qed

definition one_stored :: "(nat, rat) arc_manager" where
  "one_stored = two_blocks\<lparr>am_backend := \<lparr>cb_block_size = 16, cb_medium = ''CPU'', cb_num_blocks = 2, cb_num_allocated_blocks = 1, cb_free_list = []\<rparr>,
     am_t1 := [(1, \<lparr>bs_ref_cnt = 1, bs_block_id = 0\<rparr>)]\<rparr>"

text \<open>One block is stored and being loaded when its store is reported as failed.\<close>

theorem failed_store_loses_block_witness:
  "map_sum id snd (bindR (store_and_complete [1] (two_blocks\<lparr>am_events := None\<rparr>)) (arc_prepare_load [1])) = Inr (one_stored\<lparr>am_events := None\<rparr>)
     \<and> arc_complete_load [1] (arc_complete_store [1] False one_stored) = Inl AssertionError
     \<and> 0 \<notin> set (cb_free_list (am_backend (arc_complete_store [1] False one_stored)))"
proof -
  let ?s = "\<lparr>bs_ref_cnt = 1, bs_block_id = 0\<rparr>"
  have run: "map_sum id snd (bindR (store_and_complete [1] (two_blocks\<lparr>am_events := None\<rparr>)) (arc_prepare_load [1])) = Inr (one_stored\<lparr>am_events := None\<rparr>)"
    by code_simp
  have inv: "cache_inv (\<lambda>h. if h = 1 then 1 else 0) (arc_held one_stored) (am_backend one_stored)"
    by (simp add: cache_inv_def one_stored_def two_blocks_def arc_init_def status_ok_def)
  have held: "(1, ?s) \<in># arc_held one_stored" "bs_is_ready ?s" by (simp_all add: one_stored_def bs_is_ready_def)
  note lost = failed_store_loses_block [OF inv held, unfolded Let_def]
  from lost have "arc_complete_load [1] (arc_complete_store [1] False one_stored) = Inl AssertionError" by (elim conjE)
  moreover from lost have "bs_block_id ?s \<notin> set (cb_free_list (am_backend (arc_complete_store [1] False one_stored)))" by (elim conjE)
  ultimately show ?thesis using run by simp
qed

end
