(* ===== verification/Ngram_Proposer.thy ===== *)
theory Ngram_Proposer
  imports Prelude
begin

text \<open>
  Draft tokens by prompt lookup (\<open>spec_decode/ngram_proposer.py\<close>): the longest n-gram at the end of a context that
  occurs before is found in one pass over the reversed tokens, with a table of prefix lengths; the tokens
  that followed its earliest occurrence are proposed. A reference definition tries all lengths and places.
\<close>

subsection \<open>Search for the longest n-gram\<close>

text \<open>The variables of the loop in \<open>_find_longest_matched_ngram_and_propose_tokens\<close>.\<close>

record ngram_state =
  ng_lps :: "nat list"
  ng_longest :: nat
  ng_position :: nat
  ng_prev :: nat
  ng_i :: nat

text \<open>One round; an index outside an array, which compiled code would not notice, is \<open>IndexError\<close>.\<close>

definition ngram_step :: "int list \<Rightarrow> nat \<Rightarrow> ngram_state \<Rightarrow> ngram_state result" where
  "ngram_step tokens max_ngram s =
     bindR (py_nth tokens (int (ng_prev s))) (\<lambda>a. bindR (py_nth tokens (int (ng_i s))) (\<lambda>b.
       if a = b then
         let p = ng_prev s + 1;
             s1 = (if p \<ge> ng_longest s then s\<lparr>ng_longest := p, ng_position := ng_i s\<rparr> else s);
             lps = (if ng_i s < max_ngram then (ng_lps s)[ng_i s := p] else ng_lps s)
         in bindR (if p = max_ngram then py_nth lps (int max_ngram - 1) else Inr p) (\<lambda>p'.
              Inr (s1\<lparr>ng_lps := lps, ng_prev := p', ng_i := ng_i s + 1\<rparr>))
       else if ng_prev s \<noteq> 0 then bindR (py_nth (ng_lps s) (int (ng_prev s) - 1)) (\<lambda>p. Inr (s\<lparr>ng_prev := p\<rparr>))
       else Inr (s\<lparr>ng_i := ng_i s + 1\<rparr>)))"

partial_function (option) ngram_loop :: "int list \<Rightarrow> nat \<Rightarrow> ngram_state \<Rightarrow> ngram_state result option" where
  "ngram_loop tokens max_ngram s =
     (if ng_i s < length tokens
      then (case ngram_step tokens max_ngram s of Inl e \<Rightarrow> Some (Inl e) | Inr s' \<Rightarrow> ngram_loop tokens max_ngram s')
      else Some (Inr s))"

declare ngram_loop.simps [code]

definition ngram_start :: "nat \<Rightarrow> ngram_state" where
  "ngram_start max_ngram = \<lparr>ng_lps = replicate max_ngram 0, ng_longest = 0, ng_position = 0, ng_prev = 0, ng_i = 1\<rparr>"

text \<open>The whole function. Not returning is \<open>Diverges\<close>.\<close>

definition find_longest_matched_ngram :: "int list \<Rightarrow> int \<Rightarrow> int \<Rightarrow> int \<Rightarrow> int \<Rightarrow> int list result" where
  "find_longest_matched_ngram origin min_ngram max_ngram max_model_len k =
     (let total = int (length origin); k1 = min k (max_model_len - total)
      in if total < min_ngram then Inr []
         else if k1 \<le> 0 then Inr []
         else if max_ngram < 0 then Inl ValueError
         else case ngram_loop (rev origin) (nat max_ngram) (ngram_start (nat max_ngram)) of
                None \<Rightarrow> Inl Diverges
              | Some r \<Rightarrow> bindR r (\<lambda>s.
                  if int (ng_longest s) < min_ngram then Inr []
                  else let start = total - 1 - int (ng_position s) + int (ng_longest s); k2 = min k1 (total - start)
                       in Inr (slice_between origin start (start + k2))))"

subsection \<open>The batch\<close>

record ngram_proposer =
  np_min_n :: int
  np_max_n :: int
  np_k :: int
  np_max_model_len :: int
  np_valid_ngram_draft :: "int list list"
  np_valid_ngram_num_drafts :: "int list"

text \<open>Assignment to the front of a row of an array.\<close>

definition write_front :: "int list \<Rightarrow> int list \<Rightarrow> int list result" where
  "write_front row xs = (if length xs \<le> length row then Inr (xs @ drop (length xs) row) else Inl ValueError)"

definition propose_one :: "int list \<Rightarrow> int list list \<Rightarrow> nat \<Rightarrow> ngram_proposer \<Rightarrow> ngram_proposer result" where
  "propose_one num_tokens_no_spec token_ids_cpu idx p =
     bindR (py_nth num_tokens_no_spec (int idx)) (\<lambda>num_tokens.
     bindR (py_nth token_ids_cpu (int idx)) (\<lambda>row.
     bindR (find_longest_matched_ngram (slice_to row num_tokens) (np_min_n p) (np_max_n p) (np_max_model_len p) (np_k p)) (\<lambda>out.
     if length (np_valid_ngram_num_drafts p) \<le> idx then Inl IndexError
     else
       let p1 = p\<lparr>np_valid_ngram_num_drafts := (np_valid_ngram_num_drafts p)[idx := int (length out)]\<rparr>
       in if out = [] then Inr p1
          else bindR (py_nth (np_valid_ngram_draft p1) (int idx)) (\<lambda>buf. bindR (write_front buf out) (\<lambda>buf'.
                 Inr (p1\<lparr>np_valid_ngram_draft := (np_valid_ngram_draft p1)[idx := buf']\<rparr>))))))"

text \<open>The requests are independent, each writes its own row; they are taken in order.\<close>

definition batch_propose_numba :: "nat list \<Rightarrow> int list \<Rightarrow> int list list \<Rightarrow> ngram_proposer \<Rightarrow> ngram_proposer result" where
  "batch_propose_numba valid nums toks p = foldR (propose_one nums toks) valid p"

definition read_draft :: "nat list \<Rightarrow> ngram_proposer \<Rightarrow> nat \<Rightarrow> int list list \<Rightarrow> int list list result" where
  "read_draft valid p i ds =
     (if i \<in> set valid
      then bindR (py_nth (np_valid_ngram_num_drafts p) (int i)) (\<lambda>n.
             if n > 0 then bindR (py_nth (np_valid_ngram_draft p) (int i)) (\<lambda>row. Inr (ds @ [slice_to row n]))
             else Inr (ds @ [[]]))
      else Inr (ds @ [[]]))"

definition batch_propose :: "nat \<Rightarrow> nat list \<Rightarrow> int list \<Rightarrow> int list list \<Rightarrow> ngram_proposer \<Rightarrow> (int list list \<times> ngram_proposer) result" where
  "batch_propose num_requests valid nums toks p =
     bindR (if valid \<noteq> [] then batch_propose_numba valid nums toks p else Inr p) (\<lambda>p1.
     bindR (foldR (read_draft valid p1) [0..<num_requests] []) (\<lambda>ds. Inr (ds, p1)))"

definition needs_ngram :: "int \<Rightarrow> int list \<Rightarrow> nat \<times> int list \<Rightarrow> nat list \<Rightarrow> nat list result" where
  "needs_ngram max_model_len nums x valid =
     (if snd x = [] then Inr valid
      else bindR (py_nth nums (int (fst x))) (\<lambda>n. Inr (if n \<ge> max_model_len then valid else valid @ [fst x])))"

definition propose :: "int list list \<Rightarrow> int list \<Rightarrow> int list list \<Rightarrow> ngram_proposer \<Rightarrow> (int list list \<times> ngram_proposer) result" where
  "propose sampled nums toks p =
     bindR (foldR (needs_ngram (np_max_model_len p) nums) (enumerate 0 sampled) []) (\<lambda>valid.
       batch_propose (length sampled) valid nums toks p)"

text \<open>The constructor ends with a call for 1024 requests without sampled tokens, to trigger compilation.\<close>

definition ngram_proposer_init :: "int \<Rightarrow> int \<Rightarrow> int \<Rightarrow> int \<Rightarrow> nat \<Rightarrow> ngram_proposer result" where
  "ngram_proposer_init min_n max_n k max_model_len max_num_seqs =
     (if k < 0 \<or> max_model_len < 0 then Inl ValueError
      else
        let p = \<lparr>np_min_n = min_n, np_max_n = max_n, np_k = k, np_max_model_len = max_model_len,
                 np_valid_ngram_draft = replicate max_num_seqs (replicate (nat k) 0),
                 np_valid_ngram_num_drafts = replicate max_num_seqs 0\<rparr>
        in bindR (propose (replicate 1024 []) (replicate 1024 0) (replicate 1024 (replicate (nat max_model_len) 0)) p)
             (\<lambda>(_, p'). Inr p'))"

subsection \<open>Reference: all lengths and places\<close>

definition ngram_match :: "'a list \<Rightarrow> nat \<Rightarrow> nat \<Rightarrow> bool" where
  "ngram_match xs n p \<longleftrightarrow> p + n < length xs \<and> take n (drop p xs) = drop (length xs - n) xs"

definition longest_ngram :: "'a list \<Rightarrow> nat \<Rightarrow> nat \<Rightarrow> (nat \<times> nat) option" where
  "longest_ngram xs lo hi =
     find (\<lambda>(n, p). ngram_match xs n p) (concat (map (\<lambda>n. map (Pair n) [0..<length xs]) (rev [lo..<Suc hi])))"

definition reference_drafts :: "'a list \<Rightarrow> nat \<Rightarrow> nat \<Rightarrow> nat \<Rightarrow> 'a list" where
  "reference_drafts xs lo hi limit =
     (case longest_ngram xs lo hi of None \<Rightarrow> [] | Some (n, p) \<Rightarrow> take limit (drop (p + n) xs))"

lemma find_behind: "(\<And>x. x \<in> set xs \<Longrightarrow> \<not> P x) \<Longrightarrow> find P (xs @ ys) = find P ys"
  by (induction xs) auto

lemma longest_ngram_Some:
  assumes m: "ngram_match xs n p" and n: "lo \<le> n" "n \<le> hi"
    and longest: "\<And>m q. n < m \<Longrightarrow> m \<le> hi \<Longrightarrow> \<not> ngram_match xs m q" and first: "\<And>q. q < p \<Longrightarrow> \<not> ngram_match xs n q"
  shows "longest_ngram xs lo hi = Some (n, p)"
proof -
  have p: "p < length xs" using m by (simp add: ngram_match_def)
  have "[lo..<Suc hi] = [lo..<n] @ n # [Suc n..<Suc hi]"
    using n upt_add_eq_append [of lo n "Suc hi - n"] upt_conv_Cons [of n "Suc hi"] by simp
  then have r: "rev [lo..<Suc hi] = rev [Suc n..<Suc hi] @ n # rev [lo..<n]" by simp
  have u: "[0..<length xs] = [0..<p] @ p # [Suc p..<length xs]"
    using p upt_add_eq_append [of 0 p "length xs - p"] upt_conv_Cons [of p "length xs"] by simp
  have "longest_ngram xs lo hi = find (\<lambda>(n, p). ngram_match xs n p)
     (concat (map (\<lambda>n. map (Pair n) [0..<length xs]) (n # rev [lo..<n])))"
    unfolding longest_ngram_def r map_append concat_append by (rule find_behind) (use longest in auto)
  also have "\<dots> = find (\<lambda>(n, p). ngram_match xs n p)
     (map (Pair n) [0..<p] @ (n, p) # map (Pair n) [Suc p..<length xs] @ concat (map (\<lambda>n. map (Pair n) [0..<length xs]) (rev [lo..<n])))"
    by (simp add: u)
  also have "\<dots> = Some (n, p)" by (subst find_behind) (use first m in auto)
  finally show ?thesis .
qed

lemma longest_ngram_None: "(\<And>n p. lo \<le> n \<Longrightarrow> n \<le> hi \<Longrightarrow> \<not> ngram_match xs n p) \<Longrightarrow> longest_ngram xs lo hi = None"
  by (auto simp: longest_ngram_def find_None_iff)

subsection \<open>Borders\<close>

text \<open>The first \<open>v\<close> tokens are also the last \<open>v\<close> of the first \<open>i\<close>.\<close>

definition border :: "'a list \<Rightarrow> nat \<Rightarrow> nat \<Rightarrow> bool" where
  "border t i v \<longleftrightarrow> v < i \<and> (\<forall>q<v. t ! q = t ! (i - v + q))"

definition longest_border :: "'a list \<Rightarrow> nat \<Rightarrow> nat \<Rightarrow> bool" where
  "longest_border t i v \<longleftrightarrow> border t i v \<and> (\<forall>w. border t i w \<longrightarrow> w \<le> v)"

lemma border_0 [simp]: "border t i 0 \<longleftrightarrow> 0 < i"
  by (simp add: border_def)

lemma border_Suc: "border t (Suc i) (Suc v) \<longleftrightarrow> border t i v \<and> t ! v = t ! i"
  by (auto simp: border_def less_Suc_eq)

lemma border_trans: "border t i v \<Longrightarrow> border t v w \<Longrightarrow> border t i w"
proof -
  assume v: "border t i v" and w: "border t v w"
  have "t ! q = t ! (i - w + q)" if "q < w" for q
  proof -
    have "t ! q = t ! (v - w + q)" using w that by (simp add: border_def)
    also have "\<dots> = t ! (i - v + (v - w + q))"
    proof -
      have "v - w + q < v" using w that unfolding border_def by linarith
      then show ?thesis using v unfolding border_def by blast
    qed
    also have "i - v + (v - w + q) = i - w + q" using v w by (simp add: border_def)
    finally show ?thesis .
  qed
  then show ?thesis using v w by (auto simp: border_def)
qed

lemma border_shorter: "border t i v \<Longrightarrow> border t i w \<Longrightarrow> w < v \<Longrightarrow> border t v w"
proof -
  assume v: "border t i v" and w: "border t i w" and l: "w < v"
  have "t ! q = t ! (v - w + q)" if "q < w" for q
  proof -
    have "t ! q = t ! (i - w + q)" using w that by (simp add: border_def)
    moreover have "t ! (v - w + q) = t ! (i - v + (v - w + q))"
    proof -
      have "v - w + q < v" using l that by linarith
      then show ?thesis using v unfolding border_def by blast
    qed
    moreover have "i - v + (v - w + q) = i - w + q" using v l by (simp add: border_def)
    ultimately show ?thesis by simp
  qed
  then show ?thesis using l by (auto simp: border_def)
qed

text \<open>A border of a prefix of the reversed tokens is an earlier occurrence of the n-gram at their end.\<close>

lemma ngram_match_border:
  assumes "i < length xs" "n \<le> i"
  shows "ngram_match xs n (length xs - 1 - i) \<longleftrightarrow> border (rev xs) (Suc i) n"
proof -
  have eq: "take n (drop (length xs - 1 - i) xs) = drop (length xs - n) xs
    \<longleftrightarrow> (\<forall>q<n. xs ! (length xs - 1 - i + q) = xs ! (length xs - n + q))"
    using assms by (auto simp: list_eq_iff_nth_eq)
  have "(\<forall>q<n. xs ! (length xs - 1 - i + q) = xs ! (length xs - n + q))
    \<longleftrightarrow> (\<forall>q<n. rev xs ! q = rev xs ! (Suc i - n + q))" (is "?l \<longleftrightarrow> ?r")
  proof -
    have flip: "rev xs ! q = xs ! (length xs - n + (n - 1 - q))" "rev xs ! (Suc i - n + q) = xs ! (length xs - 1 - i + (n - 1 - q))" if "q < n" for q
    proof -
      have "length xs - Suc q = length xs - n + (n - 1 - q)" "length xs - Suc (Suc i - n + q) = length xs - 1 - i + (n - 1 - q)"
        "q < length xs" "Suc i - n + q < length xs" using assms that by linarith+
      then show "rev xs ! q = xs ! (length xs - n + (n - 1 - q))" "rev xs ! (Suc i - n + q) = xs ! (length xs - 1 - i + (n - 1 - q))"
        by (simp_all only: rev_nth)
    qed
    show ?thesis
    proof
      assume l: ?l
      show ?r
      proof (intro allI impI)
        fix q assume "q < n"
        then show "rev xs ! q = rev xs ! (Suc i - n + q)"
          using flip [of q] l [rule_format, of "n - 1 - q"] by simp
      qed
    next
      assume r: ?r
      show ?l
      proof (intro allI impI)
        fix q assume "q < n"
        then show "xs ! (length xs - 1 - i + q) = xs ! (length xs - n + q)"
          using flip [of "n - 1 - q"] r [rule_format, of "n - 1 - q"] by simp
      qed
    qed
  qed
  then show ?thesis using assms eq by (auto simp: ngram_match_def border_def)
qed

subsection \<open>The invariant of the search\<close>

definition ngram_inv :: "int list \<Rightarrow> nat \<Rightarrow> ngram_state \<Rightarrow> bool" where
  "ngram_inv t m s \<longleftrightarrow> 0 < ng_i s \<and> border t (ng_i s) (ng_prev s) \<and> ng_prev s < m
     \<and> (\<forall>v. border t (ng_i s) v \<and> ng_prev s < v \<and> v < m \<longrightarrow> t ! v \<noteq> t ! ng_i s)
     \<and> length (ng_lps s) = m
     \<and> (\<forall>j<m. if j < ng_i s then longest_border t (Suc j) (ng_lps s ! j) else ng_lps s ! j = 0)"

text \<open>The best match so far: longest, and among those the last.\<close>

definition ngram_best :: "int list \<Rightarrow> nat \<Rightarrow> ngram_state \<Rightarrow> bool" where
  "ngram_best t m s \<longleftrightarrow> ng_longest s \<le> m
     \<and> (\<forall>i v. i < ng_i s \<and> v \<le> m \<and> border t (Suc i) v \<longrightarrow> v \<le> ng_longest s)
     \<and> (0 < ng_longest s \<longrightarrow> ng_position s < ng_i s \<and> border t (Suc (ng_position s)) (ng_longest s)
          \<and> (\<forall>i. ng_position s < i \<and> i < ng_i s \<longrightarrow> \<not> border t (Suc i) (ng_longest s)))"

lemma ngram_start_ok:
  assumes "0 < m"
  shows "ngram_inv t m (ngram_start m)" "ngram_best t m (ngram_start m)"
  using assms by (auto simp: ngram_inv_def ngram_best_def ngram_start_def longest_border_def border_def)


lemma no_longer:
  assumes "ngram_inv t m s" "border t (ng_i s) v" "ng_prev s < v" "v < m"
  shows "t ! v \<noteq> t ! ng_i s"
proof -
  have "\<forall>v. border t (ng_i s) v \<and> ng_prev s < v \<and> v < m \<longrightarrow> t ! v \<noteq> t ! ng_i s"
    using assms(1) unfolding ngram_inv_def by (elim conjE)
  then show ?thesis using assms(2-4) by blast
qed

lemma ngram_best_same:
  assumes "ngram_best t m s" "ng_longest s' = ng_longest s" "ng_position s' = ng_position s" "ng_i s' = ng_i s"
  shows "ngram_best t m s'"
  using assms(1) unfolding ngram_best_def assms(2-4) .

text \<open>The longest match that ends at the current token, capped.\<close>

lemma extended_is_longest:
  assumes "ngram_inv t m s" "t ! ng_prev s = t ! ng_i s"
  shows "border t (Suc (ng_i s)) (Suc (ng_prev s))" "\<And>v. border t (Suc (ng_i s)) v \<Longrightarrow> v \<le> m \<Longrightarrow> v \<le> Suc (ng_prev s)"
proof -
  show "border t (Suc (ng_i s)) (Suc (ng_prev s))" using assms by (simp add: border_Suc ngram_inv_def)
  fix v assume v: "border t (Suc (ng_i s)) v" "v \<le> m"
  show "v \<le> Suc (ng_prev s)"
  proof (cases v)
    case (Suc w)
    then have "border t (ng_i s) w" "t ! w = t ! ng_i s" "w < m" using v by (simp_all add: border_Suc)
    then have "\<not> ng_prev s < w" using no_longer [OF assms(1)] by blast
    then show ?thesis using Suc by simp
  qed simp
qed

lemma mismatch_is_zero:
  assumes "ngram_inv t m s" "t ! ng_prev s \<noteq> t ! ng_i s" "ng_prev s = 0" "border t (Suc (ng_i s)) v" "v \<le> m"
  shows "v = 0"
proof (cases v)
  case (Suc w)
  then have w: "border t (ng_i s) w" "t ! w = t ! ng_i s" "w < m" using assms(4,5) by (simp_all add: border_Suc)
  then have "\<not> 0 < w" using no_longer [OF assms(1), of w] assms(3) by auto
  then show ?thesis using w(2) assms(2,3) by simp
qed simp

lemma lps_of_inv:
  assumes "ngram_inv t m s" "j < m"
  shows "if j < ng_i s then longest_border t (Suc j) (ng_lps s ! j) else ng_lps s ! j = 0"
proof -
  have "\<forall>j<m. if j < ng_i s then longest_border t (Suc j) (ng_lps s ! j) else ng_lps s ! j = 0"
    using assms(1) unfolding ngram_inv_def by (elim conjE)
  then show ?thesis using assms(2) by blast
qed

lemma lps_longest:
  assumes "ngram_inv t m s" "0 < p" "p \<le> m" "p \<le> ng_i s"
  shows "longest_border t p (ng_lps s ! (p - 1))" "p - 1 < length (ng_lps s)"
proof -
  have "p - 1 < m" "p - 1 < ng_i s" using assms(2-4) by simp_all
  then have "longest_border t (Suc (p - 1)) (ng_lps s ! (p - 1))" using lps_of_inv [OF assms(1), of "p - 1"] by simp
  then show "longest_border t p (ng_lps s ! (p - 1))" using assms(2) by simp
  have "length (ng_lps s) = m" using assms(1) unfolding ngram_inv_def by (elim conjE)
  then show "p - 1 < length (ng_lps s)" using assms(2,3) by simp
qed

lemma py_nth_before: "0 < p \<Longrightarrow> p - 1 < length xs \<Longrightarrow> py_nth xs (int p - 1) = Inr (xs ! (p - 1))"
  using py_nth_nonneg(2) [of xs "p - 1"] by (simp add: of_nat_diff)

text \<open>The table after a match: the entry of the current token is written while it is within the table.\<close>

lemma extended_table:
  assumes inv: "ngram_inv t m s" and eq: "t ! ng_prev s = t ! ng_i s"
  defines "lps \<equiv> (if ng_i s < m then (ng_lps s)[ng_i s := Suc (ng_prev s)] else ng_lps s)"
  shows "length lps = m" "\<forall>j<m. if j < Suc (ng_i s) then longest_border t (Suc j) (lps ! j) else lps ! j = 0"
proof -
  have len: "length (ng_lps s) = m" using inv by (simp add: ngram_inv_def)
  show "length lps = m" using len by (simp add: lps_def)
  show "\<forall>j<m. if j < Suc (ng_i s) then longest_border t (Suc j) (lps ! j) else lps ! j = 0"
  proof (intro allI impI)
    fix j assume j: "j < m"
    consider (here) "j = ng_i s" | (other) "j \<noteq> ng_i s" by blast
    then show "if j < Suc (ng_i s) then longest_border t (Suc j) (lps ! j) else lps ! j = 0"
    proof cases
      case here
      have "w \<le> Suc (ng_prev s)" if "border t (Suc (ng_i s)) w" for w
        using extended_is_longest(2) [OF inv eq that] that j here by (simp add: border_def)
      then show ?thesis using here j len extended_is_longest(1) [OF inv eq] by (simp add: lps_def longest_border_def)
    next
      case other
      then have "lps ! j = ng_lps s ! j" "j < Suc (ng_i s) \<longleftrightarrow> j < ng_i s" by (auto simp: lps_def)
      then show ?thesis using lps_of_inv [OF inv j] by simp
    qed
  qed
qed

lemma ngram_best_next:
  assumes best: "ngram_best t m s" and w: "w \<le> m" "border t (Suc (ng_i s)) w"
    and top: "\<And>v. border t (Suc (ng_i s)) v \<Longrightarrow> v \<le> m \<Longrightarrow> v \<le> w"
  shows "0 < w \<Longrightarrow> ng_longest s \<le> w \<Longrightarrow> ngram_best t m (s\<lparr>ng_longest := w, ng_position := ng_i s, ng_lps := l, ng_prev := q, ng_i := Suc (ng_i s)\<rparr>)"
    "w < ng_longest s \<or> w = 0 \<Longrightarrow> ngram_best t m (s\<lparr>ng_lps := l, ng_prev := q, ng_i := Suc (ng_i s)\<rparr>)"
proof -
  have upto: "\<forall>i v. i < ng_i s \<and> v \<le> m \<and> border t (Suc i) v \<longrightarrow> v \<le> ng_longest s"
    using best unfolding ngram_best_def by (elim conjE)
  have all: "v \<le> max w (ng_longest s)" if "i < Suc (ng_i s)" "v \<le> m" "border t (Suc i) v" for i v
    using that upto top by (cases "i = ng_i s") (auto simp: le_max_iff_disj less_Suc_eq)
  show "ngram_best t m (s\<lparr>ng_longest := w, ng_position := ng_i s, ng_lps := l, ng_prev := q, ng_i := Suc (ng_i s)\<rparr>)"
    if "0 < w" "ng_longest s \<le> w" using that all w by (auto simp: ngram_best_def max_def)
  show "ngram_best t m (s\<lparr>ng_lps := l, ng_prev := q, ng_i := Suc (ng_i s)\<rparr>)" if "w < ng_longest s \<or> w = 0"
  proof -
    have "\<not> border t (Suc (ng_i s)) (ng_longest s)" if "0 < ng_longest s"
    proof
      assume "border t (Suc (ng_i s)) (ng_longest s)"
      then have "ng_longest s \<le> w" using top best by (simp add: ngram_best_def)
      with \<open>w < ng_longest s \<or> w = 0\<close> that show False by simp
    qed
    moreover have "v \<le> ng_longest s" if "i < Suc (ng_i s)" "v \<le> m" "border t (Suc i) v" for i v
      using all [OF that] \<open>w < ng_longest s \<or> w = 0\<close> by auto
    ultimately show ?thesis using best by (auto simp: ngram_best_def less_Suc_eq)
  qed
qed

lemma ngram_step_match:
  assumes inv: "ngram_inv t m s" and best: "ngram_best t m s" and i: "ng_i s < length t" and eq: "t ! ng_prev s = t ! ng_i s"
  shows "\<exists>s'. ngram_step t m s = Inr s' \<and> ngram_inv t m s' \<and> ngram_best t m s' \<and> ng_i s' = Suc (ng_i s) \<and> ng_prev s' \<le> Suc (ng_prev s)"
proof -
  let ?p = "Suc (ng_prev s)" and ?i = "ng_i s"
  define lps where "lps = (if ?i < m then (ng_lps s)[?i := ?p] else ng_lps s)"
  note table = extended_table [OF inv eq, folded lps_def] and ext = extended_is_longest [OF inv eq]
  have prev: "ng_prev s < ?i" "ng_prev s < m" using inv by (simp_all add: ngram_inv_def border_def)
  obtain q where q: "(if ?p = m then py_nth lps (int m - 1) else Inr ?p) = Inr q" "q \<le> ?p" "q < m"
    and bq: "border t (Suc ?i) q" "\<And>v. border t (Suc ?i) v \<Longrightarrow> v < m \<Longrightarrow> v \<le> q"
  proof (cases "?p = m")
    case True
    have m: "0 < m" "m - 1 < length lps" "m - 1 < Suc ?i" using True prev table(1) by simp_all
    then have lb: "longest_border t m (lps ! (m - 1))" using table(2) [rule_format, of "m - 1"] by simp
    have "border t (Suc ?i) m" using ext(1) True by simp
    then have "border t (Suc ?i) (lps ! (m - 1))" "\<And>v. border t (Suc ?i) v \<Longrightarrow> v < m \<Longrightarrow> v \<le> lps ! (m - 1)"
      using lb border_trans border_shorter unfolding longest_border_def by blast+
    moreover have "lps ! (m - 1) < m" using lb by (simp add: longest_border_def border_def)
    ultimately show ?thesis using that [of "lps ! (m - 1)"] py_nth_before [OF m(1,2)] True by simp
  next
    case False
    then show ?thesis using that [of ?p] ext prev by simp
  qed
  define s' where "s' = (if ?p \<ge> ng_longest s then s\<lparr>ng_longest := ?p, ng_position := ?i\<rparr> else s)\<lparr>ng_lps := lps, ng_prev := q, ng_i := Suc ?i\<rparr>"
  have "ngram_step t m s = bindR (if ?p = m then py_nth lps (int m - 1) else Inr ?p) (\<lambda>p'.
      Inr ((if ?p \<ge> ng_longest s then s\<lparr>ng_longest := ?p, ng_position := ?i\<rparr> else s)\<lparr>ng_lps := lps, ng_prev := p', ng_i := Suc ?i\<rparr>))"
    using i prev(1) eq by (simp add: ngram_step_def Let_def lps_def)
  then have "ngram_step t m s = Inr s'" by (simp only: q(1) bindR_simps s'_def)
  moreover have "ngram_inv t m s'" 
  proof -
    have "\<forall>v. border t (Suc ?i) v \<and> q < v \<and> v < m \<longrightarrow> t ! v \<noteq> t ! Suc ?i" using bq(2) leD by blast
    then show ?thesis using table q(3) bq(1) by (simp add: ngram_inv_def s'_def)
  qed
  moreover have "ngram_best t m s'"
    using ngram_best_next [OF best _ ext, where l = lps and q = q] prev by (auto simp: s'_def)
  ultimately show ?thesis using q(2) by (intro exI [of _ s']) (simp add: s'_def)
qed

lemma ngram_step_back:
  assumes inv: "ngram_inv t m s" and best: "ngram_best t m s" and i: "ng_i s < length t"
    and ne: "t ! ng_prev s \<noteq> t ! ng_i s" and pos: "0 < ng_prev s"
  shows "\<exists>s'. ngram_step t m s = Inr s' \<and> ngram_inv t m s' \<and> ngram_best t m s' \<and> ng_i s' = ng_i s \<and> ng_prev s' < ng_prev s"
proof -
  let ?p = "ng_prev s" and ?q = "ng_lps s ! (ng_prev s - 1)"
  have b: "border t (ng_i s) ?p" "?p < m" "?p < ng_i s" using inv by (simp_all add: ngram_inv_def border_def)
  have lb: "longest_border t ?p ?q" "?p - 1 < length (ng_lps s)" using lps_longest [OF inv pos] b by simp_all
  have q: "border t (ng_i s) ?q" "?q < ?p" using lb(1) b(1) border_trans by (auto simp: longest_border_def border_def)
  have none: "t ! v \<noteq> t ! ng_i s" if v: "border t (ng_i s) v" "?q < v" "v < m" for v
  proof -
    consider "?p < v" | "v = ?p" | "v < ?p" by linarith
    then show ?thesis
    proof cases
      case 1
      then show ?thesis using no_longer [OF inv v(1)] v(3) by simp
    next
      case 3
      then have "v \<le> ?q" using border_shorter [OF b(1) v(1)] lb(1) by (simp add: longest_border_def)
      then show ?thesis using v(2) by simp
    qed (use ne in simp)
  qed
  have "ngram_step t m s = Inr (s\<lparr>ng_prev := ?q\<rparr>)"
    using i b ne pos py_nth_before [OF pos lb(2)] by (simp add: ngram_step_def Let_def)
  moreover have "ngram_inv t m (s\<lparr>ng_prev := ?q\<rparr>)" using inv q b none by (auto simp: ngram_inv_def)
  moreover have "ngram_best t m (s\<lparr>ng_prev := ?q\<rparr>)" by (rule ngram_best_same [OF best]) simp_all
  ultimately show ?thesis using q(2) by (intro exI [of _ "s\<lparr>ng_prev := ?q\<rparr>"]) simp
qed

lemma ngram_step_skip:
  assumes inv: "ngram_inv t m s" and best: "ngram_best t m s" and i: "ng_i s < length t"
    and ne: "t ! ng_prev s \<noteq> t ! ng_i s" and zero: "ng_prev s = 0"
  shows "\<exists>s'. ngram_step t m s = Inr s' \<and> ngram_inv t m s' \<and> ngram_best t m s' \<and> ng_i s' = Suc (ng_i s) \<and> ng_prev s' = 0"
proof -
  let ?s = "s\<lparr>ng_i := Suc (ng_i s)\<rparr>"
  have only: "v = 0" if "border t (Suc (ng_i s)) v" "v \<le> m" for v using mismatch_is_zero [OF inv ne zero that] .
  have "t \<noteq> []" using i by auto
  then have "ngram_step t m s = Inr ?s" using i ne zero py_nth_nonneg(2) [of t 0] by (simp add: ngram_step_def)
  moreover have "ngram_inv t m ?s"
  proof -
    have "if j < Suc (ng_i s) then longest_border t (Suc j) (ng_lps s ! j) else ng_lps s ! j = 0" if "j < m" for j
    proof (cases "j = ng_i s")
      case True
      then have "ng_lps s ! j = 0" using lps_of_inv [OF inv that] by simp
      moreover have "w = 0" if "border t (Suc j) w" for w using only [of w] that True \<open>j < m\<close> by (simp add: border_def)
      ultimately show ?thesis using True by (auto simp: longest_border_def)
    next
      case False
      then show ?thesis using lps_of_inv [OF inv that] by (simp add: less_Suc_eq)
    qed
    moreover have "\<not> border t (Suc (ng_i s)) v" if "0 < v" "v < m" for v using only [of v] that by auto
    ultimately show ?thesis using inv zero by (auto simp: ngram_inv_def)
  qed
  moreover have "ngram_best t m ?s" using ngram_best_next(2) [OF best, where w = 0 and l = "ng_lps s" and q = "ng_prev s"] only by auto
  ultimately show ?thesis using zero by (intro exI [of _ ?s]) simp
qed

text \<open>The loop ends after at most twice as many rounds as there are tokens.\<close>

lemma ngram_loop_ok:
  "ngram_inv t m s \<Longrightarrow> ngram_best t m s \<Longrightarrow> ng_i s \<le> length t \<Longrightarrow>
   \<exists>s'. ngram_loop t m s = Some (Inr s') \<and> ngram_best t m s' \<and> ng_i s' = length t"
proof (induction "2 * (length t - ng_i s) + ng_prev s" arbitrary: s rule: less_induct)
  case less
  show ?case
  proof (cases "ng_i s < length t")
    case False
    then show ?thesis using less.prems ngram_loop.simps [of t m s] by simp
  next
    case True
    obtain s1 where s1: "ngram_step t m s = Inr s1" "ngram_inv t m s1" "ngram_best t m s1"
      "ng_i s1 = Suc (ng_i s) \<and> ng_prev s1 \<le> Suc (ng_prev s) \<or> ng_i s1 = ng_i s \<and> ng_prev s1 < ng_prev s"
      using ngram_step_match [OF less.prems(1,2) True] ngram_step_back [OF less.prems(1,2) True] ngram_step_skip [OF less.prems(1,2) True]
      by (cases "t ! ng_prev s = t ! ng_i s"; cases "ng_prev s = 0") auto
    have "2 * (length t - ng_i s1) + ng_prev s1 < 2 * (length t - ng_i s) + ng_prev s" "ng_i s1 \<le> length t" using s1(4) True by auto
    from less.hyps [OF this(1) s1(2,3) this(2)] show ?thesis using True s1(1) ngram_loop.simps [of t m s] by simp
  qed
qed


subsection \<open>The drafts of one request\<close>

lemma ngram_match_place:
  assumes "ngram_match xs n p"
  shows "border (rev xs) (Suc (length xs - 1 - p)) n" "length xs - 1 - p < length xs" "length xs - 1 - (length xs - 1 - p) = p"
proof -
  have p: "p + n < length xs" using assms by (simp add: ngram_match_def)
  then show "length xs - 1 - p < length xs" "length xs - 1 - (length xs - 1 - p) = p" by simp_all
  then show "border (rev xs) (Suc (length xs - 1 - p)) n" using ngram_match_border [of "length xs - 1 - p" xs n] assms p by simp
qed

lemma ngram_best_reference:
  assumes best: "ngram_best (rev xs) m s" and i: "ng_i s = length xs" and lo: "0 < lo"
  shows "longest_ngram xs lo m =
    (if ng_longest s < lo then None else Some (ng_longest s, length xs - 1 - ng_position s))"
proof -
  let ?n = "ng_longest s" and ?i = "ng_position s"
  have top: "n \<le> ?n" if "ngram_match xs n p" "n \<le> m" for n p
    using ngram_match_place [OF that(1)] best that(2) i unfolding ngram_best_def by auto
  show ?thesis
  proof (cases "?n < lo")
    case True
    then have "\<not> ngram_match xs n p" if "lo \<le> n" "n \<le> m" for n p using top [of n p] that by auto
    then have "longest_ngram xs lo m = None" by (rule longest_ngram_None)
    then show ?thesis using True by simp
  next
    case False
    then have pos: "?i < length xs" "border (rev xs) (Suc ?i) ?n" and last: "\<And>j. ?i < j \<Longrightarrow> j < length xs \<Longrightarrow> \<not> border (rev xs) (Suc j) ?n"
      and m: "?n \<le> m" using best lo i by (auto simp: ngram_best_def)
    have "longest_ngram xs lo m = Some (?n, length xs - 1 - ?i)"
    proof (rule longest_ngram_Some)
      show "ngram_match xs ?n (length xs - 1 - ?i)" using ngram_match_border [OF pos(1)] pos(2) by (simp add: border_def)
      show "\<not> ngram_match xs n q" if "?n < n" "n \<le> m" for n q using top [of n q] that by auto
      show "\<not> ngram_match xs ?n q" if "q < length xs - 1 - ?i" for q
        using ngram_match_place [of xs ?n q] last [of "length xs - 1 - q"] that by auto
    qed (use False m in auto)
    then show ?thesis using False by simp
  qed
qed

lemma slice_capped:
  assumes "a < length xs" "0 < k"
  shows "slice_between xs (int a) (int a + min k (int (length xs) - int a)) = take (nat k) (drop a xs)"
proof -
  have "nat (int a + min k (int (length xs) - int a)) = a + min (nat k) (length xs - a)" using assms by (auto simp: min_def)
  then have "slice_between xs (int a) (int a + min k (int (length xs) - int a)) = drop a (take (a + min (nat k) (length xs - a)) xs)"
    using assms by (subst slice_nonneg(3)) simp_all
  also have "\<dots> = take (min (nat k) (length (drop a xs))) (drop a xs)" by (simp add: drop_take)
  also have "\<dots> = take (nat k) (drop a xs)" by (metis min.commute take_all_iff take_take order_refl)
  finally show ?thesis .
qed

lemma find_longest_matched_ngram_reference:
  assumes lo: "1 \<le> lo" and hi: "1 \<le> hi"
  shows "find_longest_matched_ngram xs lo hi max_len k
    = Inr (reference_drafts xs (nat lo) (nat hi) (nat (min k (max_len - int (length xs)))))"
proof -
  let ?k = "min k (max_len - int (length xs))"
  have short: "longest_ngram xs (nat lo) (nat hi) = None" if "int (length xs) < lo"
    by (rule longest_ngram_None) (use that in \<open>auto simp: ngram_match_def\<close>)
  show ?thesis
  proof (cases "int (length xs) < lo \<or> ?k \<le> 0")
    case True
    then show ?thesis using short by (auto simp: find_longest_matched_ngram_def reference_drafts_def Let_def split: option.split)
  next
    case False
    have m: "0 < nat hi" using hi by simp
    have len: "ng_i (ngram_start (nat hi)) \<le> length (rev xs)" using False lo by (simp add: ngram_start_def)
    obtain s where s: "ngram_loop (rev xs) (nat hi) (ngram_start (nat hi)) = Some (Inr s)" "ngram_best (rev xs) (nat hi) s" "ng_i s = length xs"
      using ngram_loop_ok [OF ngram_start_ok [OF m] len] by auto
    note ref = ngram_best_reference [OF s(2,3), of "nat lo"]
    show ?thesis
    proof (cases "int (ng_longest s) < lo")
      case True
      then show ?thesis using False s(1) ref lo hi
        by (simp add: find_longest_matched_ngram_def reference_drafts_def Let_def zless_nat_eq_int_zless)
    next
      case long: False
      let ?n = "ng_longest s" and ?p = "length xs - 1 - ng_position s"
      have b: "ng_position s < length xs" "?n \<le> ng_position s" using s(2,3) long lo by (auto simp: ngram_best_def border_def)
      have start: "int (length xs) - 1 - int (ng_position s) + int ?n = int (?p + ?n)" "?p + ?n < length xs" using b by auto
      have sl: "slice_between xs (int (?p + ?n)) (int (?p + ?n) + min ?k (int (length xs) - int (?p + ?n))) = take (nat ?k) (drop (?p + ?n) xs)"
        by (rule slice_capped) (use False start(2) in linarith)+
      have "find_longest_matched_ngram xs lo hi max_len k
          = Inr (slice_between xs (int (?p + ?n)) (int (?p + ?n) + min ?k (int (length xs) - int (?p + ?n))))"
        unfolding find_longest_matched_ngram_def Let_def using False s(1) long hi by (simp del: slice_nonneg add: start(1))
      moreover have "reference_drafts xs (nat lo) (nat hi) (nat ?k) = take (nat ?k) (drop (?p + ?n) xs)"
      proof -
        have "\<not> ?n < nat lo" "0 < nat lo" using long lo by auto
        then show ?thesis using ref by (simp add: reference_drafts_def)
      qed
      ultimately show ?thesis by (simp only: sl)
    qed
  qed
qed


subsection \<open>The drafts of a batch\<close>

text \<open>What a proposer keeps: its settings, and buffers with a row for each of \<open>seqs\<close> requests.\<close>

definition proposer_ok :: "int \<Rightarrow> int \<Rightarrow> int \<Rightarrow> int \<Rightarrow> nat \<Rightarrow> ngram_proposer \<Rightarrow> bool" where
  "proposer_ok lo hi k max_len seqs p \<longleftrightarrow> np_min_n p = lo \<and> np_max_n p = hi \<and> np_k p = k \<and> np_max_model_len p = max_len
     \<and> length (np_valid_ngram_draft p) = seqs \<and> length (np_valid_ngram_num_drafts p) = seqs
     \<and> (\<forall>i < seqs. length (np_valid_ngram_draft p ! i) = nat k)"

definition row_holds :: "ngram_proposer \<Rightarrow> nat \<Rightarrow> int list \<Rightarrow> bool" where
  "row_holds p i d \<longleftrightarrow> np_valid_ngram_num_drafts p ! i = int (length d) \<and> take (length d) (np_valid_ngram_draft p ! i) = d"

definition same_row :: "ngram_proposer \<Rightarrow> ngram_proposer \<Rightarrow> nat \<Rightarrow> bool" where
  "same_row p q i \<longleftrightarrow> np_valid_ngram_num_drafts q ! i = np_valid_ngram_num_drafts p ! i
     \<and> np_valid_ngram_draft q ! i = np_valid_ngram_draft p ! i"

definition context_drafts :: "int \<Rightarrow> int \<Rightarrow> int \<Rightarrow> int \<Rightarrow> int list \<Rightarrow> int list list \<Rightarrow> nat \<Rightarrow> int list" where
  "context_drafts lo hi k max_len nums toks i =
     (let xs = slice_to (toks ! i) (nums ! i)
      in reference_drafts xs (nat lo) (nat hi) (nat (min k (max_len - int (length xs)))))"

lemma context_drafts_length: "length (context_drafts lo hi k max_len nums toks i) \<le> nat k"
  by (auto simp: context_drafts_def reference_drafts_def Let_def split: option.split)

lemma propose_one_ok:
  assumes ok: "proposer_ok lo hi k max_len seqs p" and lo: "1 \<le> lo" "1 \<le> hi"
    and i: "i < seqs" "i < length nums" "i < length toks"
  shows "\<exists>q. propose_one nums toks i p = Inr q \<and> proposer_ok lo hi k max_len seqs q
    \<and> row_holds q i (context_drafts lo hi k max_len nums toks i) \<and> (\<forall>j. j \<noteq> i \<longrightarrow> same_row p q j)"
proof -
  let ?d = "context_drafts lo hi k max_len nums toks i"
  note p = ok [unfolded proposer_ok_def]
  have "find_longest_matched_ngram (slice_to (toks ! i) (nums ! i)) (np_min_n p) (np_max_n p) (np_max_model_len p) (np_k p) = Inr ?d"
    using p find_longest_matched_ngram_reference [OF lo] by (simp add: context_drafts_def Let_def)
  then have run: "propose_one nums toks i p =
      (let p1 = p\<lparr>np_valid_ngram_num_drafts := (np_valid_ngram_num_drafts p)[i := int (length ?d)]\<rparr>
       in if ?d = [] then Inr p1
          else Inr (p1\<lparr>np_valid_ngram_draft := (np_valid_ngram_draft p)[i := ?d @ drop (length ?d) (np_valid_ngram_draft p ! i)]\<rparr>))"
    using p i context_drafts_length [of lo hi k max_len nums toks i] by (simp add: propose_one_def Let_def write_front_def)
  have len: "length (?d @ drop (length ?d) (np_valid_ngram_draft p ! i)) = nat k"
    using p i(1) context_drafts_length [of lo hi k max_len nums toks i] by simp
  show ?thesis unfolding run Let_def using p i(1) len
    by (auto simp: proposer_ok_def row_holds_def same_row_def nth_list_update)
qed

lemma batch_propose_numba_ok:
  assumes lo: "1 \<le> lo" "1 \<le> hi" and sizes: "\<And>i. i \<in> set valid \<Longrightarrow> i < seqs \<and> i < length nums \<and> i < length toks"
    and ok: "proposer_ok lo hi k max_len seqs p"
  shows "\<exists>q. foldR (propose_one nums toks) valid p = Inr q \<and> proposer_ok lo hi k max_len seqs q
    \<and> (\<forall>i \<in> set valid. row_holds q i (context_drafts lo hi k max_len nums toks i)) \<and> (\<forall>i. i \<notin> set valid \<longrightarrow> same_row p q i)"
  using sizes ok
proof (induction valid arbitrary: p)
  case Nil
  then show ?case by (simp add: same_row_def)
next
  case (Cons x xs)
  obtain p1 where p1: "propose_one nums toks x p = Inr p1" "proposer_ok lo hi k max_len seqs p1"
    "row_holds p1 x (context_drafts lo hi k max_len nums toks x)" "\<forall>j. j \<noteq> x \<longrightarrow> same_row p p1 j"
    using propose_one_ok [OF Cons.prems(2) lo, of x nums toks] Cons.prems(1) [of x] by auto
  obtain q where q: "foldR (propose_one nums toks) xs p1 = Inr q" "proposer_ok lo hi k max_len seqs q"
    "\<forall>i \<in> set xs. row_holds q i (context_drafts lo hi k max_len nums toks i)" "\<forall>i. i \<notin> set xs \<longrightarrow> same_row p1 q i"
    using Cons.IH [OF Cons.prems(1) p1(2)] by auto
  have "row_holds q x (context_drafts lo hi k max_len nums toks x)"
    using p1(3) q(3,4) by (cases "x \<in> set xs") (auto simp: row_holds_def same_row_def)
  then show ?case using p1 q by (auto simp: same_row_def)
qed

lemma foldR_collect:
  assumes "\<And>x ds. x \<in> set xs \<Longrightarrow> f x ds = Inr (ds @ g x)"
  shows "foldR f xs ds = Inr (ds @ concat (map g xs))"
  using assms by (induction xs arbitrary: ds) auto

lemma concat_filter: "concat (map (\<lambda>x. if P x then [x] else []) xs) = filter P xs"
  by (induction xs) auto

lemma valid_requests:
  assumes "length sampled \<le> length nums"
  shows "foldR (needs_ngram max_len nums) (enumerate 0 sampled) []
    = Inr (filter (\<lambda>i. sampled ! i \<noteq> [] \<and> nums ! i < max_len) [0..<length sampled])"
proof -
  have "foldR (needs_ngram max_len nums) (enumerate 0 sampled) []
    = Inr ([] @ concat (map (\<lambda>x. if snd x \<noteq> [] \<and> nums ! fst x < max_len then [fst x] else []) (enumerate 0 sampled)))"
    by (rule foldR_collect) (use assms in \<open>auto simp: needs_ngram_def in_set_enumerate_eq\<close>)
  also have "concat (map (\<lambda>x. if snd x \<noteq> [] \<and> nums ! fst x < max_len then [fst x] else []) (enumerate 0 sampled))
    = concat (map (\<lambda>i. if sampled ! i \<noteq> [] \<and> nums ! i < max_len then [i] else []) [0..<length sampled])"
    by (intro arg_cong [of _ _ concat] nth_equalityI) (auto simp: nth_enumerate_eq)
  also have "\<dots> = filter (\<lambda>i. sampled ! i \<noteq> [] \<and> nums ! i < max_len) [0..<length sampled]"
    by (rule concat_filter)
  finally show ?thesis by simp
qed


lemma propose_ok:
  assumes lo: "1 \<le> lo" "1 \<le> hi" and ok: "proposer_ok lo hi k max_len seqs p"
    and n: "length sampled \<le> seqs" "length sampled \<le> length nums" "length sampled \<le> length toks"
  shows "\<exists>q. propose sampled nums toks p =
      Inr (map (\<lambda>i. if sampled ! i \<noteq> [] \<and> nums ! i < max_len then context_drafts lo hi k max_len nums toks i else []) [0..<length sampled], q)
    \<and> proposer_ok lo hi k max_len seqs q"
proof -
  let ?valid = "filter (\<lambda>i. sampled ! i \<noteq> [] \<and> nums ! i < max_len) [0..<length sampled]"
  let ?d = "context_drafts lo hi k max_len nums toks"
  have len: "np_max_model_len p = max_len" using ok by (simp add: proposer_ok_def)
  have sizes: "i < seqs \<and> i < length nums \<and> i < length toks" if "i \<in> set ?valid" for i using that n by auto
  obtain q where q: "foldR (propose_one nums toks) ?valid p = Inr q" "proposer_ok lo hi k max_len seqs q"
    "\<forall>i \<in> set ?valid. row_holds q i (?d i)"
    using batch_propose_numba_ok [OF lo sizes ok] by blast
  have q': "(if ?valid \<noteq> [] then batch_propose_numba ?valid nums toks p else Inr p) = Inr q"
  proof (cases "?valid = []")
    case True
    have "foldR (propose_one nums toks) ?valid p = Inr p" unfolding True by simp
    then show ?thesis using q(1) unfolding True by simp
  next
    case False
    then show ?thesis using q(1) by (simp only: batch_propose_numba_def not_False_eq_True if_True)
  qed
  have read: "foldR (read_draft ?valid q) [0..<length sampled] [] = Inr ([] @ concat (map (\<lambda>i. [if i \<in> set ?valid then ?d i else []]) [0..<length sampled]))"
  proof (rule foldR_collect)
    fix i and ds :: "int list list" assume i: "i \<in> set [0..<length sampled]"
    have s: "i < seqs" using i n by simp
    show "read_draft ?valid q i ds = Inr (ds @ [if i \<in> set ?valid then ?d i else []])"
    proof (cases "i \<in> set ?valid")
      case True
      then have "row_holds q i (?d i)" using q(3) by blast
      then show ?thesis using s q(2) True by (cases "?d i = []") (simp_all add: read_draft_def row_holds_def proposer_ok_def)
    next
      case False
      then show ?thesis unfolding read_draft_def by (simp only: if_False)
    qed
  qed
  have "propose sampled nums toks p = bindR (if ?valid \<noteq> [] then batch_propose_numba ?valid nums toks p else Inr p) (\<lambda>p1.
     bindR (foldR (read_draft ?valid p1) [0..<length sampled] []) (\<lambda>ds. Inr (ds, p1)))"
    by (simp only: propose_def len valid_requests [OF n(2)] bindR_simps batch_propose_def)
  also have "\<dots> = Inr (concat (map (\<lambda>i. [if i \<in> set ?valid then ?d i else []]) [0..<length sampled]), q)"
    by (simp only: q' read bindR_simps append_Nil)
  also have "concat (map (\<lambda>i. [if i \<in> set ?valid then ?d i else []]) [0..<length sampled])
    = map (\<lambda>i. if sampled ! i \<noteq> [] \<and> nums ! i < max_len then ?d i else []) [0..<length sampled]"
    by (simp add: concat_map_singleton)
  finally show ?thesis using q(2) by blast
qed

lemma ngram_proposer_init_ok:
  assumes "0 \<le> k" "0 \<le> max_len"
  shows "\<exists>p. ngram_proposer_init lo hi k max_len seqs = Inr p \<and> proposer_ok lo hi k max_len seqs p"
proof -
  let ?p = "\<lparr>np_min_n = lo, np_max_n = hi, np_k = k, np_max_model_len = max_len,
    np_valid_ngram_draft = replicate seqs (replicate (nat k) 0), np_valid_ngram_num_drafts = replicate seqs 0\<rparr>"
  have "propose (replicate n []) nums toks ?p = Inr (replicate n [], ?p)" if "length nums = n" for n nums toks
  proof -
    have none: "filter (\<lambda>i. replicate n [] ! i \<noteq> [] \<and> nums ! i < max_len) [0..<length (replicate n [])] = []"
      by (auto simp: filter_empty_conv)
    have "foldR (needs_ngram max_len nums) (enumerate 0 (replicate n [])) [] = Inr []"
      using valid_requests [of "replicate n []" nums max_len] that unfolding none by simp
    moreover have "foldR (read_draft [] ?p) [0..<n] [] = Inr ([] @ concat (map (\<lambda>_. [[]]) [0..<n]))"
      by (rule foldR_collect) (simp add: read_draft_def)
    ultimately show ?thesis by (simp add: propose_def batch_propose_def concat_map_singleton map_replicate_const)
  qed
  from this [of "replicate 1024 0" 1024] show ?thesis
    using assms by (simp add: ngram_proposer_init_def Let_def proposer_ok_def)
qed

text \<open>A proposer after any calls for batches that its buffers have room for.\<close>

inductive ngram_reach :: "int \<Rightarrow> int \<Rightarrow> int \<Rightarrow> int \<Rightarrow> nat \<Rightarrow> ngram_proposer \<Rightarrow> bool" for lo hi k max_len seqs where
  ngram_made: "ngram_proposer_init lo hi k max_len seqs = Inr p \<Longrightarrow> ngram_reach lo hi k max_len seqs p"
| ngram_proposed: "ngram_reach lo hi k max_len seqs p \<Longrightarrow> length sampled \<le> seqs \<Longrightarrow> length sampled \<le> length nums \<Longrightarrow>
    length sampled \<le> length toks \<Longrightarrow> propose sampled nums toks p = Inr (ds, q) \<Longrightarrow> ngram_reach lo hi k max_len seqs q"

lemma ngram_reach_ok:
  assumes "ngram_reach lo hi k max_len seqs p" "1 \<le> lo" "1 \<le> hi"
  shows "proposer_ok lo hi k max_len seqs p"
  using assms(1)
proof induction
  case (ngram_made p)
  then have "0 \<le> k" "0 \<le> max_len" by (auto simp: ngram_proposer_init_def Let_def split: if_split_asm)
  from ngram_proposer_init_ok [OF this] ngram_made show ?case by (metis sum.inject(2))
next
  case (ngram_proposed p sampled nums toks ds q)
  from propose_ok [OF assms(2,3) ngram_proposed.IH ngram_proposed.hyps(2-4)] ngram_proposed.hyps(5) show ?case by auto
qed

text \<open>
  C19: The drafts are those of an exhaustive search. After any calls, whatever older drafts the buffers hold, a batch gets for
  every request with sampled tokens below the maximal length the tokens that follow the earliest
  occurrence of the longest n-gram, of a length from \<open>lo\<close> to \<open>hi\<close>, that also ends its context: at most \<open>k\<close>, and not
  beyond the maximal length; and no drafts for the other requests. The search always ends, without an index
  outside its arrays.
\<close>

theorem ngram_drafts_exhaustive:
  assumes "ngram_reach lo hi k max_len seqs p" "1 \<le> lo" "1 \<le> hi"
    and "length sampled \<le> seqs" "length sampled \<le> length nums" "length sampled \<le> length toks"
  shows "\<exists>q. propose sampled nums toks p = Inr (map (\<lambda>i.
      let xs = slice_to (toks ! i) (nums ! i)
      in if sampled ! i \<noteq> [] \<and> nums ! i < max_len
         then reference_drafts xs (nat lo) (nat hi) (nat (min k (max_len - int (length xs)))) else []) [0..<length sampled], q)"
  using propose_ok [OF assms(2,3) ngram_reach_ok [OF assms(1-3)] assms(4-6)] by (auto simp: context_drafts_def Let_def cong: map_cong)

theorem ngram_drafts_exhaustive_witness:
  "\<exists>p q. ngram_reach 2 3 4 20 2 p
     \<and> propose [[5], []] [9, 3] [[1, 2, 3, 9, 2, 3, 7, 2, 3, 0], [4, 4, 4]] p = Inr ([[9, 2, 3, 7], []], q)"
proof -
  obtain p where p: "ngram_reach 2 3 4 20 2 p" using ngram_proposer_init_ok [of 4 20 2 3 2] ngram_made by fastforce
  let ?s = "[[5::int], []]" and ?n = "[9, 3] :: int list" and ?t = "[[1, 2, 3, 9, 2, 3, 7, 2, 3, 0], [4, 4, 4]] :: int list list"
  have r: "map (\<lambda>i. let xs = slice_to (?t ! i) (?n ! i)
      in if ?s ! i \<noteq> [] \<and> ?n ! i < 20
         then reference_drafts xs (nat 2) (nat 3) (nat (min 4 (20 - int (length xs)))) else []) [0..<length ?s] = [[9, 2, 3, 7], []]"
    by code_simp
  have "length ?s \<le> 2" "length ?s \<le> length ?n" "length ?s \<le> length ?t" by simp_all
  from ngram_drafts_exhaustive [OF p _ _ this] show ?thesis unfolding r using p by auto
qed

end
