(* ===== verification/Rejection_Sampler.thy ===== *)
theory Rejection_Sampler
  imports Prelude Complex_Main "HOL-Library.Sublist"
begin

text \<open>
  Acceptance of draft tokens (\<open>sample/rejection_sampler.py\<close>): the kernels that compare drafts with the choices of the target
  model, one program per request over flat arrays, the function that launches them, and the parsing of their output.
  Probabilities are elements of an ordered field; softmax, argmax and random numbers are inputs.
\<close>

subsection \<open>Device memory\<close>

text \<open>Loads and stores by address. Outside the array, where a device would not notice, they are \<open>IndexError\<close>.\<close>

definition tl_load :: "'a list \<Rightarrow> int \<Rightarrow> 'a result" where
  "tl_load mem i = (if 0 \<le> i \<and> nat i < length mem then Inr (mem ! nat i) else Inl IndexError)"

definition tl_store :: "int \<Rightarrow> 'a \<Rightarrow> 'a list \<Rightarrow> 'a list result" where
  "tl_store i v mem = (if 0 \<le> i \<and> nat i < length mem then Inr (mem[nat i := v]) else Inl IndexError)"

lemma tl_load_int [simp]: "tl_load mem (int i) = (if i < length mem then Inr (mem ! i) else Inl IndexError)"
  by (simp add: tl_load_def)

lemma tl_store_int [simp]: "tl_store (int i) v mem = (if i < length mem then Inr (mem[i := v]) else Inl IndexError)"
  by (simp add: tl_store_def)

definition PLACEHOLDER_TOKEN_ID :: int where
  "PLACEHOLDER_TOKEN_ID = - 1"

text \<open>The inputs of \<open>rejection_sample\<close>; arrays with two dimensions are flat.\<close>

record 'p rejection_inputs =
  ri_draft_token_ids :: "int list"
  ri_num_draft_tokens :: "int list"
  ri_max_spec_len :: int
  ri_cu_num_draft_tokens :: "int list"
  ri_draft_probs :: "'p list option"
  ri_target_argmax :: "int list"
  ri_target_probs :: "'p list"
  ri_bonus_token_ids :: "int list"
  ri_vocab_size :: int
  ri_uniform_probs :: "'p list"
  ri_inv_q :: "'p list"
  ri_temperature :: "'p list"
  ri_all_greedy :: bool
  ri_all_random :: bool

text \<open>The range of a request in the flat arrays.\<close>

definition request_range :: "int list \<Rightarrow> nat \<Rightarrow> (int \<times> int) result" where
  "request_range cu req_idx =
     bindR (if req_idx = 0 then Inr 0 else tl_load cu (int req_idx - 1)) (\<lambda>start_idx.
     bindR (tl_load cu (int req_idx)) (\<lambda>end_idx. Inr (start_idx, end_idx - start_idx)))"

definition MAX_SPEC_LEN :: int where
  "MAX_SPEC_LEN = 128"

text \<open>A value of each request for each of its tokens; the store is masked. The new array has arbitrary contents, here zeros.\<close>

definition expand_kernel :: "int list \<Rightarrow> 'p list \<Rightarrow> 'p \<Rightarrow> 'p \<Rightarrow> nat \<Rightarrow> 'p list \<Rightarrow> 'p list result" where
  "expand_kernel cu x replace_from replace_to req_idx out =
     bindR (request_range cu req_idx) (\<lambda>(start_idx, num_tokens).
     bindR (tl_load x (int req_idx)) (\<lambda>v.
       foldR (\<lambda>offset out. if int offset < num_tokens
                then tl_store (start_idx + int offset) (if v = replace_from then replace_to else v) out else Inr out)
         [0..<nat MAX_SPEC_LEN] out))"

definition expand_batch_to_tokens :: "'p::zero list \<Rightarrow> int list \<Rightarrow> nat \<Rightarrow> 'p \<Rightarrow> 'p \<Rightarrow> 'p list result" where
  "expand_batch_to_tokens x cu num_tokens replace_from replace_to =
     bindR (assertR (length cu = length x)) (\<lambda>_.
       foldR (expand_kernel cu x replace_from replace_to) [0..<length x] (replicate num_tokens 0))"

text \<open>The output of each request before each of its drafts, for penalties and bad words.\<close>

definition combine_one :: "int list \<times> int list \<Rightarrow> int list list \<Rightarrow> int list list" where
  "combine_one p acc =
     (case p of (out, spec) \<Rightarrow>
        if spec = [] then acc
        else fold (\<lambda>i acc. acc @ [last acc @ [spec ! i]]) [0..<length spec - 1] (acc @ [out]))"

definition combine_outputs_with_spec_tokens :: "int list list \<Rightarrow> int list list option \<Rightarrow> int list list" where
  "combine_outputs_with_spec_tokens output_token_ids spec_token_ids =
     (case spec_token_ids of None \<Rightarrow> output_token_ids
      | Some specs \<Rightarrow> fold combine_one (zip output_token_ids specs) [])"

subsection \<open>Greedy requests\<close>

definition greedy_pos :: "'p rejection_inputs \<Rightarrow> nat \<Rightarrow> int \<Rightarrow> nat \<Rightarrow> bool \<times> int list \<Rightarrow> (bool \<times> int list) result" where
  "greedy_pos ri req_idx start_idx pos st =
     (if fst st then Inr st
      else
        bindR (tl_load (ri_draft_token_ids ri) (start_idx + int pos)) (\<lambda>draft.
        bindR (tl_load (ri_target_argmax ri) (start_idx + int pos)) (\<lambda>target.
        bindR (tl_store (int req_idx * (ri_max_spec_len ri + 1) + int pos) target (snd st)) (\<lambda>out.
          Inr (draft \<noteq> target, out)))))"

text \<open>The end of both kernels: the bonus token, if nothing was rejected.\<close>

definition store_bonus :: "'p rejection_inputs \<Rightarrow> nat \<Rightarrow> int \<Rightarrow> bool \<times> int list \<Rightarrow> int list result" where
  "store_bonus ri req_idx num_draft_tokens st =
     (if fst st then Inr (snd st)
      else bindR (tl_load (ri_bonus_token_ids ri) (int req_idx)) (\<lambda>bonus.
             tl_store (int req_idx * (ri_max_spec_len ri + 1) + num_draft_tokens) bonus (snd st)))"

definition rejection_greedy_sample_kernel :: "'p rejection_inputs \<Rightarrow> bool list option \<Rightarrow> nat \<Rightarrow> int list \<Rightarrow> int list result" where
  "rejection_greedy_sample_kernel ri is_greedy_ptr req_idx out =
     bindR (case is_greedy_ptr of None \<Rightarrow> Inr True | Some g \<Rightarrow> tl_load g (int req_idx)) (\<lambda>is_greedy.
       if \<not> is_greedy then Inr out
       else bindR (request_range (ri_cu_num_draft_tokens ri) req_idx) (\<lambda>(start_idx, n).
            bindR (foldR (greedy_pos ri req_idx start_idx) [0..<nat n] (False, out)) (store_bonus ri req_idx n)))"

subsection \<open>Random requests\<close>

definition random_pos ::
  "'p::linordered_field rejection_inputs \<Rightarrow> int list \<Rightarrow> nat \<Rightarrow> int \<Rightarrow> nat \<Rightarrow> bool \<times> int list \<Rightarrow> (bool \<times> int list) result" where
  "random_pos ri recovered req_idx start_idx pos st =
     (if fst st then Inr st
      else
        bindR (tl_load (ri_draft_token_ids ri) (start_idx + int pos)) (\<lambda>draft.
        bindR (case ri_draft_probs ri of None \<Rightarrow> Inr 1
               | Some dp \<Rightarrow> tl_load dp ((start_idx + int pos) * ri_vocab_size ri + draft)) (\<lambda>draft_prob.
        bindR (tl_load (ri_target_probs ri) ((start_idx + int pos) * ri_vocab_size ri + draft)) (\<lambda>target_prob.
        bindR (tl_load (ri_uniform_probs ri) (start_idx + int pos)) (\<lambda>uniform_prob.
        let accepted = (draft_prob > 0 \<and> target_prob / draft_prob \<ge> uniform_prob)
        in bindR (if accepted then Inr draft else tl_load recovered (start_idx + int pos)) (\<lambda>token.
           bindR (tl_store (int req_idx * (ri_max_spec_len ri + 1) + int pos) token (snd st)) (\<lambda>out.
             Inr (\<not> accepted, out))))))))"

definition rejection_random_sample_kernel ::
  "'p::linordered_field rejection_inputs \<Rightarrow> int list \<Rightarrow> bool list \<Rightarrow> nat \<Rightarrow> int list \<Rightarrow> int list result" where
  "rejection_random_sample_kernel ri recovered is_greedy_ptr req_idx out =
     bindR (tl_load is_greedy_ptr (int req_idx)) (\<lambda>is_greedy.
       if is_greedy then Inr out
       else bindR (request_range (ri_cu_num_draft_tokens ri) req_idx) (\<lambda>(start_idx, n).
            bindR (foldR (random_pos ri recovered req_idx start_idx) [0..<nat n] (False, out)) (store_bonus ri req_idx n)))"

subsection \<open>Recovered tokens\<close>

text \<open>A masked load gives 0 where the mask is off.\<close>

definition masked_load :: "'p::zero list \<Rightarrow> bool \<Rightarrow> int \<Rightarrow> 'p result" where
  "masked_load mem msk i = (if msk then tl_load mem i else Inr 0)"

definition tile_score ::
  "'p::linordered_field rejection_inputs \<Rightarrow> nat \<Rightarrow> int \<Rightarrow> int \<Rightarrow> 'p result" where
  "tile_score ri req_idx token_idx i =
     (let msk = (i < ri_vocab_size ri); addr = token_idx * ri_vocab_size ri + i
      in bindR (case ri_draft_probs ri of
                  None \<Rightarrow> bindR (tl_load (ri_draft_token_ids ri) token_idx) (\<lambda>draft.
                            masked_load (ri_target_probs ri) (msk \<and> i \<noteq> draft) addr)
                | Some dp \<Rightarrow> bindR (masked_load dp msk addr) (\<lambda>draft_prob.
                             bindR (masked_load (ri_target_probs ri) msk addr) (\<lambda>target_prob.
                               Inr (max (target_prob - draft_prob) 0)))) (\<lambda>prob.
         bindR (masked_load (ri_inv_q ri) msk (int req_idx * ri_vocab_size ri + i)) (\<lambda>inv_q. Inr (prob * inv_q))))"

text \<open>\<open>tl.max\<close> with its index: the first of the greatest values.\<close>

fun tl_max :: "'p::linorder list \<Rightarrow> ('p \<times> nat) option" where
  "tl_max [] = None"
| "tl_max (x # xs) = (case tl_max xs of None \<Rightarrow> Some (x, 0) | Some (m, i) \<Rightarrow> if m > x then Some (m, Suc i) else Some (x, 0))"

text \<open>One tile; the greatest value so far starts as minus infinity, here \<open>None\<close>.\<close>

definition recovered_tile ::
  "'p::linordered_field rejection_inputs \<Rightarrow> int \<Rightarrow> nat \<Rightarrow> int \<Rightarrow> int \<Rightarrow> 'p option \<times> int \<Rightarrow> ('p option \<times> int) result" where
  "recovered_tile ri block_size req_idx token_idx v st =
     bindR (mapR (\<lambda>j. tile_score ri req_idx token_idx (v + int j)) [0..<nat block_size]) (\<lambda>scores.
       case tl_max scores of
         None \<Rightarrow> Inl ValueError
       | Some (local_max, local_id) \<Rightarrow>
           Inr (if (case fst st of None \<Rightarrow> True | Some m \<Rightarrow> local_max > m) then (Some local_max, v + int local_id) else st))"

definition sample_recovered_tokens_kernel ::
  "'p::linordered_field rejection_inputs \<Rightarrow> int \<Rightarrow> nat \<times> nat \<Rightarrow> int list \<Rightarrow> int list result" where
  "sample_recovered_tokens_kernel ri block_size program out =
     (let req_idx = fst program; pos = snd program
      in bindR (request_range (ri_cu_num_draft_tokens ri) req_idx) (\<lambda>(start_idx, n).
         if int pos \<ge> n then Inr out
         else
           let token_idx = start_idx + int pos
           in bindR (foldR (recovered_tile ri block_size req_idx token_idx)
                      (map (\<lambda>t. int t * block_size) [0..<nat (cdiv (ri_vocab_size ri) block_size)]) (None, 0)) (\<lambda>(_, recovered_id).
              tl_store token_idx recovered_id out)))"

text \<open>The new array has arbitrary contents, here zeros; the programs of a grid are run in order.\<close>

definition sample_recovered_tokens :: "'p::linordered_field rejection_inputs \<Rightarrow> int \<Rightarrow> int list result" where
  "sample_recovered_tokens ri block_size =
     foldR (sample_recovered_tokens_kernel ri block_size)
       (List.product [0..<length (ri_num_draft_tokens ri)] [0..<nat (ri_max_spec_len ri)])
       (replicate (length (ri_draft_token_ids ri)) 0)"

subsection \<open>The launch\<close>

definition GREEDY_TEMPERATURE :: "'p::zero" where
  "GREEDY_TEMPERATURE = 0"

text \<open>The flags of greedy requests are missing in a batch that is all greedy; the random kernel, which loads them, does not compile then.\<close>

definition rejection_sample :: "'p::linordered_field rejection_inputs \<Rightarrow> int list result" where
  "rejection_sample ri =
     (let batch_size = length (ri_num_draft_tokens ri);
          out = replicate (nat (int batch_size * (ri_max_spec_len ri + 1))) PLACEHOLDER_TOKEN_ID;
          is_greedy = map (\<lambda>t. t = GREEDY_TEMPERATURE) (ri_temperature ri)
      in bindR (if \<not> ri_all_random ri
                then foldR (rejection_greedy_sample_kernel ri (if ri_all_greedy ri then None else Some is_greedy)) [0..<batch_size] out
                else Inr out) (\<lambda>out1.
         if \<not> ri_all_random ri \<and> ri_all_greedy ri then Inr out1
         else bindR (sample_recovered_tokens ri 8192) (\<lambda>recovered.
              if ri_all_greedy ri then Inl ValueError
              else foldR (rejection_random_sample_kernel ri recovered is_greedy) [0..<batch_size] out1)))"

text \<open>The rows of the output without placeholders, tokens outside the vocabulary and discarded requests.\<close>

definition output_rows :: "nat \<Rightarrow> nat \<Rightarrow> 'a list \<Rightarrow> 'a list list" where
  "output_rows n w xs = map (\<lambda>i. take w (drop (i * w) xs)) [0..<n]"

definition parse_output :: "int list list \<Rightarrow> int \<Rightarrow> nat list \<Rightarrow> int list list result" where
  "parse_output rows vocab_size discard =
     (if \<exists>d \<in> set discard. length rows \<le> d then Inl IndexError
      else Inr (map (\<lambda>(i, row). if i \<in> set discard then [] else filter (\<lambda>t. t \<noteq> PLACEHOLDER_TOKEN_ID \<and> t < vocab_size) row)
             (enumerate 0 rows)))"

subsection \<open>One program writes one row\<close>

text \<open>What a kernel writes for one request: tokens up to the first that is not accepted, and the bonus token after the last.\<close>

fun row_tokens :: "(bool \<times> int) list \<Rightarrow> int \<Rightarrow> int list" where
  "row_tokens [] bonus = [bonus]"
| "row_tokens ((accepted, t) # xs) bonus = t # (if accepted then row_tokens xs bonus else [])"

lemma row_tokens_length: "length (row_tokens xs b) \<le> Suc (length xs)" "row_tokens xs b \<noteq> []"
  by (induction xs b rule: row_tokens.induct) auto

definition write_at :: "nat \<Rightarrow> 'a list \<Rightarrow> 'a list \<Rightarrow> 'a list" where
  "write_at b xs out = take b out @ xs @ drop (b + length xs) out"

lemma write_at_one: "b < length out \<Longrightarrow> out[b := x] = write_at b [x] out"
  by (simp add: write_at_def upd_conv_take_nth_drop)

lemma write_at_next:
  assumes "b < length out"
  shows "write_at (Suc b) xs (out[b := x]) = write_at b (x # xs) out"
  using assms by (simp add: write_at_def take_Suc_conv_app_nth take_update_cancel drop_update_cancel)

lemma foldR_stopped: "(\<And>x. x \<in> set xs \<Longrightarrow> f x s = Inr s) \<Longrightarrow> foldR f xs s = Inr s"
  by (induction xs) auto

lemma program_writes:
  assumes step: "\<And>pos out. pos < n \<Longrightarrow> length out = len \<Longrightarrow> f pos (False, out) = Inr (\<not> fst (g pos), out[base + pos := snd (g pos)])"
    and stop: "\<And>pos out. f pos (True, out) = Inr (True, out)"
    and bonus: "\<And>out. length out = len \<Longrightarrow> fin (False, out) = Inr (out[base + n := b])" "\<And>out. fin (True, out) = Inr out"
    and room: "base + n < len" and k: "k \<le> n" "length out = len"
  shows "bindR (foldR f [k..<n] (False, out)) fin = Inr (write_at (base + k) (row_tokens (map g [k..<n]) b) out)"
  using k
proof (induction "n - k" arbitrary: k out)
  case 0
  then have "k = n" by simp
  then show ?case using bonus(1) [OF 0(3)] room 0(3) by (simp add: write_at_one)
next
  case (Suc m)
  have k: "k < n" using Suc.hyps(2) by simp
  then have range: "[k..<n] = k # [Suc k..<n]" by (rule upt_conv_Cons)
  let ?out = "out[base + k := snd (g k)]"
  have run: "foldR f [k..<n] (False, out) = foldR f [Suc k..<n] (\<not> fst (g k), ?out)" using step [OF k Suc.prems(2)] by (simp add: range)
  have inb: "base + k < length out" using room k Suc.prems(2) by simp
  show ?case
  proof (cases "fst (g k)")
    case True
    have "bindR (foldR f [Suc k..<n] (False, ?out)) fin = Inr (write_at (base + Suc k) (row_tokens (map g [Suc k..<n]) b) ?out)"
      by (rule Suc.hyps(1)) (use Suc.hyps(2) k Suc.prems(2) in auto)
    then show ?thesis using True run write_at_next [OF inb] by (cases "g k") (simp add: range)
  next
    case False
    have "foldR f [Suc k..<n] (True, ?out) = Inr (True, ?out)" by (rule foldR_stopped) (rule stop)
    then show ?thesis using False run bonus(2) write_at_one [OF inb] by (cases "g k") (simp add: range)
  qed
qed

text \<open>The output as rows of equal length.\<close>

lemma write_row:
  assumes "\<forall>r \<in> set rows. length r = w" "i < length rows" "length xs \<le> w"
  shows "write_at (i * w) xs (concat rows) = concat (rows[i := xs @ drop (length xs) (rows ! i)])"
proof -
  have sp: "rows = take i rows @ rows ! i # drop (Suc i) rows" using assms(2) by (rule id_take_nth_drop)
  have len: "length (concat (take i rows)) = i * w"
  proof -
    have "map length (take i rows) = replicate i w" using assms(1,2) by (intro replicate_eqI) (auto dest: in_set_takeD)
    then show ?thesis by (simp add: length_concat sum_list_replicate)
  qed
  have r: "length (rows ! i) = w" using assms(1,2) by simp
  have "concat rows = concat (take i rows) @ rows ! i @ concat (drop (Suc i) rows)" by (subst sp) simp
  moreover have "concat (rows[i := xs @ drop (length xs) (rows ! i)])
      = concat (take i rows) @ (xs @ drop (length xs) (rows ! i)) @ concat (drop (Suc i) rows)"
    using assms(2) by (simp add: upd_conv_take_nth_drop)
  ultimately show ?thesis using len r assms(3) by (simp add: write_at_def)
qed

lemma grid_writes:
  assumes rows: "length rows = n" "\<forall>r \<in> set rows. length r = w"
    and k: "\<And>i rows. i < n \<Longrightarrow> length rows = n \<Longrightarrow> \<forall>r \<in> set rows. length r = w \<Longrightarrow>
      prog i (concat rows) = Inr (concat (rows[i := f i (rows ! i)]))"
    and f: "\<And>i r. i < n \<Longrightarrow> length r = w \<Longrightarrow> length (f i r) = w"
  shows "foldR prog [0..<n] (concat rows) = Inr (concat (map (\<lambda>i. f i (rows ! i)) [0..<n]))"
proof -
  have "m \<le> n \<Longrightarrow> foldR prog [0..<m] (concat rows) = Inr (concat (map (\<lambda>i. f i (rows ! i)) [0..<m] @ drop m rows))" for m
  proof (induction m)
    case (Suc m)
    let ?r = "map (\<lambda>i. f i (rows ! i)) [0..<m] @ drop m rows"
    have m: "m < n" using Suc.prems by simp
    have ok: "length ?r = n" "\<forall>r \<in> set ?r. length r = w" using rows m f by (auto dest: in_set_dropD)
    have "?r ! m = rows ! m" using rows(1) m by (simp add: nth_append)
    moreover have "?r[m := y] = map (\<lambda>i. f i (rows ! i)) [0..<m] @ y # drop (Suc m) rows" for y
      using rows(1) m Cons_nth_drop_Suc [of m rows] by (simp add: list_update_append list_update.simps [symmetric] flip: Cons_nth_drop_Suc)
    ultimately show ?case using Suc k [OF m ok] by simp
  qed simp
  from this [of n] show ?thesis using rows(1) by simp
qed

subsection \<open>The kernels on a batch\<close>

text \<open>The flat arrays of a batch with the drafts \<open>dss\<close>, one list for each request.\<close>

abbreviation start_of :: "'a list list \<Rightarrow> nat \<Rightarrow> nat" where
  "start_of dss i \<equiv> length (concat (take i dss))"

definition batch_ok :: "int list list \<Rightarrow> 'p rejection_inputs \<Rightarrow> bool" where
  "batch_ok dss ri \<longleftrightarrow> ri_draft_token_ids ri = concat dss \<and> ri_num_draft_tokens ri = map (\<lambda>ds. int (length ds)) dss
     \<and> ri_cu_num_draft_tokens ri = map (\<lambda>i. int (start_of dss (Suc i))) [0..<length dss]
     \<and> (\<forall>ds \<in> set dss. int (length ds) \<le> ri_max_spec_len ri) \<and> length (ri_target_argmax ri) = length (concat dss)
     \<and> length (ri_bonus_token_ids ri) = length dss"

text \<open>The arrays of probabilities, which only requests with a temperature need.\<close>

definition probs_ok :: "int list list \<Rightarrow> 'p rejection_inputs \<Rightarrow> bool" where
  "probs_ok dss ri \<longleftrightarrow> (\<forall>ds \<in> set dss. \<forall>t \<in> set ds. 0 \<le> t \<and> t < ri_vocab_size ri)
     \<and> int (length (ri_target_probs ri)) = int (length (concat dss)) * ri_vocab_size ri
     \<and> (case ri_draft_probs ri of None \<Rightarrow> True | Some dp \<Rightarrow> int (length dp) = int (length (concat dss)) * ri_vocab_size ri)
     \<and> length (ri_uniform_probs ri) = length (concat dss) \<and> int (length (ri_inv_q ri)) = int (length dss) * ri_vocab_size ri"

lemma concat_segment:
  assumes "i < length xss" "pos < length (xss ! i)"
  shows "start_of xss i + pos < length (concat xss)" "concat xss ! (start_of xss i + pos) = xss ! i ! pos"
proof -
  have "xss = take i xss @ xss ! i # drop (Suc i) xss" using assms(1) by (rule id_take_nth_drop)
  then have eq: "concat xss = concat (take i xss) @ xss ! i @ concat (drop (Suc i) xss)" by (metis concat.simps(2) concat_append)
  show "start_of xss i + pos < length (concat xss)" using assms(2) by (subst eq) simp
  show "concat xss ! (start_of xss i + pos) = xss ! i ! pos" using assms(2) by (subst eq) (simp add: nth_append)
qed

lemma start_of_Suc: "i < length xss \<Longrightarrow> start_of xss (Suc i) = start_of xss i + length (xss ! i)"
  by (simp add: take_Suc_conv_app_nth)

lemma request_range_segment:
  assumes cu: "cu = map (\<lambda>i. int (start_of dss (Suc i))) [0..<length dss]" and "i < length dss"
  shows "request_range cu i = Inr (int (start_of dss i), int (length (dss ! i)))"
proof -
  have at_end: "tl_load cu (int i) = Inr (int (start_of dss (Suc i)))" unfolding cu using assms(2) by simp
  have at_start: "(if i = 0 then Inr 0 else tl_load cu (int i - 1)) = Inr (int (start_of dss i))"
  proof (cases i)
    case (Suc j)
    have "tl_load cu (int j) = Inr (int (start_of dss (Suc j)))" unfolding cu using assms(2) Suc by simp
    then show ?thesis by (simp add: Suc)
  qed simp
  show ?thesis unfolding request_range_def at_start at_end bindR_simps using start_of_Suc [OF assms(2)] by simp
qed

lemma request_range_ok:
  assumes "batch_ok dss ri" "i < length dss"
  shows "request_range (ri_cu_num_draft_tokens ri) i = Inr (int (start_of dss i), int (length (dss ! i)))"
  by (rule request_range_segment) (use assms in \<open>simp_all add: batch_ok_def\<close>)

definition greedy_steps :: "'p rejection_inputs \<Rightarrow> int list list \<Rightarrow> nat \<Rightarrow> (bool \<times> int) list" where
  "greedy_steps ri dss i = map (\<lambda>pos. let t = ri_target_argmax ri ! (start_of dss i + pos) in (dss ! i ! pos = t, t)) [0..<length (dss ! i)]"

definition put_tokens :: "int list \<Rightarrow> int list \<Rightarrow> int list" where
  "put_tokens xs row = xs @ drop (length xs) row"

abbreviation row_len :: "'p rejection_inputs \<Rightarrow> nat" where
  "row_len ri \<equiv> nat (ri_max_spec_len ri + 1)"

lemma row_address:
  assumes "batch_ok dss ri" "i < length dss"
  shows "int i * (ri_max_spec_len ri + 1) + int pos = int (i * row_len ri + pos)" "length (dss ! i) < row_len ri"
proof -
  have "int (length (dss ! i)) \<le> ri_max_spec_len ri" using assms by (simp add: batch_ok_def)
  then show "int i * (ri_max_spec_len ri + 1) + int pos = int (i * row_len ri + pos)" "length (dss ! i) < row_len ri" by simp_all
qed

lemma concat_row_room:
  assumes "\<forall>r \<in> set rows. length r = w" "i < length rows" "n < w"
  shows "i * w + n < length (concat rows)"
proof -
  have "map length rows = replicate (length rows) w" using assms(1) by (intro replicate_eqI) auto
  then have "length (concat rows) = length rows * w" by (simp add: length_concat sum_list_replicate)
  moreover have "i * w + n < Suc i * w" using assms(3) by simp
  moreover have "Suc i * w \<le> length rows * w" using assms(2) by (intro mult_right_mono) auto
  ultimately show ?thesis by linarith
qed

text \<open>Both kernels, on the row of a request they do not skip.\<close>

lemma row_program:
  assumes ok: "batch_ok dss ri" and i: "i < length dss" and rows: "length rows = length dss" "\<forall>r \<in> set rows. length r = row_len ri"
    and step: "\<And>pos out. pos < length (dss ! i) \<Longrightarrow> f pos (False, out)
      = bindR (tl_store (int i * (ri_max_spec_len ri + 1) + int pos) (snd (g pos)) out) (\<lambda>out. Inr (\<not> fst (g pos), out))"
    and stop: "\<And>pos out. f pos (True, out) = Inr (True, out)"
  shows "bindR (foldR f [0..<length (dss ! i)] (False, concat rows)) (store_bonus ri i (int (length (dss ! i))))
    = Inr (concat (rows[i := put_tokens (row_tokens (map g [0..<length (dss ! i)]) (ri_bonus_token_ids ri ! i)) (rows ! i)]))"
proof -
  let ?n = "length (dss ! i)" and ?w = "row_len ri" and ?len = "length (concat rows)"
  let ?toks = "row_tokens (map g [0..<?n]) (ri_bonus_token_ids ri ! i)"
  note addr = row_address [OF ok i]
  have room: "i * ?w + ?n < ?len" by (rule concat_row_room) (use rows i addr(2) in simp_all)
  have "bindR (foldR f [0..<?n] (False, concat rows)) (store_bonus ri i (int ?n)) = Inr (write_at (i * ?w + 0) ?toks (concat rows))"
  proof (rule program_writes [where len = ?len])
    fix pos and out :: "int list" assume "pos < ?n" "length out = ?len"
    then show "f pos (False, out) = Inr (\<not> fst (g pos), out[i * ?w + pos := snd (g pos)])"
      unfolding step [OF \<open>pos < ?n\<close>] addr(1) tl_store_int using room by simp
  next
    fix out :: "int list" assume "length out = ?len"
    then show "store_bonus ri i (int ?n) (False, out) = Inr (out[i * ?w + ?n := ri_bonus_token_ids ri ! i])"
      unfolding store_bonus_def fst_conv snd_conv if_False addr(1) tl_load_int tl_store_int using ok i room by (simp add: batch_ok_def)
  qed (simp_all add: store_bonus_def stop room)
  moreover have "write_at (i * ?w) ?toks (concat rows) = concat (rows[i := ?toks @ drop (length ?toks) (rows ! i)])"
  proof (rule write_row [OF rows(2)])
    show "length ?toks \<le> ?w" using row_tokens_length(1) [of "map g [0..<?n]" "ri_bonus_token_ids ri ! i"] addr(2) by simp
  qed (use i rows(1) in simp)
  ultimately show ?thesis by (simp add: put_tokens_def)
qed

lemma greedy_kernel_row:
  assumes ok: "batch_ok dss ri" and i: "i < length dss" and rows: "length rows = length dss" "\<forall>r \<in> set rows. length r = row_len ri"
    and g: "case ptr of None \<Rightarrow> True | Some gs \<Rightarrow> length gs = length dss"
  shows "rejection_greedy_sample_kernel ri ptr i (concat rows) = Inr (concat (rows[i :=
    if (case ptr of None \<Rightarrow> True | Some gs \<Rightarrow> gs ! i)
    then put_tokens (row_tokens (greedy_steps ri dss i) (ri_bonus_token_ids ri ! i)) (rows ! i) else rows ! i]))"
proof -
  have ptr: "(case ptr of None \<Rightarrow> Inr True | Some g \<Rightarrow> tl_load g (int i)) = Inr (case ptr of None \<Rightarrow> True | Some gs \<Rightarrow> gs ! i)"
    using g i by (simp split: option.split_asm)
  let ?t = "\<lambda>pos. ri_target_argmax ri ! (start_of dss i + pos)"
  have "bindR (foldR (greedy_pos ri i (int (start_of dss i))) [0..<length (dss ! i)] (False, concat rows)) (store_bonus ri i (int (length (dss ! i))))
    = Inr (concat (rows[i := put_tokens (row_tokens (map (\<lambda>pos. (dss ! i ! pos = ?t pos, ?t pos)) [0..<length (dss ! i)]) (ri_bonus_token_ids ri ! i)) (rows ! i)]))"
  proof (rule row_program [OF ok i rows])
    fix pos and out :: "int list" assume pos: "pos < length (dss ! i)"
    note seg = concat_segment [OF i pos]
    have "tl_load (ri_draft_token_ids ri) (int (start_of dss i) + int pos) = Inr (dss ! i ! pos)"
      "tl_load (ri_target_argmax ri) (int (start_of dss i) + int pos) = Inr (?t pos)"
      using ok seg unfolding of_nat_add [symmetric] by (simp_all add: batch_ok_def del: of_nat_add)
    then show "greedy_pos ri i (int (start_of dss i)) pos (False, out)
      = bindR (tl_store (int i * (ri_max_spec_len ri + 1) + int pos) (snd (dss ! i ! pos = ?t pos, ?t pos)) out) (\<lambda>out. Inr (\<not> fst (dss ! i ! pos = ?t pos, ?t pos), out))"
      by (simp add: greedy_pos_def)
  qed (simp add: greedy_pos_def)
  then show ?thesis unfolding rejection_greedy_sample_kernel_def ptr
    by (cases ptr) (simp_all add: request_range_ok [OF ok i] greedy_steps_def Let_def)
qed

text \<open>The test of the random kernel on a draft, with the recovered tokens.\<close>

definition draft_accepted :: "'p::linordered_field rejection_inputs \<Rightarrow> int list list \<Rightarrow> nat \<Rightarrow> nat \<Rightarrow> bool" where
  "draft_accepted ri dss i pos =
     (let at_draft = \<lambda>mem. mem ! nat (int (start_of dss i + pos) * ri_vocab_size ri + dss ! i ! pos);
          q = (case ri_draft_probs ri of None \<Rightarrow> 1 | Some dp \<Rightarrow> at_draft dp)
      in q > 0 \<and> at_draft (ri_target_probs ri) / q \<ge> ri_uniform_probs ri ! (start_of dss i + pos))"

definition random_steps :: "'p::linordered_field rejection_inputs \<Rightarrow> int list \<Rightarrow> int list list \<Rightarrow> nat \<Rightarrow> (bool \<times> int) list" where
  "random_steps ri recovered dss i = map (\<lambda>pos. let a = draft_accepted ri dss i pos
     in (a, if a then dss ! i ! pos else recovered ! (start_of dss i + pos))) [0..<length (dss ! i)]"

lemma prob_address:
  assumes "0 \<le> t" "t < v" "k < n"
  shows "0 \<le> int k * v + t" "nat (int k * v + t) < nat (int n * v)"
proof -
  have "0 < v" using assms by simp
  then show "0 \<le> int k * v + t" using assms(1) by simp
  have "int k * v + t < (int k + 1) * v" using assms(2) by (simp add: algebra_simps)
  also have "\<dots> \<le> int n * v" using assms(3) \<open>0 < v\<close> by (intro mult_right_mono) auto
  finally show "nat (int k * v + t) < nat (int n * v)" using \<open>0 \<le> int k * v + t\<close> by simp
qed

lemma prob_load:
  assumes "int (length mem) = int n * v" "0 \<le> t" "t < v" "k < n"
  shows "tl_load mem (int k * v + t) = Inr (mem ! nat (int k * v + t))"
proof -
  have "length mem = nat (int n * v)" using assms(1) by simp
  then show ?thesis using prob_address [OF assms(2-4)] by (simp add: tl_load_def)
qed

lemma random_kernel_row:
  assumes ok: "batch_ok dss ri" and probs: "probs_ok dss ri" and rec: "length recovered = length (concat dss)" and i: "i < length dss"
    and rows: "length rows = length dss" "\<forall>r \<in> set rows. length r = row_len ri" and g: "length gs = length dss"
  shows "rejection_random_sample_kernel ri recovered gs i (concat rows) = Inr (concat (rows[i :=
    if gs ! i then rows ! i else put_tokens (row_tokens (random_steps ri recovered dss i) (ri_bonus_token_ids ri ! i)) (rows ! i)]))"
proof -
  let ?a = "draft_accepted ri dss i" and ?s = "start_of dss i"
  let ?t = "\<lambda>pos. if ?a pos then dss ! i ! pos else recovered ! (?s + pos)"
  have "bindR (foldR (random_pos ri recovered i (int ?s)) [0..<length (dss ! i)] (False, concat rows)) (store_bonus ri i (int (length (dss ! i))))
    = Inr (concat (rows[i := put_tokens (row_tokens (map (\<lambda>pos. (?a pos, ?t pos)) [0..<length (dss ! i)]) (ri_bonus_token_ids ri ! i)) (rows ! i)]))"
  proof (rule row_program [OF ok i rows])
    fix pos and out :: "int list" assume pos: "pos < length (dss ! i)"
    note seg = concat_segment [OF i pos]
    let ?k = "?s + pos" and ?d = "dss ! i ! pos"
    have k: "int ?s + int pos = int ?k" by simp
    have d: "0 \<le> ?d" "?d < ri_vocab_size ri" using probs i pos unfolding probs_ok_def by (meson nth_mem)+
    have l1: "tl_load (ri_draft_token_ids ri) (int ?k) = Inr ?d" using ok seg by (simp add: batch_ok_def del: of_nat_add)
    have l2: "(case ri_draft_probs ri of None \<Rightarrow> Inr 1 | Some dp \<Rightarrow> tl_load dp (int ?k * ri_vocab_size ri + ?d))
      = Inr (case ri_draft_probs ri of None \<Rightarrow> 1 | Some dp \<Rightarrow> dp ! nat (int ?k * ri_vocab_size ri + ?d))"
    proof (cases "ri_draft_probs ri")
      case (Some dp)
      then have "int (length dp) = int (length (concat dss)) * ri_vocab_size ri" using probs by (simp add: probs_ok_def)
      from prob_load [OF this d seg(1)] Some show ?thesis by simp
    qed simp
    have l3: "tl_load (ri_target_probs ri) (int ?k * ri_vocab_size ri + ?d) = Inr (ri_target_probs ri ! nat (int ?k * ri_vocab_size ri + ?d))"
      by (rule prob_load [OF _ d seg(1)]) (use probs in \<open>simp add: probs_ok_def\<close>)
    have l4: "tl_load (ri_uniform_probs ri) (int ?k) = Inr (ri_uniform_probs ri ! ?k)" "tl_load recovered (int ?k) = Inr (recovered ! ?k)"
      using probs seg(1) rec by (simp_all add: probs_ok_def del: of_nat_add)
    show "random_pos ri recovered i (int ?s) pos (False, out)
      = bindR (tl_store (int i * (ri_max_spec_len ri + 1) + int pos) (snd (?a pos, ?t pos)) out) (\<lambda>out. Inr (\<not> fst (?a pos, ?t pos), out))"
      unfolding random_pos_def k l1 l2 l3 l4 bindR_simps fst_conv snd_conv if_False draft_accepted_def [of ri dss i pos] Let_def
      by (simp del: of_nat_add)
  qed (simp add: random_pos_def)
  then show ?thesis using g i by (simp add: rejection_random_sample_kernel_def request_range_ok [OF ok i] random_steps_def Let_def)
qed

lemma put_tokens_length: "length xs \<le> w \<Longrightarrow> length row = w \<Longrightarrow> length (put_tokens xs row) = w"
  by (simp add: put_tokens_def)

subsection \<open>The recovered tokens\<close>

text \<open>The score of a token of the vocabulary, without tiles and masks.\<close>

definition token_score :: "'p::linordered_field rejection_inputs \<Rightarrow> int list list \<Rightarrow> nat \<Rightarrow> nat \<Rightarrow> nat \<Rightarrow> 'p" where
  "token_score ri dss i pos v =
     (let a = nat (int (start_of dss i + pos) * ri_vocab_size ri + int v)
      in (case ri_draft_probs ri of None \<Rightarrow> if int v = dss ! i ! pos then 0 else ri_target_probs ri ! a
          | Some dp \<Rightarrow> max (ri_target_probs ri ! a - dp ! a) 0) * ri_inv_q ri ! nat (int i * ri_vocab_size ri + int v))"

definition padded_score :: "'p::linordered_field rejection_inputs \<Rightarrow> int list list \<Rightarrow> nat \<Rightarrow> nat \<Rightarrow> nat \<Rightarrow> 'p" where
  "padded_score ri dss i pos v = (if int v < ri_vocab_size ri then token_score ri dss i pos v else 0)"

lemma tile_score_ok:
  assumes ok: "batch_ok dss ri" and probs: "probs_ok dss ri" and i: "i < length dss" and pos: "pos < length (dss ! i)"
  shows "tile_score ri i (int (start_of dss i + pos)) (int v) = Inr (padded_score ri dss i pos v)"
proof -
  let ?k = "start_of dss i + pos"
  note seg = concat_segment [OF i pos]
  have l1: "tl_load (ri_draft_token_ids ri) (int ?k) = Inr (dss ! i ! pos)" using ok seg by (simp add: batch_ok_def del: of_nat_add)
  show ?thesis
  proof (cases "int v < ri_vocab_size ri")
    case True
    have tp: "tl_load (ri_target_probs ri) (int ?k * ri_vocab_size ri + int v) = Inr (ri_target_probs ri ! nat (int ?k * ri_vocab_size ri + int v))"
      by (rule prob_load [OF _ _ True seg(1)]) (use probs in \<open>simp_all add: probs_ok_def\<close>)
    have iq: "tl_load (ri_inv_q ri) (int i * ri_vocab_size ri + int v) = Inr (ri_inv_q ri ! nat (int i * ri_vocab_size ri + int v))"
      by (rule prob_load [OF _ _ True i]) (use probs in \<open>simp_all add: probs_ok_def\<close>)
    show ?thesis
    proof (cases "ri_draft_probs ri")
      case None
      show ?thesis unfolding tile_score_def Let_def None option.case l1 bindR_simps masked_load_def using True tp iq None
        by (simp add: padded_score_def token_score_def Let_def del: of_nat_add)
    next
      case (Some dp)
      then have "int (length dp) = int (length (concat dss)) * ri_vocab_size ri" using probs by (simp add: probs_ok_def)
      then have "tl_load dp (int ?k * ri_vocab_size ri + int v) = Inr (dp ! nat (int ?k * ri_vocab_size ri + int v))"
        by (rule prob_load [OF _ _ True seg(1)]) simp
      then show ?thesis using Some True
        by (simp add: tile_score_def padded_score_def token_score_def masked_load_def tp iq Let_def del: of_nat_add)
    qed
  next
    case False
    then show ?thesis unfolding tile_score_def Let_def l1 bindR_simps masked_load_def
      by (simp add: padded_score_def split: option.split)
  qed
qed

lemma mapR_pure: "(\<And>x. x \<in> set xs \<Longrightarrow> f x = Inr (g x)) \<Longrightarrow> mapR f xs = Inr (map g xs)"
  by (induction xs) auto

lemma mapR_map: "mapR f (map g xs) = mapR (\<lambda>x. f (g x)) xs"
  by (induction xs) auto

lemma tl_max_spec:
  assumes "tl_max xs = Some (m, j)"
  shows "j < length xs \<and> xs ! j = m \<and> (\<forall>k < length xs. xs ! k \<le> m) \<and> (\<forall>k < j. xs ! k < m)"
  using assms
proof (induction xs arbitrary: m j)
  case (Cons x xs)
  show ?case
  proof (cases "tl_max xs")
    case None
    then have "xs = []" by (cases xs) (auto split: option.split_asm if_split_asm)
    then show ?thesis using Cons.prems None by simp
  next
    case (Some y)
    obtain m1 j1 where y: "y = (m1, j1)" by (cases y)
    note ih = Cons.IH [OF Some [unfolded y]]
    show ?thesis
    proof (cases "m1 > x")
      case True
      then have eq: "m = m1" "j = Suc j1" using Cons.prems Some y by simp_all
      show ?thesis unfolding eq using ih True by (auto simp: nth_Cons split: nat.split)
    next
      case False
      then have eq: "m = x" "j = 0" using Cons.prems Some y by simp_all
      show ?thesis unfolding eq using ih False by (auto simp: nth_Cons split: nat.split)
    qed
  qed
qed simp

lemma tl_max_some: "xs \<noteq> [] \<Longrightarrow> \<exists>m j. tl_max xs = Some (m, j)"
  by (cases xs) (auto split: option.split)

text \<open>The first of the greatest of the scores up to \<open>n\<close>.\<close>

definition first_best :: "(nat \<Rightarrow> 'p::linorder) \<Rightarrow> nat \<Rightarrow> nat \<Rightarrow> bool" where
  "first_best f n j \<longleftrightarrow> j < n \<and> (\<forall>v < n. f v \<le> f j) \<and> (\<forall>v < j. f v < f j)"

lemma recovered_tile_ok:
  assumes ok: "batch_ok dss ri" and probs: "probs_ok dss ri" and i: "i < length dss" and pos: "pos < length (dss ! i)"
    and b: "0 < b" and st: "if n = 0 then st = (None, 0)
      else \<exists>j. st = (Some (padded_score ri dss i pos j), int j) \<and> first_best (padded_score ri dss i pos) n j"
  shows "\<exists>j. recovered_tile ri (int b) i (int (start_of dss i + pos)) (int n) st
      = Inr (Some (padded_score ri dss i pos j), int j) \<and> first_best (padded_score ri dss i pos) (n + b) j"
proof -
  let ?f = "padded_score ri dss i pos"
  let ?xs = "map (\<lambda>o'. ?f (n + o')) [0..<b]"
  have m: "mapR (\<lambda>j. tile_score ri i (int (start_of dss i + pos)) (int n + int j)) [0..<nat (int b)] = Inr ?xs"
    unfolding nat_int of_nat_add [symmetric] by (rule mapR_pure) (rule tile_score_ok [OF ok probs i pos])
  obtain lm lj where t: "tl_max ?xs = Some (lm, lj)" using tl_max_some [of ?xs] b by auto
  have l: "lj < b" "lm = ?f (n + lj)" "\<And>k. k < b \<Longrightarrow> ?f (n + k) \<le> lm" "\<And>k. k < lj \<Longrightarrow> ?f (n + k) < lm"
    using tl_max_spec [OF t] b by auto
  have above: "?f v \<le> lm" if "n \<le> v" "v < n + b" for v using l(3) [of "v - n"] that by simp
  have before: "?f v < lm" if "n \<le> v" "v < n + lj" for v using l(4) [of "v - n"] that by simp
  have run: "recovered_tile ri (int b) i (int (start_of dss i + pos)) (int n) st
    = Inr (if (case fst st of None \<Rightarrow> True | Some m \<Rightarrow> lm > m) then (Some lm, int n + int lj) else st)"
    unfolding recovered_tile_def m bindR_simps t by simp
  show ?thesis
  proof (cases "n = 0")
    case True
    then have "first_best ?f (n + b) (n + lj)" using l(1,2) above before by (simp add: first_best_def)
    then show ?thesis using run st True l(2) by (intro exI [of _ "n + lj"]) simp
  next
    case False
    then obtain j where j: "st = (Some (?f j), int j)" "first_best ?f n j" using st by auto
    show ?thesis
    proof (cases "lm > ?f j")
      case True
      have "?f v < lm" if "v < n" for v using j(2) that True by (auto simp: first_best_def intro: le_less_trans)
      then have "first_best ?f (n + b) (n + lj)" using l(1,2) above before
        unfolding first_best_def by (metis le_less_linear less_imp_le nat_add_left_cancel_less)
      then show ?thesis using run j(1) True l(2) by (intro exI [of _ "n + lj"]) simp
    next
      case False
      have "?f v \<le> ?f j" if "v < n + b" for v using j(2) above [of v] False that by (cases "v < n") (auto simp: first_best_def)
      then have "first_best ?f (n + b) j" using j(2) by (auto simp: first_best_def)
      then show ?thesis using run j(1) False by (intro exI [of _ j]) simp
    qed
  qed
qed

lemma recovered_tiles_ok:
  assumes ok: "batch_ok dss ri" and probs: "probs_ok dss ri" and i: "i < length dss" and pos: "pos < length (dss ! i)"
    and b: "0 < b" and n: "0 < n"
  shows "\<exists>j. foldR (recovered_tile ri (int b) i (int (start_of dss i + pos))) (map (\<lambda>t. int t * int b) [0..<n]) (None, 0)
      = Inr (Some (padded_score ri dss i pos j), int j) \<and> first_best (padded_score ri dss i pos) (n * b) j"
  using n
proof (induction n)
  case (Suc n)
  have run: "foldR f (map g [0..<Suc n]) st = bindR (foldR f (map g [0..<n]) st) (f (g n))" for f and g :: "nat \<Rightarrow> int" and st :: "'a option \<times> int"
    by (simp add: bindR_def split: sum.split)
  note tile = recovered_tile_ok [OF ok probs i pos b]
  show ?case
  proof (cases "n = 0")
    case True
    then show ?thesis using tile [of 0 "(None, 0)"] by (auto simp del: of_nat_add)
  next
    case False
    then obtain j where "foldR (recovered_tile ri (int b) i (int (start_of dss i + pos))) (map (\<lambda>t. int t * int b) [0..<n]) (None, 0)
      = Inr (Some (padded_score ri dss i pos j), int j)" "first_best (padded_score ri dss i pos) (n * b) j" using Suc.IH by auto
    then show ?thesis using tile [of "n * b" "(Some (padded_score ri dss i pos j), int j)"] False b unfolding run by (simp add: add.commute)
  qed
qed simp

text \<open>With probabilities that are not negative, the zeros after the end of the vocabulary are never chosen.\<close>

definition scores_ok :: "'p::linordered_field rejection_inputs \<Rightarrow> bool" where
  "scores_ok ri \<longleftrightarrow> 0 < ri_vocab_size ri \<and> (\<forall>p \<in> set (ri_target_probs ri). 0 \<le> p) \<and> (\<forall>p \<in> set (ri_inv_q ri). 0 \<le> p)"

lemma token_score_nonneg:
  assumes probs: "probs_ok dss ri" and sc: "scores_ok ri" and i: "i < length dss" and pos: "pos < length (dss ! i)" and v: "int v < ri_vocab_size ri"
  shows "0 \<le> token_score ri dss i pos v"
proof -
  let ?k = "start_of dss i + pos"
  have k: "?k < length (concat dss)" by (rule concat_segment(1) [OF i pos])
  have "length (ri_target_probs ri) = nat (int (length (concat dss)) * ri_vocab_size ri)" "length (ri_inv_q ri) = nat (int (length dss) * ri_vocab_size ri)"
    using probs unfolding probs_ok_def by linarith+
  then have "nat (int ?k * ri_vocab_size ri + int v) < length (ri_target_probs ri)" "nat (int i * ri_vocab_size ri + int v) < length (ri_inv_q ri)"
    using prob_address(2) [OF _ v k] prob_address(2) [OF _ v i] by simp_all
  then have "0 \<le> ri_target_probs ri ! nat (int ?k * ri_vocab_size ri + int v)" "0 \<le> ri_inv_q ri ! nat (int i * ri_vocab_size ri + int v)"
    using sc unfolding scores_ok_def by (meson nth_mem)+
  then show ?thesis unfolding token_score_def Let_def by (auto intro!: mult_nonneg_nonneg split: option.split)
qed

lemma recovered_in_vocabulary:
  assumes probs: "probs_ok dss ri" and sc: "scores_ok ri" and i: "i < length dss" and pos: "pos < length (dss ! i)"
    and j: "first_best (padded_score ri dss i pos) n j" and n: "ri_vocab_size ri \<le> int n"
  shows "first_best (token_score ri dss i pos) (nat (ri_vocab_size ri)) j"
proof -
  let ?f = "padded_score ri dss i pos"
  have v: "0 < ri_vocab_size ri" using sc by (simp add: scores_ok_def)
  have in_range: "?f k = token_score ri dss i pos k" if "k < nat (ri_vocab_size ri)" for k using that by (simp add: padded_score_def zless_nat_eq_int_zless)
  have "0 \<le> ?f 0" using token_score_nonneg [OF probs sc i pos, of 0] v by (simp add: padded_score_def)
  have lt: "j < nat (ri_vocab_size ri)"
  proof (rule ccontr)
    assume "\<not> j < nat (ri_vocab_size ri)"
    then have "\<not> int j < ri_vocab_size ri" "0 < j" using v by simp_all
    then have "?f 0 < 0" using j by (metis first_best_def padded_score_def)
    with \<open>0 \<le> ?f 0\<close> show False by simp
  qed
  have "nat (ri_vocab_size ri) \<le> n" using n by simp
  then show ?thesis using j lt by (auto simp: first_best_def simp flip: in_range)
qed

lemma recovered_kernel_ok:
  assumes ok: "batch_ok dss ri" and probs: "probs_ok dss ri" and sc: "scores_ok ri" and i: "i < length dss" and b: "0 < b"
  shows "\<exists>j. \<forall>out. length out = length (concat dss) \<longrightarrow> sample_recovered_tokens_kernel ri (int b) (i, pos) out
      = Inr (if pos < length (dss ! i) then out[start_of dss i + pos := int j] else out)
    \<and> (pos < length (dss ! i) \<longrightarrow> first_best (token_score ri dss i pos) (nat (ri_vocab_size ri)) j)"
proof (cases "pos < length (dss ! i)")
  case True
  let ?n = "nat (cdiv (ri_vocab_size ri) (int b))"
  have v: "0 < ri_vocab_size ri" using sc by (simp add: scores_ok_def)
  have c2: "ri_vocab_size ri \<le> cdiv (ri_vocab_size ri) (int b) * int b" by (rule cdiv_bounds(1)) (use b in simp)
  then have c1: "0 < cdiv (ri_vocab_size ri) (int b)" using v b by (metis less_le_trans of_nat_0_less_iff zero_less_mult_pos2)
  note c = c1 c2
  obtain j where j: "foldR (recovered_tile ri (int b) i (int (start_of dss i + pos))) (map (\<lambda>t. int t * int b) [0..<?n]) (None, 0)
      = Inr (Some (padded_score ri dss i pos j), int j)" "first_best (padded_score ri dss i pos) (?n * b) j"
    using recovered_tiles_ok [OF ok probs i True b, of ?n] c(1) by auto
  have "first_best (token_score ri dss i pos) (nat (ri_vocab_size ri)) j"
    by (rule recovered_in_vocabulary [OF probs sc i True j(2)]) (use c in simp)
  moreover have "sample_recovered_tokens_kernel ri (int b) (i, pos) out = Inr (out[start_of dss i + pos := int j])"
    if "length out = length (concat dss)" for out
    unfolding sample_recovered_tokens_kernel_def Let_def fst_conv snd_conv request_range_ok [OF ok i] bindR_simps prod.case of_nat_add [symmetric] j(1)
    using True concat_segment(1) [OF i True] that by (simp del: of_nat_add)
  ultimately show ?thesis using True by auto
next
  case False
  then show ?thesis by (simp add: sample_recovered_tokens_kernel_def request_range_ok [OF ok i])
qed

text \<open>Programs that each write one cell, at different addresses.\<close>

lemma cell_writes:
  assumes step: "\<And>p out. p \<in> set ps \<Longrightarrow> length out = n \<Longrightarrow> prog p out = Inr (if P p then out[a p := f p] else out)"
    and inj: "\<And>p q. p \<in> set ps \<Longrightarrow> q \<in> set ps \<Longrightarrow> P p \<Longrightarrow> P q \<Longrightarrow> a p = a q \<Longrightarrow> p = q"
    and bound: "\<And>p. p \<in> set ps \<Longrightarrow> P p \<Longrightarrow> a p < n" and out: "length out = n"
  shows "\<exists>res. foldR prog ps out = Inr res \<and> length res = n \<and> (\<forall>p \<in> set ps. P p \<longrightarrow> res ! a p = f p)
    \<and> (\<forall>k < n. (\<forall>p \<in> set ps. P p \<longrightarrow> a p \<noteq> k) \<longrightarrow> res ! k = out ! k)"
  using step inj bound out
proof (induction ps arbitrary: out)
  case (Cons p ps)
  let ?out = "if P p then out[a p := f p] else out"
  have p: "prog p out = Inr ?out" "length ?out = n" using Cons.prems(1) [of p out] Cons.prems(4) by simp_all
  have "\<exists>res. foldR prog ps ?out = Inr res \<and> length res = n \<and> (\<forall>p \<in> set ps. P p \<longrightarrow> res ! a p = f p)
    \<and> (\<forall>k < n. (\<forall>p \<in> set ps. P p \<longrightarrow> a p \<noteq> k) \<longrightarrow> res ! k = ?out ! k)"
    by (rule Cons.IH) (use Cons.prems p(2) in simp_all)
  then obtain res where res: "foldR prog ps ?out = Inr res" "length res = n" "\<forall>p \<in> set ps. P p \<longrightarrow> res ! a p = f p"
    "\<forall>k < n. (\<forall>p \<in> set ps. P p \<longrightarrow> a p \<noteq> k) \<longrightarrow> res ! k = ?out ! k" by blast
  have own: "res ! a p = f p" if "P p"
  proof (cases "p \<in> set ps")
    case False
    have "\<forall>q \<in> set ps. P q \<longrightarrow> a q \<noteq> a p" using Cons.prems(2) [of p] that False by (metis list.set_intros)
    then show ?thesis using res(4) that Cons.prems(3) [of p] Cons.prems(4) by simp
  qed (use res(3) that in simp)
  have "foldR prog (p # ps) out = Inr res" using p(1) res(1) by simp
  moreover have "\<forall>q \<in> set (p # ps). P q \<longrightarrow> res ! a q = f q" using own res(3) by simp
  moreover have "\<forall>k < n. (\<forall>q \<in> set (p # ps). P q \<longrightarrow> a q \<noteq> k) \<longrightarrow> res ! k = out ! k" using res(4) by simp
  ultimately show ?case using res(2) by blast
qed simp

lemma start_of_mono: "i \<le> j \<Longrightarrow> start_of xss i \<le> start_of xss j"
  by (metis append_Nil2 concat_append le_add1 le_add_diff_inverse length_append take_add)

lemma segment_unique:
  assumes "i < length xss" "j < length xss" "p < length (xss ! i)" "q < length (xss ! j)" "start_of xss i + p = start_of xss j + q"
  shows "i = j \<and> p = q"
proof -
  have "\<not> i < j" using start_of_mono [of "Suc i" j xss] start_of_Suc [OF assms(1)] assms(3,5) by (auto simp: Suc_le_eq)
  moreover have "\<not> j < i" using start_of_mono [of "Suc j" i xss] start_of_Suc [OF assms(2)] assms(4,5) by (auto simp: Suc_le_eq)
  ultimately have "i = j" by simp
  then show ?thesis using assms(5) by simp
qed

definition recovered_ok :: "'p::linordered_field rejection_inputs \<Rightarrow> int list list \<Rightarrow> int list \<Rightarrow> bool" where
  "recovered_ok ri dss rec \<longleftrightarrow> length rec = length (concat dss)
     \<and> (\<forall>i < length dss. \<forall>pos < length (dss ! i). \<exists>j. rec ! (start_of dss i + pos) = int j
          \<and> first_best (token_score ri dss i pos) (nat (ri_vocab_size ri)) j)"

lemma sample_recovered_tokens_ok:
  assumes ok: "batch_ok dss ri" and probs: "probs_ok dss ri" and sc: "scores_ok ri" and b: "0 < b"
  shows "\<exists>rec. sample_recovered_tokens ri (int b) = Inr rec \<and> recovered_ok ri dss rec"
proof -
  let ?N = "length (concat dss)" and ?ps = "List.product [0..<length dss] [0..<nat (ri_max_spec_len ri)]"
  let ?P = "\<lambda>p. snd p < length (dss ! fst p)" and ?a = "\<lambda>p. start_of dss (fst p) + snd p"
  let ?best = "\<lambda>i pos j. first_best (token_score ri dss i pos) (nat (ri_vocab_size ri)) j"
  have "\<forall>p. \<exists>j. fst p < length dss \<longrightarrow> (\<forall>out. length out = ?N \<longrightarrow> sample_recovered_tokens_kernel ri (int b) p out
      = Inr (if ?P p then out[?a p := int j] else out) \<and> (?P p \<longrightarrow> ?best (fst p) (snd p) j))"
    using recovered_kernel_ok [OF ok probs sc _ b] by (metis prod.collapse)
  then obtain f where f: "\<And>p out. fst p < length dss \<Longrightarrow> length out = ?N \<Longrightarrow> sample_recovered_tokens_kernel ri (int b) p out
      = Inr (if ?P p then out[?a p := int (f p)] else out) \<and> (?P p \<longrightarrow> ?best (fst p) (snd p) (f p))" by metis
  have ps: "p \<in> set ?ps \<longleftrightarrow> fst p < length dss \<and> snd p < nat (ri_max_spec_len ri)" for p by (cases p) auto
  have spec: "snd p < nat (ri_max_spec_len ri)" if "fst p < length dss" "?P p" for p
  proof -
    have "int (length (dss ! fst p)) \<le> ri_max_spec_len ri" using ok that(1) by (simp add: batch_ok_def)
    then show ?thesis using that(2) by linarith
  qed
  have "\<exists>res. foldR (sample_recovered_tokens_kernel ri (int b)) ?ps (replicate ?N 0) = Inr res \<and> length res = ?N
    \<and> (\<forall>p \<in> set ?ps. ?P p \<longrightarrow> res ! ?a p = int (f p)) \<and> (\<forall>k < ?N. (\<forall>p \<in> set ?ps. ?P p \<longrightarrow> ?a p \<noteq> k) \<longrightarrow> res ! k = replicate ?N 0 ! k)"
  proof (rule cell_writes)
    fix p q assume "p \<in> set ?ps" "q \<in> set ?ps" "?P p" "?P q" "?a p = ?a q"
    then show "p = q" using segment_unique unfolding ps by (metis prod.collapse)
  next
    fix p assume "p \<in> set ?ps" "?P p"
    then show "?a p < ?N" unfolding ps by (simp add: concat_segment(1))
  qed (use f ps in auto)
  then obtain res where res: "foldR (sample_recovered_tokens_kernel ri (int b)) ?ps (replicate ?N 0) = Inr res" "length res = ?N"
    "\<forall>p \<in> set ?ps. ?P p \<longrightarrow> res ! ?a p = int (f p)" by blast
  have "\<exists>j. res ! (start_of dss i + pos) = int j \<and> ?best i pos j" if "i < length dss" "pos < length (dss ! i)" for i pos
    using res(3) f [of "(i, pos)" "replicate ?N 0"] spec [of "(i, pos)"] that unfolding ps by (intro exI [of _ "f (i, pos)"]) simp
  then have "recovered_ok ri dss res" using res(2) by (simp add: recovered_ok_def)
  moreover have "sample_recovered_tokens ri (int b) = Inr res" using res(1) ok by (simp add: sample_recovered_tokens_def batch_ok_def)
  ultimately show ?thesis by blast
qed

subsection \<open>Values for each token\<close>

lemma foldR_product: "foldR f (List.product xs ys) s = foldR (\<lambda>x s. foldR (\<lambda>y. f (x, y)) ys s) xs s"
proof (induction xs arbitrary: s)
  case (Cons x xs)
  have "foldR f (map (Pair x) ys) s = foldR (\<lambda>y. f (x, y)) ys s" for s by (induction ys arbitrary: s) (auto simp: bindR_def split: sum.split)
  then show ?case using Cons.IH by (auto simp: bindR_def split: sum.split)
qed simp

lemma foldR_cong_set: "(\<And>x s. x \<in> set xs \<Longrightarrow> f x s = g x s) \<Longrightarrow> foldR f xs s = foldR g xs s"
  by (induction xs arbitrary: s) (auto simp: bindR_def split: sum.split)

text \<open>Every token gets the value of its request, for at most \<open>MAX_SPEC_LEN\<close> drafts.\<close>

lemma expand_batch_ok:
  assumes cu: "cu = map (\<lambda>i. int (start_of dss (Suc i))) [0..<length dss]" and x: "length x = length dss"
    and small: "\<forall>ds \<in> set dss. int (length ds) \<le> MAX_SPEC_LEN"
  shows "\<exists>res. expand_batch_to_tokens x cu (length (concat dss)) a b = Inr res \<and> length res = length (concat dss)
    \<and> (\<forall>i < length dss. \<forall>pos < length (dss ! i). res ! (start_of dss i + pos) = (if x ! i = a then b else x ! i))"
proof -
  let ?N = "length (concat dss)" and ?M = "nat MAX_SPEC_LEN" and ?v = "\<lambda>i. if x ! i = a then b else x ! i"
  let ?ps = "List.product [0..<length dss] [0..<?M]"
  let ?P = "\<lambda>p. snd p < length (dss ! fst p)" and ?a = "\<lambda>p. start_of dss (fst p) + snd p"
  let ?step = "\<lambda>p out. if ?P p then tl_store (int (?a p)) (?v (fst p)) out else Inr out"
  have step: "expand_kernel cu x a b i s = foldR (\<lambda>y. ?step (i, y)) [0..<?M] s" if "i \<in> set [0..<length dss]" for i s
  proof -
    have i: "i < length dss" "i < length x" using that x by simp_all
    show ?thesis unfolding expand_kernel_def request_range_segment [OF cu i(1)] tl_load_int fst_conv snd_conv of_nat_add if_P [OF i(2)]
        bindR_simps prod.case of_nat_less_iff ..
  qed
  have run: "foldR (expand_kernel cu x a b) [0..<length x] out = foldR ?step ?ps out" for out
    unfolding foldR_product x by (rule foldR_cong_set) (rule step)
  have ps: "p \<in> set ?ps \<longleftrightarrow> fst p < length dss \<and> snd p < ?M" for p by (cases p) auto
  have "\<exists>res. foldR ?step ?ps (replicate ?N 0) = Inr res \<and> length res = ?N \<and> (\<forall>p \<in> set ?ps. ?P p \<longrightarrow> res ! ?a p = ?v (fst p))
    \<and> (\<forall>k < ?N. (\<forall>p \<in> set ?ps. ?P p \<longrightarrow> ?a p \<noteq> k) \<longrightarrow> res ! k = replicate ?N 0 ! k)"
  proof (rule cell_writes)
    fix p and out :: "'b list" assume "p \<in> set ?ps" "length out = ?N"
    then show "?step p out = Inr (if ?P p then out[?a p := ?v (fst p)] else out)"
      unfolding ps using concat_segment(1) [of "fst p" dss "snd p"] by (simp del: of_nat_add)
  next
    fix p q assume "p \<in> set ?ps" "q \<in> set ?ps" "?P p" "?P q" "?a p = ?a q"
    then show "p = q" using segment_unique unfolding ps by (metis prod.collapse)
  next
    fix p assume "p \<in> set ?ps" "?P p"
    then show "?a p < ?N" unfolding ps by (simp add: concat_segment(1))
  qed simp
  then obtain res where res: "foldR ?step ?ps (replicate ?N 0) = Inr res" "length res = ?N"
    "\<forall>p \<in> set ?ps. ?P p \<longrightarrow> res ! ?a p = ?v (fst p)" by blast
  have "res ! (start_of dss i + pos) = ?v i" if "i < length dss" "pos < length (dss ! i)" for i pos
  proof -
    have "int (length (dss ! i)) \<le> MAX_SPEC_LEN" using small that(1) by simp
    then have "(i, pos) \<in> set ?ps" unfolding ps using that by simp
    then show ?thesis using res(3) that(2) by fastforce
  qed
  then show ?thesis using res(1,2) run x cu by (simp add: expand_batch_to_tokens_def assertR_def)
qed

text \<open>One row for each draft: the output so far and the drafts before it.\<close>

lemma combine_outputs_rows:
  "combine_outputs_with_spec_tokens outs (Some specs) =
   concat (map (\<lambda>(out, spec). map (\<lambda>pos. out @ take pos spec) [0..<length spec]) (zip outs specs))"
proof -
  have loop: "n < length spec \<Longrightarrow> fold (\<lambda>i acc. acc @ [last acc @ [spec ! i]]) [0..<n] (acc @ [out])
      = acc @ map (\<lambda>pos. out @ take pos spec) [0..<Suc n]" for spec out :: "int list" and acc n
    by (induction n) (simp_all add: take_Suc_conv_app_nth)
  have one: "combine_one (out, spec) acc = acc @ map (\<lambda>pos. out @ take pos spec) [0..<length spec]" for out spec acc
    using loop [of "length spec - 1" spec acc out] by (cases spec) (simp_all add: combine_one_def del: upt_Suc)
  have "fold combine_one ps acc = acc @ concat (map (\<lambda>(out, spec). map (\<lambda>pos. out @ take pos spec) [0..<length spec]) ps)" for ps acc
    by (induction ps arbitrary: acc) (auto simp: one)
  then show ?thesis by (simp add: combine_outputs_with_spec_tokens_def)
qed

subsection \<open>The whole batch\<close>

text \<open>The flags of a batch that is not empty agree with its temperatures.\<close>

abbreviation is_greedy_request :: "'p::linordered_field rejection_inputs \<Rightarrow> nat \<Rightarrow> bool" where
  "is_greedy_request ri i \<equiv> ri_all_greedy ri \<or> ri_temperature ri ! i = GREEDY_TEMPERATURE"

definition flags_ok :: "int list list \<Rightarrow> 'p::linordered_field rejection_inputs \<Rightarrow> bool" where
  "flags_ok dss ri \<longleftrightarrow> (ri_all_greedy ri \<longrightarrow> \<not> ri_all_random ri)
     \<and> (\<not> ri_all_greedy ri \<longrightarrow> length (ri_temperature ri) = length dss \<and> probs_ok dss ri \<and> scores_ok ri)
     \<and> (ri_all_random ri \<longrightarrow> GREEDY_TEMPERATURE \<notin> set (ri_temperature ri))"

definition request_steps :: "'p::linordered_field rejection_inputs \<Rightarrow> int list \<Rightarrow> int list list \<Rightarrow> nat \<Rightarrow> (bool \<times> int) list" where
  "request_steps ri rec dss i = (if is_greedy_request ri i then greedy_steps ri dss i else random_steps ri rec dss i)"

abbreviation request_tokens :: "'p::linordered_field rejection_inputs \<Rightarrow> int list \<Rightarrow> int list list \<Rightarrow> nat \<Rightarrow> int list" where
  "request_tokens ri rec dss i \<equiv> row_tokens (request_steps ri rec dss i) (ri_bonus_token_ids ri ! i)"

lemma steps_length [simp]:
  "length (greedy_steps ri dss i) = length (dss ! i)" "length (random_steps ri rec dss i) = length (dss ! i)"
  "length (request_steps ri rec dss i) = length (dss ! i)"
  by (simp_all add: greedy_steps_def random_steps_def request_steps_def)

lemma tokens_fit:
  assumes "batch_ok dss ri" "i < length dss" "length xs = length (dss ! i)" "length row = row_len ri"
  shows "length (put_tokens (row_tokens xs b) row) = row_len ri"
  using row_tokens_length(1) [of xs b] row_address(2) [OF assms(1,2)] assms(3,4) by (intro put_tokens_length) simp_all

lemma concat_replicate_rows: "replicate (n * w) x = concat (replicate n (replicate w x))"
  by (induction n) (simp_all add: replicate_add)

text \<open>The two launches over the rows of the output.\<close>

abbreviation greedy_flags :: "'p::linordered_field rejection_inputs \<Rightarrow> bool list" where
  "greedy_flags ri \<equiv> map (\<lambda>t. t = GREEDY_TEMPERATURE) (ri_temperature ri)"

abbreviation put_row :: "'p rejection_inputs \<Rightarrow> (bool \<times> int) list \<Rightarrow> nat \<Rightarrow> int list \<Rightarrow> int list" where
  "put_row ri xs i r \<equiv> put_tokens (row_tokens xs (ri_bonus_token_ids ri ! i)) r"

lemma greedy_launch:
  assumes ok: "batch_ok dss ri" and fl: "flags_ok dss ri" and rows: "length rows = length dss" "\<forall>r \<in> set rows. length r = row_len ri"
  shows "foldR (rejection_greedy_sample_kernel ri (if ri_all_greedy ri then None else Some (greedy_flags ri))) [0..<length dss] (concat rows)
    = Inr (concat (map (\<lambda>i. if is_greedy_request ri i then put_row ri (greedy_steps ri dss i) i (rows ! i) else rows ! i) [0..<length dss]))"
proof (rule grid_writes [OF rows])
  let ?ptr = "if ri_all_greedy ri then None else Some (greedy_flags ri)"
  fix i and rows :: "int list list" assume i: "i < length dss" and rows: "length rows = length dss" "\<forall>r \<in> set rows. length r = row_len ri"
  show "rejection_greedy_sample_kernel ri ?ptr i (concat rows)
    = Inr (concat (rows[i := if is_greedy_request ri i then put_row ri (greedy_steps ri dss i) i (rows ! i) else rows ! i]))"
    using greedy_kernel_row [OF ok i rows, of ?ptr] fl i by (simp add: flags_ok_def)
next
  fix i and r :: "int list" assume "i < length dss" "length r = row_len ri"
  then show "length (if is_greedy_request ri i then put_row ri (greedy_steps ri dss i) i r else r) = row_len ri" using tokens_fit [OF ok] by simp
qed

lemma random_launch:
  assumes ok: "batch_ok dss ri" and probs: "probs_ok dss ri" and rec: "recovered_ok ri dss rec" and temp: "length (ri_temperature ri) = length dss"
    and rows: "length rows = length dss" "\<forall>r \<in> set rows. length r = row_len ri"
  shows "foldR (rejection_random_sample_kernel ri rec (greedy_flags ri)) [0..<length dss] (concat rows)
    = Inr (concat (map (\<lambda>i. if greedy_flags ri ! i then rows ! i else put_row ri (random_steps ri rec dss i) i (rows ! i)) [0..<length dss]))"
proof (rule grid_writes [OF rows])
  fix i and rows :: "int list list" assume i: "i < length dss" and rows: "length rows = length dss" "\<forall>r \<in> set rows. length r = row_len ri"
  show "rejection_random_sample_kernel ri rec (greedy_flags ri) i (concat rows)
    = Inr (concat (rows[i := if greedy_flags ri ! i then rows ! i else put_row ri (random_steps ri rec dss i) i (rows ! i)]))"
    by (rule random_kernel_row [OF ok probs _ i rows]) (use rec temp in \<open>simp_all add: recovered_ok_def\<close>)
next
  fix i and r :: "int list" assume "i < length dss" "length r = row_len ri"
  then show "length (if greedy_flags ri ! i then r else put_row ri (random_steps ri rec dss i) i r) = row_len ri" using tokens_fit [OF ok] by simp
qed

lemma rejection_sample_rows:
  assumes ok: "batch_ok dss ri" and fl: "flags_ok dss ri"
  shows "\<exists>rec. (\<not> ri_all_greedy ri \<longrightarrow> recovered_ok ri dss rec) \<and> rejection_sample ri = Inr (concat (map (\<lambda>i.
    put_tokens (request_tokens ri rec dss i) (replicate (row_len ri) PLACEHOLDER_TOKEN_ID)) [0..<length dss]))"
proof -
  let ?n = "length dss" and ?w = "row_len ri" and ?ptr = "if ri_all_greedy ri then None else Some (greedy_flags ri)"
  let ?rows = "replicate ?n (replicate ?w PLACEHOLDER_TOKEN_ID)"
  let ?rows1 = "map (\<lambda>i. if is_greedy_request ri i then put_row ri (greedy_steps ri dss i) i (?rows ! i) else ?rows ! i) [0..<?n]"
  have n: "length (ri_num_draft_tokens ri) = ?n" using ok by (simp add: batch_ok_def)
  have out: "replicate (nat (int ?n * (ri_max_spec_len ri + 1))) PLACEHOLDER_TOKEN_ID = concat ?rows"
    by (simp add: nat_mult_distrib flip: concat_replicate_rows)
  have greedy: "foldR (rejection_greedy_sample_kernel ri ?ptr) [0..<?n] (concat ?rows) = Inr (concat ?rows1)"
    by (rule greedy_launch [OF ok fl]) simp_all
  show ?thesis
  proof (cases "ri_all_greedy ri")
    case True
    have "?rows1 = map (\<lambda>i. put_tokens (request_tokens ri [] dss i) (replicate ?w PLACEHOLDER_TOKEN_ID)) [0..<?n]"
      using True by (intro map_cong refl) (simp add: request_steps_def)
    from greedy [unfolded this] show ?thesis using True fl unfolding rejection_sample_def Let_def n out
      by (intro exI [of _ "[]"]) (simp add: flags_ok_def)
  next
    case False
    then have pr: "probs_ok dss ri" "scores_ok ri" "length (ri_temperature ri) = ?n" using fl by (simp_all add: flags_ok_def)
    obtain rec where rec: "sample_recovered_tokens ri 8192 = Inr rec" "recovered_ok ri dss rec"
      using sample_recovered_tokens_ok [OF ok pr(1,2), of 8192] by auto
    have first: "(if \<not> ri_all_random ri then foldR (rejection_greedy_sample_kernel ri ?ptr) [0..<?n] (concat ?rows) else Inr (concat ?rows))
      = Inr (concat ?rows1)"
    proof (cases "ri_all_random ri")
      case True
      have "ri_temperature ri ! i \<noteq> GREEDY_TEMPERATURE" if "i < ?n" for i
        using fl True that pr(3) unfolding flags_ok_def by (metis nth_mem)
      then have "?rows1 = ?rows" using False by (intro nth_equalityI) simp_all
      then show ?thesis using True by (simp only: not_True_eq_False if_False)
    qed (simp add: greedy)
    have "length ?rows1 = ?n" "\<forall>r \<in> set ?rows1. length r = ?w" using tokens_fit [OF ok] by auto
    note run = random_launch [OF ok pr(1) rec(2) pr(3) this]
    have "rejection_sample ri = Inr (concat (map (\<lambda>i. if greedy_flags ri ! i then ?rows1 ! i
        else put_row ri (random_steps ri rec dss i) i (?rows1 ! i)) [0..<?n]))"
      unfolding rejection_sample_def Let_def n out first bindR_simps rec(1) run using False by simp
    also have "map (\<lambda>i. if greedy_flags ri ! i then ?rows1 ! i else put_row ri (random_steps ri rec dss i) i (?rows1 ! i)) [0..<?n]
      = map (\<lambda>i. put_tokens (request_tokens ri rec dss i) (replicate ?w PLACEHOLDER_TOKEN_ID)) [0..<?n]"
      using False pr(3) by (intro map_cong refl) (simp add: request_steps_def)
    finally show ?thesis using rec(2) by auto
  qed
qed

lemma output_rows_concat:
  assumes "\<forall>r \<in> set rows. length r = w"
  shows "output_rows (length rows) w (concat rows) = rows"
proof (rule nth_equalityI)
  fix i assume "i < length (output_rows (length rows) w (concat rows))"
  then have i: "i < length rows" by (simp add: output_rows_def)
  have "map length (take i rows) = replicate i w" using assms i by (intro replicate_eqI) (auto dest: in_set_takeD)
  then have len: "length (concat (take i rows)) = i * w" by (simp add: length_concat sum_list_replicate)
  have "concat rows = concat (take i rows) @ rows ! i @ concat (drop (Suc i) rows)"
    by (subst id_take_nth_drop [OF i]) simp
  then show "output_rows (length rows) w (concat rows) ! i = rows ! i" using len assms i by (simp add: output_rows_def)
qed (simp add: output_rows_def)

definition valid_token :: "int \<Rightarrow> int \<Rightarrow> bool" where
  "valid_token vocab t \<longleftrightarrow> 0 \<le> t \<and> t < vocab"

lemma parse_row:
  assumes "\<forall>t \<in> set xs. valid_token vocab t"
  shows "filter (\<lambda>t. t \<noteq> PLACEHOLDER_TOKEN_ID \<and> t < vocab) (put_tokens xs (replicate w PLACEHOLDER_TOKEN_ID)) = xs"
proof -
  have "filter (\<lambda>t. t \<noteq> PLACEHOLDER_TOKEN_ID \<and> t < vocab) xs = xs"
    using assms by (auto simp: filter_id_conv valid_token_def PLACEHOLDER_TOKEN_ID_def)
  then show ?thesis by (simp add: put_tokens_def)
qed

text \<open>The launch and the parsing of its output.\<close>

definition accepted_tokens :: "'p::linordered_field rejection_inputs \<Rightarrow> nat list \<Rightarrow> int list list result" where
  "accepted_tokens ri discard =
     bindR (rejection_sample ri) (\<lambda>out.
       parse_output (output_rows (length (ri_num_draft_tokens ri)) (row_len ri) out) (ri_vocab_size ri) discard)"

text \<open>The choices of the target model are tokens of the vocabulary.\<close>

definition choices_ok :: "'p rejection_inputs \<Rightarrow> bool" where
  "choices_ok ri \<longleftrightarrow> (\<forall>t \<in> set (ri_target_argmax ri) \<union> set (ri_bonus_token_ids ri). valid_token (ri_vocab_size ri) t)"

lemma row_tokens_from: "set (row_tokens xs b) \<subseteq> insert b (snd ` set xs)"
  by (induction xs b rule: row_tokens.induct) auto

lemma request_tokens_valid:
  assumes ok: "batch_ok dss ri" and fl: "flags_ok dss ri" and ch: "choices_ok ri" and i: "i < length dss"
    and rec: "\<not> ri_all_greedy ri \<longrightarrow> recovered_ok ri dss rec"
  shows "\<forall>t \<in> set (request_tokens ri rec dss i). valid_token (ri_vocab_size ri) t"
proof -
  have bonus: "valid_token (ri_vocab_size ri) (ri_bonus_token_ids ri ! i)" using ch ok i by (simp add: choices_ok_def batch_ok_def)
  have arg: "valid_token (ri_vocab_size ri) (ri_target_argmax ri ! (start_of dss i + pos))" if "pos < length (dss ! i)" for pos
    using ch ok concat_segment(1) [OF i that] by (simp add: choices_ok_def batch_ok_def)
  have draft: "valid_token (ri_vocab_size ri) (dss ! i ! pos)" if "pos < length (dss ! i)" "\<not> ri_all_greedy ri" for pos
    using fl that i unfolding flags_ok_def probs_ok_def valid_token_def by (meson nth_mem)
  have recd: "valid_token (ri_vocab_size ri) (rec ! (start_of dss i + pos))" if "pos < length (dss ! i)" "\<not> ri_all_greedy ri" for pos
    using rec that i unfolding recovered_ok_def first_best_def valid_token_def by (metis int_nat_eq of_nat_0_le_iff of_nat_less_iff zless_nat_eq_int_zless)
  have "\<forall>t \<in> snd ` set (request_steps ri rec dss i). valid_token (ri_vocab_size ri) t"
    using arg draft recd by (auto simp: request_steps_def greedy_steps_def random_steps_def Let_def)
  then show ?thesis using row_tokens_from bonus by blast
qed

lemma accepted_tokens_rows:
  assumes ok: "batch_ok dss ri" and fl: "flags_ok dss ri" and ch: "choices_ok ri" and dis: "\<forall>d \<in> set discard. d < length dss"
  shows "\<exists>rec. (\<not> ri_all_greedy ri \<longrightarrow> recovered_ok ri dss rec)
    \<and> accepted_tokens ri discard = Inr (map (\<lambda>i. if i \<in> set discard then [] else request_tokens ri rec dss i) [0..<length dss])"
proof -
  let ?pad = "replicate (row_len ri) PLACEHOLDER_TOKEN_ID"
  obtain rec where rec: "\<not> ri_all_greedy ri \<longrightarrow> recovered_ok ri dss rec"
    and run: "rejection_sample ri = Inr (concat (map (\<lambda>i. put_tokens (request_tokens ri rec dss i) ?pad) [0..<length dss]))"
    using rejection_sample_rows [OF ok fl] by auto
  let ?rows = "map (\<lambda>i. put_tokens (request_tokens ri rec dss i) ?pad) [0..<length dss]"
  have "\<forall>r \<in> set ?rows. length r = row_len ri" using tokens_fit [OF ok] by auto
  from output_rows_concat [OF this] have rows: "output_rows (length dss) (row_len ri) (concat ?rows) = ?rows" by simp
  have n: "length (ri_num_draft_tokens ri) = length dss" using ok by (simp add: batch_ok_def)
  note valid = request_tokens_valid [OF ok fl ch _ rec]
  have "accepted_tokens ri discard = Inr (map (\<lambda>i. if i \<in> set discard then [] else request_tokens ri rec dss i) [0..<length dss])"
    unfolding accepted_tokens_def run bindR_simps n rows parse_output_def using dis parse_row [OF valid]
    by (auto simp: not_le [symmetric] enumerate_map_upt enumerate_eq_zip zip_map2 intro!: nth_equalityI)
  then show ?thesis using rec by blast
qed

subsection \<open>What a batch returns\<close>

text \<open>Decoding without drafts: the next token of the context, and so on.\<close>

fun decode :: "(int list \<Rightarrow> int) \<Rightarrow> int list \<Rightarrow> nat \<Rightarrow> int list" where
  "decode next ctx 0 = []"
| "decode next ctx (Suc n) = next ctx # decode next (ctx @ [next ctx]) n"

lemma greedy_rows_decode:
  "row_tokens (map (\<lambda>pos. (ds ! pos = next (ctx @ take pos ds), next (ctx @ take pos ds))) [0..<length ds]) (next (ctx @ ds))
   = decode next ctx (Suc (length (longest_common_prefix ds (decode next ctx (length ds)))))"
proof (induction ds arbitrary: ctx)
  case (Cons d ds)
  show ?case using Cons.IH [of "ctx @ [d]"] by (auto simp: map_upt_Suc simp del: upt_Suc)
qed simp

text \<open>The batch stands for the greedy choices of a model after each prefix of a request's drafts.\<close>

definition choices_of :: "(int list \<Rightarrow> int) \<Rightarrow> int list \<Rightarrow> 'p rejection_inputs \<Rightarrow> int list list \<Rightarrow> nat \<Rightarrow> bool" where
  "choices_of next ctx ri dss i \<longleftrightarrow>
     (\<forall>pos < length (dss ! i). ri_target_argmax ri ! (start_of dss i + pos) = next (ctx @ take pos (dss ! i)))
     \<and> ri_bonus_token_ids ri ! i = next (ctx @ dss ! i)"

text \<open>A batch of one request with a temperature, its draft refused.\<close>

definition random_batch :: "real rejection_inputs" where
  "random_batch = \<lparr>ri_draft_token_ids = [0], ri_num_draft_tokens = [1], ri_max_spec_len = 1, ri_cu_num_draft_tokens = [1],
     ri_draft_probs = None, ri_target_argmax = [1], ri_target_probs = [1 / 4, 3 / 4], ri_bonus_token_ids = [1], ri_vocab_size = 2,
     ri_uniform_probs = [1 / 2], ri_inv_q = [1, 1], ri_temperature = [1], ri_all_greedy = False, ri_all_random = True\<rparr>"

text \<open>The row of a greedy request: one token more than the drafts agree with, as decoded one at a time.\<close>

lemma greedy_row_decoded:
  assumes "batch_ok dss ri" "flags_ok dss ri" "choices_ok ri" "\<forall>d \<in> set discard. d < length dss"
    and "i < length dss" "i \<notin> set discard" "is_greedy_request ri i" "choices_of next ctx ri dss i"
  shows "\<exists>outs. accepted_tokens ri discard = Inr outs \<and> length outs = length dss
    \<and> outs ! i = decode next ctx (Suc (length (longest_common_prefix (dss ! i) (decode next ctx (length (dss ! i))))))"
proof -
  obtain rec where run: "accepted_tokens ri discard = Inr (map (\<lambda>i. if i \<in> set discard then [] else request_tokens ri rec dss i) [0..<length dss])"
    using accepted_tokens_rows [OF assms(1-4)] by blast
  have "greedy_steps ri dss i = map (\<lambda>pos. (dss ! i ! pos = next (ctx @ take pos (dss ! i)), next (ctx @ take pos (dss ! i)))) [0..<length (dss ! i)]"
    using assms(8) by (simp add: greedy_steps_def choices_of_def Let_def)
  then have "request_tokens ri rec dss i = decode next ctx (Suc (length (longest_common_prefix (dss ! i) (decode next ctx (length (dss ! i))))))"
    using assms(7,8) greedy_rows_decode [of "dss ! i" "next" ctx] by (simp add: request_steps_def choices_of_def)
  then show ?thesis using run assms(5,6) by simp
qed

lemma row_tokens_prefix:
  "row_tokens xs b = (let k = length (takeWhile fst xs) in map snd (take k xs) @ [if k = length xs then b else snd (xs ! k)])"
  by (induction xs b rule: row_tokens.induct) (auto simp: Let_def)

text \<open>
  C20: The row of a request with a temperature is its drafts up to the first that fails the test of probabilities, and one token more: the
  bonus token after the last draft, and otherwise the token of the vocabulary with the first of the greatest scores, whatever the
  tiles and the padding of the search.
\<close>

theorem random_rows:
  assumes "batch_ok dss ri" "flags_ok dss ri" "choices_ok ri" "\<forall>d \<in> set discard. d < length dss"
    and "i < length dss" "i \<notin> set discard" "\<not> is_greedy_request ri i" "k = length (takeWhile (draft_accepted ri dss i) [0..<length (dss ! i)])"
  shows "\<exists>outs t. accepted_tokens ri discard = Inr outs \<and> length outs = length dss \<and> outs ! i = take k (dss ! i) @ [t]
    \<and> (if k = length (dss ! i) then t = ri_bonus_token_ids ri ! i
       else \<exists>v. t = int v \<and> first_best (token_score ri dss i k) (nat (ri_vocab_size ri)) v)"
proof -
  obtain rec where rec: "recovered_ok ri dss rec"
    and run: "accepted_tokens ri discard = Inr (map (\<lambda>i. if i \<in> set discard then [] else request_tokens ri rec dss i) [0..<length dss])"
    using accepted_tokens_rows [OF assms(1-4)] assms(7) by blast
  let ?xs = "random_steps ri rec dss i" and ?n = "length (dss ! i)"
  have k: "length (takeWhile fst ?xs) = k" unfolding assms(8) random_steps_def by (simp add: takeWhile_map comp_def Let_def)
  have kn: "k \<le> ?n" unfolding assms(8) using length_takeWhile_le [of "draft_accepted ri dss i" "[0..<?n]"] by simp
  have acc: "draft_accepted ri dss i pos" if "pos < k" for pos
    using that kn nth_mem [of pos "takeWhile (draft_accepted ri dss i) [0..<?n]"] set_takeWhileD takeWhile_nth unfolding assms(8) by fastforce
  have rej: "\<not> draft_accepted ri dss i k" if "k < ?n"
    using nth_length_takeWhile [of "draft_accepted ri dss i" "[0..<?n]"] that unfolding assms(8) by simp
  have "map snd (take k ?xs) = take k (dss ! i)" using kn acc by (intro nth_equalityI) (auto simp: random_steps_def Let_def)
  moreover have "snd (?xs ! k) = rec ! (start_of dss i + k)" if "k < ?n" using rej that by (simp add: random_steps_def Let_def)
  ultimately have row: "request_tokens ri rec dss i = take k (dss ! i) @ [if k = ?n then ri_bonus_token_ids ri ! i else rec ! (start_of dss i + k)]"
    using assms(7) k kn by (simp add: request_steps_def row_tokens_prefix Let_def)
  have "\<exists>v. rec ! (start_of dss i + k) = int v \<and> first_best (token_score ri dss i k) (nat (ri_vocab_size ri)) v" if "k \<noteq> ?n"
    using rec assms(5) kn that by (simp add: recovered_ok_def)
  then show ?thesis using run row assms(5,6) by auto
qed

theorem random_rows_witness:
  "\<exists>outs. accepted_tokens random_batch [] = Inr outs \<and> length outs = 1 \<and> outs ! 0 = [1]"
proof -
  have ok: "batch_ok [[0]] random_batch" "flags_ok [[0]] random_batch" "choices_ok random_batch"
    by (simp_all add: batch_ok_def flags_ok_def probs_ok_def scores_ok_def choices_ok_def valid_token_def random_batch_def GREEDY_TEMPERATURE_def)
  have "\<not> draft_accepted random_batch [[0]] 0 0" by (simp add: draft_accepted_def random_batch_def)
  then have k: "0 = length (takeWhile (draft_accepted random_batch [[0]] 0) [0..<length ([[0 :: int]] ! 0)])" by simp
  have g: "\<not> is_greedy_request random_batch 0" by (simp add: random_batch_def GREEDY_TEMPERATURE_def)
  obtain outs t where res: "accepted_tokens random_batch [] = Inr outs" "length outs = length [[0 :: int]]" "outs ! 0 = take 0 ([[0]] ! 0) @ [t]"
    "\<exists>v. t = int v \<and> first_best (token_score random_batch [[0]] 0 0) (nat (ri_vocab_size random_batch)) v"
    using random_rows [OF ok _ _ _ g k, of "[]"] by auto
  then obtain v where v: "t = int v" "first_best (token_score random_batch [[0]] 0 0) 2 v" by (auto simp: random_batch_def)
  have "token_score random_batch [[0]] 0 0 0 = 0" "token_score random_batch [[0]] 0 0 1 = 3 / 4"
    by (simp_all add: token_score_def random_batch_def)
  then have "v = 1" using v(2) unfolding first_best_def by (metis less_2_cases less_numeral_extra(3) not_le one_less_numeral_iff semiring_norm(76) zero_less_divide_iff zero_less_numeral)
  then show ?thesis using res v(1) by simp
qed

end
