(* ===== verification/Spec_Metadata.thy ===== *)
theory Spec_Metadata
  imports Rejection_Sampler
begin

text \<open>
  Where the drafts of a batch lie (\<open>_calc_spec_decode_metadata\<close> of \<open>worker/gpu_model_runner.py\<close> and \<open>spec_decode/metadata.py\<close>): the
  indices of the logits that check drafts, and the composition with the rejection sampler. Arrays of numpy and tensors are lists of
  unbounded integers; the sums, of type int32 in the source, count the tokens of one step.
\<close>

subsection \<open>Arrays\<close>

text \<open>Arithmetic of two arrays of one dimension; an array with one element is used for every element of the other.\<close>

definition np_sub :: "int list \<Rightarrow> int list \<Rightarrow> int list result" where
  "np_sub xs ys =
     (if length xs = length ys then Inr (map2 (-) xs ys)
      else if length ys = 1 then Inr (map (\<lambda>x. x - hd ys) xs)
      else if length xs = 1 then Inr (map (\<lambda>y. hd xs - y) ys) else Inl ValueError)"

definition np_iadd :: "int list \<Rightarrow> int list \<Rightarrow> int list result" where
  "np_iadd xs ys =
     (if length xs = length ys then Inr (map2 (+) xs ys)
      else if length ys = 1 then Inr (map (\<lambda>x. x + hd ys) xs) else Inl ValueError)"

definition np_repeat :: "int list \<Rightarrow> int list \<Rightarrow> int list result" where
  "np_repeat xs counts =
     (if \<exists>c \<in> set counts. c < 0 then Inl ValueError
      else if length counts = length xs then Inr (concat (map2 (\<lambda>x c. replicate (nat c) x) xs counts))
      else if length counts = 1 then Inr (concat (map (\<lambda>x. replicate (nat (hd counts)) x) xs)) else Inl ValueError)"

fun np_cumsum_from :: "int \<Rightarrow> int list \<Rightarrow> int list" where
  "np_cumsum_from s [] = []"
| "np_cumsum_from s (x # xs) = (s + x) # np_cumsum_from (s + x) xs"

definition np_cumsum :: "int list \<Rightarrow> int list" where
  "np_cumsum xs = np_cumsum_from 0 xs"

definition np_take :: "'a list \<Rightarrow> int list \<Rightarrow> 'a list result" where
  "np_take xs idx = mapR (py_nth xs) idx"

subsection \<open>The metadata\<close>

record spec_decode_metadata =
  sd_draft_token_ids :: "int list"
  sd_num_draft_tokens :: "int list"
  sd_cu_num_draft_tokens :: "int list"
  sd_cu_num_sampled_tokens :: "int list"
  sd_target_logits_indices :: "int list"
  sd_bonus_logits_indices :: "int list"
  sd_logits_indices :: "int list"
  sd_max_spec_len :: int

definition metadata_post_init :: "spec_decode_metadata \<Rightarrow> spec_decode_metadata result" where
  "metadata_post_init md =
     (if sd_num_draft_tokens md = [] then Inl ValueError
      else Inr (md\<lparr>sd_max_spec_len := Max (set (sd_num_draft_tokens md))\<rparr>))"

definition get_cumsum_and_arange :: "int list \<Rightarrow> int list \<Rightarrow> (int list \<times> int list) result" where
  "get_cumsum_and_arange arange_np num_tokens =
     (let cu_num_tokens = np_cumsum num_tokens
      in bindR (py_nth cu_num_tokens (- 1)) (\<lambda>total_num_tokens.
         bindR (np_sub cu_num_tokens num_tokens) (\<lambda>d.
         bindR (np_repeat d num_tokens) (\<lambda>cumsums_offsets.
         bindR (np_sub (slice_to arange_np total_num_tokens) cumsums_offsets) (\<lambda>arange.
           Inr (cu_num_tokens, arange))))))"

definition calc_spec_decode_metadata :: "int list \<Rightarrow> int list \<Rightarrow> int list \<Rightarrow> int list \<Rightarrow> spec_decode_metadata result" where
  "calc_spec_decode_metadata arange_np input_ids num_draft_tokens cu_num_scheduled_tokens =
     (let num_sampled_tokens = map (\<lambda>n. n + 1) num_draft_tokens
      in bindR (get_cumsum_and_arange arange_np num_sampled_tokens) (\<lambda>(cu_num_sampled_tokens, arange).
         bindR (np_sub cu_num_scheduled_tokens num_sampled_tokens) (\<lambda>firsts.
         bindR (np_repeat firsts num_sampled_tokens) (\<lambda>logits_base.
         bindR (np_iadd logits_base arange) (\<lambda>logits_indices.
         let bonus_logits_indices = map (\<lambda>c. c - 1) cu_num_sampled_tokens
         in bindR (get_cumsum_and_arange arange_np num_draft_tokens) (\<lambda>(cu_num_draft_tokens, arange2).
            bindR (np_sub cu_num_sampled_tokens num_sampled_tokens) (\<lambda>starts.
            bindR (np_repeat starts num_draft_tokens) (\<lambda>target_base.
            bindR (np_iadd target_base arange2) (\<lambda>target_logits_indices.
            bindR (np_take input_ids logits_indices) (\<lambda>sampled_ids.
            bindR (np_take sampled_ids (map (\<lambda>t. t + 1) target_logits_indices)) (\<lambda>draft_token_ids.
              metadata_post_init
                \<lparr>sd_draft_token_ids = draft_token_ids, sd_num_draft_tokens = num_draft_tokens,
                 sd_cu_num_draft_tokens = cu_num_draft_tokens, sd_cu_num_sampled_tokens = cu_num_sampled_tokens,
                 sd_target_logits_indices = target_logits_indices, sd_bonus_logits_indices = bonus_logits_indices,
                 sd_logits_indices = logits_indices, sd_max_spec_len = 0\<rparr>)))))))))))"

text \<open>The metadata of a dummy run.\<close>

definition make_dummy :: "int list list \<Rightarrow> spec_decode_metadata result" where
  "make_dummy drafts =
     (let num_draft_tokens = map (\<lambda>ids. int (length ids)) drafts;
          num_sampled_tokens = map (\<lambda>ids. int (length ids) + 1) drafts;
          flattened = concat drafts
      in metadata_post_init
           \<lparr>sd_draft_token_ids = flattened, sd_num_draft_tokens = num_draft_tokens,
            sd_cu_num_draft_tokens = np_cumsum num_draft_tokens, sd_cu_num_sampled_tokens = np_cumsum num_sampled_tokens,
            sd_target_logits_indices = replicate (length flattened) 0, sd_bonus_logits_indices = replicate (length drafts) 0,
            sd_logits_indices = replicate (length flattened + length drafts) 0, sd_max_spec_len = 0\<rparr>)"

text \<open>
  What \<open>RejectionSampler.forward\<close> calls on rows of logits: the sampler for the bonus tokens, the logits processors and the
  sampling constraints for the target rows, and the most likely token of a row, which \<open>rejection_sample\<close> takes.
\<close>

record 'l logits_functions =
  lf_sampler :: "'l list \<Rightarrow> int list"
  lf_apply_logits_processors :: "spec_decode_metadata \<Rightarrow> 'l list \<Rightarrow> 'l list"
  lf_apply_sampling_constraints :: "int list \<Rightarrow> 'l list \<Rightarrow> 'l list"
  lf_argmax :: "'l \<Rightarrow> int"

text \<open>
  The inputs of the rejection sampler in \<open>RejectionSampler.forward\<close>, from the rows of logits; \<open>rest\<close> has the inputs that come
  neither from the metadata nor from the logits.
\<close>

definition forward_inputs ::
  "'l logits_functions \<Rightarrow> spec_decode_metadata \<Rightarrow> 'l list \<Rightarrow> 'p rejection_inputs \<Rightarrow> 'p rejection_inputs result" where
  "forward_inputs lf md logits rest =
     bindR (assertR (sd_max_spec_len md \<le> MAX_SPEC_LEN)) (\<lambda>_.
     bindR (np_take logits (sd_bonus_logits_indices md)) (\<lambda>bonus_logits.
     let bonus_token_ids = lf_sampler lf bonus_logits
     in bindR (np_take logits (sd_target_logits_indices md)) (\<lambda>raw_target_logits.
        let target_logits = lf_apply_sampling_constraints lf (sd_cu_num_draft_tokens md)
                              (lf_apply_logits_processors lf md raw_target_logits)
        in Inr (rest\<lparr>ri_draft_token_ids := sd_draft_token_ids md, ri_num_draft_tokens := sd_num_draft_tokens md,
                     ri_max_spec_len := sd_max_spec_len md, ri_cu_num_draft_tokens := sd_cu_num_draft_tokens md,
                     ri_target_argmax := map (lf_argmax lf) target_logits, ri_bonus_token_ids := bonus_token_ids\<rparr>))))"

subsection \<open>Segments\<close>

text \<open>A flat array with one segment for each list of \<open>xss\<close>, of its length.\<close>

abbreviation lens :: "'a list list \<Rightarrow> int list" where
  "lens xss \<equiv> map (\<lambda>xs. int (length xs)) xss"

abbreviation ends :: "'a list list \<Rightarrow> int list" where
  "ends xss \<equiv> map (\<lambda>i. int (start_of xss (Suc i))) [0..<length xss]"

definition cells :: "'a list list \<Rightarrow> (nat \<Rightarrow> nat \<Rightarrow> 'b) \<Rightarrow> 'b list" where
  "cells xss g = concat (map (\<lambda>i. map (g i) [0..<length (xss ! i)]) [0..<length xss])"

lemma cells_self: "cells xss (\<lambda>i j. xss ! i ! j) = concat xss"
  by (simp add: cells_def map_nth)

lemma cells_cong:
  "(\<And>i j. i < length xss \<Longrightarrow> j < length (xss ! i) \<Longrightarrow> g i j = h i j) \<Longrightarrow> cells xss g = cells xss h"
  unfolding cells_def by (intro arg_cong [of _ _ concat] map_cong refl) simp

lemma cells_map: "map f (cells xss g) = cells xss (\<lambda>i j. f (g i j))"
  by (simp add: cells_def map_concat comp_def)

lemma length_cells: "length (cells xss g) = length (concat xss)"
proof -
  have "length (cells xss g) = length (cells xss (\<lambda>i j. xss ! i ! j))" by (simp add: cells_def length_concat comp_def)
  then show ?thesis by (simp only: cells_self)
qed

lemma cells_map2: "map2 f (cells xss g) (cells xss h) = cells xss (\<lambda>i j. f (g i j) (h i j))"
proof -
  have "map2 f (concat (map (\<lambda>i. map (g i) [0..<m i]) is)) (concat (map (\<lambda>i. map (h i) [0..<m i]) is))
    = concat (map (\<lambda>i. map (\<lambda>j. f (g i j) (h i j)) [0..<m i]) is)" for m "is"
    by (induction "is") (simp_all add: zip_append map2_map_map)
  then show ?thesis by (simp add: cells_def)
qed

lemma start_of_Cons: "start_of (x # xss) (Suc i) = length x + start_of xss i"
  by simp

lemma cells_index: "cells xss (\<lambda>i j. k + start_of xss i + j) = [k..<k + length (concat xss)]"
proof (induction xss arbitrary: k)
  case (Cons x xss)
  have "cells (x # xss) (\<lambda>i j. k + start_of (x # xss) i + j) = map (\<lambda>j. k + j) [0..<length x] @ cells xss (\<lambda>i j. (k + length x) + start_of xss i + j)"
    unfolding cells_def by (simp add: map_upt_Suc add.assoc del: upt_Suc)
  also have "\<dots> = [k..<k + length x] @ [k + length x..<k + length x + length (concat xss)]"
    using Cons.IH [of "k + length x"] map_add_upt [of k "length x"] by (simp add: add.commute)
  also have "\<dots> = [k..<k + length x + length (concat xss)]" by (rule upt_add_eq_append [symmetric]) simp
  finally show ?case by (simp add: add.assoc)
qed (simp add: cells_def)

lemma cumsum_ends: "np_cumsum_from s (lens xss) = map (\<lambda>i. s + int (start_of xss (Suc i))) [0..<length xss]"
  by (induction xss arbitrary: s) (simp_all add: map_upt_Suc add.assoc del: upt_Suc)

lemma ends_sub_lens: "np_sub (ends xss) (lens xss) = Inr (map (\<lambda>i. int (start_of xss i)) [0..<length xss])"
proof -
  have "map2 (-) (ends xss) (lens xss) = map (\<lambda>i. int (start_of xss i)) [0..<length xss]"
    by (rule nth_equalityI) (simp_all add: start_of_Suc)
  then show ?thesis by (simp add: np_sub_def)
qed

lemma repeat_cells: "np_repeat (map f [0..<length xss]) (lens xss) = Inr (cells xss (\<lambda>i j. f i))"
proof -
  have "map2 (\<lambda>x c. replicate (nat c) x) (map f [0..<length xss]) (lens xss) = map (\<lambda>i. map (\<lambda>j. f i) [0..<length (xss ! i)]) [0..<length xss]"
    by (rule nth_equalityI) (simp_all add: map_replicate_const)
  then show ?thesis by (auto simp: np_repeat_def cells_def)
qed

lemma iadd_cells: "np_iadd (cells xss g) (cells xss h) = Inr (cells xss (\<lambda>i j. g i j + h i j))"
  by (simp add: np_iadd_def length_cells cells_map2)

lemma cumsum_and_arange_ok:
  assumes "xss \<noteq> []" "length (concat xss) \<le> K"
  shows "get_cumsum_and_arange (map int [0..<K]) (lens xss) = Inr (ends xss, cells xss (\<lambda>i j. int j))"
proof -
  let ?N = "length (concat xss)"
  have cu: "np_cumsum (lens xss) = ends xss" using cumsum_ends [of 0 xss] by (simp add: np_cumsum_def)
  have "ends xss \<noteq> []" using assms(1) by simp
  then have total: "py_nth (ends xss) (- 1) = Inr (int ?N)" using assms(1) by (simp add: py_nth_last last_map)
  have "slice_to (map int [0..<K]) (int ?N) = map int [0..<?N]" using assms(2) by (simp add: take_map)
  also have "\<dots> = cells xss (\<lambda>i j. int (start_of xss i + j))" using cells_map [of int xss "\<lambda>i j. 0 + start_of xss i + j"]
    unfolding cells_index by simp
  finally have sl: "slice_to (map int [0..<K]) (int ?N) = cells xss (\<lambda>i j. int (start_of xss i + j))" .
  have "np_sub (cells xss (\<lambda>i j. int (start_of xss i + j))) (cells xss (\<lambda>i j. int (start_of xss i))) = Inr (cells xss (\<lambda>i j. int j))"
    by (simp add: np_sub_def length_cells cells_map2)
  then show ?thesis unfolding get_cumsum_and_arange_def Let_def cu total ends_sub_lens repeat_cells bindR_simps sl by simp
qed

lemma take_cells:
  assumes len: "length yss = length xss" and fit: "\<And>i. i < length xss \<Longrightarrow> c i + length (xss ! i) \<le> length (yss ! i)"
  shows "np_take (concat yss @ rest) (cells xss (\<lambda>i j. int (start_of yss i + (c i + j)))) = Inr (cells xss (\<lambda>i j. yss ! i ! (c i + j)))"
proof -
  have "mapR (py_nth (concat yss @ rest)) (map int (cells xss (\<lambda>i j. start_of yss i + (c i + j))))
      = Inr (map (\<lambda>k. concat yss ! nat k) (map int (cells xss (\<lambda>i j. start_of yss i + (c i + j)))))"
  proof (rule mapR_pure)
    fix k assume "k \<in> set (map int (cells xss (\<lambda>i j. start_of yss i + (c i + j))))"
    then obtain i j where ij: "i < length xss" "j < length (xss ! i)" "k = int (start_of yss i + (c i + j))" by (auto simp: cells_def)
    have "start_of yss i + (c i + j) < length (concat yss)" by (rule concat_segment(1)) (use ij fit [of i] len in simp_all)
    then show "py_nth (concat yss @ rest) k = Inr (concat yss ! nat k)" unfolding ij(3) by (simp add: nth_append del: of_nat_add)
  qed
  moreover have "cells xss (\<lambda>i j. concat yss ! (start_of yss i + (c i + j))) = cells xss (\<lambda>i j. yss ! i ! (c i + j))"
  proof (rule cells_cong)
    fix i j assume "i < length xss" "j < length (xss ! i)"
    then show "concat yss ! (start_of yss i + (c i + j)) = yss ! i ! (c i + j)" by (intro concat_segment(2)) (use fit [of i] len in simp_all)
  qed
  ultimately show ?thesis by (simp add: np_take_def cells_map del: of_nat_add)
qed

subsection \<open>The metadata of a batch\<close>

text \<open>Each request of \<open>tss\<close>, with its scheduled tokens, ends with its drafts after at least one other token.\<close>

definition drafts_of :: "int list list \<Rightarrow> int list list \<Rightarrow> bool" where
  "drafts_of tss dss \<longleftrightarrow> length tss = length dss \<and> dss \<noteq> []
     \<and> (\<forall>i < length dss. \<exists>c. c \<noteq> [] \<and> tss ! i = c @ dss ! i)"

abbreviation first_sampled :: "int list list \<Rightarrow> int list list \<Rightarrow> nat \<Rightarrow> nat" where
  "first_sampled tss dss i \<equiv> length (tss ! i) - Suc (length (dss ! i))"

text \<open>The tokens whose logits are used.\<close>

definition sampled_of :: "int list list \<Rightarrow> int list list \<Rightarrow> int list list" where
  "sampled_of tss dss = map (\<lambda>i. drop (first_sampled tss dss i) (tss ! i)) [0..<length dss]"

lemma drafts_of_at:
  assumes "drafts_of tss dss" "i < length dss"
  shows "Suc (length (dss ! i)) \<le> length (tss ! i)" "drop (Suc (first_sampled tss dss i)) (tss ! i) = dss ! i"
proof -
  obtain c where c: "c \<noteq> []" "tss ! i = c @ dss ! i" using assms by (auto simp: drafts_of_def)
  have "0 < length c" using c(1) by simp
  then have "Suc (first_sampled tss dss i) = length c" unfolding c(2) length_append by linarith
  then show "drop (Suc (first_sampled tss dss i)) (tss ! i) = dss ! i" using c(2) by simp
  show "Suc (length (dss ! i)) \<le> length (tss ! i)" using c(2) \<open>0 < length c\<close> by (simp add: Suc_le_eq)
qed

lemma sampled_of_at:
  assumes "drafts_of tss dss"
  shows "length (sampled_of tss dss) = length dss"
    and "i < length dss \<Longrightarrow> length (sampled_of tss dss ! i) = Suc (length (dss ! i))"
    and "lens (sampled_of tss dss) = map (\<lambda>n. n + 1) (lens dss)"
proof -
  show len: "length (sampled_of tss dss) = length dss" by (simp add: sampled_of_def)
  show at_i: "length (sampled_of tss dss ! i) = Suc (length (dss ! i))" if "i < length dss" for i
    using drafts_of_at(1) [OF assms that] that by (simp add: sampled_of_def)
  show "lens (sampled_of tss dss) = map (\<lambda>n. n + 1) (lens dss)" by (rule nth_equalityI) (simp_all add: len at_i)
qed

lemma first_logits:
  assumes "drafts_of tss dss"
  shows "np_sub (ends tss) (lens (sampled_of tss dss)) = Inr (map (\<lambda>i. int (start_of tss i + first_sampled tss dss i)) [0..<length dss])"
proof -
  note s = sampled_of_at [OF assms]
  have t: "length tss = length dss" using assms by (simp add: drafts_of_def)
  have "map2 (-) (ends tss) (lens (sampled_of tss dss)) = map (\<lambda>i. int (start_of tss i + first_sampled tss dss i)) [0..<length dss]"
  proof (rule nth_equalityI)
    fix i assume "i < length (map2 (-) (ends tss) (lens (sampled_of tss dss)))"
    then have i: "i < length dss" using s(1) by simp
    have "int (start_of tss (Suc i)) - int (Suc (length (dss ! i))) = int (start_of tss i + first_sampled tss dss i)"
      using start_of_Suc [of i tss] t i drafts_of_at(1) [OF assms i] by simp
    then show "map2 (-) (ends tss) (lens (sampled_of tss dss)) ! i = map (\<lambda>i. int (start_of tss i + first_sampled tss dss i)) [0..<length dss] ! i"
      using i t s(1,2) by simp
  qed (simp add: s(1) t)
  then show ?thesis by (simp add: np_sub_def s(1) t)
qed

abbreviation metadata_of :: "int list list \<Rightarrow> int list list \<Rightarrow> spec_decode_metadata" where
  "metadata_of tss dss \<equiv>
     \<lparr>sd_draft_token_ids = concat dss, sd_num_draft_tokens = lens dss, sd_cu_num_draft_tokens = ends dss,
      sd_cu_num_sampled_tokens = ends (sampled_of tss dss),
      sd_target_logits_indices = cells dss (\<lambda>i j. int (start_of (sampled_of tss dss) i + j)),
      sd_bonus_logits_indices = map (\<lambda>c. c - 1) (ends (sampled_of tss dss)),
      sd_logits_indices = cells (sampled_of tss dss) (\<lambda>i j. int (start_of tss i + (first_sampled tss dss i + j))),
      sd_max_spec_len = Max (set (lens dss))\<rparr>"

lemma calc_metadata_ok:
  assumes d: "drafts_of tss dss" and K: "length (concat (sampled_of tss dss)) \<le> K" "length (concat dss) \<le> K"
  shows "calc_spec_decode_metadata (map int [0..<K]) (concat tss @ pad) (lens dss) (ends tss) = Inr (metadata_of tss dss)"
proof -
  let ?s = "sampled_of tss dss" and ?c = "first_sampled tss dss"
  note s = sampled_of_at [OF d]
  have t: "length tss = length ?s" "dss \<noteq> []" using d s(1) by (simp_all add: drafts_of_def)
  then have ne: "?s \<noteq> []" using s(1) by auto
  have base: "np_repeat (map (\<lambda>i. int (start_of tss i + ?c i)) [0..<length dss]) (lens ?s) = Inr (cells ?s (\<lambda>i j. int (start_of tss i + ?c i)))"
    using repeat_cells [of "\<lambda>i. int (start_of tss i + ?c i)" ?s] s(1) by simp
  have target: "np_repeat (map (\<lambda>i. int (start_of ?s i)) [0..<length ?s]) (lens dss) = Inr (cells dss (\<lambda>i j. int (start_of ?s i)))"
    using repeat_cells [of "\<lambda>i. int (start_of ?s i)" dss] s(1) by simp
  have ids: "np_take (concat tss @ pad) (cells ?s (\<lambda>i j. int (start_of tss i + (?c i + j)))) = Inr (cells ?s (\<lambda>i j. tss ! i ! (?c i + j)))"
  proof (rule take_cells [OF t(1)])
    fix i assume "i < length ?s"
    then show "?c i + length (?s ! i) \<le> length (tss ! i)" using s(1,2) drafts_of_at(1) [OF d, of i] by simp
  qed
  have sampled: "cells ?s (\<lambda>i j. tss ! i ! (?c i + j)) = concat ?s"
    unfolding cells_self [symmetric] by (rule cells_cong) (simp add: sampled_of_def)
  have "np_take (concat ?s @ []) (cells dss (\<lambda>i j. int (start_of ?s i + (1 + j)))) = Inr (cells dss (\<lambda>i j. ?s ! i ! (1 + j)))"
    by (rule take_cells) (simp_all add: s)
  moreover have "cells dss (\<lambda>i j. ?s ! i ! (1 + j)) = concat dss"
  proof (subst cells_self [symmetric], rule cells_cong)
    fix i j assume i: "i < length dss" and j: "j < length (dss ! i)"
    have "tss ! i ! (Suc (?c i) + j) = dss ! i ! j" using drafts_of_at [OF d i] j by (metis nth_drop Suc_leD add_leD1 diff_le_self le_add_diff_inverse2 Suc_diff_Suc Suc_le_lessD)
    then show "?s ! i ! (1 + j) = dss ! i ! j" using i drafts_of_at(1) [OF d i] by (simp add: sampled_of_def)
  qed
  ultimately have drafts: "np_take (concat ?s) (map (\<lambda>t. t + 1) (cells dss (\<lambda>i j. int (start_of ?s i) + int j))) = Inr (concat dss)"
    by (simp add: cells_map add.assoc add.commute)
  show ?thesis unfolding calc_spec_decode_metadata_def Let_def s(3) [symmetric] cumsum_and_arange_ok [OF ne K(1)]
      cumsum_and_arange_ok [OF t(2) K(2)] bindR_simps prod.case first_logits [OF d] base iadd_cells ends_sub_lens target
    using ids sampled drafts t(2) by (simp add: metadata_post_init_def add.assoc)
qed

lemma make_dummy_ok:
  assumes "drafts \<noteq> []"
  shows "\<exists>md. make_dummy drafts = Inr md \<and> sd_draft_token_ids md = concat drafts \<and> sd_num_draft_tokens md = lens drafts
    \<and> sd_cu_num_draft_tokens md = ends drafts \<and> sd_max_spec_len md = Max (set (lens drafts))"
  using assms cumsum_ends [of 0 drafts] by (simp add: make_dummy_def metadata_post_init_def np_cumsum_def Let_def)

subsection \<open>From the scheduled tokens to the accepted tokens\<close>

text \<open>The choices for the rows of the logits, in segments.\<close>

abbreviation choice_rows :: "(nat \<Rightarrow> nat \<Rightarrow> 'b) \<Rightarrow> int list list \<Rightarrow> 'b list list" where
  "choice_rows ch dss \<equiv> map (\<lambda>i. map (ch i) [0..<Suc (length (dss ! i))]) [0..<length dss]"

lemma choice_rows_cells:
  assumes "drafts_of tss dss"
  shows "cells (sampled_of tss dss) ch = concat (choice_rows ch dss)"
  unfolding cells_def sampled_of_at(1) [OF assms]
  by (intro arg_cong [of _ _ concat] map_cong refl) (simp add: sampled_of_at(2) [OF assms])

lemma start_of_lengths:
  assumes "length xss = length yss" "\<And>i. i < length xss \<Longrightarrow> length (xss ! i) = length (yss ! i)"
  shows "start_of xss k = start_of yss k"
proof -
  have "map length xss = map length yss" using assms by (intro nth_equalityI) simp_all
  then have "take k (map length xss) = take k (map length yss)" by simp
  then show ?thesis by (simp add: length_concat take_map)
qed

lemma forward_inputs_ok:
  assumes d: "drafts_of tss dss" and small: "Max (set (lens dss)) \<le> MAX_SPEC_LEN"
  shows "forward_inputs lf (metadata_of tss dss) (cells (sampled_of tss dss) ch) rest
    = Inr (rest\<lparr>ri_draft_token_ids := concat dss, ri_num_draft_tokens := lens dss, ri_max_spec_len := Max (set (lens dss)),
                ri_cu_num_draft_tokens := ends dss,
                ri_target_argmax := map (lf_argmax lf) (lf_apply_sampling_constraints lf (ends dss)
                  (lf_apply_logits_processors lf (metadata_of tss dss) (cells dss ch))),
                ri_bonus_token_ids := lf_sampler lf (map (\<lambda>i. ch i (length (dss ! i))) [0..<length dss])\<rparr>)"
proof -
  let ?s = "sampled_of tss dss" and ?r = "choice_rows ch dss"
  note s = sampled_of_at [OF d]
  have start: "start_of ?s k = start_of ?r k" for k by (rule start_of_lengths) (simp_all add: s)
  have rows: "cells ?s ch = concat ?r" by (rule choice_rows_cells [OF d])
  have "np_take (concat ?r @ []) (cells dss (\<lambda>i j. int (start_of ?r i + (0 + j)))) = Inr (cells dss (\<lambda>i j. ?r ! i ! (0 + j)))"
    by (rule take_cells) simp_all
  moreover have "cells dss (\<lambda>i j. ?r ! i ! (0 + j)) = cells dss ch" by (rule cells_cong) (simp del: upt_Suc)
  ultimately have target: "np_take (concat ?r) (cells dss (\<lambda>i j. int (start_of ?s i + j))) = Inr (cells dss ch)" by (simp add: start)
  have "np_take (concat ?r) (map (\<lambda>c. c - 1) (ends ?s)) = Inr (map (\<lambda>i. ch i (length (dss ! i))) [0..<length dss])"
    unfolding np_take_def map_map comp_def s(1)
  proof (subst mapR_map, rule mapR_pure)
    fix i assume "i \<in> set [0..<length dss]"
    then have i: "i < length dss" by simp
    have "int (start_of ?s (Suc i)) - 1 = int (start_of ?r i + length (dss ! i))" unfolding start using start_of_Suc [of i ?r] i by simp
    moreover have "start_of ?r i + length (dss ! i) < length (concat ?r)" "concat ?r ! (start_of ?r i + length (dss ! i)) = ?r ! i ! length (dss ! i)"
      using concat_segment [of i ?r "length (dss ! i)"] i by simp_all
    ultimately show "py_nth (concat ?r) (int (start_of ?s (Suc i)) - 1) = Inr (ch i (length (dss ! i)))" using i by (simp del: of_nat_add upt_Suc)
  qed
  then show ?thesis unfolding forward_inputs_def rows Let_def using target small by (simp add: assertR_def)
qed

text \<open>The steps of the model runner on the drafts of a batch; \<open>logit\<close> gives the row of logits after each scheduled token.\<close>

definition verify_drafts ::
  "int list \<Rightarrow> int list \<Rightarrow> int list \<Rightarrow> int list \<Rightarrow> 'l logits_functions \<Rightarrow> (int \<Rightarrow> 'l) \<Rightarrow> 'p::linordered_field rejection_inputs
   \<Rightarrow> nat list \<Rightarrow> int list list result" where
  "verify_drafts arange_np input_ids num_draft_tokens cu_num_scheduled_tokens lf logit rest discard =
     bindR (calc_spec_decode_metadata arange_np input_ids num_draft_tokens cu_num_scheduled_tokens) (\<lambda>md.
     bindR (forward_inputs lf md (map logit (sd_logits_indices md)) rest) (\<lambda>ri. accepted_tokens ri discard))"

text \<open>
  What is relied on of the functions on logits: they give one entry per row and tokens of the vocabulary; and for the request
  \<open>i\<close> of the batch, a greedy one, the bonus token and the most likely token of a target row after processing depend on that row only.
\<close>

definition rows_kept :: "'l logits_functions \<Rightarrow> int \<Rightarrow> bool" where
  "rows_kept lf vocab \<longleftrightarrow> (\<forall>rows. length (lf_sampler lf rows) = length rows \<and> (\<forall>t \<in> set (lf_sampler lf rows). valid_token vocab t))
     \<and> (\<forall>md rows. length (lf_apply_logits_processors lf md rows) = length rows)
     \<and> (\<forall>cu rows. length (lf_apply_sampling_constraints lf cu rows) = length rows)
     \<and> (\<forall>row. valid_token vocab (lf_argmax lf row))"

definition picks_greedily :: "'l logits_functions \<Rightarrow> ('l \<Rightarrow> int) \<Rightarrow> int list list \<Rightarrow> nat \<Rightarrow> bool" where
  "picks_greedily lf pick dss i \<longleftrightarrow>
     (\<forall>rows. length rows = length dss \<longrightarrow> lf_sampler lf rows ! i = pick (rows ! i))
     \<and> (\<forall>md rows. length rows = length (concat dss) \<longrightarrow> (\<forall>j < length (dss ! i).
          lf_argmax lf (lf_apply_sampling_constraints lf (ends dss) (lf_apply_logits_processors lf md rows) ! (start_of dss i + j))
            = pick (rows ! (start_of dss i + j))))"

lemma concat_length_mono:
  assumes "length xss = length yss" "\<And>i. i < length xss \<Longrightarrow> length (xss ! i) \<le> length (yss ! i)"
  shows "length (concat xss) \<le> length (concat yss)"
proof -
  have "list_all2 (\<le>) (map length xss) (map length yss)" using assms by (simp add: list_all2_conv_all_nth)
  then show ?thesis unfolding length_concat by (induction rule: list_all2_induct) auto
qed

lemma cells_nth:
  assumes "i < length xss" "pos < length (xss ! i)"
  shows "cells xss g ! (start_of xss i + pos) = g i pos"
proof -
  let ?rows = "map (\<lambda>i. map (g i) [0..<length (xss ! i)]) [0..<length xss]"
  have st: "start_of xss i = start_of ?rows i" by (rule start_of_lengths) simp_all
  have "concat ?rows ! (start_of ?rows i + pos) = ?rows ! i ! pos" by (rule concat_segment(2)) (use assms in simp_all)
  then show ?thesis unfolding cells_def st using assms by simp
qed

lemma metadata_choices:
  assumes d: "drafts_of tss dss" and i: "i < length dss"
    and target: "\<forall>j < length (dss ! i). ri_target_argmax ri ! (start_of dss i + j) = choice (int (start_of tss i + (first_sampled tss dss i + j)))"
    and bonus: "ri_bonus_token_ids ri ! i = choice (int (start_of tss i + (first_sampled tss dss i + length (dss ! i))))"
    and model: "\<forall>q < length (tss ! i). choice (int (start_of tss i + q)) = next (prev @ take (Suc q) (tss ! i))"
  shows "choices_of next (prev @ take (length (tss ! i) - length (dss ! i)) (tss ! i)) ri dss i"
proof -
  let ?c = "first_sampled tss dss i" and ?ctx = "prev @ take (length (tss ! i) - length (dss ! i)) (tss ! i)"
  obtain c where c: "c \<noteq> []" "tss ! i = c @ dss ! i" using d i by (auto simp: drafts_of_def)
  have f: "Suc (?c + j) = length c + j" for j using c by (cases c rule: rev_cases) simp_all
  have at_j: "choice (int (start_of tss i + (?c + j))) = next (?ctx @ take j (dss ! i))" if "j \<le> length (dss ! i)" for j
  proof -
    have "?c + j < length (tss ! i)" using f [of j] that c(2) by simp
    from model [rule_format, OF this] show ?thesis unfolding f using c(2) by simp
  qed
  show ?thesis unfolding choices_of_def bonus
    using at_j [of "length (dss ! i)"] at_j target by (simp del: of_nat_add)
qed

text \<open>A batch of two greedy requests of which the first has a draft refused, and its scheduled tokens.\<close>

definition greedy_batch :: "real rejection_inputs" where
  "greedy_batch = \<lparr>ri_draft_token_ids = [], ri_num_draft_tokens = [], ri_max_spec_len = 0, ri_cu_num_draft_tokens = [],
     ri_draft_probs = None, ri_target_argmax = [], ri_target_probs = [], ri_bonus_token_ids = [], ri_vocab_size = 10,
     ri_uniform_probs = [], ri_inv_q = [], ri_temperature = [], ri_all_greedy = True, ri_all_random = False\<rparr>"

text \<open>
  C14: Speculative decoding of a greedy request changes nothing but the speed: whatever its drafts and the other requests of the
  batch, computing where the drafts lie among the scheduled tokens, sampling the bonus tokens and the most likely target tokens from
  the rows of logits there, checking the drafts and parsing the result gives the tokens that decoding one at a time would, one
  token more than the drafts agree with. Sampler, logits processors and sampling constraints are parameters; they keep
  the number of rows, give tokens of the vocabulary, and for the greedy request pick by its row alone.
\<close>

theorem greedy_speculation_lossless:
  assumes d: "drafts_of tss dss" and K: "length (concat tss) \<le> K" and small: "\<forall>ds \<in> set dss. int (length ds) \<le> MAX_SPEC_LEN"
    and fl: "flags_ok dss rest" and dis: "\<forall>k \<in> set discard. k < length dss"
    and kept: "rows_kept lf (ri_vocab_size rest)"
    and i: "i < length dss" "i \<notin> set discard" "is_greedy_request rest i" and pick: "picks_greedily lf pick dss i"
    and model: "\<forall>q < length (tss ! i). pick (logit (int (start_of tss i + q))) = next (prev @ take (Suc q) (tss ! i))"
  shows "\<exists>outs. verify_drafts (map int [0..<K]) (concat tss @ pad) (lens dss) (ends tss) lf logit rest discard = Inr outs \<and> length outs = length dss
    \<and> (let ctx = prev @ take (length (tss ! i) - length (dss ! i)) (tss ! i)
       in outs ! i = decode next ctx (Suc (length (longest_common_prefix (dss ! i) (decode next ctx (length (dss ! i)))))))"
proof -
  let ?s = "sampled_of tss dss" and ?c = "first_sampled tss dss" and ?md = "metadata_of tss dss"
  let ?ch = "\<lambda>i j. logit (int (start_of tss i + (?c i + j)))"
  let ?bonus = "lf_sampler lf (map (\<lambda>i. ?ch i (length (dss ! i))) [0..<length dss])"
  let ?target = "lf_apply_sampling_constraints lf (ends dss) (lf_apply_logits_processors lf ?md (cells dss ?ch))"
  let ?ri = "rest\<lparr>ri_draft_token_ids := concat dss, ri_num_draft_tokens := lens dss, ri_max_spec_len := Max (set (lens dss)),
                ri_cu_num_draft_tokens := ends dss, ri_target_argmax := map (lf_argmax lf) ?target, ri_bonus_token_ids := ?bonus\<rparr>"
  let ?ctx = "prev @ take (length (tss ! i) - length (dss ! i)) (tss ! i)"
  note s = sampled_of_at [OF d]
  have t: "length tss = length dss" "dss \<noteq> []" using d by (simp_all add: drafts_of_def)
  have "length (concat ?s) \<le> length (concat tss)" by (rule concat_length_mono) (use s t drafts_of_at(1) [OF d] in simp_all)
  moreover have "length (concat dss) \<le> length (concat tss)" by (rule concat_length_mono) (use t drafts_of_at(1) [OF d] in \<open>simp_all add: Suc_leD\<close>)
  ultimately have md: "calc_spec_decode_metadata (map int [0..<K]) (concat tss @ pad) (lens dss) (ends tss) = Inr ?md"
    using K by (intro calc_metadata_ok [OF d]) simp_all
  have "Max (set (lens dss)) \<le> MAX_SPEC_LEN" using small t(2) by (subst Max_le_iff) auto
  note fwd = forward_inputs_ok [OF d this, of lf ?ch rest]
  have run: "verify_drafts (map int [0..<K]) (concat tss @ pad) (lens dss) (ends tss) lf logit rest discard = accepted_tokens ?ri discard"
    unfolding verify_drafts_def md bindR_simps spec_decode_metadata.simps cells_map fwd ..
  have len: "length ?target = length (concat dss)" "length ?bonus = length dss" using kept length_cells [of dss ?ch] by (simp_all add: rows_kept_def)
  have ok: "batch_ok dss ?ri" using len by (auto simp: batch_ok_def)
  have fl': "flags_ok dss ?ri" using fl by (simp add: flags_ok_def probs_ok_def scores_ok_def cong: option.case_cong)
  have ch': "choices_ok ?ri" using kept by (auto simp: choices_ok_def rows_kept_def)
  have bonus: "?bonus ! i = pick (?ch i (length (dss ! i)))" using pick i(1) by (simp add: picks_greedily_def)
  have target: "map (lf_argmax lf) ?target ! (start_of dss i + j) = pick (?ch i j)" if "j < length (dss ! i)" for j
    using pick that length_cells [of dss ?ch] len(1) concat_segment(1) [OF i(1) that]
    by (simp add: picks_greedily_def cells_nth [OF i(1)] del: of_nat_add)
  have "choices_of next ?ctx ?ri dss i"
    by (rule metadata_choices [where choice = "\<lambda>q. pick (logit q)", OF d i(1) _ _ model]) (use bonus target in simp_all)
  then show ?thesis unfolding run Let_def
    by (rule greedy_row_decoded [OF ok fl' ch' dis i(1,2), rotated]) (use i(3) in simp)
qed

text \<open>Rows of logits that are scores of ten tokens, sampled by their first maximum.\<close>

definition first_max :: "int list \<Rightarrow> int" where
  "first_max row = (if length row = 10 then int (length (takeWhile (\<lambda>x. x \<noteq> Max (set row)) row)) else 0)"

definition argmax_functions :: "int list logits_functions" where
  "argmax_functions = \<lparr>lf_sampler = map first_max, lf_apply_logits_processors = (\<lambda>_ rows. rows),
     lf_apply_sampling_constraints = (\<lambda>_ rows. rows), lf_argmax = first_max\<rparr>"

definition one_hot :: "int \<Rightarrow> int list" where
  "one_hot t = map (\<lambda>k. if int k = t then 1 else 0) [0..<10]"

lemma first_max_valid: "0 \<le> first_max row \<and> first_max row < 10"
proof (cases "length row = 10")
  case True
  then have "Max (set row) \<in> set row" by (intro Max_in) auto
  moreover have "length (takeWhile (\<lambda>x. x \<noteq> b) xs) < length xs" if "b \<in> set xs" for b :: int and xs
    using that by (induction xs) auto
  ultimately have "length (takeWhile (\<lambda>x. x \<noteq> Max (set row)) row) < length row" by blast
  then show ?thesis using True by (simp add: first_max_def)
qed (simp add: first_max_def)

theorem greedy_speculation_lossless_witness:
  "\<exists>outs. verify_drafts (map int [0..<20]) [7, 4, 5, 9, 2, 3] [2, 1] [4, 6] argmax_functions
       (\<lambda>k. one_hot ([0, 5, 0, 9, 3, 1] ! nat (k mod 6))) greedy_batch [] = Inr outs
    \<and> length outs = 2 \<and> outs ! 0 = [5, 0]"
proof -
  let ?next = "\<lambda>ctx. [0, 5, 0, 9, 3, 1] ! (length ctx - 1) :: int"
  let ?tss = "[[7, 4, 5, 9], [2, 3]] :: int list list" and ?dss = "[[5, 9], [3]] :: int list list"
  let ?logit = "\<lambda>k :: int. one_hot ([0, 5, 0, 9, 3, 1] ! nat (k mod 6))"
  have d: "drafts_of ?tss ?dss" by (simp add: drafts_of_def less_Suc_eq numeral_2_eq_2)
  have v: "rows_kept argmax_functions (ri_vocab_size greedy_batch)"
    using first_max_valid by (auto simp: rows_kept_def argmax_functions_def valid_token_def greedy_batch_def)
  have p: "picks_greedily argmax_functions first_max ?dss 0"
    by (simp add: picks_greedily_def argmax_functions_def)
  have hot: "first_max (one_hot 0) = 0" "first_max (one_hot 5) = 5" "first_max (one_hot 9) = 9" by code_simp+
  have "\<exists>outs. verify_drafts (map int [0..<20]) (concat ?tss @ []) (lens ?dss) (ends ?tss) argmax_functions ?logit greedy_batch [] = Inr outs
    \<and> length outs = length ?dss
    \<and> (let ctx = [] @ take (length (?tss ! 0) - length (?dss ! 0)) (?tss ! 0)
       in outs ! 0 = decode ?next ctx (Suc (length (longest_common_prefix (?dss ! 0) (decode ?next ctx (length (?dss ! 0)))))))"
    by (rule greedy_speculation_lossless [OF d _ _ _ _ v _ _ _ p])
      (simp_all add: flags_ok_def greedy_batch_def MAX_SPEC_LEN_def less_Suc_eq numeral_eq_Suc hot [unfolded numeral_eq_Suc])
  then show ?thesis by (simp add: upt_rec Let_def numeral_2_eq_2)
qed

end
