(* ===== verification/Online_Quant.thy ===== *)
theory Online_Quant
  imports Complex_Main Prelude
begin

text \<open>
  Online quantization of linear layers on gfx936 (\<open>vllm/model_executor/layers/gfx936_online_quant.py\<close>): which
  layers are quantized and how, packing of weights to 8 and 4 bits by rows or groups of 32, the reference code for
  rows, and the conversion of a layer with its cache of admission decisions. Floating-point operations are a
  parameter, and so is what the device does: the runtime test, loading the kernels, the timing of a
  candidate. Tensors are lists of rows. Log messages and the text of a decision's reason are left out.
\<close>

subsection \<open>Policy\<close>

datatype quant_mode = Mode_Off | Mode_W8 | Mode_Hybrid_W4

datatype quant_kind = W8 | W4

definition is_space :: "char \<Rightarrow> bool" where
  "is_space c \<longleftrightarrow> of_char c \<in> {9, 10, 11, 12, 13, 28, 29, 30, 31, 32, 133, 160 :: nat}"

definition lower :: "char \<Rightarrow> char" where
  "lower c = (let n = of_char c :: nat in if 65 \<le> n \<and> n \<le> 90 then char_of (n + 32) else c)"

definition strip :: "string \<Rightarrow> string" where
  "strip s = rev (dropWhile is_space (rev (dropWhile is_space s)))"

text \<open>\<open>env\<close> is the value of the environment variable, if it is set.\<close>

definition parse_quant_mode :: "string option \<Rightarrow> string option \<Rightarrow> quant_mode" where
  "parse_quant_mode env v =
     (let s = map lower (strip (case v of Some x \<Rightarrow> x | None \<Rightarrow> (case env of Some x \<Rightarrow> x | None \<Rightarrow> ''w8'')))
      in if s = ''w8'' then Mode_W8 else if s = ''hybrid_w4'' then Mode_Hybrid_W4 else Mode_Off)"

definition mode_name :: "quant_mode \<Rightarrow> string" where
  "mode_name m = (case m of Mode_Off \<Rightarrow> ''off'' | Mode_W8 \<Rightarrow> ''w8'' | Mode_Hybrid_W4 \<Rightarrow> ''hybrid_w4'')"

definition quant_shapes :: "(int \<times> int) list" where
  "quant_shapes = [(16384, 5120), (96, 5120), (14336, 5120), (5120, 6144), (34816, 5120), (5120, 17408)]"

definition w4_mlp_shapes :: "(int \<times> int) list" where
  "w4_mlp_shapes = [(34816, 5120), (5120, 17408)]"

definition is_quant_shape :: "int \<Rightarrow> int \<Rightarrow> bool" where
  "is_quant_shape m k \<longleftrightarrow> (m, k) \<in> set quant_shapes"

definition candidate_kinds :: "string \<Rightarrow> int \<Rightarrow> int \<Rightarrow> quant_kind list" where
  "candidate_kinds mode m k =
     (let p = parse_quant_mode None (Some mode)
      in if p = Mode_Off \<or> \<not> is_quant_shape m k then []
         else if p = Mode_Hybrid_W4 \<and> (m, k) \<in> set w4_mlp_shapes then [W4, W8]
         else [W8])"

subsection \<open>Admission\<close>

text \<open>
  Floating-point arithmetic, with one instance for Python's floats and one for tensors: \<open>f_lit\<close> a fraction, \<open>f_pos\<close> the
  test \<open>> 0\<close>, \<open>f_amax\<close> the greatest absolute value (0 for no values), \<open>f_scale x n\<close> is \<open>x / n\<close>, \<open>f_round x s\<close> is
  \<open>round(x / s)\<close>, which raises for a result that is not finite. \<open>f_quot x s\<close> is the rounded quotient on a tensor, \<open>None\<close> if it
  is not a number (an infinite one is some integer beyond every limit), and \<open>f_nan_int8\<close> what the conversion to
  8 bits makes of such a value. \<open>f_half\<close> is the conversion to 16 bits, \<open>f_times\<close> the product of a
  quantized value and a scale in the 16 bits of the result.
\<close>

record 'f float_ops =
  f_lit :: "int \<Rightarrow> int \<Rightarrow> 'f"
  f_le :: "'f \<Rightarrow> 'f \<Rightarrow> bool"
  f_pos :: "'f \<Rightarrow> bool"
  f_div :: "'f \<Rightarrow> 'f \<Rightarrow> 'f"
  f_finite :: "'f \<Rightarrow> bool"
  f_nan :: 'f
  f_amax :: "'f list \<Rightarrow> 'f"
  f_scale :: "'f \<Rightarrow> int \<Rightarrow> 'f"
  f_round :: "'f \<Rightarrow> 'f \<Rightarrow> int result"
  f_quot :: "'f \<Rightarrow> 'f \<Rightarrow> int option"
  f_nan_int8 :: int
  f_half :: "'f \<Rightarrow> 'f"
  f_times :: "int \<Rightarrow> 'f \<Rightarrow> 'f"

record 'f admission =
  ar_accepted :: bool
  ar_nrmse :: 'f
  ar_cosine :: 'f
  ar_baseline_ms :: 'f
  ar_candidate_ms :: 'f
  ar_speedup :: 'f

text \<open>Limits as fractions of a thousand.\<close>

definition admission_limits :: "'f float_ops \<Rightarrow> quant_kind \<Rightarrow> 'f \<times> 'f" where
  "admission_limits fo kind =
     (if kind = W4 then (f_lit fo 80 1000, f_lit fo 995 1000) else (f_lit fo 15 1000, f_lit fo 999 1000))"

definition evaluate_admission :: "'f float_ops \<Rightarrow> quant_kind \<Rightarrow> 'f \<Rightarrow> 'f \<Rightarrow> 'f \<Rightarrow> 'f \<Rightarrow> 'f admission" where
  "evaluate_admission fo kind nrmse cosine baseline_ms candidate_ms =
     (let (nrmse_limit, cosine_limit) = admission_limits fo kind;
          speedup = (if f_pos fo candidate_ms then f_div fo baseline_ms candidate_ms else f_lit fo 0 1000)
      in \<lparr>ar_accepted = f_finite fo nrmse \<and> f_finite fo cosine \<and> f_finite fo speedup \<and> f_le fo nrmse nrmse_limit
            \<and> f_le fo cosine_limit cosine \<and> f_le fo (f_lit fo 1100 1000) speedup,
          ar_nrmse = nrmse, ar_cosine = cosine, ar_baseline_ms = baseline_ms, ar_candidate_ms = candidate_ms,
          ar_speedup = speedup\<rparr>)"

definition conversion_error_result :: "'f float_ops \<Rightarrow> 'f admission" where
  "conversion_error_result fo =
     \<lparr>ar_accepted = False, ar_nrmse = f_nan fo, ar_cosine = f_nan fo, ar_baseline_ms = f_lit fo 0 1000,
      ar_candidate_ms = f_lit fo 0 1000, ar_speedup = f_lit fo 0 1000\<rparr>"

subsection \<open>Packing\<close>

fun chunk_loop :: "nat \<Rightarrow> nat \<Rightarrow> nat \<Rightarrow> nat \<Rightarrow> (nat \<times> nat) list" where
  "chunk_loop rows step start 0 = []"
| "chunk_loop rows step start (Suc n) =
     (if start < rows then (start, min rows (start + step)) # chunk_loop rows step (start + step) n else [])"

text \<open>\<open>range(0, rows, step)\<close> with a positive step has at most \<open>rows\<close> elements.\<close>

definition iter_row_chunks :: "int \<Rightarrow> int \<Rightarrow> int \<Rightarrow> (nat \<times> nat) list result" where
  "iter_row_chunks rows columns byte_limit =
     (if rows \<le> 0 \<or> columns \<le> 0 \<or> byte_limit \<le> 0 then Inl ValueError
      else Inr (chunk_loop (nat rows) (nat (max 1 (byte_limit div (columns * 2)))) 0 (nat rows)))"

definition pack_chunk_bytes :: int where
  "pack_chunk_bytes = 64 * 2 ^ 20"

definition row_scale :: "'f float_ops \<Rightarrow> int \<Rightarrow> 'f list \<Rightarrow> 'f" where
  "row_scale fo limit xs = (let m = f_amax fo xs in if f_pos fo m then f_scale fo m limit else f_lit fo 1000 1000)"

definition clamp :: "int \<Rightarrow> int \<Rightarrow> int" where
  "clamp limit q = max (- limit) (min limit q)"

definition quantized :: "'f float_ops \<Rightarrow> int \<Rightarrow> 'f list \<Rightarrow> int list" where
  "quantized fo limit xs =
     map (\<lambda>x. case f_quot fo x (row_scale fo limit xs) of Some q \<Rightarrow> clamp limit q | None \<Rightarrow> f_nan_int8 fo) xs"

text \<open>A row as \<open>n\<close> groups of \<open>g\<close> values.\<close>

fun groups_of :: "nat \<Rightarrow> nat \<Rightarrow> 'a list \<Rightarrow> 'a list list" where
  "groups_of g 0 xs = []"
| "groups_of g (Suc n) xs = take g xs # groups_of g n (drop g xs)"

unbundle bit_operations_syntax

definition nibbles :: "int \<Rightarrow> int \<Rightarrow> 8 word" where
  "nibbles a b = (word_of_int a AND 15) OR push_bit 4 (word_of_int b AND 15)"

fun pack_pairs :: "int list \<Rightarrow> 8 word list" where
  "pack_pairs (a # b # xs) = nibbles a b # pack_pairs xs"
| "pack_pairs _ = []"

definition w8_row :: "'f float_ops \<Rightarrow> 'f list \<Rightarrow> int list \<times> 'f" where
  "w8_row fo xs = (quantized fo 127 xs, row_scale fo 127 xs)"

definition w4_row :: "'f float_ops \<Rightarrow> 'f list \<Rightarrow> 8 word list \<times> 'f list" where
  "w4_row fo xs =
     (let gs = groups_of 32 (length xs div 32) xs
      in (pack_pairs (concat (map (quantized fo 7) gs)), map (\<lambda>g. f_half fo (row_scale fo 7 g)) gs))"

text \<open>The output tensors are filled chunk by chunk; \<open>None\<close> is a row that was never written.\<close>

definition fill_chunk :: "('a \<Rightarrow> 'b option) \<Rightarrow> 'a list \<Rightarrow> nat \<times> nat \<Rightarrow> 'b option list \<Rightarrow> 'b option list" where
  "fill_chunk f rows c out = take (fst c) out @ map f (drop (fst c) (take (snd c) rows)) @ drop (snd c) out"

definition fill_rows :: "('a \<Rightarrow> 'b option) \<Rightarrow> int \<Rightarrow> int \<Rightarrow> 'a list \<Rightarrow> 'b option list result" where
  "fill_rows f m k rows =
     bindR (iter_row_chunks m k pack_chunk_bytes) (\<lambda>cs. Inr (fold (fill_chunk f rows) cs (replicate (nat m) None)))"

definition pack_w8 :: "'f float_ops \<Rightarrow> int \<Rightarrow> int \<Rightarrow> 'f list list \<Rightarrow> (int list \<times> 'f) option list result" where
  "pack_w8 fo m k rows = fill_rows (\<lambda>row. Some (w8_row fo row)) m k rows"

definition pack_w4 :: "'f float_ops \<Rightarrow> int \<Rightarrow> int \<Rightarrow> 'f list list \<Rightarrow> (8 word list \<times> 'f list) option list result" where
  "pack_w4 fo m k rows = (if k mod 32 \<noteq> 0 then Inl ValueError else fill_rows (\<lambda>row. Some (w4_row fo row)) m k rows)"

text \<open>The nibbles of a byte as signed values, and the reference reconstruction of a row.\<close>

definition nibble_value :: "8 word \<Rightarrow> int" where
  "nibble_value w = (let n = uint w in if n \<ge> 8 then n - 16 else n)"

definition unpack_bytes :: "8 word list \<Rightarrow> int list" where
  "unpack_bytes bs = concat (map (\<lambda>b. [nibble_value (b AND 15), nibble_value (drop_bit 4 b)]) bs)"

definition dequant_w8_row :: "'f float_ops \<Rightarrow> int list \<times> 'f \<Rightarrow> 'f list" where
  "dequant_w8_row fo r = map (\<lambda>q. f_times fo q (snd r)) (fst r)"

definition dequant_w4_row :: "'f float_ops \<Rightarrow> 8 word list \<times> 'f list \<Rightarrow> 'f list" where
  "dequant_w4_row fo r =
     map (\<lambda>(q, s). f_times fo q s) (zip (unpack_bytes (fst r)) (concat (map (replicate 32) (snd r))))"

subsection \<open>Reference code for rows\<close>

fun quantize_values :: "'f float_ops \<Rightarrow> int \<Rightarrow> 'f \<Rightarrow> 'f list \<Rightarrow> int list result" where
  "quantize_values fo limit scale [] = Inr []"
| "quantize_values fo limit scale (x # xs) =
     bindR (f_round fo x scale) (\<lambda>q.
     bindR (quantize_values fo limit scale xs) (\<lambda>qs. Inr (clamp limit q # qs)))"

definition symmetric_quantize :: "'f float_ops \<Rightarrow> 'f list \<Rightarrow> int \<Rightarrow> (int list \<times> 'f) result" where
  "symmetric_quantize fo xs limit =
     (let scale = row_scale fo limit xs in bindR (quantize_values fo limit scale xs) (\<lambda>qs. Inr (qs, scale)))"

definition quantize_row_w8_reference :: "'f float_ops \<Rightarrow> 'f list \<Rightarrow> (int list \<times> 'f) result" where
  "quantize_row_w8_reference fo xs = (if xs = [] then Inl ValueError else symmetric_quantize fo xs 127)"

text \<open>Pairs of a group: with an odd group size the last one has no second value.\<close>

fun pair_bytes :: "int list \<Rightarrow> 8 word list result" where
  "pair_bytes [] = Inr []"
| "pair_bytes [a] = Inl IndexError"
| "pair_bytes (a # b # xs) = bindR (pair_bytes xs) (\<lambda>bs. Inr (nibbles a b # bs))"

fun w4_groups :: "'f float_ops \<Rightarrow> 'f list list \<Rightarrow> (8 word list \<times> 'f list) result" where
  "w4_groups fo [] = Inr ([], [])"
| "w4_groups fo (g # gs) =
     bindR (symmetric_quantize fo g 7) (\<lambda>(qs, scale).
     bindR (pair_bytes qs) (\<lambda>bs.
     bindR (w4_groups fo gs) (\<lambda>(bs', scales). Inr (bs @ bs', scale # scales))))"

definition quantize_group_w4_reference :: "'f float_ops \<Rightarrow> 'f list \<Rightarrow> int \<Rightarrow> (8 word list \<times> 'f list) result" where
  "quantize_group_w4_reference fo xs group_size =
     (if group_size \<le> 0 \<or> xs = [] \<or> int (length xs) mod group_size \<noteq> 0 then Inl ValueError
      else w4_groups fo (groups_of (nat group_size) (length xs div nat group_size) xs))"

definition unpack_group_w4_reference :: "8 word list \<Rightarrow> int \<Rightarrow> int list result" where
  "unpack_group_w4_reference bs value_count =
     (if value_count < 0 \<or> value_count mod 2 \<noteq> 0 \<or> int (length bs) * 2 \<noteq> value_count then Inl ValueError
      else Inr (unpack_bytes bs))"

subsection \<open>Converting a layer\<close>

text \<open>
  A weight is its shape and its rows; \<open>wt_suitable\<close> says that it is a contiguous matrix of 16-bit floats on the device. A
  layer is a module of torch: named parameters, named buffers with the set of those that are not saved, and the attributes
  in its dictionary, of which the four the conversion sets are modelled (\<open>True\<close> is the integer 1).
\<close>

record 'f weight =
  wt_shape :: "int \<times> int"
  wt_rows :: "'f list list"
  wt_suitable :: bool

datatype 'f packed = Packed_W8 "(int list \<times> 'f) option list" | Packed_W4 "(8 word list \<times> 'f list) option list"

text \<open>The two tensors of a packed weight.\<close>

datatype 'f buffer =
    Float_Buffer "'f weight"
  | W8_Values "int list option list"
  | W8_Scales "'f option list"
  | W4_Values "8 word list option list"
  | W4_Scales "'f list option list"

definition packed_tensor :: "'f packed \<Rightarrow> 'f buffer" where
  "packed_tensor p = (case p of Packed_W8 rows \<Rightarrow> W8_Values (map (map_option fst) rows) | Packed_W4 rows \<Rightarrow> W4_Values (map (map_option fst) rows))"

definition scale_tensor :: "'f packed \<Rightarrow> 'f buffer" where
  "scale_tensor p = (case p of Packed_W8 rows \<Rightarrow> W8_Scales (map (map_option snd) rows) | Packed_W4 rows \<Rightarrow> W4_Scales (map (map_option snd) rows))"

record 'f layer =
  ly_parameters :: "(string \<times> 'f weight) list"
  ly_buffers :: "(string \<times> 'f buffer) list"
  ly_non_persistent :: "string set"
  ly_dict :: "(string \<times> int) list"
  ly_has_bias :: bool

text \<open>
  What the device and the process do: the environment variable, the runtime test, loading the kernel library, an
  error while packing, the measurements of a candidate (error, cosine and the two times), and errors
  of torch while a buffer is registered or an attribute is set.
\<close>

record 'f quant_env =
  qe_mode_var :: "string option"
  qe_is_gfx936 :: "bool result"
  qe_load_kernels :: "unit result"
  qe_pack_fault :: "quant_kind \<Rightarrow> 'f weight \<Rightarrow> py_error option"
  qe_measure :: "quant_kind \<Rightarrow> 'f weight \<Rightarrow> 'f packed \<Rightarrow> ('f \<times> 'f \<times> 'f \<times> 'f) result"
  qe_register_fault :: "string \<Rightarrow> 'f buffer \<Rightarrow> py_error option"
  qe_set_fault :: "string \<Rightarrow> py_error option"

record 'f quant_state =
  qs_admission_cache :: "((int \<times> int \<times> quant_kind) \<times> 'f admission) list"
  qs_active_layer_count :: int

definition is_gfx936_quantized_layer :: "'f layer \<Rightarrow> bool" where
  "is_gfx936_quantized_layer ly \<longleftrightarrow> (case map_of (ly_dict ly) ''_fdu_gfx936_quantized'' of None \<Rightarrow> False | Some v \<Rightarrow> v \<noteq> 0)"

text \<open>The attribute \<open>weight\<close> of a module is a parameter or a buffer.\<close>

definition layer_weight :: "'f layer \<Rightarrow> 'f weight option" where
  "layer_weight ly =
     (case map_of (ly_parameters ly) ''weight'' of
        Some w \<Rightarrow> Some w
      | None \<Rightarrow> (case map_of (ly_buffers ly) ''weight'' of Some (Float_Buffer w) \<Rightarrow> Some w | _ \<Rightarrow> None))"

definition pack_weight :: "'f float_ops \<Rightarrow> 'f quant_env \<Rightarrow> quant_kind \<Rightarrow> 'f weight \<Rightarrow> 'f packed result" where
  "pack_weight fo env kind w =
     (case qe_pack_fault env kind w of
        Some e \<Rightarrow> Inl e
      | None \<Rightarrow>
          if kind = W4 then bindR (pack_w4 fo (fst (wt_shape w)) (snd (wt_shape w)) (wt_rows w)) (\<lambda>p. Inr (Packed_W4 p))
          else bindR (pack_w8 fo (fst (wt_shape w)) (snd (wt_shape w)) (wt_rows w)) (\<lambda>p. Inr (Packed_W8 p)))"

definition benchmark_candidate ::
  "'f float_ops \<Rightarrow> 'f quant_env \<Rightarrow> 'f weight \<Rightarrow> 'f packed \<Rightarrow> quant_kind \<Rightarrow> 'f admission result" where
  "benchmark_candidate fo env w packed kind =
     bindR (qe_measure env kind w packed) (\<lambda>(nrmse, cosine, baseline_ms, candidate_ms).
       Inr (evaluate_admission fo kind nrmse cosine baseline_ms candidate_ms))"

text \<open>Statements in order; the first that raises leaves what the ones before it did.\<close>

fun run_steps :: "('l \<Rightarrow> 'l result) list \<Rightarrow> 'l \<Rightarrow> py_error option \<times> 'l" where
  "run_steps [] l = (None, l)"
| "run_steps (f # fs) l = (case f l of Inl e \<Rightarrow> (Some e, l) | Inr l' \<Rightarrow> run_steps fs l')"

definition register_buffer :: "'f quant_env \<Rightarrow> string \<Rightarrow> 'f buffer \<Rightarrow> 'f layer \<Rightarrow> 'f layer result" where
  "register_buffer env name b ly =
     (case qe_register_fault env name b of
        Some e \<Rightarrow> Inl e
      | None \<Rightarrow>
          if map_of (ly_buffers ly) name = None \<and> (map_of (ly_parameters ly) name \<noteq> None \<or> map_of (ly_dict ly) name \<noteq> None) then Inl KeyError
          else Inr (ly\<lparr>ly_buffers := AList.update name b (ly_buffers ly), ly_non_persistent := insert name (ly_non_persistent ly)\<rparr>))"

definition set_attribute :: "'f quant_env \<Rightarrow> string \<Rightarrow> int \<Rightarrow> 'f layer \<Rightarrow> 'f layer result" where
  "set_attribute env name v ly =
     (case qe_set_fault env name of Some e \<Rightarrow> Inl e | None \<Rightarrow> Inr (ly\<lparr>ly_dict := AList.update name v (ly_dict ly)\<rparr>))"

definition kind_code :: "quant_kind \<Rightarrow> int" where
  "kind_code kind = (if kind = W4 then 4 else 8)"

definition install_steps :: "'f quant_env \<Rightarrow> 'f packed \<Rightarrow> quant_kind \<Rightarrow> int \<Rightarrow> int \<Rightarrow> ('f layer \<Rightarrow> 'f layer result) list" where
  "install_steps env packed kind m k =
     [register_buffer env ''weight'' (packed_tensor packed), register_buffer env ''gfx936_scale'' (scale_tensor packed),
      set_attribute env ''_fdu_gfx936_quantized'' 1, set_attribute env ''_fdu_gfx936_quant_kind'' (kind_code kind),
      set_attribute env ''_fdu_gfx936_quant_m'' m, set_attribute env ''_fdu_gfx936_quant_k'' k]"

text \<open>The \<open>except\<close> branch.\<close>

definition rollback_install :: "'f weight \<Rightarrow> 'f layer \<Rightarrow> 'f layer" where
  "rollback_install original_parameter ly =
     ly\<lparr>ly_buffers := AList.delete ''gfx936_scale'' (AList.delete ''weight'' (ly_buffers ly)),
        ly_non_persistent := ly_non_persistent ly - {''weight''} - {''gfx936_scale''},
        ly_dict := fold AList.delete [''_fdu_gfx936_quantized'', ''_fdu_gfx936_quant_kind'', ''_fdu_gfx936_quant_m'', ''_fdu_gfx936_quant_k''] (ly_dict ly),
        ly_parameters := AList.update ''weight'' original_parameter (ly_parameters ly)\<rparr>"

text \<open>The error, if one is raised, and what the layer and the counter are then.\<close>

definition install_quantized_weight ::
  "'f quant_env \<Rightarrow> 'f packed \<Rightarrow> quant_kind \<Rightarrow> int \<Rightarrow> int \<Rightarrow> 'f layer \<Rightarrow> 'f quant_state \<Rightarrow> py_error option \<times> 'f layer \<times> 'f quant_state" where
  "install_quantized_weight env packed kind m k ly st =
     (case map_of (ly_parameters ly) ''weight'' of
        None \<Rightarrow> (Some KeyError, ly, st)
      | Some original_parameter \<Rightarrow>
          (case run_steps (install_steps env packed kind m k) (ly\<lparr>ly_parameters := AList.delete ''weight'' (ly_parameters ly)\<rparr>) of
             (Some e, ly') \<Rightarrow> (Some e, rollback_install original_parameter ly', st)
           | (None, ly') \<Rightarrow> (None, ly', st\<lparr>qs_active_layer_count := qs_active_layer_count st + 1\<rparr>)))"

definition put_decision :: "int \<times> int \<times> quant_kind \<Rightarrow> 'f admission \<Rightarrow> 'f quant_state \<Rightarrow> 'f quant_state" where
  "put_decision key d st = st\<lparr>qs_admission_cache := AList.update key d (qs_admission_cache st)\<rparr>"

text \<open>
  The decision on a candidate: the one in the cache, or that of a new measurement, which is put there.
\<close>

definition decide_kind ::
  "'f float_ops \<Rightarrow> 'f quant_env \<Rightarrow> 'f weight \<Rightarrow> 'f packed \<Rightarrow> int \<Rightarrow> int \<Rightarrow> quant_kind \<Rightarrow> 'f admission option \<Rightarrow> 'f quant_state
   \<Rightarrow> ('f admission \<times> 'f quant_state) result" where
  "decide_kind fo env w packed m k kind cached st =
     (case cached of
        Some d \<Rightarrow> Inr (d, st)
      | None \<Rightarrow> bindR (benchmark_candidate fo env w packed kind) (\<lambda>d. Inr (d, put_decision (m, k, kind) d st)))"

text \<open>
  One candidate kind: the statements that can raise are \<open>attempt_kind\<close>, which returns the layer and the state as they are
  when an error is raised; otherwise the flag says whether the layer was converted.
\<close>

definition attempt_kind ::
  "'f float_ops \<Rightarrow> 'f quant_env \<Rightarrow> 'f weight \<Rightarrow> int \<Rightarrow> int \<Rightarrow> quant_kind \<Rightarrow> 'f admission option \<Rightarrow> 'f layer \<Rightarrow> 'f quant_state
   \<Rightarrow> bool result \<times> 'f layer \<times> 'f quant_state" where
  "attempt_kind fo env w m k kind cached ly st =
     (case pack_weight fo env kind w of
        Inl e \<Rightarrow> (Inl e, ly, st)
      | Inr packed \<Rightarrow>
          (case decide_kind fo env w packed m k kind cached st of
             Inl e \<Rightarrow> (Inl e, ly, st)
           | Inr (d, st1) \<Rightarrow>
               if \<not> ar_accepted d then (Inr False, ly, st1)
               else (case install_quantized_weight env packed kind m k ly st1 of
                       (Some e, ly', st2) \<Rightarrow> (Inl e, ly', st2)
                     | (None, ly', st2) \<Rightarrow> (Inr True, ly', st2))))"

definition try_kind ::
  "'f float_ops \<Rightarrow> 'f quant_env \<Rightarrow> 'f weight \<Rightarrow> int \<Rightarrow> int \<Rightarrow> quant_kind \<Rightarrow> 'f layer \<Rightarrow> 'f quant_state \<Rightarrow> bool \<times> 'f layer \<times> 'f quant_state" where
  "try_kind fo env w m k kind ly st =
     (let cached = map_of (qs_admission_cache st) (m, k, kind)
      in if cached \<noteq> None \<and> \<not> ar_accepted (the cached) then (False, ly, st)
         else case attempt_kind fo env w m k kind cached ly st of
                (Inl e, ly', st') \<Rightarrow> (False, ly', put_decision (m, k, kind) (conversion_error_result fo) st')
              | (Inr r, ly', st') \<Rightarrow> (r, ly', st'))"

fun try_kinds ::
  "'f float_ops \<Rightarrow> 'f quant_env \<Rightarrow> 'f weight \<Rightarrow> int \<Rightarrow> int \<Rightarrow> quant_kind list \<Rightarrow> 'f layer \<Rightarrow> 'f quant_state \<Rightarrow> 'f layer \<times> 'f quant_state" where
  "try_kinds fo env w m k [] ly st = (ly, st)"
| "try_kinds fo env w m k (kind # kinds) ly st =
     (case try_kind fo env w m k kind ly st of
        (True, ly', st') \<Rightarrow> (ly', st')
      | (False, ly', st') \<Rightarrow> try_kinds fo env w m k kinds ly' st')"

text \<open>Whether the layer can be converted at all; any error on the way counts as no.\<close>

definition eligible_weight :: "'f quant_env \<Rightarrow> 'f layer \<Rightarrow> 'f weight option" where
  "eligible_weight env ly =
     (case (qe_is_gfx936 env, qe_load_kernels env, layer_weight ly) of
        (Inr True, Inr _, Some w) \<Rightarrow>
          if wt_suitable w \<and> \<not> ly_has_bias ly \<and> is_quant_shape (fst (wt_shape w)) (snd (wt_shape w)) then Some w else None
      | _ \<Rightarrow> None)"

definition maybe_quantize_layer ::
  "'f float_ops \<Rightarrow> 'f quant_env \<Rightarrow> 'f layer \<Rightarrow> 'f quant_state \<Rightarrow> 'f layer \<times> 'f quant_state" where
  "maybe_quantize_layer fo env ly st =
     (let mode = parse_quant_mode (qe_mode_var env) None
      in if is_gfx936_quantized_layer ly \<or> mode = Mode_Off then (ly, st)
         else
           case eligible_weight env ly of
             None \<Rightarrow> (ly, st)
           | Some w \<Rightarrow>
               let (m, k) = wt_shape w
               in try_kinds fo env w m k (candidate_kinds (mode_name mode) m k) ly st)"

definition online_quantization_active :: "'f quant_state \<Rightarrow> bool" where
  "online_quantization_active st \<longleftrightarrow> qs_active_layer_count st > 0"

definition require_online_quantization :: "'f quant_env \<Rightarrow> 'f quant_state \<Rightarrow> unit result" where
  "require_online_quantization env st =
     (if parse_quant_mode (qe_mode_var env) None = Mode_Off then Inr ()
      else bindR (qe_is_gfx936 env) (\<lambda>gfx.
             if \<not> gfx \<or> online_quantization_active st then Inr () else Inl RuntimeError))"

subsection \<open>Applying a converted layer\<close>

text \<open>
  The kernels and the matrix product are parameters: \<open>lk_gemv\<close> and \<open>lk_dequant\<close> raise what loading the library or a call
  raises, or give the tensor and the status of the call; \<open>lk_linear\<close> is \<open>functional.linear\<close>, \<open>lk_add\<close> adds the bias.
  The flag returned with a result is the one of the warning that is given once.
\<close>

record ('f, 'x, 'y) linear_kernels =
  lk_numel :: "'x \<Rightarrow> int"
  lk_one_row :: "'x \<Rightarrow> int \<Rightarrow> bool result"
  lk_gemv :: "quant_kind \<Rightarrow> 'x \<Rightarrow> 'f packed \<Rightarrow> ('y \<times> int) result"
  lk_dequant :: "quant_kind \<Rightarrow> 'f packed \<Rightarrow> ('f list option list \<times> int) result"
  lk_linear :: "'x \<Rightarrow> 'f list option list \<Rightarrow> 'y option \<Rightarrow> 'y result"
  lk_add :: "'y \<Rightarrow> 'y \<Rightarrow> 'y result"

definition check_status :: "'a \<times> int \<Rightarrow> 'a result" where
  "check_status r = (if snd r \<noteq> 0 then Inl RuntimeError else Inr (fst r))"

definition run_quant_gemv ::
  "('f, 'x, 'y) linear_kernels \<Rightarrow> 'x \<Rightarrow> 'f packed \<Rightarrow> quant_kind \<Rightarrow> int \<Rightarrow> 'y result" where
  "run_quant_gemv lk x packed kind k =
     bindR (lk_one_row lk x k) (\<lambda>one.
       if \<not> one then Inl ValueError else bindR (lk_gemv lk kind x packed) check_status)"

definition dequantize_weight_reference :: "'f float_ops \<Rightarrow> 'f packed \<Rightarrow> int \<Rightarrow> int \<Rightarrow> 'f list option list result" where
  "dequantize_weight_reference fo packed m k =
     (case packed of
        Packed_W8 rows \<Rightarrow> fill_rows (map_option (dequant_w8_row fo)) m k rows
      | Packed_W4 rows \<Rightarrow> fill_rows (map_option (dequant_w4_row fo)) m k rows)"

definition fallback_error :: "py_error \<Rightarrow> bool" where
  "fallback_error e \<longleftrightarrow> e = OSError \<or> e = RuntimeError"

definition reconstruct_bf16_weight ::
  "'f float_ops \<Rightarrow> ('f, 'x, 'y) linear_kernels \<Rightarrow> 'f packed \<Rightarrow> quant_kind \<Rightarrow> int \<Rightarrow> int \<Rightarrow> bool \<Rightarrow> 'f list option list result \<times> bool" where
  "reconstruct_bf16_weight fo lk packed kind m k warned =
     (case bindR (lk_dequant lk kind packed) check_status of
        Inr w \<Rightarrow> (Inr w, warned)
      | Inl e \<Rightarrow> if fallback_error e then (dequantize_weight_reference fo packed m k, True) else (Inl e, warned))"

definition linear_reconstructed ::
  "'f float_ops \<Rightarrow> ('f, 'x, 'y) linear_kernels \<Rightarrow> 'x \<Rightarrow> 'f packed \<Rightarrow> quant_kind \<Rightarrow> int \<Rightarrow> int \<Rightarrow> 'y option \<Rightarrow> bool \<Rightarrow> 'y result \<times> bool" where
  "linear_reconstructed fo lk x packed kind m k bias warned =
     (case reconstruct_bf16_weight fo lk packed kind m k warned of
        (r, warned') \<Rightarrow> (bindR r (\<lambda>w. lk_linear lk x w bias), warned'))"

definition quant_linear_impl ::
  "'f float_ops \<Rightarrow> ('f, 'x, 'y) linear_kernels \<Rightarrow> 'x \<Rightarrow> 'f packed \<Rightarrow> quant_kind \<Rightarrow> int \<Rightarrow> int \<Rightarrow> 'y option \<Rightarrow> bool \<Rightarrow> 'y result \<times> bool" where
  "quant_linear_impl fo lk x packed kind m k bias warned =
     (if k = 0 then (Inl ZeroDivisionError, warned)
      else if lk_numel lk x div k = 1 then
        case bindR (run_quant_gemv lk x packed kind k) (\<lambda>y. case bias of None \<Rightarrow> Inr y | Some b \<Rightarrow> lk_add lk y b) of
          Inr y \<Rightarrow> (Inr y, warned)
        | Inl e \<Rightarrow> if fallback_error e then linear_reconstructed fo lk x packed kind m k bias True else (Inl e, warned)
      else linear_reconstructed fo lk x packed kind m k bias warned)"

subsection \<open>Chunks\<close>

lemma fill_chunk_extends:
  assumes "length out = length rows" "start \<le> e" "e \<le> length rows" "rest = drop e rows"
  shows "length (fill_chunk f rows (start, e) out) = length rows"
    "take e (fill_chunk f rows (start, e) out) @ map f rest = take start out @ map f (drop start rows)"
proof -
  have "drop start (take e rows) @ drop e rows = drop start rows"
    using assms(2) by (metis append_take_drop_id drop_append drop_drop le_add_diff_inverse2 add.commute length_take min.absorb2 drop_take take_drop)
  then show "take e (fill_chunk f rows (start, e) out) @ map f rest = take start out @ map f (drop start rows)"
    using assms by (simp add: fill_chunk_def min_def flip: map_append)
  show "length (fill_chunk f rows (start, e) out) = length rows" using assms by (simp add: fill_chunk_def)
qed

lemma fill_chunks:
  assumes "length out = length rows" "0 < step" "length rows \<le> start + n"
  shows "fold (fill_chunk f rows) (chunk_loop (length rows) step start n) out = take start out @ map f (drop start rows)"
  using assms
proof (induction n arbitrary: start out)
  case (Suc n)
  show ?case
  proof (cases "start < length rows")
    case True
    let ?e = "min (length rows) (start + step)"
    let ?out = "fill_chunk f rows (start, ?e) out"
    have rest: "drop (start + step) rows = drop ?e rows" by (simp add: min_def)
    note ext = fill_chunk_extends [OF Suc.prems(1) _ _ rest, of start f]
    have len: "length ?out = length rows" using ext(1) True by simp
    have "fold (fill_chunk f rows) (chunk_loop (length rows) step (start + step) n) ?out = take (start + step) ?out @ map f (drop (start + step) rows)"
      using Suc.IH [OF len] Suc.prems by simp
    moreover have "take (start + step) ?out = take ?e ?out" by (metis len min.commute order.refl take_all take_take)
    ultimately show ?thesis using ext(2) True by simp
  next
    case False
    then show ?thesis using Suc.prems by simp
  qed
qed simp

text \<open>Working in chunks changes nothing: every row is written, from the row of the same number.\<close>

lemma fill_rows_all:
  assumes "rows \<noteq> []" "0 < k" "m = int (length rows)"
  shows "fill_rows f m k rows = Inr (map f rows)"
proof -
  have "0 < nat (max 1 (pack_chunk_bytes div (k * 2)))" by simp
  from fill_chunks [OF _ this, of "replicate (length rows) None" rows 0 "length rows" f] show ?thesis
    using assms by (simp add: fill_rows_def iter_row_chunks_def pack_chunk_bytes_def)
qed

subsection \<open>Nibbles\<close>

lemma fifteen_mask: "(15 :: 8 word) = mask 4"
  by (simp add: mask_eq_exp_minus_1)

lemma low_nibble: "nibbles a b AND 15 = take_bit 4 (word_of_int a)"
  by (rule bit_word_eqI) (auto simp: nibbles_def fifteen_mask bit_simps)

lemma high_nibble: "drop_bit 4 (nibbles a b) = take_bit 4 (word_of_int b)"
  by (rule bit_word_eqI) (auto simp: nibbles_def fifteen_mask bit_simps)

lemma nibble_value_take_bit:
  assumes "a \<in> {-8..7}"
  shows "nibble_value (take_bit 4 (word_of_int a)) = a"
proof -
  have "uint (take_bit 4 (word_of_int a) :: 8 word) = take_bit 4 a"
    by (simp add: unsigned_take_bit_eq uint_word_of_int_eq)
  then have "uint (take_bit 4 (word_of_int a) :: 8 word) = a mod 16" by (simp add: take_bit_eq_mod)
  moreover have "a mod 16 = (if a < 0 then a + 16 else a)" using assms by auto presburger
  ultimately show ?thesis using assms by (simp add: nibble_value_def Let_def)
qed

lemma nibble_roundtrip:
  assumes "a \<in> {-8..7}" "b \<in> {-8..7}"
  shows "nibble_value (nibbles a b AND 15) = a" "nibble_value (drop_bit 4 (nibbles a b)) = b"
  using assms by (simp_all add: low_nibble high_nibble nibble_value_take_bit)

lemma unpack_pack_pairs:
  "even (length qs) \<Longrightarrow> set qs \<subseteq> {-8..7} \<Longrightarrow> unpack_bytes (pack_pairs qs) = qs \<and> length (pack_pairs qs) = length qs div 2"
  by (induction qs rule: pack_pairs.induct) (simp_all add: unpack_bytes_def nibble_roundtrip)

lemma pair_bytes_even: "even (length qs) \<Longrightarrow> pair_bytes qs = Inr (pack_pairs qs)"
  by (induction qs rule: pack_pairs.induct) simp_all

lemma groups_of_concat: "concat (groups_of g n xs) = take (g * n) xs"
  by (induction n arbitrary: xs) (simp_all add: take_add)

lemma groups_of_lengths: "g * n \<le> length xs \<Longrightarrow> x \<in> set (groups_of g n xs) \<Longrightarrow> length x = g"
proof (induction n arbitrary: xs)
  case (Suc n)
  then have "g * n \<le> length (drop g xs)" by simp
  then show ?case using Suc.IH [of "drop g xs"] Suc.prems by auto
qed simp

lemma length_groups_of [simp]: "length (groups_of g n xs) = n"
  by (induction n arbitrary: xs) auto

lemma clamp_range: "0 \<le> limit \<Longrightarrow> - limit \<le> clamp limit q \<and> clamp limit q \<le> limit"
  by (auto simp: clamp_def)

text \<open>What every value of a row or group becomes when no quotient is undefined.\<close>

definition defined_quotients :: "'f float_ops \<Rightarrow> int \<Rightarrow> 'f list \<Rightarrow> bool" where
  "defined_quotients fo limit xs \<longleftrightarrow> list_all (\<lambda>x. f_quot fo x (row_scale fo limit xs) \<noteq> None) xs"

definition code_of :: "'f float_ops \<Rightarrow> int \<Rightarrow> 'f list \<Rightarrow> 'f \<Rightarrow> int" where
  "code_of fo limit xs x = clamp limit (the (f_quot fo x (row_scale fo limit xs)))"

lemma quantized_defined:
  assumes "defined_quotients fo limit xs"
  shows "quantized fo limit xs = map (code_of fo limit xs) xs"
  using assms by (auto simp: quantized_def code_of_def defined_quotients_def list_all_iff split: option.split)

lemma code_of_range: "0 \<le> limit \<Longrightarrow> code_of fo limit xs x \<in> {- limit..limit}"
  using clamp_range by (simp add: code_of_def)

lemma zip_groups:
  assumes "list_all (\<lambda>g. length (q g) = n) gs"
  shows "zip (concat (map q gs)) (concat (map (\<lambda>g. replicate n (s g)) gs)) = concat (map (\<lambda>g. map (\<lambda>x. (x, s g)) (q g)) gs)"
  using assms
proof (induction gs)
  case (Cons g gs)
  have "zip (q g) (replicate n (s g)) = map (\<lambda>x. (x, s g)) (q g)"
    by (rule nth_equalityI) (use Cons.prems in simp_all)
  then show ?case using Cons by simp
qed simp

subsection \<open>Packing and reconstruction\<close>

definition w4_groups_of :: "'f list \<Rightarrow> 'f list list" where
  "w4_groups_of row = groups_of 32 (length row div 32) row"

text \<open>The reconstruction of a group: every value is its code times the rounded scale of the group.\<close>

definition w4_group_values :: "'f float_ops \<Rightarrow> 'f list \<Rightarrow> 'f list" where
  "w4_group_values fo g = map (\<lambda>x. f_times fo (code_of fo 7 g x) (f_half fo (row_scale fo 7 g))) g"

lemma w4_row_unpacked:
  assumes "32 dvd length row" "list_all (defined_quotients fo 7) (w4_groups_of row)"
  shows "unpack_bytes (fst (w4_row fo row)) = concat (map (\<lambda>g. map (code_of fo 7 g) g) (w4_groups_of row))"
    "length (fst (w4_row fo row)) = length row div 2"
    "length (snd (w4_row fo row)) = length row div 32"
    "dequant_w4_row fo (w4_row fo row) = concat (map (w4_group_values fo) (w4_groups_of row))"
proof -
  let ?gs = "w4_groups_of row"
  let ?qs = "concat (map (\<lambda>g. map (code_of fo 7 g) g) ?gs)"
  have len: "list_all (\<lambda>g. length g = 32) ?gs"
    unfolding list_all_iff w4_groups_of_def using groups_of_lengths [OF times_div_less_eq_dividend] by blast
  have q: "concat (map (quantized fo 7) ?gs) = ?qs"
    using assms(2) by (auto simp: list_all_iff quantized_defined intro!: arg_cong [where f = concat])
  have lenq: "length ?qs = length row"
  proof -
    have "length ?qs = length (concat ?gs)" by (simp add: length_concat comp_def)
    also have "concat ?gs = row" using assms(1) by (simp add: w4_groups_of_def groups_of_concat)
    finally show ?thesis .
  qed
  have "code_of fo 7 g x \<in> {-8..7}" for g x using code_of_range [of 7 fo g x] by simp
  then have range: "set ?qs \<subseteq> {-8..7}" by (simp add: UN_subset_iff image_subset_iff)
  have ev: "even (length ?qs)" using assms(1) lenq by (metis dvd_trans even_numeral)
  have fst_row: "fst (w4_row fo row) = pack_pairs ?qs" using q by (simp add: w4_row_def Let_def flip: w4_groups_of_def)
  have snd_row: "snd (w4_row fo row) = map (\<lambda>g. f_half fo (row_scale fo 7 g)) ?gs"
    by (simp add: w4_row_def Let_def w4_groups_of_def)
  show up: "unpack_bytes (fst (w4_row fo row)) = ?qs" and "length (fst (w4_row fo row)) = length row div 2"
    using unpack_pack_pairs [OF ev range] lenq fst_row by simp_all
  show "length (snd (w4_row fo row)) = length row div 32" by (simp add: w4_row_def Let_def)
  have "list_all (\<lambda>g. length (map (code_of fo 7 g) g) = 32) ?gs" using len by simp
  from zip_groups [OF this, of "\<lambda>g. f_half fo (row_scale fo 7 g)"]
  show "dequant_w4_row fo (w4_row fo row) = concat (map (w4_group_values fo) ?gs)"
    unfolding dequant_w4_row_def up snd_row by (simp add: map_concat comp_def w4_group_values_def [abs_def])
qed

text \<open>
  C38: The 4-bit weight says what it was packed from. For a matrix whose rows are a multiple of 32 long and whose
  quotients are numbers, packing in chunks of rows succeeds; each row becomes half as many bytes and one scale
  for 32 values; unpacking the bytes gives back the code of every value, between -7 and 7; and the reference
  reconstruction gives each value as its code times the scale of its own group, every row at its place.
\<close>

theorem w4_weight_reconstructed:
  assumes "rows \<noteq> []" "0 < k" "k mod 32 = 0" "list_all (\<lambda>row. int (length row) = k) rows"
    "list_all (\<lambda>row. list_all (defined_quotients fo 7) (w4_groups_of row)) rows"
  shows "\<exists>p. pack_w4 fo (int (length rows)) k rows = Inr p \<and> length p = length rows
    \<and> (\<forall>i<length rows. \<exists>bs scales. p ! i = Some (bs, scales) \<and> int (length scales) = k div 32
         \<and> unpack_group_w4_reference bs k = Inr (concat (map (\<lambda>g. map (code_of fo 7 g) g) (w4_groups_of (rows ! i)))))
    \<and> list_all (\<lambda>row. list_all (\<lambda>g. list_all (\<lambda>x. code_of fo 7 g x \<in> {-7..7}) g) (w4_groups_of row)) rows
    \<and> dequantize_weight_reference fo (Packed_W4 p) (int (length rows)) k
        = Inr (map (\<lambda>row. Some (concat (map (w4_group_values fo) (w4_groups_of row)))) rows)"
proof -
  let ?p = "map (\<lambda>row. Some (w4_row fo row)) rows"
  have pack: "pack_w4 fo (int (length rows)) k rows = Inr ?p"
    using assms(1-3) by (simp add: pack_w4_def fill_rows_all)
  have dvd: "32 dvd length row" "list_all (defined_quotients fo 7) (w4_groups_of row)" "int (length row) = k" if "row \<in> set rows" for row
    using assms(3-5) that by (auto simp: list_all_iff simp flip: int_dvd_int_iff)
  have rows: "\<exists>bs scales. ?p ! i = Some (bs, scales) \<and> int (length scales) = k div 32
      \<and> unpack_group_w4_reference bs k = Inr (concat (map (\<lambda>g. map (code_of fo 7 g) g) (w4_groups_of (rows ! i))))" if "i < length rows" for i
  proof -
    have mem: "rows ! i \<in> set rows" using that by simp
    note u = w4_row_unpacked [OF dvd(1,2) [OF mem]]
    have "int (length (fst (w4_row fo (rows ! i)))) * 2 = k" "k mod 2 = 0"
      using u(2) dvd(1,3) [OF mem] assms(3) by presburger+
    then have "unpack_group_w4_reference (fst (w4_row fo (rows ! i))) k = Inr (concat (map (\<lambda>g. map (code_of fo 7 g) g) (w4_groups_of (rows ! i))))"
      using assms(2) u(1) by (simp add: unpack_group_w4_reference_def)
    moreover have "int (length (snd (w4_row fo (rows ! i)))) = k div 32" using u(3) dvd(3) [OF mem] by (simp add: zdiv_int flip: dvd(3) [OF mem])
    moreover have "?p ! i = Some (fst (w4_row fo (rows ! i)), snd (w4_row fo (rows ! i)))" using that by simp
    ultimately show ?thesis by blast
  qed
  have "dequantize_weight_reference fo (Packed_W4 ?p) (int (length rows)) k = Inr (map (\<lambda>row. Some (concat (map (w4_group_values fo) (w4_groups_of row)))) rows)"
    using assms(1,2) w4_row_unpacked(4) [OF dvd(1,2)] by (simp add: dequantize_weight_reference_def fill_rows_all)
  then show ?thesis using pack rows code_of_range [of 7 fo] by (intro exI [of _ ?p]) (simp add: list_all_iff)
qed

subsection \<open>Error of the quantization\<close>

text \<open>Exact arithmetic: rounding to the nearest integer, ties to the even one.\<close>

definition round_half_even :: "real \<Rightarrow> int" where
  "round_half_even x =
     (let n = \<lfloor>x\<rfloor>; d = x - of_int n
      in if d < 1 / 2 then n else if d > 1 / 2 then n + 1 else if even n then n else n + 1)"

definition amax :: "real list \<Rightarrow> real" where
  "amax xs = foldr (\<lambda>x. max \<bar>x\<bar>) xs 0"

definition exact_ops :: "real float_ops" where
  "exact_ops =
     \<lparr>f_lit = \<lambda>a b. of_int a / of_int b, f_le = (\<le>), f_pos = \<lambda>x. 0 < x, f_div = (/), f_finite = \<lambda>_. True, f_nan = 0, f_amax = amax,
      f_scale = \<lambda>x n. x / of_int n, f_round = \<lambda>x s. Inr (round_half_even (x / s)),
      f_quot = \<lambda>x s. Some (round_half_even (x / s)), f_nan_int8 = 0, f_half = id, f_times = \<lambda>q s. of_int q * s\<rparr>"

lemma round_half_even_close: "\<bar>of_int (round_half_even x) - x\<bar> \<le> 1 / 2"
proof -
  define d where "d = x - of_int \<lfloor>x\<rfloor>"
  have d: "0 \<le> d" "d < 1" unfolding d_def by linarith+
  have "of_int (round_half_even x) - x = (if d < 1 / 2 \<or> d = 1 / 2 \<and> even \<lfloor>x\<rfloor> then - d else 1 - d)"
    by (simp add: round_half_even_def Let_def d_def)
  then show ?thesis using d by auto
qed

lemma amax_ge: "x \<in> set xs \<Longrightarrow> \<bar>x\<bar> \<le> amax xs"
  by (induction xs) (auto simp: amax_def)

lemma amax_nonneg: "0 \<le> amax xs"
  by (induction xs) (auto simp: amax_def)

lemma round_half_even_range:
  assumes "\<bar>y\<bar> \<le> of_int limit"
  shows "clamp limit (round_half_even y) = round_half_even y"
proof -
  have "of_int (round_half_even y) < (of_int (limit + 1) :: real)" "(of_int (- limit - 1) :: real) < of_int (round_half_even y)"
    using abs_le_D1 [OF round_half_even_close [of y]] abs_le_D2 [OF round_half_even_close [of y]] abs_le_D1 [OF assms] abs_le_D2 [OF assms]
    by simp_all
  then show ?thesis unfolding of_int_less_iff by (auto simp: clamp_def)
qed

text \<open>Each value is off by at most half a step of its row or group.\<close>

lemma code_error:
  assumes "0 < limit" "x \<in> set xs"
  shows "\<bar>of_int (code_of exact_ops limit xs x) * row_scale exact_ops limit xs - x\<bar> \<le> amax xs / (2 * of_int limit)"
proof (cases "0 < amax xs")
  case True
  define s where "s = amax xs / of_int limit"
  have s: "0 < s" "row_scale exact_ops limit xs = s" using True assms(1) by (simp_all add: row_scale_def exact_ops_def s_def)
  have "\<bar>x / s\<bar> \<le> of_int limit" using amax_ge [OF assms(2)] assms(1) True by (simp add: abs_mult field_simps s_def)
  then have "code_of exact_ops limit xs x = round_half_even (x / s)"
    using round_half_even_range s(2) by (simp add: code_of_def exact_ops_def)
  moreover have "\<bar>(of_int (round_half_even (x / s)) - x / s) * s\<bar> \<le> 1 / 2 * s"
    unfolding abs_mult using round_half_even_close [of "x / s"] s(1) by (intro mult_mono) simp_all
  moreover have "(of_int (round_half_even (x / s)) - x / s) * s = of_int (round_half_even (x / s)) * s - x"
    using s(1) by (simp add: left_diff_distrib)
  moreover have "amax xs / (2 * of_int limit) = 1 / 2 * s" by (simp add: s_def)
  ultimately show ?thesis using s(2) by simp
next
  case False
  then have "amax xs = 0" "x = 0" using amax_nonneg [of xs] amax_ge [OF assms(2)] by auto
  then show ?thesis using assms(1) by (simp add: code_of_def exact_ops_def row_scale_def round_half_even_def clamp_def)
qed

lemma exact_defined [simp]: "defined_quotients exact_ops limit xs"
  by (simp add: defined_quotients_def exact_ops_def list_all_iff)

lemma concat_nth_equal:
  assumes "list_all (\<lambda>xs. length xs = n) xss" "i < n * length xss"
  shows "concat xss ! i = xss ! (i div n) ! (i mod n)"
  using assms
proof (induction xss arbitrary: i)
  case (Cons xs xss)
  then have n: "0 < n" by (cases n) auto
  show ?case
  proof (cases "i < n")
    case False
    then have "i div n = Suc ((i - n) div n)" using n by (simp add: le_div_geq)
    then show ?thesis using Cons False n by (simp add: nth_append le_mod_geq)
  qed (use Cons in \<open>simp add: nth_append\<close>)
qed simp

lemma groups_of_nth: "j < n \<Longrightarrow> groups_of g n xs ! j = take g (drop (g * j) xs)"
proof (induction n arbitrary: j xs)
  case (Suc n)
  then show ?case by (cases j) (simp_all add: ac_simps)
qed simp

text \<open>
  C39: In exact arithmetic the reconstructed weight is close to the original one. With 8 bits every value of a row is
  off by at most the greatest absolute value of the row divided by 254; with 4 bits and rows of a
  multiple of 32 values, value \<open>i\<close> is off by at most the greatest absolute value of its own group of 32
  divided by 14. A row or group of zeros is reproduced exactly.
\<close>

theorem exact_quantization_error:
  assumes "32 dvd length row"
  shows "length (dequant_w8_row exact_ops (w8_row exact_ops row)) = length row
    \<and> length (dequant_w4_row exact_ops (w4_row exact_ops row)) = length row
    \<and> (\<forall>i<length row. \<bar>dequant_w8_row exact_ops (w8_row exact_ops row) ! i - row ! i\<bar> \<le> amax row / 254
         \<and> \<bar>dequant_w4_row exact_ops (w4_row exact_ops row) ! i - row ! i\<bar> \<le> amax (take 32 (drop (32 * (i div 32)) row)) / 14)"
proof -
  let ?gs = "w4_groups_of row"
  let ?vs = "map (w4_group_values exact_ops) ?gs"
  have len: "list_all (\<lambda>g. length g = 32) ?gs" "length ?gs = length row div 32"
    unfolding list_all_iff w4_groups_of_def using groups_of_lengths [OF times_div_less_eq_dividend] by auto
  have cat: "concat ?gs = row" using assms by (simp add: w4_groups_of_def groups_of_concat)
  have w4: "dequant_w4_row exact_ops (w4_row exact_ops row) = concat ?vs"
    using w4_row_unpacked(4) [OF assms, of exact_ops] by (simp add: list_all_iff)
  have lenv: "list_all (\<lambda>v. length v = 32) ?vs" using len(1) by (simp add: list_all_iff w4_group_values_def)
  have w8: "dequant_w8_row exact_ops (w8_row exact_ops row) = map (\<lambda>x. of_int (code_of exact_ops 127 row x) * row_scale exact_ops 127 row) row"
    using quantized_defined [OF exact_defined, of 127 row] by (simp add: dequant_w8_row_def w8_row_def exact_ops_def)
  have "\<bar>concat ?vs ! i - row ! i\<bar> \<le> amax (take 32 (drop (32 * (i div 32)) row)) / 14" if "i < length row" for i
  proof -
    let ?g = "?gs ! (i div 32)"
    have j: "i div 32 < length ?gs" "i < 32 * length ?gs" using that assms len(2) by auto
    then have g: "?g = take 32 (drop (32 * (i div 32)) row)" "length ?g = 32" "i mod 32 < length ?g"
      using len by (simp_all add: w4_groups_of_def groups_of_nth list_all_length)
    have r: "row ! i = ?g ! (i mod 32)" using concat_nth_equal [OF len(1) j(2)] cat by simp
    have c: "concat ?vs ! i = of_int (code_of exact_ops 7 ?g (?g ! (i mod 32))) * row_scale exact_ops 7 ?g"
      using concat_nth_equal [OF lenv, of i] j g by (simp add: w4_group_values_def) (simp add: exact_ops_def)
    have "\<bar>of_int (code_of exact_ops 7 ?g (?g ! (i mod 32))) * row_scale exact_ops 7 ?g - ?g ! (i mod 32)\<bar> \<le> amax ?g / 14"
      using code_error [OF _ nth_mem [OF g(3)], of 7] by simp
    then show ?thesis unfolding r c g(1) .
  qed
  moreover have "length (concat ?vs) = length row"
  proof -
    have "length (concat ?vs) = length (concat ?gs)" by (simp add: length_concat comp_def w4_group_values_def)
    then show ?thesis by (simp add: cat)
  qed
  ultimately show ?thesis using w4 w8 code_error [of 127 _ row] by simp
qed

theorem exact_quantization_error_witness:
  "length (dequant_w4_row exact_ops (w4_row exact_ops (replicate 32 3))) = 32
   \<and> \<bar>dequant_w4_row exact_ops (w4_row exact_ops (replicate 32 3)) ! 5 - 3\<bar> \<le> amax (replicate 32 3) / 14"
  using exact_quantization_error [of "replicate 32 3"] by (auto dest: spec [of _ 5])

theorem w4_weight_reconstructed_witness:
  "\<exists>p. pack_w4 exact_ops 1 32 [replicate 32 3] = Inr p
     \<and> dequantize_weight_reference exact_ops (Packed_W4 p) 1 32
         = Inr [Some (concat (map (w4_group_values exact_ops) (w4_groups_of (replicate 32 3))))]"
  using w4_weight_reconstructed [of "[replicate 32 3]" 32 exact_ops] by (auto simp: list_all_iff)

subsection \<open>Conversion fails open\<close>

definition limits_met :: "'f float_ops \<Rightarrow> quant_kind \<Rightarrow> 'f admission \<Rightarrow> bool" where
  "limits_met fo kind d \<longleftrightarrow> f_finite fo (ar_nrmse d) \<and> f_finite fo (ar_cosine d) \<and> f_finite fo (ar_speedup d)
     \<and> f_le fo (ar_nrmse d) (fst (admission_limits fo kind)) \<and> f_le fo (snd (admission_limits fo kind)) (ar_cosine d)
     \<and> f_le fo (f_lit fo 1100 1000) (ar_speedup d)"

definition cache_ok :: "'f float_ops \<Rightarrow> 'f quant_state \<Rightarrow> bool" where
  "cache_ok fo st \<longleftrightarrow> (\<forall>m k kind d. map_of (qs_admission_cache st) (m, k, kind) = Some d \<longrightarrow> ar_accepted d \<longrightarrow> limits_met fo kind d)"

text \<open>Decisions to reject are final.\<close>

definition keeps_rejections :: "'f quant_state \<Rightarrow> 'f quant_state \<Rightarrow> bool" where
  "keeps_rejections st st' \<longleftrightarrow> (\<forall>key d. map_of (qs_admission_cache st) key = Some d \<longrightarrow> \<not> ar_accepted d \<longrightarrow>
     map_of (qs_admission_cache st') key = Some d)"

text \<open>
  What a layer is after it was converted to \<open>kind\<close>, and after a conversion that failed: the same but for the order of the
  parameters, where the weight, taken out and put back, comes last.
\<close>

abbreviation quant_attributes :: "string list" where
  "quant_attributes \<equiv> [''_fdu_gfx936_quantized'', ''_fdu_gfx936_quant_kind'', ''_fdu_gfx936_quant_m'', ''_fdu_gfx936_quant_k'']"

definition converted_layer :: "'f packed \<Rightarrow> quant_kind \<Rightarrow> int \<Rightarrow> int \<Rightarrow> 'f layer \<Rightarrow> 'f layer \<Rightarrow> bool" where
  "converted_layer packed kind m k ly ly' \<longleftrightarrow>
     map_of (ly_parameters ly') = (map_of (ly_parameters ly))(''weight'' := None)
     \<and> map_of (ly_buffers ly') = (map_of (ly_buffers ly))(''weight'' \<mapsto> packed_tensor packed, ''gfx936_scale'' \<mapsto> scale_tensor packed)
     \<and> ly_non_persistent ly' = ly_non_persistent ly \<union> {''weight'', ''gfx936_scale''}
     \<and> map_of (ly_dict ly') = (map_of (ly_dict ly))(''_fdu_gfx936_quantized'' \<mapsto> 1, ''_fdu_gfx936_quant_kind'' \<mapsto> kind_code kind,
          ''_fdu_gfx936_quant_m'' \<mapsto> m, ''_fdu_gfx936_quant_k'' \<mapsto> k)
     \<and> ly_has_bias ly' = ly_has_bias ly"

definition same_layer :: "'f layer \<Rightarrow> 'f layer \<Rightarrow> bool" where
  "same_layer ly ly' \<longleftrightarrow> map_of (ly_parameters ly') = map_of (ly_parameters ly) \<and> ly' = ly\<lparr>ly_parameters := ly_parameters ly'\<rparr>"

text \<open>
  A layer before its conversion: the names the conversion uses are free, and no name is both a parameter and a buffer, as
  torch keeps it.
\<close>

definition fresh_layer :: "'f layer \<Rightarrow> bool" where
  "fresh_layer ly \<longleftrightarrow> map_of (ly_buffers ly) ''gfx936_scale'' = None \<and> (\<forall>a \<in> set quant_attributes. map_of (ly_dict ly) a = None)
     \<and> ly_non_persistent ly \<inter> {''weight'', ''gfx936_scale''} = {}
     \<and> (map_of (ly_parameters ly) ''weight'' \<noteq> None \<longrightarrow> map_of (ly_buffers ly) ''weight'' = None)"

definition converted_to :: "'f float_ops \<Rightarrow> 'f quant_env \<Rightarrow> 'f weight \<Rightarrow> quant_kind \<Rightarrow> 'f layer \<Rightarrow> 'f layer \<Rightarrow> 'f quant_state \<Rightarrow> bool" where
  "converted_to fo env w kind ly ly' st' \<longleftrightarrow>
     (\<exists>packed d. pack_weight fo env kind w = Inr packed \<and> converted_layer packed kind (fst (wt_shape w)) (snd (wt_shape w)) ly ly'
        \<and> map_of (qs_admission_cache st') (fst (wt_shape w), snd (wt_shape w), kind) = Some d \<and> ar_accepted d \<and> limits_met fo kind d)"

lemma same_layer_refl [simp]: "same_layer ly ly"
  by (simp add: same_layer_def)

lemma same_layer_trans: "same_layer a b \<Longrightarrow> same_layer b c \<Longrightarrow> same_layer a c"
  by (cases a; cases b; cases c) (simp add: same_layer_def)

lemma same_layer_facts:
  assumes "same_layer ly ly'"
  shows "map_of (ly_parameters ly') = map_of (ly_parameters ly)" "ly_buffers ly' = ly_buffers ly" "ly_non_persistent ly' = ly_non_persistent ly"
    "ly_dict ly' = ly_dict ly" "ly_has_bias ly' = ly_has_bias ly"
  using assms by (cases ly; cases ly'; simp add: same_layer_def)+

lemma same_layer_fresh: "same_layer ly ly' \<Longrightarrow> fresh_layer ly \<Longrightarrow> fresh_layer ly'"
  by (simp add: fresh_layer_def same_layer_facts)

lemma same_layer_converted: "same_layer ly l \<Longrightarrow> converted_layer packed kind m k l ly' \<Longrightarrow> converted_layer packed kind m k ly ly'"
  by (simp add: converted_layer_def same_layer_facts)

text \<open>Entries under some names left out.\<close>

definition erase :: "'k list \<Rightarrow> ('k \<times> 'v) list \<Rightarrow> ('k \<times> 'v) list" where
  "erase ks xs = filter (\<lambda>p. fst p \<notin> set ks) xs"

lemma erase_update: "k \<in> set ks \<Longrightarrow> erase ks (AList.update k v xs) = erase ks xs"
  by (induction xs) (auto simp: erase_def)

lemma erase_fresh: "(\<And>k. k \<in> set ks \<Longrightarrow> map_of xs k = None) \<Longrightarrow> erase ks xs = xs"
  unfolding erase_def by (rule filter_True) (metis map_of_eq_None_iff image_eqI)

lemma erase_delete: "fold AList.delete ks xs = erase ks xs"
  by (induction ks arbitrary: xs) (auto simp: erase_def AList.delete_eq case_prod_beta filter_id_conv intro!: filter_cong)

lemma run_steps_invariant:
  assumes "\<And>f l l'. f \<in> set fs \<Longrightarrow> f l = Inr l' \<Longrightarrow> P l \<Longrightarrow> P l'" "P l" "run_steps fs l = (r, l')"
  shows "P l'"
  using assms by (induction fs arbitrary: l) (auto split: sum.split_asm)

definition partly_installed :: "'f layer \<Rightarrow> 'f layer \<Rightarrow> bool" where
  "partly_installed ly l \<longleftrightarrow> ly_parameters l = ly_parameters ly \<and> ly_has_bias l = ly_has_bias ly
     \<and> erase [''weight'', ''gfx936_scale''] (ly_buffers l) = erase [''weight'', ''gfx936_scale''] (ly_buffers ly)
     \<and> ly_non_persistent l - {''weight'', ''gfx936_scale''} = ly_non_persistent ly - {''weight'', ''gfx936_scale''}
     \<and> erase quant_attributes (ly_dict l) = erase quant_attributes (ly_dict ly)"

lemma register_buffer_partly:
  assumes "register_buffer env name b l = Inr l'" "partly_installed ly l" "name \<in> {''weight'', ''gfx936_scale''}"
  shows "partly_installed ly l'"
proof -
  have l': "l' = l\<lparr>ly_buffers := AList.update name b (ly_buffers l), ly_non_persistent := insert name (ly_non_persistent l)\<rparr>"
    using assms(1) by (simp add: register_buffer_def split: option.split_asm if_split_asm)
  have "erase [''weight'', ''gfx936_scale''] (AList.update name b (ly_buffers l)) = erase [''weight'', ''gfx936_scale''] (ly_buffers l)"
    by (rule erase_update) (use assms(3) in simp)
  moreover have "insert name (ly_non_persistent l) - {''weight'', ''gfx936_scale''} = ly_non_persistent l - {''weight'', ''gfx936_scale''}"
    using assms(3) by blast
  ultimately show ?thesis using assms(2) unfolding l' partly_installed_def by simp
qed

lemma set_attribute_partly:
  assumes "set_attribute env name v l = Inr l'" "partly_installed ly l" "name \<in> set quant_attributes"
  shows "partly_installed ly l'"
proof -
  have l': "l' = l\<lparr>ly_dict := AList.update name v (ly_dict l)\<rparr>" using assms(1) by (simp add: set_attribute_def split: option.split_asm)
  have "erase quant_attributes (AList.update name v (ly_dict l)) = erase quant_attributes (ly_dict l)" by (rule erase_update [OF assms(3)])
  then show ?thesis using assms(2) unfolding l' partly_installed_def by simp
qed

lemma install_steps_partly:
  assumes "f \<in> set (install_steps env packed kind m k)" "f l = Inr l'" "partly_installed ly l"
  shows "partly_installed ly l'"
proof -
  consider name b where "name \<in> {''weight'', ''gfx936_scale''}" "f = register_buffer env name b"
    | name v where "name \<in> set quant_attributes" "f = set_attribute env name v"
    using assms(1) unfolding install_steps_def list.set insert_iff empty_iff by blast
  then show ?thesis by cases (use assms(2,3) register_buffer_partly set_attribute_partly in blast)+
qed

lemma install_failed:
  assumes "run_steps (install_steps env packed kind m k) (ly\<lparr>ly_parameters := AList.delete ''weight'' (ly_parameters ly)\<rparr>) = (Some e, l)"
    "fresh_layer ly" "map_of (ly_parameters ly) ''weight'' = Some w"
  shows "same_layer ly (rollback_install w l)"
proof -
  let ?ly = "ly\<lparr>ly_parameters := AList.delete ''weight'' (ly_parameters ly)\<rparr>"
  have p: "partly_installed ?ly l"
    by (rule run_steps_invariant [where P = "partly_installed ?ly", OF _ _ assms(1)])
      (rule install_steps_partly, assumption+, simp add: partly_installed_def)
  have fresh: "erase [''weight'', ''gfx936_scale''] (ly_buffers ly) = ly_buffers ly" "erase quant_attributes (ly_dict ly) = ly_dict ly"
    using assms(2,3) by (auto simp: fresh_layer_def intro!: erase_fresh)
  have "AList.delete ''gfx936_scale'' (AList.delete ''weight'' (ly_buffers l)) = erase [''weight'', ''gfx936_scale''] (ly_buffers l)"
    using erase_delete [of "[''weight'', ''gfx936_scale'']"] by simp
  then have b: "AList.delete ''gfx936_scale'' (AList.delete ''weight'' (ly_buffers l)) = ly_buffers ly" using p fresh by (simp add: partly_installed_def)
  have n: "ly_non_persistent l - {''weight''} - {''gfx936_scale''} = ly_non_persistent ly"
    using p assms(2) by (auto simp: partly_installed_def fresh_layer_def)
  have d: "fold AList.delete quant_attributes (ly_dict l) = ly_dict ly" unfolding erase_delete using p fresh by (simp add: partly_installed_def)
  have "map_of (AList.update ''weight'' w (ly_parameters l)) = map_of (ly_parameters ly)"
    using p assms(3) by (auto simp: partly_installed_def update_conv' delete_conv' fun_eq_iff)
  then show ?thesis unfolding same_layer_def rollback_install_def b n d using p by (cases ly; cases l) (simp add: partly_installed_def)
qed

lemma install_done:
  assumes "run_steps (install_steps env packed kind m k) (ly\<lparr>ly_parameters := AList.delete ''weight'' (ly_parameters ly)\<rparr>) = (None, l)"
  shows "converted_layer packed kind m k ly l"
  using assms unfolding install_steps_def
  by (auto simp: register_buffer_def set_attribute_def converted_layer_def update_conv' delete_conv' restrict_map_def split: option.split_asm if_split_asm)

lemma install_cases:
  assumes "install_quantized_weight env packed kind m k ly st = (r, ly', st')" "fresh_layer ly"
  shows "case r of None \<Rightarrow> converted_layer packed kind m k ly ly' \<and> st' = st\<lparr>qs_active_layer_count := qs_active_layer_count st + 1\<rparr>
    | Some _ \<Rightarrow> same_layer ly ly' \<and> st' = st"
  using assms install_done install_failed
  by (fastforce simp: install_quantized_weight_def split: option.split_asm prod.split_asm option.split)

lemma put_decision_simps [simp]:
  "map_of (qs_admission_cache (put_decision key d st)) = (map_of (qs_admission_cache st))(key \<mapsto> d)"
  "qs_active_layer_count (put_decision key d st) = qs_active_layer_count st"
  by (simp_all add: put_decision_def update_conv')

lemma evaluated_limits: "ar_accepted (evaluate_admission fo kind a b c d) \<Longrightarrow> limits_met fo kind (evaluate_admission fo kind a b c d)"
  unfolding evaluate_admission_def limits_met_def Let_def by (simp add: case_prod_beta)

lemma error_result_rejected [simp]: "\<not> ar_accepted (conversion_error_result fo)"
  by (simp add: conversion_error_result_def)

lemma put_decision_ok:
  assumes "cache_ok fo st" "ar_accepted d \<longrightarrow> limits_met fo kind d"
  shows "cache_ok fo (put_decision (m, k, kind) d st)"
  using assms by (simp add: cache_ok_def)

lemma put_decision_keeps:
  assumes "keeps_rejections st0 st" "\<forall>d. map_of (qs_admission_cache st0) key = Some d \<longrightarrow> ar_accepted d"
  shows "keeps_rejections st0 (put_decision key d st)"
  using assms by (auto simp: keeps_rejections_def)

lemma decide_kind_spec:
  assumes "decide_kind fo env w packed m k kind cached st = Inr (d, st')" "cache_ok fo st"
    "cached = map_of (qs_admission_cache st) (m, k, kind)"
  shows "cache_ok fo st' \<and> keeps_rejections st st' \<and> map_of (qs_admission_cache st') (m, k, kind) = Some d
    \<and> qs_active_layer_count st' = qs_active_layer_count st"
proof (cases cached)
  case None
  then obtain a b c e where d: "d = evaluate_admission fo kind a b c e" "st' = put_decision (m, k, kind) d st"
    using assms(1) by (auto simp: decide_kind_def benchmark_candidate_def bindR_eq_Inr split: prod.splits)
  have "cache_ok fo st'" unfolding d(2) by (rule put_decision_ok [OF assms(2)]) (simp add: d(1) evaluated_limits)
  moreover have "keeps_rejections st st'" using assms(3) None d(2) by (auto simp: keeps_rejections_def)
  ultimately show ?thesis using d(2) by simp
next
  case (Some d')
  then show ?thesis using assms by (auto simp: decide_kind_def keeps_rejections_def)
qed

text \<open>What an attempt leaves: a converted layer, counted, or the same layer with the same counter.\<close>

definition attempted :: "'f float_ops \<Rightarrow> 'f quant_env \<Rightarrow> 'f weight \<Rightarrow> quant_kind \<Rightarrow> bool \<Rightarrow> 'f layer \<Rightarrow> 'f layer \<Rightarrow> 'f quant_state \<Rightarrow> 'f quant_state \<Rightarrow> bool" where
  "attempted fo env w kind done ly ly' st st' \<longleftrightarrow> cache_ok fo st' \<and> keeps_rejections st st'
     \<and> (if done then converted_to fo env w kind ly ly' st' \<and> qs_active_layer_count st' = qs_active_layer_count st + 1
        else same_layer ly ly' \<and> qs_active_layer_count st' = qs_active_layer_count st)"

lemma attempt_kind_spec:
  assumes "attempt_kind fo env w m k kind cached ly st = (r, ly', st')" "cache_ok fo st" "wt_shape w = (m, k)"
    "cached = map_of (qs_admission_cache st) (m, k, kind)" "fresh_layer ly"
  shows "attempted fo env w kind (r = Inr True) ly ly' st st'"
proof (cases "pack_weight fo env kind w")
  case (Inl e)
  then show ?thesis using assms by (auto simp: attempt_kind_def attempted_def keeps_rejections_def)
next
  case pack: (Inr packed)
  show ?thesis
  proof (cases "decide_kind fo env w packed m k kind cached st")
    case (Inl e)
    then show ?thesis using assms(1,2) pack by (auto simp: attempt_kind_def attempted_def keeps_rejections_def)
  next
    case (Inr ds)
    obtain d st1 where ds: "decide_kind fo env w packed m k kind cached st = Inr (d, st1)" using Inr by (cases ds) simp
    note d = decide_kind_spec [OF ds assms(2,4)]
    show ?thesis
    proof (cases "ar_accepted d")
      case True
      obtain e l st2 where ins: "install_quantized_weight env packed kind m k ly st1 = (e, l, st2)" by (cases "install_quantized_weight env packed kind m k ly st1") auto
      note res = install_cases [OF ins assms(5)]
      have eq: "ly' = l" "st' = st2" "r = (case e of Some e \<Rightarrow> Inl e | None \<Rightarrow> Inr True)"
        using assms(1) pack ds True ins by (auto simp: attempt_kind_def split: option.split_asm)
      have "limits_met fo kind d" using d True by (auto simp: cache_ok_def)
      then show ?thesis using d True pack assms(3) res
        by (cases e) (auto simp: eq attempted_def converted_to_def cache_ok_def keeps_rejections_def)
    next
      case False
      then show ?thesis using assms(1) pack ds d by (auto simp: attempt_kind_def attempted_def)
    qed
  qed
qed

lemma try_kind_spec:
  assumes "try_kind fo env w m k kind ly st = (r, ly', st')" "cache_ok fo st" "wt_shape w = (m, k)" "fresh_layer ly"
  shows "attempted fo env w kind r ly ly' st st'"
proof -
  let ?c = "map_of (qs_admission_cache st) (m, k, kind)"
  show ?thesis
  proof (cases "?c \<noteq> None \<and> \<not> ar_accepted (the ?c)")
    case True
    then show ?thesis using assms by (simp add: try_kind_def attempted_def keeps_rejections_def)
  next
    case False
    obtain r' l st1 where at: "attempt_kind fo env w m k kind ?c ly st = (r', l, st1)" by (cases "attempt_kind fo env w m k kind ?c ly st") auto
    note spec = attempt_kind_spec [OF at assms(2,3) refl assms(4)]
    show ?thesis
    proof (cases r')
      case (Inl e)
      then have "r = False" "ly' = l" "st' = put_decision (m, k, kind) (conversion_error_result fo) st1"
        using assms(1) at False by (auto simp: try_kind_def Let_def)
      moreover have "keeps_rejections st (put_decision (m, k, kind) (conversion_error_result fo) st1)"
        using spec False by (intro put_decision_keeps) (auto simp: attempted_def)
      ultimately show ?thesis using spec Inl put_decision_ok [of fo st1 "conversion_error_result fo" kind m k] by (simp add: attempted_def)
    next
      case (Inr x)
      then have "r = x" "ly' = l" "st' = st1" using assms(1) at False by (auto simp: try_kind_def Let_def)
      then show ?thesis using spec Inr by simp
    qed
  qed
qed

lemma keeps_rejections_trans: "keeps_rejections a b \<Longrightarrow> keeps_rejections b c \<Longrightarrow> keeps_rejections a c"
  by (simp add: keeps_rejections_def)

lemma same_layer_converted_to: "same_layer ly l \<Longrightarrow> converted_to fo env w kind l ly' st \<Longrightarrow> converted_to fo env w kind ly ly' st"
  using same_layer_converted unfolding converted_to_def by blast

lemma try_kinds_spec:
  assumes "try_kinds fo env w m k kinds ly st = (ly', st')" "cache_ok fo st" "wt_shape w = (m, k)" "fresh_layer ly"
  shows "cache_ok fo st' \<and> keeps_rejections st st'
    \<and> (same_layer ly ly' \<and> qs_active_layer_count st' = qs_active_layer_count st
       \<or> (\<exists>kind \<in> set kinds. converted_to fo env w kind ly ly' st') \<and> qs_active_layer_count st' = qs_active_layer_count st + 1)"
  using assms(1,2,4)
proof (induction kinds arbitrary: st ly)
  case (Cons kind kinds)
  obtain r l st1 where t: "try_kind fo env w m k kind ly st = (r, l, st1)" by (cases "try_kind fo env w m k kind ly st") auto
  note spec = try_kind_spec [OF t Cons.prems(2) assms(3) Cons.prems(3)]
  show ?case
  proof (cases r)
    case False
    then have st1: "cache_ok fo st1" "keeps_rejections st st1" "same_layer ly l" "qs_active_layer_count st1 = qs_active_layer_count st"
      using spec by (simp_all add: attempted_def)
    have "try_kinds fo env w m k kinds l st1 = (ly', st')" using Cons.prems(1) t False by simp
    from Cons.IH [OF this st1(1) same_layer_fresh [OF st1(3) Cons.prems(3)]]
    show ?thesis using st1(2,4) keeps_rejections_trans [of st st1 st']
      by (auto dest: same_layer_trans [OF st1(3)] same_layer_converted_to [OF st1(3)])
  next
    case True
    then show ?thesis using Cons.prems(1) t spec by (simp add: attempted_def)
  qed
qed (simp add: keeps_rejections_def)

lemma mode_names:
  "parse_quant_mode None (Some (mode_name Mode_Off)) = Mode_Off"
  "parse_quant_mode None (Some (mode_name Mode_W8)) = Mode_W8"
  "parse_quant_mode None (Some (mode_name Mode_Hybrid_W4)) = Mode_Hybrid_W4"
  by code_simp+

lemma mode_roundtrip: "parse_quant_mode None (Some (mode_name m)) = m"
  by (cases m) (simp_all only: mode_names)

lemma candidate_kinds_spec:
  "kind \<in> set (candidate_kinds (mode_name mode) m k) \<longleftrightarrow>
   mode \<noteq> Mode_Off \<and> (m, k) \<in> set quant_shapes \<and> (kind = W4 \<longrightarrow> mode = Mode_Hybrid_W4 \<and> (m, k) \<in> set w4_mlp_shapes)"
  unfolding candidate_kinds_def mode_roundtrip Let_def is_quant_shape_def by (cases kind) auto

text \<open>Histories of conversions, with the number of layers they converted.\<close>

inductive quant_reach :: "'f float_ops \<Rightarrow> nat \<Rightarrow> 'f quant_state \<Rightarrow> bool" for fo where
  quant_init: "quant_reach fo 0 \<lparr>qs_admission_cache = [], qs_active_layer_count = 0\<rparr>"
| quant_convert: "quant_reach fo n st \<Longrightarrow> maybe_quantize_layer fo env ly st = (ly', st')
    \<Longrightarrow> fresh_layer ly \<or> is_gfx936_quantized_layer ly
    \<Longrightarrow> quant_reach fo (if is_gfx936_quantized_layer ly' \<and> \<not> is_gfx936_quantized_layer ly then Suc n else n) st'"

lemma maybe_quantize_layer_spec:
  assumes "maybe_quantize_layer fo env ly st = (ly', st')" "cache_ok fo st" "fresh_layer ly \<or> is_gfx936_quantized_layer ly"
  defines "mode \<equiv> parse_quant_mode (qe_mode_var env) None"
  shows "cache_ok fo st' \<and> keeps_rejections st st'
    \<and> (same_layer ly ly' \<and> qs_active_layer_count st' = qs_active_layer_count st
       \<or> \<not> is_gfx936_quantized_layer ly \<and> \<not> ly_has_bias ly \<and> qs_active_layer_count st' = qs_active_layer_count st + 1
         \<and> (\<exists>w kind. layer_weight ly = Some w \<and> wt_suitable w \<and> qe_is_gfx936 env = Inr True
              \<and> kind \<in> set (candidate_kinds (mode_name mode) (fst (wt_shape w)) (snd (wt_shape w)))
              \<and> converted_to fo env w kind ly ly' st'))"
proof (cases "is_gfx936_quantized_layer ly \<or> mode = Mode_Off \<or> eligible_weight env ly = None")
  case True
  then have "ly' = ly \<and> st' = st" using assms(1) by (auto simp: maybe_quantize_layer_def mode_def Let_def split: if_split_asm)
  then show ?thesis using assms(2) by (simp add: keeps_rejections_def)
next
  case False
  then obtain w where w: "eligible_weight env ly = Some w" by auto
  then have el: "layer_weight ly = Some w" "wt_suitable w" "\<not> ly_has_bias ly" "qe_is_gfx936 env = Inr True"
    by (cases "qe_is_gfx936 env"; cases "qe_load_kernels env"; cases "layer_weight ly"; auto simp: eligible_weight_def split: if_split_asm bool.split_asm)+
  obtain m k where mk: "wt_shape w = (m, k)" by fastforce
  have "try_kinds fo env w m k (candidate_kinds (mode_name mode) m k) ly st = (ly', st')"
    using assms(1) False w mk by (simp add: maybe_quantize_layer_def mode_def Let_def)
  from try_kinds_spec [OF this assms(2) mk] show ?thesis using False el mk assms(3) by auto
qed

lemma quant_reach_ok: "quant_reach fo n st \<Longrightarrow> cache_ok fo st \<and> qs_active_layer_count st = int n"
proof (induction rule: quant_reach.induct)
  case (quant_convert n st env ly ly' st')
  then have st: "cache_ok fo st" "qs_active_layer_count st = int n" by simp_all
  have "converted_layer packed kind m k ly ly' \<Longrightarrow> is_gfx936_quantized_layer ly'" for packed kind m k
    unfolding converted_layer_def is_gfx936_quantized_layer_def by (elim conjE) simp
  then have "converted_to fo env w kind ly ly' st' \<Longrightarrow> is_gfx936_quantized_layer ly'" for w kind
    unfolding converted_to_def by blast
  moreover have "same_layer ly ly' \<Longrightarrow> is_gfx936_quantized_layer ly' = is_gfx936_quantized_layer ly"
    by (simp add: is_gfx936_quantized_layer_def same_layer_facts)
  ultimately show ?case using maybe_quantize_layer_spec [OF quant_convert.hyps(2) st(1) quant_convert.hyps(3)] st(2) by auto
qed (simp add: cache_ok_def)

text \<open>
  C40: Conversion fails open and only speeds things up. After any conversions of layers, whatever the device, the
  packing, the measurements, the registration of buffers and the setting of attributes did, a further conversion of a layer
  that does not use the names of the conversion yet either leaves its parameters, buffers and attributes as they
  are (what an error left half done is undone; only the order of the parameters may change), or takes the weight out, puts the
  packed tensors and the attributes in, for a kind that the mode allows for the shape (4 bits only in the hybrid mode and
  for the two MLP shapes) and whose admission, kept in the cache, met the limits on error, cosine and speed. A rejected
  shape and kind stays rejected. The counter is the number of layers converted so far, so requiring quantization
  raises exactly when it is on, the device is the right one and nothing was converted.
\<close>

theorem conversion_fails_open:
  assumes "quant_reach fo n st" "maybe_quantize_layer fo env ly st = (ly', st')" "fresh_layer ly \<or> is_gfx936_quantized_layer ly"
  defines "mode \<equiv> parse_quant_mode (qe_mode_var env) None"
  shows "(map_of (ly_parameters ly') = map_of (ly_parameters ly) \<and> ly_buffers ly' = ly_buffers ly
          \<and> ly_non_persistent ly' = ly_non_persistent ly \<and> ly_dict ly' = ly_dict ly \<and> qs_active_layer_count st' = int n
      \<or> qs_active_layer_count st' = int n + 1
        \<and> (\<exists>w m k kind packed d. layer_weight ly = Some w \<and> wt_shape w = (m, k) \<and> mode \<noteq> Mode_Off \<and> (m, k) \<in> set quant_shapes
             \<and> (kind = W4 \<longrightarrow> mode = Mode_Hybrid_W4 \<and> (m, k) \<in> set w4_mlp_shapes)
             \<and> pack_weight fo env kind w = Inr packed \<and> converted_layer packed kind m k ly ly'
             \<and> map_of (qs_admission_cache st') (m, k, kind) = Some d \<and> ar_accepted d \<and> limits_met fo kind d))
    \<and> (\<forall>key d. map_of (qs_admission_cache st) key = Some d \<longrightarrow> \<not> ar_accepted d \<longrightarrow> map_of (qs_admission_cache st') key = Some d)
    \<and> (require_online_quantization env st = Inl RuntimeError \<longleftrightarrow>
         mode \<noteq> Mode_Off \<and> (qe_is_gfx936 env = Inl RuntimeError \<or> qe_is_gfx936 env = Inr True \<and> n = 0))"
proof -
  have st: "cache_ok fo st" "qs_active_layer_count st = int n" using quant_reach_ok [OF assms(1)] by simp_all
  note spec = maybe_quantize_layer_spec [OF assms(2) st(1) assms(3)]
  have "require_online_quantization env st = Inl RuntimeError \<longleftrightarrow>
      mode \<noteq> Mode_Off \<and> (qe_is_gfx936 env = Inl RuntimeError \<or> qe_is_gfx936 env = Inr True \<and> n = 0)"
    using st(2) by (cases "qe_is_gfx936 env") (auto simp: require_online_quantization_def online_quantization_active_def mode_def)
  moreover have "same_layer ly ly' \<and> qs_active_layer_count st' = int n
      \<or> qs_active_layer_count st' = int n + 1
        \<and> (\<exists>w m k kind packed d. layer_weight ly = Some w \<and> wt_shape w = (m, k) \<and> mode \<noteq> Mode_Off \<and> (m, k) \<in> set quant_shapes
             \<and> (kind = W4 \<longrightarrow> mode = Mode_Hybrid_W4 \<and> (m, k) \<in> set w4_mlp_shapes)
             \<and> pack_weight fo env kind w = Inr packed \<and> converted_layer packed kind m k ly ly'
             \<and> map_of (qs_admission_cache st') (m, k, kind) = Some d \<and> ar_accepted d \<and> limits_met fo kind d)"
  proof (cases "same_layer ly ly' \<and> qs_active_layer_count st' = qs_active_layer_count st")
    case False
    then obtain w kind where c: "layer_weight ly = Some w" "qs_active_layer_count st' = qs_active_layer_count st + 1"
      "kind \<in> set (candidate_kinds (mode_name mode) (fst (wt_shape w)) (snd (wt_shape w)))" "converted_to fo env w kind ly ly' st'"
      using spec unfolding mode_def by blast
    obtain m k where mk: "wt_shape w = (m, k)" by fastforce
    obtain packed d where p: "pack_weight fo env kind w = Inr packed" "converted_layer packed kind m k ly ly'"
      "map_of (qs_admission_cache st') (m, k, kind) = Some d" "ar_accepted d" "limits_met fo kind d"
      using c(4) unfolding converted_to_def mk fst_conv snd_conv by blast
    have kind: "mode \<noteq> Mode_Off" "(m, k) \<in> set quant_shapes" "kind = W4 \<longrightarrow> mode = Mode_Hybrid_W4 \<and> (m, k) \<in> set w4_mlp_shapes"
      using c(3) unfolding mk fst_conv snd_conv candidate_kinds_spec by blast+
    show ?thesis using c(2) st(2) by (intro disjI2 conjI exI [of _ w] exI [of _ m] exI [of _ k] exI [of _ kind] exI [of _ packed] exI [of _ d] c(1) mk kind p) simp
  qed (use st(2) in simp)
  ultimately show ?thesis using spec same_layer_facts [of ly ly'] unfolding keeps_rejections_def by blast
qed

definition sample_env :: "real quant_env" where
  "sample_env = \<lparr>qe_mode_var = Some ''w8'', qe_is_gfx936 = Inr True, qe_load_kernels = Inr (), qe_pack_fault = \<lambda>_ _. None,
     qe_measure = \<lambda>_ _ _. Inr (0, 1, 2, 1), qe_register_fault = \<lambda>_ _. None, qe_set_fault = \<lambda>_. None\<rparr>"

definition sample_weight :: "real weight" where
  "sample_weight = \<lparr>wt_shape = (96, 5120), wt_rows = replicate 96 (replicate 5120 0), wt_suitable = True\<rparr>"

definition sample_layer :: "real layer" where
  "sample_layer = \<lparr>ly_parameters = [(''weight'', sample_weight)], ly_buffers = [], ly_non_persistent = {}, ly_dict = [], ly_has_bias = False\<rparr>"

lemma sample_kinds: "candidate_kinds (mode_name Mode_W8) 96 5120 = [W8]"
  by code_simp

lemma sample_mode: "parse_quant_mode (qe_mode_var sample_env) None = Mode_W8"
  unfolding sample_env_def quant_env.simps by code_simp

lemma sample_pack: "\<exists>p. pack_weight exact_ops sample_env W8 sample_weight = Inr p"
  by (simp add: pack_weight_def sample_env_def sample_weight_def pack_w8_def fill_rows_all)

lemma sample_fresh: "fresh_layer sample_layer"
  by (simp add: fresh_layer_def sample_layer_def)

lemma sample_converts:
  "map_of (ly_parameters (fst (maybe_quantize_layer exact_ops sample_env sample_layer \<lparr>qs_admission_cache = [], qs_active_layer_count = 0\<rparr>))) ''weight'' = None"
proof -
  obtain p where p: "pack_weight exact_ops sample_env W8 sample_weight = Inr p" using sample_pack by blast
  have acc: "ar_accepted (evaluate_admission exact_ops W8 0 1 2 1)"
    by (simp add: evaluate_admission_def admission_limits_def exact_ops_def)
  have el: "eligible_weight sample_env sample_layer = Some sample_weight"
    by (simp add: eligible_weight_def sample_env_def sample_layer_def layer_weight_def sample_weight_def is_quant_shape_def quant_shapes_def)
  have m: "benchmark_candidate exact_ops sample_env sample_weight p W8 = Inr (evaluate_admission exact_ops W8 0 1 2 1)"
    by (simp add: benchmark_candidate_def sample_env_def)
  have ins: "\<exists>l st'. install_quantized_weight sample_env p W8 96 5120 sample_layer st = (None, l, st') \<and> map_of (ly_parameters l) ''weight'' = None" for st
    by (simp add: install_quantized_weight_def sample_layer_def install_steps_def register_buffer_def set_attribute_def sample_env_def)
  have "wt_shape sample_weight = (96, 5120)" "\<not> is_gfx936_quantized_layer sample_layer"
    by (simp_all add: sample_weight_def sample_layer_def is_gfx936_quantized_layer_def)
  then show ?thesis using el p m acc ins [of "put_decision (96, 5120, W8) (evaluate_admission exact_ops W8 0 1 2 1) \<lparr>qs_admission_cache = [], qs_active_layer_count = 0\<rparr>"]
    by (auto simp: maybe_quantize_layer_def sample_mode sample_kinds try_kind_def attempt_kind_def decide_kind_def Let_def)
qed

theorem conversion_fails_open_witness:
  "qs_active_layer_count (snd (maybe_quantize_layer exact_ops sample_env sample_layer
     \<lparr>qs_admission_cache = [], qs_active_layer_count = 0\<rparr>)) = 1"
proof -
  obtain ly' st' where c: "maybe_quantize_layer exact_ops sample_env sample_layer \<lparr>qs_admission_cache = [], qs_active_layer_count = 0\<rparr> = (ly', st')"
    by fastforce
  then have "map_of (ly_parameters ly') ''weight'' = None" using sample_converts by simp
  then have "map_of (ly_parameters ly') \<noteq> map_of (ly_parameters sample_layer)" by (auto simp: sample_layer_def fun_eq_iff)
  then show ?thesis using conversion_fails_open [OF quant_init c] sample_fresh c by auto
qed

subsection \<open>A converted layer without its kernels\<close>

definition kernel_fails :: "('a \<times> int) result \<Rightarrow> bool" where
  "kernel_fails r \<longleftrightarrow> (case bindR r check_status of Inl e \<Rightarrow> fallback_error e | Inr _ \<Rightarrow> False)"

definition reference_row :: "'f float_ops \<Rightarrow> quant_kind \<Rightarrow> 'f list \<Rightarrow> 'f list" where
  "reference_row fo kind row = (case kind of W8 \<Rightarrow> dequant_w8_row fo (w8_row fo row) | W4 \<Rightarrow> dequant_w4_row fo (w4_row fo row))"

text \<open>
  A converted layer works without its kernels. When the packed weight of a matrix is applied and the kernels
  cannot be loaded, raise an error of the runtime or report a status other than 0, for one input row and for
  many, no error leaves the layer: the input is multiplied with the weight reconstructed row by row from the packed
  values, and the warning is marked as given.
\<close>

lemma quantized_layer_without_kernels:
  assumes "pack_weight fo env kind w = Inr packed" "wt_shape w = (int (length (wt_rows w)), k)"
    "kernel_fails (lk_dequant lk kind packed)"
    "lk_numel lk x div k = 1 \<Longrightarrow> lk_one_row lk x k = Inr True \<and> kernel_fails (lk_gemv lk kind x packed)"
  shows "quant_linear_impl fo lk x packed kind (int (length (wt_rows w))) k bias warned
    = (lk_linear lk x (map (\<lambda>row. Some (reference_row fo kind row)) (wt_rows w)) bias, True)"
proof -
  let ?rows = "wt_rows w"
  have pos: "?rows \<noteq> []" "0 < k"
    using assms(1,2) by (auto simp: pack_weight_def pack_w4_def pack_w8_def fill_rows_def iter_row_chunks_def bindR_eq_Inr
        split: option.split_asm if_split_asm)
  have packed: "packed = (case kind of W8 \<Rightarrow> Packed_W8 (map (\<lambda>row. Some (w8_row fo row)) ?rows) | W4 \<Rightarrow> Packed_W4 (map (\<lambda>row. Some (w4_row fo row)) ?rows))"
    using assms(1,2) pos by (cases kind) (auto simp: pack_weight_def pack_w4_def pack_w8_def fill_rows_all split: option.split_asm if_split_asm)
  have ref: "dequantize_weight_reference fo packed (int (length ?rows)) k = Inr (map (\<lambda>row. Some (reference_row fo kind row)) ?rows)"
    using pos by (cases kind) (simp_all add: packed dequantize_weight_reference_def fill_rows_all reference_row_def)
  obtain e where "bindR (lk_dequant lk kind packed) check_status = Inl e" "fallback_error e"
    using assms(3) by (auto simp: kernel_fails_def split: sum.split_asm)
  then have lin: "linear_reconstructed fo lk x packed kind (int (length ?rows)) k bias warned'
      = (lk_linear lk x (map (\<lambda>row. Some (reference_row fo kind row)) ?rows) bias, True)" for warned'
    using ref by (simp add: linear_reconstructed_def reconstruct_bf16_weight_def)
  show ?thesis
  proof (cases "lk_numel lk x div k = 1")
    case True
    obtain e where "run_quant_gemv lk x packed kind k = Inl e" "fallback_error e"
      using assms(4) [OF True] by (auto simp: kernel_fails_def run_quant_gemv_def split: sum.split_asm)
    then show ?thesis using pos True lin by (simp add: quant_linear_impl_def)
  next
    case False
    then show ?thesis using pos lin by (simp add: quant_linear_impl_def)
  qed
qed

end
