(* ===== verification/Overlay_Cache.thy ===== *)
theory Overlay_Cache
  imports Prelude
begin

text \<open>
  The allocator, the cache manager and the scheduler that the repository adds beside the engine
  (\<open>src/kv_cache/block_allocator.py\<close>, \<open>src/kv_cache/cache_manager.py\<close>, \<open>src/scheduler/custom_scheduler.py\<close>).
  Decisions the source takes on floating-point numbers are functions of the integers they are taken from; the
  hash of a token prefix is a parameter.
\<close>

subsection \<open>Block allocator\<close>

datatype tier = Small | Medium | Large

definition tier_sizes :: "tier \<Rightarrow> int" where
  "tier_sizes t = (case t of Small \<Rightarrow> 16 | Medium \<Rightarrow> 64 | Large \<Rightarrow> 256)"

text \<open>\<open>ba_defrag_due n m\<close> is the outcome of \<open>n / m > defrag_threshold\<close>.\<close>

record block_allocator =
  ba_num_gpu_blocks :: int
  ba_block_size :: int
  ba_enable_defrag :: bool
  ba_defrag_due :: "int \<Rightarrow> int \<Rightarrow> bool"
  ba_enable_tiered :: bool
  ba_free_blocks :: "int list"
  ba_allocated :: "(int \<times> (int \<times> tier) list) list"

definition allocator_init :: "int \<Rightarrow> int \<Rightarrow> bool \<Rightarrow> (int \<Rightarrow> int \<Rightarrow> bool) \<Rightarrow> bool \<Rightarrow> block_allocator" where
  "allocator_init n bs defrag due tiered =
     \<lparr>ba_num_gpu_blocks = n, ba_block_size = bs, ba_enable_defrag = defrag, ba_defrag_due = due, ba_enable_tiered = tiered,
      ba_free_blocks = [0..n - 1], ba_allocated = []\<rparr>"

definition select_tier :: "int \<Rightarrow> tier" where
  "select_tier num_tokens = (if num_tokens \<le> 1024 then Small else if num_tokens \<le> 8192 then Medium else Large)"

text \<open>The search for \<open>n\<close> consecutive ids in the sorted free list: the index it stops at.\<close>

fun contiguous_loop :: "int list \<Rightarrow> int \<Rightarrow> int list \<Rightarrow> int option result" where
  "contiguous_loop free n [] = Inr None"
| "contiguous_loop free n (i # is) =
     bindR (py_nth free (i + n - 1)) (\<lambda>last_id.
     bindR (py_nth free i) (\<lambda>first_id.
       if last_id - first_id = n - 1 then Inr (Some i) else contiguous_loop free n is))"

definition alloc_contiguous :: "int \<Rightarrow> block_allocator \<Rightarrow> (int list \<times> block_allocator) result" where
  "alloc_contiguous n a =
     (let free = sort (ba_free_blocks a)
      in bindR (contiguous_loop free n [0..int (length free) - n]) (\<lambda>found.
         case found of
           Some i \<Rightarrow> Inr (slice_between free i (i + n), a\<lparr>ba_free_blocks := slice_to free i @ slice_from free (i + n)\<rparr>)
         | None \<Rightarrow> Inr (slice_to free n, a\<lparr>ba_free_blocks := slice_from free n\<rparr>)))"

definition in_use :: "block_allocator \<Rightarrow> int list" where
  "in_use a = concat (map (\<lambda>x. map fst (snd x)) (ba_allocated a))"

definition defragment :: "block_allocator \<Rightarrow> int \<times> block_allocator" where
  "defragment a =
     (let free = filter (\<lambda>b. b \<notin> set (in_use a)) [0..ba_num_gpu_blocks a - 1]
      in (int (length (ba_free_blocks a)) - int (length free), a\<lparr>ba_free_blocks := free\<rparr>))"

text \<open>Without tiers the name \<open>tier\<close> is never bound, and is read for every block.\<close>

definition overlay_allocate :: "int \<Rightarrow> int \<Rightarrow> block_allocator \<Rightarrow> (int list \<times> block_allocator) result" where
  "overlay_allocate seq_id num_tokens a =
     (let tier = (if ba_enable_tiered a then Some (select_tier num_tokens) else None);
          bs = (case tier of Some t \<Rightarrow> tier_sizes t | None \<Rightarrow> ba_block_size a)
      in if bs = 0 then Inl ZeroDivisionError
         else
           bindR (alloc_contiguous ((num_tokens + bs - 1) div bs) a) (\<lambda>(ids, a1).
           bindR (case tier of
                    Some t \<Rightarrow> Inr (map (\<lambda>b. (b, t)) ids)
                  | None \<Rightarrow> if ids = [] then Inr [] else Inl NameError) (\<lambda>tagged.
           let a2 = a1\<lparr>ba_allocated := AList.update seq_id tagged (ba_allocated a1)\<rparr>
           in if ba_enable_defrag a2
              then if ba_num_gpu_blocks a2 = 0 then Inl ZeroDivisionError
                   else if ba_defrag_due a2 (int (length (ba_free_blocks a2))) (ba_num_gpu_blocks a2)
                   then Inr (ids, snd (defragment a2)) else Inr (ids, a2)
              else Inr (ids, a2))))"

definition overlay_free :: "int \<Rightarrow> block_allocator \<Rightarrow> block_allocator" where
  "overlay_free seq_id a =
     (case map_of (ba_allocated a) seq_id of
        None \<Rightarrow> a
      | Some bs \<Rightarrow> a\<lparr>ba_free_blocks := ba_free_blocks a @ map fst bs, ba_allocated := AList.delete seq_id (ba_allocated a)\<rparr>)"

text \<open>Gaps in the sorted free list, over its length; the list is left sorted.\<close>

definition fragmentation_ratio :: "block_allocator \<Rightarrow> (int \<times> int) \<times> block_allocator" where
  "fragmentation_ratio a =
     (if ba_free_blocks a = [] then ((0, 1), a)
      else
        let free = sort (ba_free_blocks a)
        in ((sum_list (map (\<lambda>i. free ! Suc i - free ! i - 1) [0..<length free - 1]), int (length free)),
            a\<lparr>ba_free_blocks := free\<rparr>))"

subsection \<open>Cache manager\<close>

text \<open>\<open>cm_watermark n\<close> is \<open>int(n * watermark)\<close>.\<close>

record cache_manager =
  cm_allocator :: block_allocator
  cm_watermark :: "int \<Rightarrow> int"
  cm_enable_prefix_cache :: bool
  cm_prefix_cache :: "(int \<times> int list) list"
  cm_active_sequences :: "(int \<times> int) list"

definition reserve_decode_headroom :: "int \<Rightarrow> cache_manager \<Rightarrow> bool result" where
  "reserve_decode_headroom max_decode_tokens c =
     (let a = cm_allocator c; bs = ba_block_size a
      in if bs = 0 then Inl ZeroDivisionError
         else Inr (int (length (ba_free_blocks a)) \<ge> (max_decode_tokens + bs - 1) div bs + cm_watermark c (ba_num_gpu_blocks a)))"

definition prefix_key :: "(int list \<Rightarrow> int) \<Rightarrow> int list \<Rightarrow> int" where
  "prefix_key h token_ids = h (take (min (length token_ids) 256) token_ids)"

definition find_prefix :: "(int list \<Rightarrow> int) \<Rightarrow> int list \<Rightarrow> cache_manager \<Rightarrow> int list option" where
  "find_prefix h token_ids c =
     (if cm_enable_prefix_cache c then map_of (cm_prefix_cache c) (prefix_key h token_ids) else None)"

definition cache_prefix :: "(int list \<Rightarrow> int) \<Rightarrow> int list \<Rightarrow> int list \<Rightarrow> cache_manager \<Rightarrow> cache_manager" where
  "cache_prefix h token_ids ids c =
     (if cm_enable_prefix_cache c
      then c\<lparr>cm_prefix_cache := AList.update (prefix_key h token_ids) ids (cm_prefix_cache c)\<rparr> else c)"

fun overlay_evict_loop :: "int \<Rightarrow> int list \<Rightarrow> int \<Rightarrow> cache_manager \<Rightarrow> int \<times> cache_manager" where
  "overlay_evict_loop num_blocks [] freed c = (freed, c)"
| "overlay_evict_loop num_blocks (s # ss) freed c =
     (if freed \<ge> num_blocks then (freed, c)
      else overlay_evict_loop num_blocks ss (freed + dict_get (cm_active_sequences c) s 0)
             (c\<lparr>cm_allocator := overlay_free s (cm_allocator c), cm_active_sequences := AList.delete s (cm_active_sequences c)\<rparr>))"

definition evict_lru :: "int \<Rightarrow> cache_manager \<Rightarrow> int \<times> cache_manager" where
  "evict_lru num_blocks c = overlay_evict_loop num_blocks (sort (map fst (cm_active_sequences c))) 0 c"

subsection \<open>Scheduler\<close>

record scheduled_request =
  sr_priority :: int
  sr_seq_id :: int
  sr_prompt_len :: int
  sr_arrival_time :: int
  sr_is_decode :: bool

text \<open>The data class compares its priority only: that is also what \<open>==\<close> means.\<close>

definition sr_eq :: "scheduled_request \<Rightarrow> scheduled_request \<Rightarrow> bool" where
  "sr_eq a b \<longleftrightarrow> sr_priority a = sr_priority b"

record custom_scheduler =
  cs_max_num_seqs :: int
  cs_max_num_batched_tokens :: int
  cs_fcfs :: bool
  cs_prefill_queue :: "scheduled_request list"
  cs_decode_queue :: "scheduled_request list"

definition cs_add_request :: "scheduled_request \<Rightarrow> custom_scheduler \<Rightarrow> custom_scheduler" where
  "cs_add_request r s =
     (if sr_is_decode r then s\<lparr>cs_decode_queue := cs_decode_queue s @ [r]\<rparr>
      else s\<lparr>cs_prefill_queue := cs_prefill_queue s @ [r]\<rparr>)"

text \<open>\<open>deque.remove\<close>: the first equal element.\<close>

fun deque_remove :: "scheduled_request \<Rightarrow> scheduled_request list \<Rightarrow> scheduled_request list result" where
  "deque_remove r [] = Inl ValueError"
| "deque_remove r (x # xs) = (if sr_eq x r then Inr xs else bindR (deque_remove r xs) (\<lambda>ys. Inr (x # ys)))"

fun prefill_loop ::
  "int \<Rightarrow> int \<Rightarrow> scheduled_request list \<Rightarrow> scheduled_request list \<Rightarrow> int \<Rightarrow> scheduled_request list
   \<Rightarrow> (scheduled_request list \<times> scheduled_request list) result" where
  "prefill_loop max_seqs max_tokens [] batch tokens queue = Inr (batch, queue)"
| "prefill_loop max_seqs max_tokens (r # rs) batch tokens queue =
     (if int (length batch) \<ge> max_seqs then Inr (batch, queue)
      else if tokens + sr_prompt_len r > max_tokens then prefill_loop max_seqs max_tokens rs batch tokens queue
      else bindR (deque_remove r queue) (\<lambda>queue'.
             prefill_loop max_seqs max_tokens rs (batch @ [r]) (tokens + sr_prompt_len r) queue'))"

definition schedule_length_aware :: "custom_scheduler \<Rightarrow> (scheduled_request list \<times> custom_scheduler) result" where
  "schedule_length_aware s =
     (let k = nat (cs_max_num_seqs s); batch = take k (cs_decode_queue s)
      in bindR (prefill_loop (cs_max_num_seqs s) (cs_max_num_batched_tokens s) (sort_key sr_prompt_len (cs_prefill_queue s))
                  batch (int (length batch)) (cs_prefill_queue s)) (\<lambda>(batch', queue).
         Inr (batch', s\<lparr>cs_decode_queue := drop k (cs_decode_queue s), cs_prefill_queue := queue\<rparr>)))"

fun fcfs_loop :: "int \<Rightarrow> int \<Rightarrow> scheduled_request list \<Rightarrow> scheduled_request list \<Rightarrow> int \<Rightarrow> scheduled_request list" where
  "fcfs_loop max_seqs max_tokens [] batch tokens = batch"
| "fcfs_loop max_seqs max_tokens (r # rs) batch tokens =
     (let n = (if sr_is_decode r then 1 else sr_prompt_len r)
      in if int (length batch) \<ge> max_seqs then batch
         else if tokens + n \<le> max_tokens then fcfs_loop max_seqs max_tokens rs (batch @ [r]) (tokens + n)
         else fcfs_loop max_seqs max_tokens rs batch tokens)"

definition schedule_fcfs :: "custom_scheduler \<Rightarrow> scheduled_request list" where
  "schedule_fcfs s =
     fcfs_loop (cs_max_num_seqs s) (cs_max_num_batched_tokens s) (cs_decode_queue s @ cs_prefill_queue s) [] 0"

definition custom_schedule :: "custom_scheduler \<Rightarrow> (scheduled_request list \<times> custom_scheduler) result" where
  "custom_schedule s = (if cs_fcfs s then Inr (schedule_fcfs s, s) else schedule_length_aware s)"

definition queue_depth :: "custom_scheduler \<Rightarrow> int \<times> int" where
  "queue_depth s = (int (length (cs_prefill_queue s)), int (length (cs_decode_queue s)))"

subsection \<open>The allocator keeps its blocks\<close>

lemma sort_split:
  assumes "0 \<le> i" "0 \<le> n" "i + n \<le> int (length xs)"
  shows "mset (slice_between xs i (i + n)) + mset (slice_to xs i @ slice_from xs (i + n)) = mset xs"
    "length (slice_between xs i (i + n)) = nat n"
proof -
  have "xs = take (nat i) xs @ drop (nat i) (take (nat (i + n)) xs) @ drop (nat (i + n)) xs"
    using assms by (metis add.commute append_assoc append_take_drop_id le_add_same_cancel2 min.absorb1 nat_mono take_take)
  from arg_cong [OF this, of mset] show "mset (slice_between xs i (i + n)) + mset (slice_to xs i @ slice_from xs (i + n)) = mset xs"
    using assms by (simp add: ac_simps)
  have "nat i + nat n \<le> length xs" using assms by linarith
  then show "length (slice_between xs i (i + n)) = nat n" using assms by (simp add: nat_add_distrib)
qed

lemma contiguous_loop_total:
  assumes "0 < n" "\<forall>i \<in> set is. 0 \<le> i \<and> i + n \<le> int (length xs)"
  shows "\<exists>r. contiguous_loop xs n is = Inr r \<and> (\<forall>i. r = Some i \<longrightarrow> i \<in> set is)"
  using assms(2)
proof (induction "is")
  case (Cons i "is")
  have i: "0 \<le> i" "nat i < length xs" "0 \<le> i + n - 1" "nat (i + n - 1) < length xs" using Cons.prems assms(1) by auto
  show ?case
  proof (cases "xs ! nat (i + n - 1) - xs ! nat i = n - 1")
    case True
    then show ?thesis using i by simp
  next
    case False
    then have "contiguous_loop xs n (i # is) = contiguous_loop xs n is" using i by simp
    then show ?thesis using Cons by auto
  qed
qed simp

text \<open>A positive number of blocks is always answered, with as many blocks as there are if they are too few.\<close>

lemma alloc_contiguous_spec:
  assumes "0 < n"
  shows "\<exists>ids free. alloc_contiguous n a = Inr (ids, a\<lparr>ba_free_blocks := free\<rparr>)
    \<and> mset ids + mset free = mset (ba_free_blocks a) \<and> int (length ids) = min n (int (length (ba_free_blocks a)))"
proof -
  let ?xs = "sort (ba_free_blocks a)"
  obtain r where r: "contiguous_loop ?xs n [0..int (length ?xs) - n] = Inr r" "\<forall>i. r = Some i \<longrightarrow> i \<in> set [0..int (length ?xs) - n]"
    using contiguous_loop_total [OF assms, of "[0..int (length ?xs) - n]" ?xs] by auto
  show ?thesis
  proof (cases r)
    case None
    have "mset (take (nat n) ?xs) + mset (drop (nat n) ?xs) = mset (ba_free_blocks a)"
      by (metis append_take_drop_id mset_append mset_sort)
    moreover have "alloc_contiguous n a = Inr (take (nat n) ?xs, a\<lparr>ba_free_blocks := drop (nat n) ?xs\<rparr>)"
      using r(1) None assms by (simp add: alloc_contiguous_def Let_def)
    moreover have "int (length (take (nat n) ?xs)) = min n (int (length (ba_free_blocks a)))" using assms by simp
    ultimately show ?thesis by blast
  next
    case (Some i)
    then have i: "0 \<le> i" "i + n \<le> int (length ?xs)" using r(2) by auto
    note s = sort_split [OF i(1) _ i(2)]
    have "int (length (slice_between ?xs i (i + n))) = min n (int (length (ba_free_blocks a)))" using s(2) i assms by simp
    moreover have "alloc_contiguous n a = Inr (slice_between ?xs i (i + n), a\<lparr>ba_free_blocks := slice_to ?xs i @ slice_from ?xs (i + n)\<rparr>)"
      using r(1) Some by (simp add: alloc_contiguous_def Let_def)
    moreover have "mset (slice_between ?xs i (i + n)) + mset (slice_to ?xs i @ slice_from ?xs (i + n)) = mset (ba_free_blocks a)"
      using s(1) assms by simp
    ultimately show ?thesis by blast
  qed
qed

definition blocks_kept :: "block_allocator \<Rightarrow> bool" where
  "blocks_kept a \<longleftrightarrow> mset (ba_free_blocks a) + mset (in_use a) = mset [0..ba_num_gpu_blocks a - 1]
     \<and> distinct (map fst (ba_allocated a)) \<and> 0 < ba_num_gpu_blocks a \<and> ba_enable_tiered a"

lemma in_use_update: "s \<notin> dict_keys d \<Longrightarrow> concat (map (\<lambda>x. map fst (snd x)) (AList.update s v d)) = concat (map (\<lambda>x. map fst (snd x)) d) @ map fst v"
  by (induction d) auto

lemma in_use_delete:
  "distinct (map fst d) \<Longrightarrow> map_of d s = Some v \<Longrightarrow>
   mset (concat (map (\<lambda>x. map fst (snd x)) d)) = mset (map fst v) + mset (concat (map (\<lambda>x. map fst (snd x)) (AList.delete s d)))"
proof (induction d)
  case (Cons x d)
  show ?case
  proof (cases "fst x = s")
    case True
    then have "s \<notin> fst ` set d" using Cons.prems(1) by auto
    then have "AList.delete s d = d" by (rule AList.delete_id)
    then show ?thesis using True Cons.prems(2) by (cases x) (simp add: AList.delete_eq)
  next
    case False
    then show ?thesis using Cons by (cases x) (auto simp: AList.delete_eq)
  qed
qed simp

lemma blocks_kept_distinct: "blocks_kept a \<Longrightarrow> distinct (ba_free_blocks a @ in_use a)"
  by (metis blocks_kept_def distinct_upto mset_append mset_eq_imp_distinct_iff)

lemma defragment_keeps:
  assumes "blocks_kept a"
  shows "blocks_kept (snd (defragment a))"
proof -
  have d: "distinct (ba_free_blocks a)" "distinct (in_use a)" "set (ba_free_blocks a) \<inter> set (in_use a) = {}"
    using blocks_kept_distinct [OF assms] by auto
  have s: "set (ba_free_blocks a) \<union> set (in_use a) = {0..ba_num_gpu_blocks a - 1}"
    using assms mset_eq_setD [of "ba_free_blocks a @ in_use a" "[0..ba_num_gpu_blocks a - 1]"] by (auto simp: blocks_kept_def)
  have "mset (filter (\<lambda>b. b \<notin> set (in_use a)) [0..ba_num_gpu_blocks a - 1]) = mset (ba_free_blocks a)"
    using d s by (intro set_eq_iff_mset_eq_distinct [THEN iffD1]) auto
  then show ?thesis using assms by (simp add: defragment_def Let_def blocks_kept_def in_use_def)
qed

lemma round_up_div:
  assumes "0 < b"
  shows "(a + b - 1) div b = cdiv a b"
proof -
  have "cdiv a b \<le> k \<longleftrightarrow> (a + b - 1) div b \<le> k" for k
  proof -
    have "(a + b - 1) div b \<le> k \<longleftrightarrow> \<not> (k + 1) * b \<le> a + b - 1"
      using le_div_int_iff [OF assms, of "k + 1" "a + b - 1"] by linarith
    then show ?thesis using cdiv_le_iff [OF assms, of a k] by (auto simp: algebra_simps)
  qed
  then show ?thesis by (metis order.antisym order.refl)
qed

lemma allocate_keeps:
  assumes k: "blocks_kept a" and s: "s \<notin> dict_keys (ba_allocated a)" and n: "0 < num_tokens"
  shows "\<exists>ids a'. overlay_allocate s num_tokens a = Inr (ids, a') \<and> blocks_kept a'
    \<and> int (length ids) = min (cdiv num_tokens (tier_sizes (select_tier num_tokens))) (int (length (ba_free_blocks a)))
    \<and> distinct ids \<and> set ids \<subseteq> set (ba_free_blocks a) \<and> map_of (ba_allocated a') s = Some (map (\<lambda>b. (b, select_tier num_tokens)) ids)"
proof -
  let ?t = "select_tier num_tokens"
  let ?b = "tier_sizes ?t"
  have b: "0 < ?b" by (simp add: tier_sizes_def split: tier.split)
  have c: "(num_tokens + ?b - 1) div ?b = cdiv num_tokens ?b" by (rule round_up_div [OF b])
  have pos: "0 < cdiv num_tokens ?b" using cdiv_le_iff [OF b, of num_tokens 0] n by simp
  obtain ids free where e: "alloc_contiguous (cdiv num_tokens ?b) a = Inr (ids, a\<lparr>ba_free_blocks := free\<rparr>)"
    "mset ids + mset free = mset (ba_free_blocks a)" "int (length ids) = min (cdiv num_tokens ?b) (int (length (ba_free_blocks a)))"
    using alloc_contiguous_spec [OF pos] by blast
  let ?tag = "map (\<lambda>b. (b, ?t)) ids"
  let ?a = "a\<lparr>ba_free_blocks := free, ba_allocated := AList.update s ?tag (ba_allocated a)\<rparr>"
  have m: "map fst ?tag = ids" by (simp add: comp_def)
  have "mset free + mset (in_use ?a) = mset [0..ba_num_gpu_blocks a - 1]"
    using k e(2) in_use_update [OF s, of ?tag] m by (simp add: blocks_kept_def in_use_def ac_simps flip: e(2))
  then have kept: "blocks_kept ?a" using k by (simp add: blocks_kept_def)
  have d: "distinct ids" "set ids \<subseteq> set (ba_free_blocks a)"
  proof -
    have "distinct (ids @ free)" using blocks_kept_distinct [OF k] e(2)
      by (metis distinct_append mset_append mset_eq_imp_distinct_iff)
    then show "distinct ids" by simp
    show "set ids \<subseteq> set (ba_free_blocks a)" using mset_eq_setD [of "ids @ free" "ba_free_blocks a"] e(2) by auto
  qed
  have look: "map_of (ba_allocated ?a) s = Some ?tag" by (simp add: update_conv')
  have run: "\<exists>a'. overlay_allocate s num_tokens a = Inr (ids, a') \<and> (a' = ?a \<or> a' = snd (defragment ?a))"
    using k b e(1) by (simp add: overlay_allocate_def Let_def c blocks_kept_def)
  moreover have "blocks_kept (snd (defragment ?a))" "ba_allocated (snd (defragment ?a)) = ba_allocated ?a"
    using defragment_keeps [OF kept] by (simp_all add: defragment_def Let_def)
  ultimately show ?thesis using kept e(3) d look by metis
qed

lemma free_keeps:
  assumes "blocks_kept a"
  shows "blocks_kept (overlay_free s a)"
proof (cases "map_of (ba_allocated a) s")
  case (Some v)
  have "mset (in_use a) = mset (map fst v) + mset (in_use (overlay_free s a))"
    using in_use_delete [OF _ Some] assms Some by (simp add: in_use_def overlay_free_def blocks_kept_def)
  then show ?thesis using assms Some by (simp add: blocks_kept_def overlay_free_def ac_simps)
qed (use assms in \<open>simp add: overlay_free_def\<close>)

inductive alloc_reach :: "block_allocator \<Rightarrow> bool" where
  alloc_init: "0 < n \<Longrightarrow> alloc_reach (allocator_init n bs defrag due True)"
| alloc_allocate: "alloc_reach a \<Longrightarrow> s \<notin> dict_keys (ba_allocated a) \<Longrightarrow> 0 < n \<Longrightarrow> overlay_allocate s n a = Inr (ids, a') \<Longrightarrow> alloc_reach a'"
| alloc_free: "alloc_reach a \<Longrightarrow> alloc_reach (overlay_free s a)"
| alloc_defragment: "alloc_reach a \<Longrightarrow> alloc_reach (snd (defragment a))"
| alloc_ratio: "alloc_reach a \<Longrightarrow> alloc_reach (snd (fragmentation_ratio a))"

inductive_cases alloc_reachE: "alloc_reach a"

lemma alloc_reach_kept: "alloc_reach a \<Longrightarrow> blocks_kept a"
proof (induction rule: alloc_reach.induct)
  case (alloc_allocate a s n ids a')
  then show ?case using allocate_keeps [of a s n] by auto
next
  case (alloc_ratio a)
  then show ?case by (cases "ba_free_blocks a = []") (simp_all add: fragmentation_ratio_def Let_def blocks_kept_def in_use_def)
qed (simp_all add: free_keeps defragment_keeps, simp add: allocator_init_def blocks_kept_def in_use_def)

text \<open>
  C37: The allocator neither loses a block nor gives it to two sequences. After any history of allocations for new
  sequences, releases and defragmentations, with tiers, every block is either free or held by exactly one sequence
  once; and the next allocation never raises and hands out free blocks, as many as the tokens need in the block
  size of their tier or, without an error, all that are left if those are fewer.
\<close>

theorem allocator_partitions_blocks:
  assumes "alloc_reach a" "s \<notin> dict_keys (ba_allocated a)" "0 < num_tokens"
  shows "mset (ba_free_blocks a @ in_use a) = mset [0..ba_num_gpu_blocks a - 1]
    \<and> (\<exists>ids a'. overlay_allocate s num_tokens a = Inr (ids, a') \<and> distinct ids \<and> set ids \<subseteq> set (ba_free_blocks a)
        \<and> int (length ids) = min (cdiv num_tokens (tier_sizes (select_tier num_tokens))) (int (length (ba_free_blocks a)))
        \<and> mset (ba_free_blocks a' @ in_use a') = mset [0..ba_num_gpu_blocks a - 1])"
proof -
  have k: "blocks_kept a" by (rule alloc_reach_kept [OF assms(1)])
  obtain ids a' where a': "overlay_allocate s num_tokens a = Inr (ids, a')" "blocks_kept a'" "distinct ids" "set ids \<subseteq> set (ba_free_blocks a)"
    "int (length ids) = min (cdiv num_tokens (tier_sizes (select_tier num_tokens))) (int (length (ba_free_blocks a)))"
    using allocate_keeps [OF k assms(2,3)] by blast
  have "ba_num_gpu_blocks a' = ba_num_gpu_blocks a"
    using a'(1) by (auto simp: overlay_allocate_def alloc_contiguous_def defragment_def Let_def bindR_eq_Inr
        split: if_split_asm option.split_asm)
  then show ?thesis using k a' by (auto simp: blocks_kept_def)
qed

theorem allocator_partitions_blocks_witness:
  "\<exists>a. map_sum id snd (overlay_allocate 1 40 (allocator_init 5 16 True (\<lambda>_ _. False) True)) = Inr a
     \<and> mset (ba_free_blocks a @ in_use a) = mset [0..4] \<and> (\<exists>ids a'. overlay_allocate 2 40 a = Inr (ids, a') \<and> int (length ids) = 2)"
proof -
  let ?a0 = "allocator_init 5 16 True (\<lambda>_ _. False) True"
  have "map_sum id (\<lambda>(ids, a). (ba_free_blocks a, map fst (ba_allocated a), ba_num_gpu_blocks a)) (overlay_allocate 1 40 ?a0) = Inr ([3, 4], [1], 5)"
    by code_simp
  then obtain ids a where a: "overlay_allocate 1 40 ?a0 = Inr (ids, a)" "ba_free_blocks a = [3, 4]" "map fst (ba_allocated a) = [1]"
    "ba_num_gpu_blocks a = 5" by (cases "overlay_allocate 1 40 ?a0") auto
  have "alloc_reach a"
    by (rule alloc_allocate [OF alloc_init _ _ a(1)]) (simp_all add: allocator_init_def)
  moreover have "2 \<notin> dict_keys (ba_allocated a)" using a(3) by (metis empty_iff insert_iff list.set_map list.set(1,2) numeral_eq_one_iff semiring_norm(85))
  moreover have "cdiv 40 (tier_sizes (select_tier 40)) = 3" by code_simp
  ultimately show ?thesis using allocator_partitions_blocks [of a 2 40] a by auto
qed

text \<open>Without tiers every allocation of a block raises: the tier is tagged on the blocks but never chosen.\<close>

lemma untiered_allocation_raises:
  assumes "\<not> ba_enable_tiered a" "0 < ba_block_size a" "0 < num_tokens" "ba_free_blocks a \<noteq> []"
  shows "overlay_allocate s num_tokens a = Inl NameError"
proof -
  let ?n = "(num_tokens + ba_block_size a - 1) div ba_block_size a"
  have n: "0 < ?n" using cdiv_le_iff [OF assms(2), of num_tokens 0] assms(3) by (simp add: round_up_div [OF assms(2)])
  obtain ids free where e: "alloc_contiguous ?n a = Inr (ids, a\<lparr>ba_free_blocks := free\<rparr>)" "int (length ids) = min ?n (int (length (ba_free_blocks a)))"
    using alloc_contiguous_spec [OF n] by blast
  then have "ids \<noteq> []" using n assms(4) by (cases ids) (auto simp: min_def split: if_split_asm)
  then show ?thesis using e(1) assms(1,2) by (simp add: overlay_allocate_def Let_def)
qed

subsection \<open>The length-aware scheduler\<close>

text \<open>
  When all waiting requests have different priorities, what is scheduled and what stays is what was there, within the
  limits on sequences and, apart from decoding, tokens.
\<close>

lemma deque_remove_unique:
  "distinct (map sr_priority q) \<Longrightarrow> r \<in> set q \<Longrightarrow> \<exists>q'. deque_remove r q = Inr q' \<and> mset q = add_mset r (mset q') \<and> distinct (map sr_priority q')
    \<and> set q' \<subseteq> set q"
proof (induction q)
  case (Cons x q)
  show ?case
  proof (cases "sr_eq x r")
    case True
    then have "x = r" using Cons.prems by (force simp: sr_eq_def)
    then show ?thesis using True Cons.prems by auto
  next
    case False
    then have "r \<in> set q" using Cons.prems by (auto simp: sr_eq_def)
    with Cons.IH Cons.prems obtain q' where "deque_remove r q = Inr q'" "mset q = add_mset r (mset q')" "distinct (map sr_priority q')" "set q' \<subseteq> set q"
      by auto
    then show ?thesis using False Cons.prems by auto
  qed
qed simp

lemma prefill_loop_conserves:
  assumes "distinct (map sr_priority queue)" "mset rs \<subseteq># mset queue"
  shows "\<exists>batch' queue'. prefill_loop max_seqs max_tokens rs batch tokens queue = Inr (batch', queue')
    \<and> mset batch' + mset queue' = mset batch + mset queue \<and> (int (length batch) \<le> max_seqs \<longrightarrow> int (length batch') \<le> max_seqs)"
  using assms
proof (induction rs arbitrary: batch tokens queue)
  case (Cons r rs)
  have "r \<in># mset queue" by (rule mset_subset_eqD [OF Cons.prems(2)]) simp
  moreover have "mset rs \<subseteq># mset queue" by (rule subset_mset.trans [OF _ Cons.prems(2)]) simp
  ultimately have sub: "mset rs \<subseteq># mset queue" "r \<in> set queue" by simp_all
  obtain q' where q: "deque_remove r queue = Inr q'" "mset queue = add_mset r (mset q')" "distinct (map sr_priority q')"
    using deque_remove_unique [OF Cons.prems(1) sub(2)] by blast
  have "mset rs \<subseteq># mset q'" using Cons.prems(2) q(2) by simp
  note go = Cons.IH [OF q(3) this, of "batch @ [r]" "tokens + sr_prompt_len r"] and skip = Cons.IH [OF Cons.prems(1) sub(1), of batch tokens]
  show ?case
  proof (cases "int (length batch) \<ge> max_seqs")
    case True
    then show ?thesis by simp
  next
    case room: False
    show ?thesis
    proof (cases "tokens + sr_prompt_len r > max_tokens")
      case True
      then show ?thesis using room skip by simp
    next
      case False
      from go obtain b' qq where "prefill_loop max_seqs max_tokens rs (batch @ [r]) (tokens + sr_prompt_len r) q' = Inr (b', qq)"
        "mset b' + mset qq = mset (batch @ [r]) + mset q'" "int (length (batch @ [r])) \<le> max_seqs \<longrightarrow> int (length b') \<le> max_seqs" by blast
      then show ?thesis using room False q by auto
    qed
  qed
qed simp

text \<open>
  With equal priorities it does not: requests compare equal when their priorities are equal, so removing a scheduled
  request removes the first request of that priority. Here the long request, which was not scheduled, leaves the
  queue, and the short one, which was, stays in it.
\<close>

definition sample_queue :: custom_scheduler where
  "sample_queue = \<lparr>cs_max_num_seqs = 4, cs_max_num_batched_tokens = 50, cs_fcfs = False,
     cs_prefill_queue = [\<lparr>sr_priority = 0, sr_seq_id = 1, sr_prompt_len = 100, sr_arrival_time = 0, sr_is_decode = False\<rparr>,
                         \<lparr>sr_priority = 0, sr_seq_id = 2, sr_prompt_len = 10, sr_arrival_time = 1, sr_is_decode = False\<rparr>],
     cs_decode_queue = []\<rparr>"

lemma length_aware_drops_request:
  "map_sum id (\<lambda>(batch, s). (map sr_seq_id batch, map sr_seq_id (cs_prefill_queue s))) (custom_schedule sample_queue) = Inr ([2], [2])"
  by code_simp

text \<open>The other policy leaves what it schedules in the queues.\<close>

lemma fcfs_keeps_scheduled: "cs_fcfs s \<Longrightarrow> custom_schedule s = Inr (batch, s') \<Longrightarrow> s' = s"
  by (simp add: custom_schedule_def)

end
