(* ===== verification/Spec2Isabelle.thy ===== *)
theory Spec2Isabelle
  imports Prelude Free_Block_Queue Request_Model Block_Hash KV_Cache_Metrics Block_Pool Single_Type_Manager
    Coordinator Hybrid_Search Cache_Stats KV_Cache_Manager Request_Queue Encoder_Cache
    Scheduler_State Scheduler_Step Scheduler_Output Scheduler_Example Allocation_Frame Scheduler_Limits
    Scheduler_Progress Scheduler_Findings Cached_Slots Block_Table Cache_Config KV_Offload Ngram_Proposer
    Rejection_Sampler Spec_Metadata Online_Quant Overlay_Cache
begin

text \<open>
  Verification of the serving core of the engine under \<open>vllm/v1/core\<close>: how requests are queued and
  scheduled, how the KV cache is laid out from memory, divided into blocks, shared between requests and reused by
  prefix; and of the parts around it that carry their own logic: the block tables of the workers, the offloading of
  blocks to host memory,
  speculative decoding with n-grams and the check of its drafts, the quantization of weights for gfx936 and the allocator and scheduler of the overlay.

  \<^bold>\<open>The program.\<close> The engine adds requests to a scheduler (\<open>sched/scheduler.py\<close>). In every step the scheduler
  decides how many tokens of which request the workers compute, asks the KV cache manager
  (\<open>kv_cache_manager.py\<close>) for room, and preempts requests when there is none. The cache manager works
  through a coordinator (\<open>kv_cache_coordinator.py\<close>) of several groups of layers, each with a manager for its type
  of attention (\<open>single_type_kv_cache_manager.py\<close>); all groups take blocks from one pool (\<open>block_pool.py\<close>) with
  reference counts, an index from block hashes to blocks and a doubly linked queue of free blocks in eviction
  order (\<open>kv_cache_utils.py\<close>). A request (\<open>request.py\<close>) carries its tokens and the chain of hashes of its full
  blocks, by which other requests find and share them. Encoder outputs of multi-modal inputs have a cache
  of their own (\<open>encoder_cache_manager.py\<close>), waiting requests sit in queues with one of two policies
  (\<open>request_queue.py\<close>), and counters record what happens (\<open>kv_cache_metrics.py\<close>, \<open>metrics/stats.py\<close>).
  Before the first step the specs of the layers (\<open>kv_cache_interface.py\<close>) are grouped and the number of blocks
  is derived from the memory of each worker (\<open>kv_cache_utils.py\<close>). A worker keeps the block ids of its requests in
  tables and computes from them the slots it writes (\<open>worker/block_table.py\<close>); its linear layers may be replaced by
  layers with 8-bit or packed 4-bit weights when they are loaded (\<open>gfx936_online_quant.py\<close>).

  \<^bold>\<open>Conventions.\<close> An object is a record and a method a function that returns the changed record; an exception
  is a left value of \<open>py_error + 'a\<close>, so every assertion, failed lookup and raise of the source is a branch
  of the model. Objects that several places share live in stores: blocks under block references, requests under
  their ids. A Python dictionary is an association list in insertion order, a set that is iterated is a list
  in the order it yields. Integers are unbounded as in Python; bytes are \<open>8 word\<close>, and packed weights are
  \<open>8 word\<close> and \<open>32 word\<close> with their bit operations. Where a kernel multiplies in 32 bits the bound is a hypothesis of
  the theorem. Floating-point arithmetic is a parameter (\<open>Online_Quant\<close>) or exact rational arithmetic where the
  result is a ratio.

  \<^bold>\<open>Theories.\<close>
  \<^item> \<open>Prelude\<close>: exceptions, Python division, slices, indexing and dictionaries; shared lemmas on lists.
  \<^item> \<open>Free_Block_Queue\<close>: the doubly linked queue of \<open>FreeKVCacheBlockQueue\<close> in a store, refined by a list.
  \<^item> \<open>Request_Model\<close>: \<open>Request\<close>, its status, \<open>check_stop\<close> and repetition detection (\<open>sched/utils.py\<close>).
  \<^item> \<open>Block_Hash\<close>: the hash chain with its extra keys, incremental hashing, keys with group ids.
  \<^item> \<open>KV_Cache_Metrics\<close>: the sampling collector of block lifetimes.
  \<^item> \<open>Block_Pool\<close>: the hash index and the pool with every operation, and its invariant over all histories.
  \<^item> \<open>Single_Type_Manager\<close>: the managers of full, sliding-window, chunked-local, Mamba, cross and sink attention.
  \<^item> \<open>Coordinator\<close>, \<open>Hybrid_Search\<close>: several groups over one pool, and the fixed-point search for a common hit.
  \<^item> \<open>KV_Cache_Manager\<close>: \<open>KVCacheBlocks\<close>, lookup, \<open>allocate_slots\<close> in its stages, the remaining calls.
    \<open>Cached_Slots\<close>: what the whole call \<open>allocate_slots\<close> decides, hands out and puts into the prefix cache.
  \<^item> \<open>Cache_Stats\<close>: hit counters, the window of recent requests, the breakdown of prompt tokens.
  \<^item> \<open>Request_Queue\<close>: both queue policies over the algorithms of \<open>heapq\<close>; \<open>Request.__lt__\<close>.
  \<^item> \<open>Encoder_Cache\<close>: both encoder cache managers.
  \<^item> \<open>Scheduler_State\<close>, \<open>Scheduler_Step\<close>, \<open>Scheduler_Output\<close>: the scheduler's state and the calls that move
    requests, \<open>schedule\<close>, and \<open>update_from_output\<close>, for the plain and the asynchronous scheduler.
  \<^item> \<open>Scheduler_Example\<close>: small schedulers to evaluate. \<open>Allocation_Frame\<close>: what an allocation leaves of the request
    it is made for. \<open>Scheduler_Limits\<close>: the invariant of both passes of a step, with preemption.
    \<open>Scheduler_Progress\<close>: the oldest running request is served.
    \<open>Scheduler_Findings\<close>: the stale hashes of a continued session, and runs in which sessions, preemption or the
    minimal length go wrong.
  \<^item> \<open>Block_Table\<close>: the block tables of the workers, their copies to the device and the slots of tokens.
  \<^item> \<open>Overlay_Cache\<close>: the block allocator, cache manager and scheduler under \<open>src/kv_cache\<close> and \<open>src/scheduler\<close>.
  \<^item> \<open>KV_Offload\<close>: the managers of blocks in host memory, least recently used and adaptive replacement, and the filter
    for reused blocks; their interface is a locale that all of them interpret.
  \<^item> \<open>Ngram_Proposer\<close>: draft tokens by prompt lookup, with the one-pass search for the longest n-gram.
  \<^item> \<open>Rejection_Sampler\<close>: the kernels that accept or replace draft tokens, their launch and the parsing of their output
    (\<open>sample/rejection_sampler.py\<close>). \<open>Spec_Metadata\<close>: where the drafts of a batch lie
    (\<open>_calc_spec_decode_metadata\<close>), and the composition from scheduled tokens to accepted tokens.
  \<^item> \<open>Online_Quant\<close>: packing of weights to 8 and 4 bits, admission and conversion of layers (\<open>gfx936_online_quant.py\<close>).
  \<^item> \<open>Cache_Config\<close>: specs of layers, their grouping, and the layout of the cache tensors from the memory of the workers.

  \<^bold>\<open>What the lemmas show.\<close> The free queue behaves as a list in eviction order (a refinement, errors included). The
  pool's free queue holds exactly the unreferenced blocks after any history of calls, and its index agrees
  with the blocks; with several groups, without external tokens, align mode and sinks, the reference counts are the numbers of
  holders and within a group no request holds a block twice. For requests without multi-modal features, equal block
  hashes mean equal prefixes, and hashes kept incrementally equal those computed from scratch. A hit is usable for its type of attention, and with at most one kind of full attention the hybrid search ends with
  a hit that all groups agree on. Admission, allocation and caching agree: \<open>allocate_slots\<close> never raises for an admissible
  request, refuses it exactly when too few blocks are free, and files the full blocks it settles so that a lookup finds them; and a
  lookup can always be handed to it. Queues keep their contract and the priority queue serves in order as long as
  queued requests keep what orders them; the
  encoder cache accounts for its slots. A scheduling step loses no request and keeps its limits, so the assertions at
  its end hold; and the oldest running request makes progress unless the cache, emptied of the others, is too small for it. The binary search for the longest context finds it,
  and the tensors of a checked configuration have, for each layer, the page size of its spec times the number of blocks on every worker. The rows
  of a block table are the block lists of the requests through all moves, the device copy is current after a
  commit, and different tokens get different slots, with context parallelism too. Blocks offloaded to host memory
  are accounted for over any history (with adaptive replacement, if stores fail only for blocks not ready), and those in use are not evicted. The drafts of the n-gram
  proposer are those of an exhaustive search; checking drafts gives a greedy request the tokens it would get without
  drafts, and a request with a temperature its accepted drafts and one token with the greatest score. Packing to 4 bits and unpacking
  is the identity, the quantization error in exact arithmetic is at most half a step of the scale, and a layer that cannot be converted keeps
  its parameters, buffers and attributes, an installation that fails half-way being rolled back. The overlay's allocator partitions its blocks. Some theorems record where the code departs from
  what it means to do: blocks completed later are hashed without all their images, a continued session keeps the hashes of
  tokens it dropped, a failed store loses a host block, an allocation with external tokens takes a hit of another group, and
  encoder slots are released more than once.

  \<^bold>\<open>Loops.\<close> Most loops are recursive functions with termination proofs: the preemption loop by the length of the
  running list, the running pass by the distance to its end, the waiting pass by the number of queued
  requests, the binary search by the width of its interval. Fuel is used twice, and is proved to be enough: the hasher gets one more than the number of tokens,
  the hybrid search the maximal length plus two. Running out of fuel is the value \<open>Diverges\<close>. The loop of
  the n-gram search is a partial function, proved to end within twice as many rounds as there are tokens.

  \<^bold>\<open>Parameters.\<close> The hash function, the clock and the sampler of the metrics, the KV connector, the encoder-cache
  connector and the grammars are arguments, with what is relied on stated as hypotheses. The sampler, the logits
  processors, the sampling constraints and argmax are functions on rows of logits, and errors of torch while a layer is converted
  are arguments. The rejection kernels get probabilities and random numbers as arrays over an ordered field.

  \<^bold>\<open>Not modelled.\<close> The model runner, but for the layout of drafts, and the models compute on device tensors; kernels, the other quantization
  layers, distributed communication, entry points and the launch scripts are bindings, third-party calls or I/O.
  The profiling of the free memory is a number given to \<open>Cache_Config\<close>; log events, tracing and printing are left out.
\<close>

end
